(* ===== verification/AV_Prelude.thy ===== *)
theory AV_Prelude
  imports Complex_Main "HOL-Library.Word"
begin

text \<open>
  Shared vocabulary of the development: the C integer types of the sources as HOL types, the
  limits of \<^verbatim>\<open>limits.h\<close>/\<^verbatim>\<open>stdint.h\<close>, the error codes of \<^verbatim>\<open>libavutil/error.h\<close>, the small
  macros of \<^verbatim>\<open>libavutil/common.h\<close>, and the lemmas on words, division and lists that more than
  one component needs.

  Conventions: a signed C integer (\<^verbatim>\<open>int\<close>, \<^verbatim>\<open>int64_t\<close>) is a HOL \<open>int\<close> in its range, and every
  operation whose result may leave the range of its C type is wrapped by \<open>s32\<close> or \<open>s64\<close>
  (two's complement); an unsigned C integer on which the code relies on wrap-around or on bits is
  a word; a size or an index (\<^verbatim>\<open>size_t\<close>, \<^verbatim>\<open>unsigned\<close>) that the code keeps free of wrap-around is
  a \<open>nat\<close>, with the invariant that justifies it proved beside it.
\<close>

unbundle bit_operations_syntax

section \<open>C integers\<close>

type_synonym u8 = "8 word"
type_synonym u16 = "16 word"
type_synonym u32 = "32 word"
type_synonym u64 = "64 word"

abbreviation INT_MAX :: int where "INT_MAX \<equiv> 2147483647"
abbreviation INT_MIN :: int where "INT_MIN \<equiv> - 2147483648"
abbreviation INT64_MAX :: int where "INT64_MAX \<equiv> 9223372036854775807"
abbreviation INT64_MIN :: int where "INT64_MIN \<equiv> - 9223372036854775808"
abbreviation AV_NOPTS_VALUE :: int where "AV_NOPTS_VALUE \<equiv> INT64_MIN"
abbreviation SIZE_MAX :: nat where "SIZE_MAX \<equiv> 18446744073709551615"

text \<open>The ranges of \<^verbatim>\<open>int\<close> and \<^verbatim>\<open>int64_t\<close>, and the wrap-around into them.\<close>

definition in_s32 :: "int \<Rightarrow> bool" where
  "in_s32 x \<longleftrightarrow> INT_MIN \<le> x \<and> x \<le> INT_MAX"

definition in_s64 :: "int \<Rightarrow> bool" where
  "in_s64 x \<longleftrightarrow> INT64_MIN \<le> x \<and> x \<le> INT64_MAX"

definition s32 :: "int \<Rightarrow> int" where
  "s32 x = signed_take_bit 31 x"

definition s64 :: "int \<Rightarrow> int" where
  "s64 x = signed_take_bit 63 x"

named_theorems c_range \<comment> \<open>range facts: when a C operation does not wrap\<close>

text \<open>The value of a signed expression converted to \<^verbatim>\<open>uint64_t\<close>.\<close>

definition w64 :: "int \<Rightarrow> int" where
  "w64 x = x mod 2 ^ 64"

lemma w64_id [c_range]: "0 \<le> x \<Longrightarrow> x < 2 ^ 64 \<Longrightarrow> w64 x = x"
  by (simp add: w64_def)

lemma s32_id [c_range]: "in_s32 x \<Longrightarrow> s32 x = x"
  by (simp add: in_s32_def s32_def signed_take_bit_int_eq_self)

lemma s64_id [c_range]: "in_s64 x \<Longrightarrow> s64 x = x"
  by (simp add: in_s64_def s64_def signed_take_bit_int_eq_self)

lemma in_s32_s32: "in_s32 (s32 x)"
  using signed_take_bit_int_greater_eq_minus_exp [of 31 x] signed_take_bit_int_less_exp [of 31 x]
  by (simp add: in_s32_def s32_def)

lemma in_s64_s64: "in_s64 (s64 x)"
  using signed_take_bit_int_greater_eq_minus_exp [of 63 x] signed_take_bit_int_less_exp [of 63 x]
  by (simp add: in_s64_def s64_def)

lemma sint_word_of_int_s64: "sint (word_of_int x :: u64) = s64 x"
  by (simp add: s64_def sint_sbintrunc')

lemma in_s32_s64: "in_s32 x \<Longrightarrow> in_s64 x"
  by (simp add: in_s32_def in_s64_def)

text \<open>C division and remainder truncate towards zero.\<close>

definition c_div :: "int \<Rightarrow> int \<Rightarrow> int" where
  "c_div a b = sgn a * sgn b * (\<bar>a\<bar> div \<bar>b\<bar>)"

definition c_mod :: "int \<Rightarrow> int \<Rightarrow> int" where
  "c_mod a b = a - c_div a b * b"

lemma c_div_nonneg [simp]: "0 \<le> a \<Longrightarrow> 0 < b \<Longrightarrow> c_div a b = a div b"
  by (cases "a = 0") (simp_all add: c_div_def)

lemma c_mod_nonneg [simp]: "0 \<le> a \<Longrightarrow> 0 < b \<Longrightarrow> c_mod a b = a mod b"
  by (simp add: c_mod_def minus_div_mult_eq_mod)

section \<open>Integer division and rounding\<close>

lemma int_le_div_iff: "0 < c \<Longrightarrow> q \<le> x div c \<longleftrightarrow> q * c \<le> x" for c :: int
proof
  assume c: "0 < c" and "q \<le> x div c"
  then have "q * c \<le> x div c * c" by simp
  also have "\<dots> \<le> x" using c div_mult_mod_eq [of x c] pos_mod_sign [of c x] by linarith
  finally show "q * c \<le> x" .
next
  assume c: "0 < c" and "q * c \<le> x"
  then have "q * c div c \<le> x div c" by (intro zdiv_mono1)
  with c show "q \<le> x div c" by simp
qed

lemma int_div_less_iff: "0 < c \<Longrightarrow> x div c < q \<longleftrightarrow> x < q * c" for c :: int
  using int_le_div_iff [of c q x] by linarith

lemma ceiling_div: "0 < c \<Longrightarrow> \<lceil>of_int x / of_int c :: rat\<rceil> = (x + (c - 1)) div c"
proof -
  assume c: "0 < c"
  have "\<lceil>of_int x / of_int c :: rat\<rceil> = - \<lfloor>of_int (- x) / of_int c :: rat\<rfloor>"
    by (simp add: ceiling_def)
  also have "\<dots> = - ((- x) div c)" by (simp only: floor_divide_of_int_eq)
  also have "\<dots> = (x + (c - 1)) div c"
  proof (rule order_antisym)
    define y where "y = - x"
    have "- (y div c) * c \<le> - y + (c - 1)"
      using div_mult_mod_eq [of y c] pos_mod_bound [OF c, of y] by linarith
    then show "- ((- x) div c) \<le> (x + (c - 1)) div c"
      unfolding int_le_div_iff [OF c] by (simp add: y_def)
    have "(x + (c - 1)) div c * c \<le> x + (c - 1)" using int_le_div_iff [OF c] by blast
    then have "- x < (1 - (x + (c - 1)) div c) * c" by (simp add: algebra_simps)
    then have "(- x) div c < 1 - (x + (c - 1)) div c" using int_div_less_iff [OF c] by blast
    then show "(x + (c - 1)) div c \<le> - ((- x) div c)" by linarith
  qed
  finally show ?thesis .
qed

lemma floor_half_div: "0 < c \<Longrightarrow> \<lfloor>of_int x / of_int c + 1 / 2 :: rat\<rfloor> = (x + c div 2) div c"
proof -
  assume c: "0 < c"
  have eq: "of_int x / of_int c + 1 / 2 = (of_int (2 * x + c) / of_int (2 * c) :: rat)"
    using c by (simp add: field_simps)
  have "\<lfloor>of_int x / of_int c + 1 / 2 :: rat\<rfloor> = (2 * x + c) div (2 * c)"
    unfolding eq by (rule floor_divide_of_int_eq)
  also have "\<dots> = (2 * x + c) div 2 div c" by (rule zdiv_zmult2_eq) (use c in simp)
  also have "(2 * x + c) div 2 = x + c div 2" by simp
  finally show ?thesis .
qed

lemma prod_lt_pow2: "0 \<le> x \<Longrightarrow> x < 2 ^ m \<Longrightarrow> 0 \<le> y \<Longrightarrow> y < 2 ^ n \<Longrightarrow> x * y < 2 ^ (m + n)" for x y :: int
  by (simp add: power_add mult_strict_mono)

lemma mod_pow_Suc: "(x::int) mod 2 ^ Suc i = (x div 2 ^ i mod 2) * 2 ^ i + x mod 2 ^ i"
  using mod_mult2_eq' [of x "2 ^ i" 2] by (simp add: mult.commute)

lemma and_mask_32: "x AND 4294967295 = (x::int) mod 2 ^ 32"
  using take_bit_eq_mask [of 32 x] by (simp add: take_bit_eq_mod mask_eq_exp_minus_1)

section \<open>64-bit words\<close>

lemma take_bit_uint_eq: "take_bit LENGTH(64) (uint (a :: u64)) = uint a"
  by (rule take_bit_int_eq_self) (use uint_lt2p [of a] in simp_all)

lemma uint_bit: "uint (drop_bit i (a :: u64) AND 1) = uint a div 2 ^ i mod 2"
proof -
  have "uint (drop_bit i a AND 1) = drop_bit i (uint a) AND 1"
    by (simp only: unsigned_and_eq unsigned_drop_bit_eq uint_1 take_bit_uint_eq)
  then show ?thesis by (simp only: and_one_eq drop_bit_eq_div)
qed

lemma uint_word_of_int_small: "0 \<le> x \<Longrightarrow> x < 2 ^ 64 \<Longrightarrow> uint (word_of_int x :: u64) = x"
  by (simp add: uint_word_of_int_eq take_bit_int_eq_self)

lemma uint_drop_bit_eq64: "uint (drop_bit i (a :: u64)) = drop_bit i (uint a)"
  by (simp only: unsigned_drop_bit_eq take_bit_uint_eq)

lemma uint_add_carry: "uint ((x :: u64) + y) + (if x + y < y then 2 ^ 64 else 0) = uint x + uint y"
  using uint_lt2p [of x] uint_lt2p [of y] by (simp add: word_less_def uint_plus_if')

lemma odd_times_pow63: "(t + t + 1) * 2 ^ 63 = (2 ^ 63 :: u64)"
proof -
  have "(t + t + 1) * 2 ^ 63 = t * (2 * 2 ^ 63) + (2 ^ 63 :: u64)" by (simp only: algebra_simps mult_2 mult_2_right mult_1_left)
  also have "(2 :: u64) * 2 ^ 63 = 0" by simp
  finally show ?thesis by simp
qed

lemma times_pow64: "t * 2 ^ 64 = (0 :: u64)"
proof -
  have "(2 :: u64) ^ 64 = 2 ^ Suc 63" by (rule arg_cong [where f = "(^) 2"]) simp
  also have "\<dots> = 2 * 2 ^ 63" by (rule power_Suc)
  also have "\<dots> = 0" by simp
  finally have "(2 :: u64) ^ 64 = 0" .
  then show ?thesis by (simp only: mult_zero_right)
qed

section \<open>Error codes and boolean results\<close>

text \<open>
  The \<^verbatim>\<open>AVERROR\<close> values the modelled functions return: the negated POSIX codes, with the values of
  Linux, and two of the four-character tags of \<^verbatim>\<open>libavutil/error.h\<close>.
\<close>

datatype averror = EINVAL | ENOMEM | ENOSPC | EAGAIN | EOF | INVALIDDATA

fun AVERROR :: "averror \<Rightarrow> int" where
  "AVERROR EINVAL = - 22"
| "AVERROR ENOMEM = - 12"
| "AVERROR ENOSPC = - 28"
| "AVERROR EAGAIN = - 11"
| "AVERROR EOF = - 0x20464F45"
| "AVERROR INVALIDDATA = - 0x41444E49"

lemma AVERROR_neg: "AVERROR e < 0"
  by (cases e) simp_all

abbreviation of_flag :: "bool \<Rightarrow> int" where
  "of_flag b \<equiv> (if b then 1 else 0)"

section \<open>Memory blocks\<close>

text \<open>\<^verbatim>\<open>memcpy\<close> and \<^verbatim>\<open>memmove\<close> of a list of elements to an index of a block. The block keeps its length
  exactly when the write stays inside it.\<close>

definition put_at :: "'a list \<Rightarrow> nat \<Rightarrow> 'a list \<Rightarrow> 'a list" where
  "put_at block off xs = take off block @ xs @ drop (off + length xs) block"

lemma length_put_at: "off + length xs \<le> length block \<Longrightarrow> length (put_at block off xs) = length block"
  by (simp add: put_at_def)

lemma nth_put_at:
  "off + length xs \<le> length block \<Longrightarrow> i < length block \<Longrightarrow>
   put_at block off xs ! i = (if off \<le> i \<and> i < off + length xs then xs ! (i - off) else block ! i)"
  by (auto simp: put_at_def nth_append min_def add.commute)

end
