(* ===== verification/AV_Intmath.thy ===== *)
theory AV_Intmath
  imports AV_Prelude
begin

text \<open>
  \<^verbatim>\<open>libavutil/intmath.h\<close>, the table of \<^verbatim>\<open>log2_tab.c\<close> and the integer helpers of
  \<^verbatim>\<open>libavutil/common.h\<close>, in the portable C versions the headers fall back to: logarithms and bit
  counts through tables and De Bruijn sequences, clipping by sign-bit tricks, and saturating
  arithmetic. The theory proves each trick equal to the plain arithmetic it stands for.
\<close>

unbundle bit_operations_syntax

lemma unat_less_32: "unat (v :: u32) < 2 ^ 32"
  by (rule order_less_le_trans [OF unsigned_less]) simp

lemma unat_drop_bit_div: "unat (drop_bit n w) = unat w div 2 ^ n"
  unfolding unat_drop_bit_eq by (rule drop_bit_eq_div)

section \<open>Definitions\<close>

subsection \<open>\<^verbatim>\<open>intmath.h\<close>\<close>

definition ff_log2_tab :: "nat list" where
  "ff_log2_tab =
    [0,0,1,1,2,2,2,2,3,3,3,3,3,3,3,3,4,4,4,4,4,4,4,4,4,4,4,4,4,4,4,4,
     5,5,5,5,5,5,5,5,5,5,5,5,5,5,5,5,5,5,5,5,5,5,5,5,5,5,5,5,5,5,5,5,
     6,6,6,6,6,6,6,6,6,6,6,6,6,6,6,6,6,6,6,6,6,6,6,6,6,6,6,6,6,6,6,6,
     6,6,6,6,6,6,6,6,6,6,6,6,6,6,6,6,6,6,6,6,6,6,6,6,6,6,6,6,6,6,6,6,
     7,7,7,7,7,7,7,7,7,7,7,7,7,7,7,7,7,7,7,7,7,7,7,7,7,7,7,7,7,7,7,7,
     7,7,7,7,7,7,7,7,7,7,7,7,7,7,7,7,7,7,7,7,7,7,7,7,7,7,7,7,7,7,7,7,
     7,7,7,7,7,7,7,7,7,7,7,7,7,7,7,7,7,7,7,7,7,7,7,7,7,7,7,7,7,7,7,7,
     7,7,7,7,7,7,7,7,7,7,7,7,7,7,7,7,7,7,7,7,7,7,7,7,7,7,7,7,7,7,7,7]"

definition ff_log2_c :: "u32 \<Rightarrow> nat" where
  "ff_log2_c v =
     (let n = 0;
          (v, n) = (if v AND 0xffff0000 \<noteq> 0 then (drop_bit 16 v, n + 16) else (v, n));
          (v, n) = (if v AND 0xff00 \<noteq> 0 then (drop_bit 8 v, n + 8) else (v, n))
      in n + ff_log2_tab ! unat v)"

definition ff_log2_16bit_c :: "u32 \<Rightarrow> nat" where
  "ff_log2_16bit_c v =
     (let n = 0;
          (v, n) = (if v AND 0xff00 \<noteq> 0 then (drop_bit 8 v, n + 8) else (v, n))
      in n + ff_log2_tab ! unat v)"

definition debruijn_ctz32 :: "nat list" where
  "debruijn_ctz32 =
    [0, 1, 28, 2, 29, 14, 24, 3, 30, 22, 20, 15, 25, 17, 4, 8,
     31, 27, 13, 23, 21, 19, 16, 7, 26, 12, 18, 6, 11, 5, 10, 9]"

definition debruijn_ctz64 :: "nat list" where
  "debruijn_ctz64 =
    [0, 1, 2, 53, 3, 7, 54, 27, 4, 38, 41, 8, 34, 55, 48, 28,
     62, 5, 39, 46, 44, 42, 22, 9, 24, 35, 59, 56, 49, 18, 29, 11,
     63, 52, 6, 26, 37, 40, 33, 47, 61, 45, 43, 21, 23, 58, 17, 10,
     51, 25, 36, 32, 60, 20, 57, 16, 50, 31, 19, 15, 30, 14, 13, 12]"

text \<open>\<^verbatim>\<open>v & -v\<close> in the unsigned type, times the De Bruijn constant, indexes the table.\<close>

definition ff_ctz_c :: "int \<Rightarrow> nat" where
  "ff_ctz_c v =
     (let w = word_of_int v :: u32
      in debruijn_ctz32 ! unat (drop_bit 27 ((w AND - w) * 0x077CB531)))"

definition ff_ctzll_c :: "int \<Rightarrow> nat" where
  "ff_ctzll_c v =
     (let w = word_of_int v :: u64
      in debruijn_ctz64 ! unat (drop_bit 58 ((w AND - w) * 0x022FDD63CC95386D)))"

function ff_clz_loop :: "u32 \<Rightarrow> nat \<Rightarrow> nat" where
  "ff_clz_loop x i = (if x = 0 then i else ff_clz_loop (drop_bit 1 x) (i - 1))"
  by pat_completeness auto
termination
  by (relation "measure (\<lambda>(x, i). unat x)")
    (auto simp: unat_drop_bit_div unat_gt_0 intro: div_less_dividend)

declare ff_clz_loop.simps [simp del]

definition ff_clz_c :: "u32 \<Rightarrow> nat" where
  "ff_clz_c x = ff_clz_loop x 32"

subsection \<open>\<^verbatim>\<open>common.h\<close>\<close>

definition av_clip_c :: "int \<Rightarrow> int \<Rightarrow> int \<Rightarrow> int" where
  "av_clip_c a amin amax = (if a < amin then amin else if a > amax then amax else a)"

definition av_clip64_c :: "int \<Rightarrow> int \<Rightarrow> int \<Rightarrow> int" where
  "av_clip64_c a amin amax = (if a < amin then amin else if a > amax then amax else a)"

text \<open>The results of the next functions are converted to the narrow type of the return value.\<close>

definition av_clip_uint8_c :: "int \<Rightarrow> u8" where
  "av_clip_uint8_c a =
     (if a AND NOT 0xFF \<noteq> 0 then word_of_int (drop_bit 31 (NOT a)) else word_of_int a)"

definition av_clip_int8_c :: "int \<Rightarrow> u8" where
  "av_clip_int8_c a =
     (if (word_of_int a + 0x80 :: u32) AND NOT 0xFF \<noteq> 0 then word_of_int (drop_bit 31 a XOR 0x7F)
      else word_of_int a)"

definition av_clip_uint16_c :: "int \<Rightarrow> u16" where
  "av_clip_uint16_c a =
     (if a AND NOT 0xFFFF \<noteq> 0 then word_of_int (drop_bit 31 (NOT a)) else word_of_int a)"

definition av_clip_int16_c :: "int \<Rightarrow> u16" where
  "av_clip_int16_c a =
     (if (word_of_int a + 0x8000 :: u32) AND NOT 0xFFFF \<noteq> 0 then word_of_int (drop_bit 31 a XOR 0x7FFF)
      else word_of_int a)"

definition av_clipl_int32_c :: "int \<Rightarrow> int" where
  "av_clipl_int32_c a =
     (if (word_of_int a + 0x80000000 :: u64) AND NOT 0xFFFFFFFF \<noteq> 0
      then s32 (drop_bit 63 a XOR 0x7FFFFFFF) else s32 a)"

definition av_clip_intp2_c :: "int \<Rightarrow> nat \<Rightarrow> int" where
  "av_clip_intp2_c a p =
     (if (word_of_int a + push_bit p 1 :: u32) AND NOT (push_bit p 2 - 1) \<noteq> 0
      then drop_bit 31 a XOR (s32 (push_bit p 1) - 1) else a)"

definition av_clip_uintp2_c :: "int \<Rightarrow> nat \<Rightarrow> u32" where
  "av_clip_uintp2_c a p =
     (if (word_of_int a :: u32) AND NOT (push_bit p 1 - 1) \<noteq> 0
      then word_of_int (drop_bit 31 (NOT a)) AND (push_bit p 1 - 1) else word_of_int a)"

definition av_zero_extend_c :: "u32 \<Rightarrow> nat \<Rightarrow> u32" where
  "av_zero_extend_c a p = a AND (push_bit p 1 - 1)"

definition av_sat_add32_c :: "int \<Rightarrow> int \<Rightarrow> int" where
  "av_sat_add32_c a b = av_clipl_int32_c (a + b)"

definition av_sat_dadd32_c :: "int \<Rightarrow> int \<Rightarrow> int" where
  "av_sat_dadd32_c a b = av_sat_add32_c a (av_sat_add32_c b b)"

definition av_sat_sub32_c :: "int \<Rightarrow> int \<Rightarrow> int" where
  "av_sat_sub32_c a b = av_clipl_int32_c (a - b)"

definition av_sat_dsub32_c :: "int \<Rightarrow> int \<Rightarrow> int" where
  "av_sat_dsub32_c a b = av_sat_sub32_c a (av_sat_add32_c b b)"

text \<open>The overflow builtins store the wrapped result and return whether it differs from the exact one.\<close>

definition av_sat_add64_c :: "int \<Rightarrow> int \<Rightarrow> int" where
  "av_sat_add64_c a b =
     (let tmp = s64 (a + b)
      in if tmp = a + b then tmp else if tmp < 0 then INT64_MAX else INT64_MIN)"

definition av_sat_add64_portable :: "int \<Rightarrow> int \<Rightarrow> int" where
  "av_sat_add64_portable a b =
     (let s = s64 (a + b)
      in if ((a XOR b) OR (NOT s XOR b)) \<ge> 0 then INT64_MAX XOR drop_bit 63 b else s)"

definition av_sat_sub64_c :: "int \<Rightarrow> int \<Rightarrow> int" where
  "av_sat_sub64_c a b =
     (let tmp = s64 (a - b)
      in if tmp = a - b then tmp else if tmp < 0 then INT64_MAX else INT64_MIN)"

definition av_sat_sub64_portable :: "int \<Rightarrow> int \<Rightarrow> int" where
  "av_sat_sub64_portable a b =
     (if b \<le> 0 \<and> a \<ge> INT64_MAX + b then INT64_MAX
      else if b \<ge> 0 \<and> a \<le> INT64_MIN + b then INT64_MIN
      else s64 (a - b))"

definition av_ceil_log2_c :: "int \<Rightarrow> nat" where
  "av_ceil_log2_c x = ff_log2_c (push_bit 1 (word_of_int x - 1))"

definition av_popcount_c :: "u32 \<Rightarrow> u32" where
  "av_popcount_c x =
     (let x = x - (drop_bit 1 x AND 0x55555555);
          x = (x AND 0x33333333) + (drop_bit 2 x AND 0x33333333);
          x = (x + drop_bit 4 x) AND 0x0F0F0F0F;
          x = x + drop_bit 8 x
      in (x + drop_bit 16 x) AND 0x3F)"

definition av_popcount64_c :: "u64 \<Rightarrow> u32" where
  "av_popcount64_c x = av_popcount_c (ucast x) + av_popcount_c (ucast (drop_bit 32 x))"

definition av_parity_c :: "u32 \<Rightarrow> u32" where
  "av_parity_c v = av_popcount_c v AND 1"

section \<open>Logarithms and bit counts\<close>

lemma and_push_bit_mask: "(x::int) AND push_bit p (mask q) = push_bit p (take_bit q (drop_bit p x))"
  by (rule bit_eqI) (auto simp: bit_simps)

lemma high_bits_zero_iff:
  fixes v :: u32
  shows "v AND 0xffff0000 = 0 \<longleftrightarrow> unat v < 65536" "unat v < 65536 \<Longrightarrow> v AND 0xff00 = 0 \<longleftrightarrow> unat v < 256"
proof -
  have main: "uint v AND push_bit p (mask q) = 0 \<longleftrightarrow> uint v < 2 ^ p" if "uint v < 2 ^ (p + q)" for p q
  proof -
    have "take_bit q (drop_bit p (uint v)) = drop_bit p (uint v)"
      using that by (intro take_bit_int_eq_self) (simp_all add: drop_bit_eq_div int_div_less_iff power_add mult.commute pos_imp_zdiv_nonneg_iff)
    then have "uint v AND push_bit p (mask q) = push_bit p (drop_bit p (uint v))" by (simp only: and_push_bit_mask)
    then show ?thesis using zdiv_eq_0_iff [of "uint v" "2 ^ p"] by (auto simp: drop_bit_eq_div push_bit_eq_mult)
  qed
  have u: "unat v < 2 ^ n \<longleftrightarrow> uint v < 2 ^ n" for n
    using of_nat_less_iff [of "unat v" "2 ^ n", where ?'a = int] by simp
  have e16: "v AND 0xffff0000 = 0 \<longleftrightarrow> uint v AND push_bit 16 (mask 16) = 0"
    and e8: "v AND 0xff00 = 0 \<longleftrightarrow> uint v AND push_bit 8 (mask 8) = 0"
  proof -
    have m: "push_bit 16 (mask 16 :: int) = 0xffff0000" "push_bit 8 (mask 8 :: int) = 0xff00" by code_simp+
    show "v AND 0xffff0000 = 0 \<longleftrightarrow> uint v AND push_bit 16 (mask 16) = 0"
      "v AND 0xff00 = 0 \<longleftrightarrow> uint v AND push_bit 8 (mask 8) = 0"
      unfolding m by (simp_all add: unsigned_and_eq flip: uint_0_iff)
  qed
  have "uint v < 2 ^ (16 + 16)" using uint_lt2p [of v] by simp
  then show "v AND 0xffff0000 = 0 \<longleftrightarrow> unat v < 65536" unfolding e16 using u [of 16] by (subst main) simp_all
  assume "unat v < 65536"
  then have "uint v < 2 ^ (8 + 8)" using u [of 16] by simp
  then show "v AND 0xff00 = 0 \<longleftrightarrow> unat v < 256" unfolding e8 using u [of 8] by (subst main) simp_all
qed

definition log2_of :: "nat \<Rightarrow> nat \<Rightarrow> bool" where
  "log2_of n v \<longleftrightarrow> 2 ^ n \<le> max 1 v \<and> v < 2 ^ Suc n"

definition log2_from :: "nat \<Rightarrow> nat list \<Rightarrow> bool" where
  "log2_from k xs \<longleftrightarrow> (\<forall>i < length xs. log2_of (xs ! i) (k + i))"

lemma log2_from_append: "log2_from k xs \<Longrightarrow> log2_from (k + length xs) ys \<Longrightarrow> log2_from k (xs @ ys)"
  by (auto simp: log2_from_def nth_append) (metis add.assoc le_add_diff_inverse nat_add_left_cancel_less not_less)

lemma log2_from_replicate: "k = 2 ^ n \<Longrightarrow> log2_from k (replicate (2 ^ n) n)"
  by (simp add: log2_from_def log2_of_def)

lemma ff_log2_tab_correct: "v < 256 \<Longrightarrow> log2_of (ff_log2_tab ! v) v"
proof -
  have tab: "ff_log2_tab = [0] @ replicate (2 ^ 0) 0 @ replicate (2 ^ 1) 1 @ replicate (2 ^ 2) 2 @ replicate (2 ^ 3) 3 @
    replicate (2 ^ 4) 4 @ replicate (2 ^ 5) 5 @ replicate (2 ^ 6) 6 @ replicate (2 ^ 7) 7"
    by (simp add: ff_log2_tab_def numeral_eq_Suc)
  have "log2_from 0 ff_log2_tab" unfolding tab
    by (intro log2_from_append log2_from_replicate) (simp_all add: log2_from_def log2_of_def)
  then show "v < 256 \<Longrightarrow> ?thesis" by (simp add: log2_from_def ff_log2_tab_def)
qed
lemma log2_of_shift:
  assumes "log2_of n (v div 2 ^ k)" "2 ^ k \<le> v"
  shows "log2_of (n + k) v"
proof -
  have "1 \<le> v div 2 ^ k" using assms(2) by (simp add: Suc_le_eq div_greater_zero_iff)
  then have "2 ^ n * 2 ^ k \<le> v div 2 ^ k * 2 ^ k" using assms(1) by (simp add: log2_of_def)
  also have "\<dots> \<le> v" by simp
  finally have "2 ^ (n + k) \<le> v" by (simp add: power_add)
  moreover have "v < 2 ^ Suc n * 2 ^ k" using assms(1) by (simp add: log2_of_def less_mult_imp_div_less div_less_iff_less_mult)
  ultimately show ?thesis by (simp add: log2_of_def power_add)
qed

lemma ff_log2_16bit_c_correct: "unat v < 65536 \<Longrightarrow> log2_of (ff_log2_16bit_c v) (unat v)"
  using ff_log2_tab_correct [of "unat v"] ff_log2_tab_correct [of "unat v div 2 ^ 8"]
    log2_of_shift [of "ff_log2_tab ! (unat v div 2 ^ 8)" "unat v" 8]
  by (auto simp: ff_log2_16bit_c_def high_bits_zero_iff unat_drop_bit_div add.commute less_mult_imp_div_less)

text \<open>
  Also: the table-driven logarithm is exact for every 32-bit argument, with the value 0 at 0.
\<close>

theorem ff_log2_c_correct: "2 ^ ff_log2_c v \<le> max 1 (unat v) \<and> unat v < 2 ^ Suc (ff_log2_c v)"
proof (cases "unat v < 65536")
  case True
  then have "ff_log2_c v = ff_log2_16bit_c v" by (simp add: ff_log2_c_def ff_log2_16bit_c_def high_bits_zero_iff Let_def)
  then show ?thesis using ff_log2_16bit_c_correct [OF True] by (simp add: log2_of_def)
next
  case False
  let ?w = "drop_bit 16 v"
  have w: "unat ?w = unat v div 2 ^ 16" by (simp add: unat_drop_bit_div)
  then have "unat ?w < 65536" using unat_less_32 [of v] by (simp add: less_mult_imp_div_less)
  then have "log2_of (ff_log2_16bit_c ?w) (unat v div 2 ^ 16)" using ff_log2_16bit_c_correct w by metis
  then have "log2_of (ff_log2_16bit_c ?w + 16) (unat v)" using False by (intro log2_of_shift) simp_all
  moreover have "ff_log2_c v = ff_log2_16bit_c ?w + 16"
    using False by (simp add: ff_log2_c_def ff_log2_16bit_c_def high_bits_zero_iff Let_def)
  ultimately show ?thesis by (simp add: log2_of_def)
qed

text \<open>The number of trailing zero bits, which the De Bruijn functions look up.\<close>

function ctz :: "int \<Rightarrow> nat" where
  "ctz v = (if v = 0 \<or> odd v then 0 else Suc (ctz (v div 2)))"
  by pat_completeness auto
termination
  by (relation "measure (\<lambda>v. nat \<bar>v\<bar>)") auto

declare ctz.simps [simp del]

lemma ctz_dvd: "2 ^ ctz v dvd v"
proof (induction v rule: ctz.induct)
  case (1 v)
  show ?case
  proof (cases "v = 0 \<or> odd v")
    case True
    then show ?thesis by (simp add: ctz.simps [of v])
  next
    case False
    then have "2 * 2 ^ ctz (v div 2) dvd 2 * (v div 2)" using "1.IH" by (intro mult_dvd_mono) auto
    with False show ?thesis by (simp add: ctz.simps [of v] dvd_mult_div_cancel)
  qed
qed

lemma odd_shift_ctz: "v \<noteq> 0 \<Longrightarrow> odd (drop_bit (ctz v) v)"
proof (induction v rule: ctz.induct)
  case (1 v)
  show ?case
  proof (cases "odd v")
    case True
    then show ?thesis by (simp add: ctz.simps [of v])
  next
    case False
    with 1(2) have "v div 2 \<noteq> 0" by auto
    with False 1 show ?thesis by (simp add: ctz.simps [of v] drop_bit_Suc)
  qed
qed

lemma shift_ctz_mult: "drop_bit (ctz v) v * 2 ^ ctz v = v"
  using ctz_dvd [of v] by (simp add: drop_bit_eq_div)

lemma and_minus_eq: "v \<noteq> 0 \<Longrightarrow> v AND - v = 2 ^ ctz v" for v :: int
proof -
  assume v: "v \<noteq> 0"
  define m where "m = drop_bit (ctz v) v"
  have m: "odd m" and eq: "v = push_bit (ctz v) m"
    using odd_shift_ctz [OF v] shift_ctz_mult [of v] by (simp_all add: m_def push_bit_eq_mult)
  obtain q where q: "m = 2 * q + 1" using m by (elim oddE)
  have "m AND - m = 1"
  proof -
    have neg: "- m = 2 * NOT q + 1" by (simp add: q not_int_def)
    have "(2 * q + 1) AND (2 * NOT q + 1) = 1 + 2 * (q AND NOT q)" by (subst and_int_rec) simp
    then show ?thesis unfolding neg unfolding q by simp
  qed
  moreover have "v AND - v = push_bit (ctz v) (m AND - m)"
  proof -
    have "v AND - v = push_bit (ctz v) m AND - push_bit (ctz v) m" using eq by simp
    also have "- push_bit (ctz v) m = push_bit (ctz v) (- m)" by (simp add: push_bit_eq_mult)
    finally show ?thesis by (simp add: push_bit_and)
  qed
  ultimately show ?thesis by (simp add: push_bit_eq_mult)
qed

lemma ctz_less: "v \<noteq> 0 \<Longrightarrow> - (2 ^ n) \<le> v \<Longrightarrow> v < 2 ^ n \<Longrightarrow> ctz v < Suc n"
proof (rule ccontr)
  assume v: "v \<noteq> 0" "- (2 ^ n) \<le> v" "v < 2 ^ n" and "\<not> ctz v < Suc n"
  then have "(2 :: int) ^ Suc n dvd 2 ^ ctz v" by (intro le_imp_power_dvd) simp
  then have "2 ^ Suc n dvd v" using ctz_dvd dvd_trans by blast
  then have "2 ^ Suc n dvd \<bar>v\<bar>" by simp
  then have "2 ^ Suc n \<le> \<bar>v\<bar>" using v(1) by (intro zdvd_imp_le) simp_all
  with v show False using zero_less_power [of "2 :: int" n] by (simp add: abs_le_iff abs_if split: if_splits)
qed

lemma debruijn_ctz32_correct:
  "k < 32 \<Longrightarrow> debruijn_ctz32 ! unat (drop_bit 27 (2 ^ k * 0x077CB531 :: u32)) = k"
proof -
  have "\<forall>k \<in> set [0..<32]. debruijn_ctz32 ! unat (drop_bit 27 (2 ^ k * 0x077CB531 :: u32)) = k"
    by code_simp
  then show "k < 32 \<Longrightarrow> ?thesis" by simp
qed

lemma debruijn_ctz64_correct:
  "k < 64 \<Longrightarrow> debruijn_ctz64 ! unat (drop_bit 58 (2 ^ k * 0x022FDD63CC95386D :: u64)) = k"
proof -
  have "\<forall>k \<in> set [0..<64]. debruijn_ctz64 ! unat (drop_bit 58 (2 ^ k * 0x022FDD63CC95386D :: u64)) = k"
    by code_simp
  then show "k < 64 \<Longrightarrow> ?thesis" by simp
qed

lemma word_and_minus: "v \<noteq> 0 \<Longrightarrow> word_of_int v AND - word_of_int v = (2 ^ ctz v :: 'a::len word)"
proof -
  assume v: "v \<noteq> 0"
  have "word_of_int v AND - word_of_int v = (word_of_int (v AND - v) :: 'a word)"
    by (simp only: of_int_and_eq of_int_minus)
  with v show ?thesis by (simp add: and_minus_eq)
qed

lemma ff_ctzll_c_ctz: "v \<noteq> 0 \<Longrightarrow> in_s64 v \<Longrightarrow> ff_ctzll_c v = ctz v"
  using ctz_less [of v 63] by (simp add: ff_ctzll_c_def word_and_minus debruijn_ctz64_correct in_s64_def)

text \<open>
  Also: the De Bruijn lookups of \<^verbatim>\<open>ff_ctz\<close> and \<^verbatim>\<open>ff_ctzll\<close> count the trailing zero bits of every non-zero
  argument of their type, the most negative one included.
\<close>

theorem debruijn_ctz_correct:
  assumes "v \<noteq> 0" "in_s32 v" "w \<noteq> 0" "in_s64 w"
  shows "2 ^ ff_ctz_c v dvd v \<and> odd (v div 2 ^ ff_ctz_c v) \<and> 2 ^ ff_ctzll_c w dvd w \<and> odd (w div 2 ^ ff_ctzll_c w)"
proof -
  have "ff_ctz_c v = ctz v"
    using assms(1,2) ctz_less [of v 31] by (simp add: ff_ctz_c_def word_and_minus debruijn_ctz32_correct in_s32_def)
  then show ?thesis
    using ff_ctzll_c_ctz [OF assms(3,4)] ctz_dvd [of v] odd_shift_ctz [OF assms(1)] ctz_dvd [of w] odd_shift_ctz [OF assms(3)]
    by (simp add: drop_bit_eq_div)
qed

theorem debruijn_ctz_correct_witness:
  "2 ^ ff_ctz_c (- 2147483648) dvd (- 2147483648 :: int) \<and> odd ((- 2147483648 :: int) div 2 ^ ff_ctz_c (- 2147483648)) \<and>
   2 ^ ff_ctzll_c 96 dvd (96 :: int) \<and> odd ((96 :: int) div 2 ^ ff_ctzll_c 96)"
  by (rule debruijn_ctz_correct) (simp_all add: in_s32_def in_s64_def)

lemma ff_clz_loop_correct: "n \<le> i \<Longrightarrow> (n = 0 \<or> 2 ^ (n - 1) \<le> unat x) \<Longrightarrow> unat x < 2 ^ n \<Longrightarrow> ff_clz_loop x i = i - n"
proof (induction n arbitrary: x i)
  case 0
  then show ?case by (simp add: ff_clz_loop.simps [of 0] unat_eq_0)
next
  case (Suc n)
  then have x: "x \<noteq> 0" by (auto simp: unat_eq_0)
  have h: "unat (drop_bit 1 x) = unat x div 2" by (simp add: unat_drop_bit_div)
  have "ff_clz_loop (drop_bit 1 x) (i - 1) = i - 1 - n"
    using Suc.prems h by (intro Suc.IH) (cases n; simp)+
  with x Suc.prems(1) show ?case by (simp add: ff_clz_loop.simps [of x])
qed

lemma ff_clz_c_correct: "x \<noteq> 0 \<Longrightarrow> ff_clz_c x + ff_log2_c x = 31"
proof -
  assume "x \<noteq> 0"
  then have l: "2 ^ ff_log2_c x \<le> unat x" "unat x < 2 ^ Suc (ff_log2_c x)"
    using ff_log2_c_correct [of x] unat_gt_0 [of x] by (auto simp: max_def)
  then have "(2::nat) ^ ff_log2_c x < 2 ^ 32" using unat_less_32 [of x] by linarith
  then have n: "ff_log2_c x < 32" by (rule power_less_imp_less_exp [rotated]) simp
  then have "ff_clz_c x = 32 - Suc (ff_log2_c x)" unfolding ff_clz_c_def
    using l by (intro ff_clz_loop_correct) simp_all
  with n show ?thesis by simp
qed

section \<open>Clipping and saturation\<close>

definition clip :: "int \<Rightarrow> int \<Rightarrow> int \<Rightarrow> int" where
  "clip lo hi a = max lo (min hi a)"

text \<open>The guard of every clipping function: a value has no bit above the mask.\<close>

lemma int_and_not_mask: "x AND NOT (mask p) = 0 \<longleftrightarrow> 0 \<le> x \<and> x < 2 ^ p" for x :: int
proof -
  have "x AND NOT (mask p) = 0 \<longleftrightarrow> take_bit p x = x"
    by (auto simp: bit_eq_iff bit_simps)
  then show ?thesis by (simp add: take_bit_int_eq_self_iff)
qed

lemma word_and_not_mask: "x AND NOT (mask p) = 0 \<longleftrightarrow> uint x < 2 ^ p" for x :: "'a::len word"
proof -
  have "x AND NOT (mask p) = 0 \<longleftrightarrow> take_bit p x = x"
    by (auto simp: bit_eq_iff bit_simps)
  also have "\<dots> \<longleftrightarrow> take_bit p (uint x) = uint x" by (simp add: word_uint_eq_iff unsigned_take_bit_eq)
  finally show ?thesis by (simp add: take_bit_int_eq_self_iff)
qed

lemma int_mod_less_iff:
  assumes "- (2 ^ (n - 1)) \<le> x" "x < 2 ^ n" "p < n"
  shows "x mod 2 ^ n < 2 ^ p \<longleftrightarrow> 0 \<le> x \<and> x < (2 ^ p :: int)"
proof (cases "0 \<le> x")
  case True
  then show ?thesis using assms by simp
next
  case False
  obtain m where n: "n = Suc m" using assms(3) by (cases n) simp_all
  have "(2::int) ^ p \<le> 2 ^ m" using assms(3) n by (intro power_increasing) simp_all
  moreover have "(x + 2 ^ n) mod 2 ^ n = x + 2 ^ n"
    using False assms(1) n by (intro mod_pos_pos_trivial) (simp_all add: order_less_imp_le)
  then have "x mod 2 ^ n = x + 2 ^ n" by simp
  moreover have "(2::int) ^ n = 2 * 2 ^ m" "- (2 ^ m) \<le> x" using assms(1) n by simp_all
  ultimately have "x mod 2 ^ n = x + 2 ^ n" "2 ^ p \<le> x + 2 ^ n" by linarith+
  with False show ?thesis by simp
qed

lemma guard32:
  assumes "in_s32 a" "0 \<le> k" "k \<le> 2 ^ 31" "p < 32"
  shows "(word_of_int a + word_of_int k :: u32) AND NOT (mask p) = 0 \<longleftrightarrow> 0 \<le> a + k \<and> a + k < 2 ^ p"
proof -
  have "uint (word_of_int (a + k) :: u32) = (a + k) mod 2 ^ 32"
    using uint_word_of_int [of "a + k", where ?'a = 32] by (simp del: of_int_add)
  then show ?thesis
    using int_mod_less_iff [of 32 "a + k" p] assms by (simp add: word_and_not_mask in_s32_def)
qed

lemma guard64:
  assumes "in_s64 a"
  shows "(word_of_int a + 0x80000000 :: u64) AND NOT 0xFFFFFFFF = 0 \<longleftrightarrow> in_s32 a"
proof -
  have m: "0xFFFFFFFF = (mask 32 :: u64)" by (simp add: mask_numeral)
  have "uint (word_of_int a + 0x80000000 :: u64) = (a + 2 ^ 31) mod 2 ^ 64"
    using uint_word_of_int [of "a + 2 ^ 31", where ?'a = 64] by simp
  then show ?thesis
    using int_mod_less_iff [of 64 "a + 2 ^ 31" 32] assms
    unfolding m by (auto simp: word_and_not_mask in_s64_def in_s32_def)
qed

lemma drop_bit_sign32: "in_s32 a \<Longrightarrow> drop_bit 31 a = (if a < 0 then - 1 else 0)"
  using int_div_less_iff [of "2 ^ 31" a 0] int_le_div_iff [of "2 ^ 31" "- 1" a] int_div_less_iff [of "2 ^ 31" a 1]
    int_le_div_iff [of "2 ^ 31" 0 a]
  by (auto simp: drop_bit_eq_div in_s32_def)

lemma drop_bit_sign64: "in_s64 a \<Longrightarrow> drop_bit 63 a = (if a < 0 then - 1 else 0)"
  using int_div_less_iff [of "2 ^ 63" a 0] int_le_div_iff [of "2 ^ 63" "- 1" a] int_div_less_iff [of "2 ^ 63" a 1]
    int_le_div_iff [of "2 ^ 63" 0 a]
  by (auto simp: drop_bit_eq_div in_s64_def)

lemma in_s32_not: "in_s32 a \<Longrightarrow> in_s32 (NOT a)"
  by (simp add: in_s32_def not_int_def)

lemmas clip_simps = clip_def min_def max_def

lemma sint_narrow8: "- 128 \<le> x \<Longrightarrow> x \<le> 127 \<Longrightarrow> sint (word_of_int x :: u8) = x"
  by (simp add: sint_sbintrunc' signed_take_bit_int_eq_self)

lemma sint_narrow16: "- 32768 \<le> x \<Longrightarrow> x \<le> 32767 \<Longrightarrow> sint (word_of_int x :: u16) = x"
  by (simp add: sint_sbintrunc' signed_take_bit_int_eq_self)

lemma uint_narrow: "0 \<le> x \<Longrightarrow> x < 2 ^ LENGTH('a) \<Longrightarrow> uint (word_of_int x :: 'a::len word) = x"
  by (simp add: uint_word_of_int)

lemma av_clip_uint8_c_clip: "in_s32 a \<Longrightarrow> uint (av_clip_uint8_c a) = clip 0 255 a"
  using int_and_not_mask [of a 8]
  by (auto simp: av_clip_uint8_c_def mask_numeral drop_bit_sign32 in_s32_not clip_simps uint_narrow unsigned_minus_1_eq_mask)

lemma av_clip_uint16_c_clip: "in_s32 a \<Longrightarrow> uint (av_clip_uint16_c a) = clip 0 65535 a"
  using int_and_not_mask [of a 16]
  by (auto simp: av_clip_uint16_c_def mask_numeral drop_bit_sign32 in_s32_not clip_simps uint_narrow unsigned_minus_1_eq_mask)

lemma av_clip_int8_c_clip: "in_s32 a \<Longrightarrow> sint (av_clip_int8_c a) = clip (- 128) 127 a"
  using guard32 [of a 128 8]
  by (auto simp: av_clip_int8_c_def mask_numeral drop_bit_sign32 clip_simps sint_narrow8 not_int_def)

lemma av_clip_int16_c_clip: "in_s32 a \<Longrightarrow> sint (av_clip_int16_c a) = clip (- 32768) 32767 a"
  using guard32 [of a 32768 16]
  by (auto simp: av_clip_int16_c_def mask_numeral drop_bit_sign32 clip_simps sint_narrow16 not_int_def)

lemma av_clipl_int32_c_clip: "in_s64 a \<Longrightarrow> av_clipl_int32_c a = clip INT_MIN INT_MAX a"
  using guard64 [of a]
  by (auto simp: av_clipl_int32_c_def drop_bit_sign64 clip_simps s32_id in_s32_def)

lemma pow2_minus_1_le: "2 ^ p - 1 \<le> a \<Longrightarrow> 0 \<le> a" for a :: int
proof -
  assume "2 ^ p - 1 \<le> a"
  moreover have "(1::int) \<le> 2 ^ p" by simp
  ultimately show "0 \<le> a" by linarith
qed

lemma av_clip_intp2_c_clip:
  assumes "in_s32 a" "p \<le> 30"
  shows "av_clip_intp2_c a p = clip (- (2 ^ p)) (2 ^ p - 1) a"
proof -
  have p0: "(0::int) < 2 ^ p" by simp
  have p: "(2::int) ^ p \<le> 2 ^ 30" using assms(2) by (intro power_increasing) simp_all
  have m: "push_bit p 2 - 1 = (mask (Suc p) :: u32)" by (simp add: mask_eq_exp_minus_1 push_bit_eq_mult mult.commute)
  have one: "push_bit p 1 = (word_of_int (2 ^ p) :: u32)" "push_bit p (1::int) = 2 ^ p" by (simp_all add: push_bit_eq_mult)
  have "(word_of_int a + push_bit p 1 :: u32) AND NOT (push_bit p 2 - 1) = 0 \<longleftrightarrow> 0 \<le> a + 2 ^ p \<and> a + 2 ^ p < 2 ^ Suc p"
    unfolding m one(1) using assms p by (intro guard32) simp_all
  moreover have "s32 (push_bit p 1) = 2 ^ p" unfolding one(2)
  proof (rule s32_id)
    have "INT_MIN \<le> 2 ^ p" using p0 by linarith
    then show "in_s32 (2 ^ p)" using p by (simp add: in_s32_def)
  qed
  moreover have "- 1 XOR (2 ^ p - 1) = (- (2 ^ p) :: int)" by (simp add: not_int_def)
  ultimately show ?thesis using assms(1) pow2_minus_1_le [of p a] by (auto simp: av_clip_intp2_c_def drop_bit_sign32 clip_simps)
qed

lemma av_clip_uintp2_c_clip:
  assumes "in_s32 a" "p \<le> 31"
  shows "uint (av_clip_uintp2_c a p) = clip 0 (2 ^ p - 1) a"
proof -
  have p: "(2::int) ^ p \<le> 2 ^ 31" using assms(2) by (intro power_increasing) simp_all
  have m: "push_bit p 1 - 1 = (mask p :: u32)" by (simp add: mask_eq_exp_minus_1 push_bit_eq_mult)
  have g: "(word_of_int a :: u32) AND NOT (mask p) = 0 \<longleftrightarrow> 0 \<le> a \<and> a < 2 ^ p"
    using guard32 [of a 0 p] assms by simp
  have "uint (mask p :: u32) = 2 ^ p - 1"
    using uint_narrow [of "mask p", where ?'a = 32] p by (simp add: of_int_mask_eq mask_eq_exp_minus_1)
  then show ?thesis unfolding av_clip_uintp2_c_def m
    using assms(1) g p pow2_minus_1_le [of p a] by (auto simp: drop_bit_sign32 in_s32_not clip_simps uint_narrow)
qed

text \<open>
  Also: every clipping function returns the argument limited to its range, for every value of its
  argument type: the comparisons of \<^verbatim>\<open>av_clip\<close>, and the mask and sign-bit tricks of the fixed ranges and
  of the ranges given by a bit position.
\<close>

theorem av_clip_correct:
  assumes "in_s32 a" "in_s64 l" "p \<le> 30" "lo \<le> hi"
  shows "av_clip_c a lo hi = clip lo hi a \<and> av_clip64_c l lo hi = clip lo hi l \<and>
    uint (av_clip_uint8_c a) = clip 0 255 a \<and> sint (av_clip_int8_c a) = clip (- 128) 127 a \<and>
    uint (av_clip_uint16_c a) = clip 0 65535 a \<and> sint (av_clip_int16_c a) = clip (- 32768) 32767 a \<and>
    av_clipl_int32_c l = clip INT_MIN INT_MAX l \<and>
    av_clip_intp2_c a p = clip (- (2 ^ p)) (2 ^ p - 1) a \<and> uint (av_clip_uintp2_c a p) = clip 0 (2 ^ p - 1) a"
  using assms av_clip_uint8_c_clip av_clip_int8_c_clip av_clip_uint16_c_clip av_clip_int16_c_clip
    av_clipl_int32_c_clip av_clip_intp2_c_clip [of a p] av_clip_uintp2_c_clip [of a p]
  by (simp add: av_clip_c_def av_clip64_c_def clip_simps)

theorem av_clip_correct_witness:
  "av_clip_c (- 300) 2 40 = clip 2 40 (- 300) \<and> av_clip64_c 5000000000 2 40 = clip 2 40 5000000000 \<and>
    uint (av_clip_uint8_c (- 300)) = clip 0 255 (- 300) \<and> sint (av_clip_int8_c (- 300)) = clip (- 128) 127 (- 300) \<and>
    uint (av_clip_uint16_c (- 300)) = clip 0 65535 (- 300) \<and> sint (av_clip_int16_c (- 300)) = clip (- 32768) 32767 (- 300) \<and>
    av_clipl_int32_c 5000000000 = clip INT_MIN INT_MAX 5000000000 \<and>
    av_clip_intp2_c (- 300) 5 = clip (- (2 ^ 5)) (2 ^ 5 - 1) (- 300) \<and> uint (av_clip_uintp2_c (- 300) 5) = clip 0 (2 ^ 5 - 1) (- 300)"
  by (rule av_clip_correct) (simp_all add: in_s32_def in_s64_def)

lemma s64_wrap:
  assumes "- (2 ^ 64) \<le> x" "x < 2 ^ 64"
  shows "s64 x = (if x < INT64_MIN then x + 2 ^ 64 else if x > INT64_MAX then x - 2 ^ 64 else x)"
proof -
  have "s64 x = (x + 2 ^ 63) mod 2 ^ 64 - 2 ^ 63"
    by (simp add: s64_def signed_take_bit_eq_take_bit_shift take_bit_eq_mod)
  moreover have "(x + 2 ^ 63) mod 2 ^ 64 = (if x < INT64_MIN then x + 2 ^ 63 + 2 ^ 64 else if x > INT64_MAX then x + 2 ^ 63 - 2 ^ 64 else x + 2 ^ 63)"
  proof -
    consider "x < INT64_MIN" | "INT64_MAX < x" | "INT64_MIN \<le> x" "x \<le> INT64_MAX" by linarith
    then show ?thesis
    proof cases
      case 1
      have "(x + 2 ^ 63) mod 2 ^ 64 = (x + 2 ^ 63 + 2 ^ 64) mod 2 ^ 64" by (rule mod_add_self2 [symmetric])
      also have "\<dots> = x + 2 ^ 63 + 2 ^ 64" using 1 assms by (intro mod_pos_pos_trivial) simp_all
      finally show ?thesis using 1 by simp
    next
      case 2
      have "(x + 2 ^ 63) mod 2 ^ 64 = (x + 2 ^ 63 - 2 ^ 64) mod 2 ^ 64" by (rule minus_mod_self2 [symmetric])
      also have "\<dots> = x + 2 ^ 63 - 2 ^ 64" using 2 assms by (intro mod_pos_pos_trivial) simp_all
      finally show ?thesis using 2 by simp
    next
      case 3
      then show ?thesis by (simp add: mod_pos_pos_trivial)
    qed
  qed
  ultimately show ?thesis by simp
qed

lemma neg_xor_or: "((a XOR b) OR (NOT s XOR b) < 0) \<longleftrightarrow> (a < 0) \<noteq> (b < 0) \<or> (s < 0) = (b < 0)" for a b s :: int
  by (auto simp: xor_negative_int_iff or_negative_int_iff not_int_def)

lemma av_sat_add64_c_clip: "in_s64 a \<Longrightarrow> in_s64 b \<Longrightarrow> av_sat_add64_c a b = clip INT64_MIN INT64_MAX (a + b)"
  using s64_wrap [of "a + b"] by (auto simp: av_sat_add64_c_def clip_simps in_s64_def Let_def)

text \<open>
  Also: the saturating additions and subtractions return the exact result limited to the type, and the
  overflow-builtin and the portable variant of the 64-bit ones are the same function.
\<close>

theorem av_sat_correct:
  assumes "in_s64 a" "in_s64 b" "in_s32 c" "in_s32 d"
  shows "av_sat_add64_c a b = clip INT64_MIN INT64_MAX (a + b) \<and> av_sat_add64_portable a b = av_sat_add64_c a b \<and>
    av_sat_sub64_c a b = clip INT64_MIN INT64_MAX (a - b) \<and> av_sat_sub64_portable a b = av_sat_sub64_c a b \<and>
    av_sat_add32_c c d = clip INT_MIN INT_MAX (c + d) \<and> av_sat_sub32_c c d = clip INT_MIN INT_MAX (c - d) \<and>
    av_sat_dadd32_c c d = clip INT_MIN INT_MAX (c + clip INT_MIN INT_MAX (2 * d)) \<and>
    av_sat_dsub32_c c d = clip INT_MIN INT_MAX (c - clip INT_MIN INT_MAX (2 * d))"
proof (intro conjI)
  show "av_sat_add64_c a b = clip INT64_MIN INT64_MAX (a + b)" using assms(1,2) by (rule av_sat_add64_c_clip)
  have p: "av_sat_add64_portable a b = clip INT64_MIN INT64_MAX (a + b)"
    using assms(1,2) s64_wrap [of "a + b"] neg_xor_or [of a b "s64 (a + b)"]
    by (auto simp: av_sat_add64_portable_def drop_bit_sign64 clip_simps in_s64_def Let_def not_le)
  then show "av_sat_add64_portable a b = av_sat_add64_c a b" using assms(1,2) by (simp only: av_sat_add64_c_clip)
  show s: "av_sat_sub64_c a b = clip INT64_MIN INT64_MAX (a - b)"
    using assms(1,2) s64_wrap [of "a - b"] by (auto simp: av_sat_sub64_c_def clip_simps in_s64_def Let_def)
  show "av_sat_sub64_portable a b = av_sat_sub64_c a b"
    unfolding s using assms(1,2) s64_wrap [of "a - b"] by (auto simp: av_sat_sub64_portable_def clip_simps in_s64_def)
  have add: "av_sat_add32_c x y = clip INT_MIN INT_MAX (x + y)" and sub: "av_sat_sub32_c x y = clip INT_MIN INT_MAX (x - y)"
    if "in_s32 x" "in_s32 y" for x y
    using that by (auto simp: av_sat_add32_c_def av_sat_sub32_c_def in_s32_def in_s64_def intro!: av_clipl_int32_c_clip)
  have c: "in_s32 (clip INT_MIN INT_MAX x)" for x by (simp add: clip_simps in_s32_def)
  show "av_sat_add32_c c d = clip INT_MIN INT_MAX (c + d)" "av_sat_sub32_c c d = clip INT_MIN INT_MAX (c - d)"
    using assms(3,4) by (simp_all only: add sub)
  show "av_sat_dadd32_c c d = clip INT_MIN INT_MAX (c + clip INT_MIN INT_MAX (2 * d))"
    "av_sat_dsub32_c c d = clip INT_MIN INT_MAX (c - clip INT_MIN INT_MAX (2 * d))"
    using assms(3,4) by (simp_all only: av_sat_dadd32_c_def av_sat_dsub32_c_def add sub c mult_2)
qed

theorem av_sat_correct_witness:
  "av_sat_add64_c INT64_MAX 5 = clip INT64_MIN INT64_MAX (INT64_MAX + 5) \<and> av_sat_add64_portable INT64_MAX 5 = av_sat_add64_c INT64_MAX 5 \<and>
    av_sat_sub64_c INT64_MAX 5 = clip INT64_MIN INT64_MAX (INT64_MAX - 5) \<and> av_sat_sub64_portable INT64_MAX 5 = av_sat_sub64_c INT64_MAX 5 \<and>
    av_sat_add32_c 7 INT_MIN = clip INT_MIN INT_MAX (7 + INT_MIN) \<and> av_sat_sub32_c 7 INT_MIN = clip INT_MIN INT_MAX (7 - INT_MIN) \<and>
    av_sat_dadd32_c 7 INT_MIN = clip INT_MIN INT_MAX (7 + clip INT_MIN INT_MAX (2 * INT_MIN)) \<and>
    av_sat_dsub32_c 7 INT_MIN = clip INT_MIN INT_MAX (7 - clip INT_MIN INT_MAX (2 * INT_MIN))"
  by (rule av_sat_correct) (simp_all add: in_s32_def in_s64_def)

end
