(* ===== verification/AV_Mathematics.thy ===== *)
theory AV_Mathematics
  imports AV_Intmath
begin

text \<open>
  \<^verbatim>\<open>libavutil/mathematics.c\<close>, first part: the binary greatest common divisor and the rescaling
  of a 64-bit integer by a fraction in five rounding modes. The theory proves that the gcd loop
  ends and computes the gcd, and that rescaling, whichever of its three code paths runs (a native
  64-bit division, a split division, or a 128-bit product followed by a bit-by-bit long division),
  is the exact rational value rounded as the mode asks, or \<^verbatim>\<open>INT64_MIN\<close> when that does not fit.
\<close>

unbundle bit_operations_syntax

section \<open>Greatest common divisor\<close>

text \<open>The loop of Stein's algorithm; \<open>None\<close> stands for a loop that does not return.\<close>

partial_function (option) av_gcd_loop :: "int \<Rightarrow> int \<Rightarrow> int option" where
  "av_gcd_loop u v =
     (if u = v then Some u
      else let (u, v) = (if u > v then (v, u) else (u, v));
               v = v - u
           in av_gcd_loop u (drop_bit (ff_ctzll_c v) v))"

definition av_gcd :: "int \<Rightarrow> int \<Rightarrow> int option" where
  "av_gcd a b =
     (if a = 0 then Some b
      else if b = 0 then Some a
      else let za = ff_ctzll_c a; zb = ff_ctzll_c b; k = min za zb;
               u = \<bar>drop_bit za a\<bar>; v = \<bar>drop_bit zb b\<bar>
           in map_option (\<lambda>u. s64 (push_bit k u)) (av_gcd_loop u v))"

section \<open>Rescaling\<close>

abbreviation AV_ROUND_ZERO :: u32 where "AV_ROUND_ZERO \<equiv> 0"
abbreviation AV_ROUND_INF :: u32 where "AV_ROUND_INF \<equiv> 1"
abbreviation AV_ROUND_DOWN :: u32 where "AV_ROUND_DOWN \<equiv> 2"
abbreviation AV_ROUND_UP :: u32 where "AV_ROUND_UP \<equiv> 3"
abbreviation AV_ROUND_NEAR_INF :: u32 where "AV_ROUND_NEAR_INF \<equiv> 5"
abbreviation AV_ROUND_PASS_MINMAX :: u32 where "AV_ROUND_PASS_MINMAX \<equiv> 8192"

text \<open>The loop \<^verbatim>\<open>for (i = 63; i >= 0; i--)\<close> over the 128-bit dividend \<open>(a1, a0)\<close>; the first
  argument is \<^verbatim>\<open>i + 1\<close>.\<close>

fun rescale_div_loop :: "nat \<Rightarrow> u64 \<Rightarrow> u64 \<Rightarrow> u64 \<Rightarrow> u64 \<Rightarrow> u64" where
  "rescale_div_loop 0 c a0 a1 t1 = t1"
| "rescale_div_loop (Suc i) c a0 a1 t1 =
     (let a1 = a1 + (a1 + (drop_bit i a0 AND 1));
          t1 = t1 + t1
      in if c \<le> a1 then rescale_div_loop i c a0 (a1 - c) (t1 + 1)
         else rescale_div_loop i c a0 a1 t1)"

text \<open>The branch for operands above \<^verbatim>\<open>INT_MAX\<close>: a 128-bit product in two words, then the loop.\<close>

definition rescale_wide :: "int \<Rightarrow> int \<Rightarrow> int \<Rightarrow> int \<Rightarrow> int" where
  "rescale_wide a b c r =
     (let a0 = word_of_int a AND 0xFFFFFFFF;
          a1 = drop_bit 32 (word_of_int a) :: u64;
          b0 = word_of_int b AND 0xFFFFFFFF;
          b1 = drop_bit 32 (word_of_int b) :: u64;
          t1 = a0 * b1 + a1 * b0;
          t1a = push_bit 32 t1;
          a0 = a0 * b0 + t1a;
          a1 = a1 * b1 + drop_bit 32 t1 + (if a0 < t1a then 1 else 0);
          a0 = a0 + word_of_int r;
          a1 = a1 + (if a0 < word_of_int r then 1 else 0);
          t1 = rescale_div_loop 64 (word_of_int c) a0 a1 t1
      in if t1 > word_of_int INT64_MAX then INT64_MIN else sint t1)"

function av_rescale_rnd :: "int \<Rightarrow> int \<Rightarrow> int \<Rightarrow> u32 \<Rightarrow> int" where
  "av_rescale_rnd a b c rnd =
     (if c \<le> 0 \<or> b < 0 \<or>
         \<not> (rnd AND NOT AV_ROUND_PASS_MINMAX \<le> 5 \<and> rnd AND NOT AV_ROUND_PASS_MINMAX \<noteq> 4)
      then INT64_MIN
      else if rnd AND AV_ROUND_PASS_MINMAX \<noteq> 0 \<and> (a = INT64_MIN \<or> a = INT64_MAX) then a
      else
        let rnd = (if rnd AND AV_ROUND_PASS_MINMAX \<noteq> 0 then rnd - AV_ROUND_PASS_MINMAX else rnd)
        in if a < 0
           then s64 (- av_rescale_rnd (- max a (- INT64_MAX)) b c (rnd XOR (drop_bit 1 rnd AND 1)))
           else
             let r = (if rnd = AV_ROUND_NEAR_INF then c_div c 2
                      else if rnd AND 1 \<noteq> 0 then c - 1 else 0)
             in if b \<le> INT_MAX \<and> c \<le> INT_MAX
                then if a \<le> INT_MAX then c_div (s64 (a * b + r)) c
                     else let ad = c_div a c;
                              a2 = c_div (s64 (c_mod a c * b + r)) c
                          in if ad \<ge> 2147483647 \<and> b \<noteq> 0 \<and> ad > c_div (INT64_MAX - a2) b
                             then INT64_MIN
                             else s64 (ad * b + a2)
                else rescale_wide a b c r)"
  by pat_completeness auto
termination
  by (relation "measure (\<lambda>(a, b, c, rnd). if a < 0 then 1 else 0)") auto

declare av_rescale_rnd.simps [simp del]

definition av_rescale :: "int \<Rightarrow> int \<Rightarrow> int \<Rightarrow> int" where
  "av_rescale a b c = av_rescale_rnd a b c AV_ROUND_NEAR_INF"

section \<open>The gcd loop\<close>

lemma gcd_odd_mult_pow2: "odd (u::int) \<Longrightarrow> gcd u (w * 2 ^ k) = gcd u w"
  by (metis coprime_power_right_iff gcd_mult_right_right_cancel coprime_left_2_iff_odd coprime_commute)

lemma gcd_loop_step:
  assumes "odd (u::int)" "u < v"
  shows "gcd u (drop_bit (ctz (v - u)) (v - u)) = gcd u v"
proof -
  have "gcd u (drop_bit (ctz (v - u)) (v - u)) = gcd u (v - u)"
    using gcd_odd_mult_pow2 [OF assms(1)] shift_ctz_mult [of "v - u"] by metis
  also have "\<dots> = gcd u v"
    by (metis gcd.commute gcd_diff1)
  finally show ?thesis .
qed

lemma drop_bit_pos_le: "0 < (x::int) \<Longrightarrow> 0 < drop_bit (ctz x) x \<and> drop_bit (ctz x) x \<le> x"
proof -
  assume x: "0 < x"
  let ?w = "drop_bit (ctz x) x"
  have eq: "?w * 2 ^ ctz x = x" by (rule shift_ctz_mult)
  with x have w: "0 < ?w" by (metis zero_less_mult_pos2 zero_less_numeral zero_less_power)
  have "(1::int) \<le> 2 ^ ctz x" by simp
  from mult_left_mono [OF this less_imp_le [OF w]] have "?w \<le> x" unfolding eq mult_1_right .
  with w show ?thesis by (rule conjI)
qed

lemma av_gcd_loop_correct:
  "0 < u \<Longrightarrow> u \<le> INT64_MAX \<Longrightarrow> 0 < v \<Longrightarrow> v \<le> INT64_MAX \<Longrightarrow> odd u \<Longrightarrow> odd v \<Longrightarrow> av_gcd_loop u v = Some (gcd u v)"
proof (induction "nat (u + v)" arbitrary: u v rule: less_induct)
  case less
  have swapped: "av_gcd_loop x (drop_bit (ff_ctzll_c (y - x)) (y - x)) = Some (gcd u v)"
    if "{x, y} = {u, v}" "x < y" for x y
  proof -
    let ?w = "drop_bit (ctz (y - x)) (y - x)"
    have xy: "0 < x" "odd x" using that less.prems by auto
    have w: "0 < ?w" "?w \<le> y - x" using drop_bit_pos_le [of "y - x"] that(2) by auto
    have max: "x \<le> INT64_MAX" "y \<le> INT64_MAX" using that less.prems by auto
    then have c: "ff_ctzll_c (y - x) = ctz (y - x)" using that xy by (intro ff_ctzll_c_ctz) (simp_all add: in_s64_def)
    have "x + ?w < u + v" using that w xy less.prems by (auto simp: doubleton_eq_iff)
    then have "av_gcd_loop x ?w = Some (gcd x ?w)"
      using less.hyps [of x ?w] xy w max odd_shift_ctz [of "y - x"] that(2) by simp
    then show ?thesis unfolding c
      using gcd_loop_step [OF xy(2) that(2)] that(1) by (auto simp: doubleton_eq_iff gcd.commute)
  qed
  show ?case
    using swapped [of u v] swapped [of v u] less.prems
    by (subst av_gcd_loop.simps) (auto simp: insert_commute)
qed

lemma gcd_mult_pow2:
  assumes "odd (u::int)" "odd v"
  shows "gcd (u * 2 ^ i) (v * 2 ^ j) = 2 ^ min i j * gcd u v"
proof -
  have main: "gcd (x * 2 ^ i) (y * 2 ^ j) = 2 ^ i * gcd x y" if "i \<le> j" "odd x" for i j and x y :: int
  proof -
    have "gcd (x * 2 ^ i) (y * 2 ^ j) = gcd (2 ^ i * x) (2 ^ i * (y * 2 ^ (j - i)))"
      using that(1) by (simp add: ac_simps flip: power_add)
    also have "\<dots> = 2 ^ i * gcd x (y * 2 ^ (j - i))"
      by (simp add: gcd_mult_left abs_mult)
    finally show ?thesis using gcd_odd_mult_pow2 [OF that(2)] by simp
  qed
  show ?thesis
    using main [of i j u v] main [of j i v u] assms by (auto simp: min_def gcd.commute)
qed

lemma gcd_shift_abs:
  assumes "a \<noteq> 0" "b \<noteq> 0"
  shows "gcd a b = push_bit (min (ctz a) (ctz b))
    (gcd \<bar>drop_bit (ctz a) a\<bar> \<bar>drop_bit (ctz b) b\<bar>)"
  using gcd_mult_pow2 [OF odd_shift_ctz [OF assms(1)] odd_shift_ctz [OF assms(2)],
      of "ctz a" "ctz b"]
  unfolding shift_ctz_mult by (simp add: push_bit_eq_mult mult.commute)

lemma abs_drop_ctz_bounds:
  assumes "a \<noteq> 0" "in_s64 a"
  shows "0 < \<bar>drop_bit (ctz a) a\<bar>" "\<bar>drop_bit (ctz a) a\<bar> \<le> INT64_MAX"
proof -
  let ?w = "drop_bit (ctz a) a"
  have eq: "\<bar>?w\<bar> * 2 ^ ctz a = \<bar>a\<bar>" using arg_cong [OF shift_ctz_mult [of a], of abs] by (simp add: abs_mult)
  have odd: "odd \<bar>?w\<bar>" using odd_shift_ctz [OF assms(1)] by simp
  then show "0 < \<bar>?w\<bar>" by (metis abs_eq_0 even_zero zero_less_abs_iff)
  have "\<bar>?w\<bar> \<le> \<bar>?w\<bar> * 2 ^ ctz a" by (simp add: mult_le_cancel_left1)
  then have "\<bar>?w\<bar> \<le> 2 ^ 63" unfolding eq using assms(2) by (auto simp: in_s64_def)
  moreover have "\<bar>?w\<bar> \<noteq> 2 ^ 63" using odd by (metis even_power even_numeral zero_less_numeral)
  ultimately show "\<bar>?w\<bar> \<le> INT64_MAX" by simp
qed

lemma av_gcd_nonzero:
  assumes "a \<noteq> 0" "b \<noteq> 0" "in_s64 a" "in_s64 b"
  shows "av_gcd a b = Some (s64 (gcd a b))"
proof -
  have "av_gcd_loop \<bar>drop_bit (ctz a) a\<bar> \<bar>drop_bit (ctz b) b\<bar> =
    Some (gcd \<bar>drop_bit (ctz a) a\<bar> \<bar>drop_bit (ctz b) b\<bar>)"
    using odd_shift_ctz [OF assms(1)] odd_shift_ctz [OF assms(2)] abs_drop_ctz_bounds assms
    by (intro av_gcd_loop_correct) auto
  then show ?thesis
    using assms by (simp add: av_gcd_def gcd_shift_abs [OF assms(1,2)] Let_def ff_ctzll_c_ctz)
qed

lemma gcd_bound_s64: "in_s64 a \<Longrightarrow> a \<noteq> 0 \<Longrightarrow> 0 \<le> gcd a b \<and> gcd a b \<le> \<bar>a\<bar>"
  by (simp add: zdvd_imp_le)

lemma av_gcd_Some [simp]:
  assumes "0 \<le> a" "a \<le> INT64_MAX" "0 \<le> b" "b \<le> INT64_MAX"
  shows "av_gcd a b = Some (gcd a b)"
proof (cases "a = 0 \<or> b = 0")
  case True
  then show ?thesis using assms by (auto simp: av_gcd_def)
next
  case False
  have r: "in_s64 a" "in_s64 b" using assms by (simp_all add: in_s64_def)
  have "0 \<le> gcd a b \<and> gcd a b \<le> \<bar>a\<bar>" using False r by (intro gcd_bound_s64) simp_all
  then have "INT64_MIN \<le> gcd a b" "gcd a b \<le> INT64_MAX" using assms by linarith+
  then have "in_s64 (gcd a b)" by (simp add: in_s64_def)
  with False r show ?thesis by (simp add: av_gcd_nonzero s64_id)
qed

text \<open>
  Also: \<^verbatim>\<open>av_gcd\<close> returns on every pair of 64-bit operands, and what it returns is the greatest common
  divisor up to sign, non-negative when both operands are, and 0 for two zeros.
\<close>

theorem av_gcd_correct:
  assumes "in_s64 a" "in_s64 b"
  shows "\<exists>g. av_gcd a b = Some g \<and> \<bar>g\<bar> = gcd a b \<and> (0 \<le> a \<and> 0 \<le> b \<longrightarrow> 0 \<le> g)"
proof (cases "a = 0 \<or> b = 0")
  case True
  then show ?thesis by (auto simp: av_gcd_def)
next
  case False
  have g: "0 \<le> gcd a b" "gcd a b \<le> \<bar>a\<bar>" using False gcd_bound_s64 [OF assms(1), of b] by simp_all
  show ?thesis
  proof (cases "gcd a b = 2 ^ 63")
    case True
    moreover have "s64 (2 ^ 63) = - (2 ^ 63)" using s64_wrap [of "2 ^ 63"] by simp
    moreover have "\<not> 0 \<le> a \<or> \<not> 0 \<le> b" using True g assms(1) by (auto simp: in_s64_def)
    ultimately show ?thesis using False assms by (simp add: av_gcd_nonzero)
  next
    case no: False
    have "INT64_MIN \<le> gcd a b" "gcd a b \<le> INT64_MAX" proof -
      show "INT64_MIN \<le> gcd a b" using g(1) by linarith
      have "gcd a b \<le> 2 ^ 63" using g(2) assms(1) by (auto simp: in_s64_def)
      with no show "gcd a b \<le> INT64_MAX" by simp
    qed
    then have "s64 (gcd a b) = gcd a b" by (intro s64_id) (simp add: in_s64_def)
    with False assms show ?thesis by (simp add: av_gcd_nonzero)
  qed
qed

theorem av_gcd_correct_witness:
  "\<exists>g. av_gcd INT64_MIN 90000 = Some g \<and> \<bar>g\<bar> = gcd INT64_MIN 90000 \<and> (0 \<le> INT64_MIN \<and> 0 \<le> (90000 :: int) \<longrightarrow> 0 \<le> g)"
  by (rule av_gcd_correct) (simp_all add: in_s64_def)

section \<open>The 128-bit long division\<close>

lemma rescale_div_loop_small:
  "uint a1 < uint c \<Longrightarrow> uint c \<le> 2 ^ 63 \<Longrightarrow>
   rescale_div_loop n c a0 a1 t =
     t * 2 ^ n + word_of_int ((uint a1 * 2 ^ n + uint a0 mod 2 ^ n) div uint c)"
proof (induction n arbitrary: a1 t)
  case 0
  then show ?case by simp
next
  case (Suc i)
  let ?bit = "uint a0 div 2 ^ i mod 2"
  let ?a1 = "a1 + (a1 + (drop_bit i a0 AND 1))"
  let ?x = "uint a1 * 2 ^ Suc i + uint a0 mod 2 ^ Suc i"
  have pos: "0 < uint c" using Suc.prems(1) uint_ge_0 [of a1] by linarith
  have u: "uint ?a1 = 2 * uint a1 + ?bit"
    using Suc.prems by (simp add: uint_word_ariths uint_bit mod_add_right_eq) 
  have x: "?x = uint ?a1 * 2 ^ i + uint a0 mod 2 ^ i"
    unfolding u mod_pow_Suc by (simp add: algebra_simps)
  show ?case
  proof (cases "c \<le> ?a1")
    case True
    then have d: "uint (?a1 - c) = uint ?a1 - uint c"
      by (simp add: uint_sub_lem word_le_def)
    have lt: "uint (?a1 - c) < uint c" unfolding d u using Suc.prems by simp
    have "?x = (uint (?a1 - c) * 2 ^ i + uint a0 mod 2 ^ i) + 2 ^ i * uint c"
      unfolding x d by (simp add: algebra_simps)
    then have q: "?x div uint c = (uint (?a1 - c) * 2 ^ i + uint a0 mod 2 ^ i) div uint c + 2 ^ i"
      using pos by simp
    have "rescale_div_loop (Suc i) c a0 a1 t = rescale_div_loop i c a0 (?a1 - c) (t + t + 1)"
      using True by (simp add: Let_def)
    also have "\<dots> = (t + t + 1) * 2 ^ i + word_of_int ((uint (?a1 - c) * 2 ^ i + uint a0 mod 2 ^ i) div uint c)"
      by (rule Suc.IH [OF lt Suc.prems(2)])
    finally show ?thesis unfolding q by (simp add: algebra_simps)
  next
    case False
    then have lt: "uint ?a1 < uint c" by (simp add: word_le_def)
    have "rescale_div_loop (Suc i) c a0 a1 t = rescale_div_loop i c a0 ?a1 (t + t)"
      using False by (simp add: Let_def)
    also have "\<dots> = (t + t) * 2 ^ i + word_of_int ((uint ?a1 * 2 ^ i + uint a0 mod 2 ^ i) div uint c)"
      by (rule Suc.IH [OF lt Suc.prems(2)])
    finally show ?thesis unfolding x by (simp add: algebra_simps)
  qed
qed

lemma rescale_div_loop_shape:
  "\<exists>r. 0 \<le> r \<and> r < 2 ^ n \<and> rescale_div_loop n c a0 a1 t = t * 2 ^ n + word_of_int r"
proof (induction n arbitrary: a1 t)
  case 0
  then show ?case by (intro exI [of _ 0]) simp
next
  case (Suc i)
  let ?a1 = "a1 + (a1 + (drop_bit i a0 AND 1))"
  show ?case
  proof (cases "c \<le> ?a1")
    case True
    obtain r where "0 \<le> r" "r < 2 ^ i"
      "rescale_div_loop i c a0 (?a1 - c) (t + t + 1) = (t + t + 1) * 2 ^ i + word_of_int r"
      using Suc.IH by blast
    then show ?thesis using True
      by (intro exI [of _ "2 ^ i + r"]) (simp add: Let_def algebra_simps)
  next
    case False
    obtain r where "0 \<le> r" "r < 2 ^ i"
      "rescale_div_loop i c a0 ?a1 (t + t) = (t + t) * 2 ^ i + word_of_int r"
      using Suc.IH by blast
    then show ?thesis using False
      by (intro exI [of _ r]) (simp add: Let_def algebra_simps)
  qed
qed


lemma rescale_div_loop_big:
  assumes "uint c \<le> uint a1" "uint a1 < 2 ^ 63"
  shows "word_of_int INT64_MAX < rescale_div_loop 64 c a0 a1 t"
proof -
  let ?a1 = "a1 + (a1 + (drop_bit 63 a0 AND 1))"
  have u: "uint ?a1 = 2 * uint a1 + uint a0 div 2 ^ 63 mod 2"
    using assms(2) by (simp add: uint_word_ariths uint_bit mod_add_right_eq)
  have "0 \<le> uint a0 div 2 ^ 63 mod 2" by simp
  with assms(1) u uint_ge_0 [of a1] have "c \<le> ?a1" unfolding word_le_def by linarith
  moreover obtain r where r: "0 \<le> r" "r < 2 ^ 63"
    "rescale_div_loop 63 c a0 (?a1 - c) (t + t + 1) = (t + t + 1) * 2 ^ 63 + word_of_int r"
    using rescale_div_loop_shape by blast
  ultimately have "rescale_div_loop 64 c a0 a1 t = (t + t + 1) * 2 ^ 63 + word_of_int r"
    by (simp add: Let_def numeral_eq_Suc)
  also have "\<dots> = word_of_int (2 ^ 63 + r)"
    unfolding odd_times_pow63 by simp
  finally have "uint (rescale_div_loop 64 c a0 a1 t) = uint (word_of_int (2 ^ 63 + r) :: u64)"
    by (rule arg_cong)
  also have "\<dots> = 2 ^ 63 + r" by (rule uint_word_of_int_small) (use r in simp_all)
  finally show ?thesis using r by (simp add: word_less_def)
qed

lemma mul_hi_lo:
  assumes a: "0 \<le> a" "a \<le> INT64_MAX" and b: "0 \<le> b" "b \<le> INT64_MAX" and r: "0 \<le> r" "r \<le> INT64_MAX"
    and a0: "a0 = word_of_int a AND (0xFFFFFFFF :: u64)" and a1: "a1 = drop_bit 32 (word_of_int a :: u64)"
    and b0: "b0 = word_of_int b AND (0xFFFFFFFF :: u64)" and b1: "b1 = drop_bit 32 (word_of_int b :: u64)"
    and t1: "t1 = a0 * b1 + a1 * b0" and t1a: "t1a = push_bit 32 t1"
    and lo: "lo = a0 * b0 + t1a" and hi: "hi = a1 * b1 + drop_bit 32 t1 + (if lo < t1a then 1 else 0)"
    and lo': "lo' = lo + word_of_int r" and hi': "hi' = hi + (if lo' < word_of_int r then 1 else 0)"
  shows "uint hi' * 2 ^ 64 + uint lo' = a * b + r"
proof -
  have ua: "uint a0 = a mod 2 ^ 32" "uint b0 = b mod 2 ^ 32"
    using a b unfolding a0 b0
    by (simp_all add: unsigned_and_eq and_mask_32 uint_word_of_int_small)
  have ub: "uint a1 = a div 2 ^ 32" "uint b1 = b div 2 ^ 32"
    using a b unfolding a1 b1 uint_drop_bit_eq64 by (simp_all add: uint_word_of_int_small drop_bit_eq_div)
  define A0 A1 B0 B1 where "A0 = a mod 2 ^ 32" and "A1 = a div 2 ^ 32" and "B0 = b mod 2 ^ 32" and "B1 = b div 2 ^ 32"
  have ab: "a = A1 * 2 ^ 32 + A0" "b = B1 * 2 ^ 32 + B0" by (simp_all add: A0_def A1_def B0_def B1_def)
  have bnd: "0 \<le> A0" "A0 < 2 ^ 32" "0 \<le> B0" "B0 < 2 ^ 32" "0 \<le> A1" "A1 < 2 ^ 31" "0 \<le> B1" "B1 < 2 ^ 31"
    using a b by (auto simp: A0_def A1_def B0_def B1_def)
  note u = ua [folded A0_def B0_def] ub [folded A1_def B1_def]
  have p: "0 \<le> A0 * B1" "A0 * B1 < 2 ^ 63" "0 \<le> A1 * B0" "A1 * B0 < 2 ^ 63" "0 \<le> A1 * B1" "A1 * B1 < 2 ^ 62"
    "0 \<le> A0 * B0" "A0 * B0 < 2 ^ 64"
    using bnd prod_lt_pow2 [of A0 32 B1 31] prod_lt_pow2 [of A1 31 B0 32] prod_lt_pow2 [of A1 31 B1 31]
      prod_lt_pow2 [of A0 32 B0 32] by simp_all
  define T where "T = A0 * B1 + A1 * B0"
  have T: "uint t1 = T" "0 \<le> T" "T < 2 ^ 64"
    using p by (simp_all add: t1 T_def u uint_word_ariths)
  have "uint t1a = T mod 2 ^ 32 * 2 ^ 32"
    by (simp only: t1a unsigned_push_bit_eq T) (simp add: take_bit_eq_mod push_bit_eq_mult flip: mod_mult_mult2)
  then have lo_eq: "uint lo + (if lo < t1a then 2 ^ 64 else 0) = A0 * B0 + T mod 2 ^ 32 * 2 ^ 32"
    using uint_add_carry [of "a0 * b0" t1a] p by (simp add: lo u uint_word_ariths)
  have hi_eq: "uint hi = A1 * B1 + T div 2 ^ 32 + (if lo < t1a then 1 else 0)"
  proof -
    have d: "uint (drop_bit 32 t1) = T div 2 ^ 32"
      by (simp only: uint_drop_bit_eq64 T(1)) (simp only: drop_bit_eq_div)
    have "uint (a1 * b1) = A1 * B1" using p by (simp add: u uint_word_ariths)
    then have "uint (a1 * b1 + drop_bit 32 t1) = A1 * B1 + T div 2 ^ 32"
      using p T by (simp only: uint_word_ariths d) simp
    then show ?thesis using p T unfolding hi uint_word_ariths by simp
  qed
  have lo'_eq: "uint lo' + (if lo' < word_of_int r then 2 ^ 64 else 0) = uint lo + r"
    using uint_add_carry [of lo "word_of_int r"] r by (simp add: lo' uint_word_of_int_small)
  have hi'_eq: "uint hi' = uint hi + (if lo' < word_of_int r then 1 else 0)"
    using p T hi_eq by (simp add: hi' uint_word_ariths)
  define Th Tl where Th_def: "Th = T div 2 ^ 32" and Tl_def: "Tl = T mod 2 ^ 32"
  have "a * b = A1 * B1 * 2 ^ 64 + T * 2 ^ 32 + A0 * B0"
    by (simp add: ab T_def algebra_simps)
  moreover have "T = Th * 2 ^ 32 + Tl" by (simp add: Th_def Tl_def)
  ultimately show ?thesis using lo_eq [folded Tl_def] hi_eq [folded Th_def] lo'_eq hi'_eq
    by (cases "lo < t1a"; cases "lo' < word_of_int r"; simp)
qed

lemma rescale_wide_correct:
  assumes a: "0 \<le> a" "a \<le> INT64_MAX" and b: "0 \<le> b" "b \<le> INT64_MAX"
    and c: "0 < c" "c \<le> INT64_MAX" and r: "0 \<le> r" "r < c"
  shows "rescale_wide a b c r = (let q = (a * b + r) div c in if q > INT64_MAX then INT64_MIN else q)"
proof -
  let ?M = "0xFFFFFFFF :: u64"
  define a0 a1 b0 b1 where "a0 = word_of_int a AND ?M" and "a1 = drop_bit 32 (word_of_int a :: u64)"
    and "b0 = word_of_int b AND ?M" and "b1 = drop_bit 32 (word_of_int b :: u64)"
  define t1 where "t1 = a0 * b1 + a1 * b0"
  define lo where "lo = a0 * b0 + push_bit 32 t1"
  define hi where "hi = a1 * b1 + drop_bit 32 t1 + (if lo < push_bit 32 t1 then 1 else 0)"
  define lo' where "lo' = lo + word_of_int r"
  define hi' where "hi' = hi + (if lo' < word_of_int r then 1 else 0)"
  define t where "t = rescale_div_loop 64 (word_of_int c) lo' hi' t1"
  have unfold: "rescale_wide a b c r = (if t > word_of_int INT64_MAX then INT64_MIN else sint t)"
    unfolding rescale_wide_def Let_def t_def hi'_def lo'_def hi_def lo_def t1_def a0_def a1_def b0_def b1_def by (rule refl)
  have N: "uint hi' * 2 ^ 64 + uint lo' = a * b + r"
    by (rule mul_hi_lo [OF a b r(1) _ a0_def a1_def b0_def b1_def t1_def refl lo_def hi_def lo'_def hi'_def])
      (use r c in simp)
  have uc: "uint (word_of_int c :: u64) = c" by (rule uint_word_of_int_small) (use c in simp_all)
  let ?q = "(a * b + r) div c"
  have lo64: "0 \<le> uint lo'" "uint lo' < 2 ^ 64" using uint_lt2p [of lo'] by simp_all
  show ?thesis
  proof (cases "uint hi' < c")
    case True
    have "t = word_of_int ?q"
      using rescale_div_loop_small [of hi' "word_of_int c" 64 lo' t1] True c uc lo64
      unfolding times_pow64 by (simp add: t_def flip: N)
    moreover have "?q < 2 ^ 64"
    proof -
      have "a * b + r < 2 ^ 64 * c" using True lo64 unfolding N [symmetric] by simp
      then show ?thesis using c by (simp add: int_div_less_iff)
    qed
    moreover have "0 \<le> ?q" using a b c r by (simp add: pos_imp_zdiv_nonneg_iff)
    ultimately show ?thesis 
      unfolding unfold by (simp add: Let_def word_less_def uint_word_of_int_small sint_word_of_int_s64 s64_id in_s64_def)
  next
    case False
    have "a * b < 2 ^ 63 * 2 ^ 63" using a b by (intro mult_strict_mono) simp_all
    moreover have "uint hi' * 2 ^ 64 \<le> a * b + r" using N lo64(1) by linarith
    ultimately have "uint hi' < 2 ^ 63" using r c by simp
    then have "word_of_int INT64_MAX < t"
      unfolding t_def using False uc by (intro rescale_div_loop_big) simp_all
    moreover have "c * 2 ^ 64 \<le> uint hi' * 2 ^ 64" using False by simp
    then have "c * 2 ^ 64 \<le> a * b + r" using lo64(1) N by linarith
    then have "2 ^ 64 * c \<le> a * b + r" by (simp only: mult.commute)
    then have "2 ^ 64 \<le> ?q" using c by (simp add: int_le_div_iff)
    ultimately show ?thesis unfolding unfold by (simp add: Let_def)
  qed
qed

section \<open>Rescaling is exact rounding\<close>

text \<open>The documented meaning of the five modes, as rounding of a rational number.\<close>

definition round_mode :: "u32 \<Rightarrow> rat \<Rightarrow> int" where
  "round_mode rnd x =
     (if rnd = AV_ROUND_DOWN then \<lfloor>x\<rfloor>
      else if rnd = AV_ROUND_UP then \<lceil>x\<rceil>
      else if rnd = AV_ROUND_ZERO then (if x < 0 then \<lceil>x\<rceil> else \<lfloor>x\<rfloor>)
      else if rnd = AV_ROUND_INF then (if x < 0 then \<lfloor>x\<rfloor> else \<lceil>x\<rceil>)
      else (if x < 0 then \<lceil>x - 1 / 2\<rceil> else \<lfloor>x + 1 / 2\<rfloor>))"

definition rescale_offset :: "u32 \<Rightarrow> int \<Rightarrow> int" where
  "rescale_offset rnd c = (if rnd = AV_ROUND_NEAR_INF then c div 2 else if rnd AND 1 \<noteq> 0 then c - 1 else 0)"

abbreviation plain_mode :: "u32 \<Rightarrow> bool" where
  "plain_mode rnd \<equiv> rnd = 0 \<or> rnd = 1 \<or> rnd = 2 \<or> rnd = 3 \<or> rnd = 5"

lemma rescale_offset_bounds: "0 < c \<Longrightarrow> 0 \<le> rescale_offset rnd c \<and> rescale_offset rnd c < c"
  by (auto simp: rescale_offset_def)

lemma round_mode_nonneg:
  assumes "plain_mode rnd" "0 < c" "0 \<le> x"
  shows "round_mode rnd (of_int x / of_int c) = (x + rescale_offset rnd c) div c"
  using assms by (auto simp: round_mode_def rescale_offset_def floor_divide_of_int_eq ceiling_div floor_half_div divide_less_0_iff)

text \<open>Rounding a negative number is the mirror image, with up and down exchanged.\<close>

definition mirror_mode :: "u32 \<Rightarrow> u32" where
  "mirror_mode rnd = rnd XOR (drop_bit 1 rnd AND 1)"

lemma mirror_mode_simps [simp]:
  "mirror_mode 0 = 0" "mirror_mode 1 = 1" "mirror_mode 2 = 3" "mirror_mode 3 = 2" "mirror_mode 5 = 5"
  by (simp_all add: mirror_mode_def)

lemma round_mode_mirror: "plain_mode rnd \<Longrightarrow> round_mode rnd (- x) = - round_mode (mirror_mode rnd) x"
proof -
  have "\<lfloor>1 / 2 :: rat\<rfloor> = 0" by (simp add: floor_eq_iff)
  then show "plain_mode rnd \<Longrightarrow> ?thesis"
    by (cases "x = 0") (auto simp: round_mode_def ceiling_def add.commute)
qed

definition representable :: "int \<Rightarrow> int" where
  "representable q = (if \<bar>q\<bar> \<le> INT64_MAX then q else INT64_MIN)"

lemma plain_mode_checks:
  "plain_mode rnd \<Longrightarrow> rnd AND NOT AV_ROUND_PASS_MINMAX \<le> 5 \<and> rnd AND NOT AV_ROUND_PASS_MINMAX \<noteq> 4 \<and>
     rnd AND AV_ROUND_PASS_MINMAX = 0"
  by auto

lemma rescale_split_quotient:
  fixes a b c r :: int
  assumes "0 < c"
  shows "(a * b + r) div c = a div c * b + (a mod c * b + r) div c"
proof -
  have "a * b + r = (a div c * c + a mod c) * b + r" by simp
  also have "\<dots> = (a mod c * b + r) + (a div c * b) * c" by (simp only: algebra_simps)
  finally have eq: "a * b + r = (a mod c * b + r) + (a div c * b) * c" .
  show ?thesis unfolding eq using assms by simp
qed

lemma av_rescale_rnd_step:
  assumes "0 \<le> a" "0 \<le> b" "0 < c" "plain_mode rnd"
  shows "av_rescale_rnd a b c rnd =
    (if b \<le> INT_MAX \<and> c \<le> INT_MAX
     then if a \<le> INT_MAX then c_div (s64 (a * b + rescale_offset rnd c)) c
          else let ad = c_div a c;
                   a2 = c_div (s64 (c_mod a c * b + rescale_offset rnd c)) c
               in if ad \<ge> 2147483647 \<and> b \<noteq> 0 \<and> ad > c_div (INT64_MAX - a2) b
                  then INT64_MIN
                  else s64 (ad * b + a2)
     else rescale_wide a b c (rescale_offset rnd c))"
proof -
  have chk: "(c \<le> 0 \<or> b < 0 \<or>
      \<not> (rnd AND NOT AV_ROUND_PASS_MINMAX \<le> 5 \<and> rnd AND NOT AV_ROUND_PASS_MINMAX \<noteq> 4)) = False"
    and flag: "rnd AND AV_ROUND_PASS_MINMAX = 0" and neg: "(a < 0) = False"
    using assms plain_mode_checks [OF assms(4)] by simp_all
  have r: "(if rnd = AV_ROUND_NEAR_INF then c_div c 2 else if rnd AND 1 \<noteq> 0 then c - 1 else 0) = rescale_offset rnd c"
    using assms by (simp add: rescale_offset_def)
  show ?thesis
    unfolding av_rescale_rnd.simps [of a b c rnd] chk flag
    by (simp only: Let_def neg r simp_thms if_True if_False)
qed

lemma av_rescale_rnd_nonneg:
  assumes a: "0 \<le> a" "a \<le> INT64_MAX" and b: "0 \<le> b" "b \<le> INT64_MAX"
    and c: "0 < c" "c \<le> INT64_MAX" and rnd: "plain_mode rnd"
  shows "av_rescale_rnd a b c rnd = representable ((a * b + rescale_offset rnd c) div c)"
proof -
  define r where "r = rescale_offset rnd c"
  have r: "0 \<le> r" "r < c" using rescale_offset_bounds [OF c(1)] by (simp_all add: r_def)
  let ?q = "(a * b + r) div c"
  have q0: "0 \<le> ?q" using a b r c by (simp add: pos_imp_zdiv_nonneg_iff)
  note unf = av_rescale_rnd_step [OF a(1) b(1) c(1) rnd, folded r_def]
  consider (small) "a \<le> INT_MAX" "b \<le> INT_MAX" "c \<le> INT_MAX" | (split) "a > INT_MAX" "b \<le> INT_MAX" "c \<le> INT_MAX"
    | (wide) "\<not> (b \<le> INT_MAX \<and> c \<le> INT_MAX)" by linarith
  then show ?thesis
  proof cases
    case small
    have "a * b \<le> INT_MAX * INT_MAX" using small a b by (intro mult_mono) simp_all
    then have ab: "0 \<le> a * b + r" "a * b + r \<le> INT64_MAX" using a b r small by simp_all
    have "?q \<le> a * b + r" using zdiv_mono2 [of "a * b + r" 1 c] ab(1) c by simp
    then show ?thesis
      using small a b c ab q0
      unfolding unf r_def [symmetric]
      by (simp add: Let_def s64_id in_s64_def representable_def)
  next
    case split
    define ad a2 where "ad = a div c" and "a2 = (a mod c * b + r) div c"
    have q: "?q = ad * b + a2" unfolding ad_def a2_def by (rule rescale_split_quotient [OF c(1)])
    have m: "0 \<le> a mod c" "a mod c \<le> c - 1" using c pos_mod_bound [of c a] by simp_all
    have mb: "0 \<le> a mod c * b" "a mod c * b \<le> (c - 1) * b" using m b by (simp_all add: mult_right_mono)
    have "(c - 1) * b \<le> INT_MAX * INT_MAX" using split c b by (intro mult_mono) simp_all
    then have num: "0 \<le> a mod c * b + r" "a mod c * b + r \<le> INT64_MAX" using mb r split by simp_all
    have a2: "0 \<le> a2" "a2 < b + 1"
      using num(1) c mb(2) r b by (simp_all add: a2_def pos_imp_zdiv_nonneg_iff int_div_less_iff algebra_simps)
    have ad: "0 \<le> ad" using a c by (simp add: ad_def pos_imp_zdiv_nonneg_iff)
    have cd: "b \<noteq> 0 \<Longrightarrow> c_div (INT64_MAX - a2) b = (INT64_MAX - a2) div b"
      using a2 b split by (intro c_div_nonneg) simp_all
    have over: "b \<noteq> 0 \<Longrightarrow> ad > (INT64_MAX - a2) div b \<longleftrightarrow> ?q > INT64_MAX"
      using b int_div_less_iff [of b "INT64_MAX - a2" ad] unfolding q by auto
    have small_ad: "?q \<le> INT64_MAX" if "ad < 2147483647 \<or> b = 0"
    proof -
      have "b \<noteq> 0 \<Longrightarrow> ad * b \<le> INT_MAX * INT_MAX" using that split b ad by (intro mult_mono) simp_all
      then have "ad * b \<le> INT_MAX * INT_MAX" by (cases "b = 0") simp_all
      then show ?thesis unfolding q using a2 split by simp
    qed
    have "av_rescale_rnd a b c rnd =
        (if ad \<ge> 2147483647 \<and> b \<noteq> 0 \<and> ad > c_div (INT64_MAX - a2) b then INT64_MIN else s64 ?q)"
      using split a b c num
      unfolding unf q ad_def a2_def by (simp add: Let_def s64_id in_s64_def)
    also have "\<dots> = representable ?q"
    proof (cases "ad < 2147483647 \<or> b = 0")
      case True
      with small_ad q0 show ?thesis by (auto simp: representable_def s64_id in_s64_def)
    next
      case False
      with over cd q0 show ?thesis by (auto simp: representable_def s64_id in_s64_def)
    qed
    finally show ?thesis unfolding r_def .
  next
    case wide
    show ?thesis
      unfolding unf r_def [symmetric] if_not_P [OF wide] rescale_wide_correct [OF a b c r]
      using q0 by (simp add: Let_def representable_def)
  qed
qed


lemma s64_neg_representable: "0 \<le> q \<Longrightarrow> s64 (- representable q) = representable (- q)"
  by (auto simp: representable_def s64_id in_s64_def) (simp add: s64_def)

lemma av_rescale_rnd_neg:
  assumes "INT64_MIN < a" "a < 0" "0 \<le> b" "0 < c" "plain_mode rnd"
  shows "av_rescale_rnd a b c rnd = s64 (- av_rescale_rnd (- a) b c (mirror_mode rnd))"
proof -
  have m: "max a (- INT64_MAX) = a" using assms by simp
  have chk: "(c \<le> 0 \<or> b < 0 \<or>
      \<not> (rnd AND NOT AV_ROUND_PASS_MINMAX \<le> 5 \<and> rnd AND NOT AV_ROUND_PASS_MINMAX \<noteq> 4)) = False"
    and flag: "rnd AND AV_ROUND_PASS_MINMAX = 0"
    using assms plain_mode_checks [OF assms(5)] by simp_all
  show ?thesis
    by (subst av_rescale_rnd.simps, unfold chk flag m) (simp only: Let_def mirror_mode_def assms(2) simp_thms if_True if_False)
qed

lemma av_rescale_rnd_round:
  assumes "INT64_MIN < a" "a \<le> INT64_MAX" "0 \<le> b" "b \<le> INT64_MAX" "0 < c" "c \<le> INT64_MAX" "plain_mode rnd"
  shows "av_rescale_rnd a b c rnd = representable (round_mode rnd (of_int (a * b) / of_int c))"
proof (cases "a < 0")
  case False
  have "round_mode rnd (of_int (a * b) / of_int c) = (a * b + rescale_offset rnd c) div c"
    using False assms by (intro round_mode_nonneg) simp_all
  then show ?thesis using False assms by (simp add: av_rescale_rnd_nonneg)
next
  case True
  have m: "plain_mode (mirror_mode rnd)" using assms(7) by auto
  have rec: "av_rescale_rnd a b c rnd = s64 (- av_rescale_rnd (- a) b c (mirror_mode rnd))"
    using True assms by (intro av_rescale_rnd_neg) simp_all
  let ?q = "(- a * b + rescale_offset (mirror_mode rnd) c) div c"
  have "0 \<le> ?q"
    using True assms rescale_offset_bounds [OF assms(5), of "mirror_mode rnd"]
    by (intro iffD2 [OF pos_imp_zdiv_nonneg_iff] add_nonneg_nonneg mult_nonneg_nonneg) simp_all
  moreover have "round_mode rnd (of_int (a * b) / of_int c) = - ?q"
    using round_mode_mirror [OF assms(7), of "of_int (- a * b) / of_int c"]
      round_mode_nonneg [OF m assms(5), of "- a * b"] True assms
    by (simp add: mult_nonpos_nonneg)
  ultimately show ?thesis
    using True assms m by (simp add: rec av_rescale_rnd_nonneg s64_neg_representable)
qed

text \<open>The smallest value is taken for its successor: the negation would not be representable.\<close>

lemma av_rescale_rnd_min:
  assumes "0 \<le> b" "0 < c" "plain_mode rnd"
  shows "av_rescale_rnd INT64_MIN b c rnd = av_rescale_rnd (- INT64_MAX) b c rnd"
proof -
  have chk: "(c \<le> 0 \<or> b < 0 \<or>
      \<not> (rnd AND NOT AV_ROUND_PASS_MINMAX \<le> 5 \<and> rnd AND NOT AV_ROUND_PASS_MINMAX \<noteq> 4)) = False"
    and flag: "rnd AND AV_ROUND_PASS_MINMAX = 0"
    using assms plain_mode_checks [OF assms(3)] by simp_all
  have m: "max INT64_MIN (- INT64_MAX) = - INT64_MAX" "max (- INT64_MAX) (- INT64_MAX) = - INT64_MAX"
    "(INT64_MIN < 0) = True" "(- INT64_MAX < 0) = True" by simp_all
  show ?thesis
    unfolding av_rescale_rnd.simps [of INT64_MIN b c rnd] av_rescale_rnd.simps [of "- INT64_MAX" b c rnd] chk flag m
    by (simp only: Let_def simp_thms if_True if_False)
qed

text \<open>
  C18: for every \<^verbatim>\<open>int64_t\<close> operand, non-negative multiplier, positive divisor and each of the five rounding modes,
  \<^verbatim>\<open>av_rescale_rnd\<close> is the rational number \<open>a * b / c\<close> rounded as the mode documents, computed without loss in all
  three code paths, and \<^verbatim>\<open>INT64_MIN\<close> exactly when that value is not representable; the one exception is the
  operand \<^verbatim>\<open>INT64_MIN\<close> itself, which the code replaces by \<^verbatim>\<open>-INT64_MAX\<close>.
\<close>

theorem av_rescale_rnd_exact:
  assumes "INT64_MIN \<le> a" "a \<le> INT64_MAX" "0 \<le> b" "b \<le> INT64_MAX" "0 < c" "c \<le> INT64_MAX" "plain_mode rnd"
  shows "av_rescale_rnd a b c rnd = representable (round_mode rnd (of_int (max a (- INT64_MAX) * b) / of_int c))"
proof (cases "a = INT64_MIN")
  case True
  have "av_rescale_rnd a b c rnd = av_rescale_rnd (- INT64_MAX) b c rnd"
    unfolding True by (rule av_rescale_rnd_min [OF assms(3,5,7)])
  also have "\<dots> = representable (round_mode rnd (of_int (- INT64_MAX * b) / of_int c))"
    using assms by (intro av_rescale_rnd_round) simp_all
  finally show ?thesis by (simp only: True max_def) simp
next
  case False
  then have "max a (- INT64_MAX) = a" using assms(1) by simp
  moreover have "av_rescale_rnd a b c rnd = representable (round_mode rnd (of_int (a * b) / of_int c))"
    using False assms by (intro av_rescale_rnd_round) simp_all
  ultimately show ?thesis by (simp only:)
qed

theorem av_rescale_rnd_exact_witness:
  "av_rescale_rnd (- 4611686018427387905) 1000000007 3000000019 AV_ROUND_DOWN =
     representable (round_mode AV_ROUND_DOWN (of_int (max (- 4611686018427387905) (- INT64_MAX) * 1000000007) / of_int 3000000019))"
  by (rule av_rescale_rnd_exact) simp_all

text \<open>The 64-bit result stays in range, so callers may pass it on.\<close>

lemma in_s64_representable: "in_s64 (representable q)"
  by (auto simp: representable_def in_s64_def)

text \<open>
  Also: with the flag \<^verbatim>\<open>AV_ROUND_PASS_MINMAX\<close> the two extreme values (\<^verbatim>\<open>AV_NOPTS_VALUE\<close> is one) pass
  through unchanged and every other value is rescaled as without the flag.
\<close>

theorem av_rescale_rnd_minmax:
  assumes "plain_mode rnd" "0 \<le> b" "0 < c"
  shows "av_rescale_rnd a b c (rnd OR AV_ROUND_PASS_MINMAX) =
    (if a = INT64_MIN \<or> a = INT64_MAX then a else av_rescale_rnd a b c rnd)"
proof -
  let ?f = "rnd OR AV_ROUND_PASS_MINMAX"
  have f: "?f AND NOT AV_ROUND_PASS_MINMAX = rnd" "?f AND AV_ROUND_PASS_MINMAX = AV_ROUND_PASS_MINMAX"
    "?f - AV_ROUND_PASS_MINMAX = rnd" "rnd AND NOT AV_ROUND_PASS_MINMAX = rnd"
    "rnd AND AV_ROUND_PASS_MINMAX = 0" "rnd \<le> 5" "rnd \<noteq> 4"
    using assms(1) by auto
  have nz: "(AV_ROUND_PASS_MINMAX = (0 :: u32)) = False" by simp
  have chk: "(c \<le> 0 \<or> b < 0 \<or> \<not> (rnd \<le> 5 \<and> rnd \<noteq> 4)) = False" using assms f(6,7) by simp
  show ?thesis
    unfolding av_rescale_rnd.simps [of a b c ?f] av_rescale_rnd.simps [of a b c rnd] f(1-5) nz chk
    by (simp only: Let_def simp_thms if_True if_False)
qed

theorem av_rescale_rnd_minmax_witness:
  "av_rescale_rnd AV_NOPTS_VALUE 1 2 (AV_ROUND_UP OR AV_ROUND_PASS_MINMAX) =
    (if AV_NOPTS_VALUE = INT64_MIN \<or> AV_NOPTS_VALUE = INT64_MAX then AV_NOPTS_VALUE
     else av_rescale_rnd AV_NOPTS_VALUE 1 2 AV_ROUND_UP)"
  by (rule av_rescale_rnd_minmax) simp_all

lemma av_rescale_rnd_invalid:
  assumes "c \<le> 0 \<or> b < 0 \<or> rnd AND NOT AV_ROUND_PASS_MINMAX = 4 \<or> rnd AND NOT AV_ROUND_PASS_MINMAX > 5"
  shows "av_rescale_rnd a b c rnd = INT64_MIN"
proof -
  have chk: "(c \<le> 0 \<or> b < 0 \<or>
      \<not> (rnd AND NOT AV_ROUND_PASS_MINMAX \<le> 5 \<and> rnd AND NOT AV_ROUND_PASS_MINMAX \<noteq> 4)) = True"
    using assms unfolding not_le [symmetric] by blast
  show ?thesis unfolding av_rescale_rnd.simps [of a b c rnd] chk if_True by (rule refl)
qed

end
