(* ===== verification/AV_Rational.thy ===== *)
theory AV_Rational
  imports AV_Mathematics
begin

text \<open>
  \<^verbatim>\<open>libavutil/rational.c\<close> and \<^verbatim>\<open>rational.h\<close>: fractions of two \<^verbatim>\<open>int\<close>s, their reduction to a
  size limit, arithmetic, comparison and nearest-fraction search. The theory proves that the
  continued-fraction loop of \<^verbatim>\<open>av_reduce\<close> never overflows, satisfies the two assertions the code
  ends with, and returns a best approximation among all fractions within the limit.
\<close>

unbundle bit_operations_syntax

section \<open>The data type and reduction\<close>

record AVRational =
  num :: int
  den :: int

abbreviation av_make_q :: "int \<Rightarrow> int \<Rightarrow> AVRational" where
  "av_make_q n d \<equiv> \<lparr>num = n, den = d\<rparr>"

text \<open>
  The loop of \<^verbatim>\<open>av_reduce\<close>: \<open>x\<close> is \<^verbatim>\<open>uint64_t\<close>, \<open>next_den\<close>, \<open>a2n\<close> and \<open>a2d\<close> are \<^verbatim>\<open>int64_t\<close>, the
  fields of \<open>a1\<close> are \<^verbatim>\<open>int\<close>, and the comparison in the last step is made in \<^verbatim>\<open>uint64_t\<close>. The
  result is \<open>a1\<close> with the final \<open>den\<close>.
\<close>

lemma abs_s64_le: "\<bar>s64 x\<bar> \<le> \<bar>x\<bar>"
proof (cases "in_s64 x")
  case True
  then show ?thesis by (simp add: s64_id)
next
  case False
  with in_s64_s64 [of x] show ?thesis by (auto simp: in_s64_def)
qed

lemma s64_w64_mult: "s64 (a - b * w64 c) = s64 (a - b * c)"
proof -
  have "(a - b * (c mod 2 ^ 64)) mod 2 ^ 64 = (a - b * c) mod 2 ^ 64"
    by (metis mod_diff_right_eq mod_mult_right_eq)
  then show ?thesis
    by (simp add: s64_def w64_def signed_take_bit_eq_iff_take_bit_eq take_bit_eq_mod)
qed

lemma abs_c_mod_less: "b \<noteq> 0 \<Longrightarrow> \<bar>a - b * c_div a b\<bar> < \<bar>b\<bar>"
proof -
  assume b: "b \<noteq> 0"
  have "a - b * c_div a b = sgn a * (\<bar>a\<bar> - \<bar>b\<bar> * (\<bar>a\<bar> div \<bar>b\<bar>))"
    by (simp add: c_div_def algebra_simps sgn_if)
  also have "\<bar>a\<bar> - \<bar>b\<bar> * (\<bar>a\<bar> div \<bar>b\<bar>) = \<bar>a\<bar> mod \<bar>b\<bar>" by (simp add: minus_mult_div_eq_mod)
  finally have "a - b * c_div a b = sgn a * (\<bar>a\<bar> mod \<bar>b\<bar>)" .
  then show ?thesis using b by (simp add: abs_mult sgn_if)
qed

function av_reduce_loop :: "int \<Rightarrow> int \<Rightarrow> AVRational \<Rightarrow> AVRational \<Rightarrow> int \<Rightarrow> AVRational \<times> int" where
  "av_reduce_loop n d a0 a1 mx =
     (if d = 0 then (a1, d)
      else
        let x = w64 (c_div n d);
            next_den = s64 (n - d * x);
            a2n = s64 (x * num a1 + num a0);
            a2d = s64 (x * den a1 + den a0)
        in if a2n > mx \<or> a2d > mx
           then
             let x = (if num a1 \<noteq> 0 then w64 (c_div (mx - num a0) (num a1)) else x);
                 x = (if den a1 \<noteq> 0 then min x (w64 (c_div (mx - den a0) (den a1))) else x)
             in (if w64 (d * (2 * x * den a1 + den a0)) > w64 (n * den a1)
                 then av_make_q (s32 (x * num a1 + num a0)) (s32 (x * den a1 + den a0))
                 else a1, d)
           else av_reduce_loop d next_den a1 (av_make_q (s32 a2n) (s32 a2d)) mx)"
  by pat_completeness auto
termination
proof (relation "measure (\<lambda>(n, d, a0, a1, mx). nat \<bar>d\<bar>)", goal_cases)
  case 1
  show ?case by simp
next
  case (2 n d a0 a1 mx x next_den a2n a2d)
  have "\<bar>next_den\<bar> \<le> \<bar>n - d * c_div n d\<bar>"
    using abs_s64_le [of "n - d * c_div n d"] by (simp add: 2 s64_w64_mult)
  also have "\<dots> < \<bar>d\<bar>" using 2(1) by (rule abs_c_mod_less)
  finally show ?case by simp
qed

declare av_reduce_loop.simps [simp del]

definition av_reduce :: "int \<Rightarrow> int \<Rightarrow> int \<Rightarrow> (int \<times> int \<times> bool) option" where
  "av_reduce n d mx =
     (let sign = (n < 0) \<noteq> (d < 0)
      in case av_gcd \<bar>n\<bar> \<bar>d\<bar> of
           None \<Rightarrow> None
         | Some g \<Rightarrow>
             let (n, d) = (if g \<noteq> 0 then (c_div \<bar>n\<bar> g, c_div \<bar>d\<bar> g) else (n, d));
                 (a1, d) = (if n \<le> mx \<and> d \<le> mx
                            then (av_make_q (s32 n) (s32 d), 0)
                            else av_reduce_loop n d (av_make_q 0 1) (av_make_q 1 0) mx)
             in Some (if sign then - num a1 else num a1, den a1, d = 0))"

definition av_mul_q :: "AVRational \<Rightarrow> AVRational \<Rightarrow> AVRational option" where
  "av_mul_q b c = map_option (\<lambda>(n, d, _). av_make_q n d)
     (av_reduce (s64 (num b * num c)) (s64 (den b * den c)) INT_MAX)"

definition av_div_q :: "AVRational \<Rightarrow> AVRational \<Rightarrow> AVRational option" where
  "av_div_q b c = av_mul_q b (av_make_q (den c) (num c))"

definition av_add_q :: "AVRational \<Rightarrow> AVRational \<Rightarrow> AVRational option" where
  "av_add_q b c = map_option (\<lambda>(n, d, _). av_make_q n d)
     (av_reduce (s64 (num b * den c + num c * den b)) (s64 (den b * den c)) INT_MAX)"

definition av_sub_q :: "AVRational \<Rightarrow> AVRational \<Rightarrow> AVRational option" where
  "av_sub_q b c = map_option (\<lambda>(n, d, _). av_make_q n d)
     (av_reduce (s64 (num b * den c - num c * den b)) (s64 (den b * den c)) INT_MAX)"

section \<open>Comparison and nearest fractions\<close>

text \<open>\<^verbatim>\<open>av_cmp_q\<close> of \<^verbatim>\<open>rational.h\<close>; its bit tricks read signs off the top bit.\<close>

definition av_cmp_q :: "AVRational \<Rightarrow> AVRational \<Rightarrow> int" where
  "av_cmp_q a b =
     (let tmp = s64 (num a * den b - num b * den a)
      in if tmp \<noteq> 0 then s32 (drop_bit 63 (tmp XOR den a XOR den b)) OR 1
         else if den b \<noteq> 0 \<and> den a \<noteq> 0 then 0
         else if num a \<noteq> 0 \<and> num b \<noteq> 0 then drop_bit 31 (num a) - drop_bit 31 (num b)
         else INT_MIN)"

definition av_nearer_q :: "AVRational \<Rightarrow> AVRational \<Rightarrow> AVRational \<Rightarrow> int" where
  "av_nearer_q q q1 q2 =
     (let a = s64 (num q1 * den q2 + num q2 * den q1);
          b = s64 (2 * den q1 * den q2);
          x_up = av_rescale_rnd a (den q) b AV_ROUND_UP;
          x_down = av_rescale_rnd a (den q) b AV_ROUND_DOWN
      in (of_flag (x_up > num q) - of_flag (x_down < num q)) * av_cmp_q q2 q1)"

text \<open>The list ends at the first zero denominator; \<open>None\<close> is a read past the end of the array.\<close>

fun av_find_nearest_loop :: "AVRational \<Rightarrow> AVRational list \<Rightarrow> nat \<Rightarrow> AVRational list \<Rightarrow> nat \<Rightarrow> nat option" where
  "av_find_nearest_loop q q_list i [] nearest = None"
| "av_find_nearest_loop q q_list i (e # es) nearest =
     (if den e = 0 then Some nearest
      else av_find_nearest_loop q q_list (Suc i) es
             (if av_nearer_q q (q_list ! i) (q_list ! nearest) > 0 then i else nearest))"

definition av_find_nearest_q_idx :: "AVRational \<Rightarrow> AVRational list \<Rightarrow> nat option" where
  "av_find_nearest_q_idx q q_list = av_find_nearest_loop q q_list 0 q_list 0"

text \<open>\<open>None\<close> is the division by a zero gcd.\<close>

definition av_gcd_q :: "AVRational \<Rightarrow> AVRational \<Rightarrow> int \<Rightarrow> AVRational \<Rightarrow> AVRational option" where
  "av_gcd_q a b max_den def =
     (case av_gcd (den a) (den b) of
        None \<Rightarrow> None
      | Some g \<Rightarrow>
          if g = 0 then None
          else let l = s64 (c_div (den a) g * den b)
               in if l < max_den
                  then map_option (\<lambda>m. av_make_q (s32 m) (s32 l)) (av_gcd (num a) (num b))
                  else Some def)"

section \<open>Best approximation\<close>


text \<open>The invariant of the loop: \<open>N / D\<close> is the target, \<open>a1\<close> and \<open>a0\<close> are neighbouring convergents.\<close>

definition reduce_inv :: "int \<Rightarrow> int \<Rightarrow> int \<Rightarrow> int \<Rightarrow> int \<Rightarrow> AVRational \<Rightarrow> AVRational \<Rightarrow> bool" where
  "reduce_inv N D mx n d a0 a1 \<longleftrightarrow>
     n * num a1 + d * num a0 = N \<and> n * den a1 + d * den a0 = D \<and> 0 \<le> n \<and> 0 \<le> d \<and>
     \<bar>num a1 * den a0 - num a0 * den a1\<bar> = 1 \<and>
     0 \<le> num a1 \<and> num a1 \<le> mx \<and> 0 \<le> den a1 \<and> den a1 \<le> mx \<and>
     0 \<le> num a0 \<and> num a0 \<le> mx \<and> 0 \<le> den a0 \<and> den a0 \<le> mx \<and>
     1 \<le> mx \<and> mx \<le> INT_MAX \<and> N \<le> INT64_MAX \<and> D \<le> INT64_MAX \<and> coprime N D \<and> (N > mx \<or> D > mx)"

text \<open>What a reduced fraction within the limit owes its caller: no admissible fraction is closer.\<close>

definition best_within :: "int \<Rightarrow> int \<Rightarrow> int \<Rightarrow> AVRational \<Rightarrow> bool" where
  "best_within N D mx r \<longleftrightarrow>
     0 \<le> num r \<and> num r \<le> mx \<and> 0 < den r \<and> den r \<le> mx \<and> coprime (num r) (den r) \<and>
     (\<forall>p q. 0 \<le> p \<and> p \<le> mx \<and> 0 < q \<and> q \<le> mx \<longrightarrow>
        \<bar>N * den r - D * num r\<bar> * q \<le> \<bar>N * q - D * p\<bar> * den r)"

lemma neighbour_coprime: "\<bar>h1 * k0 - h0 * k1\<bar> = 1 \<Longrightarrow> coprime h1 (k1 :: int)"
proof (rule coprimeI)
  fix c assume e: "\<bar>h1 * k0 - h0 * k1\<bar> = 1" and "c dvd h1" "c dvd k1"
  then have "c dvd h1 * k0 - h0 * k1" by simp
  then have "c dvd \<bar>h1 * k0 - h0 * k1\<bar>" by simp
  then show "is_unit c" unfolding e .
qed

lemma reduce_inv_d_pos:
  assumes "reduce_inv N D mx n d a0 a1" shows "0 < d"
proof (rule ccontr)
  assume "\<not> 0 < d"
  with assms have d: "n * num a1 = N" "n * den a1 = D" "coprime N D" "0 \<le> n" "N > mx \<or> D > mx"
    "num a1 \<le> mx" "den a1 \<le> mx" by (auto simp: reduce_inv_def)
  from d(1,2) have "n dvd N" "n dvd D" by auto
  with d(3) have "is_unit n" by (metis coprime_common_divisor)
  with d(4) have "n = 1" by simp
  with d show False by simp
qed

text \<open>The quotient of the last step, cut so that both parts stay within the limit.\<close>

definition reduce_cut :: "int \<Rightarrow> int \<Rightarrow> int \<Rightarrow> int \<Rightarrow> int \<Rightarrow> int \<Rightarrow> int" where
  "reduce_cut X h1 h0 k1 k0 mx =
     (let x = (if h1 \<noteq> 0 then (mx - h0) div h1 else X)
      in if k1 \<noteq> 0 then min x ((mx - k0) div k1) else x)"

lemma cut_bounds:
  fixes h k X mx :: int
  assumes "0 < h" "0 \<le> k" "k \<le> mx"
  shows "0 \<le> (mx - k) div h" "mx < ((mx - k) div h + 1) * h + k"
    "(mx - k) div h < X \<longleftrightarrow> mx < X * h + k" "X \<le> (mx - k) div h \<longleftrightarrow> X * h + k \<le> mx"
  using assms int_le_div_iff [of h X "mx - k"] int_div_less_iff [of h "mx - k" "(mx - k) div h + 1"]
    int_div_less_iff [of h "mx - k" X]
  by (simp_all add: pos_imp_zdiv_nonneg_iff) linarith+

lemma reduce_cut_props:
  assumes h: "0 \<le> h1" "0 \<le> h0" "h0 \<le> mx" and k: "0 \<le> k1" "0 \<le> k0" "k0 \<le> mx"
    and over: "mx < X * h1 + h0 \<or> mx < X * k1 + k0"
  defines "x \<equiv> reduce_cut X h1 h0 k1 k0 mx"
  shows "0 \<le> x \<and> x < X \<and> x * h1 + h0 \<le> mx \<and> x * k1 + k0 \<le> mx \<and>
    (mx < (x + 1) * h1 + h0 \<or> mx < (x + 1) * k1 + k0)"
proof -
  consider (hk) "0 < h1" "0 < k1" | (honly) "0 < h1" "k1 = 0" | (konly) "h1 = 0" "0 < k1" | (z) "h1 = 0" "k1 = 0"
    using assms(1,4) by linarith
  then show ?thesis
  proof cases
    case hk
    let ?A = "(mx - h0) div h1" and ?B = "(mx - k0) div k1"
    have x: "x = min ?A ?B" using hk by (simp add: x_def reduce_cut_def)
    have "x \<le> ?A" "x \<le> ?B" "x = ?A \<or> x = ?B" "0 \<le> x"
      using x cut_bounds(1) [OF hk(1) h(2,3)] cut_bounds(1) [OF hk(2) k(2,3)] by auto
    then show ?thesis
      using over cut_bounds(2) [OF hk(1) h(2,3)] cut_bounds(2) [OF hk(2) k(2,3)]
        cut_bounds(3) [OF hk(1) h(2,3), of X] cut_bounds(3) [OF hk(2) k(2,3), of X]
        cut_bounds(4) [OF hk(1) h(2,3), of x] cut_bounds(4) [OF hk(2) k(2,3), of x] x by auto
  next
    case honly
    then have "x = (mx - h0) div h1" by (simp add: x_def reduce_cut_def)
    then show ?thesis
      using over honly assms(1-6) cut_bounds(1,2) [OF honly(1) assms(2,3)] cut_bounds(3,4) [OF honly(1) assms(2,3)] by auto
  next
    case konly
    have "x = (mx - k0) div k1"
      using over konly assms(3) cut_bounds(3) [OF konly(2) assms(5,6), of X] by (simp add: x_def reduce_cut_def)
    then show ?thesis
      using over konly assms(1-6) cut_bounds(1,2) [OF konly(2) assms(5,6)] cut_bounds(3,4) [OF konly(2) assms(5,6)] by auto
  next
    case z
    then show ?thesis using over assms(3,6) by simp
  qed
qed

text \<open>Between two neighbouring fractions every fraction has parts at least their sum.\<close>

lemma best_of_neighbours:
  fixes h1 k1 hs ks \<alpha> \<beta> p q mx N D :: int
  assumes N: "N = \<alpha> * h1 + \<beta> * hs" and D: "D = \<alpha> * k1 + \<beta> * ks" and pos: "0 \<le> \<alpha>" "0 \<le> \<beta>"
    and unimod: "\<bar>h1 * ks - hs * k1\<bar> = 1" and ge0: "0 \<le> h1" "0 \<le> k1" "0 \<le> hs" "0 \<le> ks"
    and over: "mx < h1 + hs \<or> mx < k1 + ks" and pq: "p \<le> mx" "0 < q" "q \<le> mx"
  shows "\<beta> * q \<le> \<bar>N * q - D * p\<bar> * k1 \<and> 0 < k1 \<or> \<alpha> * q \<le> \<bar>N * q - D * p\<bar> * ks \<and> 0 < ks"
proof -
  define e where "e = h1 * ks - hs * k1"
  have "e = 1 \<or> e = - 1" using unimod unfolding e_def by arith
  then have ee: "e * e = 1" "\<bar>e\<bar> = 1" by auto
  define u v where "u = e * (p * ks - q * hs)" and "v = e * (h1 * q - k1 * p)"
  have p: "p = u * h1 + v * hs"
  proof -
    have "u * h1 + v * hs = e * (p * (h1 * ks - hs * k1))" by (simp add: u_def v_def algebra_simps)
    then show ?thesis by (simp add: e_def [symmetric] mult.left_commute ee flip: mult.assoc)
  qed
  have q: "q = u * k1 + v * ks"
  proof -
    have "u * k1 + v * ks = e * (q * (h1 * ks - hs * k1))" by (simp add: u_def v_def algebra_simps)
    then show ?thesis by (simp add: e_def [symmetric] mult.left_commute ee flip: mult.assoc)
  qed
  have "N * q - D * p = e * (\<alpha> * v - \<beta> * u)"
    unfolding N D p q e_def by (simp add: algebra_simps)
  then have err: "\<bar>N * q - D * p\<bar> = \<bar>\<alpha> * v - \<beta> * u\<bar>" by (simp add: abs_mult ee)
  consider (mid) "1 \<le> u" "1 \<le> v" | (a1) "1 \<le> u" "v \<le> 0" | (s) "u \<le> 0" "1 \<le> v" | (neg) "u \<le> 0" "v \<le> 0" by linarith
  then show ?thesis
  proof cases
    case mid
    have "h1 + hs \<le> p" "k1 + ks \<le> q"
      unfolding p q using mid ge0 mult_right_mono [of 1 u h1] mult_right_mono [of 1 v hs]
        mult_right_mono [of 1 u k1] mult_right_mono [of 1 v ks] by simp_all
    with over pq show ?thesis by linarith
  next
    case a1
    have "v * ks \<le> 0" using a1 ge0 by (simp add: mult_nonpos_nonneg)
    then have "0 < u * k1" using pq q by linarith
    then have k1: "0 < k1" using a1 by (simp add: zero_less_mult_iff)
    have av: "\<alpha> * v \<le> 0" using a1 pos by (simp add: mult_nonneg_nonpos)
    have bu: "0 \<le> \<beta> * u" using a1 pos by simp
    have "\<beta> * q = \<beta> * u * k1 + \<beta> * (v * ks)" unfolding q by (simp add: algebra_simps)
    also have "\<dots> \<le> \<beta> * u * k1"
      using \<open>v * ks \<le> 0\<close> pos mult_nonneg_nonpos [of \<beta> "v * ks"] by simp
    also have "\<dots> \<le> (\<beta> * u - \<alpha> * v) * k1" using av ge0 by (intro mult_right_mono) simp_all
    finally show ?thesis using k1 err av bu by (simp add: abs_minus_commute)
  next
    case s
    have "u * k1 \<le> 0" using s ge0 by (simp add: mult_nonpos_nonneg)
    then have "0 < v * ks" using pq q by linarith
    then have ks: "0 < ks" using s by (simp add: zero_less_mult_iff)
    have bu: "\<beta> * u \<le> 0" using s pos by (simp add: mult_nonneg_nonpos)
    have av: "0 \<le> \<alpha> * v" using s pos by simp
    have "\<alpha> * q = \<alpha> * v * ks + \<alpha> * (u * k1)" unfolding q by (simp add: algebra_simps)
    also have "\<dots> \<le> \<alpha> * v * ks"
      using \<open>u * k1 \<le> 0\<close> pos mult_nonneg_nonpos [of \<alpha> "u * k1"] by simp
    also have "\<dots> \<le> (\<alpha> * v - \<beta> * u) * ks" using bu ge0 by (intro mult_right_mono) simp_all
    finally show ?thesis using ks err av bu by simp
  next
    case neg
    then have "q \<le> 0" unfolding q using ge0
      by (intro add_nonpos_nonpos mult_nonpos_nonneg) simp_all
    with pq show ?thesis by simp
  qed
qed


lemma reduce_inv_next:
  assumes inv: "reduce_inv N D mx n d a0 a1"
  shows "0 \<le> n div d" "d * (n div d * num a1 + num a0) + (n mod d) * num a1 = N"
    "d * (n div d * den a1 + den a0) + (n mod d) * den a1 = D"
proof -
  note I = inv [unfolded reduce_inv_def]
  have d: "0 < d" by (rule reduce_inv_d_pos [OF inv])
  show "0 \<le> n div d" using I d by (simp add: pos_imp_zdiv_nonneg_iff)
  define X m where Xm: "X = n div d" "m = n mod d"
  have n: "n = X * d + m" by (simp add: Xm)
  show "d * (n div d * num a1 + num a0) + (n mod d) * num a1 = N"
    using I unfolding Xm [symmetric] by (simp add: n algebra_simps)
  show "d * (n div d * den a1 + den a0) + (n mod d) * den a1 = D"
    using I unfolding Xm [symmetric] by (simp add: n algebra_simps)
qed

lemma reduce_inv_step:
  assumes inv: "reduce_inv N D mx n d a0 a1"
    and fit: "n div d * num a1 + num a0 \<le> mx" "n div d * den a1 + den a0 \<le> mx"
  shows "reduce_inv N D mx d (n mod d) a1 (av_make_q (n div d * num a1 + num a0) (n div d * den a1 + den a0))"
proof -
  note I = inv [unfolded reduce_inv_def]
  have d: "0 < d" by (rule reduce_inv_d_pos [OF inv])
  define X where "X = n div d"
  note nx = reduce_inv_next [OF inv, folded X_def]
  have "(X * num a1 + num a0) * den a1 - num a1 * (X * den a1 + den a0) = - (num a1 * den a0 - num a0 * den a1)"
    by (simp add: algebra_simps)
  then have "\<bar>(X * num a1 + num a0) * den a1 - num a1 * (X * den a1 + den a0)\<bar> = 1"
    using I by (simp add: abs_minus_commute)
  then show ?thesis
    using I d nx fit [folded X_def] unfolding X_def [symmetric] reduce_inv_def by simp
qed

text \<open>Under the invariant no operation of an iteration leaves its C type.\<close>

lemma reduce_inv_range:
  assumes inv: "reduce_inv N D mx n d a0 a1"
  shows "0 \<le> n div d" "n div d < 2 ^ 64"
    "0 \<le> n div d * num a1 + num a0" "n div d * num a1 + num a0 \<le> INT64_MAX"
    "0 \<le> n div d * den a1 + den a0" "n div d * den a1 + den a0 \<le> INT64_MAX"
    "0 \<le> n mod d" "n mod d \<le> INT64_MAX"
    "0 \<le> n * den a1" "n * den a1 \<le> INT64_MAX"
proof -
  note I = inv [unfolded reduce_inv_def]
  have d: "0 < d" by (rule reduce_inv_d_pos [OF inv])
  note nx = reduce_inv_next [OF inv]
  have m: "0 \<le> n mod d" "n mod d < d" using d by simp_all
  have le: "y \<le> d * y" if "0 \<le> y" for y using that d mult_right_mono [of 1 d y] by simp
  show X: "0 \<le> n div d" by (rule nx)
  show h: "0 \<le> n div d * num a1 + num a0" and k: "0 \<le> n div d * den a1 + den a0" using X I by simp_all
  have "0 \<le> n mod d * num a1" "0 \<le> n mod d * den a1" using m I by simp_all
  then show "n div d * num a1 + num a0 \<le> INT64_MAX" "n div d * den a1 + den a0 \<le> INT64_MAX"
    using le [OF h] le [OF k] nx I by linarith+
  have parts: "0 \<le> d * num a0" "0 \<le> d * den a0" "0 \<le> n * num a1" "0 \<le> n * den a1" using I by simp_all
  then show "0 \<le> n * den a1" "n * den a1 \<le> INT64_MAX" using I by linarith+
  have "num a1 \<noteq> 0 \<or> den a1 \<noteq> 0" using I by auto
  then have "n \<le> n * num a1 \<or> n \<le> n * den a1"
    using I mult_left_mono [of 1 "num a1" n] mult_left_mono [of 1 "den a1" n] by auto
  then have n: "n \<le> INT64_MAX" using parts I by linarith
  have "n div d \<le> n" "n mod d \<le> n"
    using I d zdiv_mono2 [of n 1 d] zmod_le_nonneg_dividend [of n d] by simp_all
  then show "n div d < 2 ^ 64" "0 \<le> n mod d" "n mod d \<le> INT64_MAX" using n m by simp_all
qed

lemma reduce_final_range:
  assumes inv: "reduce_inv N D mx n d a0 a1" and x: "0 \<le> x" "x < n div d"
  shows "0 \<le> d * (2 * x * den a1 + den a0)" "d * (2 * x * den a1 + den a0) < 2 ^ 64"
proof -
  note I = inv [unfolded reduce_inv_def]
  have d: "0 < d" by (rule reduce_inv_d_pos [OF inv])
  show "0 \<le> d * (2 * x * den a1 + den a0)" using I x by simp
  have "x * d \<le> n div d * d" using x d by (intro mult_right_mono) simp_all
  also have "\<dots> \<le> n" using d int_le_div_iff by blast
  finally have "x * d * den a1 \<le> n * den a1" using I by (intro mult_right_mono) simp_all
  moreover have "0 \<le> n * den a1" "0 \<le> d * den a0" using I by simp_all
  moreover have "d * (2 * x * den a1 + den a0) = 2 * (x * d * den a1) + d * den a0" by (simp add: algebra_simps)
  ultimately have "d * (2 * x * den a1 + den a0) \<le> 2 * D" using I by linarith
  then show "d * (2 * x * den a1 + den a0) < 2 ^ 64" using I by simp
qed

text \<open>The last step: the cut fraction and the last convergent are neighbours around the target.\<close>

lemma reduce_final_best:
  assumes inv: "reduce_inv N D mx n d a0 a1"
    and over: "mx < n div d * num a1 + num a0 \<or> mx < n div d * den a1 + den a0"
  defines "x \<equiv> reduce_cut (n div d) (num a1) (num a0) (den a1) (den a0) mx"
  shows "best_within N D mx
    (if n * den a1 < d * (2 * x * den a1 + den a0)
     then av_make_q (x * num a1 + num a0) (x * den a1 + den a0) else a1)"
proof -
  note I = inv [unfolded reduce_inv_def]
  have d: "0 < d" by (rule reduce_inv_d_pos [OF inv])
  define hs ks where "hs = x * num a1 + num a0" and "ks = x * den a1 + den a0"
  have x: "0 \<le> x" "x < n div d" "hs \<le> mx" "ks \<le> mx" "mx < num a1 + hs \<or> mx < den a1 + ks"
    using reduce_cut_props [of "num a1" "num a0" mx "den a1" "den a0" "n div d"] I over
    by (auto simp: x_def hs_def ks_def algebra_simps)
  define \<alpha> where "\<alpha> = n - d * x"
  have "(x + 1) * d \<le> n" using x(2) int_le_div_iff [OF d, of "x + 1" n] by simp
  then have \<alpha>: "0 < \<alpha>" using d by (simp add: \<alpha>_def algebra_simps)
  have N: "N = \<alpha> * num a1 + d * hs" and D: "D = \<alpha> * den a1 + d * ks"
    using I by (auto simp: \<alpha>_def hs_def ks_def algebra_simps)
  have det: "num a1 * ks - hs * den a1 = num a1 * den a0 - num a0 * den a1"
    by (simp add: hs_def ks_def algebra_simps)
  then have unimod: "\<bar>num a1 * ks - hs * den a1\<bar> = 1" using I by simp
  have hs: "0 \<le> hs" "0 \<le> ks" using x I by (simp_all add: hs_def ks_def)
  have e1: "\<bar>N * den a1 - D * num a1\<bar> = d"
  proof -
    have "N * den a1 - D * num a1 = - d * (num a1 * ks - hs * den a1)" unfolding N D by (simp add: algebra_simps)
    then show ?thesis using unimod d by (simp add: abs_mult)
  qed
  have es: "\<bar>N * ks - D * hs\<bar> = \<alpha>"
  proof -
    have "N * ks - D * hs = \<alpha> * (num a1 * ks - hs * den a1)" unfolding N D by (simp add: algebra_simps)
    then show ?thesis using unimod \<alpha> by (simp add: abs_mult)
  qed
  have cond: "n * den a1 < d * (2 * x * den a1 + den a0) \<longleftrightarrow> \<alpha> * den a1 < d * ks"
    by (simp add: \<alpha>_def ks_def algebra_simps)
  have near: "d * q \<le> \<bar>N * q - D * p\<bar> * den a1 \<and> 0 < den a1 \<or> \<alpha> * q \<le> \<bar>N * q - D * p\<bar> * ks \<and> 0 < ks"
    if "p \<le> mx" "0 < q" "q \<le> mx" for p q
    using best_of_neighbours [OF N D _ _ unimod] I \<alpha> d hs x that by simp
  show ?thesis
  proof (cases "\<alpha> * den a1 < d * ks")
    case True
    then have "0 < d * ks" using \<alpha> I mult_nonneg_nonneg [of \<alpha> "den a1"] by linarith
    then have ks: "0 < ks" using d by (simp add: zero_less_mult_iff)
    have "\<alpha> * q \<le> \<bar>N * q - D * p\<bar> * ks" if pq: "p \<le> mx" "0 < q" "q \<le> mx" for p q
    proof (rule disjE [OF near [OF pq]])
      assume a: "d * q \<le> \<bar>N * q - D * p\<bar> * den a1 \<and> 0 < den a1"
      have "\<alpha> * q * den a1 \<le> d * ks * q" using True pq by (simp add: mult.commute mult.left_commute mult_left_mono)
      also have "\<dots> = d * q * ks" by simp
      also have "\<dots> \<le> \<bar>N * q - D * p\<bar> * den a1 * ks" using a ks by (intro mult_right_mono) simp_all
      finally have "(\<alpha> * q) * den a1 \<le> (\<bar>N * q - D * p\<bar> * ks) * den a1" by (simp add: ac_simps)
      then show ?thesis using a by (simp only: mult_le_cancel_right_pos)
    qed simp
    moreover have "coprime hs ks"
      using neighbour_coprime [of hs "den a1" "num a1" ks] unimod by (simp add: abs_minus_commute mult.commute)
    ultimately show ?thesis
      using True ks hs x es by (simp add: cond best_within_def flip: hs_def ks_def)
  next
    case False
    have k1: "0 < den a1"
    proof (rule ccontr)
      assume "\<not> 0 < den a1"
      then have "den a1 = 0" using I by simp
      with unimod have "ks \<noteq> 0" by auto
      with False d hs \<open>den a1 = 0\<close> show False by (simp add: mult_le_0_iff)
    qed
    have "d * q \<le> \<bar>N * q - D * p\<bar> * den a1" if pq: "p \<le> mx" "0 < q" "q \<le> mx" for p q
    proof (rule disjE [OF near [OF pq]])
      assume a: "\<alpha> * q \<le> \<bar>N * q - D * p\<bar> * ks \<and> 0 < ks"
      have "d * q * ks \<le> \<alpha> * den a1 * q" using False pq by (simp add: mult.commute mult.left_commute mult_left_mono)
      also have "\<dots> = \<alpha> * q * den a1" by simp
      also have "\<dots> \<le> \<bar>N * q - D * p\<bar> * ks * den a1" using a k1 by (intro mult_right_mono) simp_all
      finally have "(d * q) * ks \<le> (\<bar>N * q - D * p\<bar> * den a1) * ks" by (simp add: ac_simps)
      then show ?thesis using a by (simp only: mult_le_cancel_right_pos)
    qed simp
    moreover have "coprime (num a1) (den a1)"
      using neighbour_coprime [of "num a1" ks hs "den a1"] unimod by simp
    ultimately show ?thesis using False k1 e1 I by (simp add: cond best_within_def)
  qed
qed


lemma reduce_cut_code:
  assumes inv: "reduce_inv N D mx n d a0 a1"
  shows "(let x = (if num a1 \<noteq> 0 then w64 (c_div (mx - num a0) (num a1)) else n div d)
      in if den a1 \<noteq> 0 then min x (w64 (c_div (mx - den a0) (den a1))) else x) =
    reduce_cut (n div d) (num a1) (num a0) (den a1) (den a0) mx"
proof -
  note I = inv [unfolded reduce_inv_def]
  have "w64 (c_div (mx - z) y) = (mx - z) div y" if "0 \<le> z" "z \<le> mx" "0 \<le> y" "y \<noteq> 0" for y z
  proof -
    have "0 \<le> (mx - z) div y" "(mx - z) div y \<le> mx - z"
      using that zdiv_mono2 [of "mx - z" 1 y] by (simp_all add: pos_imp_zdiv_nonneg_iff)
    then show ?thesis using that I by (simp add: w64_id)
  qed
  then show ?thesis using I by (simp add: reduce_cut_def Let_def)
qed

lemma av_reduce_loop_best:
  "reduce_inv N D mx n d a0 a1 \<Longrightarrow>
   best_within N D mx (fst (av_reduce_loop n d a0 a1 mx)) \<and> snd (av_reduce_loop n d a0 a1 mx) \<noteq> 0"
proof (induction n d a0 a1 mx rule: av_reduce_loop.induct)
  case (1 n d a0 a1 mx)
  note inv = "1.prems" and I = "1.prems" [unfolded reduce_inv_def]
  have d: "0 < d" by (rule reduce_inv_d_pos [OF inv])
  note R = reduce_inv_range [OF inv]
  let ?X = "n div d"
  let ?h = "?X * num a1 + num a0" and ?k = "?X * den a1 + den a0"
  let ?x = "reduce_cut ?X (num a1) (num a0) (den a1) (den a0) mx"
  have X: "w64 (c_div n d) = ?X" using I d R(1,2) by (simp add: w64_id)
  have rem: "s64 (n - d * ?X) = n mod d" using R(7,8) by (simp add: minus_mult_div_eq_mod s64_id in_s64_def)
  have h: "s64 ?h = ?h" and k: "s64 ?k = ?k" using R(3-6) by (simp_all add: s64_id in_s64_def)
  have rhs: "w64 (n * den a1) = n * den a1" using R(9,10) by (simp add: w64_id)
  have d0: "(d = 0) = False" using d by simp
  have s: "s32 y = y" if "0 \<le> y" "y \<le> mx" for y using that I by (intro s32_id) (simp add: in_s32_def)
  show ?case
  proof (cases "mx < ?h \<or> mx < ?k")
    case True
    have c: "0 \<le> ?x" "?x < ?X" "?x * num a1 + num a0 \<le> mx" "?x * den a1 + den a0 \<le> mx"
      using reduce_cut_props [of "num a1" "num a0" mx "den a1" "den a0" ?X] I True by simp_all
    have lhs: "w64 (d * (2 * ?x * den a1 + den a0)) = d * (2 * ?x * den a1 + den a0)"
      using reduce_final_range [OF inv c(1,2)] by (rule w64_id)
    have nn: "0 \<le> ?x * num a1 + num a0" "0 \<le> ?x * den a1 + den a0" using c(1) I by simp_all
    have "av_reduce_loop n d a0 a1 mx =
      (if n * den a1 < d * (2 * ?x * den a1 + den a0)
       then av_make_q (?x * num a1 + num a0) (?x * den a1 + den a0) else a1, d)"
      using True by (simp only: av_reduce_loop.simps [of n d a0 a1 mx] X d0 if_False Let_def rem h k rhs if_True
        reduce_cut_code [OF inv, unfolded Let_def] lhs s [OF nn(1) c(3)] s [OF nn(2) c(4)])
    then show ?thesis using reduce_final_best [OF inv True] d by simp
  next
    case False
    then have f: "?h \<le> mx" "?k \<le> mx" by simp_all
    have eq: "av_reduce_loop n d a0 a1 mx = av_reduce_loop d (n mod d) a1 (av_make_q ?h ?k) mx"
      using False by (simp only: av_reduce_loop.simps [of n d a0 a1 mx] X d0 if_False Let_def rem h k s [OF R(3) f(1)] s [OF R(5) f(2)])
    show ?thesis
      using "1.IH" [OF _ X [symmetric] rem [symmetric] h [symmetric] k [symmetric]] reduce_inv_step [OF inv f] False d
      unfolding eq s [OF R(3) f(1)] s [OF R(5) f(2)] by simp
  qed
qed


text \<open>The reduced operands of \<^verbatim>\<open>av_reduce\<close>.\<close>

lemma best_within_exact:
  assumes "0 \<le> n" "n \<le> mx" "0 < d" "d \<le> mx" "coprime n d"
  shows "best_within n d mx (av_make_q n d)"
  using assms by (simp add: best_within_def)

lemma reduce_inv_init:
  assumes "0 \<le> n" "0 < d" "n \<le> INT64_MAX" "d \<le> INT64_MAX" "coprime n d" "1 \<le> mx" "mx \<le> INT_MAX" "n > mx \<or> d > mx"
  shows "reduce_inv n d mx n d (av_make_q 0 1) (av_make_q 1 0)"
  using assms by (simp add: reduce_inv_def)

lemma av_reduce_cases:
  assumes n: "INT64_MIN < n" "n \<le> INT64_MAX" and d: "INT64_MIN < d" "d \<le> INT64_MAX" "d \<noteq> 0"
    and mx: "1 \<le> mx" "mx \<le> INT_MAX"
  defines "N \<equiv> \<bar>n\<bar> div gcd n d" and "D \<equiv> \<bar>d\<bar> div gcd n d"
  obtains r where "av_reduce n d mx = Some (if (n < 0) \<noteq> (d < 0) then - num r else num r, den r, N \<le> mx \<and> D \<le> mx)"
    "best_within N D mx r" "N \<le> mx \<and> D \<le> mx \<Longrightarrow> r = av_make_q N D"
proof -
  let ?g = "gcd n d"
  have g: "0 < ?g" using d(3) by simp
  have quot: "0 \<le> y div ?g" "y div ?g \<le> y" if "0 \<le> y" for y
    using that g zdiv_mono2 [OF that zero_less_one, of ?g] by (simp_all only: pos_imp_zdiv_nonneg_iff div_by_1)
  have N: "0 \<le> N" "N \<le> \<bar>n\<bar>" unfolding N_def by (simp_all add: quot)
  have Dg: "D * ?g = \<bar>d\<bar>" "N * ?g = \<bar>n\<bar>" unfolding D_def N_def by (simp_all add: dvd_div_mult_self)
  have "D \<noteq> 0" using Dg d(3) by auto
  then have D: "0 < D" "D \<le> \<bar>d\<bar>" using quot [of "\<bar>d\<bar>"] unfolding D_def by linarith+
  have cop: "coprime N D" using d(3) div_gcd_coprime [of "\<bar>n\<bar>" "\<bar>d\<bar>"] by (simp add: N_def D_def)
  have gcd: "av_gcd \<bar>n\<bar> \<bar>d\<bar> = Some ?g" using n d by (subst av_gcd_Some) simp_all
  have divs: "c_div \<bar>n\<bar> ?g = N" "c_div \<bar>d\<bar> ?g = D" using g by (simp_all add: N_def D_def)
  note unf = av_reduce_def [of n d mx] gcd option.case Let_def divs
  have g0: "(?g \<noteq> 0) = True" using g by simp
  show ?thesis
  proof (cases "N \<le> mx \<and> D \<le> mx")
    case True
    have "s32 N = N" "s32 D = D" using True N D mx by (simp_all add: s32_id in_s32_def)
    then have "av_reduce n d mx = Some (if (n < 0) \<noteq> (d < 0) then - N else N, D, True)"
      using True by (simp only: unf g0 if_True case_prod_conv AVRational.simps simp_thms)
    then show ?thesis
      using True N D cop by (intro that [of "av_make_q N D"]) (simp_all add: best_within_exact)
  next
    case False
    have inv: "reduce_inv N D mx N D (av_make_q 0 1) (av_make_q 1 0)"
      using False N D n d cop mx by (intro reduce_inv_init) auto
    obtain r d' where r: "av_reduce_loop N D (av_make_q 0 1) (av_make_q 1 0) mx = (r, d')" by force
    have "best_within N D mx r" "d' \<noteq> 0" using av_reduce_loop_best [OF inv] by (simp_all add: r)
    moreover have "av_reduce n d mx = Some (if (n < 0) \<noteq> (d < 0) then - num r else num r, den r, d' = 0)"
      using False by (simp only: unf g0 if_True if_False case_prod_conv r)
    ultimately show ?thesis using False by (intro that [of r]) simp_all
  qed
qed


lemma best_within_rat:
  assumes "best_within N D mx r" "0 < D" "0 \<le> N" "\<bar>p\<bar> \<le> mx" "0 < q" "q \<le> mx"
  shows "\<bar>of_int N / of_int D - of_int (num r) / of_int (den r)\<bar> \<le> \<bar>of_int N / of_int D - of_int p / (of_int q :: rat)\<bar>"
proof -
  note b = assms(1) [unfolded best_within_def]
  have diff: "\<bar>of_int N / of_int D - of_int y / (of_int z :: rat)\<bar> = of_int \<bar>N * z - D * y\<bar> / of_int (D * z)"
    if "0 < z" for y z
    using that assms(2) by (simp add: diff_frac_eq abs_divide abs_mult mult.commute)
  have key: "\<bar>of_int N / of_int D - of_int (num r) / of_int (den r)\<bar> \<le> \<bar>of_int N / of_int D - of_int y / (of_int q :: rat)\<bar>"
    if "0 \<le> y" "y \<le> mx" for y
  proof -
    have "\<bar>N * den r - D * num r\<bar> * q \<le> \<bar>N * q - D * y\<bar> * den r" using b that assms by blast
    then have "(of_int (\<bar>N * den r - D * num r\<bar> * q) :: rat) \<le> of_int (\<bar>N * q - D * y\<bar> * den r)"
      by (simp only: of_int_le_iff)
    then show ?thesis
      using b assms(2,5) by (simp add: diff field_simps)
  qed
  show ?thesis
  proof (cases "0 \<le> p")
    case True
    with key [of p] assms show ?thesis by simp
  next
    case False
    have "0 \<le> (of_int N :: rat) / of_int D" "(of_int p :: rat) / of_int q \<le> 0"
      using False assms by (simp_all add: divide_nonpos_pos)
    then have "\<bar>of_int N / of_int D - of_int 0 / (of_int q :: rat)\<bar> \<le> \<bar>of_int N / of_int D - of_int p / of_int q\<bar>"
      by simp
    with key [of 0] assms show ?thesis by linarith
  qed
qed

lemma coprime_fraction_unique:
  assumes "coprime a b" "coprime c d" "0 < b" "0 < (d::int)" "a * d = c * b"
  shows "a = c \<and> b = d"
proof -
  have "b dvd a * d" "d dvd c * b" using assms(5) by (auto simp: mult.commute) (metis dvd_triv_right)
  then have "b dvd d" "d dvd b"
    using assms(1,2) by (metis coprime_commute coprime_dvd_mult_right_iff)+
  then have "b = d" using assms(3,4) by (simp add: zdvd_antisym_nonneg)
  with assms show ?thesis by simp
qed

text \<open>The result of \<^verbatim>\<open>av_reduce\<close> in terms of rational numbers.\<close>

lemma av_reduce_nearest:
  assumes n: "INT64_MIN < n" "n \<le> INT64_MAX" and d: "INT64_MIN < d" "d \<le> INT64_MAX" "d \<noteq> 0"
    and mx: "1 \<le> mx" "mx \<le> INT_MAX"
  shows "\<exists>p q e. av_reduce n d mx = Some (p, q, e) \<and> \<bar>p\<bar> \<le> mx \<and> 0 < q \<and> q \<le> mx \<and> coprime p q \<and>
    (e \<longleftrightarrow> of_int p / of_int q = (of_int n / of_int d :: rat)) \<and>
    (\<forall>p' q'. \<bar>p'\<bar> \<le> mx \<and> 0 < q' \<and> q' \<le> mx \<longrightarrow>
       \<bar>of_int n / of_int d - of_int p / of_int q\<bar> \<le> \<bar>of_int n / of_int d - of_int p' / (of_int q' :: rat)\<bar>)"
proof -
  define N D where "N = \<bar>n\<bar> div gcd n d" and "D = \<bar>d\<bar> div gcd n d"
  obtain r where r: "av_reduce n d mx = Some (if (n < 0) \<noteq> (d < 0) then - num r else num r, den r, N \<le> mx \<and> D \<le> mx)"
    and b: "best_within N D mx r" and ex: "N \<le> mx \<and> D \<le> mx \<Longrightarrow> r = av_make_q N D"
    using av_reduce_cases [OF n d mx] unfolding N_def D_def by blast
  define \<sigma> :: int where "\<sigma> = (if (n < 0) \<noteq> (d < 0) then - 1 else 1)"
  have \<sigma>: "\<bar>\<sigma>\<bar> = 1" "\<sigma> * \<sigma> = 1" by (simp_all add: \<sigma>_def)
  have g: "0 < gcd n d" using d(3) by simp
  have gN: "N * gcd n d = \<bar>n\<bar>" "D * gcd n d = \<bar>d\<bar>" unfolding N_def D_def by (simp_all add: dvd_div_mult_self)
  have D: "0 < D" "0 \<le> N" using gN g d(3)
    by (metis zero_less_abs_iff zero_less_mult_pos2) (metis N_def abs_ge_zero g pos_imp_zdiv_nonneg_iff)
  have val: "(of_int n / of_int d :: rat) = of_int (\<sigma> * N) / of_int D"
  proof -
    have "n * D * gcd n d = n * \<bar>d\<bar>" "\<sigma> * N * d * gcd n d = \<sigma> * \<bar>n\<bar> * d" using gN by (metis mult.assoc mult.commute)+
    moreover have "n * \<bar>d\<bar> = \<sigma> * \<bar>n\<bar> * d" by (auto simp: \<sigma>_def abs_if)
    ultimately have "n * D = \<sigma> * N * d" using g by (metis mult_cancel_right less_irrefl)
    then show ?thesis using D d(3) by (simp add: frac_eq_eq flip: of_int_mult)
  qed
  have flip: "\<bar>of_int n / of_int d - of_int (\<sigma> * y) / (of_int z :: rat)\<bar> = \<bar>of_int N / of_int D - of_int y / of_int z\<bar>" for y z
  proof -
    have "of_int n / of_int d - of_int (\<sigma> * y) / (of_int z :: rat) = of_int \<sigma> * (of_int N / of_int D - of_int y / of_int z)"
      unfolding val by (simp add: algebra_simps)
    then show ?thesis using \<sigma>(1) by (simp add: abs_mult flip: of_int_abs)
  qed
  have p: "(if (n < 0) \<noteq> (d < 0) then - num r else num r) = \<sigma> * num r" by (simp add: \<sigma>_def)
  have best: "\<bar>of_int n / of_int d - of_int (\<sigma> * num r) / of_int (den r)\<bar> \<le> \<bar>of_int n / of_int d - of_int p' / (of_int q' :: rat)\<bar>"
    if "\<bar>p'\<bar> \<le> mx" "0 < q'" "q' \<le> mx" for p' q'
    using best_within_rat [OF b D, of "\<sigma> * p'" q'] that \<sigma> flip [of "\<sigma> * p'" q'] flip [of "num r" "den r"]
    by (simp add: abs_mult flip: mult.assoc)
  have cop: "coprime N D" using d(3) div_gcd_coprime [of "\<bar>n\<bar>" "\<bar>d\<bar>"] by (simp add: N_def D_def)
  have exact: "N \<le> mx \<and> D \<le> mx \<longleftrightarrow> of_int (\<sigma> * num r) / of_int (den r) = (of_int n / of_int d :: rat)"
  proof
    assume "N \<le> mx \<and> D \<le> mx"
    then show "of_int (\<sigma> * num r) / of_int (den r) = (of_int n / of_int d :: rat)" using ex by (simp add: val)
  next
    assume "of_int (\<sigma> * num r) / of_int (den r) = (of_int n / of_int d :: rat)"
    then have "of_int (\<sigma> * num r) * of_int D = (of_int (\<sigma> * N) * of_int (den r) :: rat)"
      using b D unfolding val by (simp add: best_within_def frac_eq_eq)
    then have "rat_of_int (\<sigma> * num r * D) = of_int (\<sigma> * N * den r)" by (simp only: of_int_mult)
    then have "\<sigma> * num r * D = \<sigma> * N * den r" by (simp only: of_int_eq_iff)
    moreover have "\<sigma> = 1 \<or> \<sigma> = - 1" by (simp add: \<sigma>_def)
    ultimately have "num r * D = N * den r" by (elim disjE) simp_all
    then have "num r = N \<and> den r = D"
      using coprime_fraction_unique [of "num r" "den r" N D] b cop D by (simp add: best_within_def)
    then show "N \<le> mx \<and> D \<le> mx" using b by (simp add: best_within_def)
  qed
  have \<sigma>_cases: "\<sigma> = 1 \<or> \<sigma> = - 1" by (simp add: \<sigma>_def)
  have parts: "\<bar>\<sigma> * num r\<bar> \<le> mx" "0 < den r" "den r \<le> mx" "coprime (\<sigma> * num r) (den r)"
    using b \<sigma>_cases by (auto simp: best_within_def)
  show ?thesis
    by (rule exI [of _ "\<sigma> * num r"], rule exI [of _ "den r"], rule exI [of _ "N \<le> mx \<and> D \<le> mx"],
        intro conjI parts exact allI impI best)
      (use r in \<open>simp_all only: p\<close>)
qed

text \<open>
  C27: for a non-zero denominator and every limit \<^verbatim>\<open>max\<close> from 1 to \<^verbatim>\<open>INT_MAX\<close>, \<^verbatim>\<open>av_reduce\<close> returns a fraction in
  lowest terms with both parts within the limit and a positive denominator, no admissible fraction
  is closer to \<^verbatim>\<open>num/den\<close>, and the result flag says whether it is exact.
\<close>

theorem av_reduce_best:
  assumes n: "INT64_MIN < n" "n \<le> INT64_MAX" and d: "INT64_MIN < d" "d \<le> INT64_MAX" "d \<noteq> 0"
    and mx: "1 \<le> mx" "mx \<le> INT_MAX"
  shows "\<exists>p q e. av_reduce n d mx = Some (p, q, e) \<and> \<bar>p\<bar> \<le> mx \<and> 0 < q \<and> q \<le> mx \<and> coprime p q \<and>
    (e \<longleftrightarrow> of_int p / of_int q = (of_int n / of_int d :: rat)) \<and>
    (\<forall>p' q'. \<bar>p'\<bar> \<le> mx \<and> 0 < q' \<and> q' \<le> mx \<longrightarrow>
       \<bar>of_int n / of_int d - of_int p / of_int q\<bar> \<le> \<bar>of_int n / of_int d - of_int p' / (of_int q' :: rat)\<bar>)"
  by (rule av_reduce_nearest [OF assms])

theorem av_reduce_best_witness:
  "\<exists>p q e. av_reduce 314159265358979 (- 100000000000000) 1000 = Some (p, q, e) \<and> \<bar>p\<bar> \<le> 1000 \<and> 0 < q \<and> q \<le> 1000 \<and> coprime p q \<and>
    (e \<longleftrightarrow> of_int p / of_int q = (of_int 314159265358979 / of_int (- 100000000000000) :: rat)) \<and>
    (\<forall>p' q'. \<bar>p'\<bar> \<le> 1000 \<and> 0 < q' \<and> q' \<le> 1000 \<longrightarrow>
       \<bar>of_int 314159265358979 / of_int (- 100000000000000) - of_int p / of_int q\<bar> \<le>
       \<bar>of_int 314159265358979 / of_int (- 100000000000000) - of_int p' / (of_int q' :: rat)\<bar>)"
  by (rule av_reduce_best) simp_all

section \<open>Comparison is the sign of the difference\<close>


definition qval :: "AVRational \<Rightarrow> rat" where
  "qval q = of_int (num q) / of_int (den q)"

definition int_fields :: "AVRational \<Rightarrow> bool" where
  "int_fields q \<longleftrightarrow> in_s32 (num q) \<and> in_s32 (den q)"

lemma int_fields_pos_bounds:
  assumes "int_fields q" "0 < den q"
  shows "\<bar>num q\<bar> \<le> 2 ^ 31" "1 \<le> den q" "den q \<le> INT_MAX"
  using assms by (auto simp: int_fields_def in_s32_def)

lemma abs_mult_le: "\<bar>x\<bar> \<le> a \<Longrightarrow> \<bar>y\<bar> \<le> b \<Longrightarrow> \<bar>x * y\<bar> \<le> a * b" for x y a b :: int
  by (simp add: abs_mult mult_mono)

lemma cross_range:
  assumes "int_fields a" "int_fields b"
  shows "in_s64 (num a * den b - num b * den a)"
proof -
  have p: "- (2 ^ 31 * INT_MAX) \<le> x * y \<and> x * y \<le> 2 ^ 31 * 2 ^ 31" if "in_s32 x" "in_s32 y" for x y
  proof -
    have "- (2 ^ 31 * INT_MAX) \<le> x * y"
    proof (cases "0 \<le> x \<longleftrightarrow> 0 \<le> y")
      case True
      then have "0 \<le> x * y" by (simp add: zero_le_mult_iff) linarith
      then show ?thesis by simp
    next
      case False
      then have "\<bar>x\<bar> \<le> 2 ^ 31 \<and> \<bar>y\<bar> \<le> INT_MAX \<or> \<bar>y\<bar> \<le> 2 ^ 31 \<and> \<bar>x\<bar> \<le> INT_MAX"
        using that by (auto simp: in_s32_def)
      then have "\<bar>x * y\<bar> \<le> 2 ^ 31 * INT_MAX"
        using abs_mult_le [of x "2 ^ 31" y INT_MAX] abs_mult_le [of y "2 ^ 31" x INT_MAX] by (auto simp: mult.commute)
      then show ?thesis by linarith
    qed
    moreover have "\<bar>x * y\<bar> \<le> 2 ^ 31 * 2 ^ 31" using that by (intro abs_mult_le) (auto simp: in_s32_def)
    ultimately show ?thesis by linarith
  qed
  show ?thesis
    using p [of "num a" "den b"] p [of "num b" "den a"] assms by (simp add: int_fields_def in_s64_def)
qed

text \<open>The sign of an exclusive or is the product of the signs.\<close>

lemma sgn_via_xor:
  assumes "in_s64 t" "in_s64 a" "in_s64 b" "t \<noteq> 0" "a \<noteq> 0" "b \<noteq> 0"
  shows "s32 (drop_bit 63 (t XOR a XOR b)) OR 1 = sgn t * sgn a * sgn b"
  using assms by (auto simp: drop_bit_xor drop_bit_sign64 sgn_if s32_def)

text \<open>
  Also: \<^verbatim>\<open>av_cmp_q\<close> never overflows on \<^verbatim>\<open>int\<close> fields and returns the sign of the difference of the two
  fractions, whatever the signs of their non-zero denominators.
\<close>

theorem av_cmp_q_sign:
  assumes "int_fields a" "int_fields b" "den a \<noteq> 0" "den b \<noteq> 0"
  shows "of_int (av_cmp_q a b) = sgn (qval a - qval b)"
proof -
  let ?t = "num a * den b - num b * den a"
  have t: "s64 ?t = ?t" using cross_range [OF assms(1,2)] by (rule s64_id)
  have val: "qval a - qval b = of_int ?t / of_int (den a * den b)"
    using assms(3,4) by (simp add: qval_def diff_frac_eq)
  have cmp: "av_cmp_q a b = (if ?t \<noteq> 0 then sgn ?t * sgn (den a) * sgn (den b) else 0)"
    using assms cross_range [OF assms(1,2)] sgn_via_xor [of ?t "den a" "den b"]
    by (simp add: av_cmp_q_def t Let_def int_fields_def in_s32_s64)
  show ?thesis
    unfolding cmp val using assms(3,4) by (auto simp: sgn_if divide_less_0_iff zero_less_divide_iff zero_less_mult_iff mult_less_0_iff
        simp del: of_int_diff of_int_mult)
qed

theorem av_cmp_q_sign_witness:
  "of_int (av_cmp_q (av_make_q 1 (- 3)) (av_make_q (- 2) 5)) = sgn (qval (av_make_q 1 (- 3)) - qval (av_make_q (- 2) 5))"
  by (rule av_cmp_q_sign) (simp_all add: int_fields_def in_s32_def)

lemma av_cmp_q_nan: "num a = 0 \<Longrightarrow> den a = 0 \<Longrightarrow> av_cmp_q a b = INT_MIN"
  by (simp add: av_cmp_q_def s64_def)

section \<open>Arithmetic\<close>

definition nearest_q :: "rat \<Rightarrow> AVRational option \<Rightarrow> bool" where
  "nearest_q x res \<longleftrightarrow> (\<exists>r. res = Some r \<and> \<bar>num r\<bar> \<le> INT_MAX \<and> 0 < den r \<and> den r \<le> INT_MAX \<and>
     coprime (num r) (den r) \<and>
     (\<forall>p q. \<bar>p\<bar> \<le> INT_MAX \<and> 0 < q \<and> q \<le> INT_MAX \<longrightarrow> \<bar>x - qval r\<bar> \<le> \<bar>x - of_int p / of_int q\<bar>))"

lemma nearest_q_reduce:
  assumes "INT64_MIN < n" "n \<le> INT64_MAX" "INT64_MIN < d" "d \<le> INT64_MAX" "d \<noteq> 0"
  shows "nearest_q (of_int n / of_int d) (map_option (\<lambda>(n, d, _). av_make_q n d) (av_reduce n d INT_MAX))"
proof -
  obtain p q e where "av_reduce n d INT_MAX = Some (p, q, e)" "\<bar>p\<bar> \<le> INT_MAX" "0 < q" "q \<le> INT_MAX" "coprime p q"
    "\<forall>p' q'. \<bar>p'\<bar> \<le> INT_MAX \<and> 0 < q' \<and> q' \<le> INT_MAX \<longrightarrow>
       \<bar>of_int n / of_int d - of_int p / of_int q\<bar> \<le> \<bar>of_int n / of_int d - of_int p' / (of_int q' :: rat)\<bar>"
    using av_reduce_nearest [OF assms, of INT_MAX] by auto
  then show ?thesis unfolding nearest_q_def by (intro exI [of _ "av_make_q p q"]) (simp add: qval_def)
qed

lemma prod_range:
  assumes "int_fields b" "0 < den b" "int_fields c" "0 < den c"
  shows "\<bar>num b * num c\<bar> \<le> 2 ^ 62" "\<bar>num b * den c\<bar> \<le> 2 ^ 62 - 2 ^ 31" "\<bar>num c * den b\<bar> \<le> 2 ^ 62 - 2 ^ 31"
    "0 < den b * den c" "den b * den c \<le> INT_MAX * INT_MAX"
proof -
  note b = int_fields_pos_bounds [OF assms(1,2)] and c = int_fields_pos_bounds [OF assms(3,4)]
  show "\<bar>num b * num c\<bar> \<le> 2 ^ 62" using abs_mult_le [OF b(1) c(1)] by simp
  show "\<bar>num b * den c\<bar> \<le> 2 ^ 62 - 2 ^ 31" using abs_mult_le [OF b(1), of "den c" INT_MAX] c by simp
  show "\<bar>num c * den b\<bar> \<le> 2 ^ 62 - 2 ^ 31" using abs_mult_le [OF c(1), of "den b" INT_MAX] b by simp
  show "0 < den b * den c" using assms by simp
  show "den b * den c \<le> INT_MAX * INT_MAX" using abs_mult_le [of "den b" INT_MAX "den c" INT_MAX] b c by simp
qed

text \<open>
  Also: the sum, difference and product of two fractions with positive denominators are the reduced
  fraction of \<^verbatim>\<open>int\<close>s nearest to the exact result (the exact result itself where it fits).
\<close>

theorem av_arith_q_nearest:
  assumes "int_fields b" "0 < den b" "int_fields c" "0 < den c"
  shows "nearest_q (qval b + qval c) (av_add_q b c) \<and> nearest_q (qval b - qval c) (av_sub_q b c) \<and>
    nearest_q (qval b * qval c) (av_mul_q b c)"
proof -
  note r = prod_range [OF assms]
  have s: "s64 (num b * den c + num c * den b) = num b * den c + num c * den b"
    "s64 (num b * den c - num c * den b) = num b * den c - num c * den b"
    "s64 (num b * num c) = num b * num c" "s64 (den b * den c) = den b * den c"
    using r by (simp_all add: s64_id in_s64_def abs_le_iff)
  have v: "qval b + qval c = of_int (num b * den c + num c * den b) / of_int (den b * den c)"
    "qval b - qval c = of_int (num b * den c - num c * den b) / of_int (den b * den c)"
    "qval b * qval c = of_int (num b * num c) / of_int (den b * den c)"
    using assms by (simp_all add: qval_def add_frac_eq diff_frac_eq)
  have dz: "den b * den c \<noteq> 0" using assms by simp
  have "nearest_q (qval b + qval c) (av_add_q b c)"
    unfolding av_add_q_def s v using r by (intro nearest_q_reduce dz) (simp_all add: abs_le_iff)
  moreover have "nearest_q (qval b - qval c) (av_sub_q b c)"
    unfolding av_sub_q_def s v using r by (intro nearest_q_reduce dz) (simp_all add: abs_le_iff)
  moreover have "nearest_q (qval b * qval c) (av_mul_q b c)"
    unfolding av_mul_q_def s v using r by (intro nearest_q_reduce dz) (simp_all add: abs_le_iff)
  ultimately show ?thesis by blast
qed

theorem av_arith_q_nearest_witness:
  "nearest_q (qval (av_make_q 1 2147483647) + qval (av_make_q (- 1) 2147483629)) (av_add_q (av_make_q 1 2147483647) (av_make_q (- 1) 2147483629)) \<and>
   nearest_q (qval (av_make_q 1 2147483647) - qval (av_make_q (- 1) 2147483629)) (av_sub_q (av_make_q 1 2147483647) (av_make_q (- 1) 2147483629)) \<and>
   nearest_q (qval (av_make_q 1 2147483647) * qval (av_make_q (- 1) 2147483629)) (av_mul_q (av_make_q 1 2147483647) (av_make_q (- 1) 2147483629))"
  by (rule av_arith_q_nearest) (simp_all add: int_fields_def in_s32_def)

section \<open>Nearest of a list\<close>

lemma sgn_closer: "sgn (\<bar>q - q2\<bar> - \<bar>q - q1\<bar>) = sgn ((q1 + q2) / 2 - q) * sgn (q2 - q1)" for q q1 q2 :: rat
  by (auto simp: sgn_if abs_if field_simps split: if_splits)

lemma abs_rounded_le: "\<bar>m\<bar> \<le> of_int k \<Longrightarrow> \<bar>\<lceil>m\<rceil>\<bar> \<le> k \<and> \<bar>\<lfloor>m\<rfloor>\<bar> \<le> k" for m :: rat
proof -
  assume "\<bar>m\<bar> \<le> of_int k"
  then have "m \<le> of_int k" "of_int (- k) \<le> m" by (simp_all add: abs_le_iff)
  then have "\<lceil>m\<rceil> \<le> k" "- k \<le> \<lfloor>m\<rfloor>" by (simp_all only: ceiling_le_iff le_floor_iff)
  then show ?thesis using floor_le_ceiling [of m] by linarith
qed

lemma av_nearer_q_sign:
  assumes "int_fields q" "0 < den q" "int_fields q1" "0 < den q1" "int_fields q2" "0 < den q2"
  shows "of_int (av_nearer_q q q1 q2) = sgn (\<bar>qval q - qval q2\<bar> - \<bar>qval q - qval q1\<bar>)"
proof -
  note r = prod_range [OF assms(3-6)]
  let ?a = "num q1 * den q2 + num q2 * den q1" and ?b = "2 * den q1 * den q2"
  have s: "s64 ?a = ?a" "s64 ?b = ?b" using r by (auto intro!: s64_id simp: in_s64_def abs_le_iff mult.assoc)
  let ?m = "of_int (?a * den q) / of_int ?b :: rat"
  have bnd: "\<bar>?a\<bar> \<le> 2 ^ 31 * ?b"
  proof -
    have "\<bar>num q1 * den q2\<bar> \<le> 2 ^ 31 * (den q1 * den q2)" "\<bar>num q2 * den q1\<bar> \<le> 2 ^ 31 * (den q1 * den q2)"
      using int_fields_pos_bounds [OF assms(3,4)] int_fields_pos_bounds [OF assms(5,6)]
        abs_mult_le [of "num q1" "2 ^ 31 * den q1" "den q2" "den q2"] abs_mult_le [of "num q2" "2 ^ 31 * den q2" "den q1" "den q1"]
      by (auto simp: mult.commute mult.left_commute)
    then show ?thesis by (simp add: abs_le_iff mult.assoc)
  qed
  have b: "0 < ?b" "?b \<le> INT64_MAX" using r assms by (simp_all add: mult.assoc)
  have dq: "1 \<le> den q" "den q \<le> INT_MAX" using int_fields_pos_bounds [OF assms(1,2)] by simp_all
  have a: "INT64_MIN < ?a" "?a \<le> INT64_MAX" using r by (simp_all add: abs_le_iff)
  have "\<bar>?a * den q\<bar> \<le> 2 ^ 31 * ?b * INT_MAX" using bnd dq by (intro abs_mult_le) simp_all
  then have m: "\<bar>?m\<bar> \<le> of_int (2 ^ 31 * INT_MAX)"
  proof -
    assume le: "\<bar>?a * den q\<bar> \<le> 2 ^ 31 * ?b * INT_MAX"
    have "(0 :: rat) < of_int ?b" using b(1) by (simp only: of_int_0_less_iff)
    then have "\<bar>?m\<bar> = of_int \<bar>?a * den q\<bar> / of_int ?b" by (simp only: abs_divide of_int_abs abs_of_pos)
    also have "\<dots> \<le> of_int (2 ^ 31 * ?b * INT_MAX) / of_int ?b"
      using le b(1) by (intro divide_right_mono) (simp_all only: of_int_le_iff of_int_0_le_iff)
    also have "\<dots> = of_int (2 ^ 31 * INT_MAX)" using assms(4,6) by simp
    finally show ?thesis .
  qed
  have up: "av_rescale_rnd ?a (den q) ?b AV_ROUND_UP = \<lceil>?m\<rceil>"
    and down: "av_rescale_rnd ?a (den q) ?b AV_ROUND_DOWN = \<lfloor>?m\<rfloor>"
  proof -
    have "\<bar>\<lceil>?m\<rceil>\<bar> \<le> INT64_MAX" "\<bar>\<lfloor>?m\<rfloor>\<bar> \<le> INT64_MAX"
      using abs_rounded_le [OF m] by simp_all
    then show "av_rescale_rnd ?a (den q) ?b AV_ROUND_UP = \<lceil>?m\<rceil>" "av_rescale_rnd ?a (den q) ?b AV_ROUND_DOWN = \<lfloor>?m\<rfloor>"
      using a b dq by (simp_all add: av_rescale_rnd_exact round_mode_def representable_def)
  qed
  have med: "?m = (qval q1 + qval q2) / 2 * of_int (den q)"
    using assms by (simp add: qval_def field_simps)
  have up': "\<lceil>?m\<rceil> > num q \<longleftrightarrow> qval q < (qval q1 + qval q2) / 2" and down': "\<lfloor>?m\<rfloor> < num q \<longleftrightarrow> (qval q1 + qval q2) / 2 < qval q"
    unfolding med less_ceiling_iff floor_less_iff using assms(2) by (simp_all add: qval_def field_simps)
  have "av_nearer_q q q1 q2 =
    (of_flag (qval q < (qval q1 + qval q2) / 2) - of_flag ((qval q1 + qval q2) / 2 < qval q)) * av_cmp_q q2 q1"
    by (simp only: av_nearer_q_def s Let_def up down up' down')
  then show ?thesis
    using av_cmp_q_sign [OF assms(5,3)] assms by (auto simp: sgn_closer sgn_if)
qed


lemma av_find_nearest_loop_correct:
  assumes q: "int_fields q" "0 < den q"
    and L: "n < length L" "den (L ! n) = 0" "\<And>j. j < n \<Longrightarrow> int_fields (L ! j) \<and> 0 < den (L ! j)"
  shows "i \<le> n \<Longrightarrow> k < max 1 i \<Longrightarrow> (\<And>j. j < i \<Longrightarrow> \<bar>qval q - qval (L ! k)\<bar> \<le> \<bar>qval q - qval (L ! j)\<bar>) \<Longrightarrow>
    \<exists>r. av_find_nearest_loop q L i (drop i L) k = Some r \<and> r < max 1 n \<and>
      (\<forall>j < n. \<bar>qval q - qval (L ! r)\<bar> \<le> \<bar>qval q - qval (L ! j)\<bar>)"
proof (induction "n - i" arbitrary: i k)
  case 0
  then have "i = n" by simp
  moreover have "drop n L = L ! n # drop (Suc n) L" using L(1) by (rule Cons_nth_drop_Suc [symmetric])
  ultimately show ?case using 0 L(2) by simp
next
  case (Suc m)
  then have i: "i < n" by simp
  have kn: "k < n" using Suc.prems(2) i by (cases i) simp_all
  have drop: "drop i L = L ! i # drop (Suc i) L" using L(1) i by (intro Cons_nth_drop_Suc [symmetric]) simp
  let ?k = "if av_nearer_q q (L ! i) (L ! k) > 0 then i else k"
  have near: "0 < av_nearer_q q (L ! i) (L ! k) \<longleftrightarrow> \<bar>qval q - qval (L ! i)\<bar> < \<bar>qval q - qval (L ! k)\<bar>"
    using av_nearer_q_sign [OF q, of "L ! i" "L ! k"] L(3) [OF i] L(3) [OF kn]
    by (auto simp: sgn_if split: if_splits)
  have ih: "\<bar>qval q - qval (L ! ?k)\<bar> \<le> \<bar>qval q - qval (L ! j)\<bar>" if "j < Suc i" for j
    using that Suc.prems(3) [of j] near by (cases "j = i") (force split: if_splits)+
  have "\<exists>r. av_find_nearest_loop q L (Suc i) (drop (Suc i) L) ?k = Some r \<and> r < max 1 n \<and>
      (\<forall>j < n. \<bar>qval q - qval (L ! r)\<bar> \<le> \<bar>qval q - qval (L ! j)\<bar>)"
    by (rule Suc.hyps(1)) (use Suc.hyps(2) Suc.prems i ih in auto)
  then show ?case using L(3) [OF i] by (simp add: drop)
qed

text \<open>
  Also: \<^verbatim>\<open>av_find_nearest_q_idx\<close> on an array that ends with a zero denominator returns, without reading
  past that entry, the index of an entry no other entry is closer to the argument than.
\<close>

theorem av_find_nearest_q_idx_correct:
  assumes "int_fields q" "0 < den q" "n < length L" "den (L ! n) = 0" "0 < n"
    and "\<And>j. j < n \<Longrightarrow> int_fields (L ! j) \<and> 0 < den (L ! j)"
  shows "\<exists>r. av_find_nearest_q_idx q L = Some r \<and> r < n \<and>
    (\<forall>j < n. \<bar>qval q - qval (L ! r)\<bar> \<le> \<bar>qval q - qval (L ! j)\<bar>)"
  using av_find_nearest_loop_correct [OF assms(1-4,6), of 0 0] assms(5)
  by (simp add: av_find_nearest_q_idx_def max_def split: if_splits)

theorem av_find_nearest_q_idx_correct_witness:
  "\<exists>r. av_find_nearest_q_idx (av_make_q 2997 125) [av_make_q 24000 1001, av_make_q 24 1, av_make_q 25 1, av_make_q 0 0] = Some r \<and> r < 3 \<and>
    (\<forall>j < 3. \<bar>qval (av_make_q 2997 125) - qval ([av_make_q 24000 1001, av_make_q 24 1, av_make_q 25 1, av_make_q 0 0] ! r)\<bar> \<le>
      \<bar>qval (av_make_q 2997 125) - qval ([av_make_q 24000 1001, av_make_q 24 1, av_make_q 25 1, av_make_q 0 0] ! j)\<bar>)"
  by (rule av_find_nearest_q_idx_correct) (auto simp: int_fields_def in_s32_def less_Suc_eq numeral_eq_Suc)

section \<open>Common time base\<close>

text \<open>
  Also: \<^verbatim>\<open>av_gcd_q\<close> returns the largest time base both arguments are multiples of, the gcd of the
  numerators over the lcm of the denominators, and the default exactly when that lcm reaches
  \<^verbatim>\<open>max_den\<close>; neither the 64-bit lcm nor the narrowing to \<^verbatim>\<open>int\<close> wraps.
\<close>

theorem av_gcd_q_correct:
  assumes "0 < den a" "0 < den b" "0 \<le> num a" "0 \<le> num b" "int_fields a" "int_fields b" "max_den \<le> INT_MAX"
  shows "av_gcd_q a b max_den def =
    Some (if lcm (den a) (den b) < max_den then av_make_q (gcd (num a) (num b)) (lcm (den a) (den b)) else def)"
proof -
  let ?g = "gcd (den a) (den b)"
  have rng: "den a \<le> INT_MAX" "den b \<le> INT_MAX" "num a \<le> INT_MAX" "num b \<le> INT_MAX"
    using assms(5,6) by (auto simp: int_fields_def in_s32_def)
  have g: "av_gcd (den a) (den b) = Some ?g" "av_gcd (num a) (num b) = Some (gcd (num a) (num b))"
    using assms rng by (auto simp: in_s64_def)
  have gpos: "0 < ?g" using assms by simp
  have l: "den a div ?g * den b = lcm (den a) (den b)"
  proof -
    have "lcm (den a) (den b) = \<bar>den a\<bar> * \<bar>den b\<bar> div ?g" by (rule lcm_altdef_int)
    also have "\<dots> = den b * den a div ?g" using assms by (simp add: mult.commute)
    also have "\<dots> = den a div ?g * den b" by (simp add: div_mult_swap mult.commute)
    finally show ?thesis by simp
  qed
  have "1 \<le> ?g" using gpos by linarith
  then have "den a div ?g \<le> den a div 1" using assms(1) by (intro zdiv_mono2) simp_all
  then have "den a div ?g \<le> INT_MAX" using rng(1) by simp
  moreover have "0 \<le> den a div ?g" using assms(1) gpos by (simp add: pos_imp_zdiv_nonneg_iff)
  ultimately have "\<bar>lcm (den a) (den b)\<bar> \<le> INT_MAX * INT_MAX"
    unfolding l [symmetric] using rng(2) assms(2) by (intro abs_mult_le) simp_all
  then have l64: "s64 (lcm (den a) (den b)) = lcm (den a) (den b)" 
    using lcm_ge_0_int [of "den a" "den b"] by (intro s64_id) (unfold in_s64_def, intro conjI; linarith)
  have gn: "gcd (num a) (num b) \<le> INT_MAX"
  proof (cases "num a = 0")
    case True
    then show ?thesis using rng assms by simp
  next
    case False
    then show ?thesis using rng assms(3) gcd_le1_int [of "num a" "num b"] by linarith
  qed
  have "s32 (gcd (num a) (num b)) = gcd (num a) (num b)" using gn gcd_ge_0_int [of "num a" "num b"] by (intro s32_id) (unfold in_s32_def, intro conjI; linarith)
  moreover have "s32 (lcm (den a) (den b)) = lcm (den a) (den b)" if "lcm (den a) (den b) < max_den"
    using that assms(7) lcm_ge_0_int [of "den a" "den b"] by (intro s32_id) (unfold in_s32_def, intro conjI; linarith)
  ultimately show ?thesis using gpos assms(1) by (simp add: av_gcd_q_def g Let_def l l64)
qed

theorem av_gcd_q_correct_witness:
  "av_gcd_q (av_make_q 1001 24000) (av_make_q 1 25) 240000 (av_make_q 1 1000000) =
    Some (if lcm 24000 25 < (240000 :: int) then av_make_q (gcd 1001 1) (lcm 24000 25) else av_make_q 1 1000000)"
  using av_gcd_q_correct [of "av_make_q 1001 24000" "av_make_q 1 25" 240000 "av_make_q 1 1000000"]
  by (simp add: int_fields_def in_s32_def)

end
