(* ===== verification/AV_Timestamps.thy ===== *)
theory AV_Timestamps
  imports AV_Rational AV_Intmath
begin

text \<open>
  The functions of \<^verbatim>\<open>libavutil/mathematics.c\<close> on timestamps: rescaling between time bases, comparing timestamps and
  remainders, the audio timestamps of \<^verbatim>\<open>av_rescale_delta\<close> and the addition of \<^verbatim>\<open>av_add_stable\<close>. A failed assertion
  and a division by zero are the result \<open>None\<close>.
\<close>

unbundle bit_operations_syntax

section \<open>Definitions\<close>

definition av_rescale_q_rnd :: "int \<Rightarrow> AVRational \<Rightarrow> AVRational \<Rightarrow> u32 \<Rightarrow> int" where
  "av_rescale_q_rnd a bq cq rnd =
     (let b = s64 (num bq * den cq);
          c = s64 (num cq * den bq)
      in av_rescale_rnd a b c rnd)"

definition av_rescale_q :: "int \<Rightarrow> AVRational \<Rightarrow> AVRational \<Rightarrow> int" where
  "av_rescale_q a bq cq = av_rescale_q_rnd a bq cq AV_ROUND_NEAR_INF"

definition FFABS64U :: "int \<Rightarrow> u64" where
  "FFABS64U a = (if a \<le> 0 then - word_of_int a else word_of_int a)"

definition av_compare_ts :: "int \<Rightarrow> AVRational \<Rightarrow> int \<Rightarrow> AVRational \<Rightarrow> int" where
  "av_compare_ts ts_a tb_a ts_b tb_b =
     (let a = s64 (num tb_a * den tb_b);
          b = s64 (num tb_b * den tb_a)
      in if FFABS64U ts_a OR word_of_int a OR FFABS64U ts_b OR word_of_int b \<le> word_of_int INT_MAX
         then of_bool (s64 (ts_a * a) > s64 (ts_b * b)) - of_bool (s64 (ts_a * a) < s64 (ts_b * b))
         else if av_rescale_rnd ts_a a b AV_ROUND_DOWN < ts_b then - 1
         else if av_rescale_rnd ts_b b a AV_ROUND_DOWN < ts_a then 1
         else 0)"

text \<open>\<^verbatim>\<open>c > (mod >> 1)\<close> compares as \<^verbatim>\<open>uint64_t\<close>.\<close>

definition av_compare_mod :: "u64 \<Rightarrow> u64 \<Rightarrow> u64 \<Rightarrow> int" where
  "av_compare_mod a b md =
     (let c = (a - b) AND (md - 1);
          c = (if c > drop_bit 1 md then c - md else c)
      in sint c)"

text \<open>The result is the timestamp and the new value of \<^verbatim>\<open>*last\<close>.\<close>

definition av_rescale_delta :: "AVRational \<Rightarrow> int \<Rightarrow> AVRational \<Rightarrow> int \<Rightarrow> int \<Rightarrow> AVRational \<Rightarrow> (int \<times> int) option" where
  "av_rescale_delta in_tb in_ts fs_tb duration last_ts out_tb =
     (if \<not> in_ts \<noteq> AV_NOPTS_VALUE \<or> \<not> duration \<ge> 0 then None
      else
        let simple_round = Some (av_rescale_q in_ts in_tb out_tb, s64 (av_rescale_q in_ts in_tb fs_tb + duration))
        in if last_ts = AV_NOPTS_VALUE \<or> duration = 0 \<or> s64 (num in_tb * den out_tb) \<le> s64 (num out_tb * den in_tb)
           then simple_round
           else
             let a = av_rescale_q_rnd (s64 (2 * in_ts - 1)) in_tb fs_tb AV_ROUND_DOWN div 2;
                 b = s64 (av_rescale_q_rnd (s64 (2 * in_ts + 1)) in_tb fs_tb AV_ROUND_UP + 1) div 2
             in if last_ts < s64 (2 * a - b) \<or> last_ts > s64 (2 * b - a) then simple_round
                else
                  let this = av_clip64_c last_ts a b
                  in Some (av_rescale_q this fs_tb out_tb, s64 (this + duration)))"

definition av_add_stable :: "AVRational \<Rightarrow> int \<Rightarrow> AVRational \<Rightarrow> int \<Rightarrow> int option" where
  "av_add_stable ts_tb ts inc_tb inc =
     (case if inc \<noteq> 1 then av_mul_q inc_tb (av_make_q (s32 inc) 1) else Some inc_tb of
        None \<Rightarrow> None
      | Some inc_tb \<Rightarrow>
          let m = s64 (num inc_tb * den ts_tb);
              d = s64 (den inc_tb * num ts_tb)
          in if d = 0 then None
             else if c_mod m d = 0 \<and> ts \<le> s64 (INT64_MAX - c_div m d) then Some (s64 (ts + c_div m d))
             else if m < d then Some ts
             else
               let old = av_rescale_q ts ts_tb inc_tb;
                   old_ts = av_rescale_q old inc_tb ts_tb
               in if old = INT64_MAX \<or> old = AV_NOPTS_VALUE \<or> old_ts = AV_NOPTS_VALUE then Some ts
                  else Some (av_sat_add64_c (av_rescale_q (s64 (old + 1)) inc_tb ts_tb) (s64 (ts - old_ts))))"

section \<open>Rescaling\<close>

text \<open>A time base of a stream: a positive fraction with \<^verbatim>\<open>int\<close> fields.\<close>

definition timebase :: "AVRational \<Rightarrow> bool" where
  "timebase q \<longleftrightarrow> 0 < num q \<and> num q \<le> INT_MAX \<and> 0 < den q \<and> den q \<le> INT_MAX"

lemma timebase_pos [simp]: "timebase q \<Longrightarrow> 0 < qval q"
  by (simp add: timebase_def qval_def)

lemma timebase_cross:
  assumes "timebase p" "timebase q"
  shows "0 < num p * den q" "num p * den q \<le> INT64_MAX" "s64 (num p * den q) = num p * den q"
proof -
  have "num p * den q \<le> INT_MAX * INT_MAX" using assms by (intro mult_mono) (simp_all add: timebase_def)
  then show "0 < num p * den q" "num p * den q \<le> INT64_MAX" using assms by (simp_all add: timebase_def)
  then show "s64 (num p * den q) = num p * den q" by (intro s64_id) (simp add: in_s64_def)
qed

text \<open>The value of a timestamp in seconds, and rescaling as rounding of it.\<close>

definition seconds :: "int \<Rightarrow> AVRational \<Rightarrow> rat" where
  "seconds ts tb = of_int ts * qval tb"

lemma seconds_ratio:
  assumes "timebase bq" "timebase cq"
  shows "of_int (a * (num bq * den cq)) / of_int (num cq * den bq) = seconds a bq / qval cq"
  using assms by (simp add: seconds_def qval_def timebase_def mult.commute)

lemma av_rescale_q_rnd_round:
  assumes "timebase bq" "timebase cq" "INT64_MIN < a" "a \<le> INT64_MAX" "plain_mode rnd"
  shows "av_rescale_q_rnd a bq cq rnd = representable (round_mode rnd (seconds a bq / qval cq))"
proof -
  have "av_rescale_q_rnd a bq cq rnd = av_rescale_rnd a (num bq * den cq) (num cq * den bq) rnd"
    using assms by (simp add: av_rescale_q_rnd_def timebase_cross(3) Let_def)
  also have "\<dots> = representable (round_mode rnd (of_int (a * (num bq * den cq)) / of_int (num cq * den bq)))"
    using assms timebase_cross(1,2) [OF assms(1,2)] timebase_cross(1,2) [OF assms(2,1)] by (intro av_rescale_rnd_round) simp_all
  finally show ?thesis by (simp only: seconds_ratio [OF assms(1,2)])
qed

lemma representable_id: "\<bar>q\<bar> \<le> INT64_MAX \<Longrightarrow> representable q = q"
  by (simp add: representable_def)

section \<open>Comparing timestamps\<close>

lemma FFABS64U_uint: "in_s64 a \<Longrightarrow> uint (FFABS64U a) = \<bar>a\<bar>"
proof -
  assume a: "in_s64 a"
  have "FFABS64U a = word_of_int \<bar>a\<bar>" by (simp add: FFABS64U_def)
  moreover have "\<bar>a\<bar> < 2 ^ 64" using a by (auto simp: in_s64_def)
  ultimately show ?thesis by (simp add: uint_word_of_int_small)
qed

lemma word_or_le: "a OR b \<le> 0x7FFFFFFF \<longleftrightarrow> a \<le> 0x7FFFFFFF \<and> b \<le> 0x7FFFFFFF" for a b :: u64
proof -
  have m: "w \<le> 0x7FFFFFFF \<longleftrightarrow> drop_bit 31 w = 0" for w :: u64
  proof -
    have "w \<le> 0x7FFFFFFF \<longleftrightarrow> uint w div 2 ^ 31 = 0" by (auto simp: word_le_def div_eq_0_iff)
    also have "\<dots> \<longleftrightarrow> uint (drop_bit 31 w) = 0" by (simp add: drop_bit_eq_div uint_div)
    finally show ?thesis by (simp add: uint_0_iff)
  qed
  show ?thesis by (simp add: m drop_bit_or) (metis or_eq_0_iff)
qed

text \<open>The documented domain: each timestamp is representable in the other's time base.\<close>

definition comparable :: "int \<Rightarrow> AVRational \<Rightarrow> int \<Rightarrow> AVRational \<Rightarrow> bool" where
  "comparable ts_a tb_a ts_b tb_b \<longleftrightarrow> timebase tb_a \<and> timebase tb_b \<and> \<bar>ts_a\<bar> \<le> INT64_MAX \<and> \<bar>ts_b\<bar> \<le> INT64_MAX \<and>
     \<bar>\<lfloor>seconds ts_a tb_a / qval tb_b\<rfloor>\<bar> \<le> INT64_MAX \<and> \<bar>\<lfloor>seconds ts_b tb_b / qval tb_a\<rfloor>\<bar> \<le> INT64_MAX"

lemma seconds_less_cross:
  assumes "timebase tb_a" "timebase tb_b"
  shows "seconds ts_a tb_a < seconds ts_b tb_b \<longleftrightarrow> ts_a * (num tb_a * den tb_b) < ts_b * (num tb_b * den tb_a)"
proof -
  have "seconds ts_a tb_a < seconds ts_b tb_b \<longleftrightarrow>
      (of_int (ts_a * (num tb_a * den tb_b)) :: rat) < of_int (ts_b * (num tb_b * den tb_a))"
    using assms by (simp add: seconds_def qval_def timebase_def field_simps)
  then show ?thesis by (simp only: of_int_less_iff)
qed

lemma av_compare_ts_cmp:
  assumes "comparable ts_a tb_a ts_b tb_b"
  shows "av_compare_ts ts_a tb_a ts_b tb_b =
    (if seconds ts_a tb_a < seconds ts_b tb_b then - 1 else if seconds ts_b tb_b < seconds ts_a tb_a then 1 else 0)"
proof -
  define a b where "a = num tb_a * den tb_b" and "b = num tb_b * den tb_a"
  have tb: "timebase tb_a" "timebase tb_b" and ts: "\<bar>ts_a\<bar> \<le> INT64_MAX" "\<bar>ts_b\<bar> \<le> INT64_MAX"
    and rep: "\<bar>\<lfloor>seconds ts_a tb_a / qval tb_b\<rfloor>\<bar> \<le> INT64_MAX" "\<bar>\<lfloor>seconds ts_b tb_b / qval tb_a\<rfloor>\<bar> \<le> INT64_MAX"
    using assms by (simp_all add: comparable_def)
  have ab: "0 < a" "a \<le> INT64_MAX" "0 < b" "b \<le> INT64_MAX" "s64 a = a" "s64 b = b"
    unfolding a_def b_def using timebase_cross [OF tb] timebase_cross [OF tb(2,1)] by simp_all
  have c: "seconds ts_a tb_a < seconds ts_b tb_b \<longleftrightarrow> ts_a * a < ts_b * b" "seconds ts_b tb_b < seconds ts_a tb_a \<longleftrightarrow> ts_b * b < ts_a * a"
    unfolding a_def b_def using tb by (simp_all only: seconds_less_cross)
  have small: "FFABS64U ts_a OR word_of_int a OR FFABS64U ts_b OR word_of_int b \<le> word_of_int INT_MAX \<longleftrightarrow>
      \<bar>ts_a\<bar> \<le> INT_MAX \<and> a \<le> INT_MAX \<and> \<bar>ts_b\<bar> \<le> INT_MAX \<and> b \<le> INT_MAX"
  proof -
    have "in_s64 ts_a" "in_s64 ts_b" using ts by (auto simp: in_s64_def)
    then have u: "uint (FFABS64U ts_a) = \<bar>ts_a\<bar>" "uint (FFABS64U ts_b) = \<bar>ts_b\<bar>" "uint (word_of_int a :: u64) = a" "uint (word_of_int b :: u64) = b"
      using ab by (simp_all add: FFABS64U_uint uint_word_of_int_small)
    show ?thesis by (simp add: word_or_le) (simp add: word_le_def u)
  qed
  show ?thesis
  proof (cases "\<bar>ts_a\<bar> \<le> INT_MAX \<and> a \<le> INT_MAX \<and> \<bar>ts_b\<bar> \<le> INT_MAX \<and> b \<le> INT_MAX")
    case True
    have "\<bar>ts_a * a\<bar> \<le> INT_MAX * INT_MAX" "\<bar>ts_b * b\<bar> \<le> INT_MAX * INT_MAX"
      using True ab abs_mult_le [of ts_a INT_MAX a INT_MAX] abs_mult_le [of ts_b INT_MAX b INT_MAX] by simp_all
    then have "s64 (ts_a * a) = ts_a * a" "s64 (ts_b * b) = ts_b * b" by (auto intro!: s64_id simp: in_s64_def)
    then show ?thesis
      using True small unfolding av_compare_ts_def a_def [symmetric] b_def [symmetric] Let_def ab c by (auto simp: not_less)
  next
    case False
    have "av_rescale_rnd ts_a a b AV_ROUND_DOWN = representable (round_mode AV_ROUND_DOWN (of_int (ts_a * a) / of_int b))"
      "av_rescale_rnd ts_b b a AV_ROUND_DOWN = representable (round_mode AV_ROUND_DOWN (of_int (ts_b * b) / of_int a))"
      using ts ab by (intro av_rescale_rnd_round; simp)+
    moreover have "of_int (ts_a * a) / of_int b = seconds ts_a tb_a / qval tb_b" "of_int (ts_b * b) / of_int a = seconds ts_b tb_b / qval tb_a"
      unfolding a_def b_def by (rule seconds_ratio [OF tb] seconds_ratio [OF tb(2,1)])+
    ultimately have r: "av_rescale_rnd ts_a a b AV_ROUND_DOWN = \<lfloor>of_int (ts_a * a) / of_int b :: rat\<rfloor>"
      "av_rescale_rnd ts_b b a AV_ROUND_DOWN = \<lfloor>of_int (ts_b * b) / of_int a :: rat\<rfloor>"
      using rep by (simp_all add: representable_id round_mode_def)
    have f: "\<lfloor>of_int (ts_a * a) / of_int b :: rat\<rfloor> < ts_b \<longleftrightarrow> ts_a * a < ts_b * b" "\<lfloor>of_int (ts_b * b) / of_int a :: rat\<rfloor> < ts_a \<longleftrightarrow> ts_b * b < ts_a * a"
      using ab by (simp_all add: floor_divide_of_int_eq int_div_less_iff del: of_int_mult)
    have "\<not> (FFABS64U ts_a OR word_of_int a OR FFABS64U ts_b OR word_of_int b \<le> word_of_int INT_MAX)"
      using False small by blast
    then show ?thesis
      unfolding av_compare_ts_def a_def [symmetric] b_def [symmetric] Let_def ab c r f by simp
  qed
qed

lemma abs_floor_le: "\<bar>x\<bar> \<le> of_int k \<Longrightarrow> \<bar>\<lfloor>x\<rfloor>\<bar> \<le> k" for x :: rat
proof -
  assume "\<bar>x\<bar> \<le> of_int k"
  then have "of_int (- k) \<le> x" "x \<le> of_int k" by (simp_all add: abs_le_iff)
  then have "- k \<le> \<lfloor>x\<rfloor>" "\<lfloor>x\<rfloor> \<le> k" using floor_mono [of x "of_int k"] by (simp_all add: le_floor_iff)
  then show ?thesis by simp
qed

text \<open>A sufficient condition: both positions lie within 68 years of the origin.\<close>

lemma comparable_if_near:
  assumes "timebase tb_a" "timebase tb_b" "\<bar>seconds ts_a tb_a\<bar> \<le> 2 ^ 31" "\<bar>seconds ts_b tb_b\<bar> \<le> 2 ^ 31"
  shows "comparable ts_a tb_a ts_b tb_b"
proof -
  have b: "\<bar>\<lfloor>seconds ts tb / qval tb'\<rfloor>\<bar> \<le> INT64_MAX" if "timebase tb'" "\<bar>seconds ts tb\<bar> \<le> 2 ^ 31" for ts tb tb'
  proof -
    have "den tb' \<le> INT_MAX * 1" "INT_MAX * 1 \<le> INT_MAX * num tb'" using that(1) by (simp_all add: timebase_def)
    then have "den tb' \<le> INT_MAX * num tb'" by linarith
    then have "(of_int (den tb') :: rat) \<le> of_int (INT_MAX * num tb')" by (simp only: of_int_le_iff)
    then have q: "1 / qval tb' \<le> of_int INT_MAX" using that(1) by (simp add: timebase_def qval_def divide_le_eq)
    have "\<bar>seconds ts tb / qval tb'\<bar> = \<bar>seconds ts tb\<bar> * (1 / qval tb')" using timebase_pos [OF that(1)] by (simp add: abs_divide)
    also have "\<dots> \<le> 2 ^ 31 * of_int INT_MAX" using that(2) q timebase_pos [OF that(1)] by (intro mult_mono) simp_all
    finally have "\<bar>seconds ts tb / qval tb'\<bar> \<le> of_int (2 ^ 31 * INT_MAX)" by simp
    then have "\<bar>\<lfloor>seconds ts tb / qval tb'\<rfloor>\<bar> \<le> 2 ^ 31 * INT_MAX" by (rule abs_floor_le)
    then show ?thesis by simp
  qed
  have "\<bar>ts\<bar> \<le> INT64_MAX" if "timebase tb" "\<bar>seconds ts tb\<bar> \<le> 2 ^ 31" for ts tb
    using b [OF that] timebase_pos [OF that(1)] by (simp add: seconds_def)
  then show ?thesis using assms b by (simp add: comparable_def)
qed

text \<open>
  C28: \<^verbatim>\<open>av_compare_ts\<close> decides the order of the two positions exactly, through both of its code paths, whenever each
  timestamp is representable in the other's time base (the documented domain), which holds for all positions within
  68 years of the origin.
\<close>

theorem av_compare_ts_exact:
  assumes "timebase tb_a" "timebase tb_b" "comparable ts_a tb_a ts_b tb_b \<or> \<bar>seconds ts_a tb_a\<bar> \<le> 2 ^ 31 \<and> \<bar>seconds ts_b tb_b\<bar> \<le> 2 ^ 31"
  shows "of_int (av_compare_ts ts_a tb_a ts_b tb_b) = sgn (seconds ts_a tb_a - seconds ts_b tb_b)"
proof -
  have "comparable ts_a tb_a ts_b tb_b" using assms comparable_if_near by blast
  then show ?thesis by (simp add: av_compare_ts_cmp sgn_if)
qed

theorem av_compare_ts_exact_witness:
  "of_int (av_compare_ts 5000000000 (av_make_q 1 90000) 53000 (av_make_q 1001 24000)) =
    sgn (seconds 5000000000 (av_make_q 1 90000) - seconds 53000 (av_make_q 1001 24000))"
  by (rule av_compare_ts_exact) (simp_all add: timebase_def seconds_def qval_def)

section \<open>Comparing remainders\<close>

lemma word_mask_minus: "uint (x AND (2 ^ k - 1)) = uint x mod 2 ^ k" for x :: u64
proof -
  have "x AND (2 ^ k - 1) = take_bit k x" by (simp add: take_bit_eq_mask mask_eq_exp_minus_1)
  then have "uint (x AND (2 ^ k - 1)) = take_bit k (uint x)" by (simp only: unsigned_take_bit_eq)
  then show ?thesis by (simp only: take_bit_eq_mod)
qed

text \<open>
  Also: for a modulus that is a power of two, the result of \<^verbatim>\<open>av_compare_mod\<close> is congruent to the difference of its
  arguments and lies in the half-open interval around zero: it is the signed distance on the circle, so its sign
  tells the order of the remainders only while they are at most half the modulus apart.
\<close>

theorem av_compare_mod_distance:
  assumes "0 < k" "k < 64"
  shows "2 ^ k dvd av_compare_mod a b (2 ^ k) - (uint a - uint b) \<and>
    - (2 ^ (k - 1)) < av_compare_mod a b (2 ^ k) \<and> av_compare_mod a b (2 ^ k) \<le> 2 ^ (k - 1) \<and>
    (\<bar>uint a mod 2 ^ k - uint b mod 2 ^ k\<bar> < 2 ^ (k - 1) \<longrightarrow> av_compare_mod a b (2 ^ k) = uint a mod 2 ^ k - uint b mod 2 ^ k)"
proof -
  define M h where "M = (2 :: int) ^ k" and "h = (2 :: int) ^ (k - 1)"
  have M: "M = 2 * h" "0 < h" "h \<le> 2 ^ 62" using assms power_increasing [of "k - 1" 62 "2 :: int"] by (simp_all add: M_def h_def power_eq_if)
  define c where "c = (uint a - uint b) mod M"
  have c: "0 \<le> c" "c < M" "M dvd c - (uint a - uint b)" using M by (auto simp: c_def mod_eq_dvd_iff [symmetric])
  have "uint ((a - b) AND (2 ^ k - 1)) = ((uint a - uint b) mod 2 ^ 64) mod 2 ^ k"
    by (simp add: word_mask_minus uint_word_ariths)
  also have "\<dots> = c" unfolding c_def M_def using assms by (intro mod_mod_cancel le_imp_power_dvd) simp
  finally have uc: "uint ((a - b) AND (2 ^ k - 1)) = c" .
  then have w: "(a - b) AND (2 ^ k - 1) = word_of_int c" by (metis word_of_int_uint)
  have pk: "uint (2 ^ k :: u64) = M" using uint_word_of_int_small [of M] M by (simp add: M_def)
  have half: "uint (drop_bit 1 (2 ^ k) :: u64) = h" using assms pk M by (simp add: drop_bit_eq_div uint_div)
  have val: "av_compare_mod a b (2 ^ k) = (if c > h then c - M else c)"
  proof (cases "c > h")
    case True
    then have "av_compare_mod a b (2 ^ k) = sint (word_of_int c - 2 ^ k :: u64)"
      using uc half by (simp add: av_compare_mod_def word_less_def w flip: One_nat_def)
    also have "word_of_int c - 2 ^ k = (word_of_int (c - M) :: u64)" by (simp add: M_def)
    finally have "av_compare_mod a b (2 ^ k) = s64 (c - M)" by (simp only: sint_word_of_int_s64)
    then show ?thesis using True c M by (simp add: s64_id in_s64_def)
  next
    case False
    then have "av_compare_mod a b (2 ^ k) = sint (word_of_int c :: u64)"
      using uc half by (simp add: av_compare_mod_def word_less_def w flip: One_nat_def)
    then show ?thesis using False c M by (simp add: sint_word_of_int_s64 s64_id in_s64_def)
  qed
  define r where "r = av_compare_mod a b (2 ^ k)"
  have r: "r = c \<or> r = c - M" "- h < r" "r \<le> h"
    using val c(1,2) M by (simp_all add: r_def)
  have "M dvd c - (uint a - uint b) - M" using c(3) dvd_refl by (rule dvd_diff)
  moreover have "c - (uint a - uint b) - M = c - M - (uint a - uint b)" by simp
  ultimately have d: "M dvd r - (uint a - uint b)" using r(1) c(3) by metis
  have "r = uint a mod M - uint b mod M" if near: "\<bar>uint a mod M - uint b mod M\<bar> < h"
  proof -
    have "M dvd (uint a - uint a mod M) - (uint b - uint b mod M)" by (rule dvd_diff) (rule dvd_minus_mod)+
    then have "M dvd (r - (uint a - uint b)) + ((uint a - uint a mod M) - (uint b - uint b mod M))" by (rule dvd_add [OF d])
    then have "M dvd r - (uint a mod M - uint b mod M)" by (simp add: algebra_simps)
    moreover have "\<bar>r - (uint a mod M - uint b mod M)\<bar> < M" using near r(2,3) M by linarith
    ultimately show ?thesis using zdvd_not_zless [of "\<bar>r - (uint a mod M - uint b mod M)\<bar>" M] by (cases "r = uint a mod M - uint b mod M") simp_all
  qed
  then show ?thesis using r d unfolding r_def M_def h_def by blast
qed

text \<open>The distance of 15 and 0 on a circle of 16 is one step backwards, although 0 is the smaller remainder.\<close>

theorem av_compare_mod_distance_witness:
  "2 ^ 4 dvd av_compare_mod 0 15 (2 ^ 4) - (uint (0 :: u64) - uint (15 :: u64)) \<and> av_compare_mod 0 15 (2 ^ 4) = 1"
  using av_compare_mod_distance [of 4 0 15] by (simp add: av_compare_mod_def)


section \<open>Audio timestamps\<close>

abbreviation round_near :: "rat \<Rightarrow> int" where
  "round_near x \<equiv> round_mode AV_ROUND_NEAR_INF x"

lemma round_near_bounds: "x - 1 / 2 \<le> of_int (round_near x)" "of_int (round_near x) \<le> x + 1 / 2"
  unfolding round_mode_def by simp_all linarith+

lemma round_near_nonneg: "0 \<le> x \<Longrightarrow> round_near x = \<lfloor>x + 1 / 2\<rfloor>"
  by (simp add: round_mode_def)

lemma round_near_unique: "\<bar>x - of_int k\<bar> < 1 / 2 \<Longrightarrow> round_near x = k"
proof -
  assume "\<bar>x - of_int k\<bar> < 1 / 2"
  then have "of_int (round_near x) - 1 < (of_int k :: rat)" "of_int k - 1 < (of_int (round_near x) :: rat)"
    using round_near_bounds [of x] unfolding abs_less_iff by linarith+
  then have "of_int (round_near x - 1) < (of_int k :: rat)" "of_int (k - 1) < (of_int (round_near x) :: rat)" by simp_all
  then have "round_near x - 1 < k" "k - 1 < round_near x" by (simp_all only: of_int_less_iff)
  then show ?thesis by simp
qed

lemma round_near_of_int [simp]: "round_near (of_int k) = k"
  by (rule round_near_unique) simp

lemma floor_half_twice: "\<lfloor>2 * x\<rfloor> div 2 = \<lfloor>x\<rfloor>" for x :: rat
proof -
  have "of_int (2 * \<lfloor>x\<rfloor>) \<le> 2 * x" "2 * x < of_int (2 * \<lfloor>x\<rfloor> + 2)" using of_int_floor_le [of x] floor_correct [of x] by simp_all
  then have "2 * \<lfloor>x\<rfloor> \<le> \<lfloor>2 * x\<rfloor>" "\<lfloor>2 * x\<rfloor> < 2 * \<lfloor>x\<rfloor> + 2" by (simp_all only: le_floor_iff floor_less_iff)
  then show ?thesis by linarith
qed

lemma ceiling_half_twice: "(\<lceil>2 * x\<rceil> + 1) div 2 = \<lceil>x\<rceil>" for x :: rat
  using floor_half_twice [of "- x"] unfolding ceiling_def by simp

text \<open>The two bounds \<open>a\<close> and \<open>b\<close>: the sample positions of half an input tick before and after the timestamp.\<close>

lemma delta_window:
  assumes tb: "timebase in_tb" "timebase fs_tb" and small: "\<bar>seconds in_ts in_tb / qval fs_tb\<bar> + qval in_tb / qval fs_tb \<le> 2 ^ 60"
    and ts: "\<bar>in_ts\<bar> \<le> 2 ^ 60"
  defines "x \<equiv> seconds in_ts in_tb / qval fs_tb" and "r \<equiv> qval in_tb / qval fs_tb"
  shows "av_rescale_q_rnd (s64 (2 * in_ts - 1)) in_tb fs_tb AV_ROUND_DOWN div 2 = \<lfloor>x - r / 2\<rfloor>"
    "s64 (av_rescale_q_rnd (s64 (2 * in_ts + 1)) in_tb fs_tb AV_ROUND_UP + 1) div 2 = \<lceil>x + r / 2\<rceil>"
proof -
  have r: "0 < r" using tb by (simp add: r_def)
  have xr: "- (2 ^ 60) \<le> x - r" "x + r \<le> 2 ^ 60" using small unfolding x_def [symmetric] r_def [symmetric] by (simp_all add: abs_if split: if_splits)
  have s: "s64 (2 * in_ts - 1) = 2 * in_ts - 1" "s64 (2 * in_ts + 1) = 2 * in_ts + 1"
    using ts by (auto intro!: s64_id simp: in_s64_def)
  have y: "seconds (2 * in_ts - 1) in_tb / qval fs_tb = 2 * (x - r / 2)" "seconds (2 * in_ts + 1) in_tb / qval fs_tb = 2 * (x + r / 2)"
    by (simp_all add: x_def r_def seconds_def algebra_simps diff_divide_distrib add_divide_distrib)
  have "\<bar>2 * (x - r / 2)\<bar> \<le> of_int (2 ^ 61)" "\<bar>- (2 * (x + r / 2))\<bar> \<le> of_int (2 ^ 61)" using xr r by (simp_all add: abs_le_iff)
  note abs_floor_le [OF this(1)] abs_floor_le [OF this(2)]
  then have f: "\<bar>\<lfloor>2 * (x - r / 2)\<rfloor>\<bar> \<le> 2 ^ 61" "\<bar>\<lceil>2 * (x + r / 2)\<rceil>\<bar> \<le> 2 ^ 61"
    by (simp_all only: ceiling_def abs_minus_cancel)
  then have a: "representable \<lfloor>2 * (x - r / 2)\<rfloor> = \<lfloor>2 * (x - r / 2)\<rfloor>" by (intro representable_id) simp
  from f(2) have b: "representable \<lceil>2 * (x + r / 2)\<rceil> = \<lceil>2 * (x + r / 2)\<rceil>" by (intro representable_id) simp
  have c: "s64 (\<lceil>2 * (x + r / 2)\<rceil> + 1) = \<lceil>2 * (x + r / 2)\<rceil> + 1"
    using f(2) by (intro s64_id) (simp add: in_s64_def abs_le_iff)
  show "av_rescale_q_rnd (s64 (2 * in_ts - 1)) in_tb fs_tb AV_ROUND_DOWN div 2 = \<lfloor>x - r / 2\<rfloor>"
    using ts a unfolding s by (subst av_rescale_q_rnd_round [OF tb]) (simp_all add: round_mode_def y floor_half_twice [of "x - r / 2", simplified])
  show "s64 (av_rescale_q_rnd (s64 (2 * in_ts + 1)) in_tb fs_tb AV_ROUND_UP + 1) div 2 = \<lceil>x + r / 2\<rceil>"
    using ts b c unfolding s by (subst av_rescale_q_rnd_round [OF tb]) (simp_all add: round_mode_def y ceiling_half_twice [of "x + r / 2", simplified])
qed

text \<open>The edges of a window of width \<open>r\<close> around \<open>x\<close>, and the whole number nearest to \<open>x\<close>.\<close>

lemma window_edges:
  fixes x r :: rat
  assumes r: "0 < r" and small: "\<bar>x\<bar> + r \<le> 2 ^ 60"
  shows "\<bar>\<lfloor>x - r / 2\<rfloor>\<bar> \<le> 2 ^ 60" "\<bar>\<lceil>x + r / 2\<rceil>\<bar> \<le> 2 ^ 60"
    "x - r / 2 - 1 < of_int \<lfloor>x - r / 2\<rfloor>" "of_int \<lfloor>x - r / 2\<rfloor> \<le> x - r / 2"
    "x + r / 2 \<le> of_int \<lceil>x + r / 2\<rceil>" "of_int \<lceil>x + r / 2\<rceil> < x + r / 2 + 1" "\<lfloor>x - r / 2\<rfloor> < \<lceil>x + r / 2\<rceil>"
    "\<bar>of_int (round_near x) - x\<bar> \<le> 1 / 2" "\<bar>round_near x\<bar> \<le> 2 ^ 60 + 1"
proof -
  have xr: "\<bar>x\<bar> \<le> 2 ^ 60" "\<bar>x - r / 2\<bar> \<le> of_int (2 ^ 60)" "\<bar>- (x + r / 2)\<bar> \<le> of_int (2 ^ 60)"
    using small r unfolding abs_le_iff of_int_numeral of_int_power by linarith+
  show "\<bar>\<lfloor>x - r / 2\<rfloor>\<bar> \<le> 2 ^ 60" "\<bar>\<lceil>x + r / 2\<rceil>\<bar> \<le> 2 ^ 60"
    using abs_floor_le [OF xr(2)] abs_floor_le [OF xr(3)] by (simp_all add: ceiling_def)
  show near: "x - r / 2 - 1 < of_int \<lfloor>x - r / 2\<rfloor>" "of_int \<lfloor>x - r / 2\<rfloor> \<le> x - r / 2"
    "x + r / 2 \<le> of_int \<lceil>x + r / 2\<rceil>" "of_int \<lceil>x + r / 2\<rceil> < x + r / 2 + 1"
    by linarith+
  have "of_int \<lfloor>x - r / 2\<rfloor> < (of_int \<lceil>x + r / 2\<rceil> :: rat)" using near r by linarith
  then show "\<lfloor>x - r / 2\<rfloor> < \<lceil>x + r / 2\<rceil>" by (simp only: of_int_less_iff)
  show n: "\<bar>of_int (round_near x) - x\<bar> \<le> 1 / 2" using round_near_bounds [of x] unfolding abs_le_iff by linarith
  then have "\<bar>of_int (round_near x)\<bar> \<le> (2 ^ 60 + 1 :: rat)" using xr(1) by linarith
  then have "of_int \<bar>round_near x\<bar> \<le> (of_int (2 ^ 60 + 1) :: rat)" by simp
  then show "\<bar>round_near x\<bar> \<le> 2 ^ 60 + 1" by (simp only: of_int_le_iff)
qed

text \<open>
  C29: \<^verbatim>\<open>av_rescale_delta\<close> keeps audio timestamps continuous without drifting. On the first call (\<^verbatim>\<open>*last\<close> is
  \<^verbatim>\<open>AV_NOPTS_VALUE\<close>), for a frame without samples, for an output time base that is not finer than the input one, and when
  the stored position has left the window around the timestamp by more than its width, the timestamp is simply rescaled
  and the position starts anew from it; otherwise the returned timestamp is the stored position, clipped to the window
  of half an input tick before and after the timestamp, and rescaled. The position it stores is always within half
  an input tick and one sample of the end of the frame as the input timestamp places it, however many calls came before; and
  while the previous position is within half a tick of the timestamp, the frame starts exactly where the previous one ended.
\<close>

theorem av_rescale_delta_no_drift:
  fixes in_tb fs_tb :: AVRational
  defines "x ts \<equiv> seconds ts in_tb / qval fs_tb" and "r \<equiv> qval in_tb / qval fs_tb"
  assumes tb: "timebase in_tb" "timebase fs_tb" "timebase out_tb" and small: "\<bar>x in_ts\<bar> + r \<le> 2 ^ 60"
    and ts: "\<bar>in_ts\<bar> \<le> 2 ^ 60" and dur: "0 \<le> dur" "dur \<le> INT_MAX" and last_ts: "INT64_MIN \<le> last_ts" "last_ts \<le> INT64_MAX"
  shows "\<exists>ts last'. av_rescale_delta in_tb in_ts fs_tb dur last_ts out_tb = Some (ts, last') \<and>
    (let a = \<lfloor>x in_ts - r / 2\<rfloor>; b = \<lceil>x in_ts + r / 2\<rceil>; this = max a (min last_ts b)
     in if last_ts = AV_NOPTS_VALUE \<or> dur = 0 \<or> qval in_tb \<le> qval out_tb \<or> last_ts < 2 * a - b \<or> 2 * b - a < last_ts
        then ts = representable (round_near (seconds in_ts in_tb / qval out_tb)) \<and> last' = round_near (x in_ts) + dur
        else ts = representable (round_near (seconds this fs_tb / qval out_tb)) \<and> last' = this + dur) \<and>
    \<bar>of_int last' - (x in_ts + of_int dur)\<bar> \<le> r / 2 + 1 \<and>
    (0 < dur \<and> qval out_tb < qval in_tb \<and> \<bar>of_int last_ts - x in_ts\<bar> \<le> r / 2 \<longrightarrow>
       last' = last_ts + dur \<and> ts = representable (round_near (seconds last_ts fs_tb / qval out_tb)))"
proof -
  define a b where "a = \<lfloor>x in_ts - r / 2\<rfloor>" and "b = \<lceil>x in_ts + r / 2\<rceil>"
  have ab: "av_rescale_q_rnd (s64 (2 * in_ts - 1)) in_tb fs_tb AV_ROUND_DOWN div 2 = a"
    "s64 (av_rescale_q_rnd (s64 (2 * in_ts + 1)) in_tb fs_tb AV_ROUND_UP + 1) div 2 = b"
    using delta_window [OF tb(1,2) _ ts] small by (simp_all add: a_def b_def x_def r_def)
  have r: "0 < r" using tb by (simp add: r_def)
  define n where "n = round_near (x in_ts)"
  note edges = window_edges [OF r small, folded a_def b_def n_def]
  note small_ab = edges(1,2) and near_a = edges(3,4) and near_b = edges(5,6) and le = edges(7) and n = edges(8) and small_n = edges(9)
  have q: "av_rescale_q in_ts in_tb fs_tb = n"
    using ts small_n unfolding av_rescale_q_def n_def x_def by (subst av_rescale_q_rnd_round [OF tb(1,2)]) (simp_all add: representable_id)
  have out: "av_rescale_q in_ts in_tb out_tb = representable (round_near (seconds in_ts in_tb / qval out_tb))"
    "\<bar>k\<bar> \<le> 2 ^ 60 \<Longrightarrow> av_rescale_q k fs_tb out_tb = representable (round_near (seconds k fs_tb / qval out_tb))" for k
    using ts unfolding av_rescale_q_def
    by (subst av_rescale_q_rnd_round [OF tb(1,3)]; simp) (subst av_rescale_q_rnd_round [OF tb(2,3)]; simp)
  have s: "s64 (k + dur) = k + dur" if "\<bar>k\<bar> \<le> 2 ^ 61" for k using that dur by (auto intro!: s64_id simp: in_s64_def)
  have s2: "s64 (2 * a - b) = 2 * a - b" "s64 (2 * b - a) = 2 * b - a" using small_ab by (auto intro!: s64_id simp: in_s64_def)
  have fine: "s64 (num in_tb * den out_tb) \<le> s64 (num out_tb * den in_tb) \<longleftrightarrow> qval in_tb \<le> qval out_tb"
    using tb unfolding timebase_cross(3) [OF tb(1,3)] timebase_cross(3) [OF tb(3,1)]
    by (simp add: timebase_def qval_def field_simps flip: of_int_mult)
  let ?simple = "last_ts = AV_NOPTS_VALUE \<or> dur = 0 \<or> qval in_tb \<le> qval out_tb \<or> last_ts < 2 * a - b \<or> 2 * b - a < last_ts"
  have nopts: "in_ts \<noteq> AV_NOPTS_VALUE" using ts by auto
  have inside: "a \<le> last_ts \<and> last_ts \<le> b" if "\<bar>of_int last_ts - x in_ts\<bar> \<le> r / 2"
  proof -
    have "of_int a \<le> (of_int last_ts :: rat)" "of_int last_ts \<le> (of_int b :: rat)"
      using that near_a near_b unfolding abs_le_iff by linarith+
    then show ?thesis by (simp_all only: of_int_le_iff)
  qed
  define t where "t = max a (min last_ts b)"
  have t: "a \<le> t" "t \<le> b" "t = av_clip64_c last_ts a b" using le by (auto simp: t_def av_clip64_c_def)
  have main: "\<exists>ts last'. av_rescale_delta in_tb in_ts fs_tb dur last_ts out_tb = Some (ts, last') \<and>
    (if ?simple then ts = representable (round_near (seconds in_ts in_tb / qval out_tb)) \<and> last' = n + dur
     else ts = representable (round_near (seconds t fs_tb / qval out_tb)) \<and> last' = t + dur)"
  proof (cases ?simple)
    case True
    then have "av_rescale_delta in_tb in_ts fs_tb dur last_ts out_tb = Some (av_rescale_q in_ts in_tb out_tb, n + dur)"
      using nopts dur s [of n] small_n unfolding av_rescale_delta_def Let_def ab q fine s2 by auto
    then show ?thesis using True out(1) by simp
  next
    case False
    have "av_rescale_delta in_tb in_ts fs_tb dur last_ts out_tb = Some (av_rescale_q t fs_tb out_tb, t + dur)"
      using False nopts dur small_ab s [of t] t unfolding av_rescale_delta_def Let_def ab q fine s2 t(3) [symmetric] by simp
    then show ?thesis using False out(2) [of t] t small_ab by simp
  qed
  have bound: "\<bar>of_int (n + dur) - (x in_ts + of_int dur)\<bar> \<le> r / 2 + 1" "\<bar>of_int (t + dur) - (x in_ts + of_int dur)\<bar> \<le> r / 2 + 1"
  proof -
    show "\<bar>of_int (n + dur) - (x in_ts + of_int dur)\<bar> \<le> r / 2 + 1" using n r unfolding abs_le_iff of_int_add by linarith
    have "of_int a \<le> (of_int t :: rat)" "of_int t \<le> (of_int b :: rat)" using t by (simp_all only: of_int_le_iff)
    then show "\<bar>of_int (t + dur) - (x in_ts + of_int dur)\<bar> \<le> r / 2 + 1" using near_a near_b by (simp add: abs_le_iff)
  qed
  have join: "\<not> ?simple \<and> t = last_ts" if "0 < dur" "qval out_tb < qval in_tb" "\<bar>of_int last_ts - x in_ts\<bar> \<le> r / 2"
    using inside [OF that(3)] that(1,2) le small_ab by (auto simp: t_def)
  show ?thesis using main bound join unfolding Let_def a_def [symmetric] b_def [symmetric] n_def [symmetric] t_def [symmetric]
    by (elim exE conjE) (intro exI conjI, assumption, auto split: if_splits)
qed

theorem av_rescale_delta_no_drift_witness:
  "\<exists>ts last'. av_rescale_delta (av_make_q 1 1000) 43 (av_make_q 1 44100) 1024 1910 (av_make_q 1 90000) = Some (ts, last') \<and>
    last' = 1910 + 1024 \<and> ts = representable (round_near (seconds 1910 (av_make_q 1 44100) / qval (av_make_q 1 90000)))"
  using av_rescale_delta_no_drift [of "av_make_q 1 1000" "av_make_q 1 44100" "av_make_q 1 90000" 43 1024 1910]
  by (auto simp: timebase_def seconds_def qval_def)

section \<open>Adding increments\<close>

text \<open>The increment \<^verbatim>\<open>av_add_stable\<close> works with: \<open>inc\<close> units of \<open>inc_tb\<close>, exactly, while the numerators stay in range.\<close>

lemma add_stable_increment:
  assumes tb: "timebase inc_tb" and inc: "0 < inc" "inc * num inc_tb \<le> INT_MAX"
  obtains q where "(if inc \<noteq> 1 then av_mul_q inc_tb (av_make_q (s32 inc) 1) else Some inc_tb) = Some q" "timebase q"
    "qval q = of_int inc * qval inc_tb"
proof (cases "inc = 1")
  case True
  then show thesis using that tb by simp
next
  case False
  define n d where "n = num inc_tb * inc" and "d = den inc_tb"
  have nd: "0 < n" "n \<le> INT_MAX" "0 < d" "d \<le> INT_MAX" using tb inc by (simp_all add: n_def d_def timebase_def mult.commute)
  have "inc * 1 \<le> inc * num inc_tb" using tb inc by (intro mult_left_mono) (simp_all add: timebase_def)
  then have "inc \<le> INT_MAX" using inc by linarith
  then have "s32 inc = inc" using inc by (intro s32_id) (simp add: in_s32_def)
  moreover have "s64 n = n" "s64 d = d" using nd by (auto intro!: s64_id simp: in_s64_def)
  ultimately have m: "av_mul_q inc_tb (av_make_q (s32 inc) 1) = map_option (\<lambda>(n, d, _). av_make_q n d) (av_reduce n d INT_MAX)"
    by (simp add: av_mul_q_def n_def d_def)
  define N D where "N = n div gcd n d" and "D = d div gcd n d"
  have g: "0 < gcd n d" using nd by simp
  have ND: "N * gcd n d = n" "D * gcd n d = d" unfolding N_def D_def by (simp_all add: dvd_div_mult_self)
  have le: "y div gcd n d \<le> y" if "0 \<le> y" for y using zdiv_mono2 [OF that zero_less_one, of "gcd n d"] g by simp
  have pos: "0 < N" "0 < D" using ND nd g by (metis zero_less_mult_pos2)+
  have mx: "N \<le> INT_MAX" "D \<le> INT_MAX" using le [of n] le [of d] nd by (simp_all add: N_def D_def)
  obtain r where r: "av_reduce n d INT_MAX = Some (if (n < 0) \<noteq> (d < 0) then - num r else num r, den r, N \<le> INT_MAX \<and> D \<le> INT_MAX)"
    "N \<le> INT_MAX \<and> D \<le> INT_MAX \<Longrightarrow> r = av_make_q N D"
    by (rule av_reduce_cases [of n d INT_MAX]) (use nd in \<open>simp_all add: N_def D_def\<close>)
  have "qval (av_make_q N D) = of_int (N * gcd n d) / of_int (D * gcd n d)" using g by (simp add: qval_def)
  also have "\<dots> = of_int n / of_int d" by (simp only: ND)
  finally have "qval (av_make_q N D) = of_int inc * qval inc_tb" by (simp add: n_def d_def qval_def)
  moreover have "av_mul_q inc_tb (av_make_q (s32 inc) 1) = Some (av_make_q N D)" using m r mx nd by simp
  ultimately show thesis using that [of "av_make_q N D"] False pos mx by (simp add: timebase_def)
qed

text \<open>One addition, in terms of the exact step in units of the timestamp.\<close>

lemma add_stable_unroll:
  fixes ts_tb inc_tb :: AVRational
  assumes tb: "timebase ts_tb" "timebase q" and q: "(if inc \<noteq> 1 then av_mul_q inc_tb (av_make_q (s32 inc) 1) else Some inc_tb) = Some q"
  defines "m \<equiv> num q * den ts_tb" and "d \<equiv> den q * num ts_tb"
  shows "av_add_stable ts_tb ts inc_tb inc =
      (if d dvd m \<and> ts \<le> INT64_MAX - m div d then Some (s64 (ts + m div d))
       else if m < d then Some ts
       else let old = av_rescale_q ts ts_tb q; old_ts = av_rescale_q old q ts_tb
         in if old = INT64_MAX \<or> old = AV_NOPTS_VALUE \<or> old_ts = AV_NOPTS_VALUE then Some ts
            else Some (av_sat_add64_c (av_rescale_q (s64 (old + 1)) q ts_tb) (s64 (ts - old_ts))))"
    "0 < m" "0 < d" "m \<le> INT64_MAX" "d \<le> INT64_MAX" "qval q / qval ts_tb = of_int m / of_int d"
proof -
  show md: "0 < m" "0 < d" "m \<le> INT64_MAX" "d \<le> INT64_MAX"
    using timebase_cross [OF tb(2,1)] timebase_cross [OF tb] by (simp_all add: m_def d_def mult.commute)
  have s: "s64 m = m" "s64 d = d" using md by (auto intro!: s64_id simp: in_s64_def)
  have "0 \<le> m div d" "m div d \<le> m" using md zdiv_mono2 [of m 1 d] by (simp_all add: pos_imp_zdiv_nonneg_iff)
  then have "s64 (INT64_MAX - m div d) = INT64_MAX - m div d" using md by (intro s64_id) (simp add: in_s64_def)
  then show "av_add_stable ts_tb ts inc_tb inc =
      (if d dvd m \<and> ts \<le> INT64_MAX - m div d then Some (s64 (ts + m div d))
       else if m < d then Some ts
       else let old = av_rescale_q ts ts_tb q; old_ts = av_rescale_q old q ts_tb
         in if old = INT64_MAX \<or> old = AV_NOPTS_VALUE \<or> old_ts = AV_NOPTS_VALUE then Some ts
            else Some (av_sat_add64_c (av_rescale_q (s64 (old + 1)) q ts_tb) (s64 (ts - old_ts))))"
    unfolding av_add_stable_def q option.case m_def [symmetric] d_def [symmetric] Let_def s
    using md by (simp add: dvd_eq_mod_eq_0)
  show "qval q / qval ts_tb = of_int m / of_int d" by (simp add: m_def d_def qval_def)
qed

lemma round_near_bound: "\<bar>x\<bar> + 1 / 2 \<le> of_int k \<Longrightarrow> \<bar>round_near x\<bar> \<le> k"
proof -
  assume "\<bar>x\<bar> + 1 / 2 \<le> of_int k"
  then have "of_int (round_near x) \<le> (of_int k :: rat)" "of_int (- k) \<le> (of_int (round_near x) :: rat)"
    using round_near_bounds [of x] unfolding of_int_minus by linarith+
  then show ?thesis by (simp only: of_int_le_iff abs_le_iff) simp
qed

lemma add_stable_step:
  fixes ts_tb inc_tb :: AVRational
  assumes tb: "timebase ts_tb" "timebase q" and q: "(if inc \<noteq> 1 then av_mul_q inc_tb (av_make_q (s32 inc) 1) else Some inc_tb) = Some q"
  defines "r \<equiv> qval q / qval ts_tb"
  defines "tick j \<equiv> round_near (of_int j * r)"
  assumes r: "1 \<le> r" and off: "r \<in> \<int> \<or> 2 * of_int \<bar>off\<bar> + 1 < r"
    and range: "of_int \<bar>n\<bar> * r + r + of_int \<bar>off\<bar> + 1 \<le> of_int INT64_MAX"
  shows "av_add_stable ts_tb (tick n + off) inc_tb inc = Some (tick (n + 1) + off)"
proof -
  define m d where "m = num q * den ts_tb" and "d = den q * num ts_tb"
  note u = add_stable_unroll [OF tb q, folded m_def d_def]
  have rr: "r = of_int m / of_int d" using u(6) by (simp add: r_def)
  have nr: "\<bar>of_int n * r\<bar> = of_int \<bar>n\<bar> * r" "\<bar>of_int (n + 1) * r\<bar> \<le> of_int \<bar>n\<bar> * r + r"
    using r by (simp_all add: abs_mult algebra_simps) (metis abs_ge_self abs_mult abs_of_pos abs_triangle_ineq add_left_mono less_le_trans zero_less_one)
  have o: "0 \<le> (of_int \<bar>off\<bar> :: rat)" by simp
  have t: "\<bar>tick n\<bar> \<le> INT64_MAX - \<bar>off\<bar>" "\<bar>tick (n + 1)\<bar> \<le> INT64_MAX - \<bar>off\<bar>"
    using range r nr o unfolding tick_def by (intro round_near_bound; simp)+
  have tr: "INT64_MIN < tick n + off" "tick n + off \<le> INT64_MAX"
    using t(1) abs_ge_self [of off] abs_ge_minus_self [of off] unfolding abs_le_iff by linarith+
  have "of_int \<bar>n\<bar> * 1 \<le> of_int \<bar>n\<bar> * r" using r by (intro mult_left_mono) simp_all
  then have "of_int (\<bar>n\<bar> + 2) \<le> (of_int INT64_MAX :: rat)" using range r o by simp
  then have n: "\<bar>n\<bar> + 2 \<le> INT64_MAX" by (simp only: of_int_le_iff)
  show ?thesis
  proof (cases "d dvd m")
    case True
    then have k: "r = of_int (m div d)" using u(3) by (simp add: rr of_int_div)
    then have tk: "tick j = j * (m div d)" for j using round_near_of_int [of "j * (m div d)"] by (simp add: tick_def)
    have e: "tick n + off + m div d = tick (n + 1) + off" by (simp add: tk algebra_simps)
    moreover have "tick (n + 1) + off \<le> INT64_MAX" "INT64_MIN \<le> tick (n + 1) + off" using t(2) unfolding abs_le_iff by linarith+
    ultimately show ?thesis using True by (simp add: u(1) s64_id in_s64_def)
  next
    case False
    then have "d \<noteq> m" by auto
    have "(of_int d :: rat) \<le> of_int m" using r u(2,3) by (simp add: rr)
    then have "d \<le> m" by (simp only: of_int_le_iff)
    with \<open>d \<noteq> m\<close> have lt: "d < m" by simp
    have "r \<notin> \<int>"
    proof
      assume "r \<in> \<int>"
      then obtain k where "r = of_int k" by (auto elim: Ints_cases)
      then have "of_int m = (of_int (k * d) :: rat)" using u(3) by (simp add: rr field_simps)
      then have "m = k * d" by (simp only: of_int_eq_iff)
      then show False using False by simp
    qed
    then have off: "2 * of_int \<bar>off\<bar> + 1 < r" using off by simp
    have old: "av_rescale_q (tick n + off) ts_tb q = n"
    proof -
      have e: "seconds (tick n + off) ts_tb / qval q = of_int (tick n + off) / r" by (simp add: seconds_def r_def)
      have "\<bar>of_int (tick n) - of_int n * r\<bar> \<le> 1 / 2"
        using round_near_bounds [of "of_int n * r"] unfolding tick_def abs_le_iff by linarith
      then have "\<bar>of_int (tick n + off) - of_int n * r\<bar> < r / 2" using off by (simp add: abs_if split: if_splits)
      then have "\<bar>of_int (tick n + off) - of_int n * r\<bar> / r < 1 / 2" using r by (simp add: divide_less_eq)
      moreover have "of_int (tick n + off) / r - of_int n = (of_int (tick n + off) - of_int n * r) / r" using r by (simp add: diff_divide_distrib)
      ultimately have "\<bar>of_int (tick n + off) / r - of_int n\<bar> < 1 / 2" using r by (simp add: abs_divide)
      then have "round_near (seconds (tick n + off) ts_tb / qval q) = n" unfolding e by (rule round_near_unique)
      then show ?thesis unfolding av_rescale_q_def using tb tr n by (subst av_rescale_q_rnd_round) (simp_all add: representable_id abs_le_iff)
    qed
    have new: "av_rescale_q j q ts_tb = tick j" if "\<bar>j\<bar> \<le> INT64_MAX" "\<bar>tick j\<bar> \<le> INT64_MAX" for j
    proof -
      have "seconds j q / qval ts_tb = of_int j * r" by (simp add: seconds_def r_def)
      then show ?thesis unfolding av_rescale_q_def using tb that
        by (subst av_rescale_q_rnd_round) (simp_all add: tick_def representable_id abs_le_iff)
    qed
    have old_ts: "av_rescale_q n q ts_tb = tick n" "av_rescale_q (n + 1) q ts_tb = tick (n + 1)" using t n by (intro new; simp)+
    have s: "s64 (n + 1) = n + 1" "s64 off = off" using n t by (auto intro!: s64_id simp: in_s64_def abs_le_iff)
    have "av_sat_add64_c (tick (n + 1)) off = tick (n + 1) + off"
      using t by (subst av_sat_add64_c_clip) (auto simp: in_s64_def clip_simps abs_le_iff)
    moreover have "tick n \<noteq> AV_NOPTS_VALUE" using t(1) abs_ge_zero [of off] by auto
    ultimately show ?thesis
      using False lt n t unfolding u(1) by (simp add: Let_def old old_ts s abs_le_iff)
  qed
qed

text \<open>
  C30: adding \<open>inc\<close> units of the time base \<open>inc_tb\<close> again and again with \<^verbatim>\<open>av_add_stable\<close> does not accumulate rounding
  errors, for every positive \<open>inc\<close> whose product with the numerator fits an \<^verbatim>\<open>int\<close>. Let \<open>step\<close> be the exact
  increment in timestamp units. If it is at least one unit, then from the rounded position of the n-th
  tick plus any offset (any at all if the step is a whole number, otherwise up to about half a step), k additions lead to the rounded
  position of tick n + k plus the same offset. If the step is less than one unit, the timestamp never moves: each
  single addition returns it unchanged.
\<close>

theorem av_add_stable_no_drift:
  fixes ts_tb inc_tb :: AVRational and inc :: int
  defines "step \<equiv> of_int inc * qval inc_tb / qval ts_tb"
  defines "tick j \<equiv> round_near (of_int j * step)"
  assumes tb: "timebase ts_tb" "timebase inc_tb" and inc: "0 < inc" "inc * num inc_tb \<le> INT_MAX"
  shows "(1 \<le> step \<and> (step \<in> \<int> \<or> 2 * of_int \<bar>off\<bar> + 1 < step) \<and> (of_int \<bar>n\<bar> + of_nat k) * step + of_int \<bar>off\<bar> + 1 \<le> of_int INT64_MAX \<longrightarrow>
      ((\<lambda>res. Option.bind res (\<lambda>ts. av_add_stable ts_tb ts inc_tb inc)) ^^ k) (Some (tick n + off)) = Some (tick (n + int k) + off)) \<and>
    (step < 1 \<longrightarrow> av_add_stable ts_tb ts inc_tb inc = Some ts)"
proof -
  obtain q where q: "(if inc \<noteq> 1 then av_mul_q inc_tb (av_make_q (s32 inc) 1) else Some inc_tb) = Some q" "timebase q"
    "qval q = of_int inc * qval inc_tb" by (rule add_stable_increment [OF tb(2) inc])
  have step: "step = qval q / qval ts_tb" by (simp add: step_def q(3))
  have "((\<lambda>res. Option.bind res (\<lambda>ts. av_add_stable ts_tb ts inc_tb inc)) ^^ k) (Some (tick n + off)) = Some (tick (n + int k) + off)"
    if "1 \<le> step" "step \<in> \<int> \<or> 2 * of_int \<bar>off\<bar> + 1 < step" "(of_int \<bar>n\<bar> + of_nat k) * step + of_int \<bar>off\<bar> + 1 \<le> of_int INT64_MAX"
    using that(3)
  proof (induction k)
    case (Suc k)
    have "(of_int \<bar>n\<bar> + of_nat k) * step \<le> (of_int \<bar>n\<bar> + of_nat (Suc k)) * step" using that(1) by (intro mult_right_mono) simp_all
    then have ih: "((\<lambda>res. Option.bind res (\<lambda>ts. av_add_stable ts_tb ts inc_tb inc)) ^^ k) (Some (tick n + off)) = Some (tick (n + int k) + off)"
      using Suc by simp
    have "of_int \<bar>n + int k\<bar> \<le> (of_int (\<bar>n\<bar> + int k) :: rat)" by (simp only: of_int_le_iff)
    then have "of_int \<bar>n + int k\<bar> * step \<le> (of_int \<bar>n\<bar> + of_nat k) * step" using that(1) by (intro mult_right_mono) simp_all
    then have "of_int \<bar>n + int k\<bar> * step + step + of_int \<bar>off\<bar> + 1 \<le> of_int INT64_MAX" using Suc.prems by (simp add: algebra_simps)
    then have "av_add_stable ts_tb (tick (n + int k) + off) inc_tb inc = Some (tick (n + int k + 1) + off)"
      using add_stable_step [OF tb(1) q(2,1), of off "n + int k"] that(1,2) unfolding tick_def step by simp
    then show ?case using ih by (simp add: algebra_simps)
  qed simp
  moreover have "av_add_stable ts_tb ts inc_tb inc = Some ts" if "step < 1"
  proof -
    note u = add_stable_unroll [OF tb(1) q(2,1)]
    have "(of_int (num q * den ts_tb) :: rat) < of_int (den q * num ts_tb)"
    proof -
      have "0 < (of_int (den q * num ts_tb) :: rat)" using u(3) by (simp only: of_int_0_less_iff)
      then show ?thesis using that unfolding step u(6) by (simp only: divide_less_eq_1_pos)
    qed
    then have lt: "num q * den ts_tb < den q * num ts_tb" by (simp only: of_int_less_iff)
    then have "\<not> den q * num ts_tb dvd num q * den ts_tb" using u(2) zdvd_not_zless by blast
    then show ?thesis using lt by (simp add: u(1))
  qed
  ultimately show ?thesis by blast
qed

theorem av_add_stable_no_drift_witness:
  "((\<lambda>res. Option.bind res (\<lambda>ts. av_add_stable (av_make_q 1 1000) ts (av_make_q 1001 30000) 2)) ^^ 9)
      (Some (round_near (of_int 100 * (of_int 2 * qval (av_make_q 1001 30000) / qval (av_make_q 1 1000))) + 7)) =
    Some (round_near (of_int (100 + int 9) * (of_int 2 * qval (av_make_q 1001 30000) / qval (av_make_q 1 1000))) + 7)"
  using av_add_stable_no_drift [of "av_make_q 1 1000" "av_make_q 1001 30000" 2 7 100 9 0]
  by (simp add: timebase_def qval_def)

end
