(* ===== verification/AV_SampleFmt.thy ===== *)
theory AV_SampleFmt
  imports AV_Prelude
begin

text \<open>
  \<^verbatim>\<open>libavutil/samplefmt.c\<close>: the table of audio sample formats, the layout of sample buffers and the copying of
  samples. A format is its \<^verbatim>\<open>enum AVSampleFormat\<close> value; pointers are addresses of a byte memory; a call the C
  standard leaves undefined (a negative size, \<^verbatim>\<open>memcpy\<close> on overlapping regions) is \<open>None\<close>.
\<close>

unbundle bit_operations_syntax

section \<open>Formats\<close>

abbreviation (input) AV_SAMPLE_FMT_NONE :: int where "AV_SAMPLE_FMT_NONE \<equiv> - 1"
abbreviation (input) AV_SAMPLE_FMT_U8 :: int where "AV_SAMPLE_FMT_U8 \<equiv> 0"
abbreviation (input) AV_SAMPLE_FMT_S16 :: int where "AV_SAMPLE_FMT_S16 \<equiv> 1"
abbreviation (input) AV_SAMPLE_FMT_S32 :: int where "AV_SAMPLE_FMT_S32 \<equiv> 2"
abbreviation (input) AV_SAMPLE_FMT_FLT :: int where "AV_SAMPLE_FMT_FLT \<equiv> 3"
abbreviation (input) AV_SAMPLE_FMT_DBL :: int where "AV_SAMPLE_FMT_DBL \<equiv> 4"
abbreviation (input) AV_SAMPLE_FMT_U8P :: int where "AV_SAMPLE_FMT_U8P \<equiv> 5"
abbreviation (input) AV_SAMPLE_FMT_S16P :: int where "AV_SAMPLE_FMT_S16P \<equiv> 6"
abbreviation (input) AV_SAMPLE_FMT_S32P :: int where "AV_SAMPLE_FMT_S32P \<equiv> 7"
abbreviation (input) AV_SAMPLE_FMT_FLTP :: int where "AV_SAMPLE_FMT_FLTP \<equiv> 8"
abbreviation (input) AV_SAMPLE_FMT_DBLP :: int where "AV_SAMPLE_FMT_DBLP \<equiv> 9"
abbreviation (input) AV_SAMPLE_FMT_S64 :: int where "AV_SAMPLE_FMT_S64 \<equiv> 10"
abbreviation (input) AV_SAMPLE_FMT_S64P :: int where "AV_SAMPLE_FMT_S64P \<equiv> 11"
abbreviation (input) AV_SAMPLE_FMT_NB :: int where "AV_SAMPLE_FMT_NB \<equiv> 12"

record SampleFmtInfo =
  fmt_name :: string
  bits :: int
  planar :: int
  altform :: int

text \<open>The rows in the order of the enumeration.\<close>

definition sample_fmt_info :: "SampleFmtInfo list" where
  "sample_fmt_info =
    [\<lparr>fmt_name = ''u8'', bits = 8, planar = 0, altform = AV_SAMPLE_FMT_U8P\<rparr>,
     \<lparr>fmt_name = ''s16'', bits = 16, planar = 0, altform = AV_SAMPLE_FMT_S16P\<rparr>,
     \<lparr>fmt_name = ''s32'', bits = 32, planar = 0, altform = AV_SAMPLE_FMT_S32P\<rparr>,
     \<lparr>fmt_name = ''flt'', bits = 32, planar = 0, altform = AV_SAMPLE_FMT_FLTP\<rparr>,
     \<lparr>fmt_name = ''dbl'', bits = 64, planar = 0, altform = AV_SAMPLE_FMT_DBLP\<rparr>,
     \<lparr>fmt_name = ''u8p'', bits = 8, planar = 1, altform = AV_SAMPLE_FMT_U8\<rparr>,
     \<lparr>fmt_name = ''s16p'', bits = 16, planar = 1, altform = AV_SAMPLE_FMT_S16\<rparr>,
     \<lparr>fmt_name = ''s32p'', bits = 32, planar = 1, altform = AV_SAMPLE_FMT_S32\<rparr>,
     \<lparr>fmt_name = ''fltp'', bits = 32, planar = 1, altform = AV_SAMPLE_FMT_FLT\<rparr>,
     \<lparr>fmt_name = ''dblp'', bits = 64, planar = 1, altform = AV_SAMPLE_FMT_DBL\<rparr>,
     \<lparr>fmt_name = ''s64'', bits = 64, planar = 0, altform = AV_SAMPLE_FMT_S64P\<rparr>,
     \<lparr>fmt_name = ''s64p'', bits = 64, planar = 1, altform = AV_SAMPLE_FMT_S64\<rparr>]"

definition av_get_sample_fmt_name :: "int \<Rightarrow> string option" where
  "av_get_sample_fmt_name sample_fmt =
     (if sample_fmt < 0 \<or> sample_fmt \<ge> AV_SAMPLE_FMT_NB then None else Some (fmt_name (sample_fmt_info ! nat sample_fmt)))"

fun av_get_sample_fmt_loop :: "string \<Rightarrow> int \<Rightarrow> SampleFmtInfo list \<Rightarrow> int" where
  "av_get_sample_fmt_loop name i [] = AV_SAMPLE_FMT_NONE"
| "av_get_sample_fmt_loop name i (x # xs) = (if fmt_name x = name then i else av_get_sample_fmt_loop name (i + 1) xs)"

definition av_get_sample_fmt :: "string \<Rightarrow> int" where
  "av_get_sample_fmt name = av_get_sample_fmt_loop name 0 sample_fmt_info"

definition av_get_alt_sample_fmt :: "int \<Rightarrow> int \<Rightarrow> int" where
  "av_get_alt_sample_fmt sample_fmt pl =
     (if sample_fmt < 0 \<or> sample_fmt \<ge> AV_SAMPLE_FMT_NB then AV_SAMPLE_FMT_NONE
      else if planar (sample_fmt_info ! nat sample_fmt) = pl then sample_fmt
      else altform (sample_fmt_info ! nat sample_fmt))"

definition av_get_packed_sample_fmt :: "int \<Rightarrow> int" where
  "av_get_packed_sample_fmt sample_fmt =
     (if sample_fmt < 0 \<or> sample_fmt \<ge> AV_SAMPLE_FMT_NB then AV_SAMPLE_FMT_NONE
      else if planar (sample_fmt_info ! nat sample_fmt) \<noteq> 0 then altform (sample_fmt_info ! nat sample_fmt)
      else sample_fmt)"

definition av_get_planar_sample_fmt :: "int \<Rightarrow> int" where
  "av_get_planar_sample_fmt sample_fmt =
     (if sample_fmt < 0 \<or> sample_fmt \<ge> AV_SAMPLE_FMT_NB then AV_SAMPLE_FMT_NONE
      else if planar (sample_fmt_info ! nat sample_fmt) \<noteq> 0 then sample_fmt
      else altform (sample_fmt_info ! nat sample_fmt))"

text \<open>\<^verbatim>\<open>snprintf\<close> stores at most \<^verbatim>\<open>buf_size\<close> bytes, the last of them the terminating zero; \<open>buf\<close> is the string before the call.\<close>

definition snprintf :: "string \<Rightarrow> nat \<Rightarrow> string \<Rightarrow> string" where
  "snprintf buf buf_size text = (if buf_size = 0 then buf else take (buf_size - 1) text)"

definition pad_right :: "nat \<Rightarrow> string \<Rightarrow> string" where
  "pad_right n s = s @ replicate (n - length s) (CHR '' '')"

definition decimal2 :: "int \<Rightarrow> string" where
  "decimal2 n = (if n < 10 then [CHR '' ''] else [char_of (48 + nat n div 10)]) @ [char_of (48 + nat n mod 10)]"

definition av_get_sample_fmt_string :: "string \<Rightarrow> nat \<Rightarrow> int \<Rightarrow> string" where
  "av_get_sample_fmt_string buf buf_size sample_fmt =
     (if sample_fmt < 0 then snprintf buf buf_size ''name   depth''
      else if sample_fmt < AV_SAMPLE_FMT_NB then
        let info = sample_fmt_info ! nat sample_fmt
        in snprintf buf buf_size (pad_right 6 (fmt_name info) @ ''   '' @ decimal2 (bits info) @ '' '')
      else buf)"

definition av_get_bytes_per_sample :: "int \<Rightarrow> int" where
  "av_get_bytes_per_sample sample_fmt =
     (if sample_fmt < 0 \<or> sample_fmt \<ge> AV_SAMPLE_FMT_NB then 0 else drop_bit 3 (bits (sample_fmt_info ! nat sample_fmt)))"

definition av_sample_fmt_is_planar :: "int \<Rightarrow> int" where
  "av_sample_fmt_is_planar sample_fmt =
     (if sample_fmt < 0 \<or> sample_fmt \<ge> AV_SAMPLE_FMT_NB then 0 else planar (sample_fmt_info ! nat sample_fmt))"

section \<open>Sample buffers\<close>

definition FFALIGN :: "int \<Rightarrow> int \<Rightarrow> int" where
  "FFALIGN x a = s32 (x + a - 1) AND NOT (a - 1)"

text \<open>The result is the return value and, where the code stores one, \<^verbatim>\<open>*linesize\<close>.\<close>

definition av_samples_get_buffer_size :: "int \<Rightarrow> int \<Rightarrow> int \<Rightarrow> int \<Rightarrow> int \<times> int option" where
  "av_samples_get_buffer_size nb_channels nb_samples sample_fmt align =
     (let sample_size = av_get_bytes_per_sample sample_fmt;
          pl = av_sample_fmt_is_planar sample_fmt
      in if sample_size = 0 \<or> nb_samples \<le> 0 \<or> nb_channels \<le> 0 then (AVERROR EINVAL, None)
         else if align = 0 \<and> nb_samples > INT_MAX - 31 then (AVERROR EINVAL, None)
         else
           let (align, nb_samples) = (if align = 0 then (1, FFALIGN nb_samples 32) else (align, nb_samples))
           in if nb_channels > c_div INT_MAX align \<or>
                 s64 (nb_channels * nb_samples) > c_div (s32 (INT_MAX - s32 (align * nb_channels))) sample_size
              then (AVERROR EINVAL, None)
              else
                let line_size = (if pl \<noteq> 0 then FFALIGN (s32 (nb_samples * sample_size)) align
                                 else FFALIGN (s32 (s32 (nb_samples * sample_size) * nb_channels)) align)
                in (if pl \<noteq> 0 then s32 (line_size * nb_channels) else line_size, Some line_size))"

text \<open>The pointers \<^verbatim>\<open>audio_data[ch]\<close> after the first, each a line after its predecessor.\<close>

fun fill_arrays_loop :: "int \<Rightarrow> int \<Rightarrow> nat \<Rightarrow> int list" where
  "fill_arrays_loop line_size p 0 = []"
| "fill_arrays_loop line_size p (Suc n) = (p + line_size) # fill_arrays_loop line_size (p + line_size) n"

text \<open>
  A null pointer is \<open>None\<close>. The result is the return value, \<^verbatim>\<open>*linesize\<close> and the entries of \<^verbatim>\<open>audio_data\<close> the call
  writes; the caller's array must have room for them.
\<close>

definition av_samples_fill_arrays :: "int option \<Rightarrow> int \<Rightarrow> int \<Rightarrow> int \<Rightarrow> int \<Rightarrow> int \<times> int option \<times> int option list" where
  "av_samples_fill_arrays buf nb_channels nb_samples sample_fmt align =
     (let pl = av_sample_fmt_is_planar sample_fmt
      in case av_samples_get_buffer_size nb_channels nb_samples sample_fmt align of
           (buf_size, Some line_size) \<Rightarrow>
             let zeroed = replicate (if pl \<noteq> 0 then nat nb_channels else 1) None
             in (buf_size, Some line_size,
                 case buf of None \<Rightarrow> zeroed
                 | Some b \<Rightarrow> map Some (b # (if pl \<noteq> 0 then fill_arrays_loop line_size b (nat nb_channels - 1) else [])))
         | (err, None) \<Rightarrow> (err, None, []))"

section \<open>Copying samples\<close>

type_synonym memory = "int \<Rightarrow> u8"

definition memcpy :: "memory \<Rightarrow> int \<Rightarrow> int \<Rightarrow> int \<Rightarrow> memory option" where
  "memcpy m dst src n =
     (if n < 0 \<or> 0 < n \<and> \<bar>dst - src\<bar> < n then None
      else Some (\<lambda>a. if dst \<le> a \<and> a < dst + n then m (src + (a - dst)) else m a))"

definition memmove :: "memory \<Rightarrow> int \<Rightarrow> int \<Rightarrow> int \<Rightarrow> memory option" where
  "memmove m dst src n =
     (if n < 0 then None else Some (\<lambda>a. if dst \<le> a \<and> a < dst + n then m (src + (a - dst)) else m a))"

definition memset :: "memory \<Rightarrow> int \<Rightarrow> u8 \<Rightarrow> int \<Rightarrow> memory option" where
  "memset m dst c n = (if n < 0 then None else Some (\<lambda>a. if dst \<le> a \<and> a < dst + n then c else m a))"

fun copy_planes :: "(memory \<Rightarrow> int \<Rightarrow> int \<Rightarrow> int \<Rightarrow> memory option) \<Rightarrow> int list \<Rightarrow> int list \<Rightarrow> int \<Rightarrow> int \<Rightarrow> int \<Rightarrow> nat \<Rightarrow> memory \<Rightarrow> memory option" where
  "copy_planes cpy dst src dst_offset src_offset data_size 0 m = Some m"
| "copy_planes cpy (d # dst) (s # src) dst_offset src_offset data_size (Suc planes) m =
     (case cpy m (d + dst_offset) (s + src_offset) data_size of
        None \<Rightarrow> None
      | Some m \<Rightarrow> copy_planes cpy dst src dst_offset src_offset data_size planes m)"
| "copy_planes cpy _ _ dst_offset src_offset data_size (Suc planes) m = None"

definition av_samples_copy :: "memory \<Rightarrow> int list \<Rightarrow> int list \<Rightarrow> int \<Rightarrow> int \<Rightarrow> int \<Rightarrow> int \<Rightarrow> int \<Rightarrow> (int \<times> memory) option" where
  "av_samples_copy m dst src dst_offset src_offset nb_samples nb_channels sample_fmt =
     (let pl = av_sample_fmt_is_planar sample_fmt;
          planes = (if pl \<noteq> 0 then nb_channels else 1);
          block_align = s32 (av_get_bytes_per_sample sample_fmt * (if pl \<noteq> 0 then 1 else nb_channels));
          data_size = s32 (nb_samples * block_align);
          dst_offset = s32 (dst_offset * block_align);
          src_offset = s32 (src_offset * block_align)
      in case (dst, src) of
           (d # _, s # _) \<Rightarrow>
             map_option (Pair 0)
               (if (if d < s then s - d else d - s) \<ge> data_size
                then copy_planes memcpy dst src dst_offset src_offset data_size (nat planes) m
                else copy_planes memmove dst src dst_offset src_offset data_size (nat planes) m)
         | _ \<Rightarrow> None)"

fun silence_planes :: "u8 \<Rightarrow> int list \<Rightarrow> int \<Rightarrow> int \<Rightarrow> nat \<Rightarrow> memory \<Rightarrow> memory option" where
  "silence_planes c dst offset data_size 0 m = Some m"
| "silence_planes c (d # dst) offset data_size (Suc planes) m =
     (case memset m (d + offset) c data_size of None \<Rightarrow> None | Some m \<Rightarrow> silence_planes c dst offset data_size planes m)"
| "silence_planes c [] offset data_size (Suc planes) m = None"

definition av_samples_set_silence :: "memory \<Rightarrow> int list \<Rightarrow> int \<Rightarrow> int \<Rightarrow> int \<Rightarrow> int \<Rightarrow> (int \<times> memory) option" where
  "av_samples_set_silence m audio_data offset nb_samples nb_channels sample_fmt =
     (let pl = av_sample_fmt_is_planar sample_fmt;
          planes = (if pl \<noteq> 0 then nb_channels else 1);
          block_align = s32 (av_get_bytes_per_sample sample_fmt * (if pl \<noteq> 0 then 1 else nb_channels));
          data_size = s32 (nb_samples * block_align);
          fill_char = (if sample_fmt = AV_SAMPLE_FMT_U8 \<or> sample_fmt = AV_SAMPLE_FMT_U8P then 0x80 else 0);
          offset = s32 (offset * block_align)
      in map_option (Pair 0) (silence_planes fill_char audio_data offset data_size (nat planes) m))"

text \<open>\<open>malloc\<close> is what \<^verbatim>\<open>av_malloc\<close> answers for a size; the pointers are those \<^verbatim>\<open>av_samples_fill_arrays\<close> computes.\<close>

definition av_samples_alloc :: "(int \<Rightarrow> int option) \<Rightarrow> memory \<Rightarrow> int \<Rightarrow> int \<Rightarrow> int \<Rightarrow> int \<Rightarrow> (int \<times> int option \<times> int option list \<times> memory) option" where
  "av_samples_alloc malloc m nb_channels nb_samples sample_fmt align =
     (let sz = fst (av_samples_get_buffer_size nb_channels nb_samples sample_fmt align)
      in if sz < 0 then Some (sz, None, [], m)
         else
           case malloc sz of
             None \<Rightarrow> Some (AVERROR ENOMEM, None, [], m)
           | Some buf \<Rightarrow>
               (case av_samples_fill_arrays (Some buf) nb_channels nb_samples sample_fmt align of
                  (sz, linesize, audio_data) \<Rightarrow>
                    if sz < 0 then Some (sz, linesize, audio_data, m)
                    else map_option (\<lambda>(_, m). (sz, linesize, audio_data, m))
                           (av_samples_set_silence m (map the audio_data) 0 nb_samples nb_channels sample_fmt)))"

definition av_samples_alloc_array_and_samples ::
  "(nat \<Rightarrow> bool) \<Rightarrow> (int \<Rightarrow> int option) \<Rightarrow> memory \<Rightarrow> int \<Rightarrow> int \<Rightarrow> int \<Rightarrow> int \<Rightarrow> (int \<times> int option \<times> int option list option \<times> memory) option" where
  "av_samples_alloc_array_and_samples calloc malloc m nb_channels nb_samples sample_fmt align =
     (let nb_planes = (if av_sample_fmt_is_planar sample_fmt \<noteq> 0 then nb_channels else 1)
      in if nb_planes < 0 \<or> \<not> calloc (nat nb_planes) then Some (AVERROR ENOMEM, None, None, m)
         else
           map_option (\<lambda>(ret, linesize, audio_data, m). (ret, linesize, if ret < 0 then None else Some audio_data, m))
             (av_samples_alloc malloc m nb_channels nb_samples sample_fmt align))"

section \<open>Names and conversions\<close>

lemma format_cases:
  assumes "0 \<le> f" "f < AV_SAMPLE_FMT_NB"
  obtains "f = 0" | "f = 1" | "f = 2" | "f = 3" | "f = 4" | "f = 5" | "f = 6" | "f = 7" | "f = 8" | "f = 9" | "f = 10" | "f = 11"
proof -
  have "f = 0 \<or> f = 1 \<or> f = 2 \<or> f = 3 \<or> f = 4 \<or> f = 5 \<or> f = 6 \<or> f = 7 \<or> f = 8 \<or> f = 9 \<or> f = 10 \<or> f = 11" using assms by presburger
  then show thesis using that by (elim disjE) blast+
qed

lemma av_get_sample_fmt_loop_spec:
  "av_get_sample_fmt_loop name i xs \<noteq> - 1 \<Longrightarrow> 0 \<le> i \<Longrightarrow>
   i \<le> av_get_sample_fmt_loop name i xs \<and> av_get_sample_fmt_loop name i xs < i + int (length xs) \<and>
   fmt_name (xs ! nat (av_get_sample_fmt_loop name i xs - i)) = name"
proof (induction name i xs rule: av_get_sample_fmt_loop.induct)
  case (2 name i x xs)
  show ?case
  proof (cases "fmt_name x = name")
    case False
    then have "i + 1 \<le> av_get_sample_fmt_loop name (i + 1) xs" and rest: "av_get_sample_fmt_loop name (i + 1) xs < i + 1 + int (length xs)"
      "fmt_name (xs ! nat (av_get_sample_fmt_loop name (i + 1) xs - (i + 1))) = name"
      using 2 by auto
    moreover from this(1) have "nat (av_get_sample_fmt_loop name (i + 1) xs - i) = Suc (nat (av_get_sample_fmt_loop name (i + 1) xs - (i + 1)))" by simp
    ultimately show ?thesis using False by simp
  qed simp
qed simp

text \<open>
  Also: looking a format up by name inverts \<^verbatim>\<open>av_get_sample_fmt_name\<close> on every format and finds nothing else; the packed
  and the planar form of a format have its sample size and the layout asked for, and converting forth and back
  returns the format.
\<close>

theorem sample_fmt_tables:
  assumes "0 \<le> f" "f < AV_SAMPLE_FMT_NB"
  shows "(\<exists>name. av_get_sample_fmt_name f = Some name \<and> av_get_sample_fmt name = f \<and> length name < 8) \<and>
    (av_get_sample_fmt s \<noteq> AV_SAMPLE_FMT_NONE \<longrightarrow> av_get_sample_fmt_name (av_get_sample_fmt s) = Some s) \<and>
    av_sample_fmt_is_planar (av_get_packed_sample_fmt f) = 0 \<and> av_sample_fmt_is_planar (av_get_planar_sample_fmt f) = 1 \<and>
    av_get_bytes_per_sample (av_get_packed_sample_fmt f) = av_get_bytes_per_sample f \<and>
    av_get_bytes_per_sample (av_get_planar_sample_fmt f) = av_get_bytes_per_sample f \<and>
    av_get_alt_sample_fmt f 0 = av_get_packed_sample_fmt f \<and> av_get_alt_sample_fmt f 1 = av_get_planar_sample_fmt f \<and>
    f \<in> {av_get_packed_sample_fmt (av_get_planar_sample_fmt f), av_get_planar_sample_fmt (av_get_packed_sample_fmt f)}"
proof -
  have "av_get_sample_fmt_name (av_get_sample_fmt s) = Some s" if "av_get_sample_fmt s \<noteq> AV_SAMPLE_FMT_NONE"
    using that av_get_sample_fmt_loop_spec [of s 0 sample_fmt_info]
    by (simp add: av_get_sample_fmt_def av_get_sample_fmt_name_def) (simp add: sample_fmt_info_def)
  moreover have "(\<exists>name. av_get_sample_fmt_name f = Some name \<and> av_get_sample_fmt name = f \<and> length name < 8)"
    using assms by (cases rule: format_cases) (simp_all add: av_get_sample_fmt_name_def av_get_sample_fmt_def sample_fmt_info_def)
  moreover have "av_sample_fmt_is_planar (av_get_packed_sample_fmt f) = 0 \<and> av_sample_fmt_is_planar (av_get_planar_sample_fmt f) = 1 \<and>
    av_get_bytes_per_sample (av_get_packed_sample_fmt f) = av_get_bytes_per_sample f \<and>
    av_get_bytes_per_sample (av_get_planar_sample_fmt f) = av_get_bytes_per_sample f \<and>
    av_get_alt_sample_fmt f 0 = av_get_packed_sample_fmt f \<and> av_get_alt_sample_fmt f 1 = av_get_planar_sample_fmt f \<and>
    f \<in> {av_get_packed_sample_fmt (av_get_planar_sample_fmt f), av_get_planar_sample_fmt (av_get_packed_sample_fmt f)}"
    using assms by (cases rule: format_cases) (simp_all add: av_get_packed_sample_fmt_def av_get_planar_sample_fmt_def
      av_get_alt_sample_fmt_def av_sample_fmt_is_planar_def av_get_bytes_per_sample_def sample_fmt_info_def)
  ultimately show ?thesis by blast
qed

theorem sample_fmt_tables_witness:
  "av_get_sample_fmt_name AV_SAMPLE_FMT_FLTP = Some ''fltp'' \<and> av_get_sample_fmt ''fltp'' = AV_SAMPLE_FMT_FLTP \<and>
    av_get_packed_sample_fmt AV_SAMPLE_FMT_FLTP = AV_SAMPLE_FMT_FLT"
  using sample_fmt_tables [of AV_SAMPLE_FMT_FLTP "''fltp''"]
  by (simp add: av_get_sample_fmt_name_def av_get_packed_sample_fmt_def sample_fmt_info_def)

section \<open>Buffer sizes\<close>

lemma s32_small: "0 \<le> x \<Longrightarrow> x \<le> INT_MAX \<Longrightarrow> s32 x = x"
  by (rule s32_id) (simp add: in_s32_def)

lemma and_not_mask: "x AND NOT (2 ^ k - 1) = x div 2 ^ k * 2 ^ k" for x :: int
proof -
  have "x AND NOT (2 ^ k - 1) = push_bit k (drop_bit k x)"
    by (rule bit_eqI) (auto simp: bit_simps simp flip: mask_eq_exp_minus_1)
  then show ?thesis by (simp add: push_bit_eq_mult drop_bit_eq_div)
qed

lemma FFALIGN_pow2:
  assumes "0 \<le> x" "x + 2 ^ k - 1 \<le> INT_MAX"
  shows "2 ^ k dvd FFALIGN x (2 ^ k)" "x \<le> FFALIGN x (2 ^ k)" "FFALIGN x (2 ^ k) < x + 2 ^ k"
proof -
  have "0 \<le> x + 2 ^ k - 1" using assms(1) zero_less_power [of "2 :: int" k] by linarith
  then have "s32 (x + 2 ^ k - 1) = x + 2 ^ k - 1" using assms(2) by (rule s32_small)
  then have v: "FFALIGN x (2 ^ k) = (x + 2 ^ k - 1) div 2 ^ k * 2 ^ k" by (simp add: FFALIGN_def and_not_mask)
  then show "2 ^ k dvd FFALIGN x (2 ^ k)" by simp
  have "0 \<le> (x + 2 ^ k - 1) mod 2 ^ k" "(x + 2 ^ k - 1) mod 2 ^ k < 2 ^ k" by simp_all
  moreover have "(x + 2 ^ k - 1) div 2 ^ k * 2 ^ k = (x + 2 ^ k - 1) - (x + 2 ^ k - 1) mod 2 ^ k" by (simp only: minus_mod_eq_div_mult)
  ultimately show "x \<le> FFALIGN x (2 ^ k)" "FFALIGN x (2 ^ k) < x + 2 ^ k" unfolding v by linarith+
qed

lemma bytes_per_sample_range: "av_get_bytes_per_sample f \<in> {0, 1, 2, 4, 8}"
proof (cases "0 \<le> f \<and> f < AV_SAMPLE_FMT_NB")
  case True
  then have "0 \<le> f" "f < AV_SAMPLE_FMT_NB" by simp_all
  then show ?thesis by (cases rule: format_cases) (simp_all add: av_get_bytes_per_sample_def sample_fmt_info_def)
qed (auto simp: av_get_bytes_per_sample_def)

lemma is_planar_range: "av_sample_fmt_is_planar f \<in> {0, 1}"
proof (cases "0 \<le> f \<and> f < AV_SAMPLE_FMT_NB")
  case True
  then have "0 \<le> f" "f < AV_SAMPLE_FMT_NB" by simp_all
  then show ?thesis by (cases rule: format_cases) (simp_all add: av_sample_fmt_is_planar_def sample_fmt_info_def)
qed (auto simp: av_sample_fmt_is_planar_def)

text \<open>The length of one plane that holds \<open>ns\<close> samples, and the size asked of the whole buffer.\<close>

definition plane_bytes :: "int \<Rightarrow> int \<Rightarrow> int \<Rightarrow> int" where
  "plane_bytes nch ns fmt = ns * av_get_bytes_per_sample fmt * (if av_sample_fmt_is_planar fmt \<noteq> 0 then 1 else nch)"

definition buffer_fits :: "int \<Rightarrow> int \<Rightarrow> int \<Rightarrow> int \<Rightarrow> bool" where
  "buffer_fits nch ns fmt align \<longleftrightarrow> 0 < nch \<and> 0 < ns \<and> 0 < av_get_bytes_per_sample fmt \<and> align * nch \<le> INT_MAX \<and>
     nch * ns * av_get_bytes_per_sample fmt + align * nch \<le> INT_MAX"

lemma buffer_check:
  assumes "0 < nch" "nch \<le> INT_MAX" "0 < ns" "ns \<le> INT_MAX" "0 < av_get_bytes_per_sample fmt"
  shows "(nch > c_div INT_MAX (2 ^ k) \<or> s64 (nch * ns) > c_div (s32 (INT_MAX - s32 (2 ^ k * nch))) (av_get_bytes_per_sample fmt)) \<longleftrightarrow>
    \<not> buffer_fits nch ns fmt (2 ^ k)"
proof -
  define b where "b = av_get_bytes_per_sample fmt"
  have first: "nch > c_div INT_MAX (2 ^ k) \<longleftrightarrow> \<not> 2 ^ k * nch \<le> INT_MAX"
    using int_le_div_iff [of "2 ^ k" nch INT_MAX] by (simp add: not_le [symmetric] mult.commute)
  have "nch * ns \<le> INT_MAX * INT_MAX" using assms by (intro mult_mono) simp_all
  moreover have "0 \<le> nch * ns" using assms by simp
  ultimately have s: "s64 (nch * ns) = nch * ns" by (intro s64_id) (simp add: in_s64_def)
  have "s64 (nch * ns) > c_div (s32 (INT_MAX - s32 (2 ^ k * nch))) b \<longleftrightarrow> \<not> nch * ns * b + 2 ^ k * nch \<le> INT_MAX" if le: "2 ^ k * nch \<le> INT_MAX"
  proof -
    have a: "0 \<le> 2 ^ k * nch" using assms by simp
    then have "s32 (2 ^ k * nch) = 2 ^ k * nch" "s32 (INT_MAX - 2 ^ k * nch) = INT_MAX - 2 ^ k * nch"
      using le by (simp_all add: s32_small)
    moreover have "nch * ns \<le> (INT_MAX - 2 ^ k * nch) div b \<longleftrightarrow> nch * ns * b \<le> INT_MAX - 2 ^ k * nch"
      using assms by (intro int_le_div_iff) (simp add: b_def)
    ultimately show ?thesis using s le assms by (simp add: b_def) linarith
  qed
  then show ?thesis using first assms unfolding buffer_fits_def b_def by blast
qed

lemma plane_bytes_bounds:
  assumes "buffer_fits nch ns fmt align" "0 < align"
  shows "0 < plane_bytes nch ns fmt" "plane_bytes nch ns fmt * (if av_sample_fmt_is_planar fmt \<noteq> 0 then nch else 1) = nch * ns * av_get_bytes_per_sample fmt"
    "plane_bytes nch ns fmt + align \<le> INT_MAX"
proof -
  let ?b = "av_get_bytes_per_sample fmt"
  have p: "0 < nch" "0 < ns" "0 < ?b" "nch * ns * ?b + align * nch \<le> INT_MAX" using assms by (simp_all add: buffer_fits_def)
  then show "0 < plane_bytes nch ns fmt" by (simp add: plane_bytes_def)
  show "plane_bytes nch ns fmt * (if av_sample_fmt_is_planar fmt \<noteq> 0 then nch else 1) = nch * ns * ?b" by (simp add: plane_bytes_def ac_simps)
  have "ns * ?b \<le> nch * (ns * ?b)" "align \<le> align * nch" using p assms(2) mult_right_mono [of 1 nch "ns * ?b"] by simp_all
  then show "plane_bytes nch ns fmt + align \<le> INT_MAX" using p(4) by (simp add: plane_bytes_def ac_simps)
qed

lemma buffer_line:
  assumes "buffer_fits nch ns fmt (2 ^ k)"
  shows "(if av_sample_fmt_is_planar fmt \<noteq> 0 then FFALIGN (s32 (ns * av_get_bytes_per_sample fmt)) (2 ^ k)
      else FFALIGN (s32 (s32 (ns * av_get_bytes_per_sample fmt) * nch)) (2 ^ k)) = FFALIGN (plane_bytes nch ns fmt) (2 ^ k)"
proof -
  let ?b = "av_get_bytes_per_sample fmt"
  note b = plane_bytes_bounds [OF assms, simplified]
  have p: "0 < nch" "0 < ns" "0 < ?b" using assms by (simp_all add: buffer_fits_def)
  then have "ns * ?b \<le> plane_bytes nch ns fmt" using mult_left_mono [of 1 nch "ns * ?b"] by (simp add: plane_bytes_def)
  moreover have "0 < ns * ?b" using p by simp
  moreover have "plane_bytes nch ns fmt \<le> INT_MAX" using b(3) zero_less_power [of "2 :: int" k] by linarith
  ultimately have "s32 (ns * ?b) = ns * ?b" "s32 (plane_bytes nch ns fmt) = plane_bytes nch ns fmt"
    using b(1) by (simp_all add: s32_small)
  then show ?thesis by (simp add: plane_bytes_def split: if_splits)
qed

lemma buffer_total:
  assumes "buffer_fits nch ns fmt (2 ^ k)"
  defines "line_size \<equiv> FFALIGN (plane_bytes nch ns fmt) (2 ^ k)"
    and "planes \<equiv> if av_sample_fmt_is_planar fmt \<noteq> 0 then nch else 1"
  shows "(if av_sample_fmt_is_planar fmt \<noteq> 0 then s32 (line_size * nch) else line_size) = line_size * planes"
    "0 < line_size * planes" "line_size * planes \<le> INT_MAX" "plane_bytes nch ns fmt \<le> line_size" "line_size < plane_bytes nch ns fmt + 2 ^ k"
    "2 ^ k dvd line_size"
proof -
  note b = plane_bytes_bounds [OF assms(1), simplified]
  have le: "plane_bytes nch ns fmt + 2 ^ k - 1 \<le> INT_MAX" using b(3) by linarith
  note line = FFALIGN_pow2 [OF order_less_imp_le [OF b(1)] le, folded line_size_def]
  show l: "plane_bytes nch ns fmt \<le> line_size" "line_size < plane_bytes nch ns fmt + 2 ^ k" "2 ^ k dvd line_size"
    using line by simp_all
  have pl: "0 < planes" "planes \<le> nch" using assms(1) by (simp_all add: planes_def buffer_fits_def)
  have "line_size * planes \<le> (plane_bytes nch ns fmt + 2 ^ k) * planes" using l pl by (intro mult_right_mono) simp_all
  also have "\<dots> = nch * ns * av_get_bytes_per_sample fmt + 2 ^ k * planes" using b(2) by (simp add: planes_def algebra_simps)
  also have "\<dots> \<le> nch * ns * av_get_bytes_per_sample fmt + 2 ^ k * nch" using pl by simp
  also have "\<dots> \<le> INT_MAX" using assms(1) by (simp add: buffer_fits_def)
  finally show m: "line_size * planes \<le> INT_MAX" .
  show z: "0 < line_size * planes" using l b(1) pl by simp
  show "(if av_sample_fmt_is_planar fmt \<noteq> 0 then s32 (line_size * nch) else line_size) = line_size * planes"
    using m z s32_small [of "line_size * planes"] by (auto simp: planes_def)
qed

text \<open>The alignment and the number of samples the code computes with.\<close>

definition effective_align :: "int \<Rightarrow> int" where
  "effective_align align = (if align = 0 then 1 else align)"

definition effective_samples :: "int \<Rightarrow> int \<Rightarrow> int" where
  "effective_samples align ns = (if align = 0 then FFALIGN ns 32 else ns)"

lemma av_samples_get_buffer_size_cases:
  assumes "0 < nch" "nch \<le> INT_MAX" "0 < ns" "ns \<le> INT_MAX" "align = 0 \<or> align = 2 ^ k"
  shows "av_samples_get_buffer_size nch ns fmt align =
    (let line_size = FFALIGN (plane_bytes nch (effective_samples align ns) fmt) (effective_align align)
     in if (align = 0 \<longrightarrow> ns \<le> INT_MAX - 31) \<and> buffer_fits nch (effective_samples align ns) fmt (effective_align align)
        then (line_size * (if av_sample_fmt_is_planar fmt \<noteq> 0 then nch else 1), Some line_size) else (AVERROR EINVAL, None))"
proof -
  obtain j where j: "effective_align align = 2 ^ j" using assms(5) by (metis effective_align_def power_0)
  show ?thesis
  proof (cases "av_get_bytes_per_sample fmt = 0 \<or> align = 0 \<and> ns > INT_MAX - 31")
    case True
    then show ?thesis using assms by (auto simp: av_samples_get_buffer_size_def buffer_fits_def Let_def)
  next
    case False
    then have b: "0 < av_get_bytes_per_sample fmt" using bytes_per_sample_range [of fmt] by auto
    have es: "0 < effective_samples align ns \<and> effective_samples align ns \<le> INT_MAX"
      using FFALIGN_pow2 [of ns 5] False assms by (auto simp: effective_samples_def in_s32_def)
    have split: "(if align = 0 then (1, FFALIGN ns 32) else (align, ns)) = (effective_align align, effective_samples align ns)"
      by (simp add: effective_align_def effective_samples_def)
    note check = buffer_check [OF assms(1,2) es [THEN conjunct1] es [THEN conjunct2] b, of j]
    show ?thesis
      using False assms(1,3) buffer_line [of nch "effective_samples align ns" fmt j] buffer_total(1) [of nch "effective_samples align ns" fmt j]
      unfolding av_samples_get_buffer_size_def Let_def split j prod.case check by auto
  qed
qed

text \<open>
  Also: \<^verbatim>\<open>av_samples_get_buffer_size\<close> accepts exactly the requests whose buffer, with the alignment of every plane, stays
  within \<^verbatim>\<open>INT_MAX\<close>; then the size is positive, no computation wraps, every plane holds its samples, wastes less than
  the alignment and starts aligned. Every other request is refused.
\<close>

theorem av_samples_get_buffer_size_exact:
  fixes align k nch ns fmt
  assumes "in_s32 nch" "in_s32 ns" "align = 0 \<or> align = 2 ^ k"
  defines "planes \<equiv> if av_sample_fmt_is_planar fmt \<noteq> 0 then nch else 1"
    and "ns' \<equiv> effective_samples align ns" and "align' \<equiv> effective_align align"
  shows "if 0 < ns \<and> (align = 0 \<longrightarrow> ns \<le> INT_MAX - 31) \<and> buffer_fits nch ns' fmt align'
    then \<exists>l. av_samples_get_buffer_size nch ns fmt align = (l * planes, Some l) \<and> 0 < l * planes \<and> l * planes \<le> INT_MAX \<and>
      ns \<le> ns' \<and> plane_bytes nch ns' fmt \<le> l \<and> l < plane_bytes nch ns' fmt + align' \<and> align' dvd l
    else av_samples_get_buffer_size nch ns fmt align = (AVERROR EINVAL, None)"
proof (cases "0 < nch \<and> 0 < ns")
  case True
  then have p: "0 < nch" "nch \<le> INT_MAX" "0 < ns" "ns \<le> INT_MAX" using assms(1,2) by (simp_all add: in_s32_def)
  obtain j where j: "align' = 2 ^ j" using assms(3) by (metis align'_def effective_align_def power_0)
  have "ns \<le> ns'" if "align = 0 \<longrightarrow> ns \<le> INT_MAX - 31"
    using that FFALIGN_pow2(2) [of ns 5] p by (auto simp: ns'_def effective_samples_def)
  then show ?thesis
    unfolding av_samples_get_buffer_size_cases [OF p assms(3)] ns'_def [symmetric] align'_def [symmetric]
    using p buffer_total [of nch ns' fmt j] by (auto simp: Let_def j planes_def)
next
  case False
  then have "av_samples_get_buffer_size nch ns fmt align = (AVERROR EINVAL, None)" by (auto simp: av_samples_get_buffer_size_def Let_def)
  then show ?thesis using False by (auto simp: buffer_fits_def)
qed

theorem av_samples_get_buffer_size_exact_witness:
  "\<exists>l. av_samples_get_buffer_size 6 1001 AV_SAMPLE_FMT_FLTP (2 ^ 5) = (l * 6, Some l) \<and> 1001 * 4 \<le> l \<and> l < 1001 * 4 + 32 \<and> 32 dvd l"
  using av_samples_get_buffer_size_exact [of 6 1001 "2 ^ 5" 5 AV_SAMPLE_FMT_FLTP]
  by (auto simp: in_s32_def buffer_fits_def plane_bytes_def effective_align_def effective_samples_def
      av_get_bytes_per_sample_def av_sample_fmt_is_planar_def sample_fmt_info_def)

lemma fill_arrays_loop_map: "fill_arrays_loop l p n = map (\<lambda>i. p + (int i + 1) * l) [0..<n]"
proof (induction n arbitrary: p)
  case (Suc n)
  have "[0..<Suc n] = 0 # map Suc [0..<n]" by (simp add: map_Suc_upt upt_conv_Cons del: upt_Suc)
  then show ?case by (simp add: Suc.IH algebra_simps del: upt_Suc)
qed simp

text \<open>
  Also: the pointers \<^verbatim>\<open>av_samples_fill_arrays\<close> stores divide the buffer into consecutive planes of one line each: plane
  \<open>c\<close> starts at \<open>c\<close> lines and the last one ends with the buffer. Without a buffer all of them are null.
\<close>

theorem av_samples_fill_arrays_planes:
  assumes "0 < nch" "av_samples_get_buffer_size nch ns fmt align = (r, Some l)"
  shows "av_samples_fill_arrays buf nch ns fmt align =
      (r, Some l, map (\<lambda>c. map_option (\<lambda>b. b + int c * l) buf) [0..<nat (if av_sample_fmt_is_planar fmt \<noteq> 0 then nch else 1)])"
proof -
  obtain n where n: "nat nch = Suc n" using assms(1) by (cases "nat nch") auto
  have u: "[0..<Suc n] = 0 # map Suc [0..<n]" by (simp add: map_Suc_upt upt_conv_Cons del: upt_Suc)
  show ?thesis
    by (cases buf) (auto simp: av_samples_fill_arrays_def assms(2) n u fill_arrays_loop_map add.commute map_replicate_const upt_conv_Cons simp del: upt_Suc)
qed

theorem av_samples_fill_arrays_planes_witness:
  "av_samples_fill_arrays (Some 4096) 3 10 AV_SAMPLE_FMT_S16P 1 = (60, Some 20, [Some 4096, Some 4116, Some 4136])"
  using av_samples_fill_arrays_planes [of 3 10 AV_SAMPLE_FMT_S16P 1 60 20 "Some 4096"]
  by (simp add: av_samples_get_buffer_size_def av_get_bytes_per_sample_def av_sample_fmt_is_planar_def sample_fmt_info_def
      s32_small s64_id in_s64_def FFALIGN_def upt_conv_Cons)

section \<open>Copies\<close>

text \<open>The addresses of a plane a copy touches.\<close>

abbreviation region :: "int \<Rightarrow> int \<Rightarrow> int set" where
  "region a n \<equiv> {a..<a + n}"

text \<open>A copy routine that behaves like \<^verbatim>\<open>memcpy\<close> on disjoint regions, as both routines do.\<close>

definition copies :: "(memory \<Rightarrow> int \<Rightarrow> int \<Rightarrow> int \<Rightarrow> memory option) \<Rightarrow> bool" where
  "copies cpy \<longleftrightarrow> (\<forall>m d s n. 0 \<le> n \<longrightarrow> region d n \<inter> region s n = {} \<longrightarrow>
     cpy m d s n = Some (\<lambda>a. if a \<in> region d n then m (s + (a - d)) else m a))"

lemma disjoint_far: "0 \<le> n \<Longrightarrow> region d n \<inter> region s n = {} \<Longrightarrow> n = 0 \<or> n \<le> \<bar>d - s\<bar>"
proof (rule ccontr)
  assume "0 \<le> n" "region d n \<inter> region s n = {}" and no: "\<not> (n = 0 \<or> n \<le> \<bar>d - s\<bar>)"
  then have "max d s \<in> region d n \<inter> region s n" by auto
  with \<open>region d n \<inter> region s n = {}\<close> show False by blast
qed

lemma copies_memcpy: "copies memcpy"
  unfolding copies_def memcpy_def using disjoint_far by (auto simp: fun_eq_iff)

lemma copies_memmove: "copies memmove"
  by (simp add: copies_def memmove_def)

text \<open>The planes of the destination are apart from each other and from those of the source.\<close>

definition apart :: "int list \<Rightarrow> int list \<Rightarrow> int \<Rightarrow> bool" where
  "apart dst src n \<longleftrightarrow> (\<forall>i < length dst. \<forall>j < length dst. i \<noteq> j \<longrightarrow> region (dst ! i) n \<inter> region (dst ! j) n = {}) \<and>
     (\<forall>i < length dst. \<forall>j < length src. region (dst ! i) n \<inter> region (src ! j) n = {})"

lemma copy_planes_exact:
  assumes "copies cpy" "0 \<le> n"
  shows "length dst = planes \<Longrightarrow> length src = planes \<Longrightarrow> apart (map (\<lambda>d. d + doff) dst) (map (\<lambda>s. s + soff) src) n \<Longrightarrow>
    \<exists>m'. copy_planes cpy dst src doff soff n planes m = Some m' \<and>
      (\<forall>i < planes. \<forall>j. 0 \<le> j \<longrightarrow> j < n \<longrightarrow> m' (dst ! i + doff + j) = m (src ! i + soff + j)) \<and>
      (\<forall>a. (\<forall>i < planes. a \<notin> region (dst ! i + doff) n) \<longrightarrow> m' a = m a)"
proof (induction planes arbitrary: dst src m)
  case 0
  then show ?case by simp
next
  case (Suc planes)
  obtain d ds s ss where l: "dst = d # ds" "src = s # ss" "length ds = planes" "length ss = planes"
    using Suc.prems(1,2) by (auto simp: length_Suc_conv)
  have A: "region (dst ! i + doff) n \<inter> region (dst ! j + doff) n = {}" if "i < Suc planes" "j < Suc planes" "i \<noteq> j" for i j
    using Suc.prems that by (simp add: apart_def)
  have B: "region (dst ! i + doff) n \<inter> region (src ! j + soff) n = {}" if "i < Suc planes" "j < Suc planes" for i j
    using Suc.prems that by (simp add: apart_def)
  have tail: "apart (map (\<lambda>d. d + doff) ds) (map (\<lambda>s. s + soff) ss) n"
    unfolding apart_def using A [of "Suc _" "Suc _"] B [of "Suc _" "Suc _"] l by simp
  define m1 where "m1 = (\<lambda>a. if a \<in> region (d + doff) n then m (s + soff + (a - (d + doff))) else m a)"
  have "region (d + doff) n \<inter> region (s + soff) n = {}" using B [of 0 0] l by simp
  then have c: "cpy m (d + doff) (s + soff) n = Some m1" using assms unfolding copies_def m1_def by blast
  obtain m' where m': "copy_planes cpy ds ss doff soff n planes m1 = Some m'"
    "\<And>i j. i < planes \<Longrightarrow> 0 \<le> j \<Longrightarrow> j < n \<Longrightarrow> m' (ds ! i + doff + j) = m1 (ss ! i + soff + j)"
    "\<And>a. (\<forall>i < planes. a \<notin> region (ds ! i + doff) n) \<Longrightarrow> m' a = m1 a"
    using Suc.IH [OF l(3,4) tail, of m1] by blast
  have "m' (dst ! i + doff + j) = m (src ! i + soff + j)" if ij: "i < Suc planes" "0 \<le> j" "j < n" for i j
  proof (cases i)
    case 0
    have "d + doff + j \<in> region (d + doff) n" using ij by simp
    then have "\<forall>i < planes. d + doff + j \<notin> region (ds ! i + doff) n" using A [of 0 "Suc _"] l by (metis (no_types, lifting) IntI Suc_less_eq empty_iff nth_Cons_0 nth_Cons_Suc zero_less_Suc Zero_not_Suc)
    then have "m' (d + doff + j) = m1 (d + doff + j)" by (rule m'(3))
    then show ?thesis using 0 l ij by (simp add: m1_def)
  next
    case (Suc i')
    then have "ss ! i' + soff + j \<in> region (src ! i + soff) n" using ij l by simp
    then have "ss ! i' + soff + j \<notin> region (d + doff) n" using B [of 0 i] ij l by auto
    then have "m1 (ss ! i' + soff + j) = m (ss ! i' + soff + j)" unfolding m1_def by (simp only: if_False)
    then show ?thesis using m'(2) [of i' j] ij l Suc by simp
  qed
  moreover have "m' a = m a" if "\<forall>i < Suc planes. a \<notin> region (dst ! i + doff) n" for a
  proof -
    have "a \<notin> region (d + doff) n" "\<forall>i < planes. a \<notin> region (ds ! i + doff) n" using that l by auto
    then show ?thesis using m'(3) [of a] by (simp only: m1_def if_False)
  qed
  ultimately show ?case using c m'(1) by (simp add: l(1,2))
qed

text \<open>
  Also: when the sample ranges of the source and destination planes are apart, \<^verbatim>\<open>av_samples_copy\<close> copies exactly
  \<open>nb_samples\<close> samples of every plane, byte by byte, from the one offset to the other, and changes no other byte,
  whichever of its two copy routines the distance of the buffers selects.
\<close>

theorem av_samples_copy_exact:
  fixes dst src :: "int list" and nch fmt ns doff soff :: int
  defines "block \<equiv> av_get_bytes_per_sample fmt * (if av_sample_fmt_is_planar fmt \<noteq> 0 then 1 else nch)"
  assumes lens: "length dst = nat (if av_sample_fmt_is_planar fmt \<noteq> 0 then nch else 1)" "length src = length dst" and pos: "0 < nch" "0 \<le> ns"
    and range: "in_s32 block" "in_s32 (ns * block)" "in_s32 (doff * block)" "in_s32 (soff * block)"
    and ap: "apart (map (\<lambda>d. d + doff * block) dst) (map (\<lambda>s. s + soff * block) src) (ns * block)"
  shows "\<exists>m'. av_samples_copy m dst src doff soff ns nch fmt = Some (0, m') \<and>
      (\<forall>i < length dst. \<forall>j. 0 \<le> j \<longrightarrow> j < ns * block \<longrightarrow> m' (dst ! i + doff * block + j) = m (src ! i + soff * block + j)) \<and>
      (\<forall>a. (\<forall>i < length dst. a \<notin> region (dst ! i + doff * block) (ns * block)) \<longrightarrow> m' a = m a)"
proof -
  have "0 \<le> block" using pos(1) bytes_per_sample_range [of fmt] by (auto simp: block_def)
  then have n: "0 \<le> ns * block" using pos by simp
  obtain d ds s ss where cons: "dst = d # ds" "src = s # ss"
    using lens pos by (cases dst; cases src) (auto split: if_splits)
  have w: "s32 block = block" "s32 (ns * block) = ns * block" "s32 (doff * block) = doff * block" "s32 (soff * block) = soff * block"
    using range by (simp_all add: s32_id)
  have copy: "\<exists>m'. copy_planes cpy dst src (doff * block) (soff * block) (ns * block) (length dst) m = Some m' \<and>
      (\<forall>i < length dst. \<forall>j. 0 \<le> j \<longrightarrow> j < ns * block \<longrightarrow> m' (dst ! i + doff * block + j) = m (src ! i + soff * block + j)) \<and>
      (\<forall>a. (\<forall>i < length dst. a \<notin> region (dst ! i + doff * block) (ns * block)) \<longrightarrow> m' a = m a)" if "copies cpy" for cpy
    using copy_planes_exact [OF that n refl lens(2) ap] by simp
  have "\<exists>cpy \<in> {memcpy, memmove}. av_samples_copy m dst src doff soff ns nch fmt =
      map_option (Pair 0) (copy_planes cpy dst src (doff * block) (soff * block) (ns * block) (length dst) m)"
    using w lens(1) unfolding av_samples_copy_def block_def [symmetric] Let_def by (simp add: cons)
  then show ?thesis using copy [OF copies_memcpy] copy [OF copies_memmove] by fastforce
qed

theorem av_samples_copy_exact_witness:
  "\<exists>m'. av_samples_copy (\<lambda>a. word_of_int a) [1000, 2000] [3000, 4000] 8 2 3 2 AV_SAMPLE_FMT_S16P = Some (0, m') \<and> m' 1016 = 188 \<and> m' 2021 = 169"
proof -
  obtain m' where c: "av_samples_copy word_of_int [1000, 2000] [3000, 4000] 8 2 3 2 AV_SAMPLE_FMT_S16P = Some (0, m')"
    and m': "\<forall>i < 2. \<forall>j. 0 \<le> j \<longrightarrow> j < 6 \<longrightarrow> m' ([1000, 2000] ! i + 16 + j) = (word_of_int ([3000, 4000] ! i + 4 + j) :: u8)"
    using av_samples_copy_exact [of "[1000, 2000]" AV_SAMPLE_FMT_S16P 2 "[3000, 4000]" 3 8 2 word_of_int]
    by (auto simp: av_get_bytes_per_sample_def av_sample_fmt_is_planar_def sample_fmt_info_def in_s32_def apart_def less_Suc_eq numeral_2_eq_2)
  have "m' 1016 = 188" using m' [THEN spec, of 0, THEN mp, THEN spec, of 0] by simp
  moreover have "m' 2021 = 169" using m' [THEN spec, of 1, THEN mp, THEN spec, of 5] by simp
  ultimately show ?thesis using c by auto
qed

text \<open>
  The choice between the routines compares the buffers without the offsets: two adjacent buffers whose offsets lead to
  the same bytes are given to \<^verbatim>\<open>memcpy\<close>, for which the C standard leaves the result undefined.
\<close>

lemma av_samples_copy_overlap:
  assumes "0 < n" "n < 2 ^ 30"
  shows "av_samples_copy m [a + n] [a] 0 n n 1 AV_SAMPLE_FMT_U8 = None"
  using assms by (simp add: av_samples_copy_def av_get_bytes_per_sample_def av_sample_fmt_is_planar_def sample_fmt_info_def
      s32_small memcpy_def)

end
