(* ===== verification/AV_Mem.thy ===== *)
theory AV_Mem
  imports AV_Prelude
begin

text \<open>
  The parts of \<^verbatim>\<open>libavutil/mem.c\<close> the containers rely on: the overflow check of array allocations.
  Whether the C library has memory left is not code of this repository: it is the parameter \<open>heap\<close>,
  which says of a size in bytes whether the allocation succeeds.
\<close>

unbundle bit_operations_syntax

section \<open>Definitions\<close>

text \<open>\<^verbatim>\<open>size_mult\<close> with the compiler's overflow builtin, and its portable variant. \<open>None\<close> is \<^verbatim>\<open>EINVAL\<close>.\<close>

definition size_mult :: "u64 \<Rightarrow> u64 \<Rightarrow> u64 option" where
  "size_mult a b = (if unat a * unat b > SIZE_MAX then None else Some (a * b))"

definition size_mult_portable :: "u64 \<Rightarrow> u64 \<Rightarrow> u64 option" where
  "size_mult_portable a b =
     (let t = a * b
      in if a OR b \<ge> push_bit 32 1 \<and> a \<noteq> 0 \<and> t div a \<noteq> b then None else Some t)"

definition av_realloc_array :: "(nat \<Rightarrow> bool) \<Rightarrow> nat \<Rightarrow> nat \<Rightarrow> bool" where
  "av_realloc_array heap nmemb sz =
     (case size_mult (of_nat nmemb) (of_nat sz) of None \<Rightarrow> False | Some result \<Rightarrow> heap (unat result))"

section \<open>Correctness\<close>

lemma unat_less_64: "unat (v :: u64) < 2 ^ 64"
  by (rule order_less_le_trans [OF unsigned_less]) simp

lemma unat_mult_mod: "unat (a * b) = unat a * unat b mod 2 ^ 64" for a b :: u64
  by (simp add: unat_word_ariths)

lemma unat_or_less: "unat (a OR b) < 2 ^ n \<longleftrightarrow> unat a < 2 ^ n \<and> unat b < 2 ^ n" for a b :: u64
proof -
  have iff: "unat (x :: u64) < 2 ^ n \<longleftrightarrow> drop_bit n x = 0" for x
  proof -
    have "unat x < 2 ^ n \<longleftrightarrow> unat x div 2 ^ n = 0" by (simp add: div_eq_0_iff)
    also have "\<dots> \<longleftrightarrow> unat (drop_bit n x) = 0" by (simp only: unat_drop_bit_eq) (simp add: drop_bit_eq_div)
    finally show ?thesis by (simp only: unat_eq_0)
  qed
  show ?thesis unfolding iff by (simp only: drop_bit_or or_eq_0_iff)
qed

text \<open>
  Also: the portable overflow check of \<^verbatim>\<open>size_mult\<close>, which skips the division for small operands, accepts
  and rejects the same operands as the compiler's builtin, and what it accepts is the exact product.
\<close>

theorem size_mult_portable_correct:
  "size_mult_portable a b = size_mult a b \<and>
   size_mult a b = (if unat a * unat b < 2 ^ 64 then Some (of_nat (unat a * unat b)) else None)"
proof -
  let ?p = "unat a * unat b"
  have exact: "size_mult a b = (if ?p < 2 ^ 64 then Some (of_nat ?p) else None)"
    by (auto simp: size_mult_def)
  have "a OR b \<ge> push_bit 32 1 \<and> a \<noteq> 0 \<and> a * b div a \<noteq> b \<longleftrightarrow> ?p > SIZE_MAX"
  proof (cases "?p < 2 ^ 64")
    case True
    then have "unat (a * b) = ?p" by (simp add: unat_mult_mod)
    then have "a \<noteq> 0 \<Longrightarrow> unat (a * b div a) = unat b" by (simp add: unat_div unat_eq_0)
    then have "a \<noteq> 0 \<Longrightarrow> a * b div a = b" by (metis word_unat_eq_iff)
    with True show ?thesis by auto
  next
    case False
    have a: "a \<noteq> 0" using False by auto
    have "\<not> unat (a OR b) < 2 ^ 32"
    proof
      assume "unat (a OR b) < 2 ^ 32"
      then have "unat a \<le> 2 ^ 32 - 1" "unat b \<le> 2 ^ 32 - 1" unfolding unat_or_less by simp_all
      then have "?p \<le> (2 ^ 32 - 1) * (2 ^ 32 - 1)" by (rule mult_le_mono)
      with False show False by simp
    qed
    then have or: "a OR b \<ge> push_bit 32 1" by (simp add: word_le_nat_alt)
    have "a * b div a \<noteq> b"
    proof
      assume "a * b div a = b"
      then have "unat (a * b) div unat a = unat b" by (metis unat_div)
      then have "unat a * unat b \<le> unat (a * b)" by (metis times_div_less_eq_dividend)
      with False unat_less_64 [of "a * b"] show False by linarith
    qed
    with False a or show ?thesis by simp
  qed
  then have "size_mult_portable a b = size_mult a b"
    unfolding size_mult_portable_def size_mult_def Let_def by simp
  with exact show ?thesis by simp
qed

lemma av_realloc_array_overflow:
  assumes "nmemb \<le> SIZE_MAX" "sz \<le> SIZE_MAX"
  shows "av_realloc_array heap nmemb sz \<longleftrightarrow> nmemb * sz \<le> SIZE_MAX \<and> heap (nmemb * sz)"
proof -
  have u: "unat (of_nat nmemb :: u64) = nmemb" "unat (of_nat sz :: u64) = sz"
    using assms by (simp_all add: unat_of_nat)
  show ?thesis
    using u by (auto simp: av_realloc_array_def size_mult_def unat_mult_mod)
qed

end
