(* ===== verification/AV_Fifo.thy ===== *)
theory AV_Fifo
  imports AV_Mem
begin

text \<open>
  \<^verbatim>\<open>libavutil/fifo.c\<close>: the growable ring buffer under the packet, frame and message queues. An
  element is one item of the model; a slot of the buffer is \<open>None\<close> while its bytes are
  indeterminate (fresh from \<^verbatim>\<open>av_realloc_array\<close>). Sizes and offsets are natural numbers; the
  invariant \<open>fifo_inv\<close> keeps every subtraction of the code non-negative and every index in bounds.
  A loop that would not end is \<open>None\<close>, and so is a failed \<^verbatim>\<open>av_assert0\<close>.
\<close>

section \<open>State and operations\<close>

record 'a AVFifo =
  buffer :: "'a option list"
  elem_size :: nat
  nb_elems :: nat
  offset_r :: nat
  offset_w :: nat
  is_empty :: bool
  fifo_flags :: u32
  auto_grow_limit :: nat

abbreviation AV_FIFO_FLAG_AUTO_GROW :: u32 where "AV_FIFO_FLAG_AUTO_GROW \<equiv> 1"
abbreviation AUTO_GROW_DEFAULT_BYTES :: nat where "AUTO_GROW_DEFAULT_BYTES \<equiv> 1024 * 1024"
abbreviation sizeof_AVFifo :: nat where "sizeof_AVFifo \<equiv> 56"

definition av_fifo_alloc2 :: "(nat \<Rightarrow> bool) \<Rightarrow> nat \<Rightarrow> nat \<Rightarrow> u32 \<Rightarrow> 'a AVFifo option" where
  "av_fifo_alloc2 heap n esize flgs =
     (if esize = 0 then None
      else if n \<noteq> 0 \<and> \<not> av_realloc_array heap n esize then None
      else if \<not> heap sizeof_AVFifo then None
      else Some \<lparr>buffer = replicate n None, elem_size = esize, nb_elems = n, offset_r = 0, offset_w = 0,
             is_empty = True, fifo_flags = flgs, auto_grow_limit = max (AUTO_GROW_DEFAULT_BYTES div esize) 1\<rparr>)"

definition av_fifo_auto_grow_limit :: "'a AVFifo \<Rightarrow> nat \<Rightarrow> 'a AVFifo" where
  "av_fifo_auto_grow_limit f max_elems = f\<lparr>auto_grow_limit := max_elems\<rparr>"

definition av_fifo_elem_size :: "'a AVFifo \<Rightarrow> nat" where
  "av_fifo_elem_size f = elem_size f"

definition av_fifo_can_read :: "'a AVFifo \<Rightarrow> nat" where
  "av_fifo_can_read f =
     (if offset_w f \<le> offset_r f \<and> \<not> is_empty f then nb_elems f - offset_r f + offset_w f
      else offset_w f - offset_r f)"

definition av_fifo_can_write :: "'a AVFifo \<Rightarrow> nat" where
  "av_fifo_can_write f = nb_elems f - av_fifo_can_read f"

definition av_fifo_grow2 :: "(nat \<Rightarrow> bool) \<Rightarrow> 'a AVFifo \<Rightarrow> nat \<Rightarrow> int \<times> 'a AVFifo" where
  "av_fifo_grow2 heap f inc =
     (if inc > SIZE_MAX - nb_elems f then (AVERROR EINVAL, f)
      else if \<not> av_realloc_array heap (nb_elems f + inc) (elem_size f) then (AVERROR ENOMEM, f)
      else
        let tmp = buffer f @ replicate inc None;
            f = f\<lparr>buffer := tmp\<rparr>;
            f = (if offset_w f \<le> offset_r f \<and> \<not> is_empty f
                 then let copy = min inc (offset_w f);
                          tmp = put_at tmp (nb_elems f) (take copy tmp)
                      in if copy < offset_w f
                         then f\<lparr>buffer := put_at tmp 0 (take (offset_w f - copy) (drop copy tmp)),
                                offset_w := offset_w f - copy\<rparr>
                         else f\<lparr>buffer := tmp, offset_w := (if copy = inc then 0 else nb_elems f + copy)\<rparr>
                 else f)
        in (0, f\<lparr>nb_elems := nb_elems f + inc\<rparr>))"

definition fifo_check_space :: "(nat \<Rightarrow> bool) \<Rightarrow> 'a AVFifo \<Rightarrow> nat \<Rightarrow> int \<times> 'a AVFifo" where
  "fifo_check_space heap f to_write =
     (let can_write = av_fifo_can_write f;
          need_grow = (if to_write > can_write then to_write - can_write else 0)
      in if need_grow = 0 then (0, f)
         else
           let can_grow = (if auto_grow_limit f > nb_elems f then auto_grow_limit f - nb_elems f else 0)
           in if fifo_flags f AND AV_FIFO_FLAG_AUTO_GROW \<noteq> 0 \<and> need_grow \<le> can_grow
              then av_fifo_grow2 heap f (if need_grow < can_grow div 2 then need_grow * 2 else can_grow)
              else (AVERROR ENOSPC, f))"

text \<open>
  The write loop. A callback receives its state and the number of elements it may store; it returns
  its code, its new state and the elements it stored at \<^verbatim>\<open>wptr\<close>.
\<close>

type_synonym ('s, 'a) fifo_read_cb = "'s \<Rightarrow> nat \<Rightarrow> int \<times> 's \<times> 'a list"

partial_function (option) fifo_write_loop ::
  "('s, 'a) fifo_read_cb option \<Rightarrow> nat \<Rightarrow> 'a option list \<Rightarrow> nat \<Rightarrow> nat \<Rightarrow> 'a list \<Rightarrow> 's \<Rightarrow> int \<Rightarrow>
   ('a option list \<times> nat \<times> nat \<times> 's \<times> int) option" where
  "fifo_write_loop read_cb nb mem off to_write buf opaque ret =
     (if to_write = 0 then Some (mem, off, to_write, opaque, ret)
      else
        let len = min (nb - off) to_write
        in case read_cb of
             Some cb \<Rightarrow>
               (case cb opaque len of
                  (ret, opaque, xs) \<Rightarrow>
                    let mem = put_at mem off (map Some xs)
                    in if ret < 0 \<or> length xs = 0 then Some (mem, off, to_write, opaque, ret)
                       else fifo_write_loop read_cb nb mem
                              (if off + length xs \<ge> nb then 0 else off + length xs)
                              (to_write - length xs) buf opaque ret)
           | None \<Rightarrow>
               fifo_write_loop read_cb nb (put_at mem off (map Some (take len buf)))
                 (if off + len \<ge> nb then 0 else off + len) (to_write - len) (drop len buf) opaque ret)"

definition fifo_write_common ::
  "(nat \<Rightarrow> bool) \<Rightarrow> 'a AVFifo \<Rightarrow> 'a list \<Rightarrow> nat \<Rightarrow> ('s, 'a) fifo_read_cb option \<Rightarrow> 's \<Rightarrow>
   (int \<times> 'a AVFifo \<times> nat \<times> 's) option" where
  "fifo_write_common heap f buf n read_cb opaque =
     (case fifo_check_space heap f n of
        (ret, f) \<Rightarrow>
          if ret < 0 then Some (ret, f, n, opaque)
          else
            case fifo_write_loop read_cb (nb_elems f) (buffer f) (offset_w f) n buf opaque ret of
              None \<Rightarrow> None
            | Some (mem, off, to_write, opaque, ret) \<Rightarrow>
                let f = f\<lparr>buffer := mem, offset_w := off\<rparr>;
                    f = (if n \<noteq> to_write then f\<lparr>is_empty := False\<rparr> else f)
                in Some (ret, f, n - to_write, opaque))"

definition av_fifo_write :: "(nat \<Rightarrow> bool) \<Rightarrow> 'a AVFifo \<Rightarrow> 'a list \<Rightarrow> nat \<Rightarrow> (int \<times> 'a AVFifo) option" where
  "av_fifo_write heap f buf n =
     map_option (\<lambda>(ret, f, _, _). (ret, f)) (fifo_write_common heap f buf n (None :: (unit, 'a) fifo_read_cb option) ())"

definition av_fifo_write_from_cb ::
  "(nat \<Rightarrow> bool) \<Rightarrow> 'a AVFifo \<Rightarrow> ('s, 'a) fifo_read_cb \<Rightarrow> 's \<Rightarrow> nat \<Rightarrow> (int \<times> 'a AVFifo \<times> nat \<times> 's) option" where
  "av_fifo_write_from_cb heap f read_cb opaque n = fifo_write_common heap f [] n (Some read_cb) opaque"

text \<open>The read loop. A callback is given the slots at \<^verbatim>\<open>rptr\<close> and says how many it took.\<close>

type_synonym ('s, 'a) fifo_write_cb = "'s \<Rightarrow> 'a option list \<Rightarrow> int \<times> 's \<times> nat"

partial_function (option) fifo_peek_loop ::
  "('s, 'a) fifo_write_cb option \<Rightarrow> nat \<Rightarrow> 'a option list \<Rightarrow> nat \<Rightarrow> nat \<Rightarrow> 'a option list \<Rightarrow> 's \<Rightarrow> int \<Rightarrow>
   ('a option list \<times> nat \<times> 's \<times> int) option" where
  "fifo_peek_loop write_cb nb mem off to_read buf opaque ret =
     (if to_read = 0 then Some (buf, to_read, opaque, ret)
      else
        let len = min (nb - off) to_read;
            rptr = take len (drop off mem)
        in case write_cb of
             Some cb \<Rightarrow>
               (case cb opaque rptr of
                  (ret, opaque, len) \<Rightarrow>
                    if ret < 0 \<or> len = 0 then Some (buf, to_read, opaque, ret)
                    else fifo_peek_loop write_cb nb mem (if off + len \<ge> nb then 0 else off + len)
                           (to_read - len) buf opaque ret)
           | None \<Rightarrow>
               fifo_peek_loop write_cb nb mem (if off + len \<ge> nb then 0 else off + len)
                 (to_read - len) (buf @ rptr) opaque ret)"

definition fifo_peek_common ::
  "'a AVFifo \<Rightarrow> nat \<Rightarrow> nat \<Rightarrow> ('s, 'a) fifo_write_cb option \<Rightarrow> 's \<Rightarrow> (int \<times> 'a option list \<times> nat \<times> 's) option" where
  "fifo_peek_common f n offset write_cb opaque =
     (let to_read = n;
          off = offset_r f;
          can_read = av_fifo_can_read f
      in if offset > can_read \<or> to_read > can_read - offset then Some (AVERROR EINVAL, [], 0, opaque)
         else
           let off = (if off \<ge> nb_elems f - offset then off - (nb_elems f - offset) else off + offset)
           in map_option (\<lambda>(buf, to_read, opaque, ret). (ret, buf, n - to_read, opaque))
                (fifo_peek_loop write_cb (nb_elems f) (buffer f) off to_read [] opaque 0))"

definition av_fifo_drain2 :: "'a AVFifo \<Rightarrow> nat \<Rightarrow> 'a AVFifo option" where
  "av_fifo_drain2 f sz =
     (let cur_size = av_fifo_can_read f
      in if \<not> cur_size \<ge> sz then None
         else
           let f = (if cur_size = sz then f\<lparr>is_empty := True\<rparr> else f)
           in Some (if offset_r f \<ge> nb_elems f - sz then f\<lparr>offset_r := offset_r f - (nb_elems f - sz)\<rparr>
                    else f\<lparr>offset_r := offset_r f + sz\<rparr>))"

definition av_fifo_read :: "'a AVFifo \<Rightarrow> nat \<Rightarrow> (int \<times> 'a option list \<times> 'a AVFifo) option" where
  "av_fifo_read f n =
     (case fifo_peek_common f n 0 (None :: (unit, 'a) fifo_write_cb option) () of
        None \<Rightarrow> None
      | Some (ret, buf, n, _) \<Rightarrow> map_option (\<lambda>f. (ret, buf, f)) (av_fifo_drain2 f n))"

definition av_fifo_read_to_cb ::
  "'a AVFifo \<Rightarrow> ('s, 'a) fifo_write_cb \<Rightarrow> 's \<Rightarrow> nat \<Rightarrow> (int \<times> nat \<times> 's \<times> 'a AVFifo) option" where
  "av_fifo_read_to_cb f write_cb opaque n =
     (case fifo_peek_common f n 0 (Some write_cb) opaque of
        None \<Rightarrow> None
      | Some (ret, _, n, opaque) \<Rightarrow> map_option (\<lambda>f. (ret, n, opaque, f)) (av_fifo_drain2 f n))"

definition av_fifo_peek :: "'a AVFifo \<Rightarrow> nat \<Rightarrow> nat \<Rightarrow> (int \<times> 'a option list) option" where
  "av_fifo_peek f n offset =
     map_option (\<lambda>(ret, buf, _, _). (ret, buf)) (fifo_peek_common f n offset (None :: (unit, 'a) fifo_write_cb option) ())"

definition av_fifo_peek_to_cb ::
  "'a AVFifo \<Rightarrow> ('s, 'a) fifo_write_cb \<Rightarrow> 's \<Rightarrow> nat \<Rightarrow> nat \<Rightarrow> (int \<times> nat \<times> 's) option" where
  "av_fifo_peek_to_cb f write_cb opaque n offset =
     map_option (\<lambda>(ret, _, n, opaque). (ret, n, opaque)) (fifo_peek_common f n offset (Some write_cb) opaque)"

definition av_fifo_reset2 :: "'a AVFifo \<Rightarrow> 'a AVFifo" where
  "av_fifo_reset2 f = f\<lparr>offset_r := 0, offset_w := 0, is_empty := True\<rparr>"

section \<open>Windows of a ring buffer\<close>

definition ring :: "'a list \<Rightarrow> nat \<Rightarrow> nat \<Rightarrow> 'a list" where
  "ring b off n = map (\<lambda>i. b ! ((off + i) mod length b)) [0..<n]"

lemma length_ring [simp]: "length (ring b off n) = n"
  by (simp add: ring_def)

lemma ring_0 [simp]: "ring b off 0 = []"
  by (simp add: ring_def)

lemma nth_ring: "i < n \<Longrightarrow> ring b off n ! i = b ! ((off + i) mod length b)"
  by (simp add: ring_def)

lemma ring_add: "ring b off (m + n) = ring b off m @ ring b (off + m) n"
  by (rule nth_equalityI) (auto simp: nth_append nth_ring add.assoc)

lemma ring_mod: "ring b (off mod length b) n = ring b off n"
  by (simp add: ring_def mod_add_left_eq)

lemma take_ring: "m \<le> n \<Longrightarrow> take m (ring b off n) = ring b off m"
  by (simp add: ring_def take_map)

lemma drop_ring: "m \<le> n \<Longrightarrow> drop m (ring b off n) = ring b (off + m) (n - m)"
  using ring_add [of b off m "n - m"] by simp

lemma ring_straight: "off + n \<le> length b \<Longrightarrow> ring b off n = take n (drop off b)"
  by (rule nth_equalityI) (simp_all add: nth_ring)

lemma ring_cong: "length b = length b' \<Longrightarrow> (\<And>i. i < n \<Longrightarrow> b ! ((off + i) mod length b) = b' ! ((off + i) mod length b)) \<Longrightarrow>
  ring b off n = ring b' off n"
  by (simp add: ring_def)

text \<open>Writing the window that follows a window appends to it.\<close>

lemma ring_put_at:
  assumes "w = (r + c) mod length b" "c + length xs \<le> length b" "w + length xs \<le> length b"
  shows "ring (put_at b w xs) r (c + length xs) = ring b r c @ xs"
proof -
  let ?b = "put_at b w xs" and ?n = "length b"
  have len: "length ?b = ?n" using assms(3) by (rule length_put_at)
  have "ring ?b r c = ring b r c"
  proof (rule ring_cong [OF len])
    fix i assume i: "i < c"
    then have nz: "0 < ?n" using assms(2) by linarith
    have "\<not> (w \<le> (r + i) mod ?n \<and> (r + i) mod ?n < w + length xs)"
    proof
      assume in_win: "w \<le> (r + i) mod ?n \<and> (r + i) mod ?n < w + length xs"
      then obtain j where j: "(r + i) mod ?n = w + j" "j < length xs" by (metis le_Suc_ex nat_add_left_cancel_less)
      then have "w + j = (r + c + j) mod ?n" using assms(1,3) by (metis mod_add_left_eq mod_mod_trivial)
      then have "(r + (c + j)) mod ?n = (r + i) mod ?n" using j by (simp add: add.assoc)
      then have "(c + j) mod ?n = i mod ?n" by (simp add: nat_mod_eq_iff add.assoc)
      with i j assms(2) show False by simp
    qed
    with nz show "?b ! ((r + i) mod length ?b) = b ! ((r + i) mod length ?b)"
      unfolding len by (subst nth_put_at [OF assms(3)]) auto
  qed
  moreover have "ring ?b (r + c) (length xs) = xs"
  proof -
    have "ring ?b (r + c) (length xs) = ring ?b w (length xs)"
      using ring_mod [of ?b "r + c" "length xs"] unfolding len by (simp only: assms(1))
    also have "\<dots> = take (length xs) (drop w ?b)" by (rule ring_straight) (simp add: len assms(3))
    also have "\<dots> = xs" using assms(3) by (simp add: put_at_def)
    finally show ?thesis .
  qed
  ultimately show ?thesis by (simp add: ring_add)
qed

section \<open>Invariant and contents\<close>

definition fifo_slots :: "'a AVFifo \<Rightarrow> 'a option list" where
  "fifo_slots f = ring (buffer f) (offset_r f) (av_fifo_can_read f)"

definition fifo_contents :: "'a AVFifo \<Rightarrow> 'a list" where
  "fifo_contents f = map the (fifo_slots f)"

definition fifo_inv :: "'a AVFifo \<Rightarrow> bool" where
  "fifo_inv f \<longleftrightarrow>
     length (buffer f) = nb_elems f \<and> nb_elems f \<le> SIZE_MAX \<and> 0 < elem_size f \<and> elem_size f \<le> SIZE_MAX \<and>
     (if nb_elems f = 0 then offset_r f = 0 \<and> offset_w f = 0 \<and> is_empty f
      else offset_r f < nb_elems f \<and> offset_w f < nb_elems f) \<and>
     (is_empty f \<longrightarrow> offset_w f = offset_r f) \<and>
     None \<notin> set (fifo_slots f)"

lemma ring_index: "r < n \<Longrightarrow> c \<le> n \<Longrightarrow> (r + c) mod n = (if r + c < n then r + c else r + c - n)" for r c n :: nat
  by (auto simp: not_less le_mod_geq)

lemma fifo_offsets:
  assumes "fifo_inv f"
  shows "av_fifo_can_read f \<le> nb_elems f" "av_fifo_can_read f = 0 \<longleftrightarrow> is_empty f"
    "offset_w f = (offset_r f + av_fifo_can_read f) mod nb_elems f"
    "length (buffer f) = nb_elems f" "0 < nb_elems f \<Longrightarrow> offset_r f < nb_elems f \<and> offset_w f < nb_elems f"
proof -
  show c: "av_fifo_can_read f \<le> nb_elems f" and "av_fifo_can_read f = 0 \<longleftrightarrow> is_empty f" and "length (buffer f) = nb_elems f"
    and o: "0 < nb_elems f \<Longrightarrow> offset_r f < nb_elems f \<and> offset_w f < nb_elems f"
    using assms by (auto simp: fifo_inv_def av_fifo_can_read_def split: if_splits)
  show "offset_w f = (offset_r f + av_fifo_can_read f) mod nb_elems f"
  proof (cases "nb_elems f = 0")
    case True
    then show ?thesis using assms by (simp add: fifo_inv_def av_fifo_can_read_def)
  next
    case False
    then show ?thesis using o c assms
      by (subst ring_index) (auto simp: fifo_inv_def av_fifo_can_read_def split: if_splits)
  qed
qed

lemma length_fifo_contents [simp]: "length (fifo_contents f) = av_fifo_can_read f"
  by (simp add: fifo_contents_def fifo_slots_def)

lemma map_Some_the: "None \<notin> set xs \<Longrightarrow> map Some (map the xs) = xs"
  by (induction xs) auto

lemma fifo_slots_contents: "fifo_inv f \<Longrightarrow> fifo_slots f = map Some (fifo_contents f)"
proof -
  assume "fifo_inv f"
  then have "None \<notin> set (fifo_slots f)" by (simp add: fifo_inv_def)
  then show ?thesis unfolding fifo_contents_def by (rule map_Some_the [symmetric])
qed

text \<open>How the operations establish the invariant: from offsets that agree with a count.\<close>

lemma fifo_invI:
  assumes "length (buffer f) = nb_elems f" "nb_elems f \<le> SIZE_MAX" "0 < elem_size f" "elem_size f \<le> SIZE_MAX"
    "c \<le> nb_elems f" "offset_w f = (offset_r f + c) mod nb_elems f" "is_empty f \<longleftrightarrow> c = 0"
    "if nb_elems f = 0 then offset_r f = 0 else offset_r f < nb_elems f"
    "ring (buffer f) (offset_r f) c = map Some xs"
  shows "fifo_inv f \<and> av_fifo_can_read f = c \<and> fifo_contents f = xs"
proof -
  have c: "av_fifo_can_read f = c"
  proof (cases "nb_elems f = 0")
    case True
    then show ?thesis using assms(5-8) by (simp add: av_fifo_can_read_def)
  next
    case False
    then show ?thesis using assms(5-8) ring_index [of "offset_r f" "nb_elems f" c]
      by (auto simp: av_fifo_can_read_def split: if_splits)
  qed
  then have "fifo_slots f = map Some xs" by (simp add: fifo_slots_def assms(9))
  then show ?thesis
    using assms(1-8) c by (auto simp: fifo_inv_def fifo_contents_def comp_def split: if_splits)
qed

section \<open>Allocation, reset and draining\<close>

lemma av_fifo_alloc2_inv:
  assumes "av_fifo_alloc2 heap n esize flgs = Some f" "n \<le> SIZE_MAX" "esize \<le> SIZE_MAX"
  shows "fifo_inv f \<and> fifo_contents f = [] \<and> av_fifo_can_write f = n"
proof -
  have f: "buffer f = replicate n None" "elem_size f = esize" "nb_elems f = n" "offset_r f = 0" "offset_w f = 0" "is_empty f"
    "0 < esize"
    using assms(1) by (auto simp: av_fifo_alloc2_def simp del: max.cobounded1 split: if_splits)
  then have "fifo_inv f \<and> av_fifo_can_read f = 0 \<and> fifo_contents f = []"
    using assms(2,3) by (intro fifo_invI) simp_all
  then show ?thesis using f(3) by (simp add: av_fifo_can_write_def)
qed

lemma av_fifo_reset2_inv: "fifo_inv f \<Longrightarrow> fifo_inv (av_fifo_reset2 f) \<and> fifo_contents (av_fifo_reset2 f) = []"
proof -
  assume "fifo_inv f"
  then have "fifo_inv (av_fifo_reset2 f) \<and> av_fifo_can_read (av_fifo_reset2 f) = 0 \<and> fifo_contents (av_fifo_reset2 f) = []"
    by (intro fifo_invI) (simp_all add: av_fifo_reset2_def fifo_inv_def split: if_splits)
  then show ?thesis by simp
qed

lemma av_fifo_drain2_inv:
  assumes "fifo_inv f" "n \<le> av_fifo_can_read f"
  obtains f' where "av_fifo_drain2 f n = Some f'" "fifo_inv f'" "fifo_contents f' = drop n (fifo_contents f)"
    "nb_elems f' = nb_elems f" "av_fifo_can_read f' = av_fifo_can_read f - n"
proof -
  let ?c = "av_fifo_can_read f" and ?r = "(offset_r f + n) mod nb_elems f"
  note o = fifo_offsets [OF assms(1)]
  define f' where "f' = f\<lparr>is_empty := (?c = n), offset_r := ?r\<rparr>"
  have r: "(if offset_r f \<ge> nb_elems f - n then offset_r f - (nb_elems f - n) else offset_r f + n) = ?r"
  proof (cases "nb_elems f = 0")
    case True
    then show ?thesis using assms(1) o(1) assms(2) by (simp add: fifo_inv_def)
  next
    case False
    then show ?thesis using o(1,5) assms(2) by (subst ring_index) auto
  qed
  have upd: "(if ?c = n then f\<lparr>is_empty := True\<rparr> else f) = f\<lparr>is_empty := (?c = n)\<rparr>"
    using o(2) assms(2) by (cases "is_empty f") auto
  have d: "av_fifo_drain2 f n = Some f'"
    using assms(2) r unfolding av_fifo_drain2_def Let_def upd f'_def
    by (auto simp: if_distrib [of "\<lambda>x. offset_r_update (\<lambda>_. x) _"])
  have "ring (buffer f') (offset_r f') (?c - n) = map Some (drop n (fifo_contents f))"
  proof -
    have "ring (buffer f) ?r (?c - n) = ring (buffer f) (offset_r f + n) (?c - n)"
      unfolding o(4) [symmetric] by (rule ring_mod)
    also have "\<dots> = drop n (fifo_slots f)" unfolding fifo_slots_def using assms(2) by (rule drop_ring [symmetric])
    finally show ?thesis by (simp add: f'_def fifo_slots_contents [OF assms(1)] drop_map)
  qed
  then have "fifo_inv f' \<and> av_fifo_can_read f' = ?c - n \<and> fifo_contents f' = drop n (fifo_contents f)"
  proof (intro fifo_invI)
    have "(?r + (?c - n)) mod nb_elems f = (offset_r f + n + (?c - n)) mod nb_elems f" by (rule mod_add_left_eq)
    then show "offset_w f' = (offset_r f' + (?c - n)) mod nb_elems f'" using o(3) assms(2) by (simp add: f'_def)
    show "if nb_elems f' = 0 then offset_r f' = 0 else offset_r f' < nb_elems f'"
      using o(1) assms by (simp add: f'_def fifo_inv_def)
  qed (use assms o(1,4) in \<open>auto simp: f'_def fifo_inv_def\<close>)
  then show thesis using d by (intro that [of f']) (simp_all add: f'_def)
qed

section \<open>Growing\<close>

lemma av_fifo_grow2_ok:
  assumes "fifo_inv f" "inc \<le> SIZE_MAX - nb_elems f" "av_realloc_array heap (nb_elems f + inc) (elem_size f)"
  obtains f' where "av_fifo_grow2 heap f inc = (0, f')" "fifo_inv f'" "fifo_contents f' = fifo_contents f"
    "nb_elems f' = nb_elems f + inc" "av_fifo_can_read f' = av_fifo_can_read f"
    "fifo_flags f' = fifo_flags f" "auto_grow_limit f' = auto_grow_limit f"
proof -
  let ?n = "nb_elems f" and ?c = "av_fifo_can_read f" and ?r = "offset_r f" and ?w = "offset_w f"
  note o = fifo_offsets [OF assms(1)]
  have sz: "?n + inc \<le> SIZE_MAX" using assms(1,2) by (auto simp: fifo_inv_def)
  define f' where "f' = snd (av_fifo_grow2 heap f inc)"
  have fits: "\<not> SIZE_MAX - ?n < inc" using assms(2) by simp
  note grow = av_fifo_grow2_def Let_def if_not_P [OF fits] assms(3) not_True_eq_False if_False
  have g: "av_fifo_grow2 heap f inc = (0, f')"
    by (simp only: f'_def grow snd_conv)
  have keep: "nb_elems f' = ?n + inc" "offset_r f' = ?r" "is_empty f' = is_empty f" "elem_size f' = elem_size f"
    "fifo_flags f' = fifo_flags f" "auto_grow_limit f' = auto_grow_limit f"
    by (simp_all only: f'_def grow snd_conv) simp_all
  have "fifo_inv f' \<and> av_fifo_can_read f' = ?c \<and> fifo_contents f' = fifo_contents f"
  proof (cases "?w \<le> ?r \<and> \<not> is_empty f")
    case False
    then have lin: "?r + ?c = ?w" "?w \<le> ?n"
      using assms(1) by (auto simp: av_fifo_can_read_def fifo_inv_def split: if_splits)
    have f': "buffer f' = buffer f @ replicate inc None" "offset_w f' = ?w"
      using False by (auto simp: f'_def grow)
    have "ring (buffer f') ?r ?c = ring (buffer f) ?r ?c"
      using lin o(4) by (simp add: ring_straight f')
    then have "ring (buffer f') (offset_r f') ?c = map Some (fifo_contents f)"
      unfolding keep using fifo_slots_contents [OF assms(1)] by (simp add: fifo_slots_def)
    then show ?thesis
      using assms(1) sz o(1,2,4) lin False keep f' by (intro fifo_invI) (simp_all add: fifo_inv_def, auto split: if_splits)
  next
    case True
    then have wrap: "?w \<le> ?r" by blast
    define copy where "copy = min inc ?w"
    define tmp where "tmp = put_at (buffer f @ replicate inc None) ?n (take copy (buffer f @ replicate inc None))"
    have n: "0 < ?n" "?r < ?n" "?w < ?n" "?c = ?n - ?r + ?w"
      using True assms(1) by (auto simp: fifo_inv_def av_fifo_can_read_def split: if_splits)
    have copy: "copy \<le> inc" "copy \<le> ?w" "copy < ?w \<Longrightarrow> copy = inc" by (auto simp: copy_def)
    have ltmp: "length tmp = ?n + inc" unfolding tmp_def using copy n o(4) by (subst length_put_at) simp_all
    have ntmp: "tmp ! i = (if i < ?n then buffer f ! i else if i < ?n + copy then buffer f ! (i - ?n) else None)"
      if "i < ?n + inc" for i
      unfolding tmp_def using that copy n o(4) by (subst nth_put_at) (auto simp: nth_append)
    have f': "buffer f' = (if copy < ?w then put_at tmp 0 (take (?w - copy) (drop copy tmp)) else tmp)"
      "offset_w f' = (if copy < ?w then ?w - copy else if copy = inc then 0 else ?n + copy)"
      using True by (simp_all add: f'_def grow copy_def tmp_def)
    have lb: "length (buffer f') = ?n + inc"
      using ltmp copy n by (auto simp: f' length_put_at)
    have moved: "put_at tmp 0 (take (?w - copy) (drop copy tmp)) ! i = (if i < ?w - copy then tmp ! (copy + i) else tmp ! i)"
      if "i < ?n + inc" for i
      using that ltmp copy n by (subst nth_put_at) (auto simp: min_def)
    have slot: "buffer f' ! ((?r + i) mod (?n + inc)) = buffer f ! ((?r + i) mod ?n)" if "i < ?c" for i
    proof (cases "?r + i < ?n")
      case True
      then show ?thesis using ntmp [of "?r + i"] ltmp copy n wrap
        by (auto simp: f' moved)
    next
      case False
      then have m: "(?r + i) mod ?n = ?r + i - ?n" "?r + i - ?n < ?w" using that n wrap ring_index [of ?r ?n i] by auto
      show ?thesis
      proof (cases "?r + i < ?n + inc")
        case True
        then show ?thesis using False m ntmp [of "?r + i"] moved [of "?r + i"] ltmp copy n that
          by (cases "copy < ?w") (auto simp: f')
      next
        case over: False
        then have "copy = inc" "copy < ?w" using m by (auto simp: copy_def)
        moreover have "(?r + i) mod (?n + inc) = ?r + i - (?n + inc)" using over that n wrap ring_index [of ?r "?n + inc" i] by auto
        ultimately show ?thesis using over m ltmp n ntmp [of "?r + i - ?n"] moved [of "?r + i - (?n + inc)"]
          by (auto simp: f')
      qed
    qed
    have "ring (buffer f') (offset_r f') ?c = ring (buffer f) ?r ?c"
      unfolding keep by (rule nth_equalityI) (simp_all add: nth_ring lb o(4) slot)
    then have "ring (buffer f') (offset_r f') ?c = map Some (fifo_contents f)"
      using fifo_slots_contents [OF assms(1)] by (simp add: fifo_slots_def)
    moreover have "offset_w f' = (offset_r f' + ?c) mod nb_elems f'"
    proof -
      have sum: "?r + ?c = ?n + ?w" using n by linarith
      have "(?r + ?c) mod (?n + inc) = (if ?r + ?c < ?n + inc then ?r + ?c else ?r + ?c - (?n + inc))"
        using n wrap by (intro ring_index) linarith+
      then show ?thesis unfolding keep f'(2) sum using copy by (cases "copy < ?w") simp_all
    qed
    ultimately show ?thesis
      using assms(1) sz o(1,2,4) n lb keep by (intro fifo_invI) (simp_all add: fifo_inv_def)
  qed
  then show thesis using g keep by (intro that [of f']) simp_all
qed

lemma av_fifo_grow2_cases:
  assumes "fifo_inv f"
  obtains (einval) "av_fifo_grow2 heap f inc = (AVERROR EINVAL, f)"
  | (enomem) "av_fifo_grow2 heap f inc = (AVERROR ENOMEM, f)"
  | (ok) f' where "av_fifo_grow2 heap f inc = (0, f')" "fifo_inv f'" "fifo_contents f' = fifo_contents f"
      "nb_elems f' = nb_elems f + inc" "av_fifo_can_read f' = av_fifo_can_read f"
proof (cases "inc \<le> SIZE_MAX - nb_elems f \<and> av_realloc_array heap (nb_elems f + inc) (elem_size f)")
  case True
  then show thesis using av_fifo_grow2_ok [OF assms] ok by blast
next
  case False
  then have "av_fifo_grow2 heap f inc = (AVERROR EINVAL, f) \<or> av_fifo_grow2 heap f inc = (AVERROR ENOMEM, f)"
    by (auto simp: av_fifo_grow2_def)
  then show thesis using einval enomem by blast
qed


section \<open>The write and read loops\<close>

lemma ring_advance:
  fixes off r c nb len :: nat
  assumes "off = (r + c) mod nb" "0 < nb" "len \<le> nb - off"
  shows "(if off + len \<ge> nb then 0 else off + len) = (r + (c + len)) mod nb"
proof -
  have "off < nb" unfolding assms(1) using assms(2) by (rule mod_less_divisor)
  then have "(off + len) mod nb = (if off + len \<ge> nb then 0 else off + len)"
    using assms(3) by (cases "off + len = nb") auto
  moreover have "(off + len) mod nb = (r + c + len) mod nb" unfolding assms(1) by (rule mod_add_left_eq)
  ultimately show ?thesis by (simp add: add.assoc)
qed

lemma put_at_keeps_ring:
  assumes "w = (r + c) mod length b" "c + length xs \<le> length b" "w + length xs \<le> length b"
  shows "ring (put_at b w xs) r c = ring b r c"
  using ring_put_at [OF assms] ring_add [of "put_at b w xs" r c "length xs"] by simp

lemma fifo_write_loop_buf:
  "length mem = nb \<Longrightarrow> n = 0 \<or> 0 < nb \<Longrightarrow> c + n \<le> nb \<Longrightarrow> off = (r + c) mod nb \<Longrightarrow> n \<le> length buf \<Longrightarrow>
   \<exists>mem'. fifo_write_loop None nb mem off n buf opaque ret = Some (mem', (r + (c + n)) mod nb, 0, opaque, ret) \<and>
     length mem' = nb \<and> ring mem' r (c + n) = ring mem r c @ map Some (take n buf)"
proof (induction n arbitrary: mem off c buf rule: less_induct)
  case (less n)
  show ?case
  proof (cases "n = 0")
    case True
    then show ?thesis using less.prems by (subst fifo_write_loop.simps) simp
  next
    case False
    define len where "len = min (nb - off) n"
    define mem1 where "mem1 = put_at mem off (map Some (take len buf))"
    have nb: "0 < nb" "off < nb" using less.prems False by auto
    have len: "0 < len" "len \<le> n" "len \<le> nb - off" "len \<le> length buf"
      using nb False less.prems(5) by (auto simp: len_def)
    have m1: "length mem1 = nb" "ring mem1 r (c + len) = ring mem r c @ map Some (take len buf)"
      using less.prems len nb length_put_at [of off "map Some (take len buf)" mem]
        ring_put_at [of off r c mem "map Some (take len buf)"]
      by (simp_all add: mem1_def)
    have adv: "(if off + len \<ge> nb then 0 else off + len) = (r + (c + len)) mod nb"
      using less.prems(4) nb(1) len(3) by (rule ring_advance)
    obtain mem' where m': "fifo_write_loop None nb mem1 ((r + (c + len)) mod nb) (n - len) (drop len buf) opaque ret =
        Some (mem', (r + (c + len + (n - len))) mod nb, 0, opaque, ret)"
      "length mem' = nb" "ring mem' r (c + len + (n - len)) = ring mem1 r (c + len) @ map Some (take (n - len) (drop len buf))"
      using less.IH [of "n - len" mem1 "c + len" "(r + (c + len)) mod nb" "drop len buf"] diff_le_mono [OF less.prems(5), of len] len m1(1) less.prems nb by auto
    have "fifo_write_loop None nb mem off n buf opaque ret =
      fifo_write_loop None nb mem1 ((r + (c + len)) mod nb) (n - len) (drop len buf) opaque ret"
      by (subst fifo_write_loop.simps)
        (simp only: False if_False Let_def len_def [symmetric] mem1_def [symmetric] option.simps adv)
    moreover have "take n buf = take len buf @ take (n - len) (drop len buf)"
      using len(2) take_add [of len "n - len" buf] by simp
    ultimately show ?thesis using m' m1(2) len(2) by (intro exI [of _ mem']) simp
  qed
qed

text \<open>
  What a callback has delivered, for the statements about \<^verbatim>\<open>av_fifo_write_from_cb\<close> and
  \<^verbatim>\<open>av_fifo_read_to_cb\<close>: the callback run with a log beside its own state.
\<close>

definition logged_read_cb :: "('s, 'a) fifo_read_cb \<Rightarrow> ('s \<times> 'a list, 'a) fifo_read_cb" where
  "logged_read_cb cb = (\<lambda>(s, lg) n. case cb s n of (ret, s, xs) \<Rightarrow> (ret, (s, if ret < 0 then lg else lg @ xs), xs))"

definition logged_write_cb :: "('s, 'a) fifo_write_cb \<Rightarrow> ('s \<times> 'a option list, 'a) fifo_write_cb" where
  "logged_write_cb cb = (\<lambda>(s, lg) slots. case cb s slots of (ret, s, k) \<Rightarrow> (ret, (s, if ret < 0 then lg else lg @ take k slots), k))"

text \<open>The documented contract of the callbacks: they process at most what they are offered.\<close>

definition read_cb_ok :: "('s, 'a) fifo_read_cb \<Rightarrow> bool" where
  "read_cb_ok cb \<longleftrightarrow> (\<forall>s n. length (snd (snd (cb s n))) \<le> n)"

definition write_cb_ok :: "('s, 'a) fifo_write_cb \<Rightarrow> bool" where
  "write_cb_ok cb \<longleftrightarrow> (\<forall>s slots. snd (snd (cb s slots)) \<le> length slots)"

lemma fifo_write_loop_cb:
  assumes "read_cb_ok cb"
  shows "length mem = nb \<Longrightarrow> n = 0 \<or> 0 < nb \<Longrightarrow> c + n \<le> nb \<Longrightarrow> off = (r + c) mod nb \<Longrightarrow>
   \<exists>mem' ys s' ret'. fifo_write_loop (Some (logged_read_cb cb)) nb mem off n buf (s, lg) ret =
       Some (mem', (r + (c + length ys)) mod nb, n - length ys, (s', lg @ ys), ret') \<and>
     length mem' = nb \<and> length ys \<le> n \<and> ring mem' r (c + length ys) = ring mem r c @ map Some ys"
proof (induction n arbitrary: mem off c s lg ret rule: less_induct)
  case (less n)
  show ?case
  proof (cases "n = 0")
    case True
    then show ?thesis using less.prems by (intro exI [of _ mem] exI [of _ "[]"]) (subst fifo_write_loop.simps, simp)
  next
    case False
    define len where "len = min (nb - off) n"
    obtain ret1 s1 xs where cb: "cb s len = (ret1, s1, xs)" by (cases "cb s len")
    have "length (snd (snd (cb s len))) \<le> len" using assms unfolding read_cb_ok_def by blast
    then have xs: "length xs \<le> len" by (simp add: cb)
    define mem1 where "mem1 = put_at mem off (map Some xs)"
    have nb: "0 < nb" "off < nb" using less.prems False by auto
    have len: "0 < len" "len \<le> n" "len \<le> nb - off" using nb False by (auto simp: len_def)
    have m1: "length mem1 = nb" "ring mem1 r (c + length xs) = ring mem r c @ map Some xs" "ring mem1 r c = ring mem r c"
      using less.prems len nb xs length_put_at [of off "map Some xs" mem] ring_put_at [of off r c mem "map Some xs"]
        put_at_keeps_ring [of off r c mem "map Some xs"]
      by (simp_all add: mem1_def)
    show ?thesis
    proof (cases "ret1 < 0 \<or> length xs = 0")
      case True
      then have "fifo_write_loop (Some (logged_read_cb cb)) nb mem off n buf (s, lg) ret =
          Some (mem1, off, n, (s1, lg), ret1)"
        using False cb by (subst fifo_write_loop.simps) (auto simp: Let_def len_def [symmetric] mem1_def logged_read_cb_def)
      then show ?thesis using m1 less.prems
        by (intro exI [of _ mem1] exI [of _ "[]"] exI [of _ s1] exI [of _ ret1]) simp
    next
      case go: False
      have adv: "(if off + length xs \<ge> nb then 0 else off + length xs) = (r + (c + length xs)) mod nb"
        using less.prems(4) nb(1) xs len(3) by (intro ring_advance) simp_all
      have step: "fifo_write_loop (Some (logged_read_cb cb)) nb mem off n buf (s, lg) ret =
        fifo_write_loop (Some (logged_read_cb cb)) nb mem1 ((r + (c + length xs)) mod nb) (n - length xs) buf (s1, lg @ xs) ret1"
        using go by (subst fifo_write_loop.simps)
          (simp only: False if_False Let_def len_def [symmetric] mem1_def [symmetric] option.simps prod.case
            logged_read_cb_def cb adv de_Morgan_disj simp_thms)
      obtain mem' ys s' ret' where ih: "fifo_write_loop (Some (logged_read_cb cb)) nb mem1 ((r + (c + length xs)) mod nb)
            (n - length xs) buf (s1, lg @ xs) ret1 =
          Some (mem', (r + (c + length xs + length ys)) mod nb, n - length xs - length ys, (s', (lg @ xs) @ ys), ret')"
        "length mem' = nb" "length ys \<le> n - length xs"
        "ring mem' r (c + length xs + length ys) = ring mem1 r (c + length xs) @ map Some ys"
        using less.IH [of "n - length xs" mem1 "c + length xs" "(r + (c + length xs)) mod nb" s1 "lg @ xs" ret1]
          go xs len m1(1) less.prems nb by auto
      show ?thesis unfolding step ih(1)
        using ih m1(2) xs len(2) by (intro exI [of _ mem'] exI [of _ "xs @ ys"] exI [of _ s'] exI [of _ ret']) (simp add: add.assoc)
    qed
  qed
qed

lemma fifo_peek_loop_buf:
  "length mem = nb \<Longrightarrow> n = 0 \<or> off < nb \<Longrightarrow> n \<le> nb \<Longrightarrow>
   fifo_peek_loop None nb mem off n buf opaque ret = Some (buf @ ring mem off n, 0, opaque, ret)"
proof (induction n arbitrary: off buf rule: less_induct)
  case (less n)
  show ?case
  proof (cases "n = 0")
    case True
    then show ?thesis by (subst fifo_peek_loop.simps) simp
  next
    case False
    define len where "len = min (nb - off) n"
    have off: "off < nb" using False less.prems by simp
    have len: "0 < len" "len \<le> n" "len \<le> nb - off" using off False by (auto simp: len_def)
    have adv: "(if off + len \<ge> nb then 0 else off + len) = (off + (0 + len)) mod nb"
      using off len(3) by (intro ring_advance) simp_all
    have "fifo_peek_loop None nb mem off n buf opaque ret =
      fifo_peek_loop None nb mem ((off + len) mod nb) (n - len) (buf @ take len (drop off mem)) opaque ret"
      by (subst fifo_peek_loop.simps) (simp only: False if_False Let_def len_def [symmetric] option.simps adv add_0)
    also have "\<dots> = Some ((buf @ take len (drop off mem)) @ ring mem ((off + len) mod nb) (n - len), 0, opaque, ret)"
      using len less.prems off by (intro less.IH) auto
    finally show ?thesis
      using ring_add [of mem off len "n - len"] ring_straight [of off len mem] ring_mod [of mem "off + len" "n - len"]
        len less.prems(1) by simp
  qed
qed

lemma fifo_peek_loop_cb:
  assumes "write_cb_ok cb"
  shows "length mem = nb \<Longrightarrow> n = 0 \<or> off < nb \<Longrightarrow> n \<le> nb \<Longrightarrow>
   \<exists>k s' ret'. fifo_peek_loop (Some (logged_write_cb cb)) nb mem off n buf (s, lg) ret =
     Some (buf, n - k, (s', lg @ ring mem off k), ret') \<and> k \<le> n"
proof (induction n arbitrary: off s lg ret rule: less_induct)
  case (less n)
  show ?case
  proof (cases "n = 0")
    case True
    then show ?thesis by (intro exI [of _ 0]) (subst fifo_peek_loop.simps, simp)
  next
    case False
    define len where "len = min (nb - off) n"
    have off: "off < nb" using False less.prems by simp
    have len: "0 < len" "len \<le> n" "len \<le> nb - off" using off False by (auto simp: len_def)
    obtain ret1 s1 k where cb: "cb s (take len (drop off mem)) = (ret1, s1, k)" by (cases "cb s (take len (drop off mem))")
    have "snd (snd (cb s (take len (drop off mem)))) \<le> length (take len (drop off mem))"
      using assms unfolding write_cb_ok_def by blast
    then have k: "k \<le> len" by (simp add: cb)
    show ?thesis
    proof (cases "ret1 < 0 \<or> k = 0")
      case True
      then have "fifo_peek_loop (Some (logged_write_cb cb)) nb mem off n buf (s, lg) ret = Some (buf, n, (s1, lg), ret1)"
        using False cb by (subst fifo_peek_loop.simps) (auto simp: Let_def len_def [symmetric] logged_write_cb_def)
      then show ?thesis by (intro exI [of _ 0] exI [of _ s1] exI [of _ ret1]) simp
    next
      case go: False
      have adv: "(if off + k \<ge> nb then 0 else off + k) = (off + (0 + k)) mod nb"
        using off k len(3) by (intro ring_advance) simp_all
      have rk: "take k (take len (drop off mem)) = ring mem off k"
        using ring_straight [of off k mem] k len less.prems(1) by (simp add: min_def)
      have step: "fifo_peek_loop (Some (logged_write_cb cb)) nb mem off n buf (s, lg) ret =
        fifo_peek_loop (Some (logged_write_cb cb)) nb mem ((off + k) mod nb) (n - k) buf (s1, lg @ ring mem off k) ret1"
        using go by (subst fifo_peek_loop.simps)
          (simp only: False if_False Let_def len_def [symmetric] option.simps prod.case
            logged_write_cb_def cb adv add_0 rk de_Morgan_disj simp_thms)
      obtain j s' ret' where ih: "fifo_peek_loop (Some (logged_write_cb cb)) nb mem ((off + k) mod nb) (n - k) buf (s1, lg @ ring mem off k) ret1 =
          Some (buf, n - k - j, (s', (lg @ ring mem off k) @ ring mem ((off + k) mod nb) j), ret')" "j \<le> n - k"
        using less.IH [of "n - k" "(off + k) mod nb" s1 "lg @ ring mem off k" ret1] go k len less.prems off by auto
      have "ring mem off k @ ring mem ((off + k) mod nb) j = ring mem off (k + j)"
        using ring_mod [of mem "off + k" j] less.prems(1) by (simp add: ring_add)
      then show ?thesis unfolding step ih(1)
        using ih(2) k len by (intro exI [of _ "k + j"] exI [of _ s'] exI [of _ ret']) simp
    qed
  qed
qed

section \<open>Writing\<close>

lemma fifo_check_space_cases:
  assumes "fifo_inv f"
  obtains (fail) e where "fifo_check_space heap f n = (AVERROR e, f)" "e \<in> {EINVAL, ENOMEM, ENOSPC}" "av_fifo_can_write f < n"
  | (ok) f' where "fifo_check_space heap f n = (0, f')" "fifo_inv f'" "fifo_contents f' = fifo_contents f"
      "av_fifo_can_read f' = av_fifo_can_read f" "av_fifo_can_read f + n \<le> nb_elems f'"
      "nb_elems f' \<le> max (nb_elems f) (auto_grow_limit f)"
proof (cases "n \<le> av_fifo_can_write f")
  case True
  then show thesis using ok [of f] assms fifo_offsets(1) [OF assms]
    by (simp add: fifo_check_space_def Let_def av_fifo_can_write_def)
next
  case False
  define need where "need = n - av_fifo_can_write f"
  define can where "can = (if auto_grow_limit f > nb_elems f then auto_grow_limit f - nb_elems f else 0)"
  have need: "0 < need" using False by (simp add: need_def)
  show thesis
  proof (cases "fifo_flags f AND AV_FIFO_FLAG_AUTO_GROW \<noteq> 0 \<and> need \<le> can")
    case no: False
    then have "fifo_check_space heap f n = (AVERROR ENOSPC, f)"
      using False need by (auto simp: fifo_check_space_def Let_def need_def can_def)
    then show thesis using fail [of ENOSPC] False by simp
  next
    case grow: True
    define inc where "inc = (if need < can div 2 then need * 2 else can)"
    have inc: "need \<le> inc" "inc \<le> can" using grow by (auto simp: inc_def)
    have eq: "fifo_check_space heap f n = av_fifo_grow2 heap f inc"
      using False grow need unfolding fifo_check_space_def Let_def need_def can_def inc_def by simp
    show thesis
    proof (cases rule: av_fifo_grow2_cases [OF assms, of heap inc, case_names einval enomem ok])
      case einval
      then show thesis using fail [of EINVAL] eq False by simp
    next
      case enomem
      then show thesis using fail [of ENOMEM] eq False by simp
    next
      case (ok f')
      then show thesis
        using that(2) [of f'] eq inc False fifo_offsets(1) [OF assms]
        by (simp add: need_def can_def av_fifo_can_write_def split: if_splits)
    qed
  qed
qed

lemma fifo_write_done:
  assumes "fifo_inv f" "length mem = nb_elems f" "av_fifo_can_read f + length ys \<le> nb_elems f"
    "ring mem (offset_r f) (av_fifo_can_read f + length ys) = ring (buffer f) (offset_r f) (av_fifo_can_read f) @ map Some ys"
    "n - (n - length ys) = length ys"
  defines "g \<equiv> f\<lparr>buffer := mem, offset_w := (offset_r f + (av_fifo_can_read f + length ys)) mod nb_elems f\<rparr>"
  shows "fifo_inv (if n \<noteq> n - length ys then g\<lparr>is_empty := False\<rparr> else g) \<and>
    fifo_contents (if n \<noteq> n - length ys then g\<lparr>is_empty := False\<rparr> else g) = fifo_contents f @ ys"
proof -
  let ?g = "if n \<noteq> n - length ys then g\<lparr>is_empty := False\<rparr> else g"
  note o = fifo_offsets [OF assms(1)]
  have n: "n \<noteq> n - length ys \<longleftrightarrow> 0 < length ys" using assms(5) by linarith
  have "ring (buffer ?g) (offset_r ?g) (av_fifo_can_read f + length ys) = map Some (fifo_contents f @ ys)"
    using assms(4) fifo_slots_contents [OF assms(1)] by (simp add: g_def fifo_slots_def)
  then have "fifo_inv ?g \<and> av_fifo_can_read ?g = av_fifo_can_read f + length ys \<and> fifo_contents ?g = fifo_contents f @ ys"
    using assms(1-3) o(1,2) n by (intro fifo_invI) (simp_all add: g_def fifo_inv_def split: if_splits)
  then show ?thesis by blast
qed


lemma fifo_write_loop_pre:
  assumes "fifo_inv f" "av_fifo_can_read f + n \<le> nb_elems f"
  shows "length (buffer f) = nb_elems f" "n = 0 \<or> 0 < nb_elems f"
    "offset_w f = (offset_r f + av_fifo_can_read f) mod nb_elems f"
  using fifo_offsets [OF assms(1)] assms(2) by auto

lemma fifo_write_common_buf:
  assumes "fifo_inv f" "n \<le> length buf"
  obtains (fail) e where "fifo_write_common heap f buf n None opaque = Some (AVERROR e, f, n, opaque)"
      "e \<in> {EINVAL, ENOMEM, ENOSPC}" "av_fifo_can_write f < n"
  | (ok) f' where "fifo_write_common heap f buf n None opaque = Some (0, f', n, opaque)" "fifo_inv f'"
      "fifo_contents f' = fifo_contents f @ take n buf" "nb_elems f' \<le> max (nb_elems f) (auto_grow_limit f)"
proof (cases rule: fifo_check_space_cases [OF assms(1), of heap n, case_names fail ok])
  case (fail e)
  then show thesis using that(1) [of e] AVERROR_neg [of e] by (simp add: fifo_write_common_def del: AVERROR.simps)
next
  case (ok g)
  have room: "av_fifo_can_read g + n \<le> nb_elems g" using ok by simp
  note pre = fifo_write_loop_pre [OF ok(2) room]
  obtain mem where loop: "fifo_write_loop None (nb_elems g) (buffer g) (offset_w g) n buf opaque 0 =
      Some (mem, (offset_r g + (av_fifo_can_read g + n)) mod nb_elems g, 0, opaque, 0)" "length mem = nb_elems g"
    "ring mem (offset_r g) (av_fifo_can_read g + n) = ring (buffer g) (offset_r g) (av_fifo_can_read g) @ map Some (take n buf)"
    using fifo_write_loop_buf [OF pre(1,2) room pre(3) assms(2)] by metis
  have ys: "length (take n buf) = n" using assms(2) by simp
  define f' where "f' = (let g' = g\<lparr>buffer := mem, offset_w := (offset_r g + (av_fifo_can_read g + n)) mod nb_elems g\<rparr>
    in if n \<noteq> 0 then g'\<lparr>is_empty := False\<rparr> else g')"
  have "fifo_inv f' \<and> fifo_contents f' = fifo_contents g @ take n buf"
    using fifo_write_done [of g mem "take n buf" n] ok(2) loop room unfolding ys f'_def by (simp add: Let_def)
  moreover have "nb_elems f' = nb_elems g" by (simp add: f'_def Let_def)
  moreover have "fifo_write_common heap f buf n None opaque = Some (0, f', n, opaque)"
    using ok(1) loop(1) by (simp add: fifo_write_common_def f'_def Let_def)
  ultimately show thesis using that(2) [of f'] ok by simp
qed

text \<open>
  C40: \<^verbatim>\<open>av_fifo_write\<close> returns on every valid FIFO, either having appended exactly the given elements in
  order, growing at most to the automatic limit, or with an error that leaves the FIFO unchanged; the
  error can only occur when the elements did not fit without growing.
\<close>

theorem av_fifo_write_correct:
  assumes "fifo_inv f" "n \<le> length buf"
  shows "\<exists>ret f'. av_fifo_write heap f buf n = Some (ret, f') \<and> fifo_inv f' \<and>
    (ret = 0 \<and> fifo_contents f' = fifo_contents f @ take n buf \<and> nb_elems f' \<le> max (nb_elems f) (auto_grow_limit f) \<or>
     ret \<in> {AVERROR EINVAL, AVERROR ENOMEM, AVERROR ENOSPC} \<and> f' = f \<and> av_fifo_can_write f < n)"
proof (cases rule: fifo_write_common_buf [OF assms, of heap "()", case_names fail ok])
  case (fail e)
  then show ?thesis using assms(1) by (auto simp: av_fifo_write_def)
next
  case (ok f')
  then show ?thesis by (intro exI [of _ 0] exI [of _ f']) (simp add: av_fifo_write_def)
qed

definition demo_fifo :: "nat AVFifo" where
  "demo_fifo = \<lparr>buffer = [Some 7, None, Some 5, Some 6], elem_size = 4, nb_elems = 4, offset_r = 2, offset_w = 1,
     is_empty = False, fifo_flags = AV_FIFO_FLAG_AUTO_GROW, auto_grow_limit = 1024\<rparr>"

lemma demo_fifo_inv: "fifo_inv demo_fifo" "fifo_contents demo_fifo = [5, 6, 7]" "av_fifo_can_read demo_fifo = 3"
proof -
  have "fifo_inv demo_fifo \<and> av_fifo_can_read demo_fifo = 3 \<and> fifo_contents demo_fifo = [5, 6, 7]"
    by (rule fifo_invI) (simp_all add: demo_fifo_def ring_def upt_rec)
  then show "fifo_inv demo_fifo" "fifo_contents demo_fifo = [5, 6, 7]" "av_fifo_can_read demo_fifo = 3" by simp_all
qed

theorem av_fifo_write_correct_witness:
  "\<exists>ret f'. av_fifo_write (\<lambda>_. True) demo_fifo [8, 9, 10] 3 = Some (ret, f') \<and> fifo_inv f' \<and>
    (ret = 0 \<and> fifo_contents f' = fifo_contents demo_fifo @ take 3 [8, 9, 10] \<and>
       nb_elems f' \<le> max (nb_elems demo_fifo) (auto_grow_limit demo_fifo) \<or>
     ret \<in> {AVERROR EINVAL, AVERROR ENOMEM, AVERROR ENOSPC} \<and> f' = demo_fifo \<and> av_fifo_can_write demo_fifo < 3)"
  by (rule av_fifo_write_correct [OF demo_fifo_inv(1)]) simp

text \<open>
  Also: with any callback that respects its contract, \<^verbatim>\<open>av_fifo_write_from_cb\<close> returns; the FIFO then holds
  its old contents followed by exactly the elements the callback delivered successfully, and
  \<^verbatim>\<open>*nb_elems\<close> is their number.
\<close>

theorem av_fifo_write_from_cb_correct:
  assumes "fifo_inv f" "read_cb_ok cb"
  shows "\<exists>ret f' k s' lg. av_fifo_write_from_cb heap f (logged_read_cb cb) (s, []) n = Some (ret, f', k, (s', lg)) \<and>
    fifo_inv f' \<and> fifo_contents f' = fifo_contents f @ lg \<and> (k = length lg \<and> k \<le> n \<or> ret < 0 \<and> f' = f \<and> k = n)"
proof (cases rule: fifo_check_space_cases [OF assms(1), of heap n, case_names fail ok])
  case (fail e)
  then show ?thesis using assms(1) AVERROR_neg [of e]
    by (simp add: av_fifo_write_from_cb_def fifo_write_common_def del: AVERROR.simps)
next
  case (ok g)
  have room: "av_fifo_can_read g + n \<le> nb_elems g" using ok by simp
  note pre = fifo_write_loop_pre [OF ok(2) room]
  obtain mem ys s' ret' where loop: "fifo_write_loop (Some (logged_read_cb cb)) (nb_elems g) (buffer g) (offset_w g) n [] (s, []) 0 =
      Some (mem, (offset_r g + (av_fifo_can_read g + length ys)) mod nb_elems g, n - length ys, (s', ys), ret')"
    "length mem = nb_elems g" "length ys \<le> n"
    "ring mem (offset_r g) (av_fifo_can_read g + length ys) = ring (buffer g) (offset_r g) (av_fifo_can_read g) @ map Some ys"
    using fifo_write_loop_cb [OF assms(2) pre(1,2) room pre(3), of "[]" s "[]" 0] by auto
  define f' where "f' = (let g' = g\<lparr>buffer := mem, offset_w := (offset_r g + (av_fifo_can_read g + length ys)) mod nb_elems g\<rparr>
    in if n \<noteq> n - length ys then g'\<lparr>is_empty := False\<rparr> else g')"
  have "fifo_inv f' \<and> fifo_contents f' = fifo_contents g @ ys"
    using fifo_write_done [of g mem ys n] ok(2) loop(2-4) room unfolding f'_def by (simp add: Let_def)
  moreover have "av_fifo_write_from_cb heap f (logged_read_cb cb) (s, []) n = Some (ret', f', n - (n - length ys), (s', ys))"
    using ok(1) loop(1) by (simp add: av_fifo_write_from_cb_def fifo_write_common_def f'_def Let_def)
  ultimately show ?thesis using ok loop(3)
    by (intro exI [of _ ret'] exI [of _ f'] exI [of _ "length ys"] exI [of _ s'] exI [of _ ys]) simp
qed

theorem av_fifo_write_from_cb_correct_witness:
  "\<exists>ret f' k s' lg. av_fifo_write_from_cb (\<lambda>_. True) demo_fifo (logged_read_cb (\<lambda>s n. (0, s, take n [8 + s]))) (1, []) 3 =
     Some (ret, f', k, (s', lg)) \<and> fifo_inv f' \<and> fifo_contents f' = fifo_contents demo_fifo @ lg \<and>
     (k = length lg \<and> k \<le> 3 \<or> ret < 0 \<and> f' = demo_fifo \<and> k = 3)"
  by (rule av_fifo_write_from_cb_correct [OF demo_fifo_inv(1)]) (simp add: read_cb_ok_def)

section \<open>Reading\<close>

lemma fifo_peek_offset:
  assumes "fifo_inv f" "offset \<le> av_fifo_can_read f"
  shows "(if offset_r f \<ge> nb_elems f - offset then offset_r f - (nb_elems f - offset) else offset_r f + offset) =
    (offset_r f + offset) mod nb_elems f"
proof (cases "nb_elems f = 0")
  case True
  then show ?thesis using assms fifo_offsets(1) [OF assms(1)] by (simp add: fifo_inv_def)
next
  case False
  then show ?thesis using fifo_offsets(1,5) [OF assms(1)] assms(2) by (subst ring_index) auto
qed

lemma fifo_peek_window:
  assumes "fifo_inv f" "offset + n \<le> av_fifo_can_read f"
  shows "ring (buffer f) ((offset_r f + offset) mod nb_elems f) n = map Some (take n (drop offset (fifo_contents f)))"
proof -
  have "ring (buffer f) ((offset_r f + offset) mod nb_elems f) n = ring (buffer f) (offset_r f + offset) n"
    using ring_mod [of "buffer f" "offset_r f + offset" n] fifo_offsets(4) [OF assms(1)] by simp
  also have "\<dots> = take n (drop offset (fifo_slots f))"
    using assms(2) by (simp add: fifo_slots_def drop_ring take_ring)
  finally show ?thesis by (simp add: fifo_slots_contents [OF assms(1)] take_map drop_map)
qed

lemma fifo_peek_common_buf:
  assumes "fifo_inv f"
  shows "fifo_peek_common f n offset None opaque =
    (if offset + n \<le> av_fifo_can_read f then Some (0, map Some (take n (drop offset (fifo_contents f))), n, opaque)
     else Some (AVERROR EINVAL, [], 0, opaque))"
proof (cases "offset + n \<le> av_fifo_can_read f")
  case True
  note o = fifo_offsets [OF assms]
  have "fifo_peek_loop None (nb_elems f) (buffer f) ((offset_r f + offset) mod nb_elems f) n [] opaque 0 =
      Some ([] @ ring (buffer f) ((offset_r f + offset) mod nb_elems f) n, 0, opaque, 0)"
    using True o by (intro fifo_peek_loop_buf) auto
  then show ?thesis
    using True fifo_peek_offset [OF assms, of offset] fifo_peek_window [OF assms True]
    by (simp add: fifo_peek_common_def Let_def)
next
  case False
  then show ?thesis by (auto simp: fifo_peek_common_def Let_def)
qed

lemma av_fifo_read_cases:
  assumes "fifo_inv f"
  obtains f' where "av_fifo_read f n =
      Some (if n \<le> av_fifo_can_read f then (0, map Some (take n (fifo_contents f)), f') else (AVERROR EINVAL, [], f'))"
    "fifo_inv f'" "nb_elems f' = nb_elems f"
    "fifo_contents f' = (if n \<le> av_fifo_can_read f then drop n (fifo_contents f) else fifo_contents f)"
proof -
  have "(if n \<le> av_fifo_can_read f then n else 0) \<le> av_fifo_can_read f" by simp
  from av_fifo_drain2_inv [OF assms this] obtain f' where "av_fifo_drain2 f (if n \<le> av_fifo_can_read f then n else 0) = Some f'"
    "fifo_inv f'" "fifo_contents f' = drop (if n \<le> av_fifo_can_read f then n else 0) (fifo_contents f)" "nb_elems f' = nb_elems f"
    by blast
  then show thesis
    by (intro that [of f']) (simp_all add: av_fifo_read_def fifo_peek_common_buf [OF assms] split: if_splits)
qed

text \<open>
  Also: peeking and reading return, in order and without touching indeterminate slots, exactly the elements
  asked for when the FIFO holds that many, and otherwise fail with \<^verbatim>\<open>EINVAL\<close> without effect; reading then
  removes exactly what it returned. The assertion of \<^verbatim>\<open>av_fifo_drain2\<close> is never violated.
\<close>

theorem av_fifo_read_correct:
  assumes "fifo_inv f"
  shows "av_fifo_peek f n offset =
      Some (if offset + n \<le> av_fifo_can_read f then (0, map Some (take n (drop offset (fifo_contents f)))) else (AVERROR EINVAL, [])) \<and>
    (\<exists>f'. av_fifo_read f n =
        Some (if n \<le> av_fifo_can_read f then (0, map Some (take n (fifo_contents f)), f') else (AVERROR EINVAL, [], f')) \<and>
      fifo_inv f' \<and> nb_elems f' = nb_elems f \<and>
      fifo_contents f' = (if n \<le> av_fifo_can_read f then drop n (fifo_contents f) else fifo_contents f))"
proof
  show "av_fifo_peek f n offset =
      Some (if offset + n \<le> av_fifo_can_read f then (0, map Some (take n (drop offset (fifo_contents f)))) else (AVERROR EINVAL, []))"
    by (simp add: av_fifo_peek_def fifo_peek_common_buf [OF assms])
  show "\<exists>f'. av_fifo_read f n =
        Some (if n \<le> av_fifo_can_read f then (0, map Some (take n (fifo_contents f)), f') else (AVERROR EINVAL, [], f')) \<and>
      fifo_inv f' \<and> nb_elems f' = nb_elems f \<and>
      fifo_contents f' = (if n \<le> av_fifo_can_read f then drop n (fifo_contents f) else fifo_contents f)"
    using av_fifo_read_cases [OF assms, of n] by metis
qed

theorem av_fifo_read_correct_witness:
  "av_fifo_peek demo_fifo 2 1 =
      Some (if 1 + 2 \<le> av_fifo_can_read demo_fifo then (0, map Some (take 2 (drop 1 (fifo_contents demo_fifo)))) else (AVERROR EINVAL, [])) \<and>
    (\<exists>f'. av_fifo_read demo_fifo 2 =
        Some (if 2 \<le> av_fifo_can_read demo_fifo then (0, map Some (take 2 (fifo_contents demo_fifo)), f') else (AVERROR EINVAL, [], f')) \<and>
      fifo_inv f' \<and> nb_elems f' = nb_elems demo_fifo \<and>
      fifo_contents f' = (if 2 \<le> av_fifo_can_read demo_fifo then drop 2 (fifo_contents demo_fifo) else fifo_contents demo_fifo))"
  by (rule av_fifo_read_correct [OF demo_fifo_inv(1)])

lemma av_fifo_read_to_cb_correct:
  assumes "fifo_inv f" "write_cb_ok cb" "n \<le> av_fifo_can_read f"
  shows "\<exists>ret k s' f'. av_fifo_read_to_cb f (logged_write_cb cb) (s, []) n =
      Some (ret, k, (s', map Some (take k (fifo_contents f))), f') \<and>
    k \<le> n \<and> fifo_inv f' \<and> fifo_contents f' = drop k (fifo_contents f)"
proof -
  note o = fifo_offsets [OF assms(1)]
  obtain k s' ret where loop: "fifo_peek_loop (Some (logged_write_cb cb)) (nb_elems f) (buffer f) ((offset_r f + 0) mod nb_elems f) n [] (s, []) 0 =
      Some ([], n - k, (s', [] @ ring (buffer f) ((offset_r f + 0) mod nb_elems f) k), ret)" "k \<le> n"
    using fifo_peek_loop_cb [OF assms(2) o(4), of n "(offset_r f + 0) mod nb_elems f" "[]" s "[]" 0] o assms(3) by auto
  have "fifo_peek_common f n 0 (Some (logged_write_cb cb)) (s, []) = Some (ret, [], k, (s', map Some (take k (fifo_contents f))))"
    using loop assms(3) fifo_peek_offset [OF assms(1), of 0] fifo_peek_window [OF assms(1), of 0 k]
    by (simp add: fifo_peek_common_def Let_def)
  moreover obtain f' where "av_fifo_drain2 f k = Some f'" "fifo_inv f'" "fifo_contents f' = drop k (fifo_contents f)"
    using av_fifo_drain2_inv [OF assms(1), of k] loop(2) assms(3) by auto
  ultimately show ?thesis using loop(2) by (simp add: av_fifo_read_to_cb_def)
qed

text \<open>
  Also: \<^verbatim>\<open>av_fifo_grow2\<close> never loses, duplicates or reorders an element, wherever the data wraps around in the
  ring: on success the capacity has grown by exactly \<^verbatim>\<open>inc\<close>, on failure the FIFO is unchanged.
\<close>

theorem av_fifo_grow2_correct:
  assumes "fifo_inv f"
  shows "\<exists>ret f'. av_fifo_grow2 heap f inc = (ret, f') \<and> fifo_inv f' \<and> fifo_contents f' = fifo_contents f \<and>
    (ret = 0 \<and> av_fifo_can_write f' = av_fifo_can_write f + inc \<and> nb_elems f' = nb_elems f + inc \<or>
     ret \<in> {AVERROR EINVAL, AVERROR ENOMEM} \<and> f' = f)"
proof (cases rule: av_fifo_grow2_cases [OF assms, of heap inc, case_names einval enomem ok])
  case (ok f')
  then show ?thesis using fifo_offsets(1) [OF assms]
    by (intro exI [of _ 0] exI [of _ f']) (simp add: av_fifo_can_write_def)
qed (use assms in auto)

theorem av_fifo_grow2_correct_witness:
  "\<exists>ret f'. av_fifo_grow2 (\<lambda>_. True) demo_fifo 3 = (ret, f') \<and> fifo_inv f' \<and> fifo_contents f' = fifo_contents demo_fifo \<and>
    (ret = 0 \<and> av_fifo_can_write f' = av_fifo_can_write demo_fifo + 3 \<and> nb_elems f' = nb_elems demo_fifo + 3 \<or>
     ret \<in> {AVERROR EINVAL, AVERROR ENOMEM} \<and> f' = demo_fifo)"
  by (rule av_fifo_grow2_correct [OF demo_fifo_inv(1)])

text \<open>A single element, when there is room.\<close>

lemma fifo_write_one:
  assumes "fifo_inv f" "av_fifo_can_write f \<noteq> 0"
  obtains f' where "av_fifo_write heap f [x] 1 = Some (0, f')" "fifo_inv f'" "fifo_contents f' = fifo_contents f @ [x]"
    "nb_elems f' = nb_elems f"
proof -
  have room: "av_fifo_can_read f + 1 \<le> nb_elems f" using assms(2) by (simp add: av_fifo_can_write_def)
  have space: "fifo_check_space heap f 1 = (0, f)" using assms(2) by (simp add: fifo_check_space_def)
  note pre = fifo_write_loop_pre [OF assms(1) room]
  obtain mem where loop: "fifo_write_loop None (nb_elems f) (buffer f) (offset_w f) 1 [x] () 0 =
      Some (mem, (offset_r f + (av_fifo_can_read f + 1)) mod nb_elems f, 0, (), 0)" "length mem = nb_elems f"
    "ring mem (offset_r f) (av_fifo_can_read f + 1) = ring (buffer f) (offset_r f) (av_fifo_can_read f) @ map Some (take 1 [x])"
    using fifo_write_loop_buf [where buf = "[x]" and opaque = "()" and ret = 0, OF pre(1,2) room pre(3)] by fastforce
  define f' where "f' = f\<lparr>buffer := mem, offset_w := (offset_r f + (av_fifo_can_read f + 1)) mod nb_elems f, is_empty := False\<rparr>"
  have "fifo_inv f' \<and> fifo_contents f' = fifo_contents f @ [x]"
    using fifo_write_done [of f mem "[x]" 1] assms(1) loop room by (simp add: f'_def)
  then show thesis using that [of f'] space loop(1)
    by (simp add: av_fifo_write_def fifo_write_common_def f'_def)
qed

section \<open>The FIFO contract and its clients\<close>

text \<open>
  What the queues built on a FIFO rely on. A client is a history of writes and reads; the contract gives
  it conservation: the elements come out in the order they went in, none lost and none invented.
\<close>

datatype 'a fifo_op = Put "'a list" | Get nat

fun fifo_run ::
  "('f \<Rightarrow> 'a list \<Rightarrow> (int \<times> 'f) option) \<Rightarrow> ('f \<Rightarrow> nat \<Rightarrow> (int \<times> 'a option list \<times> 'f) option) \<Rightarrow> 'f \<Rightarrow> 'a fifo_op list \<Rightarrow>
   ('a list \<times> 'a option list \<times> 'f) option" where
  "fifo_run enq deq f [] = Some ([], [], f)"
| "fifo_run enq deq f (Put xs # ops) =
     (case enq f xs of
        None \<Rightarrow> None
      | Some (ret, f) \<Rightarrow>
          map_option (\<lambda>(w, out, f). (if ret < 0 then w else xs @ w, out, f)) (fifo_run enq deq f ops))"
| "fifo_run enq deq f (Get n # ops) =
     (case deq f n of
        None \<Rightarrow> None
      | Some (ret, xs, f) \<Rightarrow> map_option (\<lambda>(w, out, f). (w, xs @ out, f)) (fifo_run enq deq f ops))"

locale fifo_contract =
  fixes inv :: "'f \<Rightarrow> bool"
    and contents :: "'f \<Rightarrow> 'a list"
    and enq :: "'f \<Rightarrow> 'a list \<Rightarrow> (int \<times> 'f) option"
    and deq :: "'f \<Rightarrow> nat \<Rightarrow> (int \<times> 'a option list \<times> 'f) option"
  assumes enq_spec: "inv f \<Longrightarrow> \<exists>ret f'. enq f xs = Some (ret, f') \<and> inv f' \<and>
      contents f' = (if ret < 0 then contents f else contents f @ xs)"
    and deq_spec: "inv f \<Longrightarrow> \<exists>ret xs f'. deq f n = Some (ret, map Some xs, f') \<and> inv f' \<and>
      contents f = xs @ contents f' \<and> (if ret < 0 then xs = [] else length xs = n)"
begin

lemma enq_cases:
  assumes "inv f"
  obtains (stored) ret f' where "enq f xs = Some (ret, f')" "inv f'" "\<not> ret < 0" "contents f' = contents f @ xs"
  | (failed) ret f' where "enq f xs = Some (ret, f')" "inv f'" "ret < 0" "contents f' = contents f"
  using enq_spec [OF assms, of xs] by (metis (full_types))

lemma deq_one:
  assumes "inv f"
  obtains (taken) ret x f' where "deq f 1 = Some (ret, [Some x], f')" "inv f'" "\<not> ret < 0" "contents f = x # contents f'"
  | (failed) ret f' where "deq f 1 = Some (ret, [], f')" "inv f'" "ret < 0" "contents f' = contents f"
proof -
  obtain ret xs f' where d: "deq f 1 = Some (ret, map Some xs, f')" "inv f'" "contents f = xs @ contents f'"
    "if ret < 0 then xs = [] else length xs = 1"
    using deq_spec [OF assms, of 1] by blast
  show thesis
  proof (cases "ret < 0")
    case True
    with d failed show thesis by simp
  next
    case False
    with d(4) obtain x where "xs = [x]" by (auto simp: length_Suc_conv)
    with d False taken show thesis by simp
  qed
qed

lemma run_conserves:
  "inv f \<Longrightarrow> \<exists>w out f'. fifo_run enq deq f ops = Some (w, map Some out, f') \<and> inv f' \<and> contents f @ w = out @ contents f'"
proof (induction ops arbitrary: f)
  case Nil
  then show ?case by (intro exI [of _ "[]"] exI [of _ "[]"]) simp
next
  case (Cons op ops)
  show ?case
  proof (cases op)
    case (Put xs)
    obtain ret f1 where e: "enq f xs = Some (ret, f1)" "inv f1" "contents f1 = (if ret < 0 then contents f else contents f @ xs)"
      using enq_spec [OF Cons.prems, of xs] by blast
    obtain w out f' where ih: "fifo_run enq deq f1 ops = Some (w, map Some out, f')" "inv f'" "contents f1 @ w = out @ contents f'"
      using Cons.IH [OF e(2)] by blast
    show ?thesis using e ih by (auto simp: Put split: if_splits)
  next
    case (Get n)
    obtain ret xs f1 where d: "deq f n = Some (ret, map Some xs, f1)" "inv f1" "contents f = xs @ contents f1"
      using deq_spec [OF Cons.prems, of n] by blast
    obtain w out f' where ih: "fifo_run enq deq f1 ops = Some (w, map Some out, f')" "inv f'" "contents f1 @ w = out @ contents f'"
      using Cons.IH [OF d(2)] by blast
    show ?thesis using d ih by (intro exI [of _ w] exI [of _ "xs @ out"] exI [of _ f']) (simp add: Get)
  qed
qed

end

interpretation avf: fifo_contract fifo_inv fifo_contents "\<lambda>f xs. av_fifo_write heap f xs (length xs)" av_fifo_read
  for heap :: "nat \<Rightarrow> bool"
proof unfold_locales
  fix f :: "'a AVFifo" and xs :: "'a list" and n
  assume inv: "fifo_inv f"
  show "\<exists>ret f'. av_fifo_write heap f xs (length xs) = Some (ret, f') \<and> fifo_inv f' \<and>
      fifo_contents f' = (if ret < 0 then fifo_contents f else fifo_contents f @ xs)"
  proof (cases rule: fifo_write_common_buf [OF inv order_refl, of heap xs "()", case_names fail ok])
    case (fail e)
    then show ?thesis using inv AVERROR_neg [of e] by (simp add: av_fifo_write_def del: AVERROR.simps)
  next
    case (ok f')
    then show ?thesis by (simp add: av_fifo_write_def)
  qed
  obtain f' where "av_fifo_read f n = Some (if n \<le> av_fifo_can_read f then (0, map Some (take n (fifo_contents f)), f') else (AVERROR EINVAL, [], f'))"
    "fifo_inv f'" "fifo_contents f' = (if n \<le> av_fifo_can_read f then drop n (fifo_contents f) else fifo_contents f)"
    using av_fifo_read_cases [OF inv] by metis
  then show "\<exists>ret xs f'. av_fifo_read f n = Some (ret, map Some xs, f') \<and> fifo_inv f' \<and>
      fifo_contents f = xs @ fifo_contents f' \<and> (if ret < 0 then xs = [] else length xs = n)"
    by (cases "n \<le> av_fifo_can_read f") auto
qed

text \<open>
  C1: over every history of writes and reads of a valid FIFO, each call returns, and the initial contents
  followed by everything written successfully is everything read followed by the final contents, in
  that order.
\<close>

theorem av_fifo_history:
  assumes "fifo_inv f"
  shows "\<exists>w out f'. fifo_run (\<lambda>f xs. av_fifo_write heap f xs (length xs)) av_fifo_read f ops = Some (w, map Some out, f') \<and>
    fifo_inv f' \<and> fifo_contents f @ w = out @ fifo_contents f'"
  using assms by (rule avf.run_conserves)

theorem av_fifo_history_witness:
  "\<exists>w out f'. fifo_run (\<lambda>f xs. av_fifo_write (\<lambda>_. True) f xs (length xs)) av_fifo_read demo_fifo
      [Put [8, 9, 10], Get 2, Get 9, Put [11], Get 3] = Some (w, map Some out, f') \<and>
    fifo_inv f' \<and> fifo_contents demo_fifo @ w = out @ fifo_contents f'"
  by (rule av_fifo_history [OF demo_fifo_inv(1)])

end
