(* ===== verification/AV_Refstruct.thy ===== *)
theory AV_Refstruct
  imports AV_Prelude
begin

text \<open>
  \<^verbatim>\<open>libavutil/refstruct.c\<close>: reference-counted objects and the pool that recycles them. A pool is its
  \<^verbatim>\<open>AVRefStructPool\<close> together with the memory blocks it has handed out: \<open>entries\<close> maps the address of
  every block that is allocated to its \<^verbatim>\<open>RefCount\<close> header and its object. The linked list of available
  entries is a list of addresses. An operation on a freed block or a freed pool is \<open>None\<close>.

  Callbacks and the allocator are arguments: \<open>init_cb\<close> and \<open>reset_cb\<close> transform the object, \<open>alloc\<close> is
  the block \<^verbatim>\<open>av_refstruct_alloc_ext\<close> returns (\<open>None\<close> without memory). The callbacks on a block or a pool that is freed
  right afterwards leave nothing behind in the pool: \<open>pool_calls\<close> records them, with the address of the block, in the order in
  which they are made. Every block the allocator returns gets an address of its own.
\<close>

unbundle bit_operations_syntax

section \<open>State and operations\<close>

record 'o pool_entry =
  refcount :: nat
  entry_obj :: 'o

datatype pool_call = Reset_on_error nat | Free_entry nat | Free_pool

record 'o AVRefStructPool =
  entries :: "nat \<Rightarrow> 'o pool_entry option"
  available_entries :: "nat list"
  pool_refcount :: nat
  uninited :: bool
  pool_allocated :: bool
  pool_flags :: u32
  entry_flags :: u32
  next_block :: nat
  has_free_entry_cb :: bool
  has_free_cb :: bool
  pool_calls :: "pool_call list"

abbreviation AV_REFSTRUCT_FLAG_NO_ZEROING :: u32 where "AV_REFSTRUCT_FLAG_NO_ZEROING \<equiv> 1"
abbreviation AV_REFSTRUCT_POOL_FLAG_NO_ZEROING :: u32 where "AV_REFSTRUCT_POOL_FLAG_NO_ZEROING \<equiv> AV_REFSTRUCT_FLAG_NO_ZEROING"
abbreviation AV_REFSTRUCT_POOL_FLAG_RESET_ON_INIT_ERROR :: u32 where "AV_REFSTRUCT_POOL_FLAG_RESET_ON_INIT_ERROR \<equiv> 0x10000"
abbreviation AV_REFSTRUCT_POOL_FLAG_FREE_ON_INIT_ERROR :: u32 where "AV_REFSTRUCT_POOL_FLAG_FREE_ON_INIT_ERROR \<equiv> 0x20000"
abbreviation AV_REFSTRUCT_POOL_FLAG_ZERO_EVERY_TIME :: u32 where "AV_REFSTRUCT_POOL_FLAG_ZERO_EVERY_TIME \<equiv> 0x40000"

text \<open>
  \<open>heap\<close> and \<open>mutex_err\<close> are the outcomes of the allocation and of \<^verbatim>\<open>ff_mutex_init\<close>; \<open>has_reset\<close>, \<open>has_free_entry\<close> and
  \<open>has_free\<close> say whether \<^verbatim>\<open>reset_cb\<close>, \<^verbatim>\<open>free_entry_cb\<close> and \<^verbatim>\<open>free_cb\<close> are given.
\<close>

definition av_refstruct_pool_alloc_ext :: "bool \<Rightarrow> int \<Rightarrow> bool \<Rightarrow> bool \<Rightarrow> bool \<Rightarrow> u32 \<Rightarrow> 'o AVRefStructPool option" where
  "av_refstruct_pool_alloc_ext heap mutex_err has_reset has_free_entry has_free flags =
     (if \<not> heap then None
      else
        let eflags = flags AND AV_REFSTRUCT_POOL_FLAG_NO_ZEROING;
            flags = (if \<not> has_reset then flags AND NOT AV_REFSTRUCT_POOL_FLAG_RESET_ON_INIT_ERROR else flags);
            flags = (if \<not> has_free_entry then flags AND NOT AV_REFSTRUCT_POOL_FLAG_FREE_ON_INIT_ERROR else flags);
            eflags = (if flags AND AV_REFSTRUCT_POOL_FLAG_ZERO_EVERY_TIME \<noteq> 0
                      then eflags OR AV_REFSTRUCT_FLAG_NO_ZEROING else eflags)
        in if mutex_err \<noteq> 0 then None
           else Some \<lparr>entries = (\<lambda>_. None), available_entries = [], pool_refcount = 1, uninited = False,
                  pool_allocated = True, pool_flags = flags, entry_flags = eflags, next_block = 0,
                  has_free_entry_cb = has_free_entry, has_free_cb = has_free, pool_calls = []\<rparr>)"

definition refstruct_pool_get_ext ::
  "('o \<Rightarrow> int \<times> 'o) option \<Rightarrow> 'o option \<Rightarrow> 'o \<Rightarrow> 'o AVRefStructPool \<Rightarrow> int \<times> nat option \<times> 'o AVRefStructPool" where
  "refstruct_pool_get_ext init_cb alloc zero pool =
     (let (err, ret, pool) =
        (case available_entries pool of
           ref # rest \<Rightarrow>
             (0, Some ref, pool\<lparr>available_entries := rest,
                entries := (entries pool)(ref := map_option (\<lambda>e. e\<lparr>refcount := 1\<rparr>) (entries pool ref))\<rparr>)
         | [] \<Rightarrow>
             (case alloc of
                None \<Rightarrow> (AVERROR ENOMEM, None, pool)
              | Some block \<Rightarrow>
                  let (err, block) = (case init_cb of None \<Rightarrow> (0, block) | Some cb \<Rightarrow> cb block)
                  in if err < 0 then
                       (err, None, pool\<lparr>next_block := next_block pool + 1,
                          pool_calls := pool_calls pool @
                            (if pool_flags pool AND AV_REFSTRUCT_POOL_FLAG_RESET_ON_INIT_ERROR \<noteq> 0 then [Reset_on_error (next_block pool)] else []) @
                            (if pool_flags pool AND AV_REFSTRUCT_POOL_FLAG_FREE_ON_INIT_ERROR \<noteq> 0 then [Free_entry (next_block pool)] else [])\<rparr>)
                     else (0, Some (next_block pool), pool\<lparr>next_block := next_block pool + 1,
                        entries := (entries pool)(next_block pool \<mapsto> \<lparr>refcount = 1, entry_obj = block\<rparr>)\<rparr>)))
      in case ret of
           None \<Rightarrow> (err, None, pool)
         | Some r \<Rightarrow>
             let pool = pool\<lparr>pool_refcount := pool_refcount pool + 1\<rparr>;
                 pool = (if pool_flags pool AND AV_REFSTRUCT_POOL_FLAG_ZERO_EVERY_TIME \<noteq> 0
                         then pool\<lparr>entries := (entries pool)(r := map_option (\<lambda>e. e\<lparr>entry_obj := zero\<rparr>) (entries pool r))\<rparr>
                         else pool)
             in (0, Some r, pool))"

text \<open>The end of \<^verbatim>\<open>pool_return_entry\<close> and of \<^verbatim>\<open>pool_unref\<close>, with \<^verbatim>\<open>pool_free\<close>.\<close>

definition pool_drop_ref :: "'o AVRefStructPool \<Rightarrow> 'o AVRefStructPool" where
  "pool_drop_ref pool =
     pool\<lparr>pool_refcount := pool_refcount pool - 1, pool_allocated := pool_refcount pool \<noteq> 1,
       pool_calls := pool_calls pool @ (if pool_refcount pool = 1 \<and> has_free_cb pool then [Free_pool] else [])\<rparr>"

definition pool_free_entry :: "nat \<Rightarrow> 'o AVRefStructPool \<Rightarrow> 'o AVRefStructPool" where
  "pool_free_entry ref pool =
     pool\<lparr>entries := (entries pool)(ref := None), pool_calls := pool_calls pool @ (if has_free_entry_cb pool then [Free_entry ref] else [])\<rparr>"

definition pool_return_entry :: "'o AVRefStructPool \<Rightarrow> nat \<Rightarrow> 'o AVRefStructPool" where
  "pool_return_entry pool ref =
     pool_drop_ref
       (if \<not> uninited pool then pool\<lparr>available_entries := ref # available_entries pool\<rparr>
        else pool_free_entry ref pool)"

definition av_refstruct_ref :: "'o AVRefStructPool \<Rightarrow> nat \<Rightarrow> 'o AVRefStructPool option" where
  "av_refstruct_ref pool ref =
     (case entries pool ref of
        None \<Rightarrow> None
      | Some e \<Rightarrow> Some (pool\<lparr>entries := (entries pool)(ref \<mapsto> e\<lparr>refcount := refcount e + 1\<rparr>)\<rparr>))"

text \<open>\<open>objp\<close> is the pointer the argument leads to, \<open>None\<close> the null pointer. The caller's pointer is null afterwards.\<close>

definition av_refstruct_unref :: "('o \<Rightarrow> 'o) option \<Rightarrow> 'o AVRefStructPool \<Rightarrow> nat option \<Rightarrow> 'o AVRefStructPool option" where
  "av_refstruct_unref reset_cb pool objp =
     (case objp of
        None \<Rightarrow> Some pool
      | Some ref \<Rightarrow>
          (case entries pool ref of
             None \<Rightarrow> None
           | Some e \<Rightarrow>
               if refcount e = 0 then None
               else if refcount e = 1 then
                 (if \<not> pool_allocated pool then None
                  else
                    let obj = (case reset_cb of None \<Rightarrow> entry_obj e | Some cb \<Rightarrow> cb (entry_obj e))
                    in Some (pool_return_entry (pool\<lparr>entries := (entries pool)(ref \<mapsto> \<lparr>refcount = 0, entry_obj = obj\<rparr>)\<rparr>) ref))
               else Some (pool\<lparr>entries := (entries pool)(ref \<mapsto> e\<lparr>refcount := refcount e - 1\<rparr>)\<rparr>)))"

definition av_refstruct_exclusive :: "'o AVRefStructPool \<Rightarrow> nat \<Rightarrow> bool option" where
  "av_refstruct_exclusive pool ref = map_option (\<lambda>e. refcount e = 1) (entries pool ref)"

definition refstruct_pool_uninit :: "'o AVRefStructPool \<Rightarrow> 'o AVRefStructPool option" where
  "refstruct_pool_uninit pool =
     (if \<not> pool_allocated pool \<or> uninited pool then None
      else Some (pool_drop_ref (fold pool_free_entry (available_entries pool) (pool\<lparr>uninited := True, available_entries := []\<rparr>))))"

section \<open>A client that keeps its references\<close>

text \<open>
  The states a client can reach that only uses references it holds: \<open>held r\<close> counts its references to
  the entry \<open>r\<close>.
\<close>

inductive pool_reachable :: "('o \<Rightarrow> 'o) option \<Rightarrow> 'o AVRefStructPool \<Rightarrow> (nat \<Rightarrow> nat) \<Rightarrow> bool" for reset_cb where
  alloc: "av_refstruct_pool_alloc_ext heap mutex_err has_reset has_free_entry has_free flags = Some p \<Longrightarrow> pool_reachable reset_cb p (\<lambda>_. 0)"
| get: "pool_reachable reset_cb p held \<Longrightarrow> \<not> uninited p \<Longrightarrow>
    refstruct_pool_get_ext init_cb block zero p = (err, Some r, p') \<Longrightarrow> pool_reachable reset_cb p' (held(r := held r + 1))"
| get_fail: "pool_reachable reset_cb p held \<Longrightarrow> \<not> uninited p \<Longrightarrow>
    refstruct_pool_get_ext init_cb block zero p = (err, None, p') \<Longrightarrow> pool_reachable reset_cb p' held"
| ref: "pool_reachable reset_cb p held \<Longrightarrow> 0 < held r \<Longrightarrow> av_refstruct_ref p r = Some p' \<Longrightarrow>
    pool_reachable reset_cb p' (held(r := held r + 1))"
| unref: "pool_reachable reset_cb p held \<Longrightarrow> 0 < held r \<Longrightarrow> av_refstruct_unref reset_cb p (Some r) = Some p' \<Longrightarrow>
    pool_reachable reset_cb p' (held(r := held r - 1))"
| unref_null: "pool_reachable reset_cb p held \<Longrightarrow> av_refstruct_unref reset_cb p None = Some p' \<Longrightarrow> pool_reachable reset_cb p' held"
| uninit: "pool_reachable reset_cb p held \<Longrightarrow> refstruct_pool_uninit p = Some p' \<Longrightarrow> pool_reachable reset_cb p' held"

definition held_set :: "(nat \<Rightarrow> nat) \<Rightarrow> nat set" where
  "held_set held = {r. 0 < held r}"

definition pool_inv :: "'o AVRefStructPool \<Rightarrow> (nat \<Rightarrow> nat) \<Rightarrow> bool" where
  "pool_inv p held \<longleftrightarrow>
     finite (held_set held) \<and>
     pool_refcount p = card (held_set held) + (if uninited p then 0 else 1) \<and>
     (pool_allocated p \<longleftrightarrow> 0 < pool_refcount p) \<and>
     (\<forall>r. 0 < held r \<longrightarrow> (\<exists>e. entries p r = Some e \<and> refcount e = held r)) \<and>
     dom (entries p) = held_set held \<union> set (available_entries p) \<and>
     held_set held \<inter> set (available_entries p) = {} \<and> distinct (available_entries p) \<and>
     (uninited p \<longrightarrow> available_entries p = []) \<and> (\<forall>r \<in> dom (entries p). r < next_block p)"

lemma held_set_upd: "held_set (held(r := n)) = (if 0 < n then insert r (held_set held) else held_set held - {r})"
  by (auto simp: held_set_def)

lemma pool_inv_held:
  assumes "pool_inv p held" "0 < held r"
  shows "pool_allocated p" "\<exists>e. entries p r = Some e \<and> refcount e = held r" "r \<in> held_set held" "r \<notin> set (available_entries p)"
    "0 < card (held_set held)" "r < next_block p"
proof -
  show r: "r \<in> held_set held" using assms(2) by (simp add: held_set_def)
  then show c: "0 < card (held_set held)" using assms(1) by (auto simp: pool_inv_def card_gt_0_iff)
  with r assms show "pool_allocated p" "\<exists>e. entries p r = Some e \<and> refcount e = held r" "r \<notin> set (available_entries p)"
    "r < next_block p"
    unfolding pool_inv_def by auto
qed

lemma av_refstruct_pool_alloc_ext_inv:
  assumes "av_refstruct_pool_alloc_ext heap mutex_err has_reset has_free_entry has_free flags = Some p"
  shows "pool_inv p (\<lambda>_. 0)"
proof -
  have "entries p = (\<lambda>_. None)" "available_entries p = []" "pool_refcount p = 1" "\<not> uninited p" "pool_allocated p"
    using assms by (auto simp: av_refstruct_pool_alloc_ext_def Let_def split: if_splits)
  then show ?thesis by (simp add: pool_inv_def held_set_def)
qed

text \<open>What a successful \<^verbatim>\<open>av_refstruct_pool_get\<close> changes: a recycled or a fresh entry, and nothing else.\<close>

lemma refstruct_pool_get_ext_frame:
  assumes inv: "pool_inv p held" and get: "refstruct_pool_get_ext init_cb block zero p = (err, Some r, p')"
  shows "held r = 0 \<and> uninited p' = uninited p \<and> pool_refcount p' = pool_refcount p + 1 \<and> pool_allocated p' = pool_allocated p \<and>
    (\<exists>e. entries p' r = Some e \<and> refcount e = 1 \<and>
       (entry_obj e = zero \<and> pool_flags p AND AV_REFSTRUCT_POOL_FLAG_ZERO_EVERY_TIME \<noteq> 0 \<or>
        r \<in> set (available_entries p) \<and> (\<exists>e0. entries p r = Some e0 \<and> entry_obj e = entry_obj e0) \<or>
        (\<exists>b. block = Some b \<and> entry_obj e = (case init_cb of None \<Rightarrow> b | Some cb \<Rightarrow> snd (cb b)) \<and>
           (case init_cb of None \<Rightarrow> True | Some cb \<Rightarrow> \<not> fst (cb b) < 0)))) \<and>
    (\<forall>q. q \<noteq> r \<longrightarrow> entries p' q = entries p q) \<and>
    insert r (set (available_entries p')) = insert r (set (available_entries p)) \<and> r \<notin> set (available_entries p') \<and>
    distinct (available_entries p') \<and> next_block p \<le> next_block p' \<and> r < next_block p' \<and> pool_flags p' = pool_flags p"
proof (cases "available_entries p")
  case (Cons ref rest)
  have "ref \<in> dom (entries p)" using inv Cons by (simp add: pool_inv_def)
  then obtain e0 where e0: "entries p ref = Some e0" by blast
  have held: "held ref = 0" using inv Cons by (auto simp: pool_inv_def held_set_def)
  moreover have "ref < next_block p" using inv Cons by (auto simp: pool_inv_def)
  moreover have "distinct (ref # rest)" using inv Cons by (simp add: pool_inv_def)
  ultimately show ?thesis using get Cons e0
    by (auto simp: refstruct_pool_get_ext_def Let_def split: if_splits)
next
  case Nil
  have "next_block p \<notin> dom (entries p)" using inv by (auto simp: pool_inv_def)
  then have "held (next_block p) = 0" using inv by (auto simp: pool_inv_def held_set_def)
  then show ?thesis using get Nil
    by (auto simp: refstruct_pool_get_ext_def Let_def split: if_splits option.splits prod.splits)
qed

lemma refstruct_pool_get_ext_inv:
  assumes inv: "pool_inv p held" and un: "\<not> uninited p"
    and get: "refstruct_pool_get_ext init_cb block zero p = (err, Some r, p')"
  shows "pool_inv p' (held(r := held r + 1))" "held r = 0" "uninited p' = uninited p"
proof -
  have main: "held r = 0 \<and> uninited p' = uninited p \<and> pool_refcount p' = pool_refcount p + 1 \<and> pool_allocated p' = pool_allocated p \<and>
    (\<exists>e. entries p' r = Some e \<and> refcount e = 1) \<and> (\<forall>q. q \<noteq> r \<longrightarrow> entries p' q = entries p q) \<and>
    insert r (set (available_entries p')) = insert r (set (available_entries p)) \<and> r \<notin> set (available_entries p') \<and>
    distinct (available_entries p') \<and> next_block p \<le> next_block p' \<and> r < next_block p'"
    using refstruct_pool_get_ext_frame [OF inv get] by blast
  then show "held r = 0" "uninited p' = uninited p" by simp_all
  have fin: "finite (held_set held)" "r \<notin> held_set held" using inv main by (auto simp: pool_inv_def held_set_def)
  have dom: "dom (entries p') = insert r (dom (entries p))" using main by (auto simp: dom_def)
  show "pool_inv p' (held(r := held r + 1))"
    unfolding pool_inv_def held_set_upd
  proof (intro conjI)
    show "\<forall>q. 0 < (held(r := held r + 1)) q \<longrightarrow> (\<exists>e. entries p' q = Some e \<and> refcount e = (held(r := held r + 1)) q)"
      using inv main by (auto simp: pool_inv_def)
    show "dom (entries p') = (if 0 < held r + 1 then insert r (held_set held) else held_set held - {r}) \<union> set (available_entries p')"
      unfolding dom using inv main by (auto simp: pool_inv_def)
    show "(if 0 < held r + 1 then insert r (held_set held) else held_set held - {r}) \<inter> set (available_entries p') = {}"
      using inv main by (auto simp: pool_inv_def)
    show "\<forall>q\<in>dom (entries p'). q < next_block p'"
    proof -
      have "\<forall>q\<in>dom (entries p). q < next_block p" using inv by (simp add: pool_inv_def)
      moreover have "next_block p \<le> next_block p'" "r < next_block p'" using main by blast+
      ultimately show ?thesis unfolding dom by (metis insertE less_le_trans)
    qed
    have cnt: "pool_refcount p = card (held_set held) + 1" "pool_allocated p" using inv un by (auto simp: pool_inv_def)
    show "finite (if 0 < held r + 1 then insert r (held_set held) else held_set held - {r})" using fin by simp
    show "pool_refcount p' = card (if 0 < held r + 1 then insert r (held_set held) else held_set held - {r}) + (if uninited p' then 0 else 1)"
      using main fin un cnt(1) by simp
    show "pool_allocated p' = (0 < pool_refcount p')" "distinct (available_entries p')" "uninited p' \<longrightarrow> available_entries p' = []"
      using main cnt un by simp_all
  qed
qed

lemma refstruct_pool_get_ext_fail:
  "refstruct_pool_get_ext init_cb block zero p = (err, None, p') \<Longrightarrow>
    next_block p \<le> next_block p' \<and> p' = p\<lparr>next_block := next_block p', pool_calls := pool_calls p'\<rparr>"
  by (auto simp: refstruct_pool_get_ext_def Let_def split: list.splits option.splits if_splits prod.splits)

lemma pool_inv_later:
  assumes "pool_inv p held" "next_block p \<le> n"
  shows "pool_inv (p\<lparr>next_block := n, pool_calls := c\<rparr>) held"
proof -
  have "\<forall>r \<in> dom (entries p). r < n" using assms by (metis pool_inv_def less_le_trans)
  then show ?thesis using assms(1) unfolding pool_inv_def by simp
qed

lemma av_refstruct_ref_inv:
  assumes inv: "pool_inv p held" and h: "0 < held r"
  obtains p' where "av_refstruct_ref p r = Some p'" "pool_inv p' (held(r := held r + 1))" "uninited p' = uninited p"
proof -
  obtain e where e: "entries p r = Some e" "refcount e = held r" using pool_inv_held(2) [OF assms] by blast
  define p' where "p' = p\<lparr>entries := (entries p)(r \<mapsto> e\<lparr>refcount := refcount e + 1\<rparr>)\<rparr>"
  have set: "held_set (held(r := held r + 1)) = held_set held" using h by (auto simp: held_set_def)
  have dom: "dom (entries p') = dom (entries p)" using e by (auto simp: p'_def)
  have "pool_inv p' (held(r := held r + 1))"
    unfolding pool_inv_def set dom using inv e by (auto simp: pool_inv_def p'_def)
  moreover have "av_refstruct_ref p r = Some p'" using e by (simp add: av_refstruct_ref_def p'_def)
  ultimately show thesis using that by (simp add: p'_def)
qed

lemma av_refstruct_unref_inv:
  assumes inv: "pool_inv p held" and h: "0 < held r"
  obtains p' where "av_refstruct_unref reset_cb p (Some r) = Some p'" "pool_inv p' (held(r := held r - 1))" "uninited p' = uninited p"
proof -
  note f = pool_inv_held [OF assms]
  obtain e where e: "entries p r = Some e" "refcount e = held r" using f(2) by blast
  show thesis
  proof (cases "held r = 1")
    case False
    define p' where "p' = p\<lparr>entries := (entries p)(r \<mapsto> e\<lparr>refcount := refcount e - 1\<rparr>)\<rparr>"
    have set: "held_set (held(r := held r - 1)) = held_set held" using h False by (auto simp: held_set_def)
    have dom: "dom (entries p') = dom (entries p)" using e by (auto simp: p'_def)
    have "pool_inv p' (held(r := held r - 1))"
      unfolding pool_inv_def set dom using inv e False by (auto simp: pool_inv_def p'_def)
    moreover have "av_refstruct_unref reset_cb p (Some r) = Some p'" using e h False by (simp add: av_refstruct_unref_def p'_def)
    ultimately show thesis using that by (simp add: p'_def)
  next
    case True
    define obj where "obj = (case reset_cb of None \<Rightarrow> entry_obj e | Some cb \<Rightarrow> cb (entry_obj e))"
    define p' where "p' = pool_return_entry (p\<lparr>entries := (entries p)(r \<mapsto> \<lparr>refcount = 0, entry_obj = obj\<rparr>)\<rparr>) r"
    have un: "av_refstruct_unref reset_cb p (Some r) = Some p'"
      using e True f(1) by (simp add: av_refstruct_unref_def p'_def obj_def)
    have fin: "finite (held_set held)" using inv by (simp add: pool_inv_def)
    have p': "uninited p' = uninited p" "pool_refcount p' = pool_refcount p - 1" "pool_allocated p' \<longleftrightarrow> pool_refcount p \<noteq> 1"
      "available_entries p' = (if uninited p then available_entries p else r # available_entries p)"
      "next_block p' = next_block p"
      "entries p' = (entries p)(r := if uninited p then None else Some \<lparr>refcount = 0, entry_obj = obj\<rparr>)"
      by (auto simp: p'_def pool_return_entry_def pool_drop_ref_def pool_free_entry_def)
    have "pool_inv p' (held(r := held r - 1))"
      unfolding pool_inv_def held_set_upd p'
    proof (intro conjI)
      show "dom ((entries p)(r := if uninited p then None else Some \<lparr>refcount = 0, entry_obj = obj\<rparr>)) =
          (if 0 < held r - 1 then insert r (held_set held) else held_set held - {r}) \<union>
          set (if uninited p then available_entries p else r # available_entries p)"
        using inv True f(4) by (auto simp: pool_inv_def)
      show "pool_refcount p - 1 = card (if 0 < held r - 1 then insert r (held_set held) else held_set held - {r}) + (if uninited p then 0 else 1)"
        using inv True f(3,5) fin by (simp add: pool_inv_def)
      show "(pool_refcount p \<noteq> 1) = (0 < pool_refcount p - 1)"
        using inv f(5) by (auto simp: pool_inv_def)
    qed (use inv True f(3,4,6) in \<open>auto simp: pool_inv_def\<close>)
    then show thesis using that un p'(1) by blast
  qed
qed

lemma av_refstruct_unref_frame:
  assumes inv: "pool_inv p held" and h: "held r = 1" and un: "\<not> uninited p"
    and e: "entries p r = Some e"
  obtains p' where "av_refstruct_unref reset_cb p (Some r) = Some p'" "pool_inv p' (held(r := 0))" "\<not> uninited p'"
    "available_entries p' = r # available_entries p" "\<And>q. q \<noteq> r \<Longrightarrow> entries p' q = entries p q"
    "entries p' r = Some \<lparr>refcount = 0, entry_obj = (case reset_cb of None \<Rightarrow> entry_obj e | Some cb \<Rightarrow> cb (entry_obj e))\<rparr>"
    "pool_flags p' = pool_flags p"
proof -
  have h0: "0 < held r" using h by simp
  obtain p' where p': "av_refstruct_unref reset_cb p (Some r) = Some p'" "pool_inv p' (held(r := held r - 1))" "uninited p' = uninited p"
    by (rule av_refstruct_unref_inv [OF inv h0])
  have "refcount e = 1" using pool_inv_held(2) [OF inv h0] e h by simp
  then have "p' = pool_return_entry (p\<lparr>entries := (entries p)(r \<mapsto>
      \<lparr>refcount = 0, entry_obj = (case reset_cb of None \<Rightarrow> entry_obj e | Some cb \<Rightarrow> cb (entry_obj e))\<rparr>)\<rparr>) r"
    using p'(1) e pool_inv_held(1) [OF inv h0] by (simp add: av_refstruct_unref_def)
  then have "entries p' = (entries p)(r \<mapsto> \<lparr>refcount = 0, entry_obj = (case reset_cb of None \<Rightarrow> entry_obj e | Some cb \<Rightarrow> cb (entry_obj e))\<rparr>)"
    "available_entries p' = r # available_entries p" "pool_flags p' = pool_flags p"
    using un by (simp_all add: pool_return_entry_def pool_drop_ref_def)
  moreover have "held(r := held r - 1) = held(r := 0)" using h by simp
  ultimately show thesis using p' un by (intro that [of p']) simp_all
qed

lemma fold_pool_free_entry:
  "fold pool_free_entry rs p =
    p\<lparr>entries := (\<lambda>r. if r \<in> set rs then None else entries p r), pool_calls := pool_calls p @ (if has_free_entry_cb p then map Free_entry rs else [])\<rparr>"
  by (induction rs arbitrary: p) (auto simp: pool_free_entry_def fun_eq_iff)

lemma refstruct_pool_uninit_inv:
  assumes inv: "pool_inv p held" and un: "\<not> uninited p"
  obtains p' where "refstruct_pool_uninit p = Some p'" "pool_inv p' held" "uninited p'"
proof -
  have a: "pool_allocated p" using inv un by (simp add: pool_inv_def)
  define p' where "p' = pool_drop_ref (fold pool_free_entry (available_entries p) (p\<lparr>uninited := True, available_entries := []\<rparr>))"
  have p': "uninited p'" "available_entries p' = []" "pool_refcount p' = pool_refcount p - 1"
    "pool_allocated p' \<longleftrightarrow> pool_refcount p \<noteq> 1" "next_block p' = next_block p"
    "entries p' = (\<lambda>r. if r \<in> set (available_entries p) then None else entries p r)"
    by (simp_all add: p'_def pool_drop_ref_def fold_pool_free_entry fun_eq_iff)
  have "dom (entries p') = dom (entries p) - set (available_entries p)" by (auto simp: p'(6) split: if_splits)
  also have "\<dots> = held_set held" using inv by (auto simp: pool_inv_def)
  finally have d: "dom (entries p') = held_set held" .
  have h: "r \<notin> set (available_entries p)" if "0 < held r" for r
    using inv that by (auto simp: pool_inv_def held_set_def)
  have "pool_inv p' held"
    unfolding pool_inv_def d using inv un p' h by (auto simp: pool_inv_def)
  moreover have "refstruct_pool_uninit p = Some p'" using a un by (simp add: refstruct_pool_uninit_def p'_def)
  ultimately show thesis using that p'(1) by blast
qed

lemma pool_reachable_inv: "pool_reachable reset_cb p held \<Longrightarrow> pool_inv p held"
proof (induction rule: pool_reachable.induct)
  case (alloc heap mutex_err has_reset has_free_entry has_free flags p)
  then show ?case by (rule av_refstruct_pool_alloc_ext_inv)
next
  case (get p held init_cb block zero err r p')
  show ?case by (rule refstruct_pool_get_ext_inv(1) [OF get.IH get.hyps(2,3)])
next
  case (get_fail p held init_cb block zero err p')
  show ?case using refstruct_pool_get_ext_fail [OF get_fail.hyps(3)] pool_inv_later [OF get_fail.IH, of "next_block p'" "pool_calls p'"] by simp
next
  case (ref p held r p')
  obtain q where q: "av_refstruct_ref p r = Some q" "pool_inv q (held(r := held r + 1))"
    by (rule av_refstruct_ref_inv [OF ref.IH ref.hyps(2)])
  have "p' = q" using q(1) ref.hyps(3) by simp
  then show ?case using q(2) by (simp only:)
next
  case (unref p held r p')
  obtain q where q: "av_refstruct_unref reset_cb p (Some r) = Some q" "pool_inv q (held(r := held r - 1))"
    by (rule av_refstruct_unref_inv [OF unref.IH unref.hyps(2), of reset_cb])
  have "p' = q" using q(1) unref.hyps(3) by simp
  then show ?case using q(2) by (simp only:)
next
  case (unref_null p held p')
  then show ?case by (simp add: av_refstruct_unref_def)
next
  case (uninit p held p')
  then have "\<not> uninited p" by (auto simp: refstruct_pool_uninit_def split: if_splits)
  then obtain q where q: "refstruct_pool_uninit p = Some q" "pool_inv q held"
    by (rule refstruct_pool_uninit_inv [OF uninit.IH])
  have "p' = q" using q(1) uninit.hyps(2) by simp
  then show ?case using q(2) by (simp only:)
qed

text \<open>
  The callbacks that dispose of something are each made once: for a block only when it is gone from the pool, and for the pool
  itself exactly when it is freed.
\<close>

definition calls_inv :: "'o AVRefStructPool \<Rightarrow> bool" where
  "calls_inv p \<longleftrightarrow> distinct (pool_calls p) \<and>
     (\<forall>r. Free_entry r \<in> set (pool_calls p) \<or> Reset_on_error r \<in> set (pool_calls p) \<longrightarrow> entries p r = None \<and> r < next_block p) \<and>
     (Free_pool \<in> set (pool_calls p) \<longleftrightarrow> has_free_cb p \<and> \<not> pool_allocated p)"

lemma pool_drop_ref_calls: "calls_inv p \<Longrightarrow> pool_allocated p \<Longrightarrow> calls_inv (pool_drop_ref p)"
  by (auto simp: calls_inv_def pool_drop_ref_def)

lemma pool_free_entry_calls: "calls_inv p \<Longrightarrow> entries p r \<noteq> None \<Longrightarrow> r < next_block p \<Longrightarrow> calls_inv (pool_free_entry r p)"
  by (auto simp: calls_inv_def pool_free_entry_def)

lemma fold_pool_free_entry_calls:
  "calls_inv p \<Longrightarrow> distinct rs \<Longrightarrow> \<forall>r \<in> set rs. entries p r \<noteq> None \<and> r < next_block p \<Longrightarrow> calls_inv (fold pool_free_entry rs p)"
proof (induction rs arbitrary: p)
  case (Cons r rs)
  have "calls_inv (pool_free_entry r p)" using Cons.prems by (intro pool_free_entry_calls) auto
  moreover have "\<forall>q \<in> set rs. entries (pool_free_entry r p) q \<noteq> None \<and> q < next_block (pool_free_entry r p)"
    using Cons.prems by (auto simp: pool_free_entry_def)
  ultimately show ?case using Cons.IH Cons.prems(2) by simp
qed simp

lemma pool_reachable_calls: "pool_reachable reset_cb p held \<Longrightarrow> calls_inv p"
proof (induction rule: pool_reachable.induct)
  case (alloc heap mutex_err has_reset has_free_entry has_free flags p)
  then show ?case by (auto simp: av_refstruct_pool_alloc_ext_def Let_def calls_inv_def split: if_splits)
next
  case (get p held init_cb block zero err r p')
  have f: "pool_calls p' = pool_calls p" "has_free_cb p' = has_free_cb p" "pool_allocated p' = pool_allocated p" "next_block p \<le> next_block p'"
    using get.hyps(3) by (auto simp: refstruct_pool_get_ext_def Let_def split: list.splits option.splits if_splits prod.splits)
  have inv: "pool_inv p held" by (rule pool_reachable_inv [OF get.hyps(1)])
  have "r \<in> dom (entries p) \<or> r = next_block p"
    using get.hyps(3) inv by (auto simp: refstruct_pool_get_ext_def Let_def pool_inv_def split: list.splits option.splits if_splits prod.splits)
  then have "Free_entry r \<notin> set (pool_calls p)" "Reset_on_error r \<notin> set (pool_calls p)" using get.IH by (auto simp: calls_inv_def)
  moreover have "\<forall>q. q \<noteq> r \<longrightarrow> entries p' q = entries p q" using refstruct_pool_get_ext_frame [OF inv get.hyps(3)] by blast
  ultimately show ?case using get.IH f unfolding calls_inv_def by (metis less_le_trans)
next
  case (get_fail p held init_cb block zero err p')
  have "next_block p \<notin> dom (entries p)" using pool_reachable_inv [OF get_fail.hyps(1)] by (auto simp: pool_inv_def)
  then show ?case
    using get_fail.hyps(3) get_fail.IH
    by (auto simp: refstruct_pool_get_ext_def Let_def calls_inv_def less_Suc_eq split: list.splits option.splits if_splits prod.splits)
next
  case (ref p held r p')
  then show ?case by (auto simp: av_refstruct_ref_def calls_inv_def split: option.splits)
next
  case (unref p held r p')
  have inv: "pool_inv p held" by (rule pool_reachable_inv [OF unref.hyps(1)])
  note f = pool_inv_held [OF inv unref.hyps(2)]
  obtain e where e: "entries p r = Some e" using f(2) by blast
  have upd: "calls_inv (p\<lparr>entries := (entries p)(r \<mapsto> x)\<rparr>)" for x using unref.IH e by (auto simp: calls_inv_def)
  have "calls_inv (if \<not> uninited q then q\<lparr>available_entries := a\<rparr> else pool_free_entry r q)" if "q = p\<lparr>entries := (entries p)(r \<mapsto> x)\<rparr>" for q a x
    using upd [of x] f(6) that pool_free_entry_calls [of q r] by (auto simp: calls_inv_def)
  then have "calls_inv (pool_return_entry (p\<lparr>entries := (entries p)(r \<mapsto> x)\<rparr>) r)" for x
    unfolding pool_return_entry_def using f(1) by (intro pool_drop_ref_calls) (auto simp: pool_free_entry_def)
  then show ?case using unref.hyps(3) e upd by (auto simp: av_refstruct_unref_def Let_def split: if_splits)
next
  case (unref_null p held p')
  then show ?case by (simp add: av_refstruct_unref_def)
next
  case (uninit p held p')
  have inv: "pool_inv p held" by (rule pool_reachable_inv [OF uninit.hyps(1)])
  have a: "distinct (available_entries p)" "\<forall>r \<in> set (available_entries p). entries p r \<noteq> None \<and> r < next_block p"
    using inv unfolding pool_inv_def by blast+
  have "calls_inv (p\<lparr>uninited := True, available_entries := []\<rparr>)" using uninit.IH by (simp add: calls_inv_def)
  then have "calls_inv (fold pool_free_entry (available_entries p) (p\<lparr>uninited := True, available_entries := []\<rparr>))"
    using a by (intro fold_pool_free_entry_calls) simp_all
  then show ?case
    using uninit.hyps(2) by (auto simp: refstruct_pool_uninit_def fold_pool_free_entry intro!: pool_drop_ref_calls split: if_splits)
qed

text \<open>
  C8: in every state a reference-keeping client can reach, each entry it holds is allocated with exactly as
  many references as it holds and is not offered to anyone else; referencing and releasing never touch
  freed memory; and the pool structure and all its entries have been freed exactly when the pool was
  uninitialised and the last reference released: no leak and no early free, in whichever order the
  client does both.
\<close>

theorem refstruct_pool_safe:
  assumes "pool_reachable reset_cb p held"
  shows "(\<forall>r. held r = 0 \<or> (\<exists>e. entries p r = Some e \<and> refcount e = held r) \<and> r \<notin> set (available_entries p) \<and>
      av_refstruct_ref p r \<noteq> None \<and> av_refstruct_unref reset_cb p (Some r) \<noteq> None) \<and>
    (pool_allocated p \<longleftrightarrow> \<not> uninited p \<or> (\<exists>r. 0 < held r)) \<and>
    (uninited p \<and> (\<forall>r. held r = 0) \<longleftrightarrow> \<not> pool_allocated p \<and> (\<forall>r. entries p r = None))"
proof -
  have inv: "pool_inv p held" using assms by (rule pool_reachable_inv)
  have "held_set held = {} \<longleftrightarrow> (\<forall>r. held r = 0)" by (auto simp: held_set_def)
  then have c: "0 < card (held_set held) \<longleftrightarrow> (\<exists>r. 0 < held r)" using inv by (auto simp: pool_inv_def card_gt_0_iff)
  have alive: "pool_allocated p \<longleftrightarrow> \<not> uninited p \<or> (\<exists>r. 0 < held r)" using inv c by (auto simp: pool_inv_def)
  have held: "held r = 0 \<or> (\<exists>e. entries p r = Some e \<and> refcount e = held r) \<and> r \<notin> set (available_entries p) \<and>
      av_refstruct_ref p r \<noteq> None \<and> av_refstruct_unref reset_cb p (Some r) \<noteq> None" for r
  proof (cases "held r = 0")
    case False
    then have h: "0 < held r" by simp
    show ?thesis
      using pool_inv_held(2,4) [OF inv h] av_refstruct_ref_inv [OF inv h] av_refstruct_unref_inv [OF inv h, of reset_cb]
      by (metis option.distinct(1))
  qed simp
  have gone: "(\<forall>r. entries p r = None)" if "uninited p" "\<forall>r. held r = 0"
  proof -
    have "dom (entries p) = {}" using inv that by (auto simp: pool_inv_def held_set_def)
    then show ?thesis by auto
  qed
  show ?thesis using alive held gone by auto
qed

definition demo_pool0 :: "nat AVRefStructPool" where
  "demo_pool0 = the (av_refstruct_pool_alloc_ext True 0 False False False 0)"

definition demo_pool :: "nat AVRefStructPool" where
  "demo_pool = snd (snd (refstruct_pool_get_ext None (Some 5) 0 demo_pool0))"

lemma demo_pool_reachable: "pool_reachable None demo_pool (\<lambda>r. if r = 0 then 1 else 0)"
proof -
  have p0: "av_refstruct_pool_alloc_ext True 0 False False False 0 = Some demo_pool0"
    by (simp add: demo_pool0_def av_refstruct_pool_alloc_ext_def)
  have "refstruct_pool_get_ext None (Some 5) 0 demo_pool0 = (0, Some 0, demo_pool)"
    by (simp add: demo_pool_def demo_pool0_def refstruct_pool_get_ext_def av_refstruct_pool_alloc_ext_def)
  from pool_reachable.get [OF pool_reachable.alloc [OF p0] _ this, of None]
  have "pool_reachable None demo_pool ((\<lambda>_. 0)(0 := 0 + 1))" by (simp add: demo_pool0_def av_refstruct_pool_alloc_ext_def)
  moreover have "(\<lambda>_. 0)(0 := 0 + 1) = (\<lambda>r::nat. if r = 0 then 1 else (0::nat))" by auto
  ultimately show ?thesis by simp
qed

theorem refstruct_pool_safe_witness:
  "(\<forall>r. (if r = 0 then 1 else 0) = (0::nat) \<or> (\<exists>e. entries demo_pool r = Some e \<and> refcount e = (if r = 0 then 1 else 0)) \<and>
      r \<notin> set (available_entries demo_pool) \<and> av_refstruct_ref demo_pool r \<noteq> None \<and> av_refstruct_unref None demo_pool (Some r) \<noteq> None) \<and>
    (pool_allocated demo_pool \<longleftrightarrow> \<not> uninited demo_pool \<or> (\<exists>r::nat. (0::nat) < (if r = 0 then 1 else 0))) \<and>
    (uninited demo_pool \<and> (\<forall>r::nat. (if r = 0 then 1 else 0) = (0::nat)) \<longleftrightarrow> \<not> pool_allocated demo_pool \<and> (\<forall>r. entries demo_pool r = None))"
  by (rule refstruct_pool_safe [OF demo_pool_reachable])

end
