(* ===== verification/AV_ContainerFifo.thy ===== *)
theory AV_ContainerFifo
  imports AV_Fifo AV_Refstruct
begin

text \<open>
  \<^verbatim>\<open>libavutil/container_fifo.c\<close>: a FIFO of frames, packets or other containers. The FIFO holds addresses
  of pool entries; the contents of a container live in its entry. The client's callbacks are the
  record \<open>container_ops\<close>; the outcomes of the allocations are arguments.
\<close>

unbundle bit_operations_syntax

section \<open>State and operations\<close>

text \<open>\<^verbatim>\<open>container_reset\<close> empties a container; \<^verbatim>\<open>fifo_transfer\<close> takes \<^verbatim>\<open>dst\<close>, \<^verbatim>\<open>src\<close> and the flags and
  returns its code and both containers as it leaves them.\<close>

record 'o container_ops =
  container_reset :: "'o \<Rightarrow> 'o"
  fifo_transfer :: "'o \<Rightarrow> 'o \<Rightarrow> u32 \<Rightarrow> int \<times> 'o \<times> 'o"

record 'o AVContainerFifo =
  cf_fifo :: "nat AVFifo"
  cf_pool :: "'o AVRefStructPool"

abbreviation AV_CONTAINER_FIFO_FLAG_REF :: u32 where "AV_CONTAINER_FIFO_FLAG_REF \<equiv> 1"

text \<open>\<open>calloc\<close> is what \<^verbatim>\<open>container_alloc\<close> returns: a new container, or \<open>None\<close>.\<close>

definition container_fifo_init_entry :: "'o option \<Rightarrow> 'o \<Rightarrow> int \<times> 'o" where
  "container_fifo_init_entry calloc obj = (case calloc of None \<Rightarrow> (AVERROR ENOMEM, obj) | Some c \<Rightarrow> (0, c))"

definition av_container_fifo_alloc :: "(nat \<Rightarrow> bool) \<Rightarrow> bool \<Rightarrow> bool \<Rightarrow> int \<Rightarrow> 'o AVContainerFifo option" where
  "av_container_fifo_alloc heap cf_heap pool_heap mutex_err =
     (if \<not> cf_heap then None
      else case av_fifo_alloc2 heap 1 8 AV_FIFO_FLAG_AUTO_GROW of
             None \<Rightarrow> None
           | Some f \<Rightarrow>
               map_option (\<lambda>p. \<lparr>cf_fifo = f, cf_pool = p\<rparr>) (av_refstruct_pool_alloc_ext pool_heap mutex_err True True False 0))"

definition set_container :: "'o AVRefStructPool \<Rightarrow> nat \<Rightarrow> 'o \<Rightarrow> 'o AVRefStructPool" where
  "set_container pool r obj = pool\<lparr>entries := (entries pool)(r := map_option (\<lambda>e. e\<lparr>entry_obj := obj\<rparr>) (entries pool r))\<rparr>"

definition av_container_fifo_read ::
  "'o container_ops \<Rightarrow> 'o AVContainerFifo \<Rightarrow> 'o \<Rightarrow> u32 \<Rightarrow> (int \<times> 'o \<times> 'o AVContainerFifo) option" where
  "av_container_fifo_read ops cf obj flags =
     (case av_fifo_read (cf_fifo cf) 1 of
        None \<Rightarrow> None
      | Some (ret, buf, f) \<Rightarrow>
          if ret < 0 then Some (ret, obj, cf\<lparr>cf_fifo := f\<rparr>)
          else
            case buf of
              [Some psrc] \<Rightarrow>
                (case entries (cf_pool cf) psrc of
                   None \<Rightarrow> None
                 | Some e \<Rightarrow>
                     (case fifo_transfer ops obj (entry_obj e) flags of
                        (ret, obj, src) \<Rightarrow>
                          map_option (\<lambda>pool. (ret, obj, \<lparr>cf_fifo = f, cf_pool = pool\<rparr>))
                            (av_refstruct_unref (Some (container_reset ops)) (set_container (cf_pool cf) psrc src) (Some psrc))))
            | _ \<Rightarrow> None)"

definition av_container_fifo_peek :: "'o AVContainerFifo \<Rightarrow> nat \<Rightarrow> (int \<times> 'o option) option" where
  "av_container_fifo_peek cf offset =
     (case av_fifo_peek (cf_fifo cf) 1 offset of
        None \<Rightarrow> None
      | Some (ret, buf) \<Rightarrow>
          if ret < 0 then Some (ret, None)
          else
            case buf of
              [Some pobj] \<Rightarrow> map_option (\<lambda>e. (0, Some (entry_obj e))) (entries (cf_pool cf) pobj)
            | _ \<Rightarrow> None)"

fun container_drain_loop :: "'o container_ops \<Rightarrow> nat \<Rightarrow> 'o AVContainerFifo \<Rightarrow> 'o AVContainerFifo option" where
  "container_drain_loop ops 0 cf = Some cf"
| "container_drain_loop ops (Suc n) cf =
     (case av_fifo_read (cf_fifo cf) 1 of
        Some (ret, [Some pobj], f) \<Rightarrow>
          if ret < 0 then None
          else
            (case av_refstruct_unref (Some (container_reset ops)) (cf_pool cf) (Some pobj) of
               None \<Rightarrow> None
             | Some pool \<Rightarrow> container_drain_loop ops n \<lparr>cf_fifo = f, cf_pool = pool\<rparr>)
      | _ \<Rightarrow> None)"

definition av_container_fifo_drain :: "'o container_ops \<Rightarrow> 'o AVContainerFifo \<Rightarrow> nat \<Rightarrow> 'o AVContainerFifo option" where
  "av_container_fifo_drain ops cf n =
     (if \<not> n \<le> av_fifo_can_read (cf_fifo cf) then None else container_drain_loop ops n cf)"

text \<open>\<open>block\<close> is the memory a new pool entry gets and \<open>calloc\<close> the new container, should they be needed.\<close>

definition av_container_fifo_write ::
  "'o container_ops \<Rightarrow> (nat \<Rightarrow> bool) \<Rightarrow> 'o option \<Rightarrow> 'o option \<Rightarrow> 'o AVContainerFifo \<Rightarrow> 'o \<Rightarrow> u32 \<Rightarrow>
   (int \<times> 'o \<times> 'o AVContainerFifo) option" where
  "av_container_fifo_write ops heap block calloc cf obj flags =
     (case refstruct_pool_get_ext (Some (container_fifo_init_entry calloc)) block obj (cf_pool cf) of
        (_, None, pool) \<Rightarrow> Some (AVERROR ENOMEM, obj, cf\<lparr>cf_pool := pool\<rparr>)
      | (_, Some pdst, pool) \<Rightarrow>
          (case entries pool pdst of
             None \<Rightarrow> None
           | Some e \<Rightarrow>
               (case fifo_transfer ops (entry_obj e) obj flags of
                  (ret, dst, obj) \<Rightarrow>
                    let pool = set_container pool pdst dst;
                        fail = (\<lambda>ret f. map_option (\<lambda>pool. (ret, obj, \<lparr>cf_fifo = f, cf_pool = pool\<rparr>))
                                  (av_refstruct_unref (Some (container_reset ops)) pool (Some pdst)))
                    in if ret < 0 then fail ret (cf_fifo cf)
                       else
                         case av_fifo_write heap (cf_fifo cf) [pdst] 1 of
                           None \<Rightarrow> None
                         | Some (ret, f) \<Rightarrow>
                             if ret < 0 then fail ret f
                             else Some (0, obj, \<lparr>cf_fifo = f, cf_pool = pool\<rparr>))))"

definition av_container_fifo_can_read :: "'o AVContainerFifo \<Rightarrow> nat" where
  "av_container_fifo_can_read cf = av_fifo_can_read (cf_fifo cf)"

text \<open>The callbacks for frames and packets: move the contents, or make a new reference to them.\<close>

definition frame_transfer :: "('o \<Rightarrow> 'o \<Rightarrow> int \<times> 'o) \<Rightarrow> 'o \<Rightarrow> 'o \<Rightarrow> 'o \<Rightarrow> u32 \<Rightarrow> int \<times> 'o \<times> 'o" where
  "frame_transfer av_frame_ref blank dst src flags =
     (if flags AND AV_CONTAINER_FIFO_FLAG_REF \<noteq> 0
      then (case av_frame_ref dst src of (ret, dst) \<Rightarrow> (ret, dst, src))
      else (0, src, blank))"

definition frame_ops :: "('o \<Rightarrow> 'o \<Rightarrow> int \<times> 'o) \<Rightarrow> 'o \<Rightarrow> 'o container_ops" where
  "frame_ops av_frame_ref blank = \<lparr>container_reset = (\<lambda>_. blank), fifo_transfer = frame_transfer av_frame_ref blank\<rparr>"

section \<open>Invariant and contents\<close>

definition cf_held :: "'o AVContainerFifo \<Rightarrow> nat \<Rightarrow> nat" where
  "cf_held cf r = (if r \<in> set (fifo_contents (cf_fifo cf)) then 1 else 0)"

definition cf_contents :: "'o AVContainerFifo \<Rightarrow> 'o list" where
  "cf_contents cf = map (\<lambda>r. entry_obj (the (entries (cf_pool cf) r))) (fifo_contents (cf_fifo cf))"

text \<open>
  Every entry is either in the FIFO, once, or available; the FIFO holds the only reference; and the
  available containers are clean.
\<close>

definition cf_inv :: "('o \<Rightarrow> bool) \<Rightarrow> 'o AVContainerFifo \<Rightarrow> bool" where
  "cf_inv clean cf \<longleftrightarrow>
     fifo_inv (cf_fifo cf) \<and> distinct (fifo_contents (cf_fifo cf)) \<and>
     pool_inv (cf_pool cf) (cf_held cf) \<and> \<not> uninited (cf_pool cf) \<and>
     pool_flags (cf_pool cf) AND AV_REFSTRUCT_POOL_FLAG_ZERO_EVERY_TIME = 0 \<and>
     (\<forall>r \<in> set (available_entries (cf_pool cf)). \<exists>e. entries (cf_pool cf) r = Some e \<and> clean (entry_obj e))"

lemma set_container_simps [simp]:
  "dom (entries (set_container p r obj)) = dom (entries p)" "available_entries (set_container p r obj) = available_entries p"
  "pool_refcount (set_container p r obj) = pool_refcount p" "uninited (set_container p r obj) = uninited p"
  "pool_allocated (set_container p r obj) = pool_allocated p" "pool_flags (set_container p r obj) = pool_flags p"
  "next_block (set_container p r obj) = next_block p" "q \<noteq> r \<Longrightarrow> entries (set_container p r obj) q = entries p q"
  "entries (set_container p r obj) r = map_option (\<lambda>e. e\<lparr>entry_obj := obj\<rparr>) (entries p r)"
  by (auto simp: set_container_def dom_def)

lemma pool_inv_set_container:
  assumes inv: "pool_inv p held"
  shows "pool_inv (set_container p r obj) held"
proof -
  have "\<exists>e. entries (set_container p r obj) q = Some e \<and> refcount e = held q" if "0 < held q" for q
    using pool_inv_held(2) [OF inv that] by (cases "q = r") auto
  with inv show ?thesis by (simp add: pool_inv_def)
qed

lemma av_container_fifo_alloc_inv:
  assumes "av_container_fifo_alloc heap cf_heap pool_heap mutex_err = Some cf"
  shows "cf_inv clean cf \<and> cf_contents cf = []"
proof -
  obtain f p where f: "av_fifo_alloc2 heap 1 8 AV_FIFO_FLAG_AUTO_GROW = Some f"
    and p: "av_refstruct_pool_alloc_ext pool_heap mutex_err True True False 0 = Some p" and cf: "cf = \<lparr>cf_fifo = f, cf_pool = p\<rparr>"
    using assms by (auto simp: av_container_fifo_alloc_def split: if_splits option.splits)
  have "fifo_inv f \<and> fifo_contents f = []" using av_fifo_alloc2_inv [OF f] by simp
  moreover have "\<not> uninited p" "available_entries p = []" "pool_flags p = 0"
    using p by (auto simp: av_refstruct_pool_alloc_ext_def split: if_splits)
  moreover have "cf_held cf = (\<lambda>_. 0)" using calculation(1) by (simp add: cf_held_def cf fun_eq_iff)
  ultimately show ?thesis
    using av_refstruct_pool_alloc_ext_inv [OF p] by (simp add: cf_inv_def cf_contents_def cf)
qed

lemma cf_entry:
  assumes "cf_inv clean cf" "r \<in> set (fifo_contents (cf_fifo cf))"
  obtains e where "entries (cf_pool cf) r = Some e" "cf_held cf r = 1" "r \<notin> set (available_entries (cf_pool cf))"
proof -
  have "pool_inv (cf_pool cf) (cf_held cf)" "cf_held cf r = 1" using assms by (simp_all add: cf_inv_def cf_held_def)
  then show thesis using pool_inv_held(2,4) [of "cf_pool cf" "cf_held cf" r] that by fastforce
qed

text \<open>Releasing an entry that leaves the FIFO: it becomes available, reset, and the others keep their contents.\<close>

lemma cf_release:
  assumes inv: "pool_inv pool held" "held r = 1" "\<not> uninited pool" "entries pool r = Some e"
    and clean: "\<And>c. clean (reset c)" "\<forall>q \<in> set (available_entries pool). \<exists>e. entries pool q = Some e \<and> clean (entry_obj e)"
  obtains pool' where "av_refstruct_unref (Some reset) pool (Some r) = Some pool'" "pool_inv pool' (held(r := 0))" "\<not> uninited pool'"
    "\<And>q. q \<noteq> r \<Longrightarrow> entries pool' q = entries pool q" "pool_flags pool' = pool_flags pool"
    "\<forall>q \<in> set (available_entries pool'). \<exists>e. entries pool' q = Some e \<and> clean (entry_obj e)"
proof -
  obtain p' where p': "av_refstruct_unref (Some reset) pool (Some r) = Some p'" "pool_inv p' (held(r := 0))" "\<not> uninited p'"
    "available_entries p' = r # available_entries pool" "\<And>q. q \<noteq> r \<Longrightarrow> entries p' q = entries pool q"
    "entries p' r = Some \<lparr>refcount = 0, entry_obj = (case Some reset of None \<Rightarrow> entry_obj e | Some cb \<Rightarrow> cb (entry_obj e))\<rparr>"
    "pool_flags p' = pool_flags pool"
    using av_refstruct_unref_frame [OF inv, where reset_cb = "Some reset"] by blast
  have "\<exists>e. entries p' q = Some e \<and> clean (entry_obj e)" if "q \<in> set (available_entries p')" for q
    using that p'(4-6) clean by (cases "q = r") auto
  then show thesis using that p' by blast
qed

section \<open>Reading, peeking and draining\<close>

lemma cf_pop:
  assumes inv: "cf_inv clean cf" and x: "fifo_contents (cf_fifo cf) = r # rs"
    and f: "fifo_inv f" "fifo_contents f = rs"
    and pool: "pool_inv pool ((cf_held cf)(r := 0))" "\<not> uninited pool" "\<And>q. q \<noteq> r \<Longrightarrow> entries pool q = entries (cf_pool cf) q"
      "pool_flags pool = pool_flags (cf_pool cf)" "\<forall>q \<in> set (available_entries pool). \<exists>e. entries pool q = Some e \<and> clean (entry_obj e)"
  shows "cf_inv clean \<lparr>cf_fifo = f, cf_pool = pool\<rparr> \<and> cf_contents cf = entry_obj (the (entries (cf_pool cf) r)) # cf_contents \<lparr>cf_fifo = f, cf_pool = pool\<rparr>"
proof -
  have d: "r \<notin> set rs" "distinct rs" using inv x by (auto simp: cf_inv_def)
  have held: "cf_held \<lparr>cf_fifo = f, cf_pool = pool\<rparr> = (cf_held cf)(r := 0)"
    using d x f by (auto simp: cf_held_def fun_eq_iff)
  have "entries pool q = entries (cf_pool cf) q" if "q \<in> set rs" for q
    using that d(1) by (intro pool(3)) auto
  then have "cf_contents \<lparr>cf_fifo = f, cf_pool = pool\<rparr> = map (\<lambda>r. entry_obj (the (entries (cf_pool cf) r))) rs"
    by (simp add: cf_contents_def f(2))
  then show ?thesis
    using inv d f pool held x by (auto simp: cf_inv_def cf_contents_def)
qed

lemma av_container_fifo_read_cases:
  assumes inv: "cf_inv clean cf" and clean: "\<And>c. clean (container_reset ops c)"
  obtains (nothing) cf' where "cf_contents cf = []" "av_container_fifo_read ops cf obj flags = Some (AVERROR EINVAL, obj, cf')"
      "cf_inv clean cf'" "cf_contents cf' = []"
  | (taken) x ret dst src cf' where "fifo_transfer ops obj x flags = (ret, dst, src)"
      "av_container_fifo_read ops cf obj flags = Some (ret, dst, cf')" "cf_inv clean cf'" "cf_contents cf = x # cf_contents cf'"
proof -
  have fi: "fifo_inv (cf_fifo cf)" using inv by (simp add: cf_inv_def)
  show thesis
  proof (cases rule: avf.deq_one [OF fi, case_names taken failed])
    case (failed ret f)
    obtain f1 where f1: "av_fifo_read (cf_fifo cf) 1 =
        Some (if 1 \<le> av_fifo_can_read (cf_fifo cf) then (0, map Some (take 1 (fifo_contents (cf_fifo cf))), f1) else (AVERROR EINVAL, [], f1))"
      by (rule av_fifo_read_cases [OF fi])
    have c: "\<not> 1 \<le> av_fifo_can_read (cf_fifo cf)" "ret = AVERROR EINVAL"
      using f1 failed(1,3) by (auto split: if_splits)
    have "length (fifo_contents (cf_fifo cf)) = 0" using c(1) by simp
    then have "fifo_contents (cf_fifo cf) = []" by (simp only: length_0_conv)
    moreover have "cf_held (cf\<lparr>cf_fifo := f\<rparr>) = cf_held cf" using failed(4) by (simp add: cf_held_def fun_eq_iff)
    then have "cf_inv clean (cf\<lparr>cf_fifo := f\<rparr>)" using inv failed by (simp add: cf_inv_def)
    ultimately have c0: "cf_contents cf = []" "cf_contents (cf\<lparr>cf_fifo := f\<rparr>) = []" "cf_inv clean (cf\<lparr>cf_fifo := f\<rparr>)"
      using failed(4) by (simp_all add: cf_contents_def)
    have rd: "av_container_fifo_read ops cf obj flags = Some (AVERROR EINVAL, obj, cf\<lparr>cf_fifo := f\<rparr>)"
      using failed(1,3) c(2) by (simp add: av_container_fifo_read_def)
    show thesis by (rule that(1) [OF c0(1) rd c0(3,2)])
  next
    case (taken ret r f)
    then have in_set: "r \<in> set (fifo_contents (cf_fifo cf))" by simp
    obtain e where e: "entries (cf_pool cf) r = Some e" "cf_held cf r = 1" by (rule cf_entry [OF inv in_set])
    obtain ret' dst src where t: "fifo_transfer ops obj (entry_obj e) flags = (ret', dst, src)" by (cases "fifo_transfer ops obj (entry_obj e) flags")
    define pool where "pool = set_container (cf_pool cf) r src"
    have p: "pool_inv pool (cf_held cf)" "\<not> uninited pool" "entries pool r = Some (e\<lparr>entry_obj := src\<rparr>)"
      "available_entries pool = available_entries (cf_pool cf)" "\<And>q. q \<noteq> r \<Longrightarrow> entries pool q = entries (cf_pool cf) q"
      "pool_flags pool = pool_flags (cf_pool cf)"
      using inv e pool_inv_set_container [of "cf_pool cf" "cf_held cf" r src] by (auto simp: pool_def cf_inv_def)
    have c: "\<forall>q \<in> set (available_entries pool). \<exists>e. entries pool q = Some e \<and> clean (entry_obj e)"
      using inv e p(4,5) cf_entry [OF inv in_set] by (metis cf_inv_def)
    obtain pool' where pool': "av_refstruct_unref (Some (container_reset ops)) pool (Some r) = Some pool'" "pool_inv pool' ((cf_held cf)(r := 0))"
      "\<not> uninited pool'" "\<And>q. q \<noteq> r \<Longrightarrow> entries pool' q = entries pool q" "pool_flags pool' = pool_flags pool"
      "\<forall>q \<in> set (available_entries pool'). \<exists>e. entries pool' q = Some e \<and> clean (entry_obj e)"
      using cf_release [where reset = "container_reset ops" and clean = clean, OF p(1) e(2) p(2,3) clean c] by blast
    have "cf_inv clean \<lparr>cf_fifo = f, cf_pool = pool'\<rparr> \<and> cf_contents cf = entry_obj (the (entries (cf_pool cf) r)) # cf_contents \<lparr>cf_fifo = f, cf_pool = pool'\<rparr>"
      using taken pool' p(5,6) by (intro cf_pop [OF inv]) auto
    moreover have "av_container_fifo_read ops cf obj flags = Some (ret', dst, \<lparr>cf_fifo = f, cf_pool = pool'\<rparr>)"
      using taken(1,3) e(1) t pool'(1) by (simp add: av_container_fifo_read_def pool_def)
    ultimately show thesis using that(2) t e(1) by simp
  qed
qed

lemma av_container_fifo_write_cases:
  assumes inv: "cf_inv clean cf" and clean: "\<And>c. clean (container_reset ops c)" "\<forall>c. calloc = Some c \<longrightarrow> clean c"
  obtains (no_entry) cf' where "av_container_fifo_write ops heap block calloc cf obj flags = Some (AVERROR ENOMEM, obj, cf')"
      "cf_inv clean cf'" "cf_contents cf' = cf_contents cf"
  | (failed) ret src cf' where "av_container_fifo_write ops heap block calloc cf obj flags = Some (ret, src, cf')" "ret < 0"
      "cf_inv clean cf'" "cf_contents cf' = cf_contents cf" "\<exists>c dst ret. clean c \<and> fifo_transfer ops c obj flags = (ret, dst, src)"
  | (stored) c ret dst src cf' where "clean c" "fifo_transfer ops c obj flags = (ret, dst, src)" "\<not> ret < 0"
      "av_container_fifo_write ops heap block calloc cf obj flags = Some (0, src, cf')"
      "cf_inv clean cf'" "cf_contents cf' = cf_contents cf @ [dst]"
proof -
  let ?get = "refstruct_pool_get_ext (Some (container_fifo_init_entry calloc)) block obj (cf_pool cf)"
  have fi: "fifo_inv (cf_fifo cf)" and pi: "pool_inv (cf_pool cf) (cf_held cf)" and un: "\<not> uninited (cf_pool cf)"
    using inv by (simp_all add: cf_inv_def)
  obtain err pdst pool where get: "?get = (err, pdst, pool)" by (cases ?get)
  show thesis
  proof (cases pdst)
    case None
    note p = refstruct_pool_get_ext_fail [OF get [unfolded None], THEN conjunct1] refstruct_pool_get_ext_fail [OF get [unfolded None], THEN conjunct2]
    have h: "cf_held (cf\<lparr>cf_pool := pool\<rparr>) = cf_held cf" by (simp add: cf_held_def fun_eq_iff)
    have "pool_inv pool (cf_held cf)" by (subst p(2)) (rule pool_inv_later [OF pi p(1)])
    moreover have e: "entries pool = entries (cf_pool cf)" "available_entries pool = available_entries (cf_pool cf)" "uninited pool = uninited (cf_pool cf)"
      "pool_flags pool = pool_flags (cf_pool cf)" by (subst p(2), simp)+
    ultimately have "cf_inv clean (cf\<lparr>cf_pool := pool\<rparr>)" using inv unfolding cf_inv_def h by simp
    moreover have "cf_contents (cf\<lparr>cf_pool := pool\<rparr>) = cf_contents cf" by (simp add: cf_contents_def e)
    ultimately show thesis using no_entry [of "cf\<lparr>cf_pool := pool\<rparr>"] get None by (simp add: av_container_fifo_write_def)
  next
    case (Some r)
    note get' = get [unfolded Some]
    have p: "pool_inv pool ((cf_held cf)(r := cf_held cf r + 1))" "cf_held cf r = 0" "\<not> uninited pool"
      using refstruct_pool_get_ext_inv [OF pi un get'] un by simp_all
    note frame = refstruct_pool_get_ext_frame [OF pi get']
    have av0: "\<forall>q \<in> set (available_entries (cf_pool cf)). \<exists>e. entries (cf_pool cf) q = Some e \<and> clean (entry_obj e)"
      and flag: "pool_flags (cf_pool cf) AND AV_REFSTRUCT_POOL_FLAG_ZERO_EVERY_TIME = 0"
      using inv by (simp_all add: cf_inv_def)
    obtain e where e: "entries pool r = Some e" "clean (entry_obj e)"
      using frame flag av0 clean(2) by (fastforce simp: container_fifo_init_entry_def split: option.splits)
    have notin: "r \<notin> set (fifo_contents (cf_fifo cf))" using p(2) by (auto simp: cf_held_def split: if_splits)
    have oth: "\<And>q. q \<noteq> r \<Longrightarrow> entries pool q = entries (cf_pool cf) q" "pool_flags pool = pool_flags (cf_pool cf)" "r \<notin> set (available_entries pool)"
      "insert r (set (available_entries pool)) = insert r (set (available_entries (cf_pool cf)))"
      using frame by blast+
    have av: "\<exists>e. entries pool q = Some e \<and> clean (entry_obj e)" if "q \<in> set (available_entries pool)" for q
    proof -
      have "q \<noteq> r" using that oth(3) by auto
      moreover have "q \<in> set (available_entries (cf_pool cf))" using that oth(4) \<open>q \<noteq> r\<close> by blast
      ultimately show ?thesis using av0 oth(1) by simp
    qed
    obtain ret dst src where t: "fifo_transfer ops (entry_obj e) obj flags = (ret, dst, src)" by (cases "fifo_transfer ops (entry_obj e) obj flags")
    define pool1 where "pool1 = set_container pool r dst"
    have p1: "pool_inv pool1 ((cf_held cf)(r := 1))" "\<not> uninited pool1" "entries pool1 r = Some (e\<lparr>entry_obj := dst\<rparr>)"
      "available_entries pool1 = available_entries pool" "\<And>q. q \<noteq> r \<Longrightarrow> entries pool1 q = entries (cf_pool cf) q"
      "pool_flags pool1 = pool_flags (cf_pool cf)"
      using pool_inv_set_container [OF p(1), of r dst] p(2,3) e oth by (auto simp: pool1_def)
    have av1: "\<forall>q \<in> set (available_entries pool1). \<exists>e. entries pool1 q = Some e \<and> clean (entry_obj e)"
      using av p1(4,5) oth by metis
    have h1: "((cf_held cf)(r := 1)) r = 1" by simp
    obtain pool2 where pool2: "av_refstruct_unref (Some (container_reset ops)) pool1 (Some r) = Some pool2" "pool_inv pool2 (((cf_held cf)(r := 1))(r := 0))"
      "\<not> uninited pool2" "\<And>q. q \<noteq> r \<Longrightarrow> entries pool2 q = entries pool1 q" "pool_flags pool2 = pool_flags pool1"
      "\<forall>q \<in> set (available_entries pool2). \<exists>e. entries pool2 q = Some e \<and> clean (entry_obj e)"
      using cf_release [where reset = "container_reset ops" and clean = clean, OF p1(1) h1 p1(2,3) clean(1) av1] by blast
    have undone: "cf_inv clean \<lparr>cf_fifo = f, cf_pool = pool2\<rparr> \<and> cf_contents \<lparr>cf_fifo = f, cf_pool = pool2\<rparr> = cf_contents cf"
      if "fifo_inv f" "fifo_contents f = fifo_contents (cf_fifo cf)" for f
    proof -
      have "cf_held \<lparr>cf_fifo = f, cf_pool = pool2\<rparr> = ((cf_held cf)(r := 1))(r := 0)"
        using p(2) that by (auto simp: cf_held_def fun_eq_iff)
      moreover have "entries pool2 q = entries (cf_pool cf) q" if "q \<in> set (fifo_contents (cf_fifo cf))" for q
      proof -
        have "q \<noteq> r" using that notin by auto
        then show ?thesis using pool2(4) p1(5) by simp
      qed
      then have "cf_contents \<lparr>cf_fifo = f, cf_pool = pool2\<rparr> = cf_contents cf"
        by (simp add: cf_contents_def that)
      ultimately show ?thesis using inv pool2 p1(6) that by (simp add: cf_inv_def)
    qed
    show thesis
    proof (cases "ret < 0")
      case True
      then show thesis using failed [of ret src "\<lparr>cf_fifo = cf_fifo cf, cf_pool = pool2\<rparr>"] undone [OF fi refl] get' e t pool2(1)
        by (auto simp: av_container_fifo_write_def Let_def pool1_def)
    next
      case ok: False
      show thesis
      proof (cases rule: avf.enq_cases [OF fi, of heap "[r]", case_names stored failed])
        case (failed ret2 f)
        then show thesis using that(2) [of ret2 src "\<lparr>cf_fifo = f, cf_pool = pool2\<rparr>"] undone [OF failed(2,4)] get' e t pool2(1) failed ok
          by (auto simp: av_container_fifo_write_def Let_def pool1_def)
      next
        case (stored ret2 f)
        have "cf_held \<lparr>cf_fifo = f, cf_pool = pool1\<rparr> = (cf_held cf)(r := 1)" using stored(4) by (auto simp: cf_held_def fun_eq_iff)
        moreover have "entries pool1 q = entries (cf_pool cf) q" if "q \<in> set (fifo_contents (cf_fifo cf))" for q
        proof -
          have "q \<noteq> r" using that notin by auto
          then show ?thesis by (rule p1(5))
        qed
        then have "cf_contents \<lparr>cf_fifo = f, cf_pool = pool1\<rparr> = cf_contents cf @ [dst]"
          using p1(3) stored(4) by (simp add: cf_contents_def)
        ultimately have "cf_inv clean \<lparr>cf_fifo = f, cf_pool = pool1\<rparr> \<and> cf_contents \<lparr>cf_fifo = f, cf_pool = pool1\<rparr> = cf_contents cf @ [dst]"
          using inv p1 av1 stored notin by (auto simp: cf_inv_def)
        then show thesis using that(3) [OF e(2) t ok] get' e t stored ok
          by (auto simp: av_container_fifo_write_def Let_def pool1_def)
      qed
    qed
  qed
qed

lemma av_container_fifo_peek_eq:
  assumes "cf_inv clean cf"
  shows "av_container_fifo_peek cf offset =
    Some (if offset < length (cf_contents cf) then (0, Some (cf_contents cf ! offset)) else (AVERROR EINVAL, None))"
proof -
  have fi: "fifo_inv (cf_fifo cf)" using assms by (simp add: cf_inv_def)
  have peek: "av_fifo_peek (cf_fifo cf) 1 offset =
    Some (if offset + 1 \<le> av_fifo_can_read (cf_fifo cf) then (0, map Some (take 1 (drop offset (fifo_contents (cf_fifo cf))))) else (AVERROR EINVAL, []))"
    by (simp add: av_fifo_peek_def fifo_peek_common_buf [OF fi])
  show ?thesis
  proof (cases "offset < length (fifo_contents (cf_fifo cf))")
    case True
    let ?r = "fifo_contents (cf_fifo cf) ! offset"
    have "take 1 (drop offset (fifo_contents (cf_fifo cf))) = [?r]"
      using True by (simp add: take_Suc_conv_app_nth [of 0, simplified] hd_drop_conv_nth take_Suc)
    moreover obtain e where "entries (cf_pool cf) ?r = Some e" by (rule cf_entry [OF assms, of ?r]) (use True in simp)
    ultimately show ?thesis using True peek by (simp add: av_container_fifo_peek_def cf_contents_def)
  next
    case False
    then show ?thesis using peek AVERROR_neg [of EINVAL]
      by (simp add: av_container_fifo_peek_def cf_contents_def del: AVERROR.simps)
  qed
qed

lemma container_drain_loop_inv:
  "cf_inv clean cf \<Longrightarrow> (\<And>c. clean (container_reset ops c)) \<Longrightarrow> n \<le> length (cf_contents cf) \<Longrightarrow>
   \<exists>cf'. container_drain_loop ops n cf = Some cf' \<and> cf_inv clean cf' \<and> cf_contents cf' = drop n (cf_contents cf)"
proof (induction n arbitrary: cf)
  case 0
  then show ?case by simp
next
  case (Suc n)
  have fi: "fifo_inv (cf_fifo cf)" using Suc.prems(1) by (simp add: cf_inv_def)
  show ?case
  proof (cases rule: avf.deq_one [OF fi, case_names taken failed])
    case (failed ret f)
    have "1 \<le> length (fifo_contents (cf_fifo cf))" using Suc.prems(3) unfolding cf_contents_def length_map by linarith
    then have "1 \<le> av_fifo_can_read (cf_fifo cf)" by (simp only: length_fifo_contents)
    moreover obtain f1 where "av_fifo_read (cf_fifo cf) 1 =
        Some (if 1 \<le> av_fifo_can_read (cf_fifo cf) then (0, map Some (take 1 (fifo_contents (cf_fifo cf))), f1) else (AVERROR EINVAL, [], f1))"
      by (rule av_fifo_read_cases [OF fi])
    ultimately show ?thesis using failed(1,3) by simp
  next
    case (taken ret r f)
    then have in_set: "r \<in> set (fifo_contents (cf_fifo cf))" by simp
    obtain e where e: "entries (cf_pool cf) r = Some e" "cf_held cf r = 1" by (rule cf_entry [OF Suc.prems(1) in_set])
    have pi: "pool_inv (cf_pool cf) (cf_held cf)" "\<not> uninited (cf_pool cf)"
      "\<forall>q \<in> set (available_entries (cf_pool cf)). \<exists>e. entries (cf_pool cf) q = Some e \<and> clean (entry_obj e)"
      using Suc.prems(1) by (simp_all add: cf_inv_def)
    obtain pool' where pool': "av_refstruct_unref (Some (container_reset ops)) (cf_pool cf) (Some r) = Some pool'" "pool_inv pool' ((cf_held cf)(r := 0))"
      "\<not> uninited pool'" "\<And>q. q \<noteq> r \<Longrightarrow> entries pool' q = entries (cf_pool cf) q" "pool_flags pool' = pool_flags (cf_pool cf)"
      "\<forall>q \<in> set (available_entries pool'). \<exists>e. entries pool' q = Some e \<and> clean (entry_obj e)"
      using cf_release [where reset = "container_reset ops" and clean = clean, OF pi(1) e(2) pi(2) e(1) Suc.prems(2) pi(3)] by blast
    have pop: "cf_inv clean \<lparr>cf_fifo = f, cf_pool = pool'\<rparr> \<and>
        cf_contents cf = entry_obj (the (entries (cf_pool cf) r)) # cf_contents \<lparr>cf_fifo = f, cf_pool = pool'\<rparr>"
      using taken pool' by (intro cf_pop [OF Suc.prems(1)]) auto
    then obtain cf' where "container_drain_loop ops n \<lparr>cf_fifo = f, cf_pool = pool'\<rparr> = Some cf'" "cf_inv clean cf'"
      "cf_contents cf' = drop n (cf_contents \<lparr>cf_fifo = f, cf_pool = pool'\<rparr>)"
      using Suc.IH [of "\<lparr>cf_fifo = f, cf_pool = pool'\<rparr>"] Suc.prems(2,3) by auto
    then show ?thesis using taken(1,3) pool'(1) pop by simp
  qed
qed

text \<open>
  Also: \<^verbatim>\<open>av_container_fifo_peek\<close> shows the container at the given position and changes nothing;
  \<^verbatim>\<open>av_container_fifo_drain\<close> discards exactly the oldest containers, recycling each of them, and its
  assertions hold whenever the argument is in range.
\<close>

theorem av_container_fifo_peek_drain:
  assumes "cf_inv clean cf" "\<forall>c. clean (container_reset ops c)" "n \<le> length (cf_contents cf)"
  shows "av_container_fifo_peek cf offset =
      Some (if offset < length (cf_contents cf) then (0, Some (cf_contents cf ! offset)) else (AVERROR EINVAL, None)) \<and>
    (\<exists>cf'. av_container_fifo_drain ops cf n = Some cf' \<and> cf_inv clean cf' \<and> cf_contents cf' = drop n (cf_contents cf))"
  using container_drain_loop_inv [OF assms(1) _ assms(3), of ops] assms(2,3) av_container_fifo_peek_eq [OF assms(1)]
  by (simp add: av_container_fifo_drain_def cf_contents_def)

section \<open>Queues of frames and packets\<close>

text \<open>
  The contract the thread and sync queues rely on: a write moves the object in or fails, a read moves the
  oldest object out. After a failed write the object is either untouched or already emptied.
\<close>

locale container_queue =
  fixes inv :: "'f \<Rightarrow> bool"
    and contents :: "'f \<Rightarrow> 'o list"
    and blank :: 'o
    and putobj :: "'e \<Rightarrow> 'f \<Rightarrow> 'o \<Rightarrow> (int \<times> 'o \<times> 'f) option"
    and takeobj :: "'f \<Rightarrow> 'o \<Rightarrow> (int \<times> 'o \<times> 'f) option"
  assumes put_spec: "inv f \<Longrightarrow> \<exists>ret obj' f'. putobj env f obj = Some (ret, obj', f') \<and> inv f' \<and>
      (if ret < 0 then contents f' = contents f \<and> obj' \<in> {obj, blank} else ret = 0 \<and> obj' = blank \<and> contents f' = contents f @ [obj])"
    and take_spec: "inv f \<Longrightarrow> \<exists>ret obj' f'. takeobj f obj = Some (ret, obj', f') \<and> inv f' \<and>
      (if contents f = [] then ret < 0 \<and> obj' = obj \<and> contents f' = [] else ret = 0 \<and> contents f = obj' # contents f')"
begin

lemma put_cases:
  assumes "inv f"
  obtains (stored) f' where "putobj env f obj = Some (0, blank, f')" "inv f'" "contents f' = contents f @ [obj]"
  | (failed) ret obj' f' where "putobj env f obj = Some (ret, obj', f')" "inv f'" "ret < 0" "contents f' = contents f" "obj' \<in> {obj, blank}"
  using put_spec [OF assms, of env obj] by (auto split: if_splits)

lemma take_cases:
  assumes "inv f"
  obtains (nothing) ret f' where "takeobj f obj = Some (ret, obj, f')" "inv f'" "ret < 0" "contents f = []" "contents f' = []"
  | (taken) x f' where "takeobj f obj = Some (0, x, f')" "inv f'" "contents f = x # contents f'"
  using take_spec [OF assms, of obj] by (auto split: if_splits)

end

type_synonym 'o alloc_env = "(nat \<Rightarrow> bool) \<times> 'o option \<times> bool"

definition write_frame :: "('o \<Rightarrow> 'o \<Rightarrow> int \<times> 'o) \<Rightarrow> 'o \<Rightarrow> 'o alloc_env \<Rightarrow> 'o AVContainerFifo \<Rightarrow> 'o \<Rightarrow> (int \<times> 'o \<times> 'o AVContainerFifo) option" where
  "write_frame fref blank env cf obj =
     (case env of (heap, block, ok) \<Rightarrow>
        av_container_fifo_write (frame_ops fref blank) heap block (if ok then Some blank else None) cf obj 0)"

definition read_frame :: "('o \<Rightarrow> 'o \<Rightarrow> int \<times> 'o) \<Rightarrow> 'o \<Rightarrow> 'o AVContainerFifo \<Rightarrow> 'o \<Rightarrow> (int \<times> 'o \<times> 'o AVContainerFifo) option" where
  "read_frame fref blank cf obj = av_container_fifo_read (frame_ops fref blank) cf obj 0"

interpretation cfq: container_queue "cf_inv (\<lambda>c. c = blank)" cf_contents blank "write_frame fref blank" "read_frame fref blank"
  for blank :: 'o and fref :: "'o \<Rightarrow> 'o \<Rightarrow> int \<times> 'o"
proof
  fix cf :: "'o AVContainerFifo" and env :: "'o alloc_env" and obj :: 'o
  assume inv: "cf_inv (\<lambda>c. c = blank) cf"
  obtain heap block ok where env: "env = (heap, block, ok)" by (cases env)
  have reset: "container_reset (frame_ops fref blank) c = blank" for c by (simp add: frame_ops_def)
  have move: "fifo_transfer (frame_ops fref blank) dst src 0 = (0, src, blank)" for dst src
    by (simp add: frame_ops_def frame_transfer_def)
  have new: "\<forall>c. (if ok then Some blank else None) = Some c \<longrightarrow> c = blank" by (simp split: if_splits)
  show "\<exists>ret obj' f'. write_frame fref blank env cf obj = Some (ret, obj', f') \<and> cf_inv (\<lambda>c. c = blank) f' \<and>
      (if ret < 0 then cf_contents f' = cf_contents cf \<and> obj' \<in> {obj, blank}
       else ret = 0 \<and> obj' = blank \<and> cf_contents f' = cf_contents cf @ [obj])"
  proof (cases rule: av_container_fifo_write_cases [where heap = heap and block = block and obj = obj and flags = 0 and ops = "frame_ops fref blank" and
      clean = "\<lambda>c. c = blank" and calloc = "if ok then Some blank else None", OF inv reset new, case_names no_entry failed stored])
    case (no_entry cf')
    then show ?thesis using AVERROR_neg [of ENOMEM]
      by (intro exI [of _ "AVERROR ENOMEM"] exI [of _ obj] exI [of _ cf']) (simp add: write_frame_def env del: AVERROR.simps)
  next
    case (failed ret src cf')
    then show ?thesis by (intro exI [of _ ret] exI [of _ src] exI [of _ cf']) (auto simp: write_frame_def env move)
  next
    case (stored c ret dst src cf')
    then show ?thesis by (intro exI [of _ 0] exI [of _ src] exI [of _ cf']) (auto simp: write_frame_def env move)
  qed
  show "\<exists>ret obj' f'. read_frame fref blank cf obj = Some (ret, obj', f') \<and> cf_inv (\<lambda>c. c = blank) f' \<and>
      (if cf_contents cf = [] then ret < 0 \<and> obj' = obj \<and> cf_contents f' = [] else ret = 0 \<and> cf_contents cf = obj' # cf_contents f')"
  proof (cases rule: av_container_fifo_read_cases [where clean = "\<lambda>c. c = blank", OF inv reset, of obj 0, case_names nothing taken])
    case (nothing cf')
    then show ?thesis using AVERROR_neg [of EINVAL] by (simp add: read_frame_def del: AVERROR.simps)
  next
    case (taken x ret dst src cf')
    then show ?thesis by (auto simp: read_frame_def move)
  qed
qed

text \<open>
  C9: writing a frame to a container FIFO moves it to the end or fails leaving the queue as it was, and
  reading moves the oldest frame out; every pool entry stays either in the FIFO, referenced once, or
  available and clean, so that \<^verbatim>\<open>av_frame_move_ref\<close> is only ever given a clean destination.
\<close>

theorem av_container_fifo_moves_frames:
  assumes "cf_inv (\<lambda>c. c = blank) cf"
  shows "(\<exists>ret obj' cf'. write_frame fref blank env cf obj = Some (ret, obj', cf') \<and> cf_inv (\<lambda>c. c = blank) cf' \<and>
      (if ret < 0 then cf_contents cf' = cf_contents cf \<and> obj' \<in> {obj, blank}
       else ret = 0 \<and> obj' = blank \<and> cf_contents cf' = cf_contents cf @ [obj])) \<and>
    (\<exists>ret obj' cf'. read_frame fref blank cf obj = Some (ret, obj', cf') \<and> cf_inv (\<lambda>c. c = blank) cf' \<and>
      (if cf_contents cf = [] then ret < 0 \<and> obj' = obj \<and> cf_contents cf' = [] else ret = 0 \<and> cf_contents cf = obj' # cf_contents cf'))"
  using cfq.put_spec [OF assms] cfq.take_spec [OF assms] by blast

definition demo_container :: "nat AVContainerFifo" where
  "demo_container =
     \<lparr>cf_fifo = \<lparr>buffer = [Some 0], elem_size = 8, nb_elems = 1, offset_r = 0, offset_w = 0, is_empty = False,
        fifo_flags = AV_FIFO_FLAG_AUTO_GROW, auto_grow_limit = 131072\<rparr>,
      cf_pool = \<lparr>entries = [0 \<mapsto> \<lparr>refcount = 1, entry_obj = 5\<rparr>], available_entries = [], pool_refcount = 2, uninited = False,
        pool_allocated = True, pool_flags = 0, entry_flags = 0, next_block = 1,
        has_free_entry_cb = True, has_free_cb = False, pool_calls = []\<rparr>\<rparr>"

lemma demo_container_inv:
  "cf_inv (\<lambda>c. c = 0) demo_container" "cf_contents demo_container = [5]" "av_fifo_can_write (cf_fifo demo_container) = 0"
proof -
  have f: "fifo_inv (cf_fifo demo_container) \<and> av_fifo_can_read (cf_fifo demo_container) = 1 \<and> fifo_contents (cf_fifo demo_container) = [0]"
    by (rule fifo_invI) (simp_all add: demo_container_def ring_def)
  have h: "cf_held demo_container = (\<lambda>r. if r = 0 then 1 else 0)" using f by (auto simp: cf_held_def fun_eq_iff)
  have s: "held_set (cf_held demo_container) = {0}" unfolding h by (auto simp: held_set_def)
  have g: "cf_held demo_container r = (if r = 0 then 1 else 0)" for r by (simp add: h)
  show "cf_inv (\<lambda>c. c = 0) demo_container"
    using f s g by (simp add: cf_inv_def pool_inv_def) (simp add: demo_container_def)
  show "cf_contents demo_container = [5]" using f by (simp add: cf_contents_def demo_container_def)
  show "av_fifo_can_write (cf_fifo demo_container) = 0" using f by (simp add: av_fifo_can_write_def) (simp add: demo_container_def)
qed

theorem av_container_fifo_moves_frames_witness:
  "(\<exists>ret obj' cf'. write_frame (\<lambda>d s. (0, s)) 0 (\<lambda>_. True, Some 0, True) demo_container 9 = Some (ret, obj', cf') \<and> cf_inv (\<lambda>c. c = 0) cf' \<and>
      (if ret < 0 then cf_contents cf' = cf_contents demo_container \<and> obj' \<in> {9, 0}
       else ret = 0 \<and> obj' = 0 \<and> cf_contents cf' = cf_contents demo_container @ [9])) \<and>
    (\<exists>ret obj' cf'. read_frame (\<lambda>d s. (0, s)) 0 demo_container 9 = Some (ret, obj', cf') \<and> cf_inv (\<lambda>c. c = 0) cf' \<and>
      (if cf_contents demo_container = [] then ret < 0 \<and> obj' = 9 \<and> cf_contents cf' = []
       else ret = 0 \<and> cf_contents demo_container = obj' # cf_contents cf'))"
  by (rule av_container_fifo_moves_frames [OF demo_container_inv(1)])

lemma av_fifo_write_no_memory:
  assumes "fifo_inv f" "av_fifo_can_write f < n" "\<And>k. \<not> heap k"
  shows "\<exists>e. av_fifo_write heap f buf n = Some (AVERROR e, f)"
proof -
  have "\<not> av_realloc_array heap m k" for m k using assms(3) by (simp add: av_realloc_array_def split: option.split)
  then have "\<exists>e. av_fifo_grow2 heap f inc = (AVERROR e, f)" for inc
    by (simp add: av_fifo_grow2_def del: AVERROR.simps) blast
  then have "\<exists>e. fifo_check_space heap f n = (AVERROR e, f)"
    using assms(2) unfolding fifo_check_space_def Let_def by (simp del: AVERROR.simps) metis
  then obtain e where "fifo_check_space heap f n = (AVERROR e, f)" by blast
  then show ?thesis using AVERROR_neg [of e] by (auto simp: av_fifo_write_def fifo_write_common_def simp del: AVERROR.simps)
qed

text \<open>
  Also: a failing write can consume the frame. When an entry can be had but the FIFO is full and cannot grow,
  \<^verbatim>\<open>av_container_fifo_write\<close> has already moved the frame into the entry, which the error path resets: the
  caller gets an error and an emptied frame, and the frame is in no queue.
\<close>

theorem av_container_fifo_write_drops:
  assumes "cf_inv (\<lambda>c. c = blank) cf" "av_fifo_can_write (cf_fifo cf) = 0" "\<And>k. \<not> heap k"
  shows "\<exists>ret cf'. write_frame fref blank (heap, Some block, True) cf obj = Some (ret, blank, cf') \<and> ret < 0 \<and>
    cf_contents cf' = cf_contents cf"
proof -
  let ?get = "refstruct_pool_get_ext (Some (container_fifo_init_entry (Some blank))) (Some block) obj (cf_pool cf)"
  have fi: "fifo_inv (cf_fifo cf)" using assms(1) by (simp add: cf_inv_def)
  obtain pdst pool where get: "?get = (0, Some pdst, pool)"
    by (cases "available_entries (cf_pool cf)") (auto simp: refstruct_pool_get_ext_def container_fifo_init_entry_def Let_def)
  have full: "\<exists>e. av_fifo_write heap (cf_fifo cf) [pdst] 1 = Some (AVERROR e, cf_fifo cf)"
    using assms(2,3) by (intro av_fifo_write_no_memory [OF fi]) simp_all
  have reset: "container_reset (frame_ops fref blank) c = blank" for c by (simp add: frame_ops_def)
  have move: "fifo_transfer (frame_ops fref blank) dst src 0 = (0, src, blank)" for dst src
    by (simp add: frame_ops_def frame_transfer_def)
  obtain e where e: "av_fifo_write heap (cf_fifo cf) [pdst] 1 = Some (AVERROR e, cf_fifo cf)" using full by blast
  have w: "case av_container_fifo_write (frame_ops fref blank) heap (Some block) (Some blank) cf obj 0 of
      None \<Rightarrow> True | Some (ret, obj', cf') \<Rightarrow> ret < 0 \<and> obj' = blank"
    using AVERROR_neg [of e]
    by (simp add: av_container_fifo_write_def get e [unfolded One_nat_def] move Let_def del: AVERROR.simps split: option.split)
  have new: "\<forall>c. Some blank = Some c \<longrightarrow> c = blank" by simp
  show ?thesis
  proof (cases rule: av_container_fifo_write_cases [where heap = heap and block = "Some block" and obj = obj and flags = 0 and ops = "frame_ops fref blank" and
      clean = "\<lambda>c. c = blank" and calloc = "Some blank", OF assms(1) reset new, case_names no_entry failed stored])
    case (no_entry cf')
    then show ?thesis using w by (auto simp: write_frame_def)
  next
    case (failed ret src cf')
    then show ?thesis by (auto simp: write_frame_def move)
  next
    case (stored c ret dst src cf')
    then show ?thesis using w by (auto simp: write_frame_def)
  qed
qed

theorem av_container_fifo_write_drops_witness:
  "\<exists>ret cf'. write_frame (\<lambda>d s. (0, s)) 0 (\<lambda>_. False, Some 1, True) demo_container 9 = Some (ret, 0, cf') \<and> ret < 0 \<and>
    cf_contents cf' = cf_contents demo_container"
  by (rule av_container_fifo_write_drops [OF demo_container_inv(1,3)]) simp

theorem av_container_fifo_peek_drain_witness:
  "av_container_fifo_peek demo_container 0 =
      Some (if 0 < length (cf_contents demo_container) then (0, Some (cf_contents demo_container ! 0)) else (AVERROR EINVAL, None)) \<and>
    (\<exists>cf'. av_container_fifo_drain (frame_ops (\<lambda>d s. (0, s)) 0) demo_container 1 = Some cf' \<and> cf_inv (\<lambda>c. c = 0) cf' \<and>
      cf_contents cf' = drop 1 (cf_contents demo_container))"
  by (rule av_container_fifo_peek_drain [OF demo_container_inv(1)]) (simp_all add: frame_ops_def demo_container_inv(2))

end
