(* ===== verification/AV_ThreadMessage.thy ===== *)
theory AV_ThreadMessage
  imports AV_Fifo
begin

text \<open>
  \<^verbatim>\<open>libavutil/threadmessage.c\<close>: a bounded queue of messages between threads. Every operation runs with the
  mutex held, so it is one step; where it would sleep on a condition it is \<open>Wait\<close>, and where it wakes
  sleepers it says so in its list of signals. The second half is the monitor: callers that sleep, are woken
  and run again, in any order.
\<close>

unbundle bit_operations_syntax

section \<open>Operations\<close>

record 'm AVThreadMessageQueue =
  mq_fifo :: "'m AVFifo"
  err_send :: int
  err_recv :: int
  mq_elsize :: nat
  free_func :: bool

abbreviation AV_THREAD_MESSAGE_NONBLOCK :: u32 where "AV_THREAD_MESSAGE_NONBLOCK \<equiv> 1"

datatype mq_signal = Signal_recv | Signal_send | Broadcast_recv | Broadcast_send

datatype 'a locked = Wait | Return 'a

text \<open>The first argument is the outcome of the allocations and of the initialisation of the mutex and the
  two conditions (0 or an \<^verbatim>\<open>errno\<close>).\<close>

definition av_thread_message_queue_alloc ::
  "(nat \<Rightarrow> bool) \<times> bool \<times> int \<times> int \<times> int \<Rightarrow> nat \<Rightarrow> nat \<Rightarrow> (int \<times> 'm AVThreadMessageQueue option) option" where
  "av_thread_message_queue_alloc env nelem elsize =
     (case env of (heap, mq_heap, lock_err, recv_err, send_err) \<Rightarrow>
       if elsize = 0 then None
       else if int nelem > INT_MAX div int elsize then Some (AVERROR EINVAL, None)
       else if \<not> mq_heap then Some (AVERROR ENOMEM, None)
       else if lock_err \<noteq> 0 then Some (- lock_err, None)
       else if recv_err \<noteq> 0 then Some (- recv_err, None)
       else if send_err \<noteq> 0 then Some (- send_err, None)
       else case av_fifo_alloc2 heap nelem elsize 0 of
              None \<Rightarrow> Some (AVERROR ENOMEM, None)
            | Some f \<Rightarrow> Some (0, Some \<lparr>mq_fifo = f, err_send = 0, err_recv = 0, mq_elsize = elsize, free_func = False\<rparr>))"

definition av_thread_message_queue_set_free_func :: "'m AVThreadMessageQueue \<Rightarrow> bool \<Rightarrow> 'm AVThreadMessageQueue" where
  "av_thread_message_queue_set_free_func mq has_func = mq\<lparr>free_func := has_func\<rparr>"

definition av_thread_message_queue_nb_elems :: "'m AVThreadMessageQueue \<Rightarrow> int" where
  "av_thread_message_queue_nb_elems mq = s32 (int (av_fifo_can_read (mq_fifo mq)))"

definition av_thread_message_queue_send_locked ::
  "(nat \<Rightarrow> bool) \<Rightarrow> 'm AVThreadMessageQueue \<Rightarrow> 'm \<Rightarrow> u32 \<Rightarrow> (int \<times> mq_signal list \<times> 'm AVThreadMessageQueue) locked option" where
  "av_thread_message_queue_send_locked heap mq msg flags =
     (if err_send mq = 0 \<and> av_fifo_can_write (mq_fifo mq) = 0 then
        if flags AND AV_THREAD_MESSAGE_NONBLOCK \<noteq> 0 then Some (Return (AVERROR EAGAIN, [], mq)) else Some Wait
      else if err_send mq \<noteq> 0 then Some (Return (err_send mq, [], mq))
      else map_option (\<lambda>(_, f). Return (0, [Signal_recv], mq\<lparr>mq_fifo := f\<rparr>)) (av_fifo_write heap (mq_fifo mq) [msg] 1))"

text \<open>The third component of the result is what is written to \<^verbatim>\<open>msg\<close>.\<close>

definition av_thread_message_queue_recv_locked ::
  "'m AVThreadMessageQueue \<Rightarrow> u32 \<Rightarrow> (int \<times> mq_signal list \<times> 'm option list \<times> 'm AVThreadMessageQueue) locked option" where
  "av_thread_message_queue_recv_locked mq flags =
     (if err_recv mq = 0 \<and> av_fifo_can_read (mq_fifo mq) = 0 then
        if flags AND AV_THREAD_MESSAGE_NONBLOCK \<noteq> 0 then Some (Return (AVERROR EAGAIN, [], [], mq)) else Some Wait
      else if av_fifo_can_read (mq_fifo mq) = 0 then Some (Return (err_recv mq, [], [], mq))
      else map_option (\<lambda>(_, msg, f). Return (0, [Signal_send], msg, mq\<lparr>mq_fifo := f\<rparr>)) (av_fifo_read (mq_fifo mq) 1))"

definition av_thread_message_queue_set_err_send :: "'m AVThreadMessageQueue \<Rightarrow> int \<Rightarrow> mq_signal list \<times> 'm AVThreadMessageQueue" where
  "av_thread_message_queue_set_err_send mq err = ([Broadcast_send], mq\<lparr>err_send := err\<rparr>)"

definition av_thread_message_queue_set_err_recv :: "'m AVThreadMessageQueue \<Rightarrow> int \<Rightarrow> mq_signal list \<times> 'm AVThreadMessageQueue" where
  "av_thread_message_queue_set_err_recv mq err = ([Broadcast_recv], mq\<lparr>err_recv := err\<rparr>)"

text \<open>\<open>freed\<close> lists the messages \<^verbatim>\<open>free_func\<close> has been called on.\<close>

definition free_func_wrap :: "('m option list, 'm) fifo_write_cb" where
  "free_func_wrap freed buf = (0, freed @ buf, length buf)"

definition av_thread_message_flush ::
  "'m AVThreadMessageQueue \<Rightarrow> (mq_signal list \<times> 'm option list \<times> 'm AVThreadMessageQueue) option" where
  "av_thread_message_flush mq =
     (let used = av_fifo_can_read (mq_fifo mq)
      in if free_func mq
         then map_option (\<lambda>(_, _, freed, f). ([Broadcast_send], freed, mq\<lparr>mq_fifo := f\<rparr>))
                (av_fifo_read_to_cb (mq_fifo mq) free_func_wrap [] used)
         else Some ([Broadcast_send], [], mq))"

definition av_thread_message_queue_free :: "'m AVThreadMessageQueue \<Rightarrow> 'm option list option" where
  "av_thread_message_queue_free mq = map_option (\<lambda>(_, freed, _). freed) (av_thread_message_flush mq)"

section \<open>The operations on the contents\<close>

declare length_fifo_contents [simp del]

abbreviation mq_contents :: "'m AVThreadMessageQueue \<Rightarrow> 'm list" where
  "mq_contents mq \<equiv> fifo_contents (mq_fifo mq)"

abbreviation mq_room :: "'m AVThreadMessageQueue \<Rightarrow> nat" where
  "mq_room mq \<equiv> nb_elems (mq_fifo mq) - length (mq_contents mq)"

lemma fifo_peek_loop_greedy:
  "length mem = nb \<Longrightarrow> n = 0 \<or> off < nb \<Longrightarrow> n \<le> nb \<Longrightarrow>
   fifo_peek_loop (Some free_func_wrap) nb mem off n buf freed 0 = Some (buf, 0, freed @ ring mem off n, 0)"
proof (induction n arbitrary: off freed rule: less_induct)
  case (less n)
  show ?case
  proof (cases "n = 0")
    case True
    then show ?thesis by (subst fifo_peek_loop.simps) simp
  next
    case False
    define len where "len = min (nb - off) n"
    have off: "off < nb" using False less.prems by simp
    have len: "0 < len" "len \<le> n" "len \<le> nb - off" using off False by (auto simp: len_def)
    have adv: "(if off + len \<ge> nb then 0 else off + len) = (off + (0 + len)) mod nb"
      using off len(3) by (intro ring_advance) simp_all
    have cb: "free_func_wrap freed (take len (drop off mem)) = (0, freed @ take len (drop off mem), len)"
      using len less.prems(1) by (simp add: free_func_wrap_def)
    have nz: "\<not> ((0::int) < 0 \<or> len = 0)" using len by simp
    have "fifo_peek_loop (Some free_func_wrap) nb mem off n buf freed 0 =
      fifo_peek_loop (Some free_func_wrap) nb mem ((off + len) mod nb) (n - len) buf (freed @ take len (drop off mem)) 0"
      by (subst fifo_peek_loop.simps)
        (simp only: False if_False Let_def len_def [symmetric] option.simps prod.case cb nz adv add_0)
    also have "\<dots> = Some (buf, 0, (freed @ take len (drop off mem)) @ ring mem ((off + len) mod nb) (n - len), 0)"
      using len less.prems off by (intro less.IH) auto
    finally show ?thesis
      using ring_add [of mem off len "n - len"] ring_straight [of off len mem] ring_mod [of mem "off + len" "n - len"]
        len less.prems(1) by simp
  qed
qed

lemma flush_fifo:
  assumes "fifo_inv f"
  obtains f' where "av_fifo_read_to_cb f free_func_wrap [] (av_fifo_can_read f) =
      Some (0, av_fifo_can_read f, map Some (fifo_contents f), f')" "fifo_inv f'" "fifo_contents f' = []" "nb_elems f' = nb_elems f"
proof -
  note o = fifo_offsets [OF assms]
  obtain f' where f': "av_fifo_drain2 f (av_fifo_can_read f) = Some f'" "fifo_inv f'"
    "fifo_contents f' = drop (av_fifo_can_read f) (fifo_contents f)" "nb_elems f' = nb_elems f"
    by (rule av_fifo_drain2_inv [OF assms order_refl]) blast
  have pre: "av_fifo_can_read f = 0 \<or> (offset_r f + 0) mod nb_elems f < nb_elems f"
    using o(1) by (cases "nb_elems f") auto
  have "fifo_peek_common f (av_fifo_can_read f) 0 (Some free_func_wrap) [] =
      Some (0, [], av_fifo_can_read f, map Some (fifo_contents f))"
    using fifo_peek_loop_greedy [OF o(4) pre o(1), of "[]" "[]"] o(1)
      fifo_peek_offset [OF assms, of 0] fifo_peek_window [OF assms, of 0 "av_fifo_can_read f"]
    by (simp add: fifo_peek_common_def Let_def length_fifo_contents)
  then show thesis using that [of f'] f' by (simp add: av_fifo_read_to_cb_def length_fifo_contents)
qed


text \<open>Every operation on a valid queue, by the contents of the queue.\<close>

lemma send_locked_cases:
  assumes "fifo_inv (mq_fifo mq)"
  obtains (full) "err_send mq = 0" "mq_room mq = 0"
      "av_thread_message_queue_send_locked heap mq msg flags =
         Some (if flags AND AV_THREAD_MESSAGE_NONBLOCK \<noteq> 0 then Return (AVERROR EAGAIN, [], mq) else Wait)"
  | (err) "err_send mq \<noteq> 0" "av_thread_message_queue_send_locked heap mq msg flags = Some (Return (err_send mq, [], mq))"
  | (sent) f where "err_send mq = 0" "0 < mq_room mq"
      "av_thread_message_queue_send_locked heap mq msg flags = Some (Return (0, [Signal_recv], mq\<lparr>mq_fifo := f\<rparr>))"
      "fifo_inv f" "fifo_contents f = mq_contents mq @ [msg]" "nb_elems f = nb_elems (mq_fifo mq)"
proof (cases "av_fifo_can_write (mq_fifo mq) = 0")
  case True
  then show thesis using full err
    by (cases "err_send mq = 0") (auto simp: av_thread_message_queue_send_locked_def av_fifo_can_write_def length_fifo_contents)
next
  case False
  obtain f where f: "av_fifo_write heap (mq_fifo mq) [msg] 1 = Some (0, f)" "fifo_inv f" "fifo_contents f = mq_contents mq @ [msg]"
    "nb_elems f = nb_elems (mq_fifo mq)"
    by (rule fifo_write_one [OF assms False])
  then show thesis using err sent [OF _ _ _ f(2-4)] False
    by (cases "err_send mq = 0") (auto simp: av_thread_message_queue_send_locked_def av_fifo_can_write_def length_fifo_contents)
qed

lemma recv_locked_cases:
  assumes "fifo_inv (mq_fifo mq)"
  obtains (nothing) "err_recv mq = 0" "mq_contents mq = []"
      "av_thread_message_queue_recv_locked mq flags =
         Some (if flags AND AV_THREAD_MESSAGE_NONBLOCK \<noteq> 0 then Return (AVERROR EAGAIN, [], [], mq) else Wait)"
  | (err) "err_recv mq \<noteq> 0" "mq_contents mq = []"
      "av_thread_message_queue_recv_locked mq flags = Some (Return (err_recv mq, [], [], mq))"
  | (received) x f where "mq_contents mq = x # fifo_contents f"
      "av_thread_message_queue_recv_locked mq flags = Some (Return (0, [Signal_send], [Some x], mq\<lparr>mq_fifo := f\<rparr>))"
      "fifo_inv f" "nb_elems f = nb_elems (mq_fifo mq)"
proof (cases "mq_contents mq")
  case Nil
  then have z: "av_fifo_can_read (mq_fifo mq) = 0" by (metis length_fifo_contents list.size(3))
  show thesis
  proof (cases "err_recv mq = 0")
    case True
    then show thesis using that(1) Nil z by (simp add: av_thread_message_queue_recv_locked_def)
  next
    case False
    then show thesis using that(2) Nil z by (simp add: av_thread_message_queue_recv_locked_def)
  qed
next
  case (Cons x xs)
  then have le: "av_fifo_can_read (mq_fifo mq) = Suc (length xs)" by (metis length_fifo_contents length_Cons)
  obtain f where f: "av_fifo_read (mq_fifo mq) 1 =
      Some (if 1 \<le> av_fifo_can_read (mq_fifo mq) then (0, map Some (take 1 (mq_contents mq)), f) else (AVERROR EINVAL, [], f))"
    "fifo_inv f" "nb_elems f = nb_elems (mq_fifo mq)"
    "fifo_contents f = (if 1 \<le> av_fifo_can_read (mq_fifo mq) then drop 1 (mq_contents mq) else mq_contents mq)"
    by (rule av_fifo_read_cases [OF assms])
  with Cons le show thesis by (intro received [of x f]) (simp_all add: av_thread_message_queue_recv_locked_def)
qed

lemma flush_cases:
  assumes "fifo_inv (mq_fifo mq)"
  obtains f where "av_thread_message_flush mq =
      Some ([Broadcast_send], if free_func mq then map Some (mq_contents mq) else [], mq\<lparr>mq_fifo := f\<rparr>)"
    "fifo_inv f" "fifo_contents f = (if free_func mq then [] else mq_contents mq)" "nb_elems f = nb_elems (mq_fifo mq)"
proof (cases "free_func mq")
  case True
  obtain f where f: "av_fifo_read_to_cb (mq_fifo mq) free_func_wrap [] (av_fifo_can_read (mq_fifo mq)) =
      Some (0, av_fifo_can_read (mq_fifo mq), map Some (mq_contents mq), f)" "fifo_inv f" "fifo_contents f = []"
    "nb_elems f = nb_elems (mq_fifo mq)"
    by (rule flush_fifo [OF assms])
  then show thesis using that [of f] True by (simp add: av_thread_message_flush_def)
next
  case False
  then show thesis using that [of "mq_fifo mq"] assms by (simp add: av_thread_message_flush_def)
qed

section \<open>The monitor\<close>

text \<open>
  The threads that use a queue: how many sleep on each condition, how many have been woken and still have
  to take the mutex, and what has been sent, received and freed so far.
\<close>

record 'm mq_monitor =
  queue :: "'m AVThreadMessageQueue"
  sleep_send :: nat
  sleep_recv :: nat
  woken_send :: nat
  woken_recv :: nat
  all_sent :: "'m list"
  consumed :: "'m list"

text \<open>\<^verbatim>\<open>pthread_cond_signal\<close> wakes one sleeper if there is one, \<^verbatim>\<open>pthread_cond_broadcast\<close> all of them.\<close>

fun wake :: "mq_signal \<Rightarrow> 'm mq_monitor \<Rightarrow> 'm mq_monitor" where
  "wake Signal_recv s = (if sleep_recv s = 0 then s else s\<lparr>sleep_recv := sleep_recv s - 1, woken_recv := woken_recv s + 1\<rparr>)"
| "wake Signal_send s = (if sleep_send s = 0 then s else s\<lparr>sleep_send := sleep_send s - 1, woken_send := woken_send s + 1\<rparr>)"
| "wake Broadcast_recv s = s\<lparr>sleep_recv := 0, woken_recv := woken_recv s + sleep_recv s\<rparr>"
| "wake Broadcast_send s = s\<lparr>sleep_send := 0, woken_send := woken_send s + sleep_send s\<rparr>"

definition run_send :: "(nat \<Rightarrow> bool) \<Rightarrow> 'm \<Rightarrow> u32 \<Rightarrow> 'm mq_monitor \<Rightarrow> 'm mq_monitor option" where
  "run_send heap msg flags s =
     map_option (\<lambda>r. case r of
         Wait \<Rightarrow> s\<lparr>sleep_send := sleep_send s + 1\<rparr>
       | Return (ret, sigs, mq) \<Rightarrow>
           fold wake sigs (s\<lparr>queue := mq, all_sent := (if ret = 0 then all_sent s @ [msg] else all_sent s)\<rparr>))
       (av_thread_message_queue_send_locked heap (queue s) msg flags)"

definition run_recv :: "u32 \<Rightarrow> 'm mq_monitor \<Rightarrow> 'm mq_monitor option" where
  "run_recv flags s =
     map_option (\<lambda>r. case r of
         Wait \<Rightarrow> s\<lparr>sleep_recv := sleep_recv s + 1\<rparr>
       | Return (ret, sigs, msg, mq) \<Rightarrow> fold wake sigs (s\<lparr>queue := mq, consumed := consumed s @ map the msg\<rparr>))
       (av_thread_message_queue_recv_locked (queue s) flags)"

inductive mq_step :: "'m mq_monitor \<Rightarrow> 'm mq_monitor \<Rightarrow> bool" where
  send: "run_send heap msg flags s = Some s' \<Longrightarrow> mq_step s s'"
| recv: "run_recv flags s = Some s' \<Longrightarrow> mq_step s s'"
| resume_send: "0 < woken_send s \<Longrightarrow> run_send heap msg 0 (s\<lparr>woken_send := woken_send s - 1\<rparr>) = Some s' \<Longrightarrow> mq_step s s'"
| resume_recv: "0 < woken_recv s \<Longrightarrow> run_recv 0 (s\<lparr>woken_recv := woken_recv s - 1\<rparr>) = Some s' \<Longrightarrow> mq_step s s'"
| spurious_send: "0 < sleep_send s \<Longrightarrow> mq_step s (wake Signal_send s)"
| spurious_recv: "0 < sleep_recv s \<Longrightarrow> mq_step s (wake Signal_recv s)"
| set_err_send: "av_thread_message_queue_set_err_send (queue s) err = (sigs, mq) \<Longrightarrow> mq_step s (fold wake sigs (s\<lparr>queue := mq\<rparr>))"
| set_err_recv: "av_thread_message_queue_set_err_recv (queue s) err = (sigs, mq) \<Longrightarrow> mq_step s (fold wake sigs (s\<lparr>queue := mq\<rparr>))"
| set_free: "mq_step s (s\<lparr>queue := av_thread_message_queue_set_free_func (queue s) has_func\<rparr>)"
| flush: "av_thread_message_flush (queue s) = Some (sigs, freed, mq) \<Longrightarrow>
    mq_step s (fold wake sigs (s\<lparr>queue := mq, consumed := consumed s @ map the freed\<rparr>))"

definition mq_start :: "'m AVThreadMessageQueue \<Rightarrow> 'm mq_monitor" where
  "mq_start mq = \<lparr>queue = mq, sleep_send = 0, sleep_recv = 0, woken_send = 0, woken_recv = 0, all_sent = [], consumed = []\<rparr>"

text \<open>
  The invariant: messages come out in the order they went in, and a sleeper is never left behind: as many
  woken receivers are on their way as there are messages, and as many woken senders as there is room.
\<close>

definition mq_inv :: "nat \<Rightarrow> 'm mq_monitor \<Rightarrow> bool" where
  "mq_inv cap s \<longleftrightarrow>
     fifo_inv (mq_fifo (queue s)) \<and> nb_elems (mq_fifo (queue s)) = cap \<and>
     all_sent s = consumed s @ mq_contents (queue s) \<and>
     (0 < sleep_recv s \<longrightarrow> err_recv (queue s) = 0 \<and> length (mq_contents (queue s)) \<le> woken_recv s) \<and>
     (0 < sleep_send s \<longrightarrow> err_send (queue s) = 0 \<and> mq_room (queue s) \<le> woken_send s)"

lemma mq_inv_run_send:
  assumes "mq_inv cap (s\<lparr>woken_send := w + 1\<rparr>) \<or> mq_inv cap (s\<lparr>woken_send := w\<rparr>)" "woken_send s = w" "run_send heap msg flags s = Some s'"
  shows "mq_inv cap s'"
proof -
  have inv: "fifo_inv (mq_fifo (queue s))" "nb_elems (mq_fifo (queue s)) = cap" "all_sent s = consumed s @ mq_contents (queue s)"
    "0 < sleep_recv s \<longrightarrow> err_recv (queue s) = 0 \<and> length (mq_contents (queue s)) \<le> woken_recv s"
    "0 < sleep_send s \<longrightarrow> err_send (queue s) = 0 \<and> mq_room (queue s) \<le> w + 1"
    using assms(1) by (auto simp: mq_inv_def)
  show ?thesis
  proof (cases rule: send_locked_cases [OF inv(1), of heap msg flags, case_names full err sent])
    case full
    then show ?thesis using assms(3) inv by (auto simp: run_send_def mq_inv_def split: if_splits)
  next
    case err
    then show ?thesis using assms(3) inv by (auto simp: run_send_def mq_inv_def)
  next
    case (sent f)
    then show ?thesis using assms(2,3) inv by (auto simp: run_send_def mq_inv_def split: if_splits)
  qed
qed

lemma mq_inv_run_recv:
  assumes "mq_inv cap (s\<lparr>woken_recv := w + 1\<rparr>) \<or> mq_inv cap (s\<lparr>woken_recv := w\<rparr>)" "woken_recv s = w" "run_recv flags s = Some s'"
  shows "mq_inv cap s'"
proof -
  have inv: "fifo_inv (mq_fifo (queue s))" "nb_elems (mq_fifo (queue s)) = cap" "all_sent s = consumed s @ mq_contents (queue s)"
    "0 < sleep_recv s \<longrightarrow> err_recv (queue s) = 0 \<and> length (mq_contents (queue s)) \<le> w + 1"
    "0 < sleep_send s \<longrightarrow> err_send (queue s) = 0 \<and> mq_room (queue s) \<le> woken_send s"
    using assms(1) by (auto simp: mq_inv_def)
  show ?thesis
  proof (cases rule: recv_locked_cases [OF inv(1), of flags, case_names nothing err received])
    case nothing
    then show ?thesis using assms(3) inv by (auto simp: run_recv_def mq_inv_def split: if_splits)
  next
    case err
    then show ?thesis using assms(3) inv by (auto simp: run_recv_def mq_inv_def)
  next
    case (received x f)
    then show ?thesis using assms(2,3) inv by (auto simp: run_recv_def mq_inv_def split: if_splits)
  qed
qed

lemma mq_inv_step: "mq_step s s' \<Longrightarrow> mq_inv cap s \<Longrightarrow> mq_inv cap s'"
proof (induction rule: mq_step.induct)
  case (send heap msg flags s s')
  then show ?case using mq_inv_run_send [where s = s and w = "woken_send s", OF _ refl send(1)] by simp
next
  case (recv flags s s')
  then show ?case using mq_inv_run_recv [where s = s and w = "woken_recv s", OF _ refl recv(1)] by simp
next
  case (resume_send s heap msg s')
  then show ?case using mq_inv_run_send [where w = "woken_send s - 1", OF _ _ resume_send(2)] by simp
next
  case (resume_recv s s')
  then show ?case using mq_inv_run_recv [where w = "woken_recv s - 1", OF _ _ resume_recv(2)] by simp
next
  case (flush s sigs freed mq)
  have "fifo_inv (mq_fifo (queue s))" using flush.prems by (simp add: mq_inv_def)
  then obtain f where "av_thread_message_flush (queue s) =
      Some ([Broadcast_send], if free_func (queue s) then map Some (mq_contents (queue s)) else [], queue s\<lparr>mq_fifo := f\<rparr>)"
    "fifo_inv f" "fifo_contents f = (if free_func (queue s) then [] else mq_contents (queue s))" "nb_elems f = nb_elems (mq_fifo (queue s))"
    by (rule flush_cases)
  with flush show ?case by (auto simp: mq_inv_def o_def split: if_splits)
qed (auto simp: mq_inv_def av_thread_message_queue_set_err_send_def av_thread_message_queue_set_err_recv_def
    av_thread_message_queue_set_free_func_def)

lemma mq_inv_reachable: "mq_step\<^sup>*\<^sup>* s s' \<Longrightarrow> mq_inv cap s \<Longrightarrow> mq_inv cap s'"
  by (induction rule: rtranclp_induct) (auto intro: mq_inv_step)

lemma mq_start_inv:
  assumes "av_thread_message_queue_alloc env nelem elsize = Some (0, Some mq)" "elsize \<le> SIZE_MAX"
  shows "mq_inv nelem (mq_start mq)"
proof -
  obtain heap mq_heap lock_err recv_err send_err where env: "env = (heap, mq_heap, lock_err, recv_err, send_err)" by (cases env)
  obtain f where f: "av_fifo_alloc2 heap nelem elsize 0 = Some f" "mq_fifo mq = f" "\<not> int nelem > INT_MAX div int elsize"
    using assms(1) by (auto simp: env av_thread_message_queue_alloc_def simp del: AVERROR.simps split: if_splits option.splits)
  have "INT_MAX div int elsize \<le> INT_MAX" by (rule int_div_le_self) simp
  then have "nelem \<le> SIZE_MAX" using f(3) by linarith
  from av_fifo_alloc2_inv [OF f(1) this assms(2)] have "fifo_inv f" "fifo_contents f = []" "av_fifo_can_write f = nelem" by auto
  then show ?thesis using f(2) by (simp add: mq_inv_def mq_start_def av_fifo_can_write_def flip: length_fifo_contents)
qed

text \<open>
  C6: no wake-up of the message queue is lost, however senders, receivers, flushes, error settings and
  spurious wake-ups interleave: while a receiver sleeps, every message in the queue has a woken receiver on
  its way to it, and while a sender sleeps, so has every free slot a sender; sleepers only ever wait for a
  queue without error. So when no thread is on its way, receivers sleep on an empty queue only and senders on
  a full one only, and never both.
\<close>

theorem av_thread_message_queue_no_lost_wakeup:
  assumes "av_thread_message_queue_alloc env nelem elsize = Some (0, Some mq)" "elsize \<le> SIZE_MAX" "mq_step\<^sup>*\<^sup>* (mq_start mq) s"
  shows "(0 < sleep_recv s \<longrightarrow> err_recv (queue s) = 0 \<and> length (fifo_contents (mq_fifo (queue s))) \<le> woken_recv s) \<and>
    (0 < sleep_send s \<longrightarrow> err_send (queue s) = 0 \<and> nelem - length (fifo_contents (mq_fifo (queue s))) \<le> woken_send s) \<and>
    (0 < nelem \<and> woken_recv s = 0 \<and> woken_send s = 0 \<longrightarrow> sleep_recv s = 0 \<or> sleep_send s = 0)"
  using mq_inv_reachable [OF assms(3) mq_start_inv [OF assms(1,2)]] by (auto simp: mq_inv_def)

text \<open>
  C36: the messages received or freed, followed by those still queued, are the messages sent, in that order.
\<close>

theorem av_thread_message_queue_order:
  assumes "av_thread_message_queue_alloc env nelem elsize = Some (0, Some mq)" "elsize \<le> SIZE_MAX" "mq_step\<^sup>*\<^sup>* (mq_start mq) s"
  shows "all_sent s = consumed s @ fifo_contents (mq_fifo (queue s)) \<and> length (fifo_contents (mq_fifo (queue s))) \<le> nelem"
proof -
  have inv: "mq_inv nelem s" by (rule mq_inv_reachable [OF assms(3) mq_start_inv [OF assms(1,2)]])
  then have "av_fifo_can_read (mq_fifo (queue s)) \<le> nb_elems (mq_fifo (queue s))" by (intro fifo_offsets(1)) (simp add: mq_inv_def)
  with inv show ?thesis by (simp add: mq_inv_def length_fifo_contents)
qed

text \<open>
  Also: flushing frees every queued message, once and in order, when a free function is set; without one
  it changes nothing, so the queue is then not empty afterwards. Either way only senders are woken.
\<close>

theorem av_thread_message_flush_effect:
  assumes "fifo_inv (mq_fifo mq)"
  shows "\<exists>mq'. av_thread_message_flush mq =
      Some ([Broadcast_send], if free_func mq then map Some (fifo_contents (mq_fifo mq)) else [], mq') \<and>
    fifo_inv (mq_fifo mq') \<and> fifo_contents (mq_fifo mq') = (if free_func mq then [] else fifo_contents (mq_fifo mq))"
proof -
  obtain f where "av_thread_message_flush mq = Some ([Broadcast_send], if free_func mq then map Some (mq_contents mq) else [], mq\<lparr>mq_fifo := f\<rparr>)"
    "fifo_inv f" "fifo_contents f = (if free_func mq then [] else mq_contents mq)"
    by (rule flush_cases [OF assms])
  then show ?thesis by (intro exI [of _ "mq\<lparr>mq_fifo := f\<rparr>"]) simp
qed

definition demo_mq :: "nat AVThreadMessageQueue" where
  "demo_mq = \<lparr>mq_fifo = \<lparr>buffer = [None], elem_size = 4, nb_elems = 1, offset_r = 0, offset_w = 0, is_empty = True,
     fifo_flags = 0, auto_grow_limit = 262144\<rparr>, err_send = 0, err_recv = 0, mq_elsize = 4, free_func = False\<rparr>"

lemma demo_mq_alloc: "av_thread_message_queue_alloc (\<lambda>_. True, True, 0, 0, 0) 1 4 = Some (0, Some demo_mq)"
  by (simp add: av_thread_message_queue_alloc_def av_fifo_alloc2_def demo_mq_def av_realloc_array_def size_mult_def)

lemma demo_mq_run: "mq_step\<^sup>*\<^sup>* (mq_start demo_mq) ((mq_start demo_mq)\<lparr>sleep_recv := 1\<rparr>)"
proof -
  have "run_recv 0 (mq_start demo_mq) = Some ((mq_start demo_mq)\<lparr>sleep_recv := 1\<rparr>)"
    by (simp add: run_recv_def av_thread_message_queue_recv_locked_def mq_start_def demo_mq_def av_fifo_can_read_def)
  then show ?thesis by (intro r_into_rtranclp) (rule mq_step.recv)
qed

theorem av_thread_message_queue_no_lost_wakeup_witness:
  "\<exists>s. s = (mq_start demo_mq)\<lparr>sleep_recv := 1\<rparr> \<and> err_recv (queue s) = 0 \<and> length (fifo_contents (mq_fifo (queue s))) \<le> woken_recv s"
  using av_thread_message_queue_no_lost_wakeup [OF demo_mq_alloc _ demo_mq_run] by simp

theorem av_thread_message_queue_order_witness:
  "\<exists>s. s = (mq_start demo_mq)\<lparr>sleep_recv := 1\<rparr> \<and> all_sent s = consumed s @ fifo_contents (mq_fifo (queue s)) \<and>
    length (fifo_contents (mq_fifo (queue s))) \<le> 1"
  using av_thread_message_queue_order [OF demo_mq_alloc _ demo_mq_run] by simp

theorem av_thread_message_flush_effect_witness:
  "\<exists>mq'. av_thread_message_flush \<lparr>mq_fifo = demo_fifo, err_send = 0, err_recv = 0, mq_elsize = 4, free_func = True\<rparr> =
      Some ([Broadcast_send], map Some (fifo_contents demo_fifo), mq') \<and>
    fifo_inv (mq_fifo mq') \<and> fifo_contents (mq_fifo mq') = []"
  using av_thread_message_flush_effect [of "\<lparr>mq_fifo = demo_fifo, err_send = 0, err_recv = 0, mq_elsize = 4, free_func = True\<rparr>"] demo_fifo_inv(1)
  by simp

declare length_fifo_contents [simp]

end
