(* ===== verification/AV_ThreadQueue.thy ===== *)
theory AV_ThreadQueue
  imports AV_ContainerFifo
begin

text \<open>
  \<^verbatim>\<open>fftools/thread_queue.c\<close>: the queues between the threads of the transcoder. A queue carries frames or
  packets of several streams: the objects in a container FIFO, the index of the stream of each in a second
  FIFO. Every operation runs with the mutex held and is one step; one that would sleep returns the code
  \<open>None\<close>, and the flag of a result says whether the condition is broadcast.
\<close>

unbundle bit_operations_syntax

section \<open>State and operations\<close>

abbreviation FINISHED_SEND :: u32 where "FINISHED_SEND \<equiv> 1"
abbreviation FINISHED_RECV :: u32 where "FINISHED_RECV \<equiv> 2"

record 'o ThreadQueue =
  choked :: int
  finished :: "u32 list"
  nb_streams :: nat
  tq_fifo :: "'o AVContainerFifo"
  fifo_stream_index :: "nat AVFifo"

text \<open>The allocations may fail: \<open>env\<close> gives the outcomes for the queue, the condition, the mutex, the
  flags and the container FIFO.\<close>

definition tq_alloc ::
  "(nat \<Rightarrow> bool) \<times> bool \<times> int \<times> int \<times> bool \<times> 'o AVContainerFifo option \<Rightarrow> nat \<Rightarrow> nat \<Rightarrow> 'o ThreadQueue option" where
  "tq_alloc env streams queue_size =
     (case env of (heap, tq_heap, cond_err, lock_err, fin_heap, cf) \<Rightarrow>
        if \<not> tq_heap then None
        else if cond_err \<noteq> 0 then None
        else if lock_err \<noteq> 0 then None
        else if \<not> fin_heap then None
        else case cf of
               None \<Rightarrow> None
             | Some cf \<Rightarrow>
                 map_option (\<lambda>f. \<lparr>choked = 0, finished = replicate streams 0, nb_streams = streams, tq_fifo = cf, fifo_stream_index = f\<rparr>)
                   (av_fifo_alloc2 heap queue_size 4 0))"

definition set_finished :: "'o ThreadQueue \<Rightarrow> nat \<Rightarrow> u32 \<Rightarrow> 'o ThreadQueue" where
  "set_finished tq i flag = tq\<lparr>finished := (finished tq)[i := finished tq ! i OR flag]\<rparr>"

text \<open>The part of \<^verbatim>\<open>tq_send\<close> from its waiting loop on, which is also what a woken sender runs.\<close>

definition tq_send_locked ::
  "('o \<Rightarrow> 'o \<Rightarrow> int \<times> 'o) \<Rightarrow> 'o \<Rightarrow> (nat \<Rightarrow> bool) \<Rightarrow> 'o alloc_env \<Rightarrow> 'o ThreadQueue \<Rightarrow> nat \<Rightarrow> 'o \<Rightarrow>
   (int option \<times> 'o \<times> bool \<times> 'o ThreadQueue) option" where
  "tq_send_locked fref blank heap env tq stream_idx data =
     (let fin = finished tq ! stream_idx
      in if fin AND FINISHED_RECV = 0 \<and> av_fifo_can_write (fifo_stream_index tq) = 0 then Some (None, data, False, tq)
         else if fin AND FINISHED_RECV \<noteq> 0 then Some (Some (AVERROR EOF), data, False, set_finished tq stream_idx FINISHED_SEND)
         else
           case av_fifo_write heap (fifo_stream_index tq) [stream_idx] 1 of
             None \<Rightarrow> None
           | Some (ret, f) \<Rightarrow>
               let tq = tq\<lparr>fifo_stream_index := f\<rparr>
               in if ret < 0 then Some (Some ret, data, False, tq)
                  else
                    case write_frame fref blank env (tq_fifo tq) data of
                      None \<Rightarrow> None
                    | Some (ret, data, cf) \<Rightarrow> Some (Some ret, data, \<not> ret < 0, tq\<lparr>tq_fifo := cf\<rparr>))"

definition tq_send ::
  "('o \<Rightarrow> 'o \<Rightarrow> int \<times> 'o) \<Rightarrow> 'o \<Rightarrow> (nat \<Rightarrow> bool) \<Rightarrow> 'o alloc_env \<Rightarrow> 'o ThreadQueue \<Rightarrow> nat \<Rightarrow> 'o \<Rightarrow>
   (int option \<times> 'o \<times> bool \<times> 'o ThreadQueue) option" where
  "tq_send fref blank heap env tq stream_idx data =
     (if \<not> stream_idx < nb_streams tq then None
      else if finished tq ! stream_idx AND FINISHED_SEND \<noteq> 0 then Some (Some (AVERROR EINVAL), data, False, tq)
      else tq_send_locked fref blank heap env tq stream_idx data)"

text \<open>The reading loop of \<^verbatim>\<open>receive_locked\<close>: the objects of streams the receiver has finished are dropped.\<close>

partial_function (option) receive_loop ::
  "('o \<Rightarrow> 'o \<Rightarrow> int \<times> 'o) \<Rightarrow> 'o \<Rightarrow> 'o ThreadQueue \<Rightarrow> 'o \<Rightarrow> (nat option \<times> 'o \<times> 'o ThreadQueue) option" where
  "receive_loop fref blank tq data =
     (case read_frame fref blank (tq_fifo tq) data of
        None \<Rightarrow> None
      | Some (ret, data, cf) \<Rightarrow>
          if \<not> ret \<ge> 0 then Some (None, data, tq\<lparr>tq_fifo := cf\<rparr>)
          else
            case av_fifo_read (fifo_stream_index tq) 1 of
              None \<Rightarrow> None
            | Some (ret, buf, f) \<Rightarrow>
                if \<not> ret \<ge> 0 \<or> buf = [] \<or> hd buf = None then None
                else
                  let idx = the (hd buf);
                      tq = tq\<lparr>tq_fifo := cf, fifo_stream_index := f\<rparr>
                  in if \<not> idx < length (finished tq) then None
                     else if finished tq ! idx AND FINISHED_RECV \<noteq> 0 then receive_loop fref blank tq blank
                     else Some (Some idx, data, tq))"

text \<open>The scan for a stream whose end has not been reported: its index, or the number of finished streams.\<close>

fun eof_scan :: "u32 list \<Rightarrow> nat \<Rightarrow> nat \<Rightarrow> nat + nat" where
  "eof_scan [] i nb_finished = Inr nb_finished"
| "eof_scan (fin # fins) i nb_finished =
     (if fin = 0 then eof_scan fins (i + 1) nb_finished
      else if fin AND FINISHED_RECV = 0 then Inl i
      else eof_scan fins (i + 1) (nb_finished + 1))"

definition receive_locked ::
  "('o \<Rightarrow> 'o \<Rightarrow> int \<times> 'o) \<Rightarrow> 'o \<Rightarrow> 'o ThreadQueue \<Rightarrow> int \<Rightarrow> 'o \<Rightarrow> (int \<times> int \<times> 'o \<times> 'o ThreadQueue) option" where
  "receive_locked fref blank tq stream_idx data =
     (if choked tq \<noteq> 0 then Some (AVERROR EAGAIN, stream_idx, data, tq)
      else
        case receive_loop fref blank tq data of
          None \<Rightarrow> None
        | Some (Some idx, data, tq) \<Rightarrow> Some (0, int idx, data, tq)
        | Some (None, data, tq) \<Rightarrow>
            (case eof_scan (take (nb_streams tq) (finished tq)) 0 0 of
               Inl i \<Rightarrow> Some (AVERROR EOF, int i, data, set_finished tq i FINISHED_RECV)
             | Inr nb_finished \<Rightarrow>
                 Some (if nb_finished = nb_streams tq then AVERROR EOF else AVERROR EAGAIN, stream_idx, data, tq)))"

definition tq_receive ::
  "('o \<Rightarrow> 'o \<Rightarrow> int \<times> 'o) \<Rightarrow> 'o \<Rightarrow> 'o ThreadQueue \<Rightarrow> 'o \<Rightarrow> (int option \<times> int \<times> 'o \<times> bool \<times> 'o ThreadQueue) option" where
  "tq_receive fref blank tq data =
     (let can_read = av_container_fifo_can_read (tq_fifo tq)
      in map_option (\<lambda>(ret, stream_idx, data, tq).
             (if ret = AVERROR EAGAIN then None else Some ret, stream_idx, data, can_read \<noteq> av_container_fifo_can_read (tq_fifo tq), tq))
           (receive_locked fref blank tq (- 1) data))"

definition tq_send_finish :: "'o ThreadQueue \<Rightarrow> nat \<Rightarrow> (bool \<times> 'o ThreadQueue) option" where
  "tq_send_finish tq stream_idx =
     (if \<not> stream_idx < nb_streams tq then None
      else Some (True, (set_finished tq stream_idx FINISHED_SEND)\<lparr>choked := 0\<rparr>))"

definition tq_receive_finish :: "'o ThreadQueue \<Rightarrow> nat \<Rightarrow> (bool \<times> 'o ThreadQueue) option" where
  "tq_receive_finish tq stream_idx =
     (if \<not> stream_idx < nb_streams tq then None else Some (True, set_finished tq stream_idx FINISHED_RECV))"

definition tq_choke :: "'o ThreadQueue \<Rightarrow> int \<Rightarrow> bool \<times> 'o ThreadQueue" where
  "tq_choke tq c = (let prev_choked = choked tq in (c \<noteq> prev_choked, tq\<lparr>choked := c\<rparr>))"

section \<open>The operations on the contents\<close>

declare length_fifo_contents [simp del]

abbreviation tq_indices :: "'o ThreadQueue \<Rightarrow> nat list" where
  "tq_indices tq \<equiv> fifo_contents (fifo_stream_index tq)"

definition tq_items :: "'o ThreadQueue \<Rightarrow> (nat \<times> 'o) list" where
  "tq_items tq = zip (tq_indices tq) (cf_contents (tq_fifo tq))"

text \<open>The indices that no object goes with: those of failed writes, and the last ones of the index FIFO.\<close>

definition tq_extra :: "'o ThreadQueue \<Rightarrow> nat list" where
  "tq_extra tq = drop (length (cf_contents (tq_fifo tq))) (tq_indices tq)"

text \<open>What every operation keeps, failed sends included; and the two FIFOs in step, which a failed send ends.\<close>

definition tq_ok :: "'o \<Rightarrow> nat \<Rightarrow> 'o ThreadQueue \<Rightarrow> bool" where
  "tq_ok blank cap tq \<longleftrightarrow>
     cf_inv (\<lambda>c. c = blank) (tq_fifo tq) \<and> fifo_inv (fifo_stream_index tq) \<and> nb_elems (fifo_stream_index tq) = cap \<and>
     length (cf_contents (tq_fifo tq)) \<le> length (tq_indices tq) \<and>
     length (finished tq) = nb_streams tq \<and> set (tq_indices tq) \<subseteq> {..<nb_streams tq}"

definition tq_inv :: "'o \<Rightarrow> nat \<Rightarrow> 'o ThreadQueue \<Rightarrow> bool" where
  "tq_inv blank cap tq \<longleftrightarrow> tq_ok blank cap tq \<and> length (tq_indices tq) = length (cf_contents (tq_fifo tq))"

abbreviation is_recv_finished :: "'o ThreadQueue \<Rightarrow> nat \<Rightarrow> bool" where
  "is_recv_finished tq i \<equiv> finished tq ! i AND FINISHED_RECV \<noteq> 0"


lemma finished_flags [simp]:
  "((fin OR FINISHED_RECV) AND FINISHED_RECV) \<noteq> 0" "((fin OR FINISHED_SEND) AND FINISHED_RECV = 0) = (fin AND FINISHED_RECV = 0)"
  "fin OR FINISHED_RECV \<noteq> 0" "fin OR FINISHED_SEND \<noteq> 0" for fin :: u32
proof -
  have b: "bit (fin OR FINISHED_RECV) 1" "bit (fin OR FINISHED_SEND) 0"
    by (simp_all add: bit_or_iff bit_simps)
  then show "fin OR FINISHED_RECV \<noteq> 0" "fin OR FINISHED_SEND \<noteq> 0" by (metis bit_0_eq bot_apply bot_bool_def zero_neq_one)+
  have m: "x AND FINISHED_RECV = 0 \<longleftrightarrow> \<not> bit x 1" for x :: u32
    using and_exp_eq_0_iff_not_bit [of x 1] by simp
  show "((fin OR FINISHED_RECV) AND FINISHED_RECV) \<noteq> 0" using b by (simp add: m)
  show "((fin OR FINISHED_SEND) AND FINISHED_RECV = 0) = (fin AND FINISHED_RECV = 0)"
    by (simp add: m bit_or_iff bit_simps)
qed

lemma set_finished_simps [simp]:
  "choked (set_finished tq i fl) = choked tq" "nb_streams (set_finished tq i fl) = nb_streams tq"
  "tq_fifo (set_finished tq i fl) = tq_fifo tq" "fifo_stream_index (set_finished tq i fl) = fifo_stream_index tq"
  "length (finished (set_finished tq i fl)) = length (finished tq)" "tq_items (set_finished tq i fl) = tq_items tq"
  "tq_ok blank cap (set_finished tq i fl) = tq_ok blank cap tq" "tq_extra (set_finished tq i fl) = tq_extra tq"
  "i < length (finished tq) \<Longrightarrow> finished (set_finished tq i fl) ! j = (if i = j then finished tq ! i OR fl else finished tq ! j)"
  by (simp_all add: set_finished_def tq_ok_def tq_items_def tq_extra_def nth_list_update)

lemma tq_items_length: "tq_ok blank cap tq \<Longrightarrow> length (tq_items tq) = length (cf_contents (tq_fifo tq))"
  by (simp add: tq_items_def tq_ok_def)

lemma tq_indices_split: "tq_ok blank cap tq \<Longrightarrow> tq_indices tq = map fst (tq_items tq) @ tq_extra tq"
  by (simp add: tq_items_def tq_ok_def tq_extra_def map_fst_zip_take)

lemma tq_items_Cons:
  assumes "tq_ok blank cap tq" "cf_contents (tq_fifo tq) = x # cf_contents cf" "tq_indices tq = i # fifo_contents f"
    "cf_inv (\<lambda>c. c = blank) cf" "fifo_inv f" "nb_elems f = cap"
  shows "tq_ok blank cap (tq\<lparr>tq_fifo := cf, fifo_stream_index := f\<rparr>) \<and>
    tq_items tq = (i, x) # tq_items (tq\<lparr>tq_fifo := cf, fifo_stream_index := f\<rparr>) \<and>
    tq_extra (tq\<lparr>tq_fifo := cf, fifo_stream_index := f\<rparr>) = tq_extra tq \<and> i < length (finished tq)"
  using assms by (auto simp: tq_ok_def tq_items_def tq_extra_def simp del: length_fifo_contents)

text \<open>One round of the reading loop.\<close>

lemma receive_loop_step:
  assumes inv: "tq_ok blank cap tq"
  obtains (nothing) cf where "tq_items tq = []" "receive_loop fref blank tq data = Some (None, data, tq\<lparr>tq_fifo := cf\<rparr>)"
      "tq_ok blank cap (tq\<lparr>tq_fifo := cf\<rparr>)" "tq_items (tq\<lparr>tq_fifo := cf\<rparr>) = []" "tq_extra (tq\<lparr>tq_fifo := cf\<rparr>) = tq_extra tq"
  | (item) i x q where "tq_items tq = (i, x) # tq_items q" "tq_ok blank cap q" "finished q = finished tq" "choked q = choked tq"
      "nb_streams q = nb_streams tq" "i < nb_streams tq" "tq_extra q = tq_extra tq"
      "receive_loop fref blank tq data = (if is_recv_finished tq i then receive_loop fref blank q blank else Some (Some i, x, q))"
proof -
  have ci: "cf_inv (\<lambda>c. c = blank) (tq_fifo tq)" and fi: "fifo_inv (fifo_stream_index tq)" using inv by (simp_all add: tq_ok_def)
  show thesis
  proof (cases rule: cfq.take_cases [OF ci, of fref data, case_names empty taken])
    case (empty ret cf)
    then have "tq_items tq = []" by (simp add: tq_items_def)
    moreover have "receive_loop fref blank tq data = Some (None, data, tq\<lparr>tq_fifo := cf\<rparr>)"
      using empty(1,3) by (subst receive_loop.simps) simp
    ultimately show thesis using empty inv that(1) [of cf] by (simp add: tq_ok_def tq_items_def tq_extra_def)
  next
    case (taken x cf)
    show thesis
    proof (cases rule: avf.deq_one [OF fi, case_names idx none])
      case (none ret f)
      obtain g where "av_fifo_read (fifo_stream_index tq) 1 = Some (if 1 \<le> av_fifo_can_read (fifo_stream_index tq)
        then (0, map Some (take 1 (tq_indices tq)), g) else (AVERROR EINVAL, [], g))" by (rule av_fifo_read_cases [OF fi])
      moreover have "1 \<le> length (tq_indices tq)" using inv taken(3) by (simp add: tq_ok_def del: length_fifo_contents)
      ultimately show thesis using none by (simp add: length_fifo_contents)
    next
      case (idx ret i f)
      define q where "q = tq\<lparr>tq_fifo := cf, fifo_stream_index := f\<rparr>"
      obtain g where "av_fifo_read (fifo_stream_index tq) 1 = Some (if 1 \<le> av_fifo_can_read (fifo_stream_index tq)
          then (0, map Some (take 1 (tq_indices tq)), g) else (AVERROR EINVAL, [], g))" "nb_elems g = nb_elems (fifo_stream_index tq)"
        by (rule av_fifo_read_cases [OF fi])
      then have "nb_elems f = cap" using idx(1) inv by (auto simp: tq_ok_def split: if_splits)
      then have q: "tq_ok blank cap q" "tq_items tq = (i, x) # tq_items q" "tq_extra q = tq_extra tq" "i < length (finished tq)"
        using tq_items_Cons [OF inv taken(3) idx(4) taken(2) idx(2)] by (simp_all add: q_def)
      have "receive_loop fref blank tq data = (if is_recv_finished tq i then receive_loop fref blank q blank else Some (Some i, x, q))"
        using taken(1) idx(1,3) q(4) by (subst receive_loop.simps) (simp add: q_def)
      then show thesis using that(2) [of i x q] q inv by (simp add: q_def tq_ok_def)
    qed
  qed
qed

lemma receive_loop_spec:
  "tq_ok blank cap tq \<Longrightarrow> \<exists>idx d q. receive_loop fref blank tq data = Some (idx, d, q) \<and> tq_ok blank cap q \<and>
     finished q = finished tq \<and> choked q = choked tq \<and> nb_streams q = nb_streams tq \<and> tq_extra q = tq_extra tq \<and>
     (\<exists>dropped. (\<forall>(i, x) \<in> set dropped. is_recv_finished tq i) \<and>
       (case idx of None \<Rightarrow> tq_items tq = dropped \<and> tq_items q = []
        | Some i \<Rightarrow> tq_items tq = dropped @ (i, d) # tq_items q \<and> \<not> is_recv_finished tq i))"
proof (induction "length (tq_items tq)" arbitrary: tq data rule: less_induct)
  case less
  show ?case
  proof (cases rule: receive_loop_step [OF less.prems, of fref data, case_names nothing item])
    case (nothing cf)
    then show ?thesis by simp
  next
    case (item i x q)
    show ?thesis
    proof (cases "is_recv_finished tq i")
      case False
      then show ?thesis using item by (intro exI [of _ "Some i"] exI [of _ x] exI [of _ q]) (simp add: exI [of _ "[]"])
    next
      case True
      have "length (tq_items q) < length (tq_items tq)" using item(1) by simp
      from less.hyps [OF this item(2), of blank] obtain idx d q' dropped where ih:
        "receive_loop fref blank q blank = Some (idx, d, q')" "tq_ok blank cap q'" "finished q' = finished q" "choked q' = choked q"
        "nb_streams q' = nb_streams q" "tq_extra q' = tq_extra q" "\<forall>(i, x) \<in> set dropped. is_recv_finished q i"
        "case idx of None \<Rightarrow> tq_items q = dropped \<and> tq_items q' = []
          | Some i \<Rightarrow> tq_items q = dropped @ (i, d) # tq_items q' \<and> \<not> is_recv_finished q i" by blast
      have "\<forall>(i, x) \<in> set ((i, x) # dropped). is_recv_finished tq i" using True ih(7) item(3) by simp
      moreover have "case idx of None \<Rightarrow> tq_items tq = (i, x) # dropped \<and> tq_items q' = []
          | Some j \<Rightarrow> tq_items tq = ((i, x) # dropped) @ (j, d) # tq_items q' \<and> \<not> is_recv_finished tq j"
        using ih(8) item(1,3) by (simp split: option.splits)
      moreover have "receive_loop fref blank tq data = Some (idx, d, q')" using True ih(1) item(8) by simp
      ultimately show ?thesis using ih(2-6) item(3-5,7)
        by (intro exI [of _ idx] exI [of _ d] exI [of _ q'] conjI exI [of _ "(i, x) # dropped"]) simp_all
    qed
  qed
qed


section \<open>The system of threads\<close>

text \<open>
  The threads around a queue. \<open>writes\<close> is the log of what went into the index FIFO: the stream, and the object
  that followed it, or \<open>None\<close> when the container FIFO could not store the object and \<^verbatim>\<open>tq_send\<close> returned an error
  with the index left behind.
\<close>

record 'o tq_system =
  sys_tq :: "'o ThreadQueue"
  senders_asleep :: "nat set"
  senders_woken :: "nat set"
  receiver_asleep :: bool
  writes :: "(nat \<times> 'o option) list"
  delivered :: "(nat \<times> 'o) list"
  ended :: "nat list"
  recv_done :: "nat set"

definition wake_all :: "bool \<Rightarrow> 'o tq_system \<Rightarrow> 'o tq_system" where
  "wake_all bc s =
     (if bc then s\<lparr>senders_asleep := {}, senders_woken := senders_woken s \<union> senders_asleep s, receiver_asleep := False\<rparr> else s)"

definition after_send :: "nat \<Rightarrow> 'o \<Rightarrow> int option \<Rightarrow> bool \<Rightarrow> 'o ThreadQueue \<Rightarrow> 'o tq_system \<Rightarrow> 'o tq_system" where
  "after_send i x ret bc q s =
     (wake_all bc s)\<lparr>sys_tq := q,
        writes := (if ret = Some 0 then writes s @ [(i, Some x)]
                   else if tq_indices q \<noteq> tq_indices (sys_tq s) then writes s @ [(i, None)] else writes s),
        senders_asleep := (if ret = None then insert i (senders_asleep s) else senders_asleep (wake_all bc s))\<rparr>"

definition after_receive :: "int option \<Rightarrow> int \<Rightarrow> 'o \<Rightarrow> bool \<Rightarrow> 'o ThreadQueue \<Rightarrow> 'o tq_system \<Rightarrow> 'o tq_system" where
  "after_receive ret idx data bc q s =
     (wake_all bc s)\<lparr>sys_tq := q,
        delivered := (if ret = Some 0 then delivered s @ [(nat idx, data)] else delivered s),
        ended := (if ret = Some (AVERROR EOF) \<and> idx \<noteq> - 1 then ended s @ [nat idx] else ended s),
        receiver_asleep := (ret = None \<or> receiver_asleep (wake_all bc s))\<rparr>"

text \<open>The steps of the threads, in any order. A woken sender goes on inside the loop of \<^verbatim>\<open>tq_send\<close>.\<close>

inductive tq_step :: "('o \<Rightarrow> 'o \<Rightarrow> int \<times> 'o) \<Rightarrow> 'o \<Rightarrow> 'o tq_system \<Rightarrow> 'o tq_system \<Rightarrow> bool" for fref blank where
  send: "tq_send fref blank heap env (sys_tq s) i x = Some (ret, x', bc, q) \<Longrightarrow> tq_step fref blank s (after_send i x ret bc q s)"
| resume: "i \<in> senders_woken s \<Longrightarrow> tq_send_locked fref blank heap env (sys_tq s) i x = Some (ret, x', bc, q) \<Longrightarrow>
    tq_step fref blank s (after_send i x ret bc q s)"
| receive: "tq_receive fref blank (sys_tq s) data = Some (ret, idx, data', bc, q) \<Longrightarrow>
    tq_step fref blank s (after_receive ret idx data' bc q s)"
| send_finish: "tq_send_finish (sys_tq s) i = Some (bc, q) \<Longrightarrow> tq_step fref blank s ((wake_all bc s)\<lparr>sys_tq := q\<rparr>)"
| receive_finish: "tq_receive_finish (sys_tq s) i = Some (bc, q) \<Longrightarrow>
    tq_step fref blank s ((wake_all bc s)\<lparr>sys_tq := q, recv_done := insert i (recv_done s)\<rparr>)"
| choke: "tq_choke (sys_tq s) c = (bc, q) \<Longrightarrow> tq_step fref blank s ((wake_all bc s)\<lparr>sys_tq := q\<rparr>)"

definition tq_start :: "'o ThreadQueue \<Rightarrow> 'o tq_system" where
  "tq_start q = \<lparr>sys_tq = q, senders_asleep = {}, senders_woken = {}, receiver_asleep = False, writes = [], delivered = [],
     ended = [], recv_done = {}\<rparr>"

subsection \<open>The log\<close>

text \<open>The objects stored, each with the stream it was sent on; the same objects under the stream the receiver will
  find for them, which is the index written at the same position; and the number of failed writes.\<close>

fun stored :: "(nat \<times> 'o option) list \<Rightarrow> (nat \<times> 'o) list" where
  "stored [] = []"
| "stored ((i, Some x) # w) = (i, x) # stored w"
| "stored ((i, None) # w) = stored w"

definition attributed :: "(nat \<times> 'o option) list \<Rightarrow> (nat \<times> 'o) list" where
  "attributed w = zip (map fst w) (map snd (stored w))"

definition failures :: "(nat \<times> 'o option) list \<Rightarrow> nat" where
  "failures w = length (filter (\<lambda>p. snd p = None) w)"

lemma stored_append [simp]: "stored (v @ w) = stored v @ stored w"
  by (induction v rule: stored.induct) simp_all

lemma length_stored: "length w = length (stored w) + failures w"
  by (induction w rule: stored.induct) (simp_all add: failures_def)

lemma no_failures: "failures w = 0 \<Longrightarrow> attributed w = stored w"
  by (induction w rule: stored.induct) (simp_all add: failures_def attributed_def)

lemma zip_snoc_right: "length ys \<le> length xs \<Longrightarrow> zip (xs @ [i]) (ys @ [x]) = zip xs ys @ [(hd (drop (length ys) xs @ [i]), x)]"
proof (induction ys arbitrary: xs)
  case Nil
  then show ?case by (cases xs) simp_all
next
  case (Cons y ys)
  then show ?case by (cases xs) simp_all
qed

lemma drop_snoc_tl: "n \<le> length xs \<Longrightarrow> drop (Suc n) (xs @ [i]) = tl (drop n xs @ [i])"
proof -
  assume "n \<le> length xs"
  moreover have "drop (Suc n) (xs @ [i]) = tl (drop n (xs @ [i]))" by (simp only: drop_Suc tl_drop)
  ultimately show ?thesis by (simp only: drop_append diff_is_0_eq' drop0)
qed

lemma attributed_snoc [simp]:
  "attributed (w @ [(i, None)]) = attributed w"
  "attributed (w @ [(i, Some x)]) = attributed w @ [(hd (drop (length (stored w)) (map fst w) @ [i]), x)]"
  using length_stored [of w] zip_snoc_right [of "map snd (stored w)" "map fst w" i x]
  by (simp_all add: attributed_def zip_append1)

lemma failures_snoc [simp]: "failures (w @ [(i, x)]) = (if x = None then Suc (failures w) else failures w)"
  by (simp add: failures_def)

text \<open>The writes up to the first failure keep their streams.\<close>

lemma attributed_prefix: "failures v = 0 \<Longrightarrow> \<exists>rest. attributed (v @ w) = stored v @ rest"
  using no_failures [of v] length_stored [of v] by (simp add: attributed_def)

text \<open>The objects of one stream.\<close>

definition of_stream :: "nat \<Rightarrow> (nat \<times> 'o) list \<Rightarrow> 'o list" where
  "of_stream i xs = map snd (filter (\<lambda>p. fst p = i) xs)"

lemma of_stream_simps [simp]:
  "of_stream i [] = []" "of_stream i (xs @ ys) = of_stream i xs @ of_stream i ys"
  "of_stream i ((j, x) # xs) = (if i = j then [x] else []) @ of_stream i xs"
  by (auto simp: of_stream_def)

lemma of_stream_none: "\<forall>(j, x) \<in> set xs. P j \<Longrightarrow> \<not> P i \<Longrightarrow> of_stream i xs = []"
  by (induction xs) auto

text \<open>
  The invariant. The log and the queue agree: the indices without an object are the surplus of the log. The objects of a
  stream come out in the order they went in, and some are dropped only once the receiver has finished the stream, or after
  a failed write. The end of a stream is reported at most once, and then nothing of it is left. A sleeper
  would sleep again if it ran.
\<close>

definition tq_log :: "'o tq_system \<Rightarrow> bool" where
  "tq_log s \<longleftrightarrow> tq_extra (sys_tq s) = drop (length (stored (writes s))) (map fst (writes s))"

definition tq_flow :: "'o tq_system \<Rightarrow> bool" where
  "tq_flow s \<longleftrightarrow> (\<forall>i. \<exists>dropped.
     of_stream i (attributed (writes s)) = of_stream i (delivered s) @ dropped @ of_stream i (tq_items (sys_tq s)) \<and>
     (i \<notin> recv_done s \<and> (i \<in> set (ended s) \<longrightarrow> tq_extra (sys_tq s) = []) \<longrightarrow> dropped = []))"

definition tq_ends :: "'o tq_system \<Rightarrow> bool" where
  "tq_ends s \<longleftrightarrow> distinct (ended s) \<and>
     (\<forall>i. i < nb_streams (sys_tq s) \<longrightarrow> (is_recv_finished (sys_tq s) i \<longleftrightarrow> i \<in> recv_done s \<or> i \<in> set (ended s))) \<and>
     (\<forall>i \<in> set (ended s). i < nb_streams (sys_tq s) \<and>
        (tq_extra (sys_tq s) = [] \<longrightarrow> of_stream i (tq_items (sys_tq s)) = []))"

definition receiver_blocked :: "'o ThreadQueue \<Rightarrow> bool" where
  "receiver_blocked q \<longleftrightarrow> choked q \<noteq> 0 \<or> tq_items q = [] \<and> (\<exists>n. eof_scan (finished q) 0 0 = Inr n \<and> n \<noteq> nb_streams q)"

definition tq_sleep :: "nat \<Rightarrow> 'o tq_system \<Rightarrow> bool" where
  "tq_sleep cap s \<longleftrightarrow>
     (\<forall>i \<in> senders_asleep s. length (tq_items (sys_tq s)) + length (tq_extra (sys_tq s)) = cap \<and>
        (tq_items (sys_tq s) \<noteq> [] \<longrightarrow> \<not> is_recv_finished (sys_tq s) i)) \<and>
     (receiver_asleep s \<longrightarrow> receiver_blocked (sys_tq s)) \<and> senders_asleep s \<union> senders_woken s \<subseteq> {..<nb_streams (sys_tq s)}"

definition tq_sys_inv :: "'o \<Rightarrow> nat \<Rightarrow> 'o tq_system \<Rightarrow> bool" where
  "tq_sys_inv blank cap s \<longleftrightarrow> tq_ok blank cap (sys_tq s) \<and> tq_log s \<and> tq_flow s \<and> tq_ends s \<and> tq_sleep cap s"

lemma length_tq_extra: "tq_log s \<Longrightarrow> length (tq_extra (sys_tq s)) = failures (writes s)"
  using length_stored [of "writes s"] by (simp add: tq_log_def)

subsection \<open>Sending\<close>

text \<open>What \<^verbatim>\<open>tq_send\<close> does from its loop on.\<close>

lemma tq_send_locked_cases:
  assumes inv: "tq_ok blank cap tq" and i: "i < nb_streams tq"
    and call: "tq_send_locked fref blank heap env tq i x = Some (ret, x', bc, q)"
  obtains (wait) "ret = None" "\<not> bc" "q = tq" "\<not> is_recv_finished tq i" "length (tq_items tq) + length (tq_extra tq) = cap" "x' = x"
  | (finished) "ret = Some (AVERROR EOF)" "\<not> bc" "q = set_finished tq i FINISHED_SEND" "is_recv_finished tq i" "x' = x"
  | (sent) "ret = Some 0" "bc" "tq_ok blank cap q" "tq_items q = tq_items tq @ [(hd (tq_extra tq @ [i]), x)]"
      "tq_extra q = tl (tq_extra tq @ [i])" "x' = blank" "\<not> is_recv_finished tq i"
      "finished q = finished tq" "choked q = choked tq" "nb_streams q = nb_streams tq"
  | (failed) e where "ret = Some e" "e < 0" "\<not> bc" "tq_ok blank cap q" "tq_items q = tq_items tq" "tq_extra q = tq_extra tq @ [i]"
      "tq_indices q = tq_indices tq @ [i]" "\<not> is_recv_finished tq i" "length (tq_items tq) + length (tq_extra tq) < cap"
      "finished q = finished tq" "choked q = choked tq" "nb_streams q = nb_streams tq"
proof -
  have ci: "cf_inv (\<lambda>c. c = blank) (tq_fifo tq)" and fi: "fifo_inv (fifo_stream_index tq)" using inv by (simp_all add: tq_ok_def)
  have len: "length (tq_items tq) + length (tq_extra tq) = av_fifo_can_read (fifo_stream_index tq)"
    using arg_cong [OF tq_indices_split [OF inv], of length] by (simp add: length_fifo_contents)
  have room_iff: "av_fifo_can_read (fifo_stream_index tq) \<le> cap" "av_fifo_can_write (fifo_stream_index tq) = cap - av_fifo_can_read (fifo_stream_index tq)"
    using fifo_offsets(1) [OF fi] inv by (simp_all add: av_fifo_can_write_def tq_ok_def)
  consider (full) "\<not> is_recv_finished tq i" "av_fifo_can_write (fifo_stream_index tq) = 0" | (eof) "is_recv_finished tq i"
    | (room) "\<not> is_recv_finished tq i" "av_fifo_can_write (fifo_stream_index tq) \<noteq> 0" by blast
  then show thesis
  proof cases
    case full
    then show thesis using len room_iff call wait by (simp add: tq_send_locked_def Let_def)
  next
    case eof
    then show thesis using call finished by (simp add: tq_send_locked_def Let_def del: AVERROR.simps)
  next
    case room
    obtain f where f: "av_fifo_write heap (fifo_stream_index tq) [i] 1 = Some (0, f)" "fifo_inv f" "fifo_contents f = tq_indices tq @ [i]"
      "nb_elems f = nb_elems (fifo_stream_index tq)"
      by (rule fifo_write_one [OF fi room(2)])
    have le: "length (cf_contents (tq_fifo tq)) \<le> length (tq_indices tq)" using inv by (simp add: tq_ok_def)
    show thesis
    proof (cases rule: cfq.put_cases [OF ci, of fref env x, case_names stored failed])
      case (failed e obj cf)
      then have q: "q = tq\<lparr>fifo_stream_index := f, tq_fifo := cf\<rparr>" "ret = Some e" "\<not> bc"
        using call room f(1) by (simp_all add: tq_send_locked_def Let_def)
      moreover have "tq_ok blank cap q \<and> tq_items q = tq_items tq \<and> tq_extra q = tq_extra tq @ [i]"
        using q(1) f failed le inv i by (auto simp: tq_ok_def tq_items_def tq_extra_def zip_append1)
      ultimately show thesis using that(4) [of e] f(3) failed(3) room room_iff len by simp
    next
      case (stored cf)
      then have q: "q = tq\<lparr>fifo_stream_index := f, tq_fifo := cf\<rparr>" "ret = Some 0" "bc" "x' = blank"
        using call room f(1) by (auto simp: tq_send_locked_def Let_def)
      moreover have "tq_ok blank cap q \<and> tq_items q = tq_items tq @ [(hd (tq_extra tq @ [i]), x)]"
        using q(1) f stored inv i zip_snoc_right [OF le, of i x] by (auto simp: tq_ok_def tq_items_def tq_extra_def)
      moreover have "tq_extra q = tl (tq_extra tq @ [i])"
        using q(1) f(3) stored(3) le drop_snoc_tl [OF le, of i] by (simp add: tq_extra_def del: drop_append)
      ultimately show thesis using sent room(1) by simp
    qed
  qed
qed

lemma eof_scan_send:
  "fins ! j AND FINISHED_RECV \<noteq> 0 \<Longrightarrow> j < length fins \<Longrightarrow> eof_scan (fins[j := fins ! j OR FINISHED_SEND]) i n = eof_scan fins i n"
proof (induction fins i n arbitrary: j rule: eof_scan.induct)
  case (2 fin fins i n)
  then show ?case by (cases j) auto
qed simp


lemma wake_all_simps [simp]:
  "sys_tq (wake_all bc s) = sys_tq s" "writes (wake_all bc s) = writes s" "delivered (wake_all bc s) = delivered s"
  "ended (wake_all bc s) = ended s" "recv_done (wake_all bc s) = recv_done s"
  "senders_asleep (wake_all bc s) = (if bc then {} else senders_asleep s)"
  "senders_woken (wake_all bc s) = (if bc then senders_woken s \<union> senders_asleep s else senders_woken s)"
  "receiver_asleep (wake_all bc s) = (\<not> bc \<and> receiver_asleep s)"
  by (simp_all add: wake_all_def)

lemma receiver_blocked_send:
  assumes "receiver_blocked tq" "is_recv_finished tq i" "i < length (finished tq)"
  shows "receiver_blocked (set_finished tq i FINISHED_SEND)"
proof -
  have "finished (set_finished tq i FINISHED_SEND) = (finished tq)[i := finished tq ! i OR FINISHED_SEND]" by (simp add: set_finished_def)
  then show ?thesis using assms by (simp add: receiver_blocked_def eof_scan_send)
qed

lemma tq_sys_inv_send:
  assumes inv: "tq_sys_inv blank cap s" and i: "i < nb_streams (sys_tq s)"
    and call: "tq_send_locked fref blank heap env (sys_tq s) i x = Some (ret, x', bc, q)"
  shows "tq_sys_inv blank cap (after_send i x ret bc q s)"
proof -
  let ?s = "after_send i x ret bc q s"
  have t: "tq_ok blank cap (sys_tq s)" "tq_log s" "tq_flow s" "tq_ends s" "tq_sleep cap s" using inv by (simp_all add: tq_sys_inv_def)
  have len: "length (finished (sys_tq s)) = nb_streams (sys_tq s)" using t(1) by (simp add: tq_ok_def)
  show ?thesis
  proof (cases rule: tq_send_locked_cases [OF t(1) i call, case_names wait finished sent failed])
    case wait
    then show ?thesis using t i by (auto simp: tq_sys_inv_def after_send_def tq_log_def tq_flow_def tq_ends_def tq_sleep_def)
  next
    case finished
    let ?q = "set_finished (sys_tq s) i FINISHED_SEND"
    have rf: "is_recv_finished ?q j = is_recv_finished (sys_tq s) j" for j using i len by simp
    have "tq_log ?s" "tq_flow ?s" using t(2,3) finished by (simp_all add: tq_log_def tq_flow_def after_send_def)
    moreover have "tq_ends ?s" using t(4) finished(1-3) rf unfolding tq_ends_def by (simp add: after_send_def)
    moreover have "tq_sleep cap ?s"
      using t(5) finished(1-4) rf receiver_blocked_send [of "sys_tq s" i] i len unfolding tq_sleep_def by (simp add: after_send_def)
    ultimately show ?thesis using t(1) finished by (simp add: tq_sys_inv_def after_send_def)
  next
    case sent
    have open_i: "i \<notin> set (ended s)" using t(4) sent(7) i by (auto simp: tq_ends_def)
    have le: "length (stored (writes s)) \<le> length (map fst (writes s))" using length_stored [of "writes s"] by simp
    have "tq_log ?s" using t(2) sent(1,5) drop_snoc_tl [OF le, of i] by (simp add: tq_log_def after_send_def del: drop_append)
    moreover have nil: "tq_extra q = [] \<longleftrightarrow> tq_extra (sys_tq s) = []" using sent(5) by (cases "tq_extra (sys_tq s)") simp_all
    have att: "attributed (writes ?s) = attributed (writes s) @ [(hd (tq_extra (sys_tq s) @ [i]), x)]"
      using sent(1) t(2) by (simp add: after_send_def tq_log_def)
    have "tq_flow ?s" using t(3) sent(1-4) nil unfolding tq_flow_def att by (simp add: after_send_def)
    moreover have "tq_ends ?s" using t(4) sent nil open_i by (auto simp: tq_ends_def after_send_def)
    moreover have "tq_sleep cap ?s" using t(5) sent by (auto simp: tq_sleep_def after_send_def)
    ultimately show ?thesis using sent by (simp add: tq_sys_inv_def after_send_def)
  next
    case (failed e)
    have w: "writes ?s = writes s @ [(i, None)]" using failed(1,2,7) by (simp add: after_send_def)
    have le: "length (stored (writes s)) \<le> length (map fst (writes s))" using length_stored [of "writes s"] by simp
    have "tq_log ?s" using t(2) failed(6) le unfolding tq_log_def w by (simp add: after_send_def)
    moreover have "tq_flow ?s" using t(3) failed(3,5,6) unfolding tq_flow_def w by (auto simp: after_send_def)
    moreover have "tq_ends ?s" using t(4) failed(3,5,6,10,12) by (auto simp: tq_ends_def after_send_def)
    moreover have "senders_asleep s = {}" using t(5) failed(9) by (auto simp: tq_sleep_def)
    then have "tq_sleep cap ?s" using t(5) failed by (auto simp: tq_sleep_def after_send_def receiver_blocked_def)
    ultimately show ?thesis using failed(4) by (simp add: tq_sys_inv_def after_send_def)
  qed
qed

subsection \<open>Receiving\<close>

lemma eof_scan_Inl:
  "eof_scan fins i n = Inl k \<Longrightarrow> i \<le> k \<and> k < i + length fins \<and> fins ! (k - i) AND FINISHED_RECV = 0"
proof (induction fins i n rule: eof_scan.induct)
  case (2 fin fins i n)
  show ?case
  proof (cases "fin \<noteq> 0 \<and> fin AND FINISHED_RECV = 0")
    case True
    then show ?thesis using 2(3) by auto
  next
    case False
    then have "i + 1 \<le> k \<and> k < i + 1 + length fins \<and> fins ! (k - (i + 1)) AND FINISHED_RECV = 0"
      using 2 by (cases "fin = 0") simp_all
    moreover have "(fin # fins) ! (k - i) = fins ! (k - (i + 1))" if "i + 1 \<le> k" using that by (simp add: nth_Cons')
    ultimately show ?thesis by simp
  qed
qed simp

lemma tq_can_read: "tq_ok blank cap tq \<Longrightarrow> av_container_fifo_can_read (tq_fifo tq) = length (tq_items tq)"
  by (simp add: tq_items_length cf_contents_def av_container_fifo_can_read_def length_fifo_contents)

lemma tq_receive_cases:
  assumes inv: "tq_ok blank cap tq" and call: "tq_receive fref blank tq data = Some (ret, idx, data', bc, q)"
  obtains (choked) "choked tq \<noteq> 0" "ret = None" "\<not> bc" "q = tq"
  | (item) i dropped where "ret = Some 0" "idx = int i" "i < nb_streams tq" "\<not> is_recv_finished tq i" "bc"
      "tq_items tq = dropped @ (i, data') # tq_items q" "\<forall>(i, x) \<in> set dropped. is_recv_finished tq i"
      "tq_ok blank cap q" "finished q = finished tq" "nb_streams q = nb_streams tq" "tq_extra q = tq_extra tq" "choked tq = 0"
  | (eof) i q' where "ret = Some (AVERROR EOF)" "idx = int i" "i < nb_streams tq" "\<not> is_recv_finished tq i"
      "q = set_finished q' i FINISHED_RECV" "bc \<longleftrightarrow> tq_items tq \<noteq> []" "\<forall>(i, x) \<in> set (tq_items tq). is_recv_finished tq i"
      "tq_ok blank cap q'" "finished q' = finished tq" "nb_streams q' = nb_streams tq" "tq_items q' = []" "\<not> receiver_blocked tq"
      "tq_extra q' = tq_extra tq" "eof_scan (finished tq) 0 0 = Inl i" "choked tq = 0"
  | (quiet) "ret = (if eof_scan (finished tq) 0 0 = Inr (nb_streams tq) then Some (AVERROR EOF) else None)" "idx = - 1"
      "\<exists>n. eof_scan (finished tq) 0 0 = Inr n"
      "bc \<longleftrightarrow> tq_items tq \<noteq> []" "\<forall>(i, x) \<in> set (tq_items tq). is_recv_finished tq i"
      "tq_ok blank cap q" "finished q = finished tq" "nb_streams q = nb_streams tq" "tq_items q = []" "choked tq = 0"
      "tq_extra q = tq_extra tq" "choked q = choked tq"
proof (cases "choked tq = 0")
  case False
  then have "ret = None \<and> bc = False \<and> q = tq" using call by (simp add: tq_receive_def receive_locked_def)
  with False show thesis by (intro that(1)) simp_all
next
  case True
  obtain k d q0 dropped where loop: "receive_loop fref blank tq data = Some (k, d, q0)" "tq_ok blank cap q0"
    "finished q0 = finished tq" "nb_streams q0 = nb_streams tq" "tq_extra q0 = tq_extra tq" "choked q0 = choked tq" "\<forall>(i, x) \<in> set dropped. is_recv_finished tq i"
    "case k of None \<Rightarrow> tq_items tq = dropped \<and> tq_items q0 = []
      | Some i \<Rightarrow> tq_items tq = dropped @ (i, d) # tq_items q0 \<and> \<not> is_recv_finished tq i"
    using receive_loop_spec [OF inv, of fref data] by blast
  note cr = tq_can_read [OF inv] tq_can_read [OF loop(2)]
  have len: "length (finished tq) = nb_streams tq" using inv by (simp add: tq_ok_def)
  show thesis
  proof (cases k)
    case (Some i)
    have "(i, d) \<in> set (tq_items tq)" using loop(8) Some by simp
    then have "i \<in> set (tq_indices tq)" by (auto simp: tq_items_def dest: set_zip_leftD)
    then have "i < nb_streams tq" using inv by (auto simp: tq_ok_def)
    moreover have "ret = Some 0 \<and> idx = int i \<and> data' = d \<and> bc = (length (tq_items tq) \<noteq> length (tq_items q0)) \<and> q = q0"
      using call True loop(1) cr Some by (auto simp: tq_receive_def receive_locked_def)
    ultimately show thesis using loop Some True by (intro that(2) [of i dropped]) simp_all
  next
    case None
    show thesis
    proof (cases "eof_scan (finished tq) 0 0")
      case (Inl i)
      have "ret = Some (AVERROR EOF) \<and> idx = int i \<and> bc = (length (tq_items tq) \<noteq> length (tq_items q0)) \<and> q = set_finished q0 i FINISHED_RECV"
        using call True loop(1,3,4) cr None Inl len by (auto simp: tq_receive_def receive_locked_def)
      moreover have "\<not> receiver_blocked tq" using True Inl by (simp add: receiver_blocked_def)
      ultimately show thesis using loop None Inl True eof_scan_Inl [OF Inl] len by (intro that(3) [of i q0]) auto
    next
      case (Inr n)
      have "ret = (if n = nb_streams tq then Some (AVERROR EOF) else None) \<and> idx = - 1 \<and>
          bc = (length (tq_items tq) \<noteq> length (tq_items q0)) \<and> q = q0"
        using call True loop(1,3,4) cr None Inr len by (auto simp: tq_receive_def receive_locked_def)
      then show thesis using loop None Inr True by (intro that(4)) auto
    qed
  qed
qed


text \<open>Nothing is dropped of a stream the receiver has not finished, unless a write has failed.\<close>

lemma dropped_only_finished:
  assumes "tq_ok blank cap (sys_tq s)" "tq_ends s" "tq_items (sys_tq s) = dropped @ rest" "j \<notin> recv_done s"
    "j \<in> set (ended s) \<longrightarrow> tq_extra (sys_tq s) = []" "\<forall>(i, x) \<in> set dropped. is_recv_finished (sys_tq s) i"
  shows "of_stream j dropped = []"
proof (cases "j < nb_streams (sys_tq s) \<and> is_recv_finished (sys_tq s) j")
  case True
  then have "j \<in> set (ended s)" using assms(2,4) by (auto simp: tq_ends_def)
  then have "of_stream j (tq_items (sys_tq s)) = []" using assms(2,5) by (simp add: tq_ends_def)
  then show ?thesis using assms(3) by simp
next
  case False
  have "\<forall>(i, x) \<in> set dropped. i < nb_streams (sys_tq s) \<and> is_recv_finished (sys_tq s) i"
  proof (intro ballI, clarify)
    fix i x
    assume ix: "(i, x) \<in> set dropped"
    then have "(i, x) \<in> set (tq_items (sys_tq s))" using assms(3) by simp
    then have "i \<in> set (tq_indices (sys_tq s))" unfolding tq_items_def by (rule set_zip_leftD)
    then show "i < nb_streams (sys_tq s) \<and> is_recv_finished (sys_tq s) i" using ix assms(1,6) by (auto simp: tq_ok_def)
  qed
  then show ?thesis using False by (rule of_stream_none)
qed

lemma tq_flow_receive:
  assumes "tq_ok blank cap (sys_tq s)" "tq_ends s" "tq_flow s" "tq_items (sys_tq s) = dropped @ out @ tq_items q"
    "\<forall>(i, x) \<in> set dropped. is_recv_finished (sys_tq s) i" "delivered s' = delivered s @ out" "writes s' = writes s"
    "recv_done s' = recv_done s" "sys_tq s' = q" "\<forall>(i, x) \<in> set out. i \<notin> recv_done s \<and> i \<notin> set (ended s)"
    "tq_extra q = tq_extra (sys_tq s)" "set (ended s) \<subseteq> set (ended s')"
  shows "tq_flow s'"
  unfolding tq_flow_def
proof
  fix j
  let ?ok = "\<lambda>s. j \<notin> recv_done s \<and> (j \<in> set (ended s) \<longrightarrow> tq_extra (sys_tq s) = [])"
  obtain D where D: "of_stream j (attributed (writes s)) = of_stream j (delivered s) @ D @ of_stream j (tq_items (sys_tq s))" "?ok s \<longrightarrow> D = []"
    using assms(3) unfolding tq_flow_def by blast
  show "\<exists>D. of_stream j (attributed (writes s')) = of_stream j (delivered s') @ D @ of_stream j (tq_items (sys_tq s')) \<and> (?ok s' \<longrightarrow> D = [])"
  proof (cases "?ok s")
    case False
    then have "of_stream j out = []"
      using assms(10) by (intro of_stream_none [where P = "\<lambda>i. i \<notin> recv_done s \<and> i \<notin> set (ended s)"]) auto
    moreover have "\<not> ?ok s'" using False assms(8,9,11,12) by auto
    ultimately show ?thesis using D assms(4,6,7,9) by (intro exI [of _ "D @ of_stream j dropped"]) auto
  next
    case True
    then have "of_stream j dropped = []" by (intro dropped_only_finished [OF assms(1,2,4) _ _ assms(5)]) simp_all
    then show ?thesis using D assms(4,6,7,9) True by simp
  qed
qed

lemma tq_sys_inv_receive:
  assumes inv: "tq_sys_inv blank cap s" and call: "tq_receive fref blank (sys_tq s) data = Some (ret, idx, data', bc, q)"
  shows "tq_sys_inv blank cap (after_receive ret idx data' bc q s)"
proof -
  let ?s = "after_receive ret idx data' bc q s"
  have t: "tq_ok blank cap (sys_tq s)" "tq_log s" "tq_flow s" "tq_ends s" "tq_sleep cap s" using inv by (simp_all add: tq_sys_inv_def)
  have len: "length (finished (sys_tq s)) = nb_streams (sys_tq s)" using t(1) by (simp add: tq_ok_def)
  have s': "sys_tq ?s = q" "writes ?s = writes s" "recv_done ?s = recv_done s"
    "delivered ?s = (if ret = Some 0 then delivered s @ [(nat idx, data')] else delivered s)"
    "ended ?s = (if ret = Some (AVERROR EOF) \<and> idx \<noteq> - 1 then ended s @ [nat idx] else ended s)"
    "receiver_asleep ?s = (ret = None \<or> \<not> bc \<and> receiver_asleep s)" "senders_asleep ?s = (if bc then {} else senders_asleep s)"
    "senders_woken ?s = (if bc then senders_woken s \<union> senders_asleep s else senders_woken s)"
    by (simp_all add: after_receive_def del: AVERROR.simps)
  show ?thesis
  proof (cases rule: tq_receive_cases [OF t(1) call, case_names choked item eof quiet])
    case choked
    then show ?thesis
      using t unfolding tq_sys_inv_def tq_log_def tq_flow_def tq_ends_def tq_sleep_def s' by (simp add: receiver_blocked_def)
  next
    case (item i dropped)
    have "tq_flow ?s"
      using item(1,2,3,4,11) t(4) s' by (intro tq_flow_receive [OF t(1,4,3) _ item(7), of "[(i, data')]" q]) (auto simp: item(6) tq_ends_def)
    moreover have "tq_ends ?s" using t(4) item(1-6) item(9-11) unfolding tq_ends_def s' by simp
    moreover have "tq_sleep cap ?s" using t(5) item(1-5,10) unfolding tq_sleep_def s' by auto
    moreover have "tq_log ?s" "tq_ok blank cap q" using item t(2) unfolding tq_log_def s' by simp_all
    ultimately show ?thesis by (simp only: tq_sys_inv_def s'(1))
  next
    case (eof i q')
    have rf: "j < nb_streams (sys_tq s) \<Longrightarrow> is_recv_finished q j \<longleftrightarrow> j = i \<or> is_recv_finished (sys_tq s) j" for j
      using eof(3,5,9) len by auto
    have "tq_flow ?s" using eof(1,5,7,11,13) s' by (intro tq_flow_receive [OF t(1,4,3) _ eof(7), of "[]" q]) auto
    moreover have "tq_ends ?s"
      using t(4) eof(1-5,9-11) rf unfolding tq_ends_def s' by auto
    moreover have "tq_sleep cap ?s"
      using t(5) eof(1-6) len eof(10-13) unfolding tq_sleep_def s' by auto
    moreover have "tq_log ?s" "tq_ok blank cap q" using eof(5,8,13) t(2) unfolding tq_log_def s' by simp_all
    ultimately show ?thesis by (simp only: tq_sys_inv_def s'(1))
  next
    case quiet
    have "tq_flow ?s" using quiet(1,2,9,11) s' by (intro tq_flow_receive [OF t(1,4,3) _ quiet(5), of "[]" q]) auto
    moreover have "tq_ends ?s" using t(4) quiet(2,7-9,11) unfolding tq_ends_def s' by simp
    moreover have "tq_sleep cap ?s"
      using t(5) quiet unfolding tq_sleep_def receiver_blocked_def s' by (auto split: if_splits)
    moreover have "tq_log ?s" "tq_ok blank cap q" using quiet t(2) unfolding tq_log_def s' by simp_all
    ultimately show ?thesis by (simp only: tq_sys_inv_def s'(1))
  qed
qed

lemma tq_sys_inv_step: "tq_step fref blank s s' \<Longrightarrow> tq_sys_inv blank cap s \<Longrightarrow> tq_sys_inv blank cap s'"
proof (induction rule: tq_step.induct)
  case (send heap env s i x ret x' bc q)
  show ?case
  proof (cases "finished (sys_tq s) ! i AND FINISHED_SEND = 0")
    case True
    then have "i < nb_streams (sys_tq s)" "tq_send_locked fref blank heap env (sys_tq s) i x = Some (ret, x', bc, q)"
      using send(1) by (auto simp: tq_send_def split: if_splits)
    then show ?thesis using send by (intro tq_sys_inv_send)
  next
    case False
    then have "ret = Some (AVERROR EINVAL) \<and> \<not> bc \<and> q = sys_tq s" using send(1) by (auto simp: tq_send_def split: if_splits)
    then have "after_send i x ret bc q s = s" by (simp add: after_send_def wake_all_def)
    then show ?thesis using send.prems by simp
  qed
next
  case (resume i s heap env x ret x' bc q)
  have "i < nb_streams (sys_tq s)" using resume(1) resume.prems by (auto simp: tq_sys_inv_def tq_sleep_def)
  then show ?case using resume by (intro tq_sys_inv_send)
next
  case (receive s data ret idx data' bc q)
  then show ?case by (intro tq_sys_inv_receive)
next
  case (send_finish s i bc q)
  have q: "bc" "q = (set_finished (sys_tq s) i FINISHED_SEND)\<lparr>choked := 0\<rparr>" "i < length (finished (sys_tq s))"
    using send_finish by (auto simp: tq_send_finish_def tq_sys_inv_def tq_ok_def split: if_splits)
  have "is_recv_finished q j = is_recv_finished (sys_tq s) j" "tq_items q = tq_items (sys_tq s)" "nb_streams q = nb_streams (sys_tq s)"
    "tq_ok blank cap q" "tq_extra q = tq_extra (sys_tq s)" for j
    using q send_finish.prems by (simp_all add: tq_items_def tq_extra_def tq_sys_inv_def tq_ok_def set_finished_def nth_list_update)
  then show ?case using q(1) send_finish.prems by (auto simp: tq_sys_inv_def tq_log_def tq_flow_def tq_ends_def tq_sleep_def)
next
  case (receive_finish s i bc q)
  have q: "bc" "q = set_finished (sys_tq s) i FINISHED_RECV" "i < length (finished (sys_tq s))"
    using receive_finish by (auto simp: tq_receive_finish_def tq_sys_inv_def tq_ok_def split: if_splits)
  have q': "is_recv_finished q j \<longleftrightarrow> j = i \<or> is_recv_finished (sys_tq s) j" "tq_items q = tq_items (sys_tq s)"
    "nb_streams q = nb_streams (sys_tq s)" "tq_ok blank cap q" "tq_extra q = tq_extra (sys_tq s)" for j
    using q receive_finish.prems by (auto simp: tq_sys_inv_def)
  have "tq_flow ((wake_all bc s)\<lparr>sys_tq := q, recv_done := insert i (recv_done s)\<rparr>)"
    using receive_finish.prems q' unfolding tq_sys_inv_def tq_flow_def by fastforce
  then show ?case using q(1) q' receive_finish.prems by (auto simp: tq_sys_inv_def tq_log_def tq_ends_def tq_sleep_def)
next
  case (choke s c bc q)
  have q: "q = (sys_tq s)\<lparr>choked := c\<rparr>" "bc \<longleftrightarrow> c \<noteq> choked (sys_tq s)" using choke by (auto simp: tq_choke_def)
  then have "tq_items q = tq_items (sys_tq s)" "tq_ok blank cap q" "tq_extra q = tq_extra (sys_tq s)"
    using choke.prems by (simp_all add: tq_items_def tq_extra_def tq_sys_inv_def tq_ok_def)
  moreover have "tq_log ((wake_all bc s)\<lparr>sys_tq := q\<rparr>) = tq_log s" using calculation by (simp add: tq_log_def)
  ultimately show ?case using q choke.prems
    by (cases "c = choked (sys_tq s)") (auto simp: tq_sys_inv_def tq_flow_def tq_ends_def tq_sleep_def)
qed

lemma tq_sys_inv_reachable:
  assumes "(tq_step fref blank)\<^sup>*\<^sup>* s s'" "tq_sys_inv blank cap s"
  shows "tq_sys_inv blank cap s'"
  using assms by (induction rule: rtranclp_induct) (auto intro: tq_sys_inv_step)

lemma tq_start_inv:
  assumes "tq_alloc env streams queue_size = Some q" "queue_size \<le> SIZE_MAX"
    "\<And>heap a b c d cf. env = (heap, a, b, c, d, Some cf) \<Longrightarrow> cf_inv (\<lambda>c. c = blank) cf \<and> cf_contents cf = []"
  shows "tq_sys_inv blank queue_size (tq_start q)"
proof -
  obtain heap h ce le fh cf f where env: "env = (heap, h, ce, le, fh, Some cf)" and f: "av_fifo_alloc2 heap queue_size 4 0 = Some f"
    and q: "q = \<lparr>choked = 0, finished = replicate streams 0, nb_streams = streams, tq_fifo = cf, fifo_stream_index = f\<rparr>"
    using assms(1) by (cases env) (auto simp: tq_alloc_def split: if_splits option.splits)
  have "fifo_inv f" "fifo_contents f = []" "av_fifo_can_write f = queue_size"
    using av_fifo_alloc2_inv [OF f assms(2)] by auto
  moreover from this have "nb_elems f = queue_size" by (simp add: av_fifo_can_write_def flip: length_fifo_contents)
  ultimately show ?thesis using assms(3) [OF env]
    by (simp add: q tq_sys_inv_def tq_ok_def tq_items_def tq_extra_def tq_start_def tq_log_def tq_flow_def tq_ends_def tq_sleep_def
      attributed_def)
qed

text \<open>The queue \<^verbatim>\<open>tq_alloc\<close> makes, with its container FIFO as \<^verbatim>\<open>av_container_fifo_alloc\<close> makes it.\<close>

definition tq_alloc_with ::
  "(nat \<Rightarrow> bool) \<times> bool \<times> int \<times> int \<times> bool \<Rightarrow> (nat \<Rightarrow> bool) \<times> bool \<times> bool \<times> int \<Rightarrow> nat \<Rightarrow> nat \<Rightarrow> 'o ThreadQueue option" where
  "tq_alloc_with env cf_env streams queue_size =
     (case (env, cf_env) of ((heap, h, ce, le, fh), (cheap, ch, ph, me)) \<Rightarrow>
        tq_alloc (heap, h, ce, le, fh, av_container_fifo_alloc cheap ch ph me) streams queue_size)"

lemma tq_alloc_with_inv:
  assumes "tq_alloc_with env cf_env streams queue_size = Some q" "queue_size \<le> SIZE_MAX"
  shows "tq_sys_inv blank queue_size (tq_start q)"
proof -
  obtain heap h ce le fh cheap ch ph me where e: "env = (heap, h, ce, le, fh)" "cf_env = (cheap, ch, ph, me)"
    by (cases env, cases cf_env) auto
  have "tq_alloc (heap, h, ce, le, fh, av_container_fifo_alloc cheap ch ph me) streams queue_size = Some q"
    using assms(1) by (simp add: tq_alloc_with_def e)
  then show ?thesis using assms(2) by (rule tq_start_inv) (simp add: av_container_fifo_alloc_inv)
qed

text \<open>A call of \<^verbatim>\<open>tq_receive\<close>, whatever is in the queue.\<close>

lemma tq_receive_result:
  assumes inv: "tq_ok blank queue_size q"
  shows "\<exists>ret idx data' bc q'. tq_receive fref blank q data = Some (ret, idx, data', bc, q') \<and>
    (if choked q \<noteq> 0 then ret = None \<and> q' = q
     else case find (\<lambda>(i, x). finished q ! i AND FINISHED_RECV = 0) (tq_items q) of
            Some (i, x) \<Rightarrow> ret = Some 0 \<and> idx = int i \<and> i < nb_streams q \<and> data' = x \<and> bc
          | None \<Rightarrow> tq_items q' = [] \<and>
              (case eof_scan (finished q) 0 0 of
                 Inl i \<Rightarrow> ret = Some (AVERROR EOF) \<and> idx = int i \<and> i < nb_streams q \<and> finished q' = (finished q)[i := finished q ! i OR FINISHED_RECV]
               | Inr n \<Rightarrow> ret = (if n = nb_streams q then Some (AVERROR EOF) else None) \<and> idx = - 1 \<and> finished q' = finished q))"
proof -
  obtain k d q1 where "receive_loop fref blank q data = Some (k, d, q1)" using receive_loop_spec [OF inv] by blast
  then have "\<exists>r. tq_receive fref blank q data = Some r"
    by (auto simp: tq_receive_def receive_locked_def simp del: AVERROR.simps split: option.split sum.split)
  then obtain ret idx data' bc q' where call: "tq_receive fref blank q data = Some (ret, idx, data', bc, q')" by (metis prod.exhaust)
  have skip: "\<forall>(i, x) \<in> set xs. is_recv_finished q i \<Longrightarrow>
      find (\<lambda>(i, x). finished q ! i AND FINISHED_RECV = 0) (xs @ ys) = find (\<lambda>(i, x). finished q ! i AND FINISHED_RECV = 0) ys" for xs ys
    by (induction xs) auto
  show ?thesis
  proof (cases rule: tq_receive_cases [OF inv call, case_names choked item eof quiet])
    case choked
    then show ?thesis using call by (intro exI [of _ ret] exI [of _ idx] exI [of _ data'] exI [of _ bc] exI [of _ q']) simp
  next
    case (item i dropped)
    then show ?thesis using skip [OF item(7), of "(i, data') # tq_items q'"] call by (intro exI [of _ ret] exI [of _ idx] exI [of _ data'] exI [of _ bc] exI [of _ q']) simp
  next
    case (eof i q1)
    moreover have "tq_items q' = []" using eof by simp
    ultimately show ?thesis using skip [OF eof(7), of "[]"] call by (intro exI [of _ ret] exI [of _ idx] exI [of _ data'] exI [of _ bc] exI [of _ q']) (simp add: set_finished_def del: AVERROR.simps)
  next
    case quiet
    then show ?thesis using skip [OF quiet(5), of "[]"] call by (intro exI [of _ ret] exI [of _ idx] exI [of _ data'] exI [of _ bc] exI [of _ q']) (auto simp del: AVERROR.simps)
  qed
qed

text \<open>
  C2: in every reachable state of the threads around a queue, whatever sends have failed, what was written under the
  index of a stream is what was delivered for it, then what was dropped of it, then what is queued for it; nothing is
  dropped of a stream the receiver has not finished, unless its end was reported and some write has failed. The end
  of a stream is reported at most once. As long as no write has failed, the objects go out under the stream they were sent
  on, and when the end of a stream is reported everything sent on it has been delivered (or the receiver had
  finished it). What was written before the first failure keeps its stream in any case; from then on the k-th
  object stored goes out under the k-th index written (\<open>attributed\<close>).
\<close>

theorem tq_delivers_in_order:
  assumes "tq_alloc_with env cf_env streams queue_size = Some q" "queue_size \<le> SIZE_MAX"
    "(tq_step fref blank)\<^sup>*\<^sup>* (tq_start q) s"
  shows "(\<exists>dropped. of_stream i (attributed (writes s)) = of_stream i (delivered s) @ dropped @ of_stream i (tq_items (sys_tq s)) \<and>
      (i \<notin> recv_done s \<and> (i \<in> set (ended s) \<longrightarrow> failures (writes s) = 0) \<longrightarrow> dropped = [])) \<and>
    distinct (ended s) \<and>
    (failures (writes s) = 0 \<longrightarrow> attributed (writes s) = stored (writes s) \<and>
      (i \<in> set (ended s) \<and> i \<notin> recv_done s \<longrightarrow> of_stream i (delivered s) = of_stream i (stored (writes s)))) \<and>
    (\<forall>before after. writes s = before @ after \<and> failures before = 0 \<longrightarrow> (\<exists>rest. attributed (writes s) = stored before @ rest))"
proof -
  have inv: "tq_sys_inv blank queue_size s"
    by (rule tq_sys_inv_reachable [OF assms(3) tq_alloc_with_inv [OF assms(1,2)]])
  then have fl: "tq_extra (sys_tq s) = [] \<longleftrightarrow> failures (writes s) = 0" using length_tq_extra [of s] by (auto simp: tq_sys_inv_def)
  obtain D where D: "of_stream i (attributed (writes s)) = of_stream i (delivered s) @ D @ of_stream i (tq_items (sys_tq s))"
    "i \<notin> recv_done s \<and> (i \<in> set (ended s) \<longrightarrow> failures (writes s) = 0) \<longrightarrow> D = []"
    using inv unfolding tq_sys_inv_def tq_flow_def fl by blast
  have "distinct (ended s)" "i \<in> set (ended s) \<and> failures (writes s) = 0 \<longrightarrow> of_stream i (tq_items (sys_tq s)) = []"
    using inv by (simp_all add: tq_sys_inv_def tq_ends_def fl)
  with D show ?thesis using no_failures [of "writes s"] attributed_prefix by (intro conjI exI [of _ D]) auto
qed

text \<open>
  C5: nobody sleeps who could run. A sleeping sender would find the index FIFO full: objects and failed writes, whose
  indices are never taken back, make up the size of the queue; and as long as the failed writes leave a place, its
  stream is open. A sleeping receiver would find the queue choked, or empty with no end to report
  and some stream unfinished. So a sender and a receiver only sleep at the same time when the queue is choked, or
  when failed writes have used up all of its places.
\<close>

theorem tq_no_lost_wakeup:
  assumes "tq_alloc_with env cf_env streams queue_size = Some q" "queue_size \<le> SIZE_MAX"
    "(tq_step fref blank)\<^sup>*\<^sup>* (tq_start q) s"
  shows "(\<forall>i \<in> senders_asleep s. length (tq_items (sys_tq s)) + failures (writes s) = queue_size \<and>
      (failures (writes s) < queue_size \<longrightarrow> finished (sys_tq s) ! i AND FINISHED_RECV = 0)) \<and>
    (receiver_asleep s \<longrightarrow> receiver_blocked (sys_tq s)) \<and>
    (senders_asleep s \<noteq> {} \<and> receiver_asleep s \<longrightarrow> choked (sys_tq s) \<noteq> 0 \<or> failures (writes s) = queue_size)"
proof -
  have inv: "tq_sleep queue_size s" "tq_log s"
    using tq_sys_inv_reachable [OF assms(3) tq_alloc_with_inv [OF assms(1,2)]] by (simp_all add: tq_sys_inv_def)
  show ?thesis using inv(1) length_tq_extra [OF inv(2)] by (auto simp: tq_sleep_def receiver_blocked_def)
qed


text \<open>
  C35: when the container FIFO cannot store the object, \<^verbatim>\<open>tq_send\<close> has already put the index of the stream
  into the other FIFO and leaves it there: from then on the two are out of step, and the objects that
  follow are attributed to the stream of their predecessor.
\<close>

theorem tq_send_desync:
  assumes "tq_inv blank cap q" "i < nb_streams q" "finished q ! i = 0" "length (tq_items q) < cap"
    "write_frame fref blank env (tq_fifo q) x = Some (ret, x', cf)" "ret < 0"
  shows "\<exists>q'. tq_send fref blank heap env q i x = Some (Some ret, x', False, q') \<and>
    fifo_contents (fifo_stream_index q') = fifo_contents (fifo_stream_index q) @ [i] \<and>
    length (cf_contents (tq_fifo q')) < length (fifo_contents (fifo_stream_index q'))"
proof -
  have fi: "fifo_inv (fifo_stream_index q)" and ci: "cf_inv (\<lambda>c. c = blank) (tq_fifo q)" using assms(1) by (simp_all add: tq_inv_def tq_ok_def)
  have room: "av_fifo_can_write (fifo_stream_index q) \<noteq> 0"
    using assms(1,4) by (simp add: tq_inv_def tq_ok_def tq_items_def av_fifo_can_write_def length_fifo_contents)
  obtain f where f: "av_fifo_write heap (fifo_stream_index q) [i] 1 = Some (0, f)" "fifo_contents f = fifo_contents (fifo_stream_index q) @ [i]"
    by (rule fifo_write_one [OF fi room])
  have "cf_contents cf = cf_contents (tq_fifo q)"
    using assms(5,6) by (cases rule: cfq.put_cases [OF ci, of fref env x, case_names stored failed]) auto
  then show ?thesis using assms f room
    by (intro exI [of _ "q\<lparr>fifo_stream_index := f, tq_fifo := cf\<rparr>"])
      (simp add: tq_send_def tq_send_locked_def Let_def tq_inv_def tq_ok_def)
qed

section \<open>Runs\<close>

text \<open>A queue of two streams and \<open>n\<close> places, and the container FIFO it starts with.\<close>

definition demo_tq :: "nat \<Rightarrow> nat ThreadQueue" where
  "demo_tq n = the (tq_alloc_with (\<lambda>_. True, True, 0, 0, True) (\<lambda>_. True, True, True, 0) 2 n)"

definition demo_cf :: "nat AVContainerFifo" where
  "demo_cf = the (av_container_fifo_alloc (\<lambda>_. True) True True 0)"

abbreviation demo_ref :: "nat \<Rightarrow> nat \<Rightarrow> int \<times> nat" where "demo_ref \<equiv> \<lambda>d s. (0, s)"

text \<open>The outcomes of the allocations when an object is written: all succeed, or there is no memory for a new entry.\<close>

abbreviation good_env :: "nat alloc_env" where "good_env \<equiv> (\<lambda>_. True, Some 0, True)"
abbreviation no_mem :: "nat alloc_env" where "no_mem \<equiv> (\<lambda>_. True, None, True)"

lemma demo_tq_alloc:
  assumes "n \<in> {1, 3}"
  shows "tq_alloc_with (\<lambda>_. True, True, 0, 0, True) (\<lambda>_. True, True, True, 0) 2 n = Some (demo_tq n)"
  using assms by (auto simp: demo_tq_def tq_alloc_with_def tq_alloc_def av_container_fifo_alloc_def av_fifo_alloc2_def av_realloc_array_def
      size_mult_def av_refstruct_pool_alloc_ext_def)

lemma demo_cf_alloc: "av_container_fifo_alloc (\<lambda>_. True) True True 0 = Some demo_cf"
  by (simp add: demo_cf_def av_container_fifo_alloc_def av_fifo_alloc2_def av_realloc_array_def size_mult_def av_refstruct_pool_alloc_ext_def)

lemma demo_tq_shape:
  assumes "n \<in> {1, 3}"
  shows "nb_streams (demo_tq n) = 2" "finished (demo_tq n) = [0, 0]" "tq_fifo (demo_tq n) = demo_cf" "choked (demo_tq n) = 0"
    "tq_ok 0 n (demo_tq n)" "tq_items (demo_tq n) = []" "tq_extra (demo_tq n) = []"
proof -
  obtain f where q: "\<lparr>choked = 0, finished = [0, 0], nb_streams = 2, tq_fifo = demo_cf, fifo_stream_index = f\<rparr> = demo_tq n"
    using demo_tq_alloc [OF assms] by (auto simp: tq_alloc_with_def tq_alloc_def demo_cf_alloc numeral_2_eq_2 split: if_splits)
  show f: "nb_streams (demo_tq n) = 2" "finished (demo_tq n) = [0, 0]" "tq_fifo (demo_tq n) = demo_cf" "choked (demo_tq n) = 0"
    unfolding q [symmetric] by simp_all
  have "n \<le> SIZE_MAX" using assms by auto
  from tq_alloc_with_inv [OF demo_tq_alloc [OF assms] this, of 0]
  show "tq_ok 0 n (demo_tq n)" "tq_extra (demo_tq n) = []" by (simp_all add: tq_sys_inv_def tq_log_def tq_start_def)
  show "tq_items (demo_tq n) = []"
    using av_container_fifo_alloc_inv [OF demo_cf_alloc, of "\<lambda>_. True"] f(3) by (simp add: tq_items_def)
qed

lemma demo_cf_inv: "cf_inv (\<lambda>c. c = 0) demo_cf" "fifo_inv (cf_fifo demo_cf)" "cf_contents demo_cf = []"
  using av_container_fifo_alloc_inv [OF demo_cf_alloc, of "\<lambda>c. c = 0"] by (simp_all add: cf_inv_def)

lemma demo_cf_room: "av_fifo_can_write (cf_fifo demo_cf) = 1" "cf_pool demo_cf = the (av_refstruct_pool_alloc_ext True 0 True True False 0)"
  by (simp_all add: demo_cf_def av_container_fifo_alloc_def av_fifo_alloc2_def av_realloc_array_def size_mult_def
    av_refstruct_pool_alloc_ext_def av_fifo_can_write_def av_fifo_can_read_def)

lemma demo_write_fails: "write_frame demo_ref 0 no_mem demo_cf x = Some (AVERROR ENOMEM, x, demo_cf)"
  by (simp add: write_frame_def av_container_fifo_write_def refstruct_pool_get_ext_def demo_cf_room(2) av_refstruct_pool_alloc_ext_def Let_def)

lemma demo_write_ok: obtains cf where "write_frame demo_ref 0 good_env demo_cf x = Some (0, 0, cf)"
proof -
  obtain f where "av_fifo_write (\<lambda>_. True) (cf_fifo demo_cf) [0] 1 = Some (0, f)"
    by (rule fifo_write_one [OF demo_cf_inv(2)]) (simp_all add: demo_cf_room(1))
  then have "map_option fst (write_frame demo_ref 0 good_env demo_cf x) = Some 0"
    by (simp add: write_frame_def demo_cf_room(2) av_refstruct_pool_alloc_ext_def av_container_fifo_write_def refstruct_pool_get_ext_def
      container_fifo_init_entry_def set_container_def frame_ops_def frame_transfer_def Let_def)
  then show thesis
    by (cases rule: cfq.put_cases [OF demo_cf_inv(1), of demo_ref good_env x, case_names stored failed]) (use that in auto)
qed

lemma demo_send:
  assumes "tq_ok 0 cap q" "tq_fifo q = demo_cf" "i < nb_streams q" "finished q ! i = 0" "length (tq_items q) + length (tq_extra q) < cap"
  shows "\<exists>q'. tq_send demo_ref 0 (\<lambda>_. True) good_env q i x = Some (Some 0, 0, True, q') \<and>
      tq_ok 0 cap q' \<and> tq_items q' = tq_items q @ [(hd (tq_extra q @ [i]), x)] \<and> tq_extra q' = tl (tq_extra q @ [i]) \<and>
      finished q' = finished q \<and> choked q' = choked q \<and> nb_streams q' = nb_streams q"
    "\<exists>q'. tq_send demo_ref 0 (\<lambda>_. True) no_mem q i x = Some (Some (AVERROR ENOMEM), x, False, q') \<and>
      tq_ok 0 cap q' \<and> tq_items q' = tq_items q \<and> tq_extra q' = tq_extra q @ [i] \<and> tq_indices q' = tq_indices q @ [i] \<and>
      tq_fifo q' = demo_cf \<and> finished q' = finished q \<and> choked q' = choked q \<and> nb_streams q' = nb_streams q"
proof -
  have fi: "fifo_inv (fifo_stream_index q)" using assms(1) by (simp add: tq_ok_def)
  have "length (tq_indices q) < cap" using arg_cong [OF tq_indices_split [OF assms(1)], of length] assms(5) by simp
  then have room: "av_fifo_can_write (fifo_stream_index q) \<noteq> 0"
    using assms(1) by (simp add: av_fifo_can_write_def tq_ok_def length_fifo_contents)
  obtain f where f: "av_fifo_write (\<lambda>_. True) (fifo_stream_index q) [i] 1 = Some (0, f)" by (rule fifo_write_one [OF fi room])
  obtain cf where cf: "write_frame demo_ref 0 good_env (tq_fifo q) x = Some (0, 0, cf)" using demo_write_ok assms(2) by auto
  have unfinished: "\<not> is_recv_finished q i" using assms(4) by simp
  define q1 where "q1 = q\<lparr>fifo_stream_index := f, tq_fifo := cf\<rparr>"
  have s: "tq_send_locked demo_ref 0 (\<lambda>_. True) good_env q i x = Some (Some 0, 0, True, q1)"
    using assms(4) room f cf by (simp add: tq_send_locked_def Let_def q1_def)
  then have "tq_send demo_ref 0 (\<lambda>_. True) good_env q i x = Some (Some 0, 0, True, q1)" using assms(3,4) by (simp add: tq_send_def)
  then show "\<exists>q'. tq_send demo_ref 0 (\<lambda>_. True) good_env q i x = Some (Some 0, 0, True, q') \<and>
      tq_ok 0 cap q' \<and> tq_items q' = tq_items q @ [(hd (tq_extra q @ [i]), x)] \<and> tq_extra q' = tl (tq_extra q @ [i]) \<and>
      finished q' = finished q \<and> choked q' = choked q \<and> nb_streams q' = nb_streams q"
    by (cases rule: tq_send_locked_cases [OF assms(1,3) s]) auto
  have e: "write_frame demo_ref 0 no_mem (tq_fifo q) x = Some (AVERROR ENOMEM, x, demo_cf)" using demo_write_fails assms(2) by simp
  define q2 where "q2 = q\<lparr>fifo_stream_index := f, tq_fifo := demo_cf\<rparr>"
  have s: "tq_send_locked demo_ref 0 (\<lambda>_. True) no_mem q i x = Some (Some (AVERROR ENOMEM), x, False, q2)"
    using assms(4) room f e by (simp add: tq_send_locked_def Let_def q2_def)
  then have "tq_send demo_ref 0 (\<lambda>_. True) no_mem q i x = Some (Some (AVERROR ENOMEM), x, False, q2)" using assms(3,4) by (simp add: tq_send_def)
  moreover have "tq_fifo q2 = demo_cf" by (simp add: q2_def)
  ultimately show "\<exists>q'. tq_send demo_ref 0 (\<lambda>_. True) no_mem q i x = Some (Some (AVERROR ENOMEM), x, False, q') \<and>
      tq_ok 0 cap q' \<and> tq_items q' = tq_items q \<and> tq_extra q' = tq_extra q @ [i] \<and> tq_indices q' = tq_indices q @ [i] \<and>
      tq_fifo q' = demo_cf \<and> finished q' = finished q \<and> choked q' = choked q \<and> nb_streams q' = nb_streams q"
    by (cases rule: tq_send_locked_cases [OF assms(1,3) s]) auto
qed

lemma demo_send_waits:
  assumes "tq_ok 0 cap q" "i < nb_streams q" "finished q ! i = 0" "length (tq_items q) + length (tq_extra q) = cap"
  shows "tq_send demo_ref 0 (\<lambda>_. True) good_env q i x = Some (None, x, False, q)"
proof -
  have "length (tq_indices q) = cap" using arg_cong [OF tq_indices_split [OF assms(1)], of length] assms(4) by simp
  then have "av_fifo_can_write (fifo_stream_index q) = 0"
    using assms(1) by (simp add: av_fifo_can_write_def tq_ok_def length_fifo_contents)
  then show ?thesis using assms(2,3) by (simp add: tq_send_def tq_send_locked_def)
qed

lemma demo_receive:
  assumes "tq_ok 0 cap q" "tq_items q = [(i, x)]" "finished q ! i = 0" "choked q = 0"
  shows "\<exists>q'. tq_receive demo_ref 0 q 0 = Some (Some 0, int i, x, True, q') \<and> tq_ok 0 cap q' \<and> tq_items q' = [] \<and>
    finished q' = finished q \<and> nb_streams q' = nb_streams q"
proof -
  obtain ret idx d bc q' where r: "tq_receive demo_ref 0 q 0 = Some (ret, idx, d, bc, q')" "ret = Some 0" "idx = int i" "d = x" "bc"
    using tq_receive_result [OF assms(1), of demo_ref 0] assms(2-4) by auto
  show ?thesis
    by (cases rule: tq_receive_cases [OF assms(1) r(1)]) (use r assms(2) in \<open>auto simp: Cons_eq_append_conv\<close>)
qed

text \<open>The runs: an object sent, delivered and its stream ended; the queue full; a failed write; all places lost.\<close>

lemma demo_one_sent:
  assumes "n \<in> {1, 3}"
  shows "\<exists>s. (tq_step demo_ref 0)\<^sup>*\<^sup>* (tq_start (demo_tq n)) s \<and> tq_ok 0 n (sys_tq s) \<and> writes s = [(0, Some 7)] \<and> delivered s = [] \<and>
    ended s = [] \<and> recv_done s = {} \<and> senders_asleep s = {} \<and> tq_items (sys_tq s) = [(0, 7)] \<and> tq_extra (sys_tq s) = [] \<and>
    finished (sys_tq s) = [0, 0] \<and> choked (sys_tq s) = 0 \<and> nb_streams (sys_tq s) = 2"
proof -
  note d = demo_tq_shape [OF assms]
  have "length (tq_items (demo_tq n)) + length (tq_extra (demo_tq n)) < n" using assms d by auto
  from demo_send(1) [OF d(5,3) _ _ this, of 0 7] d obtain q where
    q: "tq_send demo_ref 0 (\<lambda>_. True) good_env (demo_tq n) 0 7 = Some (Some 0, 0, True, q)" "tq_ok 0 n q" "tq_items q = [(0, 7)]"
      "tq_extra q = []" "finished q = [0, 0]" "choked q = 0" "nb_streams q = 2" by auto
  have "tq_step demo_ref 0 (tq_start (demo_tq n)) (after_send 0 7 (Some 0) True q (tq_start (demo_tq n)))"
    by (rule tq_step.send) (use q(1) in \<open>simp add: tq_start_def\<close>)
  then show ?thesis using q by (intro exI [of _ "after_send 0 7 (Some 0) True q (tq_start (demo_tq n))"]) (simp add: after_send_def tq_start_def)
qed

lemma demo_delivered_and_ended:
  "\<exists>s. (tq_step demo_ref 0)\<^sup>*\<^sup>* (tq_start (demo_tq 3)) s \<and> writes s = [(0, Some 7)] \<and> delivered s = [(0, 7)] \<and> ended s = [0] \<and> recv_done s = {}"
proof -
  obtain s where s: "(tq_step demo_ref 0)\<^sup>*\<^sup>* (tq_start (demo_tq 3)) s" "tq_ok 0 3 (sys_tq s)" "writes s = [(0, Some 7)]" "delivered s = []"
    "ended s = []" "recv_done s = {}" "tq_items (sys_tq s) = [(0, 7)]" "finished (sys_tq s) = [0, 0]" "choked (sys_tq s) = 0"
    "nb_streams (sys_tq s) = 2" using demo_one_sent [of 3] by auto
  obtain q where q: "tq_receive demo_ref 0 (sys_tq s) 0 = Some (Some 0, 0, 7, True, q)" "tq_ok 0 3 q" "tq_items q = []"
    "finished q = [0, 0]" "nb_streams q = 2" using demo_receive [OF s(2,7)] s(8,9,10) by auto
  define s2 where "s2 = after_receive (Some 0) 0 7 True q s"
  have "tq_step demo_ref 0 s s2" unfolding s2_def by (rule tq_step.receive) (rule q(1))
  moreover define q3 where "q3 = (set_finished q 0 FINISHED_SEND)\<lparr>choked := 0\<rparr>"
  moreover define s3 where "s3 = (wake_all True s2)\<lparr>sys_tq := q3\<rparr>"
  moreover have "tq_step demo_ref 0 s2 s3" unfolding s3_def
    by (rule tq_step.send_finish [where i = 0]) (simp add: tq_send_finish_def s2_def after_receive_def q q3_def)
  ultimately have step: "tq_step demo_ref 0 s s2" "tq_step demo_ref 0 s2 s3" by simp_all
  have q3: "tq_ok 0 3 q3" "tq_items q3 = []" "finished q3 = [1, 0]" "nb_streams q3 = 2" "choked q3 = 0"
    using q by (simp_all add: q3_def tq_ok_def set_finished_def tq_items_def)
  obtain ret idx d bc q4 where r: "tq_receive demo_ref 0 q3 0 = Some (ret, idx, d, bc, q4)" "ret = Some (AVERROR EOF)" "idx = 0"
    using tq_receive_result [OF q3(1), of demo_ref 0] q3(2-5) by (auto simp del: AVERROR.simps)
  have "tq_step demo_ref 0 s3 (after_receive ret idx d bc q4 s3)" by (rule tq_step.receive) (use r(1) in \<open>simp add: s3_def\<close>)
  then have "(tq_step demo_ref 0)\<^sup>*\<^sup>* (tq_start (demo_tq 3)) (after_receive ret idx d bc q4 s3)" using s(1) step by (meson rtranclp.rtrancl_into_rtrancl)
  then show ?thesis using s r(2,3)
    by (intro exI [of _ "after_receive ret idx d bc q4 s3"]) (simp add: after_receive_def s3_def s2_def)
qed

lemma demo_full:
  "\<exists>s. (tq_step demo_ref 0)\<^sup>*\<^sup>* (tq_start (demo_tq 1)) s \<and> senders_asleep s = {1} \<and> tq_items (sys_tq s) = [(0, 7)] \<and> failures (writes s) = 0"
proof -
  obtain s where s: "(tq_step demo_ref 0)\<^sup>*\<^sup>* (tq_start (demo_tq 1)) s" "tq_ok 0 1 (sys_tq s)" "writes s = [(0, Some 7)]"
    "senders_asleep s = {}" "tq_items (sys_tq s) = [(0, 7)]" "tq_extra (sys_tq s) = []" "finished (sys_tq s) = [0, 0]"
    "nb_streams (sys_tq s) = 2" using demo_one_sent [of 1] by auto
  have "tq_step demo_ref 0 s (after_send 1 8 None False (sys_tq s) s)"
    by (rule tq_step.send, rule demo_send_waits [OF s(2)]) (simp_all add: s)
  then show ?thesis using s
    by (intro exI [of _ "after_send 1 8 None False (sys_tq s) s"]) (auto simp: after_send_def wake_all_def failures_def)
qed

lemma demo_one_failed:
  assumes "n \<in> {1, 3}"
  shows "\<exists>s. (tq_step demo_ref 0)\<^sup>*\<^sup>* (tq_start (demo_tq n)) s \<and> tq_ok 0 n (sys_tq s) \<and> writes s = [(0, None)] \<and> delivered s = [] \<and>
    senders_asleep s = {} \<and> senders_woken s = {} \<and> tq_items (sys_tq s) = [] \<and> tq_extra (sys_tq s) = [0] \<and> tq_fifo (sys_tq s) = demo_cf \<and>
    finished (sys_tq s) = [0, 0] \<and> choked (sys_tq s) = 0 \<and> nb_streams (sys_tq s) = 2"
proof -
  note d = demo_tq_shape [OF assms]
  have "length (tq_items (demo_tq n)) + length (tq_extra (demo_tq n)) < n" using assms d by auto
  from demo_send(2) [OF d(5,3) _ _ this, of 0 7] d obtain q where
    q: "tq_send demo_ref 0 (\<lambda>_. True) no_mem (demo_tq n) 0 7 = Some (Some (AVERROR ENOMEM), 7, False, q)" "tq_ok 0 n q" "tq_items q = []"
      "tq_extra q = [0]" "tq_indices q = tq_indices (demo_tq n) @ [0]" "tq_fifo q = demo_cf" "finished q = [0, 0]" "choked q = 0" "nb_streams q = 2"
    by (auto simp del: AVERROR.simps)
  let ?s = "after_send 0 7 (Some (AVERROR ENOMEM)) False q (tq_start (demo_tq n))"
  have "tq_step demo_ref 0 (tq_start (demo_tq n)) ?s" by (rule tq_step.send) (use q(1) in \<open>simp add: tq_start_def del: AVERROR.simps\<close>)
  then show ?thesis using q by (intro exI [of _ ?s]) (simp add: after_send_def tq_start_def)
qed

text \<open>After the failed write of an object of stream 0, the next object, sent on stream 1, is delivered as one of stream 0.\<close>

lemma tq_misattributed:
  "\<exists>s. (tq_step demo_ref 0)\<^sup>*\<^sup>* (tq_start (demo_tq 3)) s \<and> writes s = [(0, None), (1, Some 8)] \<and> delivered s = [(0, 8)]"
proof -
  obtain s where s: "(tq_step demo_ref 0)\<^sup>*\<^sup>* (tq_start (demo_tq 3)) s" "tq_ok 0 3 (sys_tq s)" "writes s = [(0, None)]" "delivered s = []"
    "tq_items (sys_tq s) = []" "tq_extra (sys_tq s) = [0]" "tq_fifo (sys_tq s) = demo_cf" "finished (sys_tq s) = [0, 0]" "choked (sys_tq s) = 0"
    "nb_streams (sys_tq s) = 2" using demo_one_failed [of 3] by auto
  obtain q where q: "tq_send demo_ref 0 (\<lambda>_. True) good_env (sys_tq s) 1 8 = Some (Some 0, 0, True, q)" "tq_ok 0 3 q"
      "tq_items q = [(0, 8)]" "finished q = [0, 0]" "choked q = 0"
    using demo_send(1) [OF s(2,7), of 1 8] s(5-10) by auto
  let ?s2 = "after_send 1 8 (Some 0) True q s"
  have step: "tq_step demo_ref 0 s ?s2" by (rule tq_step.send) (rule q(1))
  obtain q3 where q3: "tq_receive demo_ref 0 (sys_tq ?s2) 0 = Some (Some 0, 0, 8, True, q3)"
    using demo_receive [OF q(2,3)] q(4,5) by (auto simp: after_send_def)
  have "tq_step demo_ref 0 ?s2 (after_receive (Some 0) 0 8 True q3 ?s2)" by (rule tq_step.receive) (rule q3)
  then have "(tq_step demo_ref 0)\<^sup>*\<^sup>* (tq_start (demo_tq 3)) (after_receive (Some 0) 0 8 True q3 ?s2)"
    using s(1) step by (meson rtranclp.rtrancl_into_rtrancl)
  then show ?thesis using s
    by (intro exI [of _ "after_receive (Some 0) 0 8 True q3 ?s2"]) (simp add: after_receive_def after_send_def)
qed

text \<open>In a queue of one place, a failed write is the end: the sender sleeps on an empty queue, and so does the receiver.\<close>

lemma tq_capacity_lost:
  "\<exists>s. (tq_step demo_ref 0)\<^sup>*\<^sup>* (tq_start (demo_tq 1)) s \<and> tq_items (sys_tq s) = [] \<and> choked (sys_tq s) = 0 \<and>
    senders_asleep s = {1} \<and> receiver_asleep s \<and> senders_woken s = {}"
proof -
  obtain s where s: "(tq_step demo_ref 0)\<^sup>*\<^sup>* (tq_start (demo_tq 1)) s" "tq_ok 0 1 (sys_tq s)" "writes s = [(0, None)]"
    "senders_asleep s = {}" "tq_items (sys_tq s) = []" "tq_extra (sys_tq s) = [0]" "finished (sys_tq s) = [0, 0]" "choked (sys_tq s) = 0"
    "nb_streams (sys_tq s) = 2" "senders_woken s = {}" using demo_one_failed [of 1] by auto
  let ?s2 = "after_send 1 8 None False (sys_tq s) s"
  have step: "tq_step demo_ref 0 s ?s2" by (rule tq_step.send, rule demo_send_waits [OF s(2)]) (simp_all add: s)
  obtain ret idx d bc q where r: "tq_receive demo_ref 0 (sys_tq s) 0 = Some (ret, idx, d, bc, q)" "ret = None" "tq_items q = []"
    using tq_receive_result [OF s(2), of demo_ref 0] s(5-9) by auto
  have q: "\<not> bc" "choked q = choked (sys_tq s)"
    by (cases rule: tq_receive_cases [OF s(2) r(1)]; use s(5) r(2) in auto)+
  let ?s3 = "after_receive ret idx d bc q ?s2"
  have "tq_step demo_ref 0 ?s2 ?s3" by (rule tq_step.receive) (use r(1) in \<open>simp add: after_send_def\<close>)
  then have "(tq_step demo_ref 0)\<^sup>*\<^sup>* (tq_start (demo_tq 1)) ?s3" using s(1) step by (meson rtranclp.rtrancl_into_rtrancl)
  then show ?thesis using s r(2,3) q
    by (intro exI [of _ ?s3]) (simp add: after_receive_def after_send_def wake_all_def)
qed

theorem tq_delivers_in_order_witness:
  "\<exists>s :: nat tq_system. writes s = [(0, Some 7)] \<and> delivered s = [(0, 7)] \<and> ended s = [0] \<and> distinct (ended s) \<and>
    of_stream 0 (delivered s) = of_stream 0 (stored (writes s)) \<and>
    (\<exists>dropped. of_stream 0 (attributed (writes s)) = of_stream 0 (delivered s) @ dropped @ of_stream 0 (tq_items (sys_tq s)) \<and> dropped = [])"
proof -
  obtain s where s: "(tq_step demo_ref 0)\<^sup>*\<^sup>* (tq_start (demo_tq 3)) s" "writes s = [(0, Some 7)]" "delivered s = [(0, 7)]" "ended s = [0]"
    "recv_done s = {}" using demo_delivered_and_ended by blast
  have n: "3 \<in> {1, 3 :: nat}" "3 \<le> SIZE_MAX" by simp_all
  show ?thesis using tq_delivers_in_order [OF demo_tq_alloc [OF n(1)] n(2) s(1), of 0] s(2-5)
    by (intro exI [of _ s]) (auto simp: failures_def)
qed

theorem tq_no_lost_wakeup_witness:
  "\<exists>s :: nat tq_system. senders_asleep s = {1} \<and> tq_items (sys_tq s) = [(0, 7)] \<and> length (tq_items (sys_tq s)) + failures (writes s) = 1 \<and>
    finished (sys_tq s) ! 1 AND FINISHED_RECV = 0 \<and> \<not> (receiver_asleep s \<and> choked (sys_tq s) = 0)"
proof -
  obtain s where s: "(tq_step demo_ref 0)\<^sup>*\<^sup>* (tq_start (demo_tq 1)) s" "senders_asleep s = {1}" "tq_items (sys_tq s) = [(0, 7)]"
    "failures (writes s) = 0" using demo_full by blast
  have n: "1 \<in> {1, 3 :: nat}" "1 \<le> SIZE_MAX" by simp_all
  show ?thesis using tq_no_lost_wakeup [OF demo_tq_alloc [OF n(1)] n(2) s(1)] s(2-4) by (intro exI [of _ s]) auto
qed


theorem tq_send_desync_witness:
  "\<exists>ret x' q'. tq_send demo_ref 0 (\<lambda>_. True) no_mem (demo_tq 3) 0 7 = Some (Some ret, x', False, q') \<and>
    length (cf_contents (tq_fifo q')) < length (fifo_contents (fifo_stream_index q'))"
proof -
  have n: "3 \<in> {1, 3 :: nat}" by simp
  note d = demo_tq_shape [OF n]
  have inv: "tq_inv 0 3 (demo_tq 3)" using d tq_indices_split [OF d(5)] demo_cf_inv by (simp add: tq_inv_def)
  have w: "write_frame demo_ref 0 no_mem (tq_fifo (demo_tq 3)) 7 = Some (AVERROR ENOMEM, 7, demo_cf)" using demo_write_fails d(3) by simp
  show ?thesis using tq_send_desync [OF inv _ _ _ w AVERROR_neg, of 0 "\<lambda>_. True"] d by auto
qed

declare length_fifo_contents [simp]

end
