(* ===== verification/AV_SyncQueue.thy ===== *)
theory AV_SyncQueue
  imports AV_ContainerFifo AV_Timestamps AV_SampleFmt
begin

text \<open>
  \<^verbatim>\<open>fftools/sync_queue.c\<close>: the queue that keeps the streams of an output file in step. A failed assertion is \<open>None\<close>.
  The outcomes of allocations and of the calls into \<^verbatim>\<open>libavutil/frame.c\<close> are arguments.
\<close>

unbundle bit_operations_syntax

section \<open>Frames\<close>

text \<open>
  The fields of \<^verbatim>\<open>AVFrame\<close> and \<^verbatim>\<open>AVPacket\<close> the queue uses; those about audio are not read for a packet. \<open>fr_samples\<close> are
  the \<^verbatim>\<open>nb_samples\<close> samples (of all channels) the data pointers lead to; \<open>fr_data\<close> and \<open>fr_linesize\<close> are \<^verbatim>\<open>data[0]\<close> and
  \<^verbatim>\<open>linesize[0]\<close>, all planes being moved together.
\<close>

record 's SyncQueueFrame =
  fr_pts :: int
  fr_duration :: int
  fr_time_base :: AVRational
  fr_nb_samples :: int
  fr_sample_rate :: int
  fr_format :: int
  fr_channels :: int
  fr_data :: int
  fr_linesize :: int
  fr_samples :: "'s list"

text \<open>The frame \<^verbatim>\<open>av_frame_unref\<close> leaves.\<close>

definition blank_frame :: "'s SyncQueueFrame" where
  "blank_frame = \<lparr>fr_pts = AV_NOPTS_VALUE, fr_duration = 0, fr_time_base = av_make_q 0 1, fr_nb_samples = 0, fr_sample_rate = 0,
     fr_format = AV_SAMPLE_FMT_NONE, fr_channels = 0, fr_data = 0, fr_linesize = 0, fr_samples = []\<rparr>"

text \<open>
  What the calls into \<^verbatim>\<open>frame.c\<close> and \<^verbatim>\<open>channel_layout.c\<close> answer: the error codes of \<^verbatim>\<open>av_frame_ref\<close>,
  \<^verbatim>\<open>av_channel_layout_copy\<close>, \<^verbatim>\<open>av_frame_get_buffer\<close> and \<^verbatim>\<open>av_frame_copy_props\<close>, zero for success, and the address, line
  size and initial contents of the buffer.
\<close>

record 's frame_env =
  ref_err :: int
  layout_err :: int
  buffer_err :: int
  props_err :: int
  new_data :: int
  new_linesize :: int
  new_samples :: "nat \<Rightarrow> 's list"

section \<open>State\<close>

datatype SyncQueueType = SYNC_QUEUE_PACKETS | SYNC_QUEUE_FRAMES

record 's SyncQueueStream =
  st_fifo :: "'s SyncQueueFrame AVContainerFifo"
  st_tb :: AVRational
  samples_queued :: int
  head_ts :: int
  limiting :: bool
  st_finished :: bool
  frames_sent :: int
  samples_sent :: int
  frames_max :: int
  st_frame_samples :: int

record 's SyncQueue =
  sq_type :: SyncQueueType
  sq_finished :: bool
  head_stream :: int
  head_finished_stream :: int
  buf_size_us :: int
  streams :: "'s SyncQueueStream list"
  have_limiting :: bool
  align_mask :: int

abbreviation AV_TIME_BASE_Q :: AVRational where "AV_TIME_BASE_Q \<equiv> av_make_q 1 1000000"

definition upd_stream :: "nat \<Rightarrow> ('s SyncQueueStream \<Rightarrow> 's SyncQueueStream) \<Rightarrow> 's SyncQueue \<Rightarrow> 's SyncQueue" where
  "upd_stream i f sq = sq\<lparr>streams := (streams sq)[i := f (streams sq ! i)]\<rparr>"

section \<open>Times\<close>

definition frame_end :: "'s SyncQueueFrame \<Rightarrow> int \<Rightarrow> int" where
  "frame_end frame nb_samples =
     (if nb_samples \<noteq> 0
      then s64 (fr_pts frame + av_rescale_q nb_samples (av_make_q 1 (fr_sample_rate frame)) (fr_time_base frame))
      else s64 (fr_pts frame + fr_duration frame))"

definition frame_samples :: "SyncQueueType \<Rightarrow> 's SyncQueueFrame \<Rightarrow> int" where
  "frame_samples ty frame = (case ty of SYNC_QUEUE_PACKETS \<Rightarrow> 0 | SYNC_QUEUE_FRAMES \<Rightarrow> fr_nb_samples frame)"

definition tb_update :: "'s SyncQueueStream \<Rightarrow> 's SyncQueueFrame \<Rightarrow> 's SyncQueueStream option" where
  "tb_update st frame =
     (let tb = fr_time_base frame
      in if \<not> (num tb > 0 \<and> den tb > 0) then None
         else if num tb = num (st_tb st) \<and> den tb = den (st_tb st) then Some st
         else if av_container_fifo_can_read (st_fifo st) \<noteq> 0 then None
         else
           let st = (if head_ts st \<noteq> AV_NOPTS_VALUE then st\<lparr>head_ts := av_rescale_q (head_ts st) (st_tb st) tb\<rparr> else st)
           in Some (st\<lparr>st_tb := tb\<rparr>))"

text \<open>The comparison of the heads of two streams.\<close>

definition compare_heads :: "'s SyncQueueStream \<Rightarrow> 's SyncQueueStream \<Rightarrow> int" where
  "compare_heads st st1 = av_compare_ts (head_ts st) (st_tb st) (head_ts st1) (st_tb st1)"

text \<open>The loop of \<^verbatim>\<open>finish_stream\<close> over the streams from position \<open>i\<close> on; \<open>f\<close> is the finished head \<open>st\<close>.\<close>

fun finish_ahead :: "'s SyncQueueStream \<Rightarrow> nat \<Rightarrow> nat \<Rightarrow> 's SyncQueueStream list \<Rightarrow> 's SyncQueueStream list" where
  "finish_ahead st f i [] = []"
| "finish_ahead st f i (st1 # sts) =
     (if f \<noteq> i \<and> head_ts st1 \<noteq> AV_NOPTS_VALUE \<and> compare_heads st st1 \<le> 0 then st1\<lparr>st_finished := True\<rparr> else st1) #
     finish_ahead st f (i + 1) sts"

definition finish_stream :: "'s SyncQueue \<Rightarrow> nat \<Rightarrow> 's SyncQueue" where
  "finish_stream sq stream_idx =
     (let sq = upd_stream stream_idx (\<lambda>st. st\<lparr>st_finished := True\<rparr>) sq;
          st = streams sq ! stream_idx;
          sq = (if limiting st \<and> head_ts st \<noteq> AV_NOPTS_VALUE then
                  let sq = (if head_finished_stream sq < 0 \<or> compare_heads st (streams sq ! nat (head_finished_stream sq)) < 0
                            then sq\<lparr>head_finished_stream := int stream_idx\<rparr> else sq);
                      f = nat (head_finished_stream sq)
                  in sq\<lparr>streams := finish_ahead (streams sq ! f) f 0 (streams sq)\<rparr>
                else sq)
      in if list_all st_finished (streams sq) then sq\<lparr>sq_finished := True\<rparr> else sq)"

text \<open>\<open>None\<close> is the early return of the first loop, \<open>first\<close> the first limiting stream so far.\<close>

fun first_limiting :: "'s SyncQueueStream list \<Rightarrow> nat \<Rightarrow> nat option \<Rightarrow> nat option option" where
  "first_limiting [] i first = Some first"
| "first_limiting (st # sts) i first =
     (if \<not> limiting st then first_limiting sts (i + 1) first
      else if head_ts st = AV_NOPTS_VALUE then None
      else first_limiting sts (i + 1) (case first of None \<Rightarrow> Some i | Some _ \<Rightarrow> first))"

fun head_loop :: "'s SyncQueueStream list \<Rightarrow> nat \<Rightarrow> 's SyncQueueStream list \<Rightarrow> nat \<Rightarrow> nat" where
  "head_loop all i [] h = h"
| "head_loop all i (st # sts) h =
     head_loop all (i + 1) sts (if limiting st \<and> head_ts st \<noteq> AV_NOPTS_VALUE \<and> compare_heads st (all ! h) < 0 then i else h)"

definition queue_head_update :: "'s SyncQueue \<Rightarrow> 's SyncQueue option" where
  "queue_head_update sq =
     (if \<not> have_limiting sq then None
      else
        let update = (\<lambda>h. Some (sq\<lparr>head_stream := int (head_loop (streams sq) 0 (streams sq) h)\<rparr>))
        in if head_stream sq < 0 then
             case first_limiting (streams sq) 0 None of
               None \<Rightarrow> Some sq
             | Some None \<Rightarrow> None
             | Some (Some first) \<Rightarrow> update first
           else update (nat (head_stream sq)))"

definition stream_update_ts :: "'s SyncQueue \<Rightarrow> nat \<Rightarrow> int \<Rightarrow> 's SyncQueue option" where
  "stream_update_ts sq stream_idx ts =
     (let st = streams sq ! stream_idx
      in if ts = AV_NOPTS_VALUE \<or> (head_ts st \<noteq> AV_NOPTS_VALUE \<and> head_ts st \<ge> ts) then Some sq
         else
           let sq = upd_stream stream_idx (\<lambda>st. st\<lparr>head_ts := ts\<rparr>) sq;
               sq = (if head_finished_stream sq \<ge> 0 \<and>
                        compare_heads (streams sq ! nat (head_finished_stream sq)) (streams sq ! stream_idx) \<le> 0
                     then finish_stream sq stream_idx else sq)
           in if limiting st \<and> (head_stream sq < 0 \<or> head_stream sq = int stream_idx) then queue_head_update sq else Some sq)"

section \<open>Overflow\<close>

fun pick_ahead :: "'s SyncQueueStream list \<Rightarrow> nat \<Rightarrow> 's SyncQueueStream list \<Rightarrow> int \<Rightarrow> int \<Rightarrow> int" where
  "pick_ahead all i [] ts stream_idx = stream_idx"
| "pick_ahead all i (st # sts) ts stream_idx =
     (if head_ts st \<noteq> AV_NOPTS_VALUE \<and>
         (ts = AV_NOPTS_VALUE \<or> av_compare_ts ts (st_tb (all ! nat stream_idx)) (head_ts st) (st_tb st) < 0)
      then pick_ahead all (i + 1) sts (head_ts st) (int i)
      else pick_ahead all (i + 1) sts ts stream_idx)"

lemma peek_in_range: "av_container_fifo_peek cf i = Some (ret, x) \<Longrightarrow> \<not> ret < 0 \<Longrightarrow> i < av_container_fifo_can_read cf"
  using AVERROR_neg [of EINVAL]
  by (auto simp: av_container_fifo_peek_def av_fifo_peek_def fifo_peek_common_def av_container_fifo_can_read_def Let_def
      simp del: AVERROR.simps split: option.splits if_splits)

function tail_loop :: "'s SyncQueueFrame AVContainerFifo \<Rightarrow> nat \<Rightarrow> int \<Rightarrow> int option" where
  "tail_loop cf i tail_ts =
     (if tail_ts = AV_NOPTS_VALUE then
        case av_container_fifo_peek cf i of
          Some (ret, Some frame) \<Rightarrow> if ret < 0 then Some tail_ts else tail_loop cf (i + 1) (frame_end frame 0)
        | Some (ret, None) \<Rightarrow> if ret < 0 then Some tail_ts else None
        | None \<Rightarrow> None
      else Some tail_ts)"
  by auto
termination
  by (relation "measure (\<lambda>(cf, i, _). av_container_fifo_can_read cf - i)") (auto dest: peek_in_range)

text \<open>The loop over the streams \<open>is\<close>, for the chosen stream \<open>idx\<close> and the timestamp after its tail.\<close>

fun heartbeat_loop :: "nat \<Rightarrow> int \<Rightarrow> nat list \<Rightarrow> 's SyncQueue \<Rightarrow> 's SyncQueue option" where
  "heartbeat_loop idx tail_ts [] sq = Some sq"
| "heartbeat_loop idx tail_ts (i # is) sq =
     (let st = streams sq ! idx; st1 = streams sq ! i
      in if idx = i \<or> st_finished st1 \<or>
            (head_ts st1 \<noteq> AV_NOPTS_VALUE \<and> av_compare_ts tail_ts (st_tb st) (head_ts st1) (st_tb st1) \<le> 0)
         then heartbeat_loop idx tail_ts is sq
         else
           let ts = av_rescale_q tail_ts (st_tb st) (st_tb st1);
               ts = (if head_ts st1 \<noteq> AV_NOPTS_VALUE then max (s64 (head_ts st1 + 1)) ts else ts)
           in case stream_update_ts sq i ts of None \<Rightarrow> None | Some sq \<Rightarrow> heartbeat_loop idx tail_ts is sq)"

definition overflow_heartbeat :: "'s SyncQueue \<Rightarrow> int \<Rightarrow> (bool \<times> 's SyncQueue) option" where
  "overflow_heartbeat sq stream_idx =
     (let stream_idx = (if stream_idx < 0 then pick_ahead (streams sq) 0 (streams sq) AV_NOPTS_VALUE stream_idx else stream_idx)
      in if stream_idx < 0 then Some (False, sq)
         else
           let st = streams sq ! nat stream_idx
           in case tail_loop (st_fifo st) 0 AV_NOPTS_VALUE of
                None \<Rightarrow> None
              | Some tail_ts \<Rightarrow>
                  if tail_ts = AV_NOPTS_VALUE \<or> tail_ts \<ge> head_ts st \<or>
                     av_rescale_q (s64 (head_ts st - tail_ts)) (st_tb st) AV_TIME_BASE_Q < buf_size_us sq
                  then Some (False, sq)
                  else map_option (Pair True) (heartbeat_loop (nat stream_idx) (s64 (tail_ts + 1)) [0..<length (streams sq)] sq))"

section \<open>Sending\<close>

text \<open>
  \<open>None\<close> for the frame is the null frame that ends a stream. The result has the return value and the caller's frame as
  the call leaves it. A packet is written as \<^verbatim>\<open>av_packet_move_ref\<close> does, a frame as \<^verbatim>\<open>av_frame_move_ref\<close> does.
\<close>

abbreviation sq_write :: "'s SyncQueueFrame alloc_env \<Rightarrow> 's SyncQueueFrame AVContainerFifo \<Rightarrow> 's SyncQueueFrame \<Rightarrow>
    (int \<times> 's SyncQueueFrame \<times> 's SyncQueueFrame AVContainerFifo) option" where
  "sq_write \<equiv> write_frame (\<lambda>_ src. (0, src)) blank_frame"

abbreviation sq_read :: "'s SyncQueueFrame AVContainerFifo \<Rightarrow> 's SyncQueueFrame \<Rightarrow>
    (int \<times> 's SyncQueueFrame \<times> 's SyncQueueFrame AVContainerFifo) option" where
  "sq_read \<equiv> read_frame (\<lambda>_ src. (0, src)) blank_frame"

abbreviation sq_drain :: "'s SyncQueueFrame AVContainerFifo \<Rightarrow> nat \<Rightarrow> 's SyncQueueFrame AVContainerFifo option" where
  "sq_drain \<equiv> av_container_fifo_drain (frame_ops (\<lambda>_ src. (0, src)) blank_frame)"

text \<open>The duration of an audio frame follows from its samples; \<open>None\<close> is the failed assertion on the sample rate.\<close>

definition set_duration :: "int \<Rightarrow> 's SyncQueueFrame \<Rightarrow> 's SyncQueueFrame" where
  "set_duration nb_samples frame =
     frame\<lparr>fr_duration := av_rescale_q nb_samples (av_make_q 1 (fr_sample_rate frame)) (fr_time_base frame)\<rparr>"

text \<open>The counters of the stream and the limit on its frames, after the frame went into the FIFO.\<close>

definition count_sent :: "int \<Rightarrow> 's SyncQueueStream \<Rightarrow> 's SyncQueueStream" where
  "count_sent nb_samples st =
     (let st = st\<lparr>samples_queued := w64 (samples_queued st + nb_samples), samples_sent := w64 (samples_sent st + nb_samples)\<rparr>
      in if st_frame_samples st \<noteq> 0 then st\<lparr>frames_sent := samples_sent st div w64 (st_frame_samples st)\<rparr>
         else st\<lparr>frames_sent := w64 (frames_sent st + 1)\<rparr>)"

definition sq_send :: "'s SyncQueueFrame alloc_env \<Rightarrow> 's SyncQueue \<Rightarrow> nat \<Rightarrow> 's SyncQueueFrame option \<Rightarrow>
    (int \<times> 's SyncQueueFrame option \<times> 's SyncQueue) option" where
  "sq_send env sq stream_idx frame =
     (if \<not> stream_idx < length (streams sq) then None
      else
        case frame of
          None \<Rightarrow> Some (0, None, finish_stream sq stream_idx)
        | Some frame \<Rightarrow>
            if st_finished (streams sq ! stream_idx) then Some (AVERROR EOF, Some frame, sq)
            else
              case tb_update (streams sq ! stream_idx) frame of
                None \<Rightarrow> None
              | Some st \<Rightarrow>
                  let sq = upd_stream stream_idx (\<lambda>_. st) sq;
                      nb_samples = frame_samples (sq_type sq) frame
                  in if nb_samples \<noteq> 0 \<and> \<not> fr_sample_rate frame > 0 then None
                     else
                       let frame = (if nb_samples \<noteq> 0 then set_duration nb_samples frame else frame);
                           ts = frame_end frame 0
                       in case sq_write env (st_fifo st) frame of
                            None \<Rightarrow> None
                          | Some (ret, frame, fifo) \<Rightarrow>
                              let sq = upd_stream stream_idx (\<lambda>st. st\<lparr>st_fifo := fifo\<rparr>) sq
                              in if ret < 0 then Some (ret, Some frame, sq)
                                 else
                                   case stream_update_ts sq stream_idx ts of
                                     None \<Rightarrow> None
                                   | Some sq \<Rightarrow>
                                       let sq = upd_stream stream_idx (count_sent nb_samples) sq;
                                           st = streams sq ! stream_idx
                                       in Some (0, Some frame,
                                                if frames_sent st \<ge> frames_max st then finish_stream sq stream_idx else sq))"

section \<open>Receiving\<close>

text \<open>
  \<^verbatim>\<open>offset_audio\<close> adds \<open>offset\<close> to the pointer of every data plane. In an interleaved format one sample of all channels takes
  \<^verbatim>\<open>bps * nb_channels\<close> bytes of the only plane, in a planar one \<^verbatim>\<open>bps\<close> bytes of each plane, so the pointers then lead past
  \<^verbatim>\<open>nb_samples\<close> samples of all channels: that is the \<open>drop\<close> of \<open>fr_samples\<close>, which stands for what the pointers lead to. The
  address and line size of the first plane are computed as in C, with the wrap-around of \<^verbatim>\<open>int\<close>.
\<close>

definition offset_audio :: "'s SyncQueueFrame \<Rightarrow> int \<Rightarrow> 's SyncQueueFrame option" where
  "offset_audio f nb_samples =
     (let pl = av_sample_fmt_is_planar (fr_format f);
          bps = av_get_bytes_per_sample (fr_format f);
          offset = s32 (s32 (nb_samples * bps) * (if pl \<noteq> 0 then 1 else fr_channels f))
      in if \<not> bps > 0 \<or> \<not> nb_samples < fr_nb_samples f then None
         else
           let f = f\<lparr>fr_data := fr_data f + offset, fr_linesize := s32 (fr_linesize f - offset),
                     fr_nb_samples := s32 (fr_nb_samples f - nb_samples), fr_samples := drop (nat nb_samples) (fr_samples f)\<rparr>;
               f = f\<lparr>fr_duration := av_rescale_q (fr_nb_samples f) (av_make_q 1 (fr_sample_rate f)) (fr_time_base f)\<rparr>
           in Some (f\<lparr>fr_pts := s64 (fr_pts f + av_rescale_q nb_samples (av_make_q 1 (fr_sample_rate f)) (fr_time_base f))\<rparr>))"

definition frame_is_aligned :: "int \<Rightarrow> 's SyncQueueFrame \<Rightarrow> bool option" where
  "frame_is_aligned amask frame =
     (if \<not> fr_nb_samples frame > 0 \<or> amask = 0 then None
      else Some (fr_data frame AND amask = 0 \<and> w64 (fr_linesize frame) AND amask = 0 \<and> w64 (fr_linesize frame) > amask))"

text \<open>A write through the pointer to the oldest frame of a FIFO that \<^verbatim>\<open>av_container_fifo_peek\<close> returned.\<close>

definition poke_first :: "'o AVContainerFifo \<Rightarrow> 'o \<Rightarrow> 'o AVContainerFifo option" where
  "poke_first cf obj =
     (case av_fifo_peek (cf_fifo cf) 1 0 of
        Some (ret, [Some r]) \<Rightarrow> if ret < 0 then None else Some (cf\<lparr>cf_pool := set_container (cf_pool cf) r obj\<rparr>)
      | _ \<Rightarrow> None)"

definition peek_first :: "'o AVContainerFifo \<Rightarrow> 'o option" where
  "peek_first cf =
     (case av_container_fifo_peek cf 0 of Some (ret, Some obj) \<Rightarrow> if ret < 0 then None else Some obj | _ \<Rightarrow> None)"

partial_function (option) copy_samples :: "'s SyncQueueStream \<Rightarrow> 's SyncQueueFrame \<Rightarrow> int \<Rightarrow> ('s SyncQueueFrame \<times> 's SyncQueueStream) option" where
  "copy_samples st dst nb_samples =
     (if \<not> fr_nb_samples dst < nb_samples then Some (dst, st)
      else
        case peek_first (st_fifo st) of
          None \<Rightarrow> None
        | Some src \<Rightarrow>
            let to_copy = min (s32 (nb_samples - fr_nb_samples dst)) (fr_nb_samples src);
                dst = dst\<lparr>fr_samples := put_at (fr_samples dst) (nat (fr_nb_samples dst)) (take (nat to_copy) (fr_samples src))\<rparr>
            in case (if to_copy < fr_nb_samples src
                     then (case offset_audio src to_copy of None \<Rightarrow> None | Some src \<Rightarrow> poke_first (st_fifo st) src)
                     else sq_drain (st_fifo st) 1) of
                 None \<Rightarrow> None
               | Some fifo \<Rightarrow>
                   copy_samples (st\<lparr>st_fifo := fifo, samples_queued := w64 (samples_queued st - to_copy)\<rparr>)
                     (dst\<lparr>fr_nb_samples := s32 (fr_nb_samples dst + to_copy)\<rparr>) nb_samples)"

definition receive_samples :: "'s frame_env \<Rightarrow> int \<Rightarrow> 's SyncQueueStream \<Rightarrow> 's SyncQueueFrame \<Rightarrow> int \<Rightarrow>
    (int \<times> 's SyncQueueFrame \<times> 's SyncQueueStream) option" where
  "receive_samples env amask st dst nb_samples =
     (if \<not> samples_queued st \<ge> w64 nb_samples then None
      else
        let finish = (\<lambda>(dst, st). (0, set_duration nb_samples dst, st))
        in case peek_first (st_fifo st) of
             None \<Rightarrow> None
           | Some src \<Rightarrow>
               (case (if fr_nb_samples src > nb_samples then frame_is_aligned amask src else Some False) of
                  None \<Rightarrow> None
                | Some True \<Rightarrow>
                    if ref_err env < 0 then Some (ref_err env, blank_frame, st)
                    else
                      (case offset_audio src nb_samples of
                         None \<Rightarrow> None
                       | Some src' \<Rightarrow>
                           map_option (\<lambda>fifo. finish (src\<lparr>fr_nb_samples := nb_samples, fr_samples := take (nat nb_samples) (fr_samples src)\<rparr>,
                                                      st\<lparr>st_fifo := fifo, samples_queued := w64 (samples_queued st - nb_samples)\<rparr>))
                             (poke_first (st_fifo st) src'))
                | Some False \<Rightarrow>
                    if layout_err env < 0 then Some (layout_err env, dst, st)
                    else
                      let dst = dst\<lparr>fr_channels := fr_channels src, fr_format := fr_format src, fr_nb_samples := nb_samples\<rparr>
                      in if buffer_err env < 0 then Some (buffer_err env, blank_frame, st)
                         else if props_err env < 0 then Some (props_err env, blank_frame, st)
                         else
                           let dst = dst\<lparr>fr_data := new_data env, fr_linesize := new_linesize env, fr_samples := new_samples env (nat nb_samples),
                                         fr_pts := fr_pts src, fr_duration := fr_duration src, fr_time_base := fr_time_base src,
                                         fr_sample_rate := fr_sample_rate src, fr_nb_samples := 0\<rparr>
                           in map_option finish (copy_samples st dst nb_samples)))"

definition receive_for_stream :: "'s frame_env \<Rightarrow> 's SyncQueue \<Rightarrow> nat \<Rightarrow> 's SyncQueueFrame \<Rightarrow> (int \<times> 's SyncQueueFrame \<times> 's SyncQueue) option" where
  "receive_for_stream env sq stream_idx frame =
     (if \<not> stream_idx < length (streams sq) then None
      else
        let st = streams sq ! stream_idx;
            wait = Some (if sq_finished sq \<or> (st_finished st \<and> \<not> av_container_fifo_can_read (st_fifo st) \<noteq> 0) then AVERROR EOF else AVERROR EAGAIN,
                         frame, sq)
        in if av_container_fifo_can_read (st_fifo st) \<noteq> 0 \<and> (w64 (st_frame_samples st) \<le> samples_queued st \<or> st_finished st) then
             let nb_samples = (if st_finished st then s32 (min (w64 (st_frame_samples st)) (samples_queued st)) else st_frame_samples st)
             in case peek_first (st_fifo st) of
                  None \<Rightarrow> None
                | Some pk \<Rightarrow>
                    let ts = frame_end pk nb_samples;
                        cmp = (if ts \<noteq> AV_NOPTS_VALUE \<and> head_stream sq \<ge> 0
                               then av_compare_ts ts (st_tb st) (head_ts (streams sq ! nat (head_stream sq))) (st_tb (streams sq ! nat (head_stream sq)))
                               else 1)
                    in if cmp \<le> 0 \<or> ts = AV_NOPTS_VALUE \<or> \<not> have_limiting sq then
                         (case (if nb_samples \<noteq> 0
                                then (if nb_samples \<noteq> fr_nb_samples pk then Some True else map_option Not (frame_is_aligned (align_mask sq) pk))
                                else Some False) of
                            None \<Rightarrow> None
                          | Some True \<Rightarrow>
                              map_option (\<lambda>(ret, frame, st). (if ret < 0 then ret else 0, frame, upd_stream stream_idx (\<lambda>_. st) sq))
                                (receive_samples env (align_mask sq) st frame nb_samples)
                          | Some False \<Rightarrow>
                              (case sq_read (st_fifo st) frame of
                                 None \<Rightarrow> None
                               | Some (ret, frame, fifo) \<Rightarrow>
                                   if ret < 0 \<or> \<not> samples_queued st \<ge> w64 (frame_samples (sq_type sq) frame) then None
                                   else Some (0, frame, upd_stream stream_idx
                                     (\<lambda>st. st\<lparr>st_fifo := fifo, samples_queued := w64 (samples_queued st - frame_samples (sq_type sq) frame)\<rparr>) sq)))
                       else wait
           else wait)"

fun receive_any :: "'s frame_env \<Rightarrow> nat list \<Rightarrow> nat \<Rightarrow> 's SyncQueue \<Rightarrow> 's SyncQueueFrame \<Rightarrow> (int \<times> 's SyncQueueFrame \<times> 's SyncQueue) option" where
  "receive_any env [] nb_eof sq frame = Some (if nb_eof = length (streams sq) then AVERROR EOF else AVERROR EAGAIN, frame, sq)"
| "receive_any env (i # is) nb_eof sq frame =
     (case receive_for_stream env sq i frame of
        None \<Rightarrow> None
      | Some (ret, frame, sq) \<Rightarrow>
          if ret = AVERROR EOF \<or> ret = AVERROR EAGAIN then receive_any env is (nb_eof + of_bool (ret = AVERROR EOF)) sq frame
          else Some (if ret < 0 then ret else int i, frame, sq))"

definition receive_internal :: "'s frame_env \<Rightarrow> 's SyncQueue \<Rightarrow> int \<Rightarrow> 's SyncQueueFrame \<Rightarrow> (int \<times> 's SyncQueueFrame \<times> 's SyncQueue) option" where
  "receive_internal env sq stream_idx frame =
     (if stream_idx \<ge> 0
      then map_option (\<lambda>(ret, frame, sq). (if ret < 0 then ret else stream_idx, frame, sq)) (receive_for_stream env sq (nat stream_idx) frame)
      else receive_any env [0..<length (streams sq)] 0 sq frame)"

definition sq_receive :: "'s frame_env \<Rightarrow> 's frame_env \<Rightarrow> 's SyncQueue \<Rightarrow> int \<Rightarrow> 's SyncQueueFrame \<Rightarrow> (int \<times> 's SyncQueueFrame \<times> 's SyncQueue) option" where
  "sq_receive env env' sq stream_idx frame =
     (case receive_internal env sq stream_idx frame of
        None \<Rightarrow> None
      | Some (ret, frame, sq) \<Rightarrow>
          if ret = AVERROR EAGAIN then
            case overflow_heartbeat sq stream_idx of
              None \<Rightarrow> None
            | Some (triggered, sq) \<Rightarrow> if triggered then receive_internal env' sq stream_idx frame else Some (ret, frame, sq)
          else Some (ret, frame, sq))"

section \<open>Setting up\<close>

text \<open>\<open>realloc_ok\<close> and \<open>fifo\<close> are the outcomes of \<^verbatim>\<open>av_realloc_array\<close> and of the allocation of the FIFO.\<close>

definition new_stream :: "'s SyncQueueFrame AVContainerFifo \<Rightarrow> bool \<Rightarrow> 's SyncQueueStream" where
  "new_stream fifo lmt =
     \<lparr>st_fifo = fifo, st_tb = av_make_q 1 1, samples_queued = 0, head_ts = AV_NOPTS_VALUE, limiting = lmt, st_finished = False,
      frames_sent = 0, samples_sent = 0, frames_max = 2 ^ 64 - 1, st_frame_samples = 0\<rparr>"

definition sq_add_stream :: "bool \<Rightarrow> 's SyncQueueFrame AVContainerFifo option \<Rightarrow> 's SyncQueue \<Rightarrow> bool \<Rightarrow> int \<times> 's SyncQueue" where
  "sq_add_stream realloc_ok fifo sq lmt =
     (if \<not> realloc_ok then (AVERROR ENOMEM, sq)
      else
        case fifo of
          None \<Rightarrow> (AVERROR ENOMEM, sq)
        | Some fifo \<Rightarrow>
            (int (length (streams sq)),
             sq\<lparr>streams := streams sq @ [new_stream fifo lmt], have_limiting := have_limiting sq \<or> lmt\<rparr>))"

definition sq_limit_frames :: "'s SyncQueue \<Rightarrow> nat \<Rightarrow> int \<Rightarrow> 's SyncQueue option" where
  "sq_limit_frames sq stream_idx frames =
     (if \<not> stream_idx < length (streams sq) then None
      else
        let sq = upd_stream stream_idx (\<lambda>st. st\<lparr>frames_max := frames\<rparr>) sq;
            st = streams sq ! stream_idx
        in Some (if frames_sent st \<ge> frames_max st then finish_stream sq stream_idx else sq))"

text \<open>\<open>max_align\<close> is the result of \<^verbatim>\<open>av_cpu_max_align\<close>.\<close>

definition sq_frame_samples :: "int \<Rightarrow> 's SyncQueue \<Rightarrow> nat \<Rightarrow> int \<Rightarrow> 's SyncQueue option" where
  "sq_frame_samples max_align sq stream_idx nb =
     (if sq_type sq \<noteq> SYNC_QUEUE_FRAMES \<or> \<not> stream_idx < length (streams sq) then None
      else Some (upd_stream stream_idx (\<lambda>st. st\<lparr>st_frame_samples := nb\<rparr>) (sq\<lparr>align_mask := max_align - 1\<rparr>)))"

definition sq_alloc :: "bool \<Rightarrow> SyncQueueType \<Rightarrow> int \<Rightarrow> 's SyncQueue option" where
  "sq_alloc heap ty buf_size =
     (if \<not> heap then None
      else Some \<lparr>sq_type = ty, sq_finished = False, head_stream = - 1, head_finished_stream = - 1, buf_size_us = buf_size,
                 streams = [], have_limiting = False, align_mask = 0\<rparr>)"

end
