(* ===== verification/AV_SyncQueueInv.thy ===== *)
theory AV_SyncQueueInv
  imports AV_SyncQueue
begin

text \<open>
  The invariant of the sync queue and its preservation by every operation: the head stream is the limiting stream that lags
  furthest behind, the finished streams are those at or ahead of the first stream to end, and the counters and timestamps of
  every stream agree with the frames in its FIFO.
\<close>

section \<open>Positions\<close>

text \<open>The bounds under which comparisons are exact: ticks of at most nine years, positions within 68 years.\<close>

definition tick_ok :: "AVRational \<Rightarrow> bool" where
  "tick_ok tb \<longleftrightarrow> timebase tb \<and> qval tb \<le> 2 ^ 28"

definition near_origin :: "int \<Rightarrow> AVRational \<Rightarrow> bool" where
  "near_origin ts tb \<longleftrightarrow> ts \<noteq> AV_NOPTS_VALUE \<and> \<bar>seconds ts tb\<bar> \<le> 2 ^ 31"

definition pos :: "'s SyncQueueStream \<Rightarrow> rat" where
  "pos st = seconds (head_ts st) (st_tb st)"

abbreviation has_ts :: "'s SyncQueueStream \<Rightarrow> bool" where
  "has_ts st \<equiv> head_ts st \<noteq> AV_NOPTS_VALUE"

lemma tick_okD [dest]: "tick_ok tb \<Longrightarrow> timebase tb"
  by (simp add: tick_ok_def)

lemma compare_ts_iff:
  assumes "tick_ok tb_a" "tick_ok tb_b" "near_origin a tb_a" "near_origin b tb_b"
  shows "av_compare_ts a tb_a b tb_b < 0 \<longleftrightarrow> seconds a tb_a < seconds b tb_b"
    "av_compare_ts a tb_a b tb_b \<le> 0 \<longleftrightarrow> seconds a tb_a \<le> seconds b tb_b"
proof -
  have "comparable a tb_a b tb_b" using assms by (intro comparable_if_near) (auto simp: near_origin_def)
  then show "av_compare_ts a tb_a b tb_b < 0 \<longleftrightarrow> seconds a tb_a < seconds b tb_b"
    "av_compare_ts a tb_a b tb_b \<le> 0 \<longleftrightarrow> seconds a tb_a \<le> seconds b tb_b"
    by (simp_all add: av_compare_ts_cmp not_less)
qed

lemma seconds_mono: "timebase tb \<Longrightarrow> a \<le> b \<Longrightarrow> seconds a tb \<le> seconds b tb"
  using timebase_pos [of tb] by (simp add: seconds_def mult_right_mono)

section \<open>The invariant\<close>

text \<open>The length of a number of samples in seconds.\<close>

definition samples_time :: "int \<Rightarrow> 's SyncQueueFrame \<Rightarrow> rat" where
  "samples_time n fr = of_int n / of_int (fr_sample_rate fr)"

text \<open>
  A frame the queue works with exactly: its time base is no coarser than the bound; a frame with samples has a timestamp, and it
  and twice its length stay within 17 years; any other frame ends within them or has no timestamp.
\<close>

definition frame_fine :: "SyncQueueType \<Rightarrow> 's SyncQueueFrame \<Rightarrow> bool" where
  "frame_fine ty fr \<longleftrightarrow> tick_ok (fr_time_base fr) \<and> 0 \<le> frame_samples ty fr \<and>
     (if frame_samples ty fr \<noteq> 0
      then frame_samples ty fr \<le> INT_MAX \<and> length (fr_samples fr) = nat (fr_nb_samples fr) \<and> 0 < fr_sample_rate fr \<and> fr_sample_rate fr \<le> INT_MAX \<and>
        0 < av_get_bytes_per_sample (fr_format fr) \<and>
        - (2 ^ 29) \<le> seconds (fr_pts fr) (fr_time_base fr) \<and>
        seconds (fr_pts fr) (fr_time_base fr) + 2 * samples_time (fr_nb_samples fr) fr \<le> 2 ^ 29
      else frame_end fr 0 = AV_NOPTS_VALUE \<or> \<bar>seconds (frame_end fr 0) (fr_time_base fr)\<bar> \<le> 2 ^ 29)"

text \<open>A frame in the FIFO of a stream: its time base is the stream's and its duration that of its samples.\<close>

definition frame_held :: "SyncQueueType \<Rightarrow> 's SyncQueueStream \<Rightarrow> 's SyncQueueFrame \<Rightarrow> bool" where
  "frame_held ty st fr \<longleftrightarrow> frame_fine ty fr \<and> fr_time_base fr = st_tb st \<and>
     (frame_samples ty fr \<noteq> 0 \<longrightarrow> set_duration (fr_nb_samples fr) fr = fr) \<and>
     (st_frame_samples st \<noteq> 0 \<longrightarrow> frame_samples ty fr \<noteq> 0) \<and>
     (st_frame_samples st = 0 \<longrightarrow> frame_end fr 0 \<noteq> AV_NOPTS_VALUE \<longrightarrow> has_ts st \<and> frame_end fr 0 \<le> head_ts st)"

abbreviation held :: "'s SyncQueueStream \<Rightarrow> 's SyncQueueFrame list" where
  "held st \<equiv> cf_contents (st_fifo st)"

text \<open>The two halves of the invariant of a stream: its timestamps, and its frames with their counters.\<close>

definition time_inv :: "'s SyncQueueStream \<Rightarrow> bool" where
  "time_inv st \<longleftrightarrow> tick_ok (st_tb st) \<and> (has_ts st \<longrightarrow> near_origin (head_ts st) (st_tb st))"

definition data_inv :: "SyncQueueType \<Rightarrow> 's SyncQueueStream \<Rightarrow> bool" where
  "data_inv ty st \<longleftrightarrow> cf_inv (\<lambda>c. c = blank_frame) (st_fifo st) \<and> (\<forall>fr \<in> set (held st). frame_held ty st fr) \<and>
     samples_queued st = sum_list (map (frame_samples ty) (held st)) \<and> length (held st) \<le> 2 ^ 32 \<and>
     0 \<le> st_frame_samples st \<and> st_frame_samples st \<le> 2 ^ 28 \<and> (ty = SYNC_QUEUE_PACKETS \<longrightarrow> st_frame_samples st = 0)"

text \<open>
  The head: it is set once every limiting stream has a timestamp, and then it is a limiting stream with the smallest one.
\<close>

definition head_inv :: "'s SyncQueue \<Rightarrow> bool" where
  "head_inv sq \<longleftrightarrow>
     (if head_stream sq < 0 then (\<exists>st \<in> set (streams sq). limiting st) \<longrightarrow> (\<exists>st \<in> set (streams sq). limiting st \<and> \<not> has_ts st)
      else \<exists>h < length (streams sq). head_stream sq = int h \<and> limiting (streams sq ! h) \<and>
        (\<forall>st \<in> set (streams sq). limiting st \<longrightarrow> has_ts st \<and> pos (streams sq ! h) \<le> pos st))"

text \<open>
  The finished head, with stream \<open>x\<close> exempted: a finished limiting stream whose timestamp is the smallest among the
  finished limiting streams; every stream at or ahead of it is finished.
\<close>

definition finished_inv :: "nat option \<Rightarrow> 's SyncQueue \<Rightarrow> bool" where
  "finished_inv x sq \<longleftrightarrow>
     (head_finished_stream sq \<ge> 0 \<longrightarrow>
        (\<exists>f < length (streams sq). head_finished_stream sq = int f \<and> st_finished (streams sq ! f) \<and>
           limiting (streams sq ! f) \<and> has_ts (streams sq ! f) \<and>
           (\<forall>i < length (streams sq). x \<noteq> Some i \<longrightarrow> has_ts (streams sq ! i) \<longrightarrow> pos (streams sq ! f) \<le> pos (streams sq ! i) \<longrightarrow>
              st_finished (streams sq ! i)))) \<and>
     (\<forall>i < length (streams sq). x \<noteq> Some i \<longrightarrow> limiting (streams sq ! i) \<longrightarrow> st_finished (streams sq ! i) \<longrightarrow> has_ts (streams sq ! i) \<longrightarrow>
        head_finished_stream sq \<ge> 0 \<and> pos (streams sq ! nat (head_finished_stream sq)) \<le> pos (streams sq ! i))"

definition flags_inv :: "nat option \<Rightarrow> 's SyncQueue \<Rightarrow> bool" where
  "flags_inv x sq \<longleftrightarrow> finished_inv x sq \<and>
     (have_limiting sq \<longleftrightarrow> (\<exists>st \<in> set (streams sq). limiting st)) \<and>
     (sq_finished sq \<longleftrightarrow> streams sq \<noteq> [] \<and> list_all st_finished (streams sq)) \<and>
     ((\<exists>st \<in> set (streams sq). st_frame_samples st \<noteq> 0) \<longrightarrow> 0 < align_mask sq)"

definition control_inv :: "'s SyncQueue \<Rightarrow> bool" where
  "control_inv sq \<longleftrightarrow> (\<forall>st \<in> set (streams sq). time_inv st) \<and> head_inv sq \<and> flags_inv None sq"

definition queue_inv :: "'s SyncQueue \<Rightarrow> bool" where
  "queue_inv sq \<longleftrightarrow> control_inv sq \<and> (\<forall>st \<in> set (streams sq). data_inv (sq_type sq) st)"

section \<open>Finishing streams\<close>

text \<open>Two queues that differ in the finished marks only, the second having at least those of the first.\<close>

definition marks :: "'s SyncQueue \<Rightarrow> 's SyncQueue \<Rightarrow> bool" where
  "marks sq sq' \<longleftrightarrow> length (streams sq') = length (streams sq) \<and>
     (\<forall>i < length (streams sq). \<exists>b. streams sq' ! i = (streams sq ! i)\<lparr>st_finished := b\<rparr> \<and> (st_finished (streams sq ! i) \<longrightarrow> b)) \<and>
     sq_type sq' = sq_type sq \<and> head_stream sq' = head_stream sq \<and> buf_size_us sq' = buf_size_us sq \<and>
     have_limiting sq' = have_limiting sq \<and> align_mask sq' = align_mask sq"

lemma mark_same: "\<exists>b. st = st\<lparr>st_finished := b\<rparr> \<and> (st_finished st \<longrightarrow> b)"
  by (rule exI [of _ "st_finished st"]) simp

lemma mark_true: "\<exists>b. st\<lparr>st_finished := True\<rparr> = st\<lparr>st_finished := b\<rparr> \<and> (P \<longrightarrow> b)"
  by (rule exI [of _ True]) simp

lemma marks_refl: "marks sq sq"
  unfolding marks_def using mark_same by blast

lemma pos_finished [simp]: "pos (st\<lparr>st_finished := b\<rparr>) = pos st"
  by (simp add: pos_def)

lemma held_finished [simp]: "frame_held ty (st\<lparr>st_finished := b\<rparr>) fr = frame_held ty st fr"
  by (simp add: frame_held_def)

lemma inv_finished [simp]: "time_inv (st\<lparr>st_finished := b\<rparr>) = time_inv st" "data_inv ty (st\<lparr>st_finished := b\<rparr>) = data_inv ty st"
  by (simp_all add: time_inv_def data_inv_def)

lemma compare_heads_finished [simp]:
  "compare_heads (st\<lparr>st_finished := b\<rparr>) st1 = compare_heads st st1" "compare_heads st (st1\<lparr>st_finished := b\<rparr>) = compare_heads st st1"
  by (simp_all add: compare_heads_def)

lemma compare_heads_iff:
  assumes "time_inv st" "time_inv st1" "has_ts st" "has_ts st1"
  shows "compare_heads st st1 < 0 \<longleftrightarrow> pos st < pos st1" "compare_heads st st1 \<le> 0 \<longleftrightarrow> pos st \<le> pos st1"
  using assms compare_ts_iff [of "st_tb st" "st_tb st1" "head_ts st" "head_ts st1"] by (simp_all add: time_inv_def compare_heads_def pos_def)

lemma length_finish_ahead [simp]: "length (finish_ahead st f i sts) = length sts"
  by (induction st f i sts rule: finish_ahead.induct) simp_all

lemma finish_ahead_nth:
  "j < length sts \<Longrightarrow> finish_ahead st f i sts ! j =
    (if f \<noteq> i + j \<and> has_ts (sts ! j) \<and> compare_heads st (sts ! j) \<le> 0 then (sts ! j)\<lparr>st_finished := True\<rparr> else sts ! j)"
proof (induction st f i sts arbitrary: j rule: finish_ahead.induct)
  case (2 st f i st1 sts)
  then show ?case by (cases j) simp_all
qed simp

lemma streams_upd [simp]:
  "length (streams (upd_stream i g sq)) = length (streams sq)"
  "i < length (streams sq) \<Longrightarrow> streams (upd_stream i g sq) ! j = (if j = i then g (streams sq ! i) else streams sq ! j)"
  "sq_type (upd_stream i g sq) = sq_type sq" "sq_finished (upd_stream i g sq) = sq_finished sq"
  "head_stream (upd_stream i g sq) = head_stream sq" "head_finished_stream (upd_stream i g sq) = head_finished_stream sq"
  "have_limiting (upd_stream i g sq) = have_limiting sq" "align_mask (upd_stream i g sq) = align_mask sq"
  "buf_size_us (upd_stream i g sq) = buf_size_us sq"
  by (simp_all add: upd_stream_def)

text \<open>The finished head \<^verbatim>\<open>finish_stream\<close> chooses, and the streams it leaves.\<close>

lemma finish_stream_inv:
  assumes idx: "idx < length (streams sq)" and S: "\<forall>st \<in> set (streams sq). time_inv st" and F: "finished_inv (Some idx) sq"
  shows "marks sq (finish_stream sq idx)" "st_finished (streams (finish_stream sq idx) ! idx)" "finished_inv None (finish_stream sq idx)"
    "sq_finished (finish_stream sq idx) \<longleftrightarrow> sq_finished sq \<or> list_all st_finished (streams (finish_stream sq idx))"
proof -
  define n where "n = length (streams sq)"
  define sq1 where "sq1 = upd_stream idx (\<lambda>st. st\<lparr>st_finished := True\<rparr>) sq"
  define s where "s = (!) (streams sq1)"
  have s: "s i = (if i = idx then (streams sq ! i)\<lparr>st_finished := True\<rparr> else streams sq ! i)" for i using idx by (simp add: s_def sq1_def)
  have len: "length (streams sq1) = n" by (simp add: sq1_def n_def)
  have S1: "time_inv (s i)" if "i < n" for i using S that by (simp add: s n_def)
  have cmp: "compare_heads (s i) (s j) < 0 \<longleftrightarrow> pos (s i) < pos (s j)" "compare_heads (s i) (s j) \<le> 0 \<longleftrightarrow> pos (s i) \<le> pos (s j)"
    if "i < n" "j < n" "has_ts (s i)" "has_ts (s j)" for i j using compare_heads_iff that S1 by blast+
  have F1: "f < n \<and> head_finished_stream sq1 = int f \<and> st_finished (s f) \<and> limiting (s f) \<and> has_ts (s f) \<and>
      (\<forall>i < n. has_ts (s i) \<longrightarrow> pos (s f) \<le> pos (s i) \<longrightarrow> st_finished (s i))" if "f = nat (head_finished_stream sq1)" "head_finished_stream sq1 \<ge> 0" for f
  proof -
    have h: "head_finished_stream sq1 = head_finished_stream sq" by (simp add: sq1_def)
    note h0 = that
    obtain g where g: "g < n" "head_finished_stream sq = int g" "st_finished (streams sq ! g)" "limiting (streams sq ! g)" "has_ts (streams sq ! g)"
      "\<forall>i < n. idx \<noteq> i \<longrightarrow> has_ts (streams sq ! i) \<longrightarrow> pos (streams sq ! g) \<le> pos (streams sq ! i) \<longrightarrow> st_finished (streams sq ! i)"
      using F h0(2) unfolding finished_inv_def h n_def by auto
    have "f = g" using that(1) g(2) by (simp add: h)
    then show ?thesis using g by (auto simp: s h)
  qed
  have F2: "head_finished_stream sq1 \<ge> 0 \<and> pos (s (nat (head_finished_stream sq1))) \<le> pos (s i)"
    if "i < n" "i \<noteq> idx" "limiting (s i)" "st_finished (s i)" "has_ts (s i)" for i
  proof -
    have h: "head_finished_stream sq1 = head_finished_stream sq" by (simp add: sq1_def)
    have r: "head_finished_stream sq \<ge> 0" "pos (streams sq ! nat (head_finished_stream sq)) \<le> pos (streams sq ! i)"
      using F that unfolding finished_inv_def n_def s by auto
    then show ?thesis using that by (auto simp: s h)
  qed
  have "\<exists>sq2. finish_stream sq idx = (if list_all st_finished (streams sq2) then sq2\<lparr>sq_finished := True\<rparr> else sq2) \<and>
      marks sq sq2 \<and> sq_finished sq2 = sq_finished sq \<and> st_finished (streams sq2 ! idx) \<and> finished_inv None sq2"
  proof (cases "limiting (s idx) \<and> has_ts (s idx)")
    case False
    have m: "marks sq sq1" using idx mark_same mark_true unfolding marks_def by (auto simp: sq1_def)
    have "finished_inv None sq1"
      unfolding finished_inv_def len s_def [symmetric]
    proof (rule conjI; intro allI impI)
      assume h: "head_finished_stream sq1 \<ge> 0"
      show "\<exists>f < n. head_finished_stream sq1 = int f \<and> st_finished (s f) \<and> limiting (s f) \<and> has_ts (s f) \<and>
          (\<forall>i < n. None \<noteq> Some i \<longrightarrow> has_ts (s i) \<longrightarrow> pos (s f) \<le> pos (s i) \<longrightarrow> st_finished (s i))"
        using F1 [OF refl h] by (intro exI [of _ "nat (head_finished_stream sq1)"]) simp
    next
      fix i assume "i < n" "limiting (s i)" "st_finished (s i)" "has_ts (s i)"
      then show "head_finished_stream sq1 \<ge> 0 \<and> pos (s (nat (head_finished_stream sq1))) \<le> pos (s i)"
        using F2 [of i] False by (cases "i = idx") simp_all
    qed
    moreover have "finish_stream sq idx = (if list_all st_finished (streams sq1) then sq1\<lparr>sq_finished := True\<rparr> else sq1)"
      unfolding finish_stream_def Let_def sq1_def [symmetric] s_def [symmetric] if_not_P [OF False] by (rule refl)
    ultimately show ?thesis using m idx by (intro exI [of _ sq1]) (simp add: sq1_def)
  next
    case True
    define f where "f = (if head_finished_stream sq1 < 0 \<or> compare_heads (s idx) (s (nat (head_finished_stream sq1))) < 0 then idx
      else nat (head_finished_stream sq1))"
    define sq2 where "sq2 = sq1\<lparr>head_finished_stream := int f, streams := finish_ahead (s f) f 0 (streams sq1)\<rparr>"
    have f: "f < n" "st_finished (s f)" "limiting (s f)" "has_ts (s f)" "pos (s f) \<le> pos (s idx)"
      "head_finished_stream sq1 \<ge> 0 \<longrightarrow> pos (s f) \<le> pos (s (nat (head_finished_stream sq1)))"
      using F1 [OF refl] True idx cmp(1) [of idx "nat (head_finished_stream sq1)"] by (auto simp: f_def s n_def not_less)
    have s2: "streams sq2 ! i = (if f \<noteq> i \<and> has_ts (s i) \<and> pos (s f) \<le> pos (s i) then (s i)\<lparr>st_finished := True\<rparr> else s i)" if "i < n" for i
      using that f cmp(2) [of f i] by (auto simp: sq2_def finish_ahead_nth len s_def [symmetric])
    have l2: "length (streams sq2) = n" by (simp add: sq2_def len)
    have "marks sq sq2"
      unfolding marks_def l2 n_def [symmetric] using idx mark_same mark_true by (auto simp: s2 s) (simp_all add: sq2_def sq1_def)
    moreover have "finished_inv None sq2"
      unfolding finished_inv_def l2
    proof (rule conjI; intro allI impI)
      have "head_finished_stream sq2 = int f" by (simp add: sq2_def)
      then show "\<exists>f < n. head_finished_stream sq2 = int f \<and> st_finished (streams sq2 ! f) \<and> limiting (streams sq2 ! f) \<and>
          has_ts (streams sq2 ! f) \<and> (\<forall>i < n. None \<noteq> Some i \<longrightarrow> has_ts (streams sq2 ! i) \<longrightarrow> pos (streams sq2 ! f) \<le> pos (streams sq2 ! i) \<longrightarrow>
             st_finished (streams sq2 ! i))"
        using f by (intro exI [of _ f]) (auto simp: s2)
    next
      fix i assume "i < n" "limiting (streams sq2 ! i)" "st_finished (streams sq2 ! i)" "has_ts (streams sq2 ! i)"
      then have i: "i < n" "limiting (s i)" "has_ts (s i)" "st_finished (s i) \<or> pos (s f) \<le> pos (s i)" by (auto simp: s2 split: if_splits)
      have "pos (s f) \<le> pos (s i)"
      proof (cases "st_finished (s i) \<and> i \<noteq> idx")
        case True
        then show ?thesis using F2 [of i] i f(6) by force
      qed (use i f(5) in auto)
      moreover have "head_finished_stream sq2 = int f" by (simp add: sq2_def)
      ultimately show "head_finished_stream sq2 \<ge> 0 \<and> pos (streams sq2 ! nat (head_finished_stream sq2)) \<le> pos (streams sq2 ! i)"
        using f(1) i(1) by (simp add: s2)
    qed
    moreover have "finish_stream sq idx = (if list_all st_finished (streams sq2) then sq2\<lparr>sq_finished := True\<rparr> else sq2)"
    proof (cases "head_finished_stream sq1 < 0 \<or> compare_heads (s idx) (s (nat (head_finished_stream sq1))) < 0")
      case c: True
      show ?thesis
        unfolding finish_stream_def Let_def sq1_def [symmetric] s_def [symmetric] if_P [OF True] if_P [OF c] sq2_def f_def by (simp add: s_def)
    next
      case c: False
      have "sq1\<lparr>head_finished_stream := head_finished_stream sq1\<rparr> = sq1" by simp
      then have "sq2 = sq1\<lparr>streams := finish_ahead (s f) f 0 (streams sq1)\<rparr>" using c by (simp add: sq2_def f_def)
      then show ?thesis
        unfolding finish_stream_def Let_def sq1_def [symmetric] s_def [symmetric] if_P [OF True] if_not_P [OF c] f_def by simp
    qed
    moreover have "st_finished (streams sq2 ! idx)" using idx s2 [of idx] by (simp add: n_def s)
    ultimately show ?thesis by (intro exI [of _ sq2]) (simp add: sq2_def sq1_def)
  qed
  then obtain sq2 where r: "finish_stream sq idx = (if list_all st_finished (streams sq2) then sq2\<lparr>sq_finished := True\<rparr> else sq2)"
    "marks sq sq2" "sq_finished sq2 = sq_finished sq" "st_finished (streams sq2 ! idx)" "finished_inv None sq2" by blast
  then show "marks sq (finish_stream sq idx)" by (auto simp: marks_def)
  show "st_finished (streams (finish_stream sq idx) ! idx)" "finished_inv None (finish_stream sq idx)" using r by (auto simp: finished_inv_def)
  show "sq_finished (finish_stream sq idx) \<longleftrightarrow> sq_finished sq \<or> list_all st_finished (streams (finish_stream sq idx))" using r by auto
qed

lemma marks_nth:
  assumes "marks sq sq'" "i < length (streams sq)"
  shows "time_inv (streams sq' ! i) = time_inv (streams sq ! i)" "data_inv ty (streams sq' ! i) = data_inv ty (streams sq ! i)" "pos (streams sq' ! i) = pos (streams sq ! i)"
    "has_ts (streams sq' ! i) = has_ts (streams sq ! i)" "limiting (streams sq' ! i) = limiting (streams sq ! i)"
    "held (streams sq' ! i) = held (streams sq ! i)" "st_frame_samples (streams sq' ! i) = st_frame_samples (streams sq ! i)"
    "samples_queued (streams sq' ! i) = samples_queued (streams sq ! i)" "st_tb (streams sq' ! i) = st_tb (streams sq ! i)"
    "head_ts (streams sq' ! i) = head_ts (streams sq ! i)" "st_fifo (streams sq' ! i) = st_fifo (streams sq ! i)"
    "frames_sent (streams sq' ! i) = frames_sent (streams sq ! i)" "frames_max (streams sq' ! i) = frames_max (streams sq ! i)"
    "samples_sent (streams sq' ! i) = samples_sent (streams sq ! i)"
proof -
  obtain b where "streams sq' ! i = (streams sq ! i)\<lparr>st_finished := b\<rparr>" using assms by (auto simp: marks_def)
  then show "time_inv (streams sq' ! i) = time_inv (streams sq ! i)" "data_inv ty (streams sq' ! i) = data_inv ty (streams sq ! i)" "pos (streams sq' ! i) = pos (streams sq ! i)"
    "has_ts (streams sq' ! i) = has_ts (streams sq ! i)" "limiting (streams sq' ! i) = limiting (streams sq ! i)"
    "held (streams sq' ! i) = held (streams sq ! i)" "st_frame_samples (streams sq' ! i) = st_frame_samples (streams sq ! i)"
    "samples_queued (streams sq' ! i) = samples_queued (streams sq ! i)" "st_tb (streams sq' ! i) = st_tb (streams sq ! i)"
    "head_ts (streams sq' ! i) = head_ts (streams sq ! i)" "st_fifo (streams sq' ! i) = st_fifo (streams sq ! i)"
    "frames_sent (streams sq' ! i) = frames_sent (streams sq ! i)" "frames_max (streams sq' ! i) = frames_max (streams sq ! i)"
    "samples_sent (streams sq' ! i) = samples_sent (streams sq ! i)"
    by simp_all
qed

lemma marks_fields:
  "marks sq sq' \<Longrightarrow> sq_type sq' = sq_type sq" "marks sq sq' \<Longrightarrow> head_stream sq' = head_stream sq"
  "marks sq sq' \<Longrightarrow> buf_size_us sq' = buf_size_us sq" "marks sq sq' \<Longrightarrow> have_limiting sq' = have_limiting sq"
  "marks sq sq' \<Longrightarrow> align_mask sq' = align_mask sq"
  by (simp_all add: marks_def)

lemma marks_mono: "marks sq sq' \<Longrightarrow> i < length (streams sq) \<Longrightarrow> st_finished (streams sq ! i) \<Longrightarrow> st_finished (streams sq' ! i)"
  unfolding marks_def by fastforce

lemma marks_length: "marks sq sq' \<Longrightarrow> length (streams sq') = length (streams sq)"
  by (simp add: marks_def)

text \<open>The parts of the invariant a change of marks leaves alone, in terms of indices.\<close>

lemma head_inv_nth: "head_inv sq \<longleftrightarrow>
     (if head_stream sq < 0
      then (\<exists>i < length (streams sq). limiting (streams sq ! i)) \<longrightarrow> (\<exists>i < length (streams sq). limiting (streams sq ! i) \<and> \<not> has_ts (streams sq ! i))
      else \<exists>h < length (streams sq). head_stream sq = int h \<and> limiting (streams sq ! h) \<and>
        (\<forall>i < length (streams sq). limiting (streams sq ! i) \<longrightarrow> has_ts (streams sq ! i) \<and> pos (streams sq ! h) \<le> pos (streams sq ! i)))"
  unfolding head_inv_def by (simp add: all_set_conv_all_nth Bex_def in_set_conv_nth) metis

lemma all_streams_nth: "(\<forall>st \<in> set (streams sq). P st) \<longleftrightarrow> (\<forall>i < length (streams sq). P (streams sq ! i))"
  by (rule all_set_conv_all_nth)

lemma ex_streams_nth: "(\<exists>st \<in> set (streams sq). P st) \<longleftrightarrow> (\<exists>i < length (streams sq). P (streams sq ! i))"
  by (metis in_set_conv_nth)

lemma marks_inv:
  assumes "marks sq sq'"
  shows "(\<forall>st \<in> set (streams sq'). time_inv st) = (\<forall>st \<in> set (streams sq). time_inv st)" "head_inv sq' = head_inv sq"
    "(\<exists>st \<in> set (streams sq'). limiting st) = (\<exists>st \<in> set (streams sq). limiting st)"
    "(\<exists>st \<in> set (streams sq'). st_frame_samples st \<noteq> 0) = (\<exists>st \<in> set (streams sq). st_frame_samples st \<noteq> 0)"
proof -
  note m = marks_nth [OF assms] marks_length [OF assms]
  show "(\<forall>st \<in> set (streams sq'). time_inv st) = (\<forall>st \<in> set (streams sq). time_inv st)"
    "(\<exists>st \<in> set (streams sq'). limiting st) = (\<exists>st \<in> set (streams sq). limiting st)"
    "(\<exists>st \<in> set (streams sq'). st_frame_samples st \<noteq> 0) = (\<exists>st \<in> set (streams sq). st_frame_samples st \<noteq> 0)"
    unfolding all_streams_nth ex_streams_nth using m by auto
  have "head_stream sq' = head_stream sq" using assms by (simp add: marks_def)
  then show "head_inv sq' = head_inv sq" unfolding head_inv_nth m(15) by (simp only: m(3-5) cong: conj_cong imp_cong)
qed

section \<open>The head\<close>

lemma first_limiting_return: "first_limiting sts i first = None \<longleftrightarrow> (\<exists>st \<in> set sts. limiting st \<and> \<not> has_ts st)"
  by (induction sts i first rule: first_limiting.induct) auto

lemma first_limiting_some: "first_limiting sts i (Some k) = Some r \<Longrightarrow> r = Some k"
  by (induction sts arbitrary: i) (auto split: if_splits)

lemma first_limiting_found:
  "first_limiting sts i None = Some r \<Longrightarrow>
   (case r of None \<Rightarrow> \<forall>st \<in> set sts. \<not> limiting st | Some k \<Rightarrow> i \<le> k \<and> k < i + length sts \<and> limiting (sts ! (k - i)))"
proof (induction sts arbitrary: i)
  case (Cons st sts)
  show ?case
  proof (cases "limiting st")
    case False
    then have "first_limiting sts (i + 1) None = Some r" using Cons.prems by simp
    from Cons.IH [OF this] False show ?thesis by (auto split: option.splits simp: nth_Cons' Suc_le_eq)
  next
    case True
    then show ?thesis using Cons.prems by (auto split: if_splits dest: first_limiting_some)
  qed
qed simp

text \<open>The loop over the streams ends with the one whose head is smallest, starting from any limiting stream.\<close>

lemma head_loop_spec:
  assumes S: "\<forall>st \<in> set all. time_inv st" and ts: "\<forall>st \<in> set all. limiting st \<longrightarrow> has_ts st"
  shows "all = before @ sts \<Longrightarrow> i = length before \<Longrightarrow> h < length all \<Longrightarrow> limiting (all ! h) \<Longrightarrow>
    (\<forall>st \<in> set before. limiting st \<longrightarrow> pos (all ! h) \<le> pos st) \<Longrightarrow>
    head_loop all i sts h < length all \<and> limiting (all ! head_loop all i sts h) \<and>
    (\<forall>st \<in> set all. limiting st \<longrightarrow> pos (all ! head_loop all i sts h) \<le> pos st)"
proof (induction sts arbitrary: before i h)
  case (Cons st sts)
  define h' where "h' = (if limiting st \<and> has_ts st \<and> compare_heads st (all ! h) < 0 then i else h)"
  have st: "all ! i = st" "i < length all" using Cons.prems by (simp_all add: nth_append)
  have mem: "st \<in> set all" "all ! h \<in> set all" using Cons.prems(1) nth_mem [OF Cons.prems(3)] by simp_all
  have c: "compare_heads st (all ! h) < 0 \<longleftrightarrow> pos st < pos (all ! h)" if "limiting st"
    using that mem S ts Cons.prems(4) by (intro compare_heads_iff(1)) auto
  have "h' < length all" "limiting (all ! h')" "\<forall>s \<in> set (before @ [st]). limiting s \<longrightarrow> pos (all ! h') \<le> pos s"
    using Cons.prems st c ts mem by (auto simp: h'_def intro: order_trans)
  moreover have "all = (before @ [st]) @ sts" "i + 1 = length (before @ [st])" using Cons.prems(1,2) by simp_all
  moreover have eq: "head_loop all i (st # sts) h = head_loop all (i + 1) sts h'" by (simp only: head_loop.simps h'_def)
  ultimately have "head_loop all (i + 1) sts h' < length all \<and> limiting (all ! head_loop all (i + 1) sts h') \<and>
    (\<forall>st \<in> set all. limiting st \<longrightarrow> pos (all ! head_loop all (i + 1) sts h') \<le> pos st)" by (intro Cons.IH) blast+
  then show ?case unfolding eq .
qed simp

lemma queue_head_update_inv:
  assumes S: "\<forall>st \<in> set (streams sq). time_inv st" and lim: "have_limiting sq" "\<exists>st \<in> set (streams sq). limiting st"
    and old: "head_stream sq \<ge> 0 \<Longrightarrow> \<exists>h < length (streams sq). head_stream sq = int h \<and> limiting (streams sq ! h) \<and>
      (\<forall>st \<in> set (streams sq). limiting st \<longrightarrow> has_ts st)"
  shows "\<exists>h. queue_head_update sq = Some (sq\<lparr>head_stream := h\<rparr>) \<and> head_inv (sq\<lparr>head_stream := h\<rparr>)"
proof (cases "head_stream sq < 0 \<and> (\<exists>st \<in> set (streams sq). limiting st \<and> \<not> has_ts st)")
  case True
  then have "queue_head_update sq = Some (sq\<lparr>head_stream := head_stream sq\<rparr>)"
    using lim(1) first_limiting_return [of "streams sq" 0 None] by (simp add: queue_head_update_def)
  then show ?thesis using True by (intro exI [of _ "head_stream sq"]) (simp add: head_inv_def)
next
  case False
  then have ts: "\<forall>st \<in> set (streams sq). limiting st \<longrightarrow> has_ts st" using old by (cases "head_stream sq < 0") auto
  obtain h where h: "h < length (streams sq)" "limiting (streams sq ! h)"
    "queue_head_update sq = Some (sq\<lparr>head_stream := int (head_loop (streams sq) 0 (streams sq) h)\<rparr>)"
  proof (cases "head_stream sq < 0")
    case True
    then obtain r where r: "first_limiting (streams sq) 0 None = Some r"
      using False first_limiting_return [of "streams sq" 0 None] by (cases "first_limiting (streams sq) 0 None") auto
    then obtain k where k: "r = Some k" "k < length (streams sq)" "limiting (streams sq ! k)"
      using first_limiting_found [OF r] lim(2) by (auto split: option.splits)
    then show thesis using that [of k] r lim(1) True by (simp add: queue_head_update_def)
  next
    case False
    then show thesis using that old lim(1) by (auto simp: queue_head_update_def)
  qed
  from head_loop_spec [OF S ts, of "[]" "streams sq" 0 h] h(1,2)
  have "head_inv (sq\<lparr>head_stream := int (head_loop (streams sq) 0 (streams sq) h)\<rparr>)"
    using ts by (auto simp: head_inv_def)
  then show ?thesis using h(3) by blast
qed

section \<open>New timestamps\<close>

lemma time_inv_head:
  assumes "time_inv st" "near_origin ts (st_tb st)" "has_ts st \<Longrightarrow> head_ts st \<le> ts"
  shows "time_inv (st\<lparr>head_ts := ts\<rparr>)" "has_ts st \<Longrightarrow> pos st \<le> pos (st\<lparr>head_ts := ts\<rparr>)" "has_ts (st\<lparr>head_ts := ts\<rparr>)"
proof -
  have ts: "ts \<noteq> AV_NOPTS_VALUE" using assms(2) by (simp add: near_origin_def)
  show "time_inv (st\<lparr>head_ts := ts\<rparr>)" using assms(1,2) by (auto simp: time_inv_def)
  show "pos st \<le> pos (st\<lparr>head_ts := ts\<rparr>)" if "has_ts st"
    using that assms(1,3) by (simp add: pos_def seconds_mono time_inv_def tick_okD)
  show "has_ts (st\<lparr>head_ts := ts\<rparr>)" using ts by simp
qed

text \<open>
  What a new timestamp of a stream changes: the heads and marks only. The other streams keep their heads.
\<close>

definition heads :: "nat set \<Rightarrow> 's SyncQueue \<Rightarrow> 's SyncQueue \<Rightarrow> bool" where
  "heads X sq sq' \<longleftrightarrow> length (streams sq') = length (streams sq) \<and>
     (\<forall>i < length (streams sq). \<exists>b t. streams sq' ! i = (streams sq ! i)\<lparr>st_finished := b, head_ts := t\<rparr> \<and>
        (st_finished (streams sq ! i) \<longrightarrow> b) \<and> (i \<notin> X \<longrightarrow> t = head_ts (streams sq ! i)) \<and>
        (has_ts (streams sq ! i) \<longrightarrow> t \<noteq> AV_NOPTS_VALUE \<and> head_ts (streams sq ! i) \<le> t)) \<and>
     sq_type sq' = sq_type sq \<and> buf_size_us sq' = buf_size_us sq \<and> have_limiting sq' = have_limiting sq \<and> align_mask sq' = align_mask sq"

lemma all_finished_nth: "streams sq \<noteq> [] \<and> list_all st_finished (streams sq) \<longleftrightarrow>
    0 < length (streams sq) \<and> (\<forall>i < length (streams sq). st_finished (streams sq ! i))"
  by (auto simp: list_all_length)

lemma finish_stream_flags:
  assumes idx: "idx < length (streams sq)" and S: "\<forall>st \<in> set (streams sq). time_inv st" and F: "flags_inv (Some idx) sq"
  shows "marks sq (finish_stream sq idx)" "flags_inv None (finish_stream sq idx)" "st_finished (streams (finish_stream sq idx) ! idx)"
proof -
  have F': "finished_inv (Some idx) sq" using F by (simp add: flags_inv_def)
  note f = finish_stream_inv [OF idx S F']
  show "marks sq (finish_stream sq idx)" "st_finished (streams (finish_stream sq idx) ! idx)" by (rule f)+
  have "sq_finished (finish_stream sq idx) \<longleftrightarrow> streams (finish_stream sq idx) \<noteq> [] \<and> list_all st_finished (streams (finish_stream sq idx))"
  proof -
    have "streams (finish_stream sq idx) \<noteq> []" using idx marks_length [OF f(1)] by auto
    moreover have "list_all st_finished (streams (finish_stream sq idx))" if "list_all st_finished (streams sq)"
      using that marks_mono [OF f(1)] marks_length [OF f(1)] by (simp add: list_all_length)
    ultimately show ?thesis using F f(4) unfolding flags_inv_def by blast
  qed
  then show "flags_inv None (finish_stream sq idx)"
    using F f(1,3) marks_inv [OF f(1)] marks_fields [OF f(1)] unfolding flags_inv_def by simp
qed

lemma finished_inv_None: "finished_inv None sq \<Longrightarrow> finished_inv x sq"
  by (simp add: finished_inv_def) blast

lemma flags_inv_None: "flags_inv None sq \<Longrightarrow> flags_inv x sq"
  unfolding flags_inv_def using finished_inv_None by blast

lemma flags_inv_head_stream [simp]: "flags_inv x (sq\<lparr>head_stream := h\<rparr>) = flags_inv x sq"
  by (simp add: flags_inv_def finished_inv_def)

lemma heads_refl: "heads X sq sq"
proof -
  have "\<exists>b t. st = st\<lparr>st_finished := b, head_ts := t\<rparr> \<and> (st_finished st \<longrightarrow> b) \<and> (i \<notin> X \<longrightarrow> t = head_ts st) \<and>
      (has_ts st \<longrightarrow> t \<noteq> AV_NOPTS_VALUE \<and> head_ts st \<le> t)" for i and st :: "'a SyncQueueStream"
    by (intro exI [of _ "st_finished st"] exI [of _ "head_ts st"]) simp
  then show ?thesis unfolding heads_def by blast
qed

lemma marks_heads:
  assumes "heads X sq sq1" "marks sq1 sq2"
  shows "heads X sq sq2"
proof -
  have "\<exists>b t. streams sq2 ! i = (streams sq ! i)\<lparr>st_finished := b, head_ts := t\<rparr> \<and>
        (st_finished (streams sq ! i) \<longrightarrow> b) \<and> (i \<notin> X \<longrightarrow> t = head_ts (streams sq ! i)) \<and>
        (has_ts (streams sq ! i) \<longrightarrow> t \<noteq> AV_NOPTS_VALUE \<and> head_ts (streams sq ! i) \<le> t)" if i: "i < length (streams sq)" for i
  proof -
    obtain b t where "streams sq1 ! i = (streams sq ! i)\<lparr>st_finished := b, head_ts := t\<rparr>" "st_finished (streams sq ! i) \<longrightarrow> b"
      "i \<notin> X \<longrightarrow> t = head_ts (streams sq ! i)" "has_ts (streams sq ! i) \<longrightarrow> t \<noteq> AV_NOPTS_VALUE \<and> head_ts (streams sq ! i) \<le> t"
      using assms(1) i unfolding heads_def by blast
    moreover obtain c where "streams sq2 ! i = (streams sq1 ! i)\<lparr>st_finished := c\<rparr>" "st_finished (streams sq1 ! i) \<longrightarrow> c"
      using assms i unfolding heads_def marks_def by auto
    ultimately show ?thesis by (intro exI [of _ c] exI [of _ t]) simp
  qed
  then show ?thesis using assms unfolding heads_def marks_def by simp
qed

lemma stream_update_ts_inv:
  assumes idx: "idx < length (streams sq)" and inv: "control_inv sq" and unf: "\<not> st_finished (streams sq ! idx)"
    and ts: "ts \<noteq> AV_NOPTS_VALUE \<Longrightarrow> near_origin ts (st_tb (streams sq ! idx))"
  shows "\<exists>sq'. stream_update_ts sq idx ts = Some sq' \<and> heads {idx} sq sq' \<and> control_inv sq' \<and>
    (ts \<noteq> AV_NOPTS_VALUE \<longrightarrow> has_ts (streams sq' ! idx) \<and> ts \<le> head_ts (streams sq' ! idx))"
proof (cases "ts = AV_NOPTS_VALUE \<or> (has_ts (streams sq ! idx) \<and> head_ts (streams sq ! idx) \<ge> ts)")
  case True
  then have "stream_update_ts sq idx ts = Some sq" by (simp add: stream_update_ts_def)
  then show ?thesis using inv heads_refl True by auto
next
  case False
  define n where "n = length (streams sq)"
  define s where "s = (!) (streams sq)"
  define sq1 where "sq1 = upd_stream idx (\<lambda>st. st\<lparr>head_ts := ts\<rparr>) sq"
  have s1: "streams sq1 ! i = (if i = idx then (s i)\<lparr>head_ts := ts\<rparr> else s i)" for i using idx by (simp add: sq1_def s_def)
  have n1: "length (streams sq1) = n" by (simp add: sq1_def n_def)
  have S: "time_inv (s i)" if "i < n" for i using inv that by (simp add: control_inv_def all_streams_nth n_def s_def)
  have new: "time_inv ((s idx)\<lparr>head_ts := ts\<rparr>)" "has_ts (s idx) \<Longrightarrow> pos (s idx) \<le> pos ((s idx)\<lparr>head_ts := ts\<rparr>)"
    using time_inv_head [OF S [of idx], of ts] ts False idx by (auto simp: n_def s_def)
  have fin: "flags_inv None sq" "head_inv sq" using inv by (simp_all add: control_inv_def)
  have f: "nat (head_finished_stream sq) < n \<and> nat (head_finished_stream sq) \<noteq> idx" if "head_finished_stream sq \<ge> 0"
    using fin(1) that unf by (auto simp: flags_inv_def finished_inv_def n_def)
  have fld: "head_stream sq1 = head_stream sq" "head_finished_stream sq1 = head_finished_stream sq" "sq_type sq1 = sq_type sq" "sq_finished sq1 = sq_finished sq"
    "have_limiting sq1 = have_limiting sq" "align_mask sq1 = align_mask sq" "buf_size_us sq1 = buf_size_us sq" by (simp_all add: sq1_def)
  have S1: "\<forall>st \<in> set (streams sq1). time_inv st"
    unfolding all_streams_nth n1 fld using S new(1) by (simp add: s1)
  have F1: "flags_inv (Some idx) sq1"
  proof -
    have "finished_inv None sq" using fin(1) by (simp add: flags_inv_def)
    then have "finished_inv (Some idx) sq1"
      using f unfolding finished_inv_def n1 fld n_def [symmetric] s_def [symmetric] by (auto simp: s1)
    moreover have "(\<exists>st \<in> set (streams sq1). limiting st) = (\<exists>st \<in> set (streams sq). limiting st)"
      "(\<exists>st \<in> set (streams sq1). st_frame_samples st \<noteq> 0) = (\<exists>st \<in> set (streams sq). st_frame_samples st \<noteq> 0)"
      unfolding ex_streams_nth n1 n_def [symmetric] by (auto simp: s1 s_def split: if_splits)
    moreover have "streams sq1 \<noteq> [] \<and> list_all st_finished (streams sq1) \<longleftrightarrow> streams sq \<noteq> [] \<and> list_all st_finished (streams sq)"
      unfolding all_finished_nth n1 n_def [symmetric] by (auto simp: s1 s_def split: if_splits)
    ultimately show ?thesis using fin(1) unfolding flags_inv_def fld by blast
  qed
  define sq2 where "sq2 = (if head_finished_stream sq1 \<ge> 0 \<and> compare_heads (streams sq1 ! nat (head_finished_stream sq1)) (streams sq1 ! idx) \<le> 0
      then finish_stream sq1 idx else sq1)"
  have idx1: "idx < length (streams sq1)" using idx by (simp add: sq1_def)
  have sq2: "marks sq1 sq2" "flags_inv None sq2"
  proof -
    have "flags_inv None sq1" if no: "\<not> (head_finished_stream sq1 \<ge> 0 \<and> compare_heads (streams sq1 ! nat (head_finished_stream sq1)) (streams sq1 ! idx) \<le> 0)"
    proof -
      have ahead: "\<not> pos (streams sq1 ! nat (head_finished_stream sq1)) \<le> pos (streams sq1 ! idx)" if h: "head_finished_stream sq1 \<ge> 0"
      proof -
        have "has_ts (streams sq1 ! nat (head_finished_stream sq1))" using F1 h by (auto simp: flags_inv_def finished_inv_def)
        moreover have "time_inv (streams sq1 ! nat (head_finished_stream sq1))" "time_inv (streams sq1 ! idx)"
          using S1 f h idx1 unfolding all_streams_nth by (simp_all add: n1 fld)
        moreover have "has_ts (streams sq1 ! idx)" using False by (simp add: s1)
        ultimately show ?thesis using no h compare_heads_iff(2) by blast
      qed
      have "finished_inv (Some idx) sq1" "\<not> st_finished (streams sq1 ! idx)" using F1 unf by (simp_all add: flags_inv_def s1 s_def)
      then have "finished_inv None sq1" using ahead unfolding finished_inv_def by fastforce
      then show ?thesis using F1 by (simp add: flags_inv_def)
    qed
    then show "marks sq1 sq2" "flags_inv None sq2"
      using marks_refl finish_stream_flags [OF idx1 S1 F1] by (auto simp: sq2_def)
  qed
  have H1: "heads {idx} sq sq1"
  proof -
    have "\<exists>b t. streams sq1 ! i = (streams sq ! i)\<lparr>st_finished := b, head_ts := t\<rparr> \<and> (st_finished (streams sq ! i) \<longrightarrow> b) \<and>
        (i \<noteq> idx \<longrightarrow> t = head_ts (streams sq ! i)) \<and> (has_ts (streams sq ! i) \<longrightarrow> t \<noteq> AV_NOPTS_VALUE \<and> head_ts (streams sq ! i) \<le> t)" for i
      using False by (intro exI [of _ "st_finished (streams sq ! i)"] exI [of _ "head_ts (streams sq1 ! i)"]) (auto simp: s1 s_def)
    then show ?thesis unfolding heads_def by (simp add: sq1_def)
  qed
  note m = marks_nth [OF sq2(1)] marks_length [OF sq2(1)] marks_fields [OF sq2(1)]
  have S2: "\<forall>st \<in> set (streams sq2). time_inv st" using S1 marks_inv(1) [OF sq2(1)] m by simp
  have lim: "\<exists>st \<in> set (streams sq2). limiting st \<Longrightarrow> have_limiting sq2" using sq2(2) by (simp add: flags_inv_def)
  have e: "limiting (s i) = limiting (streams sq2 ! i)" "has_ts (streams sq2 ! i) = (i = idx \<or> has_ts (s i))"
     "i \<noteq> idx \<Longrightarrow> pos (streams sq2 ! i) = pos (s i)" "pos (streams sq2 ! idx) = pos ((s idx)\<lparr>head_ts := ts\<rparr>)" if "i < n" for i
    using that idx False by (auto simp: m n1 s1 n_def)
  have n2: "length (streams sq2) = n" by (simp add: m n1)
  have "\<exists>h. (if limiting (s idx) \<and> (head_stream sq2 < 0 \<or> head_stream sq2 = int idx) then queue_head_update sq2 else Some sq2) =
      Some (sq2\<lparr>head_stream := h\<rparr>) \<and> head_inv (sq2\<lparr>head_stream := h\<rparr>)"
  proof (cases "limiting (s idx) \<and> (head_stream sq2 < 0 \<or> head_stream sq2 = int idx)")
    case True
    have ex: "\<exists>st \<in> set (streams sq2). limiting st" unfolding ex_streams_nth n2 using True idx e(1) by (auto simp: n_def)
    have "\<exists>h < length (streams sq2). head_stream sq2 = int h \<and> limiting (streams sq2 ! h) \<and> (\<forall>st \<in> set (streams sq2). limiting st \<longrightarrow> has_ts st)"
      if "head_stream sq2 \<ge> 0"
    proof -
      have "head_stream sq = int idx" "head_stream sq \<ge> 0" using True that by (simp_all add: m fld)
      then show ?thesis using fin(2) idx e(1,2) unfolding head_inv_nth all_streams_nth n2 by (auto simp: m fld n_def s_def)
    qed
    then show ?thesis using queue_head_update_inv [OF S2 lim [OF ex] ex] True by simp
  next
    case no: False
    have "head_inv sq2"
    proof (cases "head_stream sq < 0")
      case True
      then have "\<not> limiting (s idx)" using no by (simp add: m fld)
      then show ?thesis using True fin(2) e unfolding head_inv_nth n2 n_def [symmetric] s_def [symmetric] by (auto simp: m fld)
    next
      case False
      then obtain h where h: "h < n" "head_stream sq = int h" "limiting (s h)" "\<forall>i < n. limiting (s i) \<longrightarrow> has_ts (s i) \<and> pos (s h) \<le> pos (s i)"
        using fin(2) unfolding head_inv_nth by (auto simp: n_def s_def)
      have "h \<noteq> idx" using no h by (auto simp: m fld)
      moreover have "pos (s h) \<le> pos ((s idx)\<lparr>head_ts := ts\<rparr>)" if "limiting (s idx)"
        using that h(4) new(2) idx order_trans by (auto simp: n_def)
      ultimately have "has_ts (streams sq2 ! i) \<and> pos (streams sq2 ! h) \<le> pos (streams sq2 ! i)" if "i < n" "limiting (streams sq2 ! i)" for i
        using that h e by (cases "i = idx") auto
      then show ?thesis using h e False unfolding head_inv_nth n2 by (auto simp: m fld)
    qed
    then show ?thesis using no by (intro exI [of _ "head_stream sq2"]) auto
  qed
  then obtain h where h: "(if limiting (s idx) \<and> (head_stream sq2 < 0 \<or> head_stream sq2 = int idx) then queue_head_update sq2 else Some sq2) =
      Some (sq2\<lparr>head_stream := h\<rparr>)" "head_inv (sq2\<lparr>head_stream := h\<rparr>)" by blast
  have "stream_update_ts sq idx ts = Some (sq2\<lparr>head_stream := h\<rparr>)"
    using False h(1) unfolding stream_update_ts_def Let_def sq1_def [symmetric] s_def [symmetric] sq2_def [symmetric] by auto
  moreover have "control_inv (sq2\<lparr>head_stream := h\<rparr>)" using S2 h(2) sq2(2) by (simp add: control_inv_def)
  moreover have "heads {idx} sq (sq2\<lparr>head_stream := h\<rparr>)" using marks_heads [OF H1 sq2(1)] by (simp add: heads_def)
  moreover have "head_ts (streams sq2 ! idx) = ts" using idx by (simp add: m n1 n_def s1)
  ultimately show ?thesis using False by (intro exI [of _ "sq2\<lparr>head_stream := h\<rparr>"]) simp
qed

lemma headsD:
  assumes "heads X sq sq'" "i < length (streams sq)"
  obtains b t where "streams sq' ! i = (streams sq ! i)\<lparr>st_finished := b, head_ts := t\<rparr>" "st_finished (streams sq ! i) \<longrightarrow> b"
    "i \<notin> X \<longrightarrow> t = head_ts (streams sq ! i)" "has_ts (streams sq ! i) \<longrightarrow> t \<noteq> AV_NOPTS_VALUE \<and> head_ts (streams sq ! i) \<le> t"
  using assms unfolding heads_def by blast

lemma heads_fields:
  "heads X sq sq' \<Longrightarrow> length (streams sq') = length (streams sq)" "heads X sq sq' \<Longrightarrow> sq_type sq' = sq_type sq"
  "heads X sq sq' \<Longrightarrow> buf_size_us sq' = buf_size_us sq" "heads X sq sq' \<Longrightarrow> have_limiting sq' = have_limiting sq"
  "heads X sq sq' \<Longrightarrow> align_mask sq' = align_mask sq"
  by (simp_all add: heads_def)

lemma heads_nth:
  assumes "heads X sq sq'" "i < length (streams sq)"
  shows "st_tb (streams sq' ! i) = st_tb (streams sq ! i)" "st_fifo (streams sq' ! i) = st_fifo (streams sq ! i)"
    "limiting (streams sq' ! i) = limiting (streams sq ! i)" "frames_sent (streams sq' ! i) = frames_sent (streams sq ! i)"
    "frames_max (streams sq' ! i) = frames_max (streams sq ! i)" "samples_sent (streams sq' ! i) = samples_sent (streams sq ! i)"
    "samples_queued (streams sq' ! i) = samples_queued (streams sq ! i)" "st_frame_samples (streams sq' ! i) = st_frame_samples (streams sq ! i)"
    "i \<notin> X \<Longrightarrow> head_ts (streams sq' ! i) = head_ts (streams sq ! i)"
    "has_ts (streams sq ! i) \<Longrightarrow> has_ts (streams sq' ! i)" "has_ts (streams sq ! i) \<Longrightarrow> head_ts (streams sq ! i) \<le> head_ts (streams sq' ! i)"
    "st_finished (streams sq ! i) \<Longrightarrow> st_finished (streams sq' ! i)" "data_inv ty (streams sq ! i) \<Longrightarrow> data_inv ty (streams sq' ! i)"
proof -
  obtain b t where h: "streams sq' ! i = (streams sq ! i)\<lparr>st_finished := b, head_ts := t\<rparr>" "st_finished (streams sq ! i) \<longrightarrow> b"
    "i \<notin> X \<longrightarrow> t = head_ts (streams sq ! i)" "has_ts (streams sq ! i) \<longrightarrow> t \<noteq> AV_NOPTS_VALUE \<and> head_ts (streams sq ! i) \<le> t"
    using assms by (rule headsD)
  have "frame_held ty ((streams sq ! i)\<lparr>st_finished := b, head_ts := t\<rparr>) fr" if "frame_held ty (streams sq ! i) fr" for fr
    using that h(4) by (auto simp: frame_held_def)
  then show "data_inv ty (streams sq ! i) \<Longrightarrow> data_inv ty (streams sq' ! i)" unfolding h(1) by (simp add: data_inv_def)
qed (use headsD [OF assms] in \<open>fastforce+\<close>)

lemma heads_trans: "heads X sq sq1 \<Longrightarrow> heads Y sq1 sq2 \<Longrightarrow> X \<subseteq> Z \<Longrightarrow> Y \<subseteq> Z \<Longrightarrow> heads Z sq sq2"
proof -
  assume h: "heads X sq sq1" "heads Y sq1 sq2" and sub: "X \<subseteq> Z" "Y \<subseteq> Z"
  have "\<exists>b t. streams sq2 ! i = (streams sq ! i)\<lparr>st_finished := b, head_ts := t\<rparr> \<and> (st_finished (streams sq ! i) \<longrightarrow> b) \<and>
        (i \<notin> Z \<longrightarrow> t = head_ts (streams sq ! i)) \<and> (has_ts (streams sq ! i) \<longrightarrow> t \<noteq> AV_NOPTS_VALUE \<and> head_ts (streams sq ! i) \<le> t)"
    if i: "i < length (streams sq)" for i
  proof -
    obtain b t where 1: "streams sq1 ! i = (streams sq ! i)\<lparr>st_finished := b, head_ts := t\<rparr>" "st_finished (streams sq ! i) \<longrightarrow> b"
      "i \<notin> X \<longrightarrow> t = head_ts (streams sq ! i)" "has_ts (streams sq ! i) \<longrightarrow> t \<noteq> AV_NOPTS_VALUE \<and> head_ts (streams sq ! i) \<le> t"
      using h(1) i by (rule headsD)
    have i1: "i < length (streams sq1)" using i heads_fields(1) [OF h(1)] by simp
    obtain b' t' where 2: "streams sq2 ! i = (streams sq1 ! i)\<lparr>st_finished := b', head_ts := t'\<rparr>" "st_finished (streams sq1 ! i) \<longrightarrow> b'"
      "i \<notin> Y \<longrightarrow> t' = head_ts (streams sq1 ! i)" "has_ts (streams sq1 ! i) \<longrightarrow> t' \<noteq> AV_NOPTS_VALUE \<and> head_ts (streams sq1 ! i) \<le> t'"
      using h(2) i1 by (rule headsD)
    show ?thesis using 1 2 sub by (intro exI [of _ b'] exI [of _ t']) auto
  qed
  then show "heads Z sq sq2" using heads_fields [OF h(1)] heads_fields [OF h(2)] unfolding heads_def by simp
qed

section \<open>Times of frames\<close>

lemma seconds_int_bound:
  assumes "timebase tb" "\<bar>seconds k tb\<bar> \<le> of_int B"
  shows "\<bar>k\<bar> \<le> B * INT_MAX"
proof -
  have "den tb * 1 \<le> INT_MAX * num tb" using assms(1) by (intro mult_mono) (simp_all add: timebase_def)
  then have "of_int (den tb) \<le> (of_int (INT_MAX * num tb) :: rat)" unfolding of_int_le_iff by simp
  then have q: "1 \<le> of_int INT_MAX * qval tb" using assms(1) by (simp add: timebase_def qval_def le_divide_eq)
  have "of_int \<bar>k\<bar> * 1 \<le> of_int \<bar>k\<bar> * (of_int INT_MAX * qval tb)" using q by (intro mult_left_mono) simp_all
  also have "\<dots> = \<bar>seconds k tb\<bar> * of_int INT_MAX" using timebase_pos [OF assms(1)] by (simp add: seconds_def abs_mult)
  also have "\<dots> \<le> of_int B * of_int INT_MAX" using assms(2) by (intro mult_right_mono) simp_all
  finally show ?thesis by (simp only: of_int_mult [symmetric] of_int_le_iff mult_1_right)
qed

lemma seconds_add: "seconds (a + b) tb = seconds a tb + seconds b tb"
  by (simp add: seconds_def algebra_simps)

lemma near_originI:
  assumes "timebase tb" "\<bar>seconds ts tb\<bar> \<le> 2 ^ 31"
  shows "near_origin ts tb" "\<bar>ts\<bar> \<le> 2 ^ 62"
proof -
  have "\<bar>ts\<bar> \<le> 2 ^ 31 * INT_MAX" using assms by (intro seconds_int_bound) simp_all
  then show "\<bar>ts\<bar> \<le> 2 ^ 62" by simp
  then show "near_origin ts tb" using assms(2) by (auto simp: near_origin_def)
qed

text \<open>Rescaling rounds by at most half a tick.\<close>

lemma rescale_near:
  assumes "timebase p" "timebase q" "\<bar>seconds ts p\<bar> \<le> 2 ^ 31" "qval q \<le> 2 ^ 28"
  shows "\<bar>seconds (av_rescale_q ts p q) q - seconds ts p\<bar> \<le> qval q / 2"
proof -
  have q: "0 < qval q" using assms(2) by simp
  have ts: "\<bar>ts\<bar> \<le> 2 ^ 62" using assms(1,3) by (rule near_originI)
  define r where "r = round_near (seconds ts p / qval q)"
  have r: "\<bar>of_int r - seconds ts p / qval q\<bar> \<le> 1 / 2" using round_near_bounds [of "seconds ts p / qval q"] unfolding r_def abs_le_iff by linarith
  have "seconds r q - seconds ts p = (of_int r - seconds ts p / qval q) * qval q" using q by (simp add: seconds_def algebra_simps)
  then have d: "\<bar>seconds r q - seconds ts p\<bar> \<le> qval q / 2" using r q by (simp add: abs_mult mult_right_mono [of _ "1 / 2" "qval q", simplified])
  then have "\<bar>seconds r q\<bar> \<le> of_int (2 ^ 31 + 2 ^ 27)" using assms(3,4) by (simp, linarith)
  then have "\<bar>r\<bar> \<le> INT64_MAX" using seconds_int_bound [OF assms(2), of r "2 ^ 31 + 2 ^ 27"] by simp
  then have "av_rescale_q ts p q = r"
    using ts unfolding av_rescale_q_def r_def by (subst av_rescale_q_rnd_round [OF assms(1,2)]) (simp_all add: representable_id)
  then show ?thesis using d by simp
qed

text \<open>The length of samples in ticks: it lies between zero and twice the exact length.\<close>

lemma samples_ticks:
  assumes "frame_fine ty fr" "frame_samples ty fr \<noteq> 0" "0 < n" "n \<le> INT_MAX" "samples_time n fr \<le> 2 ^ 29"
  defines "d \<equiv> av_rescale_q n (av_make_q 1 (fr_sample_rate fr)) (fr_time_base fr)"
  shows "0 \<le> d" "d \<le> 2 ^ 61" "0 \<le> seconds d (fr_time_base fr)" "seconds d (fr_time_base fr) \<le> 2 * samples_time n fr" "0 < samples_time n fr"
proof -
  let ?tb = "fr_time_base fr" and ?r = "av_make_q 1 (fr_sample_rate fr)"
  have sr: "timebase ?r" "timebase ?tb" using assms(1,2) by (auto simp: frame_fine_def timebase_def tick_ok_def)
  have q: "0 < qval ?tb" using sr(2) by simp
  have x: "seconds n ?r = samples_time n fr" by (simp add: seconds_def qval_def samples_time_def)
  have pos: "0 < samples_time n fr" using assms(1-3) by (auto simp: samples_time_def frame_fine_def)
  define r where "r = round_near (samples_time n fr / qval ?tb)"
  have r0: "0 \<le> samples_time n fr / qval ?tb" using pos q by simp
  have r: "0 \<le> r" "of_int r \<le> 2 * (samples_time n fr / qval ?tb)"
  proof -
    show "0 \<le> r" using r0 by (simp add: r_def round_near_nonneg)
    show "of_int r \<le> 2 * (samples_time n fr / qval ?tb)"
    proof (cases "samples_time n fr / qval ?tb < 1 / 2")
      case True
      then have "r = 0" unfolding r_def using r0 by (intro round_near_unique) simp
      then show ?thesis using r0 by simp
    next
      case False
      then show ?thesis using round_near_bounds(2) [of "samples_time n fr / qval ?tb"] unfolding r_def by linarith
    qed
  qed
  have s: "0 \<le> seconds r ?tb" "seconds r ?tb \<le> 2 * samples_time n fr"
    using r q by (simp_all add: seconds_def pos_le_divide_eq)
  then have "\<bar>seconds r ?tb\<bar> \<le> of_int (2 ^ 30)" using assms(5) by simp
  then have b: "\<bar>r\<bar> \<le> 2 ^ 61" using seconds_int_bound [OF sr(2), of r "2 ^ 30"] by simp
  have "d = r" unfolding d_def av_rescale_q_def r_def using b assms(3,4)
    by (subst av_rescale_q_rnd_round [OF sr]) (simp_all add: x representable_id flip: r_def)
  then show "0 \<le> d" "d \<le> 2 ^ 61" "0 \<le> seconds d ?tb" "seconds d ?tb \<le> 2 * samples_time n fr" "0 < samples_time n fr"
    using r s b pos by simp_all
qed

lemma samples_time_le: "frame_fine ty fr \<Longrightarrow> frame_samples ty fr \<noteq> 0 \<Longrightarrow> m \<le> n \<Longrightarrow> samples_time m fr \<le> samples_time n fr"
  by (simp add: samples_time_def frame_fine_def divide_right_mono)

lemma frame_fine_time:
  assumes "frame_fine ty fr" "frame_samples ty fr \<noteq> 0"
  shows "samples_time (fr_nb_samples fr) fr \<le> 2 ^ 29" "0 < fr_nb_samples fr" "fr_nb_samples fr \<le> INT_MAX" "\<bar>fr_pts fr\<bar> \<le> 2 ^ 60"
    "frame_samples ty fr = fr_nb_samples fr"
proof -
  show n: "frame_samples ty fr = fr_nb_samples fr" using assms(2) by (cases ty) (simp_all add: frame_samples_def)
  show p: "0 < fr_nb_samples fr" "fr_nb_samples fr \<le> INT_MAX" using assms by (auto simp: frame_fine_def n)
  have "0 \<le> samples_time (fr_nb_samples fr) fr" using assms p by (simp add: samples_time_def frame_fine_def)
  then show "samples_time (fr_nb_samples fr) fr \<le> 2 ^ 29" using assms by (simp add: frame_fine_def)
  have "\<bar>seconds (fr_pts fr) (fr_time_base fr)\<bar> \<le> of_int (2 ^ 29)"
    using assms \<open>0 \<le> samples_time (fr_nb_samples fr) fr\<close> by (simp add: frame_fine_def abs_le_iff)
  then show "\<bar>fr_pts fr\<bar> \<le> 2 ^ 60" using seconds_int_bound [of "fr_time_base fr" "fr_pts fr" "2 ^ 29"] assms
    by (auto simp: frame_fine_def tick_ok_def)
qed

lemma frame_end_time:
  assumes "frame_fine ty fr" "n \<noteq> 0 \<Longrightarrow> frame_samples ty fr \<noteq> 0 \<and> 0 < n \<and> n \<le> INT_MAX \<and> samples_time n fr \<le> 2 ^ 29"
    "n = 0 \<Longrightarrow> frame_samples ty fr \<noteq> 0 \<Longrightarrow> set_duration (fr_nb_samples fr) fr = fr"
  shows "frame_end fr n = AV_NOPTS_VALUE \<and> n = 0 \<and> frame_samples ty fr = 0 \<or> \<bar>seconds (frame_end fr n) (fr_time_base fr)\<bar> \<le> 2 ^ 30 + 2 ^ 29"
proof (cases "frame_samples ty fr = 0")
  case True
  then show ?thesis using assms by (cases "n = 0") (auto simp: frame_fine_def)
next
  case False
  define m where "m = (if n = 0 then fr_nb_samples fr else n)"
  note t = frame_fine_time [OF assms(1) False]
  have m: "0 < m" "m \<le> INT_MAX" "samples_time m fr \<le> 2 ^ 29" using t assms(2) by (auto simp: m_def)
  let ?d = "av_rescale_q m (av_make_q 1 (fr_sample_rate fr)) (fr_time_base fr)"
  note d = samples_ticks [OF assms(1) False m]
  have "fr_duration fr = ?d" if "n = 0" using assms(3) that False m_def unfolding set_duration_def
    by (metis SyncQueueFrame.select_convs(2) SyncQueueFrame.surjective SyncQueueFrame.update_convs(2))
  then have "frame_end fr n = s64 (fr_pts fr + ?d)" by (simp add: frame_end_def m_def)
  moreover have "in_s64 (fr_pts fr + ?d)" using t(4) d(1,2) by (simp add: in_s64_def abs_le_iff)
  ultimately have e: "frame_end fr n = fr_pts fr + ?d" by (simp add: s64_id)
  have "- (2 ^ 29) \<le> seconds (fr_pts fr) (fr_time_base fr)" "seconds (fr_pts fr) (fr_time_base fr) \<le> 2 ^ 29"
    using assms(1) False samples_ticks(5) [OF assms(1) False t(2,3,1)] by (auto simp: frame_fine_def)
  then show ?thesis using d(3,4) m(3) unfolding e seconds_add abs_le_iff by (intro disjI2 conjI) simp_all
qed

lemma held_end_time:
  assumes "frame_held ty st fr"
  shows "frame_end fr 0 = AV_NOPTS_VALUE \<or> \<bar>seconds (frame_end fr 0) (st_tb st)\<bar> \<le> 2 ^ 30 + 2 ^ 29"
  using frame_end_time [of ty fr 0] assms by (auto simp: frame_held_def)

section \<open>Overflow\<close>

lemma pick_ahead_spec:
  "all = before @ sts \<Longrightarrow> i = length before \<Longrightarrow> (idx < 0 \<or> idx < int (length before) \<and> has_ts (all ! nat idx)) \<Longrightarrow>
   (ts \<noteq> AV_NOPTS_VALUE \<longrightarrow> 0 \<le> idx) \<Longrightarrow>
   pick_ahead all i sts ts idx < 0 \<or> pick_ahead all i sts ts idx < int (length all) \<and> has_ts (all ! nat (pick_ahead all i sts ts idx))"
proof (induction sts arbitrary: before i ts idx)
  case (Cons st sts)
  show ?case
  proof (cases "has_ts st \<and> (ts = AV_NOPTS_VALUE \<or> av_compare_ts ts (st_tb (all ! nat idx)) (head_ts st) (st_tb st) < 0)")
    case True
    then show ?thesis using Cons.IH [of "before @ [st]" "i + 1" "int i" "head_ts st"] Cons.prems by (simp add: nth_append)
  next
    case False
    have "pick_ahead all i (st # sts) ts idx = pick_ahead all (i + 1) sts ts idx" using False by auto
    then show ?thesis using Cons.IH [of "before @ [st]" "i + 1" idx ts] Cons.prems by auto
  qed
qed auto

lemma tail_loop_spec:
  assumes "cf_inv clean cf"
  shows "tail_ts = AV_NOPTS_VALUE \<Longrightarrow> \<exists>r. tail_loop cf i tail_ts = Some r \<and>
    (r = AV_NOPTS_VALUE \<or> (\<exists>j < length (cf_contents cf). r = frame_end (cf_contents cf ! j) 0 \<and>
       (\<forall>k < j. i \<le> k \<longrightarrow> frame_end (cf_contents cf ! k) 0 = AV_NOPTS_VALUE)))"
proof (induction "length (cf_contents cf) - i" arbitrary: i tail_ts rule: less_induct)
  case less
  note peek = av_container_fifo_peek_eq [OF assms, of i]
  show ?case
  proof (cases "i < length (cf_contents cf)")
    case False
    then show ?thesis using less.prems peek AVERROR_neg [of EINVAL] by (simp del: AVERROR.simps tail_loop.simps add: tail_loop.simps [of cf i])
  next
    case True
    define e where "e = frame_end (cf_contents cf ! i) 0"
    have step: "tail_loop cf i tail_ts = tail_loop cf (i + 1) e"
      using True less.prems peek by (simp del: tail_loop.simps add: tail_loop.simps [of cf i] e_def)
    show ?thesis
    proof (cases "e = AV_NOPTS_VALUE")
      case True
      have lt: "length (cf_contents cf) - (i + 1) < length (cf_contents cf) - i" using \<open>i < length (cf_contents cf)\<close> by simp
      from less.hyps [OF lt True] obtain r where r: "tail_loop cf (i + 1) e = Some r"
        "r = AV_NOPTS_VALUE \<or> (\<exists>j < length (cf_contents cf). r = frame_end (cf_contents cf ! j) 0 \<and>
          (\<forall>k < j. i + 1 \<le> k \<longrightarrow> frame_end (cf_contents cf ! k) 0 = AV_NOPTS_VALUE))" by blast
      then show ?thesis using step True unfolding e_def by (metis Suc_eq_plus1 le_antisym not_less_eq_eq)
    next
      case False
      then have "tail_loop cf (i + 1) e = Some e" by (subst tail_loop.simps) simp
      then show ?thesis using step \<open>i < length (cf_contents cf)\<close> unfolding e_def by auto
    qed
  qed
qed

text \<open>
  A heartbeat moves no head backwards and leaves the overflowing stream alone; every other stream that is not finished is
  at most half a tick behind the new time afterwards.
\<close>

lemma heartbeat_loop_inv:
  assumes "control_inv sq" "idx < length (streams sq)" "\<forall>i \<in> set js. i < length (streams sq)"
    and ts: "\<bar>seconds tail_ts (st_tb (streams sq ! idx))\<bar> \<le> 2 ^ 30 + 2 ^ 29 + 2 ^ 28"
  shows "\<exists>sq'. heartbeat_loop idx tail_ts js sq = Some sq' \<and> control_inv sq' \<and> heads (- {idx}) sq sq' \<and>
    (\<forall>i \<in> set js. i \<noteq> idx \<longrightarrow> \<not> st_finished (streams sq' ! i) \<longrightarrow> has_ts (streams sq' ! i) \<and>
       seconds tail_ts (st_tb (streams sq ! idx)) - qval (st_tb (streams sq ! i)) / 2 \<le> pos (streams sq' ! i))"
  using assms
proof (induction js arbitrary: sq)
  case Nil
  then show ?case using heads_refl by fastforce
next
  case (Cons i js)
  define st where "st = streams sq ! idx"
  define st1 where "st1 = streams sq ! i"
  define T where "T = seconds tail_ts (st_tb st)"
  have i: "i < length (streams sq)" using Cons.prems(3) by simp
  have time: "time_inv st" "time_inv st1" using Cons.prems(1-3) by (simp_all add: control_inv_def all_streams_nth st_def st1_def)
  then have tb: "tick_ok (st_tb st)" "tick_ok (st_tb st1)" by (simp_all add: time_inv_def)
  then have tb': "timebase (st_tb st)" "timebase (st_tb st1)" "0 < qval (st_tb st1)" "qval (st_tb st1) \<le> 2 ^ 28" by (auto simp: tick_ok_def)
  have T: "\<bar>T\<bar> \<le> 2 ^ 30 + 2 ^ 29 + 2 ^ 28" using Cons.prems(4) by (simp add: T_def st_def)
  then have nT: "near_origin tail_ts (st_tb st)" using near_originI(1) [OF tb'(1)] by (simp add: T_def)
  have cmp: "av_compare_ts tail_ts (st_tb st) (head_ts st1) (st_tb st1) \<le> 0 \<longleftrightarrow> T \<le> pos st1" if "has_ts st1"
    unfolding T_def pos_def using that time(2) tb nT by (intro compare_ts_iff(2)) (simp_all add: time_inv_def)
  have "\<exists>sq1. heartbeat_loop idx tail_ts (i # js) sq = heartbeat_loop idx tail_ts js sq1 \<and> control_inv sq1 \<and> heads (- {idx}) sq sq1 \<and>
      (i \<noteq> idx \<longrightarrow> \<not> st_finished (streams sq1 ! i) \<longrightarrow> has_ts (streams sq1 ! i) \<and> T - qval (st_tb st1) / 2 \<le> pos (streams sq1 ! i))"
  proof (cases "idx = i \<or> st_finished st1 \<or> (has_ts st1 \<and> av_compare_ts tail_ts (st_tb st) (head_ts st1) (st_tb st1) \<le> 0)")
    case True
    then have "heartbeat_loop idx tail_ts (i # js) sq = heartbeat_loop idx tail_ts js sq" by (simp add: Let_def st_def st1_def)
    moreover have "i \<noteq> idx \<longrightarrow> \<not> st_finished st1 \<longrightarrow> has_ts st1 \<and> T - qval (st_tb st1) / 2 \<le> pos st1" using True cmp tb'(3) by force
    ultimately show ?thesis using Cons.prems(1) heads_refl unfolding st1_def by blast
  next
    case False
    define ts where "ts = av_rescale_q tail_ts (st_tb st) (st_tb st1)"
    define ts1 where "ts1 = (if has_ts st1 then max (s64 (head_ts st1 + 1)) ts else ts)"
    have r: "\<bar>seconds ts (st_tb st1) - T\<bar> \<le> qval (st_tb st1) / 2"
      unfolding ts_def T_def using tb' T by (intro rescale_near) (simp_all add: T_def)
    have up: "seconds ts1 (st_tb st1) \<le> T + qval (st_tb st1)" "ts \<le> ts1"
    proof -
      have h: "s64 (head_ts st1 + 1) = head_ts st1 + 1 \<and> seconds (head_ts st1 + 1) (st_tb st1) < T + qval (st_tb st1)" if "has_ts st1"
      proof -
        have "\<bar>head_ts st1\<bar> \<le> 2 ^ 62" using time(2) that near_originI(2) [OF tb'(2)] by (simp add: time_inv_def near_origin_def)
        then have "s64 (head_ts st1 + 1) = head_ts st1 + 1" by (intro s64_id) (simp add: in_s64_def abs_le_iff)
        moreover have "pos st1 < T" using False that cmp by auto
        ultimately show ?thesis by (simp add: seconds_def pos_def algebra_simps)
      qed
      moreover have "seconds ts (st_tb st1) \<le> T + qval (st_tb st1)" using r tb'(3) by linarith
      ultimately show "seconds ts1 (st_tb st1) \<le> T + qval (st_tb st1)" "ts \<le> ts1" by (auto simp: ts1_def max_def)
    qed
    have "seconds ts (st_tb st1) \<le> seconds ts1 (st_tb st1)" by (rule seconds_mono [OF tb'(2) up(2)])
    then have low: "T - qval (st_tb st1) / 2 \<le> seconds ts1 (st_tb st1)" using r unfolding abs_le_iff by linarith
    then have "\<bar>seconds ts1 (st_tb st1)\<bar> \<le> 2 ^ 31" using up(1) T tb'(3,4) unfolding abs_le_iff by simp
    then have near: "near_origin ts1 (st_tb st1)" by (rule near_originI(1) [OF tb'(2)])
    then have nz: "ts1 \<noteq> AV_NOPTS_VALUE" by (simp add: near_origin_def)
    have unf: "\<not> st_finished (streams sq ! i)" using False by (simp add: st1_def)
    obtain sq1 where sq1: "stream_update_ts sq i ts1 = Some sq1" "heads {i} sq sq1" "control_inv sq1" "has_ts (streams sq1 ! i)" "ts1 \<le> head_ts (streams sq1 ! i)"
      using stream_update_ts_inv [OF i Cons.prems(1) unf, of ts1] near nz by (auto simp: st1_def)
    have "heartbeat_loop idx tail_ts (i # js) sq = heartbeat_loop idx tail_ts js sq1"
      using sq1(1) unfolding heartbeat_loop.simps Let_def st_def [symmetric] st1_def [symmetric] ts_def [symmetric] ts1_def [symmetric] if_not_P [OF False]
      by simp
    moreover have "heads (- {idx}) sq sq1" using heads_trans [OF sq1(2) heads_refl [of "{}"]] False by auto
    moreover have "T - qval (st_tb st1) / 2 \<le> pos (streams sq1 ! i)"
      using low seconds_mono [OF tb'(2) sq1(5)] heads_nth(1) [OF sq1(2) i] by (simp add: pos_def st1_def)
    ultimately show ?thesis using sq1(3,4) by blast
  qed
  then obtain sq1 where sq1: "heartbeat_loop idx tail_ts (i # js) sq = heartbeat_loop idx tail_ts js sq1" "control_inv sq1" "heads (- {idx}) sq sq1"
      "i \<noteq> idx \<longrightarrow> \<not> st_finished (streams sq1 ! i) \<longrightarrow> has_ts (streams sq1 ! i) \<and> T - qval (st_tb st1) / 2 \<le> pos (streams sq1 ! i)" by blast
  have len: "length (streams sq1) = length (streams sq)" by (rule heads_fields(1) [OF sq1(3)])
  have tbs: "st_tb (streams sq1 ! j) = st_tb (streams sq ! j)" if "j < length (streams sq)" for j by (rule heads_nth(1) [OF sq1(3) that])
  obtain sq' where sq': "heartbeat_loop idx tail_ts js sq1 = Some sq'" "control_inv sq'" "heads (- {idx}) sq1 sq'"
    "\<forall>i \<in> set js. i \<noteq> idx \<longrightarrow> \<not> st_finished (streams sq' ! i) \<longrightarrow> has_ts (streams sq' ! i) \<and>
       seconds tail_ts (st_tb (streams sq1 ! idx)) - qval (st_tb (streams sq1 ! i)) / 2 \<le> pos (streams sq' ! i)"
    using Cons.IH [of sq1] sq1(2) Cons.prems(2-4) len tbs by auto
  have "has_ts (streams sq' ! i) \<and> T - qval (st_tb st1) / 2 \<le> pos (streams sq' ! i)" if "i \<noteq> idx" "\<not> st_finished (streams sq' ! i)"
  proof -
    have i1: "i < length (streams sq1)" using i len by simp
    note h = heads_nth [OF sq'(3) i1]
    have g: "has_ts (streams sq1 ! i)" "T - qval (st_tb st1) / 2 \<le> pos (streams sq1 ! i)" using that h(12) sq1(4) by blast+
    moreover have "pos (streams sq1 ! i) \<le> pos (streams sq' ! i)"
      using h(1) h(11) [OF g(1)] tbs [OF i] tb'(2) by (simp add: pos_def seconds_mono st1_def)
    ultimately show ?thesis using h(10) by auto
  qed
  moreover have "heads (- {idx}) sq sq'" by (rule heads_trans [OF sq1(3) sq'(3)]) simp_all
  ultimately show ?case using sq1(1) sq'(1,2,4) Cons.prems(2,3) tbs by (intro exI [of _ sq']) (auto simp: T_def st_def st1_def)
qed

lemma heads_queue_inv:
  assumes "heads X sq sq'" "control_inv sq'" "queue_inv sq"
  shows "queue_inv sq'"
proof -
  have "data_inv (sq_type sq') (streams sq' ! i)" if "i < length (streams sq')" for i
    using that assms(3) heads_fields [OF assms(1)] heads_nth(13) [OF assms(1), of i] by (simp add: queue_inv_def all_streams_nth)
  then show ?thesis using assms(2) by (simp add: queue_inv_def all_streams_nth)
qed

text \<open>
  What a triggered heartbeat does for the overflowing stream \<open>k\<close>: past the end \<open>tail\<close> of its oldest frame with a timestamp
  every other stream that is not finished has moved on, up to half its tick.
\<close>

definition caught_up :: "nat \<Rightarrow> 's SyncQueue \<Rightarrow> 's SyncQueue \<Rightarrow> bool" where
  "caught_up k sq sq' \<longleftrightarrow> (\<exists>j < length (held (streams sq ! k)). \<exists>tail. tail = frame_end (held (streams sq ! k) ! j) 0 \<and>
     (\<forall>l < j. frame_end (held (streams sq ! k) ! l) 0 = AV_NOPTS_VALUE) \<and> tail \<noteq> AV_NOPTS_VALUE \<and>
     head_ts (streams sq' ! k) = head_ts (streams sq ! k) \<and>
     (\<forall>i < length (streams sq). i \<noteq> k \<longrightarrow> \<not> st_finished (streams sq' ! i) \<longrightarrow> has_ts (streams sq' ! i) \<and>
        seconds (tail + 1) (st_tb (streams sq ! k)) - qval (st_tb (streams sq ! i)) / 2 \<le> pos (streams sq' ! i)))"

lemma overflow_heartbeat_inv:
  assumes inv: "queue_inv sq" and idx: "stream_idx < int (length (streams sq))"
  shows "\<exists>b sq'. overflow_heartbeat sq stream_idx = Some (b, sq') \<and> queue_inv sq' \<and> heads UNIV sq sq' \<and> (\<not> b \<longrightarrow> sq' = sq) \<and>
    (b \<longrightarrow> (\<exists>k < length (streams sq). (0 \<le> stream_idx \<longrightarrow> stream_idx = int k) \<and> caught_up k sq sq'))"
proof -
  define k where "k = (if stream_idx < 0 then pick_ahead (streams sq) 0 (streams sq) AV_NOPTS_VALUE stream_idx else stream_idx)"
  show ?thesis
  proof (cases "k < 0")
    case True
    then have "overflow_heartbeat sq stream_idx = Some (False, sq)" by (simp add: overflow_heartbeat_def Let_def k_def)
    then show ?thesis using inv heads_refl by blast
  next
    case False
    then have k: "nat k < length (streams sq)" "0 \<le> stream_idx \<longrightarrow> stream_idx = int (nat k)"
      using idx pick_ahead_spec [of "streams sq" "[]" "streams sq" 0 stream_idx AV_NOPTS_VALUE] by (auto simp: k_def split: if_splits)
    define st where "st = streams sq ! nat k"
    have st: "data_inv (sq_type sq) st" "time_inv st" using inv k(1) by (simp_all add: queue_inv_def control_inv_def all_streams_nth st_def)
    have cf: "cf_inv (\<lambda>c. c = blank_frame) (st_fifo st)" using st(1) by (simp add: data_inv_def)
    obtain r where r: "tail_loop (st_fifo st) 0 AV_NOPTS_VALUE = Some r"
      "r = AV_NOPTS_VALUE \<or> (\<exists>j < length (held st). r = frame_end (held st ! j) 0 \<and> (\<forall>l < j. frame_end (held st ! l) 0 = AV_NOPTS_VALUE))"
      using tail_loop_spec [OF cf refl, of 0] by auto
    have unroll: "overflow_heartbeat sq stream_idx =
       (if r = AV_NOPTS_VALUE \<or> r \<ge> head_ts st \<or> av_rescale_q (s64 (head_ts st - r)) (st_tb st) AV_TIME_BASE_Q < buf_size_us sq
        then Some (False, sq) else map_option (Pair True) (heartbeat_loop (nat k) (s64 (r + 1)) [0..<length (streams sq)] sq))"
      unfolding overflow_heartbeat_def Let_def k_def [symmetric] if_not_P [OF False] st_def [symmetric] r(1) by simp
    show ?thesis
    proof (cases "r = AV_NOPTS_VALUE \<or> r \<ge> head_ts st \<or> av_rescale_q (s64 (head_ts st - r)) (st_tb st) AV_TIME_BASE_Q < buf_size_us sq")
      case True
      then have "overflow_heartbeat sq stream_idx = Some (False, sq)" unfolding unroll by (rule if_P)
      then show ?thesis using inv heads_refl by blast
    next
      case no: False
      then obtain j where j: "j < length (held st)" "r = frame_end (held st ! j) 0" "\<forall>l < j. frame_end (held st ! l) 0 = AV_NOPTS_VALUE"
        using r(2) by blast
      have "frame_held (sq_type sq) st (held st ! j)" using st(1) j(1) by (simp add: data_inv_def)
      then have b: "\<bar>seconds r (st_tb st)\<bar> \<le> 2 ^ 30 + 2 ^ 29" using held_end_time no j(2) by blast
      have tb: "timebase (st_tb st)" "0 < qval (st_tb st)" "qval (st_tb st) \<le> 2 ^ 28" using st(2) by (auto simp: time_inv_def tick_ok_def)
      have "\<bar>r\<bar> \<le> 2 ^ 62" using b by (intro near_originI(2) [OF tb(1)]) simp
      then have w: "s64 (r + 1) = r + 1" by (intro s64_id) (simp add: in_s64_def abs_le_iff)
      have "seconds (r + 1) (st_tb st) = seconds r (st_tb st) + qval (st_tb st)" by (simp add: seconds_def algebra_simps)
      then have b1: "\<bar>seconds (r + 1) (st_tb st)\<bar> \<le> 2 ^ 30 + 2 ^ 29 + 2 ^ 28" using b tb(2,3) unfolding abs_le_iff by simp
      obtain sq' where sq': "heartbeat_loop (nat k) (r + 1) [0..<length (streams sq)] sq = Some sq'" "control_inv sq'" "heads (- {nat k}) sq sq'"
        "\<forall>i < length (streams sq). i \<noteq> nat k \<longrightarrow> \<not> st_finished (streams sq' ! i) \<longrightarrow> has_ts (streams sq' ! i) \<and>
           seconds (r + 1) (st_tb st) - qval (st_tb (streams sq ! i)) / 2 \<le> pos (streams sq' ! i)"
        using heartbeat_loop_inv [of sq "nat k" "[0..<length (streams sq)]" "r + 1"] inv k(1) b1 by (auto simp: queue_inv_def st_def)
      have "overflow_heartbeat sq stream_idx = Some (True, sq')" unfolding unroll if_not_P [OF no] w sq'(1) by simp
      moreover have "queue_inv sq'" by (rule heads_queue_inv [OF sq'(3,2) inv])
      moreover have "heads UNIV sq sq'" by (rule heads_trans [OF sq'(3) heads_refl]) simp_all
      moreover have "caught_up (nat k) sq sq'"
        unfolding caught_up_def st_def [symmetric]
      proof (intro exI [of _ j] conjI exI [of _ r])
        show "r \<noteq> AV_NOPTS_VALUE" using no by blast
        show "head_ts (streams sq' ! nat k) = head_ts st" using heads_nth(9) [OF sq'(3) k(1)] by (simp add: st_def)
      qed (fact j sq'(4))+
      ultimately show ?thesis using k by blast
    qed
  qed
qed

section \<open>Replacing a stream\<close>

text \<open>Changes of one stream that keep its position and marks keep the invariant of the queue.\<close>

lemma control_inv_replace:
  assumes inv: "control_inv sq" and idx: "idx < length (streams sq)" and new: "time_inv (g (streams sq ! idx))"
    and same: "has_ts (g (streams sq ! idx)) = has_ts (streams sq ! idx)"
      "has_ts (streams sq ! idx) \<Longrightarrow> pos (g (streams sq ! idx)) = pos (streams sq ! idx)"
      "limiting (g (streams sq ! idx)) = limiting (streams sq ! idx)" "st_finished (g (streams sq ! idx)) = st_finished (streams sq ! idx)"
      "st_frame_samples (g (streams sq ! idx)) \<noteq> 0 \<Longrightarrow> st_frame_samples (streams sq ! idx) \<noteq> 0 \<or> 0 < align_mask sq"
  shows "control_inv (upd_stream idx g sq)"
proof -
  define sq' where "sq' = upd_stream idx g sq"
  have n: "length (streams sq') = length (streams sq)" by (simp add: sq'_def)
  have f: "head_stream sq' = head_stream sq" "head_finished_stream sq' = head_finished_stream sq" "sq_finished sq' = sq_finished sq"
    "have_limiting sq' = have_limiting sq" "align_mask sq' = align_mask sq" by (simp_all add: sq'_def)
  have e: "limiting (streams sq' ! i) = limiting (streams sq ! i)" "has_ts (streams sq' ! i) = has_ts (streams sq ! i)"
    "has_ts (streams sq ! i) \<Longrightarrow> pos (streams sq' ! i) = pos (streams sq ! i)" "st_finished (streams sq' ! i) = st_finished (streams sq ! i)" for i
    using idx same(1-4) by (auto simp: sq'_def)
  have "\<forall>i < length (streams sq'). time_inv (streams sq' ! i)" using inv new idx by (simp add: sq'_def control_inv_def all_streams_nth)
  moreover have "head_inv sq'"
    using inv e(3) unfolding control_inv_def head_inv_nth n f e(1,2) by (auto split: if_splits)
  moreover have "finished_inv None sq'"
  proof -
    have F: "finished_inv None sq" using inv by (simp add: control_inv_def flags_inv_def)
    have h: "has_ts (streams sq ! nat (head_finished_stream sq))" if "head_finished_stream sq \<ge> 0" using F that by (auto simp: finished_inv_def)
    show ?thesis using F e(3) h unfolding finished_inv_def n f e(1,2,4) by (auto 0 3)
  qed
  moreover have "(\<exists>st \<in> set (streams sq'). st_frame_samples st \<noteq> 0) \<longrightarrow> 0 < align_mask sq"
    using inv same(5) idx unfolding control_inv_def flags_inv_def ex_streams_nth n by (auto simp: sq'_def split: if_splits)
  ultimately show ?thesis
    using inv unfolding sq'_def [symmetric] control_inv_def flags_inv_def all_streams_nth ex_streams_nth all_finished_nth f
    unfolding n e(1,4) by blast
qed

lemma finish_stream_queue_inv:
  assumes "queue_inv sq" "idx < length (streams sq)"
  shows "marks sq (finish_stream sq idx)" "queue_inv (finish_stream sq idx)" "st_finished (streams (finish_stream sq idx) ! idx)"
proof -
  have S: "\<forall>st \<in> set (streams sq). time_inv st" "head_inv sq" "flags_inv (Some idx) sq"
    using assms(1) flags_inv_None by (auto simp: queue_inv_def control_inv_def)
  note f = finish_stream_flags [OF assms(2) S(1,3)]
  show "marks sq (finish_stream sq idx)" "st_finished (streams (finish_stream sq idx) ! idx)" by (rule f)+
  have "control_inv (finish_stream sq idx)" using S f(2) marks_inv(1,2) [OF f(1)] by (simp add: control_inv_def)
  moreover have "data_inv (sq_type sq) (streams (finish_stream sq idx) ! i)" if "i < length (streams sq)" for i
    using assms(1) that marks_nth(2) [OF f(1) that] by (simp add: queue_inv_def all_streams_nth)
  ultimately show "queue_inv (finish_stream sq idx)"
    using marks_fields(1) [OF f(1)] marks_length [OF f(1)] by (simp add: queue_inv_def all_streams_nth)
qed

lemma queue_inv_nth:
  "queue_inv sq \<longleftrightarrow> control_inv sq \<and> (\<forall>i < length (streams sq). data_inv (sq_type sq) (streams sq ! i))"
  by (simp add: queue_inv_def all_streams_nth)

end
