(* ===== verification/AV_SyncQueueOps.thy ===== *)
theory AV_SyncQueueOps
  imports AV_SyncQueueInv
begin

text \<open>
  Sending to and receiving from the sync queue: the operations keep the invariant, the frames of a stream come out in the order
  in which they went in, and none comes out before every limiting stream has reached its end.
\<close>

section \<open>Sending\<close>

text \<open>The frame as the queue stores it.\<close>

definition normal :: "SyncQueueType \<Rightarrow> 's SyncQueueFrame \<Rightarrow> 's SyncQueueFrame" where
  "normal ty fr = (if frame_samples ty fr \<noteq> 0 then set_duration (frame_samples ty fr) fr else fr)"

text \<open>
  The frames a client may send: exact ones, in the time base of the stream. Before the first frame the stream may
  change its time base if its position, which a heartbeat may have given it, is exact in the new one.
\<close>

definition frame_ok :: "SyncQueueType \<Rightarrow> 's SyncQueueStream \<Rightarrow> 's SyncQueueFrame \<Rightarrow> bool" where
  "frame_ok ty st fr \<longleftrightarrow> frame_fine ty fr \<and> (st_frame_samples st \<noteq> 0 \<longrightarrow> frame_samples ty fr \<noteq> 0) \<and> length (held st) < 2 ^ 32 \<and>
     (fr_time_base fr = st_tb st \<or>
      held st = [] \<and> (has_ts st \<longrightarrow> seconds (av_rescale_q (head_ts st) (st_tb st) (fr_time_base fr)) (fr_time_base fr) = pos st))"

lemma held_length: "cf_inv clean (st_fifo st) \<Longrightarrow> av_container_fifo_can_read (st_fifo st) = length (held st)"
  by (simp add: cf_contents_def av_container_fifo_can_read_def cf_inv_def)

lemma AVRational_eq: "num p = num q \<Longrightarrow> den p = den q \<Longrightarrow> p = (q :: AVRational)"
  by (cases p; cases q) simp

lemma tb_update_ok:
  assumes ok: "frame_ok ty st fr" and inv: "time_inv st" "data_inv ty st"
  shows "\<exists>st'. tb_update st fr = Some st' \<and> time_inv st' \<and> data_inv ty st' \<and> has_ts st' = has_ts st \<and> (has_ts st \<longrightarrow> pos st' = pos st) \<and>
    st_tb st' = fr_time_base fr \<and> st' = st\<lparr>head_ts := head_ts st', st_tb := st_tb st'\<rparr> \<and> (fr_time_base fr = st_tb st \<longrightarrow> st' = st)"
proof -
  let ?tb = "fr_time_base fr"
  have tb: "tick_ok ?tb" "timebase ?tb" "num ?tb > 0 \<and> den ?tb > 0" using ok by (auto simp: frame_ok_def frame_fine_def tick_ok_def timebase_def)
  show ?thesis
  proof (cases "?tb = st_tb st")
    case True
    then show ?thesis using inv tb by (intro exI [of _ st]) (simp add: tb_update_def)
  next
    case False
    then have e: "held st = []" and r: "has_ts st \<Longrightarrow> seconds (av_rescale_q (head_ts st) (st_tb st) ?tb) ?tb = pos st" using ok by (auto simp: frame_ok_def)
    have cf: "cf_inv (\<lambda>c. c = blank_frame) (st_fifo st)" using inv(2) by (simp add: data_inv_def)
    have c: "av_container_fifo_can_read (st_fifo st) = 0" using held_length [OF cf] e by simp
    have n: "\<not> (num ?tb = num (st_tb st) \<and> den ?tb = den (st_tb st))" using False AVRational_eq by blast
    define h where "h = (if has_ts st then av_rescale_q (head_ts st) (st_tb st) ?tb else head_ts st)"
    have near: "near_origin h ?tb" if "has_ts st"
      using that inv(1) r by (intro near_originI(1) [OF tb(2)]) (simp add: h_def time_inv_def near_origin_def pos_def)
    have h: "(h \<noteq> AV_NOPTS_VALUE) = has_ts st" using near by (auto simp: near_origin_def h_def)
    have "tb_update st fr = Some (st\<lparr>head_ts := h, st_tb := ?tb\<rparr>)" using tb(3) n c by (auto simp: tb_update_def Let_def h_def)
    moreover have "time_inv (st\<lparr>head_ts := h, st_tb := ?tb\<rparr>)" using tb(1) near h by (simp add: time_inv_def)
    moreover have "data_inv ty (st\<lparr>head_ts := h, st_tb := ?tb\<rparr>)" using inv(2) e by (simp add: data_inv_def)
    moreover have "has_ts st \<longrightarrow> pos (st\<lparr>head_ts := h, st_tb := ?tb\<rparr>) = pos st" using r by (simp add: pos_def h_def)
    ultimately show ?thesis using h False by (intro exI [of _ "st\<lparr>head_ts := h, st_tb := ?tb\<rparr>"]) simp
  qed
qed

lemma normal_fields [simp]:
  "fr_pts (normal ty fr) = fr_pts fr" "fr_time_base (normal ty fr) = fr_time_base fr" "frame_samples ty (normal ty fr) = frame_samples ty fr"
  "fr_nb_samples (normal ty fr) = fr_nb_samples fr" "fr_samples (normal ty fr) = fr_samples fr" "fr_sample_rate (normal ty fr) = fr_sample_rate fr"
  "fr_format (normal ty fr) = fr_format fr"
  by (simp_all add: normal_def set_duration_def frame_samples_def split: SyncQueueType.splits)

lemma frame_samples_nb: "frame_samples ty fr \<noteq> 0 \<Longrightarrow> frame_samples ty fr = fr_nb_samples fr"
  by (cases ty) (simp_all add: frame_samples_def)

lemma normal_fine: "frame_fine ty fr \<Longrightarrow> frame_fine ty (normal ty fr)"
  by (auto simp: frame_fine_def samples_time_def) (simp_all add: normal_def)

lemma normal_duration: "frame_samples ty fr \<noteq> 0 \<Longrightarrow> set_duration (fr_nb_samples fr) (normal ty fr) = normal ty fr"
  by (frule frame_samples_nb) (simp add: normal_def set_duration_def)

lemma sum_list_le: "(\<forall>x \<in> set xs. f x \<le> b) \<Longrightarrow> sum_list (map f xs) \<le> int (length xs) * b" for b :: int
  by (induction xs) (auto simp: algebra_simps)

lemma queued_bounds:
  assumes "data_inv ty st"
  shows "0 \<le> samples_queued st" "samples_queued st \<le> int (length (held st)) * INT_MAX"
proof -
  have f: "0 \<le> frame_samples ty fr \<and> frame_samples ty fr \<le> INT_MAX" if "fr \<in> set (held st)" for fr
    using assms that by (auto simp: data_inv_def frame_held_def frame_fine_def split: if_splits)
  have s: "samples_queued st = sum_list (map (frame_samples ty) (held st))" using assms by (simp add: data_inv_def)
  show "0 \<le> samples_queued st" unfolding s using f by (intro sum_list_nonneg) auto
  show "samples_queued st \<le> int (length (held st)) * INT_MAX" unfolding s using f by (intro sum_list_le) blast
qed

lemma upd_stream_twice: "idx < length (streams sq) \<Longrightarrow> upd_stream idx g (upd_stream idx f sq) = upd_stream idx (g \<circ> f) sq"
  by (simp add: upd_stream_def)

lemma count_sent_fields [simp]:
  "st_fifo (count_sent n st) = st_fifo st" "head_ts (count_sent n st) = head_ts st" "st_tb (count_sent n st) = st_tb st"
  "limiting (count_sent n st) = limiting st" "st_finished (count_sent n st) = st_finished st" "st_frame_samples (count_sent n st) = st_frame_samples st"
  "frames_max (count_sent n st) = frames_max st" "samples_queued (count_sent n st) = w64 (samples_queued st + n)"
  by (simp_all add: count_sent_def Let_def)

lemma time_inv_cong: "head_ts st' = head_ts st \<Longrightarrow> st_tb st' = st_tb st \<Longrightarrow> time_inv st' = time_inv st"
  by (simp add: time_inv_def)

lemma pos_cong: "head_ts st' = head_ts st \<Longrightarrow> st_tb st' = st_tb st \<Longrightarrow> pos st' = pos st"
  by (simp add: pos_def)

lemma control_inv_nth: "control_inv sq \<Longrightarrow> i < length (streams sq) \<Longrightarrow> time_inv (streams sq ! i)"
  by (simp add: control_inv_def all_streams_nth)

text \<open>Storing a frame and counting it, once its stream's head is at or after its end.\<close>

lemma data_inv_append:
  assumes inv: "data_inv ty st" and ok: "frame_ok ty st fr" "fr_time_base fr = st_tb st"
    and new: "cf_inv (\<lambda>c. c = blank_frame) (st_fifo st')" "held st' = held st @ [normal ty fr]" "st_tb st' = st_tb st"
      "st_frame_samples st' = st_frame_samples st" "samples_queued st' = w64 (samples_queued st + frame_samples ty fr)"
    and head: "has_ts st \<Longrightarrow> has_ts st' \<and> head_ts st \<le> head_ts st'"
      "frame_end (normal ty fr) 0 \<noteq> AV_NOPTS_VALUE \<Longrightarrow> has_ts st' \<and> frame_end (normal ty fr) 0 \<le> head_ts st'"
  shows "data_inv ty st'"
proof -
  have f: "frame_fine ty fr" "length (held st) < 2 ^ 32" using ok by (simp_all add: frame_ok_def)
  have old: "frame_held ty st' x" if "x \<in> set (held st)" for x
  proof -
    have "frame_held ty st x" using inv that by (simp add: data_inv_def)
    then show ?thesis using new(3,4) head(1) by (auto simp: frame_held_def)
  qed
  have "frame_held ty st' (normal ty fr)"
    using normal_fine [OF f(1)] normal_duration ok new(3,4) head(2) by (auto simp: frame_held_def frame_ok_def)
  moreover have "samples_queued st' = samples_queued st + frame_samples ty fr"
  proof -
    have "int (length (held st)) * INT_MAX \<le> 2 ^ 32 * INT_MAX" using f(2) by simp
    then have "samples_queued st \<le> 2 ^ 32 * INT_MAX" using queued_bounds(2) [OF inv] by (rule order_trans [rotated])
    moreover have "0 \<le> frame_samples ty fr" "frame_samples ty fr \<le> INT_MAX" using f(1) by (auto simp: frame_fine_def split: if_splits)
    ultimately show ?thesis using new(5) queued_bounds(1) [OF inv] by (simp add: w64_id)
  qed
  ultimately show ?thesis
    using inv new(1,2,4) old f(2) unfolding data_inv_def by auto
qed

text \<open>What the operations on other streams leave alone.\<close>

definition same_stream :: "'s SyncQueueStream \<Rightarrow> 's SyncQueueStream \<Rightarrow> bool" where
  "same_stream st st' \<longleftrightarrow> held st' = held st \<and> frames_sent st' = frames_sent st \<and> samples_sent st' = samples_sent st \<and> frames_max st' = frames_max st \<and>
     st_frame_samples st' = st_frame_samples st \<and> limiting st' = limiting st \<and> (st_finished st \<longrightarrow> st_finished st')"

lemma same_stream_refl [simp]: "same_stream st st"
  by (simp add: same_stream_def)

lemma same_stream_trans: "same_stream st st1 \<Longrightarrow> same_stream st1 st2 \<Longrightarrow> same_stream st st2"
  by (simp add: same_stream_def)

lemma marks_same_stream: "marks sq sq' \<Longrightarrow> i < length (streams sq) \<Longrightarrow> same_stream (streams sq ! i) (streams sq' ! i)"
  by (simp add: same_stream_def marks_nth marks_mono)

lemma heads_same_stream: "heads X sq sq' \<Longrightarrow> i < length (streams sq) \<Longrightarrow> same_stream (streams sq ! i) (streams sq' ! i)"
  by (simp add: same_stream_def heads_nth)

text \<open>
  A stream after one more frame: without a fixed frame size its frames are counted as they come, with one the whole frames
  among all samples sent so far.
\<close>

definition one_more :: "SyncQueueType \<Rightarrow> 's SyncQueueFrame \<Rightarrow> 's SyncQueueStream \<Rightarrow> 's SyncQueueStream \<Rightarrow> bool" where
  "one_more ty fr st st' \<longleftrightarrow> held st' = held st @ [fr] \<and> frames_max st' = frames_max st \<and>
     st_frame_samples st' = st_frame_samples st \<and> limiting st' = limiting st \<and>
     samples_sent st' = w64 (samples_sent st + frame_samples ty fr) \<and>
     frames_sent st' = (if st_frame_samples st = 0 then w64 (frames_sent st + 1) else samples_sent st' div w64 (st_frame_samples st)) \<and>
     (frames_sent st' \<ge> frames_max st' \<longrightarrow> st_finished st') \<and>
     (frame_end fr 0 \<noteq> AV_NOPTS_VALUE \<longrightarrow> has_ts st' \<and> frame_end fr 0 \<le> head_ts st')"

lemma sq_send_frame:
  assumes inv: "queue_inv sq" and idx: "idx < length (streams sq)" and unf: "\<not> st_finished (streams sq ! idx)"
    and ok: "frame_ok (sq_type sq) (streams sq ! idx) fr"
  shows "\<exists>ret fr' sq'. sq_send env sq idx (Some fr) = Some (ret, Some fr', sq') \<and> queue_inv sq' \<and> sq_type sq' = sq_type sq \<and>
    length (streams sq') = length (streams sq) \<and> (\<forall>i < length (streams sq). i \<noteq> idx \<longrightarrow> same_stream (streams sq ! i) (streams sq' ! i)) \<and>
    (if ret < 0 then fr' \<in> {normal (sq_type sq) fr, blank_frame} \<and> same_stream (streams sq ! idx) (streams sq' ! idx)
     else ret = 0 \<and> fr' = blank_frame \<and> one_more (sq_type sq) (normal (sq_type sq) fr) (streams sq ! idx) (streams sq' ! idx))"
proof -
  define ty where "ty = sq_type sq"
  define n where "n = length (streams sq)"
  define nb where "nb = frame_samples ty fr"
  define fr1 where "fr1 = normal ty fr"
  have D: "data_inv ty (streams sq ! i)" if "i < n" for i using inv that by (simp add: queue_inv_nth ty_def n_def)
  have C: "control_inv sq" using inv by (simp add: queue_inv_def)
  have idx': "idx < n" using idx by (simp add: n_def)
  obtain st where st: "tb_update (streams sq ! idx) fr = Some st" "time_inv st" "data_inv ty st" "has_ts st = has_ts (streams sq ! idx)"
    "has_ts (streams sq ! idx) \<longrightarrow> pos st = pos (streams sq ! idx)" "st_tb st = fr_time_base fr"
    "st = (streams sq ! idx)\<lparr>head_ts := head_ts st, st_tb := st_tb st\<rparr>"
    using tb_update_ok [OF ok control_inv_nth [OF C idx] D [OF idx', unfolded ty_def]] unfolding ty_def by blast
  have same: "limiting st = limiting (streams sq ! idx)" "st_finished st = st_finished (streams sq ! idx)"
    "st_frame_samples st = st_frame_samples (streams sq ! idx)" "held st = held (streams sq ! idx)" "samples_queued st = samples_queued (streams sq ! idx)"
    "frames_sent st = frames_sent (streams sq ! idx)" "frames_max st = frames_max (streams sq ! idx)" "samples_sent st = samples_sent (streams sq ! idx)"
    by (subst st(7); simp)+
  define sq1 where "sq1 = upd_stream idx (\<lambda>_. st) sq"
  have C1: "control_inv sq1" unfolding sq1_def using C idx st(2,4,5) same by (intro control_inv_replace) auto
  have ok1: "frame_ok ty st fr" using ok st(6) same by (simp add: frame_ok_def ty_def)
  have fine: "frame_fine ty fr" using ok1 by (simp add: frame_ok_def)
  have rate: "\<not> (nb \<noteq> 0 \<and> \<not> fr_sample_rate fr > 0)" using fine by (cases "nb = 0") (simp_all add: frame_fine_def nb_def)
  have cf: "cf_inv (\<lambda>c. c = blank_frame) (st_fifo st)" using st(3) by (simp add: data_inv_def)
  have unroll: "sq_send env sq idx (Some fr) =
      (case sq_write env (st_fifo st) fr1 of
         None \<Rightarrow> None
       | Some (ret, frame, fifo) \<Rightarrow>
           let sq = upd_stream idx (\<lambda>st. st\<lparr>st_fifo := fifo\<rparr>) sq1
           in if ret < 0 then Some (ret, Some frame, sq)
              else case stream_update_ts sq idx (frame_end fr1 0) of
                     None \<Rightarrow> None
                   | Some sq \<Rightarrow>
                       let sq = upd_stream idx (count_sent nb) sq; st = streams sq ! idx
                       in Some (0, Some frame, if frames_sent st \<ge> frames_max st then finish_stream sq idx else sq))"
  proof -
    have tys: "sq_type sq1 = ty" by (simp add: ty_def sq1_def)
    have nn: "\<not> \<not> idx < length (streams sq)" using idx by simp
    have f1: "(if nb \<noteq> 0 then set_duration nb fr else fr) = fr1" by (simp add: fr1_def normal_def nb_def)
    show ?thesis
      unfolding sq_send_def option.case if_not_P [OF nn] if_not_P [OF unf] st(1) Let_def sq1_def [symmetric] tys
      unfolding nb_def [symmetric] f1 if_not_P [OF rate] by (rule refl)
  qed
  have n1: "length (streams sq1) = n" "sq_type sq1 = ty" "align_mask sq1 = align_mask sq" by (simp_all add: sq1_def n_def ty_def)
  have s1: "streams sq1 ! i = (if i = idx then st else streams sq ! i)" for i using idx by (simp add: sq1_def)
  show ?thesis
  proof (cases rule: cfq.put_cases [where env = env and obj = fr1 and fref = "\<lambda>_ src. (0, src)", OF cf, case_names stored failed])
    case (failed ret obj' f')
    define sq2 where "sq2 = upd_stream idx (\<lambda>st. st\<lparr>st_fifo := f'\<rparr>) sq1"
    have idx1: "idx < length (streams sq1)" using idx' n1 by simp
    have s2: "streams sq2 ! i = (if i = idx then st\<lparr>st_fifo := f'\<rparr> else streams sq ! i)" for i using idx1 by (simp add: sq2_def s1)
    have "control_inv sq2" unfolding sq2_def
      using C1 idx1 control_inv_nth [OF C1 idx1] by (intro control_inv_replace) (auto simp: time_inv_def pos_def)
    moreover have "data_inv ty (st\<lparr>st_fifo := f'\<rparr>)" using st(3) failed(2,4) by (simp add: data_inv_def frame_held_def)
    ultimately have "queue_inv sq2" using D idx' n1 unfolding queue_inv_nth by (simp add: s2) (simp add: sq2_def n1)
    then show ?thesis using failed same idx unfolding unroll
      by (intro exI [of _ ret] exI [of _ obj'] exI [of _ sq2])
        (simp add: sq2_def [symmetric] Let_def s2 same_stream_def, auto simp: sq2_def n1 n_def ty_def fr1_def)
  next
    case (stored f')
    define sq2 where "sq2 = upd_stream idx (\<lambda>st. st\<lparr>st_fifo := f'\<rparr>) sq1"
    have idx1: "idx < length (streams sq1)" using idx' n1 by simp
    have s2: "streams sq2 ! i = (if i = idx then st\<lparr>st_fifo := f'\<rparr> else streams sq ! i)" for i using idx1 by (simp add: sq2_def s1)
    have n2: "length (streams sq2) = n" "sq_type sq2 = ty" by (simp_all add: sq2_def n1)
    have C2: "control_inv sq2" unfolding sq2_def
      using C1 idx1 control_inv_nth [OF C1 idx1] by (intro control_inv_replace) (auto simp: time_inv_def pos_def)
    have near: "near_origin (frame_end fr1 0) (st_tb (streams sq2 ! idx))" if "frame_end fr1 0 \<noteq> AV_NOPTS_VALUE"
    proof -
      have "\<bar>seconds (frame_end fr1 0) (fr_time_base fr)\<bar> \<le> 2 ^ 30 + 2 ^ 29"
        using frame_end_time [OF normal_fine [OF fine], of 0] normal_duration [of ty fr] that by (simp add: fr1_def)
      then show ?thesis using st(2,6) by (intro near_originI(1)) (auto simp: s2 time_inv_def)
    qed
    have idx2: "idx < length (streams sq2)" using idx' n2 by simp
    have unf2: "\<not> st_finished (streams sq2 ! idx)" using unf same by (simp add: s2)
    obtain sq3 where sq3: "stream_update_ts sq2 idx (frame_end fr1 0) = Some sq3" "heads {idx} sq2 sq3" "control_inv sq3"
      "frame_end fr1 0 \<noteq> AV_NOPTS_VALUE \<longrightarrow> has_ts (streams sq3 ! idx) \<and> frame_end fr1 0 \<le> head_ts (streams sq3 ! idx)"
      using stream_update_ts_inv [OF idx2 C2 unf2 near] by blast
    define sq4 where "sq4 = upd_stream idx (count_sent nb) sq3"
    note h = heads_fields [OF sq3(2), unfolded n2] heads_nth [OF sq3(2), unfolded n2]
    have idx3: "idx < length (streams sq3)" using idx' h(1) by simp
    have s4: "streams sq4 ! i = (if i = idx then count_sent nb (streams sq3 ! i) else streams sq3 ! i)" for i using idx3 by (simp add: sq4_def)
    have n4: "length (streams sq4) = n" "sq_type sq4 = ty" using h(1,2) by (simp_all add: sq4_def)
    have C4: "control_inv sq4" unfolding sq4_def
      using sq3(3) idx3 control_inv_nth [OF sq3(3) idx3] by (intro control_inv_replace) (simp_all add: time_inv_def pos_def)
    have "data_inv ty (streams sq4 ! idx)"
    proof (rule data_inv_append [OF st(3) ok1])
      show "fr_time_base fr = st_tb st" using st(6) by simp
      show "cf_inv (\<lambda>c. c = blank_frame) (st_fifo (streams sq4 ! idx))" "held (streams sq4 ! idx) = held st @ [normal ty fr]"
        using h(7) [OF idx'] stored(2,3) by (simp_all add: s4 s2 fr1_def)
      show "st_tb (streams sq4 ! idx) = st_tb st" "st_frame_samples (streams sq4 ! idx) = st_frame_samples st"
        "samples_queued (streams sq4 ! idx) = w64 (samples_queued st + frame_samples ty fr)"
        using h(6,12,13) [OF idx'] by (simp_all add: s4 s2 nb_def)
      show "has_ts (streams sq4 ! idx) \<and> head_ts st \<le> head_ts (streams sq4 ! idx)" if "has_ts st"
        using that h(15,16) [OF idx'] by (simp add: s4 s2)
      show "has_ts (streams sq4 ! idx) \<and> frame_end (normal ty fr) 0 \<le> head_ts (streams sq4 ! idx)" if "frame_end (normal ty fr) 0 \<noteq> AV_NOPTS_VALUE"
        using that sq3(4) by (simp add: s4 fr1_def)
    qed
    moreover have "data_inv ty (streams sq4 ! i)" if "i < n" "i \<noteq> idx" for i
      using that D [OF that(1)] h(18) [OF that(1), of ty] by (simp add: s4 s2)
    ultimately have Q4: "queue_inv sq4" using C4 unfolding queue_inv_nth n4 by blast
    define sq5 where "sq5 = (if frames_sent (streams sq4 ! idx) \<ge> frames_max (streams sq4 ! idx) then finish_stream sq4 idx else sq4)"
    have idx4: "idx < length (streams sq4)" using idx' n4 by simp
    have m5: "marks sq4 sq5" "queue_inv sq5" using finish_stream_queue_inv [OF Q4 idx4] Q4 marks_refl [of sq4] by (simp_all add: sq5_def)
    have r: "sq_send env sq idx (Some fr) = Some (0, Some blank_frame, sq5)"
      unfolding unroll stored(1) using sq3(1) by (simp add: sq2_def [symmetric] sq4_def [symmetric] sq5_def Let_def)
    note m = marks_nth [OF m5(1), unfolded n4]
    have "same_stream (streams sq ! i) (streams sq5 ! i)" if i: "i < n" "i \<noteq> idx" for i
    proof -
      have "same_stream (streams sq2 ! i) (streams sq3 ! i)" using i n2 by (intro heads_same_stream [OF sq3(2)]) simp
      moreover have "same_stream (streams sq4 ! i) (streams sq5 ! i)" using i n4 by (intro marks_same_stream [OF m5(1)]) simp
      ultimately show ?thesis using i by (simp add: s4 s2 same_stream_def)
    qed
    moreover have "one_more ty fr1 (streams sq ! idx) (streams sq5 ! idx)"
    proof -
      have "st_finished (streams sq5 ! idx)" if "frames_sent (streams sq4 ! idx) \<ge> frames_max (streams sq4 ! idx)"
        using that finish_stream_queue_inv(3) [OF Q4 idx4] by (simp add: sq5_def)
      moreover have "samples_sent (count_sent nb (streams sq3 ! idx)) = w64 (samples_sent (streams sq3 ! idx) + nb)"
        "frames_sent (count_sent nb (streams sq3 ! idx)) =
          (if st_frame_samples (streams sq3 ! idx) = 0 then w64 (frames_sent (streams sq3 ! idx) + 1)
           else w64 (samples_sent (streams sq3 ! idx) + nb) div w64 (st_frame_samples (streams sq3 ! idx)))"
        by (simp_all add: count_sent_def Let_def)
      moreover have "frame_samples ty fr1 = nb" by (simp add: fr1_def nb_def)
      ultimately show ?thesis
        using m(4-7,10,12-14) [OF idx'] h(7-11,13) [OF idx'] stored(3) same sq3(4) by (simp add: one_more_def s4 s2)
    qed
    ultimately show ?thesis using r m5 marks_length [OF m5(1)] marks_fields(1) [OF m5(1)] n4
      by (intro exI [of _ 0] exI [of _ blank_frame] exI [of _ sq5]) (simp add: n_def ty_def fr1_def)
  qed
qed

section \<open>The FIFO through a pointer\<close>

lemma peek_first_eq: "cf_inv clean cf \<Longrightarrow> peek_first cf = (case cf_contents cf of [] \<Rightarrow> None | x # _ \<Rightarrow> Some x)"
  by (simp add: peek_first_def av_container_fifo_peek_eq split: list.splits)

lemma poke_first_eq:
  assumes inv: "cf_inv clean cf" and c: "cf_contents cf = x # xs"
  shows "\<exists>cf'. poke_first cf y = Some cf' \<and> cf_inv clean cf' \<and> cf_contents cf' = y # xs"
proof -
  have fi: "fifo_inv (cf_fifo cf)" and pi: "pool_inv (cf_pool cf) (cf_held cf)" and d: "distinct (fifo_contents (cf_fifo cf))"
    and av: "\<forall>r \<in> set (available_entries (cf_pool cf)). \<exists>e. entries (cf_pool cf) r = Some e \<and> clean (entry_obj e)"
    using inv by (simp_all add: cf_inv_def)
  obtain r rs where r: "fifo_contents (cf_fifo cf) = r # rs" using c by (auto simp: cf_contents_def)
  have r0: "r \<in> set (fifo_contents (cf_fifo cf))" using r by simp
  obtain e where e: "entries (cf_pool cf) r = Some e" "r \<notin> set (available_entries (cf_pool cf))" by (rule cf_entry [OF inv r0])
  have "0 < length (fifo_contents (cf_fifo cf))" using r by simp
  then have "1 \<le> av_fifo_can_read (cf_fifo cf)" by simp
  then have peek: "av_fifo_peek (cf_fifo cf) 1 0 = Some (0, [Some r])" by (simp add: av_fifo_peek_def fifo_peek_common_buf [OF fi] r)
  define cf' where "cf' = cf\<lparr>cf_pool := set_container (cf_pool cf) r y\<rparr>"
  have "poke_first cf y = Some cf'" by (simp add: poke_first_def peek cf'_def del: One_nat_def)
  moreover have "cf_held cf' = cf_held cf" by (simp add: cf_held_def cf'_def fun_eq_iff)
  then have "cf_inv clean cf'"
    using inv pool_inv_set_container [OF pi, of r y] av e(2) unfolding cf_inv_def by (simp add: cf'_def) (metis set_container_simps(8))
  moreover have "cf_contents cf' = y # xs"
  proof -
    have "entries (set_container (cf_pool cf) r y) q = entries (cf_pool cf) q" if "q \<in> set rs" for q
      using that d r by (intro set_container_simps(8)) auto
    then have m: "map (\<lambda>q. entry_obj (the (entries (set_container (cf_pool cf) r y) q))) rs = map (\<lambda>q. entry_obj (the (entries (cf_pool cf) q))) rs" by simp
    have "cf_contents cf' = y # map (\<lambda>q. entry_obj (the (entries (set_container (cf_pool cf) r y) q))) rs"
      using e(1) r by (simp add: cf_contents_def cf'_def)
    also have "\<dots> = y # xs" unfolding m using c r by (simp add: cf_contents_def)
    finally show ?thesis .
  qed
  ultimately show ?thesis by blast
qed

lemma sq_drain_eq:
  assumes inv: "cf_inv (\<lambda>c. c = blank_frame) cf" and c: "cf_contents cf = x # xs"
  shows "\<exists>cf'. sq_drain cf 1 = Some cf' \<and> cf_inv (\<lambda>c. c = blank_frame) cf' \<and> cf_contents cf' = xs"
proof -
  have "length (fifo_contents (cf_fifo cf)) = Suc (length xs)" using c by (simp add: cf_contents_def flip: length_map [of "\<lambda>r. entry_obj (the (entries (cf_pool cf) r))"])
  then have "1 \<le> av_fifo_can_read (cf_fifo cf)" by simp
  moreover have "\<exists>cf'. container_drain_loop (frame_ops (\<lambda>_ src. (0, src)) blank_frame) 1 cf = Some cf' \<and> cf_inv (\<lambda>c. c = blank_frame) cf' \<and> cf_contents cf' = drop 1 (cf_contents cf)"
    using c by (intro container_drain_loop_inv [OF inv]) (simp_all add: frame_ops_def)
  ultimately show ?thesis using c by (simp add: av_container_fifo_drain_def)
qed

section \<open>Taking samples from the front\<close>

text \<open>What the frames of a stream with a fixed frame size hold.\<close>

definition payload :: "'s SyncQueueStream \<Rightarrow> 's list" where
  "payload st = concat (map fr_samples (held st))"

definition audio_held :: "'s SyncQueueStream \<Rightarrow> 's SyncQueueFrame \<Rightarrow> bool" where
  "audio_held st fr \<longleftrightarrow> frame_fine SYNC_QUEUE_FRAMES fr \<and> fr_nb_samples fr \<noteq> 0 \<and> fr_time_base fr = st_tb st \<and> set_duration (fr_nb_samples fr) fr = fr"

lemma audio_held_iff: "st_frame_samples st \<noteq> 0 \<Longrightarrow> frame_held SYNC_QUEUE_FRAMES st fr \<longleftrightarrow> audio_held st fr"
  by (auto simp: frame_held_def audio_held_def frame_samples_def)

lemma audio_held_range: "audio_held st fr \<Longrightarrow> 0 < fr_nb_samples fr \<and> fr_nb_samples fr \<le> INT_MAX \<and> length (fr_samples fr) = nat (fr_nb_samples fr)"
  by (auto simp: audio_held_def frame_fine_def frame_samples_def)

lemma payload_length:
  "(\<forall>fr \<in> set frs. audio_held st fr) \<Longrightarrow> int (length (concat (map fr_samples frs))) = sum_list (map (frame_samples SYNC_QUEUE_FRAMES) frs)"
  by (induction frs) (auto dest: audio_held_range simp: frame_samples_def)

lemma offset_audio_held:
  assumes "audio_held st fr" "0 < k" "k < fr_nb_samples fr"
  shows "\<exists>fr'. offset_audio fr k = Some fr' \<and> audio_held st fr' \<and> fr_nb_samples fr' = fr_nb_samples fr - k \<and>
    fr_samples fr' = drop (nat k) (fr_samples fr)"
proof -
  let ?r = "av_make_q 1 (fr_sample_rate fr)" and ?tb = "fr_time_base fr"
  have fine: "frame_fine SYNC_QUEUE_FRAMES fr" and nb: "frame_samples SYNC_QUEUE_FRAMES fr \<noteq> 0" using assms(1) by (simp_all add: audio_held_def frame_samples_def)
  note r = audio_held_range [OF assms(1)]
  have f: "0 < fr_sample_rate fr" "0 < av_get_bytes_per_sample (fr_format fr)" "- (2 ^ 29) \<le> seconds (fr_pts fr) ?tb"
    "seconds (fr_pts fr) ?tb + 2 * samples_time (fr_nb_samples fr) fr \<le> 2 ^ 29"
    using fine nb by (simp_all add: frame_fine_def)
  note t = frame_fine_time [OF fine nb]
  have kt: "samples_time k fr \<le> 2 ^ 29" using samples_time_le [OF fine nb, of k "fr_nb_samples fr"] assms(3) t(1) by simp
  have kr: "k \<le> INT_MAX" using assms(3) r by simp
  note d = samples_ticks [OF fine nb assms(2) kr kt]
  define dk where "dk = av_rescale_q k ?r ?tb"
  have w: "s64 (fr_pts fr + dk) = fr_pts fr + dk" using d(1,2) t(4) by (intro s64_id) (simp add: in_s64_def dk_def abs_le_iff)
  have w2: "s32 (fr_nb_samples fr - k) = fr_nb_samples fr - k" using assms r by (intro s32_small) simp_all
  have split: "samples_time (fr_nb_samples fr - k) fr = samples_time (fr_nb_samples fr) fr - samples_time k fr"
    by (simp add: samples_time_def diff_divide_distrib)
  obtain fr' where fr': "offset_audio fr k = Some fr'" "fr_pts fr' = fr_pts fr + dk" "fr_nb_samples fr' = fr_nb_samples fr - k"
    "fr_samples fr' = drop (nat k) (fr_samples fr)" "fr_time_base fr' = ?tb" "fr_sample_rate fr' = fr_sample_rate fr" "fr_format fr' = fr_format fr"
    "fr_duration fr' = av_rescale_q (fr_nb_samples fr - k) ?r ?tb"
    using f(2) assms(3) by (simp add: offset_audio_def Let_def w w2 flip: dk_def)
  have "- (2 ^ 29) \<le> seconds (fr_pts fr') ?tb" "seconds (fr_pts fr') ?tb + 2 * samples_time (fr_nb_samples fr') fr' \<le> 2 ^ 29"
    using f(3,4) d(3,4) split unfolding fr'(2,3) seconds_add dk_def samples_time_def fr'(6) by simp_all
  then have "frame_fine SYNC_QUEUE_FRAMES fr'"
    using fine nb assms r fr' by (auto simp: frame_fine_def frame_samples_def)
  moreover have "set_duration (fr_nb_samples fr') fr' = fr'" using fr' by (simp add: set_duration_def)
  ultimately show ?thesis using assms fr' by (auto simp: audio_held_def)
qed

lemma copy_samples_spec:
  assumes "cf_inv (\<lambda>c. c = blank_frame) (st_fifo st)" "\<forall>fr \<in> set (held st). audio_held st fr"
    "samples_queued st = int (length (payload st))" "length (held st) \<le> 2 ^ 32"
    "0 \<le> fr_nb_samples dst" "fr_nb_samples dst \<le> nb" "nb \<le> INT_MAX" "length (fr_samples dst) = nat nb"
    "nb - fr_nb_samples dst \<le> int (length (payload st))"
  shows "\<exists>dst' st'. copy_samples st dst nb = Some (dst', st') \<and>
    dst' = dst\<lparr>fr_nb_samples := nb, fr_samples := take (nat (fr_nb_samples dst)) (fr_samples dst) @ take (nat (nb - fr_nb_samples dst)) (payload st)\<rparr> \<and>
    st' = st\<lparr>st_fifo := st_fifo st', samples_queued := samples_queued st'\<rparr> \<and>
    cf_inv (\<lambda>c. c = blank_frame) (st_fifo st') \<and> (\<forall>fr \<in> set (held st'). audio_held st fr) \<and>
    samples_queued st' = int (length (payload st')) \<and> length (held st') \<le> length (held st) \<and>
    payload st' = drop (nat (nb - fr_nb_samples dst)) (payload st)"
  using assms
proof (induction "length (held st)" arbitrary: st dst rule: less_induct)
  case less
  note cf = less.prems(1) and au = less.prems(2) and q = less.prems(3) and len = less.prems(4) and nb = less.prems(5-8) and enough = less.prems(9)
  show ?case
  proof (cases "fr_nb_samples dst = nb")
    case True
    have "copy_samples st dst nb = Some (dst, st)" using True by (subst copy_samples.simps) simp
    moreover have "dst\<lparr>fr_nb_samples := nb, fr_samples := take (nat nb) (fr_samples dst) @ take 0 (payload st)\<rparr> = dst"
      using True nb(4) by simp
    ultimately show ?thesis using True cf au q by (intro exI [of _ dst] exI [of _ st]) simp
  next
    case False
    define k where "k = nb - fr_nb_samples dst"
    have k: "0 < k" "k \<le> INT_MAX" using False nb by (simp_all add: k_def)
    have "held st \<noteq> []" using enough False nb(2) by (auto simp: payload_def)
    then obtain x xs where x: "held st = x # xs" by (cases "held st") auto
    have hx: "audio_held st x" using au x by simp
    note r = audio_held_range [OF hx]
    define n where "n = min k (fr_nb_samples x)"
    define dst1 where "dst1 = dst\<lparr>fr_samples := put_at (fr_samples dst) (nat (fr_nb_samples dst)) (take (nat n) (fr_samples x)), fr_nb_samples := fr_nb_samples dst + n\<rparr>"
    have n: "0 < n" "n \<le> k" "n \<le> fr_nb_samples x" using k r by (simp_all add: n_def)
    have w: "s32 (nb - fr_nb_samples dst) = k" "s32 (fr_nb_samples dst + n) = fr_nb_samples dst + n"
      using k n nb by (simp_all add: s32_small k_def)
    have p: "payload st = fr_samples x @ concat (map fr_samples xs)" by (simp add: payload_def x)
    have qn: "w64 (samples_queued st - n) = samples_queued st - n"
    proof -
      have "samples_queued st = sum_list (map (frame_samples SYNC_QUEUE_FRAMES) (held st))"
        using q payload_length [OF au] by (simp add: payload_def)
      moreover have "sum_list (map (frame_samples SYNC_QUEUE_FRAMES) (held st)) \<le> int (length (held st)) * INT_MAX"
        using au audio_held_range by (intro sum_list_le) (fastforce simp: frame_samples_def)
      moreover have "int (length (held st)) * INT_MAX \<le> 2 ^ 32 * INT_MAX" using len by simp
      moreover have "n \<le> samples_queued st" using n r q p by simp
      ultimately show ?thesis using n by (intro w64_id) simp_all
    qed
    have unroll: "copy_samples st dst nb =
       (case (if n < fr_nb_samples x then (case offset_audio x n of None \<Rightarrow> None | Some src \<Rightarrow> poke_first (st_fifo st) src) else sq_drain (st_fifo st) 1) of
          None \<Rightarrow> None
        | Some fifo \<Rightarrow> copy_samples (st\<lparr>st_fifo := fifo, samples_queued := samples_queued st - n\<rparr>) dst1 nb)"
    proof -
      have c0: "\<not> \<not> fr_nb_samples dst < nb" using False nb(2) by simp
      have d1: "dst\<lparr>fr_samples := S\<rparr>\<lparr>fr_nb_samples := s32 (fr_nb_samples (dst\<lparr>fr_samples := S\<rparr>) + n)\<rparr> =
          dst\<lparr>fr_samples := S, fr_nb_samples := fr_nb_samples dst + n\<rparr>" for S
        using w(2) by simp
      show ?thesis
        by (subst copy_samples.simps) (simp only: if_not_P [OF c0] peek_first_eq [OF cf] x list.case option.case Let_def w(1) n_def [symmetric] qn d1 dst1_def)
    qed
    have take1: "take (nat (fr_nb_samples dst1)) (fr_samples dst1) = take (nat (fr_nb_samples dst)) (fr_samples dst) @ take (nat n) (fr_samples x)"
    proof -
      have "nat (fr_nb_samples dst) \<le> length (fr_samples dst)" "length (take (nat n) (fr_samples x)) = nat n" using nb n r by simp_all
      moreover have "nat (fr_nb_samples dst + n) = nat (fr_nb_samples dst) + nat n" using nb n by (simp add: nat_add_distrib)
      ultimately show ?thesis by (simp add: dst1_def put_at_def)
    qed
    have len1: "length (fr_samples dst1) = nat nb"
      using nb n r unfolding dst1_def by (simp add: length_put_at k_def nat_add_distrib [symmetric])
    show ?thesis
    proof (cases "n < fr_nb_samples x")
      case True
      then have nk: "n = k" "fr_nb_samples dst1 = nb" by (auto simp: n_def dst1_def k_def min_def split: if_splits)
      obtain x' where x': "offset_audio x n = Some x'" "audio_held st x'" "fr_nb_samples x' = fr_nb_samples x - n" "fr_samples x' = drop (nat n) (fr_samples x)"
        using offset_audio_held [OF hx n(1) True] by blast
      obtain fifo where fifo: "poke_first (st_fifo st) x' = Some fifo" "cf_inv (\<lambda>c. c = blank_frame) fifo" "cf_contents fifo = x' # xs"
        using poke_first_eq [OF cf x] by blast
      define st1 where "st1 = st\<lparr>st_fifo := fifo, samples_queued := samples_queued st - n\<rparr>"
      have "copy_samples st1 dst1 nb = Some (dst1, st1)" using nk by (subst copy_samples.simps) simp
      then have res: "copy_samples st dst nb = Some (dst1, st1)" using True x'(1) fifo(1) unfolding unroll by (simp add: st1_def)
      have p1: "payload st1 = drop (nat k) (payload st)" using x'(4) fifo(3) nk n r unfolding p by (simp add: st1_def payload_def)
      have "fr_samples dst1 = take (nat (fr_nb_samples dst)) (fr_samples dst) @ take (nat k) (payload st)"
        using take1 len1 nk(1,2) n r unfolding p by simp
      then have "dst1 = dst\<lparr>fr_nb_samples := nb, fr_samples := take (nat (fr_nb_samples dst)) (fr_samples dst) @ take (nat k) (payload st)\<rparr>"
        using nk(2) by (simp add: dst1_def)
      moreover have "\<forall>fr \<in> set (held st1). audio_held st fr" using au x x'(2) fifo(3) by (simp add: st1_def)
      moreover have "samples_queued st1 = int (length (payload st1))" using q n r nk(1) unfolding p1 by (simp add: st1_def p)
      ultimately show ?thesis using res p1 fifo(2,3) x unfolding k_def [symmetric]
        by (intro exI [of _ dst1] exI [of _ st1]) (simp add: st1_def)
    next
      case no: False
      then have nx: "n = fr_nb_samples x" using n by simp
      obtain fifo where fifo: "sq_drain (st_fifo st) 1 = Some fifo" "cf_inv (\<lambda>c. c = blank_frame) fifo" "cf_contents fifo = xs"
        using sq_drain_eq [OF cf x] by blast
      define st1 where "st1 = st\<lparr>st_fifo := fifo, samples_queued := samples_queued st - n\<rparr>"
      have step: "copy_samples st dst nb = copy_samples st1 dst1 nb" using no fifo(1) unfolding unroll by (simp add: st1_def)
      have p1: "payload st1 = concat (map fr_samples xs)" "length (payload st) = nat n + length (payload st1)" using fifo(3) r nx by (simp_all add: st1_def payload_def x)
      have h1: "held st1 = xs" by (simp add: st1_def fifo(3))
      have e: "nb - fr_nb_samples dst1 = k - n" by (simp add: dst1_def k_def)
      have au1: "\<forall>fr \<in> set (held st1). audio_held st1 fr" using au x unfolding h1 by (simp add: st1_def audio_held_def)
      have pre: "cf_inv (\<lambda>c. c = blank_frame) (st_fifo st1)" "samples_queued st1 = int (length (payload st1))" "length (held st1) \<le> 2 ^ 32"
        "0 \<le> fr_nb_samples dst1" "fr_nb_samples dst1 \<le> nb" "nb - fr_nb_samples dst1 \<le> int (length (payload st1))" "length (held st1) < length (held st)"
        using fifo(2) q p1(2) n len x h1 nb enough by (simp_all add: st1_def dst1_def k_def)
      obtain dst' st' where ih: "copy_samples st1 dst1 nb = Some (dst', st')"
        "dst' = dst1\<lparr>fr_nb_samples := nb, fr_samples := take (nat (fr_nb_samples dst1)) (fr_samples dst1) @ take (nat (nb - fr_nb_samples dst1)) (payload st1)\<rparr>"
        "st' = st1\<lparr>st_fifo := st_fifo st', samples_queued := samples_queued st'\<rparr>"
        "cf_inv (\<lambda>c. c = blank_frame) (st_fifo st')" "\<forall>fr \<in> set (held st'). audio_held st1 fr"
        "samples_queued st' = int (length (payload st'))" "length (held st') \<le> length (held st1)" "payload st' = drop (nat (nb - fr_nb_samples dst1)) (payload st1)"
        using less.hyps [OF pre(7,1) au1 pre(2-5) nb(3) len1 pre(6)] by blast
      have nat_k: "nat k = nat n + nat (k - n)" using n by (simp add: nat_add_distrib [symmetric])
      have xn: "length (fr_samples x) = nat n" using r nx by simp
      have "take (nat n) (fr_samples x) @ take (nat (k - n)) (payload st1) = take (nat k) (payload st)"
        unfolding p p1(1) nat_k using xn by simp
      moreover have "drop (nat (k - n)) (payload st1) = drop (nat k) (payload st)" unfolding p p1(1) nat_k using xn by simp
      moreover have "st' = st\<lparr>st_fifo := st_fifo st', samples_queued := samples_queued st'\<rparr>" by (subst ih(3)) (simp add: st1_def)
      moreover have "dst' = dst\<lparr>fr_nb_samples := nb, fr_samples := take (nat (fr_nb_samples dst)) (fr_samples dst) @ take (nat n) (fr_samples x) @ take (nat (k - n)) (payload st1)\<rparr>"
        unfolding ih(2) take1 e by (simp add: dst1_def)
      moreover have "audio_held st1 = audio_held st" by (simp add: audio_held_def st1_def fun_eq_iff)
      ultimately show ?thesis using ih(1,4-8) step h1 x e k_def by (intro exI [of _ dst'] exI [of _ st']) simp
    qed
  qed
qed

section \<open>Receiving\<close>

text \<open>The buffer \<^verbatim>\<open>av_frame_get_buffer\<close> allocates has room for the samples asked for.\<close>

definition env_ok :: "'s frame_env \<Rightarrow> bool" where
  "env_ok env \<longleftrightarrow> (\<forall>n. length (new_samples env n) = n)"

lemma audio_data_inv:
  "st_frame_samples st \<noteq> 0 \<Longrightarrow> data_inv SYNC_QUEUE_FRAMES st \<longleftrightarrow>
    cf_inv (\<lambda>c. c = blank_frame) (st_fifo st) \<and> (\<forall>fr \<in> set (held st). audio_held st fr) \<and>
    samples_queued st = int (length (payload st)) \<and> length (held st) \<le> 2 ^ 32 \<and> 0 \<le> st_frame_samples st \<and> st_frame_samples st \<le> 2 ^ 28"
  unfolding data_inv_def payload_def using payload_length [of "held st" st] by (auto simp: audio_held_iff)

text \<open>
  A frame assembled from the samples at the front: it starts where the oldest frame starts and has the length asked for.
\<close>

lemma receive_samples_spec:
  assumes inv: "data_inv SYNC_QUEUE_FRAMES st" "st_frame_samples st \<noteq> 0" and amask: "0 < amask" and env: "env_ok env"
    and nb: "0 < nb" "nb \<le> samples_queued st" "nb \<le> INT_MAX" and x: "held st = x # xs"
  shows "\<exists>ret dst' st'. receive_samples env amask st dst nb = Some (ret, dst', st') \<and>
    (if ret < 0 then st' = st
     else ret = 0 \<and> st' = st\<lparr>st_fifo := st_fifo st', samples_queued := samples_queued st'\<rparr> \<and> data_inv SYNC_QUEUE_FRAMES st' \<and>
       length (held st') \<le> length (held st) \<and>
       fr_samples dst' = take (nat nb) (payload st) \<and> payload st' = drop (nat nb) (payload st) \<and> fr_nb_samples dst' = nb \<and>
       fr_time_base dst' = fr_time_base x \<and> frame_end dst' 0 = frame_end x nb)"
proof -
  note a = audio_data_inv [OF inv(2), THEN iffD1, OF inv(1)]
  have cf: "cf_inv (\<lambda>c. c = blank_frame) (st_fifo st)" and hx: "audio_held st x" using a x by simp_all
  note r = audio_held_range [OF hx]
  have w: "w64 nb = nb" using nb by (simp add: w64_id)
  have p: "payload st = fr_samples x @ concat (map fr_samples xs)" by (simp add: payload_def x)
  have qb: "samples_queued st \<le> 2 ^ 63"
  proof -
    have "int (length (held st)) * INT_MAX \<le> 2 ^ 32 * INT_MAX" using a by simp
    then show ?thesis using queued_bounds(2) [OF inv(1)] by simp
  qed
  have enough: "\<not> \<not> samples_queued st \<ge> w64 nb" using nb w by simp
  have pk: "peek_first (st_fifo st) = Some x" by (simp add: peek_first_eq [OF cf] x)
  obtain aligned where al: "(if fr_nb_samples x > nb then frame_is_aligned amask x else Some False) = Some aligned" "aligned \<Longrightarrow> nb < fr_nb_samples x"
    using nb(1) amask by (cases "nb < fr_nb_samples x") (auto simp: frame_is_aligned_def)
  have same_end: "frame_end (set_duration nb d) 0 = frame_end x nb"
    if "fr_pts d = fr_pts x" "fr_time_base d = fr_time_base x" "fr_sample_rate d = fr_sample_rate x" for d
    using that nb(1) by (simp add: frame_end_def set_duration_def)
  show ?thesis
  proof (cases aligned)
    case True
    show ?thesis
    proof (cases "ref_err env < 0")
      case err: True
      then have "receive_samples env amask st dst nb = Some (ref_err env, blank_frame, st)"
        unfolding receive_samples_def if_not_P [OF enough] Let_def pk option.case al(1) using True by simp
      then show ?thesis using err by auto
    next
      case ok: False
      obtain x' where x': "offset_audio x nb = Some x'" "audio_held st x'" "fr_nb_samples x' = fr_nb_samples x - nb" "fr_samples x' = drop (nat nb) (fr_samples x)"
        using offset_audio_held [OF hx nb(1) al(2) [OF True]] by blast
      obtain fifo where fifo: "poke_first (st_fifo st) x' = Some fifo" "cf_inv (\<lambda>c. c = blank_frame) fifo" "cf_contents fifo = x' # xs"
        using poke_first_eq [OF cf x] by blast
      define st' where "st' = st\<lparr>st_fifo := fifo, samples_queued := samples_queued st - nb\<rparr>"
      define d where "d = set_duration nb (x\<lparr>fr_nb_samples := nb, fr_samples := take (nat nb) (fr_samples x)\<rparr>)"
      have "w64 (samples_queued st - nb) = samples_queued st - nb" using qb nb by (intro w64_id) simp_all
      then have res: "receive_samples env amask st dst nb = Some (0, d, st')"
        unfolding receive_samples_def if_not_P [OF enough] Let_def pk option.case al(1) using True ok x'(1) fifo(1) by (simp add: d_def st'_def)
      have le: "nat nb \<le> length (fr_samples x)" using al(2) [OF True] r nb by simp
      have pl: "payload st' = drop (nat nb) (payload st)" "take (nat nb) (fr_samples x) = take (nat nb) (payload st)"
        using x'(4) fifo(3) le by (simp_all add: st'_def payload_def x)
      have "data_inv SYNC_QUEUE_FRAMES st'"
        unfolding audio_data_inv [of st', unfolded st'_def, simplified, OF inv(2), folded st'_def] using a fifo(2,3) x x'(2) pl(1) nb
        by (auto simp: st'_def audio_held_def)
      then show ?thesis using res pl same_end [of "x\<lparr>fr_nb_samples := nb, fr_samples := take (nat nb) (fr_samples x)\<rparr>"] fifo(3) x
        by (intro exI [of _ 0] exI [of _ d] exI [of _ st']) (simp add: d_def, simp add: st'_def set_duration_def)
    qed
  next
    case False
    define d1 where "d1 = dst\<lparr>fr_channels := fr_channels x, fr_format := fr_format x, fr_nb_samples := nb\<rparr>
      \<lparr>fr_data := new_data env, fr_linesize := new_linesize env, fr_samples := new_samples env (nat nb), fr_pts := fr_pts x, fr_duration := fr_duration x,
        fr_time_base := fr_time_base x, fr_sample_rate := fr_sample_rate x, fr_nb_samples := 0\<rparr>"
    have unroll: "receive_samples env amask st dst nb =
      (if layout_err env < 0 then Some (layout_err env, dst, st)
       else if buffer_err env < 0 then Some (buffer_err env, blank_frame, st)
       else if props_err env < 0 then Some (props_err env, blank_frame, st)
       else map_option (\<lambda>(dst, st). (0, set_duration nb dst, st)) (copy_samples st d1 nb))"
      unfolding receive_samples_def if_not_P [OF enough] Let_def pk option.case al(1) d1_def using False by simp
    show ?thesis
    proof (cases "layout_err env < 0 \<or> buffer_err env < 0 \<or> props_err env < 0")
      case True
      then have "\<exists>e d. e < 0 \<and> receive_samples env amask st dst nb = Some (e, d, st)" unfolding unroll by (auto split: if_splits)
      then show ?thesis by auto
    next
      case ok: False
      have pre: "0 \<le> fr_nb_samples d1" "fr_nb_samples d1 \<le> nb" "length (fr_samples d1) = nat nb" "nb - fr_nb_samples d1 \<le> int (length (payload st))"
        using env nb a by (simp_all add: d1_def env_ok_def)
      obtain dst' st' where c: "copy_samples st d1 nb = Some (dst', st')"
        "dst' = d1\<lparr>fr_nb_samples := nb, fr_samples := take (nat (fr_nb_samples d1)) (fr_samples d1) @ take (nat (nb - fr_nb_samples d1)) (payload st)\<rparr>"
        "st' = st\<lparr>st_fifo := st_fifo st', samples_queued := samples_queued st'\<rparr>"
        "cf_inv (\<lambda>c. c = blank_frame) (st_fifo st')" "\<forall>fr \<in> set (held st'). audio_held st fr"
        "samples_queued st' = int (length (payload st'))" "length (held st') \<le> length (held st)" "payload st' = drop (nat (nb - fr_nb_samples d1)) (payload st)"
        using copy_samples_spec [OF cf _ _ _ pre(1,2) nb(3) pre(3,4)] a by blast
      have e: "fr_nb_samples d1 = 0" by (simp add: d1_def)
      have fs: "st_frame_samples st' = st_frame_samples st" "audio_held st' = audio_held st" by (subst c(3); simp add: audio_held_def fun_eq_iff)+
      have "data_inv SYNC_QUEUE_FRAMES st'" using audio_data_inv [of st'] fs inv(2) a c(4-7) by simp
      moreover have "receive_samples env amask st dst nb = Some (0, set_duration nb dst', st')" unfolding unroll using ok c(1) by simp
      moreover have "frame_end (set_duration nb dst') 0 = frame_end x nb" by (rule same_end) (simp_all add: c(2) d1_def)
      ultimately show ?thesis using c(3,7,8) unfolding e
        by (intro exI [of _ 0] exI [of _ "set_duration nb dst'"] exI [of _ st']) (simp add: c(2) set_duration_def d1_def)
    qed
  qed
qed

text \<open>The only failures of \<^verbatim>\<open>receive_samples\<close> are those of the calls into \<^verbatim>\<open>frame.c\<close>.\<close>

definition no_errors :: "'s frame_env \<Rightarrow> bool" where
  "no_errors env \<longleftrightarrow> ref_err env = 0 \<and> layout_err env = 0 \<and> buffer_err env = 0 \<and> props_err env = 0"

lemma receive_samples_ok:
  assumes "no_errors env" "receive_samples env amask st dst nb = Some (ret, dst', st')"
  shows "ret = 0"
  using assms(2) by (auto simp: receive_samples_def Let_def assms(1) [unfolded no_errors_def] split: option.splits if_splits bool.splits)

text \<open>Reading a frame as it is.\<close>

lemma sq_read_eq:
  assumes "cf_inv (\<lambda>c. c = blank_frame) cf" "cf_contents cf = x # xs"
  shows "\<exists>cf'. sq_read cf obj = Some (0, x, cf') \<and> cf_inv (\<lambda>c. c = blank_frame) cf' \<and> cf_contents cf' = xs"
  using cfq.take_spec [where fref = "\<lambda>_ src. (0, src)" and obj = obj, OF assms(1)] assms(2) by auto

text \<open>
  The outcome of a successful \<^verbatim>\<open>receive_for_stream\<close>: the queue differs in the FIFO of the stream only, and the frame is not past
  the head.
\<close>

definition released :: "nat \<Rightarrow> 's SyncQueue \<Rightarrow> 's SyncQueueFrame \<Rightarrow> 's SyncQueue \<Rightarrow> bool" where
  "released idx sq fr sq' \<longleftrightarrow>
     (let st = streams sq ! idx; st' = streams sq' ! idx
      in sq' = upd_stream idx (\<lambda>st. st\<lparr>st_fifo := st_fifo st', samples_queued := samples_queued st'\<rparr>) sq \<and>
         length (held st') \<le> length (held st) \<and> fr_time_base fr = st_tb st \<and>
         (if st_frame_samples st = 0 then held st = fr # held st'
          else payload st = fr_samples fr @ payload st' \<and> fr_samples fr \<noteq> [] \<and>
            (if int (length (payload st)) < st_frame_samples st then st_finished st \<and> payload st' = []
             else int (length (fr_samples fr)) = st_frame_samples st)) \<and>
         (frame_end fr 0 \<noteq> AV_NOPTS_VALUE \<longrightarrow> have_limiting sq \<longrightarrow> head_stream sq \<ge> 0 \<and>
            seconds (frame_end fr 0) (st_tb st) \<le> pos (streams sq ! nat (head_stream sq))))"

lemma queue_inv_fifo:
  assumes inv: "queue_inv sq" and idx: "idx < length (streams sq)"
    and new: "data_inv (sq_type sq) ((streams sq ! idx)\<lparr>st_fifo := f, samples_queued := q\<rparr>)"
  shows "queue_inv (upd_stream idx (\<lambda>st. st\<lparr>st_fifo := f, samples_queued := q\<rparr>) sq)"
proof -
  have "control_inv (upd_stream idx (\<lambda>st. st\<lparr>st_fifo := f, samples_queued := q\<rparr>) sq)"
    using inv idx control_inv_nth [of sq idx] by (intro control_inv_replace) (auto simp: queue_inv_def time_inv_def pos_def)
  then show ?thesis using inv idx new by (simp add: queue_inv_nth)
qed

lemma data_inv_head:
  assumes "data_inv ty st" "held st = x # xs"
  shows "frame_held ty st x" "frame_samples ty x \<le> samples_queued st" "0 \<le> frame_samples ty x"
    "sum_list (map (frame_samples ty) xs) = samples_queued st - frame_samples ty x"
proof -
  show h: "frame_held ty st x" using assms by (simp add: data_inv_def)
  have f: "0 \<le> frame_samples ty fr" if "fr \<in> set (held st)" for fr using assms(1) that by (simp add: data_inv_def frame_held_def frame_fine_def)
  show "0 \<le> frame_samples ty x" using f assms(2) by simp
  have "0 \<le> sum_list (map (frame_samples ty) xs)" using f assms(2) by (intro sum_list_nonneg) auto
  moreover show "sum_list (map (frame_samples ty) xs) = samples_queued st - frame_samples ty x" using assms by (simp add: data_inv_def)
  ultimately show "frame_samples ty x \<le> samples_queued st" by simp
qed

text \<open>The number of samples asked for, and the number of the frames of a stream that has some left.\<close>

definition ask :: "'s SyncQueueStream \<Rightarrow> int" where
  "ask st = (if st_finished st then s32 (min (w64 (st_frame_samples st)) (samples_queued st)) else st_frame_samples st)"

lemma ask_eq:
  assumes "data_inv ty st"
  shows "ask st = (if st_finished st then min (st_frame_samples st) (samples_queued st) else st_frame_samples st)"
proof -
  have b: "0 \<le> st_frame_samples st" "st_frame_samples st \<le> 2 ^ 28" "0 \<le> samples_queued st" using assms queued_bounds(1) [OF assms] by (simp_all add: data_inv_def)
  then have "w64 (st_frame_samples st) = st_frame_samples st" by (intro w64_id) simp_all
  moreover have "s32 (min (st_frame_samples st) (samples_queued st)) = min (st_frame_samples st) (samples_queued st)" using b by (intro s32_small) simp_all
  ultimately show ?thesis by (simp add: ask_def)
qed

text \<open>What a stream that is ready asks for: samples it has, whose end is a time in range.\<close>

lemma asked:
  assumes D: "data_inv ty st" and T: "time_inv st" and x: "held st = x # xs" and ready: "w64 (st_frame_samples st) \<le> samples_queued st \<or> st_finished st"
  shows "st_frame_samples st \<noteq> 0 \<Longrightarrow> ty = SYNC_QUEUE_FRAMES \<and> frame_samples ty x = fr_nb_samples x \<and> 0 < fr_nb_samples x \<and> 0 < ask st \<and>
      ask st \<le> samples_queued st \<and> ask st \<le> 2 ^ 28 \<and> samples_time (ask st) x \<le> 2 ^ 29" (is "_ \<Longrightarrow> ?audio")
    and "st_frame_samples st = 0 \<Longrightarrow> ask st = 0"
    and "frame_end x (ask st) \<noteq> AV_NOPTS_VALUE \<Longrightarrow> near_origin (frame_end x (ask st)) (st_tb st)"
proof -
  note hx = data_inv_head [OF D x]
  have fine: "frame_fine ty x" "fr_time_base x = st_tb st" using hx(1) by (simp_all add: frame_held_def)
  have fs: "w64 (st_frame_samples st) = st_frame_samples st" using D by (intro w64_id) (simp_all add: data_inv_def)
  have audio: ?audio if nz: "st_frame_samples st \<noteq> 0"
  proof -
    have "ty = SYNC_QUEUE_FRAMES" using D nz by (cases ty) (auto simp: data_inv_def)
    moreover have s: "frame_samples ty x \<noteq> 0" using hx(1) nz by (simp add: frame_held_def)
    moreover note f = frame_fine_time [OF fine(1) s]
    moreover have b: "0 < ask st" "ask st \<le> samples_queued st" "ask st \<le> 2 ^ 28"
      using ready nz D hx(2,3) s f(2,5) unfolding ask_eq [OF D] fs by (auto simp: data_inv_def)
    moreover have "samples_time (ask st) x \<le> 2 ^ 28"
    proof -
      have sr: "0 < fr_sample_rate x" using fine(1) s by (simp add: frame_fine_def)
      have "ask st * 1 \<le> 2 ^ 28 * fr_sample_rate x" using b sr by (intro mult_mono) simp_all
      then have "(of_int (ask st * 1) :: rat) \<le> of_int (2 ^ 28 * fr_sample_rate x)" by (simp only: of_int_le_iff)
      then show ?thesis using sr by (simp add: samples_time_def divide_le_eq)
    qed
    ultimately show ?thesis by simp
  qed
  then show "st_frame_samples st \<noteq> 0 \<Longrightarrow> ?audio" .
  show nb0: "ask st = 0" if "st_frame_samples st = 0" using that hx(2,3) queued_bounds(1) [OF D] by (simp add: ask_eq [OF D])
  show "near_origin (frame_end x (ask st)) (st_tb st)" if "frame_end x (ask st) \<noteq> AV_NOPTS_VALUE"
  proof -
    have dur: "set_duration (fr_nb_samples x) x = x" if "frame_samples ty x \<noteq> 0" using that hx(1) by (simp add: frame_held_def)
    have "\<bar>seconds (frame_end x (ask st)) (fr_time_base x)\<bar> \<le> 2 ^ 30 + 2 ^ 29"
      using frame_end_time [OF fine(1), of "ask st"] audio nb0 dur that by fastforce
    then show ?thesis using T fine(2) by (intro near_originI(1)) (auto simp: time_inv_def)
  qed
qed

lemma receive_for_stream_spec:
  assumes inv: "queue_inv sq" and idx: "idx < length (streams sq)" and env: "env_ok env"
  shows "\<exists>ret fr' sq'. receive_for_stream env sq idx fr = Some (ret, fr', sq') \<and>
    (if ret < 0 then sq' = sq else ret = 0 \<and> queue_inv sq' \<and> released idx sq fr' sq')"
proof -
  define st where "st = streams sq ! idx"
  define ty where "ty = sq_type sq"
  define wait where "wait = (if sq_finished sq \<or> (st_finished st \<and> \<not> av_container_fifo_can_read (st_fifo st) \<noteq> 0) then AVERROR EOF else AVERROR EAGAIN)"
  have wait: "wait < 0" using AVERROR_neg by (simp add: wait_def del: AVERROR.simps)
  have D: "data_inv ty st" using inv idx by (simp add: queue_inv_nth st_def ty_def)
  have C: "control_inv sq" using inv by (simp add: queue_inv_def)
  have T: "time_inv st" using control_inv_nth [OF C idx] by (simp add: st_def)
  have cf: "cf_inv (\<lambda>c. c = blank_frame) (st_fifo st)" using D by (simp add: data_inv_def)
  have fs: "w64 (st_frame_samples st) = st_frame_samples st" using D by (intro w64_id) (simp_all add: data_inv_def)
  have fs0: "0 \<le> st_frame_samples st" using D by (simp add: data_inv_def)
  have nn: "\<not> \<not> idx < length (streams sq)" using idx by simp
  show ?thesis
  proof (cases "av_container_fifo_can_read (st_fifo st) \<noteq> 0 \<and> (w64 (st_frame_samples st) \<le> samples_queued st \<or> st_finished st)")
    case False
    have "receive_for_stream env sq idx fr = Some (wait, fr, sq)"
      unfolding receive_for_stream_def if_not_P [OF nn] Let_def st_def [symmetric] if_not_P [OF False] wait_def by (rule refl)
    then show ?thesis using wait by auto
  next
    case True
    then obtain x xs where x: "held st = x # xs" using held_length [OF cf] by (cases "held st") auto
    have pk: "peek_first (st_fifo st) = Some x" by (simp add: peek_first_eq [OF cf] x)
    note hx = data_inv_head [OF D x]
    have fine: "frame_fine ty x" "fr_time_base x = st_tb st" using hx(1) by (simp_all add: frame_held_def)
    define nb where "nb = ask st"
    note as = asked [OF D T x True [THEN conjunct2], folded nb_def]
    have audio: "ty = SYNC_QUEUE_FRAMES \<and> frame_samples ty x = fr_nb_samples x \<and> 0 < fr_nb_samples x \<and> 0 < nb \<and> nb \<le> samples_queued st \<and> nb \<le> 2 ^ 28 \<and>
        samples_time nb x \<le> 2 ^ 29" if "st_frame_samples st \<noteq> 0" using as(1) [OF that] .
    have nb0: "nb = 0" if "st_frame_samples st = 0" using as(2) [OF that] .
    have near: "near_origin (frame_end x nb) (st_tb st)" if "frame_end x nb \<noteq> AV_NOPTS_VALUE" using as(3) [OF that] .
    have dur: "set_duration (fr_nb_samples x) x = x" if "frame_samples ty x \<noteq> 0" using that hx(1) by (simp add: frame_held_def)
    define h where "h = streams sq ! nat (head_stream sq)"
    define cmp where "cmp = (if frame_end x nb \<noteq> AV_NOPTS_VALUE \<and> head_stream sq \<ge> 0 then av_compare_ts (frame_end x nb) (st_tb st) (head_ts h) (st_tb h) else 1)"
    have order: "head_stream sq \<ge> 0 \<and> seconds (frame_end x nb) (st_tb st) \<le> pos h" if "cmp \<le> 0"
    proof -
      have c: "frame_end x nb \<noteq> AV_NOPTS_VALUE" "head_stream sq \<ge> 0" "av_compare_ts (frame_end x nb) (st_tb st) (head_ts h) (st_tb h) \<le> 0"
        using that by (simp_all add: cmp_def split: if_splits)
      obtain k where k: "k < length (streams sq)" "head_stream sq = int k" "limiting (streams sq ! k)"
        "\<forall>i < length (streams sq). limiting (streams sq ! i) \<longrightarrow> has_ts (streams sq ! i)"
        using C c(2) unfolding control_inv_def head_inv_nth by auto
      then have "has_ts h" "time_inv h" using control_inv_nth [OF C k(1)] by (simp_all add: h_def)
      then show ?thesis using c near T compare_ts_iff(2) [of "st_tb st" "st_tb h" "frame_end x nb" "head_ts h"] by (simp add: time_inv_def pos_def)
    qed
    define rel where "rel \<longleftrightarrow> cmp \<le> 0 \<or> frame_end x nb = AV_NOPTS_VALUE \<or> \<not> have_limiting sq"
    define how where "how = (if nb \<noteq> 0 then (if nb \<noteq> fr_nb_samples x then Some True else map_option Not (frame_is_aligned (align_mask sq) x)) else Some False)"
    have unroll: "receive_for_stream env sq idx fr =
      (if rel then
         case how of
           None \<Rightarrow> None
         | Some True \<Rightarrow> map_option (\<lambda>(ret, frame, st). (if ret < 0 then ret else 0, frame, upd_stream idx (\<lambda>_. st) sq)) (receive_samples env (align_mask sq) st fr nb)
         | Some False \<Rightarrow>
             (case sq_read (st_fifo st) fr of
                None \<Rightarrow> None
              | Some (ret, frame, fifo) \<Rightarrow>
                  if ret < 0 \<or> \<not> samples_queued st \<ge> w64 (frame_samples ty frame) then None
                  else Some (0, frame, upd_stream idx (\<lambda>st. st\<lparr>st_fifo := fifo, samples_queued := w64 (samples_queued st - frame_samples ty frame)\<rparr>) sq))
       else Some (wait, fr, sq))"
      unfolding receive_for_stream_def if_not_P [OF nn] Let_def st_def [symmetric] if_P [OF True] ask_def [symmetric] nb_def [symmetric] pk option.case
        h_def [symmetric] cmp_def [symmetric] rel_def [symmetric] how_def [symmetric] ty_def [symmetric] wait_def [symmetric] by (rule refl)
    have limits: "frame_end x nb \<noteq> AV_NOPTS_VALUE \<longrightarrow> have_limiting sq \<longrightarrow> head_stream sq \<ge> 0 \<and> seconds (frame_end x nb) (st_tb st) \<le> pos h" if rel
      using that order by (auto simp: rel_def)
    show ?thesis
    proof (cases rel)
      case False
      then have "receive_for_stream env sq idx fr = Some (wait, fr, sq)" unfolding unroll by simp
      then show ?thesis using wait by auto
    next
      case r: True
      have amask: "0 < align_mask sq" if "st_frame_samples st \<noteq> 0"
      proof -
        have "st \<in> set (streams sq)" using idx by (simp add: st_def)
        then show ?thesis using C that unfolding control_inv_def flags_inv_def by blast
      qed
      consider (copy) "how = Some True" "st_frame_samples st \<noteq> 0" | (whole) "how = Some False" "st_frame_samples st \<noteq> 0 \<longrightarrow> nb = fr_nb_samples x"
        using audio nb0 amask by (cases "st_frame_samples st = 0"; cases "nb = fr_nb_samples x") (auto simp: how_def frame_is_aligned_def)
      then show ?thesis
      proof cases
        case copy
        have a: "ty = SYNC_QUEUE_FRAMES" "0 < nb" "nb \<le> samples_queued st" "nb \<le> INT_MAX" using audio [OF copy(2)] by simp_all
        obtain ret dst' st' where res: "receive_samples env (align_mask sq) st fr nb = Some (ret, dst', st')"
          "if ret < 0 then st' = st
           else ret = 0 \<and> st' = st\<lparr>st_fifo := st_fifo st', samples_queued := samples_queued st'\<rparr> \<and> data_inv SYNC_QUEUE_FRAMES st' \<and>
             length (held st') \<le> length (held st) \<and>
             fr_samples dst' = take (nat nb) (payload st) \<and> payload st' = drop (nat nb) (payload st) \<and> fr_nb_samples dst' = nb \<and>
             fr_time_base dst' = fr_time_base x \<and> frame_end dst' 0 = frame_end x nb"
          using receive_samples_spec [OF D [unfolded a(1)] copy(2) amask [OF copy(2)] env a(2-4) x, of fr] by blast
        have out: "receive_for_stream env sq idx fr = Some (if ret < 0 then ret else 0, dst', upd_stream idx (\<lambda>_. st') sq)"
          unfolding unroll using r copy(1) res(1) by simp
        show ?thesis
        proof (cases "ret < 0")
          case True
          then have "upd_stream idx (\<lambda>_. st') sq = sq" using res(2) by (simp add: upd_stream_def st_def)
          then show ?thesis using out True by auto
        next
          case False
          define g where "g = (\<lambda>s :: 'a SyncQueueStream. s\<lparr>st_fifo := st_fifo st', samples_queued := samples_queued st'\<rparr>)"
          have st': "st' = g st" using res(2) False unfolding g_def by simp
          have u: "upd_stream idx (\<lambda>_. st') sq = upd_stream idx g sq" by (simp add: upd_stream_def st' st_def)
          have q: "queue_inv (upd_stream idx g sq)"
            using res(2) False a(1) st' unfolding g_def by (intro queue_inv_fifo [OF inv idx]) (simp add: ty_def st_def)
          have e: "streams (upd_stream idx g sq) ! idx = st'" using idx by (simp add: st' st_def)
          have sp: "samples_queued st = int (length (payload st))" using audio_data_inv [OF copy(2)] D a(1) by simp
          have nbs: "if int (length (payload st)) < st_frame_samples st then st_finished st \<and> nb = int (length (payload st)) else nb = st_frame_samples st"
            using True fs sp unfolding nb_def ask_eq [OF D] by (auto simp: min_def)
          have ln: "length (take (nat nb) (payload st)) = nat nb" using a(3) sp by simp
          have "released idx sq dst' (upd_stream idx g sq)"
            unfolding released_def Let_def e st_def [symmetric] h_def [symmetric]
            using res(2) False copy(2) fine(2) limits [OF r] nbs a(2) ln sp fs0 by (auto simp: g_def)
          then show ?thesis using out False q u by simp
        qed
      next
        case whole
        obtain fifo where fifo: "sq_read (st_fifo st) fr = Some (0, x, fifo)" "cf_inv (\<lambda>c. c = blank_frame) fifo" "cf_contents fifo = xs"
          using sq_read_eq [OF cf x] by blast
        define q where "q = samples_queued st - frame_samples ty x"
        have bound: "samples_queued st \<le> 2 ^ 32 * INT_MAX"
          using queued_bounds(2) [OF D] D by (intro order_trans [OF queued_bounds(2) [OF D]]) (simp add: data_inv_def)
        have w: "w64 (frame_samples ty x) = frame_samples ty x" "w64 (samples_queued st - frame_samples ty x) = q"
          using hx(2,3) bound by (simp_all add: w64_id q_def)
        define g where "g = (\<lambda>s :: 'a SyncQueueStream. s\<lparr>st_fifo := fifo, samples_queued := q\<rparr>)"
        have out: "receive_for_stream env sq idx fr = Some (0, x, upd_stream idx g sq)"
          unfolding unroll using r whole(1) fifo(1) w hx(2) by (simp add: g_def upd_stream_def st_def [symmetric])
        have e: "streams (upd_stream idx g sq) ! idx = g st" using idx by (simp add: st_def)
        have hg: "held (g st) = xs" by (simp add: g_def fifo(3))
        have "data_inv ty (g st)"
          using D fifo(2) x hx(4) hg unfolding data_inv_def by (auto simp: g_def q_def frame_held_def)
        then have qi: "queue_inv (upd_stream idx g sq)" unfolding g_def by (intro queue_inv_fifo [OF inv idx]) (simp add: ty_def st_def)
        have ends: "frame_end x 0 = frame_end x nb"
        proof (cases "st_frame_samples st = 0")
          case False
          have "frame_samples ty x \<noteq> 0" using audio [OF False] by linarith
          then have "set_duration nb x = x" using dur whole(2) False by simp
          then have "fr_duration x = av_rescale_q nb (av_make_q 1 (fr_sample_rate x)) (fr_time_base x)"
            by (metis SyncQueueFrame.select_convs(2) SyncQueueFrame.surjective SyncQueueFrame.update_convs(2) set_duration_def)
          then show ?thesis using audio [OF False] by (simp add: frame_end_def)
        qed (simp add: nb0)
        have "released idx sq x (upd_stream idx g sq)"
        proof (cases "st_frame_samples st = 0")
          case z: True
          then show ?thesis unfolding released_def Let_def e st_def [symmetric] h_def [symmetric] hg
            using x fine(2) limits [OF r] ends by (simp add: g_def)
        next
          case nz: False
          note a = audio [OF nz]
          have sp: "samples_queued st = int (length (payload st))" using audio_data_inv [OF nz] D a by simp
          have "audio_held st x" using hx(1) a nz by (simp add: audio_held_iff)
          then have len: "int (length (fr_samples x)) = nb" "fr_samples x \<noteq> []" using audio_held_range [of st x] whole(2) nz a by auto
          have p: "payload st = fr_samples x @ payload (g st)" by (simp add: payload_def x hg)
          have nbs: "if int (length (payload st)) < st_frame_samples st then st_finished st \<and> nb = int (length (payload st)) else nb = st_frame_samples st"
            using True fs sp unfolding nb_def ask_eq [OF D] by (auto simp: min_def)
          have pl: "int (length (payload st)) = nb + int (length (payload (g st)))" unfolding p length_append of_nat_add len(1) ..
          have "if int (length (payload st)) < st_frame_samples st then st_finished st \<and> payload (g st) = []
              else int (length (fr_samples x)) = st_frame_samples st"
            using nbs len(1) pl by (cases "int (length (payload st)) < st_frame_samples st") simp_all
          then have sizes: "payload st = fr_samples x @ payload (g st) \<and> fr_samples x \<noteq> [] \<and>
              (if int (length (payload st)) < st_frame_samples st then st_finished st \<and> payload (g st) = []
               else int (length (fr_samples x)) = st_frame_samples st)" using p len(2) by blast
          have "upd_stream idx g sq = upd_stream idx (\<lambda>s. s\<lparr>st_fifo := st_fifo (g st), samples_queued := samples_queued (g st)\<rparr>) sq" by (simp add: g_def)
          moreover have "length (held (g st)) \<le> length (held st)" by (simp add: hg x)
          ultimately show ?thesis unfolding released_def Let_def e st_def [symmetric] h_def [symmetric] if_not_P [OF nz]
            using fine(2) limits [OF r] sizes unfolding ends by blast
        qed
        then show ?thesis using out qi by simp
      qed
    qed
  qed
qed

text \<open>
  A stream that is ready is served: when the end of what it asks for is not past the head, and no call into \<^verbatim>\<open>frame.c\<close> fails,
  a frame comes out.
\<close>

lemma receive_for_stream_ready:
  assumes inv: "queue_inv sq" and idx: "idx < length (streams sq)" and env: "env_ok env" "st_frame_samples (streams sq ! idx) \<noteq> 0 \<Longrightarrow> no_errors env"
    and x: "held (streams sq ! idx) = x # xs"
    and ready: "st_frame_samples (streams sq ! idx) \<le> samples_queued (streams sq ! idx) \<or> st_finished (streams sq ! idx)"
    and rel: "frame_end x (ask (streams sq ! idx)) \<noteq> AV_NOPTS_VALUE \<Longrightarrow> have_limiting sq \<Longrightarrow>
      head_stream sq \<ge> 0 \<and> seconds (frame_end x (ask (streams sq ! idx))) (st_tb (streams sq ! idx)) \<le> pos (streams sq ! nat (head_stream sq))"
  shows "\<exists>fr' sq'. receive_for_stream env sq idx fr = Some (0, fr', sq') \<and> queue_inv sq' \<and> released idx sq fr' sq'"
proof -
  define st where "st = streams sq ! idx"
  define h where "h = streams sq ! nat (head_stream sq)"
  have D: "data_inv (sq_type sq) st" using inv idx by (simp add: queue_inv_nth st_def)
  have C: "control_inv sq" using inv by (simp add: queue_inv_def)
  have T: "time_inv st" using control_inv_nth [OF C idx] by (simp add: st_def)
  have cf: "cf_inv (\<lambda>c. c = blank_frame) (st_fifo st)" using D by (simp add: data_inv_def)
  have x: "held st = x # xs" using x by (simp add: st_def)
  have fs: "w64 (st_frame_samples st) = st_frame_samples st" using D by (intro w64_id) (simp_all add: data_inv_def)
  have ready: "av_container_fifo_can_read (st_fifo st) \<noteq> 0 \<and> (w64 (st_frame_samples st) \<le> samples_queued st \<or> st_finished st)"
    using ready held_length [OF cf] x fs by (simp add: st_def)
  note as = asked [OF D T x ready [THEN conjunct2]]
  define cmp where "cmp = (if frame_end x (ask st) \<noteq> AV_NOPTS_VALUE \<and> head_stream sq \<ge> 0
    then av_compare_ts (frame_end x (ask st)) (st_tb st) (head_ts h) (st_tb h) else 1)"
  have rel: "cmp \<le> 0 \<or> frame_end x (ask st) = AV_NOPTS_VALUE \<or> \<not> have_limiting sq"
  proof (cases "frame_end x (ask st) = AV_NOPTS_VALUE \<or> \<not> have_limiting sq")
    case False
    then have r: "head_stream sq \<ge> 0" "seconds (frame_end x (ask st)) (st_tb st) \<le> pos h" using rel by (simp_all add: st_def h_def)
    then obtain k where k: "k < length (streams sq)" "head_stream sq = int k" "limiting (streams sq ! k)"
      "\<forall>i < length (streams sq). limiting (streams sq ! i) \<longrightarrow> has_ts (streams sq ! i)"
      using C unfolding control_inv_def head_inv_nth by auto
    then have "has_ts h" "time_inv h" using control_inv_nth [OF C k(1)] by (simp_all add: h_def)
    then have "av_compare_ts (frame_end x (ask st)) (st_tb st) (head_ts h) (st_tb h) \<le> 0"
      using False as(3) r(2) T compare_ts_iff(2) [of "st_tb st" "st_tb h" "frame_end x (ask st)" "head_ts h"] by (simp add: time_inv_def pos_def)
    then show ?thesis using False r(1) by (simp add: cmp_def)
  qed blast
  have pk: "peek_first (st_fifo st) = Some x" by (simp add: peek_first_eq [OF cf] x)
  obtain ret fr' sq' where r: "receive_for_stream env sq idx fr = Some (ret, fr', sq')"
    "if ret < 0 then sq' = sq else ret = 0 \<and> queue_inv sq' \<and> released idx sq fr' sq'"
    using receive_for_stream_spec [OF inv idx env(1), of fr] by blast
  have nn: "\<not> \<not> idx < length (streams sq)" using idx by simp
  have "\<not> ret < 0"
  proof (cases "st_frame_samples st = 0")
    case True
    then show ?thesis using r(1)
      unfolding receive_for_stream_def if_not_P [OF nn] Let_def st_def [symmetric] if_P [OF ready] ask_def [symmetric] pk option.case
        h_def [symmetric] cmp_def [symmetric] if_P [OF rel]
      unfolding as(2) [OF True] by (auto split: option.splits if_splits prod.splits)
  next
    case False
    then have "no_errors env" using env(2) by (simp add: st_def)
    then show ?thesis using r(1)
      unfolding receive_for_stream_def if_not_P [OF nn] Let_def st_def [symmetric] if_P [OF ready] ask_def [symmetric] pk option.case
        h_def [symmetric] cmp_def [symmetric] if_P [OF rel]
      by (auto split: option.splits if_splits prod.splits bool.splits dest: receive_samples_ok)
  qed
  then show ?thesis using r by simp
qed

lemma receive_any_spec:
  assumes "queue_inv sq" "\<forall>i \<in> set js. i < length (streams sq)" "env_ok env"
  shows "\<exists>ret fr' sq'. receive_any env js c sq fr = Some (ret, fr', sq') \<and>
    (if ret < 0 then sq' = sq else queue_inv sq' \<and> nat ret < length (streams sq) \<and> released (nat ret) sq fr' sq')"
  using assms(2)
proof (induction js arbitrary: c fr)
  case Nil
  show ?case using AVERROR_neg by (simp del: AVERROR.simps)
next
  case (Cons i js)
  obtain ret fr' sq' where r: "receive_for_stream env sq i fr = Some (ret, fr', sq')"
    "if ret < 0 then sq' = sq else ret = 0 \<and> queue_inv sq' \<and> released i sq fr' sq'"
    using receive_for_stream_spec [OF assms(1) _ assms(3), of i fr] Cons.prems by auto
  show ?case
  proof (cases "ret = AVERROR EOF \<or> ret = AVERROR EAGAIN")
    case True
    then have "ret < 0" using AVERROR_neg by blast
    then have "sq' = sq" using r(2) by simp
    then have "receive_any env (i # js) c sq fr = receive_any env js (c + of_bool (ret = AVERROR EOF)) sq fr'"
      using True r(1) by (simp del: AVERROR.simps)
    moreover have "\<exists>ret fr'' sq'. receive_any env js (c + of_bool (ret' = AVERROR EOF)) sq fr' = Some (ret, fr'', sq') \<and>
      (if ret < 0 then sq' = sq else queue_inv sq' \<and> nat ret < length (streams sq) \<and> released (nat ret) sq fr'' sq')" for ret'
      using Cons.prems by (intro Cons.IH) simp
    ultimately show ?thesis by (simp del: AVERROR.simps)
  next
    case False
    then have "receive_any env (i # js) c sq fr = Some (if ret < 0 then ret else int i, fr', sq')" using r(1) by (simp del: AVERROR.simps)
    then show ?thesis using r(2) Cons.prems by auto
  qed
qed

lemma receive_internal_spec:
  assumes "queue_inv sq" "stream_idx < int (length (streams sq))" "env_ok env"
  shows "\<exists>ret fr' sq'. receive_internal env sq stream_idx fr = Some (ret, fr', sq') \<and>
    (if ret < 0 then sq' = sq
     else queue_inv sq' \<and> nat ret < length (streams sq) \<and> (stream_idx \<ge> 0 \<longrightarrow> ret = stream_idx) \<and> released (nat ret) sq fr' sq')"
proof (cases "stream_idx \<ge> 0")
  case True
  then have "nat stream_idx < length (streams sq)" using assms(2) by simp
  then show ?thesis using receive_for_stream_spec [OF assms(1) _ assms(3), of "nat stream_idx" fr] True
    by (fastforce simp: receive_internal_def split: if_splits)
next
  case False
  obtain ret fr' sq' where r: "receive_any env [0..<length (streams sq)] 0 sq fr = Some (ret, fr', sq')"
    "if ret < 0 then sq' = sq else queue_inv sq' \<and> nat ret < length (streams sq) \<and> released (nat ret) sq fr' sq'"
    using receive_any_spec [OF assms(1) _ assms(3), of "[0..<length (streams sq)]" 0 fr] by auto
  have "receive_internal env sq stream_idx fr = Some (ret, fr', sq')" using False r(1) by (simp add: receive_internal_def)
  then show ?thesis using r(2) False by auto
qed

lemma sq_receive_spec:
  assumes "queue_inv sq" "stream_idx < int (length (streams sq))" "env_ok env" "env_ok env'"
  shows "\<exists>ret fr' sq' sq1. sq_receive env env' sq stream_idx fr = Some (ret, fr', sq') \<and> heads UNIV sq sq1 \<and> queue_inv sq1 \<and> queue_inv sq' \<and>
    (if ret < 0 then sq' = sq1
     else nat ret < length (streams sq) \<and> (stream_idx \<ge> 0 \<longrightarrow> ret = stream_idx) \<and> released (nat ret) sq1 fr' sq')"
proof -
  obtain ret fr' sq' where r: "receive_internal env sq stream_idx fr = Some (ret, fr', sq')"
    "if ret < 0 then sq' = sq
     else queue_inv sq' \<and> nat ret < length (streams sq) \<and> (stream_idx \<ge> 0 \<longrightarrow> ret = stream_idx) \<and> released (nat ret) sq fr' sq'"
    using receive_internal_spec [OF assms(1-3), of fr] by blast
  show ?thesis
  proof (cases "ret = AVERROR EAGAIN")
    case False
    then have "sq_receive env env' sq stream_idx fr = Some (ret, fr', sq')" using r(1) by (simp add: sq_receive_def del: AVERROR.simps)
    then show ?thesis using r(2) assms(1) heads_refl [of UNIV sq] by (auto split: if_splits)
  next
    case True
    then have e: "sq' = sq" using r(2) AVERROR_neg [of EAGAIN] by (simp del: AVERROR.simps)
    obtain b sq1 where h: "overflow_heartbeat sq stream_idx = Some (b, sq1)" "queue_inv sq1" "heads UNIV sq sq1" "\<not> b \<longrightarrow> sq1 = sq"
      using overflow_heartbeat_inv [OF assms(1,2)] by blast
    show ?thesis
    proof (cases b)
      case False
      then have "sq_receive env env' sq stream_idx fr = Some (ret, fr', sq)" using r(1) True e h(1,4) by (simp add: sq_receive_def del: AVERROR.simps)
      then show ?thesis using True AVERROR_neg [of EAGAIN] assms(1) heads_refl [of UNIV sq] by (auto simp del: AVERROR.simps)
    next
      case t: True
      have "stream_idx < int (length (streams sq1))" using assms(2) heads_fields(1) [OF h(3)] by simp
      from receive_internal_spec [OF h(2) this assms(4), of fr'] obtain ret2 fr2 sq2 where r2: "receive_internal env' sq1 stream_idx fr' = Some (ret2, fr2, sq2)"
        "if ret2 < 0 then sq2 = sq1
         else queue_inv sq2 \<and> nat ret2 < length (streams sq1) \<and> (stream_idx \<ge> 0 \<longrightarrow> ret2 = stream_idx) \<and> released (nat ret2) sq1 fr2 sq2" by blast
      have "sq_receive env env' sq stream_idx fr = Some (ret2, fr2, sq2)" using r(1) True e h(1) t r2(1) by (simp add: sq_receive_def del: AVERROR.simps)
      then show ?thesis using r2(2) h(2,3) heads_fields(1) [OF h(3)] by (auto split: if_splits)
    qed
  qed
qed

lemma released_streams:
  assumes "released idx sq fr sq'" "idx < length (streams sq)"
  shows "length (streams sq') = length (streams sq)" "sq_type sq' = sq_type sq" "have_limiting sq' = have_limiting sq"
    "head_stream sq' = head_stream sq" "sq_finished sq' = sq_finished sq"
    "i \<noteq> idx \<Longrightarrow> streams sq' ! i = streams sq ! i" "frames_sent (streams sq' ! i) = frames_sent (streams sq ! i)"
    "frames_max (streams sq' ! i) = frames_max (streams sq ! i)" "st_frame_samples (streams sq' ! i) = st_frame_samples (streams sq ! i)"
    "limiting (streams sq' ! i) = limiting (streams sq ! i)" "st_finished (streams sq' ! i) = st_finished (streams sq ! i)"
    "pos (streams sq' ! i) = pos (streams sq ! i)" "has_ts (streams sq' ! i) = has_ts (streams sq ! i)"
    "samples_sent (streams sq' ! i) = samples_sent (streams sq ! i)"
proof -
  obtain f q where u: "sq' = upd_stream idx (\<lambda>st. st\<lparr>st_fifo := f, samples_queued := q\<rparr>) sq" using assms(1) by (auto simp: released_def Let_def)
  show "length (streams sq') = length (streams sq)" "sq_type sq' = sq_type sq" "have_limiting sq' = have_limiting sq"
    "head_stream sq' = head_stream sq" "sq_finished sq' = sq_finished sq"
    "i \<noteq> idx \<Longrightarrow> streams sq' ! i = streams sq ! i" "frames_sent (streams sq' ! i) = frames_sent (streams sq ! i)"
    "frames_max (streams sq' ! i) = frames_max (streams sq ! i)" "st_frame_samples (streams sq' ! i) = st_frame_samples (streams sq ! i)"
    "limiting (streams sq' ! i) = limiting (streams sq ! i)" "st_finished (streams sq' ! i) = st_finished (streams sq ! i)"
    "pos (streams sq' ! i) = pos (streams sq ! i)" "has_ts (streams sq' ! i) = has_ts (streams sq ! i)"
    "samples_sent (streams sq' ! i) = samples_sent (streams sq ! i)"
    using assms(2) unfolding u by (simp_all add: pos_def)
qed

end
