(* ===== verification/AV_SyncQueueTrace.thy ===== *)
theory AV_SyncQueueTrace
  imports AV_SyncQueueOps
begin

text \<open>
  Sync queues over time: setting one up, and what holds after any sequence of sends and receives.
\<close>

section \<open>Setting up\<close>

lemma sq_alloc_inv: "sq_alloc True ty buf = Some sq \<Longrightarrow> queue_inv sq \<and> streams sq = [] \<and> \<not> sq_finished sq \<and> head_stream sq < 0 \<and> sq_type sq = ty"
  by (auto simp: sq_alloc_def queue_inv_def control_inv_def head_inv_def flags_inv_def finished_inv_def)

lemma sq_add_stream_inv:
  assumes inv: "queue_inv sq" and unf: "\<not> sq_finished sq" and lmt: "lmt \<Longrightarrow> head_stream sq < 0"
    and fifo: "cf_inv (\<lambda>c. c = blank_frame) fifo" "cf_contents fifo = []"
    and add: "sq_add_stream True (Some fifo) sq lmt = (r, sq')"
  shows "queue_inv sq'" "streams sq' = streams sq @ [new_stream fifo lmt]" "\<not> sq_finished sq'" "r = int (length (streams sq))"
    "head_stream sq' = head_stream sq" "sq_type sq' = sq_type sq"
proof -
  have sq': "sq' = sq\<lparr>streams := streams sq @ [new_stream fifo lmt], have_limiting := have_limiting sq \<or> lmt\<rparr>" "r = int (length (streams sq))"
    using add by (simp_all add: sq_add_stream_def)
  show "streams sq' = streams sq @ [new_stream fifo lmt]" "\<not> sq_finished sq'" "r = int (length (streams sq))" "head_stream sq' = head_stream sq" "sq_type sq' = sq_type sq"
    using sq' unf by simp_all
  define st where "st = new_stream fifo lmt"
  have st: "limiting st = lmt" "\<not> has_ts st" "\<not> st_finished st" "st_frame_samples st = 0" "time_inv st" "data_inv (sq_type sq) st"
    using fifo by (simp_all add: st_def new_stream_def time_inv_def data_inv_def tick_ok_def timebase_def qval_def)
  have C: "control_inv sq" using inv by (simp add: queue_inv_def)
  have n: "(streams sq @ [st]) ! i = streams sq ! i" if "i < length (streams sq)" for i using that by (simp add: nth_append)
  have "head_inv sq'"
    using C st(1,2) lmt unfolding control_inv_def head_inv_def sq' st_def [symmetric] by (auto simp: nth_append split: if_splits)
  moreover have "finished_inv None sq'"
  proof -
    have F: "finished_inv None sq" using C by (simp add: control_inv_def flags_inv_def)
    have h: "nat (head_finished_stream sq) < length (streams sq)" if "head_finished_stream sq \<ge> 0" using F that by (auto simp: finished_inv_def)
    show ?thesis using F st(2) h unfolding finished_inv_def sq' st_def [symmetric] by (auto simp: less_Suc_eq n nth_append)
  qed
  moreover have "flags_inv None sq \<Longrightarrow> finished_inv None sq' \<Longrightarrow> flags_inv None sq'"
    using st unf unfolding flags_inv_def sq' st_def [symmetric] by auto
  ultimately show "queue_inv sq'"
    using inv C st(5,6) unfolding queue_inv_def control_inv_def by (simp add: sq' st_def [symmetric])
qed

lemma sq_frame_samples_inv:
  assumes inv: "queue_inv sq" and idx: "idx < length (streams sq)" and ty: "sq_type sq = SYNC_QUEUE_FRAMES" and empty_fifo: "held (streams sq ! idx) = []"
    and nb: "0 \<le> nb" "nb \<le> 2 ^ 28" and al: "1 < max_align"
  shows "\<exists>sq'. sq_frame_samples max_align sq idx nb = Some sq' \<and> queue_inv sq' \<and> sq_type sq' = sq_type sq \<and> length (streams sq') = length (streams sq) \<and>
    streams sq' ! idx = (streams sq ! idx)\<lparr>st_frame_samples := nb\<rparr> \<and> (\<forall>i < length (streams sq). i \<noteq> idx \<longrightarrow> streams sq' ! i = streams sq ! i)"
proof -
  define sq1 where "sq1 = sq\<lparr>align_mask := max_align - 1\<rparr>"
  have s1: "streams sq1 = streams sq" "sq_type sq1 = sq_type sq" by (simp_all add: sq1_def)
  have C: "control_inv sq" using inv by (simp add: queue_inv_def)
  have same: "head_inv sq1 = head_inv sq" "finished_inv None sq1 = finished_inv None sq" by (simp_all add: head_inv_def finished_inv_def sq1_def)
  have C1: "control_inv sq1" using C al unfolding control_inv_def flags_inv_def same by (simp add: sq1_def)
  have idx1: "idx < length (streams sq1)" using idx s1 by simp
  define sq' where "sq' = upd_stream idx (\<lambda>st. st\<lparr>st_frame_samples := nb\<rparr>) sq1"
  have "control_inv sq'" unfolding sq'_def
    using control_inv_nth [OF C1 idx1] al by (intro control_inv_replace [OF C1 idx1]) (auto simp: time_inv_def pos_def sq1_def)
  moreover have "data_inv (sq_type sq') (streams sq' ! i)" if "i < length (streams sq)" for i
  proof -
    have "data_inv (sq_type sq) (streams sq ! i)" using inv that by (simp add: queue_inv_nth)
    then show ?thesis using idx1 empty_fifo nb ty that by (auto simp: sq'_def s1 data_inv_def)
  qed
  ultimately have "queue_inv sq'" by (simp add: queue_inv_nth) (simp add: sq'_def s1)
  moreover have "sq_frame_samples max_align sq idx nb = Some sq'" using ty idx by (simp add: sq_frame_samples_def sq'_def sq1_def)
  ultimately show ?thesis using idx1 by (intro exI [of _ sq']) (simp add: sq'_def s1)
qed

lemma sq_limit_frames_inv:
  assumes inv: "queue_inv sq" and idx: "idx < length (streams sq)"
  shows "\<exists>sq'. sq_limit_frames sq idx frames = Some sq' \<and> queue_inv sq' \<and> length (streams sq') = length (streams sq) \<and>
    frames_max (streams sq' ! idx) = frames \<and> (frames_sent (streams sq ! idx) \<ge> frames \<longrightarrow> st_finished (streams sq' ! idx)) \<and>
    (\<forall>i < length (streams sq). held (streams sq' ! i) = held (streams sq ! i))"
proof -
  define sq1 where "sq1 = upd_stream idx (\<lambda>st. st\<lparr>frames_max := frames\<rparr>) sq"
  have C: "control_inv sq" using inv by (simp add: queue_inv_def)
  have C1: "control_inv sq1" unfolding sq1_def
    using control_inv_nth [OF C idx] by (intro control_inv_replace [OF C idx]) (auto simp: time_inv_def pos_def)
  have D1: "data_inv (sq_type sq) (streams sq1 ! i)" if "i < length (streams sq)" for i
    using inv that idx by (auto simp: queue_inv_nth sq1_def data_inv_def frame_held_def)
  have Q1: "queue_inv sq1" using C1 D1 by (simp add: queue_inv_nth) (simp add: sq1_def)
  have idx1: "idx < length (streams sq1)" using idx by (simp add: sq1_def)
  note f = finish_stream_queue_inv [OF Q1 idx1]
  have r: "sq_limit_frames sq idx frames = Some (if frames_sent (streams sq1 ! idx) \<ge> frames_max (streams sq1 ! idx) then finish_stream sq1 idx else sq1)"
    using idx by (simp add: sq_limit_frames_def Let_def sq1_def)
  have s1: "frames_sent (streams sq1 ! idx) = frames_sent (streams sq ! idx)" "frames_max (streams sq1 ! idx) = frames"
    "\<And>i. held (streams sq1 ! i) = held (streams sq ! i)" "length (streams sq1) = length (streams sq)" using idx by (simp_all add: sq1_def)
  show ?thesis
  proof (cases "frames_sent (streams sq ! idx) \<ge> frames")
    case True
    then show ?thesis using r f s1 marks_nth(6,13) [OF f(1)] marks_length [OF f(1)] idx by simp
  next
    case False
    then show ?thesis using r Q1 s1 by simp
  qed
qed

section \<open>Runs\<close>

text \<open>A queue with what was put into and taken out of every stream so far.\<close>

record 's sq_world =
  w_sq :: "'s SyncQueue"
  w_sent :: "nat \<Rightarrow> 's SyncQueueFrame list"
  w_got :: "nat \<Rightarrow> 's SyncQueueFrame list"

inductive sq_step :: "'s sq_world \<Rightarrow> 's sq_world \<Rightarrow> bool" where
  send: "idx < length (streams (w_sq w)) \<Longrightarrow> frame_ok (sq_type (w_sq w)) (streams (w_sq w) ! idx) fr \<Longrightarrow>
    sq_send env (w_sq w) idx (Some fr) = Some (ret, fr', sq') \<Longrightarrow>
    sq_step w (w\<lparr>w_sq := sq', w_sent := if ret = 0 then (w_sent w)(idx := w_sent w idx @ [normal (sq_type (w_sq w)) fr]) else w_sent w\<rparr>)"
| finish: "idx < length (streams (w_sq w)) \<Longrightarrow> sq_send env (w_sq w) idx None = Some (ret, fr', sq') \<Longrightarrow> sq_step w (w\<lparr>w_sq := sq'\<rparr>)"
| receive: "stream_idx < int (length (streams (w_sq w))) \<Longrightarrow> env_ok env \<Longrightarrow> env_ok env' \<Longrightarrow>
    sq_receive env env' (w_sq w) stream_idx fr = Some (ret, fr', sq') \<Longrightarrow>
    sq_step w (w\<lparr>w_sq := sq', w_got := if 0 \<le> ret then (w_got w)(nat ret := w_got w (nat ret) @ [fr']) else w_got w\<rparr>)"


text \<open>
  The counters of one stream that keep the frame limit. With a fixed frame size every frame sent has samples, the samples sent
  are counted modulo \<open>2 ^ 64\<close>, and the frames are the whole ones among them; as long as the limit is not past the range of
  the counter, all frames but the last one sent fell short of it.
\<close>

abbreviation samples_of :: "'s SyncQueueFrame list \<Rightarrow> int" where
  "samples_of frs \<equiv> int (length (concat (map fr_samples frs)))"

definition countable :: "'s SyncQueueStream \<Rightarrow> bool" where
  "countable st \<longleftrightarrow> frames_max st * st_frame_samples st + 2 ^ 31 \<le> 2 ^ 64"

definition counts :: "SyncQueueType \<Rightarrow> 's SyncQueueStream \<Rightarrow> 's SyncQueueFrame list \<Rightarrow> bool" where
  "counts ty st sent \<longleftrightarrow> 0 < frames_max st \<and> frames_max st < 2 ^ 64 \<and> 0 \<le> samples_sent st \<and> samples_sent st < 2 ^ 64 \<and>
     (st_frame_samples st \<noteq> 0 \<longrightarrow>
        samples_sent st = w64 (samples_of sent) \<and> frames_sent st = samples_sent st div st_frame_samples st \<and>
        (\<forall>fr \<in> set sent. samples_of [fr] < 2 ^ 31) \<and>
        (countable st \<longrightarrow> sent \<noteq> [] \<longrightarrow> samples_of (butlast sent) < frames_max st * st_frame_samples st))"

lemma counts_exact:
  assumes "counts ty st sent" "st_frame_samples st \<noteq> 0" "0 \<le> st_frame_samples st" "countable st"
  shows "samples_sent st = samples_of sent" "frames_max st \<le> frames_sent st \<longleftrightarrow> frames_max st * st_frame_samples st \<le> samples_of sent"
proof -
  have c: "samples_sent st = w64 (samples_of sent)" "frames_sent st = samples_sent st div st_frame_samples st" "0 < frames_max st"
    using assms(1,2) by (simp_all add: counts_def)
  have "samples_of sent < 2 ^ 64"
  proof (cases "sent = []")
    case False
    then have b: "samples_of (butlast sent) < frames_max st * st_frame_samples st" "samples_of [last sent] < 2 ^ 31"
      using assms(1,2,4) by (simp_all add: counts_def)
    have "samples_of sent = samples_of (butlast sent @ [last sent])" using False by simp
    also have "\<dots> = samples_of (butlast sent) + samples_of [last sent]" by (simp del: append_butlast_last_id)
    finally show ?thesis using b assms(4) by (simp add: countable_def)
  qed simp
  then show s: "samples_sent st = samples_of sent" using c(1) by (simp add: w64_id)
  show "frames_max st \<le> frames_sent st \<longleftrightarrow> frames_max st * st_frame_samples st \<le> samples_of sent"
    using assms(2,3) int_le_div_iff [of "st_frame_samples st" "frames_max st"] by (simp only: c(2) s)
qed

text \<open>
  The books of one stream: the frames, or for a fixed frame size the samples, that came out followed by those still queued are
  those that went in; every frame that came out has the fixed size, but for the end of a finished stream; and no more frames
  went in than the limit allows.
\<close>

definition books :: "SyncQueueType \<Rightarrow> 's SyncQueueStream \<Rightarrow> 's SyncQueueFrame list \<Rightarrow> 's SyncQueueFrame list \<Rightarrow> bool" where
  "books ty st sent got \<longleftrightarrow>
     (if st_frame_samples st = 0
      then sent = got @ held st \<and> frames_sent st = int (length sent) \<and> int (length sent) \<le> frames_max st
      else concat (map fr_samples sent) = concat (map fr_samples got) @ payload st \<and>
        (\<forall>fr \<in> set (butlast got). int (length (fr_samples fr)) = st_frame_samples st) \<and>
        (got \<noteq> [] \<longrightarrow> int (length (fr_samples (last got))) = st_frame_samples st \<or> st_finished st \<and> payload st = [])) \<and>
     (frames_max st \<le> frames_sent st \<longrightarrow> st_finished st) \<and> counts ty st sent"

text \<open>The head indices are \<open>-1\<close> when there is no head.\<close>

definition heads_low :: "'s SyncQueue \<Rightarrow> bool" where
  "heads_low sq \<longleftrightarrow> - 1 \<le> head_stream sq \<and> - 1 \<le> head_finished_stream sq"

definition world_inv :: "'s sq_world \<Rightarrow> bool" where
  "world_inv w \<longleftrightarrow> queue_inv (w_sq w) \<and> heads_low (w_sq w) \<and>
     (\<forall>i < length (streams (w_sq w)). books (sq_type (w_sq w)) (streams (w_sq w) ! i) (w_sent w i) (w_got w i))"

lemma heads_low_upd [simp]: "i < length (streams sq) \<Longrightarrow> heads_low (upd_stream i g sq) = heads_low sq"
  by (simp add: heads_low_def)

lemma finish_stream_low: "heads_low sq \<Longrightarrow> heads_low (finish_stream sq i)"
  by (simp add: heads_low_def finish_stream_def upd_stream_def Let_def)

lemma queue_head_update_low: "queue_head_update sq = Some sq' \<Longrightarrow> heads_low sq \<Longrightarrow> heads_low sq'"
  by (auto simp: heads_low_def queue_head_update_def Let_def split: if_splits option.splits)

text \<open>The operations return a queue in the last component of an optional result.\<close>

definition low_result :: "('a \<times> 'b \<times> 's SyncQueue) option \<Rightarrow> bool" where
  "low_result x \<longleftrightarrow> (\<forall>a b sq. x = Some (a, b, sq) \<longrightarrow> heads_low sq)"

lemma low_resultI:
  "heads_low sq \<Longrightarrow> low_result (Some (a, b, sq))" "low_result None"
  "low_result x \<Longrightarrow> low_result y \<Longrightarrow> low_result (if P then x else y)"
  "low_result x \<Longrightarrow> (\<And>c. low_result (f c)) \<Longrightarrow> low_result (case z of None \<Rightarrow> x | Some c \<Rightarrow> f c)"
  "(\<And>c d. low_result (g c d)) \<Longrightarrow> low_result (case p of (c, d) \<Rightarrow> g c d)"
  "low_result x \<Longrightarrow> low_result y \<Longrightarrow> low_result (case b' of True \<Rightarrow> x | False \<Rightarrow> y)"
  "(\<And>c d e. heads_low (k c d e)) \<Longrightarrow> low_result (map_option (\<lambda>(c, d, e). (h c d e, h' c d e, k c d e)) w)"
  by (auto simp: low_result_def split: if_splits option.splits bool.splits prod.splits)

lemma low_upd: "heads_low sq \<Longrightarrow> heads_low (upd_stream i g sq)"
  by (simp add: heads_low_def upd_stream_def)

lemma stream_update_ts_low:
  assumes "stream_update_ts sq i ts = Some sq'" "heads_low sq"
  shows "heads_low sq'"
proof -
  define sq1 where "sq1 = upd_stream i (\<lambda>st. st\<lparr>head_ts := ts\<rparr>) sq"
  have "heads_low sq1" using assms(2) by (simp add: sq1_def low_upd)
  then have "heads_low (if P then finish_stream sq1 i else sq1)" for P by (simp add: finish_stream_low)
  then show ?thesis
    using assms queue_head_update_low unfolding stream_update_ts_def Let_def sq1_def [symmetric] by (smt (verit) option.inject)
qed

lemma heartbeat_loop_low: "heartbeat_loop idx tail_ts is sq = Some sq' \<Longrightarrow> heads_low sq \<Longrightarrow> heads_low sq'"
  by (induction idx tail_ts "is" sq rule: heartbeat_loop.induct) (auto simp: Let_def dest: stream_update_ts_low split: if_splits option.splits)

lemma overflow_heartbeat_low: "overflow_heartbeat sq i = Some (b, sq') \<Longrightarrow> heads_low sq \<Longrightarrow> heads_low sq'"
  unfolding overflow_heartbeat_def Let_def by (auto dest: heartbeat_loop_low split: if_splits option.splits)

lemma update_low_result:
  "heads_low sq \<Longrightarrow> (\<And>sq. heads_low sq \<Longrightarrow> low_result (f sq)) \<Longrightarrow>
    low_result (case stream_update_ts sq i ts of None \<Rightarrow> None | Some sq \<Rightarrow> f sq)"
  by (cases "stream_update_ts sq i ts") (auto simp: low_resultI(2) dest: stream_update_ts_low)

lemma low_finish_if: "heads_low sq \<Longrightarrow> heads_low (if P then finish_stream sq i else sq)"
  by (simp add: finish_stream_low)

lemma sq_send_low: "heads_low sq \<Longrightarrow> low_result (sq_send env sq i fr)"
  unfolding sq_send_def Let_def
  by (intro update_low_result low_resultI(1-5) low_finish_if finish_stream_low low_upd | assumption)+

lemma receive_for_stream_low: "heads_low sq \<Longrightarrow> low_result (receive_for_stream env sq i fr)"
  unfolding receive_for_stream_def Let_def by (intro low_resultI low_upd | assumption)+

lemma receive_any_low: "heads_low sq \<Longrightarrow> low_result (receive_any env is n sq fr)"
proof (induction "is" arbitrary: n sq fr)
  case (Cons i "is")
  show ?case
  proof (cases "receive_for_stream env sq i fr")
    case (Some r)
    obtain ret fr' sq' where r: "r = (ret, fr', sq')" by (cases r)
    then have "heads_low sq'" using receive_for_stream_low [OF Cons.prems, of env i fr] Some by (simp add: low_result_def)
    then show ?thesis using Cons.IH Some r by (simp add: low_resultI(1) del: AVERROR.simps)
  qed (simp add: low_resultI(2))
qed (simp add: low_resultI(1))

lemma receive_internal_low: "heads_low sq \<Longrightarrow> low_result (receive_internal env sq i fr)"
  using receive_for_stream_low [of sq env "nat i" fr] receive_any_low by (fastforce simp: receive_internal_def low_result_def)

lemma sq_receive_low:
  assumes "sq_receive env env' sq i fr = Some (ret, fr', sq')" "heads_low sq"
  shows "heads_low sq'"
proof -
  obtain ret1 fr1 sq1 where 1: "receive_internal env sq i fr = Some (ret1, fr1, sq1)"
    using assms(1) by (auto simp: sq_receive_def split: option.splits)
  have l1: "heads_low sq1" using receive_internal_low [OF assms(2), of env i fr] 1 by (simp add: low_result_def)
  have l2: "heads_low sq''" if "overflow_heartbeat sq1 i = Some (b, sq2)" "receive_internal env' sq2 i fr1 = Some (r, f, sq'')" for b sq2 r f sq''
    using receive_internal_low [OF overflow_heartbeat_low [OF that(1) l1], of env' i fr1] that(2) by (simp add: low_result_def)
  have l3: "heads_low sq2" if "overflow_heartbeat sq1 i = Some (b, sq2)" for b sq2 using overflow_heartbeat_low [OF that l1] .
  show ?thesis using assms(1) l1 l2 l3 unfolding sq_receive_def 1 by (auto split: if_splits option.splits prod.splits simp del: AVERROR.simps)
qed

lemma books_same:
  assumes "books ty st sent got" "same_stream st st'"
  shows "books ty st' sent got"
proof -
  have "payload st' = payload st" using assms(2) by (simp add: payload_def same_stream_def)
  then show ?thesis using assms by (auto simp: books_def counts_def countable_def same_stream_def split: if_splits)
qed

lemma counts_more:
  assumes c: "counts ty st sent" and unf: "\<not> frames_max st \<le> frames_sent st" and ok: "frame_ok ty st fr" and inv: "data_inv ty st"
    and more: "one_more ty (normal ty fr) st st'"
  shows "counts ty st' (sent @ [normal ty fr])"
proof (cases "st_frame_samples st = 0")
  case True
  then show ?thesis using c more by (simp add: counts_def one_more_def w64_def)
next
  case False
  have fs: "0 \<le> st_frame_samples st" "w64 (st_frame_samples st) = st_frame_samples st"
    using inv by (simp_all add: data_inv_def w64_id)
  have fr: "frame_fine ty fr" "frame_samples ty fr \<noteq> 0" using ok False by (simp_all add: frame_ok_def)
  then have n: "frame_samples ty fr = samples_of [normal ty fr]" "samples_of [normal ty fr] < 2 ^ 31"
    using frame_samples_nb [of ty fr] by (auto simp: frame_fine_def)
  have sum: "samples_of (sent @ [normal ty fr]) = samples_of sent + samples_of [normal ty fr]" by simp
  have s: "samples_sent st' = w64 (samples_of (sent @ [normal ty fr]))"
    using c False more n(1) unfolding sum by (simp add: counts_def one_more_def w64_def mod_add_left_eq)
  moreover have "frames_sent st' = samples_sent st' div st_frame_samples st'" using more False fs(2) by (simp add: one_more_def)
  moreover have "samples_of sent < frames_max st * st_frame_samples st" if "countable st"
    using counts_exact(2) [OF c False fs(1) that] unf by linarith
  moreover have "countable st' = countable st" using more by (simp add: countable_def one_more_def)
  moreover have "\<forall>x \<in> set (sent @ [normal ty fr]). samples_of [x] < 2 ^ 31" using c False n(2) by (simp add: counts_def)
  moreover have "0 \<le> w64 k \<and> w64 k < 2 ^ 64" for k by (simp add: w64_def)
  ultimately show ?thesis using c more unfolding counts_def one_more_def by (simp only: butlast_snoc) metis
qed

lemma books_more:
  assumes b: "books ty st sent got" and unf: "\<not> st_finished st" and ok: "frame_ok ty st fr" "data_inv ty st"
    and more: "one_more ty (normal ty fr) st st'"
  shows "books ty st' (sent @ [normal ty fr]) got"
proof -
  have p: "payload st' = payload st @ fr_samples (normal ty fr)" using more by (simp add: payload_def one_more_def)
  have lt: "\<not> frames_max st \<le> frames_sent st" using b unf by (auto simp: books_def)
  have c: "counts ty st' (sent @ [normal ty fr])" using counts_more [OF _ lt ok more] b by (simp add: books_def)
  show ?thesis
  proof (cases "st_frame_samples st = 0")
    case True
    then have "w64 (frames_sent st + 1) = frames_sent st + 1" using b lt by (intro w64_id) (simp_all add: books_def counts_def)
    then show ?thesis using True b lt more c by (simp add: books_def one_more_def)
  next
    case False
    then show ?thesis using b unf more p c by (auto simp: books_def one_more_def)
  qed
qed

lemma released_data:
  assumes "released idx sq fr sq'"
  shows "if st_frame_samples (streams sq ! idx) = 0 then held (streams sq ! idx) = fr # held (streams sq' ! idx)
    else payload (streams sq ! idx) = fr_samples fr @ payload (streams sq' ! idx) \<and> fr_samples fr \<noteq> [] \<and>
      (if int (length (payload (streams sq ! idx))) < st_frame_samples (streams sq ! idx)
       then st_finished (streams sq ! idx) \<and> payload (streams sq' ! idx) = []
       else int (length (fr_samples fr)) = st_frame_samples (streams sq ! idx))"
  using assms unfolding released_def Let_def by blast

lemma books_less:
  assumes b: "books ty (streams sq ! idx) sent got" and rel: "released idx sq fr sq'" and idx: "idx < length (streams sq)"
  shows "books ty (streams sq' ! idx) sent (got @ [fr])"
proof -
  note s = released_streams [OF rel idx]
  have c: "counts ty (streams sq' ! idx) sent" using b by (simp add: books_def counts_def countable_def s)
  show ?thesis
  proof (cases "st_frame_samples (streams sq ! idx) = 0")
    case True
    then have "held (streams sq ! idx) = fr # held (streams sq' ! idx)" using released_data [OF rel] by simp
    then show ?thesis using b c True by (auto simp: books_def s)
  next
    case False
    then have p: "payload (streams sq ! idx) = fr_samples fr @ payload (streams sq' ! idx)" "fr_samples fr \<noteq> []"
      "if int (length (payload (streams sq ! idx))) < st_frame_samples (streams sq ! idx) then st_finished (streams sq ! idx) \<and> payload (streams sq' ! idx) = []
       else int (length (fr_samples fr)) = st_frame_samples (streams sq ! idx)"
      using released_data [OF rel] unfolding if_not_P [OF False] by blast+
    have full: "\<forall>x \<in> set got. int (length (fr_samples x)) = st_frame_samples (streams sq ! idx)"
    proof (cases "got = []")
      case ne: False
      then have "set got = insert (last got) (set (butlast got))" by (subst append_butlast_last_id [OF ne, symmetric]) (simp del: append_butlast_last_id)
      then show ?thesis using b False ne p(1,2) by (auto simp: books_def)
    qed simp
    have "concat (map fr_samples sent) = concat (map fr_samples got) @ payload (streams sq ! idx)"
      and m: "frames_max (streams sq ! idx) \<le> frames_sent (streams sq ! idx) \<longrightarrow> st_finished (streams sq ! idx)"
      using b False by (simp_all add: books_def)
    then have "concat (map fr_samples sent) = concat (map fr_samples (got @ [fr])) @ payload (streams sq' ! idx)" unfolding p(1) by simp
    moreover have "int (length (fr_samples fr)) = st_frame_samples (streams sq ! idx) \<or> st_finished (streams sq ! idx) \<and> payload (streams sq' ! idx) = []"
      using p(3) by metis
    ultimately show ?thesis using full m c unfolding books_def s if_not_P [OF False] butlast_snoc last_snoc by blast
  qed
qed

lemma world_inv_send:
  assumes inv: "world_inv w" and idx: "idx < length (streams (w_sq w))" and ok: "frame_ok (sq_type (w_sq w)) (streams (w_sq w) ! idx) fr"
    and send: "sq_send env (w_sq w) idx (Some fr) = Some (ret, fr', sq')"
  shows "world_inv (w\<lparr>w_sq := sq', w_sent := if ret = 0 then (w_sent w)(idx := w_sent w idx @ [normal (sq_type (w_sq w)) fr]) else w_sent w\<rparr>)"
proof (cases "st_finished (streams (w_sq w) ! idx)")
  case True
  then have "ret = AVERROR EOF" "sq' = w_sq w" using send idx by (auto simp: sq_send_def simp del: AVERROR.simps)
  then show ?thesis using inv AVERROR_neg [of EOF] by (simp add: world_inv_def del: AVERROR.simps)
next
  case False
  define sq where "sq = w_sq w"
  have Q: "queue_inv sq" and B: "\<And>i. i < length (streams sq) \<Longrightarrow> books (sq_type sq) (streams sq ! i) (w_sent w i) (w_got w i)" and L: "heads_low sq"
    using inv by (simp_all add: world_inv_def sq_def)
  have D: "data_inv (sq_type sq) (streams sq ! idx)" using Q idx by (simp add: queue_inv_nth sq_def)
  obtain sq'' fr'' ret'' where r: "sq_send env sq idx (Some fr) = Some (ret'', Some fr'', sq'')" "queue_inv sq''" "sq_type sq'' = sq_type sq"
    "length (streams sq'') = length (streams sq)" "\<forall>i < length (streams sq). i \<noteq> idx \<longrightarrow> same_stream (streams sq ! i) (streams sq'' ! i)"
    "if ret'' < 0 then fr'' \<in> {normal (sq_type sq) fr, blank_frame} \<and> same_stream (streams sq ! idx) (streams sq'' ! idx)
     else ret'' = 0 \<and> fr'' = blank_frame \<and> one_more (sq_type sq) (normal (sq_type sq) fr) (streams sq ! idx) (streams sq'' ! idx)"
    using sq_send_frame [OF Q idx [folded sq_def] False [folded sq_def] ok [folded sq_def], of env] by blast
  have e: "ret = ret''" "sq' = sq''" using r(1) send by (simp_all add: sq_def)
  have L': "heads_low sq''" using sq_send_low [OF L, of env idx "Some fr"] r(1) by (simp add: low_result_def)
  define sent where "sent = (if ret = 0 then (w_sent w)(idx := w_sent w idx @ [normal (sq_type sq) fr]) else w_sent w)"
  have "books (sq_type sq) (streams sq'' ! i) (sent i) (w_got w i)" if i: "i < length (streams sq)" for i
  proof (cases "i = idx")
    case True
    then show ?thesis
    proof (cases "ret < 0")
      case neg: True
      then show ?thesis using True r(6) e(1) books_same [OF B [OF i]] by (simp add: sent_def)
    next
      case pos: False
      then have "one_more (sq_type sq) (normal (sq_type sq) fr) (streams sq ! idx) (streams sq'' ! idx)" "ret = 0" using r(6) e(1) by simp_all
      then show ?thesis using True books_more [OF B [OF i]] False ok D by (simp add: sent_def sq_def)
    qed
  next
    case False
    then show ?thesis using r(5) i books_same [OF B [OF i]] by (simp add: sent_def)
  qed
  then show ?thesis using r(2-4) e(2) L' unfolding sent_def sq_def [symmetric] by (simp add: world_inv_def)
qed

lemma world_inv_receive:
  assumes inv: "world_inv w" and idx: "stream_idx < int (length (streams (w_sq w)))" and env: "env_ok env" "env_ok env'"
    and rec: "sq_receive env env' (w_sq w) stream_idx fr = Some (ret, fr', sq')"
  shows "world_inv (w\<lparr>w_sq := sq', w_got := if 0 \<le> ret then (w_got w)(nat ret := w_got w (nat ret) @ [fr']) else w_got w\<rparr>)"
proof -
  define sq where "sq = w_sq w"
  have Q: "queue_inv sq" and L: "heads_low sq" and B: "\<And>i. i < length (streams sq) \<Longrightarrow> books (sq_type sq) (streams sq ! i) (w_sent w i) (w_got w i)"
    using inv by (simp_all add: world_inv_def sq_def)
  obtain sq1 where r: "heads UNIV sq sq1" "queue_inv sq1" "queue_inv sq'"
    "if ret < 0 then sq' = sq1 else nat ret < length (streams sq) \<and> released (nat ret) sq1 fr' sq'"
    using sq_receive_spec [OF Q idx [folded sq_def] env, of fr] rec by (auto simp: sq_def split: if_splits)
  have L': "heads_low sq'" using sq_receive_low rec L by (simp add: sq_def)
  note h1 = heads_fields(1,2) [OF r(1)]
  have B1: "books (sq_type sq1) (streams sq1 ! i) (w_sent w i) (w_got w i)" if "i < length (streams sq1)" for i
    using that books_same [OF B] heads_same_stream [OF r(1)] h1 by simp
  show ?thesis
  proof (cases "ret < 0")
    case True
    then show ?thesis using r B1 L' by (simp add: world_inv_def)
  next
    case False
    then have rel: "released (nat ret) sq1 fr' sq'" "nat ret < length (streams sq1)" using r(4) h1 by simp_all
    note s = released_streams [OF rel]
    have "books (sq_type sq') (streams sq' ! i) (w_sent w i) (((w_got w)(nat ret := w_got w (nat ret) @ [fr'])) i)" if "i < length (streams sq')" for i
      using that B1 s(1,2,6) books_less [OF _ rel] by (cases "i = nat ret") auto
    then show ?thesis using r(3) False L' by (simp add: world_inv_def)
  qed
qed

lemma world_inv_finish:
  assumes inv: "world_inv w" and idx: "idx < length (streams (w_sq w))"
  shows "world_inv (w\<lparr>w_sq := finish_stream (w_sq w) idx\<rparr>)"
proof -
  have Q: "queue_inv (w_sq w)" and L: "heads_low (w_sq w)" using inv by (simp_all add: world_inv_def)
  note f = finish_stream_queue_inv [OF Q idx]
  have "books (sq_type (w_sq w)) (streams (finish_stream (w_sq w) idx) ! i) (w_sent w i) (w_got w i)" if i: "i < length (streams (w_sq w))" for i
    using inv i books_same [OF _ marks_same_stream [OF f(1) i]] by (simp add: world_inv_def)
  then show ?thesis using f(2) finish_stream_low [OF L] marks_length [OF f(1)] marks_fields(1) [OF f(1)] by (simp add: world_inv_def)
qed

lemma sq_step_inv: "sq_step w w' \<Longrightarrow> world_inv w \<Longrightarrow> world_inv w'"
proof (induction rule: sq_step.induct)
  case (finish idx w env ret fr' sq')
  then have "sq' = finish_stream (w_sq w) idx" by (simp add: sq_send_def)
  then show ?case using world_inv_finish finish by blast
qed (blast intro: world_inv_send world_inv_receive)+

section \<open>An example\<close>

text \<open>A queue with two streams, the first of them limiting, as a client sets it up, and a frame to send.\<close>

definition demo_frames :: "nat SyncQueueFrame AVContainerFifo" where
  "demo_frames = the (av_container_fifo_alloc (\<lambda>_. True) True True 0)"

definition demo_sq :: "nat SyncQueue" where
  "demo_sq = snd (sq_add_stream True (Some demo_frames)
     (snd (sq_add_stream True (Some demo_frames) (the (sq_alloc True SYNC_QUEUE_FRAMES 10000000)) True)) False)"

definition demo_frame :: "nat SyncQueueFrame" where
  "demo_frame = \<lparr>fr_pts = 0, fr_duration = 40, fr_time_base = av_make_q 1 1000, fr_nb_samples = 0, fr_sample_rate = 0,
     fr_format = AV_SAMPLE_FMT_NONE, fr_channels = 0, fr_data = 0, fr_linesize = 0, fr_samples = []\<rparr>"

definition demo_env :: "nat frame_env" where
  "demo_env = \<lparr>ref_err = 0, layout_err = 0, buffer_err = 0, props_err = 0, new_data = 4096, new_linesize = 4096, new_samples = (\<lambda>n. replicate n 0)\<rparr>"

lemma demo_env_ok: "env_ok demo_env"
  by (simp add: env_ok_def demo_env_def)

lemma demo_frames_inv: "cf_inv (\<lambda>c. c = blank_frame) demo_frames" "cf_contents demo_frames = []"
proof -
  obtain cf :: "nat SyncQueueFrame AVContainerFifo" where "av_container_fifo_alloc (\<lambda>_. True) True True 0 = Some cf"
    by (simp add: av_container_fifo_alloc_def av_fifo_alloc2_def av_realloc_array_def size_mult_def av_refstruct_pool_alloc_ext_def)
  then show "cf_inv (\<lambda>c. c = blank_frame) demo_frames" "cf_contents demo_frames = []"
    using av_container_fifo_alloc_inv [of "\<lambda>_. True" True True 0 cf "\<lambda>c. c = blank_frame"] by (simp_all add: demo_frames_def)
qed

lemma demo_sq_inv: "queue_inv demo_sq" "streams demo_sq = [new_stream demo_frames True, new_stream demo_frames False]" "sq_type demo_sq = SYNC_QUEUE_FRAMES"
proof -
  obtain sq0 :: "nat SyncQueue" where sq0: "sq_alloc True SYNC_QUEUE_FRAMES 10000000 = Some sq0" by (simp add: sq_alloc_def)
  note i0 = sq_alloc_inv [OF sq0]
  obtain r1 sq1 where s1: "sq_add_stream True (Some demo_frames) sq0 True = (r1, sq1)" by (cases "sq_add_stream True (Some demo_frames) sq0 True")
  obtain r2 sq2 where s2: "sq_add_stream True (Some demo_frames) sq1 False = (r2, sq2)" by (cases "sq_add_stream True (Some demo_frames) sq1 False")
  have i1: "queue_inv sq1" "streams sq1 = streams sq0 @ [new_stream demo_frames True]" "\<not> sq_finished sq1" "head_stream sq1 = head_stream sq0" "sq_type sq1 = sq_type sq0"
    using sq_add_stream_inv [OF _ _ _ demo_frames_inv s1] i0 by simp_all
  have i2: "queue_inv sq2" "streams sq2 = streams sq1 @ [new_stream demo_frames False]" "sq_type sq2 = sq_type sq1"
    using sq_add_stream_inv [OF _ _ _ demo_frames_inv s2] i0 i1 by simp_all
  have "demo_sq = sq2" by (simp add: demo_sq_def sq0 s1 s2)
  then show "queue_inv demo_sq" "streams demo_sq = [new_stream demo_frames True, new_stream demo_frames False]" "sq_type demo_sq = SYNC_QUEUE_FRAMES"
    using i0 i1 i2 by simp_all
qed

lemma demo_frame_fine: "frame_fine SYNC_QUEUE_FRAMES demo_frame" "normal SYNC_QUEUE_FRAMES demo_frame = demo_frame"
  by (simp_all add: frame_fine_def demo_frame_def frame_samples_def tick_ok_def timebase_def qval_def frame_end_def seconds_def s64_id in_s64_def normal_def)

lemma demo_frame_ok: "frame_ok SYNC_QUEUE_FRAMES (new_stream demo_frames True) demo_frame"
  using demo_frame_fine by (simp add: frame_ok_def new_stream_def demo_frames_inv)

definition demo_alloc :: "nat SyncQueueFrame alloc_env" where
  "demo_alloc = ((\<lambda>_. True), Some blank_frame, True)"

lemma demo_frames_room: "fifo_inv (cf_fifo demo_frames)" "av_fifo_can_write (cf_fifo demo_frames) = 1"
  "cf_pool demo_frames = the (av_refstruct_pool_alloc_ext True 0 True True False 0)"
  using demo_frames_inv(1)
  by (simp_all add: cf_inv_def) (simp_all add: demo_frames_def av_container_fifo_alloc_def av_fifo_alloc2_def av_realloc_array_def size_mult_def
    av_refstruct_pool_alloc_ext_def av_fifo_can_write_def av_fifo_can_read_def)

lemma demo_written: "map_option fst (sq_write demo_alloc demo_frames fr) = Some 0"
proof -
  obtain f where "av_fifo_write (\<lambda>_. True) (cf_fifo demo_frames) [0] 1 = Some (0, f)"
  proof (cases rule: fifo_write_common_buf [OF demo_frames_room(1), of 1 "[0]" "\<lambda>_. True" "()", case_names len fail ok])
    case (ok f)
    then show thesis using that by (simp add: av_fifo_write_def)
  qed (simp_all add: demo_frames_room)
  then show ?thesis
    by (simp add: write_frame_def demo_alloc_def demo_frames_room(3) av_refstruct_pool_alloc_ext_def av_container_fifo_write_def refstruct_pool_get_ext_def
      container_fifo_init_entry_def set_container_def frame_ops_def frame_transfer_def Let_def)
qed

text \<open>A frame sent to the first of two streams, its FIFO being as it was set up.\<close>

lemma demo_sq_send:
  assumes inv: "queue_inv sq" and len: "length (streams sq) = 2" and fifo: "st_fifo (streams sq ! 0) = demo_frames"
    and unf: "\<not> st_finished (streams sq ! 0)" and ok: "frame_ok (sq_type sq) (streams sq ! 0) fr"
  obtains sq' where "queue_inv sq'" "length (streams sq') = 2" "sq_send demo_alloc sq 0 (Some fr) = Some (0, Some blank_frame, sq')"
    "one_more (sq_type sq) (normal (sq_type sq) fr) (streams sq ! 0) (streams sq' ! 0)" "same_stream (streams sq ! 1) (streams sq' ! 1)"
proof -
  have idx: "0 < length (streams sq)" using len by simp
  obtain ret fr' sq' where s: "sq_send demo_alloc sq 0 (Some fr) = Some (ret, Some fr', sq')" "queue_inv sq'"
    "length (streams sq') = length (streams sq)" "\<forall>i < length (streams sq). i \<noteq> 0 \<longrightarrow> same_stream (streams sq ! i) (streams sq' ! i)"
    "if ret < 0 then fr' \<in> {normal (sq_type sq) fr, blank_frame} \<and> same_stream (streams sq ! 0) (streams sq' ! 0)
     else ret = 0 \<and> fr' = blank_frame \<and> one_more (sq_type sq) (normal (sq_type sq) fr) (streams sq ! 0) (streams sq' ! 0)"
    using sq_send_frame [OF inv idx unf ok, of demo_alloc] by blast
  have st0: "time_inv (streams sq ! 0)" "data_inv (sq_type sq) (streams sq ! 0)" using inv idx by (simp_all add: queue_inv_nth control_inv_def all_streams_nth)
  obtain st where st: "tb_update (streams sq ! 0) fr = Some st" "st = (streams sq ! 0)\<lparr>head_ts := head_ts st, st_tb := st_tb st\<rparr>"
    using tb_update_ok [OF ok st0] by blast
  then have f: "st_fifo st = demo_frames" using fifo by (metis SyncQueueStream.ext_inject SyncQueueStream.surjective SyncQueueStream.update_convs(2,4))
  have w: "r = 0" if "sq_write demo_alloc demo_frames g = Some (r, a, b)" for g r a b using demo_written [of g] that by simp
  have "\<not> ret < 0"
    using s(1) idx unf unfolding sq_send_def Let_def option.case st(1) f by (auto dest!: w split: option.splits if_splits prod.splits)
  then show thesis using s that [of sq'] len by simp
qed

lemma demo_sent:
  obtains sq where "queue_inv sq" "length (streams sq) = 2" "sq_send demo_alloc demo_sq 0 (Some demo_frame) = Some (0, Some blank_frame, sq)"
    "held (streams sq ! 0) = [demo_frame]" "st_frame_samples (streams sq ! 0) = 0" "limiting (streams sq ! 0)" "\<not> limiting (streams sq ! 1)"
    "has_ts (streams sq ! 0)"
proof -
  have d: "length (streams demo_sq) = 2" "st_fifo (streams demo_sq ! 0) = demo_frames" "\<not> st_finished (streams demo_sq ! 0)"
    "frame_ok (sq_type demo_sq) (streams demo_sq ! 0) demo_frame"
    using demo_sq_inv demo_frame_ok by (simp_all add: new_stream_def)
  have e: "frame_end demo_frame 0 \<noteq> AV_NOPTS_VALUE" by (simp add: demo_frame_def frame_end_def s64_id in_s64_def)
  show thesis using that demo_sq_send [OF demo_sq_inv(1) d] demo_sq_inv(2,3) demo_frame_fine(2) e
    by (auto simp: one_more_def same_stream_def new_stream_def demo_frames_inv)
qed

text \<open>The head of a queue whose first stream is the only limiting one and has a timestamp.\<close>

lemma head_first:
  assumes "queue_inv sq" "length (streams sq) = 2" "limiting (streams sq ! 0)" "\<not> limiting (streams sq ! 1)" "has_ts (streams sq ! 0)"
  shows "head_stream sq = 0"
proof -
  have "head_inv sq" using assms(1) by (simp add: queue_inv_def control_inv_def)
  then show ?thesis using assms(2-5) unfolding head_inv_nth by (fastforce simp: less_2_cases_iff split: if_splits)
qed

text \<open>
  The same queue with a frame size of four samples and a limit of one frame on its first stream, and an audio frame of sixteen
  samples.
\<close>

definition demo_audio_sq :: "nat SyncQueue" where
  "demo_audio_sq = the (sq_limit_frames (the (sq_frame_samples 32 demo_sq 0 4)) 0 1)"

definition demo_audio :: "nat SyncQueueFrame" where
  "demo_audio = \<lparr>fr_pts = 0, fr_duration = 16, fr_time_base = av_make_q 1 1000, fr_nb_samples = 16, fr_sample_rate = 1000,
     fr_format = AV_SAMPLE_FMT_S16, fr_channels = 1, fr_data = 4096, fr_linesize = 32, fr_samples = [0..<16]\<rparr>"

lemma demo_audio_sq_inv:
  "queue_inv demo_audio_sq" "sq_type demo_audio_sq = SYNC_QUEUE_FRAMES" "heads_low demo_audio_sq"
  "streams demo_audio_sq = [(new_stream demo_frames True)\<lparr>st_frame_samples := 4, frames_max := 1\<rparr>, new_stream demo_frames False]"
proof -
  have d: "0 < length (streams demo_sq)" "sq_type demo_sq = SYNC_QUEUE_FRAMES" "held (streams demo_sq ! 0) = []"
    using demo_sq_inv by (simp_all add: new_stream_def demo_frames_inv)
  obtain sq1 where sq1: "sq_frame_samples 32 demo_sq 0 4 = Some sq1" "queue_inv sq1" "length (streams sq1) = length (streams demo_sq)"
    using sq_frame_samples_inv [OF demo_sq_inv(1) d, of 4 32] by auto
  obtain sq2 where sq2: "sq_limit_frames sq1 0 1 = Some sq2" "queue_inv sq2" using sq_limit_frames_inv [OF sq1(2), of 0 1] sq1(3) d(1) by auto
  have e: "demo_audio_sq = sq2" by (simp add: demo_audio_sq_def sq1(1) sq2(1))
  show "queue_inv demo_audio_sq" using e sq2(2) by simp
  have sq1': "sq1 = upd_stream 0 (\<lambda>st. st\<lparr>st_frame_samples := 4\<rparr>) (demo_sq\<lparr>align_mask := 31\<rparr>)" using sq1(1) d by (simp add: sq_frame_samples_def)
  then have sq2': "sq2 = upd_stream 0 (\<lambda>st. st\<lparr>frames_max := 1\<rparr>) sq1"
    using sq2(1) by (simp add: sq_limit_frames_def Let_def upd_stream_def demo_sq_inv(2) new_stream_def)
  show "sq_type demo_audio_sq = SYNC_QUEUE_FRAMES"
    "streams demo_audio_sq = [(new_stream demo_frames True)\<lparr>st_frame_samples := 4, frames_max := 1\<rparr>, new_stream demo_frames False]"
    unfolding e sq2' sq1' by (simp_all add: upd_stream_def demo_sq_inv)
  have "heads_low demo_sq" by (simp add: heads_low_def demo_sq_def sq_alloc_def sq_add_stream_def)
  then show "heads_low demo_audio_sq" unfolding e sq2' sq1' by (simp add: heads_low_def upd_stream_def)
qed

lemma demo_audio_rescale: "av_rescale_q n (av_make_q 1 1000) (av_make_q 1 1000) = n" if "n = 4 \<or> n = 16"
  using that by (elim disjE) (simp, code_simp)+

lemma demo_audio_fine:
  "frame_fine SYNC_QUEUE_FRAMES demo_audio" "normal SYNC_QUEUE_FRAMES demo_audio = demo_audio" "frame_end demo_audio 0 = 16" "frame_end demo_audio 4 = 4"
proof -
  have b: "0 < av_get_bytes_per_sample AV_SAMPLE_FMT_S16" by code_simp
  then show "frame_fine SYNC_QUEUE_FRAMES demo_audio"
    by (simp add: frame_fine_def demo_audio_def frame_samples_def tick_ok_def timebase_def qval_def seconds_def samples_time_def)
  show "normal SYNC_QUEUE_FRAMES demo_audio = demo_audio" by (simp add: normal_def frame_samples_def set_duration_def demo_audio_def demo_audio_rescale)
  show "frame_end demo_audio 0 = 16" "frame_end demo_audio 4 = 4" by (simp_all add: frame_end_def demo_audio_def demo_audio_rescale s64_id in_s64_def)
qed

lemma demo_audio_ok: "frame_ok SYNC_QUEUE_FRAMES (streams demo_audio_sq ! 0) demo_audio"
  using demo_audio_fine(1) by (simp add: frame_ok_def demo_audio_sq_inv new_stream_def demo_frames_inv) (simp add: frame_samples_def demo_audio_def)

text \<open>
  The limit on the frames of a stream of fixed size counts what went in: a stream limited to one frame of four samples takes a
  frame of sixteen, from which it makes four.
\<close>

lemma demo_audio_sent:
  obtains sq where "queue_inv sq" "length (streams sq) = 2" "sq_send demo_alloc demo_audio_sq 0 (Some demo_audio) = Some (0, Some blank_frame, sq)"
    "held (streams sq ! 0) = [demo_audio]" "st_frame_samples (streams sq ! 0) = 4" "frames_max (streams sq ! 0) = 1" "frames_sent (streams sq ! 0) = 4"
    "st_finished (streams sq ! 0)" "head_stream sq = 0" "head_ts (streams sq ! 0) \<ge> 16"
proof -
  have d: "length (streams demo_audio_sq) = 2" "st_fifo (streams demo_audio_sq ! 0) = demo_frames" "\<not> st_finished (streams demo_audio_sq ! 0)"
    "frame_ok (sq_type demo_audio_sq) (streams demo_audio_sq ! 0) demo_audio"
    using demo_audio_sq_inv demo_audio_ok by (simp_all add: new_stream_def)
  have n: "frame_samples SYNC_QUEUE_FRAMES demo_audio = 16" by (simp add: frame_samples_def demo_audio_def)
  obtain sq where s: "queue_inv sq" "length (streams sq) = 2" "sq_send demo_alloc demo_audio_sq 0 (Some demo_audio) = Some (0, Some blank_frame, sq)"
    "one_more SYNC_QUEUE_FRAMES demo_audio (streams demo_audio_sq ! 0) (streams sq ! 0)" "same_stream (streams demo_audio_sq ! 1) (streams sq ! 1)"
    using demo_sq_send [OF demo_audio_sq_inv(1) d] unfolding demo_audio_sq_inv(2) demo_audio_fine(2) by blast
  have o: "held (streams sq ! 0) = [demo_audio]" "st_frame_samples (streams sq ! 0) = 4" "frames_max (streams sq ! 0) = 1" "frames_sent (streams sq ! 0) = 4"
    "st_finished (streams sq ! 0)" "limiting (streams sq ! 0)" "has_ts (streams sq ! 0)" "head_ts (streams sq ! 0) \<ge> 16" "\<not> limiting (streams sq ! 1)"
    using s(4,5) demo_audio_sq_inv(4) demo_audio_fine(3) n by (simp_all add: one_more_def same_stream_def new_stream_def demo_frames_inv w64_def)
  show thesis by (rule that [of sq]) (use s o head_first [OF s(1,2) o(6,9,7)] in simp_all)
qed

section \<open>Synchronization\<close>

text \<open>
  C4: the purpose of the queue. Whatever \<^verbatim>\<open>sq_receive\<close> returns, no stream gets ahead of a limiting one: a frame with a
  timestamp is released only when every limiting stream has reached its end, exactly compared across time bases, no
  assertion fails, and the invariant of the queue is kept.
\<close>

theorem sq_receive_limits:
  assumes inv: "queue_inv sq" and idx: "stream_idx < int (length (streams sq))" and env: "env_ok env" "env_ok env'"
  shows "\<exists>ret fr' sq'. sq_receive env env' sq stream_idx fr = Some (ret, fr', sq') \<and> queue_inv sq' \<and>
    (0 \<le> ret \<longrightarrow> frame_end fr' 0 \<noteq> AV_NOPTS_VALUE \<longrightarrow>
       (\<forall>st \<in> set (streams sq'). limiting st \<longrightarrow> has_ts st \<and> seconds (frame_end fr' 0) (fr_time_base fr') \<le> pos st))"
proof -
  obtain ret fr' sq' sq1 where r: "sq_receive env env' sq stream_idx fr = Some (ret, fr', sq')" "heads UNIV sq sq1" "queue_inv sq1" "queue_inv sq'"
    "if ret < 0 then sq' = sq1 else nat ret < length (streams sq) \<and> (stream_idx \<ge> 0 \<longrightarrow> ret = stream_idx) \<and> released (nat ret) sq1 fr' sq'"
    using sq_receive_spec [OF inv idx env, of fr] by blast
  have "has_ts (streams sq' ! i) \<and> seconds (frame_end fr' 0) (fr_time_base fr') \<le> pos (streams sq' ! i)"
    if "0 \<le> ret" "frame_end fr' 0 \<noteq> AV_NOPTS_VALUE" "i < length (streams sq')" "limiting (streams sq' ! i)" for i
  proof -
    have rel: "released (nat ret) sq1 fr' sq'" and n: "nat ret < length (streams sq1)" using r(5) that(1) heads_fields(1) [OF r(2)] by simp_all
    note s = released_streams [OF rel n]
    have C: "control_inv sq1" using r(3) by (simp add: queue_inv_def)
    have i: "i < length (streams sq1)" "limiting (streams sq1 ! i)" using that(3,4) s(1,10) by simp_all
    have "have_limiting sq1" using C nth_mem [OF i(1)] i(2) unfolding control_inv_def flags_inv_def by blast
    then have h: "head_stream sq1 \<ge> 0" "seconds (frame_end fr' 0) (fr_time_base fr') \<le> pos (streams sq1 ! nat (head_stream sq1))"
      using rel that(2) by (simp_all add: released_def Let_def)
    then have "has_ts (streams sq1 ! i) \<and> pos (streams sq1 ! nat (head_stream sq1)) \<le> pos (streams sq1 ! i)"
      using C i unfolding control_inv_def head_inv_nth by auto
    then show ?thesis using h(2) s(12,13) by auto
  qed
  then show ?thesis using r(1,4) by (auto simp: all_streams_nth)
qed


theorem sq_receive_limits_witness:
  "\<exists>sq. held (streams sq ! 0) = [demo_frame] \<and> (\<exists>ret fr' sq'. sq_receive demo_env demo_env sq 0 blank_frame = Some (ret, fr', sq') \<and> queue_inv sq' \<and>
    (0 \<le> ret \<longrightarrow> frame_end fr' 0 \<noteq> AV_NOPTS_VALUE \<longrightarrow>
       (\<forall>st \<in> set (streams sq'). limiting st \<longrightarrow> has_ts st \<and> seconds (frame_end fr' 0) (fr_time_base fr') \<le> pos st)))"
proof -
  obtain sq where sq: "queue_inv sq" "length (streams sq) = 2" "held (streams sq ! 0) = [demo_frame]" by (rule demo_sent)
  then show ?thesis using sq_receive_limits [OF sq(1) _ demo_env_ok demo_env_ok, of 0 blank_frame] by (intro exI [of _ sq]) simp
qed

section \<open>Order and completeness\<close>

lemma books_frames:
  assumes b: "books ty st sent got" and D: "data_inv ty st"
  shows "0 \<le> frames_sent st \<and> frames_sent st < 2 ^ 64"
proof (cases "st_frame_samples st = 0")
  case True
  then show ?thesis using b by (auto simp: books_def counts_def)
next
  case False
  moreover have "counts ty st sent" using b by (simp add: books_def)
  ultimately have c: "frames_sent st = samples_sent st div st_frame_samples st" "0 \<le> samples_sent st" "samples_sent st < 2 ^ 64"
    unfolding counts_def by blast+
  have "0 < st_frame_samples st" using False D by (simp add: data_inv_def)
  moreover have "samples_sent st div st_frame_samples st \<le> samples_sent st"
    using c(2) int_div_le_self by (cases "samples_sent st = 0") simp_all
  moreover note c
  ultimately have "0 < st_frame_samples st" "samples_sent st div st_frame_samples st \<le> samples_sent st" by blast+
  then show ?thesis using c by (simp add: pos_imp_zdiv_nonneg_iff)
qed

text \<open>A queue that has been set up and not used.\<close>

definition fresh_world :: "'s sq_world \<Rightarrow> bool" where
  "fresh_world w \<longleftrightarrow> queue_inv (w_sq w) \<and> heads_low (w_sq w) \<and> w_sent w = (\<lambda>_. []) \<and> w_got w = (\<lambda>_. []) \<and>
     (\<forall>st \<in> set (streams (w_sq w)). held st = [] \<and> frames_sent st = 0 \<and> samples_sent st = 0 \<and> 0 < frames_max st \<and> frames_max st < 2 ^ 64)"

lemma fresh_world_inv: "fresh_world w \<Longrightarrow> world_inv w"
  by (auto simp: fresh_world_def world_inv_def books_def counts_def payload_def all_streams_nth w64_def)

lemma reachable_world_inv: "sq_step\<^sup>*\<^sup>* w w' \<Longrightarrow> fresh_world w \<Longrightarrow> world_inv w'"
  by (induction rule: rtranclp_induct) (simp_all add: fresh_world_inv sq_step_inv)

definition demo_world :: "nat sq_world" where
  "demo_world = \<lparr>w_sq = demo_audio_sq, w_sent = (\<lambda>_. []), w_got = (\<lambda>_. [])\<rparr>"

lemma demo_world_fresh: "fresh_world demo_world"
  using demo_audio_sq_inv by (simp add: fresh_world_def demo_world_def new_stream_def demo_frames_inv)

lemma demo_world_run:
  obtains w where "sq_step\<^sup>*\<^sup>* demo_world w" "w_sent w 0 = [demo_audio]" "length (streams (w_sq w)) = 2"
    "st_frame_samples (streams (w_sq w) ! 0) = 4" "frames_max (streams (w_sq w) ! 0) = 1" "frames_sent (streams (w_sq w) ! 0) = 4"
proof -
  obtain sq where sq: "length (streams sq) = 2" "sq_send demo_alloc demo_audio_sq 0 (Some demo_audio) = Some (0, Some blank_frame, sq)"
    "st_frame_samples (streams sq ! 0) = 4" "frames_max (streams sq ! 0) = 1" "frames_sent (streams sq ! 0) = 4" by (rule demo_audio_sent)
  have "frame_ok (sq_type demo_audio_sq) (streams demo_audio_sq ! 0) demo_audio" "0 < length (streams demo_audio_sq)"
    using demo_audio_sq_inv demo_audio_ok by simp_all
  then have "sq_step demo_world (demo_world\<lparr>w_sq := sq, w_sent := if (0::int) = 0 then (w_sent demo_world)(0 := w_sent demo_world 0 @ [normal (sq_type (w_sq demo_world)) demo_audio]) else w_sent demo_world\<rparr>)"
    using sq by (intro sq_step.send) (simp_all add: demo_world_def)
  from r_into_rtranclp [of sq_step, OF this] show thesis
    by (rule that) (simp_all add: demo_world_def sq demo_audio_sq_inv(2) demo_audio_fine)
qed

text \<open>
  C3: nothing is lost, duplicated or reordered. After any run of a queue that has been set up, that is of sends of frames that
  meet \<open>frame_ok\<close>, ends of streams and receives, with any outcome of the allocations, what was received from a stream followed
  by what is queued in it is what was sent to it: frame by frame, or sample by sample for a stream of fixed-size audio frames,
  all of which have that size but the last one of a finished stream. The frames sent are counted one by one, or as the whole
  frames of the fixed size among all samples sent, and a stream whose count is at its limit is finished. So a stream
  without a fixed size takes no more frames than its limit; one with a fixed size can pass the limit by the last frame sent,
  all frames before that one falling short of it as long as the count of samples does not wrap.
\<close>

theorem sync_queue_in_order:
  assumes "fresh_world w0" "sq_step\<^sup>*\<^sup>* w0 w" "i < length (streams (w_sq w))"
  shows "(if st_frame_samples (streams (w_sq w) ! i) = 0
     then w_sent w i = w_got w i @ held (streams (w_sq w) ! i) \<and> frames_sent (streams (w_sq w) ! i) = int (length (w_sent w i)) \<and>
       int (length (w_sent w i)) \<le> frames_max (streams (w_sq w) ! i)
     else concat (map fr_samples (w_sent w i)) = concat (map fr_samples (w_got w i)) @ concat (map fr_samples (held (streams (w_sq w) ! i))) \<and>
       (\<forall>fr \<in> set (butlast (w_got w i)). int (length (fr_samples fr)) = st_frame_samples (streams (w_sq w) ! i)) \<and>
       (w_got w i \<noteq> [] \<longrightarrow> int (length (fr_samples (last (w_got w i)))) = st_frame_samples (streams (w_sq w) ! i) \<or> st_finished (streams (w_sq w) ! i)) \<and>
       samples_sent (streams (w_sq w) ! i) = samples_of (w_sent w i) mod 2 ^ 64 \<and>
       frames_sent (streams (w_sq w) ! i) = samples_sent (streams (w_sq w) ! i) div st_frame_samples (streams (w_sq w) ! i) \<and>
       (frames_max (streams (w_sq w) ! i) * st_frame_samples (streams (w_sq w) ! i) + 2 ^ 31 \<le> 2 ^ 64 \<longrightarrow>
          samples_sent (streams (w_sq w) ! i) = samples_of (w_sent w i) \<and>
          (w_sent w i \<noteq> [] \<longrightarrow> samples_of (butlast (w_sent w i)) < frames_max (streams (w_sq w) ! i) * st_frame_samples (streams (w_sq w) ! i)))) \<and>
    (frames_max (streams (w_sq w) ! i) \<le> frames_sent (streams (w_sq w) ! i) \<longrightarrow> st_finished (streams (w_sq w) ! i))"
proof -
  have inv: "world_inv w" by (rule reachable_world_inv [OF assms(2,1)])
  then have B: "books (sq_type (w_sq w)) (streams (w_sq w) ! i) (w_sent w i) (w_got w i)" using assms(3) by (simp add: world_inv_def)
  have "data_inv (sq_type (w_sq w)) (streams (w_sq w) ! i)" using inv assms(3) by (simp add: world_inv_def queue_inv_nth)
  then have fs: "0 \<le> st_frame_samples (streams (w_sq w) ! i)" by (simp add: data_inv_def)
  show ?thesis
  proof (cases "st_frame_samples (streams (w_sq w) ! i) = 0")
    case True
    then show ?thesis using B unfolding books_def if_P [OF True] by blast
  next
    case False
    have C: "counts (sq_type (w_sq w)) (streams (w_sq w) ! i) (w_sent w i)" using B by (simp add: books_def)
    show ?thesis
      using B C False counts_exact(1) [OF C False fs] unfolding if_not_P [OF False] books_def counts_def payload_def countable_def w64_def by blast
  qed
qed

theorem sync_queue_in_order_witness:
  "\<exists>w :: nat sq_world. w_sent w 0 = [demo_audio] \<and> st_frame_samples (streams (w_sq w) ! 0) = 4 \<and> frames_max (streams (w_sq w) ! 0) = 1 \<and>
    (if st_frame_samples (streams (w_sq w) ! 0) = 0
     then w_sent w 0 = w_got w 0 @ held (streams (w_sq w) ! 0) \<and> frames_sent (streams (w_sq w) ! 0) = int (length (w_sent w 0)) \<and>
       int (length (w_sent w 0)) \<le> frames_max (streams (w_sq w) ! 0)
     else concat (map fr_samples (w_sent w 0)) = concat (map fr_samples (w_got w 0)) @ concat (map fr_samples (held (streams (w_sq w) ! 0))) \<and>
       (\<forall>fr \<in> set (butlast (w_got w 0)). int (length (fr_samples fr)) = st_frame_samples (streams (w_sq w) ! 0)) \<and>
       (w_got w 0 \<noteq> [] \<longrightarrow> int (length (fr_samples (last (w_got w 0)))) = st_frame_samples (streams (w_sq w) ! 0) \<or> st_finished (streams (w_sq w) ! 0)) \<and>
       samples_sent (streams (w_sq w) ! 0) = samples_of (w_sent w 0) mod 2 ^ 64 \<and>
       frames_sent (streams (w_sq w) ! 0) = samples_sent (streams (w_sq w) ! 0) div st_frame_samples (streams (w_sq w) ! 0) \<and>
       (frames_max (streams (w_sq w) ! 0) * st_frame_samples (streams (w_sq w) ! 0) + 2 ^ 31 \<le> 2 ^ 64 \<longrightarrow>
          samples_sent (streams (w_sq w) ! 0) = samples_of (w_sent w 0) \<and>
          (w_sent w 0 \<noteq> [] \<longrightarrow> samples_of (butlast (w_sent w 0)) < frames_max (streams (w_sq w) ! 0) * st_frame_samples (streams (w_sq w) ! 0)))) \<and>
    (frames_max (streams (w_sq w) ! 0) \<le> frames_sent (streams (w_sq w) ! 0) \<longrightarrow> st_finished (streams (w_sq w) ! 0))"
proof -
  obtain w where w: "sq_step\<^sup>*\<^sup>* demo_world w" "w_sent w 0 = [demo_audio]" "length (streams (w_sq w)) = 2"
    "st_frame_samples (streams (w_sq w) ! 0) = 4" "frames_max (streams (w_sq w) ! 0) = 1" by (rule demo_world_run)
  from w(3) have l: "0 < length (streams (w_sq w))" by simp
  show ?thesis by (rule exI [of _ w]) (intro conjI w(2,4,5) sync_queue_in_order [OF demo_world_fresh w(1) l, THEN conjunct1]
      sync_queue_in_order [OF demo_world_fresh w(1) l, THEN conjunct2])
qed

text \<open>
  The limit on the frames of a stream of fixed size counts what goes in: limited to one frame of four samples, it takes a frame
  of sixteen samples and counts, and has to give out, four.
\<close>

lemma frame_limit_exceeded:
  "\<exists>w :: nat sq_world. sq_step\<^sup>*\<^sup>* demo_world w \<and> frames_max (streams (w_sq w) ! 0) = 1 \<and> frames_sent (streams (w_sq w) ! 0) = 4"
proof -
  obtain w where "sq_step\<^sup>*\<^sup>* demo_world w" "frames_max (streams (w_sq w) ! 0) = 1" "frames_sent (streams (w_sq w) ! 0) = 4" by (rule demo_world_run)
  then show ?thesis by blast
qed

text \<open>
  C10: the types of the C fields. In every state a run (of the steps of C3) of a queue that has been set up can get to, the head
  indices are \<open>-1\<close> at least and less than the number of streams, the time bases are positive fractions of \<^verbatim>\<open>int\<close>s, and the timestamps, the
  counters of samples and frames, the limits and the frame sizes of every stream are in the ranges of the fields that hold them.
\<close>

theorem sync_queue_well_typed:
  assumes "fresh_world w0" "sq_step\<^sup>*\<^sup>* w0 w"
  shows "- 1 \<le> head_stream (w_sq w) \<and> head_stream (w_sq w) < int (length (streams (w_sq w))) \<and>
    - 1 \<le> head_finished_stream (w_sq w) \<and> head_finished_stream (w_sq w) < int (length (streams (w_sq w))) \<and>
    (\<forall>st \<in> set (streams (w_sq w)). timebase (st_tb st) \<and> in_s64 (head_ts st) \<and> 0 \<le> samples_queued st \<and> samples_queued st < 2 ^ 64 \<and>
       0 \<le> samples_sent st \<and> samples_sent st < 2 ^ 64 \<and> 0 \<le> frames_sent st \<and> frames_sent st < 2 ^ 64 \<and> 0 < frames_max st \<and> frames_max st < 2 ^ 64 \<and>
       in_s32 (st_frame_samples st) \<and> (\<forall>fr \<in> set (held st). fr_time_base fr = st_tb st))"
proof -
  have W: "world_inv w" by (rule reachable_world_inv [OF assms(2,1)])
  then have inv: "queue_inv (w_sq w)" and low: "heads_low (w_sq w)" by (simp_all add: world_inv_def)
  from inv have C: "head_inv (w_sq w)" "finished_inv None (w_sq w)" by (simp_all add: queue_inv_def control_inv_def flags_inv_def)
  have "timebase (st_tb st) \<and> in_s64 (head_ts st) \<and> 0 \<le> samples_queued st \<and> samples_queued st < 2 ^ 64 \<and>
      0 \<le> samples_sent st \<and> samples_sent st < 2 ^ 64 \<and> 0 \<le> frames_sent st \<and> frames_sent st < 2 ^ 64 \<and> 0 < frames_max st \<and> frames_max st < 2 ^ 64 \<and>
      in_s32 (st_frame_samples st) \<and> (\<forall>fr \<in> set (held st). fr_time_base fr = st_tb st)" if st: "st \<in> set (streams (w_sq w))" for st
  proof -
    have T: "time_inv st" and D: "data_inv (sq_type (w_sq w)) st" using inv st by (simp_all add: queue_inv_def control_inv_def)
    obtain i where "i < length (streams (w_sq w))" "st = streams (w_sq w) ! i" using st by (metis in_set_conv_nth)
    then have B: "books (sq_type (w_sq w)) st (w_sent w i) (w_got w i)" using W by (simp add: world_inv_def)
    have f: "0 \<le> frames_sent st \<and> frames_sent st < 2 ^ 64" by (rule books_frames [OF B D])
    have "samples_queued st \<le> 2 ^ 32 * INT_MAX"
      using queued_bounds(2) [OF D] D by (intro order_trans [OF queued_bounds(2) [OF D]]) (simp add: data_inv_def)
    moreover have "in_s64 (head_ts st)"
    proof (cases "has_ts st")
      case True
      then have "\<bar>head_ts st\<bar> \<le> 2 ^ 62" using T near_originI(2) [of "st_tb st" "head_ts st"] by (auto simp: time_inv_def near_origin_def)
      then show ?thesis by (simp add: in_s64_def abs_le_iff)
    qed (simp add: in_s64_def)
    ultimately show ?thesis using T D queued_bounds(1) [OF D] f B by (auto simp: time_inv_def data_inv_def in_s32_def frame_held_def books_def counts_def)
  qed
  moreover have "head_stream (w_sq w) < int (length (streams (w_sq w)))" using C(1) by (auto simp: head_inv_def split: if_splits)
  moreover have "head_finished_stream (w_sq w) < int (length (streams (w_sq w)))" using C(2) by (fastforce simp: finished_inv_def)
  ultimately show ?thesis using low by (simp add: heads_low_def)
qed

theorem sync_queue_well_typed_witness:
  "\<exists>w :: nat sq_world. w_sent w 0 = [demo_audio] \<and> frames_sent (streams (w_sq w) ! 0) = 4 \<and> - 1 \<le> head_stream (w_sq w) \<and> head_stream (w_sq w) < int (length (streams (w_sq w))) \<and>
    - 1 \<le> head_finished_stream (w_sq w) \<and> head_finished_stream (w_sq w) < int (length (streams (w_sq w))) \<and>
    (\<forall>st \<in> set (streams (w_sq w)). timebase (st_tb st) \<and> in_s64 (head_ts st) \<and> 0 \<le> samples_queued st \<and> samples_queued st < 2 ^ 64 \<and>
       0 \<le> samples_sent st \<and> samples_sent st < 2 ^ 64 \<and> 0 \<le> frames_sent st \<and> frames_sent st < 2 ^ 64 \<and> 0 < frames_max st \<and> frames_max st < 2 ^ 64 \<and>
       in_s32 (st_frame_samples st) \<and> (\<forall>fr \<in> set (held st). fr_time_base fr = st_tb st))"
proof -
  obtain w where w: "sq_step\<^sup>*\<^sup>* demo_world w" "w_sent w 0 = [demo_audio]" "frames_sent (streams (w_sq w) ! 0) = 4" by (rule demo_world_run)
  show ?thesis by (rule exI [of _ w], rule conjI [OF w(2) conjI [OF w(3) sync_queue_well_typed [OF demo_world_fresh w(1)]]])
qed

section \<open>Progress and ends of streams\<close>

lemma released_size:
  assumes "released h sq fr' sq'" "held (streams sq ! h) = x # xs"
  shows "if st_frame_samples (streams sq ! h) = 0 then fr' = x \<and> held (streams sq' ! h) = xs
     else payload (streams sq ! h) = fr_samples fr' @ payload (streams sq' ! h) \<and>
       int (length (fr_samples fr')) = min (st_frame_samples (streams sq ! h)) (int (length (payload (streams sq ! h))))"
proof (cases "st_frame_samples (streams sq ! h) = 0")
  case True
  then show ?thesis using released_data [OF assms(1)] assms(2) by simp
next
  case False
  then have p: "payload (streams sq ! h) = fr_samples fr' @ payload (streams sq' ! h)"
    "if int (length (payload (streams sq ! h))) < st_frame_samples (streams sq ! h) then payload (streams sq' ! h) = []
     else int (length (fr_samples fr')) = st_frame_samples (streams sq ! h)"
    using released_data [OF assms(1)] unfolding if_not_P [OF False] by (blast, metis)
  then have "int (length (fr_samples fr')) = min (st_frame_samples (streams sq ! h)) (int (length (payload (streams sq ! h))))"
    by (cases "int (length (payload (streams sq ! h))) < st_frame_samples (streams sq ! h)") simp_all
  then show ?thesis unfolding if_not_P [OF False] using p(1) by blast
qed

text \<open>
  C7: the queue does not get stuck on its head. In every state that meets the invariant \<open>queue_inv\<close>, the oldest frame of the head
  stream is released at once, whatever the other streams hold, when the stream has no fixed frame size. With a fixed size
  (the C API allows it for audio frames) a frame of that size, or of what is left of a finished stream, is released at once
  when its samples are there, its end is not past the timestamp of the stream, and no call into \<^verbatim>\<open>frame.c\<close> fails.
\<close>

theorem sq_receive_head_progress:
  assumes inv: "queue_inv sq" and head: "head_stream sq = int h" and some: "held (streams sq ! h) = x # xs" and env: "env_ok env" "env_ok env'"
    and fixed: "st_frame_samples (streams sq ! h) \<noteq> 0 \<Longrightarrow>
      (st_frame_samples (streams sq ! h) \<le> samples_queued (streams sq ! h) \<or> st_finished (streams sq ! h)) \<and>
      frame_end x (ask (streams sq ! h)) \<le> head_ts (streams sq ! h) \<and> no_errors env"
  shows "\<exists>fr' sq'. sq_receive env env' sq (int h) fr = Some (int h, fr', sq') \<and> queue_inv sq' \<and>
    (if st_frame_samples (streams sq ! h) = 0 then fr' = x \<and> held (streams sq' ! h) = xs
     else payload (streams sq ! h) = fr_samples fr' @ payload (streams sq' ! h) \<and>
       int (length (fr_samples fr')) = min (st_frame_samples (streams sq ! h)) (int (length (payload (streams sq ! h)))))"
proof -
  define st where "st = streams sq ! h"
  have "head_inv sq" using inv by (simp add: queue_inv_def control_inv_def)
  then have h: "h < length (streams sq)" "has_ts st" using head unfolding head_inv_nth by (auto simp: st_def)
  have D: "data_inv (sq_type sq) st" and T: "time_inv st"
    using inv h by (simp_all add: queue_inv_nth control_inv_def all_streams_nth st_def)
  have x: "held st = x # xs" using some by (simp add: st_def)
  have ready: "st_frame_samples st \<le> samples_queued st \<or> st_finished st"
    using fixed queued_bounds(1) [OF D] by (cases "st_frame_samples st = 0") (simp_all add: st_def)
  have "frame_end x (ask st) \<le> head_ts st" if "frame_end x (ask st) \<noteq> AV_NOPTS_VALUE"
  proof (cases "st_frame_samples st = 0")
    case True
    then have "ask st = 0" using queued_bounds(1) [OF D] by (simp add: ask_eq [OF D])
    then show ?thesis using that True data_inv_head(1) [OF D x] by (simp add: frame_held_def)
  qed (use fixed in \<open>simp add: st_def\<close>)
  then have rel: "seconds (frame_end x (ask st)) (st_tb st) \<le> pos st" if "frame_end x (ask st) \<noteq> AV_NOPTS_VALUE"
    using that T by (simp add: pos_def seconds_mono time_inv_def tick_okD)
  obtain fr' sq' where r: "receive_for_stream env sq h fr = Some (0, fr', sq')" "queue_inv sq'" "released h sq fr' sq'"
  proof (rule exE [OF receive_for_stream_ready [OF inv h(1) env(1) _ some]])
    show "no_errors env" if "st_frame_samples (streams sq ! h) \<noteq> 0" using fixed that by blast
    show "st_frame_samples (streams sq ! h) \<le> samples_queued (streams sq ! h) \<or> st_finished (streams sq ! h)" using ready by (simp only: st_def)
    show "head_stream sq \<ge> 0 \<and> seconds (frame_end x (ask (streams sq ! h))) (st_tb (streams sq ! h)) \<le> pos (streams sq ! nat (head_stream sq))"
      if "frame_end x (ask (streams sq ! h)) \<noteq> AV_NOPTS_VALUE" using rel [unfolded st_def, OF that] by (simp only: head nat_int of_nat_0_le_iff simp_thms)
  qed blast
  have n: "int h \<noteq> AVERROR EAGAIN" using AVERROR_neg [of EAGAIN] by linarith
  have "sq_receive env env' sq (int h) fr = Some (int h, fr', sq')"
    using r(1) n by (simp add: sq_receive_def receive_internal_def del: AVERROR.simps)
  moreover have "if st_frame_samples (streams sq ! h) = 0 then fr' = x \<and> held (streams sq' ! h) = xs
     else payload (streams sq ! h) = fr_samples fr' @ payload (streams sq' ! h) \<and>
       int (length (fr_samples fr')) = min (st_frame_samples (streams sq ! h)) (int (length (payload (streams sq ! h))))"
    by (rule released_size [OF r(3) some])
  ultimately show ?thesis using r(2) by blast
qed

theorem sq_receive_head_progress_witness:
  "\<exists>sq. held (streams sq ! 0) = [demo_audio] \<and> st_frame_samples (streams sq ! 0) = 4 \<and>
    (\<exists>fr' sq'. sq_receive demo_env demo_env sq (int 0) blank_frame = Some (int 0, fr', sq') \<and> queue_inv sq' \<and>
    (if st_frame_samples (streams sq ! 0) = 0 then fr' = demo_audio \<and> held (streams sq' ! 0) = []
     else payload (streams sq ! 0) = fr_samples fr' @ payload (streams sq' ! 0) \<and>
       int (length (fr_samples fr')) = min (st_frame_samples (streams sq ! 0)) (int (length (payload (streams sq ! 0))))))"
proof -
  obtain sq where sq: "queue_inv sq" "length (streams sq) = 2" "held (streams sq ! 0) = [demo_audio]" "st_frame_samples (streams sq ! 0) = 4"
    "st_finished (streams sq ! 0)" "head_stream sq = 0" "head_ts (streams sq ! 0) \<ge> 16" by (rule demo_audio_sent)
  have D: "data_inv (sq_type sq) (streams sq ! 0)" using sq(1,2) by (simp add: queue_inv_nth)
  then have "samples_queued (streams sq ! 0) = 16" "ask (streams sq ! 0) = 4"
    using sq(3-5) audio_data_inv [of "streams sq ! 0"] unfolding ask_eq [OF D]
    by (cases "sq_type sq"; simp add: data_inv_def frame_samples_def demo_audio_def)+
  moreover have "no_errors demo_env" by (simp add: no_errors_def demo_env_def)
  ultimately show ?thesis
    using sq_receive_head_progress [OF sq(1) _ sq(3) demo_env_ok demo_env_ok, of blank_frame] sq(3-7) demo_audio_fine(4) by (intro exI [of _ sq]) simp
qed

text \<open>A queue whose first stream limits the others, the second one being ahead of it.\<close>

definition demo_ahead :: "nat SyncQueue" where
  "demo_ahead = \<lparr>sq_type = SYNC_QUEUE_FRAMES, sq_finished = False, head_stream = 0, head_finished_stream = - 1, buf_size_us = 10000000,
     streams = [(new_stream demo_frames True)\<lparr>st_tb := av_make_q 1 1000, head_ts := 40, frames_sent := 1\<rparr>,
       (new_stream demo_frames False)\<lparr>st_tb := av_make_q 1 1000, head_ts := 140, frames_sent := 2\<rparr>],
     have_limiting = True, align_mask = 0\<rparr>"

lemma demo_ahead_inv: "queue_inv demo_ahead"
proof -
  have "tick_ok (av_make_q 1 1000)" by (simp add: tick_ok_def timebase_def qval_def)
  moreover have "near_origin 40 (av_make_q 1 1000)" "near_origin 140 (av_make_q 1 1000)" by (simp_all add: near_origin_def seconds_def qval_def)
  ultimately have "\<forall>st \<in> set (streams demo_ahead). time_inv st" by (simp add: demo_ahead_def new_stream_def time_inv_def)
  moreover have "\<forall>st \<in> set (streams demo_ahead). data_inv SYNC_QUEUE_FRAMES st"
    using demo_frames_inv by (simp add: demo_ahead_def new_stream_def data_inv_def)
  moreover have "head_inv demo_ahead" by (simp add: head_inv_def demo_ahead_def new_stream_def)
  moreover have "finished_inv None demo_ahead" by (simp add: finished_inv_def demo_ahead_def new_stream_def less_Suc_eq nth_Cons')
  then have "flags_inv None demo_ahead" by (simp add: flags_inv_def) (simp add: demo_ahead_def new_stream_def)
  ultimately show ?thesis by (simp add: queue_inv_def control_inv_def) (simp add: demo_ahead_def)
qed

text \<open>
  C37: the end of a stream. A null frame finishes it; when the stream limits the others and has a timestamp, every stream at or
  ahead of it is finished too; the queue is finished when all its streams are; and nothing that is queued is lost.
\<close>

theorem sq_send_eof:
  assumes inv: "queue_inv sq" and idx: "idx < length (streams sq)"
  shows "\<exists>sq'. sq_send env sq idx None = Some (0, None, sq') \<and> queue_inv sq' \<and> st_finished (streams sq' ! idx) \<and>
    (limiting (streams sq ! idx) \<and> has_ts (streams sq ! idx) \<longrightarrow>
       (\<forall>st \<in> set (streams sq'). has_ts st \<longrightarrow> pos (streams sq ! idx) \<le> pos st \<longrightarrow> st_finished st)) \<and>
    (sq_finished sq' \<longleftrightarrow> (\<forall>st \<in> set (streams sq'). st_finished st)) \<and>
    map held (streams sq') = map held (streams sq) \<and> map head_ts (streams sq') = map head_ts (streams sq)"
proof -
  define sq' where "sq' = finish_stream sq idx"
  note f = finish_stream_queue_inv [OF inv idx, folded sq'_def]
  note m = marks_nth [OF f(1)] and len = marks_length [OF f(1)]
  have same: "\<exists>b. streams sq' ! i = (streams sq ! i)\<lparr>st_finished := b\<rparr>" if "i < length (streams sq)" for i
    using f(1) that unfolding marks_def by blast
  have e: "held (streams sq' ! i) = held (streams sq ! i)" "head_ts (streams sq' ! i) = head_ts (streams sq ! i)"
    "pos (streams sq' ! i) = pos (streams sq ! i)" "limiting (streams sq' ! i) = limiting (streams sq ! i)" if "i < length (streams sq)" for i
    using same [OF that] by auto
  have F: "finished_inv None sq'" "sq_finished sq' \<longleftrightarrow> streams sq' \<noteq> [] \<and> list_all st_finished (streams sq')"
    using f(2) by (simp_all add: queue_inv_def control_inv_def flags_inv_def)
  have ahead: "st_finished (streams sq' ! i)"
    if "limiting (streams sq ! idx)" "has_ts (streams sq ! idx)" "i < length (streams sq')" "has_ts (streams sq' ! i)" "pos (streams sq ! idx) \<le> pos (streams sq' ! i)" for i
  proof -
    note h0 = that
    have "head_finished_stream sq' \<ge> 0 \<and> pos (streams sq' ! nat (head_finished_stream sq')) \<le> pos (streams sq' ! idx)"
    proof -
      have "limiting (streams sq' ! idx)" "has_ts (streams sq' ! idx)" "idx < length (streams sq')" using that(1,2) e(2,4) [OF idx] idx len by simp_all
      then show ?thesis using F(1) f(3) unfolding finished_inv_def by blast
    qed
    then obtain g where g: "head_finished_stream sq' = int g" "pos (streams sq' ! g) \<le> pos (streams sq' ! i)"
      using h0(5) e(3) [OF idx] by (metis nonneg_int_cases nat_int order_trans)
    then show ?thesis using F(1) h0(3,4) unfolding finished_inv_def by (metis of_nat_0_le_iff of_nat_eq_iff option.distinct(1))
  qed
  have "map held (streams sq') = map held (streams sq)" "map head_ts (streams sq') = map head_ts (streams sq)"
    using e len by (auto intro: nth_equalityI)
  moreover have "streams sq' \<noteq> []" using idx len by auto
  ultimately show ?thesis
    using f F(2) ahead idx unfolding sq'_def [symmetric] by (intro exI [of _ sq']) (auto simp: sq_send_def sq'_def all_streams_nth list_all_iff in_set_conv_nth)
qed

theorem sq_send_eof_witness:
  "limiting (streams demo_ahead ! 0) \<and> has_ts (streams demo_ahead ! 0) \<and> pos (streams demo_ahead ! 0) < pos (streams demo_ahead ! 1) \<and>
    \<not> st_finished (streams demo_ahead ! 1) \<and>
    (\<exists>sq'. sq_send demo_alloc demo_ahead 0 None = Some (0, None, sq') \<and> st_finished (streams sq' ! 0) \<and> st_finished (streams sq' ! 1) \<and> sq_finished sq')"
proof -
  have d: "limiting (streams demo_ahead ! 0)" "has_ts (streams demo_ahead ! 0)" "length (streams demo_ahead) = 2"
    "pos (streams demo_ahead ! 0) < pos (streams demo_ahead ! 1)" "\<not> st_finished (streams demo_ahead ! 1)" "has_ts (streams demo_ahead ! 1)"
    by (simp_all add: demo_ahead_def new_stream_def pos_def seconds_def qval_def)
  then have i: "0 < length (streams demo_ahead)" by simp
  obtain sq' where s: "sq_send demo_alloc demo_ahead 0 None = Some (0, None, sq')" "st_finished (streams sq' ! 0)"
    "\<forall>st \<in> set (streams sq'). has_ts st \<longrightarrow> pos (streams demo_ahead ! 0) \<le> pos st \<longrightarrow> st_finished st"
    "sq_finished sq' \<longleftrightarrow> (\<forall>st \<in> set (streams sq'). st_finished st)" "map head_ts (streams sq') = map head_ts (streams demo_ahead)"
    using sq_send_eof [OF demo_ahead_inv i, of demo_alloc] d(1,2) by blast
  have e: "sq' = finish_stream demo_ahead 0" using s(1) d(3) by (simp add: sq_send_def)
  note f = finish_stream_queue_inv(1) [OF demo_ahead_inv i]
  have n: "length (streams sq') = 2" using marks_length [OF f] d(3) by (simp add: e)
  have "has_ts (streams sq' ! 1)" "pos (streams demo_ahead ! 1) = pos (streams sq' ! 1)" using marks_nth(3,4) [OF f, of 1] d(3,6) by (simp_all add: e)
  then have "st_finished (streams sq' ! 1)" using s(3) d(4) n by (simp add: all_streams_nth)
  then show ?thesis using d s n by (auto simp: all_streams_nth less_2_cases_iff)
qed

text \<open>
  A frame without a timestamp that has a duration does not look like one without a timestamp: its end is a timestamp shortly
  after the smallest one.
\<close>

lemma frame_end_no_pts:
  assumes "fr_pts fr = AV_NOPTS_VALUE" "0 < fr_duration fr" "fr_duration fr \<le> INT64_MAX"
  shows "frame_end fr 0 = AV_NOPTS_VALUE + fr_duration fr" "frame_end fr 0 \<noteq> AV_NOPTS_VALUE"
proof -
  show "frame_end fr 0 = AV_NOPTS_VALUE + fr_duration fr" using assms by (simp add: frame_end_def s64_id in_s64_def)
  then show "frame_end fr 0 \<noteq> AV_NOPTS_VALUE" using assms(2) by simp
qed

end
