(* ===== verification/AV_Bytes.thy ===== *)
theory AV_Bytes
  imports AV_Prelude
begin

text \<open>
  \<^verbatim>\<open>libavutil/intreadwrite.h\<close>: reading and writing integers of 16, 32 and 64 bits at a byte address, in
  the portable definitions. A buffer is the list of the bytes from the address on; writing gives the bytes
  written. The ciphers, hashes and bit readers work on these.
\<close>

unbundle bit_operations_syntax

section \<open>Definitions\<close>

definition AV_RB16 :: "u8 list \<Rightarrow> u16" where
  "AV_RB16 x = push_bit 8 (ucast (x ! 0)) OR ucast (x ! 1)"

definition AV_WB16 :: "u16 \<Rightarrow> u8 list" where
  "AV_WB16 d = [ucast (drop_bit 8 d), ucast d]"

definition AV_RL16 :: "u8 list \<Rightarrow> u16" where
  "AV_RL16 x = push_bit 8 (ucast (x ! 1)) OR ucast (x ! 0)"

definition AV_WL16 :: "u16 \<Rightarrow> u8 list" where
  "AV_WL16 d = [ucast d, ucast (drop_bit 8 d)]"

definition AV_RB32 :: "u8 list \<Rightarrow> u32" where
  "AV_RB32 x = push_bit 24 (ucast (x ! 0)) OR push_bit 16 (ucast (x ! 1)) OR push_bit 8 (ucast (x ! 2)) OR ucast (x ! 3)"

definition AV_WB32 :: "u32 \<Rightarrow> u8 list" where
  "AV_WB32 d = [ucast (drop_bit 24 d), ucast (drop_bit 16 d), ucast (drop_bit 8 d), ucast d]"

definition AV_RL32 :: "u8 list \<Rightarrow> u32" where
  "AV_RL32 x = push_bit 24 (ucast (x ! 3)) OR push_bit 16 (ucast (x ! 2)) OR push_bit 8 (ucast (x ! 1)) OR ucast (x ! 0)"

definition AV_WL32 :: "u32 \<Rightarrow> u8 list" where
  "AV_WL32 d = [ucast d, ucast (drop_bit 8 d), ucast (drop_bit 16 d), ucast (drop_bit 24 d)]"

definition AV_RB64 :: "u8 list \<Rightarrow> u64" where
  "AV_RB64 x = push_bit 56 (ucast (x ! 0)) OR push_bit 48 (ucast (x ! 1)) OR push_bit 40 (ucast (x ! 2)) OR
     push_bit 32 (ucast (x ! 3)) OR push_bit 24 (ucast (x ! 4)) OR push_bit 16 (ucast (x ! 5)) OR
     push_bit 8 (ucast (x ! 6)) OR ucast (x ! 7)"

definition AV_WB64 :: "u64 \<Rightarrow> u8 list" where
  "AV_WB64 d = [ucast (drop_bit 56 d), ucast (drop_bit 48 d), ucast (drop_bit 40 d), ucast (drop_bit 32 d),
     ucast (drop_bit 24 d), ucast (drop_bit 16 d), ucast (drop_bit 8 d), ucast d]"

definition AV_RL64 :: "u8 list \<Rightarrow> u64" where
  "AV_RL64 x = push_bit 56 (ucast (x ! 7)) OR push_bit 48 (ucast (x ! 6)) OR push_bit 40 (ucast (x ! 5)) OR
     push_bit 32 (ucast (x ! 4)) OR push_bit 24 (ucast (x ! 3)) OR push_bit 16 (ucast (x ! 2)) OR
     push_bit 8 (ucast (x ! 1)) OR ucast (x ! 0)"

definition AV_WL64 :: "u64 \<Rightarrow> u8 list" where
  "AV_WL64 d = [ucast d, ucast (drop_bit 8 d), ucast (drop_bit 16 d), ucast (drop_bit 24 d),
     ucast (drop_bit 32 d), ucast (drop_bit 40 d), ucast (drop_bit 48 d), ucast (drop_bit 56 d)]"

section \<open>Reading back what was written\<close>

named_theorems bytes \<open>round trips between integers and bytes\<close>

lemma length_AV_W [simp]:
  "length (AV_WB16 a) = 2" "length (AV_WL16 a) = 2" "length (AV_WB32 b) = 4" "length (AV_WL32 b) = 4"
  "length (AV_WB64 c) = 8" "length (AV_WL64 c) = 8"
  by (simp_all add: AV_WB16_def AV_WL16_def AV_WB32_def AV_WL32_def AV_WB64_def AV_WL64_def)

text \<open>Every bit lies in one of the bytes.\<close>

lemma byte_cases:
  fixes n :: nat
  assumes "n < 64"
  obtains m where "m < 8" "n = m" | m where "m < 8" "n = 8 + m" | m where "m < 8" "n = 16 + m" | m where "m < 8" "n = 24 + m"
    | m where "m < 8" "n = 32 + m" | m where "m < 8" "n = 40 + m" | m where "m < 8" "n = 48 + m" | m where "m < 8" "n = 56 + m"
proof -
  consider "n < 8" | "8 \<le> n" "n < 16" | "16 \<le> n" "n < 24" | "24 \<le> n" "n < 32" | "32 \<le> n" "n < 40" | "40 \<le> n" "n < 48"
    | "48 \<le> n" "n < 56" | "56 \<le> n" "n < 64"
    using assms by linarith
  then show thesis
    using that(1) [of n] that(2) [of "n - 8"] that(3) [of "n - 16"] that(4) [of "n - 24"] that(5) [of "n - 32"] that(6) [of "n - 40"]
      that(7) [of "n - 48"] that(8) [of "n - 56"] by cases auto
qed

lemmas bytes_bits = bit_or_iff bit_push_bit_iff bit_drop_bit_eq bit_unsigned_iff

lemma read_write16 [bytes, simp]: "AV_RB16 (AV_WB16 a @ xs) = a" "AV_RL16 (AV_WL16 a @ xs) = a"
proof -
  show "AV_RB16 (AV_WB16 a @ xs) = a"
  proof (rule bit_word_eqI)
    fix n assume "n < LENGTH(16)"
    then have "n < 64" by simp
    then show "bit (AV_RB16 (AV_WB16 a @ xs)) n = bit a n"
      using \<open>n < LENGTH(16)\<close> by (cases rule: byte_cases) (simp_all add: AV_RB16_def AV_WB16_def bytes_bits)
  qed
  show "AV_RL16 (AV_WL16 a @ xs) = a"
  proof (rule bit_word_eqI)
    fix n assume "n < LENGTH(16)"
    then have "n < 64" by simp
    then show "bit (AV_RL16 (AV_WL16 a @ xs)) n = bit a n"
      using \<open>n < LENGTH(16)\<close> by (cases rule: byte_cases) (simp_all add: AV_RL16_def AV_WL16_def bytes_bits)
  qed
qed

lemma read_write32 [bytes, simp]: "AV_RB32 (AV_WB32 a @ xs) = a" "AV_RL32 (AV_WL32 a @ xs) = a"
proof -
  show "AV_RB32 (AV_WB32 a @ xs) = a"
  proof (rule bit_word_eqI)
    fix n assume "n < LENGTH(32)"
    then have "n < 64" by simp
    then show "bit (AV_RB32 (AV_WB32 a @ xs)) n = bit a n"
      using \<open>n < LENGTH(32)\<close> by (cases rule: byte_cases) (simp_all add: AV_RB32_def AV_WB32_def bytes_bits)
  qed
  show "AV_RL32 (AV_WL32 a @ xs) = a"
  proof (rule bit_word_eqI)
    fix n assume "n < LENGTH(32)"
    then have "n < 64" by simp
    then show "bit (AV_RL32 (AV_WL32 a @ xs)) n = bit a n"
      using \<open>n < LENGTH(32)\<close> by (cases rule: byte_cases) (simp_all add: AV_RL32_def AV_WL32_def bytes_bits)
  qed
qed

lemma read_write64 [bytes, simp]: "AV_RB64 (AV_WB64 a @ xs) = a" "AV_RL64 (AV_WL64 a @ xs) = a"
proof -
  show "AV_RB64 (AV_WB64 a @ xs) = a"
  proof (rule bit_word_eqI)
    fix n assume "n < LENGTH(64)"
    then have "n < 64" by simp
    then show "bit (AV_RB64 (AV_WB64 a @ xs)) n = bit a n"
      using \<open>n < LENGTH(64)\<close> by (cases rule: byte_cases) (simp_all add: AV_RB64_def AV_WB64_def bytes_bits)
  qed
  show "AV_RL64 (AV_WL64 a @ xs) = a"
  proof (rule bit_word_eqI)
    fix n assume "n < LENGTH(64)"
    then have "n < 64" by simp
    then show "bit (AV_RL64 (AV_WL64 a @ xs)) n = bit a n"
      using \<open>n < LENGTH(64)\<close> by (cases rule: byte_cases) (simp_all add: AV_RL64_def AV_WL64_def bytes_bits)
  qed
qed

lemma byte_bit [simp]: "8 \<le> n \<Longrightarrow> \<not> bit b n" for b :: u8
  using bit_imp_le_length [of b n] by auto

lemma write_read16 [bytes]:
  assumes "length x = 2"
  shows "AV_WB16 (AV_RB16 x) = x" "AV_WL16 (AV_RL16 x) = x"
proof -
  obtain b0 b1 where x: "x = [b0, b1]"
    using assms by (auto simp: eval_nat_numeral length_Suc_conv)
  show "AV_WB16 (AV_RB16 x) = x"
    unfolding x AV_RB16_def AV_WB16_def list.inject by (intro conjI bit_word_eqI refl; simp add: bytes_bits)
  show "AV_WL16 (AV_RL16 x) = x"
    unfolding x AV_RL16_def AV_WL16_def list.inject by (intro conjI bit_word_eqI refl; simp add: bytes_bits)
qed

lemma write_read32 [bytes]:
  assumes "length x = 4"
  shows "AV_WB32 (AV_RB32 x) = x" "AV_WL32 (AV_RL32 x) = x"
proof -
  obtain b0 b1 b2 b3 where x: "x = [b0, b1, b2, b3]"
    using assms by (auto simp: eval_nat_numeral length_Suc_conv)
  show "AV_WB32 (AV_RB32 x) = x"
    unfolding x AV_RB32_def AV_WB32_def list.inject by (intro conjI bit_word_eqI refl; simp add: bytes_bits)
  show "AV_WL32 (AV_RL32 x) = x"
    unfolding x AV_RL32_def AV_WL32_def list.inject by (intro conjI bit_word_eqI refl; simp add: bytes_bits)
qed

lemma write_read64 [bytes]:
  assumes "length x = 8"
  shows "AV_WB64 (AV_RB64 x) = x" "AV_WL64 (AV_RL64 x) = x"
proof -
  obtain b0 b1 b2 b3 b4 b5 b6 b7 where x: "x = [b0, b1, b2, b3, b4, b5, b6, b7]"
    using assms by (auto simp: eval_nat_numeral length_Suc_conv)
  show "AV_WB64 (AV_RB64 x) = x"
    unfolding x AV_RB64_def AV_WB64_def list.inject by (intro conjI bit_word_eqI refl; simp add: bytes_bits)
  show "AV_WL64 (AV_RL64 x) = x"
    unfolding x AV_RL64_def AV_WL64_def list.inject by (intro conjI bit_word_eqI refl; simp add: bytes_bits)
qed

end
