(* ===== verification/AV_Bits.thy ===== *)
theory AV_Bits
  imports AV_Bytes
begin

text \<open>
  Bit strings, the specification of the bit readers and writers: the low bits of a number in the order a big-endian or a
  little-endian stream has them, the bits of a byte buffer, and the number a bit string denotes.
\<close>

unbundle bit_operations_syntax

named_theorems bit_strings \<open>lengths, elements and values of bit strings\<close>

definition be_bits :: "nat \<Rightarrow> 'a::semiring_bit_operations \<Rightarrow> bool list" where
  "be_bits n a = map (bit a) (rev [0..<n])"

definition le_bits :: "nat \<Rightarrow> 'a::semiring_bit_operations \<Rightarrow> bool list" where
  "le_bits n a = map (bit a) [0..<n]"

definition be_value :: "bool list \<Rightarrow> nat" where
  "be_value bs = horner_sum of_bool 2 (rev bs)"

definition le_value :: "bool list \<Rightarrow> nat" where
  "le_value bs = horner_sum of_bool 2 bs"

definition be_stream :: "u8 list \<Rightarrow> bool list" where
  "be_stream bytes = concat (map (be_bits 8) bytes)"

definition le_stream :: "u8 list \<Rightarrow> bool list" where
  "le_stream bytes = concat (map (le_bits 8) bytes)"

lemma length_bits [simp, bit_strings]: "length (be_bits n a) = n" "length (le_bits n a) = n"
  by (simp_all add: be_bits_def le_bits_def)

lemma nth_bits [simp, bit_strings]: "i < n \<Longrightarrow> be_bits n a ! i = bit a (n - Suc i)" "i < n \<Longrightarrow> le_bits n a ! i = bit a i"
  by (simp_all add: be_bits_def le_bits_def rev_nth)

lemma rev_bits [simp]: "rev (be_bits n a) = le_bits n a" "rev (le_bits n a) = be_bits n a"
  by (simp_all add: be_bits_def le_bits_def rev_map)

lemma bits_zero_length [simp]: "be_bits 0 a = []" "le_bits 0 a = []"
  by (simp_all add: be_bits_def le_bits_def)

lemma be_bits_0 [simp]: "be_bits n 0 = replicate n False"
  by (rule nth_equalityI) simp_all

lemma be_bits_add: "be_bits (m + n) a = be_bits m (drop_bit n a) @ be_bits n a"
  by (rule nth_equalityI) (auto simp: nth_append bit_drop_bit_eq add.commute [of m n])

lemma le_bits_add: "le_bits (m + n) a = le_bits m a @ le_bits n (drop_bit m a)"
  by (rule nth_equalityI) (auto simp: nth_append bit_drop_bit_eq)

lemma be_bits_cong: "(\<And>i. i < n \<Longrightarrow> bit a i = bit b i) \<Longrightarrow> be_bits n a = be_bits n b"
  by (rule nth_equalityI) simp_all

lemma le_bits_cong: "(\<And>i. i < n \<Longrightarrow> bit a i = bit b i) \<Longrightarrow> le_bits n a = le_bits n b"
  by (rule nth_equalityI) simp_all

lemma be_bits_Suc: "be_bits (Suc n) a = bit a n # be_bits n a"
  by (simp add: be_bits_def)

section \<open>Values\<close>

lemma bit_value [bit_strings]:
  "bit (be_value bs) i \<longleftrightarrow> i < length bs \<and> bs ! (length bs - Suc i)" "bit (le_value bs) i \<longleftrightarrow> i < length bs \<and> bs ! i"
  by (auto simp: be_value_def le_value_def bit_horner_sum_bit_iff rev_nth)

lemma value_nil [simp]: "be_value [] = 0" "le_value [] = 0"
  by (simp_all add: be_value_def le_value_def)

lemma value_bits: "be_value (be_bits n a) = take_bit n a" "le_value (le_bits n a) = take_bit n a" for a :: nat
  by (auto simp: bit_eq_iff bit_strings bit_take_bit_iff)

lemma value_word_bits: "be_value (be_bits n w) = unat (take_bit n w)" "le_value (le_bits n w) = unat (take_bit n w)" for w :: "'a::len word"
  by (auto simp: bit_eq_iff bit_strings bit_take_bit_iff bit_unsigned_iff)

lemma bits_value [simp]: "be_bits (length bs) (be_value bs) = bs" "le_bits (length bs) (le_value bs) = bs"
  by (auto intro!: nth_equalityI simp: bit_strings)

lemma value_less: "be_value bs < 2 ^ length bs" "le_value bs < 2 ^ length bs"
proof -
  have "take_bit (length bs) (be_value bs) = be_value bs" "take_bit (length bs) (le_value bs) = le_value bs"
    by (auto simp: bit_eq_iff bit_strings bit_take_bit_iff)
  then show "be_value bs < 2 ^ length bs" "le_value bs < 2 ^ length bs" by (simp_all add: take_bit_nat_eq_self_iff)
qed

lemma value_append: "be_value (xs @ ys) = be_value xs * 2 ^ length ys + be_value ys" "le_value (xs @ ys) = le_value xs + 2 ^ length xs * le_value ys"
  by (simp_all add: be_value_def le_value_def horner_sum_append mult.commute)

lemma be_value_Cons: "be_value (b # bs) = of_bool b * 2 ^ length bs + be_value bs"
  using value_append(1) [of "[b]" bs] by (simp add: be_value_def)

lemma be_value_replicate_False [simp]: "be_value (replicate n False @ bs) = be_value bs"
  by (induction n) (simp_all add: be_value_Cons)

lemma word_eq_value: "(\<And>i. i < LENGTH('a) \<Longrightarrow> bit w i \<longleftrightarrow> i < length bs \<and> bs ! (length bs - Suc i)) \<Longrightarrow> w = of_nat (be_value bs)" for w :: "'a::len word"
  by (rule bit_word_eqI) (simp add: bit_of_nat_iff bit_strings)

section \<open>Streams\<close>

lemma stream_simps [simp]:
  "be_stream [] = []" "be_stream (b # bs) = be_bits 8 b @ be_stream bs" "be_stream (xs @ ys) = be_stream xs @ be_stream ys"
  "le_stream [] = []" "le_stream (b # bs) = le_bits 8 b @ le_stream bs" "le_stream (xs @ ys) = le_stream xs @ le_stream ys"
  by (simp_all add: be_stream_def le_stream_def)

lemma length_stream [simp, bit_strings]: "length (be_stream bs) = 8 * length bs" "length (le_stream bs) = 8 * length bs"
  by (induction bs) simp_all

lemma drop_stream [simp]: "drop (8 * k) (be_stream bs) = be_stream (drop k bs)" "drop (8 * k) (le_stream bs) = le_stream (drop k bs)"
proof (induction bs arbitrary: k)
  case (Cons b bs)
  { case 1 show ?case using Cons.IH(1) by (cases k) simp_all }
  { case 2 show ?case using Cons.IH(2) by (cases k) simp_all }
qed simp_all

lemma take_stream [simp]: "take (8 * k) (be_stream bs) = be_stream (take k bs)" "take (8 * k) (le_stream bs) = le_stream (take k bs)"
proof (induction bs arbitrary: k)
  case (Cons b bs)
  { case 1 show ?case using Cons.IH(1) by (cases k) simp_all }
  { case 2 show ?case using Cons.IH(2) by (cases k) simp_all }
qed simp_all

lemma nth_stream:
  assumes "i < 8 * length bs"
  shows "be_stream bs ! i = bit (bs ! (i div 8)) (7 - i mod 8)" "le_stream bs ! i = bit (bs ! (i div 8)) (i mod 8)"
proof -
  have k: "i div 8 < length bs" using assms by simp
  have d: "be_stream bs ! i = be_stream (drop (i div 8) bs) ! (i mod 8)" "le_stream bs ! i = le_stream (drop (i div 8) bs) ! (i mod 8)"
    unfolding drop_stream [symmetric] using assms by (subst nth_drop; simp)+
  show "be_stream bs ! i = bit (bs ! (i div 8)) (7 - i mod 8)" "le_stream bs ! i = bit (bs ! (i div 8)) (i mod 8)"
    unfolding d Cons_nth_drop_Suc [OF k, symmetric] by (simp_all add: nth_append)
qed

text \<open>The integers \<^verbatim>\<open>intreadwrite.h\<close> writes and reads, as bit strings.\<close>

lemma be_bits_ucast: "n \<le> LENGTH('b) \<Longrightarrow> be_bits n (ucast w :: 'b::len word) = be_bits n w" "n \<le> LENGTH('b) \<Longrightarrow> le_bits n (ucast w :: 'b::len word) = le_bits n w"
  by (auto intro!: be_bits_cong le_bits_cong simp: bit_unsigned_iff)

lemma stream_write16: "be_stream (AV_WB16 a) = be_bits 16 a" "le_stream (AV_WL16 a) = le_bits 16 a"
  using be_bits_add [of 8 8 a] le_bits_add [of 8 8 a] by (simp_all add: AV_WB16_def AV_WL16_def be_bits_ucast)

lemma stream_write32: "be_stream (AV_WB32 a) = be_bits 32 a" "le_stream (AV_WL32 a) = le_bits 32 a"
  using be_bits_add [of 8 24 a] be_bits_add [of 8 16 a] be_bits_add [of 8 8 a]
    le_bits_add [of 8 24 a] le_bits_add [of 8 16 "drop_bit 8 a"] le_bits_add [of 8 8 "drop_bit 16 a"]
  by (simp_all add: AV_WB32_def AV_WL32_def be_bits_ucast)

lemma stream_write64: "be_stream (AV_WB64 a) = be_bits 64 a" "le_stream (AV_WL64 a) = le_bits 64 a"
proof -
  have "be_bits 64 a = be_bits 32 (drop_bit 32 a) @ be_bits 32 a" "le_bits 64 a = le_bits 32 a @ le_bits 32 (drop_bit 32 a)"
    using be_bits_add [of 32 32 a] le_bits_add [of 32 32 a] by simp_all
  moreover have "be_bits 32 b = be_bits 8 (drop_bit 24 b) @ be_bits 8 (drop_bit 16 b) @ be_bits 8 (drop_bit 8 b) @ be_bits 8 b" for b :: u64
    using be_bits_add [of 8 24 b] be_bits_add [of 8 16 b] be_bits_add [of 8 8 b] by simp
  moreover have "le_bits 32 b = le_bits 8 b @ le_bits 8 (drop_bit 8 b) @ le_bits 8 (drop_bit 16 b) @ le_bits 8 (drop_bit 24 b)" for b :: u64
    using le_bits_add [of 8 24 b] le_bits_add [of 8 16 "drop_bit 8 b"] le_bits_add [of 8 8 "drop_bit 16 b"] by simp
  ultimately show "be_stream (AV_WB64 a) = be_bits 64 a" "le_stream (AV_WL64 a) = le_bits 64 a"
    by (simp_all add: AV_WB64_def AV_WL64_def be_bits_ucast)
qed

lemma bits_read16: "length x = 2 \<Longrightarrow> be_bits 16 (AV_RB16 x) = be_stream x" "length x = 2 \<Longrightarrow> le_bits 16 (AV_RL16 x) = le_stream x"
  using stream_write16 [of "AV_RB16 x"] stream_write16 [of "AV_RL16 x"] by (simp_all add: write_read16)

lemma bits_read32: "length x = 4 \<Longrightarrow> be_bits 32 (AV_RB32 x) = be_stream x" "length x = 4 \<Longrightarrow> le_bits 32 (AV_RL32 x) = le_stream x"
  using stream_write32 [of "AV_RB32 x"] stream_write32 [of "AV_RL32 x"] by (simp_all add: write_read32)

lemma bits_read64: "length x = 8 \<Longrightarrow> be_bits 64 (AV_RB64 x) = be_stream x" "length x = 8 \<Longrightarrow> le_bits 64 (AV_RL64 x) = le_stream x"
  using stream_write64 [of "AV_RB64 x"] stream_write64 [of "AV_RL64 x"] by (simp_all add: write_read64)

end
