(* ===== verification/AV_PutBits.thy ===== *)
theory AV_PutBits
  imports AV_Bits AV_Intmath "HOL-Library.Monad_Syntax"
begin

text \<open>
  \<^verbatim>\<open>libavcodec/put_bits.h\<close> and \<^verbatim>\<open>libavcodec/bitstream.c\<close>: writing bit fields into a byte buffer through a cache of 64 bits
  (\<^verbatim>\<open>BUF_BITS\<close> on x86-64), in big-endian order and, for \<^verbatim>\<open>put_bits_le\<close>, in little-endian order. A failed \<^verbatim>\<open>av_assert0\<close> is
  \<open>None\<close>. \<^verbatim>\<open>av_assert2\<close> is compiled only with \<^verbatim>\<open>--assert-level=2\<close> and is not part of the functions; \<open>put_bits_assert\<close> and
  \<open>put_bits63_assert\<close> are the conditions it checks on the arguments.
\<close>

unbundle bit_operations_syntax

section \<open>Definitions\<close>

text \<open>\<open>pb_buf\<close> is the memory from \<^verbatim>\<open>buf\<close> on; \<open>buf_ptr\<close> and \<open>buf_end\<close> are offsets into it.\<close>

record PutBitContext =
  bit_buf :: u64
  bit_left :: nat
  pb_buf :: "u8 list"
  buf_ptr :: nat
  buf_end :: nat

abbreviation BUF_BITS :: nat where "BUF_BITS \<equiv> 64"

definition init_put_bits :: "u8 list \<Rightarrow> int \<Rightarrow> PutBitContext" where
  "init_put_bits buffer buffer_size =
     (let (buffer, buffer_size) = (if buffer_size < 0 then ([], 0) else (buffer, buffer_size))
      in \<lparr>bit_buf = 0, bit_left = BUF_BITS, pb_buf = buffer, buf_ptr = 0, buf_end = nat buffer_size\<rparr>)"

definition put_bits_count :: "PutBitContext \<Rightarrow> nat" where
  "put_bits_count s = buf_ptr s * 8 + BUF_BITS - bit_left s"

definition put_bytes_count :: "PutBitContext \<Rightarrow> bool \<Rightarrow> nat" where
  "put_bytes_count s round_up = buf_ptr s + (BUF_BITS - bit_left s + (if round_up then 7 else 0)) div 8"

definition put_bits_left :: "PutBitContext \<Rightarrow> int" where
  "put_bits_left s = (int (buf_end s) - int (buf_ptr s)) * 8 - int BUF_BITS + int (bit_left s)"

definition put_bytes_left :: "PutBitContext \<Rightarrow> bool \<Rightarrow> int" where
  "put_bytes_left s round_up = int (buf_end s) - int (buf_ptr s) - int ((BUF_BITS - bit_left s + (if round_up then 7 else 0)) div 8)"

definition rebase_put_bits :: "PutBitContext \<Rightarrow> u8 list \<Rightarrow> nat \<Rightarrow> PutBitContext option" where
  "rebase_put_bits s buffer buffer_size =
     (if \<not> 8 * buffer_size \<ge> put_bits_count s then None else Some (s\<lparr>pb_buf := buffer, buf_end := buffer_size\<rparr>))"

text \<open>One byte, or the whole cache, to where the next output goes.\<close>

definition put_byte :: "PutBitContext \<Rightarrow> u8 \<Rightarrow> PutBitContext" where
  "put_byte s b = s\<lparr>pb_buf := put_at (pb_buf s) (buf_ptr s) [b], buf_ptr := buf_ptr s + 1\<rparr>"

text \<open>The code compares the room with an unsigned size, so a pointer past the end counts as room.\<close>

definition put_cache :: "PutBitContext \<Rightarrow> u8 list \<Rightarrow> PutBitContext" where
  "put_cache s bytes =
     (if buf_end s < buf_ptr s \<or> buf_end s - buf_ptr s \<ge> 8 then s\<lparr>pb_buf := put_at (pb_buf s) (buf_ptr s) bytes, buf_ptr := buf_ptr s + 8\<rparr> else s)"

function flush_loop :: "PutBitContext \<Rightarrow> PutBitContext option" where
  "flush_loop s =
     (if bit_left s < BUF_BITS then
        if \<not> buf_ptr s < buf_end s then None
        else flush_loop ((put_byte s (ucast (drop_bit (BUF_BITS - 8) (bit_buf s))))\<lparr>bit_buf := push_bit 8 (bit_buf s), bit_left := bit_left s + 8\<rparr>)
      else Some s)"
  by auto
termination
  by (relation "measure (\<lambda>s. BUF_BITS - bit_left s)") auto

definition flush_put_bits :: "PutBitContext \<Rightarrow> PutBitContext option" where
  "flush_put_bits s =
     (let s = (if bit_left s < BUF_BITS then s\<lparr>bit_buf := push_bit (bit_left s) (bit_buf s)\<rparr> else s)
      in map_option (\<lambda>s. s\<lparr>bit_left := BUF_BITS, bit_buf := 0\<rparr>) (flush_loop s))"

function flush_loop_le :: "PutBitContext \<Rightarrow> PutBitContext option" where
  "flush_loop_le s =
     (if bit_left s < BUF_BITS then
        if \<not> buf_ptr s < buf_end s then None
        else flush_loop_le ((put_byte s (ucast (bit_buf s)))\<lparr>bit_buf := drop_bit 8 (bit_buf s), bit_left := bit_left s + 8\<rparr>)
      else Some s)"
  by auto
termination
  by (relation "measure (\<lambda>s. BUF_BITS - bit_left s)") auto

definition flush_put_bits_le :: "PutBitContext \<Rightarrow> PutBitContext option" where
  "flush_put_bits_le s = map_option (\<lambda>s. s\<lparr>bit_left := BUF_BITS, bit_buf := 0\<rparr>) (flush_loop_le s)"

definition put_bits_no_assert :: "PutBitContext \<Rightarrow> nat \<Rightarrow> u64 \<Rightarrow> PutBitContext" where
  "put_bits_no_assert s n val =
     (if n < bit_left s then s\<lparr>bit_buf := push_bit n (bit_buf s) OR val, bit_left := bit_left s - n\<rparr>
      else
        let buf = push_bit (bit_left s) (bit_buf s) OR drop_bit (n - bit_left s) val
        in (put_cache s (AV_WB64 buf))\<lparr>bit_buf := val, bit_left := bit_left s + BUF_BITS - n\<rparr>)"

definition put_bits :: "PutBitContext \<Rightarrow> nat \<Rightarrow> u64 \<Rightarrow> PutBitContext" where
  "put_bits s n val = put_bits_no_assert s n val"

text \<open>The assertions of \<^verbatim>\<open>put_bits\<close> and \<^verbatim>\<open>put_bits_le\<close>, and of \<^verbatim>\<open>put_bits63\<close>.\<close>

definition put_bits_assert :: "nat \<Rightarrow> u64 \<Rightarrow> bool" where
  "put_bits_assert n val \<longleftrightarrow> n \<le> 31 \<and> val < push_bit n 1"

definition put_bits63_assert :: "nat \<Rightarrow> u64 \<Rightarrow> bool" where
  "put_bits63_assert n val \<longleftrightarrow> n < 64 \<and> val < push_bit n 1"

definition put_bits_le :: "PutBitContext \<Rightarrow> nat \<Rightarrow> u64 \<Rightarrow> PutBitContext" where
  "put_bits_le s n val =
     (let buf = bit_buf s OR push_bit (BUF_BITS - bit_left s) val
      in if n \<ge> bit_left s
         then (put_cache s (AV_WL64 buf))\<lparr>bit_buf := drop_bit (bit_left s) val, bit_left := bit_left s + BUF_BITS - n\<rparr>
         else s\<lparr>bit_buf := buf, bit_left := bit_left s - n\<rparr>)"

definition put_sbits :: "PutBitContext \<Rightarrow> nat \<Rightarrow> int \<Rightarrow> PutBitContext" where
  "put_sbits pb n val = put_bits pb n (ucast (av_zero_extend_c (word_of_int val) n))"

definition put_bits32 :: "PutBitContext \<Rightarrow> u32 \<Rightarrow> PutBitContext" where
  "put_bits32 s val = put_bits_no_assert s 32 (ucast val)"

definition put_bits63 :: "PutBitContext \<Rightarrow> nat \<Rightarrow> u64 \<Rightarrow> PutBitContext" where
  "put_bits63 s n val = put_bits_no_assert s n val"

definition put_bits64 :: "PutBitContext \<Rightarrow> nat \<Rightarrow> u64 \<Rightarrow> PutBitContext" where
  "put_bits64 s n val =
     (if n < 64 then put_bits63 s n val
      else
        let lo = ucast (val AND 0xffffffff); hi = ucast (drop_bit 32 val)
        in put_bits32 (put_bits32 s hi) lo)"

definition put_sbits63 :: "PutBitContext \<Rightarrow> nat \<Rightarrow> int \<Rightarrow> PutBitContext" where
  "put_sbits63 pb n val = put_bits63 pb n (word_of_int val AND NOT (push_bit n (- 1)))"

definition skip_put_bytes :: "PutBitContext \<Rightarrow> nat \<Rightarrow> PutBitContext option" where
  "skip_put_bytes s n = (if \<not> buf_ptr s + n \<le> buf_end s then None else Some (s\<lparr>buf_ptr := buf_ptr s + n\<rparr>))"

definition skip_put_bits :: "PutBitContext \<Rightarrow> nat \<Rightarrow> PutBitContext" where
  "skip_put_bits s n =
     (let bits = BUF_BITS - bit_left s + n
      in s\<lparr>buf_ptr := buf_ptr s + 8 * (bits div BUF_BITS), bit_left := BUF_BITS - bits mod BUF_BITS\<rparr>)"

definition set_put_bits_buffer_size :: "PutBitContext \<Rightarrow> int \<Rightarrow> PutBitContext option" where
  "set_put_bits_buffer_size s n = (if \<not> n \<le> INT_MAX div 8 - int BUF_BITS then None else Some (s\<lparr>buf_end := nat n\<rparr>))"

definition align_put_bits :: "PutBitContext \<Rightarrow> PutBitContext" where
  "align_put_bits s = put_bits s (bit_left s mod 8) 0"

text \<open>
  The string is the list of its characters before the terminating zero. \<^verbatim>\<open>char\<close> is signed on x86-64, so a character is
  sign-extended when it is converted to the unsigned cache.
\<close>

definition ff_put_string :: "PutBitContext \<Rightarrow> u8 list \<Rightarrow> bool \<Rightarrow> PutBitContext" where
  "ff_put_string pb str terminate_string =
     (let pb = foldl (\<lambda>pb c. put_bits pb 8 (scast c)) pb str
      in if terminate_string then put_bits pb 8 0 else pb)"

text \<open>\<open>None\<close> also stands for a read past the end of \<^verbatim>\<open>src\<close>.\<close>

definition copy_words :: "PutBitContext \<Rightarrow> u8 list \<Rightarrow> nat \<Rightarrow> PutBitContext" where
  "copy_words pb src n = foldl (\<lambda>pb i. put_bits pb 16 (ucast (AV_RB16 (drop (2 * i) src)))) pb [0..<n]"

partial_function (option) copy_align :: "PutBitContext \<Rightarrow> u8 list \<Rightarrow> nat \<Rightarrow> (PutBitContext \<times> nat) option" where
  "copy_align pb src i =
     (if put_bits_count pb mod 32 \<noteq> 0
      then (if i < length src then copy_align (put_bits pb 8 (ucast (src ! i))) src (i + 1) else None)
      else Some (pb, i))"

definition ff_copy_bits :: "PutBitContext \<Rightarrow> u8 list \<Rightarrow> nat \<Rightarrow> PutBitContext option" where
  "ff_copy_bits pb src len =
     (let n = len div 16; bits = len mod 16
      in if len = 0 then Some pb
         else if \<not> int len \<le> put_bits_left pb then None
         else if length src < 2 * n + 2 then None
         else do {
           pb \<leftarrow> (if n < 16 \<or> put_bits_count pb mod 8 \<noteq> 0 then Some (copy_words pb src n)
                 else do {
                   (pb, i) \<leftarrow> copy_align pb src 0;
                   pb \<leftarrow> flush_put_bits pb;
                   skip_put_bytes (pb\<lparr>pb_buf := put_at (pb_buf pb) (buf_ptr pb) (take (2 * n - i) (drop i src))\<rparr>) (2 * n - i)
                 });
           Some (put_bits pb bits (ucast (drop_bit (16 - bits) (AV_RB16 (drop (2 * n) src)))))
         })"


section \<open>What has been written\<close>

definition pb_inv :: "PutBitContext \<Rightarrow> bool" where
  "pb_inv s \<longleftrightarrow> 1 \<le> bit_left s \<and> bit_left s \<le> 64 \<and> buf_ptr s \<le> buf_end s \<and> buf_end s \<le> length (pb_buf s)"

definition pb_bits :: "PutBitContext \<Rightarrow> bool list" where
  "pb_bits s = be_stream (take (buf_ptr s) (pb_buf s)) @ be_bits (64 - bit_left s) (bit_buf s)"

text \<open>For the little-endian order the unused bits of the cache are zero.\<close>

definition pb_inv_le :: "PutBitContext \<Rightarrow> bool" where
  "pb_inv_le s \<longleftrightarrow> pb_inv s \<and> take_bit (64 - bit_left s) (bit_buf s) = bit_buf s"

definition pb_bits_le :: "PutBitContext \<Rightarrow> bool list" where
  "pb_bits_le s = le_stream (take (buf_ptr s) (pb_buf s)) @ le_bits (64 - bit_left s) (bit_buf s)"

text \<open>The memory past the end of the buffer, and the bits that still fit into it.\<close>

definition pb_tail :: "PutBitContext \<Rightarrow> u8 list" where
  "pb_tail s = drop (buf_end s) (pb_buf s)"

lemma length_pb_bits:
  assumes "pb_inv s"
  shows "length (pb_bits s) = put_bits_count s" "length (pb_bits_le s) = put_bits_count s"
  using assms by (simp_all add: pb_bits_def pb_bits_le_def pb_inv_def put_bits_count_def)

lemma init_put_bits_inv:
  assumes "0 \<le> n" "n \<le> int (length mem)"
  shows "pb_inv_le (init_put_bits mem n)" "pb_inv (init_put_bits mem n)" "pb_bits (init_put_bits mem n) = []" "pb_bits_le (init_put_bits mem n) = []"
    "buf_end (init_put_bits mem n) = nat n" "pb_tail (init_put_bits mem n) = drop (nat n) mem"
  using assms by (simp_all add: init_put_bits_def pb_inv_le_def pb_inv_def pb_bits_def pb_bits_le_def pb_tail_def)

lemma take_put_at: "off + length xs \<le> length b \<Longrightarrow> take (off + length xs) (put_at b off xs) = take off b @ xs"
  by (simp add: put_at_def)

lemma drop_put_at: "off + length xs \<le> k \<Longrightarrow> off + length xs \<le> length b \<Longrightarrow> drop k (put_at b off xs) = drop k b"
  by (simp add: put_at_def)

lemma put_cache_room:
  assumes "pb_inv s" "buf_ptr s + 8 \<le> buf_end s" "length bytes = 8"
  shows "take (buf_ptr (put_cache s bytes)) (pb_buf (put_cache s bytes)) = take (buf_ptr s) (pb_buf s) @ bytes"
    "buf_ptr (put_cache s bytes) = buf_ptr s + 8" "buf_end (put_cache s bytes) = buf_end s" "length (pb_buf (put_cache s bytes)) = length (pb_buf s)"
    "pb_tail (put_cache s bytes) = pb_tail s"
proof -
  have "8 \<le> buf_end s - buf_ptr s" using assms(2) by linarith
  then show "take (buf_ptr (put_cache s bytes)) (pb_buf (put_cache s bytes)) = take (buf_ptr s) (pb_buf s) @ bytes"
    "buf_ptr (put_cache s bytes) = buf_ptr s + 8" "buf_end (put_cache s bytes) = buf_end s" "length (pb_buf (put_cache s bytes)) = length (pb_buf s)"
    "pb_tail (put_cache s bytes) = pb_tail s"
    using assms take_put_at [of "buf_ptr s" bytes "pb_buf s"]
    by (simp_all add: put_cache_def pb_inv_def length_put_at pb_tail_def drop_put_at)
qed

lemma low_bits: "take_bit n v = v \<Longrightarrow> bit v k \<Longrightarrow> k < n" for v :: u64
  by (metis bit_take_bit_iff)

lemma be_bits_snoc:
  fixes w v :: u64
  assumes "take_bit n v = v" "m + n \<le> 64"
  shows "be_bits (m + n) (push_bit n w OR v) = be_bits m w @ be_bits n v"
proof -
  have "be_bits m (drop_bit n (push_bit n w OR v)) = be_bits m w"
    using assms low_bits [OF assms(1)] by (intro be_bits_cong) (auto simp: bit_drop_bit_eq bit_or_iff bit_push_bit_iff)
  moreover have "be_bits n (push_bit n w OR v) = be_bits n v"
    using assms by (intro be_bits_cong) (auto simp: bit_or_iff bit_push_bit_iff)
  ultimately show ?thesis by (simp add: be_bits_add)
qed

text \<open>Writing a field appends its bits, and nothing is written outside the buffer.\<close>

lemma put_bits_no_assert_spec:
  assumes inv: "pb_inv s" and n: "n \<le> 63" and v: "take_bit n v = v" and room: "put_bits_count s + n \<le> 8 * buf_end s"
  shows "pb_inv (put_bits_no_assert s n v)" "pb_bits (put_bits_no_assert s n v) = pb_bits s @ be_bits n v"
    "buf_end (put_bits_no_assert s n v) = buf_end s" "pb_tail (put_bits_no_assert s n v) = pb_tail s"
    "length (pb_buf (put_bits_no_assert s n v)) = length (pb_buf s)"
proof -
  define left where "left = bit_left s"
  have l: "1 \<le> left" "left \<le> 64" using inv by (simp_all add: pb_inv_def left_def)
  have "pb_inv (put_bits_no_assert s n v) \<and> pb_bits (put_bits_no_assert s n v) = pb_bits s @ be_bits n v \<and>
      buf_end (put_bits_no_assert s n v) = buf_end s \<and> pb_tail (put_bits_no_assert s n v) = pb_tail s \<and>
      length (pb_buf (put_bits_no_assert s n v)) = length (pb_buf s)"
  proof (cases "n < left")
    case True
    then have "be_bits (64 - left + n) (push_bit n (bit_buf s) OR v) = be_bits (64 - left) (bit_buf s) @ be_bits n v"
      using l by (intro be_bits_snoc [OF v]) simp
    then show ?thesis using True inv l by (auto simp: put_bits_no_assert_def pb_inv_def pb_bits_def pb_tail_def simp flip: left_def)
  next
    case False
    define w where "w = push_bit left (bit_buf s) OR drop_bit (n - left) v"
    have fits: "buf_ptr s + 8 \<le> buf_end s" using room False l by (simp add: put_bits_count_def flip: left_def)
    note c = put_cache_room [OF inv fits, of "AV_WB64 w"]
    have "take_bit left (drop_bit (n - left) v) = drop_bit (n - left) v" using v False by (simp add: take_bit_drop_bit)
    then have "be_bits (64 - left + left) w = be_bits (64 - left) (bit_buf s) @ be_bits left (drop_bit (n - left) v)"
      unfolding w_def using l by (intro be_bits_snoc) simp_all
    then have w64: "be_bits 64 w = be_bits (64 - left) (bit_buf s) @ be_bits left (drop_bit (n - left) v)" using l by simp
    have nv: "be_bits n v = be_bits left (drop_bit (n - left) v) @ be_bits (n - left) v"
      using be_bits_add [of left "n - left" v] False by simp
    have "put_bits_no_assert s n v = (put_cache s (AV_WB64 w))\<lparr>bit_buf := v, bit_left := left + 64 - n\<rparr>"
      using False by (simp add: put_bits_no_assert_def w_def left_def Let_def)
    then show ?thesis
      using c inv l n False fits by (auto simp: pb_inv_def pb_bits_def pb_tail_def stream_write64 w64 nv simp flip: left_def)
  qed
  then show "pb_inv (put_bits_no_assert s n v)" "pb_bits (put_bits_no_assert s n v) = pb_bits s @ be_bits n v"
    "buf_end (put_bits_no_assert s n v) = buf_end s" "pb_tail (put_bits_no_assert s n v) = pb_tail s"
    "length (pb_buf (put_bits_no_assert s n v)) = length (pb_buf s)" by simp_all
qed

lemmas put_bits_spec = put_bits_no_assert_spec [folded put_bits_def]

lemma put_bits_le_spec:
  assumes inv: "pb_inv_le s" and n: "n \<le> 63" and v: "take_bit n v = v" and room: "put_bits_count s + n \<le> 8 * buf_end s"
  shows "pb_inv_le (put_bits_le s n v)" "pb_bits_le (put_bits_le s n v) = pb_bits_le s @ le_bits n v"
    "buf_end (put_bits_le s n v) = buf_end s" "pb_tail (put_bits_le s n v) = pb_tail s"
proof -
  define left where "left = bit_left s"
  define m where "m = 64 - left"
  define w where "w = bit_buf s OR push_bit m v"
  have pi: "pb_inv s" and b: "take_bit m (bit_buf s) = bit_buf s" using inv by (simp_all add: pb_inv_le_def left_def m_def)
  have l: "1 \<le> left" "left \<le> 64" using pi by (simp_all add: pb_inv_def left_def)
  note bb = low_bits [OF b] and vv = low_bits [OF v]
  have wl: "le_bits (m + k) w = le_bits m (bit_buf s) @ le_bits k v" if "m + k \<le> 64" for k
  proof -
    have "le_bits m w = le_bits m (bit_buf s)" by (rule le_bits_cong) (auto simp: w_def bit_or_iff bit_push_bit_iff)
    moreover have "le_bits k (drop_bit m w) = le_bits k v"
      using that bb by (intro le_bits_cong) (auto simp: w_def bit_drop_bit_eq bit_or_iff bit_push_bit_iff)
    ultimately show ?thesis by (simp add: le_bits_add)
  qed
  have "pb_inv_le (put_bits_le s n v) \<and> pb_bits_le (put_bits_le s n v) = pb_bits_le s @ le_bits n v \<and>
      buf_end (put_bits_le s n v) = buf_end s \<and> pb_tail (put_bits_le s n v) = pb_tail s"
  proof (cases "n < left")
    case True
    have e: "put_bits_le s n v = s\<lparr>bit_buf := w, bit_left := left - n\<rparr>" using True by (simp add: put_bits_le_def w_def left_def m_def Let_def)
    have mn: "64 - (left - n) = m + n" using True l by (simp add: m_def)
    have "take_bit (m + n) w = w"
      by (rule bit_word_eqI) (auto simp: w_def bit_take_bit_iff bit_or_iff bit_push_bit_iff dest: bb vv)
    then show ?thesis using pi wl [of n] mn True l by (auto simp: e pb_inv_le_def pb_inv_def pb_bits_le_def pb_tail_def m_def [symmetric] left_def [symmetric])
  next
    case False
    have e: "put_bits_le s n v = (put_cache s (AV_WL64 w))\<lparr>bit_buf := drop_bit left v, bit_left := left + 64 - n\<rparr>"
      using False by (simp add: put_bits_le_def w_def left_def m_def Let_def)
    have fits: "buf_ptr s + 8 \<le> buf_end s" using room False l by (simp add: put_bits_count_def flip: left_def)
    note c = put_cache_room [OF pi fits, of "AV_WL64 w"]
    have w64: "le_bits 64 w = le_bits m (bit_buf s) @ le_bits left v" using wl [of left] l by (simp add: m_def)
    have nv: "le_bits n v = le_bits left v @ le_bits (n - left) (drop_bit left v)" using le_bits_add [of left "n - left" v] False by simp
    have "take_bit (n - left) (drop_bit left v) = drop_bit left v"
      by (rule bit_word_eqI) (auto simp: bit_take_bit_iff bit_drop_bit_eq dest: vv)
    then show ?thesis
      using c pi l n False fits by (auto simp: e pb_inv_le_def pb_inv_def pb_bits_le_def pb_tail_def stream_write64 w64 nv m_def [symmetric] left_def [symmetric])
  qed
  then show "pb_inv_le (put_bits_le s n v)" "pb_bits_le (put_bits_le s n v) = pb_bits_le s @ le_bits n v"
    "buf_end (put_bits_le s n v) = buf_end s" "pb_tail (put_bits_le s n v) = pb_tail s" by simp_all
qed


section \<open>Flushing\<close>

declare flush_loop.simps [simp del] flush_loop_le.simps [simp del]

definition pb_frame :: "PutBitContext \<Rightarrow> PutBitContext \<Rightarrow> bool" where
  "pb_frame s s' \<longleftrightarrow> buf_end s' = buf_end s \<and> length (pb_buf s') = length (pb_buf s) \<and> pb_tail s' = pb_tail s"

lemma pb_frame_refl [simp]: "pb_frame s s"
  by (simp add: pb_frame_def)

lemma pb_frame_trans [trans]: "pb_frame s s1 \<Longrightarrow> pb_frame s1 s2 \<Longrightarrow> pb_frame s s2"
  by (simp add: pb_frame_def)

lemma put_byte_spec:
  assumes "buf_ptr s < buf_end s" "buf_end s \<le> length (pb_buf s)"
  shows "take (buf_ptr (put_byte s b)) (pb_buf (put_byte s b)) = take (buf_ptr s) (pb_buf s) @ [b]" "buf_ptr (put_byte s b) = buf_ptr s + 1"
    "pb_frame s (put_byte s b)"
  using assms take_put_at [of "buf_ptr s" "[b]" "pb_buf s"]
  by (simp_all add: put_byte_def pb_frame_def pb_tail_def length_put_at drop_put_at)

lemma flush_byte:
  fixes w :: u64
  assumes "k \<le> 7"
  shows "take (8 + 8 * k) (be_bits 64 w) = be_bits 8 (ucast (drop_bit 56 w) :: u8) @ take (8 * k) (be_bits 64 (push_bit 8 w))"
    "take (8 + 8 * k) (le_bits 64 w) = le_bits 8 (ucast w :: u8) @ take (8 * k) (le_bits 64 (drop_bit 8 w))"
proof -
  have "be_bits 64 w = be_bits 8 (drop_bit 56 w) @ be_bits 56 w" using be_bits_add [of 8 56 w] by simp
  moreover have "be_bits 64 (push_bit 8 w) = be_bits 56 (drop_bit 8 (push_bit 8 w)) @ be_bits 8 (push_bit 8 w)" using be_bits_add [of 56 8 "push_bit 8 w"] by simp
  moreover have "be_bits 56 (drop_bit 8 (push_bit 8 w)) = be_bits 56 w" by (rule be_bits_cong) (simp add: bit_drop_bit_eq bit_push_bit_iff)
  ultimately show "take (8 + 8 * k) (be_bits 64 w) = be_bits 8 (ucast (drop_bit 56 w) :: u8) @ take (8 * k) (be_bits 64 (push_bit 8 w))"
    using assms by (simp add: be_bits_ucast)
  have "le_bits 64 w = le_bits 8 w @ le_bits 56 (drop_bit 8 w)" using le_bits_add [of 8 56 w] by simp
  moreover have "le_bits 64 (drop_bit 8 w) = le_bits 56 (drop_bit 8 w) @ le_bits 8 (drop_bit 56 (drop_bit 8 w))" using le_bits_add [of 56 8 "drop_bit 8 w"] by simp
  ultimately show "take (8 + 8 * k) (le_bits 64 w) = le_bits 8 (ucast w :: u8) @ take (8 * k) (le_bits 64 (drop_bit 8 w))"
    using assms by (simp add: be_bits_ucast)
qed

lemma flush_steps: "left < 64 \<Longrightarrow> (71 - left) div 8 = (71 - (left + 8)) div 8 + 1" for left :: nat
  by (simp add: div_if)

lemma flush_loop_spec:
  assumes "8 * buf_ptr s + (64 - bit_left s) \<le> 8 * buf_end s" "buf_end s \<le> length (pb_buf s)"
  shows "\<exists>s' bs. flush_loop s = Some s' \<and> pb_frame s s' \<and> buf_ptr s' = buf_ptr s + (71 - bit_left s) div 8 \<and>
    take (buf_ptr s') (pb_buf s') = take (buf_ptr s) (pb_buf s) @ bs \<and> be_stream bs = take (8 * ((71 - bit_left s) div 8)) (be_bits 64 (bit_buf s))"
  using assms
proof (induction s rule: flush_loop.induct)
  case (1 s)
  show ?case
  proof (cases "bit_left s < 64")
    case False
    then show ?thesis by (simp add: flush_loop.simps [of s])
  next
    case True
    have room: "buf_ptr s < buf_end s" using True 1(2) by simp
    define b where "b = (ucast (drop_bit 56 (bit_buf s)) :: u8)"
    define s1 where "s1 = (put_byte s b)\<lparr>bit_buf := push_bit 8 (bit_buf s), bit_left := bit_left s + 8\<rparr>"
    note p = put_byte_spec [OF room 1(3), of b]
    have f1: "buf_ptr s1 = buf_ptr s + 1" "bit_left s1 = bit_left s + 8" "bit_buf s1 = push_bit 8 (bit_buf s)" "pb_frame s s1"
      "take (buf_ptr s + 1) (pb_buf s1) = take (buf_ptr s) (pb_buf s) @ [b]"
      using p by (auto simp: s1_def pb_frame_def pb_tail_def)
    have "8 * buf_ptr s1 + (64 - bit_left s1) \<le> 8 * buf_end s1" "buf_end s1 \<le> length (pb_buf s1)"
      using 1(2,3) f1 room by (auto simp: pb_frame_def)
    then obtain s' bs where r: "flush_loop s1 = Some s'" "pb_frame s1 s'" "buf_ptr s' = buf_ptr s1 + (71 - bit_left s1) div 8"
      "take (buf_ptr s') (pb_buf s') = take (buf_ptr s1) (pb_buf s1) @ bs" "be_stream bs = take (8 * ((71 - bit_left s1) div 8)) (be_bits 64 (bit_buf s1))"
      using 1(1) [OF True] room by (auto simp: s1_def b_def)
    have k: "(71 - bit_left s1) div 8 \<le> 7" unfolding f1(2) by simp
    have "flush_loop s = flush_loop s1" using True room by (simp add: flush_loop.simps [of s] s1_def b_def)
    then show ?thesis
      using r(1-4) f1 flush_steps [OF True] flush_byte(1) [OF k, of "bit_buf s"] r(5) pb_frame_trans [OF f1(4) r(2)]
      by (intro exI [of _ s'] exI [of _ "b # bs"]) (simp add: b_def)
  qed
qed

lemma flush_loop_le_spec:
  assumes "8 * buf_ptr s + (64 - bit_left s) \<le> 8 * buf_end s" "buf_end s \<le> length (pb_buf s)"
  shows "\<exists>s' bs. flush_loop_le s = Some s' \<and> pb_frame s s' \<and> buf_ptr s' = buf_ptr s + (71 - bit_left s) div 8 \<and>
    take (buf_ptr s') (pb_buf s') = take (buf_ptr s) (pb_buf s) @ bs \<and> le_stream bs = take (8 * ((71 - bit_left s) div 8)) (le_bits 64 (bit_buf s))"
  using assms
proof (induction s rule: flush_loop_le.induct)
  case (1 s)
  show ?case
  proof (cases "bit_left s < 64")
    case False
    then show ?thesis by (simp add: flush_loop_le.simps [of s])
  next
    case True
    have room: "buf_ptr s < buf_end s" using True 1(2) by simp
    define b where "b = (ucast (bit_buf s) :: u8)"
    define s1 where "s1 = (put_byte s b)\<lparr>bit_buf := drop_bit 8 (bit_buf s), bit_left := bit_left s + 8\<rparr>"
    note p = put_byte_spec [OF room 1(3), of b]
    have f1: "buf_ptr s1 = buf_ptr s + 1" "bit_left s1 = bit_left s + 8" "bit_buf s1 = drop_bit 8 (bit_buf s)" "pb_frame s s1"
      "take (buf_ptr s + 1) (pb_buf s1) = take (buf_ptr s) (pb_buf s) @ [b]"
      using p by (auto simp: s1_def pb_frame_def pb_tail_def)
    have "8 * buf_ptr s1 + (64 - bit_left s1) \<le> 8 * buf_end s1" "buf_end s1 \<le> length (pb_buf s1)"
      using 1(2,3) f1 room by (auto simp: pb_frame_def)
    then obtain s' bs where r: "flush_loop_le s1 = Some s'" "pb_frame s1 s'" "buf_ptr s' = buf_ptr s1 + (71 - bit_left s1) div 8"
      "take (buf_ptr s') (pb_buf s') = take (buf_ptr s1) (pb_buf s1) @ bs" "le_stream bs = take (8 * ((71 - bit_left s1) div 8)) (le_bits 64 (bit_buf s1))"
      using 1(1) [OF True] room by (auto simp: s1_def b_def)
    have k: "(71 - bit_left s1) div 8 \<le> 7" unfolding f1(2) by simp
    have "flush_loop_le s = flush_loop_le s1" using True room by (simp add: flush_loop_le.simps [of s] s1_def b_def)
    then show ?thesis
      using r(1-4) f1 flush_steps [OF True] flush_byte(2) [OF k, of "bit_buf s"] r(5) pb_frame_trans [OF f1(4) r(2)]
      by (intro exI [of _ s'] exI [of _ "b # bs"]) (simp add: b_def)
  qed
qed

lemma flush_bits: "1 \<le> left \<Longrightarrow> left \<le> 64 \<Longrightarrow> 8 * ((71 - left) div 8) = 64 - left + left mod 8" for left :: nat
proof -
  assume l: "1 \<le> left" "left \<le> 64"
  have "\<forall>k \<in> set [1..<65]. 8 * ((71 - k) div 8) = 64 - k + k mod 8" by code_simp
  then show ?thesis using l by auto
qed

text \<open>Flushing pads the last byte with zeros, and succeeds when what was written fits.\<close>

lemma flush_put_bits_spec:
  assumes inv: "pb_inv s" and room: "put_bits_count s \<le> 8 * buf_end s"
  shows "\<exists>s'. flush_put_bits s = Some s' \<and> pb_inv s' \<and> pb_frame s s' \<and> bit_left s' = 64 \<and>
    be_stream (take (buf_ptr s') (pb_buf s')) = pb_bits s @ replicate (bit_left s mod 8) False"
proof -
  define s0 where "s0 = (if bit_left s < 64 then s\<lparr>bit_buf := push_bit (bit_left s) (bit_buf s)\<rparr> else s)"
  have l: "1 \<le> bit_left s" "bit_left s \<le> 64" "buf_end s \<le> length (pb_buf s)" using inv by (simp_all add: pb_inv_def)
  have f0: "bit_left s0 = bit_left s" "buf_ptr s0 = buf_ptr s" "pb_buf s0 = pb_buf s" "buf_end s0 = buf_end s" by (simp_all add: s0_def)
  have "8 * buf_ptr s0 + (64 - bit_left s0) \<le> 8 * buf_end s0" "buf_end s0 \<le> length (pb_buf s0)"
    using room l by (simp_all add: f0 put_bits_count_def)
  from flush_loop_spec [OF this] obtain s1 bs where r: "flush_loop s0 = Some s1" "pb_frame s0 s1" "buf_ptr s1 = buf_ptr s + (71 - bit_left s) div 8"
    "take (buf_ptr s1) (pb_buf s1) = take (buf_ptr s) (pb_buf s) @ bs" "be_stream bs = take (8 * ((71 - bit_left s) div 8)) (be_bits 64 (bit_buf s0))"
    unfolding f0 by blast
  have "be_bits 64 (bit_buf s0) = be_bits (64 - bit_left s) (bit_buf s) @ replicate (bit_left s) False" if "bit_left s < 64"
  proof -
    have "be_bits (64 - bit_left s + bit_left s) (push_bit (bit_left s) (bit_buf s) OR 0) = be_bits (64 - bit_left s) (bit_buf s) @ be_bits (bit_left s) (0 :: u64)"
      by (rule be_bits_snoc) (use l in simp_all)
    then show ?thesis using that by (simp add: s0_def)
  qed
  then have bs: "be_stream bs = be_bits (64 - bit_left s) (bit_buf s) @ replicate (bit_left s mod 8) False"
    using r(5) l unfolding flush_bits [OF l(1,2)] by (cases "bit_left s < 64") auto
  have fr: "pb_frame s s1" using r(2) by (auto simp: pb_frame_def f0 pb_tail_def)
  have "(71 - bit_left s) div 8 < Suc (buf_end s - buf_ptr s)"
    using room inv by (subst div_less_iff_less_mult) (auto simp: put_bits_count_def pb_inv_def)
  then have "buf_ptr s1 \<le> buf_end s" using r(3) inv unfolding pb_inv_def by linarith
  then have "pb_inv (s1\<lparr>bit_left := 64, bit_buf := 0\<rparr>)" using fr l by (simp add: pb_inv_def pb_frame_def)
  moreover have "flush_put_bits s = Some (s1\<lparr>bit_left := 64, bit_buf := 0\<rparr>)" using r(1) by (simp add: flush_put_bits_def s0_def Let_def)
  ultimately show ?thesis using fr r(4) bs by (intro exI [of _ "s1\<lparr>bit_left := 64, bit_buf := 0\<rparr>"]) (auto simp: pb_frame_def pb_tail_def pb_bits_def)
qed


lemma flush_put_bits_le_spec:
  assumes inv: "pb_inv_le s" and room: "put_bits_count s \<le> 8 * buf_end s"
  shows "\<exists>s'. flush_put_bits_le s = Some s' \<and> pb_inv_le s' \<and> pb_frame s s' \<and> bit_left s' = 64 \<and>
    le_stream (take (buf_ptr s') (pb_buf s')) = pb_bits_le s @ replicate (bit_left s mod 8) False"
proof -
  have l: "1 \<le> bit_left s" "bit_left s \<le> 64" "buf_end s \<le> length (pb_buf s)" "buf_ptr s \<le> buf_end s"
    using inv by (simp_all add: pb_inv_le_def pb_inv_def)
  have "8 * buf_ptr s + (64 - bit_left s) \<le> 8 * buf_end s" using room l by (simp add: put_bits_count_def)
  from flush_loop_le_spec [OF this l(3)] obtain s1 bs where r: "flush_loop_le s = Some s1" "pb_frame s s1" "buf_ptr s1 = buf_ptr s + (71 - bit_left s) div 8"
    "take (buf_ptr s1) (pb_buf s1) = take (buf_ptr s) (pb_buf s) @ bs" "le_stream bs = take (8 * ((71 - bit_left s) div 8)) (le_bits 64 (bit_buf s))"
    by blast
  have "le_bits 64 (bit_buf s) = le_bits (64 - bit_left s) (bit_buf s) @ replicate (bit_left s) False"
  proof -
    have "take_bit (64 - bit_left s) (bit_buf s) = bit_buf s" using inv by (simp add: pb_inv_le_def)
    note z = low_bits [OF this]
    have "le_bits (bit_left s) (drop_bit (64 - bit_left s) (bit_buf s)) = le_bits (bit_left s) 0"
      by (rule le_bits_cong) (auto simp: bit_drop_bit_eq dest: z)
    moreover have "le_bits (64 - bit_left s + bit_left s) (bit_buf s) =
        le_bits (64 - bit_left s) (bit_buf s) @ le_bits (bit_left s) (drop_bit (64 - bit_left s) (bit_buf s))" by (rule le_bits_add)
    ultimately show ?thesis using l by (simp flip: rev_bits(1))
  qed
  then have bs: "le_stream bs = le_bits (64 - bit_left s) (bit_buf s) @ replicate (bit_left s mod 8) False"
    using r(5) l unfolding flush_bits [OF l(1,2)] by simp
  have "(71 - bit_left s) div 8 < Suc (buf_end s - buf_ptr s)"
    using room l by (subst div_less_iff_less_mult) (auto simp: put_bits_count_def)
  then have "buf_ptr s1 \<le> buf_end s" using r(3) l(4) by linarith
  then have "pb_inv_le (s1\<lparr>bit_left := 64, bit_buf := 0\<rparr>)" using r(2) l by (simp add: pb_inv_le_def pb_inv_def pb_frame_def)
  moreover have "flush_put_bits_le s = Some (s1\<lparr>bit_left := 64, bit_buf := 0\<rparr>)" using r(1) by (simp add: flush_put_bits_le_def)
  ultimately show ?thesis using r(2,4) bs by (intro exI [of _ "s1\<lparr>bit_left := 64, bit_buf := 0\<rparr>"]) (auto simp: pb_frame_def pb_tail_def pb_bits_le_def)
qed

section \<open>The other writers\<close>

text \<open>A writer that appends the bits \<open>bs\<close>, if there is room for them.\<close>

definition appends :: "bool list \<Rightarrow> PutBitContext \<Rightarrow> PutBitContext \<Rightarrow> bool" where
  "appends bs s s' \<longleftrightarrow>
     (pb_inv s \<longrightarrow> put_bits_count s + length bs \<le> 8 * buf_end s \<longrightarrow> pb_inv s' \<and> pb_frame s s' \<and> pb_bits s' = pb_bits s @ bs)"

lemma appendsD:
  assumes "appends bs s s'" "pb_inv s" "put_bits_count s + length bs \<le> 8 * buf_end s"
  shows "pb_inv s'" "pb_frame s s'" "pb_bits s' = pb_bits s @ bs" "put_bits_count s' = put_bits_count s + length bs" "buf_end s' = buf_end s"
proof -
  show *: "pb_inv s'" "pb_frame s s'" "pb_bits s' = pb_bits s @ bs" using assms by (simp_all add: appends_def)
  show "put_bits_count s' = put_bits_count s + length bs" using * assms(2) by (simp flip: length_pb_bits(1))
  show "buf_end s' = buf_end s" using *(2) by (simp add: pb_frame_def)
qed

lemma appends_refl [simp]: "appends [] s s"
  by (simp add: appends_def)

lemma appends_trans [trans]: "appends xs s s1 \<Longrightarrow> appends ys s1 s2 \<Longrightarrow> appends (xs @ ys) s s2"
proof -
  assume 1: "appends xs s s1" and 2: "appends ys s1 s2"
  have "pb_inv s2 \<and> pb_frame s s2 \<and> pb_bits s2 = pb_bits s @ xs @ ys"
    if "pb_inv s" "put_bits_count s + length (xs @ ys) \<le> 8 * buf_end s"
  proof -
    note a = appendsD [OF 1 that(1)]
    have b: "pb_inv s2" "pb_frame s1 s2" "pb_bits s2 = pb_bits s1 @ ys" using a that(2) by (intro appendsD [OF 2]; simp)+
    then show ?thesis using a that(2) pb_frame_trans [of s s1 s2] by simp
  qed
  then show ?thesis by (simp add: appends_def)
qed

lemma put_bits_no_assert_appends:
  assumes "n \<le> 63" "take_bit n v = v"
  shows "appends (be_bits n v) s (put_bits_no_assert s n v)"
  using put_bits_no_assert_spec [OF _ assms, of s] by (simp add: appends_def pb_frame_def)

lemmas put_bits_appends = put_bits_no_assert_appends [folded put_bits_def]
lemmas put_bits63_appends = put_bits_no_assert_appends [folded put_bits63_def]

lemma put_bits32_appends: "appends (be_bits 32 w) s (put_bits32 s w)"
proof -
  have "take_bit 32 (ucast w :: u64) = ucast w" by (rule bit_word_eqI) (auto simp: bit_take_bit_iff bit_unsigned_iff dest: bit_imp_le_length)
  from put_bits_no_assert_appends [OF _ this, of s] show ?thesis by (simp add: put_bits32_def be_bits_ucast)
qed

lemma put_bits64_appends:
  assumes "n \<le> 64" "take_bit n v = v"
  shows "appends (be_bits n v) s (put_bits64 s n v)"
proof (cases "n < 64")
  case True
  then show ?thesis using put_bits63_appends [OF _ assms(2), of s] by (simp add: put_bits64_def)
next
  case False
  then have n: "n = 64" using assms(1) by simp
  have "be_bits 64 v = be_bits 32 (ucast (drop_bit 32 v) :: u32) @ be_bits 32 (ucast (v AND 0xffffffff) :: u32)"
  proof -
    have "be_bits 32 (ucast (v AND 0xffffffff) :: u32) = be_bits 32 v"
    proof (rule be_bits_cong)
      fix i :: nat
      assume "i < 32"
      moreover have "v AND 0xffffffff = take_bit 32 v" by (simp add: take_bit_eq_mask mask_eq_exp_minus_1)
      ultimately show "bit (ucast (v AND 0xffffffff) :: u32) i = bit v i" by (simp add: bit_unsigned_iff bit_take_bit_iff)
    qed
    then show ?thesis using be_bits_add [of 32 32 v] by (simp add: be_bits_ucast)
  qed
  moreover note appends_trans [OF put_bits32_appends [of "ucast (drop_bit 32 v)" s] put_bits32_appends [of "ucast (v AND 0xffffffff)"]]
  ultimately show ?thesis by (simp add: put_bits64_def n Let_def)
qed

lemma mask_word: "n \<le> LENGTH('a) \<Longrightarrow> push_bit n 1 - 1 = (mask n :: 'a::len word)"
  by (simp add: mask_eq_exp_minus_1 push_bit_eq_mult)

lemma av_zero_extend_take: "n \<le> 32 \<Longrightarrow> av_zero_extend_c a n = take_bit n a"
  unfolding av_zero_extend_c_def by (subst mask_word) (simp_all add: take_bit_eq_mask)

lemma put_sbits_appends:
  assumes "n \<le> 31"
  shows "appends (be_bits n v) s (put_sbits s n v)"
proof -
  have e: "ucast (av_zero_extend_c (word_of_int v) n) = (take_bit n (word_of_int v) :: u64)"
    using assms by (intro bit_word_eqI) (auto simp: av_zero_extend_take bit_unsigned_iff bit_take_bit_iff bit_word_of_int_iff)
  have "appends (be_bits n (take_bit n (word_of_int v :: u64))) s (put_sbits s n v)"
    unfolding put_sbits_def e using assms by (intro put_bits_appends) simp_all
  moreover have "be_bits n (take_bit n (word_of_int v :: u64)) = be_bits n v"
    using assms by (intro be_bits_cong) (simp add: bit_take_bit_iff bit_word_of_int_iff)
  ultimately show ?thesis by simp
qed

lemma put_sbits63_appends:
  assumes "n \<le> 63"
  shows "appends (be_bits n v) s (put_sbits63 s n v)"
proof -
  have e: "word_of_int v AND NOT (push_bit n (- 1)) = (take_bit n (word_of_int v) :: u64)"
    by (rule bit_word_eqI) (auto simp: bit_and_iff bit_mask_iff bit_take_bit_iff)
  have "appends (be_bits n (take_bit n (word_of_int v :: u64))) s (put_sbits63 s n v)"
    unfolding put_sbits63_def e using assms by (intro put_bits63_appends) simp_all
  moreover have "be_bits n (take_bit n (word_of_int v :: u64)) = be_bits n v"
    using assms by (intro be_bits_cong) (simp add: bit_take_bit_iff bit_word_of_int_iff)
  ultimately show ?thesis by simp
qed

lemma align_put_bits_appends:
  "appends (replicate (bit_left s mod 8) False) s (align_put_bits s)"
  using put_bits_appends [of "bit_left s mod 8" 0 s] by (simp add: align_put_bits_def)

lemma foldl_appends: "(\<And>s x. x \<in> set xs \<Longrightarrow> appends (g x) s (f s x)) \<Longrightarrow> appends (concat (map g xs)) s (foldl f s xs)"
proof (induction xs arbitrary: s)
  case (Cons x xs)
  have "appends (g x) s (f s x)" "appends (concat (map g xs)) (f s x) (foldl f (f s x) xs)" using Cons by simp_all
  then show ?case using appends_trans by fastforce
qed simp

text \<open>A string of ASCII characters; any other character overwrites the bits before it.\<close>

lemma ff_put_string_appends:
  assumes "\<forall>c \<in> set str. c < 128"
  shows "appends (be_stream (str @ (if z then [0] else []))) s (ff_put_string s str z)"
proof -
  have c: "scast c = (ucast c :: u64)" if "c \<in> set str" for c
  proof -
    have "uint (take_bit 7 c) = uint c" using assms that by (auto simp: unsigned_take_bit_eq take_bit_int_eq_self_iff word_less_def)
    then have "take_bit 7 c = c" by (rule word_uint_eqI)
    then have low: "bit c i \<Longrightarrow> i < 7" for i by (metis bit_take_bit_iff)
    show ?thesis
    proof (rule bit_word_eqI)
      fix i :: nat
      assume "i < LENGTH(64)"
      then show "bit (scast c :: u64) i = bit (ucast c :: u64) i" using low [of i] low [of 7]
        by (cases "i < 7") (auto simp: bit_signed_iff bit_unsigned_iff min_def)
    qed
  qed
  have "appends (be_bits 8 c) s (put_bits s 8 (scast c))" if "c \<in> set str" for s c
  proof -
    have "take_bit 8 (ucast c :: u64) = ucast c" by (rule bit_word_eqI) (auto simp: bit_take_bit_iff bit_unsigned_iff dest: bit_imp_le_length)
    then show ?thesis using put_bits_appends [of 8 "ucast c" s] by (simp add: c [OF that] be_bits_ucast)
  qed
  then have f: "appends (be_stream str) s (foldl (\<lambda>pb c. put_bits pb 8 (scast c)) s str)" for s
    unfolding be_stream_def by (intro foldl_appends) simp
  show ?thesis
  proof (cases z)
    case True
    have "appends (be_bits 8 (0 :: u64)) s' (put_bits s' 8 0)" for s' by (rule put_bits_appends) simp_all
    from appends_trans [OF f this] show ?thesis using True by (simp add: ff_put_string_def Let_def)
  qed (use f in \<open>simp add: ff_put_string_def\<close>)
qed


text \<open>
  A character outside ASCII is negative, and its sign bits replace the bits that were already in the cache: here a zero byte.
\<close>

lemma ff_put_string_signed:
  "pb_bits (put_bits (init_put_bits [0, 0, 0, 0] 4) 8 0) = replicate 8 False"
  "pb_bits (ff_put_string (put_bits (init_put_bits [0, 0, 0, 0] 4) 8 0) [0xE9] False) = replicate 8 True @ be_bits 8 (0xE9 :: u8)"
  by (simp_all add: pb_bits_def put_bits_def put_bits_no_assert_def init_put_bits_def ff_put_string_def) code_simp+

section \<open>Copying bits\<close>

lemma AV_RB16_take: "AV_RB16 (take 2 x) = AV_RB16 x"
  by (simp add: AV_RB16_def)

lemma bits_RB16: "2 \<le> length x \<Longrightarrow> be_bits 16 (AV_RB16 x) = be_stream (take 2 x)"
  using bits_read16(1) [of "take 2 x"] by (simp add: AV_RB16_take)

lemma take_bit_ucast_self: "LENGTH('a) \<le> n \<Longrightarrow> take_bit n (ucast w :: 'b::len word) = ucast w" for w :: "'a::len word"
  by (rule bit_word_eqI) (auto simp: bit_take_bit_iff bit_unsigned_iff dest: bit_imp_le_length)

lemma copy_words_appends:
  assumes "2 * n \<le> length src"
  shows "appends (be_stream (take (2 * n) src)) s (copy_words s src n)"
proof -
  have "appends (be_bits 16 (AV_RB16 (drop (2 * i) src))) s (put_bits s 16 (ucast (AV_RB16 (drop (2 * i) src))))" for s i
    using put_bits_appends [of 16 "ucast (AV_RB16 (drop (2 * i) src))" s] by (simp add: take_bit_ucast_self be_bits_ucast)
  then have "appends (concat (map (\<lambda>i. be_bits 16 (AV_RB16 (drop (2 * i) src))) [0..<n])) s (copy_words s src n)"
    unfolding copy_words_def by (intro foldl_appends) simp
  moreover have "concat (map (\<lambda>i. be_bits 16 (AV_RB16 (drop (2 * i) src))) [0..<n]) = be_stream (take (2 * n) src)"
    using assms
  proof (induction n)
    case (Suc n)
    have "take (2 * Suc n) src = take (2 * n) src @ take 2 (drop (2 * n) src)" using take_add [of "2 * n" 2 src] by simp
    then show ?case using Suc by (simp add: bits_RB16)
  qed simp
  ultimately show ?thesis by simp
qed

lemma put_byte_appends: "appends (be_bits 8 c) s (put_bits s 8 (ucast c))" for c :: u8
  using put_bits_appends [of 8 "ucast c" s] by (simp add: take_bit_ucast_self be_bits_ucast)

lemma copy_align_spec:
  assumes "pb_inv s" "put_bits_count s + 8 * k = 32 * m" "k \<le> 3" "i + k \<le> length src" "32 * m \<le> 8 * buf_end s"
  shows "\<exists>s'. copy_align s src i = Some (s', i + k) \<and> appends (be_stream (take k (drop i src))) s s'"
  using assms
proof (induction k arbitrary: s i)
  case 0
  then show ?case by (subst copy_align.simps) simp
next
  case (Suc k)
  define s1 where "s1 = put_bits s 8 (ucast (src ! i))"
  have a: "appends (be_bits 8 (src ! i)) s s1" unfolding s1_def by (rule put_byte_appends)
  have room: "put_bits_count s + 8 \<le> 8 * buf_end s" using Suc.prems(2,5) by simp
  note d = appendsD [OF a Suc.prems(1), simplified, OF room]
  have "put_bits_count s mod 32 \<noteq> 0" using Suc.prems(2,3) by presburger
  then have step: "copy_align s src i = copy_align s1 src (i + 1)" using Suc.prems(4) by (subst copy_align.simps) (simp add: s1_def)
  have p: "pb_inv s1" "put_bits_count s1 + 8 * k = 32 * m" "k \<le> 3" "i + 1 + k \<le> length src" "32 * m \<le> 8 * buf_end s1"
    using d Suc.prems by simp_all
  obtain s' where s': "copy_align s1 src (i + 1) = Some (s', i + 1 + k)" "appends (be_stream (take k (drop (i + 1) src))) s1 s'"
    using Suc.IH [OF p] by blast
  have "take (Suc k) (drop i src) = src ! i # take k (drop (i + 1) src)"
    using Suc.prems(4) Cons_nth_drop_Suc [of i src] by (metis Suc_eq_plus1 add_Suc_right le_add1 less_le_trans not_le_imp_less not_less_eq_eq take_Suc_Cons)
  then have "appends (be_stream (take (Suc k) (drop i src))) s s'" using appends_trans [OF a s'(2)] by simp
  then show ?case using s'(1) step by auto
qed

lemma memcpy_spec:
  assumes "pb_inv s" "bit_left s = 64" "buf_ptr s + length xs \<le> buf_end s"
  shows "\<exists>s'. skip_put_bytes (s\<lparr>pb_buf := put_at (pb_buf s) (buf_ptr s) xs\<rparr>) (length xs) = Some s' \<and> pb_inv s' \<and> pb_frame s s' \<and>
    pb_bits s' = pb_bits s @ be_stream xs"
  using assms take_put_at [of "buf_ptr s" xs "pb_buf s"]
  by (auto simp: skip_put_bytes_def pb_inv_def pb_frame_def pb_bits_def pb_tail_def length_put_at drop_put_at)

text \<open>
  C38: \<^verbatim>\<open>ff_copy_bits\<close> appends the first \<^verbatim>\<open>length\<close> bits of the source, whichever of its two ways it takes, and writes nothing
  outside the buffer, provided the bits fit and the source has the two bytes its last read takes.
\<close>

theorem ff_copy_bits_correct:
  assumes inv: "pb_inv s" and room: "put_bits_count s + len \<le> 8 * buf_end s" and src: "2 * (len div 16) + 2 \<le> length src"
  shows "\<exists>s'. ff_copy_bits s src len = Some s' \<and> pb_inv s' \<and> pb_bits s' = pb_bits s @ take len (be_stream src) \<and>
    length (pb_buf s') = length (pb_buf s) \<and> drop (buf_end s) (pb_buf s') = drop (buf_end s) (pb_buf s)"
proof (cases "len = 0")
  case True
  then show ?thesis using inv by (simp add: ff_copy_bits_def Let_def)
next
  case False
  define n where "n = len div 16"
  define r where "r = len mod 16"
  have len: "len = 16 * n + r" "r < 16" by (simp_all add: n_def r_def)
  have src2: "2 * n + 2 \<le> length src" using src by (simp add: n_def)
  have fits: "\<not> \<not> int len \<le> put_bits_left s" using room inv by (auto simp: put_bits_left_def put_bits_count_def pb_inv_def of_nat_diff)
  define words where "words = (if n < 16 \<or> put_bits_count s mod 8 \<noteq> 0 then Some (copy_words s src n)
    else do {
      (s, i) \<leftarrow> copy_align s src 0;
      s \<leftarrow> flush_put_bits s;
      skip_put_bytes (s\<lparr>pb_buf := put_at (pb_buf s) (buf_ptr s) (take (2 * n - i) (drop i src))\<rparr>) (2 * n - i)
    })"
  have w: "\<exists>s1. words = Some s1 \<and> pb_inv s1 \<and> pb_frame s s1 \<and> pb_bits s1 = pb_bits s @ be_stream (take (2 * n) src)"
  proof (cases "n < 16 \<or> put_bits_count s mod 8 \<noteq> 0")
    case True
    have "appends (be_stream (take (2 * n) src)) s (copy_words s src n)" by (rule copy_words_appends) (use src2 in simp)
    from appendsD [OF this inv] show ?thesis using True room src2 len by (simp add: words_def)
  next
    case path: False
    define q where "q = put_bits_count s div 32"
    define c where "c = put_bits_count s mod 32 div 8"
    have "put_bits_count s mod 32 mod 8 = 0" using path by (simp add: mod_mod_cancel)
    then have c: "put_bits_count s = 32 * q + 8 * c" "c < 4" by (auto simp: q_def c_def)
    define k where "k = (if c = 0 then 0 else 4 - c)"
    define m where "m = (if c = 0 then q else q + 1)"
    have k: "put_bits_count s + 8 * k = 32 * m" "k \<le> 3" using c by (auto simp: k_def m_def)
    have mem: "32 * m \<le> 8 * buf_end s" using k room path len by linarith
    obtain s1 where s1: "copy_align s src 0 = Some (s1, k)" "appends (be_stream (take k src)) s s1"
      using copy_align_spec [OF inv k(1,2) _ mem, of 0 src] k(2) src2 path by auto
    have kl: "length (be_stream (take k src)) = 8 * k" using k(2) src2 path by simp
    note d1 = appendsD [OF s1(2) inv, unfolded kl]
    have room1: "put_bits_count s + 8 * k \<le> 8 * buf_end s" using k(1) mem by simp
    note d = d1 [OF room1]
    have left8: "bit_left s1 mod 8 = 0"
    proof -
      have "bit_left s1 + put_bits_count s1 = 8 * buf_ptr s1 + 64" using d(1) by (simp add: put_bits_count_def pb_inv_def)
      then show ?thesis using d(4) k(1) by presburger
    qed
    obtain s2 where s2: "flush_put_bits s1 = Some s2" "pb_inv s2" "pb_frame s1 s2" "bit_left s2 = 64" "be_stream (take (buf_ptr s2) (pb_buf s2)) = pb_bits s1"
      using flush_put_bits_spec [OF d(1)] d(4,5) k(1) mem left8 by auto
    define xs where "xs = take (2 * n - k) (drop k src)"
    have xs: "length xs = 2 * n - k" using src2 by (simp add: xs_def)
    have b2: "pb_bits s2 = pb_bits s @ be_stream (take k src)" using s2(4,5) d(3) by (simp add: pb_bits_def)
    have "8 * buf_ptr s2 = put_bits_count s2" using s2(4) by (simp add: put_bits_count_def)
    also have "\<dots> = put_bits_count s + 8 * k" using b2 kl inv s2(2) by (simp flip: length_pb_bits(1))
    finally have ptr: "8 * buf_ptr s2 = put_bits_count s + 8 * k" .
    have "buf_ptr s2 + length xs \<le> buf_end s2" using ptr room len path k(2) s2(3) d(5) by (simp add: xs pb_frame_def)
    from memcpy_spec [OF s2(2,4) this] obtain s3 where s3: "skip_put_bytes (s2\<lparr>pb_buf := put_at (pb_buf s2) (buf_ptr s2) xs\<rparr>) (length xs) = Some s3"
      "pb_inv s3" "pb_frame s2 s3" "pb_bits s3 = pb_bits s2 @ be_stream xs" by blast
    have "take (2 * n) src = take k src @ xs" using take_add [of k "2 * n - k" src] path k(2) by (simp add: xs_def)
    then have "pb_bits s3 = pb_bits s @ be_stream (take (2 * n) src)" by (simp add: s3(4) b2)
    moreover have "words = Some s3" using path s1(1) s2(1) s3(1) by (simp add: words_def xs xs_def [symmetric])
    moreover have "pb_frame s s3" using d(2) s2(3) s3(3) pb_frame_trans by blast
    ultimately show ?thesis using s3(2) by blast
  qed
  then obtain s1 where s1: "words = Some s1" "pb_inv s1" "pb_frame s s1" "pb_bits s1 = pb_bits s @ be_stream (take (2 * n) src)" by blast
  define v where "v = drop_bit (16 - r) (AV_RB16 (drop (2 * n) src))"
  have "take_bit r (ucast v :: u64) = ucast v"
    by (rule bit_word_eqI) (auto simp: v_def bit_take_bit_iff bit_unsigned_iff bit_drop_bit_eq dest: bit_imp_le_length)
  then have a: "appends (be_bits r v) s1 (put_bits s1 r (ucast v))" using put_bits_appends [of r "ucast v" s1] len(2) by (simp add: be_bits_ucast)
  have "be_bits 16 (AV_RB16 (drop (2 * n) src)) = be_bits r v @ be_bits (16 - r) (AV_RB16 (drop (2 * n) src))"
    using be_bits_add [of r "16 - r" "AV_RB16 (drop (2 * n) src)"] len(2) by (simp add: v_def)
  moreover have "be_bits 16 (AV_RB16 (drop (2 * n) src)) = take 16 (be_stream (drop (2 * n) src))"
    using bits_RB16 [of "drop (2 * n) src"] src2 take_stream(1) [of 2 "drop (2 * n) src"] by simp
  ultimately have "take r (take 16 (be_stream (drop (2 * n) src))) = be_bits r v" by simp
  then have v: "be_bits r v = take r (be_stream (drop (2 * n) src))" using len(2) by (simp add: min_absorb1)
  have "put_bits_count s1 + length (be_bits r v) \<le> 8 * buf_end s1"
    using s1(2-4) inv room len src2 by (simp add: pb_frame_def flip: length_pb_bits(1))
  note d = appendsD [OF a s1(2) this]
  have "take len (be_stream src) = be_stream (take (2 * n) src) @ take r (be_stream (drop (2 * n) src))"
    using take_add [of "8 * (2 * n)" r "be_stream src"] by (simp add: len(1) flip: take_stream(1) drop_stream(1))
  then have "pb_bits (put_bits s1 r (ucast v)) = pb_bits s @ take len (be_stream src)" using d(3) s1(4) v by simp
  moreover have "ff_copy_bits s src len = Some (put_bits s1 r (ucast v))"
    using False fits src2 s1(1) unfolding words_def ff_copy_bits_def Let_def n_def [symmetric] r_def [symmetric] v_def by simp
  moreover have "pb_frame s (put_bits s1 r (ucast v))" using s1(3) d(2) pb_frame_trans by blast
  ultimately show ?thesis using d(1) by (auto simp: pb_frame_def pb_tail_def)
qed

theorem ff_copy_bits_correct_witness:
  "\<exists>s'. ff_copy_bits (init_put_bits [0, 0, 7] 3) [0xAB, 0xCD, 0, 0] 13 = Some s' \<and> pb_inv s' \<and>
    pb_bits s' = pb_bits (init_put_bits [0, 0, 7] 3) @ take 13 (be_stream [0xAB, 0xCD, 0, 0]) \<and>
    length (pb_buf s') = length (pb_buf (init_put_bits [0, 0, 7] 3)) \<and>
    drop (buf_end (init_put_bits [0, 0, 7] 3)) (pb_buf s') = drop (buf_end (init_put_bits [0, 0, 7] 3)) (pb_buf (init_put_bits [0, 0, 7] 3))"
  by (rule ff_copy_bits_correct) (simp_all add: init_put_bits_inv, simp_all add: init_put_bits_def put_bits_count_def)

end
