(* ===== verification/AV_GetBits.thy ===== *)
theory AV_GetBits
  imports AV_PutBits
begin

text \<open>
  \<^verbatim>\<open>libavcodec/get_bits.h\<close>: reading bit fields from a padded byte buffer, with the overread checks on
  (\<^verbatim>\<open>UNCHECKED_BITSTREAM_READER\<close> and \<^verbatim>\<open>CACHED_BITSTREAM_READER\<close> are 0, \<^verbatim>\<open>HAVE_FAST_64BIT\<close> is 1). A read outside the
  memory of the buffer is \<open>None\<close>.
\<close>

unbundle bit_operations_syntax

section \<open>Definitions\<close>

text \<open>\<open>gb_buffer\<close> is the memory from \<^verbatim>\<open>buffer\<close> on, with its padding.\<close>

record GetBitContext =
  gb_buffer :: "u8 list"
  gb_index :: int
  size_in_bits :: int
  size_in_bits_plus8 :: int

abbreviation AV_INPUT_BUFFER_PADDING_SIZE :: int where "AV_INPUT_BUFFER_PADDING_SIZE \<equiv> 64"

text \<open>The macros. An index is converted to \<^verbatim>\<open>unsigned\<close> by \<open>w32\<close>.\<close>

definition w32 :: "int \<Rightarrow> int" where
  "w32 x = x mod 2 ^ 32"

definition update_cache :: "GetBitContext \<Rightarrow> u32 option" where
  "update_cache gb =
     (let i = nat (gb_index gb) div 8
      in if i + 4 \<le> length (gb_buffer gb) then Some (push_bit (nat (gb_index gb) mod 8) (AV_RB32 (drop i (gb_buffer gb)))) else None)"

definition update_cache_32 :: "GetBitContext \<Rightarrow> u32 option" where
  "update_cache_32 gb =
     (let i = nat (gb_index gb) div 8
      in if i + 8 \<le> length (gb_buffer gb)
         then Some (ucast (drop_bit 32 (push_bit (nat (gb_index gb) mod 8) (AV_RB64 (drop i (gb_buffer gb)))))) else None)"

definition update_cache_le :: "GetBitContext \<Rightarrow> u32 option" where
  "update_cache_le gb =
     (let i = nat (gb_index gb) div 8
      in if i + 4 \<le> length (gb_buffer gb) then Some (drop_bit (nat (gb_index gb) mod 8) (AV_RL32 (drop i (gb_buffer gb)))) else None)"

definition skip_counter :: "GetBitContext \<Rightarrow> int \<Rightarrow> GetBitContext" where
  "skip_counter gb n = gb\<lparr>gb_index := min (size_in_bits_plus8 gb) (w32 (gb_index gb + n))\<rparr>"

definition NEG_USR32 :: "u32 \<Rightarrow> nat \<Rightarrow> u32" where
  "NEG_USR32 a s = drop_bit (32 - s) a"

definition NEG_SSR32 :: "u32 \<Rightarrow> nat \<Rightarrow> int" where
  "NEG_SSR32 a s = sint (signed_drop_bit (32 - s) a)"

definition sign_extend :: "u32 \<Rightarrow> nat \<Rightarrow> int" where
  "sign_extend val bits = (let shift = 32 - bits in sint (signed_drop_bit shift (push_bit shift val)))"

definition sign_extend64 :: "u64 \<Rightarrow> nat \<Rightarrow> int" where
  "sign_extend64 val bits = (let shift = 64 - bits in sint (signed_drop_bit shift (push_bit shift val)))"

definition zero_extend :: "u32 \<Rightarrow> nat \<Rightarrow> u32" where
  "zero_extend val bits = drop_bit (32 - bits) (push_bit (32 - bits) val)"

definition get_bits_count :: "GetBitContext \<Rightarrow> int" where
  "get_bits_count s = gb_index s"

definition get_bits_bytesize :: "GetBitContext \<Rightarrow> bool \<Rightarrow> int" where
  "get_bits_bytesize s round_up = (size_in_bits s + (if round_up then 7 else 0)) div 8"

definition get_bits_left :: "GetBitContext \<Rightarrow> int" where
  "get_bits_left gb = size_in_bits gb - get_bits_count gb"

definition skip_bits_long :: "GetBitContext \<Rightarrow> int \<Rightarrow> GetBitContext" where
  "skip_bits_long s n = s\<lparr>gb_index := gb_index s + av_clip_c n (- gb_index s) (size_in_bits_plus8 s - gb_index s)\<rparr>"

text \<open>The sign bits of \<^verbatim>\<open>get_xbits\<close> as a word of ones or zeros.\<close>

definition get_xbits :: "GetBitContext \<Rightarrow> nat \<Rightarrow> (int \<times> GetBitContext) option" where
  "get_xbits s n = do {
     cache \<leftarrow> update_cache s;
     let sign = signed_drop_bit 31 (NOT cache);
     Some (sint ((NEG_USR32 (sign XOR cache) n XOR sign) - sign), skip_counter s (int n))
   }"

definition get_xbits_le :: "GetBitContext \<Rightarrow> nat \<Rightarrow> (int \<times> GetBitContext) option" where
  "get_xbits_le s n = do {
     cache \<leftarrow> update_cache_le s;
     let sign = signed_drop_bit 31 (word_of_int (sign_extend (NOT cache) n));
     Some (sint ((zero_extend (sign XOR cache) n XOR sign) - sign), skip_counter s (int n))
   }"

definition get_sbits :: "GetBitContext \<Rightarrow> nat \<Rightarrow> (int \<times> GetBitContext) option" where
  "get_sbits s n = do {
     cache \<leftarrow> update_cache s;
     Some (NEG_SSR32 cache n, skip_counter s (int n))
   }"

definition get_bits :: "GetBitContext \<Rightarrow> nat \<Rightarrow> (u32 \<times> GetBitContext) option" where
  "get_bits s n = do {
     cache \<leftarrow> update_cache s;
     Some (NEG_USR32 cache n, skip_counter s (int n))
   }"

definition get_bitsz :: "GetBitContext \<Rightarrow> nat \<Rightarrow> (u32 \<times> GetBitContext) option" where
  "get_bitsz s n = (if n \<noteq> 0 then get_bits s n else Some (0, s))"

definition get_bits_le :: "GetBitContext \<Rightarrow> nat \<Rightarrow> (u32 \<times> GetBitContext) option" where
  "get_bits_le s n = do {
     cache \<leftarrow> update_cache_le s;
     Some (zero_extend cache n, skip_counter s (int n))
   }"

definition show_bits :: "GetBitContext \<Rightarrow> nat \<Rightarrow> u32 option" where
  "show_bits s n = map_option (\<lambda>cache. NEG_USR32 cache n) (update_cache s)"

definition skip_bits :: "GetBitContext \<Rightarrow> int \<Rightarrow> GetBitContext" where
  "skip_bits s n = skip_counter s n"

definition get_bits1 :: "GetBitContext \<Rightarrow> (u32 \<times> GetBitContext) option" where
  "get_bits1 s =
     (let index = nat (gb_index s)
      in if index div 8 < length (gb_buffer s) then
           let result = gb_buffer s ! (index div 8);
               result = drop_bit (8 - 1) (push_bit (index mod 8) result)
           in Some (ucast result, if gb_index s < size_in_bits_plus8 s then s\<lparr>gb_index := gb_index s + 1\<rparr> else s)
         else None)"

definition show_bits1 :: "GetBitContext \<Rightarrow> u32 option" where
  "show_bits1 s = show_bits s 1"

definition skip_bits1 :: "GetBitContext \<Rightarrow> GetBitContext" where
  "skip_bits1 s = skip_bits s 1"

text \<open>The general case; for a constant of at most 25 bits the compiler may choose \<^verbatim>\<open>get_bits\<close> instead.\<close>

definition get_bits_long :: "GetBitContext \<Rightarrow> nat \<Rightarrow> (u32 \<times> GetBitContext) option" where
  "get_bits_long s n =
     (if n = 0 then Some (0, s)
      else do {
        cache \<leftarrow> update_cache_32 s;
        Some (NEG_USR32 cache n, skip_counter s (int n))
      })"

definition get_bits64 :: "GetBitContext \<Rightarrow> nat \<Rightarrow> (u64 \<times> GetBitContext) option" where
  "get_bits64 s n =
     (if n \<le> 32 then do { (v, s) \<leftarrow> get_bits_long s n; Some (ucast v, s) }
      else do {
        (hi, s) \<leftarrow> get_bits_long s (n - 32);
        (lo, s) \<leftarrow> get_bits_long s 32;
        Some (push_bit 32 (ucast hi) OR ucast lo, s)
      })"

definition get_sbits_long :: "GetBitContext \<Rightarrow> nat \<Rightarrow> (int \<times> GetBitContext) option" where
  "get_sbits_long s n = (if n = 0 then Some (0, s) else do { (v, s) \<leftarrow> get_bits_long s n; Some (sign_extend v n, s) })"

definition get_sbits64 :: "GetBitContext \<Rightarrow> nat \<Rightarrow> (int \<times> GetBitContext) option" where
  "get_sbits64 s n = (if n = 0 then Some (0, s) else do { (v, s) \<leftarrow> get_bits64 s n; Some (sign_extend64 v n, s) })"

definition show_bits_long :: "GetBitContext \<Rightarrow> nat \<Rightarrow> u32 option" where
  "show_bits_long s n = (if n \<le> 25 then show_bits s n else map_option fst (get_bits_long s n))"

text \<open>A null buffer is the empty memory.\<close>

definition init_get_bits :: "u8 list option \<Rightarrow> int \<Rightarrow> int \<times> GetBitContext" where
  "init_get_bits buffer bit_size =
     (let (ret, buffer, bit_size) =
        (if bit_size \<ge> INT_MAX - max 7 (AV_INPUT_BUFFER_PADDING_SIZE * 8) \<or> bit_size < 0 \<or> buffer = None
         then (AVERROR INVALIDDATA, None, 0) else (0, buffer, bit_size))
      in (ret, \<lparr>gb_buffer = (case buffer of None \<Rightarrow> [] | Some b \<Rightarrow> b), gb_index = 0, size_in_bits = bit_size, size_in_bits_plus8 = bit_size + 8\<rparr>))"

definition init_get_bits8 :: "u8 list option \<Rightarrow> int \<Rightarrow> int \<times> GetBitContext" where
  "init_get_bits8 buffer byte_size =
     init_get_bits buffer ((if byte_size > INT_MAX div 8 \<or> byte_size < 0 then - 1 else byte_size) * 8)"

definition align_get_bits :: "GetBitContext \<Rightarrow> nat \<times> GetBitContext" where
  "align_get_bits s =
     (let n = (- get_bits_count s) mod 8;
          s = (if n \<noteq> 0 then skip_bits s n else s)
      in (nat (gb_index s) div 8, s))"

definition decode012 :: "GetBitContext \<Rightarrow> (u32 \<times> GetBitContext) option" where
  "decode012 gb = do {
     (n, gb) \<leftarrow> get_bits1 gb;
     if n = 0 then Some (0, gb)
     else do { (b, gb) \<leftarrow> get_bits1 gb; Some (b + 1, gb) }
   }"

definition decode210 :: "GetBitContext \<Rightarrow> (u32 \<times> GetBitContext) option" where
  "decode210 gb = do {
     (n, gb) \<leftarrow> get_bits1 gb;
     if n \<noteq> 0 then Some (0, gb)
     else do { (b, gb) \<leftarrow> get_bits1 gb; Some (2 - b, gb) }
   }"

partial_function (option) skip_1stop_loop :: "GetBitContext \<Rightarrow> (int \<times> GetBitContext) option" where
  "skip_1stop_loop gb = do {
     (b, gb) \<leftarrow> get_bits1 gb;
     if b = 0 then Some (0, gb)
     else
       let gb = skip_bits gb 8
       in if get_bits_left gb \<le> 0 then Some (AVERROR INVALIDDATA, gb) else skip_1stop_loop gb
   }"

definition skip_1stop_8data_bits :: "GetBitContext \<Rightarrow> (int \<times> GetBitContext) option" where
  "skip_1stop_8data_bits gb = (if get_bits_left gb \<le> 0 then Some (AVERROR INVALIDDATA, gb) else skip_1stop_loop gb)"


section \<open>What the reader sees\<close>

definition gb_inv :: "GetBitContext \<Rightarrow> bool" where
  "gb_inv s \<longleftrightarrow> 0 \<le> gb_index s \<and> gb_index s \<le> size_in_bits_plus8 s \<and> size_in_bits_plus8 s = size_in_bits s + 8 \<and>
     0 \<le> size_in_bits s \<and> size_in_bits s < INT_MAX - 512 \<and> (size_in_bits s + 7) div 8 + AV_INPUT_BUFFER_PADDING_SIZE \<le> int (length (gb_buffer s))"

definition gb_stream :: "GetBitContext \<Rightarrow> bool list" where
  "gb_stream s = drop (nat (gb_index s)) (be_stream (gb_buffer s))"

definition gb_stream_le :: "GetBitContext \<Rightarrow> bool list" where
  "gb_stream_le s = drop (nat (gb_index s)) (le_stream (gb_buffer s))"

text \<open>The reader after \<open>n\<close> bits, at most eight bits past the end.\<close>

definition advance :: "nat \<Rightarrow> GetBitContext \<Rightarrow> GetBitContext" where
  "advance n s = s\<lparr>gb_index := min (size_in_bits_plus8 s) (gb_index s + int n)\<rparr>"

text \<open>The next bits lie inside the data, or at most eight bits past it.\<close>

definition bits_ready :: "nat \<Rightarrow> GetBitContext \<Rightarrow> bool" where
  "bits_ready n s \<longleftrightarrow> gb_index s + int n \<le> size_in_bits_plus8 s"

lemma skip_counter_advance: "gb_inv s \<Longrightarrow> n < 2 ^ 31 \<Longrightarrow> skip_counter s (int n) = advance n s"
  by (simp add: skip_counter_def advance_def gb_inv_def w32_def)

lemma advance_inv [simp]: "gb_inv s \<Longrightarrow> gb_inv (advance n s)"
  by (simp add: gb_inv_def advance_def)

lemma advance_0 [simp]: "gb_inv s \<Longrightarrow> advance 0 s = s"
  by (simp add: gb_inv_def advance_def)

lemma advance_advance [simp]: "gb_inv s \<Longrightarrow> advance n (advance m s) = advance (m + n) s"
  by (simp add: gb_inv_def advance_def min_def)

lemma advance_fields [simp]: "gb_buffer (advance n s) = gb_buffer s" "size_in_bits (advance n s) = size_in_bits s"
  "size_in_bits_plus8 (advance n s) = size_in_bits_plus8 s"
  by (simp_all add: advance_def)

lemma bits_ready_advance: "gb_inv s \<Longrightarrow> bits_ready (m + n) s \<Longrightarrow> bits_ready n (advance m s)"
  by (simp add: bits_ready_def advance_def)

lemma bits_ready_mono: "bits_ready n s \<Longrightarrow> m \<le> n \<Longrightarrow> bits_ready m s"
  by (simp add: bits_ready_def)

lemma advance_stream:
  assumes "gb_inv s" "bits_ready n s"
  shows "gb_stream (advance n s) = drop n (gb_stream s)" "gb_stream_le (advance n s) = drop n (gb_stream_le s)"
  using assms by (simp_all add: gb_stream_def gb_stream_le_def advance_def bits_ready_def gb_inv_def nat_add_distrib add.commute)

text \<open>Every read of up to eight bytes at the current position stays in the padded buffer.\<close>

lemma gb_room: "gb_inv s \<Longrightarrow> nat (gb_index s) div 8 + 8 \<le> length (gb_buffer s)"
proof -
  assume inv: "gb_inv s"
  then have "gb_index s div 8 \<le> (size_in_bits s + 8) div 8" by (intro zdiv_mono1) (simp_all add: gb_inv_def)
  also have "\<dots> \<le> (size_in_bits s + 7) div 8 + 1" by (simp add: zdiv_mono1)
  finally have "gb_index s div 8 + 8 \<le> int (length (gb_buffer s))" using inv by (simp add: gb_inv_def)
  moreover have "int (nat (gb_index s) div 8) = gb_index s div 8" using inv by (simp add: gb_inv_def zdiv_int)
  ultimately show ?thesis by linarith
qed

lemma gb_stream_split:
  assumes "i = nat (gb_index s)"
  shows "gb_stream s = drop (i mod 8) (be_stream (drop (i div 8) (gb_buffer s)))" "gb_stream_le s = drop (i mod 8) (le_stream (drop (i div 8) (gb_buffer s)))"
proof -
  have "i = 8 * (i div 8) + i mod 8" by simp
  then show "gb_stream s = drop (i mod 8) (be_stream (drop (i div 8) (gb_buffer s)))" "gb_stream_le s = drop (i mod 8) (le_stream (drop (i div 8) (gb_buffer s)))"
    unfolding gb_stream_def gb_stream_le_def assms [symmetric] by (metis drop_drop drop_stream add.commute)+
qed

lemma be_bits_push: "r \<le> n \<Longrightarrow> n \<le> LENGTH('a) \<Longrightarrow> be_bits n (push_bit r w) = drop r (be_bits n w) @ replicate r False" for w :: "'a::len word"
  by (rule nth_equalityI) (auto simp: nth_append bit_push_bit_iff add.commute [of r])

lemma le_bits_drop: "le_bits n (drop_bit r w) = drop r (le_bits (r + n) w)" for w :: "'a::len word"
  by (rule nth_equalityI) (auto simp: bit_drop_bit_eq)

lemma AV_R_take: "AV_RB32 (take 4 x) = AV_RB32 x" "AV_RL32 (take 4 x) = AV_RL32 x" "AV_RB64 (take 8 x) = AV_RB64 x"
  by (simp_all add: AV_RB32_def AV_RL32_def AV_RB64_def)

text \<open>The first 25 bits of the cache, at least, are the next bits of the stream.\<close>

lemma update_cache_bits:
  assumes "gb_inv s"
  obtains c where "update_cache s = Some c" "take 25 (be_bits 32 c) = take 25 (gb_stream s)"
proof -
  define i where "i = nat (gb_index s)"
  define x where "x = drop (i div 8) (gb_buffer s)"
  have len: "8 \<le> length x" using gb_room [OF assms] by (simp add: x_def i_def)
  have "be_bits 32 (AV_RB32 x) = be_stream (take 4 x)" using bits_read32(1) [of "take 4 x"] len by (simp add: AV_R_take)
  also have "\<dots> = take 32 (be_stream x)" using take_stream(1) [of 4 x] by simp
  finally have b: "be_bits 32 (AV_RB32 x) = take 32 (be_stream x)" .
  have "take 25 (be_bits 32 (push_bit (i mod 8) (AV_RB32 x))) = take 25 (drop (i mod 8) (take 32 (be_stream x)))"
    using len by (subst be_bits_push) (simp_all add: b)
  also have "\<dots> = take 25 (drop (i mod 8) (be_stream x))" by (simp add: drop_take)
  finally show thesis using that gb_room [OF assms] gb_stream_split(1) [OF i_def] by (simp add: update_cache_def x_def i_def)
qed

lemma update_cache_32_bits:
  assumes "gb_inv s"
  obtains c where "update_cache_32 s = Some c" "be_bits 32 c = take 32 (gb_stream s)"
proof -
  define i where "i = nat (gb_index s)"
  define x where "x = drop (i div 8) (gb_buffer s)"
  have len: "8 \<le> length x" using gb_room [OF assms] by (simp add: x_def i_def)
  have "be_bits 64 (AV_RB64 x) = be_stream (take 8 x)" using bits_read64(1) [of "take 8 x"] len by (simp add: AV_R_take)
  also have "\<dots> = take 64 (be_stream x)" using take_stream(1) [of 8 x] by simp
  finally have b: "be_bits 64 (AV_RB64 x) = take 64 (be_stream x)" .
  have "be_bits 32 (drop_bit 32 (push_bit (i mod 8) (AV_RB64 x))) = take 32 (be_bits 64 (push_bit (i mod 8) (AV_RB64 x)))"
    using be_bits_add [of 32 32 "push_bit (i mod 8) (AV_RB64 x)"] by simp
  also have "\<dots> = take 32 (drop (i mod 8) (take 64 (be_stream x)))" using len by (subst be_bits_push) (simp_all add: b)
  also have "\<dots> = take 32 (drop (i mod 8) (be_stream x))" by (simp add: drop_take)
  finally show thesis using that gb_room [OF assms] gb_stream_split(1) [OF i_def] by (simp add: update_cache_32_def x_def i_def be_bits_ucast)
qed

lemma update_cache_le_bits:
  assumes "gb_inv s"
  obtains c where "update_cache_le s = Some c" "take 25 (le_bits 32 c) = take 25 (gb_stream_le s)"
proof -
  define i where "i = nat (gb_index s)"
  define x where "x = drop (i div 8) (gb_buffer s)"
  have len: "8 \<le> length x" using gb_room [OF assms] by (simp add: x_def i_def)
  have "le_bits 32 (AV_RL32 x) = le_stream (take 4 x)" using bits_read32(2) [of "take 4 x"] len by (simp add: AV_R_take)
  also have "\<dots> = take 32 (le_stream x)" using take_stream(2) [of 4 x] by simp
  finally have b: "le_bits 32 (AV_RL32 x) = take 32 (le_stream x)" .
  have "take 25 (le_bits 32 (drop_bit (i mod 8) (AV_RL32 x))) = take 25 (le_bits (32 - i mod 8) (drop_bit (i mod 8) (AV_RL32 x)))"
    by (rule nth_equalityI) simp_all
  also have "\<dots> = take 25 (drop (i mod 8) (take 32 (le_stream x)))"
    by (simp add: le_bits_drop b)
  also have "\<dots> = take 25 (drop (i mod 8) (le_stream x))" by (simp add: drop_take)
  finally show thesis using that gb_room [OF assms] gb_stream_split(2) [OF i_def] by (simp add: update_cache_le_def x_def i_def)
qed

text \<open>The top bits of the cache.\<close>

lemma NEG_USR32_bits: "n \<le> 32 \<Longrightarrow> be_bits n (NEG_USR32 c n) = take n (be_bits 32 c)" "n \<le> 32 \<Longrightarrow> take_bit n (NEG_USR32 c n) = NEG_USR32 c n"
proof -
  assume n: "n \<le> 32"
  then show "be_bits n (NEG_USR32 c n) = take n (be_bits 32 c)" using be_bits_add [of n "32 - n" c] by (simp add: NEG_USR32_def)
  show "take_bit n (NEG_USR32 c n) = NEG_USR32 c n"
    using n by (intro bit_word_eqI) (auto simp: NEG_USR32_def bit_take_bit_iff bit_drop_bit_eq dest: bit_imp_le_length)
qed

definition word_of_bits :: "bool list \<Rightarrow> 'a::len word" where
  "word_of_bits bs = of_nat (be_value bs)"

lemma word_of_bits_eq: "take_bit n w = w \<Longrightarrow> word_of_bits (be_bits n w) = w" for w :: "'a::len word"
  by (simp add: word_of_bits_def value_word_bits)

lemma bit_word_of_bits: "bit (word_of_bits bs :: 'a::len word) i \<longleftrightarrow> i < LENGTH('a) \<and> i < length bs \<and> bs ! (length bs - Suc i)"
  by (simp add: word_of_bits_def bit_of_nat_iff bit_strings)

lemma unat_word_of_bits: "length bs \<le> LENGTH('a) \<Longrightarrow> unat (word_of_bits bs :: 'a::len word) = be_value bs"
proof -
  assume "length bs \<le> LENGTH('a)"
  then have "2 ^ length bs \<le> (2 :: nat) ^ LENGTH('a)" by (intro power_increasing) simp_all
  then have "be_value bs < 2 ^ LENGTH('a)" by (rule less_le_trans [OF value_less(1)])
  then show ?thesis by (simp add: word_of_bits_def unsigned_of_nat take_bit_nat_eq_self)
qed

text \<open>\<^verbatim>\<open>get_bits\<close> and its relatives return the next bits as a number and advance past them.\<close>

lemma get_bits_spec:
  assumes "gb_inv s" "0 < n" "n \<le> 25"
  shows "get_bits s n = Some (word_of_bits (take n (gb_stream s)), advance n s)"
    "show_bits s n = Some (word_of_bits (take n (gb_stream s)))"
proof -
  obtain c where c: "update_cache s = Some c" "take 25 (be_bits 32 c) = take 25 (gb_stream s)" by (rule update_cache_bits [OF assms(1)])
  have "be_bits n (NEG_USR32 c n) = take n (take 25 (be_bits 32 c))" using assms(3) NEG_USR32_bits(1) [of n c] by (simp add: min_absorb1)
  also have "\<dots> = take n (gb_stream s)" unfolding c(2) using assms(3) by (simp add: min_absorb1)
  finally have "NEG_USR32 c n = word_of_bits (take n (gb_stream s))"
    using assms(3) word_of_bits_eq [OF NEG_USR32_bits(2), of n c] by simp
  then show "get_bits s n = Some (word_of_bits (take n (gb_stream s)), advance n s)" "show_bits s n = Some (word_of_bits (take n (gb_stream s)))"
    using c(1) assms by (simp_all add: get_bits_def show_bits_def skip_counter_advance)
qed

lemma get_bits_long_spec:
  assumes "gb_inv s" "n \<le> 32"
  shows "get_bits_long s n = Some (word_of_bits (take n (gb_stream s)), advance n s)"
proof (cases "n = 0")
  case True
  then show ?thesis using assms by (simp add: get_bits_long_def word_of_bits_def)
next
  case False
  obtain c where c: "update_cache_32 s = Some c" "be_bits 32 c = take 32 (gb_stream s)" by (rule update_cache_32_bits [OF assms(1)])
  have "be_bits n (NEG_USR32 c n) = take n (gb_stream s)" using assms(2) NEG_USR32_bits(1) [of n c] by (simp add: c(2) min_absorb1)
  then have "NEG_USR32 c n = word_of_bits (take n (gb_stream s))"
    using assms(2) word_of_bits_eq [OF NEG_USR32_bits(2), of n c] by simp
  then show ?thesis using c(1) assms False by (simp add: get_bits_long_def skip_counter_advance)
qed

lemma length_gb_stream:
  assumes "gb_inv s"
  shows "504 \<le> length (gb_stream s)"
proof -
  have "size_in_bits s + 7 < 8 * ((size_in_bits s + 7) div 8) + 8" by presburger
  then have "gb_index s + 504 \<le> 8 * int (length (gb_buffer s))" using assms by (simp add: gb_inv_def)
  moreover obtain i where "gb_index s = int i" using assms by (metis gb_inv_def nonneg_int_cases)
  ultimately show ?thesis by (simp add: gb_stream_def)
qed


lemma get_bits1_spec:
  assumes "gb_inv s"
  shows "get_bits1 s = Some (of_bool (hd (gb_stream s)), advance 1 s)"
proof -
  define i where "i = nat (gb_index s)"
  define b where "b = gb_buffer s ! (i div 8)"
  have k: "i div 8 < length (gb_buffer s)" using gb_room [OF assms] by (simp add: i_def)
  have "hd (gb_stream s) = be_stream (gb_buffer s) ! i" using k by (simp add: gb_stream_def i_def hd_drop_conv_nth)
  also have "\<dots> = bit b (7 - i mod 8)" using k nth_stream(1) [of i "gb_buffer s"] by (simp add: b_def)
  finally have h: "hd (gb_stream s) = bit b (7 - i mod 8)" .
  have "drop_bit 7 (push_bit (i mod 8) b) = of_bool (bit b (7 - i mod 8))"
    by (rule bit_word_eqI) (auto simp: bit_drop_bit_eq bit_push_bit_iff bit_of_bool_iff)
  then have "ucast (drop_bit (8 - 1) (push_bit (i mod 8) b)) = (of_bool (hd (gb_stream s)) :: u32)" by (simp add: h)
  moreover have "(if gb_index s < size_in_bits_plus8 s then s\<lparr>gb_index := gb_index s + 1\<rparr> else s) = advance 1 s"
    using assms by (simp add: advance_def gb_inv_def)
  ultimately show ?thesis using k unfolding get_bits1_def Let_def i_def [symmetric] b_def [symmetric] by simp
qed

lemma take_word_split:
  assumes "n \<le> 32" "n + 32 \<le> length bs"
  shows "push_bit 32 (ucast (word_of_bits (take n bs) :: u32)) OR ucast (word_of_bits (take 32 (drop n bs)) :: u32) = (word_of_bits (take (n + 32) bs) :: u64)"
proof (rule bit_word_eqI)
  fix i :: nat
  assume "i < LENGTH(64)"
  then show "bit (push_bit 32 (ucast (word_of_bits (take n bs) :: u32)) OR ucast (word_of_bits (take 32 (drop n bs)) :: u32) :: u64) i =
      bit (word_of_bits (take (n + 32) bs) :: u64) i"
    using assms by (cases "i < 32") (auto simp: bit_or_iff bit_push_bit_iff bit_unsigned_iff bit_word_of_bits min_def add.commute [of n])
qed

lemma get_bits64_spec:
  assumes inv: "gb_inv s" and n: "n \<le> 64" and ready: "bits_ready n s"
  shows "get_bits64 s n = Some (word_of_bits (take n (gb_stream s)), advance n s)"
proof (cases "n \<le> 32")
  case True
  have "ucast (word_of_bits (take n (gb_stream s)) :: u32) = (word_of_bits (take n (gb_stream s)) :: u64)"
    using True by (intro bit_word_eqI) (auto simp: bit_unsigned_iff bit_word_of_bits)
  then show ?thesis using True get_bits_long_spec [OF inv True] by (simp add: get_bits64_def)
next
  case False
  define m where "m = n - 32"
  have m: "n = m + 32" "m \<le> 32" using False n by (simp_all add: m_def)
  have "bits_ready m s" using ready m(1) by (intro bits_ready_mono [OF ready]) simp
  then have "gb_stream (advance m s) = drop m (gb_stream s)" using inv by (intro advance_stream(1))
  moreover have "get_bits_long (advance m s) 32 = Some (word_of_bits (take 32 (gb_stream (advance m s))), advance 32 (advance m s))"
    using inv by (intro get_bits_long_spec) simp_all
  ultimately show ?thesis
    using False m get_bits_long_spec [OF inv m(2)] take_word_split [OF m(2), of "gb_stream s"] length_gb_stream [OF inv] inv
    by (simp add: get_bits64_def)
qed

text \<open>Signed fields, in two's complement.\<close>

definition be_signed :: "bool list \<Rightarrow> int" where
  "be_signed bs = (if bs = [] then 0 else signed_take_bit (length bs - 1) (int (be_value bs)))"

lemma bit_be_signed: "bs \<noteq> [] \<Longrightarrow> bit (be_signed bs) i \<longleftrightarrow> bs ! (length bs - 1 - min (length bs - 1) i)"
proof -
  assume "bs \<noteq> []"
  then have "0 < length bs" by simp
  then have "min (length bs - 1) i < length bs" by linarith
  then show ?thesis using \<open>bs \<noteq> []\<close> by (simp add: be_signed_def bit_signed_take_bit_iff bit_of_nat_iff_bit bit_strings)
qed

lemma NEG_SSR32_signed:
  assumes "0 < n" "n \<le> 32"
  shows "NEG_SSR32 c n = be_signed (take n (be_bits 32 c))"
proof (rule bit_eqI)
  fix i :: nat
  have ne: "take n (be_bits 32 c) \<noteq> []" using assms length_bits(1) [of 32 c] by (metis length_0_conv length_take less_irrefl min.absorb2)
  show "bit (NEG_SSR32 c n) i = bit (be_signed (take n (be_bits 32 c))) i"
    using assms unfolding bit_be_signed [OF ne]
    by (cases i "n - 1" rule: linorder_cases)
      (auto simp: NEG_SSR32_def bit_sint_iff bit_signed_drop_bit_iff min_def intro: arg_cong [where f = "bit c"] dest: bit_imp_le_length)
qed

lemma get_sbits_spec:
  assumes "gb_inv s" "0 < n" "n \<le> 25"
  shows "get_sbits s n = Some (be_signed (take n (gb_stream s)), advance n s)"
proof -
  obtain c where c: "update_cache s = Some c" "take 25 (be_bits 32 c) = take 25 (gb_stream s)" by (rule update_cache_bits [OF assms(1)])
  have "take n (be_bits 32 c) = take n (gb_stream s)" using arg_cong [OF c(2), of "take n"] assms(3) by (simp add: min_absorb1)
  then show ?thesis using c(1) assms NEG_SSR32_signed [of n c] by (simp add: get_sbits_def skip_counter_advance)
qed

lemma sign_extend_signed:
  assumes "0 < n" "n \<le> 32" "take_bit n w = w"
  shows "sign_extend w n = be_signed (be_bits n w)"
proof (rule bit_eqI)
  fix i :: nat
  have ne: "be_bits n w \<noteq> []" using assms length_bits(1) [of n w] by (metis length_0_conv less_irrefl)
  show "bit (sign_extend w n) i = bit (be_signed (be_bits n w)) i"
    using assms unfolding bit_be_signed [OF ne]
    by (cases i "n - 1" rule: linorder_cases)
      (auto simp: sign_extend_def Let_def bit_sint_iff bit_signed_drop_bit_iff bit_push_bit_iff min_def intro: arg_cong [where f = "bit w"] dest: bit_imp_le_length)
qed

lemma sign_extend64_signed:
  assumes "0 < n" "n \<le> 64" "take_bit n w = w"
  shows "sign_extend64 w n = be_signed (be_bits n w)"
proof (rule bit_eqI)
  fix i :: nat
  have ne: "be_bits n w \<noteq> []" using assms length_bits(1) [of n w] by (metis length_0_conv less_irrefl)
  show "bit (sign_extend64 w n) i = bit (be_signed (be_bits n w)) i"
    using assms unfolding bit_be_signed [OF ne]
    by (cases i "n - 1" rule: linorder_cases)
      (auto simp: sign_extend64_def Let_def bit_sint_iff bit_signed_drop_bit_iff bit_push_bit_iff min_def intro: arg_cong [where f = "bit w"] dest: bit_imp_le_length)
qed


lemma get_sbits_long_spec:
  assumes "gb_inv s" "n \<le> 32"
  shows "get_sbits_long s n = Some (be_signed (take n (gb_stream s)), advance n s)"
proof (cases "n = 0")
  case False
  define w where "w = (word_of_bits (take n (gb_stream s)) :: u32)"
  have len: "length (take n (gb_stream s)) = n" using assms(2) length_gb_stream [OF assms(1)] by simp
  have "take_bit n w = w" by (rule bit_word_eqI) (use len in \<open>simp add: w_def bit_take_bit_iff bit_word_of_bits\<close>)
  moreover have "be_bits n w = take n (gb_stream s)" using assms(2) len by (intro nth_equalityI) (auto simp: w_def bit_word_of_bits)
  ultimately have "sign_extend w n = be_signed (take n (gb_stream s))" using False assms(2) sign_extend_signed [of n w] by simp
  then show ?thesis using False get_bits_long_spec [OF assms] by (simp add: get_sbits_long_def w_def)
qed (use assms in \<open>simp add: get_sbits_long_def be_signed_def\<close>)

lemma get_sbits64_spec:
  assumes "gb_inv s" "n \<le> 64" "bits_ready n s"
  shows "get_sbits64 s n = Some (be_signed (take n (gb_stream s)), advance n s)"
proof (cases "n = 0")
  case False
  define w where "w = (word_of_bits (take n (gb_stream s)) :: u64)"
  have len: "length (take n (gb_stream s)) = n" using assms(2) length_gb_stream [OF assms(1)] by simp
  have "take_bit n w = w" by (rule bit_word_eqI) (use len in \<open>simp add: w_def bit_take_bit_iff bit_word_of_bits\<close>)
  moreover have "be_bits n w = take n (gb_stream s)" using assms(2) len by (intro nth_equalityI) (auto simp: w_def bit_word_of_bits)
  ultimately have "sign_extend64 w n = be_signed (take n (gb_stream s))" using False assms(2) sign_extend64_signed [of n w] by simp
  then show ?thesis using False get_bits64_spec [OF assms] by (simp add: get_sbits64_def w_def)
qed (use assms in \<open>simp add: get_sbits64_def be_signed_def\<close>)

lemma xor_minus_one: "(x XOR - 1) - - 1 = - x" for x :: u32
  unfolding minus_eq_not_plus_1 [of x] by simp

text \<open>Numbers coded as a magnitude whose complement stands for the negative ones.\<close>

lemma get_xbits_spec:
  assumes "gb_inv s" "0 < n" "n \<le> 25"
  shows "get_xbits s n = Some (if hd (gb_stream s) then int (be_value (take n (gb_stream s))) else int (be_value (take n (gb_stream s))) - (2 ^ n - 1), advance n s)"
proof -
  obtain c where c: "update_cache s = Some c" "take 25 (be_bits 32 c) = take 25 (gb_stream s)" by (rule update_cache_bits [OF assms(1)])
  define b where "b = take n (be_bits 32 c)"
  have b: "b = take n (gb_stream s)" using arg_cong [OF c(2), of "take n"] assms(3) by (simp add: min_absorb1 b_def)
  define v where "v = NEG_USR32 c n"
  have vb: "be_bits n v = b" "take_bit n v = v" using NEG_USR32_bits [of n c] assms(3) by (simp_all add: v_def b_def)
  have uv: "unat v = be_value b" using value_word_bits(1) [of n v] vb by simp
  have lt: "be_value b < 2 ^ n" using value_less(1) [of b] assms(3) by (simp add: b_def min_absorb1)
  have "0 < length (gb_stream s)" using length_gb_stream [OF assms(1)] by linarith
  then have "hd (gb_stream s) = take 25 (be_bits 32 c) ! 0" unfolding c(2) by (simp add: hd_conv_nth)
  then have h: "hd (gb_stream s) = bit c 31" by simp
  have sgn: "signed_drop_bit 31 (NOT c) = (if bit c 31 then 0 else - 1)"
  proof (rule bit_word_eqI)
    fix i :: nat
    show "bit (signed_drop_bit 31 (NOT c)) i = bit (if bit c 31 then 0 else - 1 :: u32) i" if "i < LENGTH(32)"
      using that by (cases i) (auto simp: bit_signed_drop_bit_iff bit_not_iff)
  qed
  have small: "sint (word_of_int k :: u32) = k" if "- (2 ^ 25) \<le> k" "k < 2 ^ 25" for k
    using that by (simp add: sint_sbintrunc' signed_take_bit_int_eq_self)
  have p: "int (be_value b) < 2 ^ n" "(2 :: int) ^ n \<le> 2 ^ 25" "1 \<le> (2 :: int) ^ n"
    using lt power_increasing [OF assms(3), of "2 :: int"] by simp_all
  have v: "v = word_of_int (int (be_value b))" using uv by (simp flip: uv)
  have "sint ((NEG_USR32 (signed_drop_bit 31 (NOT c) XOR c) n XOR signed_drop_bit 31 (NOT c)) - signed_drop_bit 31 (NOT c)) =
      (if bit c 31 then int (be_value b) else int (be_value b) - (2 ^ n - 1))"
  proof (cases "bit c 31")
    case True
    have "sint v = int (be_value b)" using p unfolding v by (intro small) linarith+
    then show ?thesis using True by (simp add: sgn v_def)
  next
    case False
    have nv: "NEG_USR32 (NOT c) n = mask n - v"
    proof -
      have "NEG_USR32 (NOT c) n = mask n AND NOT v"
        using assms(3) by (intro bit_word_eqI) (auto simp: v_def NEG_USR32_def bit_drop_bit_eq bit_not_iff bit_and_iff bit_mask_iff dest: bit_imp_le_length)
      moreover have "(mask n AND NOT v) + v = (mask n AND NOT v) OR v" by (rule disjunctive_add) (auto simp: bit_and_iff bit_not_iff)
      moreover have "(mask n AND NOT v) OR v = mask n"
      proof (rule bit_word_eqI)
        fix i :: nat
        show "bit ((mask n AND NOT v) OR v) i = bit (mask n :: u32) i" if "i < LENGTH(32)"
          using arg_cong [OF vb(2), of "\<lambda>w. bit w i"] that by (auto simp: bit_or_iff bit_and_iff bit_not_iff bit_mask_iff bit_take_bit_iff)
      qed
      ultimately show ?thesis by (simp add: eq_diff_eq)
    qed
    have "(mask n :: u32) = word_of_int (2 ^ n - 1)" by (simp add: mask_eq_exp_minus_1)
    then have "v - mask n = word_of_int (int (be_value b) - (2 ^ n - 1))" unfolding v by simp
    moreover have "sint (word_of_int (int (be_value b) - (2 ^ n - 1)) :: u32) = int (be_value b) - (2 ^ n - 1)" using p by (intro small) linarith+
    ultimately have "sint (v - mask n) = int (be_value b) - (2 ^ n - 1)" by simp
    moreover have "(NEG_USR32 (NOT c) n XOR - 1) - - 1 = v - mask n" unfolding nv xor_minus_one by simp
    ultimately show ?thesis using False by (simp add: sgn)
  qed
  then show ?thesis using c(1) assms b h by (simp add: get_xbits_def skip_counter_advance)
qed

text \<open>Little-endian fields.\<close>

lemma get_bits_le_spec:
  assumes "gb_inv s" "0 < n" "n \<le> 25"
  shows "get_bits_le s n = Some (of_nat (le_value (take n (gb_stream_le s))), advance n s)"
proof -
  obtain c where c: "update_cache_le s = Some c" "take 25 (le_bits 32 c) = take 25 (gb_stream_le s)" by (rule update_cache_le_bits [OF assms(1)])
  have b: "take n (le_bits 32 c) = take n (gb_stream_le s)" using arg_cong [OF c(2), of "take n"] assms(3) by (simp add: min_absorb1)
  have "take n (le_bits 32 c) = le_bits n c" using assms(3) by (intro nth_equalityI) simp_all
  then have "le_value (take n (gb_stream_le s)) = unat (take_bit n c)" using b value_word_bits(2) [of n c] by simp
  moreover have "zero_extend c n = take_bit n c"
    using assms(2,3) by (intro bit_word_eqI) (auto simp: zero_extend_def bit_drop_bit_eq bit_push_bit_iff bit_take_bit_iff)
  ultimately show ?thesis using c(1) assms by (simp add: get_bits_le_def skip_counter_advance)
qed

section \<open>Setting up and moving\<close>

lemma init_get_bits_inv:
  assumes "0 \<le> n" "n < INT_MAX - 512" "(n + 7) div 8 + 64 \<le> int (length mem)"
  shows "\<exists>gb. init_get_bits (Some mem) n = (0, gb) \<and> gb_inv gb \<and> gb_stream gb = be_stream mem \<and> gb_stream_le gb = le_stream mem \<and> size_in_bits gb = n \<and> gb_index gb = 0"
  using assms by (auto simp: init_get_bits_def gb_inv_def gb_stream_def gb_stream_le_def)

lemma init_get_bits_error: "init_get_bits mem n = (r, gb) \<Longrightarrow> r = 0 \<or> r = AVERROR INVALIDDATA \<and> size_in_bits gb = 0 \<and> gb_buffer gb = []"
  by (auto simp: init_get_bits_def split: if_splits)

lemma init_get_bits8_inv:
  assumes "n < (INT_MAX - 512) div 8" "n + 64 \<le> length mem"
  shows "\<exists>gb. init_get_bits8 (Some mem) (int n) = (0, gb) \<and> gb_inv gb \<and> gb_stream gb = be_stream mem \<and> gb_stream_le gb = le_stream mem \<and>
    size_in_bits gb = 8 * int n \<and> gb_index gb = 0"
  using assms init_get_bits_inv [of "8 * int n" mem] by (auto simp: init_get_bits8_def mult.commute)

lemma skip_bits_long_advance: "gb_inv s \<Longrightarrow> skip_bits_long s (int n) = advance n s"
  by (auto simp: skip_bits_long_def advance_def gb_inv_def av_clip_c_def)

lemma skip_bits_long_inv: "gb_inv s \<Longrightarrow> gb_inv (skip_bits_long s n)"
  by (auto simp: skip_bits_long_def gb_inv_def av_clip_c_def)

lemma skip_bits_advance: "gb_inv s \<Longrightarrow> n < 2 ^ 31 \<Longrightarrow> skip_bits s (int n) = advance n s"
  by (simp add: skip_bits_def skip_counter_advance)


lemma align_get_bits_spec:
  assumes "gb_inv s" "gb_index s \<le> size_in_bits s"
  shows "snd (align_get_bits s) = advance (nat ((- gb_index s) mod 8)) s" "gb_index (snd (align_get_bits s)) = 8 * int (fst (align_get_bits s))"
proof -
  define n where "n = (- gb_index s) mod 8"
  have n: "0 \<le> n" "n < 8" by (simp_all add: n_def)
  have "skip_bits s (int (nat n)) = advance (nat n) s" using n by (intro skip_bits_advance [OF assms(1)]) simp
  then have a: "snd (align_get_bits s) = advance (nat n) s"
    using n assms(1) by (simp add: align_get_bits_def Let_def get_bits_count_def n_def [symmetric])
  then show "snd (align_get_bits s) = advance (nat ((- gb_index s) mod 8)) s" by (simp add: n_def)
  have i: "gb_index (advance (nat n) s) = gb_index s + n" using assms n by (simp add: advance_def gb_inv_def)
  have "(gb_index s + n) mod 8 = 0" unfolding n_def by (simp add: mod_add_right_eq)
  then have "8 * ((gb_index s + n) div 8) = gb_index s + n" by auto
  moreover have "fst (align_get_bits s) = nat (gb_index (snd (align_get_bits s))) div 8"
    by (simp add: align_get_bits_def Let_def)
  ultimately show "gb_index (snd (align_get_bits s)) = 8 * int (fst (align_get_bits s))"
    using i n(1) assms(1) unfolding a by (simp add: zdiv_int gb_inv_def)
qed

text \<open>The three-valued codes: 0, 10 and 11, and 1, 01 and 00.\<close>

lemma decode012_spec:
  assumes "gb_inv s" "bits_ready 2 s"
  shows "decode012 s = (if \<not> gb_stream s ! 0 then Some (0, advance 1 s) else Some (1 + of_bool (gb_stream s ! 1), advance 2 s))"
    "decode210 s = (if gb_stream s ! 0 then Some (0, advance 1 s) else Some (2 - of_bool (gb_stream s ! 1), advance 2 s))"
proof -
  have b1: "gb_stream (advance 1 s) = drop 1 (gb_stream s)" using assms by (intro advance_stream(1) bits_ready_mono [OF assms(2)]) simp_all
  have "Suc (Suc 0) \<le> length (gb_stream s)" using length_gb_stream [OF assms(1)] by linarith
  then obtain x y zs where x: "gb_stream s = x # y # zs" by (auto simp: Suc_le_length_iff)
  have g: "get_bits1 s = Some (of_bool x, advance 1 s)" "get_bits1 (advance 1 s) = Some (of_bool y, advance 2 s)"
    using get_bits1_spec [OF assms(1)] get_bits1_spec [of "advance 1 s"] assms(1) b1 x by (simp_all add: numeral_2_eq_2)
  show "decode012 s = (if \<not> gb_stream s ! 0 then Some (0, advance 1 s) else Some (1 + of_bool (gb_stream s ! 1), advance 2 s))"
    "decode210 s = (if gb_stream s ! 0 then Some (0, advance 1 s) else Some (2 - of_bool (gb_stream s ! 1), advance 2 s))"
    using g by (simp_all add: x decode012_def decode210_def add.commute)
qed

text \<open>
  C39: \<^verbatim>\<open>skip_1stop_8data_bits\<close> returns on every buffer, without reading outside it: either it stands behind the first zero stop
  bit, a whole number of nine-bit units and one bit further on, or it reports that the data ended.
\<close>

theorem skip_1stop_8data_bits_total:
  assumes "gb_inv s"
  shows "\<exists>r s'. skip_1stop_8data_bits s = Some (r, s') \<and> gb_inv s' \<and> (r = 0 \<or> r = AVERROR INVALIDDATA) \<and>
    (r = 0 \<longrightarrow> (\<exists>k. s' = advance (9 * k + 1) s \<and> gb_index s + 9 * int k < size_in_bits s \<and> \<not> gb_stream s ! (9 * k) \<and> (\<forall>j < k. gb_stream s ! (9 * j)))) \<and>
    (r \<noteq> 0 \<longrightarrow> get_bits_left s' \<le> 0)"
proof -
  have loop: "\<exists>r s'. skip_1stop_loop (advance (9 * m) s) = Some (r, s') \<and> gb_inv s' \<and> (r = 0 \<or> r = AVERROR INVALIDDATA) \<and>
      (r = 0 \<longrightarrow> (\<exists>k. s' = advance (9 * k + 1) s \<and> gb_index s + 9 * int k < size_in_bits s \<and> \<not> gb_stream s ! (9 * k) \<and> (\<forall>j < k. gb_stream s ! (9 * j)))) \<and>
      (r \<noteq> 0 \<longrightarrow> get_bits_left s' \<le> 0)"
    if "gb_index s + 9 * int m < size_in_bits s" "\<forall>j < m. gb_stream s ! (9 * j)" for m
    using that
  proof (induction "nat (size_in_bits s - (gb_index s + 9 * int m))" arbitrary: m rule: less_induct)
    case less
    have ready: "bits_ready (9 * m) s" using less.prems assms by (simp add: bits_ready_def gb_inv_def)
    have st: "gb_stream (advance (9 * m) s) = drop (9 * m) (gb_stream s)" by (rule advance_stream(1) [OF assms ready])
    have hd: "hd (gb_stream (advance (9 * m) s)) = gb_stream s ! (9 * m)"
      using length_gb_stream [of "advance (9 * m) s"] assms unfolding st by (intro hd_drop_conv_nth) auto
    have g: "get_bits1 (advance (9 * m) s) = Some (of_bool (gb_stream s ! (9 * m)), advance (9 * m + 1) s)"
      using get_bits1_spec [of "advance (9 * m) s"] assms hd by simp
    show ?case
    proof (cases "gb_stream s ! (9 * m)")
      case False
      then have "skip_1stop_loop (advance (9 * m) s) = Some (0, advance (9 * m + 1) s)" using g by (subst skip_1stop_loop.simps) simp
      moreover have "\<exists>k. advance (9 * m + 1) s = advance (9 * k + 1) s \<and> gb_index s + 9 * int k < size_in_bits s \<and> \<not> gb_stream s ! (9 * k) \<and>
          (\<forall>j < k. gb_stream s ! (9 * j))" using False less.prems by blast
      ultimately show ?thesis using assms by simp
    next
      case True
      have a: "skip_bits (advance (9 * m + 1) s) 8 = advance (9 * Suc m) s"
        using skip_bits_advance [of "advance (9 * m + 1) s" 8] assms by simp
      have step: "skip_1stop_loop (advance (9 * m) s) =
          (if get_bits_left (advance (9 * Suc m) s) \<le> 0 then Some (AVERROR INVALIDDATA, advance (9 * Suc m) s) else skip_1stop_loop (advance (9 * Suc m) s))"
        using g True a by (subst skip_1stop_loop.simps) (simp add: Let_def del: AVERROR.simps)
      show ?thesis
      proof (cases "get_bits_left (advance (9 * Suc m) s) \<le> 0")
        case True
        then show ?thesis using step assms by simp
      next
        case left: False
        have "gb_index s + 9 * int (Suc m) < size_in_bits s"
          using left assms by (simp add: get_bits_left_def get_bits_count_def advance_def gb_inv_def min_def split: if_splits)
        moreover have "\<forall>j < Suc m. gb_stream s ! (9 * j)" using less.prems(2) True by (simp add: less_Suc_eq)
        ultimately show ?thesis using less.hyps [of "Suc m"] less.prems(1) step left by simp
      qed
    qed
  qed
  show ?thesis
  proof (cases "get_bits_left s \<le> 0")
    case True
    then show ?thesis using assms AVERROR_neg [of INVALIDDATA] by (simp add: skip_1stop_8data_bits_def del: AVERROR.simps)
  next
    case False
    then show ?thesis using loop [of 0] assms by (simp add: skip_1stop_8data_bits_def get_bits_left_def get_bits_count_def)
  qed
qed

definition demo_gb :: GetBitContext where
  "demo_gb = \<lparr>gb_buffer = [0x80, 0x24, 0, 0] @ replicate 64 0, gb_index = 0, size_in_bits = 32, size_in_bits_plus8 = 40\<rparr>"

lemma demo_gb_inv: "gb_inv demo_gb"
  by (simp add: demo_gb_def gb_inv_def)

theorem skip_1stop_8data_bits_total_witness:
  "\<exists>r s'. skip_1stop_8data_bits demo_gb = Some (r, s') \<and> gb_inv s' \<and> (r = 0 \<or> r = AVERROR INVALIDDATA) \<and>
    (r = 0 \<longrightarrow> (\<exists>k. s' = advance (9 * k + 1) demo_gb \<and> gb_index demo_gb + 9 * int k < size_in_bits demo_gb \<and> \<not> gb_stream demo_gb ! (9 * k) \<and>
       (\<forall>j < k. gb_stream demo_gb ! (9 * j)))) \<and>
    (r \<noteq> 0 \<longrightarrow> get_bits_left s' \<le> 0)"
  by (rule skip_1stop_8data_bits_total [OF demo_gb_inv])

end
