(* ===== verification/AV_BlockCipher.thy ===== *)
theory AV_BlockCipher
  imports AV_Bytes
begin

text \<open>
  What the block ciphers of libavutil share: the loop over the blocks of a message with its two modes (ECB
  without an initialisation vector, CBC with one), and the contract of a block function. Every cipher is an
  interpretation of \<open>block_cipher\<close> and gets the facts about whole messages from it.
\<close>

unbundle bit_operations_syntax

section \<open>The loop over the blocks\<close>

text \<open>\<^verbatim>\<open>dst[i] = src[i] ^ iv[i]\<close>\<close>

definition xor_bytes :: "u8 list \<Rightarrow> u8 list \<Rightarrow> u8 list" where
  "xor_bytes a b = map2 (\<lambda>x y. x XOR y) a b"

text \<open>
  The block function of a cipher: from the source block, the direction and the initialisation vector to
  the destination block and the new vector. It is only given a vector when it decrypts.
\<close>

type_synonym block_fun = "u8 list \<Rightarrow> bool \<Rightarrow> u8 list option \<Rightarrow> u8 list \<times> u8 list option"

text \<open>
  The loop, for blocks of \<open>n\<close> bytes. The source is read before the destination is written in every round,
  so the result is the same when the two are one buffer.
\<close>

fun crypt_blocks :: "nat \<Rightarrow> block_fun \<Rightarrow> nat \<Rightarrow> u8 list \<Rightarrow> u8 list option \<Rightarrow> bool \<Rightarrow> u8 list \<times> u8 list option" where
  "crypt_blocks n crypt 0 src iv decrypt = ([], iv)"
| "crypt_blocks n crypt (Suc count) src iv decrypt =
     (let (dst, iv) =
            if decrypt then crypt (take n src) decrypt iv
            else case iv of
                   Some v \<Rightarrow> (let dst = fst (crypt (xor_bytes (take n src) v) decrypt None) in (dst, Some dst))
                 | None \<Rightarrow> (fst (crypt (take n src) decrypt None), None);
          (rest, iv) = crypt_blocks n crypt count (drop n src) iv decrypt
      in (dst @ rest, iv))"

lemma length_xor_bytes [simp]: "length (xor_bytes a b) = min (length a) (length b)"
  by (simp add: xor_bytes_def)

lemma xor_bytes_Cons [simp]: "xor_bytes (x # a) (y # b) = (x XOR y) # xor_bytes a b" "xor_bytes [] b = []" "xor_bytes a [] = []"
  by (simp_all add: xor_bytes_def)

lemma xor_bytes_cancel [simp]: "length a = length b \<Longrightarrow> xor_bytes (xor_bytes a b) b = a"
  by (induction a b rule: list_induct2) (simp_all add: xor.assoc)

lemma xor_cancel [simp]: "(a XOR b) XOR b = a" "b XOR (b XOR a) = a" for a b :: "'w :: len word"
  by (simp_all add: xor.assoc flip: xor.assoc [of b b])

text \<open>The initialisation vectors of a mode have the length of a block.\<close>

definition iv_ok :: "nat \<Rightarrow> u8 list option \<Rightarrow> bool" where
  "iv_ok n iv \<longleftrightarrow> (\<forall>v. iv = Some v \<longrightarrow> length v = n)"

lemma iv_ok_simps [simp]: "iv_ok n None" "iv_ok n (Some v) \<longleftrightarrow> length v = n"
  by (simp_all add: iv_ok_def)

section \<open>The contract of a block function\<close>

locale block_cipher =
  fixes n :: nat and crypt :: block_fun
  assumes crypt_length: "length b = n \<Longrightarrow> length (fst (crypt b decrypt None)) = n"
    and decrypt_encrypt: "length b = n \<Longrightarrow> crypt (fst (crypt b False None)) True None = (b, None)"
    and encrypt_decrypt: "length b = n \<Longrightarrow> fst (crypt (fst (crypt b True None)) False None) = b"
    and decrypt_chain: "length b = n \<Longrightarrow> length v = n \<Longrightarrow> crypt b True (Some v) = (xor_bytes (fst (crypt b True None)) v, Some b)"
begin

lemma block_round_trip: "length b = n \<Longrightarrow> fst (crypt (fst (crypt b False None)) True None) = b"
  by (simp add: decrypt_encrypt)

lemma crypt_blocks_length:
  "iv_ok n iv \<Longrightarrow> length src = n * count \<Longrightarrow>
   length (fst (crypt_blocks n crypt count src iv decrypt)) = n * count \<and> iv_ok n (snd (crypt_blocks n crypt count src iv decrypt)) \<and>
   (snd (crypt_blocks n crypt count src iv decrypt) = None \<longleftrightarrow> iv = None)"
proof (induction count arbitrary: src iv)
  case 0
  then show ?case by simp
next
  case (Suc count)
  have l: "length (take n src) = n" "length (drop n src) = n * count" using Suc.prems by simp_all
  show ?case
  proof (cases iv)
    case None
    have "length (fst (crypt (take n src) decrypt None)) = n" by (rule crypt_length [OF l(1)])
    moreover have "snd (crypt (take n src) True None) = None"
      using arg_cong [OF decrypt_encrypt [of "fst (crypt (take n src) True None)"], of snd] crypt_length [OF l(1), of True]
        encrypt_decrypt [OF l(1)] by simp
    ultimately show ?thesis using Suc.IH [OF _ l(2), of None]
      by (cases decrypt) (simp_all add: None split_beta Let_def)
  next
    case (Some v)
    have v: "length v = n" using Suc.prems Some by simp
    have x: "length (xor_bytes (take n src) v) = n" using l v by simp
    show ?thesis using Suc.IH [OF _ l(2)] crypt_length [OF l(1)] crypt_length [OF x] decrypt_chain [OF l(1) v] l v
      by (cases decrypt) (simp_all add: Some split_beta Let_def)
  qed
qed

text \<open>Decrypting in the mode of the encryption gives the message back, and both leave the same vector.\<close>

lemma round_trip:
  "iv_ok n iv \<Longrightarrow> length src = n * count \<Longrightarrow>
   crypt_blocks n crypt count (fst (crypt_blocks n crypt count src iv False)) iv True = (src, snd (crypt_blocks n crypt count src iv False))"
proof (induction count arbitrary: src iv)
  case 0
  then show ?case by simp
next
  case (Suc count)
  have l: "length (take n src) = n" "length (drop n src) = n * count" using Suc.prems by simp_all
  show ?case
  proof (cases iv)
    case None
    then show ?thesis using Suc.IH [OF _ l(2), of None] crypt_length [OF l(1), of False] decrypt_encrypt [OF l(1)]
      by (simp add: split_beta Let_def)
  next
    case (Some v)
    have v: "length v = n" using Suc.prems Some by simp
    let ?x = "xor_bytes (take n src) v"
    have x: "length ?x = n" using l v by simp
    have e: "length (fst (crypt ?x False None)) = n" by (rule crypt_length [OF x])
    have "crypt (fst (crypt ?x False None)) True (Some v) = (take n src, Some (fst (crypt ?x False None)))"
      using decrypt_chain [OF e v] decrypt_encrypt [OF x] l v by simp
    then show ?thesis using Suc.IH [OF _ l(2), of "Some (fst (crypt ?x False None))"] e
      by (simp add: Some split_beta Let_def)
  qed
qed

text \<open>A message may be processed in pieces, handing the vector on.\<close>

lemma crypt_blocks_append:
  "crypt_blocks n crypt (c1 + c2) src iv decrypt =
    (let (d1, iv) = crypt_blocks n crypt c1 src iv decrypt; (d2, iv) = crypt_blocks n crypt c2 (drop (n * c1) src) iv decrypt
     in (d1 @ d2, iv))"
proof (induction c1 arbitrary: src iv)
  case 0
  then show ?case by simp
next
  case (Suc c1)
  then show ?case by (simp add: split_beta Let_def add.commute split: option.split)
qed

end

section \<open>Feistel networks\<close>

text \<open>
  A sequence of steps is undone by the inverse steps in reverse order; the ciphers whose steps add to or
  exclusive-or into one half rest on this.
\<close>

lemma fold_inverse:
  assumes "\<And>x s. g (h x) (w (f x s)) = w s"
  shows "fold g (rev (map h xs)) (w (fold f xs s)) = w s"
  by (induction xs arbitrary: s) (simp_all add: assms)

lemma fold_inverse2:
  assumes "\<And>x s. f x (w (g (h x) s)) = w s"
  shows "fold f xs (w (fold g (rev (map h xs)) s)) = w s"
  by (induction xs arbitrary: s rule: rev_induct) (simp_all add: assms)

lemma word32_pair_bytes: "length b = 8 \<Longrightarrow> AV_WB32 (AV_RB32 b) @ AV_WB32 (AV_RB32 (drop 4 b)) = b"
proof -
  assume b: "length b = 8"
  have "AV_RB32 b = AV_RB32 (take 4 b)" using b by (simp add: AV_RB32_def)
  then show ?thesis using b write_read32(1) [of "take 4 b"] write_read32(1) [of "drop 4 b"] by simp
qed

lemma word32_pair_bytes_le: "length b = 8 \<Longrightarrow> AV_WL32 (AV_RL32 b) @ AV_WL32 (AV_RL32 (drop 4 b)) = b"
proof -
  assume b: "length b = 8"
  have "AV_RL32 b = AV_RL32 (take 4 b)" using b by (simp add: AV_RL32_def)
  then show ?thesis using b write_read32(2) [of "take 4 b"] write_read32(2) [of "drop 4 b"] by simp
qed

text \<open>Exclusive-or of two words with the vector is exclusive-or of their bytes.\<close>

lemma write_xor32: "AV_WB32 (a XOR b) = xor_bytes (AV_WB32 a) (AV_WB32 b)" "AV_WL32 (a XOR b) = xor_bytes (AV_WL32 a) (AV_WL32 b)"
  unfolding AV_WB32_def AV_WL32_def xor_bytes_Cons list.inject
  by (intro conjI bit_word_eqI refl; simp add: bytes_bits bit_xor_iff)+

lemma xor_bytes_append: "length a = length c \<Longrightarrow> xor_bytes (a @ b) (c @ d) = xor_bytes a c @ xor_bytes b d"
  by (simp add: xor_bytes_def)

lemma xor_bytes_words:
  assumes "length v = 8"
  shows "AV_WB32 (v0 XOR AV_RB32 v) @ AV_WB32 (v1 XOR AV_RB32 (drop 4 v)) = xor_bytes (AV_WB32 v0 @ AV_WB32 v1) v"
    "AV_WL32 (v0 XOR AV_RL32 v) @ AV_WL32 (v1 XOR AV_RL32 (drop 4 v)) = xor_bytes (AV_WL32 v0 @ AV_WL32 v1) v"
  by (simp_all add: write_xor32 flip: xor_bytes_append) (simp_all only: word32_pair_bytes [OF assms] word32_pair_bytes_le [OF assms])

section \<open>Ciphers on two words\<close>

text \<open>
  The common shape of the block functions of XTEA, TEA, Blowfish and CAST-128: two words are read, transformed,
  combined with the vector when decrypting, and written. \<open>le\<close> tells the byte order.
\<close>

definition word_block :: "bool \<Rightarrow> (u32 \<times> u32 \<Rightarrow> u32 \<times> u32) \<Rightarrow> (u32 \<times> u32 \<Rightarrow> u32 \<times> u32) \<Rightarrow> block_fun" where
  "word_block le enc dec src decrypt iv =
     (let rd = (if le then AV_RL32 else AV_RB32);
          wr = (if le then AV_WL32 else AV_WB32);
          (v0, v1) = (if decrypt then dec else enc) (rd src, rd (drop 4 src));
          (v0, v1, iv) = (case if decrypt then iv else None of
             Some v \<Rightarrow> (v0 XOR rd v, v1 XOR rd (drop 4 v), Some (take 8 src))
           | None \<Rightarrow> (v0, v1, iv))
      in (wr v0 @ wr v1, iv))"

lemma word_block_eq:
  "word_block False enc dec b True None = (case dec (AV_RB32 b, AV_RB32 (drop 4 b)) of (v0, v1) \<Rightarrow> (AV_WB32 v0 @ AV_WB32 v1, None))"
  "word_block False enc dec b False None = (case enc (AV_RB32 b, AV_RB32 (drop 4 b)) of (v0, v1) \<Rightarrow> (AV_WB32 v0 @ AV_WB32 v1, None))"
  "word_block True enc dec b True None = (case dec (AV_RL32 b, AV_RL32 (drop 4 b)) of (v0, v1) \<Rightarrow> (AV_WL32 v0 @ AV_WL32 v1, None))"
  "word_block True enc dec b False None = (case enc (AV_RL32 b, AV_RL32 (drop 4 b)) of (v0, v1) \<Rightarrow> (AV_WL32 v0 @ AV_WL32 v1, None))"
  by (simp_all add: word_block_def Let_def split_beta)

lemma read_written [simp]: "AV_RB32 (AV_WB32 a) = a" "AV_RL32 (AV_WL32 a) = a"
  using read_write32 [of a "[]"] by simp_all

lemma word_block_cipher:
  assumes "\<And>v. dec (enc v) = v" "\<And>v. enc (dec v) = v"
  shows "block_cipher 8 (word_block le enc dec)"
proof
  fix b v :: "u8 list" and decrypt
  assume b: "length b = 8"
  show "length (fst (word_block le enc dec b decrypt None)) = 8"
    by (cases le; cases decrypt) (simp_all add: word_block_eq split_beta)
  show "word_block le enc dec (fst (word_block le enc dec b False None)) True None = (b, None)"
    using assms(1) [of "(AV_RB32 b, AV_RB32 (drop 4 b))"] assms(1) [of "(AV_RL32 b, AV_RL32 (drop 4 b))"]
    by (cases le) (simp_all add: word_block_eq split_beta word32_pair_bytes [OF b] word32_pair_bytes_le [OF b])
  show "fst (word_block le enc dec (fst (word_block le enc dec b True None)) False None) = b"
    using assms(2) [of "(AV_RB32 b, AV_RB32 (drop 4 b))"] assms(2) [of "(AV_RL32 b, AV_RL32 (drop 4 b))"]
    by (cases le) (simp_all add: word_block_eq split_beta word32_pair_bytes [OF b] word32_pair_bytes_le [OF b])
  assume v: "length v = 8"
  show "word_block le enc dec b True (Some v) = (xor_bytes (fst (word_block le enc dec b True None)) v, Some b)"
    by (cases le) (simp_all add: word_block_eq split_beta b flip: xor_bytes_words [OF v], simp_all add: word_block_def split_beta Let_def b)
qed

end
