(* ===== verification/AV_Tea.thy ===== *)
theory AV_Tea
  imports AV_BlockCipher
begin

text \<open>
  \<^verbatim>\<open>libavutil/xtea.c\<close> and \<^verbatim>\<open>libavutil/tea.c\<close>. XTEA is there twice: with its 32 rounds unrolled and big-endian
  words, and as a loop with little-endian words. A key is the list of its four words.
\<close>

unbundle bit_operations_syntax

section \<open>XTEA\<close>

definition av_xtea_init :: "u8 list \<Rightarrow> u32 list" where
  "av_xtea_init key = map (\<lambda>i. AV_RB32 (drop (4 * i) key)) [0..<4]"

definition av_xtea_le_init :: "u8 list \<Rightarrow> u32 list" where
  "av_xtea_le_init key = map (\<lambda>i. AV_RL32 (drop (4 * i) key)) [0..<4]"

text \<open>\<^verbatim>\<open>(((v << 4) ^ (v >> 5)) + v) ^ k\<close>, the function both halves go through.\<close>

definition xtea_mix :: "u32 \<Rightarrow> u32 \<Rightarrow> u32" where
  "xtea_mix v k = ((push_bit 4 v XOR drop_bit 5 v) + v) XOR k"

text \<open>The macros \<^verbatim>\<open>DSTEP\<close> and \<^verbatim>\<open>ESTEP\<close>, and their 32 uses: the sum and the indices of the two key words.\<close>

definition xtea_DSTEP :: "u32 list \<Rightarrow> u32 \<times> nat \<times> nat \<Rightarrow> u32 \<times> u32 \<Rightarrow> u32 \<times> u32" where
  "xtea_DSTEP key = (\<lambda>(sm, K0, K1) (v0, v1).
     let v1 = v1 - xtea_mix v0 (sm + key ! K0);
         v0 = v0 - xtea_mix v1 (sm - 0x9E3779B9 + key ! K1)
     in (v0, v1))"

definition xtea_ESTEP :: "u32 list \<Rightarrow> u32 \<times> nat \<times> nat \<Rightarrow> u32 \<times> u32 \<Rightarrow> u32 \<times> u32" where
  "xtea_ESTEP key = (\<lambda>(sm, K0, K1) (v0, v1).
     let v0 = v0 + xtea_mix v1 (sm + key ! K0);
         v1 = v1 + xtea_mix v0 (sm + 0x9E3779B9 + key ! K1)
     in (v0, v1))"

definition xtea_dsteps :: "(u32 \<times> nat \<times> nat) list" where
  "xtea_dsteps =
    [(0xC6EF3720, 2, 3), (0x28B7BD67, 3, 2), (0x8A8043AE, 0, 1), (0xEC48C9F5, 1, 0),
     (0x4E11503C, 2, 3), (0xAFD9D683, 2, 2), (0x11A25CCA, 3, 1), (0x736AE311, 0, 0),
     (0xD5336958, 1, 3), (0x36FBEF9F, 1, 2), (0x98C475E6, 2, 1), (0xFA8CFC2D, 3, 0),
     (0x5C558274, 0, 3), (0xBE1E08BB, 1, 2), (0x1FE68F02, 1, 1), (0x81AF1549, 2, 0),
     (0xE3779B90, 3, 3), (0x454021D7, 0, 2), (0xA708A81E, 1, 1), (0x08D12E65, 1, 0),
     (0x6A99B4AC, 2, 3), (0xCC623AF3, 3, 2), (0x2E2AC13A, 0, 1), (0x8FF34781, 0, 0),
     (0xF1BBCDC8, 1, 3), (0x5384540F, 2, 2), (0xB54CDA56, 3, 1), (0x1715609D, 0, 0),
     (0x78DDE6E4, 0, 3), (0xDAA66D2B, 1, 2), (0x3C6EF372, 2, 1), (0x9E3779B9, 3, 0)]"

definition xtea_esteps :: "(u32 \<times> nat \<times> nat) list" where
  "xtea_esteps =
    [(0x00000000, 0, 3), (0x9E3779B9, 1, 2), (0x3C6EF372, 2, 1), (0xDAA66D2B, 3, 0),
     (0x78DDE6E4, 0, 0), (0x1715609D, 1, 3), (0xB54CDA56, 2, 2), (0x5384540F, 3, 1),
     (0xF1BBCDC8, 0, 0), (0x8FF34781, 1, 0), (0x2E2AC13A, 2, 3), (0xCC623AF3, 3, 2),
     (0x6A99B4AC, 0, 1), (0x08D12E65, 1, 1), (0xA708A81E, 2, 0), (0x454021D7, 3, 3),
     (0xE3779B90, 0, 2), (0x81AF1549, 1, 1), (0x1FE68F02, 2, 1), (0xBE1E08BB, 3, 0),
     (0x5C558274, 0, 3), (0xFA8CFC2D, 1, 2), (0x98C475E6, 2, 1), (0x36FBEF9F, 3, 1),
     (0xD5336958, 0, 0), (0x736AE311, 1, 3), (0x11A25CCA, 2, 2), (0xAFD9D683, 3, 2),
     (0x4E11503C, 0, 1), (0xEC48C9F5, 1, 0), (0x8A8043AE, 2, 3), (0x28B7BD67, 3, 2)]"

definition xtea_crypt_ecb :: "u32 list \<Rightarrow> block_fun" where
  "xtea_crypt_ecb key src decrypt iv =
     (let v0 = AV_RB32 src;
          v1 = AV_RB32 (drop 4 src)
      in if decrypt then
           let (v0, v1) = fold (xtea_DSTEP key) xtea_dsteps (v0, v1);
               (v0, v1, iv) = (case iv of
                  Some v \<Rightarrow> (v0 XOR AV_RB32 v, v1 XOR AV_RB32 (drop 4 v), Some (take 8 src))
                | None \<Rightarrow> (v0, v1, iv))
           in (AV_WB32 v0 @ AV_WB32 v1, iv)
         else
           let (v0, v1) = fold (xtea_ESTEP key) xtea_esteps (v0, v1)
           in (AV_WB32 v0 @ AV_WB32 v1, iv))"

text \<open>The loops of the little-endian variant; the first argument counts the rounds left.\<close>

fun xtea_decrypt_loop :: "nat \<Rightarrow> u32 list \<Rightarrow> u32 \<Rightarrow> u32 \<times> u32 \<Rightarrow> u32 \<times> u32" where
  "xtea_decrypt_loop 0 key sm v = v"
| "xtea_decrypt_loop (Suc i) key sm (v0, v1) =
     (let delta = 0x9E3779B9;
          v1 = v1 - xtea_mix v0 (sm + key ! unat (drop_bit 11 sm AND 3));
          sm = sm - delta;
          v0 = v0 - xtea_mix v1 (sm + key ! unat (sm AND 3))
      in xtea_decrypt_loop i key sm (v0, v1))"

fun xtea_encrypt_loop :: "nat \<Rightarrow> u32 list \<Rightarrow> u32 \<Rightarrow> u32 \<times> u32 \<Rightarrow> u32 \<times> u32" where
  "xtea_encrypt_loop 0 key sm v = v"
| "xtea_encrypt_loop (Suc i) key sm (v0, v1) =
     (let delta = 0x9E3779B9;
          v0 = v0 + xtea_mix v1 (sm + key ! unat (sm AND 3));
          sm = sm + delta;
          v1 = v1 + xtea_mix v0 (sm + key ! unat (drop_bit 11 sm AND 3))
      in xtea_encrypt_loop i key sm (v0, v1))"

definition xtea_le_crypt_ecb :: "u32 list \<Rightarrow> block_fun" where
  "xtea_le_crypt_ecb key src decrypt iv =
     (let v0 = AV_RL32 src;
          v1 = AV_RL32 (drop 4 src)
      in if decrypt then
           let (v0, v1) = xtea_decrypt_loop 32 key (0x9E3779B9 * 32) (v0, v1);
               (v0, v1, iv) = (case iv of
                  Some v \<Rightarrow> (v0 XOR AV_RL32 v, v1 XOR AV_RL32 (drop 4 v), Some (take 8 src))
                | None \<Rightarrow> (v0, v1, iv))
           in (AV_WL32 v0 @ AV_WL32 v1, iv)
         else
           let (v0, v1) = xtea_encrypt_loop 32 key 0 (v0, v1)
           in (AV_WL32 v0 @ AV_WL32 v1, iv))"

definition xtea_crypt :: "block_fun \<Rightarrow> u8 list \<Rightarrow> nat \<Rightarrow> u8 list option \<Rightarrow> bool \<Rightarrow> u8 list \<times> u8 list option" where
  "xtea_crypt crypt src count iv decrypt = crypt_blocks 8 crypt count src iv decrypt"

definition av_xtea_crypt :: "u32 list \<Rightarrow> u8 list \<Rightarrow> nat \<Rightarrow> u8 list option \<Rightarrow> bool \<Rightarrow> u8 list \<times> u8 list option" where
  "av_xtea_crypt key src count iv decrypt = xtea_crypt (xtea_crypt_ecb key) src count iv decrypt"

definition av_xtea_le_crypt :: "u32 list \<Rightarrow> u8 list \<Rightarrow> nat \<Rightarrow> u8 list option \<Rightarrow> bool \<Rightarrow> u8 list \<times> u8 list option" where
  "av_xtea_le_crypt key src count iv decrypt = xtea_crypt (xtea_le_crypt_ecb key) src count iv decrypt"

section \<open>TEA\<close>

record AVTEA =
  tea_key :: "u32 list"
  rounds :: int

definition av_tea_init :: "u8 list \<Rightarrow> int \<Rightarrow> AVTEA" where
  "av_tea_init key n = \<lparr>tea_key = map (\<lambda>i. AV_RB32 (drop (4 * i) key)) [0..<4], rounds = n\<rparr>"

fun tea_decrypt_loop :: "nat \<Rightarrow> u32 list \<Rightarrow> u32 \<Rightarrow> u32 \<times> u32 \<Rightarrow> u32 \<times> u32" where
  "tea_decrypt_loop 0 k sm v = v"
| "tea_decrypt_loop (Suc i) k sm (v0, v1) =
     (let v1 = v1 - ((push_bit 4 v0 + k ! 2) XOR (v0 + sm) XOR (drop_bit 5 v0 + k ! 3));
          v0 = v0 - ((push_bit 4 v1 + k ! 0) XOR (v1 + sm) XOR (drop_bit 5 v1 + k ! 1));
          sm = sm - 0x9E3779B9
      in tea_decrypt_loop i k sm (v0, v1))"

fun tea_encrypt_loop :: "nat \<Rightarrow> u32 list \<Rightarrow> u32 \<Rightarrow> u32 \<times> u32 \<Rightarrow> u32 \<times> u32" where
  "tea_encrypt_loop 0 k sm v = v"
| "tea_encrypt_loop (Suc i) k sm (v0, v1) =
     (let sm = sm + 0x9E3779B9;
          v0 = v0 + ((push_bit 4 v1 + k ! 0) XOR (v1 + sm) XOR (drop_bit 5 v1 + k ! 1));
          v1 = v1 + ((push_bit 4 v0 + k ! 2) XOR (v0 + sm) XOR (drop_bit 5 v0 + k ! 3))
      in tea_encrypt_loop i k sm (v0, v1))"

text \<open>A negative number of rounds runs no round; \<^verbatim>\<open>rounds / 2\<close> truncates.\<close>

definition tea_crypt_ecb :: "AVTEA \<Rightarrow> block_fun" where
  "tea_crypt_ecb ctx src decrypt iv =
     (let n = c_div (rounds ctx) 2;
          v0 = AV_RB32 src;
          v1 = AV_RB32 (drop 4 src)
      in if decrypt then
           let (v0, v1) = tea_decrypt_loop (nat n) (tea_key ctx) (0x9E3779B9 * word_of_int n) (v0, v1);
               (v0, v1, iv) = (case iv of
                  Some v \<Rightarrow> (v0 XOR AV_RB32 v, v1 XOR AV_RB32 (drop 4 v), Some (take 8 src))
                | None \<Rightarrow> (v0, v1, iv))
           in (AV_WB32 v0 @ AV_WB32 v1, iv)
         else
           let (v0, v1) = tea_encrypt_loop (nat n) (tea_key ctx) 0 (v0, v1)
           in (AV_WB32 v0 @ AV_WB32 v1, iv))"

definition av_tea_crypt :: "AVTEA \<Rightarrow> u8 list \<Rightarrow> nat \<Rightarrow> u8 list option \<Rightarrow> bool \<Rightarrow> u8 list \<times> u8 list option" where
  "av_tea_crypt ctx src count iv decrypt = crypt_blocks 8 (tea_crypt_ecb ctx) count src iv decrypt"

section \<open>Rounds and their inverses\<close>

abbreviation xtea_delta :: u32 where "xtea_delta \<equiv> 0x9E3779B9"

text \<open>The step of the loop at a given sum.\<close>

definition xtea_at :: "u32 \<Rightarrow> u32 \<times> nat \<times> nat" where
  "xtea_at sm = (sm, unat (sm AND 3), unat (drop_bit 11 (sm + xtea_delta) AND 3))"

definition xtea_mirror :: "u32 \<times> nat \<times> nat \<Rightarrow> u32 \<times> nat \<times> nat" where
  "xtea_mirror = (\<lambda>(s, a, b). (s + xtea_delta, b, a))"

lemma xtea_steps_inverse:
  "xtea_DSTEP key (xtea_mirror st) (xtea_ESTEP key st v) = v" "xtea_ESTEP key st (xtea_DSTEP key (xtea_mirror st) v) = v"
  by (simp_all add: xtea_DSTEP_def xtea_ESTEP_def xtea_mirror_def Let_def split_beta)

lemma xtea_esteps_eq: "xtea_esteps = map (\<lambda>i. xtea_at (of_nat i * xtea_delta)) [0..<32]"
  by code_simp

lemma xtea_dsteps_eq: "xtea_dsteps = rev (map xtea_mirror xtea_esteps)"
  by code_simp

lemma xtea_encrypt_loop_fold:
  "xtea_encrypt_loop n key (of_nat k * xtea_delta) v = fold (xtea_ESTEP key) (map (\<lambda>i. xtea_at (of_nat i * xtea_delta)) [k..<k + n]) v"
proof (induction n arbitrary: k v)
  case (Suc n)
  obtain v0 v1 where v: "v = (v0, v1)" by (cases v)
  have d: "of_nat k * xtea_delta + xtea_delta = of_nat (Suc k) * xtea_delta" by (simp add: ring_distribs)
  show ?case
    by (simp only: v xtea_encrypt_loop.simps Let_def d Suc.IH upt_conv_Cons add_Suc_right add_Suc)
      (simp add: xtea_ESTEP_def xtea_at_def Let_def upt_conv_Cons ring_distribs add.commute)
qed simp

lemma xtea_decrypt_loop_fold:
  "xtea_decrypt_loop n key (of_nat (k + n) * xtea_delta) v =
   fold (xtea_DSTEP key) (rev (map (\<lambda>i. xtea_mirror (xtea_at (of_nat i * xtea_delta))) [k..<k + n])) v"
proof (induction n arbitrary: v)
  case (Suc n)
  obtain v0 v1 where v: "v = (v0, v1)" by (cases v)
  have d: "of_nat (k + Suc n) * xtea_delta - xtea_delta = of_nat (k + n) * xtea_delta" by (simp add: ring_distribs)
  show ?case
    by (simp only: v xtea_decrypt_loop.simps Let_def d Suc.IH)
      (simp add: xtea_DSTEP_def xtea_mirror_def xtea_at_def Let_def ring_distribs add.commute)
qed simp

lemma xtea_fold_inverse:
  "fold (xtea_DSTEP key) (rev (map xtea_mirror st)) (fold (xtea_ESTEP key) st v) = v"
  "fold (xtea_ESTEP key) st (fold (xtea_DSTEP key) (rev (map xtea_mirror st)) v) = v"
  using fold_inverse [where w = id] fold_inverse2 [where w = id] xtea_steps_inverse by (metis id_apply)+

text \<open>The unrolled rounds are the loops.\<close>

lemma xtea_loops_unrolled:
  "xtea_encrypt_loop 32 key 0 v = fold (xtea_ESTEP key) xtea_esteps v"
  "xtea_decrypt_loop 32 key (0x9E3779B9 * 32) v = fold (xtea_DSTEP key) xtea_dsteps v"
  using xtea_encrypt_loop_fold [of 32 key 0 v] xtea_decrypt_loop_fold [of 32 key 0 v]
  unfolding xtea_dsteps_eq xtea_esteps_eq by (simp_all add: o_def)

lemma xtea_crypt_ecb_words:
  "xtea_crypt_ecb key = word_block False (fold (xtea_ESTEP key) xtea_esteps) (fold (xtea_DSTEP key) xtea_dsteps)"
  by (intro ext) (simp add: xtea_crypt_ecb_def word_block_def Let_def split_beta)

lemma xtea_le_crypt_ecb_words:
  "xtea_le_crypt_ecb key = word_block True (fold (xtea_ESTEP key) xtea_esteps) (fold (xtea_DSTEP key) xtea_dsteps)"
  unfolding xtea_le_crypt_ecb_def xtea_loops_unrolled by (intro ext) (simp add: word_block_def Let_def split_beta)

interpretation xtea: block_cipher 8 "xtea_crypt_ecb key" for key
  unfolding xtea_crypt_ecb_words by (rule word_block_cipher) (simp_all add: xtea_dsteps_eq xtea_fold_inverse)

interpretation xtea_le: block_cipher 8 "xtea_le_crypt_ecb key" for key
  unfolding xtea_le_crypt_ecb_words by (rule word_block_cipher) (simp_all add: xtea_dsteps_eq xtea_fold_inverse)

text \<open>TEA: the loops as sequences of steps at a given sum.\<close>

definition tea_estep :: "u32 list \<Rightarrow> u32 \<Rightarrow> u32 \<times> u32 \<Rightarrow> u32 \<times> u32" where
  "tea_estep k sm v = tea_encrypt_loop 1 k (sm - xtea_delta) v"

definition tea_dstep :: "u32 list \<Rightarrow> u32 \<Rightarrow> u32 \<times> u32 \<Rightarrow> u32 \<times> u32" where
  "tea_dstep k sm v = tea_decrypt_loop 1 k sm v"

lemma tea_steps_inverse: "tea_dstep k sm (tea_estep k sm v) = v" "tea_estep k sm (tea_dstep k sm v) = v"
  by (cases v; simp add: tea_dstep_def tea_estep_def Let_def)+

lemma tea_encrypt_loop_fold:
  "tea_encrypt_loop n k (of_nat m * xtea_delta) v = fold (tea_estep k) (map (\<lambda>i. of_nat (Suc i) * xtea_delta) [m..<m + n]) v"
proof (induction n arbitrary: m v)
  case (Suc n)
  obtain v0 v1 where v: "v = (v0, v1)" by (cases v)
  have d: "of_nat m * xtea_delta + xtea_delta = of_nat (Suc m) * xtea_delta" by (simp add: ring_distribs)
  have "tea_encrypt_loop (Suc n) k (of_nat m * xtea_delta) v =
      tea_encrypt_loop n k (of_nat (Suc m) * xtea_delta) (tea_estep k (of_nat (Suc m) * xtea_delta) v)"
    by (simp add: v tea_estep_def Let_def ring_distribs add.commute)
  then show ?case by (simp only: Suc.IH) (simp add: upt_conv_Cons del: upt_Suc)
qed simp

lemma tea_decrypt_loop_fold:
  "tea_decrypt_loop n k (of_nat (m + n) * xtea_delta) v = fold (tea_dstep k) (rev (map (\<lambda>i. of_nat (Suc i) * xtea_delta) [m..<m + n])) v"
proof (induction n arbitrary: v)
  case (Suc n)
  obtain v0 v1 where v: "v = (v0, v1)" by (cases v)
  have "tea_decrypt_loop (Suc n) k (of_nat (m + Suc n) * xtea_delta) v =
      tea_decrypt_loop n k (of_nat (m + n) * xtea_delta) (tea_dstep k (of_nat (m + Suc n) * xtea_delta) v)"
    by (simp add: v tea_dstep_def Let_def ring_distribs add.commute)
  then show ?case by (simp only: Suc.IH) simp
qed simp

lemma tea_fold_inverse:
  "fold (tea_dstep k) (rev xs) (fold (tea_estep k) xs v) = v" "fold (tea_estep k) xs (fold (tea_dstep k) (rev xs) v) = v"
  using fold_inverse [where w = id and h = id and g = "tea_dstep k" and f = "tea_estep k"]
    fold_inverse2 [where w = id and h = id and g = "tea_dstep k" and f = "tea_estep k"] tea_steps_inverse by simp_all

definition tea_sums :: "int \<Rightarrow> u32 list" where
  "tea_sums n = map (\<lambda>i. of_nat (Suc i) * xtea_delta) [0..<nat n]"

lemma tea_crypt_ecb_words:
  "tea_crypt_ecb ctx = word_block False (fold (tea_estep (tea_key ctx)) (tea_sums (c_div (rounds ctx) 2)))
     (fold (tea_dstep (tea_key ctx)) (rev (tea_sums (c_div (rounds ctx) 2))))"
proof -
  define n where "n = c_div (rounds ctx) 2"
  have e: "tea_encrypt_loop (nat n) k 0 v = fold (tea_estep k) (tea_sums n) v" for k v
    using tea_encrypt_loop_fold [of "nat n" k 0 v] by (simp add: tea_sums_def)
  have d: "tea_decrypt_loop (nat n) k (xtea_delta * word_of_int n) v = fold (tea_dstep k) (rev (tea_sums n)) v" for k v
  proof (cases "0 \<le> n")
    case True
    then have "of_nat (0 + nat n) * xtea_delta = xtea_delta * word_of_int n" by (simp add: mult.commute)
    then show ?thesis using tea_decrypt_loop_fold [of "nat n" k 0 v] by (simp only: tea_sums_def) simp
  qed (simp add: tea_sums_def)
  show ?thesis
    unfolding tea_crypt_ecb_def Let_def n_def [symmetric] e d by (intro ext) (simp add: word_block_def Let_def split_beta)
qed

interpretation tea: block_cipher 8 "tea_crypt_ecb ctx" for ctx
  unfolding tea_crypt_ecb_words by (rule word_block_cipher) (simp_all add: tea_fold_inverse)

text \<open>
  C19: decrypting what XTEA or TEA has encrypted gives the message back, in both byte orders, in both modes (with and
  without an initialisation vector), for every key, every number of rounds and every number of blocks; both
  directions leave the same vector behind, so that a stream may go on in pieces.
\<close>

theorem av_tea_round_trip:
  assumes "length src = 8 * count" "iv_ok 8 iv"
  shows "av_xtea_crypt key (fst (av_xtea_crypt key src count iv False)) count iv True = (src, snd (av_xtea_crypt key src count iv False)) \<and>
    av_xtea_le_crypt key (fst (av_xtea_le_crypt key src count iv False)) count iv True = (src, snd (av_xtea_le_crypt key src count iv False)) \<and>
    av_tea_crypt ctx (fst (av_tea_crypt ctx src count iv False)) count iv True = (src, snd (av_tea_crypt ctx src count iv False))"
  using xtea.round_trip [OF assms(2,1)] xtea_le.round_trip [OF assms(2,1)] tea.round_trip [OF assms(2,1)]
  by (simp add: av_xtea_crypt_def av_xtea_le_crypt_def av_tea_crypt_def xtea_crypt_def)

theorem av_tea_round_trip_witness:
  "av_xtea_crypt [1, 2, 3, 4] (fst (av_xtea_crypt [1, 2, 3, 4] [0, 1, 2, 3, 4, 5, 6, 7] 1 (Some [9, 9, 9, 9, 0, 0, 0, 0]) False)) 1
     (Some [9, 9, 9, 9, 0, 0, 0, 0]) True =
     ([0, 1, 2, 3, 4, 5, 6, 7], snd (av_xtea_crypt [1, 2, 3, 4] [0, 1, 2, 3, 4, 5, 6, 7] 1 (Some [9, 9, 9, 9, 0, 0, 0, 0]) False))"
  using av_tea_round_trip [of "[0, 1, 2, 3, 4, 5, 6, 7]" 1 "Some [9, 9, 9, 9, 0, 0, 0, 0]" "[1, 2, 3, 4]"] by simp

text \<open>
  Also: the unrolled big-endian XTEA and the looped little-endian one compute the same permutation of two words: all
  64 round constants and key indices of the unrolled code are the ones the loop computes.
\<close>

theorem xtea_unrolled_is_loop:
  "xtea_crypt_ecb key src decrypt None =
    (case (if decrypt then xtea_decrypt_loop 32 key (0x9E3779B9 * 32) else xtea_encrypt_loop 32 key 0)
        (AV_RB32 src, AV_RB32 (drop 4 src)) of
       (v0, v1) \<Rightarrow> (AV_WB32 v0 @ AV_WB32 v1, None))"
  unfolding xtea_loops_unrolled if_distribR by (simp add: xtea_crypt_ecb_def Let_def split_beta)

end
