(* ===== verification/AV_Des.thy ===== *)
theory AV_Des
  imports AV_BlockCipher
begin

text \<open>
  \<^verbatim>\<open>libavutil/des.c\<close>: DES and triple DES. Both variants of the round function are modelled: the one with
  the S-boxes and the permutation of the specification (\<^verbatim>\<open>CONFIG_SMALL\<close>) and the one with the table that
  combines them.
\<close>

unbundle bit_operations_syntax

section \<open>Tables\<close>

text \<open>The macro \<^verbatim>\<open>T\<close> turns the bit numbers of the specification into shift counts.\<close>

definition IP_shuffle :: "nat list" where
  "IP_shuffle = map (\<lambda>a. 64 - a)
    [58, 50, 42, 34, 26, 18, 10, 2,
     60, 52, 44, 36, 28, 20, 12, 4,
     62, 54, 46, 38, 30, 22, 14, 6,
     64, 56, 48, 40, 32, 24, 16, 8,
     57, 49, 41, 33, 25, 17, 9, 1,
     59, 51, 43, 35, 27, 19, 11, 3,
     61, 53, 45, 37, 29, 21, 13, 5,
     63, 55, 47, 39, 31, 23, 15, 7]"

definition P_shuffle :: "nat list" where
  "P_shuffle = map (\<lambda>a. 32 - a)
    [16, 7, 20, 21,
     29, 12, 28, 17,
     1, 15, 23, 26,
     5, 18, 31, 10,
     2, 8, 24, 14,
     32, 27, 3, 9,
     19, 13, 30, 6,
     22, 11, 4, 25]"

definition PC1_shuffle :: "nat list" where
  "PC1_shuffle = map (\<lambda>a. 64 - a)
    [57, 49, 41, 33, 25, 17, 9,
     1, 58, 50, 42, 34, 26, 18,
     10, 2, 59, 51, 43, 35, 27,
     19, 11, 3, 60, 52, 44, 36,
     63, 55, 47, 39, 31, 23, 15,
     7, 62, 54, 46, 38, 30, 22,
     14, 6, 61, 53, 45, 37, 29,
     21, 13, 5, 28, 20, 12, 4]"

definition PC2_shuffle :: "nat list" where
  "PC2_shuffle = map (\<lambda>a. 56 - a)
    [14, 17, 11, 24, 1, 5,
     3, 28, 15, 6, 21, 10,
     23, 19, 12, 4, 26, 8,
     16, 7, 27, 20, 13, 2,
     41, 52, 31, 37, 47, 55,
     30, 40, 51, 45, 33, 48,
     44, 49, 39, 56, 34, 53,
     46, 42, 50, 36, 29, 32]"

definition S_boxes :: "u8 list list" where
  "S_boxes =
    [[0x0e, 0xf4, 0x7d, 0x41, 0xe2, 0x2f, 0xdb, 0x18, 0xa3, 0x6a, 0xc6, 0xbc, 0x95, 0x59, 0x30, 0x87,
      0xf4, 0xc1, 0x8e, 0x28, 0x4d, 0x96, 0x12, 0x7b, 0x5f, 0xbc, 0x39, 0xe7, 0xa3, 0x0a, 0x65, 0xd0],
     [0x3f, 0xd1, 0x48, 0x7e, 0xf6, 0x2b, 0x83, 0xe4, 0xc9, 0x07, 0x12, 0xad, 0x6c, 0x90, 0xb5, 0x5a,
      0xd0, 0x8e, 0xa7, 0x1b, 0x3a, 0xf4, 0x4d, 0x21, 0xb5, 0x68, 0x7c, 0xc6, 0x09, 0x53, 0xe2, 0x9f],
     [0xda, 0x70, 0x09, 0x9e, 0x36, 0x43, 0x6f, 0xa5, 0x21, 0x8d, 0x5c, 0xe7, 0xcb, 0xb4, 0xf2, 0x18,
      0x1d, 0xa6, 0xd4, 0x09, 0x68, 0x9f, 0x83, 0x70, 0x4b, 0xf1, 0xe2, 0x3c, 0xb5, 0x5a, 0x2e, 0xc7],
     [0xd7, 0x8d, 0xbe, 0x53, 0x60, 0xf6, 0x09, 0x3a, 0x41, 0x72, 0x28, 0xc5, 0x1b, 0xac, 0xe4, 0x9f,
      0x3a, 0xf6, 0x09, 0x60, 0xac, 0x1b, 0xd7, 0x8d, 0x9f, 0x41, 0x53, 0xbe, 0xc5, 0x72, 0x28, 0xe4],
     [0xe2, 0xbc, 0x24, 0xc1, 0x47, 0x7a, 0xdb, 0x16, 0x58, 0x05, 0xf3, 0xaf, 0x3d, 0x90, 0x8e, 0x69,
      0xb4, 0x82, 0xc1, 0x7b, 0x1a, 0xed, 0x27, 0xd8, 0x6f, 0xf9, 0x0c, 0x95, 0xa6, 0x43, 0x50, 0x3e],
     [0xac, 0xf1, 0x4a, 0x2f, 0x79, 0xc2, 0x96, 0x58, 0x60, 0x1d, 0xd3, 0xe4, 0x0e, 0xb7, 0x35, 0x8b,
      0x49, 0x3e, 0x2f, 0xc5, 0x92, 0x58, 0xfc, 0xa3, 0xb7, 0xe0, 0x14, 0x7a, 0x61, 0x0d, 0x8b, 0xd6],
     [0xd4, 0x0b, 0xb2, 0x7e, 0x4f, 0x90, 0x18, 0xad, 0xe3, 0x3c, 0x59, 0xc7, 0x25, 0xfa, 0x86, 0x61,
      0x61, 0xb4, 0xdb, 0x8d, 0x1c, 0x43, 0xa7, 0x7e, 0x9a, 0x5f, 0x06, 0xf8, 0xe0, 0x25, 0x39, 0xc2],
     [0x1d, 0xf2, 0xd8, 0x84, 0xa6, 0x3f, 0x7b, 0x41, 0xca, 0x59, 0x63, 0xbe, 0x05, 0xe0, 0x9c, 0x27,
      0x27, 0x1b, 0xe4, 0x71, 0x49, 0xac, 0x8e, 0xd2, 0xf0, 0xc6, 0x9a, 0x0d, 0x3f, 0x53, 0x65, 0xb8]]"

definition S_boxes_P_shuffle :: "u32 list list" where
  "S_boxes_P_shuffle =
    [[0x00808200, 0x00000000, 0x00008000, 0x00808202, 0x00808002, 0x00008202, 0x00000002, 0x00008000,
      0x00000200, 0x00808200, 0x00808202, 0x00000200, 0x00800202, 0x00808002, 0x00800000, 0x00000002,
      0x00000202, 0x00800200, 0x00800200, 0x00008200, 0x00008200, 0x00808000, 0x00808000, 0x00800202,
      0x00008002, 0x00800002, 0x00800002, 0x00008002, 0x00000000, 0x00000202, 0x00008202, 0x00800000,
      0x00008000, 0x00808202, 0x00000002, 0x00808000, 0x00808200, 0x00800000, 0x00800000, 0x00000200,
      0x00808002, 0x00008000, 0x00008200, 0x00800002, 0x00000200, 0x00000002, 0x00800202, 0x00008202,
      0x00808202, 0x00008002, 0x00808000, 0x00800202, 0x00800002, 0x00000202, 0x00008202, 0x00808200,
      0x00000202, 0x00800200, 0x00800200, 0x00000000, 0x00008002, 0x00008200, 0x00000000, 0x00808002],
     [0x40084010, 0x40004000, 0x00004000, 0x00084010, 0x00080000, 0x00000010, 0x40080010, 0x40004010,
      0x40000010, 0x40084010, 0x40084000, 0x40000000, 0x40004000, 0x00080000, 0x00000010, 0x40080010,
      0x00084000, 0x00080010, 0x40004010, 0x00000000, 0x40000000, 0x00004000, 0x00084010, 0x40080000,
      0x00080010, 0x40000010, 0x00000000, 0x00084000, 0x00004010, 0x40084000, 0x40080000, 0x00004010,
      0x00000000, 0x00084010, 0x40080010, 0x00080000, 0x40004010, 0x40080000, 0x40084000, 0x00004000,
      0x40080000, 0x40004000, 0x00000010, 0x40084010, 0x00084010, 0x00000010, 0x00004000, 0x40000000,
      0x00004010, 0x40084000, 0x00080000, 0x40000010, 0x00080010, 0x40004010, 0x40000010, 0x00080010,
      0x00084000, 0x00000000, 0x40004000, 0x00004010, 0x40000000, 0x40080010, 0x40084010, 0x00084000],
     [0x00000104, 0x04010100, 0x00000000, 0x04010004, 0x04000100, 0x00000000, 0x00010104, 0x04000100,
      0x00010004, 0x04000004, 0x04000004, 0x00010000, 0x04010104, 0x00010004, 0x04010000, 0x00000104,
      0x04000000, 0x00000004, 0x04010100, 0x00000100, 0x00010100, 0x04010000, 0x04010004, 0x00010104,
      0x04000104, 0x00010100, 0x00010000, 0x04000104, 0x00000004, 0x04010104, 0x00000100, 0x04000000,
      0x04010100, 0x04000000, 0x00010004, 0x00000104, 0x00010000, 0x04010100, 0x04000100, 0x00000000,
      0x00000100, 0x00010004, 0x04010104, 0x04000100, 0x04000004, 0x00000100, 0x00000000, 0x04010004,
      0x04000104, 0x00010000, 0x04000000, 0x04010104, 0x00000004, 0x00010104, 0x00010100, 0x04000004,
      0x04010000, 0x04000104, 0x00000104, 0x04010000, 0x00010104, 0x00000004, 0x04010004, 0x00010100],
     [0x80401000, 0x80001040, 0x80001040, 0x00000040, 0x00401040, 0x80400040, 0x80400000, 0x80001000,
      0x00000000, 0x00401000, 0x00401000, 0x80401040, 0x80000040, 0x00000000, 0x00400040, 0x80400000,
      0x80000000, 0x00001000, 0x00400000, 0x80401000, 0x00000040, 0x00400000, 0x80001000, 0x00001040,
      0x80400040, 0x80000000, 0x00001040, 0x00400040, 0x00001000, 0x00401040, 0x80401040, 0x80000040,
      0x00400040, 0x80400000, 0x00401000, 0x80401040, 0x80000040, 0x00000000, 0x00000000, 0x00401000,
      0x00001040, 0x00400040, 0x80400040, 0x80000000, 0x80401000, 0x80001040, 0x80001040, 0x00000040,
      0x80401040, 0x80000040, 0x80000000, 0x00001000, 0x80400000, 0x80001000, 0x00401040, 0x80400040,
      0x80001000, 0x00001040, 0x00400000, 0x80401000, 0x00000040, 0x00400000, 0x00001000, 0x00401040],
     [0x00000080, 0x01040080, 0x01040000, 0x21000080, 0x00040000, 0x00000080, 0x20000000, 0x01040000,
      0x20040080, 0x00040000, 0x01000080, 0x20040080, 0x21000080, 0x21040000, 0x00040080, 0x20000000,
      0x01000000, 0x20040000, 0x20040000, 0x00000000, 0x20000080, 0x21040080, 0x21040080, 0x01000080,
      0x21040000, 0x20000080, 0x00000000, 0x21000000, 0x01040080, 0x01000000, 0x21000000, 0x00040080,
      0x00040000, 0x21000080, 0x00000080, 0x01000000, 0x20000000, 0x01040000, 0x21000080, 0x20040080,
      0x01000080, 0x20000000, 0x21040000, 0x01040080, 0x20040080, 0x00000080, 0x01000000, 0x21040000,
      0x21040080, 0x00040080, 0x21000000, 0x21040080, 0x01040000, 0x00000000, 0x20040000, 0x21000000,
      0x00040080, 0x01000080, 0x20000080, 0x00040000, 0x00000000, 0x20040000, 0x01040080, 0x20000080],
     [0x10000008, 0x10200000, 0x00002000, 0x10202008, 0x10200000, 0x00000008, 0x10202008, 0x00200000,
      0x10002000, 0x00202008, 0x00200000, 0x10000008, 0x00200008, 0x10002000, 0x10000000, 0x00002008,
      0x00000000, 0x00200008, 0x10002008, 0x00002000, 0x00202000, 0x10002008, 0x00000008, 0x10200008,
      0x10200008, 0x00000000, 0x00202008, 0x10202000, 0x00002008, 0x00202000, 0x10202000, 0x10000000,
      0x10002000, 0x00000008, 0x10200008, 0x00202000, 0x10202008, 0x00200000, 0x00002008, 0x10000008,
      0x00200000, 0x10002000, 0x10000000, 0x00002008, 0x10000008, 0x10202008, 0x00202000, 0x10200000,
      0x00202008, 0x10202000, 0x00000000, 0x10200008, 0x00000008, 0x00002000, 0x10200000, 0x00202008,
      0x00002000, 0x00200008, 0x10002008, 0x00000000, 0x10202000, 0x10000000, 0x00200008, 0x10002008],
     [0x00100000, 0x02100001, 0x02000401, 0x00000000, 0x00000400, 0x02000401, 0x00100401, 0x02100400,
      0x02100401, 0x00100000, 0x00000000, 0x02000001, 0x00000001, 0x02000000, 0x02100001, 0x00000401,
      0x02000400, 0x00100401, 0x00100001, 0x02000400, 0x02000001, 0x02100000, 0x02100400, 0x00100001,
      0x02100000, 0x00000400, 0x00000401, 0x02100401, 0x00100400, 0x00000001, 0x02000000, 0x00100400,
      0x02000000, 0x00100400, 0x00100000, 0x02000401, 0x02000401, 0x02100001, 0x02100001, 0x00000001,
      0x00100001, 0x02000000, 0x02000400, 0x00100000, 0x02100400, 0x00000401, 0x00100401, 0x02100400,
      0x00000401, 0x02000001, 0x02100401, 0x02100000, 0x00100400, 0x00000000, 0x00000001, 0x02100401,
      0x00000000, 0x00100401, 0x02100000, 0x00000400, 0x02000001, 0x02000400, 0x00000400, 0x00100001],
     [0x08000820, 0x00000800, 0x00020000, 0x08020820, 0x08000000, 0x08000820, 0x00000020, 0x08000000,
      0x00020020, 0x08020000, 0x08020820, 0x00020800, 0x08020800, 0x00020820, 0x00000800, 0x00000020,
      0x08020000, 0x08000020, 0x08000800, 0x00000820, 0x00020800, 0x00020020, 0x08020020, 0x08020800,
      0x00000820, 0x00000000, 0x00000000, 0x08020020, 0x08000020, 0x08000800, 0x00020820, 0x00020000,
      0x00020820, 0x00020000, 0x08020800, 0x00000800, 0x00000020, 0x08020020, 0x00000800, 0x00020820,
      0x08000800, 0x00000020, 0x08000020, 0x08020000, 0x08020020, 0x08000000, 0x00020000, 0x08000820,
      0x00000000, 0x08020820, 0x00020020, 0x08000020, 0x08020000, 0x08000800, 0x08000820, 0x00000000,
      0x08020820, 0x00020800, 0x00020800, 0x00000820, 0x00000820, 0x00020020, 0x08000000, 0x08020800]]"

section \<open>Operations\<close>

definition shuffle :: "u64 \<Rightarrow> nat list \<Rightarrow> u64" where
  "shuffle inp shuf = foldl (\<lambda>res s. res + (res + (drop_bit s inp AND 1))) 0 shuf"

definition shuffle_inv :: "u64 \<Rightarrow> nat list \<Rightarrow> u64" where
  "shuffle_inv inp shuf = fst (foldl (\<lambda>(res, inp) s. (res OR push_bit s (inp AND 1), drop_bit 1 inp)) (0, inp) (rev shuf))"

text \<open>The loop of the two variants of \<^verbatim>\<open>f_func\<close>, which runs over \<open>i\<close> from 7 down to 0.\<close>

definition small_step :: "nat \<Rightarrow> u32 \<times> u32 \<times> u64 \<Rightarrow> u32 \<times> u32 \<times> u64" where
  "small_step i = (\<lambda>(out, r, k).
     let tmp = unat ((ucast r XOR k) AND 0x3F);
         v = S_boxes ! i ! (tmp div 2);
         v = (if odd tmp then drop_bit 4 v else v);
         out = drop_bit 4 out OR push_bit 28 (ucast v);
         r = drop_bit 4 r OR push_bit 28 r
     in (out, r, drop_bit 6 k))"

definition table_step :: "nat \<Rightarrow> u32 \<times> u32 \<times> u64 \<Rightarrow> u32 \<times> u32 \<times> u64" where
  "table_step i = (\<lambda>(out, r, k).
     let tmp = unat ((ucast r XOR k) AND 0x3F);
         out = out OR S_boxes_P_shuffle ! i ! tmp;
         r = drop_bit 4 r OR push_bit 28 r
     in (out, r, drop_bit 6 k))"

definition f_func_small :: "u32 \<Rightarrow> u64 \<Rightarrow> u32" where
  "f_func_small r k =
     (let r = push_bit 1 r OR drop_bit 31 r;
          (out, r, k) = fold small_step [7, 6, 5, 4, 3, 2, 1, 0] (0, r, k)
      in ucast (shuffle (ucast out) P_shuffle))"

definition f_func :: "u32 \<Rightarrow> u64 \<Rightarrow> u32" where
  "f_func r k =
     (let r = push_bit 1 r OR drop_bit 31 r;
          (out, r, k) = fold table_step [7, 6, 5, 4, 3, 2, 1, 0] (0, r, k)
      in out)"

definition key_shift_left :: "u64 \<Rightarrow> u64" where
  "key_shift_left CDn =
     (let carries = drop_bit 27 CDn AND 0x10000001;
          CDn = push_bit 1 CDn;
          CDn = CDn AND NOT 0x10000001
      in CDn OR carries)"

text \<open>The loop over the 16 round keys, from the one with the given index on.\<close>

definition gen_roundkeys :: "u64 \<Rightarrow> u64 list" where
  "gen_roundkeys key =
     fst (fold (\<lambda>i (K, CDn).
           let CDn = key_shift_left CDn;
               CDn = (if i > 1 \<and> i \<noteq> 8 \<and> i \<noteq> 15 then key_shift_left CDn else CDn)
           in (K @ [shuffle CDn PC2_shuffle], CDn)) [0..<16] ([], shuffle key PC1_shuffle))"

definition swap_halves :: "u64 \<Rightarrow> u64" where
  "swap_halves x = push_bit 32 x OR drop_bit 32 x"

definition des_round :: "u64 \<Rightarrow> u64 \<Rightarrow> u64" where
  "des_round k x = (let f_res = f_func (ucast x) k in swap_halves x XOR ucast f_res)"

definition des_encdec :: "u64 \<Rightarrow> u64 list \<Rightarrow> bool \<Rightarrow> u64" where
  "des_encdec inp K decrypt =
     (let inp = shuffle inp IP_shuffle;
          inp = fold (\<lambda>i. des_round (K ! (if decrypt then 15 - i else i))) [0..<16] inp;
          inp = swap_halves inp
      in shuffle_inv inp IP_shuffle)"

record AVDES =
  round_keys :: "u64 list list"
  triple_des :: bool

definition av_des_init :: "AVDES \<Rightarrow> u8 list \<Rightarrow> int \<Rightarrow> int \<times> AVDES" where
  "av_des_init d key key_bits =
     (if key_bits \<noteq> 64 \<and> key_bits \<noteq> 192 then (AVERROR EINVAL, d)
      else
        let triple = key_bits > 64;
            rk = round_keys d;
            rk = rk[0 := gen_roundkeys (AV_RB64 key)];
            rk = (if triple then rk[1 := gen_roundkeys (AV_RB64 (drop 8 key)), 2 := gen_roundkeys (AV_RB64 (drop 16 key))] else rk)
        in (0, \<lparr>round_keys = rk, triple_des = triple\<rparr>))"

text \<open>
  The loop of \<^verbatim>\<open>av_des_crypt_mac\<close>: the destination blocks in order, and the last value of the vector. Without a
  source the blocks are zero; the vector is only kept when there is one (\<open>has_iv\<close>).
\<close>

fun des_loop :: "AVDES \<Rightarrow> u8 list option \<Rightarrow> nat \<Rightarrow> bool \<Rightarrow> u64 \<Rightarrow> bool \<Rightarrow> u64 list \<times> u64" where
  "des_loop d src 0 has_iv iv_val decrypt = ([], iv_val)"
| "des_loop d src (Suc count) has_iv iv_val decrypt =
     (let src_val = (case src of Some s \<Rightarrow> AV_RB64 s | None \<Rightarrow> 0);
          (dst_val, iv_val) =
            (if decrypt then
               let tmp = src_val;
                   src_val = (if triple_des d
                     then des_encdec (des_encdec src_val (round_keys d ! 2) True) (round_keys d ! 1) False else src_val)
               in (des_encdec src_val (round_keys d ! 0) True XOR iv_val, if has_iv then tmp else 0)
             else
               let dst_val = des_encdec (src_val XOR iv_val) (round_keys d ! 0) False;
                   dst_val = (if triple_des d
                     then des_encdec (des_encdec dst_val (round_keys d ! 1) True) (round_keys d ! 2) False else dst_val)
               in (dst_val, if has_iv then dst_val else 0));
          (rest, iv_val) = des_loop d (map_option (drop 8) src) count has_iv iv_val decrypt
      in (dst_val # rest, iv_val))"

text \<open>With \<open>mac\<close> every block is written to the same place, so only the last one stays.\<close>

definition av_des_crypt_mac ::
  "AVDES \<Rightarrow> u8 list option \<Rightarrow> nat \<Rightarrow> u8 list option \<Rightarrow> bool \<Rightarrow> bool \<Rightarrow> u8 list \<times> u8 list option" where
  "av_des_crypt_mac d src count iv decrypt mac =
     (let iv_val = (case iv of Some v \<Rightarrow> AV_RB64 v | None \<Rightarrow> 0);
          (blocks, iv_val) = des_loop d src count (iv \<noteq> None) iv_val decrypt;
          dst = (if mac then (if blocks = [] then [] else AV_WB64 (last blocks)) else concat (map AV_WB64 blocks))
      in (dst, map_option (\<lambda>_. AV_WB64 iv_val) iv))"

definition av_des_crypt :: "AVDES \<Rightarrow> u8 list option \<Rightarrow> nat \<Rightarrow> u8 list option \<Rightarrow> bool \<Rightarrow> u8 list \<times> u8 list option" where
  "av_des_crypt d src count iv decrypt = av_des_crypt_mac d src count iv decrypt False"

definition av_des_mac :: "AVDES \<Rightarrow> u8 list option \<Rightarrow> nat \<Rightarrow> u8 list" where
  "av_des_mac d src count = fst (av_des_crypt_mac d src count (Some (replicate 8 0)) False True)"

section \<open>The bits of a shuffled word\<close>

lemma shuffle_step: "res + (res + (x AND 1)) = of_bool (odd x) + 2 * res" for res x :: u64
  by (simp add: and_one_eq mod_2_eq_odd)

lemma bit_shift_in: "bit (of_bool b + 2 * a) j \<longleftrightarrow> j < 64 \<and> (if j = 0 then b else bit a (j - 1))" for a :: u64
proof -
  have "of_bool b AND 2 * a = 0"
    by (rule bit_eqI) (auto simp: bit_and_iff bit_of_bool_iff bit_double_iff)
  then have "of_bool b + 2 * a = of_bool b OR 2 * a" by (rule disjunctive_add_eq_or)
  then show ?thesis
    by (auto simp: bit_or_iff bit_of_bool_iff bit_double_iff possible_bit_word dest: bit_imp_le_length)
qed

lemma bit_shuffle:
  "length l \<le> 64 \<Longrightarrow> bit (shuffle x l) j \<longleftrightarrow> j < length l \<and> bit x (l ! (length l - 1 - j))"
proof (induction l arbitrary: j rule: rev_induct)
  case Nil
  then show ?case by (simp add: shuffle_def)
next
  case (snoc s l)
  have s: "shuffle x (l @ [s]) = of_bool (bit x s) + 2 * shuffle x l"
    unfolding shuffle_def foldl_append foldl.simps shuffle_step by (simp add: bit_iff_odd_drop_bit)
  have IH: "bit (shuffle x l) i \<longleftrightarrow> i < length l \<and> bit x (l ! (length l - 1 - i))" for i using snoc by simp
  show ?case
  proof (cases j)
    case 0
    then show ?thesis by (simp add: s bit_shift_in)
  next
    case (Suc i)
    have "bit (shuffle x (l @ [s])) j \<longleftrightarrow> i < 63 \<and> i < length l \<and> bit x (l ! (length l - 1 - i))"
      unfolding s bit_shift_in Suc IH by simp
    moreover have "(l @ [s]) ! (length l - Suc i) = l ! (length l - 1 - i)" if "i < length l"
    proof -
      have "length l - Suc i < length l" using that by linarith
      then show ?thesis by (simp add: nth_append)
    qed
    ultimately show ?thesis using snoc.prems by (auto simp: Suc)
  qed
qed

lemma shuffle_inv_bits:
  "length l \<le> 64 \<Longrightarrow> snd (foldl (\<lambda>(res, inp) s. (res OR push_bit s (inp AND 1), drop_bit 1 inp)) (a, x) l) = drop_bit (length l) x \<and>
   (bit (fst (foldl (\<lambda>(res, inp) s. (res OR push_bit s (inp AND 1), drop_bit 1 inp)) (a, x) l)) j \<longleftrightarrow>
     bit a j \<or> (j < 64 \<and> (\<exists>i < length l. l ! i = j \<and> bit x i)))" for x :: u64
proof (induction l rule: rev_induct)
  case Nil
  then show ?case by simp
next
  case (snoc s l)
  have "bit (push_bit s (drop_bit (length l) x AND 1)) j \<longleftrightarrow> j < 64 \<and> j = s \<and> bit x (length l)"
    by (auto simp: bit_push_bit_iff and_one_eq mod_2_eq_odd bit_of_bool_iff bit_iff_odd_drop_bit [of x])
  then show ?case using snoc
    by (auto simp: split_beta bit_or_iff nth_append less_Suc_eq)
qed

lemma bit_shuffle_inv:
  "length l = 64 \<Longrightarrow> bit (shuffle_inv x l) j \<longleftrightarrow> j < 64 \<and> (\<exists>i < 64. l ! (63 - i) = j \<and> bit x i)"
  using shuffle_inv_bits [of "rev l" 0 x j] by (auto simp: shuffle_inv_def rev_nth)

text \<open>Permutations of the bits are undone.\<close>

lemma shuffle_inverse:
  assumes "length l = 64" "distinct l" "set l = {..<64}"
  shows "shuffle_inv (shuffle x l) l = x" "shuffle (shuffle_inv x l) l = x"
proof -
  show "shuffle_inv (shuffle x l) l = x"
  proof (rule bit_word_eqI)
    fix j assume "j < LENGTH(64)"
    then have j: "j < 64" by simp
    then obtain i where i: "i < 64" "l ! i = j" using assms by (metis in_set_conv_nth lessThan_iff)
    have "bit (shuffle_inv (shuffle x l) l) j \<longleftrightarrow> (\<exists>m < 64. l ! (63 - m) = j \<and> bit x j)"
      using j assms(1) by (auto simp: bit_shuffle_inv bit_shuffle)
    moreover have "l ! (63 - (63 - i)) = j" "63 - i < 64" using i by simp_all
    ultimately show "bit (shuffle_inv (shuffle x l) l) j = bit x j" by blast
  qed
  show "shuffle (shuffle_inv x l) l = x"
  proof (rule bit_word_eqI)
    fix j assume "j < LENGTH(64)"
    then have j: "j < 64" by simp
    have "l ! (63 - j) \<in> set l" using assms(1) by (intro nth_mem) simp
    then have "l ! (63 - j) < 64" using assms(3) by simp
    have inj: "l ! (63 - m) = l ! (63 - j) \<longleftrightarrow> m = j" if "m < 64" for m
      using that j assms(1) nth_eq_iff_index_eq [OF assms(2), of "63 - m" "63 - j"] by auto
    have "bit (shuffle (shuffle_inv x l) l) j = bit (shuffle_inv x l) (l ! (63 - j))" using j assms(1) by (simp add: bit_shuffle)
    also have "\<dots> \<longleftrightarrow> (\<exists>i < 64. l ! (63 - i) = l ! (63 - j) \<and> bit x i)"
      using \<open>l ! (63 - j) < 64\<close> by (simp add: bit_shuffle_inv [OF assms(1)])
    also have "\<dots> \<longleftrightarrow> bit x j" using inj j by blast
    finally show "bit (shuffle (shuffle_inv x l) l) j = bit x j" .
  qed
qed

lemma IP_shuffle_perm: "length IP_shuffle = 64" "distinct IP_shuffle" "set IP_shuffle = {..<64}"
proof -
  show l: "length IP_shuffle = 64" by (simp add: IP_shuffle_def)
  show d: "distinct IP_shuffle" by (simp add: IP_shuffle_def)
  have "set IP_shuffle \<subseteq> {..<64}" by (auto simp: IP_shuffle_def)
  then show "set IP_shuffle = {..<64}"
    by (intro card_subset_eq) (simp_all add: distinct_card [OF d] l)
qed

section \<open>Decryption undoes encryption\<close>

lemma bit_swap_halves: "bit (swap_halves x) j \<longleftrightarrow> j < 64 \<and> (if j < 32 then bit x (j + 32) else bit x (j - 32))"
  by (auto simp: swap_halves_def bit_or_iff bit_push_bit_iff bit_drop_bit_eq add.commute dest: bit_imp_le_length)

lemma swap_halves_simps [simp]:
  "swap_halves (swap_halves x) = x" "swap_halves (x XOR y) = swap_halves x XOR swap_halves y"
  "ucast (swap_halves (ucast f)) = (0 :: u32)" for f :: u32
proof -
  show "swap_halves (swap_halves x) = x" by (rule bit_word_eqI) (auto simp: bit_swap_halves)
  show "swap_halves (x XOR y) = swap_halves x XOR swap_halves y"
    by (rule bit_word_eqI) (auto simp: bit_swap_halves bit_xor_iff)
  have "\<not> bit f (j + 32)" for j using bit_imp_le_length [of f "j + 32"] by auto
  then show "ucast (swap_halves (ucast f)) = (0 :: u32)"
    by (intro bit_word_eqI) (simp add: bit_unsigned_iff bit_swap_halves)
qed

lemma des_round_inverse: "des_round k (swap_halves (des_round k x)) = swap_halves x"
proof -
  have "ucast (a XOR b) = (ucast a XOR ucast b :: u32)" for a b :: u64 by (rule unsigned_xor_eq)
  then show ?thesis by (simp add: des_round_def Let_def)
qed

lemma des_fold_rev: "fold (\<lambda>i. des_round (K ! (15 - i))) [0..<16] x = fold (\<lambda>i. des_round (K ! i)) (rev [0..<16]) x"
proof -
  have r: "rev [0..<16] = map (\<lambda>i. 15 - i) [0..<16]" by code_simp
  show ?thesis by (simp only: r fold_map comp_def)
qed

lemma des_encdec_inverse:
  "des_encdec (des_encdec x K False) K True = x" "des_encdec (des_encdec x K True) K False = x"
proof -
  let ?E = "fold (\<lambda>i. des_round (K ! i)) [0..<16]" and ?D = "fold (\<lambda>i. des_round (K ! i)) (rev [0..<16])"
  have i1: "?D (swap_halves (?E z)) = swap_halves z" for z
    using fold_inverse [where w = swap_halves and h = id and f = "\<lambda>i. des_round (K ! i)" and g = "\<lambda>i. des_round (K ! i)"]
      des_round_inverse by simp
  have i2: "?E (swap_halves (?D z)) = swap_halves z" for z
    using fold_inverse2 [where w = swap_halves and h = id and f = "\<lambda>i. des_round (K ! i)" and g = "\<lambda>i. des_round (K ! i)"]
      des_round_inverse by simp
  have e: "des_encdec z K False = shuffle_inv (swap_halves (?E (shuffle z IP_shuffle))) IP_shuffle"
    "des_encdec z K True = shuffle_inv (swap_halves (?D (shuffle z IP_shuffle))) IP_shuffle" for z
    unfolding des_encdec_def Let_def if_False if_True des_fold_rev by (rule refl)+
  note inv = shuffle_inverse [OF IP_shuffle_perm]
  show "des_encdec (des_encdec x K False) K True = x" "des_encdec (des_encdec x K True) K False = x"
    unfolding e inv i1 i2 by (simp_all only: swap_halves_simps inv)
qed

text \<open>The round trip of the loop, in both modes, single and triple.\<close>

lemma des_loop_length: "length (fst (des_loop d src count has_iv iv_val decrypt)) = count"
  by (induction count arbitrary: src iv_val) (simp_all add: split_beta Let_def)

lemma des_loop_blocks:
  "count > 0 \<Longrightarrow> AV_RB64 (concat (map AV_WB64 (b # bs))) = b" "drop 8 (concat (map AV_WB64 (b # bs))) = concat (map AV_WB64 bs)"
  by simp_all

lemma des_loop_round_trip:
  "length src = 8 * count \<Longrightarrow> iv_val = 0 \<or> has_iv \<Longrightarrow>
   (case des_loop d (Some src) count has_iv iv_val False of (blocks, iv1) \<Rightarrow>
     des_loop d (Some (concat (map AV_WB64 blocks))) count has_iv iv_val True = (map (\<lambda>i. AV_RB64 (drop (8 * i) src)) [0..<count], iv1))"
proof (induction count arbitrary: src iv_val)
  case 0
  then show ?case by simp
next
  case (Suc count)
  define e where "e = (let v = des_encdec (AV_RB64 src XOR iv_val) (round_keys d ! 0) False
    in if triple_des d then des_encdec (des_encdec v (round_keys d ! 1) True) (round_keys d ! 2) False else v)"
  define iv1 where "iv1 = (if has_iv then e else 0)"
  have enc: "des_loop d (Some src) (Suc count) has_iv iv_val False =
      (case des_loop d (Some (drop 8 src)) count has_iv iv1 False of (rest, iv2) \<Rightarrow> (e # rest, iv2))"
    by (simp add: e_def iv1_def Let_def)
  have dec: "des_loop d (Some (AV_WB64 e @ rest)) (Suc count) has_iv iv_val True =
      (case des_loop d (Some rest) count has_iv iv1 True of (r, iv2) \<Rightarrow> (AV_RB64 src # r, iv2))" for rest
    by (simp add: e_def iv1_def Let_def des_encdec_inverse xor.assoc)
  have up: "map (\<lambda>i. AV_RB64 (drop (8 * i) src)) [0..<Suc count] = AV_RB64 src # map (\<lambda>i. AV_RB64 (drop (8 * i) (drop 8 src))) [0..<count]"
    by (simp add: upt_conv_Cons map_Suc_upt [symmetric] add.commute del: upt_Suc)
  have "length (drop 8 src) = 8 * count" using Suc.prems(1) by simp
  moreover have "iv1 = 0 \<or> has_iv" by (simp add: iv1_def)
  ultimately show ?case using Suc.IH [of "drop 8 src" iv1] unfolding up enc
    by (simp add: dec split_beta del: des_loop.simps)
qed

lemma concat_blocks: "length src = 8 * count \<Longrightarrow> concat (map AV_WB64 (map (\<lambda>i. AV_RB64 (drop (8 * i) src)) [0..<count])) = src"
proof (induction count arbitrary: src)
  case (Suc count)
  have "AV_WB64 (AV_RB64 src) = take 8 src"
  proof -
    have "AV_RB64 src = AV_RB64 (take 8 src)" using Suc.prems by (simp add: AV_RB64_def)
    then show ?thesis using Suc.prems write_read64(1) [of "take 8 src"] by simp
  qed
  moreover have "map (\<lambda>i. AV_RB64 (drop (8 * i) src)) [0..<Suc count] = AV_RB64 src # map (\<lambda>i. AV_RB64 (drop (8 * i) (drop 8 src))) [0..<count]"
    by (simp add: upt_conv_Cons map_Suc_upt [symmetric] add.commute del: upt_Suc)
  ultimately show ?case using Suc.IH [of "drop 8 src"] Suc.prems by simp
qed simp

text \<open>
  C25: decrypting what DES or triple DES has encrypted gives the message back, for every context, with and without
  an initialisation vector, and leaves the same vector.
\<close>

theorem av_des_round_trip:
  assumes "length src = 8 * count"
  shows "av_des_crypt d (Some (fst (av_des_crypt d (Some src) count iv False))) count iv True =
    (src, snd (av_des_crypt d (Some src) count iv False))"
proof -
  define v where "v = (case iv of Some v \<Rightarrow> AV_RB64 v | None \<Rightarrow> 0)"
  have "v = 0 \<or> iv \<noteq> None" by (simp add: v_def split: option.split)
  from des_loop_round_trip [OF assms this, of d]
  show ?thesis
    by (simp add: av_des_crypt_def av_des_crypt_mac_def v_def [symmetric] Let_def split_beta concat_blocks [OF assms, simplified])
qed

theorem av_des_round_trip_witness:
  "\<exists>c. fst (av_des_crypt \<lparr>round_keys = replicate 3 (gen_roundkeys 0x0123456789ABCDEF), triple_des = True\<rparr> (Some [1, 2, 3, 4, 5, 6, 7, 8]) 1 None False) = c \<and>
    fst (av_des_crypt \<lparr>round_keys = replicate 3 (gen_roundkeys 0x0123456789ABCDEF), triple_des = True\<rparr> (Some c) 1 None True) = [1, 2, 3, 4, 5, 6, 7, 8]"
  using av_des_round_trip [of "[1, 2, 3, 4, 5, 6, 7, 8]" 1 "\<lparr>round_keys = replicate 3 (gen_roundkeys 0x0123456789ABCDEF), triple_des = True\<rparr>" None]
  by simp


section \<open>The combined table\<close>

text \<open>The image of one S-box output, a nibble in its place, under the permutation.\<close>

definition P_nibble :: "nat \<Rightarrow> u32 \<Rightarrow> u32" where
  "P_nibble i n = ucast (shuffle (ucast (push_bit (28 - 4 * i) n)) P_shuffle)"

definition sbox_row :: "nat \<Rightarrow> u8 list \<Rightarrow> u32 list" where
  "sbox_row i row = concat (map (\<lambda>v. [P_nibble i (ucast v AND 0xF), P_nibble i (ucast (drop_bit 4 v) AND 0xF)]) row)"

lemma P_nibble_0:
  "map (P_nibble 0) [0, 1, 2, 3, 4, 5, 6, 7, 8, 9, 10, 11, 12, 13, 14, 15] =
    [0x00000000, 0x00000002, 0x00000200, 0x00000202, 0x00008000, 0x00008002, 0x00008200, 0x00008202, 0x00800000, 0x00800002, 0x00800200, 0x00800202, 0x00808000, 0x00808002, 0x00808200, 0x00808202]"
  by (simp add: P_nibble_def shuffle_def P_shuffle_def)

lemma S_boxes_P_shuffle_0: "S_boxes_P_shuffle ! 0 = sbox_row 0 (S_boxes ! 0)"
  using P_nibble_0 by (simp add: sbox_row_def S_boxes_def S_boxes_P_shuffle_def)

lemma P_nibble_1:
  "map (P_nibble 1) [0, 1, 2, 3, 4, 5, 6, 7, 8, 9, 10, 11, 12, 13, 14, 15] =
    [0x00000000, 0x00004000, 0x40000000, 0x40004000, 0x00000010, 0x00004010, 0x40000010, 0x40004010, 0x00080000, 0x00084000, 0x40080000, 0x40084000, 0x00080010, 0x00084010, 0x40080010, 0x40084010]"
  by (simp add: P_nibble_def shuffle_def P_shuffle_def)

lemma S_boxes_P_shuffle_1: "S_boxes_P_shuffle ! 1 = sbox_row 1 (S_boxes ! 1)"
  using P_nibble_1 by (simp add: sbox_row_def S_boxes_def S_boxes_P_shuffle_def)

lemma P_nibble_2:
  "map (P_nibble 2) [0, 1, 2, 3, 4, 5, 6, 7, 8, 9, 10, 11, 12, 13, 14, 15] =
    [0x00000000, 0x04000000, 0x00000004, 0x04000004, 0x00010000, 0x04010000, 0x00010004, 0x04010004, 0x00000100, 0x04000100, 0x00000104, 0x04000104, 0x00010100, 0x04010100, 0x00010104, 0x04010104]"
  by (simp add: P_nibble_def shuffle_def P_shuffle_def)

lemma S_boxes_P_shuffle_2: "S_boxes_P_shuffle ! 2 = sbox_row 2 (S_boxes ! 2)"
  using P_nibble_2 by (simp add: sbox_row_def S_boxes_def S_boxes_P_shuffle_def)

lemma P_nibble_3:
  "map (P_nibble 3) [0, 1, 2, 3, 4, 5, 6, 7, 8, 9, 10, 11, 12, 13, 14, 15] =
    [0x00000000, 0x80000000, 0x00400000, 0x80400000, 0x00001000, 0x80001000, 0x00401000, 0x80401000, 0x00000040, 0x80000040, 0x00400040, 0x80400040, 0x00001040, 0x80001040, 0x00401040, 0x80401040]"
  by (simp add: P_nibble_def shuffle_def P_shuffle_def)

lemma S_boxes_P_shuffle_3: "S_boxes_P_shuffle ! 3 = sbox_row 3 (S_boxes ! 3)"
  using P_nibble_3 by (simp add: sbox_row_def S_boxes_def S_boxes_P_shuffle_def)

lemma P_nibble_4:
  "map (P_nibble 4) [0, 1, 2, 3, 4, 5, 6, 7, 8, 9, 10, 11, 12, 13, 14, 15] =
    [0x00000000, 0x20000000, 0x00000080, 0x20000080, 0x00040000, 0x20040000, 0x00040080, 0x20040080, 0x01000000, 0x21000000, 0x01000080, 0x21000080, 0x01040000, 0x21040000, 0x01040080, 0x21040080]"
  by (simp add: P_nibble_def shuffle_def P_shuffle_def)

lemma S_boxes_P_shuffle_4: "S_boxes_P_shuffle ! 4 = sbox_row 4 (S_boxes ! 4)"
  using P_nibble_4 by (simp add: sbox_row_def S_boxes_def S_boxes_P_shuffle_def)

lemma P_nibble_5:
  "map (P_nibble 5) [0, 1, 2, 3, 4, 5, 6, 7, 8, 9, 10, 11, 12, 13, 14, 15] =
    [0x00000000, 0x00002000, 0x00200000, 0x00202000, 0x00000008, 0x00002008, 0x00200008, 0x00202008, 0x10000000, 0x10002000, 0x10200000, 0x10202000, 0x10000008, 0x10002008, 0x10200008, 0x10202008]"
  by (simp add: P_nibble_def shuffle_def P_shuffle_def)

lemma S_boxes_P_shuffle_5: "S_boxes_P_shuffle ! 5 = sbox_row 5 (S_boxes ! 5)"
  using P_nibble_5 by (simp add: sbox_row_def S_boxes_def S_boxes_P_shuffle_def)

lemma P_nibble_6:
  "map (P_nibble 6) [0, 1, 2, 3, 4, 5, 6, 7, 8, 9, 10, 11, 12, 13, 14, 15] =
    [0x00000000, 0x02000000, 0x00000400, 0x02000400, 0x00100000, 0x02100000, 0x00100400, 0x02100400, 0x00000001, 0x02000001, 0x00000401, 0x02000401, 0x00100001, 0x02100001, 0x00100401, 0x02100401]"
  by (simp add: P_nibble_def shuffle_def P_shuffle_def)

lemma S_boxes_P_shuffle_6: "S_boxes_P_shuffle ! 6 = sbox_row 6 (S_boxes ! 6)"
  using P_nibble_6 by (simp add: sbox_row_def S_boxes_def S_boxes_P_shuffle_def)

lemma P_nibble_7:
  "map (P_nibble 7) [0, 1, 2, 3, 4, 5, 6, 7, 8, 9, 10, 11, 12, 13, 14, 15] =
    [0x00000000, 0x00000800, 0x00020000, 0x00020800, 0x00000020, 0x00000820, 0x00020020, 0x00020820, 0x08000000, 0x08000800, 0x08020000, 0x08020800, 0x08000020, 0x08000820, 0x08020020, 0x08020820]"
  by (simp add: P_nibble_def shuffle_def P_shuffle_def)

lemma S_boxes_P_shuffle_7: "S_boxes_P_shuffle ! 7 = sbox_row 7 (S_boxes ! 7)"
  using P_nibble_7 by (simp add: sbox_row_def S_boxes_def S_boxes_P_shuffle_def)

lemma nth_concat_pairs:
  "t < 2 * length xs \<Longrightarrow> concat (map (\<lambda>v. [f v, g v]) xs) ! t = (if even t then f (xs ! (t div 2)) else g (xs ! (t div 2)))"
proof (induction xs arbitrary: t)
  case (Cons x xs)
  consider "t = 0" | "t = 1" | s where "t = Suc (Suc s)" by (metis One_nat_def nat.exhaust)
  then show ?case using Cons by cases (simp_all add: Cons)
qed simp

lemma S_boxes_rows: "i < 8 \<Longrightarrow> length (S_boxes ! i) = 32 \<and> S_boxes_P_shuffle ! i = sbox_row i (S_boxes ! i)"
proof -
  assume "i < 8"
  then consider "i = 0" | "i = 1" | "i = 2" | "i = 3" | "i = 4" | "i = 5" | "i = 6" | "i = 7" by linarith
  then have "S_boxes_P_shuffle ! i = sbox_row i (S_boxes ! i)"
    by cases (simp_all only: S_boxes_P_shuffle_0 S_boxes_P_shuffle_1 S_boxes_P_shuffle_2 S_boxes_P_shuffle_3
      S_boxes_P_shuffle_4 S_boxes_P_shuffle_5 S_boxes_P_shuffle_6 S_boxes_P_shuffle_7)
  moreover have "\<forall>row \<in> set S_boxes. length row = 32" "length S_boxes = 8" by (simp_all add: S_boxes_def)
  ultimately show ?thesis using \<open>i < 8\<close> by simp
qed

lemma S_boxes_lookup:
  assumes "i < 8" "t < 64"
  shows "S_boxes_P_shuffle ! i ! t = P_nibble i (ucast (if odd t then drop_bit 4 (S_boxes ! i ! (t div 2)) else S_boxes ! i ! (t div 2)) AND 0xF)"
proof -
  have "S_boxes_P_shuffle ! i ! t = concat (map (\<lambda>v. [P_nibble i (ucast v AND 0xF), P_nibble i (ucast (drop_bit 4 v) AND 0xF)]) (S_boxes ! i)) ! t"
    using S_boxes_rows [OF assms(1)] by (simp add: sbox_row_def)
  then show ?thesis using S_boxes_rows [OF assms(1)] assms(2) by (simp add: nth_concat_pairs)
qed

lemma shuffle_or: "length l \<le> 64 \<Longrightarrow> shuffle (a OR b) l = shuffle a l OR shuffle b l"
  by (rule bit_word_eqI) (auto simp: bit_shuffle bit_or_iff)

definition P32 :: "u32 \<Rightarrow> u32" where
  "P32 x = ucast (shuffle (ucast x) P_shuffle)"

lemma P32_or: "P32 (a OR b) = P32 a OR P32 b"
  by (simp add: P32_def unsigned_or_eq shuffle_or P_shuffle_def)

lemma P32_0: "P32 0 = 0"
  by (simp add: P32_def shuffle_def P_shuffle_def)

lemma unat_and_63: "unat (x AND 0x3F) < 64" for x :: u64
proof -
  have "x AND 0x3F = take_bit 6 x" by (simp add: take_bit_eq_mask mask_eq_exp_minus_1)
  then show ?thesis by (simp add: unsigned_take_bit_eq take_bit_nat_less_exp [of 6, simplified])
qed

lemma nibble_in_place:
  fixes v :: u32
  assumes "i < 8"
  shows "drop_bit (4 * i) (push_bit 28 v) = push_bit (28 - 4 * i) (v AND 0xF)"
proof (rule bit_word_eqI)
  fix j assume "j < LENGTH(32)"
  have "v AND 0xF = take_bit 4 v" by (simp add: take_bit_eq_mask mask_eq_exp_minus_1)
  then show "bit (drop_bit (4 * i) (push_bit 28 v)) j = bit (push_bit (28 - 4 * i) (v AND 0xF)) j"
    using assms \<open>j < LENGTH(32)\<close> by (auto simp: bit_drop_bit_eq bit_push_bit_iff bit_take_bit_iff Let_def add.commute)
qed

lemma table_step_small:
  assumes "i < 8" "out' = P32 (drop_bit (4 * Suc i) out)"
  shows "(case small_step i (out, r, k) of (out1, r1, k1) \<Rightarrow> table_step i (out', r, k) = (P32 (drop_bit (4 * i) out1), r1, k1))"
proof -
  define tmp where "tmp = unat ((ucast r XOR k) AND 0x3F)"
  define v where "v = (if odd tmp then drop_bit 4 (S_boxes ! i ! (tmp div 2)) else S_boxes ! i ! (tmp div 2))"
  have "tmp < 64" unfolding tmp_def by (rule unat_and_63)
  then have "S_boxes_P_shuffle ! i ! tmp = P32 (push_bit (28 - 4 * i) (ucast v AND 0xF))"
    unfolding v_def by (simp only: S_boxes_lookup [OF assms(1)] P_nibble_def P32_def)
  also have "push_bit (28 - 4 * i) (ucast v AND 0xF) = drop_bit (4 * i) (push_bit 28 (ucast v :: u32))"
    by (rule nibble_in_place [OF assms(1), symmetric])
  finally have "out' OR S_boxes_P_shuffle ! i ! tmp = P32 (drop_bit (4 * i) (drop_bit 4 out OR push_bit 28 (ucast v)))"
    by (simp add: assms(2) P32_or drop_bit_or add.commute)
  then show ?thesis
    unfolding small_step_def table_step_def Let_def prod.case tmp_def [symmetric] v_def [symmetric] by simp
qed

lemma table_rounds_small:
  "m \<le> 8 \<Longrightarrow> out' = P32 (drop_bit (4 * m) out) \<Longrightarrow>
   (case fold small_step (rev [0..<m]) (out, r, k) of (out1, r1, k1) \<Rightarrow> fold table_step (rev [0..<m]) (out', r, k) = (P32 out1, r1, k1))"
proof (induction m arbitrary: out out' r k)
  case (Suc i)
  obtain out1 r1 k1 where s: "small_step i (out, r, k) = (out1, r1, k1)" by (metis prod.exhaust)
  then have "table_step i (out', r, k) = (P32 (drop_bit (4 * i) out1), r1, k1)"
    using table_step_small [of i out' out r k] Suc.prems by simp
  then show ?case using Suc.IH [of "P32 (drop_bit (4 * i) out1)" out1 r1 k1] Suc.prems s by simp
qed simp

text \<open>
  C26: the table \<open>S_boxes_P_shuffle\<close> is what its comment says, the S-boxes followed by the permutation: the round
  function with the table and the one built from the specification agree on every half block and round key.
\<close>

theorem f_func_table_correct: "f_func r k = f_func_small r k"
proof -
  define r' where "r' = push_bit 1 r OR drop_bit 31 r"
  have idx: "[7, 6, 5, 4, 3, 2, 1, 0] = rev [0..<8]" by (simp add: upt_rec)
  obtain out1 r1 k1 where s: "fold small_step (rev [0..<8]) (0, r', k) = (out1, r1, k1)" by (metis prod.exhaust)
  moreover have "fold table_step (rev [0..<8]) (0, r', k) = (P32 out1, r1, k1)"
    using table_rounds_small [of 8 0 0 r' k] s by (simp add: P32_0)
  ultimately show ?thesis using s
    unfolding f_func_def f_func_small_def Let_def idx r'_def [symmetric] by (simp add: P32_def)
qed

end
