(* ===== verification/AV_Block128.thy ===== *)
theory AV_Block128
  imports AV_BlockCipher
begin

text \<open>
  The ciphers with blocks of 16 bytes: Camellia works on two big-endian words of 64 bits, Twofish on four
  little-endian words of 32 bits. What the two share is the contract of a representation of the block
  (\<open>block_codec\<close>): reading and writing are inverse, and exclusive-or of the words is exclusive-or of the bytes.
\<close>

unbundle bit_operations_syntax

section \<open>Block functions over a state\<close>

text \<open>
  A block is read, transformed, combined with the vector when decrypting, and written. \<open>rd\<close>, \<open>wr\<close> and \<open>xr\<close> are the
  representation, \<open>enc\<close> and \<open>dec\<close> the two directions.
\<close>

definition state_block :: "nat \<Rightarrow> (u8 list \<Rightarrow> 's) \<Rightarrow> ('s \<Rightarrow> u8 list) \<Rightarrow> ('s \<Rightarrow> 's \<Rightarrow> 's) \<Rightarrow> ('s \<Rightarrow> 's) \<Rightarrow> ('s \<Rightarrow> 's) \<Rightarrow> block_fun" where
  "state_block n rd wr xr enc dec src decrypt iv =
     (let s = (if decrypt then dec else enc) (rd src);
          (s, iv) = (case if decrypt then iv else None of
             Some v \<Rightarrow> (xr s (rd v), Some (take n src))
           | None \<Rightarrow> (s, iv))
      in (wr s, iv))"

locale block_codec =
  fixes n :: nat and rd :: "u8 list \<Rightarrow> 's" and wr :: "'s \<Rightarrow> u8 list" and xr :: "'s \<Rightarrow> 's \<Rightarrow> 's"
  assumes length_wr: "length (wr s) = n"
    and rd_wr: "rd (wr s) = s"
    and wr_rd: "length b = n \<Longrightarrow> wr (rd b) = b"
    and wr_xr: "wr (xr s t) = xor_bytes (wr s) (wr t)"
begin

lemma state_block_cipher:
  assumes "\<And>s. dec (enc s) = s" "\<And>s. enc (dec s) = s"
  shows "block_cipher n (state_block n rd wr xr enc dec)"
  by unfold_locales (simp_all add: state_block_def length_wr rd_wr wr_rd wr_xr assms)

end

section \<open>Two big-endian words\<close>

definition read_be64s :: "u8 list \<Rightarrow> u64 \<times> u64" where
  "read_be64s b = (AV_RB64 b, AV_RB64 (drop 8 b))"

definition write_be64s :: "u64 \<times> u64 \<Rightarrow> u8 list" where
  "write_be64s = (\<lambda>(a, b). AV_WB64 a @ AV_WB64 b)"

definition xor_be64s :: "u64 \<times> u64 \<Rightarrow> u64 \<times> u64 \<Rightarrow> u64 \<times> u64" where
  "xor_be64s = (\<lambda>(a, b) (c, d). (a XOR c, b XOR d))"

lemma read_written64 [simp]: "AV_RB64 (AV_WB64 a) = a" "AV_RL64 (AV_WL64 a) = a"
  using read_write64 [of a "[]"] by simp_all

lemma write_xor64: "AV_WB64 (a XOR b) = xor_bytes (AV_WB64 a) (AV_WB64 b)"
  unfolding AV_WB64_def xor_bytes_Cons list.inject
  by (intro conjI bit_word_eqI refl; simp add: bytes_bits bit_xor_iff)+

lemma word64_bytes: "8 \<le> length b \<Longrightarrow> AV_WB64 (AV_RB64 b) = take 8 b"
proof -
  assume b: "8 \<le> length b"
  have "AV_RB64 b = AV_RB64 (take 8 b)" using b by (simp add: AV_RB64_def)
  then show ?thesis using b by (simp add: write_read64(1))
qed

interpretation be64s: block_codec 16 read_be64s write_be64s xor_be64s
proof
  fix s t :: "u64 \<times> u64" and b :: "u8 list"
  show "length (write_be64s s) = 16" "read_be64s (write_be64s s) = s"
    by (simp_all add: write_be64s_def read_be64s_def split_beta)
  show "write_be64s (xor_be64s s t) = xor_bytes (write_be64s s) (write_be64s t)"
    by (simp add: write_be64s_def xor_be64s_def split_beta write_xor64 xor_bytes_append)
  assume "length b = 16"
  then show "write_be64s (read_be64s b) = b"
    by (simp add: write_be64s_def read_be64s_def word64_bytes)
qed

section \<open>Four little-endian words\<close>

type_synonym words4 = "u32 \<times> u32 \<times> u32 \<times> u32"

definition read_le32s :: "u8 list \<Rightarrow> words4" where
  "read_le32s b = (AV_RL32 b, AV_RL32 (drop 4 b), AV_RL32 (drop 8 b), AV_RL32 (drop 12 b))"

definition write_le32s :: "words4 \<Rightarrow> u8 list" where
  "write_le32s = (\<lambda>(a, b, c, d). AV_WL32 a @ AV_WL32 b @ AV_WL32 c @ AV_WL32 d)"

definition xor_le32s :: "words4 \<Rightarrow> words4 \<Rightarrow> words4" where
  "xor_le32s = (\<lambda>(a, b, c, d) (e, f, g, h). (a XOR e, b XOR f, c XOR g, d XOR h))"

lemma word32_bytes_le: "4 \<le> length b \<Longrightarrow> AV_WL32 (AV_RL32 b) = take 4 b"
proof -
  assume b: "4 \<le> length b"
  have "AV_RL32 b = AV_RL32 (take 4 b)" using b by (simp add: AV_RL32_def)
  then show ?thesis using b by (simp add: write_read32(2))
qed

interpretation le32s: block_codec 16 read_le32s write_le32s xor_le32s
proof
  fix s t :: words4 and b :: "u8 list"
  show "length (write_le32s s) = 16" "read_le32s (write_le32s s) = s"
    by (simp_all add: write_le32s_def read_le32s_def split_beta)
  show "write_le32s (xor_le32s s t) = xor_bytes (write_le32s s) (write_le32s t)"
    by (simp add: write_le32s_def xor_le32s_def split_beta write_xor32 xor_bytes_append)
  assume b: "length b = 16"
  have "take 4 b @ take 4 (drop 4 b) @ take 4 (drop 8 b) @ drop 12 b = b"
    using append_take_drop_id [of 4 b] append_take_drop_id [of 4 "drop 4 b"] append_take_drop_id [of 4 "drop 8 b"] by simp
  then show "write_le32s (read_le32s b) = b"
    using b by (simp add: write_le32s_def read_le32s_def word32_bytes_le)
qed

end
