(* ===== verification/AV_Camellia.thy ===== *)
theory AV_Camellia
  imports AV_Block128
begin

text \<open>
  \<^verbatim>\<open>libavutil/camellia.c\<close>. The table \<open>SP\<close> is a global variable of the file, zero until the first key is set;
  it is an argument of the operations that read it and a result of the one that fills it.
\<close>

unbundle bit_operations_syntax

section \<open>Tables\<close>

definition SBOX1 :: "u8 list" where
  "SBOX1 =
    [112, 130, 44, 236, 179, 39, 192, 229, 228, 133, 87, 53, 234, 12, 174, 65,
     35, 239, 107, 147, 69, 25, 165, 33, 237, 14, 79, 78, 29, 101, 146, 189,
     134, 184, 175, 143, 124, 235, 31, 206, 62, 48, 220, 95, 94, 197, 11, 26,
     166, 225, 57, 202, 213, 71, 93, 61, 217, 1, 90, 214, 81, 86, 108, 77,
     139, 13, 154, 102, 251, 204, 176, 45, 116, 18, 43, 32, 240, 177, 132, 153,
     223, 76, 203, 194, 52, 126, 118, 5, 109, 183, 169, 49, 209, 23, 4, 215,
     20, 88, 58, 97, 222, 27, 17, 28, 50, 15, 156, 22, 83, 24, 242, 34,
     254, 68, 207, 178, 195, 181, 122, 145, 36, 8, 232, 168, 96, 252, 105, 80,
     170, 208, 160, 125, 161, 137, 98, 151, 84, 91, 30, 149, 224, 255, 100, 210,
     16, 196, 0, 72, 163, 247, 117, 219, 138, 3, 230, 218, 9, 63, 221, 148,
     135, 92, 131, 2, 205, 74, 144, 51, 115, 103, 246, 243, 157, 127, 191, 226,
     82, 155, 216, 38, 200, 55, 198, 59, 129, 150, 111, 75, 19, 190, 99, 46,
     233, 121, 167, 140, 159, 110, 188, 142, 41, 245, 249, 182, 47, 253, 180, 89,
     120, 152, 6, 106, 231, 70, 113, 186, 212, 37, 171, 66, 136, 162, 141, 250,
     114, 7, 185, 85, 248, 238, 172, 10, 54, 73, 42, 104, 60, 56, 241, 164,
     64, 40, 211, 123, 187, 201, 67, 193, 21, 227, 173, 244, 119, 199, 128, 158]"

definition SBOX2 :: "u8 list" where
  "SBOX2 =
    [224, 5, 88, 217, 103, 78, 129, 203, 201, 11, 174, 106, 213, 24, 93, 130,
     70, 223, 214, 39, 138, 50, 75, 66, 219, 28, 158, 156, 58, 202, 37, 123,
     13, 113, 95, 31, 248, 215, 62, 157, 124, 96, 185, 190, 188, 139, 22, 52,
     77, 195, 114, 149, 171, 142, 186, 122, 179, 2, 180, 173, 162, 172, 216, 154,
     23, 26, 53, 204, 247, 153, 97, 90, 232, 36, 86, 64, 225, 99, 9, 51,
     191, 152, 151, 133, 104, 252, 236, 10, 218, 111, 83, 98, 163, 46, 8, 175,
     40, 176, 116, 194, 189, 54, 34, 56, 100, 30, 57, 44, 166, 48, 229, 68,
     253, 136, 159, 101, 135, 107, 244, 35, 72, 16, 209, 81, 192, 249, 210, 160,
     85, 161, 65, 250, 67, 19, 196, 47, 168, 182, 60, 43, 193, 255, 200, 165,
     32, 137, 0, 144, 71, 239, 234, 183, 21, 6, 205, 181, 18, 126, 187, 41,
     15, 184, 7, 4, 155, 148, 33, 102, 230, 206, 237, 231, 59, 254, 127, 197,
     164, 55, 177, 76, 145, 110, 141, 118, 3, 45, 222, 150, 38, 125, 198, 92,
     211, 242, 79, 25, 63, 220, 121, 29, 82, 235, 243, 109, 94, 251, 105, 178,
     240, 49, 12, 212, 207, 140, 226, 117, 169, 74, 87, 132, 17, 69, 27, 245,
     228, 14, 115, 170, 241, 221, 89, 20, 108, 146, 84, 208, 120, 112, 227, 73,
     128, 80, 167, 246, 119, 147, 134, 131, 42, 199, 91, 233, 238, 143, 1, 61]"

definition SBOX3 :: "u8 list" where
  "SBOX3 =
    [56, 65, 22, 118, 217, 147, 96, 242, 114, 194, 171, 154, 117, 6, 87, 160,
     145, 247, 181, 201, 162, 140, 210, 144, 246, 7, 167, 39, 142, 178, 73, 222,
     67, 92, 215, 199, 62, 245, 143, 103, 31, 24, 110, 175, 47, 226, 133, 13,
     83, 240, 156, 101, 234, 163, 174, 158, 236, 128, 45, 107, 168, 43, 54, 166,
     197, 134, 77, 51, 253, 102, 88, 150, 58, 9, 149, 16, 120, 216, 66, 204,
     239, 38, 229, 97, 26, 63, 59, 130, 182, 219, 212, 152, 232, 139, 2, 235,
     10, 44, 29, 176, 111, 141, 136, 14, 25, 135, 78, 11, 169, 12, 121, 17,
     127, 34, 231, 89, 225, 218, 61, 200, 18, 4, 116, 84, 48, 126, 180, 40,
     85, 104, 80, 190, 208, 196, 49, 203, 42, 173, 15, 202, 112, 255, 50, 105,
     8, 98, 0, 36, 209, 251, 186, 237, 69, 129, 115, 109, 132, 159, 238, 74,
     195, 46, 193, 1, 230, 37, 72, 153, 185, 179, 123, 249, 206, 191, 223, 113,
     41, 205, 108, 19, 100, 155, 99, 157, 192, 75, 183, 165, 137, 95, 177, 23,
     244, 188, 211, 70, 207, 55, 94, 71, 148, 250, 252, 91, 151, 254, 90, 172,
     60, 76, 3, 53, 243, 35, 184, 93, 106, 146, 213, 33, 68, 81, 198, 125,
     57, 131, 220, 170, 124, 119, 86, 5, 27, 164, 21, 52, 30, 28, 248, 82,
     32, 20, 233, 189, 221, 228, 161, 224, 138, 241, 214, 122, 187, 227, 64, 79]"

definition SBOX4 :: "u8 list" where
  "SBOX4 =
    [112, 44, 179, 192, 228, 87, 234, 174, 35, 107, 69, 165, 237, 79, 29, 146,
     134, 175, 124, 31, 62, 220, 94, 11, 166, 57, 213, 93, 217, 90, 81, 108,
     139, 154, 251, 176, 116, 43, 240, 132, 223, 203, 52, 118, 109, 169, 209, 4,
     20, 58, 222, 17, 50, 156, 83, 242, 254, 207, 195, 122, 36, 232, 96, 105,
     170, 160, 161, 98, 84, 30, 224, 100, 16, 0, 163, 117, 138, 230, 9, 221,
     135, 131, 205, 144, 115, 246, 157, 191, 82, 216, 200, 198, 129, 111, 19, 99,
     233, 167, 159, 188, 41, 249, 47, 180, 120, 6, 231, 113, 212, 171, 136, 141,
     114, 185, 248, 172, 54, 42, 60, 241, 64, 211, 187, 67, 21, 173, 119, 128,
     130, 236, 39, 229, 133, 53, 12, 65, 239, 147, 25, 33, 14, 78, 101, 189,
     184, 143, 235, 206, 48, 95, 197, 26, 225, 202, 71, 61, 1, 214, 86, 77,
     13, 102, 204, 45, 18, 32, 177, 153, 76, 194, 126, 5, 183, 49, 23, 215,
     88, 97, 27, 28, 15, 22, 24, 34, 68, 178, 181, 145, 8, 168, 252, 80,
     208, 125, 137, 151, 91, 149, 255, 210, 196, 72, 247, 219, 3, 218, 63, 148,
     92, 2, 74, 51, 103, 243, 127, 226, 155, 38, 55, 59, 150, 75, 190, 46,
     121, 140, 110, 142, 245, 182, 253, 89, 152, 106, 70, 186, 37, 66, 162, 250,
     7, 85, 238, 10, 73, 104, 56, 164, 40, 123, 201, 193, 227, 244, 199, 158]"

section \<open>Key schedule\<close>

record AVCAMELLIA =
  cam_Kw :: "u64 list"
  cam_Ke :: "u64 list"
  cam_K :: "u64 list"
  cam_key_bits :: int

text \<open>Rotation of a pair of words by \<open>x\<close> bits; an \<open>x\<close> outside of 1 to 127 rotates by nothing.\<close>

definition LR128 :: "u64 \<times> u64 \<Rightarrow> int \<Rightarrow> u64 \<times> u64" where
  "LR128 K x =
     (let (i, x) = (if 64 \<le> x \<and> x < 128 then (True, x - 64) else (False, x));
          Ki = (if i then snd K else fst K);
          Kn = (if i then fst K else snd K)
      in if x \<le> 0 \<or> x \<ge> 128 then (Ki, Kn)
         else (push_bit (nat x) Ki OR drop_bit (nat (64 - x)) Kn, push_bit (nat x) Kn OR drop_bit (nat (64 - x)) Ki))"

definition camellia_F :: "u64 list list \<Rightarrow> u64 \<Rightarrow> u64 \<Rightarrow> u64" where
  "camellia_F SP F_IN KE =
     (let KE = KE XOR F_IN
      in SP ! 0 ! unat (drop_bit 56 KE) XOR SP ! 1 ! unat (drop_bit 48 KE AND 0xFF) XOR SP ! 2 ! unat (drop_bit 40 KE AND 0xFF) XOR
         SP ! 3 ! unat (drop_bit 32 KE AND 0xFF) XOR SP ! 4 ! unat (drop_bit 24 KE AND 0xFF) XOR
         SP ! 5 ! unat (drop_bit 16 KE AND 0xFF) XOR SP ! 6 ! unat (drop_bit 8 KE AND 0xFF) XOR SP ! 7 ! unat (KE AND 0xFF))"

definition LR32_1 :: "u32 \<Rightarrow> u32" where
  "LR32_1 x = push_bit 1 x OR drop_bit 31 x"

definition camellia_FL :: "u64 \<Rightarrow> u64 \<Rightarrow> u64" where
  "camellia_FL FL_IN KE =
     (let x1 = ucast (drop_bit 32 FL_IN) :: u32;
          x2 = ucast (FL_IN AND 0xFFFFFFFF) :: u32;
          k1 = ucast (drop_bit 32 KE) :: u32;
          k2 = ucast (KE AND 0xFFFFFFFF) :: u32;
          x2 = x2 XOR LR32_1 (x1 AND k1);
          x1 = x1 XOR (x2 OR k2)
      in push_bit 32 (ucast x1) OR ucast x2)"

definition camellia_FLINV :: "u64 \<Rightarrow> u64 \<Rightarrow> u64" where
  "camellia_FLINV FLINV_IN KE =
     (let x1 = ucast (drop_bit 32 FLINV_IN) :: u32;
          x2 = ucast (FLINV_IN AND 0xFFFFFFFF) :: u32;
          k1 = ucast (drop_bit 32 KE) :: u32;
          k2 = ucast (KE AND 0xFFFFFFFF) :: u32;
          x1 = x1 XOR (x2 OR k2);
          x2 = x2 XOR LR32_1 (x1 AND k1)
      in push_bit 32 (ucast x1) OR ucast x2)"

definition shifts :: "int list list" where
  "shifts =
    [[0, 15, 15, 45, 45, 60, 94, 94, 111],
     [0, 15, 15, 30, 45, 45, 60, 60,  77, 94, 94, 111]]"

definition vars :: "nat list list" where
  "vars =
    [[2, 0, 2, 0, 2, 2, 0, 2, 0],
     [3, 1, 2, 3, 0, 2, 1, 3, 0, 1, 2, 0]]"

text \<open>The loop that fills the round keys, over one of the two rows of the tables.\<close>

definition camellia_fill_K :: "(u64 \<times> u64) list \<Rightarrow> nat list \<Rightarrow> int list \<Rightarrow> u64 list \<Rightarrow> u64 list" where
  "camellia_fill_K Kd vs sh K =
     fold (\<lambda>i K. case LR128 (Kd ! (vs ! i)) (sh ! i) of (d0, d1) \<Rightarrow> K[2 * i := d0, 2 * i + 1 := d1]) [0..<length vs] K"

definition camellia_generate_round_keys :: "AVCAMELLIA \<Rightarrow> u64 \<times> u64 \<Rightarrow> u64 \<times> u64 \<Rightarrow> u64 \<times> u64 \<Rightarrow> u64 \<times> u64 \<Rightarrow> AVCAMELLIA" where
  "camellia_generate_round_keys cs Kl Kr Ka Kb =
     (let Kd = [Kl, Kr, Ka, Kb];
          Kw = (cam_Kw cs)[0 := fst Kl, 1 := snd Kl];
          Ke = cam_Ke cs
      in if cam_key_bits cs = 128 then
           let K = camellia_fill_K Kd (vars ! 0) (shifts ! 0) (cam_K cs);
               (d0, d1) = LR128 (Kd ! 0) 60;
               K = K[9 := d1];
               (d0, d1) = LR128 (Kd ! 2) 30;
               Ke = Ke[0 := d0, 1 := d1];
               (d0, d1) = LR128 (Kd ! 0) 77;
               Ke = Ke[2 := d0, 3 := d1];
               (d0, d1) = LR128 (Kd ! 2) 111;
               Kw = Kw[2 := d0, 3 := d1]
           in cs\<lparr>cam_Kw := Kw, cam_Ke := Ke, cam_K := K\<rparr>
         else
           let K = camellia_fill_K Kd (vars ! 1) (shifts ! 1) (cam_K cs);
               (d0, d1) = LR128 (Kd ! 1) 30;
               Ke = Ke[0 := d0, 1 := d1];
               (d0, d1) = LR128 (Kd ! 0) 60;
               Ke = Ke[2 := d0, 3 := d1];
               (d0, d1) = LR128 (Kd ! 2) 77;
               Ke = Ke[4 := d0, 5 := d1];
               (d0, d1) = LR128 (Kd ! 3) 111;
               Kw = Kw[2 := d0, 3 := d1]
           in cs\<lparr>cam_Kw := Kw, cam_Ke := Ke, cam_K := K\<rparr>)"

text \<open>One entry of each of the two rows of \<open>SP\<close> that a box gives.\<close>

definition computeSP :: "u64 list list" where
  "computeSP =
    [map (\<lambda>b. let z = ucast b in push_bit 56 z XOR push_bit 48 z XOR push_bit 40 z XOR push_bit 24 z XOR z) SBOX1,
     map (\<lambda>b. let z = ucast b in push_bit 48 z XOR push_bit 40 z XOR push_bit 32 z XOR push_bit 24 z XOR push_bit 16 z) SBOX2,
     map (\<lambda>b. let z = ucast b in push_bit 56 z XOR push_bit 40 z XOR push_bit 32 z XOR push_bit 16 z XOR push_bit 8 z) SBOX3,
     map (\<lambda>b. let z = ucast b in push_bit 56 z XOR push_bit 48 z XOR push_bit 32 z XOR push_bit 8 z XOR z) SBOX4,
     map (\<lambda>b. let z = ucast b in push_bit 48 z XOR push_bit 40 z XOR push_bit 32 z XOR push_bit 16 z XOR push_bit 8 z XOR z) SBOX2,
     map (\<lambda>b. let z = ucast b in push_bit 56 z XOR push_bit 40 z XOR push_bit 32 z XOR push_bit 24 z XOR push_bit 8 z XOR z) SBOX3,
     map (\<lambda>b. let z = ucast b in push_bit 56 z XOR push_bit 48 z XOR push_bit 32 z XOR push_bit 24 z XOR push_bit 16 z XOR z) SBOX4,
     map (\<lambda>b. let z = ucast b in push_bit 56 z XOR push_bit 48 z XOR push_bit 40 z XOR push_bit 24 z XOR push_bit 16 z XOR push_bit 8 z) SBOX1]"

definition Sigma1 :: u64 where "Sigma1 = 0xA09E667F3BCC908B"
definition Sigma2 :: u64 where "Sigma2 = 0xB67AE8584CAA73B2"
definition Sigma3 :: u64 where "Sigma3 = 0xC6EF372FE94F82BE"
definition Sigma4 :: u64 where "Sigma4 = 0x54FF53A5F1D36F1C"
definition Sigma5 :: u64 where "Sigma5 = 0x10E527FADE682D1D"
definition Sigma6 :: u64 where "Sigma6 = 0xB05688C2B3E6C1FD"

text \<open>The derived keys of \<^verbatim>\<open>av_camellia_init\<close>.\<close>

definition camellia_Ka :: "u64 list list \<Rightarrow> u64 \<times> u64 \<Rightarrow> u64 \<times> u64 \<Rightarrow> u64 \<times> u64" where
  "camellia_Ka SP Kl Kr =
     (let D1 = fst Kl XOR fst Kr;
          D2 = snd Kl XOR snd Kr;
          D2 = D2 XOR camellia_F SP D1 Sigma1;
          D1 = D1 XOR camellia_F SP D2 Sigma2;
          D1 = D1 XOR fst Kl;
          D2 = D2 XOR snd Kl;
          D2 = D2 XOR camellia_F SP D1 Sigma3;
          D1 = D1 XOR camellia_F SP D2 Sigma4
      in (D1, D2))"

definition camellia_Kb :: "u64 list list \<Rightarrow> u64 \<times> u64 \<Rightarrow> u64 \<times> u64 \<Rightarrow> u64 \<times> u64" where
  "camellia_Kb SP Ka Kr =
     (let D1 = fst Ka XOR fst Kr;
          D2 = snd Ka XOR snd Kr;
          D2 = D2 XOR camellia_F SP D1 Sigma5;
          D1 = D1 XOR camellia_F SP D2 Sigma6
      in (D1, D2))"

text \<open>\<open>SP\<close> before and after; the key is only read as far as its length says.\<close>

definition av_camellia_init :: "u64 list list \<Rightarrow> AVCAMELLIA \<Rightarrow> u8 list \<Rightarrow> int \<Rightarrow> int \<times> u64 list list \<times> AVCAMELLIA" where
  "av_camellia_init SP cs key key_bits =
     (if key_bits \<noteq> 128 \<and> key_bits \<noteq> 192 \<and> key_bits \<noteq> 256 then (AVERROR EINVAL, SP, cs)
      else
        let cs = cs\<lparr>cam_key_bits := key_bits\<rparr>;
            Kl = (AV_RB64 key, AV_RB64 (drop 8 key));
            Kr = (if key_bits = 192 then (AV_RB64 (drop 16 key), NOT (AV_RB64 (drop 16 key)))
                  else if key_bits = 256 then (AV_RB64 (drop 16 key), AV_RB64 (drop 24 key))
                  else (0, 0));
            SP = computeSP;
            Ka = camellia_Ka SP Kl Kr;
            Kb = (if key_bits \<noteq> 128 then camellia_Kb SP Ka Kr else (0, 0))
        in (0, SP, camellia_generate_round_keys cs Kl Kr Ka Kb))"

definition av_camellia_alloc :: AVCAMELLIA where
  "av_camellia_alloc = \<lparr>cam_Kw = replicate 4 0, cam_Ke = replicate 6 0, cam_K = replicate 24 0, cam_key_bits = 0\<rparr>"

section \<open>Rounds\<close>

text \<open>
  The statements of the two directions: \<^verbatim>\<open>D2 ^= F(D1, cs->K[i])\<close>, \<^verbatim>\<open>D1 ^= F(D2, cs->K[i])\<close> and the pair
  \<^verbatim>\<open>D1 = FL(D1, cs->Ke[i]); D2 = FLINV(D2, cs->Ke[j])\<close>, and their sequences in the code.
\<close>

datatype camellia_step = F_D2 nat | F_D1 nat | FL_D1_D2 nat nat

fun camellia_exec :: "u64 list list \<Rightarrow> AVCAMELLIA \<Rightarrow> camellia_step \<Rightarrow> u64 \<times> u64 \<Rightarrow> u64 \<times> u64" where
  "camellia_exec SP cs (F_D2 i) (D1, D2) = (D1, D2 XOR camellia_F SP D1 (cam_K cs ! i))"
| "camellia_exec SP cs (F_D1 i) (D1, D2) = (D1 XOR camellia_F SP D2 (cam_K cs ! i), D2)"
| "camellia_exec SP cs (FL_D1_D2 i j) (D1, D2) = (camellia_FL D1 (cam_Ke cs ! i), camellia_FLINV D2 (cam_Ke cs ! j))"

definition camellia_encrypt_steps :: "int \<Rightarrow> camellia_step list" where
  "camellia_encrypt_steps key_bits =
     [F_D2 0, F_D1 1, F_D2 2, F_D1 3, F_D2 4, F_D1 5, FL_D1_D2 0 1,
      F_D2 6, F_D1 7, F_D2 8, F_D1 9, F_D2 10, F_D1 11, FL_D1_D2 2 3,
      F_D2 12, F_D1 13, F_D2 14, F_D1 15, F_D2 16, F_D1 17] @
     (if key_bits \<noteq> 128 then
        [FL_D1_D2 4 5, F_D2 18, F_D1 19, F_D2 20, F_D1 21, F_D2 22, F_D1 23]
      else [])"

definition camellia_decrypt_steps :: "int \<Rightarrow> camellia_step list" where
  "camellia_decrypt_steps key_bits =
     (if key_bits \<noteq> 128 then
        [F_D2 23, F_D1 22, F_D2 21, F_D1 20, F_D2 19, F_D1 18, FL_D1_D2 5 4]
      else []) @
     [F_D2 17, F_D1 16, F_D2 15, F_D1 14, F_D2 13, F_D1 12, FL_D1_D2 3 2,
      F_D2 11, F_D1 10, F_D2 9, F_D1 8, F_D2 7, F_D1 6, FL_D1_D2 1 0,
      F_D2 5, F_D1 4, F_D2 3, F_D1 2, F_D2 1, F_D1 0]"

definition camellia_encrypt :: "u64 list list \<Rightarrow> AVCAMELLIA \<Rightarrow> u8 list \<Rightarrow> u8 list" where
  "camellia_encrypt SP cs src =
     (let D1 = AV_RB64 src;
          D2 = AV_RB64 (drop 8 src);
          D1 = D1 XOR cam_Kw cs ! 0;
          D2 = D2 XOR cam_Kw cs ! 1;
          (D1, D2) = fold (camellia_exec SP cs) (camellia_encrypt_steps (cam_key_bits cs)) (D1, D2);
          D2 = D2 XOR cam_Kw cs ! 2;
          D1 = D1 XOR cam_Kw cs ! 3
      in AV_WB64 D2 @ AV_WB64 D1)"

definition camellia_decrypt :: "u64 list list \<Rightarrow> AVCAMELLIA \<Rightarrow> u8 list \<Rightarrow> u8 list option \<Rightarrow> u8 list \<times> u8 list option" where
  "camellia_decrypt SP cs src iv =
     (let D1 = AV_RB64 src;
          D2 = AV_RB64 (drop 8 src);
          D1 = D1 XOR cam_Kw cs ! 2;
          D2 = D2 XOR cam_Kw cs ! 3;
          (D1, D2) = fold (camellia_exec SP cs) (camellia_decrypt_steps (cam_key_bits cs)) (D1, D2);
          D2 = D2 XOR cam_Kw cs ! 0;
          D1 = D1 XOR cam_Kw cs ! 1;
          (D1, D2, iv) = (case iv of
             Some v \<Rightarrow> (D1 XOR AV_RB64 (drop 8 v), D2 XOR AV_RB64 v, Some (take 16 src))
           | None \<Rightarrow> (D1, D2, iv))
      in (AV_WB64 D2 @ AV_WB64 D1, iv))"

text \<open>The body of the loop of \<^verbatim>\<open>av_camellia_crypt\<close>; the loop is \<open>crypt_blocks\<close>.\<close>

definition camellia_block :: "u64 list list \<Rightarrow> AVCAMELLIA \<Rightarrow> block_fun" where
  "camellia_block SP cs src decrypt iv = (if decrypt then camellia_decrypt SP cs src iv else (camellia_encrypt SP cs src, iv))"

definition av_camellia_crypt ::
  "u64 list list \<Rightarrow> AVCAMELLIA \<Rightarrow> u8 list \<Rightarrow> nat \<Rightarrow> u8 list option \<Rightarrow> bool \<Rightarrow> u8 list \<times> u8 list option" where
  "av_camellia_crypt SP cs src count iv decrypt = crypt_blocks 16 (camellia_block SP cs) count src iv decrypt"

section \<open>Decryption undoes encryption\<close>

fun camellia_mirror :: "camellia_step \<Rightarrow> camellia_step" where
  "camellia_mirror (F_D2 i) = F_D1 i"
| "camellia_mirror (F_D1 i) = F_D2 i"
| "camellia_mirror (FL_D1_D2 i j) = FL_D1_D2 j i"

lemma word_halves:
  "ucast (drop_bit 32 (push_bit 32 (ucast a) OR ucast b :: u64)) = a"
  "ucast ((push_bit 32 (ucast a) OR ucast b :: u64) AND 0xFFFFFFFF) = b" for a b :: u32
proof -
  show "ucast (drop_bit 32 (push_bit 32 (ucast a) OR ucast b :: u64)) = a"
    by (intro bit_word_eqI) (auto simp: bytes_bits dest: bit_imp_le_length)
  have m: "(0xFFFFFFFF :: u64) = mask 32" by (simp add: mask_eq_exp_minus_1)
  show "ucast ((push_bit 32 (ucast a) OR ucast b :: u64) AND 0xFFFFFFFF) = b"
    unfolding m by (intro bit_word_eqI) (auto simp: bytes_bits bit_and_iff bit_mask_iff dest: bit_imp_le_length)
qed

lemma word_split: "push_bit 32 (ucast (ucast (drop_bit 32 x) :: u32)) OR ucast (ucast (x AND 0xFFFFFFFF) :: u32) = x" for x :: u64
proof -
  have m: "(0xFFFFFFFF :: u64) = mask 32" by (simp add: mask_eq_exp_minus_1)
  show ?thesis unfolding m
    by (intro bit_word_eqI) (auto simp: bytes_bits bit_and_iff bit_mask_iff)
qed

lemma camellia_FL_inverse [simp]: "camellia_FLINV (camellia_FL x k) k = x" "camellia_FL (camellia_FLINV x k) k = x"
  by (simp_all only: camellia_FL_def camellia_FLINV_def Let_def word_halves xor_cancel word_split)

lemma camellia_exec_inverse:
  "camellia_exec SP cs (camellia_mirror x) (prod.swap (camellia_exec SP cs x v)) = prod.swap v"
  "camellia_exec SP cs x (prod.swap (camellia_exec SP cs (camellia_mirror x) v)) = prod.swap v"
  by (cases v; cases x; simp)+

lemma camellia_decrypt_steps_eq: "camellia_decrypt_steps n = rev (map camellia_mirror (camellia_encrypt_steps n))"
  by (simp add: camellia_decrypt_steps_def camellia_encrypt_steps_def)

lemma camellia_rounds_inverse:
  "fold (camellia_exec SP cs) (camellia_decrypt_steps n) (prod.swap (fold (camellia_exec SP cs) (camellia_encrypt_steps n) v)) = prod.swap v"
  "fold (camellia_exec SP cs) (camellia_encrypt_steps n) (prod.swap (fold (camellia_exec SP cs) (camellia_decrypt_steps n) v)) = prod.swap v"
  unfolding camellia_decrypt_steps_eq by (rule fold_inverse fold_inverse2, rule camellia_exec_inverse)+

text \<open>The two directions as functions of the block's two words.\<close>

definition camellia_enc_words :: "u64 list list \<Rightarrow> AVCAMELLIA \<Rightarrow> u64 \<times> u64 \<Rightarrow> u64 \<times> u64" where
  "camellia_enc_words SP cs = (\<lambda>(a, b).
     case fold (camellia_exec SP cs) (camellia_encrypt_steps (cam_key_bits cs)) (a XOR cam_Kw cs ! 0, b XOR cam_Kw cs ! 1) of
       (D1, D2) \<Rightarrow> (D2 XOR cam_Kw cs ! 2, D1 XOR cam_Kw cs ! 3))"

definition camellia_dec_words :: "u64 list list \<Rightarrow> AVCAMELLIA \<Rightarrow> u64 \<times> u64 \<Rightarrow> u64 \<times> u64" where
  "camellia_dec_words SP cs = (\<lambda>(a, b).
     case fold (camellia_exec SP cs) (camellia_decrypt_steps (cam_key_bits cs)) (a XOR cam_Kw cs ! 2, b XOR cam_Kw cs ! 3) of
       (D1, D2) \<Rightarrow> (D2 XOR cam_Kw cs ! 0, D1 XOR cam_Kw cs ! 1))"

lemma camellia_words_inverse:
  "camellia_dec_words SP cs (camellia_enc_words SP cs s) = s" "camellia_enc_words SP cs (camellia_dec_words SP cs s) = s"
proof -
  obtain a b where s: "s = (a, b)" by (cases s)
  show "camellia_dec_words SP cs (camellia_enc_words SP cs s) = s"
    using camellia_rounds_inverse(1) [of SP cs "cam_key_bits cs" "(a XOR cam_Kw cs ! 0, b XOR cam_Kw cs ! 1)"]
    by (simp add: s camellia_dec_words_def camellia_enc_words_def split_beta prod.swap_def)
  show "camellia_enc_words SP cs (camellia_dec_words SP cs s) = s"
    using camellia_rounds_inverse(2) [of SP cs "cam_key_bits cs" "(a XOR cam_Kw cs ! 2, b XOR cam_Kw cs ! 3)"]
    by (simp add: s camellia_dec_words_def camellia_enc_words_def split_beta prod.swap_def)
qed

lemma camellia_block_words:
  "camellia_block SP cs = state_block 16 read_be64s write_be64s xor_be64s (camellia_enc_words SP cs) (camellia_dec_words SP cs)"
proof (intro ext)
  fix src decrypt iv
  show "camellia_block SP cs src decrypt iv =
      state_block 16 read_be64s write_be64s xor_be64s (camellia_enc_words SP cs) (camellia_dec_words SP cs) src decrypt iv"
    by (cases decrypt; cases iv)
      (simp_all add: camellia_block_def camellia_encrypt_def camellia_decrypt_def state_block_def camellia_enc_words_def
        camellia_dec_words_def read_be64s_def write_be64s_def xor_be64s_def Let_def split_beta)
qed

interpretation camellia: block_cipher 16 "camellia_block SP cs" for SP cs
  unfolding camellia_block_words by (rule be64s.state_block_cipher) (rule camellia_words_inverse)+

section \<open>The rotation and the key lengths\<close>

definition word128 :: "u64 \<times> u64 \<Rightarrow> 128 word" where
  "word128 = (\<lambda>(a, b). push_bit 64 (ucast a) OR ucast b)"

lemma bit_word128: "bit (word128 (a, b)) n \<longleftrightarrow> (if n < 64 then bit b n else n < 128 \<and> bit a (n - 64))"
  by (auto simp: word128_def bytes_bits dest: bit_imp_le_length)

lemma bit_rotl128: "n < 128 \<Longrightarrow> r < 128 \<Longrightarrow> bit (word_rotl r w) n \<longleftrightarrow> bit w (if r \<le> n then n - r else n + 128 - r)" for w :: "128 word"
proof -
  assume n: "n < 128" "r < 128"
  then have "(n + (128 - r)) mod 128 = (if r \<le> n then n - r else n + 128 - r)"
    by (simp add: mod_nat_eqI)
  then show ?thesis using n by (simp add: bit_word_rotl_iff)
qed

lemma bit_64 [simp]: "64 \<le> n \<Longrightarrow> \<not> bit b n" for b :: u64
  using bit_imp_le_length [of b n] by auto

lemma word128_rotl:
  assumes "0 < r" "r < 64"
  shows "word128 (push_bit r a OR drop_bit (64 - r) b, push_bit r b OR drop_bit (64 - r) a) = word_rotl r (word128 (a, b))"
    "word128 (push_bit r b OR drop_bit (64 - r) a, push_bit r a OR drop_bit (64 - r) b) = word_rotl (64 + r) (word128 (a, b))"
proof -
  have c: thesis if "n < 128" "n < r \<Longrightarrow> thesis" "r \<le> n \<Longrightarrow> n < 64 \<Longrightarrow> thesis" "64 \<le> n \<Longrightarrow> n < 64 + r \<Longrightarrow> thesis" "64 + r \<le> n \<Longrightarrow> thesis"
    for n thesis using that by linarith
  show "word128 (push_bit r a OR drop_bit (64 - r) b, push_bit r b OR drop_bit (64 - r) a) = word_rotl r (word128 (a, b))"
  proof (rule bit_word_eqI)
    fix n assume "n < LENGTH(128)"
    then have "n < 128" by simp
    then show "bit (word128 (push_bit r a OR drop_bit (64 - r) b, push_bit r b OR drop_bit (64 - r) a)) n = bit (word_rotl r (word128 (a, b))) n"
      by (rule c) (use assms \<open>n < 128\<close> in \<open>auto simp: bit_rotl128 bit_word128 bytes_bits add.commute [of r 64]\<close>)
  qed
  show "word128 (push_bit r b OR drop_bit (64 - r) a, push_bit r a OR drop_bit (64 - r) b) = word_rotl (64 + r) (word128 (a, b))"
  proof (rule bit_word_eqI)
    fix n assume "n < LENGTH(128)"
    then have "n < 128" by simp
    then show "bit (word128 (push_bit r b OR drop_bit (64 - r) a, push_bit r a OR drop_bit (64 - r) b)) n = bit (word_rotl (64 + r) (word128 (a, b))) n"
      by (rule c) (use assms \<open>n < 128\<close> in \<open>auto simp: bit_rotl128 bit_word128 bytes_bits add.commute [of r 64]\<close>)
  qed
qed

lemma word128_rotl_0: "word_rotl 0 w = w" for w :: "128 word"
  by (rule bit_word_eqI) (simp add: bit_rotl128)

lemma word128_swap: "word128 (b, a) = word_rotl 64 (word128 (a, b))"
  by (rule bit_word_eqI) (auto simp: bit_rotl128 bit_word128 dest: bit_imp_le_length)

text \<open>
  Also: the rotation the key schedule is made of is the rotation of the 128-bit word: for counts from 0 to 127 (the half
  swap at 64 included) it rotates left by the count, and by nothing for every other count.
\<close>

theorem LR128_rotates: "word128 (LR128 K x) = (if 0 \<le> x \<and> x < 128 then word_rotl (nat x) (word128 K) else word128 K)"
proof -
  obtain a b where K: "K = (a, b)" by (cases K)
  consider "x = 0 \<or> x < 0 \<or> 128 \<le> x" | "0 < x" "x < 64" | "x = 64" | "64 < x" "x < 128" by linarith
  then show ?thesis
  proof cases
    case 1
    then show ?thesis by (auto simp: LR128_def K word128_rotl_0)
  next
    case 2
    then have "nat (64 - x) = 64 - nat x" by simp
    then show ?thesis using 2 word128_rotl(1) [of "nat x" a b] by (simp add: LR128_def K)
  next
    case 3
    then show ?thesis by (simp add: LR128_def K word128_swap [of b a])
  next
    case 4
    then have "nat (64 - (x - 64)) = 64 - nat (x - 64)" "nat x = 64 + nat (x - 64)" by simp_all
    then show ?thesis using 4 word128_rotl(2) [of "nat (x - 64)" b a] by (simp add: LR128_def K)
  qed
qed

text \<open>
  C22: when \<^verbatim>\<open>av_camellia_init\<close> accepts a key, which it does exactly for 128, 192 and 256 bits, the table it leaves is
  the same whatever was set before, so that contexts set earlier stay valid, and decrypting with the context gives back
  what it has encrypted, in either mode and for any number of blocks, with the same vector at the end.
\<close>

theorem av_camellia_round_trip:
  assumes "av_camellia_init SP cs key key_bits = (ret, SP', cs')" "length src = 16 * count" "iv_ok 16 iv"
  shows "(ret = 0 \<longleftrightarrow> key_bits \<in> {128, 192, 256}) \<and> (ret \<noteq> 0 \<longrightarrow> ret = AVERROR EINVAL \<and> SP' = SP \<and> cs' = cs) \<and>
    (ret = 0 \<longrightarrow> SP' = computeSP \<and> cam_key_bits cs' = key_bits) \<and>
    av_camellia_crypt SP' cs' (fst (av_camellia_crypt SP' cs' src count iv False)) count iv True =
      (src, snd (av_camellia_crypt SP' cs' src count iv False))"
proof -
  have k: "cam_key_bits (camellia_generate_round_keys c Kl Kr Ka Kb) = cam_key_bits c" for c Kl Kr Ka Kb
    unfolding camellia_generate_round_keys_def Let_def split_beta by (rule if_split [THEN iffD2]) simp
  have "(ret = 0 \<longleftrightarrow> key_bits \<in> {128, 192, 256}) \<and> (ret \<noteq> 0 \<longrightarrow> ret = AVERROR EINVAL \<and> SP' = SP \<and> cs' = cs) \<and>
      (ret = 0 \<longrightarrow> SP' = computeSP \<and> cam_key_bits cs' = key_bits)"
  proof (cases "key_bits \<in> {128, 192, 256}")
    case True
    then have "\<not> (key_bits \<noteq> 128 \<and> key_bits \<noteq> 192 \<and> key_bits \<noteq> 256)" by blast
    then have "ret = 0 \<and> SP' = computeSP \<and> cam_key_bits cs' = key_bits"
      using assms(1) unfolding av_camellia_init_def Let_def by (auto simp: k)
    then show ?thesis using True by simp
  next
    case False
    then have "ret = AVERROR EINVAL \<and> SP' = SP \<and> cs' = cs" using assms(1) by (simp add: av_camellia_init_def)
    then show ?thesis using False AVERROR_neg [of EINVAL] by simp
  qed
  then show ?thesis using camellia.round_trip [OF assms(3,2)] unfolding av_camellia_crypt_def by blast
qed

definition demo_camellia :: "int \<times> u64 list list \<times> AVCAMELLIA" where
  "demo_camellia = av_camellia_init [] av_camellia_alloc [0, 1, 2, 3, 4, 5, 6, 7, 8, 9, 10, 11, 12, 13, 14, 15] 128"

theorem av_camellia_round_trip_witness:
  "fst demo_camellia = 0 \<and>
   av_camellia_crypt computeSP (snd (snd demo_camellia))
     (fst (av_camellia_crypt computeSP (snd (snd demo_camellia)) [0, 1, 2, 3, 4, 5, 6, 7, 8, 9, 10, 11, 12, 13, 14, 15] 1 None False)) 1 None True =
   ([0, 1, 2, 3, 4, 5, 6, 7, 8, 9, 10, 11, 12, 13, 14, 15],
     snd (av_camellia_crypt computeSP (snd (snd demo_camellia)) [0, 1, 2, 3, 4, 5, 6, 7, 8, 9, 10, 11, 12, 13, 14, 15] 1 None False))"
proof -
  have "av_camellia_init [] av_camellia_alloc [0, 1, 2, 3, 4, 5, 6, 7, 8, 9, 10, 11, 12, 13, 14, 15] 128 =
      (fst demo_camellia, fst (snd demo_camellia), snd (snd demo_camellia))" by (simp add: demo_camellia_def)
  from av_camellia_round_trip [OF this, of "[0, 1, 2, 3, 4, 5, 6, 7, 8, 9, 10, 11, 12, 13, 14, 15]" 1 None] show ?thesis by auto
qed

end
