(* ===== verification/AV_Twofish.thy ===== *)
theory AV_Twofish
  imports AV_Block128 AV_Intmath
begin

text \<open>\<^verbatim>\<open>libavutil/twofish.c\<close>: Twofish with its tables, its key schedule and its two modes.\<close>

unbundle bit_operations_syntax

section \<open>Tables\<close>

definition MD1 :: "u8 list" where
  "MD1 =
    [0x00, 0x5b, 0xb6, 0xed, 0x05, 0x5e, 0xb3, 0xe8, 0x0a, 0x51, 0xbc, 0xe7, 0x0f, 0x54, 0xb9, 0xe2,
     0x14, 0x4f, 0xa2, 0xf9, 0x11, 0x4a, 0xa7, 0xfc, 0x1e, 0x45, 0xa8, 0xf3, 0x1b, 0x40, 0xad, 0xf6,
     0x28, 0x73, 0x9e, 0xc5, 0x2d, 0x76, 0x9b, 0xc0, 0x22, 0x79, 0x94, 0xcf, 0x27, 0x7c, 0x91, 0xca,
     0x3c, 0x67, 0x8a, 0xd1, 0x39, 0x62, 0x8f, 0xd4, 0x36, 0x6d, 0x80, 0xdb, 0x33, 0x68, 0x85, 0xde,
     0x50, 0x0b, 0xe6, 0xbd, 0x55, 0x0e, 0xe3, 0xb8, 0x5a, 0x01, 0xec, 0xb7, 0x5f, 0x04, 0xe9, 0xb2,
     0x44, 0x1f, 0xf2, 0xa9, 0x41, 0x1a, 0xf7, 0xac, 0x4e, 0x15, 0xf8, 0xa3, 0x4b, 0x10, 0xfd, 0xa6,
     0x78, 0x23, 0xce, 0x95, 0x7d, 0x26, 0xcb, 0x90, 0x72, 0x29, 0xc4, 0x9f, 0x77, 0x2c, 0xc1, 0x9a,
     0x6c, 0x37, 0xda, 0x81, 0x69, 0x32, 0xdf, 0x84, 0x66, 0x3d, 0xd0, 0x8b, 0x63, 0x38, 0xd5, 0x8e,
     0xa0, 0xfb, 0x16, 0x4d, 0xa5, 0xfe, 0x13, 0x48, 0xaa, 0xf1, 0x1c, 0x47, 0xaf, 0xf4, 0x19, 0x42,
     0xb4, 0xef, 0x02, 0x59, 0xb1, 0xea, 0x07, 0x5c, 0xbe, 0xe5, 0x08, 0x53, 0xbb, 0xe0, 0x0d, 0x56,
     0x88, 0xd3, 0x3e, 0x65, 0x8d, 0xd6, 0x3b, 0x60, 0x82, 0xd9, 0x34, 0x6f, 0x87, 0xdc, 0x31, 0x6a,
     0x9c, 0xc7, 0x2a, 0x71, 0x99, 0xc2, 0x2f, 0x74, 0x96, 0xcd, 0x20, 0x7b, 0x93, 0xc8, 0x25, 0x7e,
     0xf0, 0xab, 0x46, 0x1d, 0xf5, 0xae, 0x43, 0x18, 0xfa, 0xa1, 0x4c, 0x17, 0xff, 0xa4, 0x49, 0x12,
     0xe4, 0xbf, 0x52, 0x09, 0xe1, 0xba, 0x57, 0x0c, 0xee, 0xb5, 0x58, 0x03, 0xeb, 0xb0, 0x5d, 0x06,
     0xd8, 0x83, 0x6e, 0x35, 0xdd, 0x86, 0x6b, 0x30, 0xd2, 0x89, 0x64, 0x3f, 0xd7, 0x8c, 0x61, 0x3a,
     0xcc, 0x97, 0x7a, 0x21, 0xc9, 0x92, 0x7f, 0x24, 0xc6, 0x9d, 0x70, 0x2b, 0xc3, 0x98, 0x75, 0x2e]"

definition MD2 :: "u8 list" where
  "MD2 =
    [0x00, 0xef, 0xb7, 0x58, 0x07, 0xe8, 0xb0, 0x5f, 0x0e, 0xe1, 0xb9, 0x56, 0x09, 0xe6, 0xbe, 0x51,
     0x1c, 0xf3, 0xab, 0x44, 0x1b, 0xf4, 0xac, 0x43, 0x12, 0xfd, 0xa5, 0x4a, 0x15, 0xfa, 0xa2, 0x4d,
     0x38, 0xd7, 0x8f, 0x60, 0x3f, 0xd0, 0x88, 0x67, 0x36, 0xd9, 0x81, 0x6e, 0x31, 0xde, 0x86, 0x69,
     0x24, 0xcb, 0x93, 0x7c, 0x23, 0xcc, 0x94, 0x7b, 0x2a, 0xc5, 0x9d, 0x72, 0x2d, 0xc2, 0x9a, 0x75,
     0x70, 0x9f, 0xc7, 0x28, 0x77, 0x98, 0xc0, 0x2f, 0x7e, 0x91, 0xc9, 0x26, 0x79, 0x96, 0xce, 0x21,
     0x6c, 0x83, 0xdb, 0x34, 0x6b, 0x84, 0xdc, 0x33, 0x62, 0x8d, 0xd5, 0x3a, 0x65, 0x8a, 0xd2, 0x3d,
     0x48, 0xa7, 0xff, 0x10, 0x4f, 0xa0, 0xf8, 0x17, 0x46, 0xa9, 0xf1, 0x1e, 0x41, 0xae, 0xf6, 0x19,
     0x54, 0xbb, 0xe3, 0x0c, 0x53, 0xbc, 0xe4, 0x0b, 0x5a, 0xb5, 0xed, 0x02, 0x5d, 0xb2, 0xea, 0x05,
     0xe0, 0x0f, 0x57, 0xb8, 0xe7, 0x08, 0x50, 0xbf, 0xee, 0x01, 0x59, 0xb6, 0xe9, 0x06, 0x5e, 0xb1,
     0xfc, 0x13, 0x4b, 0xa4, 0xfb, 0x14, 0x4c, 0xa3, 0xf2, 0x1d, 0x45, 0xaa, 0xf5, 0x1a, 0x42, 0xad,
     0xd8, 0x37, 0x6f, 0x80, 0xdf, 0x30, 0x68, 0x87, 0xd6, 0x39, 0x61, 0x8e, 0xd1, 0x3e, 0x66, 0x89,
     0xc4, 0x2b, 0x73, 0x9c, 0xc3, 0x2c, 0x74, 0x9b, 0xca, 0x25, 0x7d, 0x92, 0xcd, 0x22, 0x7a, 0x95,
     0x90, 0x7f, 0x27, 0xc8, 0x97, 0x78, 0x20, 0xcf, 0x9e, 0x71, 0x29, 0xc6, 0x99, 0x76, 0x2e, 0xc1,
     0x8c, 0x63, 0x3b, 0xd4, 0x8b, 0x64, 0x3c, 0xd3, 0x82, 0x6d, 0x35, 0xda, 0x85, 0x6a, 0x32, 0xdd,
     0xa8, 0x47, 0x1f, 0xf0, 0xaf, 0x40, 0x18, 0xf7, 0xa6, 0x49, 0x11, 0xfe, 0xa1, 0x4e, 0x16, 0xf9,
     0xb4, 0x5b, 0x03, 0xec, 0xb3, 0x5c, 0x04, 0xeb, 0xba, 0x55, 0x0d, 0xe2, 0xbd, 0x52, 0x0a, 0xe5]"

definition tf_q0 :: "u8 list" where
  "tf_q0 =
    [0xa9, 0x67, 0xb3, 0xe8, 0x04, 0xfd, 0xa3, 0x76, 0x9a, 0x92, 0x80, 0x78, 0xe4, 0xdd, 0xd1, 0x38,
     0x0d, 0xc6, 0x35, 0x98, 0x18, 0xf7, 0xec, 0x6c, 0x43, 0x75, 0x37, 0x26, 0xfa, 0x13, 0x94, 0x48,
     0xf2, 0xd0, 0x8b, 0x30, 0x84, 0x54, 0xdf, 0x23, 0x19, 0x5b, 0x3d, 0x59, 0xf3, 0xae, 0xa2, 0x82,
     0x63, 0x01, 0x83, 0x2e, 0xd9, 0x51, 0x9b, 0x7c, 0xa6, 0xeb, 0xa5, 0xbe, 0x16, 0x0c, 0xe3, 0x61,
     0xc0, 0x8c, 0x3a, 0xf5, 0x73, 0x2c, 0x25, 0x0b, 0xbb, 0x4e, 0x89, 0x6b, 0x53, 0x6a, 0xb4, 0xf1,
     0xe1, 0xe6, 0xbd, 0x45, 0xe2, 0xf4, 0xb6, 0x66, 0xcc, 0x95, 0x03, 0x56, 0xd4, 0x1c, 0x1e, 0xd7,
     0xfb, 0xc3, 0x8e, 0xb5, 0xe9, 0xcf, 0xbf, 0xba, 0xea, 0x77, 0x39, 0xaf, 0x33, 0xc9, 0x62, 0x71,
     0x81, 0x79, 0x09, 0xad, 0x24, 0xcd, 0xf9, 0xd8, 0xe5, 0xc5, 0xb9, 0x4d, 0x44, 0x08, 0x86, 0xe7,
     0xa1, 0x1d, 0xaa, 0xed, 0x06, 0x70, 0xb2, 0xd2, 0x41, 0x7b, 0xa0, 0x11, 0x31, 0xc2, 0x27, 0x90,
     0x20, 0xf6, 0x60, 0xff, 0x96, 0x5c, 0xb1, 0xab, 0x9e, 0x9c, 0x52, 0x1b, 0x5f, 0x93, 0x0a, 0xef,
     0x91, 0x85, 0x49, 0xee, 0x2d, 0x4f, 0x8f, 0x3b, 0x47, 0x87, 0x6d, 0x46, 0xd6, 0x3e, 0x69, 0x64,
     0x2a, 0xce, 0xcb, 0x2f, 0xfc, 0x97, 0x05, 0x7a, 0xac, 0x7f, 0xd5, 0x1a, 0x4b, 0x0e, 0xa7, 0x5a,
     0x28, 0x14, 0x3f, 0x29, 0x88, 0x3c, 0x4c, 0x02, 0xb8, 0xda, 0xb0, 0x17, 0x55, 0x1f, 0x8a, 0x7d,
     0x57, 0xc7, 0x8d, 0x74, 0xb7, 0xc4, 0x9f, 0x72, 0x7e, 0x15, 0x22, 0x12, 0x58, 0x07, 0x99, 0x34,
     0x6e, 0x50, 0xde, 0x68, 0x65, 0xbc, 0xdb, 0xf8, 0xc8, 0xa8, 0x2b, 0x40, 0xdc, 0xfe, 0x32, 0xa4,
     0xca, 0x10, 0x21, 0xf0, 0xd3, 0x5d, 0x0f, 0x00, 0x6f, 0x9d, 0x36, 0x42, 0x4a, 0x5e, 0xc1, 0xe0]"

definition tf_q1 :: "u8 list" where
  "tf_q1 =
    [0x75, 0xf3, 0xc6, 0xf4, 0xdb, 0x7b, 0xfb, 0xc8, 0x4a, 0xd3, 0xe6, 0x6b, 0x45, 0x7d, 0xe8, 0x4b,
     0xd6, 0x32, 0xd8, 0xfd, 0x37, 0x71, 0xf1, 0xe1, 0x30, 0x0f, 0xf8, 0x1b, 0x87, 0xfa, 0x06, 0x3f,
     0x5e, 0xba, 0xae, 0x5b, 0x8a, 0x00, 0xbc, 0x9d, 0x6d, 0xc1, 0xb1, 0x0e, 0x80, 0x5d, 0xd2, 0xd5,
     0xa0, 0x84, 0x07, 0x14, 0xb5, 0x90, 0x2c, 0xa3, 0xb2, 0x73, 0x4c, 0x54, 0x92, 0x74, 0x36, 0x51,
     0x38, 0xb0, 0xbd, 0x5a, 0xfc, 0x60, 0x62, 0x96, 0x6c, 0x42, 0xf7, 0x10, 0x7c, 0x28, 0x27, 0x8c,
     0x13, 0x95, 0x9c, 0xc7, 0x24, 0x46, 0x3b, 0x70, 0xca, 0xe3, 0x85, 0xcb, 0x11, 0xd0, 0x93, 0xb8,
     0xa6, 0x83, 0x20, 0xff, 0x9f, 0x77, 0xc3, 0xcc, 0x03, 0x6f, 0x08, 0xbf, 0x40, 0xe7, 0x2b, 0xe2,
     0x79, 0x0c, 0xaa, 0x82, 0x41, 0x3a, 0xea, 0xb9, 0xe4, 0x9a, 0xa4, 0x97, 0x7e, 0xda, 0x7a, 0x17,
     0x66, 0x94, 0xa1, 0x1d, 0x3d, 0xf0, 0xde, 0xb3, 0x0b, 0x72, 0xa7, 0x1c, 0xef, 0xd1, 0x53, 0x3e,
     0x8f, 0x33, 0x26, 0x5f, 0xec, 0x76, 0x2a, 0x49, 0x81, 0x88, 0xee, 0x21, 0xc4, 0x1a, 0xeb, 0xd9,
     0xc5, 0x39, 0x99, 0xcd, 0xad, 0x31, 0x8b, 0x01, 0x18, 0x23, 0xdd, 0x1f, 0x4e, 0x2d, 0xf9, 0x48,
     0x4f, 0xf2, 0x65, 0x8e, 0x78, 0x5c, 0x58, 0x19, 0x8d, 0xe5, 0x98, 0x57, 0x67, 0x7f, 0x05, 0x64,
     0xaf, 0x63, 0xb6, 0xfe, 0xf5, 0xb7, 0x3c, 0xa5, 0xce, 0xe9, 0x68, 0x44, 0xe0, 0x4d, 0x43, 0x69,
     0x29, 0x2e, 0xac, 0x15, 0x59, 0xa8, 0x0a, 0x9e, 0x6e, 0x47, 0xdf, 0x34, 0x35, 0x6a, 0xcf, 0xdc,
     0x22, 0xc9, 0xc0, 0x9b, 0x89, 0xd4, 0xed, 0xab, 0x12, 0xa2, 0x0d, 0x52, 0xbb, 0x02, 0x2f, 0xa9,
     0xd7, 0x61, 0x1e, 0xb4, 0x50, 0x04, 0xf6, 0xc2, 0x16, 0x25, 0x86, 0x56, 0x55, 0x09, 0xbe, 0x91]"

section \<open>Key schedule\<close>

record AVTWOFISH =
  tf_K :: "u32 list"
  tf_S :: "u32 list"
  tf_ksize :: nat
  MDS1 :: "u32 list"
  MDS2 :: "u32 list"
  MDS3 :: "u32 list"
  MDS4 :: "u32 list"

definition av_twofish_alloc :: AVTWOFISH where
  "av_twofish_alloc = \<lparr>tf_K = replicate 40 0, tf_S = replicate 4 0, tf_ksize = 0, MDS1 = replicate 256 0, MDS2 = replicate 256 0,
     MDS3 = replicate 256 0, MDS4 = replicate 256 0\<rparr>"

definition tf_LR :: "u32 \<Rightarrow> nat \<Rightarrow> u32" where
  "tf_LR x n = push_bit n x OR drop_bit (32 - n) x"

definition tf_RR :: "u32 \<Rightarrow> nat \<Rightarrow> u32" where
  "tf_RR x n = drop_bit n x OR push_bit (32 - n) x"

lemma unat_half_less: "a \<noteq> 0 \<Longrightarrow> unat (drop_bit 1 a) < unat a" for a :: u8
proof -
  assume "a \<noteq> 0"
  then have "0 < unat a" by (simp add: unat_gt_0)
  moreover have "unat (drop_bit 1 a) = unat a div 2" by (simp add: unat_drop_bit_eq drop_bit_eq_div unat_div del: One_nat_def)
  ultimately show ?thesis by simp
qed

text \<open>The loop of \<^verbatim>\<open>gfmul\<close>, with its result so far as last argument.\<close>

function gfmul_loop :: "u8 \<Rightarrow> u8 \<Rightarrow> u8 \<Rightarrow> u8" where
  "gfmul_loop a b r =
     (if a \<noteq> 0 \<and> b \<noteq> 0 then
        let r = (if a AND 1 \<noteq> 0 then r XOR b else r);
            t = b AND 0x80;
            b = push_bit 1 b;
            b = (if t \<noteq> 0 then b XOR 0x4d else b);
            a = drop_bit 1 a
        in gfmul_loop a b r
      else r)"
  by pat_completeness auto

termination
  by (relation "measure (\<lambda>(a, b, r). unat a)") (simp_all add: unat_half_less del: One_nat_def)

definition gfmul :: "u8 \<Rightarrow> u8 \<Rightarrow> u8" where
  "gfmul a b = gfmul_loop a b 0"

definition tf_RS :: "u32 \<Rightarrow> u32 \<Rightarrow> u32" where
  "tf_RS k0 k1 =
     (let m = AV_WL32 k0 @ AV_WL32 k1;
          s0 = gfmul 0x01 (m ! 0) XOR gfmul 0xa4 (m ! 1) XOR gfmul 0x55 (m ! 2) XOR gfmul 0x87 (m ! 3) XOR
               gfmul 0x5a (m ! 4) XOR gfmul 0x58 (m ! 5) XOR gfmul 0xdb (m ! 6) XOR gfmul 0x9e (m ! 7);
          s1 = gfmul 0xa4 (m ! 0) XOR gfmul 0x56 (m ! 1) XOR gfmul 0x82 (m ! 2) XOR gfmul 0xf3 (m ! 3) XOR
               gfmul 0x1e (m ! 4) XOR gfmul 0xc6 (m ! 5) XOR gfmul 0x68 (m ! 6) XOR gfmul 0xe5 (m ! 7);
          s2 = gfmul 0x02 (m ! 0) XOR gfmul 0xa1 (m ! 1) XOR gfmul 0xfc (m ! 2) XOR gfmul 0xc1 (m ! 3) XOR
               gfmul 0x47 (m ! 4) XOR gfmul 0xae (m ! 5) XOR gfmul 0x3d (m ! 6) XOR gfmul 0x19 (m ! 7);
          s3 = gfmul 0xa4 (m ! 0) XOR gfmul 0x55 (m ! 1) XOR gfmul 0x87 (m ! 2) XOR gfmul 0x5a (m ! 3) XOR
               gfmul 0x58 (m ! 4) XOR gfmul 0xdb (m ! 5) XOR gfmul 0x9e (m ! 6) XOR gfmul 0x03 (m ! 7)
      in AV_RL32 [s0, s1, s2, s3])"

text \<open>Four bytes through the boxes, with the key words \<open>L\<close>.\<close>

type_synonym bytes4 = "u8 \<times> u8 \<times> u8 \<times> u8"

definition tf_h0 :: "bytes4 \<Rightarrow> u32 list \<Rightarrow> nat \<Rightarrow> bytes4" where
  "tf_h0 y L k =
     (let q0 = (\<lambda>x. tf_q0 ! unat x);
          q1 = (\<lambda>x. tf_q1 ! unat x);
          y = (if k = 4 then
                 let l = AV_WL32 (L ! 3)
                 in case y of (y0, y1, y2, y3) \<Rightarrow> (q1 y0 XOR l ! 0, q0 y1 XOR l ! 1, q0 y2 XOR l ! 2, q1 y3 XOR l ! 3)
               else y);
          y = (if k \<ge> 3 then
                 let l = AV_WL32 (L ! 2)
                 in case y of (y0, y1, y2, y3) \<Rightarrow> (q1 y0 XOR l ! 0, q1 y1 XOR l ! 1, q0 y2 XOR l ! 2, q0 y3 XOR l ! 3)
               else y);
          l = AV_WL32 (L ! 1)
      in case y of (y0, y1, y2, y3) \<Rightarrow>
           (q1 (q0 (q0 y0 XOR l ! 0) XOR ucast (L ! 0 AND 0xff)),
            q0 (q0 (q1 y1 XOR l ! 1) XOR ucast (drop_bit 8 (L ! 0) AND 0xff)),
            q1 (q1 (q0 y2 XOR l ! 2) XOR ucast (drop_bit 16 (L ! 0) AND 0xff)),
            q0 (q1 (q1 y3 XOR l ! 3) XOR ucast (drop_bit 24 (L ! 0)))))"

definition tf_bytes :: "u32 \<Rightarrow> bytes4" where
  "tf_bytes X = (case AV_WL32 X of [y0, y1, y2, y3] \<Rightarrow> (y0, y1, y2, y3))"

definition tf_h :: "u32 \<Rightarrow> u32 list \<Rightarrow> nat \<Rightarrow> u32" where
  "tf_h X L k =
     (case tf_h0 (tf_bytes X) L k of (y0, y1, y2, y3) \<Rightarrow>
        let M1 = (\<lambda>x. MD1 ! unat x);
            M2 = (\<lambda>x. MD2 ! unat x)
        in AV_RL32 [y0 XOR M2 y1 XOR M1 y2 XOR M1 y3,
                    M1 y0 XOR M2 y1 XOR M2 y2 XOR y3,
                    M2 y0 XOR M1 y1 XOR y2 XOR M2 y3,
                    M2 y0 XOR y1 XOR M2 y2 XOR M1 y3])"

definition MDS_mul :: "AVTWOFISH \<Rightarrow> u32 \<Rightarrow> u32" where
  "MDS_mul cs X =
     MDS1 cs ! unat (X AND 0xff) XOR MDS2 cs ! unat (drop_bit 8 X AND 0xff) XOR
     MDS3 cs ! unat (drop_bit 16 X AND 0xff) XOR MDS4 cs ! unat (drop_bit 24 X)"

text \<open>One entry of each table: the bytes \<open>i\<close> through the boxes, each then times a column of the matrix.\<close>

definition MDS1_entry :: "bytes4 \<Rightarrow> u32" where
  "MDS1_entry = (\<lambda>(y0, y1, y2, y3). ucast y0 XOR push_bit 8 (ucast (MD1 ! unat y0)) XOR push_bit 16 (ucast (MD2 ! unat y0)) XOR
     push_bit 24 (ucast (MD2 ! unat y0)))"

definition MDS2_entry :: "bytes4 \<Rightarrow> u32" where
  "MDS2_entry = (\<lambda>(y0, y1, y2, y3). ucast (MD2 ! unat y1) XOR push_bit 8 (ucast (MD2 ! unat y1)) XOR
     push_bit 16 (ucast (MD1 ! unat y1)) XOR push_bit 24 (ucast y1))"

definition MDS3_entry :: "bytes4 \<Rightarrow> u32" where
  "MDS3_entry = (\<lambda>(y0, y1, y2, y3). ucast (MD1 ! unat y2) XOR push_bit 8 (ucast (MD2 ! unat y2)) XOR push_bit 16 (ucast y2) XOR
     push_bit 24 (ucast (MD2 ! unat y2)))"

definition MDS4_entry :: "bytes4 \<Rightarrow> u32" where
  "MDS4_entry = (\<lambda>(y0, y1, y2, y3). ucast (MD1 ! unat y3) XOR push_bit 8 (ucast y3) XOR push_bit 16 (ucast (MD2 ! unat y3)) XOR
     push_bit 24 (ucast (MD1 ! unat y3)))"

definition precomputeMDS :: "AVTWOFISH \<Rightarrow> AVTWOFISH" where
  "precomputeMDS cs =
     (let ys = map (\<lambda>i. let b = of_nat i in tf_h0 (b, b, b, b) (tf_S cs) (tf_ksize cs)) [0..<256]
      in cs\<lparr>MDS1 := map MDS1_entry ys, MDS2 := map MDS2_entry ys, MDS3 := map MDS3_entry ys, MDS4 := map MDS4_entry ys\<rparr>)"

text \<open>The round keys: the loop that fills \<open>K\<close>.\<close>

definition tf_fill_K :: "u32 list \<Rightarrow> u32 list \<Rightarrow> nat \<Rightarrow> u32 list \<Rightarrow> u32 list" where
  "tf_fill_K Me Mo k K =
     fold (\<lambda>i K. let rho = 0x01010101;
                     A = tf_h (of_nat (2 * i) * rho) Me k;
                     B = tf_h (of_nat (2 * i + 1) * rho) Mo k;
                     B = tf_LR B 8
                 in K[2 * i := A + B, 2 * i + 1 := tf_LR (A + 2 * B) 9]) [0..<20] K"

definition av_twofish_init :: "AVTWOFISH \<Rightarrow> u8 list \<Rightarrow> int \<Rightarrow> int \<times> AVTWOFISH" where
  "av_twofish_init cs key key_bits =
     (if key_bits < 0 then (AVERROR EINVAL, cs)
      else
        let ksize = (if key_bits \<le> 128 then 2 else if key_bits \<le> 192 then 3 else 4);
            n = (if key_bits \<le> 256 then nat (key_bits div 8) else 32);
            keypad = take n key @ replicate (32 - n) 0;
            Key = map (\<lambda>i. AV_RL32 (drop (4 * i) keypad)) [0..<2 * ksize];
            Me = map (\<lambda>i. Key ! (2 * i)) [0..<ksize];
            Mo = map (\<lambda>i. Key ! (2 * i + 1)) [0..<ksize];
            S = fold (\<lambda>i S. S[ksize - i - 1 := tf_RS (Me ! i) (Mo ! i)]) [0..<ksize] (tf_S cs);
            cs = precomputeMDS (cs\<lparr>tf_ksize := ksize, tf_S := S\<rparr>);
            cs = cs\<lparr>tf_K := tf_fill_K Me Mo ksize (tf_K cs)\<rparr>
        in (if int ksize * 64 \<noteq> key_bits then 1 else 0, cs))"

section \<open>Rounds\<close>

text \<open>The bodies of the two loops, each two rounds.\<close>

definition twofish_encrypt_step :: "AVTWOFISH \<Rightarrow> nat \<Rightarrow> words4 \<Rightarrow> words4" where
  "twofish_encrypt_step cs i = (\<lambda>(P0, P1, P2, P3).
     let t0 = MDS_mul cs P0;
         t1 = MDS_mul cs (tf_LR P1 8);
         P2 = tf_RR (P2 XOR (t0 + t1 + tf_K cs ! (2 * i + 8))) 1;
         P3 = tf_LR P3 1 XOR (t0 + 2 * t1 + tf_K cs ! (2 * i + 9));
         t0 = MDS_mul cs P2;
         t1 = MDS_mul cs (tf_LR P3 8);
         P0 = tf_RR (P0 XOR (t0 + t1 + tf_K cs ! (2 * i + 10))) 1;
         P1 = tf_LR P1 1 XOR (t0 + 2 * t1 + tf_K cs ! (2 * i + 11))
     in (P0, P1, P2, P3))"

definition twofish_decrypt_step :: "AVTWOFISH \<Rightarrow> nat \<Rightarrow> words4 \<Rightarrow> words4" where
  "twofish_decrypt_step cs i = (\<lambda>(P0, P1, P2, P3).
     let t0 = MDS_mul cs P2;
         t1 = MDS_mul cs (tf_LR P3 8);
         P0 = tf_LR P0 1 XOR (t0 + t1 + tf_K cs ! (2 * i + 8));
         P1 = tf_RR (P1 XOR (t0 + 2 * t1 + tf_K cs ! (2 * i + 9))) 1;
         t0 = MDS_mul cs P0;
         t1 = MDS_mul cs (tf_LR P1 8);
         P2 = tf_LR P2 1 XOR (t0 + t1 + tf_K cs ! (2 * i + 6));
         P3 = tf_RR (P3 XOR (t0 + 2 * t1 + tf_K cs ! (2 * i + 7))) 1
     in (P0, P1, P2, P3))"

definition twofish_encrypt :: "AVTWOFISH \<Rightarrow> u8 list \<Rightarrow> u8 list" where
  "twofish_encrypt cs src =
     (let P0 = AV_RL32 src XOR tf_K cs ! 0;
          P1 = AV_RL32 (drop 4 src) XOR tf_K cs ! 1;
          P2 = AV_RL32 (drop 8 src) XOR tf_K cs ! 2;
          P3 = AV_RL32 (drop 12 src) XOR tf_K cs ! 3;
          (P0, P1, P2, P3) = fold (twofish_encrypt_step cs) [0, 2, 4, 6, 8, 10, 12, 14] (P0, P1, P2, P3);
          P2 = P2 XOR tf_K cs ! 4;
          P3 = P3 XOR tf_K cs ! 5;
          P0 = P0 XOR tf_K cs ! 6;
          P1 = P1 XOR tf_K cs ! 7
      in AV_WL32 P2 @ AV_WL32 P3 @ AV_WL32 P0 @ AV_WL32 P1)"

definition twofish_decrypt :: "AVTWOFISH \<Rightarrow> u8 list \<Rightarrow> u8 list option \<Rightarrow> u8 list \<times> u8 list option" where
  "twofish_decrypt cs src iv =
     (let P2 = AV_RL32 src XOR tf_K cs ! 4;
          P3 = AV_RL32 (drop 4 src) XOR tf_K cs ! 5;
          P0 = AV_RL32 (drop 8 src) XOR tf_K cs ! 6;
          P1 = AV_RL32 (drop 12 src) XOR tf_K cs ! 7;
          (P0, P1, P2, P3) = fold (twofish_decrypt_step cs) [15, 13, 11, 9, 7, 5, 3, 1] (P0, P1, P2, P3);
          P0 = P0 XOR tf_K cs ! 0;
          P1 = P1 XOR tf_K cs ! 1;
          P2 = P2 XOR tf_K cs ! 2;
          P3 = P3 XOR tf_K cs ! 3;
          (P0, P1, P2, P3, iv) = (case iv of
             Some v \<Rightarrow> (P0 XOR AV_RL32 v, P1 XOR AV_RL32 (drop 4 v), P2 XOR AV_RL32 (drop 8 v), P3 XOR AV_RL32 (drop 12 v), Some (take 16 src))
           | None \<Rightarrow> (P0, P1, P2, P3, iv))
      in (AV_WL32 P0 @ AV_WL32 P1 @ AV_WL32 P2 @ AV_WL32 P3, iv))"

text \<open>The body of the loop of \<^verbatim>\<open>av_twofish_crypt\<close>; the loop is \<open>crypt_blocks\<close>.\<close>

definition twofish_block :: "AVTWOFISH \<Rightarrow> block_fun" where
  "twofish_block cs src decrypt iv = (if decrypt then twofish_decrypt cs src iv else (twofish_encrypt cs src, iv))"

definition av_twofish_crypt :: "AVTWOFISH \<Rightarrow> u8 list \<Rightarrow> nat \<Rightarrow> u8 list option \<Rightarrow> bool \<Rightarrow> u8 list \<times> u8 list option" where
  "av_twofish_crypt cs src count iv decrypt = crypt_blocks 16 (twofish_block cs) count src iv decrypt"

section \<open>Decryption undoes encryption\<close>

lemma tf_rotate:
  assumes "0 < r" "r < 32"
  shows "tf_LR (tf_RR x r) r = x" "tf_RR (tf_LR x r) r = x"
proof -
  have c: thesis if "n < LENGTH(32)" "n < r \<Longrightarrow> n + r < 32 \<Longrightarrow> thesis" "n < r \<Longrightarrow> 32 \<le> n + r \<Longrightarrow> thesis"
      "r \<le> n \<Longrightarrow> n + r < 32 \<Longrightarrow> thesis" "r \<le> n \<Longrightarrow> 32 \<le> n + r \<Longrightarrow> n < 32 \<Longrightarrow> thesis"
    for n thesis using that by (simp only: len_num1 len_bit0) linarith
  show "tf_LR (tf_RR x r) r = x"
    by (rule bit_word_eqI, erule c) (use assms in \<open>auto simp: tf_LR_def tf_RR_def bytes_bits dest: bit_imp_le_length\<close>)
  show "tf_RR (tf_LR x r) r = x"
    by (rule bit_word_eqI, erule c) (use assms in \<open>auto simp: tf_LR_def tf_RR_def bytes_bits dest: bit_imp_le_length\<close>)
qed

lemma tf_rotate_inverse: "tf_LR (tf_RR x 1) 1 = x" "tf_RR (tf_LR x 1) 1 = x"
  using tf_rotate [of 1] by simp_all

lemma twofish_steps_inverse:
  "twofish_decrypt_step cs (Suc i) (twofish_encrypt_step cs i s) = s" "twofish_encrypt_step cs i (twofish_decrypt_step cs (Suc i) s) = s"
proof -
  have k: "2 * Suc i + 8 = 2 * i + 10" "2 * Suc i + 9 = 2 * i + 11" "2 * Suc i + 6 = 2 * i + 8" "2 * Suc i + 7 = 2 * i + 9" by simp_all
  obtain a b c d where s: "s = (a, b, c, d)" by (cases s)
  show "twofish_decrypt_step cs (Suc i) (twofish_encrypt_step cs i s) = s"
    unfolding s twofish_encrypt_step_def twofish_decrypt_step_def Let_def prod.case k
    by (simp only: tf_rotate_inverse xor_cancel)
  show "twofish_encrypt_step cs i (twofish_decrypt_step cs (Suc i) s) = s"
    unfolding s twofish_encrypt_step_def twofish_decrypt_step_def Let_def prod.case k
    by (simp only: tf_rotate_inverse xor_cancel)
qed

lemma twofish_rounds_inverse:
  "fold (twofish_decrypt_step cs) [15, 13, 11, 9, 7, 5, 3, 1] (fold (twofish_encrypt_step cs) [0, 2, 4, 6, 8, 10, 12, 14] s) = s"
  "fold (twofish_encrypt_step cs) [0, 2, 4, 6, 8, 10, 12, 14] (fold (twofish_decrypt_step cs) [15, 13, 11, 9, 7, 5, 3, 1] s) = s"
proof -
  have r: "[15, 13, 11, 9, 7, 5, 3, 1] = rev (map Suc [0, 2, 4, 6, 8, 10, 12, 14])" by simp
  show "fold (twofish_decrypt_step cs) [15, 13, 11, 9, 7, 5, 3, 1] (fold (twofish_encrypt_step cs) [0, 2, 4, 6, 8, 10, 12, 14] s) = s"
    unfolding r using fold_inverse [where w = id and g = "twofish_decrypt_step cs" and f = "twofish_encrypt_step cs" and h = Suc] twofish_steps_inverse(1)
    by (simp only: id_apply)
  show "fold (twofish_encrypt_step cs) [0, 2, 4, 6, 8, 10, 12, 14] (fold (twofish_decrypt_step cs) [15, 13, 11, 9, 7, 5, 3, 1] s) = s"
    unfolding r using fold_inverse2 [where w = id and g = "twofish_decrypt_step cs" and f = "twofish_encrypt_step cs" and h = Suc] twofish_steps_inverse(2)
    by (simp only: id_apply)
qed

text \<open>The two directions as functions of the four words of the block.\<close>

definition twofish_enc_words :: "AVTWOFISH \<Rightarrow> words4 \<Rightarrow> words4" where
  "twofish_enc_words cs = (\<lambda>(a, b, c, d).
     case fold (twofish_encrypt_step cs) [0, 2, 4, 6, 8, 10, 12, 14] (a XOR tf_K cs ! 0, b XOR tf_K cs ! 1, c XOR tf_K cs ! 2, d XOR tf_K cs ! 3) of
       (P0, P1, P2, P3) \<Rightarrow> (P2 XOR tf_K cs ! 4, P3 XOR tf_K cs ! 5, P0 XOR tf_K cs ! 6, P1 XOR tf_K cs ! 7))"

definition twofish_dec_words :: "AVTWOFISH \<Rightarrow> words4 \<Rightarrow> words4" where
  "twofish_dec_words cs = (\<lambda>(a, b, c, d).
     case fold (twofish_decrypt_step cs) [15, 13, 11, 9, 7, 5, 3, 1] (c XOR tf_K cs ! 6, d XOR tf_K cs ! 7, a XOR tf_K cs ! 4, b XOR tf_K cs ! 5) of
       (P0, P1, P2, P3) \<Rightarrow> (P0 XOR tf_K cs ! 0, P1 XOR tf_K cs ! 1, P2 XOR tf_K cs ! 2, P3 XOR tf_K cs ! 3))"

lemma twofish_words_inverse:
  "twofish_dec_words cs (twofish_enc_words cs s) = s" "twofish_enc_words cs (twofish_dec_words cs s) = s"
proof -
  define E where "E = fold (twofish_encrypt_step cs) [0, 2, 4, 6, 8, 10, 12, 14]"
  define D where "D = fold (twofish_decrypt_step cs) [15, 13, 11, 9, 7, 5, 3, 1]"
  have inv: "D (E s) = s" "E (D s) = s" for s
    unfolding E_def D_def by (rule twofish_rounds_inverse)+
  have w: "twofish_enc_words cs (a, b, c, d) = (case E (a XOR tf_K cs ! 0, b XOR tf_K cs ! 1, c XOR tf_K cs ! 2, d XOR tf_K cs ! 3) of
         (P0, P1, P2, P3) \<Rightarrow> (P2 XOR tf_K cs ! 4, P3 XOR tf_K cs ! 5, P0 XOR tf_K cs ! 6, P1 XOR tf_K cs ! 7))"
    "twofish_dec_words cs (a, b, c, d) = (case D (c XOR tf_K cs ! 6, d XOR tf_K cs ! 7, a XOR tf_K cs ! 4, b XOR tf_K cs ! 5) of
         (P0, P1, P2, P3) \<Rightarrow> (P0 XOR tf_K cs ! 0, P1 XOR tf_K cs ! 1, P2 XOR tf_K cs ! 2, P3 XOR tf_K cs ! 3))" for a b c d
    unfolding twofish_enc_words_def twofish_dec_words_def E_def D_def prod.case by (rule refl)+
  obtain a b c d where s: "s = (a, b, c, d)" by (cases s)
  show "twofish_dec_words cs (twofish_enc_words cs s) = s"
    using inv(1) [of "(a XOR tf_K cs ! 0, b XOR tf_K cs ! 1, c XOR tf_K cs ! 2, d XOR tf_K cs ! 3)"] by (simp add: s w split_beta)
  show "twofish_enc_words cs (twofish_dec_words cs s) = s"
    using inv(2) [of "(c XOR tf_K cs ! 6, d XOR tf_K cs ! 7, a XOR tf_K cs ! 4, b XOR tf_K cs ! 5)"] by (simp add: s w split_beta)
qed

lemma twofish_block_words:
  "twofish_block cs = state_block 16 read_le32s write_le32s xor_le32s (twofish_enc_words cs) (twofish_dec_words cs)"
proof (intro ext)
  fix src decrypt iv
  show "twofish_block cs src decrypt iv =
      state_block 16 read_le32s write_le32s xor_le32s (twofish_enc_words cs) (twofish_dec_words cs) src decrypt iv"
    by (cases decrypt; cases iv)
      (simp_all del: fold_simps add: twofish_block_def twofish_encrypt_def twofish_decrypt_def state_block_def twofish_enc_words_def
        twofish_dec_words_def read_le32s_def write_le32s_def xor_le32s_def Let_def split_beta)
qed

interpretation twofish: block_cipher 16 "twofish_block cs" for cs
  unfolding twofish_block_words by (rule le32s.state_block_cipher) (rule twofish_words_inverse)+

text \<open>
  A negative key length is refused and leaves the context untouched. The code returns \<^verbatim>\<open>AVERROR(EINVAL)\<close>, where
  \<^verbatim>\<open>twofish.h\<close> documents -1.
\<close>

lemma av_twofish_init_negative: "key_bits < 0 \<Longrightarrow> av_twofish_init cs key key_bits = (AVERROR EINVAL, cs)"
  by (simp add: av_twofish_init_def)

lemma av_twofish_init_length:
  assumes "av_twofish_init cs key key_bits = (ret, cs')" "0 \<le> key_bits"
  shows "ret = (if key_bits \<in> {128, 192, 256} then 0 else 1)"
proof -
  have "ret = (if int (if key_bits \<le> 128 then 2 else if key_bits \<le> 192 then 3 else 4) * 64 \<noteq> key_bits then 1 else 0)"
    using assms unfolding av_twofish_init_def Let_def by (simp only: if_False not_less [symmetric] prod.inject)
  then show ?thesis by auto
qed

text \<open>
  C23: \<^verbatim>\<open>av_twofish_init\<close> answers 0 for 128, 192 and 256 bits and 1 for every other length that is not negative, whose key it
  pads or cuts. With the context it leaves, decrypting gives back what was encrypted, in either mode and for any
  number of blocks.
\<close>

theorem av_twofish_round_trip:
  assumes "av_twofish_init cs key key_bits = (ret, cs')" "0 \<le> key_bits" "length src = 16 * count" "iv_ok 16 iv"
  shows "ret = (if key_bits \<in> {128, 192, 256} then 0 else 1) \<and>
    av_twofish_crypt cs' (fst (av_twofish_crypt cs' src count iv False)) count iv True = (src, snd (av_twofish_crypt cs' src count iv False))"
  using av_twofish_init_length [OF assms(1,2)] twofish.round_trip [OF assms(4,3)] unfolding av_twofish_crypt_def by blast

definition demo_twofish :: "int \<times> AVTWOFISH" where
  "demo_twofish = av_twofish_init av_twofish_alloc [0, 1, 2, 3, 4, 5, 6, 7, 8, 9, 10, 11, 12, 13, 14, 15] 128"

theorem av_twofish_round_trip_witness:
  "fst demo_twofish = 0 \<and>
   av_twofish_crypt (snd demo_twofish)
     (fst (av_twofish_crypt (snd demo_twofish) [0, 1, 2, 3, 4, 5, 6, 7, 8, 9, 10, 11, 12, 13, 14, 15] 1 None False)) 1 None True =
   ([0, 1, 2, 3, 4, 5, 6, 7, 8, 9, 10, 11, 12, 13, 14, 15],
     snd (av_twofish_crypt (snd demo_twofish) [0, 1, 2, 3, 4, 5, 6, 7, 8, 9, 10, 11, 12, 13, 14, 15] 1 None False))"
proof -
  have "av_twofish_init av_twofish_alloc [0, 1, 2, 3, 4, 5, 6, 7, 8, 9, 10, 11, 12, 13, 14, 15] 128 =
      (fst demo_twofish, snd demo_twofish)" by (simp add: demo_twofish_def)
  from av_twofish_round_trip [OF this _, of "[0, 1, 2, 3, 4, 5, 6, 7, 8, 9, 10, 11, 12, 13, 14, 15]" 1 None] show ?thesis by simp
qed

section \<open>The precomputed tables\<close>

text \<open>Every byte goes through the boxes on its own.\<close>

lemma tf_h0_bytewise:
  "fst (tf_h0 (a, b, c, d) L k) = fst (tf_h0 (a, a, a, a) L k)"
  "fst (snd (tf_h0 (a, b, c, d) L k)) = fst (snd (tf_h0 (b, b, b, b) L k))"
  "fst (snd (snd (tf_h0 (a, b, c, d) L k))) = fst (snd (snd (tf_h0 (c, c, c, c) L k)))"
  "snd (snd (snd (tf_h0 (a, b, c, d) L k))) = snd (snd (snd (tf_h0 (d, d, d, d) L k)))"
  by (cases "k = 4"; cases "k = 3"; simp add: tf_h0_def Let_def)+

lemma AV_RL32_xor:
  "AV_RL32 [a XOR e, b XOR f, c XOR g, d XOR h] = AV_RL32 [a, b, c, d] XOR AV_RL32 [e, f, g, h]"
  "AV_RL32 [a, b, c, d] = ucast a XOR push_bit 8 (ucast b) XOR push_bit 16 (ucast c) XOR push_bit 24 (ucast d)"
proof -
  show "AV_RL32 [a XOR e, b XOR f, c XOR g, d XOR h] = AV_RL32 [a, b, c, d] XOR AV_RL32 [e, f, g, h]"
  proof (rule bit_word_eqI)
    fix n assume n: "n < LENGTH(32)"
    then have "n < 64" by simp
    then show "bit (AV_RL32 [a XOR e, b XOR f, c XOR g, d XOR h]) n = bit (AV_RL32 [a, b, c, d] XOR AV_RL32 [e, f, g, h]) n"
      using n by (cases rule: byte_cases) (simp_all add: AV_RL32_def bytes_bits bit_xor_iff)
  qed
  show "AV_RL32 [a, b, c, d] = ucast a XOR push_bit 8 (ucast b) XOR push_bit 16 (ucast c) XOR push_bit 24 (ucast d)"
  proof (rule bit_word_eqI)
    fix n assume n: "n < LENGTH(32)"
    then have "n < 64" by simp
    then show "bit (AV_RL32 [a, b, c, d]) n =
        bit (ucast a XOR push_bit 8 (ucast b) XOR push_bit 16 (ucast c) XOR push_bit 24 (ucast d) :: u32) n"
      using n by (cases rule: byte_cases) (simp_all add: AV_RL32_def bytes_bits bit_xor_iff)
  qed
qed

lemma tf_bytes_eq: "tf_bytes X = (ucast X, ucast (drop_bit 8 X), ucast (drop_bit 16 X), ucast (drop_bit 24 X))"
  by (simp add: tf_bytes_def AV_WL32_def)

lemma unat_less_8: "unat b < 256" for b :: u8
  using unsigned_less [of b] by simp

lemma unat_byte: "unat (X AND 0xff) = unat (ucast X :: u8)" "unat (drop_bit 24 X) = unat (ucast (drop_bit 24 X) :: u8)" for X :: u32
proof -
  have "X AND 0xff = take_bit 8 X" by (simp add: take_bit_eq_mask mask_eq_exp_minus_1)
  then show "unat (X AND 0xff) = unat (ucast X :: u8)" by (simp add: unsigned_take_bit_eq unsigned_ucast_eq)
  have "unat (drop_bit 24 X) < 256" using unat_less_32 [of X] by (simp add: unat_drop_bit_div less_mult_imp_div_less)
  then show "unat (drop_bit 24 X) = unat (ucast (drop_bit 24 X) :: u8)" by (simp add: unsigned_ucast_eq take_bit_nat_eq_self)
qed

text \<open>
  Also: multiplying by the tables that \<^verbatim>\<open>precomputeMDS\<close> fills is the key-dependent function \<^verbatim>\<open>tf_h\<close> itself, boxes and
  matrix, for the words of the key in use: the rounds compute what the key schedule computes directly.
\<close>

theorem MDS_mul_precomputed:
  "MDS_mul (precomputeMDS cs) X = tf_h X (tf_S cs) (tf_ksize cs)"
proof -
  define h where "h b = tf_h0 (b, b, b, b) (tf_S cs) (tf_ksize cs)" for b
  obtain y0 y1 y2 y3 where y: "tf_h0 (tf_bytes X) (tf_S cs) (tf_ksize cs) = (y0, y1, y2, y3)" by (metis prod.exhaust)
  have c: "y0 = fst (h (ucast X))" "y1 = fst (snd (h (ucast (drop_bit 8 X))))" "y2 = fst (snd (snd (h (ucast (drop_bit 16 X)))))"
    "y3 = snd (snd (snd (h (ucast (drop_bit 24 X)))))"
    using y tf_h0_bytewise [of "ucast X" "ucast (drop_bit 8 X)" "ucast (drop_bit 16 X)" "ucast (drop_bit 24 X)" "tf_S cs" "tf_ksize cs"]
    by (simp_all add: tf_bytes_eq h_def)
  have e: "map e (map (\<lambda>i. let b = of_nat i in tf_h0 (b, b, b, b) (tf_S cs) (tf_ksize cs)) [0..<256]) ! unat b = e (h b)"
    for e :: "bytes4 \<Rightarrow> u32" and b :: u8
    using unat_less_8 [of b] by (simp add: h_def Let_def del: upt_Suc)
  have "MDS_mul (precomputeMDS cs) X = MDS1_entry (h (ucast X)) XOR MDS2_entry (h (ucast (drop_bit 8 X))) XOR
      MDS3_entry (h (ucast (drop_bit 16 X))) XOR MDS4_entry (h (ucast (drop_bit 24 X)))"
    unfolding MDS_mul_def precomputeMDS_def Let_def [of "map _ _"] unat_byte
    by (simp add: e del: upt_Suc map_map)
  also have "\<dots> = tf_h X (tf_S cs) (tf_ksize cs)"
    by (simp add: tf_h_def y MDS1_entry_def MDS2_entry_def MDS3_entry_def MDS4_entry_def split_beta flip: c AV_RL32_xor)
  finally show ?thesis .
qed

end
