(* ===== verification/AV_Rc4.thy ===== *)
theory AV_Rc4
  imports AV_BlockCipher
begin

text \<open>
  \<^verbatim>\<open>libavutil/rc4.c\<close>: the RC4 stream cipher. A read of the key beyond its buffer is the result \<open>None\<close>.
\<close>

unbundle bit_operations_syntax

section \<open>State and operations\<close>

record AVRC4 =
  rc4_state :: "u8 list"
  rc4_x :: int
  rc4_y :: int

definition av_rc4_alloc :: AVRC4 where
  "av_rc4_alloc = \<lparr>rc4_state = replicate 256 0, rc4_x = 0, rc4_y = 0\<rparr>"

text \<open>\<^verbatim>\<open>FFSWAP(uint8_t, state[i], state[j])\<close>\<close>

definition rc4_swap :: "u8 list \<Rightarrow> nat \<Rightarrow> nat \<Rightarrow> u8 list" where
  "rc4_swap st i j = st[i := st ! j, j := st ! i]"

text \<open>The second loop of \<^verbatim>\<open>av_rc4_init\<close>, over the indices \<open>i\<close> left.\<close>

fun rc4_init_loop :: "u8 list \<Rightarrow> int \<Rightarrow> nat list \<Rightarrow> nat \<Rightarrow> u8 \<Rightarrow> u8 list \<Rightarrow> u8 list option" where
  "rc4_init_loop key keylen [] j y st = Some st"
| "rc4_init_loop key keylen (i # is) j y st =
     (let j = (if int j = keylen then 0 else j)
      in if j \<ge> length key then None
         else
           let y = y + (st ! i + key ! j);
               st = rc4_swap st i (unat y)
           in rc4_init_loop key keylen is (j + 1) y st)"

definition av_rc4_init :: "AVRC4 \<Rightarrow> u8 list \<Rightarrow> int \<Rightarrow> (int \<times> AVRC4) option" where
  "av_rc4_init r key key_bits =
     (let keylen = key_bits div 8
      in if key_bits mod 8 \<noteq> 0 then Some (AVERROR EINVAL, r)
         else case rc4_init_loop key keylen [0..<256] 0 0 (map of_nat [0..<256]) of
                None \<Rightarrow> None
              | Some st \<Rightarrow> Some (0, \<lparr>rc4_state = st, rc4_x = 1, rc4_y = uint (st ! 1)\<rparr>))"

text \<open>The loop of \<^verbatim>\<open>av_rc4_crypt\<close>; without a source the bytes of the key stream are the output.\<close>

fun rc4_loop :: "nat \<Rightarrow> u8 list option \<Rightarrow> u8 list \<times> u8 \<times> u8 \<Rightarrow> u8 list \<times> u8 list \<times> u8 \<times> u8" where
  "rc4_loop 0 src s = ([], s)"
| "rc4_loop (Suc n) src (st, x, y) =
     (let sm = st ! unat x + st ! unat y;
          st = rc4_swap st (unat x) (unat y);
          d = (case src of Some b \<Rightarrow> hd b XOR st ! unat sm | None \<Rightarrow> st ! unat sm);
          x = x + 1;
          y = y + st ! unat x;
          (dst, s) = rc4_loop n (map_option tl src) (st, x, y)
      in (d # dst, s))"

definition av_rc4_crypt :: "AVRC4 \<Rightarrow> u8 list option \<Rightarrow> int \<Rightarrow> u8 list \<times> AVRC4" where
  "av_rc4_crypt r src count =
     (let (dst, st, x, y) = rc4_loop (nat count) src (rc4_state r, word_of_int (rc4_x r), word_of_int (rc4_y r))
      in (dst, \<lparr>rc4_state = st, rc4_x = uint x, rc4_y = uint y\<rparr>))"

section \<open>The key stream\<close>

lemma rc4_loop_xor:
  "n \<le> length b \<Longrightarrow>
   rc4_loop n (Some b) s = (xor_bytes (take n b) (fst (rc4_loop n None s)), snd (rc4_loop n None s))"
proof (induction n arbitrary: b s)
  case (Suc n)
  obtain st x y where s: "s = (st, x, y)" by (cases s)
  obtain c bs where b: "b = c # bs" using Suc.prems by (cases b) auto
  show ?case using Suc.IH [of bs] Suc.prems by (simp add: s b Let_def split_beta)
qed simp

lemma length_rc4_loop [simp]: "length (fst (rc4_loop n src s)) = n"
  by (induction n src s rule: rc4_loop.induct) (simp_all add: Let_def split_beta)

lemma rc4_loop_append:
  "rc4_loop (m + n) src s =
   (fst (rc4_loop m src s) @ fst (rc4_loop n (map_option (drop m) src) (snd (rc4_loop m src s))),
    snd (rc4_loop n (map_option (drop m) src) (snd (rc4_loop m src s))))"
proof (induction m arbitrary: src s)
  case (Suc m)
  obtain st x y where s: "s = (st, x, y)" by (cases s)
  have d: "map_option (drop m) (map_option tl src) = map_option (drop (Suc m)) src"
    by (cases src) (simp_all add: drop_Suc)
  show ?case by (simp add: s Suc.IH d Let_def split_beta)
qed (simp add: option.map_ident)

section \<open>The state is a permutation\<close>

definition rc4_inv :: "AVRC4 \<Rightarrow> bool" where
  "rc4_inv r \<longleftrightarrow> length (rc4_state r) = 256 \<and> distinct (rc4_state r) \<and>
     0 \<le> rc4_x r \<and> rc4_x r < 256 \<and> 0 \<le> rc4_y r \<and> rc4_y r < 256"

lemma byte_less: "unat b < 256" "uint b < 256" for b :: u8
  using unsigned_less [of b] uint_lt2p [of b] by simp_all

lemma rc4_swap_perm: "i < length st \<Longrightarrow> j < length st \<Longrightarrow>
    length (rc4_swap st i j) = length st \<and> distinct (rc4_swap st i j) = distinct st"
  by (simp add: rc4_swap_def)

lemma rc4_init_loop_perm:
  "rc4_init_loop key keylen is j y st = Some st' \<Longrightarrow> \<forall>i \<in> set is. i < 256 \<Longrightarrow> length st = 256 \<Longrightarrow>
   length st' = 256 \<and> distinct st' = distinct st"
  by (induction key keylen "is" j y st rule: rc4_init_loop.induct)
    (simp_all add: Let_def rc4_swap_perm byte_less split: if_split_asm)

lemma rc4_loop_perm:
  "length st = 256 \<Longrightarrow> rc4_loop n src (st, x, y) = (dst, st', x', y') \<Longrightarrow> length st' = 256 \<and> distinct st' = distinct st"
proof (induction n arbitrary: src st x y dst)
  case (Suc n)
  let ?st = "rc4_swap st (unat x) (unat y)"
  have p: "length ?st = 256 \<and> distinct ?st = distinct st"
    using rc4_swap_perm [of "unat x" st "unat y"] Suc.prems(1) by (simp add: byte_less)
  show ?case
    using Suc.IH [of ?st "map_option tl src" "x + 1" "y + ?st ! unat (x + 1)"] p Suc.prems(2)
    by (auto simp: Let_def split_beta prod_eq_iff)
qed simp

lemma distinct_bytes: "distinct (map of_nat [0..<256] :: u8 list)"
  by (auto simp: distinct_map inj_on_def word_of_nat_eq_iff take_bit_nat_eq_self)

text \<open>
  C24: encrypting is exclusive-or with a key stream that depends on the context alone (the output without a source), so
  that doing it twice from the same context gives the message back and both leave the same context; a message may be
  processed in pieces; and the state stays a permutation of the 256 bytes.
\<close>

theorem av_rc4_crypt_stream:
  assumes "length a = m" "length b = n" "rc4_inv r"
  shows "av_rc4_crypt r (Some a) (int m) = (xor_bytes a (fst (av_rc4_crypt r None (int m))), snd (av_rc4_crypt r None (int m))) \<and>
    av_rc4_crypt r (Some (fst (av_rc4_crypt r (Some a) (int m)))) (int m) = (a, snd (av_rc4_crypt r (Some a) (int m))) \<and>
    av_rc4_crypt r (Some (a @ b)) (int (m + n)) =
      (fst (av_rc4_crypt r (Some a) (int m)) @ fst (av_rc4_crypt (snd (av_rc4_crypt r (Some a) (int m))) (Some b) (int n)),
       snd (av_rc4_crypt (snd (av_rc4_crypt r (Some a) (int m))) (Some b) (int n))) \<and>
    rc4_inv (snd (av_rc4_crypt r (Some a) (int m)))"
proof -
  define s where "s = (rc4_state r, word_of_int (rc4_x r) :: u8, word_of_int (rc4_y r) :: u8)"
  define ks where "ks = fst (rc4_loop m None s)"
  have ks: "length ks = m" by (simp add: ks_def)
  have c: "av_rc4_crypt r src (int k) = (case rc4_loop k src s of (d, st, x, y) \<Rightarrow> (d, \<lparr>rc4_state = st, rc4_x = uint x, rc4_y = uint y\<rparr>))" for src k
    by (simp add: av_rc4_crypt_def s_def Let_def)
  have l: "rc4_loop m (Some v) s = (xor_bytes v ks, snd (rc4_loop m None s))" if "length v = m" for v
    using rc4_loop_xor [of m v s] that by (simp add: ks_def)
  obtain st x y where t: "snd (rc4_loop m (Some a) s) = (st, x, y)" by (metis prod.exhaust)
  have "length st = 256 \<and> distinct st = distinct (rc4_state r)"
    using rc4_loop_perm [of "rc4_state r" m "Some a" _ _ "fst (rc4_loop m (Some a) s)" st x y] t assms(3)
    unfolding s_def [symmetric] by (simp add: s_def rc4_inv_def prod_eq_iff)
  then have "rc4_inv (snd (av_rc4_crypt r (Some a) (int m)))"
    using assms(3) t by (simp add: c split_beta rc4_inv_def byte_less)
  moreover have "av_rc4_crypt r (Some (a @ b)) (int (m + n)) =
      (fst (av_rc4_crypt r (Some a) (int m)) @ fst (av_rc4_crypt (snd (av_rc4_crypt r (Some a) (int m))) (Some b) (int n)),
       snd (av_rc4_crypt (snd (av_rc4_crypt r (Some a) (int m))) (Some b) (int n)))"
  proof -
    have "rc4_loop m (Some (a @ b)) s = rc4_loop m (Some a) s"
      using rc4_loop_xor [of m "a @ b" s] rc4_loop_xor [of m a s] assms(1) by simp
    then have "rc4_loop (m + n) (Some (a @ b)) s = (fst (rc4_loop m (Some a) s) @ fst (rc4_loop n (Some b) (st, x, y)), snd (rc4_loop n (Some b) (st, x, y)))"
      using rc4_loop_append [of m n "Some (a @ b)" s] t assms(1) by simp
    moreover have "av_rc4_crypt \<lparr>rc4_state = st, rc4_x = uint x, rc4_y = uint y\<rparr> src (int k) =
        (case rc4_loop k src (st, x, y) of (d, st, x, y) \<Rightarrow> (d, \<lparr>rc4_state = st, rc4_x = uint x, rc4_y = uint y\<rparr>))" for src k
      by (simp add: av_rc4_crypt_def Let_def)
    ultimately show ?thesis unfolding c by (simp add: t split_beta)
  qed
  ultimately show ?thesis using assms(1) ks by (simp add: c l split_beta flip: ks_def)
qed

definition demo_rc4 :: AVRC4 where
  "demo_rc4 = \<lparr>rc4_state = map of_nat [0..<256], rc4_x = 1, rc4_y = 7\<rparr>"

theorem av_rc4_crypt_stream_witness:
  "av_rc4_crypt demo_rc4 (Some (fst (av_rc4_crypt demo_rc4 (Some [1, 2, 3]) 3))) 3 = ([1, 2, 3], snd (av_rc4_crypt demo_rc4 (Some [1, 2, 3]) 3))"
proof -
  have "rc4_inv demo_rc4" by (simp add: rc4_inv_def demo_rc4_def distinct_bytes)
  moreover have "length [1, 2, 3 :: u8] = 3" "length [4 :: u8] = 1" by simp_all
  ultimately show ?thesis using av_rc4_crypt_stream [of "[1, 2, 3]" 3 "[4]" 1 demo_rc4] unfolding of_nat_numeral by blast
qed

section \<open>The reads of the key\<close>

text \<open>The index of the key that round \<open>i\<close> of the initialisation reads.\<close>

definition rc4_key_index :: "int \<Rightarrow> nat \<Rightarrow> nat" where
  "rc4_key_index keylen i = (if 0 < keylen then i mod nat keylen else i)"

lemma rc4_key_index_next:
  "(if int (rc4_key_index keylen i + 1) = keylen then 0 else rc4_key_index keylen i + 1) = rc4_key_index keylen (i + 1)"
  by (auto simp: rc4_key_index_def mod_Suc)

lemma rc4_init_loop_reads:
  "(if int j = keylen then 0 else j) = rc4_key_index keylen k \<Longrightarrow>
   (rc4_init_loop key keylen [k..<k + n] j y st = None) = (\<exists>i \<in> {k..<k + n}. length key \<le> rc4_key_index keylen i)"
proof (induction n arbitrary: j k y st)
  case (Suc n)
  have u: "[k..<k + Suc n] = k # [Suc k..<Suc k + n]" by (simp add: upt_conv_Cons del: upt_Suc)
  have i: "{k..<k + Suc n} = insert k {Suc k..<Suc k + n}" by auto
  have nx: "(if int (rc4_key_index keylen k + 1) = keylen then 0 else rc4_key_index keylen k + 1) = rc4_key_index keylen (Suc k)"
    using rc4_key_index_next [of keylen k] by simp
  show ?case
    unfolding u i rc4_init_loop.simps Suc.prems Let_def
    using Suc.IH [OF nx, of "y + (st ! k + key ! rc4_key_index keylen k)" "rc4_swap st k (unat (y + (st ! k + key ! rc4_key_index keylen k)))"]
    by (cases "length key \<le> rc4_key_index keylen k") (simp_all del: upt_Suc)
qed simp

lemma rc4_key_index_bound:
  "(\<exists>i \<in> {0..<256}. n \<le> rc4_key_index keylen i) \<longleftrightarrow> n < (if 0 < keylen then min (nat keylen) 256 else 256)"
proof -
  define k where "k = (if 0 < keylen then min (nat keylen) 256 else 256)"
  have "rc4_key_index keylen i < k" if "i < 256" for i
    using that mod_less_divisor [of "nat keylen" i] mod_less_eq_dividend [of i "nat keylen"] by (simp add: k_def rc4_key_index_def del: mod_less_divisor mod_less_eq_dividend)
  moreover have "rc4_key_index keylen (k - 1) = k - 1" "k - 1 < 256" "0 < k" by (auto simp: k_def rc4_key_index_def)
  ultimately have "(\<exists>i \<in> {0..<256}. n \<le> rc4_key_index keylen i) \<longleftrightarrow> n < k"
    by (metis One_nat_def Suc_pred atLeast0LessThan lessThan_iff less_Suc_eq_le order_le_less_trans)
  then show ?thesis unfolding k_def .
qed

text \<open>
  Also: the initialisation refuses lengths that are not whole bytes; otherwise it stays inside a key buffer that holds the
  \<^verbatim>\<open>key_bits / 8\<close> bytes (at most 256 are read) and leaves a permutation as state. A length that is not positive is
  not refused, and then 256 bytes of the key are read, whatever the buffer holds.
\<close>

theorem av_rc4_init_reads:
  "(av_rc4_init r key key_bits = None \<longleftrightarrow>
      8 dvd key_bits \<and> length key < (if 0 < key_bits then min (nat (key_bits div 8)) 256 else 256)) \<and>
   (av_rc4_init r key key_bits = Some (ret, r') \<longrightarrow>
      ret = (if 8 dvd key_bits then 0 else AVERROR EINVAL) \<and> (if ret = 0 then rc4_inv r' \<and> rc4_x r' = 1 else r' = r))"
proof -
  let ?st = "map of_nat [0..<256] :: u8 list"
  have p: "8 dvd key_bits \<Longrightarrow> 0 < key_bits \<longleftrightarrow> 0 < key_bits div 8" by (auto elim!: dvdE)
  have "(if int 0 = key_bits div 8 then 0 else 0) = rc4_key_index (key_bits div 8) 0" by (simp add: rc4_key_index_def)
  note reads = rc4_init_loop_reads [OF this, of key 256 0 ?st, unfolded add_0 rc4_key_index_bound]
  show ?thesis
  proof (cases "8 dvd key_bits")
    case False
    then show ?thesis using AVERROR_neg [of EINVAL] by (auto simp: av_rc4_init_def dvd_eq_mod_eq_0)
  next
    case True
    then have k: "(if 0 < key_bits then min (nat (key_bits div 8)) 256 else 256) = (if 0 < key_bits div 8 then min (nat (key_bits div 8)) 256 else 256)"
      using p by simp
    have m: "key_bits mod 8 = 0" using True by (simp add: dvd_eq_mod_eq_0)
    show ?thesis
    proof (cases "rc4_init_loop key (key_bits div 8) [0..<256] 0 0 ?st")
      case None
      then show ?thesis using reads k True m by (simp add: av_rc4_init_def Let_def del: upt_Suc)
    next
      case (Some st)
      have "length st = 256 \<and> distinct st"
        using rc4_init_loop_perm [OF Some] distinct_bytes by simp
      then show ?thesis using reads k True m Some
        by (auto simp: av_rc4_init_def Let_def rc4_inv_def byte_less simp del: upt_Suc)
    qed
  qed
qed

theorem av_rc4_init_reads_witness:
  "av_rc4_init demo_rc4 [1, 2, 3] 0 = None"
  using av_rc4_init_reads [of demo_rc4 "[1, 2, 3]" 0] by simp

end
