(* ===== verification/AV_BitCode.thy ===== *)
theory AV_BitCode
  imports AV_GetBits
begin

text \<open>
  Codes over the bit streams: a writer and a reader of one value, and what makes them match, as a locale. The laws carry over to
  sequences of values and to whole buffers: initialise, write, flush, open for reading, read. Each value has a format of type
  \<open>'k\<close> that the reader knows in advance, as the width of a bit field.
\<close>

section \<open>Sequences of values\<close>

definition write_all :: "(PutBitContext \<Rightarrow> 'k \<Rightarrow> 'a \<Rightarrow> PutBitContext) \<Rightarrow> PutBitContext \<Rightarrow> ('k \<times> 'a) list \<Rightarrow> PutBitContext" where
  "write_all enc pb xs = foldl (\<lambda>pb (k, x). enc pb k x) pb xs"

fun read_all :: "(GetBitContext \<Rightarrow> 'k \<Rightarrow> ('a \<times> GetBitContext) option) \<Rightarrow> GetBitContext \<Rightarrow> 'k list \<Rightarrow> ('a list \<times> GetBitContext) option" where
  "read_all dec gb [] = Some ([], gb)"
| "read_all dec gb (k # ks) = do {
     (x, gb) \<leftarrow> dec gb k;
     (xs, gb) \<leftarrow> read_all dec gb ks;
     Some (x # xs, gb)
   }"

definition message_bits :: "('k \<Rightarrow> 'a \<Rightarrow> bool list) \<Rightarrow> ('k \<times> 'a) list \<Rightarrow> bool list" where
  "message_bits code xs = concat (map (\<lambda>(k, x). code k x) xs)"

lemma message_bits_simps [simp]: "message_bits code [] = []" "message_bits code ((k, x) # xs) = code k x @ message_bits code xs"
  by (simp_all add: message_bits_def)

text \<open>
  The writer filled the buffer with the bits \<open>bs\<close> and flushed it, the reader gets the flushed bytes and a padding, and reads
  the values \<open>xs\<close>, all the bits that were written and no more.
\<close>

definition transfers :: "(PutBitContext \<Rightarrow> PutBitContext) \<Rightarrow> (GetBitContext \<Rightarrow> ('a \<times> GetBitContext) option) \<Rightarrow> u8 list \<Rightarrow> nat \<Rightarrow> u8 list \<Rightarrow> nat \<Rightarrow> 'a \<Rightarrow> bool" where
  "transfers wr rd mem n pad bits x \<longleftrightarrow>
     (\<exists>pb gb gb'. flush_put_bits (wr (init_put_bits mem (int n))) = Some pb \<and> buf_ptr pb = (bits + 7) div 8 \<and>
        init_get_bits8 (Some (take (buf_ptr pb) (pb_buf pb) @ pad)) (int (buf_ptr pb)) = (0, gb) \<and>
        rd gb = Some (x, gb') \<and> get_bits_count gb' = int bits)"

lemma transfersI:
  assumes room: "length bs \<le> 8 * n" "n \<le> length mem" "n < 2 ^ 27" "64 \<le> length pad"
    and wr: "\<And>pb. appends bs pb (wr pb)"
    and rd: "\<And>gb rest. gb_inv gb \<Longrightarrow> bits_ready (length bs) gb \<Longrightarrow> gb_stream gb = bs @ rest \<Longrightarrow> rd gb = Some (x, advance (length bs) gb)"
  shows "transfers wr rd mem n pad (length bs) x"
proof -
  define pb0 where "pb0 = init_put_bits mem (int n)"
  have i0: "pb_inv pb0" "pb_bits pb0 = []" "buf_end pb0 = n" using room by (simp_all add: pb0_def init_put_bits_inv)
  then have "put_bits_count pb0 = 0" by (simp flip: length_pb_bits(1))
  then have "put_bits_count pb0 + length bs \<le> 8 * buf_end pb0" using room i0(3) by simp
  note p = appendsD [OF wr [of pb0] i0(1) this]
  define pb1 where "pb1 = wr pb0"
  have b1: "pb_bits pb1 = bs" "pb_inv pb1" "put_bits_count pb1 = length bs" "buf_end pb1 = n"
    using p i0 \<open>put_bits_count pb0 = 0\<close> by (simp_all add: pb1_def)
  obtain pb where pb: "flush_put_bits pb1 = Some pb" "pb_inv pb" "pb_frame pb1 pb" "be_stream (take (buf_ptr pb) (pb_buf pb)) = pb_bits pb1 @ replicate (bit_left pb1 mod 8) False"
    using flush_put_bits_spec [OF b1(2)] b1(3,4) room(1) by auto
  have ptr: "buf_ptr pb \<le> n" "buf_ptr pb \<le> length (pb_buf pb)" using pb(2,3) b1(4) by (simp_all add: pb_inv_def pb_frame_def)
  have len: "8 * buf_ptr pb = length bs + bit_left pb1 mod 8"
    using arg_cong [OF pb(4), of length] ptr by (simp add: b1(1) min_absorb2)
  have "bit_left pb1 mod 8 < 8" by simp
  then have cnt: "buf_ptr pb = (length bs + 7) div 8" using len by linarith
  have "buf_ptr pb < nat ((INT_MAX - 512) div 8)" using ptr(1) room(3) by simp
  then have "int (buf_ptr pb) < (INT_MAX - 512) div 8" by simp
  moreover have "buf_ptr pb + 64 \<le> length (take (buf_ptr pb) (pb_buf pb) @ pad)" using ptr(2) room(4) by simp
  ultimately obtain gb where gb: "init_get_bits8 (Some (take (buf_ptr pb) (pb_buf pb) @ pad)) (int (buf_ptr pb)) = (0, gb)" "gb_inv gb"
    "gb_stream gb = be_stream (take (buf_ptr pb) (pb_buf pb) @ pad)" "size_in_bits gb = 8 * int (buf_ptr pb)" "gb_index gb = 0"
    using init_get_bits8_inv [of "buf_ptr pb" "take (buf_ptr pb) (pb_buf pb) @ pad"] by auto
  have "bits_ready (length bs) gb" using gb(2,4,5) len by (simp add: bits_ready_def gb_inv_def)
  then have "rd gb = Some (x, advance (length bs) gb)" using rd [OF gb(2)] gb(3) pb(4) b1(1) by simp
  moreover have "get_bits_count (advance (length bs) gb) = int (length bs)"
    using gb(2,4,5) len by (simp add: get_bits_count_def advance_def gb_inv_def)
  ultimately show ?thesis using pb(1) cnt gb(1) unfolding transfers_def pb1_def pb0_def by blast
qed

text \<open>The contract of a code: what the writer appends is what the reader takes off, on the values that are \<open>ok\<close>.\<close>

locale bit_code =
  fixes enc :: "PutBitContext \<Rightarrow> 'k \<Rightarrow> 'a \<Rightarrow> PutBitContext" and dec :: "GetBitContext \<Rightarrow> 'k \<Rightarrow> ('a \<times> GetBitContext) option"
    and code :: "'k \<Rightarrow> 'a \<Rightarrow> bool list" and ok :: "'k \<Rightarrow> 'a \<Rightarrow> bool"
  assumes enc_appends: "ok k x \<Longrightarrow> appends (code k x) pb (enc pb k x)"
    and dec_code: "ok k x \<Longrightarrow> gb_inv gb \<Longrightarrow> bits_ready (length (code k x)) gb \<Longrightarrow> gb_stream gb = code k x @ rest \<Longrightarrow>
      dec gb k = Some (x, advance (length (code k x)) gb)"
begin

lemma write_all_appends: "\<forall>(k, x) \<in> set xs. ok k x \<Longrightarrow> appends (message_bits code xs) pb (write_all enc pb xs)"
  unfolding write_all_def message_bits_def by (rule foldl_appends) (auto intro: enc_appends)

lemma read_all_message:
  assumes "gb_inv gb" "bits_ready (length (message_bits code xs)) gb" "\<forall>(k, x) \<in> set xs. ok k x" "gb_stream gb = message_bits code xs @ rest"
  shows "read_all dec gb (map fst xs) = Some (map snd xs, advance (length (message_bits code xs)) gb)"
  using assms
proof (induction xs arbitrary: gb)
  case (Cons f xs)
  obtain k x where f: "f = (k, x)" by (cases f)
  have r: "bits_ready (length (code k x)) gb" using Cons.prems(2) by (rule bits_ready_mono) (simp add: f)
  have g: "dec gb k = Some (x, advance (length (code k x)) gb)" by (rule dec_code [OF _ Cons.prems(1) r]) (use Cons.prems(3,4) f in auto)
  have "gb_stream (advance (length (code k x)) gb) = message_bits code xs @ rest" using advance_stream(1) [OF Cons.prems(1) r] Cons.prems(4) by (simp add: f)
  moreover have "bits_ready (length (message_bits code xs)) (advance (length (code k x)) gb)"
    using Cons.prems(1,2) by (intro bits_ready_advance) (simp_all add: f)
  ultimately have "read_all dec (advance (length (code k x)) gb) (map fst xs) =
      Some (map snd xs, advance (length (message_bits code xs)) (advance (length (code k x)) gb))"
    using Cons.IH [of "advance (length (code k x)) gb"] Cons.prems(1,3) by simp
  then show ?case using g Cons.prems(1) by (simp add: f)
qed simp

lemma message_round_trip:
  assumes "\<forall>(k, x) \<in> set xs. ok k x" "length (message_bits code xs) \<le> 8 * n" "n \<le> length mem" "n < 2 ^ 27" "64 \<le> length pad"
  shows "transfers (\<lambda>pb. write_all enc pb xs) (\<lambda>gb. read_all dec gb (map fst xs)) mem n pad (length (message_bits code xs)) (map snd xs)"
  using assms by (intro transfersI write_all_appends read_all_message)

end

section \<open>Bit fields\<close>

text \<open>Fields of up to 64 bits, written with \<^verbatim>\<open>put_bits64\<close> and read with \<^verbatim>\<open>get_bits64\<close>.\<close>

definition field_ok :: "nat \<Rightarrow> u64 \<Rightarrow> bool" where
  "field_ok n v \<longleftrightarrow> n \<le> 64 \<and> take_bit n v = v"

interpretation fields: bit_code put_bits64 get_bits64 be_bits field_ok
proof unfold_locales
  fix n and v :: u64 and gb rest
  assume a: "field_ok n v" "gb_inv gb" "bits_ready (length (be_bits n v)) gb" "gb_stream gb = be_bits n v @ rest"
  then have "take n (gb_stream gb) = be_bits n v" by simp
  then show "get_bits64 gb n = Some (v, advance (length (be_bits n v)) gb)"
    using get_bits64_spec [OF a(2), of n] word_of_bits_eq [of n v] a(1,3) by (simp add: field_ok_def)
qed (simp add: field_ok_def put_bits64_appends)

text \<open>
  C13: any sequence of bit fields of up to 64 bits that fits the buffer, written by \<^verbatim>\<open>put_bits\<close> and flushed, takes the bytes its
  bits need, and is read back by \<^verbatim>\<open>get_bits\<close> from the padded bytes as it was written.
\<close>

theorem bit_fields_round_trip:
  assumes "\<forall>(w, v) \<in> set fs. w \<le> 64 \<and> take_bit w v = v" "(\<Sum>f \<leftarrow> fs. fst f) = len" "len \<le> 8 * n" "n \<le> length mem" "n < 2 ^ 27"
    and "64 \<le> length pad"
  shows "\<exists>pb gb gb'. flush_put_bits (write_all put_bits64 (init_put_bits mem (int n)) fs) = Some pb \<and> buf_ptr pb = (len + 7) div 8 \<and>
    init_get_bits8 (Some (take (buf_ptr pb) (pb_buf pb) @ pad)) (int (buf_ptr pb)) = (0, gb) \<and>
    read_all get_bits64 gb (map fst fs) = Some (map snd fs, gb') \<and> get_bits_count gb' = int len"
proof -
  have "length (message_bits be_bits fs) = len" using assms(2) by (simp add: message_bits_def length_concat case_prod_unfold o_def)
  then show ?thesis using fields.message_round_trip [of fs n mem pad] assms by (simp add: field_ok_def transfers_def)
qed

definition demo_fields :: "(nat \<times> u64) list" where
  "demo_fields = [(3, 5), (64, 0xFFFFFFFF12345678), (32, 7)]"

theorem bit_fields_round_trip_witness:
  "\<exists>pb gb gb'. flush_put_bits (write_all put_bits64 (init_put_bits (replicate 20 0) (int 20)) demo_fields) = Some pb \<and>
    buf_ptr pb = (99 + 7) div 8 \<and>
    init_get_bits8 (Some (take (buf_ptr pb) (pb_buf pb) @ replicate 64 0)) (int (buf_ptr pb)) = (0, gb) \<and>
    read_all get_bits64 gb (map fst demo_fields) = Some (map snd demo_fields, gb') \<and> get_bits_count gb' = int 99"
  by (rule bit_fields_round_trip) (simp_all add: demo_fields_def)

end
