(* ===== verification/AV_Golomb.thy ===== *)
theory AV_Golomb
  imports AV_BitCode
begin

text \<open>
  \<^verbatim>\<open>libavcodec/golomb.h\<close>, \<^verbatim>\<open>golomb.c\<close> and \<^verbatim>\<open>put_golomb.h\<close>: Exp-Golomb and Golomb-Rice codes, decoded by table lookup on the
  bit cache with an escape to arithmetic on it.
\<close>

unbundle bit_operations_syntax

section \<open>Tables\<close>

definition ff_golomb_vlc_len :: "int list" where
  "ff_golomb_vlc_len = [19, 17, 15, 15, 13, 13, 13, 13, 11, 11, 11, 11, 11, 11, 11, 11, 9, 9, 9, 9, 9, 9, 9, 9, 9, 9, 9, 9, 9, 9, 9, 9, 7, 7,
     7, 7, 7, 7, 7, 7, 7, 7, 7, 7, 7, 7, 7, 7, 7, 7, 7, 7, 7, 7, 7, 7, 7, 7, 7, 7, 7, 7, 7, 7, 5, 5, 5, 5, 5, 5, 5,
     5, 5, 5, 5, 5, 5, 5, 5, 5, 5, 5, 5, 5, 5, 5, 5, 5, 5, 5, 5, 5, 5, 5, 5, 5, 5, 5, 5, 5, 5, 5, 5, 5, 5, 5, 5, 5,
     5, 5, 5, 5, 5, 5, 5, 5, 5, 5, 5, 5, 5, 5, 5, 5, 5, 5, 5, 5, 3, 3, 3, 3, 3, 3, 3, 3, 3, 3, 3, 3, 3, 3, 3, 3, 3,
     3, 3, 3, 3, 3, 3, 3, 3, 3, 3, 3, 3, 3, 3, 3, 3, 3, 3, 3, 3, 3, 3, 3, 3, 3, 3, 3, 3, 3, 3, 3, 3, 3, 3, 3, 3, 3,
     3, 3, 3, 3, 3, 3, 3, 3, 3, 3, 3, 3, 3, 3, 3, 3, 3, 3, 3, 3, 3, 3, 3, 3, 3, 3, 3, 3, 3, 3, 3, 3, 3, 3, 3, 3, 3,
     3, 3, 3, 3, 3, 3, 3, 3, 3, 3, 3, 3, 3, 3, 3, 3, 3, 3, 3, 3, 3, 3, 3, 3, 3, 3, 3, 3, 3, 3, 3, 3, 3, 3, 3, 3, 3,
     1, 1, 1, 1, 1, 1, 1, 1, 1, 1, 1, 1, 1, 1, 1, 1, 1, 1, 1, 1, 1, 1, 1, 1, 1, 1, 1, 1, 1, 1, 1, 1, 1, 1, 1, 1, 1,
     1, 1, 1, 1, 1, 1, 1, 1, 1, 1, 1, 1, 1, 1, 1, 1, 1, 1, 1, 1, 1, 1, 1, 1, 1, 1, 1, 1, 1, 1, 1, 1, 1, 1, 1, 1, 1,
     1, 1, 1, 1, 1, 1, 1, 1, 1, 1, 1, 1, 1, 1, 1, 1, 1, 1, 1, 1, 1, 1, 1, 1, 1, 1, 1, 1, 1, 1, 1, 1, 1, 1, 1, 1, 1,
     1, 1, 1, 1, 1, 1, 1, 1, 1, 1, 1, 1, 1, 1, 1, 1, 1, 1, 1, 1, 1, 1, 1, 1, 1, 1, 1, 1, 1, 1, 1, 1, 1, 1, 1, 1, 1,
     1, 1, 1, 1, 1, 1, 1, 1, 1, 1, 1, 1, 1, 1, 1, 1, 1, 1, 1, 1, 1, 1, 1, 1, 1, 1, 1, 1, 1, 1, 1, 1, 1, 1, 1, 1, 1,
     1, 1, 1, 1, 1, 1, 1, 1, 1, 1, 1, 1, 1, 1, 1, 1, 1, 1, 1, 1, 1, 1, 1, 1, 1, 1, 1, 1, 1, 1, 1, 1, 1, 1, 1, 1, 1,
     1, 1, 1, 1, 1, 1, 1, 1, 1, 1, 1, 1, 1, 1, 1, 1, 1, 1, 1, 1, 1, 1, 1, 1, 1, 1, 1, 1, 1, 1, 1, 1, 1, 1]"

definition ff_ue_golomb_vlc_code :: "int list" where
  "ff_ue_golomb_vlc_code = [32, 32, 32, 32, 32, 32, 32, 32, 31, 32, 32, 32, 32, 32, 32, 32, 15, 16, 17, 18, 19, 20, 21, 22, 23, 24, 25, 26, 27,
     28, 29, 30, 7, 7, 7, 7, 8, 8, 8, 8, 9, 9, 9, 9, 10, 10, 10, 10, 11, 11, 11, 11, 12, 12, 12, 12, 13, 13, 13, 13,
     14, 14, 14, 14, 3, 3, 3, 3, 3, 3, 3, 3, 3, 3, 3, 3, 3, 3, 3, 3, 4, 4, 4, 4, 4, 4, 4, 4, 4, 4, 4, 4, 4, 4, 4, 4,
     5, 5, 5, 5, 5, 5, 5, 5, 5, 5, 5, 5, 5, 5, 5, 5, 6, 6, 6, 6, 6, 6, 6, 6, 6, 6, 6, 6, 6, 6, 6, 6, 1, 1, 1, 1, 1,
     1, 1, 1, 1, 1, 1, 1, 1, 1, 1, 1, 1, 1, 1, 1, 1, 1, 1, 1, 1, 1, 1, 1, 1, 1, 1, 1, 1, 1, 1, 1, 1, 1, 1, 1, 1, 1,
     1, 1, 1, 1, 1, 1, 1, 1, 1, 1, 1, 1, 1, 1, 1, 1, 1, 1, 1, 1, 1, 1, 2, 2, 2, 2, 2, 2, 2, 2, 2, 2, 2, 2, 2, 2, 2,
     2, 2, 2, 2, 2, 2, 2, 2, 2, 2, 2, 2, 2, 2, 2, 2, 2, 2, 2, 2, 2, 2, 2, 2, 2, 2, 2, 2, 2, 2, 2, 2, 2, 2, 2, 2, 2,
     2, 2, 2, 2, 2, 2, 2, 2, 2, 2, 2, 2, 0, 0, 0, 0, 0, 0, 0, 0, 0, 0, 0, 0, 0, 0, 0, 0, 0, 0, 0, 0, 0, 0, 0, 0, 0,
     0, 0, 0, 0, 0, 0, 0, 0, 0, 0, 0, 0, 0, 0, 0, 0, 0, 0, 0, 0, 0, 0, 0, 0, 0, 0, 0, 0, 0, 0, 0, 0, 0, 0, 0, 0, 0,
     0, 0, 0, 0, 0, 0, 0, 0, 0, 0, 0, 0, 0, 0, 0, 0, 0, 0, 0, 0, 0, 0, 0, 0, 0, 0, 0, 0, 0, 0, 0, 0, 0, 0, 0, 0, 0,
     0, 0, 0, 0, 0, 0, 0, 0, 0, 0, 0, 0, 0, 0, 0, 0, 0, 0, 0, 0, 0, 0, 0, 0, 0, 0, 0, 0, 0, 0, 0, 0, 0, 0, 0, 0, 0,
     0, 0, 0, 0, 0, 0, 0, 0, 0, 0, 0, 0, 0, 0, 0, 0, 0, 0, 0, 0, 0, 0, 0, 0, 0, 0, 0, 0, 0, 0, 0, 0, 0, 0, 0, 0, 0,
     0, 0, 0, 0, 0, 0, 0, 0, 0, 0, 0, 0, 0, 0, 0, 0, 0, 0, 0, 0, 0, 0, 0, 0, 0, 0, 0, 0, 0, 0, 0, 0, 0, 0, 0, 0, 0,
     0, 0, 0, 0, 0, 0, 0, 0, 0, 0, 0, 0, 0, 0, 0, 0, 0, 0, 0, 0, 0, 0, 0, 0, 0, 0, 0, 0, 0, 0, 0, 0, 0, 0, 0, 0, 0,
     0, 0, 0, 0, 0, 0, 0, 0, 0]"

definition ff_se_golomb_vlc_code :: "int list" where
  "ff_se_golomb_vlc_code = [17, 17, 17, 17, 17, 17, 17, 17, 16, 17, 17, 17, 17, 17, 17, 17, 8, - 8, 9, - 9, 10, - 10, 11, - 11, 12, - 12, 13,
     - 13, 14, - 14, 15, - 15, 4, 4, 4, 4, - 4, - 4, - 4, - 4, 5, 5, 5, 5, - 5, - 5, - 5, - 5, 6, 6, 6, 6, - 6, - 6,
     - 6, - 6, 7, 7, 7, 7, - 7, - 7, - 7, - 7, 2, 2, 2, 2, 2, 2, 2, 2, 2, 2, 2, 2, 2, 2, 2, 2, - 2, - 2, - 2, - 2,
     - 2, - 2, - 2, - 2, - 2, - 2, - 2, - 2, - 2, - 2, - 2, - 2, 3, 3, 3, 3, 3, 3, 3, 3, 3, 3, 3, 3, 3, 3, 3, 3, - 3,
     - 3, - 3, - 3, - 3, - 3, - 3, - 3, - 3, - 3, - 3, - 3, - 3, - 3, - 3, - 3, 1, 1, 1, 1, 1, 1, 1, 1, 1, 1, 1, 1,
     1, 1, 1, 1, 1, 1, 1, 1, 1, 1, 1, 1, 1, 1, 1, 1, 1, 1, 1, 1, 1, 1, 1, 1, 1, 1, 1, 1, 1, 1, 1, 1, 1, 1, 1, 1, 1,
     1, 1, 1, 1, 1, 1, 1, 1, 1, 1, 1, 1, 1, 1, 1, - 1, - 1, - 1, - 1, - 1, - 1, - 1, - 1, - 1, - 1, - 1, - 1, - 1,
     - 1, - 1, - 1, - 1, - 1, - 1, - 1, - 1, - 1, - 1, - 1, - 1, - 1, - 1, - 1, - 1, - 1, - 1, - 1, - 1, - 1, - 1,
     - 1, - 1, - 1, - 1, - 1, - 1, - 1, - 1, - 1, - 1, - 1, - 1, - 1, - 1, - 1, - 1, - 1, - 1, - 1, - 1, - 1, - 1,
     - 1, - 1, - 1, - 1, - 1, - 1, - 1, 0, 0, 0, 0, 0, 0, 0, 0, 0, 0, 0, 0, 0, 0, 0, 0, 0, 0, 0, 0, 0, 0, 0, 0, 0, 0,
     0, 0, 0, 0, 0, 0, 0, 0, 0, 0, 0, 0, 0, 0, 0, 0, 0, 0, 0, 0, 0, 0, 0, 0, 0, 0, 0, 0, 0, 0, 0, 0, 0, 0, 0, 0, 0,
     0, 0, 0, 0, 0, 0, 0, 0, 0, 0, 0, 0, 0, 0, 0, 0, 0, 0, 0, 0, 0, 0, 0, 0, 0, 0, 0, 0, 0, 0, 0, 0, 0, 0, 0, 0, 0,
     0, 0, 0, 0, 0, 0, 0, 0, 0, 0, 0, 0, 0, 0, 0, 0, 0, 0, 0, 0, 0, 0, 0, 0, 0, 0, 0, 0, 0, 0, 0, 0, 0, 0, 0, 0, 0,
     0, 0, 0, 0, 0, 0, 0, 0, 0, 0, 0, 0, 0, 0, 0, 0, 0, 0, 0, 0, 0, 0, 0, 0, 0, 0, 0, 0, 0, 0, 0, 0, 0, 0, 0, 0, 0,
     0, 0, 0, 0, 0, 0, 0, 0, 0, 0, 0, 0, 0, 0, 0, 0, 0, 0, 0, 0, 0, 0, 0, 0, 0, 0, 0, 0, 0, 0, 0, 0, 0, 0, 0, 0, 0,
     0, 0, 0, 0, 0, 0, 0, 0, 0, 0, 0, 0, 0, 0, 0, 0, 0, 0, 0, 0, 0, 0, 0, 0, 0, 0, 0, 0, 0, 0, 0, 0, 0, 0, 0, 0, 0,
     0, 0, 0, 0, 0, 0, 0, 0]"

definition ff_ue_golomb_len :: "int list" where
  "ff_ue_golomb_len = [1, 3, 3, 5, 5, 5, 5, 7, 7, 7, 7, 7, 7, 7, 7, 9, 9, 9, 9, 9, 9, 9, 9, 9, 9, 9, 9, 9, 9, 9, 9, 11, 11, 11, 11, 11, 11,
     11, 11, 11, 11, 11, 11, 11, 11, 11, 11, 11, 11, 11, 11, 11, 11, 11, 11, 11, 11, 11, 11, 11, 11, 11, 11, 13, 13,
     13, 13, 13, 13, 13, 13, 13, 13, 13, 13, 13, 13, 13, 13, 13, 13, 13, 13, 13, 13, 13, 13, 13, 13, 13, 13, 13, 13,
     13, 13, 13, 13, 13, 13, 13, 13, 13, 13, 13, 13, 13, 13, 13, 13, 13, 13, 13, 13, 13, 13, 13, 13, 13, 13, 13, 13,
     13, 13, 13, 13, 13, 13, 15, 15, 15, 15, 15, 15, 15, 15, 15, 15, 15, 15, 15, 15, 15, 15, 15, 15, 15, 15, 15, 15,
     15, 15, 15, 15, 15, 15, 15, 15, 15, 15, 15, 15, 15, 15, 15, 15, 15, 15, 15, 15, 15, 15, 15, 15, 15, 15, 15, 15,
     15, 15, 15, 15, 15, 15, 15, 15, 15, 15, 15, 15, 15, 15, 15, 15, 15, 15, 15, 15, 15, 15, 15, 15, 15, 15, 15, 15,
     15, 15, 15, 15, 15, 15, 15, 15, 15, 15, 15, 15, 15, 15, 15, 15, 15, 15, 15, 15, 15, 15, 15, 15, 15, 15, 15, 15,
     15, 15, 15, 15, 15, 15, 15, 15, 15, 15, 15, 15, 15, 15, 15, 15, 15, 15, 15, 15, 15, 15, 17]"

section \<open>Decoding\<close>

abbreviation av_log2 :: "u32 \<Rightarrow> nat" where "av_log2 \<equiv> ff_log2_c"

definition get_ue_golomb :: "GetBitContext \<Rightarrow> (int \<times> GetBitContext) option" where
  "get_ue_golomb gb = do {
     buf \<leftarrow> update_cache gb;
     if buf \<ge> push_bit 27 1 then
       let i = unat (drop_bit (32 - 9) buf)
       in Some (ff_ue_golomb_vlc_code ! i, skip_counter gb (ff_golomb_vlc_len ! i))
     else
       let log2 = 2 * int (av_log2 buf) - 31;
           gb = skip_counter gb (32 - log2)
       in if log2 < 7 then Some (AVERROR INVALIDDATA, gb) else Some (sint (drop_bit (nat log2) buf - 1), gb)
   }"

definition get_ue_golomb_long :: "GetBitContext \<Rightarrow> (u32 \<times> GetBitContext) option" where
  "get_ue_golomb_long gb = do {
     buf \<leftarrow> show_bits_long gb 32;
     let log2 = 31 - av_log2 buf;
     (v, gb) \<leftarrow> get_bits_long (skip_bits_long gb (int log2)) (log2 + 1);
     Some (v - 1, gb)
   }"

definition get_ue_golomb_31 :: "GetBitContext \<Rightarrow> (int \<times> GetBitContext) option" where
  "get_ue_golomb_31 gb = do {
     buf \<leftarrow> update_cache gb;
     let i = unat (drop_bit (32 - 9) buf);
     Some (ff_ue_golomb_vlc_code ! i, skip_counter gb (ff_golomb_vlc_len ! i))
   }"

definition get_te0_golomb :: "GetBitContext \<Rightarrow> int \<Rightarrow> (int \<times> GetBitContext) option" where
  "get_te0_golomb gb rng =
     (if rng = 1 then Some (0, gb)
      else if rng = 2 then do { (b, gb) \<leftarrow> get_bits1 gb; Some (uint (b XOR 1), gb) }
      else get_ue_golomb gb)"

definition get_te_golomb :: "GetBitContext \<Rightarrow> int \<Rightarrow> (int \<times> GetBitContext) option" where
  "get_te_golomb gb rng = (if rng = 2 then do { (b, gb) \<leftarrow> get_bits1 gb; Some (uint (b XOR 1), gb) } else get_ue_golomb gb)"

definition get_se_golomb :: "GetBitContext \<Rightarrow> (int \<times> GetBitContext) option" where
  "get_se_golomb gb = do {
     buf \<leftarrow> update_cache gb;
     if buf \<ge> push_bit 27 1 then
       let i = unat (drop_bit (32 - 9) buf)
       in Some (ff_se_golomb_vlc_code ! i, skip_counter gb (ff_golomb_vlc_len ! i))
     else
       let log2 = av_log2 buf; gb = skip_counter gb (31 - int log2)
       in do {
         buf \<leftarrow> update_cache gb;
         let buf = drop_bit log2 buf;
         let gb = skip_counter gb (32 - int log2);
         let sign = - (buf AND 1);
         Some (sint ((drop_bit 1 buf XOR sign) - sign), gb)
       }
   }"

definition get_se_golomb_long :: "GetBitContext \<Rightarrow> (int \<times> GetBitContext) option" where
  "get_se_golomb_long gb = do {
     (buf, gb) \<leftarrow> get_ue_golomb_long gb;
     let sign = (buf AND 1) - 1;
     Some (sint ((drop_bit 1 buf XOR sign) + 1), gb)
   }"

text \<open>The Golomb-Rice codes of FFV1, and of JPEG-LS, FLAC and Shorten.\<close>

definition get_ur_golomb :: "GetBitContext \<Rightarrow> nat \<Rightarrow> nat \<Rightarrow> nat \<Rightarrow> (int \<times> GetBitContext) option" where
  "get_ur_golomb gb k limit esc_len = do {
     buf \<leftarrow> update_cache gb;
     let log2 = av_log2 buf;
     if int log2 > 31 - int limit then
       Some (sint (drop_bit (log2 - k) buf + push_bit k (30 - of_nat log2)), skip_counter gb (32 + int k - int log2))
     else
       let gb = skip_counter gb (int limit)
       in do {
         buf \<leftarrow> update_cache gb;
         Some (sint (NEG_USR32 buf esc_len + of_nat limit - 1), skip_counter gb (int esc_len))
       }
   }"

text \<open>
  The loops of \<^verbatim>\<open>get_ur_golomb_jpegls\<close>: over blocks of 25 zero bits, where \<open>Inl\<close> is the early return, and over the zero bits
  left in the cache.
\<close>

partial_function (option) jpegls_blocks :: "GetBitContext \<Rightarrow> u32 \<Rightarrow> nat \<Rightarrow> nat \<Rightarrow> (GetBitContext + GetBitContext \<times> u32 \<times> nat) option" where
  "jpegls_blocks gb cache limit i =
     (if i + 25 \<le> limit \<and> NEG_USR32 cache 25 = 0 then
        if size_in_bits gb \<le> gb_index gb then Some (Inl gb)
        else
          let gb = skip_counter gb 25
          in case update_cache gb of None \<Rightarrow> None | Some cache \<Rightarrow> jpegls_blocks gb cache limit (i + 25)
      else Some (Inr (gb, cache, i)))"

function jpegls_bits :: "GetBitContext \<Rightarrow> u32 \<Rightarrow> nat \<Rightarrow> nat \<Rightarrow> GetBitContext \<times> nat" where
  "jpegls_bits gb cache limit i =
     (if i < limit \<and> NEG_USR32 cache 1 = 0 then jpegls_bits (skip_counter gb 1) (push_bit 1 cache) limit (i + 1) else (gb, i))"
  by auto
termination
  by (relation "measure (\<lambda>(_, _, limit, i). limit - i)") auto

definition get_ur_golomb_jpegls :: "GetBitContext \<Rightarrow> nat \<Rightarrow> nat \<Rightarrow> nat \<Rightarrow> (int \<times> GetBitContext) option" where
  "get_ur_golomb_jpegls gb k limit esc_len = do {
     buf \<leftarrow> update_cache gb;
     let log2 = av_log2 buf;
     if int log2 - int k \<ge> 7 \<and> 32 - int log2 < int limit then
       Some (sint (drop_bit (log2 - k) buf + push_bit k (30 - of_nat log2)), skip_counter gb (32 + int k - int log2))
     else do {
       r \<leftarrow> jpegls_blocks gb buf limit 0;
       case r of
         Inl gb \<Rightarrow> Some (- 1, gb)
       | Inr (gb, cache, i) \<Rightarrow>
           let (gb, i) = jpegls_bits gb cache limit i; gb = skip_counter gb 1
           in do {
             cache \<leftarrow> update_cache gb;
             if int i < int limit - 1 then
               do {
                 (buf, gb) \<leftarrow>
                   (if k \<noteq> 0 then
                      if k > 24 then
                        let buf = push_bit (k - 16) (NEG_USR32 cache 16); gb = skip_counter gb 16
                        in do { cache \<leftarrow> update_cache gb; Some (buf OR NEG_USR32 cache (k - 16), skip_counter gb (int k - 16)) }
                      else Some (NEG_USR32 cache k, skip_counter gb (int k))
                    else Some (0, gb));
                 Some (sint (buf + push_bit k (of_nat i)), gb)
               }
             else if esc_len \<noteq> 0 \<and> int i = int limit - 1 then Some (sint (NEG_USR32 cache esc_len + 1), skip_counter gb (int esc_len))
             else Some (- 1, gb)
           }
     }
   }"

text \<open>The sign in the lowest bit.\<close>

definition unfold_sign :: "u32 \<Rightarrow> int" where
  "unfold_sign v = sint (drop_bit 1 v XOR - (v AND 1))"

definition get_sr_golomb :: "GetBitContext \<Rightarrow> nat \<Rightarrow> nat \<Rightarrow> nat \<Rightarrow> (int \<times> GetBitContext) option" where
  "get_sr_golomb gb k limit esc_len = do { (v, gb) \<leftarrow> get_ur_golomb gb k limit esc_len; Some (unfold_sign (word_of_int v), gb) }"

definition get_sr_golomb_flac :: "GetBitContext \<Rightarrow> nat \<Rightarrow> nat \<Rightarrow> nat \<Rightarrow> (int \<times> GetBitContext) option" where
  "get_sr_golomb_flac gb k limit esc_len = do { (v, gb) \<leftarrow> get_ur_golomb_jpegls gb k limit esc_len; Some (unfold_sign (word_of_int v), gb) }"

definition get_ur_golomb_shorten :: "GetBitContext \<Rightarrow> nat \<Rightarrow> (int \<times> GetBitContext) option" where
  "get_ur_golomb_shorten gb k = get_ur_golomb_jpegls gb k (nat INT_MAX) 0"

text \<open>Here \<^verbatim>\<open>uvar\<close> is an \<^verbatim>\<open>int\<close>, so its shift keeps the sign.\<close>

definition get_sr_golomb_shorten :: "GetBitContext \<Rightarrow> nat \<Rightarrow> (int \<times> GetBitContext) option" where
  "get_sr_golomb_shorten gb k = do {
     (uvar, gb) \<leftarrow> get_ur_golomb_jpegls gb (k + 1) (nat INT_MAX) 0;
     Some (uvar div 2 XOR - (uvar AND 1), gb)
   }"

section \<open>Encoding\<close>

definition set_ue_golomb :: "PutBitContext \<Rightarrow> nat \<Rightarrow> PutBitContext" where
  "set_ue_golomb pb i =
     (if i < 256 then put_bits pb (nat (ff_ue_golomb_len ! i)) (of_nat (i + 1))
      else let e = av_log2 (of_nat (i + 1)) in put_bits pb (2 * e + 1) (of_nat (i + 1)))"

definition set_ue_golomb_long :: "PutBitContext \<Rightarrow> u32 \<Rightarrow> PutBitContext" where
  "set_ue_golomb_long pb i =
     (if i < 256 then put_bits pb (nat (ff_ue_golomb_len ! unat i)) (ucast (i + 1))
      else let e = av_log2 (i + 1) in put_bits63 pb (2 * e + 1) (ucast (i + 1)))"

definition set_te_golomb :: "PutBitContext \<Rightarrow> nat \<Rightarrow> nat \<Rightarrow> PutBitContext" where
  "set_te_golomb pb i rng = (if rng = 2 then put_bits pb 1 (of_nat i XOR 1) else set_ue_golomb pb i)"

definition set_se_golomb :: "PutBitContext \<Rightarrow> int \<Rightarrow> PutBitContext" where
  "set_se_golomb pb i =
     (let i = 2 * i - 1; i = (if i < 0 then i XOR - 1 else i)
      in set_ue_golomb pb (nat i))"

definition set_ur_golomb :: "PutBitContext \<Rightarrow> nat \<Rightarrow> nat \<Rightarrow> nat \<Rightarrow> nat \<Rightarrow> PutBitContext" where
  "set_ur_golomb pb i k limit esc_len =
     (let e = drop_bit k i
      in if e < limit then put_bits pb (e + k + 1) (push_bit k 1 + ucast (av_zero_extend_c (of_nat i) k))
         else put_bits pb (limit + esc_len) (of_nat i - of_nat limit + 1))"

text \<open>The loops that write long runs of zeros.\<close>

function put_zeros :: "PutBitContext \<Rightarrow> nat \<Rightarrow> PutBitContext \<times> nat" where
  "put_zeros pb e = (if e > 31 then put_zeros (put_bits pb 31 0) (e - 31) else (pb, e))"
  by auto
termination
  by (relation "measure snd") auto

definition set_ur_golomb_jpegls :: "PutBitContext \<Rightarrow> nat \<Rightarrow> nat \<Rightarrow> nat \<Rightarrow> nat \<Rightarrow> PutBitContext" where
  "set_ur_golomb_jpegls pb i k limit esc_len =
     (let e = drop_bit k i + 1
      in if e < limit then
           let (pb, e) = put_zeros pb e; pb = put_bits pb e 1
           in if k \<noteq> 0 then put_sbits pb k (int i) else pb
         else
           let (pb, limit) = put_zeros pb limit
           in put_bits (put_bits pb limit 1) esc_len (of_nat i - 1))"

definition set_sr_golomb :: "PutBitContext \<Rightarrow> int \<Rightarrow> nat \<Rightarrow> nat \<Rightarrow> nat \<Rightarrow> PutBitContext" where
  "set_sr_golomb pb i k limit esc_len =
     (let v = - 2 * i - 1; v = (if v < 0 then v XOR - 1 else v)
      in set_ur_golomb pb (nat v) k limit esc_len)"


declare put_zeros.simps [simp del] jpegls_bits.simps [simp del]

end
