(* ===== verification/AV_GolombCodes.thy ===== *)
theory AV_GolombCodes
  imports AV_Golomb
begin

text \<open>
  The Golomb codes as bit strings: the writers of \<^verbatim>\<open>put_golomb.h\<close> append them, the readers of \<^verbatim>\<open>golomb.h\<close> take them off, and
  both together are a \<open>bit_code\<close>.
\<close>

unbundle bit_operations_syntax

section \<open>Integer logarithms\<close>

fun ilog2 :: "nat \<Rightarrow> nat" where
  "ilog2 n = (if n < 2 then 0 else ilog2 (n div 2) + 1)"

declare ilog2.simps [simp del]

lemma ilog2_bounds: "0 < n \<Longrightarrow> 2 ^ ilog2 n \<le> n \<and> n < 2 ^ (ilog2 n + 1)"
proof (induction n rule: ilog2.induct)
  case (1 n)
  show ?case
  proof (cases "n < 2")
    case True
    then show ?thesis using 1 by (simp add: ilog2.simps [of n])
  next
    case False
    then have "2 ^ ilog2 (n div 2) \<le> n div 2 \<and> n div 2 < 2 ^ (ilog2 (n div 2) + 1)" using 1 by simp
    then show ?thesis using False by (auto simp: ilog2.simps [of n])
  qed
qed

lemma ilog2_unique: "2 ^ e \<le> n \<Longrightarrow> n < 2 ^ (e + 1) \<Longrightarrow> ilog2 n = e"
proof -
  assume a: "2 ^ e \<le> n" "n < 2 ^ (e + 1)"
  then have "0 < n" by (metis neq0_conv not_le zero_less_numeral zero_less_power)
  note b = ilog2_bounds [OF this]
  have 1: "(2 :: nat) ^ e < 2 ^ (ilog2 n + 1)" and 2: "(2 :: nat) ^ ilog2 n < 2 ^ (e + 1)" using a b by linarith+
  have "e < ilog2 n + 1" by (rule power_less_imp_less_exp [OF _ 1]) simp
  moreover have "ilog2 n < e + 1" by (rule power_less_imp_less_exp [OF _ 2]) simp
  ultimately show ?thesis by simp
qed

lemma ilog2_less: "0 < n \<Longrightarrow> n < 2 ^ k \<Longrightarrow> ilog2 n < k"
proof -
  assume "0 < n" "n < 2 ^ k"
  then have "(2 :: nat) ^ ilog2 n < 2 ^ k" using ilog2_bounds [of n] by linarith
  then show ?thesis by (simp add: power_less_imp_less_exp)
qed

lemma av_log2_eq: "0 < unat w \<Longrightarrow> av_log2 w = ilog2 (unat w)"
  using ff_log2_c_correct [of w] by (intro ilog2_unique [symmetric]) (simp_all add: max_def split: if_splits)

section \<open>The cache as a number\<close>

lemma cache_top:
  fixes c :: u32
  assumes "n \<le> 25" "take 25 (be_bits 32 c) = take 25 bs"
  shows "unat c div 2 ^ (32 - n) = be_value (take n bs)"
proof -
  have "take n bs = take n (be_bits 32 c)" using arg_cong [OF assms(2), of "take n"] assms(1) by (simp add: min_absorb1)
  also have "\<dots> = be_bits n (drop_bit (32 - n) c)" using be_bits_add [of n "32 - n" c] assms(1) by simp
  finally have "be_value (take n bs) = unat (take_bit n (drop_bit (32 - n) c))" by (simp add: value_word_bits)
  also have "take_bit n (drop_bit (32 - n) c) = drop_bit (32 - n) c"
    using assms(1) by (intro bit_word_eqI) (auto simp: bit_take_bit_iff bit_drop_bit_eq dest: bit_imp_le_length)
  finally show ?thesis by (simp add: unat_drop_bit_div)
qed

lemma av_log2_top:
  assumes "unat c div 2 ^ k = 1" "k < 32"
  shows "2 ^ k \<le> unat c" "unat c < 2 ^ (k + 1)" "av_log2 c = k"
proof -
  show b: "2 ^ k \<le> unat c" "unat c < 2 ^ (k + 1)"
    using div_times_less_eq_dividend [of "unat c" "2 ^ k"] dividend_less_div_times [of "2 ^ k" "unat c"] unfolding assms(1) by simp_all
  have "0 < unat c" using b(1) by (metis le_zero_eq neq0_conv power_not_zero zero_neq_numeral)
  then show "av_log2 c = k" using ilog2_unique [OF b] by (simp add: av_log2_eq)
qed

text \<open>A cache whose first one bit is number \<open>z\<close>, and a cache that starts with \<open>z\<close> zeros.\<close>

lemma cache_leading:
  fixes c :: u32
  assumes "take 25 (be_bits 32 c) = take 25 (replicate z False @ True # r)" "z \<le> 24"
  shows "2 ^ (31 - z) \<le> unat c" "unat c < 2 ^ (31 - z + 1)" "av_log2 c = 31 - z"
proof -
  have n: "32 - (z + 1) = 31 - z" by simp
  have "take (z + 1) (replicate z False @ True # r) = replicate z False @ [True]" by simp
  then have "unat c div 2 ^ (31 - z) = 1" using cache_top [OF _ assms(1), of "z + 1"] assms(2) by (simp add: n be_value_Cons)
  then show "2 ^ (31 - z) \<le> unat c" "unat c < 2 ^ (31 - z + 1)" "av_log2 c = 31 - z" by (rule av_log2_top; simp)+
qed

lemma av_log2_bound: "unat c < 2 ^ k \<Longrightarrow> 0 < k \<Longrightarrow> av_log2 c < k"
proof (cases "unat c = 0")
  case True
  then have "c = 0" by (simp add: word_unat_eq_iff)
  moreover have "av_log2 0 = 0" by code_simp
  ultimately show "0 < k \<Longrightarrow> av_log2 c < k" by simp
qed (simp add: av_log2_eq ilog2_less)

lemma cache_zeros:
  fixes c :: u32
  assumes "take 25 (be_bits 32 c) = take 25 (replicate z False @ r)" "z \<le> 25"
  shows "unat c < 2 ^ (32 - z)" "av_log2 c < 32 - z"
proof -
  have "take z (replicate z False @ r) = replicate z False @ []" by simp
  then have "unat c div 2 ^ (32 - z) = 0" using cache_top [OF assms(2,1)] by (simp only: be_value_replicate_False value_nil)
  then show "unat c < 2 ^ (32 - z)" by (simp add: div_eq_0_iff)
  then show "av_log2 c < 32 - z" using assms(2) by (intro av_log2_bound) simp_all
qed

text \<open>The code of a number and its length.\<close>

definition ue_code :: "nat \<Rightarrow> bool list" where
  "ue_code v = be_bits (2 * ilog2 (v + 1) + 1) (v + 1)"

lemma ue_code_value: "be_value (ue_code v) = v + 1" "length (ue_code v) = 2 * ilog2 (v + 1) + 1"
proof -
  have "v + 1 < 2 ^ (ilog2 (v + 1) + 1)" using ilog2_bounds [of "v + 1"] by simp
  also have "\<dots> \<le> (2 :: nat) ^ (2 * ilog2 (v + 1) + 1)" by (intro power_increasing) simp_all
  finally show "be_value (ue_code v) = v + 1" by (simp add: ue_code_def value_bits take_bit_nat_eq_self)
qed (simp add: ue_code_def)

lemma ue_code_split: "ue_code v = replicate (ilog2 (v + 1)) False @ be_bits (ilog2 (v + 1) + 1) (v + 1)"
proof -
  define e where "e = ilog2 (v + 1)"
  have "v + 1 < 2 ^ (e + 1)" using ilog2_bounds [of "v + 1"] by (simp add: e_def)
  then have "drop_bit (e + 1) (v + 1) = 0" by (simp add: drop_bit_eq_div)
  moreover have "be_bits (2 * e + 1) (v + 1) = be_bits e (drop_bit (e + 1) (v + 1)) @ be_bits (e + 1) (v + 1)"
    using be_bits_add [of e "e + 1" "v + 1"] by (simp only: mult_2 add.assoc)
  ultimately show ?thesis unfolding ue_code_def e_def [symmetric] by simp
qed

lemma top_bit: "0 < n \<Longrightarrow> be_bits (ilog2 n + 1) n = True # be_bits (ilog2 n) n"
proof -
  assume "0 < n"
  then have "n div 2 ^ ilog2 n = 1" using ilog2_bounds [of n] by (intro div_nat_eqI) simp_all
  then show ?thesis using be_bits_Suc [of "ilog2 n" n] by (simp add: bit_iff_odd)
qed

text \<open>The tables of nine bits, checked entry by entry against the arithmetic.\<close>

definition ue_entry :: "int \<Rightarrow> int \<Rightarrow> int \<Rightarrow> bool" where
  "ue_entry i len code \<longleftrightarrow>
     (if len = 1 then 256 \<le> i \<and> i < 512 \<and> code + 1 = i div 256
      else if len = 3 then 128 \<le> i \<and> i < 256 \<and> code + 1 = i div 64
      else if len = 5 then 64 \<le> i \<and> i < 128 \<and> code + 1 = i div 16
      else if len = 7 then 32 \<le> i \<and> i < 64 \<and> code + 1 = i div 4
      else len = 9 \<and> 16 \<le> i \<and> i < 32 \<and> code + 1 = i)"

fun entries_from :: "int \<Rightarrow> (int \<Rightarrow> int \<Rightarrow> int \<Rightarrow> bool) \<Rightarrow> int list \<Rightarrow> int list \<Rightarrow> bool" where
  "entries_from i P [] [] = True"
| "entries_from i P (x # xs) (y # ys) = (P i x y \<and> entries_from (i + 1) P xs ys)"
| "entries_from i P _ _ = False"

lemma ue_tables: "entries_from 16 ue_entry (drop 16 ff_golomb_vlc_len) (drop 16 ff_ue_golomb_vlc_code)"
  by code_simp


lemma se_table: "entries_from 16 (\<lambda>_ u s. s = (if u mod 2 = 0 then - (u div 2) else u div 2 + 1)) (drop 16 ff_ue_golomb_vlc_code) (drop 16 ff_se_golomb_vlc_code)"
  by code_simp

definition len_entry :: "int \<Rightarrow> int \<Rightarrow> bool" where
  "len_entry i len \<longleftrightarrow>
     (if i < 1 then len = 1 else if i < 3 then len = 3 else if i < 7 then len = 5 else if i < 15 then len = 7 else if i < 31 then len = 9
      else if i < 63 then len = 11 else if i < 127 then len = 13 else if i < 255 then len = 15 else len = 17)"

lemma ue_len_table: "entries_from 0 (\<lambda>i l _. len_entry i l) ff_ue_golomb_len ff_ue_golomb_len"
  by code_simp

lemma table_lengths: "length ff_golomb_vlc_len = 512" "length ff_ue_golomb_vlc_code = 512" "length ff_se_golomb_vlc_code = 512" "length ff_ue_golomb_len = 256"
  by (simp_all add: ff_golomb_vlc_len_def ff_ue_golomb_vlc_code_def ff_se_golomb_vlc_code_def ff_ue_golomb_len_def)

lemma entries_nth: "entries_from k P xs ys \<Longrightarrow> i < length xs \<Longrightarrow> P (k + int i) (xs ! i) (ys ! i)"
proof (induction k P xs ys arbitrary: i rule: entries_from.induct)
  case (2 k P x xs y ys)
  then show ?case by (cases i) (auto simp: algebra_simps)
qed auto

lemma golomb_entry:
  assumes "16 \<le> i" "i < 512"
  shows "ue_entry (int i) (ff_golomb_vlc_len ! i) (ff_ue_golomb_vlc_code ! i)"
    "ff_se_golomb_vlc_code ! i = (if ff_ue_golomb_vlc_code ! i mod 2 = 0 then - (ff_ue_golomb_vlc_code ! i div 2) else ff_ue_golomb_vlc_code ! i div 2 + 1)"
  using entries_nth [OF ue_tables, of "i - 16"] entries_nth [OF se_table, of "i - 16"] assms by (simp_all add: table_lengths)

lemma ue_entry_range:
  "ue_entry i len code \<Longrightarrow> 256 \<le> i \<Longrightarrow> len = 1 \<and> code + 1 = i div 256"
  "ue_entry i len code \<Longrightarrow> 128 \<le> i \<Longrightarrow> i < 256 \<Longrightarrow> len = 3 \<and> code + 1 = i div 64"
  "ue_entry i len code \<Longrightarrow> 64 \<le> i \<Longrightarrow> i < 128 \<Longrightarrow> len = 5 \<and> code + 1 = i div 16"
  "ue_entry i len code \<Longrightarrow> 32 \<le> i \<Longrightarrow> i < 64 \<Longrightarrow> len = 7 \<and> code + 1 = i div 4"
  "ue_entry i len code \<Longrightarrow> i < 32 \<Longrightarrow> len = 9 \<and> code + 1 = i"
  by (simp_all add: ue_entry_def split: if_splits)

lemma ue_len_entry:
  assumes "v < 256"
  shows "nat (ff_ue_golomb_len ! v) = 2 * ilog2 (v + 1) + 1"
proof -
  have P: "len_entry (int v) (ff_ue_golomb_len ! v)" using entries_nth [OF ue_len_table, of v] assms by (simp add: table_lengths)
  define e where "e = ilog2 (v + 1)"
  have b: "2 ^ e \<le> v + 1" "v + 1 < 2 ^ (e + 1)" using ilog2_bounds [of "v + 1"] by (simp_all add: e_def)
  have "e < 9" unfolding e_def using assms by (intro ilog2_less) simp_all
  then consider "e = 0" | "e = 1" | "e = 2" | "e = 3" | "e = 4" | "e = 5" | "e = 6" | "e = 7" | "e = 8" by linarith
  then show ?thesis unfolding e_def [symmetric] using P b assms by cases (simp_all add: len_entry_def split: if_splits)
qed

section \<open>Decoding what was encoded\<close>

text \<open>What the first cache says when the stream starts with the code of \<open>v\<close>.\<close>

lemma ue_cache:
  assumes "take 25 (be_bits 32 c) = take 25 (ue_code v @ rest)" "e = ilog2 (v + 1)" "2 * e + 1 \<le> 25"
  shows "unat c div 2 ^ (31 - 2 * e) = v + 1" "2 ^ (31 - e) \<le> unat c" "unat c < 2 ^ (32 - e)" "av_log2 c = 31 - e"
proof -
  have n: "32 - (2 * e + 1) = 31 - 2 * e" by simp
  have "take (2 * e + 1) (ue_code v @ rest) = ue_code v" using ue_code_value(2) [of v] by (simp add: assms(2))
  then show q: "unat c div 2 ^ (31 - 2 * e) = v + 1" using cache_top [OF assms(3,1)] by (simp add: n ue_code_value)
  have V: "2 ^ e \<le> v + 1" "v + 1 + 1 \<le> 2 ^ (e + 1)" using ilog2_bounds [of "v + 1"] by (simp_all add: assms(2))
  have "2 ^ (31 - e) = 2 ^ e * (2 :: nat) ^ (31 - 2 * e)" using assms(3) by (simp flip: power_add)
  also have "\<dots> \<le> (v + 1) * 2 ^ (31 - 2 * e)" using V by (intro mult_right_mono) simp_all
  also have "\<dots> \<le> unat c" unfolding q [symmetric] by (rule div_times_less_eq_dividend)
  finally show lo: "2 ^ (31 - e) \<le> unat c" .
  have "unat c < (unat c div 2 ^ (31 - 2 * e) + 1) * 2 ^ (31 - 2 * e)" using dividend_less_div_times [of "2 ^ (31 - 2 * e)" "unat c"] by simp
  also have "\<dots> = (v + 1 + 1) * 2 ^ (31 - 2 * e)" by (simp only: q)
  also have "\<dots> \<le> 2 ^ (e + 1) * 2 ^ (31 - 2 * e)" using V by (intro mult_right_mono) simp_all
  also have "\<dots> = 2 ^ (32 - e)" using assms(3) by (simp flip: power_add power_Suc)
  finally show hi: "unat c < 2 ^ (32 - e)" .
  have "32 - e = 31 - e + 1" using assms(3) by simp
  then have "ilog2 (unat c) = 31 - e" using lo hi by (intro ilog2_unique) simp_all
  moreover have "0 < unat c" using lo by (metis le_zero_eq neq0_conv power_not_zero zero_neq_numeral)
  ultimately show "av_log2 c = 31 - e" by (simp add: av_log2_eq)
qed

lemma ue_short:
  fixes c :: u32
  assumes "take 25 (be_bits 32 c) = take 25 (ue_code v @ rest)" "e = ilog2 (v + 1)" "e \<le> 4"
  shows "push_bit 27 1 \<le> c" "ff_golomb_vlc_len ! unat (drop_bit 23 c) = int (2 * e + 1)" "ff_ue_golomb_vlc_code ! unat (drop_bit 23 c) = int v"
    "ff_se_golomb_vlc_code ! unat (drop_bit 23 c) = (if even v then - (int v div 2) else int v div 2 + 1)"
proof -
  define i where "i = unat c div 2 ^ 23"
  have i: "unat (drop_bit 23 c) = i" by (simp add: unat_drop_bit_div i_def)
  have n: "2 * e + 1 \<le> 25" using assms(3) by simp
  note u = ue_cache [OF assms(1,2) n]
  have "(2 :: nat) ^ 27 \<le> 2 ^ (31 - e)" using assms(3) by (intro power_increasing) simp_all
  then have big: "2 ^ 27 \<le> unat c" using u(2) by linarith
  then show "push_bit 27 1 \<le> c" by (simp add: word_le_nat_alt)
  have r: "16 \<le> i" "i < 512" using big unsigned_less [of c, where 'a = nat] by (simp_all add: i_def less_eq_div_iff_mult_less_eq div_less_iff_less_mult)
  have lo: "2 ^ (8 - e) \<le> i"
  proof -
    have "(2 :: nat) ^ (8 - e) * 2 ^ 23 = 2 ^ (31 - e)" using assms(3) by (simp only: power_add [symmetric])  simp
    then show ?thesis using u(2) by (simp add: i_def less_eq_div_iff_mult_less_eq)
  qed
  have hi: "i < 2 ^ (9 - e)"
  proof -
    have "(2 :: nat) ^ (9 - e) * 2 ^ 23 = 2 ^ (32 - e)" using assms(3) by (simp only: power_add [symmetric])  simp
    then show ?thesis using u(3) by (simp add: i_def div_less_iff_less_mult)
  qed
  have "i div 2 ^ (8 - 2 * e) = unat c div (2 ^ 23 * 2 ^ (8 - 2 * e))" by (simp only: i_def div_mult2_eq)
  also have "(2 :: nat) ^ 23 * 2 ^ (8 - 2 * e) = 2 ^ (31 - 2 * e)" using assms(3) by (simp only: power_add [symmetric])  simp
  finally have v: "i div 2 ^ (8 - 2 * e) = v + 1" using u(1) by simp
  from assms(3) consider "e = 0" | "e = 1" | "e = 2" | "e = 3" | "e = 4" by linarith
  then have "ff_golomb_vlc_len ! i = int (2 * e + 1) \<and> ff_ue_golomb_vlc_code ! i + 1 = int i div 2 ^ (8 - 2 * e)"
  proof cases
    case 1
    have "256 \<le> int i" using lo hi by (simp_all add: 1)
    then show ?thesis using ue_entry_range(1) [OF golomb_entry(1) [OF r]] by (simp add: 1)
  next
    case 2
    have "128 \<le> int i" "int i < 256" using lo hi by (simp_all add: 2)
    then show ?thesis using ue_entry_range(2) [OF golomb_entry(1) [OF r]] by (simp add: 2)
  next
    case 3
    have "64 \<le> int i" "int i < 128" using lo hi by (simp_all add: 3)
    then show ?thesis using ue_entry_range(3) [OF golomb_entry(1) [OF r]] by (simp add: 3)
  next
    case 4
    have "32 \<le> int i" "int i < 64" using lo hi by (simp_all add: 4)
    then show ?thesis using ue_entry_range(4) [OF golomb_entry(1) [OF r]] by (simp add: 4)
  next
    case 5
    have "int i < 32" using lo hi by (simp_all add: 5)
    then show ?thesis using ue_entry_range(5) [OF golomb_entry(1) [OF r]] by (simp add: 5)
  qed
  moreover have "int i div 2 ^ (8 - 2 * e) = int (v + 1)" unfolding v [symmetric] by (simp add: zdiv_int)
  ultimately have lc: "ff_golomb_vlc_len ! i = int (2 * e + 1)" "ff_ue_golomb_vlc_code ! i = int v" by simp_all
  then show "ff_golomb_vlc_len ! unat (drop_bit 23 c) = int (2 * e + 1)" "ff_ue_golomb_vlc_code ! unat (drop_bit 23 c) = int v" by (simp_all add: i)
  have "int v mod 2 = 0 \<longleftrightarrow> even v" by presburger
  then show "ff_se_golomb_vlc_code ! unat (drop_bit 23 c) = (if even v then - (int v div 2) else int v div 2 + 1)"
    unfolding i golomb_entry(2) [OF r] lc(2) by (rule if_cong) (rule refl)+
qed

lemma sint_of_nat_small: "n < 2 ^ 31 \<Longrightarrow> sint (of_nat n :: u32) = int n"
  by (simp add: signed_of_nat signed_take_bit_int_eq_self)

lemma word_of_nat_minus_1: "0 < n \<Longrightarrow> of_nat n - 1 = (of_nat (n - 1) :: 'a::len word)"
  by (simp add: of_nat_diff)

lemma be_bits_word: "n \<le> LENGTH('a) \<Longrightarrow> be_bits n (of_nat m :: 'a::len word) = be_bits n m"
  by (rule be_bits_cong) (simp add: bit_of_nat_iff)

lemma put_bits_number:
  assumes "n \<le> 63" "m < 2 ^ n"
  shows "appends (be_bits n m) pb (put_bits pb n (of_nat m))" "appends (be_bits n m) pb (put_bits63 pb n (of_nat m))"
proof -
  have "take_bit n (of_nat m :: u64) = of_nat m" using assms by (metis of_nat_take_bit take_bit_nat_eq_self)
  then show "appends (be_bits n m) pb (put_bits pb n (of_nat m))" "appends (be_bits n m) pb (put_bits63 pb n (of_nat m))"
    using put_bits_appends [of n "of_nat m" pb] put_bits63_appends [of n "of_nat m" pb] assms(1) be_bits_word [of n m, where 'a = 64] by simp_all
qed

lemma number_assert:
  assumes "m < 2 ^ n"
  shows "n \<le> 31 \<Longrightarrow> put_bits_assert n (of_nat m)" "n < 64 \<Longrightarrow> put_bits63_assert n (of_nat m)"
proof -
  have "(of_nat m :: u64) < push_bit n 1" if "n < 64"
  proof -
    have p: "(2 :: nat) ^ n < 2 ^ 64" using that by (intro power_strict_increasing) simp_all
    then have "unat (of_nat m :: u64) = m" using assms by (simp add: unsigned_of_nat take_bit_nat_eq_self)
    moreover have "(push_bit n 1 :: u64) = of_nat (2 ^ n)" by (simp add: push_bit_eq_mult)
    then have "unat (push_bit n 1 :: u64) = 2 ^ n" using p that by (simp only: unsigned_of_nat) (simp add: take_bit_nat_eq_self)
    ultimately show ?thesis using assms by (simp add: word_less_nat_alt)
  qed
  then show "n \<le> 31 \<Longrightarrow> put_bits_assert n (of_nat m)" "n < 64 \<Longrightarrow> put_bits63_assert n (of_nat m)"
    by (simp_all add: put_bits_assert_def put_bits63_assert_def)
qed

lemma code_length_bound: "0 < m \<Longrightarrow> m < 2 ^ (2 * ilog2 m + 1)"
proof -
  assume "0 < m"
  then have "m < 2 ^ (ilog2 m + 1)" using ilog2_bounds [of m] by simp
  also have "\<dots> \<le> 2 ^ (2 * ilog2 m + 1)" by (intro power_increasing) simp_all
  finally show ?thesis .
qed

text \<open>The writers append the code.\<close>

lemma set_ue_golomb_call:
  assumes "v \<le> 0xFFFE"
  shows "set_ue_golomb pb v = put_bits pb (2 * ilog2 (v + 1) + 1) (of_nat (v + 1))" "put_bits_assert (2 * ilog2 (v + 1) + 1) (of_nat (v + 1))"
    "appends (ue_code v) pb (set_ue_golomb pb v)"
proof -
  define e where "e = ilog2 (v + 1)"
  have e: "e < 16" unfolding e_def using assms by (intro ilog2_less) simp_all
  have b: "v + 1 < 2 ^ (2 * e + 1)" unfolding e_def by (rule code_length_bound) simp
  then show "put_bits_assert (2 * ilog2 (v + 1) + 1) (of_nat (v + 1))" unfolding e_def [symmetric] using e by (intro number_assert(1)) simp_all
  have a: "appends (ue_code v) pb (put_bits pb (2 * e + 1) (of_nat (v + 1)))"
    unfolding ue_code_def e_def [symmetric] using e b by (intro put_bits_number(1)) simp_all
  have "unat (of_nat (v + 1) :: u32) = v + 1" using assms by (simp only: unsigned_of_nat) (simp add: take_bit_nat_eq_self)
  then have "av_log2 (of_nat (v + 1)) = e" using av_log2_eq [of "of_nat (v + 1)"] by (simp only: e_def)
  moreover have "v < 256 \<Longrightarrow> nat (ff_ue_golomb_len ! v) = 2 * e + 1" unfolding e_def by (rule ue_len_entry)
  ultimately show c: "set_ue_golomb pb v = put_bits pb (2 * ilog2 (v + 1) + 1) (of_nat (v + 1))"
    unfolding e_def [symmetric] by (simp add: set_ue_golomb_def)
  show "appends (ue_code v) pb (set_ue_golomb pb v)" using a unfolding c e_def [symmetric] .
qed

lemmas set_ue_golomb_appends = set_ue_golomb_call(3)

lemma unat_less_max: "v \<noteq> - 1 \<Longrightarrow> unat v + 1 < 2 ^ 32" for v :: u32
proof -
  assume "v \<noteq> - 1"
  then have "unat v \<noteq> unat (- 1 :: u32)" by (simp add: word_unat_eq_iff)
  moreover have "unat (- 1 :: u32) = 2 ^ 32 - 1" by (simp add: unsigned_minus_1_eq_mask mask_eq_exp_minus_1)
  moreover have "unat v < 2 ^ 32" using unsigned_less [of v, where 'a = nat] by simp
  ultimately show ?thesis by linarith
qed

lemma set_ue_golomb_long_call:
  assumes "v \<noteq> - 1"
  shows "appends (ue_code (unat v)) pb (set_ue_golomb_long pb v)"
    "\<exists>n w. set_ue_golomb_long pb v = (if v < 256 then put_bits pb n w else put_bits63 pb n w) \<and>
      (if v < 256 then put_bits_assert n w else put_bits63_assert n w)"
proof -
  define m where "m = unat v"
  have m: "m + 1 < 2 ^ 32" using unat_less_max [OF assms] by (simp add: m_def)
  define e where "e = ilog2 (m + 1)"
  have e: "e < 32" unfolding e_def using m by (intro ilog2_less) simp_all
  have v1: "unat (v + 1) = m + 1" using m unat_plus_if' [of v 1] by (simp add: m_def)
  then have w: "ucast (v + 1) = (of_nat (m + 1) :: u64)" by (metis of_nat_unat)
  have b: "m + 1 < 2 ^ (2 * e + 1)" unfolding e_def by (rule code_length_bound) simp
  then have a: "appends (ue_code m) pb (put_bits pb (2 * e + 1) (of_nat (m + 1)))" "appends (ue_code m) pb (put_bits63 pb (2 * e + 1) (of_nat (m + 1)))"
    unfolding ue_code_def e_def [symmetric] using e by (intro put_bits_number; simp)+
  have "av_log2 (v + 1) = e" using av_log2_eq [of "v + 1"] v1 by (simp add: e_def)
  moreover have "m < 256 \<Longrightarrow> nat (ff_ue_golomb_len ! m) = 2 * e + 1" unfolding e_def by (rule ue_len_entry)
  moreover have lt: "v < 256 \<longleftrightarrow> m < 256" by (simp add: word_less_nat_alt m_def)
  ultimately have c: "set_ue_golomb_long pb v =
      (if v < 256 then put_bits pb (2 * e + 1) (of_nat (m + 1)) else put_bits63 pb (2 * e + 1) (of_nat (m + 1)))"
    unfolding set_ue_golomb_long_def w m_def [symmetric] by simp
  then show "appends (ue_code (unat v)) pb (set_ue_golomb_long pb v)" using a unfolding m_def [symmetric] by simp
  have "2 * e + 1 \<le> 31" if "v < 256" unfolding e_def using that lt ilog2_less [of "m + 1" 9] by simp
  then have "if v < 256 then put_bits_assert (2 * e + 1) (of_nat (m + 1)) else put_bits63_assert (2 * e + 1) (of_nat (m + 1))"
    using number_assert [OF b] e by simp
  with c show "\<exists>n w. set_ue_golomb_long pb v = (if v < 256 then put_bits pb n w else put_bits63 pb n w) \<and>
      (if v < 256 then put_bits_assert n w else put_bits63_assert n w)" by blast
qed

lemmas set_ue_golomb_long_appends = set_ue_golomb_long_call(1)

text \<open>The readers take it off.\<close>

lemma get_ue_golomb_code:
  assumes "gb_inv gb" "gb_stream gb = ue_code v @ rest" "v \<le> 8190"
  shows "get_ue_golomb gb = Some (int v, advance (length (ue_code v)) gb)"
proof -
  define e where "e = ilog2 (v + 1)"
  have e: "e < 13" unfolding e_def using assms(3) by (intro ilog2_less) simp_all
  obtain c where c: "update_cache gb = Some c" "take 25 (be_bits 32 c) = take 25 (ue_code v @ rest)" using update_cache_bits [OF assms(1)] assms(2) by metis
  have len: "length (ue_code v) = 2 * e + 1" by (simp add: ue_code_value e_def)
  have skip: "skip_counter gb (int (2 * e + 1)) = advance (2 * e + 1) gb" using e by (intro skip_counter_advance [OF assms(1)]) simp
  show ?thesis
  proof (cases "e \<le> 4")
    case True
    note u = ue_short [OF c(2) e_def True]
    show ?thesis unfolding get_ue_golomb_def c(1) using u skip by (simp add: len Let_def)
  next
    case False
    have "2 * e + 1 \<le> 25" using e by simp
    note u = ue_cache [OF c(2) e_def this]
    have "2 ^ (32 - e) \<le> (2 :: nat) ^ 27" using False by (intro power_increasing) simp_all
    then have small: "\<not> push_bit 27 1 \<le> c" using u(3) by (simp add: word_le_nat_alt)
    define l where "l = 31 - 2 * e"
    have l: "2 * int (av_log2 c) - 31 = int l" "\<not> int l < 7" "32 - int l = int (2 * e + 1)" using e by (simp_all add: u(4) l_def)
    have "unat (drop_bit l c) = v + 1" using u(1) by (simp add: unat_drop_bit_div l_def)
    then have "drop_bit l c - 1 = of_nat v" by (metis add_diff_cancel_right' of_nat_1 of_nat_add of_nat_unat unsigned_ucast_eq ucast_id)
    then have "sint (drop_bit l c - 1) = int v" using sint_of_nat_small [of v] assms(3) by simp
    moreover have "skip_counter gb (32 - int l) = advance (2 * e + 1) gb" using skip by (simp only: l(3))
    ultimately show ?thesis unfolding get_ue_golomb_def c(1) using small l(1,2) by (simp add: len Let_def)
  qed
qed

text \<open>A long run of zeros is no code.\<close>

lemma get_ue_golomb_invalid:
  assumes "gb_inv gb" "take 13 (gb_stream gb) = replicate 13 False"
  shows "\<exists>n. get_ue_golomb gb = Some (AVERROR INVALIDDATA, advance n gb) \<and> 27 \<le> n \<and> n \<le> 63"
proof -
  obtain c where c: "update_cache gb = Some c" "take 25 (be_bits 32 c) = take 25 (gb_stream gb)" by (rule update_cache_bits [OF assms(1)])
  have "gb_stream gb = replicate 13 False @ drop 13 (gb_stream gb)" unfolding assms(2) [symmetric] by simp
  then have c13: "take 25 (be_bits 32 c) = take 25 (replicate 13 False @ drop 13 (gb_stream gb))" using c(2) by simp
  have z: "unat c < 2 ^ 19" and lg: "av_log2 c < 19" using cache_zeros [OF c13] by simp_all
  then have small: "\<not> push_bit 27 1 \<le> c" by (simp add: word_le_nat_alt)
  define n where "n = 63 - 2 * av_log2 c"
  have n: "32 - (2 * int (av_log2 c) - 31) = int n" "2 * int (av_log2 c) - 31 < 7" "27 \<le> n" "n \<le> 63" using lg by (simp_all add: n_def)
  have "skip_counter gb (int n) = advance n gb" using n by (intro skip_counter_advance [OF assms(1)]) simp
  then have "get_ue_golomb gb = Some (AVERROR INVALIDDATA, advance n gb)"
    unfolding get_ue_golomb_def c(1) using small n by (simp add: Let_def del: AVERROR.simps)
  then show ?thesis using n by blast
qed

text \<open>Any other stream starts with a code.\<close>

lemma leading_zeros: "n \<le> length bs \<Longrightarrow> (\<exists>z < n. \<exists>r. bs = replicate z False @ True # r) \<or> take n bs = replicate n False"
proof (induction n arbitrary: bs)
  case (Suc n)
  obtain b bs' where bs: "bs = b # bs'" using Suc.prems by (cases bs) auto
  show ?case
  proof (cases b)
    case True
    then have "bs = replicate 0 False @ True # bs'" by (simp add: bs)
    then show ?thesis by blast
  next
    case False
    from Suc.IH [of bs'] Suc.prems consider z r where "z < n" "bs' = replicate z False @ True # r" | "take n bs' = replicate n False" by (auto simp: bs)
    then show ?thesis
    proof cases
      case 1
      then have "bs = replicate (Suc z) False @ True # r" using False by (simp add: bs)
      then show ?thesis using 1(1) by blast
    qed (simp add: bs False)
  qed
qed simp

lemma ue_code_exists:
  assumes "bs = replicate z False @ True # r" "z \<le> length r"
  shows "bs = ue_code (be_value (take z r) + 2 ^ z - 1) @ drop z r" "ilog2 (be_value (take z r) + 2 ^ z) = z"
proof -
  define v where "v = be_value (take z r) + 2 ^ z - 1"
  have b: "be_value (take z r) < 2 ^ z" using value_less(1) [of "take z r"] assms(2) by (simp add: min_absorb2)
  then show l: "ilog2 (be_value (take z r) + 2 ^ z) = z" by (intro ilog2_unique) simp_all
  have v: "v + 1 = be_value (True # take z r)" using assms(2) by (simp add: v_def be_value_Cons)
  have "be_bits (z + 1) (v + 1) = True # take z r" using bits_value(1) [of "True # take z r"] assms(2) unfolding v by (simp add: min_absorb2)
  moreover have "ilog2 (v + 1) = z" using l by (simp add: v_def)
  ultimately have "ue_code v = replicate z False @ True # take z r" by (simp add: ue_code_split)
  then show "bs = ue_code (be_value (take z r) + 2 ^ z - 1) @ drop z r" using assms(1) unfolding v_def [symmetric] by simp
qed

lemma get_ue_golomb_31_code:
  assumes "gb_inv gb" "gb_stream gb = ue_code v @ rest" "v \<le> 30"
  shows "get_ue_golomb_31 gb = Some (int v, advance (length (ue_code v)) gb)"
proof -
  define e where "e = ilog2 (v + 1)"
  have "e < 5" unfolding e_def using assms(3) by (intro ilog2_less) simp_all
  then have e: "e \<le> 4" by simp
  obtain c where c: "update_cache gb = Some c" "take 25 (be_bits 32 c) = take 25 (ue_code v @ rest)" using update_cache_bits [OF assms(1)] assms(2) by metis
  have "skip_counter gb (int (2 * e + 1)) = advance (2 * e + 1) gb" using e by (intro skip_counter_advance [OF assms(1)]) simp
  then show ?thesis unfolding get_ue_golomb_31_def c(1) using ue_short [OF c(2) e_def e] by (simp add: Let_def ue_code_value e_def)
qed

lemma word_of_bits_nat: "length bs \<le> LENGTH('a) \<Longrightarrow> word_of_bits bs = (of_nat (be_value bs) :: 'a::len word)"
  by (metis of_nat_unat unat_word_of_bits unsigned_ucast_eq ucast_id)

lemma get_ue_golomb_long_code:
  assumes "gb_inv gb" "bits_ready (length (ue_code (unat v))) gb" "gb_stream gb = ue_code (unat v) @ rest" "v \<noteq> - 1"
  shows "get_ue_golomb_long gb = Some (v, advance (length (ue_code (unat v))) gb)"
proof -
  define m where "m = unat v"
  have m: "m + 1 < 2 ^ 32" using unat_less_max [OF assms(4)] by (simp add: m_def)
  define e where "e = ilog2 (m + 1)"
  have e: "e < 32" unfolding e_def using m by (intro ilog2_less) simp_all
  have b: "2 ^ e \<le> m + 1" "m + 1 < 2 ^ (e + 1)" using ilog2_bounds [of "m + 1"] by (simp_all add: e_def)
  have len: "length (ue_code m) = 2 * e + 1" by (simp add: ue_code_value e_def)
  have st: "gb_stream gb = replicate e False @ be_bits (e + 1) (m + 1) @ rest" using assms(3) by (simp add: m_def [symmetric] ue_code_split e_def)
  define w where "w = (word_of_bits (take 32 (gb_stream gb)) :: u32)"
  define rs where "rs = take (31 - e) (be_bits e (m + 1) @ rest)"
  have "be_bits (e + 1) (m + 1) = True # be_bits e (m + 1)" unfolding e_def by (rule top_bit) simp
  moreover have "32 - e = Suc (31 - e)" using e by simp
  ultimately have "take 32 (gb_stream gb) = replicate e False @ True # rs" unfolding st rs_def using e by simp
  moreover have "length (take 32 (gb_stream gb)) = 32" using length_gb_stream [OF assms(1)] by simp
  ultimately have "unat w = be_value (True # rs)" "length rs = 31 - e" unfolding w_def by (simp_all add: unat_word_of_bits)
  then have w: "2 ^ (31 - e) \<le> unat w" "unat w < 2 ^ (31 - e + 1)" using value_less(1) [of rs] by (simp_all add: be_value_Cons)
  have "ilog2 (unat w) = 31 - e" using w by (intro ilog2_unique) simp_all
  moreover have "0 < unat w" using w(1) by (metis le_zero_eq neq0_conv power_not_zero zero_neq_numeral)
  ultimately have lg: "31 - av_log2 w = e" using e by (simp add: av_log2_eq)
  have sh: "show_bits_long gb 32 = Some w" using get_bits_long_spec [OF assms(1), of 32] by (simp add: show_bits_long_def w_def)
  have r: "bits_ready e gb" using assms(2) by (rule bits_ready_mono) (simp add: m_def [symmetric] len)
  have "gb_stream (advance e gb) = be_bits (e + 1) (m + 1) @ rest" using advance_stream(1) [OF assms(1) r] by (simp add: st)
  then have "get_bits_long (advance e gb) (e + 1) = Some (of_nat (m + 1), advance (e + 1) (advance e gb))"
    using get_bits_long_spec [of "advance e gb" "e + 1"] assms(1) e b by (simp add: word_of_bits_nat value_bits take_bit_nat_eq_self)
  moreover have "of_nat (m + 1) - 1 = v" by (simp add: m_def)
  moreover have "advance (e + 1) (advance e gb) = advance (2 * e + 1) gb" using assms(1) by (simp add: mult_2)
  ultimately show ?thesis unfolding get_ue_golomb_long_def sh m_def [symmetric] len
    using skip_bits_long_advance [OF assms(1), of e] by (simp add: Let_def lg)
qed

text \<open>Signed codes: 0, 1, -1, 2, -2 and so on.\<close>

definition se_of :: "nat \<Rightarrow> int" where
  "se_of u = (if even u then - (int u div 2) else int u div 2 + 1)"

definition se_index :: "int \<Rightarrow> nat" where
  "se_index i = (if 0 < i then nat (2 * i - 1) else nat (- 2 * i))"

lemma se_of_index [simp]: "se_of (se_index i) = i"
  by (auto simp: se_of_def se_index_def even_nat_iff)

lemma set_se_golomb_index: "set_se_golomb pb i = set_ue_golomb pb (se_index i)"
  by (simp add: set_se_golomb_def se_index_def bit.xor_one_right not_int_def Let_def)

text \<open>The sign trick on words: the lowest bit negates the rest.\<close>

lemma word_half_sign:
  fixes w :: u32
  assumes "unat w = m" "m < 2 ^ 31"
  shows "sint ((drop_bit 1 w XOR - (w AND 1)) - - (w AND 1)) = (if even m then int (m div 2) else - int (m div 2))"
    "sint ((drop_bit 1 w XOR ((w AND 1) - 1)) + 1) = (if even m then - int (m div 2) else int (m div 2) + 1)"
    "sint (drop_bit 1 w XOR - (w AND 1)) = (if even m then int (m div 2) else - int (m div 2) - 1)"
proof -
  define h where "h = m div 2"
  have "unat (drop_bit 1 w) = h" using assms(1) by (simp add: unat_drop_bit_div h_def)
  then have d: "drop_bit 1 w = of_nat h" by (metis of_nat_unat unsigned_ucast_eq ucast_id)
  have "bit w 0 \<longleftrightarrow> bit (unat w) 0" by (simp only: bit_unsigned_iff) simp
  then have "odd w \<longleftrightarrow> odd m" by (simp add: bit_0 assms(1))
  then have a: "w AND 1 = of_bool (odd m)" by (simp add: and_one_eq mod_2_eq_odd)
  have h: "h + 1 < 2 ^ 31" using assms(2) by (simp add: h_def)
  have p: "sint (of_nat h :: u32) = int h" "sint (of_nat h + 1 :: u32) = int h + 1" using sint_of_nat_small [of h] sint_of_nat_small [of "h + 1"] h by (simp_all add: add.commute)
  have n: "sint (- of_nat h :: u32) = - int h" "sint (- of_nat h - 1 :: u32) = - int h - 1"
    using signed_of_int [of "- int h", where 'a = int and 'b = 32] signed_of_int [of "- int h - 1", where 'a = int and 'b = 32] h
    by (simp_all add: signed_take_bit_int_eq_self)
  show "sint ((drop_bit 1 w XOR - (w AND 1)) - - (w AND 1)) = (if even m then int (m div 2) else - int (m div 2))"
    "sint ((drop_bit 1 w XOR ((w AND 1) - 1)) + 1) = (if even m then - int (m div 2) else int (m div 2) + 1)"
    "sint (drop_bit 1 w XOR - (w AND 1)) = (if even m then int (m div 2) else - int (m div 2) - 1)"
    unfolding d a h_def [symmetric] by (simp_all add: p n not_eq_complement)
qed

lemma get_se_golomb_code:
  assumes "gb_inv gb" "bits_ready (length (ue_code v)) gb" "gb_stream gb = ue_code v @ rest" "v < 2 ^ 25 - 1"
  shows "get_se_golomb gb = Some (se_of v, advance (length (ue_code v)) gb)"
proof -
  define e where "e = ilog2 (v + 1)"
  have e: "e \<le> 24" using ilog2_less [of "v + 1" 25] assms(4) by (simp add: e_def)
  obtain c where c: "update_cache gb = Some c" "take 25 (be_bits 32 c) = take 25 (ue_code v @ rest)" using update_cache_bits [OF assms(1)] assms(3) by metis
  have len: "length (ue_code v) = 2 * e + 1" by (simp add: ue_code_value e_def)
  show ?thesis
  proof (cases "e \<le> 4")
    case True
    have "skip_counter gb (int (2 * e + 1)) = advance (2 * e + 1) gb" using e by (intro skip_counter_advance [OF assms(1)]) simp
    then show ?thesis unfolding get_se_golomb_def c(1) using ue_short [OF c(2) e_def True] by (simp add: len Let_def se_of_def)
  next
    case False
    define l where "l = 31 - e"
    have l: "31 - int l = int e" "32 - int l = int (e + 1)" using e by (simp_all add: l_def)
    have st: "gb_stream gb = replicate e False @ be_bits (e + 1) (v + 1) @ rest" using assms(3) by (simp add: ue_code_split e_def)
    have "ue_code v @ rest = replicate e False @ True # be_bits e (v + 1) @ rest" using top_bit [of "v + 1"] by (simp add: ue_code_split e_def)
    note lg = cache_leading [OF c(2) [unfolded this] e]
    have "2 ^ (31 - e + 1) \<le> (2 :: nat) ^ 27" using False by (intro power_increasing) simp_all
    then have small: "\<not> push_bit 27 1 \<le> c" using lg(2) by (simp add: word_le_nat_alt)
    have r: "bits_ready e gb" using assms(2) by (rule bits_ready_mono) (simp add: len)
    have st1: "gb_stream (advance e gb) = be_bits (e + 1) (v + 1) @ rest" using advance_stream(1) [OF assms(1) r] by (simp add: st)
    obtain c1 where c1: "update_cache (advance e gb) = Some c1" "take 25 (be_bits 32 c1) = take 25 (be_bits (e + 1) (v + 1) @ rest)"
      using update_cache_bits [of "advance e gb"] assms(1) st1 by (metis advance_inv)
    have b: "v + 1 < 2 ^ (e + 1)" using ilog2_bounds [of "v + 1"] by (simp add: e_def)
    have "unat c1 div 2 ^ l = v + 1" using cache_top [OF _ c1(2), of "e + 1"] b e by (simp add: l_def value_bits take_bit_nat_eq_self)
    then have "unat (drop_bit l c1) = v + 1" by (simp add: unat_drop_bit_div)
    note w = word_half_sign(1) [OF this]
    have "(if even (v + 1) then int ((v + 1) div 2) else - int ((v + 1) div 2)) = se_of v" by (auto simp: se_of_def zdiv_int elim!: oddE evenE)
    then have "sint ((drop_bit 1 (drop_bit l c1) XOR - (drop_bit l c1 AND 1)) - - (drop_bit l c1 AND 1)) = se_of v" using w assms(4) by simp
    moreover have "skip_counter gb (31 - int l) = advance e gb" "skip_counter (advance e gb) (32 - int l) = advance (2 * e + 1) gb"
      using e assms(1) unfolding l by (subst skip_counter_advance; simp add: mult_2)+
    ultimately show ?thesis unfolding get_se_golomb_def c(1) len using small lg(3) [folded l_def] c1(1) by (simp only: Option.bind.simps Let_def if_False)
  qed
qed

lemma get_se_golomb_long_code:
  assumes "gb_inv gb" "bits_ready (length (ue_code v)) gb" "gb_stream gb = ue_code v @ rest" "v < 2 ^ 31"
  shows "get_se_golomb_long gb = Some (se_of v, advance (length (ue_code v)) gb)"
proof -
  have v: "unat (of_nat v :: u32) = v" using assms(4) by (simp add: unsigned_of_nat take_bit_nat_eq_self)
  have n: "of_nat v \<noteq> (- 1 :: u32)" using v assms(4) by (auto simp: unsigned_minus_1_eq_mask mask_eq_exp_minus_1)
  have "(if even v then - int (v div 2) else int (v div 2) + 1) = se_of v" by (simp add: se_of_def zdiv_int)
  then show ?thesis using get_ue_golomb_long_code [of gb "of_nat v" rest] assms n word_half_sign(2) [OF v assms(4)]
    by (simp add: get_se_golomb_long_def v Let_def)
qed

section \<open>Rice codes\<close>

lemma be_bits_take [simp]: "be_bits n (take_bit n a) = be_bits n a"
  by (rule be_bits_cong) (simp add: bit_take_bit_iff)

lemma be_bits_small: "m < 2 ^ n \<Longrightarrow> be_bits (z + n) m = replicate z False @ be_bits n m" for m :: nat
  by (simp add: be_bits_add drop_bit_eq_div)

text \<open>The quotient in unary, a one, and the remainder in \<open>k\<close> bits.\<close>

definition rice_code :: "nat \<Rightarrow> nat \<Rightarrow> bool list" where
  "rice_code k i = replicate (i div 2 ^ k) False @ True # be_bits k i"

lemma length_rice_code [simp]: "length (rice_code k i) = i div 2 ^ k + k + 1"
  by (simp add: rice_code_def)

lemma rice_code_number: "be_bits (i div 2 ^ k + k + 1) (2 ^ k + i mod 2 ^ k) = rice_code k i"
proof -
  define m where "m = 2 ^ k + i mod 2 ^ k"
  have r: "i mod 2 ^ k < 2 ^ k" by simp
  then have m: "2 ^ k \<le> m" "m < 2 ^ (k + 1)" "0 < m" by (simp_all add: m_def)
  have "be_bits (k + 1) m = True # be_bits k m" using top_bit [OF m(3)] ilog2_unique [OF m(1,2)] by simp
  moreover have "take_bit k m = take_bit k i" by (simp add: m_def take_bit_eq_mod)
  then have "be_bits k m = be_bits k i" by (metis be_bits_take)
  ultimately show ?thesis using be_bits_small [OF m(2), of "i div 2 ^ k"] by (simp add: rice_code_def m_def [symmetric])
qed

text \<open>The value a reader computes from a cache that holds the whole code.\<close>

lemma rice_cache_value:
  assumes "take 25 (be_bits 32 c) = take 25 (rice_code k i @ rest)" "i div 2 ^ k + k + 1 \<le> 25" "i < 2 ^ 31"
  shows "av_log2 c = 31 - i div 2 ^ k" "sint (drop_bit (av_log2 c - k) c + push_bit k (30 - of_nat (av_log2 c))) = int i"
proof -
  define e where "e = i div 2 ^ k"
  have e: "e + k + 1 \<le> 25" using assms(2) by (simp add: e_def)
  have "take 25 (be_bits 32 c) = take 25 (replicate e False @ True # be_bits k i @ rest)" using assms(1) by (simp add: rice_code_def e_def)
  then show lg: "av_log2 c = 31 - i div 2 ^ k" using cache_leading(3) [of c e] e by (simp add: e_def)
  have n: "32 - (e + k + 1) = 31 - e - k" by simp
  have "take (e + k + 1) (rice_code k i @ rest) = rice_code k i" by (simp add: e_def)
  then have "unat c div 2 ^ (31 - e - k) = be_value (rice_code k i)" using cache_top [OF e, of c "rice_code k i @ rest"] assms(1) by (simp only: n)
  also have "\<dots> = 2 ^ k + i mod 2 ^ k" by (simp add: rice_code_def be_value_Cons value_bits take_bit_eq_mod)
  finally have "unat (drop_bit (31 - e - k) c) = 2 ^ k + i mod 2 ^ k" by (simp add: unat_drop_bit_div)
  then have d: "drop_bit (31 - e - k) c = of_nat (2 ^ k + i mod 2 ^ k)" by (metis of_nat_unat unsigned_ucast_eq ucast_id)
  have "of_nat (31 - e) = (31 :: u32) - of_nat e" using e by (simp add: of_nat_diff)
  then have w: "30 - of_nat (31 - e) = (of_nat e - 1 :: u32)" by simp
  then have "drop_bit (31 - e - k) c + push_bit k (30 - of_nat (31 - e)) = of_nat (2 ^ k + i mod 2 ^ k) + (of_nat e - 1) * 2 ^ k"
    unfolding d w by (simp add: push_bit_eq_mult)
  also have "\<dots> = of_nat (i mod 2 ^ k + e * 2 ^ k)" by (simp add: algebra_simps)
  also have "i mod 2 ^ k + e * 2 ^ k = i" unfolding e_def by (rule mod_div_mult_eq)
  finally have "drop_bit (31 - e - k) c + push_bit k (30 - of_nat (31 - e)) = of_nat i" .
  then show "sint (drop_bit (av_log2 c - k) c + push_bit k (30 - of_nat (av_log2 c))) = int i"
    unfolding lg e_def [symmetric] using sint_of_nat_small [OF assms(3)] by simp
qed

text \<open>FFV1: after \<open>limit\<close> zeros the rest of the number follows in \<open>esc\<close> bits.\<close>

definition ur_code :: "nat \<times> nat \<times> nat \<Rightarrow> nat \<Rightarrow> bool list" where
  "ur_code = (\<lambda>(k, limit, esc) i. if i div 2 ^ k < limit then rice_code k i else replicate limit False @ be_bits esc (i - limit + 1))"

definition ur_ok :: "nat \<times> nat \<times> nat \<Rightarrow> nat \<Rightarrow> bool" where
  "ur_ok = (\<lambda>(k, limit, esc) i. i < 2 ^ 31 \<and> limit \<le> 25 \<and> 0 < esc \<and> esc \<le> 25 \<and> limit + esc \<le> 31 \<and>
     (if i div 2 ^ k < limit then i div 2 ^ k + k + 1 \<le> 25 else i - limit + 1 < 2 ^ esc))"

lemma set_ur_golomb_call:
  assumes "ur_ok (k, limit, esc) i"
  shows "appends (ur_code (k, limit, esc) i) pb (set_ur_golomb pb i k limit esc) \<and>
    (\<exists>n w. set_ur_golomb pb i k limit esc = put_bits pb n w \<and> put_bits_assert n w)"
proof (cases "i div 2 ^ k < limit")
  case True
  have ok: "i < 2 ^ 31" "i div 2 ^ k + k + 1 \<le> 25" using assms True by (simp_all add: ur_ok_def)
  have r: "i mod 2 ^ k < 2 ^ k" by simp
  have k: "(2 :: nat) ^ k \<le> 2 ^ 24" using ok(2) by (intro power_increasing) simp_all
  have "ucast (av_zero_extend_c (of_nat i) k) = (ucast (of_nat (i mod 2 ^ k) :: u32) :: u64)"
    using ok(2) by (simp add: av_zero_extend_take of_nat_take_bit [symmetric] take_bit_eq_mod [of k i])
  also have "\<dots> = of_nat (i mod 2 ^ k)" using less_le_trans [OF r k] by (simp add: unsigned_of_nat take_bit_nat_eq_self)
  finally have w: "push_bit k 1 + ucast (av_zero_extend_c (of_nat i) k) = (of_nat (2 ^ k + i mod 2 ^ k) :: u64)" by (simp add: push_bit_eq_mult)
  have "2 ^ k + i mod 2 ^ k < 2 ^ (k + 1)" using r by simp
  also have "\<dots> \<le> 2 ^ (i div 2 ^ k + k + 1)" by (intro power_increasing) simp_all
  finally have b: "2 ^ k + i mod 2 ^ k < 2 ^ (i div 2 ^ k + k + 1)" .
  then have "appends (rice_code k i) pb (put_bits pb (i div 2 ^ k + k + 1) (push_bit k 1 + ucast (av_zero_extend_c (of_nat i) k)))"
    unfolding w rice_code_number [symmetric] using ok(2) by (intro put_bits_number(1)) simp_all
  moreover have "put_bits_assert (i div 2 ^ k + k + 1) (push_bit k 1 + ucast (av_zero_extend_c (of_nat i) k))"
    unfolding w using ok(2) by (intro number_assert(1) [OF b]) simp
  moreover have "set_ur_golomb pb i k limit esc = put_bits pb (i div 2 ^ k + k + 1) (push_bit k 1 + ucast (av_zero_extend_c (of_nat i) k))"
    using True by (simp add: set_ur_golomb_def drop_bit_eq_div Let_def)
  ultimately show ?thesis using True unfolding ur_code_def by auto
next
  case False
  have ok: "limit + esc \<le> 31" "i - limit + 1 < 2 ^ esc" using assms False by (simp_all add: ur_ok_def)
  have "limit \<le> i" using False by (metis div_le_dividend le_trans not_less)
  then have w: "of_nat i - of_nat limit + 1 = (of_nat (i - limit + 1) :: u64)" by (simp add: of_nat_diff)
  have "(2 :: nat) ^ esc \<le> 2 ^ (limit + esc)" by (intro power_increasing) simp_all
  then have b: "i - limit + 1 < 2 ^ (limit + esc)" using ok(2) by linarith
  then have "appends (be_bits (limit + esc) (i - limit + 1)) pb (put_bits pb (limit + esc) (of_nat i - of_nat limit + 1))"
    unfolding w using ok by (intro put_bits_number(1)) simp_all
  moreover have "put_bits_assert (limit + esc) (of_nat i - of_nat limit + 1)" unfolding w by (rule number_assert(1) [OF b ok(1)])
  moreover have "set_ur_golomb pb i k limit esc = put_bits pb (limit + esc) (of_nat i - of_nat limit + 1)"
    using False by (simp add: set_ur_golomb_def drop_bit_eq_div Let_def)
  ultimately show ?thesis using False be_bits_small [OF ok(2), of limit] unfolding ur_code_def by auto
qed

lemmas set_ur_golomb_appends = set_ur_golomb_call [THEN conjunct1]

lemma get_ur_golomb_code:
  assumes "ur_ok (k, limit, esc) i" "gb_inv gb" "bits_ready (length (ur_code (k, limit, esc) i)) gb" "gb_stream gb = ur_code (k, limit, esc) i @ rest"
  shows "get_ur_golomb gb k limit esc = Some (int i, advance (length (ur_code (k, limit, esc) i)) gb)"
proof -
  obtain c where c: "update_cache gb = Some c" "take 25 (be_bits 32 c) = take 25 (gb_stream gb)" by (rule update_cache_bits [OF assms(2)])
  show ?thesis
  proof (cases "i div 2 ^ k < limit")
    case True
    have ok: "i < 2 ^ 31" "i div 2 ^ k + k + 1 \<le> 25" using assms True by (simp_all add: ur_ok_def)
    have "gb_stream gb = rice_code k i @ rest" using assms(4) True by (simp add: ur_code_def)
    note v = rice_cache_value [OF c(2) [unfolded this] ok(2,1)]
    have "32 + int k - int (av_log2 c) = int (i div 2 ^ k + k + 1)" unfolding v(1) using ok(2) by (simp add: of_nat_diff)
    moreover have "skip_counter gb (int (i div 2 ^ k + k + 1)) = advance (i div 2 ^ k + k + 1) gb"
      using ok(2) by (intro skip_counter_advance [OF assms(2)]) simp
    ultimately have "skip_counter gb (32 + int k - int (av_log2 c)) = advance (i div 2 ^ k + k + 1) gb" by (simp only:)
    moreover have "int (av_log2 c) > 31 - int limit" unfolding v(1) using True ok(2) by (simp add: of_nat_diff)
    ultimately show ?thesis unfolding get_ur_golomb_def c(1) using v(2) True by (simp add: ur_code_def Let_def)
  next
    case False
    have ok: "i < 2 ^ 31" "limit \<le> 25" "0 < esc" "esc \<le> 25" "i - limit + 1 < 2 ^ esc" using assms False by (simp_all add: ur_ok_def)
    have li: "limit \<le> i" using False by (metis div_le_dividend le_trans not_less)
    have st: "gb_stream gb = replicate limit False @ be_bits esc (i - limit + 1) @ rest" using assms(4) False by (simp add: ur_code_def)
    have esc: "\<not> int (av_log2 c) > 31 - int limit" using cache_zeros(2) [OF c(2) [unfolded st] ok(2)] by simp
    have s1: "skip_counter gb (int limit) = advance limit gb" using ok(2) by (intro skip_counter_advance [OF assms(2)]) simp
    have r: "bits_ready limit gb" using assms(3) by (rule bits_ready_mono) (use False in \<open>simp add: ur_code_def\<close>)
    have "take esc (gb_stream (advance limit gb)) = be_bits esc (i - limit + 1)" using advance_stream(1) [OF assms(2) r] by (simp add: st)
    then have g: "get_bits (advance limit gb) esc = Some (of_nat (i - limit + 1), advance (limit + esc) gb)"
      using get_bits_spec(1) [of "advance limit gb" esc] assms(2) ok by (simp add: word_of_bits_nat value_bits take_bit_nat_eq_self)
    then obtain c1 where c1: "update_cache (advance limit gb) = Some c1" "NEG_USR32 c1 esc = of_nat (i - limit + 1)"
      "skip_counter (advance limit gb) (int esc) = advance (limit + esc) gb" by (auto simp: get_bits_def bind_eq_Some_conv)
    have "NEG_USR32 c1 esc + of_nat limit - 1 = of_nat i" using li by (simp add: c1(2) of_nat_diff)
    then show ?thesis unfolding get_ur_golomb_def c(1) using esc s1 c1(1,3) sint_of_nat_small [OF ok(1)] False
      by (simp add: ur_code_def Let_def)
  qed
qed

text \<open>JPEG-LS: the last quotient below \<open>limit\<close> is the escape to a number of \<open>esc\<close> bits.\<close>

definition jpegls_code :: "nat \<times> nat \<times> nat \<Rightarrow> nat \<Rightarrow> bool list" where
  "jpegls_code = (\<lambda>(k, limit, esc) i. if i div 2 ^ k + 1 < limit then rice_code k i else replicate (limit - 1) False @ True # be_bits esc (i - 1))"

definition jpegls_ok :: "nat \<times> nat \<times> nat \<Rightarrow> nat \<Rightarrow> bool" where
  "jpegls_ok = (\<lambda>(k, limit, esc) i. i < 2 ^ 31 \<and> 0 < limit \<and> k \<le> 31 \<and>
     (if i div 2 ^ k + 1 < limit then True else 0 < esc \<and> esc \<le> 25 \<and> 0 < i \<and> i \<le> 2 ^ esc))"

lemma put_zeros_appends:
  "0 < e \<Longrightarrow> \<exists>pb' r. put_zeros pb e = (pb', r) \<and> 0 < r \<and> r \<le> 31 \<and> r \<le> e \<and> appends (replicate (e - r) False) pb pb'"
proof (induction pb e rule: put_zeros.induct)
  case (1 pb e)
  show ?case
  proof (cases "e > 31")
    case True
    obtain pb' r where r: "put_zeros (put_bits pb 31 0) (e - 31) = (pb', r)" "0 < r" "r \<le> 31" "r \<le> e - 31" "appends (replicate (e - 31 - r) False) (put_bits pb 31 0) pb'"
      using "1.IH" [OF True] True by auto
    have "appends (replicate 31 False) pb (put_bits pb 31 0)" using put_bits_appends [of 31 0 pb] by simp
    from appends_trans [OF this r(5)] have "appends (replicate (e - r) False) pb pb'" using True r(4) by (simp flip: replicate_add)
    then show ?thesis using r True by (subst put_zeros.simps) simp
  qed (use 1 in \<open>simp add: put_zeros.simps [of pb e]\<close>)
qed

lemma put_unary_appends:
  assumes "0 < e" "put_zeros pb e = (pb', r)"
  shows "appends (replicate (e - 1) False @ [True]) pb (put_bits pb' r 1)"
proof -
  have r: "0 < r" "r \<le> 31" "r \<le> e" "appends (replicate (e - r) False) pb pb'" using put_zeros_appends [OF assms(1), of pb] assms(2) by auto
  have "be_bits (r - 1 + 1) (1 :: nat) = replicate (r - 1) False @ be_bits 1 (1 :: nat)" by (rule be_bits_small) simp
  then have "be_bits r (1 :: nat) = replicate (r - 1) False @ [True]" using r(1) be_bits_Suc [of 0 "1 :: nat"] by (simp add: bit_0)
  moreover have "1 < (2 :: nat) ^ r" using r(1) by (intro one_less_power) simp_all
  then have "appends (be_bits r (1 :: nat)) pb' (put_bits pb' r (of_nat 1))" using r by (intro put_bits_number(1)) simp_all
  ultimately have "appends (replicate (e - r) False @ replicate (r - 1) False @ [True]) pb (put_bits pb' r 1)" using appends_trans [OF r(4)] by simp
  moreover have "replicate (e - r) False @ replicate (r - 1) False @ [True] = replicate (e - 1) False @ [True]"
    using r by (simp add: replicate_add [symmetric] flip: append_assoc)
  ultimately show ?thesis by (simp only:)
qed

lemma set_ur_golomb_jpegls_appends:
  assumes "jpegls_ok (k, limit, esc) i"
  shows "appends (jpegls_code (k, limit, esc) i) pb (set_ur_golomb_jpegls pb i k limit esc)"
proof (cases "i div 2 ^ k + 1 < limit")
  case True
  have k: "k \<le> 31" using assms by (simp add: jpegls_ok_def)
  obtain pb' r where z: "put_zeros pb (i div 2 ^ k + 1) = (pb', r)" by (cases "put_zeros pb (i div 2 ^ k + 1)")
  have u: "appends (replicate (i div 2 ^ k) False @ [True]) pb (put_bits pb' r 1)" using put_unary_appends [OF _ z] by simp
  have "be_bits k (int i) = be_bits k i" by (rule be_bits_cong) (simp add: bit_of_nat_iff)
  then have "appends (be_bits k i) (put_bits pb' r 1) (put_sbits (put_bits pb' r 1) k (int i))" using put_sbits_appends [of k "int i"] k by simp
  from appends_trans [OF u this] u show ?thesis using True z
    by (cases "k = 0") (simp_all add: jpegls_code_def rice_code_def set_ur_golomb_jpegls_def drop_bit_eq_div Let_def)
next
  case False
  have ok: "0 < limit" "0 < esc" "esc \<le> 25" "0 < i" "i \<le> 2 ^ esc" using assms False by (simp_all add: jpegls_ok_def)
  obtain pb' r where z: "put_zeros pb limit = (pb', r)" by (cases "put_zeros pb limit")
  have u: "appends (replicate (limit - 1) False @ [True]) pb (put_bits pb' r 1)" by (rule put_unary_appends [OF ok(1) z])
  have "appends (be_bits esc (i - 1)) (put_bits pb' r 1) (put_bits (put_bits pb' r 1) esc (of_nat (i - 1)))"
    using ok by (intro put_bits_number(1)) simp_all
  moreover have "of_nat i - 1 = (of_nat (i - 1) :: u64)" using ok(4) by (rule word_of_nat_minus_1)
  ultimately show ?thesis using appends_trans [OF u] z False by (simp add: jpegls_code_def set_ur_golomb_jpegls_def drop_bit_eq_div Let_def)
qed

text \<open>The loops of the reader find the first one.\<close>

lemma jpegls_bits_run:
  assumes "gb_inv gb" "take (z + 1) (be_bits 32 c) = replicate z False @ [True]" "z \<le> 31" "i + z < limit"
  shows "jpegls_bits gb c limit i = (advance z gb, i + z)"
  using assms
proof (induction z arbitrary: gb c i)
  case 0
  have b: "be_bits 32 c = bit c 31 # be_bits 31 c" using be_bits_Suc [of 31 c] by simp
  then have "bit c 31" using "0.prems"(2) by simp
  then have "bit (NEG_USR32 c 1) 0" by (simp add: NEG_USR32_def bit_drop_bit_eq)
  then have "NEG_USR32 c 1 \<noteq> 0" by auto
  then show ?case using "0.prems"(1) by (simp add: jpegls_bits.simps [of gb])
next
  case (Suc z)
  have b: "be_bits 32 c = bit c 31 # be_bits 31 c" using be_bits_Suc [of 31 c] by simp
  then have 31: "\<not> bit c 31" using Suc.prems(2) by simp
  have "\<not> bit c (31 + n)" for n using 31 bit_imp_le_length [of c "31 + n"] by (cases "n = 0") auto
  then have "NEG_USR32 c 1 = 0" by (intro bit_word_eqI) (simp add: NEG_USR32_def bit_drop_bit_eq)
  moreover have "skip_counter gb 1 = advance 1 gb" using skip_counter_advance [OF Suc.prems(1), of 1] by simp
  ultimately have s: "jpegls_bits gb c limit i = jpegls_bits (advance 1 gb) (push_bit 1 c) limit (i + 1)"
    using Suc.prems(4) by (simp add: jpegls_bits.simps [of gb])
  have "be_bits 32 (push_bit 1 c) = be_bits 31 c @ [False]" using be_bits_push [of 1 32 c] by (simp add: b)
  then have "take (z + 1) (be_bits 32 (push_bit 1 c)) = replicate z False @ [True]" using Suc.prems(2,3) by (simp add: b)
  then have "jpegls_bits (advance 1 gb) (push_bit 1 c) limit (i + 1) = (advance z (advance 1 gb), i + 1 + z)"
    using Suc.prems by (intro Suc.IH) simp_all
  then show ?case using s Suc.prems(1) by simp
qed

lemma NEG_USR32_zero: "n \<le> 32 \<Longrightarrow> NEG_USR32 c n = 0 \<longleftrightarrow> take n (be_bits 32 c) = replicate n False"
proof -
  assume n: "n \<le> 32"
  have "word_of_bits (be_bits n (NEG_USR32 c n)) = NEG_USR32 c n" by (rule word_of_bits_eq) (rule NEG_USR32_bits(2) [OF n])
  moreover have "(word_of_bits (replicate n False) :: u32) = 0" by (rule bit_word_eqI) (simp add: bit_word_of_bits)
  ultimately show ?thesis using NEG_USR32_bits(1) [OF n, of c] by (metis be_bits_0)
qed

lemma jpegls_loops:
  assumes "gb_inv gb" "gb_stream gb = replicate z False @ True # r" "bits_ready (z + 1) gb" "update_cache gb = Some c" "i + z < limit"
  shows "\<exists>gb' c' i'. jpegls_blocks gb c limit i = Some (Inr (gb', c', i')) \<and> jpegls_bits gb' c' limit i' = (advance z gb, i + z)"
  using assms
proof (induction z arbitrary: gb c i rule: less_induct)
  case (less z)
  obtain c0 where "update_cache gb = Some c0" "take 25 (be_bits 32 c0) = take 25 (gb_stream gb)" by (rule update_cache_bits [OF less.prems(1)])
  then have c: "take 25 (be_bits 32 c) = take 25 (replicate z False @ True # r)" using less.prems(2,4) by simp
  have Z: "NEG_USR32 c 25 = 0 \<longleftrightarrow> 25 \<le> z"
  proof -
    have "take 25 (replicate z False @ True # r) = replicate 25 False \<longleftrightarrow> 25 \<le> z"
    proof (cases "25 \<le> z")
      case False
      then have "take 25 (replicate z False @ True # r) ! z" by (simp add: nth_append)
      moreover have "\<not> replicate 25 False ! z" using False by simp
      ultimately show ?thesis using False by metis
    qed simp
    then show ?thesis using c by (simp add: NEG_USR32_zero)
  qed
  show ?case
  proof (cases "i + 25 \<le> limit \<and> NEG_USR32 c 25 = 0")
    case True
    then have z: "25 \<le> z" using Z by simp
    have rd: "bits_ready 25 gb" using z less.prems(3) by (intro bits_ready_mono [OF less.prems(3)]) simp
    have left: "\<not> size_in_bits gb \<le> gb_index gb" using less.prems(1,3) z by (simp add: bits_ready_def gb_inv_def)
    have sk: "skip_counter gb 25 = advance 25 gb" using skip_counter_advance [OF less.prems(1), of 25] by simp
    obtain c1 where c1: "update_cache (advance 25 gb) = Some c1" using update_cache_bits [of "advance 25 gb"] less.prems(1) by (metis advance_inv)
    have st: "gb_stream (advance 25 gb) = replicate (z - 25) False @ True # r" using advance_stream(1) [OF less.prems(1) rd] z by (simp add: less.prems(2))
    have rd1: "bits_ready (z - 25 + 1) (advance 25 gb)" by (rule bits_ready_advance [OF less.prems(1)]) (use z less.prems(3) in simp)
    have "jpegls_blocks gb c limit i = jpegls_blocks (advance 25 gb) c1 limit (i + 25)"
      using True left sk c1 by (subst jpegls_blocks.simps) (simp add: Let_def)
    moreover have "\<exists>gb' c' i'. jpegls_blocks (advance 25 gb) c1 limit (i + 25) = Some (Inr (gb', c', i')) \<and>
        jpegls_bits gb' c' limit i' = (advance (z - 25) (advance 25 gb), i + 25 + (z - 25))"
      by (rule less.IH) (use less.prems z st rd1 c1 in simp_all)
    ultimately show ?thesis using z less.prems(1) by simp
  next
    case False
    then have z: "z \<le> 24" using Z less.prems(5) by auto
    have "take (z + 1) (be_bits 32 c) = take (z + 1) (replicate z False @ True # r)"
      using arg_cong [OF c, of "take (z + 1)"] z by (simp add: min_absorb1)
    then have "jpegls_bits gb c limit i = (advance z gb, i + z)" using less.prems(1,5) z by (intro jpegls_bits_run) simp_all
    moreover have "jpegls_blocks gb c limit i = Some (Inr (gb, c, i))" by (subst jpegls_blocks.simps) (rule if_not_P [OF False])
    ultimately show ?thesis by blast
  qed
qed

text \<open>The remainder, read at once or in two parts.\<close>

lemma cache_field:
  assumes "gb_inv gb" "0 < n" "n \<le> 25" "take n (gb_stream gb) = be_bits n (m :: nat)" "update_cache gb = Some c"
  shows "NEG_USR32 c n = of_nat (take_bit n m)" "skip_counter gb (int n) = advance n gb"
  using get_bits_spec(1) [OF assms(1-3)] assms(3,4,5) by (auto simp: get_bits_def word_of_bits_nat value_bits)

lemma join_halves: "push_bit n (of_nat (take_bit 16 (drop_bit n m))) OR of_nat (take_bit n m) = (of_nat (take_bit (16 + n) m) :: 'a::len word)" for m :: nat
proof (rule bit_word_eqI)
  fix j :: nat
  assume "j < LENGTH('a)"
  then show "bit (push_bit n (of_nat (take_bit 16 (drop_bit n m))) OR of_nat (take_bit n m) :: 'a word) j = bit (of_nat (take_bit (16 + n) m) :: 'a word) j"
    by (cases "j < n") (auto simp: bit_or_iff bit_push_bit_iff bit_of_nat_iff bit_take_bit_iff bit_drop_bit_eq)
qed

lemma remainder_plus_quotient: "of_nat (take_bit k i) + push_bit k (of_nat (i div 2 ^ k)) = (of_nat i :: 'a::len word)"
proof -
  have "of_nat (take_bit k i) + push_bit k (of_nat (i div 2 ^ k)) = (of_nat (i mod 2 ^ k + i div 2 ^ k * 2 ^ k) :: 'a word)"
    by (simp add: push_bit_eq_mult take_bit_eq_mod)
  also have "i mod 2 ^ k + i div 2 ^ k * 2 ^ k = i" by (rule mod_div_mult_eq)
  finally show ?thesis .
qed

lemma get_ur_golomb_jpegls_code:
  assumes "jpegls_ok (k, limit, esc) i" "gb_inv gb" "bits_ready (length (jpegls_code (k, limit, esc) i)) gb"
    and "gb_stream gb = jpegls_code (k, limit, esc) i @ rest"
  shows "get_ur_golomb_jpegls gb k limit esc = Some (int i, advance (length (jpegls_code (k, limit, esc) i)) gb)"
proof -
  define z where "z = (if i div 2 ^ k + 1 < limit then i div 2 ^ k else limit - 1)"
  define tl where "tl = (if i div 2 ^ k + 1 < limit then be_bits k i else be_bits esc (i - 1))"
  have ok: "i < 2 ^ 31" "k \<le> 31" "z < limit" using assms(1) by (simp_all add: jpegls_ok_def z_def)
  have code: "jpegls_code (k, limit, esc) i = replicate z False @ True # tl" by (simp add: jpegls_code_def rice_code_def z_def tl_def)
  have ready: "bits_ready (z + 1 + length tl) gb" and st: "gb_stream gb = replicate z False @ True # tl @ rest" using assms(3,4) by (simp_all add: code)
  obtain c where c: "update_cache gb = Some c" "take 25 (be_bits 32 c) = take 25 (gb_stream gb)" by (rule update_cache_bits [OF assms(2)])
  have lg: "av_log2 c = 31 - z \<and> z \<le> 24 \<or> av_log2 c < 7"
  proof (cases "z \<le> 24")
    case True
    then show ?thesis using cache_leading(3) [OF c(2) [unfolded st]] by simp
  next
    case False
    then have "replicate z False = replicate 25 False @ replicate (z - 25) False" by (simp flip: replicate_add)
    then have st25: "gb_stream gb = replicate 25 False @ replicate (z - 25) False @ True # tl @ rest" by (simp add: st)
    show ?thesis using cache_zeros(2) [OF c(2) [unfolded st25]] by simp
  qed
  show ?thesis
  proof (cases "int (av_log2 c) - int k \<ge> 7 \<and> 32 - int (av_log2 c) < int limit")
    case True
    then have z: "av_log2 c = 31 - z" "z \<le> 24" "z + k + 1 \<le> 25" "z + 1 < limit" using lg by auto
    then have e: "z = i div 2 ^ k" "i div 2 ^ k + 1 < limit" by (auto simp: z_def split: if_splits)
    have "gb_stream gb = rice_code k i @ rest" using st e by (simp add: rice_code_def tl_def)
    note v = rice_cache_value(2) [OF c(2) [unfolded this] z(3) [unfolded e(1)] ok(1)]
    have "32 + int k - int (av_log2 c) = int (length (jpegls_code (k, limit, esc) i))" unfolding z(1) code using z(2) e by (simp add: tl_def of_nat_diff)
    moreover have "skip_counter gb (int (length (jpegls_code (k, limit, esc) i))) = advance (length (jpegls_code (k, limit, esc) i)) gb"
      using z(3) e by (intro skip_counter_advance [OF assms(2)]) (simp add: code tl_def)
    ultimately show ?thesis unfolding get_ur_golomb_jpegls_def c(1) using True v by (simp add: Let_def)
  next
    case False
    have rz: "bits_ready (z + 1) gb" by (rule bits_ready_mono [OF ready]) simp
    obtain gb' c' i' where loops: "jpegls_blocks gb c limit 0 = Some (Inr (gb', c', i'))" "jpegls_bits gb' c' limit i' = (advance z gb, z)"
      using jpegls_loops [OF assms(2) st rz c(1), of 0 limit] ok(3) by auto
    define g where "g = advance (z + 1) gb"
    have g: "gb_inv g" "gb_stream g = tl @ rest" "bits_ready (length tl) g" "skip_counter (advance z gb) 1 = g"
      using assms(2) advance_stream(1) [OF assms(2) rz] bits_ready_advance [OF assms(2) ready] skip_counter_advance [of "advance z gb" 1]
      by (simp_all add: g_def st)
    obtain c1 where c1: "update_cache g = Some c1" using update_cache_bits [OF g(1)] by metis
    have total: "advance (length tl) g = advance (length (jpegls_code (k, limit, esc) i)) gb" using assms(2) by (simp add: g_def code)
    define rd where "rd = (if k \<noteq> 0 then
            if k > 24 then
              let buf = push_bit (k - 16) (NEG_USR32 c1 16); gb = skip_counter g 16
              in do { cache \<leftarrow> update_cache gb; Some (buf OR NEG_USR32 cache (k - 16), skip_counter gb (int k - 16)) }
            else Some (NEG_USR32 c1 k, skip_counter g (int k))
          else Some (0, g))"
    have slow: "get_ur_golomb_jpegls gb k limit esc =
        (if int z < int limit - 1 then do { (buf, gb) \<leftarrow> rd; Some (sint (buf + push_bit k (of_nat z)), gb) }
         else if esc \<noteq> 0 \<and> int z = int limit - 1 then Some (sint (NEG_USR32 c1 esc + 1), skip_counter g (int esc)) else Some (- 1, g))"
      unfolding get_ur_golomb_jpegls_def c(1) Let_def rd_def
      by (simp only: Option.bind.simps if_not_P [OF False] loops sum.case prod.case g(4) c1)
    show ?thesis
    proof (cases "i div 2 ^ k + 1 < limit")
      case short: True
      then have z: "int z < int limit - 1" "z = i div 2 ^ k" "tl = be_bits k i" by (simp_all add: z_def tl_def)
      have sum: "sint (of_nat (take_bit k i) + push_bit k (of_nat z) :: u32) = int i"
        unfolding z(2) remainder_plus_quotient by (rule sint_of_nat_small [OF ok(1)])
      have "rd = Some (of_nat (take_bit k i), advance k g)"
      proof -
        consider "k = 0" | "0 < k" "k \<le> 24" | "24 < k" by linarith
        then show ?thesis
        proof cases
          case 2
          have "k \<le> 25" "take k (gb_stream g) = be_bits k i" using 2 g(2) z(3) by simp_all
          note f = cache_field [OF g(1) 2(1) this c1]
          show ?thesis using f 2 by (simp add: rd_def)
        next
          case 3
          define n where "n = k - 16"
          have n: "k = 16 + n" "0 < n" "n \<le> 25" using 3 ok(2) by (simp_all add: n_def)
          have gs: "gb_stream g = be_bits 16 (drop_bit n i) @ be_bits n i @ rest" using g(2) z(3) be_bits_add [of 16 n i] by (simp add: n(1))
          then have "take 16 (gb_stream g) = be_bits 16 (drop_bit n i)" by simp
          note f1 = cache_field [OF g(1) _ _ this c1, simplified]
          have r16: "bits_ready 16 g" by (rule bits_ready_mono [OF g(3)]) (simp add: z(3) n(1))
          obtain c2 where c2: "update_cache (advance 16 g) = Some c2" using update_cache_bits [of "advance 16 g"] g(1) by (metis advance_inv)
          have "take n (gb_stream (advance 16 g)) = be_bits n i" using advance_stream(1) [OF g(1) r16] by (simp add: gs)
          note f2 = cache_field [OF _ n(2,3) this c2]
          have "skip_counter (advance 16 g) (int k - 16) = advance k g" using f2(2) g(1) by (simp add: n(1))
          then show ?thesis using 3 f1 f2(1) g(1) c2 join_halves [of n i] by (simp add: rd_def n(1) Let_def)
        qed (use g(1) in \<open>simp add: rd_def\<close>)
      qed
      then show ?thesis unfolding slow using z(1) sum total z(3) by simp
    next
      case esc: False
      then have z: "\<not> int z < int limit - 1" "int z = int limit - 1" "tl = be_bits esc (i - 1)" using ok(3) by (auto simp: z_def tl_def)
      have e: "0 < esc" "esc \<le> 25" "0 < i" "i - 1 < 2 ^ esc" using assms(1) esc by (auto simp: jpegls_ok_def)
      have f: "NEG_USR32 c1 esc = of_nat (take_bit esc (i - 1))" "skip_counter g (int esc) = advance esc g"
        using g(2) z(3) by (auto intro!: cache_field [OF g(1) e(1,2) _ c1])
      have "NEG_USR32 c1 esc + 1 = of_nat i" using e(3,4) by (simp add: f(1) take_bit_nat_eq_self of_nat_diff)
      then show ?thesis unfolding slow using z e(1) f(2) total sint_of_nat_small [OF ok(1)] by simp
    qed
  qed
qed

text \<open>Signed Rice codes: the sign in the lowest bit.\<close>

definition sr_index :: "int \<Rightarrow> nat" where
  "sr_index i = (if i < 0 then nat (- 2 * i - 1) else nat (2 * i))"

lemma unfold_sign_index: "sr_index i < 2 ^ 31 \<Longrightarrow> unfold_sign (word_of_int (int (sr_index i))) = i"
proof -
  assume a: "sr_index i < 2 ^ 31"
  then have "unat (word_of_int (int (sr_index i)) :: u32) = sr_index i" by (simp add: unsigned_of_nat take_bit_nat_eq_self)
  note w = word_half_sign(3) [OF this a]
  have "(if even (sr_index i) then int (sr_index i div 2) else - int (sr_index i div 2) - 1) = i"
    by (auto simp: sr_index_def even_nat_iff zdiv_int)
  then show ?thesis using w by (simp only: unfold_sign_def)
qed

lemma set_sr_golomb_index: "set_sr_golomb pb i k limit esc = set_ur_golomb pb (sr_index i) k limit esc"
  by (simp add: set_sr_golomb_def sr_index_def bit.xor_one_right not_int_def Let_def)

lemma get_sr_golomb_code:
  assumes "ur_ok (k, limit, esc) (sr_index i)" "gb_inv gb" "bits_ready (length (ur_code (k, limit, esc) (sr_index i))) gb"
    and "gb_stream gb = ur_code (k, limit, esc) (sr_index i) @ rest"
  shows "get_sr_golomb gb k limit esc = Some (i, advance (length (ur_code (k, limit, esc) (sr_index i))) gb)"
  using get_ur_golomb_code [OF assms] unfold_sign_index [of i] assms(1) by (simp add: get_sr_golomb_def ur_ok_def)

lemma get_sr_golomb_flac_code:
  assumes "jpegls_ok (k, limit, esc) (sr_index i)" "gb_inv gb" "bits_ready (length (jpegls_code (k, limit, esc) (sr_index i))) gb"
    and "gb_stream gb = jpegls_code (k, limit, esc) (sr_index i) @ rest"
  shows "get_sr_golomb_flac gb k limit esc = Some (i, advance (length (jpegls_code (k, limit, esc) (sr_index i))) gb)"
  using get_ur_golomb_jpegls_code [OF assms] unfold_sign_index [of i] assms(1) by (simp add: get_sr_golomb_flac_def jpegls_ok_def)

lemma shorten_code: "i < 2 ^ 31 - 2 \<Longrightarrow> jpegls_code (k, nat INT_MAX, 0) i = rice_code k i" "i < 2 ^ 31 - 2 \<Longrightarrow> k \<le> 31 \<Longrightarrow> jpegls_ok (k, nat INT_MAX, 0) i"
proof -
  assume i: "i < 2 ^ 31 - 2"
  have "i div 2 ^ k \<le> i" by (rule div_le_dividend)
  moreover have "nat INT_MAX = 2 ^ 31 - 1" by simp
  ultimately have "i div 2 ^ k + 1 < nat INT_MAX" using i by linarith
  then show "jpegls_code (k, nat INT_MAX, 0) i = rice_code k i" "k \<le> 31 \<Longrightarrow> jpegls_ok (k, nat INT_MAX, 0) i"
    using i by (simp_all add: jpegls_code_def jpegls_ok_def)
qed

lemma get_sr_golomb_shorten_code:
  assumes "sr_index i < 2 ^ 31 - 2" "k < 31" "gb_inv gb" "bits_ready (length (rice_code (k + 1) (sr_index i))) gb" "gb_stream gb = rice_code (k + 1) (sr_index i) @ rest"
  shows "get_sr_golomb_shorten gb k = Some (i, advance (length (rice_code (k + 1) (sr_index i))) gb)"
proof -
  have g: "get_ur_golomb_jpegls gb (k + 1) (nat INT_MAX) 0 = Some (int (sr_index i), advance (length (rice_code (k + 1) (sr_index i))) gb)"
    using get_ur_golomb_jpegls_code [OF shorten_code(2) [OF assms(1), of "k + 1"] assms(3)] assms(2,4,5) shorten_code(1) [OF assms(1), of "k + 1"] by simp
  have "int (sr_index i) div 2 = (if i < 0 then - i - 1 else i)" "int (sr_index i) mod 2 = (if i < 0 then 1 else 0)"
    by (simp_all add: sr_index_def) presburger+
  then have "int (sr_index i) div 2 XOR - (int (sr_index i) AND 1) = i" by (simp add: and_one_eq bit.xor_one_right not_int_def)
  then show ?thesis unfolding get_sr_golomb_shorten_def g by simp
qed

section \<open>Symbols of all kinds in one stream\<close>

datatype symbol_kind = U nat | UE | UE_long | SE | SE_long | TE int | UR nat nat nat | SR nat nat nat | JPEGLS nat nat nat

fun put_symbol :: "PutBitContext \<Rightarrow> symbol_kind \<Rightarrow> int \<Rightarrow> PutBitContext" where
  "put_symbol pb (U n) v = put_bits pb n (word_of_int v)"
| "put_symbol pb UE v = set_ue_golomb pb (nat v)"
| "put_symbol pb UE_long v = set_ue_golomb_long pb (word_of_int v)"
| "put_symbol pb SE v = set_se_golomb pb v"
| "put_symbol pb SE_long v = set_se_golomb pb v"
| "put_symbol pb (TE rng) v = set_te_golomb pb (nat v) (nat rng)"
| "put_symbol pb (UR k limit esc) v = set_ur_golomb pb (nat v) k limit esc"
| "put_symbol pb (SR k limit esc) v = set_sr_golomb pb v k limit esc"
| "put_symbol pb (JPEGLS k limit esc) v = set_ur_golomb_jpegls pb (nat v) k limit esc"

fun get_symbol :: "GetBitContext \<Rightarrow> symbol_kind \<Rightarrow> (int \<times> GetBitContext) option" where
  "get_symbol gb (U n) = map_option (\<lambda>(v, gb). (uint v, gb)) (get_bits gb n)"
| "get_symbol gb UE = get_ue_golomb gb"
| "get_symbol gb UE_long = map_option (\<lambda>(v, gb). (uint v, gb)) (get_ue_golomb_long gb)"
| "get_symbol gb SE = get_se_golomb gb"
| "get_symbol gb SE_long = get_se_golomb_long gb"
| "get_symbol gb (TE rng) = get_te_golomb gb rng"
| "get_symbol gb (UR k limit esc) = get_ur_golomb gb k limit esc"
| "get_symbol gb (SR k limit esc) = get_sr_golomb gb k limit esc"
| "get_symbol gb (JPEGLS k limit esc) = get_ur_golomb_jpegls gb k limit esc"

fun symbol_code :: "symbol_kind \<Rightarrow> int \<Rightarrow> bool list" where
  "symbol_code (U n) v = be_bits n v"
| "symbol_code UE v = ue_code (nat v)"
| "symbol_code UE_long v = ue_code (nat v)"
| "symbol_code SE v = ue_code (se_index v)"
| "symbol_code SE_long v = ue_code (se_index v)"
| "symbol_code (TE rng) v = (if rng = 2 then [v = 0] else ue_code (nat v))"
| "symbol_code (UR k limit esc) v = ur_code (k, limit, esc) (nat v)"
| "symbol_code (SR k limit esc) v = ur_code (k, limit, esc) (sr_index v)"
| "symbol_code (JPEGLS k limit esc) v = jpegls_code (k, limit, esc) (nat v)"

text \<open>The ranges the comments and assertions of the source give, and what a cache of 25 bits can hold.\<close>

fun symbol_ok :: "symbol_kind \<Rightarrow> int \<Rightarrow> bool" where
  "symbol_ok (U n) v = (0 < n \<and> n \<le> 25 \<and> 0 \<le> v \<and> v < 2 ^ n)"
| "symbol_ok UE v = (0 \<le> v \<and> v \<le> 8190)"
| "symbol_ok UE_long v = (0 \<le> v \<and> v < 2 ^ 32 - 1)"
| "symbol_ok SE v = (\<bar>v\<bar> < 2 ^ 15)"
| "symbol_ok SE_long v = (\<bar>v\<bar> < 2 ^ 15)"
| "symbol_ok (TE rng) v = (if rng = 2 then v = 0 \<or> v = 1 else 1 \<le> rng \<and> 0 \<le> v \<and> v \<le> 8190 \<and> v \<le> rng)"
| "symbol_ok (UR k limit esc) v = (0 \<le> v \<and> ur_ok (k, limit, esc) (nat v))"
| "symbol_ok (SR k limit esc) v = ur_ok (k, limit, esc) (sr_index v)"
| "symbol_ok (JPEGLS k limit esc) v = (0 \<le> v \<and> jpegls_ok (k, limit, esc) (nat v))"

lemma be_bits_nat: "0 \<le> v \<Longrightarrow> be_bits n v = be_bits n (nat v)" for v :: int
  by (rule be_bits_cong) (simp add: bit_nat_iff)

lemma put_symbol_appends: "symbol_ok k v \<Longrightarrow> appends (symbol_code k v) pb (put_symbol pb k v)"
proof (induction pb k v rule: put_symbol.induct)
  case (1 pb n v)
  then have "nat v < 2 ^ n" by (simp add: nat_less_iff)
  then have "appends (be_bits n (nat v)) pb (put_bits pb n (of_nat (nat v)))" using 1 by (intro put_bits_number(1)) simp_all
  then show ?case using 1 by (simp add: be_bits_nat)
next
  case (3 pb v)
  then have n: "nat v + 1 < 2 ^ 32" by (simp add: nat_less_iff flip: nat_add_distrib)
  then have u: "unat (word_of_int v :: u32) = nat v" using 3 by (simp add: unsigned_of_int take_bit_int_eq_self)
  then have "word_of_int v \<noteq> (- 1 :: u32)" using n by (auto simp: unsigned_minus_1_eq_mask mask_eq_exp_minus_1)
  from set_ue_golomb_long_appends [OF this] show ?case by (simp add: u)
next
  case (6 pb rng v)
  have "appends [b] pb (put_bits pb 1 (of_bool b))" for b using put_bits_number(1) [of 1 "of_bool b" pb] be_bits_Suc [of 0 "of_bool b :: nat"] by (simp add: bit_0)
  then have "appends [True] pb (put_bits pb 1 1)" "appends [False] pb (put_bits pb 1 0)" by (metis of_bool_eq)+
  then show ?case using 6 by (auto simp: set_te_golomb_def set_ue_golomb_appends)
qed (auto simp: set_ue_golomb_appends set_se_golomb_index se_index_def set_ur_golomb_appends set_sr_golomb_index set_ur_golomb_jpegls_appends)

lemma get_symbol_code:
  assumes "symbol_ok k v" "gb_inv gb" "bits_ready (length (symbol_code k v)) gb" "gb_stream gb = symbol_code k v @ rest"
  shows "get_symbol gb k = Some (v, advance (length (symbol_code k v)) gb)"
proof (cases k)
  case (U n)
  then have n: "0 < n" "n \<le> 25" "0 \<le> v" "v < 2 ^ n" using assms(1) by simp_all
  have w: "(2 :: int) ^ n \<le> 2 ^ 25" using n(2) by (intro power_increasing) simp_all
  have "nat v < 2 ^ n" using n by (simp add: nat_less_iff)
  moreover have "take n (gb_stream gb) = be_bits n (nat v)" using assms(4) n(3) by (simp add: U be_bits_nat)
  ultimately have "get_bits gb n = Some (of_nat (nat v), advance n gb)"
    using get_bits_spec(1) [OF assms(2) n(1,2)] n(2) by (simp add: word_of_bits_nat value_bits take_bit_nat_eq_self)
  then show ?thesis using n w by (simp add: U unsigned_of_int take_bit_int_eq_self)
next
  case UE_long
  then have v: "0 \<le> v" "v < 2 ^ 32 - 1" using assms(1) by simp_all
  define w :: u32 where "w = word_of_int v"
  have u: "unat w = nat v" "uint w = v" using v by (simp_all add: w_def unsigned_of_int take_bit_int_eq_self)
  then have "w \<noteq> - 1" using v by (auto simp: unsigned_minus_1_eq_mask mask_eq_exp_minus_1)
  then show ?thesis using get_ue_golomb_long_code [OF assms(2), of w rest] assms(3,4) u by (simp add: UE_long)
next
  case (TE rng)
  show ?thesis
  proof (cases "rng = 2")
    case True
    then show ?thesis using get_bits1_spec [OF assms(2)] assms(1,4) by (auto simp: TE get_te_golomb_def)
  next
    case False
    then show ?thesis using get_ue_golomb_code [OF assms(2), of "nat v" rest] assms(1,4) by (simp add: TE get_te_golomb_def nat_le_iff)
  qed
next
  case SE
  have "se_index v < 2 ^ 25 - 1" using assms(1) by (auto simp: SE se_index_def)
  then show ?thesis using get_se_golomb_code [OF assms(2), of "se_index v" rest] assms(3,4) by (simp add: SE)
next
  case SE_long
  have "se_index v < 2 ^ 31" using assms(1) by (auto simp: SE_long se_index_def)
  then show ?thesis using get_se_golomb_long_code [OF assms(2), of "se_index v" rest] assms(3,4) by (simp add: SE_long)
next
  case UE
  then show ?thesis using get_ue_golomb_code [OF assms(2), of "nat v" rest] assms(1,4) by (simp add: nat_le_iff)
next
  case (UR k limit esc)
  then show ?thesis using get_ur_golomb_code [OF _ assms(2), of k limit esc "nat v" rest] assms(1,3,4) by simp
next
  case (SR k limit esc)
  then show ?thesis using get_sr_golomb_code [OF _ assms(2), of k limit esc v rest] assms(1,3,4) by simp
next
  case (JPEGLS k limit esc)
  then show ?thesis using get_ur_golomb_jpegls_code [OF _ assms(2), of k limit esc "nat v" rest] assms(1,3,4) by simp
qed

interpretation golomb: bit_code put_symbol get_symbol symbol_code symbol_ok
  by unfold_locales (rule put_symbol_appends, assumption, rule get_symbol_code, assumption+)

text \<open>
  The assertions of \<^verbatim>\<open>put_bits.h\<close>: a symbol is written by calls of \<^verbatim>\<open>put_bits\<close> with at most 31 bits, a number above 255 of
  the 32-bit code by one call of \<^verbatim>\<open>put_bits63\<close>, and every value fits its field.
\<close>

definition put_calls :: "PutBitContext \<Rightarrow> (nat \<times> u64) list \<Rightarrow> PutBitContext" where
  "put_calls pb calls = foldl (\<lambda>pb (n, v). put_bits pb n v) pb calls"

definition calls_asserted :: "symbol_kind \<Rightarrow> int \<Rightarrow> PutBitContext \<Rightarrow> bool" where
  "calls_asserted k v pb \<longleftrightarrow>
     (if k = UE_long \<and> 256 \<le> v then \<exists>n w. put_symbol pb k v = put_bits63 pb n w \<and> put_bits63_assert n w
      else \<exists>calls. put_symbol pb k v = put_calls pb calls \<and> (\<forall>(n, w) \<in> set calls. put_bits_assert n w))"

lemma one_call: "c = put_bits pb n w \<Longrightarrow> put_bits_assert n w \<Longrightarrow> \<exists>calls. c = put_calls pb calls \<and> (\<forall>(n, w) \<in> set calls. put_bits_assert n w)"
  by (intro exI [of _ "[(n, w)]"]) (simp add: put_calls_def)

lemma put_zeros_calls:
  "\<exists>calls. fst (put_zeros pb e) = put_calls pb calls \<and> (\<forall>(n, w) \<in> set calls. put_bits_assert n w)"
proof (induction pb e rule: put_zeros.induct)
  case (1 pb e)
  show ?case
  proof (cases "e > 31")
    case True
    obtain calls where c: "fst (put_zeros (put_bits pb 31 0) (e - 31)) = put_calls (put_bits pb 31 0) calls"
      "\<forall>(n, w) \<in> set calls. put_bits_assert n w" using "1.IH" [OF True] by blast
    have "put_bits_assert 31 0" by (simp add: put_bits_assert_def)
    then show ?thesis using c True
      by (intro exI [of _ "(31, 0) # calls"]) (simp add: put_calls_def put_zeros.simps [of pb e])
  next
    case False
    then show ?thesis by (intro exI [of _ "[]"]) (simp add: put_calls_def put_zeros.simps [of pb e])
  qed
qed

lemma put_calls_append: "put_calls pb (xs @ ys) = put_calls (put_calls pb xs) ys"
  by (simp add: put_calls_def)

lemma set_ur_golomb_jpegls_calls:
  assumes "jpegls_ok (k, limit, esc) i"
  shows "\<exists>calls. set_ur_golomb_jpegls pb i k limit esc = put_calls pb calls \<and> (\<forall>(n, w) \<in> set calls. put_bits_assert n w)"
proof -
  have one: "put_bits_assert r 1" if "0 < r" "r \<le> 31" for r
  proof -
    have "1 < (2 :: nat) ^ r" using that(1) by (intro one_less_power) simp_all
    then show ?thesis using number_assert(1) [of 1 r] that(2) by simp
  qed
  show ?thesis
  proof (cases "i div 2 ^ k + 1 < limit")
    case True
    have k: "k \<le> 31" using assms by (simp add: jpegls_ok_def)
    obtain pb' r where z: "put_zeros pb (i div 2 ^ k + 1) = (pb', r)" by (cases "put_zeros pb (i div 2 ^ k + 1)")
    have r: "0 < r" "r \<le> 31" using put_zeros_appends [of "i div 2 ^ k + 1" pb] z by auto
    obtain calls where c: "pb' = put_calls pb calls" "\<forall>(n, w) \<in> set calls. put_bits_assert n w"
      using put_zeros_calls [of pb "i div 2 ^ k + 1"] z by auto
    define w :: u64 where "w = ucast (av_zero_extend_c (word_of_int (int i)) k)"
    have "w = of_nat (take_bit k i)"
      using k by (simp add: w_def av_zero_extend_take) (rule bit_word_eqI, auto simp: bit_unsigned_iff bit_take_bit_iff bit_of_nat_iff)
    moreover have "put_bits_assert k (of_nat (take_bit k i))" using k by (intro number_assert(1)) simp_all
    ultimately have w: "put_bits_assert k w" by simp
    have "set_ur_golomb_jpegls pb i k limit esc = put_calls pb (calls @ [(r, 1)] @ (if k \<noteq> 0 then [(k, w)] else []))"
      using True z c(1) by (simp add: set_ur_golomb_jpegls_def drop_bit_eq_div Let_def put_calls_append) (simp add: put_calls_def put_sbits_def w_def)
    then show ?thesis using c(2) one [OF r] w by (intro exI [of _ "calls @ [(r, 1)] @ (if k \<noteq> 0 then [(k, w)] else [])"]) auto
  next
    case False
    have ok: "0 < limit" "esc \<le> 25" "0 < i" "i \<le> 2 ^ esc" using assms False by (simp_all add: jpegls_ok_def)
    obtain pb' r where z: "put_zeros pb limit = (pb', r)" by (cases "put_zeros pb limit")
    have r: "0 < r" "r \<le> 31" using put_zeros_appends [of limit pb] z ok(1) by auto
    obtain calls where c: "pb' = put_calls pb calls" "\<forall>(n, w) \<in> set calls. put_bits_assert n w"
      using put_zeros_calls [of pb limit] z by auto
    have "of_nat i - 1 = (of_nat (i - 1) :: u64)" using ok(3) by (rule word_of_nat_minus_1)
    moreover have "put_bits_assert esc (of_nat (i - 1))" using ok by (intro number_assert(1)) simp_all
    ultimately have w: "put_bits_assert esc (of_nat i - 1)" by simp
    have "set_ur_golomb_jpegls pb i k limit esc = put_calls pb (calls @ [(r, 1), (esc, of_nat i - 1)])"
      using False z c(1) by (simp add: set_ur_golomb_jpegls_def drop_bit_eq_div Let_def put_calls_append) (simp add: put_calls_def)
    then show ?thesis using c(2) one [OF r] w by (intro exI [of _ "calls @ [(r, 1), (esc, of_nat i - 1)]"]) auto
  qed
qed

lemma symbol_asserted: "symbol_ok k v \<Longrightarrow> calls_asserted k v pb"
proof (cases k)
  case (U n)
  assume "symbol_ok k v"
  then have "0 \<le> v" "nat v < 2 ^ n" "n \<le> 31" by (simp_all add: U nat_less_iff)
  then have "put_bits_assert n (word_of_int v)" using number_assert(1) [of "nat v" n] by simp
  then show "calls_asserted k v pb" by (simp add: U calls_asserted_def one_call)
next
  case UE_long
  assume ok: "symbol_ok k v"
  define w :: u32 where "w = word_of_int v"
  have u: "uint w = v" using ok by (simp add: UE_long w_def unsigned_of_int take_bit_int_eq_self)
  have "unat w = nat v" using u by (simp add: unat_eq_nat_uint)
  then have "w \<noteq> - 1" using ok by (auto simp: UE_long unsigned_minus_1_eq_mask mask_eq_exp_minus_1)
  from set_ue_golomb_long_call(2) [OF this, of pb] obtain n x where c:
    "set_ue_golomb_long pb w = (if w < 256 then put_bits pb n x else put_bits63 pb n x)"
    "if w < 256 then put_bits_assert n x else put_bits63_assert n x" by blast
  have "w < 256 \<longleftrightarrow> v < 256" using u by (simp add: word_less_def)
  then show "calls_asserted k v pb" using c one_call [of "put_bits pb n x" pb n x]
    unfolding UE_long calls_asserted_def put_symbol.simps w_def [symmetric] by (cases "w < 256") (auto simp: not_less)
next
  case (TE rng)
  assume ok: "symbol_ok k v"
  have b: "put_bits_assert 1 (of_nat (nat v) XOR 1)" if "v = 0 \<or> v = 1" using that by (auto simp: put_bits_assert_def)
  show "calls_asserted k v pb"
  proof (cases "rng = 2")
    case True
    then show ?thesis using ok b one_call [of "put_bits pb 1 (of_nat (nat v) XOR 1)" pb 1] by (simp add: TE calls_asserted_def set_te_golomb_def)
  next
    case False
    then have "put_symbol pb k v = set_ue_golomb pb (nat v)" "nat v \<le> 0xFFFE" using ok by (auto simp: TE set_te_golomb_def)
    then show ?thesis using one_call [OF set_ue_golomb_call(1,2)] unfolding TE calls_asserted_def by simp
  qed
next
  case (UR k' limit esc)
  assume "symbol_ok k v"
  then show "calls_asserted k v pb" using set_ur_golomb_call [of k' limit esc "nat v" pb] one_call by (auto simp: UR calls_asserted_def)
next
  case (SR k' limit esc)
  assume "symbol_ok k v"
  then show "calls_asserted k v pb" using set_ur_golomb_call [of k' limit esc "sr_index v" pb] one_call
    by (auto simp: SR calls_asserted_def set_sr_golomb_index)
next
  case (JPEGLS k' limit esc)
  assume "symbol_ok k v"
  then show "calls_asserted k v pb" using set_ur_golomb_jpegls_calls [of k' limit esc "nat v" pb] by (simp add: JPEGLS calls_asserted_def)
qed (use set_ue_golomb_call(1,2) [of "nat v"] set_ue_golomb_call(1,2) [of "se_index v"] one_call in
    \<open>auto simp: calls_asserted_def set_se_golomb_index se_index_def nat_le_iff\<close>)

text \<open>
  C11: a stream of symbols of mixed kinds, bit fields, Exp-Golomb codes (unsigned, signed, truncated, of 8190 and of 32 bits) and
  Rice codes (FFV1, signed FFV1 and JPEG-LS) written by \<^verbatim>\<open>put_golomb.h\<close> is read back by \<^verbatim>\<open>golomb.h\<close> as it was written, and not a
  bit more of the stream is consumed, if every value is in the range of its kind (\<open>symbol_ok\<close>: the ranges the comments
  and assertions give, and code words a cache of 25 bits can hold) and the buffer is large enough. All that
  \<^verbatim>\<open>put_bits\<close> asserts about its arguments holds in the calls that write the stream.
\<close>

theorem golomb_round_trip:
  assumes "\<forall>(k, v) \<in> set xs. symbol_ok k v" "length (message_bits symbol_code xs) \<le> 8 * n" "n \<le> length mem" "n < 2 ^ 27" "64 \<le> length pad"
  shows "(\<exists>pb gb gb'. flush_put_bits (write_all put_symbol (init_put_bits mem (int n)) xs) = Some pb \<and>
    init_get_bits8 (Some (take (buf_ptr pb) (pb_buf pb) @ pad)) (int (buf_ptr pb)) = (0, gb) \<and>
    read_all get_symbol gb (map fst xs) = Some (map snd xs, gb') \<and> get_bits_count gb' = int (length (message_bits symbol_code xs))) \<and>
    (\<forall>(k, v) \<in> set xs. \<forall>pb. calls_asserted k v pb)"
  using golomb.message_round_trip [OF assms] symbol_asserted assms(1) by (auto simp: transfers_def)

definition demo_symbols :: "(symbol_kind \<times> int) list" where
  "demo_symbols = [(UE, 8190), (SE, - 5), (U 3, 6), (TE 2, 1), (UE_long, 100000), (UR 2 12 16, 9), (SR 2 12 16, - 3), (JPEGLS 1 40 12, 70)]"

theorem golomb_round_trip_witness:
  "(\<exists>pb gb gb'. flush_put_bits (write_all put_symbol (init_put_bits (replicate 40 0) (int 40)) demo_symbols) = Some pb \<and>
    init_get_bits8 (Some (take (buf_ptr pb) (pb_buf pb) @ replicate 64 0)) (int (buf_ptr pb)) = (0, gb) \<and>
    read_all get_symbol gb (map fst demo_symbols) = Some (map snd demo_symbols, gb') \<and>
    get_bits_count gb' = int (length (message_bits symbol_code demo_symbols))) \<and>
    list_all (\<lambda>(k, v). \<forall>pb. calls_asserted k v pb) demo_symbols"
  unfolding list_all_iff
proof (rule golomb_round_trip)
  show "\<forall>(k, v) \<in> set demo_symbols. symbol_ok k v" by (simp add: demo_symbols_def ur_ok_def jpegls_ok_def sr_index_def)
  show "length (message_bits symbol_code demo_symbols) \<le> 8 * 40"
    by (simp add: demo_symbols_def ue_code_value ur_code_def jpegls_code_def se_index_def sr_index_def ilog2.simps)
qed simp_all

text \<open>
  C33: \<^verbatim>\<open>get_ue_golomb\<close> on any stream at all: if thirteen zeros come next it returns the error, otherwise the stream starts with the
  code of a number of at most 8190, which it returns, and it advances by exactly the length of that code.
\<close>

theorem get_ue_golomb_exact:
  assumes "gb_inv gb"
  shows "if take 13 (gb_stream gb) = replicate 13 False
    then \<exists>n. get_ue_golomb gb = Some (AVERROR INVALIDDATA, advance n gb) \<and> 27 \<le> n \<and> n \<le> 63
    else \<exists>v rest. gb_stream gb = ue_code v @ rest \<and> v \<le> 8190 \<and> get_ue_golomb gb = Some (int v, advance (length (ue_code v)) gb)"
proof (cases "take 13 (gb_stream gb) = replicate 13 False")
  case True
  then show ?thesis using get_ue_golomb_invalid [OF assms True] by (simp del: AVERROR.simps)
next
  case False
  then obtain z r where z: "z < 13" "gb_stream gb = replicate z False @ True # r" using leading_zeros [of 13 "gb_stream gb"] length_gb_stream [OF assms] by auto
  then have zr: "z \<le> length r" using length_gb_stream [OF assms] by simp
  define v where "v = be_value (take z r) + 2 ^ z - 1"
  have st: "gb_stream gb = ue_code v @ drop z r" unfolding v_def by (rule ue_code_exists(1) [OF z(2) zr])
  have "be_value (take z r) < 2 ^ z" using value_less(1) [of "take z r"] zr by (simp add: min_absorb2)
  moreover have "(2 :: nat) ^ z \<le> 2 ^ 12" using z(1) by (intro power_increasing) simp_all
  ultimately have "v \<le> 8190" unfolding v_def by simp
  then show ?thesis using get_ue_golomb_code [OF assms st] st False by auto
qed

theorem get_ue_golomb_exact_witness:
  "if take 13 (gb_stream demo_gb) = replicate 13 False
    then \<exists>n. get_ue_golomb demo_gb = Some (AVERROR INVALIDDATA, advance n demo_gb) \<and> 27 \<le> n \<and> n \<le> 63
    else \<exists>v rest. gb_stream demo_gb = ue_code v @ rest \<and> v \<le> 8190 \<and> get_ue_golomb demo_gb = Some (int v, advance (length (ue_code v)) demo_gb)"
  by (rule get_ue_golomb_exact [OF demo_gb_inv])

end
