(* ===== verification/AV_Digest.thy ===== *)
theory AV_Digest
  imports AV_Bytes "HOL-Library.Monad_Syntax" "HOL-Library.While_Combinator"
begin

text \<open>
  What the message digests of \<^verbatim>\<open>libavutil\<close> share: a buffer that collects input until a block is complete, in the form
  \<^verbatim>\<open>sha.c\<close>, \<^verbatim>\<open>sha512.c\<close> and \<^verbatim>\<open>ripemd.c\<close> repeat word for word, and the loop that pads the message. The specification is the
  compression of a whole message block by block; a locale carries what every digest gets from its update function.
\<close>

unbundle bit_operations_syntax

section \<open>Definitions\<close>

text \<open>The part of a context that does not depend on the digest.\<close>

record 's hash_context =
  digest_len :: nat
  hash_count :: u64
  hash_buffer :: "u8 list"
  hash_state :: "'s list"

text \<open>\<open>n\<close> blocks straight from the input.\<close>

definition hash_blocks :: "nat \<Rightarrow> ('s \<Rightarrow> u8 list \<Rightarrow> 's) \<Rightarrow> 's \<Rightarrow> u8 list \<Rightarrow> nat \<Rightarrow> 's" where
  "hash_blocks B f s src n = foldl (\<lambda>s k. f s (take B (drop (B * k) src))) s [0..<n]"

definition hash_update :: "nat \<Rightarrow> ('s list \<Rightarrow> u8 list \<Rightarrow> 's list) \<Rightarrow> ('s, 'm) hash_context_scheme \<Rightarrow> u8 list \<Rightarrow> ('s, 'm) hash_context_scheme" where
  "hash_update B transform ctx data =
     (let j = unat (hash_count ctx) mod B;
          ctx = ctx\<lparr>hash_count := hash_count ctx + of_nat (length data)\<rparr>;
          (ctx, data, j) =
            (if B - j \<le> length data then
               let i = B - j;
                   buffer = put_at (hash_buffer ctx) j (take i data);
                   state = transform (hash_state ctx) buffer;
                   data = drop i data;
                   n = length data div B
               in (ctx\<lparr>hash_buffer := buffer, hash_state := hash_blocks B transform state data n\<rparr>, drop (B * n) data, 0)
             else (ctx, data, j))
      in ctx\<lparr>hash_buffer := put_at (hash_buffer ctx) j data\<rparr>)"

text \<open>The same in the small configuration: byte by byte.\<close>

definition hash_update_byte :: "nat \<Rightarrow> ('s list \<Rightarrow> u8 list \<Rightarrow> 's list) \<Rightarrow> ('s, 'm) hash_context_scheme \<times> nat \<Rightarrow> u8 \<Rightarrow> ('s, 'm) hash_context_scheme \<times> nat" where
  "hash_update_byte B transform = (\<lambda>(ctx, j) x.
     let ctx = ctx\<lparr>hash_buffer := (hash_buffer ctx)[j := x]\<rparr>;
         j = j + 1
     in if B = j then (ctx\<lparr>hash_state := transform (hash_state ctx) (hash_buffer ctx)\<rparr>, 0) else (ctx, j))"

definition hash_update_small :: "nat \<Rightarrow> ('s list \<Rightarrow> u8 list \<Rightarrow> 's list) \<Rightarrow> ('s, 'm) hash_context_scheme \<Rightarrow> u8 list \<Rightarrow> ('s, 'm) hash_context_scheme" where
  "hash_update_small B transform ctx data =
     (let j = unat (hash_count ctx) mod B;
          ctx = ctx\<lparr>hash_count := hash_count ctx + of_nat (length data)\<rparr>
      in fst (foldl (hash_update_byte B transform) (ctx, j) data))"

text \<open>Zero bytes up to the place of the length. It may go on for ever, then it is \<open>None\<close>.\<close>

definition hash_pad :: "nat \<Rightarrow> nat \<Rightarrow> ('c \<Rightarrow> u64) \<Rightarrow> ('c \<Rightarrow> u8 list \<Rightarrow> 'c) \<Rightarrow> 'c \<Rightarrow> 'c option" where
  "hash_pad B target cnt upd ctx = while_option (\<lambda>c. unat (cnt c) mod B \<noteq> target) (\<lambda>c. upd c [0]) ctx"

text \<open>The rotation of 32-bit words, and the input words of a block.\<close>

definition rol :: "u32 \<Rightarrow> nat \<Rightarrow> u32" where
  "rol v bits = push_bit bits v OR drop_bit (32 - bits) v"

type_synonym 'w sha2_vars = "'w \<times> 'w \<times> 'w \<times> 'w \<times> 'w \<times> 'w \<times> 'w \<times> 'w \<times> 'w list"

text \<open>
  Eight rounds of SHA-2, where each call names the variables one place further instead of moving their values: \<open>R\<close> returns the
  new fourth and eighth of its arguments, and the message schedule.
\<close>

definition eight_rounds ::
  "('b \<Rightarrow> 'w \<Rightarrow> 'w \<Rightarrow> 'w \<Rightarrow> 'w \<Rightarrow> 'w \<Rightarrow> 'w \<Rightarrow> 'w \<Rightarrow> 'w \<Rightarrow> nat \<Rightarrow> 'w \<times> 'w \<times> 'b) \<Rightarrow> nat \<Rightarrow>
   'w \<times> 'w \<times> 'w \<times> 'w \<times> 'w \<times> 'w \<times> 'w \<times> 'w \<times> 'b \<Rightarrow> 'w \<times> 'w \<times> 'w \<times> 'w \<times> 'w \<times> 'w \<times> 'w \<times> 'w \<times> 'b" where
  "eight_rounds R i = (\<lambda>(a, b, c, d, e, f, g, h, block).
     let (d, h, block) = R block a b c d e f g h i;
         (c, g, block) = R block h a b c d e f g (i + 1);
         (b, f, block) = R block g h a b c d e f (i + 2);
         (a, e, block) = R block f g h a b c d e (i + 3);
         (h, d, block) = R block e f g h a b c d (i + 4);
         (g, c, block) = R block d e f g h a b c (i + 5);
         (f, b, block) = R block c d e f g h a b (i + 6);
         (e, a, block) = R block b c d e f g h a (i + 7)
     in (a, b, c, d, e, f, g, h, block))"

text \<open>The same round with the values moved.\<close>

definition moving_round ::
  "('b \<Rightarrow> 'w \<Rightarrow> 'w \<Rightarrow> 'w \<Rightarrow> 'w \<Rightarrow> 'w \<Rightarrow> 'w \<Rightarrow> 'w \<Rightarrow> 'w \<Rightarrow> nat \<Rightarrow> 'w \<times> 'w \<times> 'b) \<Rightarrow> nat \<Rightarrow>
   'w \<times> 'w \<times> 'w \<times> 'w \<times> 'w \<times> 'w \<times> 'w \<times> 'w \<times> 'b \<Rightarrow> 'w \<times> 'w \<times> 'w \<times> 'w \<times> 'w \<times> 'w \<times> 'w \<times> 'w \<times> 'b" where
  "moving_round R i = (\<lambda>(a, b, c, d, e, f, g, h, block). let (d, h, block) = R block a b c d e f g h i in (h, a, b, c, d, e, f, g, block))"

lemma eight_rounds_move: "eight_rounds R i v = foldl (\<lambda>v j. moving_round R j v) v [i..<i + 8]"
proof -
  have "[i..<i + 8] = [i, i + 1, i + 2, i + 3, i + 4, i + 5, i + 6, i + 7]" by (simp add: upt_conv_Cons numeral_eq_Suc)
  then show ?thesis by (cases v) (simp add: eight_rounds_def moving_round_def Let_def split: prod.splits)
qed

lemma eight_rounds_piece:
  assumes "\<And>v j. i \<le> j \<Longrightarrow> j < i + 8 \<Longrightarrow> step v j = moving_round R j v"
  shows "eight_rounds R i (foldl step v [0..<i]) = foldl step v [0..<i + 8]"
proof -
  have "foldl (\<lambda>v j. moving_round R j v) w [i..<i + 8] = foldl step w [i..<i + 8]" for w using assms by (intro foldl_cong) simp_all
  moreover have "[0..<i + 8] = [0..<i] @ [i..<i + 8]" by (rule upt_add_eq_append) simp
  ultimately show ?thesis by (simp only: eight_rounds_move foldl_append)
qed

section \<open>Whole messages\<close>

function absorb :: "nat \<Rightarrow> ('s \<Rightarrow> u8 list \<Rightarrow> 's) \<Rightarrow> 's \<Rightarrow> u8 list \<Rightarrow> 's" where
  "absorb B f s m = (if 0 < B \<and> B \<le> length m then absorb B f (f s (take B m)) (drop B m) else s)"
  by auto
termination
  by (relation "measure (\<lambda>(B, f, s, m). length m)") auto

declare absorb.simps [simp del]

lemma absorb_short [simp]: "length m < B \<Longrightarrow> absorb B f s m = s"
  by (simp add: absorb.simps)

lemma absorb_block: "0 < B \<Longrightarrow> length x = B \<Longrightarrow> absorb B f s (x @ m) = absorb B f (f s x) m"
  by (subst absorb.simps) simp

lemma absorb_project:
  assumes "\<And>s b. P s \<Longrightarrow> P (f s b) \<and> g (f s b) = f' (g s) b" "P s"
  shows "P (absorb B f s m) \<and> g (absorb B f s m) = absorb B f' (g s) m"
  using assms(2)
proof (induction m arbitrary: s rule: length_induct)
  case (1 m)
  show ?case
  proof (cases "0 < B \<and> B \<le> length m")
    case True
    have e: "absorb B f s m = absorb B f (f s (take B m)) (drop B m)" "absorb B f' (g s) m = absorb B f' (f' (g s) (take B m)) (drop B m)"
      by (subst absorb.simps; use True in simp)+
    show ?thesis unfolding e using 1 assms(1) [of s "take B m"] True by auto
  next
    case False
    have e: "absorb B f s m = s" "absorb B f' (g s) m = g s" by (subst absorb.simps; use False in auto)+
    show ?thesis unfolding e using 1 by simp
  qed
qed

lemma absorb_append: "0 < B \<Longrightarrow> B dvd length x \<Longrightarrow> absorb B f s (x @ y) = absorb B f (absorb B f s x) y"
proof (induction x arbitrary: s rule: length_induct)
  case (1 x)
  show ?case
  proof (cases "x = []")
    case False
    then have x: "B \<le> length x" using 1 by (meson dvd_imp_le length_greater_0_conv)
    have d: "B dvd length (drop B x)" using 1(3) by simp
    have "absorb B f s (x @ y) = absorb B f (f s (take B x)) (drop B x @ y)" using 1(2) x by (subst absorb.simps) simp
    also have "\<dots> = absorb B f (absorb B f (f s (take B x)) (drop B x)) y" using 1 x d by auto
    also have "absorb B f (f s (take B x)) (drop B x) = absorb B f s x" using 1(2) x by (subst (2) absorb.simps) simp
    finally show ?thesis .
  qed (use 1 in simp)
qed

lemma hash_blocks_absorb: "0 < B \<Longrightarrow> hash_blocks B f s m (length m div B) = absorb B f s m"
proof (induction m arbitrary: s rule: length_induct)
  case (1 m)
  show ?case
  proof (cases "B \<le> length m")
    case True
    define n where "n = length (drop B m) div B"
    have n: "length m div B = Suc n" using True 1(2) by (simp add: n_def le_div_geq)
    have "hash_blocks B f s m (Suc n) = hash_blocks B f (f s (take B m)) (drop B m) n"
      unfolding hash_blocks_def upt_conv_Cons [OF zero_less_Suc] map_Suc_upt [of 0 n, symmetric]
      by (simp add: foldl_map add.commute)
    also have "\<dots> = absorb B f (f s (take B m)) (drop B m)" unfolding n_def by (rule 1(1) [rule_format]) (use 1(2) True in auto)
    also have "\<dots> = absorb B f s m" using 1(2) True by (subst (2) absorb.simps) simp
    finally show ?thesis by (simp only: n)
  qed (simp add: hash_blocks_def)
qed

text \<open>The context has seen the message \<open>m\<close> since the state was \<open>s\<close>: the complete blocks are absorbed, the rest is in the buffer.\<close>

definition absorbed :: "nat \<Rightarrow> ('s \<Rightarrow> u8 list \<Rightarrow> 's) \<Rightarrow> 's \<Rightarrow> u8 list \<Rightarrow> u64 \<times> u8 list \<times> 's \<Rightarrow> bool" where
  "absorbed B f s0 m = (\<lambda>(n, buf, s). n = of_nat (length m) \<and> length buf = B \<and>
     take (length m mod B) buf = drop (length m div B * B) m \<and> s = absorb B f s0 m)"

lemma count_mod: "B dvd 2 ^ 64 \<Longrightarrow> unat (of_nat n :: u64) mod B = n mod B"
  by (simp add: unsigned_of_nat take_bit_eq_mod mod_mod_cancel)

lemma message_split: "m = take (length m div B * B) m @ drop (length m div B * B) m" "length (drop (length m div B * B) m) = length m mod B"
  "length (take (length m div B * B) m) = length m div B * B" "0 < B \<Longrightarrow> absorb B f s (take (length m div B * B) m) = absorb B f s m"
proof -
  show "length (take (length m div B * B) m) = length m div B * B" by (simp add: min_absorb2)
  show a: "m = take (length m div B * B) m @ drop (length m div B * B) m" by simp
  show b: "length (drop (length m div B * B) m) = length m mod B" by (simp add: minus_div_mult_eq_mod)
  assume B: "0 < B"
  have "absorb B f s m = absorb B f (absorb B f s (take (length m div B * B) m)) (drop (length m div B * B) m)"
    using absorb_append [OF B, of "take (length m div B * B) m" f s "drop (length m div B * B) m"] by simp
  also have "\<dots> = absorb B f s (take (length m div B * B) m)" using B b by (intro absorb_short) simp
  finally show "absorb B f s (take (length m div B * B) m) = absorb B f s m" ..
qed

text \<open>Input that completes the buffered block, and input that does not.\<close>

lemma absorbed_complete:
  assumes "absorbed B f s0 m (n, buf, s)" "0 < B" "j = length m mod B" "B - j \<le> length d"
  shows "f s (put_at buf j (take (B - j) d)) = absorb B f s0 (m @ take (B - j) d)" "B dvd length (m @ take (B - j) d)"
    "length (put_at buf j (take (B - j) d)) = B"
proof -
  define r where "r = drop (length m div B * B) m"
  have a: "length buf = B" "take j buf = r" "s = absorb B f s0 m" using assms(1,3) by (simp_all add: absorbed_def r_def)
  have j: "j < B" "length r = j" using assms(2,3) message_split(2) [of m B] by (simp_all add: r_def)
  have p: "put_at buf j (take (B - j) d) = r @ take (B - j) d" using a j assms(4) by (simp add: put_at_def)
  show "length (put_at buf j (take (B - j) d)) = B" unfolding p using j assms(4) by simp
  have m: "m @ take (B - j) d = take (length m div B * B) m @ (r @ take (B - j) d)" by (simp add: r_def)
  show "B dvd length (m @ take (B - j) d)" unfolding m length_append message_split(3) using j assms(4) by simp
  have "absorb B f s0 (m @ take (B - j) d) = absorb B f (absorb B f s0 (take (length m div B * B) m)) ((r @ take (B - j) d) @ [])"
    unfolding m append_Nil2 by (rule absorb_append [OF assms(2)]) (simp only: message_split(3) dvd_triv_right)
  also have "\<dots> = f (absorb B f s0 (take (length m div B * B) m)) (r @ take (B - j) d)"
    using j assms(2,4) by (subst absorb_block) simp_all
  finally show "f s (put_at buf j (take (B - j) d)) = absorb B f s0 (m @ take (B - j) d)" using p a(3) by (simp only: message_split(4) [OF assms(2)])
qed

lemma absorbed_partial:
  assumes "absorbed B f s0 m (n, buf, s)" "0 < B" "j = length m mod B" "length d < B - j"
  shows "absorbed B f s0 (m @ d) (n + of_nat (length d), put_at buf j d, s)"
proof -
  have a: "n = of_nat (length m)" "length buf = B" "take j buf = drop (length m div B * B) m" "s = absorb B f s0 m" using assms(1,3) by (simp_all add: absorbed_def)
  have l: "(length m + length d) div B = length m div B" "(length m + length d) mod B = j + length d"
  proof -
    define q where "q = length m div B"
    have e: "length m + length d = (j + length d) + q * B" using assms(3) by (simp add: q_def)
    show "(length m + length d) div B = length m div B" "(length m + length d) mod B = j + length d"
      unfolding q_def [symmetric] e using assms(2,4) by simp_all
  qed
  have "absorb B f s0 (m @ d) = absorb B f (absorb B f s0 (take (length m div B * B) m)) (drop (length m div B * B) m @ d)"
    using absorb_append [OF assms(2), of "take (length m div B * B) m" f s0 "drop (length m div B * B) m @ d"]
    unfolding message_split(3) append_assoc [symmetric] append_take_drop_id by simp
  also have "\<dots> = absorb B f s0 m" using assms(2-4) message_split(2,4) [where m = m and B = B] by simp
  finally have "absorb B f s0 (m @ d) = s" by (simp add: a)
  moreover have "length (put_at buf j d) = B" using a assms(4) by (simp add: length_put_at)
  moreover have "take (j + length d) (put_at buf j d) = take j buf @ d" using a(2) assms(4) by (simp add: put_at_def)
  ultimately show ?thesis using a l by (simp add: absorbed_def)
qed

lemma absorbed_rest:
  assumes "0 < B" "B dvd length x" "length buf = B" "n = of_nat (length (x @ y))" "s = absorb B f (absorb B f s0 x) y"
  shows "absorbed B f s0 (x @ y) (n, put_at buf 0 (drop (length y div B * B) y), s)"
proof -
  obtain q where q: "length x = q * B" using assms(2) by (metis dvd_def mult.commute)
  have l: "(length x + length y) div B = q + length y div B" "(length x + length y) mod B = length y mod B" using assms(1) by (simp_all add: q)
  have r: "length (drop (length y div B * B) y) = length y mod B" by (rule message_split(2))
  have "take (length y mod B) (put_at buf 0 (drop (length y div B * B) y)) = drop (length y div B * B) y" using r by (simp add: put_at_def)
  moreover have "length (put_at buf 0 (drop (length y div B * B) y)) = B" using assms(1,3) r mod_less_divisor [OF assms(1), of "length y"] by (intro length_put_at [THEN trans]) simp_all
  moreover have "drop ((q + length y div B) * B) (x @ y) = drop (length y div B * B) y" by (simp add: q distrib_right)
  ultimately show ?thesis using assms absorb_append [OF assms(1,2), of f s0 y] l by (simp add: absorbed_def)
qed

lemma hash_update_absorbs:
  assumes "0 < B" "B dvd 2 ^ 64" "absorbed B f s0 m (hash_count c, hash_buffer c, hash_state c)"
  shows "absorbed B f s0 (m @ d) (hash_count (hash_update B f c d), hash_buffer (hash_update B f c d), hash_state (hash_update B f c d))"
    "digest_len (hash_update B f c d) = digest_len c" "hash_context.more (hash_update B f c d) = hash_context.more c"
proof -
  define j where "j = length m mod B"
  have j: "unat (hash_count c) mod B = j" using assms by (simp add: absorbed_def count_mod j_def)
  show "digest_len (hash_update B f c d) = digest_len c" "hash_context.more (hash_update B f c d) = hash_context.more c"
    by (simp_all add: hash_update_def Let_def)
  show "absorbed B f s0 (m @ d) (hash_count (hash_update B f c d), hash_buffer (hash_update B f c d), hash_state (hash_update B f c d))"
  proof (cases "B - j \<le> length d")
    case True
    define x where "x = m @ take (B - j) d"
    define y where "y = drop (B - j) d"
    note k = absorbed_complete [OF assms(3,1) j_def True]
    have "m @ d = x @ y" by (simp add: x_def y_def)
    moreover have "hash_count c + of_nat (length d) = of_nat (length (x @ y))" using assms(3) True by (simp add: absorbed_def x_def y_def of_nat_diff)
    then have "absorbed B f s0 (x @ y) (hash_count c + of_nat (length d), put_at (put_at (hash_buffer c) j (take (B - j) d)) 0 (drop (length y div B * B) y),
        hash_blocks B f (f (hash_state c) (put_at (hash_buffer c) j (take (B - j) d))) y (length y div B))"
      using k unfolding hash_blocks_absorb [OF assms(1)] by (intro absorbed_rest [OF assms(1)]) (simp_all add: x_def)
    ultimately show ?thesis using True by (simp add: hash_update_def Let_def j y_def mult.commute)
  next
    case False
    then show ?thesis using absorbed_partial [OF assms(3,1) j_def, of d] by (simp add: hash_update_def Let_def j)
  qed
qed

text \<open>The loop of the small configuration is the other one, called for every byte, so the digests of the two configurations agree.\<close>

lemma hash_update_one:
  assumes "0 < B" "B dvd 2 ^ 64" "length (hash_buffer c) = B" "j = unat (hash_count c) mod B"
  shows "hash_update_byte B f (c\<lparr>hash_count := n\<rparr>, j) x =
      ((hash_update B f c [x])\<lparr>hash_count := n\<rparr>, unat (hash_count (hash_update B f c [x])) mod B)"
    "length (hash_buffer (hash_update B f c [x])) = B" "hash_count (hash_update B f c [x]) = hash_count c + 1"
proof -
  have j: "j < B" using assms by simp
  have p: "put_at (hash_buffer c) j [x] = (hash_buffer c)[j := x]" "put_at b 0 [] = b" for b :: "u8 list"
    using j assms(3) by (simp_all add: put_at_def upd_conv_take_nth_drop)
  have "unat (hash_count c + 1) mod B = unat (of_nat (unat (hash_count c) + 1) :: u64) mod B" by (simp add: add.commute)
  also have "\<dots> = Suc (unat (hash_count c)) mod B" using count_mod [OF assms(2)] by (simp only: Suc_eq_plus1)
  also have "\<dots> = (if Suc j = B then 0 else Suc j)" using assms(4) by (simp add: mod_Suc)
  finally have n: "unat (hash_count c + 1) mod B = (if Suc j = B then 0 else Suc j)" .
  show "length (hash_buffer (hash_update B f c [x])) = B" "hash_count (hash_update B f c [x]) = hash_count c + 1"
    using j assms(3) p by (auto simp: hash_update_def Let_def assms(4) [symmetric] hash_blocks_def)
  show "hash_update_byte B f (c\<lparr>hash_count := n\<rparr>, j) x =
      ((hash_update B f c [x])\<lparr>hash_count := n\<rparr>, unat (hash_count (hash_update B f c [x])) mod B)"
    using j n p by (auto simp: hash_update_byte_def hash_update_def Let_def assms(4) [symmetric] hash_blocks_def)
qed

lemma hash_update_small_bytes:
  assumes "0 < B" "B dvd 2 ^ 64" "length (hash_buffer c) = B"
  shows "hash_update_small B f c d = foldl (\<lambda>c x. hash_update B f c [x]) c d"
proof -
  have "fst (foldl (hash_update_byte B f) (c\<lparr>hash_count := n\<rparr>, unat (hash_count c) mod B) d) = (foldl (\<lambda>c x. hash_update B f c [x]) c d)\<lparr>hash_count := n\<rparr> \<and>
      hash_count (foldl (\<lambda>c x. hash_update B f c [x]) c d) = hash_count c + of_nat (length d)" for n
    using assms(3)
  proof (induction d arbitrary: c)
    case (Cons x d)
    note u = hash_update_one [OF assms(1,2) Cons.prems refl]
    show ?case using Cons.IH [OF u(2)] by (simp add: u(1,3))
  qed simp
  then show ?thesis by (simp add: hash_update_small_def Let_def)
qed

section \<open>Padding\<close>

text \<open>The padded message: a one bit, zeros up to \<open>t\<close> bytes into a block, and the \<open>tail\<close> with the length.\<close>

definition md_message :: "nat \<Rightarrow> nat \<Rightarrow> u8 list \<Rightarrow> u8 list \<Rightarrow> u8 list" where
  "md_message B t m tail = m @ [0x80] @ replicate ((B + t - (length m + 1) mod B) mod B) 0 @ tail"

lemma pad_steps:
  fixes n :: nat
  assumes "t < B"
  shows "(B + t - n mod B) mod B = 0 \<longleftrightarrow> n mod B = t" "(B + t - n mod B) mod B = Suc k \<Longrightarrow> (B + t - Suc n mod B) mod B = k"
    "(n + (B + t - n mod B) mod B) mod B = t"
proof -
  define r where "r = n mod B"
  have r: "r < B" using assms by (simp add: r_def)
  have v: "(B + t - r) mod B = (if r \<le> t then t - r else B + t - r)"
  proof (cases "r \<le> t")
    case True
    then have "(B + t - r) mod B = (t - r + B) mod B" by (simp add: add.commute)
    then show ?thesis using True assms by (simp only: mod_add_self2) simp
  qed (use r in simp)
  show z: "(B + t - n mod B) mod B = 0 \<longleftrightarrow> n mod B = t" using r assms unfolding r_def [symmetric] v by auto
  show "(n + (B + t - n mod B) mod B) mod B = t"
  proof -
    have "(n + (B + t - r) mod B) mod B = (r + (B + t - r)) mod B" unfolding r_def by (simp add: mod_add_left_eq mod_add_right_eq)
    then show ?thesis using r assms unfolding r_def [symmetric] by simp
  qed
  assume k: "(B + t - n mod B) mod B = Suc k"
  have r': "r \<noteq> t" using k z unfolding r_def [symmetric] by simp
  have s: "Suc n mod B = (if Suc r = B then 0 else Suc r)" unfolding r_def by (rule mod_Suc)
  show "(B + t - Suc n mod B) mod B = k"
  proof (cases "Suc r = B")
    case True
    then show ?thesis using k v r' assms unfolding r_def [symmetric] s by (auto split: if_splits)
  next
    case False
    then have "(B + t - Suc r) mod B = (if Suc r \<le> t then t - Suc r else B + t - Suc r)"
    proof (cases "Suc r \<le> t")
      case True
      then have "(B + t - Suc r) mod B = (t - Suc r + B) mod B" by (simp add: add.commute)
      then show ?thesis using True assms by (simp only: mod_add_self2) simp
    qed (use r' False r in simp)
    then show ?thesis using k v r' False unfolding r_def [symmetric] s by (auto split: if_splits)
  qed
qed

lemma nths_take: "n \<le> length xs \<Longrightarrow> map (\<lambda>i. xs ! i) [0..<n] = take n xs"
  by (rule nth_equalityI) simp_all

lemma bit_count: "push_bit 3 (of_nat n) = (of_nat (8 * n) :: u64)"
  by (simp add: push_bit_eq_mult mult.commute)

text \<open>
  The contract of a digest built on such a buffer: its update function absorbs. \<open>ok\<close> holds the fields that the update keeps, as the
  function that compresses a block. The laws give the whole of the digest: input in any number of pieces, the padding loop, which
  ends, and the state after the padded message.
\<close>

locale block_hash =
  fixes B t :: nat and f :: "'s \<Rightarrow> u8 list \<Rightarrow> 's" and upd :: "'c \<Rightarrow> u8 list \<Rightarrow> 'c" and cnt :: "'c \<Rightarrow> u64" and buf :: "'c \<Rightarrow> u8 list"
    and st :: "'c \<Rightarrow> 's" and ok :: "'c \<Rightarrow> bool"
  assumes block: "t < B" "B dvd 2 ^ 64"
    and upd_ok: "ok c \<Longrightarrow> ok (upd c d)"
    and upd_absorbs: "ok c \<Longrightarrow> absorbed B f s m (cnt c, buf c, st c) \<Longrightarrow> absorbed B f s (m @ d) (cnt (upd c d), buf (upd c d), st (upd c d))"
begin

lemma updates_absorb: "ok c \<Longrightarrow> absorbed B f s m (cnt c, buf c, st c) \<Longrightarrow> ok (foldl upd c ds) \<and>
    absorbed B f s (m @ concat ds) (cnt (foldl upd c ds), buf (foldl upd c ds), st (foldl upd c ds))"
proof (induction ds arbitrary: c m)
  case (Cons d ds)
  then show ?case using Cons.IH [OF upd_ok upd_absorbs, of c m d] by simp
qed simp

lemma pad_ends:
  assumes "ok c" "absorbed B f s m (cnt c, buf c, st c)"
  shows "\<exists>c'. hash_pad B t cnt upd c = Some c' \<and> ok c' \<and>
    absorbed B f s (m @ replicate ((B + t - length m mod B) mod B) 0) (cnt c', buf c', st c')"
  using assms
proof (induction "(B + t - length m mod B) mod B" arbitrary: c m)
  case 0
  have "length m mod B = t" using 0(1) pad_steps(1) [OF block(1)] by metis
  then have "unat (cnt c) mod B = t" using 0(3) count_mod [OF block(2)] by (simp add: absorbed_def)
  then show ?case using 0 by (simp add: hash_pad_def while_option_unfold)
next
  case (Suc k)
  have "length m mod B \<noteq> t" using Suc(2) pad_steps(1) [OF block(1), of "length m"] by simp
  then have n: "unat (cnt c) mod B \<noteq> t" using Suc(4) count_mod [OF block(2)] by (simp add: absorbed_def)
  have k: "k = (B + t - length (m @ [0]) mod B) mod B" using pad_steps(2) [OF block(1) Suc(2) [symmetric]] by simp
  obtain c' where c': "hash_pad B t cnt upd (upd c [0]) = Some c'" "ok c'" "absorbed B f s ((m @ [0]) @ replicate ((B + t - length (m @ [0]) mod B) mod B) 0) (cnt c', buf c', st c')"
    using Suc(1) [OF k upd_ok [OF Suc(3)] upd_absorbs [OF Suc(3,4)]] by blast
  have "hash_pad B t cnt upd c = Some c'" using c'(1) n by (simp add: hash_pad_def while_option_unfold)
  moreover have "(m @ [0]) @ replicate ((B + t - length (m @ [0]) mod B) mod B) 0 = m @ replicate ((B + t - length m mod B) mod B) 0"
    unfolding k [symmetric] Suc(2) [symmetric] by simp
  ultimately show ?case using c'(2,3) by metis
qed

lemma finish:
  assumes "ok c" "absorbed B f s m (cnt c, buf c, st c)" "B dvd t + length (concat tails)"
  shows "\<exists>c'. hash_pad B t cnt upd (upd c [0x80]) = Some c' \<and> ok (foldl upd c' tails) \<and>
    st (foldl upd c' tails) = absorb B f s (md_message B t m (concat tails))"
proof -
  obtain c' where c': "hash_pad B t cnt upd (upd c [0x80]) = Some c'" "ok c'"
    "absorbed B f s ((m @ [0x80]) @ replicate ((B + t - length (m @ [0x80]) mod B) mod B) 0) (cnt c', buf c', st c')"
    using pad_ends [OF upd_ok [OF assms(1)] upd_absorbs [OF assms(1,2)]] by blast
  have "ok (foldl upd c' tails)"
    "absorbed B f s (md_message B t m (concat tails)) (cnt (foldl upd c' tails), buf (foldl upd c' tails), st (foldl upd c' tails))"
    using updates_absorb [OF c'(2,3), of tails] by (simp_all add: md_message_def)
  then show ?thesis using c'(1) by (auto simp: absorbed_def)
qed

text \<open>A fresh context, input in any number of pieces, the padding and the pieces of the length.\<close>

lemma stream:
  assumes "ok c" "absorbed B f (st c) [] (cnt c, buf c, st c)" "B dvd t + length (concat tails)"
  shows "cnt (foldl upd c ds) = of_nat (length (concat ds))"
    "\<exists>c'. hash_pad B t cnt upd (upd (foldl upd c ds) [0x80]) = Some c' \<and> ok (foldl upd c' tails) \<and>
      st (foldl upd c' tails) = absorb B f (st c) (md_message B t (concat ds) (concat tails))"
proof -
  have u: "ok (foldl upd c ds)" "absorbed B f (st c) (concat ds) (cnt (foldl upd c ds), buf (foldl upd c ds), st (foldl upd c ds))"
    using updates_absorb [OF assms(1,2)] by simp_all
  then show "cnt (foldl upd c ds) = of_nat (length (concat ds))" by (simp add: absorbed_def)
  show "\<exists>c'. hash_pad B t cnt upd (upd (foldl upd c ds) [0x80]) = Some c' \<and> ok (foldl upd c' tails) \<and>
      st (foldl upd c' tails) = absorb B f (st c) (md_message B t (concat ds) (concat tails))" by (rule finish [OF u assms(3)])
qed

end

end
