(* ===== verification/AV_Sha.thy ===== *)
theory AV_Sha
  imports AV_Digest
begin

text \<open>\<^verbatim>\<open>libavutil/sha.c\<close>: SHA-1, SHA-224 and SHA-256, with the compression functions in the unrolled form and in that of \<^verbatim>\<open>CONFIG_SMALL\<close>.\<close>

unbundle bit_operations_syntax

section \<open>SHA-1\<close>

definition sha1_blk :: "u32 list \<Rightarrow> nat \<Rightarrow> u32" where
  "sha1_blk block i = rol (block ! (i - 3) XOR block ! (i - 8) XOR block ! (i - 14) XOR block ! (i - 16)) 1"

text \<open>The macros \<open>R0\<close> to \<open>R4\<close> return the new second and fifth of their arguments, and the message schedule.\<close>

definition sha1_R0 :: "u8 list \<Rightarrow> u32 list \<Rightarrow> u32 \<Rightarrow> u32 \<Rightarrow> u32 \<Rightarrow> u32 \<Rightarrow> u32 \<Rightarrow> nat \<Rightarrow> u32 \<times> u32 \<times> u32 list" where
  "sha1_R0 buffer block v w x y z i =
     (let t = AV_RB32 (drop (4 * i) buffer) in (rol w 30, z + (((w AND (x XOR y)) XOR y) + t + 0x5A827999 + rol v 5), block[i := t]))"

definition sha1_R1 :: "u32 list \<Rightarrow> u32 \<Rightarrow> u32 \<Rightarrow> u32 \<Rightarrow> u32 \<Rightarrow> u32 \<Rightarrow> nat \<Rightarrow> u32 \<times> u32 \<times> u32 list" where
  "sha1_R1 block v w x y z i =
     (let t = sha1_blk block i in (rol w 30, z + (((w AND (x XOR y)) XOR y) + t + 0x5A827999 + rol v 5), block[i := t]))"

definition sha1_R2 :: "u32 list \<Rightarrow> u32 \<Rightarrow> u32 \<Rightarrow> u32 \<Rightarrow> u32 \<Rightarrow> u32 \<Rightarrow> nat \<Rightarrow> u32 \<times> u32 \<times> u32 list" where
  "sha1_R2 block v w x y z i =
     (let t = sha1_blk block i in (rol w 30, z + ((w XOR x XOR y) + t + 0x6ED9EBA1 + rol v 5), block[i := t]))"

definition sha1_R3 :: "u32 list \<Rightarrow> u32 \<Rightarrow> u32 \<Rightarrow> u32 \<Rightarrow> u32 \<Rightarrow> u32 \<Rightarrow> nat \<Rightarrow> u32 \<times> u32 \<times> u32 list" where
  "sha1_R3 block v w x y z i =
     (let t = sha1_blk block i in (rol w 30, z + ((((w OR x) AND y) OR (w AND x)) + t + 0x8F1BBCDC + rol v 5), block[i := t]))"

definition sha1_R4 :: "u32 list \<Rightarrow> u32 \<Rightarrow> u32 \<Rightarrow> u32 \<Rightarrow> u32 \<Rightarrow> u32 \<Rightarrow> nat \<Rightarrow> u32 \<times> u32 \<times> u32 list" where
  "sha1_R4 block v w x y z i =
     (let t = sha1_blk block i in (rol w 30, z + ((w XOR x XOR y) + t + 0xCA62C1D6 + rol v 5), block[i := t]))"

text \<open>The five calls that \<open>R1_0\<close>, \<open>R1_20\<close>, \<open>R1_40\<close> and \<open>R1_60\<close> make of their macro.\<close>

type_synonym sha1_vars = "u32 \<times> u32 \<times> u32 \<times> u32 \<times> u32 \<times> u32 list"

definition sha1_five :: "(u32 list \<Rightarrow> u32 \<Rightarrow> u32 \<Rightarrow> u32 \<Rightarrow> u32 \<Rightarrow> u32 \<Rightarrow> nat \<Rightarrow> u32 \<times> u32 \<times> u32 list) \<Rightarrow> nat \<Rightarrow> sha1_vars \<Rightarrow> sha1_vars" where
  "sha1_five R i = (\<lambda>(a, b, c, d, e, block).
     let (b, e, block) = R block a b c d e (0 + i);
         (a, d, block) = R block e a b c d (1 + i);
         (e, c, block) = R block d e a b c (2 + i);
         (d, b, block) = R block c d e a b (3 + i);
         (c, a, block) = R block b c d e a (4 + i)
     in (a, b, c, d, e, block))"

definition sha1_15_to_19 :: "u8 list \<Rightarrow> sha1_vars \<Rightarrow> sha1_vars" where
  "sha1_15_to_19 buffer = (\<lambda>(a, b, c, d, e, block).
     let (b, e, block) = sha1_R0 buffer block a b c d e 15;
         (a, d, block) = sha1_R1 block e a b c d 16;
         (e, c, block) = sha1_R1 block d e a b c 17;
         (d, b, block) = sha1_R1 block c d e a b 18;
         (c, a, block) = sha1_R1 block b c d e a 19
     in (a, b, c, d, e, block))"

definition sha1_rounds :: "u8 list \<Rightarrow> sha1_vars \<Rightarrow> sha1_vars" where
  "sha1_rounds buffer v =
     (let v = sha1_five (sha1_R0 buffer) 0 v; v = sha1_five (sha1_R0 buffer) 5 v; v = sha1_five (sha1_R0 buffer) 10 v;
          v = sha1_15_to_19 buffer v;
          v = sha1_five sha1_R2 20 v; v = sha1_five sha1_R2 25 v; v = sha1_five sha1_R2 30 v; v = sha1_five sha1_R2 35 v;
          v = sha1_five sha1_R3 40 v; v = sha1_five sha1_R3 45 v; v = sha1_five sha1_R3 50 v; v = sha1_five sha1_R3 55 v;
          v = sha1_five sha1_R4 60 v; v = sha1_five sha1_R4 65 v; v = sha1_five sha1_R4 70 v; v = sha1_five sha1_R4 75 v
      in v)"

text \<open>The loop of the small configuration.\<close>

definition sha1_small_round :: "u8 list \<Rightarrow> sha1_vars \<Rightarrow> nat \<Rightarrow> sha1_vars" where
  "sha1_small_round buffer = (\<lambda>(a, b, c, d, e, block) i.
     let t = (if i < 16 then AV_RB32 (drop (4 * i) buffer) else rol (block ! (i - 3) XOR block ! (i - 8) XOR block ! (i - 14) XOR block ! (i - 16)) 1);
         block = block[i := t];
         t = t + (e + rol a 5);
         t = (if i < 40 then
                if i < 20 then t + (((b AND (c XOR d)) XOR d) + 0x5A827999) else t + ((b XOR c XOR d) + 0x6ED9EBA1)
              else
                if i < 60 then t + ((((b OR c) AND d) OR (b AND c)) + 0x8F1BBCDC) else t + ((b XOR c XOR d) + 0xCA62C1D6))
     in (t, a, rol b 30, c, d, block))"

definition sha1_small_rounds :: "u8 list \<Rightarrow> sha1_vars \<Rightarrow> sha1_vars" where
  "sha1_small_rounds buffer v = foldl (sha1_small_round buffer) v [0..<80]"

text \<open>Both configurations start from the state and add to it.\<close>

definition sha1_transform_with :: "(u8 list \<Rightarrow> sha1_vars \<Rightarrow> sha1_vars) \<Rightarrow> u32 list \<Rightarrow> u8 list \<Rightarrow> u32 list" where
  "sha1_transform_with rounds state buffer =
     (let (a, b, c, d, e, _) = rounds buffer (state ! 0, state ! 1, state ! 2, state ! 3, state ! 4, replicate 80 0);
          state = state[0 := state ! 0 + a];
          state = state[1 := state ! 1 + b];
          state = state[2 := state ! 2 + c];
          state = state[3 := state ! 3 + d];
          state = state[4 := state ! 4 + e]
      in state)"

definition sha1_transform :: "u32 list \<Rightarrow> u8 list \<Rightarrow> u32 list" where
  "sha1_transform = sha1_transform_with sha1_rounds"

section \<open>SHA-256\<close>

definition K256 :: "u32 list" where
  "K256 =
    [0x428A2F98, 0x71374491, 0xB5C0FBCF, 0xE9B5DBA5, 0x3956C25B, 0x59F111F1, 0x923F82A4, 0xAB1C5ED5,
     0xD807AA98, 0x12835B01, 0x243185BE, 0x550C7DC3, 0x72BE5D74, 0x80DEB1FE, 0x9BDC06A7, 0xC19BF174,
     0xE49B69C1, 0xEFBE4786, 0x0FC19DC6, 0x240CA1CC, 0x2DE92C6F, 0x4A7484AA, 0x5CB0A9DC, 0x76F988DA,
     0x983E5152, 0xA831C66D, 0xB00327C8, 0xBF597FC7, 0xC6E00BF3, 0xD5A79147, 0x06CA6351, 0x14292967,
     0x27B70A85, 0x2E1B2138, 0x4D2C6DFC, 0x53380D13, 0x650A7354, 0x766A0ABB, 0x81C2C92E, 0x92722C85,
     0xA2BFE8A1, 0xA81A664B, 0xC24B8B70, 0xC76C51A3, 0xD192E819, 0xD6990624, 0xF40E3585, 0x106AA070,
     0x19A4C116, 0x1E376C08, 0x2748774C, 0x34B0BCB5, 0x391C0CB3, 0x4ED8AA4A, 0x5B9CCA4F, 0x682E6FF3,
     0x748F82EE, 0x78A5636F, 0x84C87814, 0x8CC70208, 0x90BEFFFA, 0xA4506CEB, 0xBEF9A3F7, 0xC67178F2]"

definition Ch :: "u32 \<Rightarrow> u32 \<Rightarrow> u32 \<Rightarrow> u32" where
  "Ch x y z = (x AND (y XOR z)) XOR z"

definition Maj :: "u32 \<Rightarrow> u32 \<Rightarrow> u32 \<Rightarrow> u32" where
  "Maj z y x = ((x OR y) AND z) OR (x AND y)"

definition Sigma0_256 :: "u32 \<Rightarrow> u32" where
  "Sigma0_256 x = rol x 30 XOR rol x 19 XOR rol x 10"

definition Sigma1_256 :: "u32 \<Rightarrow> u32" where
  "Sigma1_256 x = rol x 26 XOR rol x 21 XOR rol x 7"

definition sigma0_256 :: "u32 \<Rightarrow> u32" where
  "sigma0_256 x = rol x 25 XOR rol x 14 XOR drop_bit 3 x"

definition sigma1_256 :: "u32 \<Rightarrow> u32" where
  "sigma1_256 x = rol x 15 XOR rol x 13 XOR drop_bit 10 x"

definition sha256_blk :: "u32 list \<Rightarrow> nat \<Rightarrow> u32" where
  "sha256_blk block i = block ! (i - 16) + sigma0_256 (block ! (i - 15)) + sigma1_256 (block ! (i - 2)) + block ! (i - 7)"

definition ROUND256 :: "u32 \<Rightarrow> u32 list \<Rightarrow> u32 \<Rightarrow> u32 \<Rightarrow> u32 \<Rightarrow> u32 \<Rightarrow> u32 \<Rightarrow> u32 \<Rightarrow> u32 \<Rightarrow> u32 \<Rightarrow> nat \<Rightarrow> u32 \<times> u32 \<times> u32 list" where
  "ROUND256 T1 block a b c d e f g h i =
     (let T1 = T1 + (h + Sigma1_256 e + Ch e f g + K256 ! i) in (d + T1, T1 + Sigma0_256 a + Maj a b c, block))"

definition ROUND256_0_TO_15 :: "u8 list \<Rightarrow> u32 list \<Rightarrow> u32 \<Rightarrow> u32 \<Rightarrow> u32 \<Rightarrow> u32 \<Rightarrow> u32 \<Rightarrow> u32 \<Rightarrow> u32 \<Rightarrow> u32 \<Rightarrow> nat \<Rightarrow> u32 \<times> u32 \<times> u32 list" where
  "ROUND256_0_TO_15 buffer block a b c d e f g h i = (let T1 = AV_RB32 (drop (4 * i) buffer) in ROUND256 T1 (block[i := T1]) a b c d e f g h i)"

definition ROUND256_16_TO_63 :: "u32 list \<Rightarrow> u32 \<Rightarrow> u32 \<Rightarrow> u32 \<Rightarrow> u32 \<Rightarrow> u32 \<Rightarrow> u32 \<Rightarrow> u32 \<Rightarrow> u32 \<Rightarrow> nat \<Rightarrow> u32 \<times> u32 \<times> u32 list" where
  "ROUND256_16_TO_63 block a b c d e f g h i = (let T1 = sha256_blk block i in ROUND256 T1 (block[i := T1]) a b c d e f g h i)"

definition sha256_rounds :: "u8 list \<Rightarrow> u32 sha2_vars \<Rightarrow> u32 sha2_vars" where
  "sha256_rounds buffer v =
     (let v = eight_rounds (ROUND256_0_TO_15 buffer) 0 v; v = eight_rounds (ROUND256_0_TO_15 buffer) 8 v;
          v = eight_rounds ROUND256_16_TO_63 16 v; v = eight_rounds ROUND256_16_TO_63 24 v; v = eight_rounds ROUND256_16_TO_63 32 v;
          v = eight_rounds ROUND256_16_TO_63 40 v; v = eight_rounds ROUND256_16_TO_63 48 v; v = eight_rounds ROUND256_16_TO_63 56 v
      in v)"

definition sha256_small_round :: "u8 list \<Rightarrow> u32 sha2_vars \<Rightarrow> nat \<Rightarrow> u32 sha2_vars" where
  "sha256_small_round buffer = (\<lambda>(a, b, c, d, e, f, g, h, block) i.
     let T1 = (if i < 16 then AV_RB32 (drop (4 * i) buffer) else sha256_blk block i);
         block = block[i := T1];
         T1 = T1 + (h + Sigma1_256 e + Ch e f g + K256 ! i);
         T2 = Sigma0_256 a + Maj a b c
     in (T1 + T2, a, b, c, d + T1, e, f, g, block))"

definition sha256_small_rounds :: "u8 list \<Rightarrow> u32 sha2_vars \<Rightarrow> u32 sha2_vars" where
  "sha256_small_rounds buffer v = foldl (sha256_small_round buffer) v [0..<64]"

definition sha256_transform_with :: "(u8 list \<Rightarrow> u32 sha2_vars \<Rightarrow> u32 sha2_vars) \<Rightarrow> u32 list \<Rightarrow> u8 list \<Rightarrow> u32 list" where
  "sha256_transform_with rounds state buffer =
     (let (a, b, c, d, e, f, g, h, _) =
        rounds buffer (state ! 0, state ! 1, state ! 2, state ! 3, state ! 4, state ! 5, state ! 6, state ! 7, replicate 64 0)
      in [state ! 0 + a, state ! 1 + b, state ! 2 + c, state ! 3 + d, state ! 4 + e, state ! 5 + f, state ! 6 + g, state ! 7 + h])"

definition sha256_transform :: "u32 list \<Rightarrow> u8 list \<Rightarrow> u32 list" where
  "sha256_transform = sha256_transform_with sha256_rounds"

section \<open>The context\<close>

record AVSHA = "u32 hash_context" +
  transform :: "u32 list \<Rightarrow> u8 list \<Rightarrow> u32 list"

definition av_sha_init :: "AVSHA \<Rightarrow> int \<Rightarrow> int \<times> AVSHA" where
  "av_sha_init ctx bits =
     (let ctx = ctx\<lparr>digest_len := nat (bits div 32 mod 256)\<rparr>
      in if bits = 160 then
           (0, ctx\<lparr>hash_state := put_at (hash_state ctx) 0 [0x67452301, 0xEFCDAB89, 0x98BADCFE, 0x10325476, 0xC3D2E1F0],
                   transform := sha1_transform, hash_count := 0\<rparr>)
         else if bits = 224 then
           (0, ctx\<lparr>hash_state := put_at (hash_state ctx) 0
                     [0xC1059ED8, 0x367CD507, 0x3070DD17, 0xF70E5939, 0xFFC00B31, 0x68581511, 0x64F98FA7, 0xBEFA4FA4],
                   transform := sha256_transform, hash_count := 0\<rparr>)
         else if bits = 256 then
           (0, ctx\<lparr>hash_state := put_at (hash_state ctx) 0
                     [0x6A09E667, 0xBB67AE85, 0x3C6EF372, 0xA54FF53A, 0x510E527F, 0x9B05688C, 0x1F83D9AB, 0x5BE0CD19],
                   transform := sha256_transform, hash_count := 0\<rparr>)
         else (AVERROR EINVAL, ctx))"

definition av_sha_update :: "AVSHA \<Rightarrow> u8 list \<Rightarrow> AVSHA" where
  "av_sha_update ctx data = hash_update 64 (transform ctx) ctx data"

text \<open>The result is the context and the bytes written to \<^verbatim>\<open>digest\<close>.\<close>

definition av_sha_final :: "AVSHA \<Rightarrow> (AVSHA \<times> u8 list) option" where
  "av_sha_final ctx = do {
     let finalcount = AV_WB64 (push_bit 3 (hash_count ctx));
     ctx \<leftarrow> hash_pad 64 56 hash_count av_sha_update (av_sha_update ctx [0x80]);
     let ctx = av_sha_update ctx finalcount;
     Some (ctx, concat (map (\<lambda>i. AV_WB32 (hash_state ctx ! i)) [0..<digest_len ctx]))
   }"

section \<open>The two configurations agree\<close>

definition sha1_step :: "(u32 list \<Rightarrow> u32 \<Rightarrow> u32 \<Rightarrow> u32 \<Rightarrow> u32 \<Rightarrow> u32 \<Rightarrow> nat \<Rightarrow> u32 \<times> u32 \<times> u32 list) \<Rightarrow> sha1_vars \<Rightarrow> nat \<Rightarrow> sha1_vars" where
  "sha1_step R = (\<lambda>(a, b, c, d, e, block) i. let (w, z, block) = R block a b c d e i in (z, a, w, c, d, block))"

lemma sha1_five_steps: "sha1_five R i v = foldl (sha1_step R) v [i..<i + 5]"
proof -
  have "[i..<i + 5] = [0 + i, 1 + i, 2 + i, 3 + i, 4 + i]" by (simp add: upt_conv_Cons numeral_eq_Suc)
  then show ?thesis by (cases v) (simp add: sha1_five_def sha1_step_def Let_def split: prod.splits)
qed

lemma sha1_small_step:
  "i < 16 \<Longrightarrow> sha1_small_round buffer v i = sha1_step (sha1_R0 buffer) v i"
  "16 \<le> i \<Longrightarrow> i < 20 \<Longrightarrow> sha1_small_round buffer v i = sha1_step sha1_R1 v i"
  "20 \<le> i \<Longrightarrow> i < 40 \<Longrightarrow> sha1_small_round buffer v i = sha1_step sha1_R2 v i"
  "40 \<le> i \<Longrightarrow> i < 60 \<Longrightarrow> sha1_small_round buffer v i = sha1_step sha1_R3 v i"
  "60 \<le> i \<Longrightarrow> sha1_small_round buffer v i = sha1_step sha1_R4 v i"
proof -
  obtain a b c d e block where v: "v = (a, b, c, d, e, block)" by (cases v) auto
  have b: "sha1_small_round buffer v i = (let t = (if i < 16 then AV_RB32 (drop (4 * i) buffer) else sha1_blk block i)
      in (t + (e + rol a 5) + (if i < 40 then if i < 20 then ((b AND (c XOR d)) XOR d) + 0x5A827999 else (b XOR c XOR d) + 0x6ED9EBA1
            else if i < 60 then (((b OR c) AND d) OR (b AND c)) + 0x8F1BBCDC else (b XOR c XOR d) + 0xCA62C1D6), a, rol b 30, c, d, block[i := t]))"
    by (simp only: v sha1_small_round_def sha1_blk_def Let_def prod.case if_distrib [of "plus x" for x])
  have r: "t + (e + r) + (F + K) = e + (F + t + K + r)" for t r F K :: u32 by (simp only: ac_simps)
  { assume "i < 16"
    then have "i < 16" "i < 20" "i < 40" by simp_all
    then show "sha1_small_round buffer v i = sha1_step (sha1_R0 buffer) v i"
      unfolding b by (simp only: v sha1_step_def sha1_R0_def Let_def prod.case if_True if_False r) }
  { assume "16 \<le> i" "i < 20"
    then have "16 \<le> i" "i < 20" "\<not> i < 16" "i < 40" by simp_all
    then show "sha1_small_round buffer v i = sha1_step (sha1_R1) v i"
      unfolding b by (simp only: v sha1_step_def sha1_R1_def Let_def prod.case if_True if_False r) }
  { assume "20 \<le> i" "i < 40"
    then have "20 \<le> i" "i < 40" "\<not> i < 16" "\<not> i < 20" by simp_all
    then show "sha1_small_round buffer v i = sha1_step (sha1_R2) v i"
      unfolding b by (simp only: v sha1_step_def sha1_R2_def Let_def prod.case if_True if_False r) }
  { assume "40 \<le> i" "i < 60"
    then have "40 \<le> i" "i < 60" "\<not> i < 16" "\<not> i < 40" by simp_all
    then show "sha1_small_round buffer v i = sha1_step (sha1_R3) v i"
      unfolding b by (simp only: v sha1_step_def sha1_R3_def Let_def prod.case if_True if_False r) }
  { assume "60 \<le> i"
    then have "60 \<le> i" "\<not> i < 16" "\<not> i < 40" "\<not> i < 60" by simp_all
    then show "sha1_small_round buffer v i = sha1_step (sha1_R4) v i"
      unfolding b by (simp only: v sha1_step_def sha1_R4_def Let_def prod.case if_True if_False r) }
qed

lemma sha1_piece:
  assumes "\<And>v j. i \<le> j \<Longrightarrow> j < i + 5 \<Longrightarrow> sha1_small_round buffer v j = sha1_step R v j"
  shows "sha1_five R i (foldl (sha1_small_round buffer) v [0..<i]) = foldl (sha1_small_round buffer) v [0..<i + 5]"
proof -
  have "foldl (sha1_step R) w [i..<i + 5] = foldl (sha1_small_round buffer) w [i..<i + 5]" for w
    using assms by (intro foldl_cong) simp_all
  moreover have "[0..<i + 5] = [0..<i] @ [i..<i + 5]" by (rule upt_add_eq_append) simp
  ultimately show ?thesis by (simp only: sha1_five_steps foldl_append)
qed

lemma sha1_rounds_small: "sha1_rounds buffer v = sha1_small_rounds buffer v"
proof -
  define L where "L i = foldl (sha1_small_round buffer) v [0..<i]" for i
  have p: "i + 5 \<le> 16 \<Longrightarrow> sha1_five (sha1_R0 buffer) i (L i) = L (i + 5)" "20 \<le> i \<Longrightarrow> i + 5 \<le> 40 \<Longrightarrow> sha1_five sha1_R2 i (L i) = L (i + 5)"
    "40 \<le> i \<Longrightarrow> i + 5 \<le> 60 \<Longrightarrow> sha1_five sha1_R3 i (L i) = L (i + 5)" "60 \<le> i \<Longrightarrow> sha1_five sha1_R4 i (L i) = L (i + 5)" for i
    unfolding L_def by (intro sha1_piece sha1_small_step; simp)+
  have "[0..<20] = [0..<15] @ [15, 16, 17, 18, 19]" by (simp add: upt_rec)
  then have "L 20 = sha1_step sha1_R1 (sha1_step sha1_R1 (sha1_step sha1_R1 (sha1_step sha1_R1 (sha1_step (sha1_R0 buffer) (L 15) 15) 16) 17) 18) 19"
    by (simp add: L_def sha1_small_step)
  then have m: "sha1_15_to_19 buffer (L 15) = L 20"
    by (cases "L 15") (simp add: sha1_15_to_19_def sha1_step_def Let_def split: prod.splits)
  have "v = L 0" by (simp add: L_def)
  then have "sha1_rounds buffer v = L 80" unfolding sha1_rounds_def Let_def
    using p(1) [of 0] p(1) [of 5] p(1) [of 10] m p(2) [of 20] p(2) [of 25] p(2) [of 30] p(2) [of 35]
      p(3) [of 40] p(3) [of 45] p(3) [of 50] p(3) [of 55] p(4) [of 60] p(4) [of 65] p(4) [of 70] p(4) [of 75] by simp
  then show ?thesis by (simp only: L_def sha1_small_rounds_def)
qed

lemma sha256_small_step:
  "i < 16 \<Longrightarrow> sha256_small_round buffer v i = moving_round (ROUND256_0_TO_15 buffer) i v"
  "16 \<le> i \<Longrightarrow> sha256_small_round buffer v i = moving_round ROUND256_16_TO_63 i v"
proof -
  obtain a b c d e f g h block where v: "v = (a, b, c, d, e, f, g, h, block)" by (cases v) auto
  show "i < 16 \<Longrightarrow> sha256_small_round buffer v i = moving_round (ROUND256_0_TO_15 buffer) i v"
    by (simp only: v sha256_small_round_def moving_round_def ROUND256_0_TO_15_def ROUND256_def Let_def prod.case if_True add.assoc)
  assume "16 \<le> i"
  then have "\<not> i < 16" by simp
  then show "sha256_small_round buffer v i = moving_round ROUND256_16_TO_63 i v"
    by (simp only: v sha256_small_round_def moving_round_def ROUND256_16_TO_63_def ROUND256_def Let_def prod.case if_False add.assoc)
qed

lemma sha256_rounds_small: "sha256_rounds buffer v = sha256_small_rounds buffer v"
proof -
  define L where "L i = foldl (sha256_small_round buffer) v [0..<i]" for i
  have p: "i + 8 \<le> 16 \<Longrightarrow> eight_rounds (ROUND256_0_TO_15 buffer) i (L i) = L (i + 8)" "16 \<le> i \<Longrightarrow> eight_rounds ROUND256_16_TO_63 i (L i) = L (i + 8)" for i
    unfolding L_def by (intro eight_rounds_piece sha256_small_step; simp)+
  have "v = L 0" by (simp add: L_def)
  then have "sha256_rounds buffer v = L 64" unfolding sha256_rounds_def Let_def
    using p(1) [of 0] p(1) [of 8] p(2) [of 16] p(2) [of 24] p(2) [of 32] p(2) [of 40] p(2) [of 48] p(2) [of 56] by simp
  then show ?thesis by (simp only: L_def sha256_small_rounds_def)
qed

text \<open>
  Also: the unrolled compression functions of SHA-1 and SHA-256, which rename the variables from call to call, are the loops of the
  small configuration, which move the values.
\<close>

theorem sha_unrolled_is_loop:
  "sha1_transform = sha1_transform_with sha1_small_rounds \<and> sha256_transform = sha256_transform_with sha256_small_rounds"
  by (simp add: sha1_transform_def sha256_transform_def sha1_rounds_small [abs_def] sha256_rounds_small [abs_def])

section \<open>Digests of messages\<close>

interpretation sha: block_hash 64 56 f av_sha_update hash_count hash_buffer hash_state "\<lambda>c. transform c = f \<and> digest_len c = n" for f n
proof unfold_locales
  fix c :: AVSHA and s m d
  assume c: "transform c = f \<and> digest_len c = n"
  then show "transform (av_sha_update c d) = f \<and> digest_len (av_sha_update c d) = n" by (simp add: av_sha_update_def hash_update_def Let_def)
  assume "absorbed 64 f s m (hash_count c, hash_buffer c, hash_state c)"
  then show "absorbed 64 f s (m @ d) (hash_count (av_sha_update c d), hash_buffer (av_sha_update c d), hash_state (av_sha_update c d))"
    unfolding av_sha_update_def using c by (auto intro: hash_update_absorbs(1))
qed simp_all

text \<open>The digest of a message, as the standard defines it: padding, compression of all blocks, the first words of the state.\<close>

definition sha_iv :: "int \<Rightarrow> u32 list" where
  "sha_iv bits =
     (if bits = 160 then [0x67452301, 0xEFCDAB89, 0x98BADCFE, 0x10325476, 0xC3D2E1F0]
      else if bits = 224 then [0xC1059ED8, 0x367CD507, 0x3070DD17, 0xF70E5939, 0xFFC00B31, 0x68581511, 0x64F98FA7, 0xBEFA4FA4]
      else [0x6A09E667, 0xBB67AE85, 0x3C6EF372, 0xA54FF53A, 0x510E527F, 0x9B05688C, 0x1F83D9AB, 0x5BE0CD19])"

definition sha_compress :: "int \<Rightarrow> u32 list \<Rightarrow> u8 list \<Rightarrow> u32 list" where
  "sha_compress bits = (if bits = 160 then sha1_transform else sha256_transform)"

definition sha_digest :: "int \<Rightarrow> u8 list \<Rightarrow> u8 list" where
  "sha_digest bits m =
     concat (map AV_WB32 (take (nat (bits div 32)) (absorb 64 (sha_compress bits) (sha_iv bits) (md_message 64 56 m (AV_WB64 (of_nat (8 * length m)))))))"

lemma sha1_take: "5 \<le> length s \<Longrightarrow> length (sha1_transform s b) = length s \<and> take 5 (sha1_transform s b) = sha1_transform (take 5 s) b"
  by (simp add: sha1_transform_def sha1_transform_with_def Let_def take_update_swap split: prod.splits)

lemma sha256_length: "length (sha256_transform s b) = 8"
  by (simp add: sha256_transform_def sha256_transform_with_def split: prod.splits)

lemma length_sha_iv: "length (sha_iv bits) = (if bits = 160 then 5 else 8)"
  by (simp add: sha_iv_def)

lemma av_sha_init_ok:
  assumes "bits \<in> {160, 224, 256}" "length (hash_buffer c) = 64" "length (hash_state c) = 8"
  obtains c0 where "av_sha_init c bits = (0, c0)" "transform c0 = sha_compress bits" "digest_len c0 = nat (bits div 32)"
    "absorbed 64 (sha_compress bits) (hash_state c0) [] (hash_count c0, hash_buffer c0, hash_state c0)"
    "length (hash_state c0) = 8" "take (length (sha_iv bits)) (hash_state c0) = sha_iv bits"
  using assms by (auto simp: av_sha_init_def Let_def sha_compress_def sha_iv_def absorbed_def put_at_def)

lemma sha_stream:
  assumes "bits \<in> {160, 224, 256}" "length (hash_buffer c) = 64" "length (hash_state c) = 8"
  shows "\<exists>c0 c1. av_sha_init c bits = (0, c0) \<and> av_sha_final (foldl av_sha_update c0 ds) = Some (c1, sha_digest bits (concat ds))"
proof -
  obtain c0 where c0: "av_sha_init c bits = (0, c0)" "transform c0 = sha_compress bits" "digest_len c0 = nat (bits div 32)"
    "absorbed 64 (sha_compress bits) (hash_state c0) [] (hash_count c0, hash_buffer c0, hash_state c0)"
    "length (hash_state c0) = 8" "take (length (sha_iv bits)) (hash_state c0) = sha_iv bits" by (rule av_sha_init_ok [OF assms])
  define m where "m = concat ds"
  define cm where "cm = foldl av_sha_update c0 ds"
  define T where "T = AV_WB64 (of_nat (8 * length m))"
  define M where "M = md_message 64 56 m T"
  have ok: "transform c0 = sha_compress bits \<and> digest_len c0 = nat (bits div 32)" using c0(2,3) by simp
  note st = sha.stream [OF ok c0(4), of "[T]" ds, folded cm_def m_def]
  have tl: "AV_WB64 (push_bit 3 (hash_count cm)) = T" using st(1) bit_count by (simp add: T_def)
  obtain c1 where c1: "hash_pad 64 56 hash_count av_sha_update (av_sha_update cm [0x80]) = Some c1"
    "digest_len (av_sha_update c1 T) = nat (bits div 32)" "hash_state (av_sha_update c1 T) = absorb 64 (sha_compress bits) (hash_state c0) M"
    using st(2) by (auto simp: M_def T_def)
  define Y where "Y = absorb 64 (sha_compress bits) (hash_state c0) M"
  have Y: "length Y = 8 \<and> take (length (sha_iv bits)) Y = absorb 64 (sha_compress bits) (take (length (sha_iv bits)) (hash_state c0)) M"
    unfolding Y_def by (rule absorb_project [where P = "\<lambda>s. length s = 8", OF _ c0(5)])
      (use sha1_take sha256_length in \<open>auto simp: sha_compress_def length_sha_iv\<close>)
  have n: "nat (bits div 32) \<le> length (sha_iv bits)" "length (sha_iv bits) \<le> 8" using assms(1) by (auto simp: length_sha_iv)
  then have "take (nat (bits div 32)) Y = take (nat (bits div 32)) (take (length (sha_iv bits)) Y)" by (simp add: min_absorb1)
  also have "\<dots> = take (nat (bits div 32)) (absorb 64 (sha_compress bits) (sha_iv bits) M)" using Y c0(6) by simp
  finally have fin: "take (nat (bits div 32)) Y = take (nat (bits div 32)) (absorb 64 (sha_compress bits) (sha_iv bits) M)" "nat (bits div 32) \<le> length Y"
    using Y n by simp_all
  have "sha_digest bits m = concat (map AV_WB32 (take (nat (bits div 32)) Y))" by (simp only: sha_digest_def fin(1) M_def T_def)
  then have "av_sha_final cm = Some (av_sha_update c1 T, sha_digest bits m)"
    unfolding av_sha_final_def tl Let_def c1(1) by (simp add: c1(2,3) Y_def [symmetric] nths_take [OF fin(2), symmetric] o_def)
  then show ?thesis using c0(1) by (auto simp: cm_def m_def)
qed

text \<open>
  C14: on any context, whatever it held before, \<^verbatim>\<open>av_sha_init\<close> for 160, 224 or 256 bits, any number of calls of \<^verbatim>\<open>av_sha_update\<close> and
  \<^verbatim>\<open>av_sha_final\<close>, whose padding loop ends, give the digest of the concatenated input; any other size is refused.
\<close>

theorem av_sha_digest:
  assumes "length (hash_buffer c) = 64" "length (hash_state c) = 8"
  shows "if bits \<in> {160, 224, 256}
    then \<exists>c0 c1. av_sha_init c bits = (0, c0) \<and> av_sha_final (foldl av_sha_update c0 ds) = Some (c1, sha_digest bits (concat ds))
    else fst (av_sha_init c bits) = AVERROR EINVAL"
  using sha_stream [OF _ assms] by (auto simp: av_sha_init_def)

definition demo_sha :: AVSHA where
  "demo_sha = \<lparr>digest_len = 9, hash_count = 77, hash_buffer = replicate 64 1, hash_state = replicate 8 2, transform = sha1_transform\<rparr>"

theorem av_sha_digest_witness:
  "if 256 \<in> {160, 224, 256 :: int}
    then \<exists>c0 c1. av_sha_init demo_sha 256 = (0, c0) \<and> av_sha_final (foldl av_sha_update c0 [[97], [98, 99]]) = Some (c1, sha_digest 256 (concat [[97], [98, 99]]))
    else fst (av_sha_init demo_sha 256) = AVERROR EINVAL"
  by (rule av_sha_digest) (simp_all add: demo_sha_def)

end
