(* ===== verification/AV_Sha512.thy ===== *)
theory AV_Sha512
  imports AV_Digest
begin

text \<open>\<^verbatim>\<open>libavutil/sha512.c\<close>: SHA-384, SHA-512 and the two truncations of SHA-512, in both configurations.\<close>

unbundle bit_operations_syntax

section \<open>The compression function\<close>

definition K512 :: "u64 list" where
  "K512 =
    [0x428A2F98D728AE22, 0x7137449123EF65CD, 0xB5C0FBCFEC4D3B2F, 0xE9B5DBA58189DBBC, 0x3956C25BF348B538,
     0x59F111F1B605D019, 0x923F82A4AF194F9B, 0xAB1C5ED5DA6D8118, 0xD807AA98A3030242, 0x12835B0145706FBE,
     0x243185BE4EE4B28C, 0x550C7DC3D5FFB4E2, 0x72BE5D74F27B896F, 0x80DEB1FE3B1696B1, 0x9BDC06A725C71235,
     0xC19BF174CF692694, 0xE49B69C19EF14AD2, 0xEFBE4786384F25E3, 0x0FC19DC68B8CD5B5, 0x240CA1CC77AC9C65,
     0x2DE92C6F592B0275, 0x4A7484AA6EA6E483, 0x5CB0A9DCBD41FBD4, 0x76F988DA831153B5, 0x983E5152EE66DFAB,
     0xA831C66D2DB43210, 0xB00327C898FB213F, 0xBF597FC7BEEF0EE4, 0xC6E00BF33DA88FC2, 0xD5A79147930AA725,
     0x06CA6351E003826F, 0x142929670A0E6E70, 0x27B70A8546D22FFC, 0x2E1B21385C26C926, 0x4D2C6DFC5AC42AED,
     0x53380D139D95B3DF, 0x650A73548BAF63DE, 0x766A0ABB3C77B2A8, 0x81C2C92E47EDAEE6, 0x92722C851482353B,
     0xA2BFE8A14CF10364, 0xA81A664BBC423001, 0xC24B8B70D0F89791, 0xC76C51A30654BE30, 0xD192E819D6EF5218,
     0xD69906245565A910, 0xF40E35855771202A, 0x106AA07032BBD1B8, 0x19A4C116B8D2D0C8, 0x1E376C085141AB53,
     0x2748774CDF8EEB99, 0x34B0BCB5E19B48A8, 0x391C0CB3C5C95A63, 0x4ED8AA4AE3418ACB, 0x5B9CCA4F7763E373,
     0x682E6FF3D6B2B8A3, 0x748F82EE5DEFB2FC, 0x78A5636F43172F60, 0x84C87814A1F0AB72, 0x8CC702081A6439EC,
     0x90BEFFFA23631E28, 0xA4506CEBDE82BDE9, 0xBEF9A3F7B2C67915, 0xC67178F2E372532B, 0xCA273ECEEA26619C,
     0xD186B8C721C0C207, 0xEADA7DD6CDE0EB1E, 0xF57D4F7FEE6ED178, 0x06F067AA72176FBA, 0x0A637DC5A2C898A6,
     0x113F9804BEF90DAE, 0x1B710B35131C471B, 0x28DB77F523047D84, 0x32CAAB7B40C72493, 0x3C9EBE0A15C9BEBC,
     0x431D67C49C100D4C, 0x4CC5D4BECB3E42B6, 0x597F299CFC657E2A, 0x5FCB6FAB3AD6FAEC, 0x6C44198C4A475817]"

definition ror :: "u64 \<Rightarrow> nat \<Rightarrow> u64" where
  "ror v bits = drop_bit bits v OR push_bit (64 - bits) v"

definition Ch_512 :: "u64 \<Rightarrow> u64 \<Rightarrow> u64 \<Rightarrow> u64" where
  "Ch_512 x y z = (x AND (y XOR z)) XOR z"

definition Maj_512 :: "u64 \<Rightarrow> u64 \<Rightarrow> u64 \<Rightarrow> u64" where
  "Maj_512 z y x = ((x OR y) AND z) OR (x AND y)"

definition Sigma0_512 :: "u64 \<Rightarrow> u64" where
  "Sigma0_512 x = ror x 28 XOR ror x 34 XOR ror x 39"

definition Sigma1_512 :: "u64 \<Rightarrow> u64" where
  "Sigma1_512 x = ror x 14 XOR ror x 18 XOR ror x 41"

definition sigma0_512 :: "u64 \<Rightarrow> u64" where
  "sigma0_512 x = ror x 1 XOR ror x 8 XOR drop_bit 7 x"

definition sigma1_512 :: "u64 \<Rightarrow> u64" where
  "sigma1_512 x = ror x 19 XOR ror x 61 XOR drop_bit 6 x"

definition sha512_blk :: "u64 list \<Rightarrow> nat \<Rightarrow> u64" where
  "sha512_blk block i = block ! (i - 16) + sigma0_512 (block ! (i - 15)) + sigma1_512 (block ! (i - 2)) + block ! (i - 7)"

definition ROUND512 :: "u64 \<Rightarrow> u64 list \<Rightarrow> u64 \<Rightarrow> u64 \<Rightarrow> u64 \<Rightarrow> u64 \<Rightarrow> u64 \<Rightarrow> u64 \<Rightarrow> u64 \<Rightarrow> u64 \<Rightarrow> nat \<Rightarrow> u64 \<times> u64 \<times> u64 list" where
  "ROUND512 T1 block a b c d e f g h i =
     (let T1 = T1 + (h + Sigma1_512 e + Ch_512 e f g + K512 ! i) in (d + T1, T1 + Sigma0_512 a + Maj_512 a b c, block))"

definition ROUND512_0_TO_15 :: "u8 list \<Rightarrow> u64 list \<Rightarrow> u64 \<Rightarrow> u64 \<Rightarrow> u64 \<Rightarrow> u64 \<Rightarrow> u64 \<Rightarrow> u64 \<Rightarrow> u64 \<Rightarrow> u64 \<Rightarrow> nat \<Rightarrow> u64 \<times> u64 \<times> u64 list" where
  "ROUND512_0_TO_15 buffer block a b c d e f g h i = (let T1 = AV_RB64 (drop (8 * i) buffer) in ROUND512 T1 (block[i := T1]) a b c d e f g h i)"

definition ROUND512_16_TO_80 :: "u64 list \<Rightarrow> u64 \<Rightarrow> u64 \<Rightarrow> u64 \<Rightarrow> u64 \<Rightarrow> u64 \<Rightarrow> u64 \<Rightarrow> u64 \<Rightarrow> u64 \<Rightarrow> nat \<Rightarrow> u64 \<times> u64 \<times> u64 list" where
  "ROUND512_16_TO_80 block a b c d e f g h i = (let T1 = sha512_blk block i in ROUND512 T1 (block[i := T1]) a b c d e f g h i)"

definition sha512_rounds :: "u8 list \<Rightarrow> u64 sha2_vars \<Rightarrow> u64 sha2_vars" where
  "sha512_rounds buffer v =
     (let v = eight_rounds (ROUND512_0_TO_15 buffer) 0 v; v = eight_rounds (ROUND512_0_TO_15 buffer) 8 v;
          v = eight_rounds ROUND512_16_TO_80 16 v; v = eight_rounds ROUND512_16_TO_80 24 v; v = eight_rounds ROUND512_16_TO_80 32 v;
          v = eight_rounds ROUND512_16_TO_80 40 v; v = eight_rounds ROUND512_16_TO_80 48 v; v = eight_rounds ROUND512_16_TO_80 56 v;
          v = eight_rounds ROUND512_16_TO_80 64 v; v = eight_rounds ROUND512_16_TO_80 72 v
      in v)"

definition sha512_small_round :: "u8 list \<Rightarrow> u64 sha2_vars \<Rightarrow> nat \<Rightarrow> u64 sha2_vars" where
  "sha512_small_round buffer = (\<lambda>(a, b, c, d, e, f, g, h, block) i.
     let T1 = (if i < 16 then AV_RB64 (drop (8 * i) buffer) else sha512_blk block i);
         block = block[i := T1];
         T1 = T1 + (h + Sigma1_512 e + Ch_512 e f g + K512 ! i);
         T2 = Sigma0_512 a + Maj_512 a b c
     in (T1 + T2, a, b, c, d + T1, e, f, g, block))"

definition sha512_small_rounds :: "u8 list \<Rightarrow> u64 sha2_vars \<Rightarrow> u64 sha2_vars" where
  "sha512_small_rounds buffer v = foldl (sha512_small_round buffer) v [0..<80]"

definition sha512_transform_with :: "(u8 list \<Rightarrow> u64 sha2_vars \<Rightarrow> u64 sha2_vars) \<Rightarrow> u64 list \<Rightarrow> u8 list \<Rightarrow> u64 list" where
  "sha512_transform_with rounds state buffer =
     (let (a, b, c, d, e, f, g, h, _) =
        rounds buffer (state ! 0, state ! 1, state ! 2, state ! 3, state ! 4, state ! 5, state ! 6, state ! 7, replicate 80 0)
      in [state ! 0 + a, state ! 1 + b, state ! 2 + c, state ! 3 + d, state ! 4 + e, state ! 5 + f, state ! 6 + g, state ! 7 + h])"

definition sha512_transform :: "u64 list \<Rightarrow> u8 list \<Rightarrow> u64 list" where
  "sha512_transform = sha512_transform_with sha512_rounds"

section \<open>The context\<close>

type_synonym AVSHA512 = "u64 hash_context"

definition av_sha512_init :: "AVSHA512 \<Rightarrow> int \<Rightarrow> int \<times> AVSHA512" where
  "av_sha512_init ctx bits =
     (let ctx = ctx\<lparr>digest_len := nat (bits div 64 mod 256)\<rparr>
      in if bits = 224 then (0, ctx\<lparr>hash_state := put_at (hash_state ctx) 0
        [0x8C3D37C819544DA2, 0x73E1996689DCD4D6, 0x1DFAB7AE32FF9C82, 0x679DD514582F9FCF,
        0x0F6D2B697BD44DA8, 0x77E36F7304C48942, 0x3F9D85A86A1D36C8, 0x1112E6AD91D692A1], hash_count := 0\<rparr>)
         else if bits = 256 then (0, ctx\<lparr>hash_state := put_at (hash_state ctx) 0
        [0x22312194FC2BF72C, 0x9F555FA3C84C64C2, 0x2393B86B6F53B151, 0x963877195940EABD,
        0x96283EE2A88EFFE3, 0xBE5E1E2553863992, 0x2B0199FC2C85B8AA, 0x0EB72DDC81C52CA2], hash_count := 0\<rparr>)
         else if bits = 384 then (0, ctx\<lparr>hash_state := put_at (hash_state ctx) 0
        [0xCBBB9D5DC1059ED8, 0x629A292A367CD507, 0x9159015A3070DD17, 0x152FECD8F70E5939,
        0x67332667FFC00B31, 0x8EB44A8768581511, 0xDB0C2E0D64F98FA7, 0x47B5481DBEFA4FA4], hash_count := 0\<rparr>)
         else if bits = 512 then (0, ctx\<lparr>hash_state := put_at (hash_state ctx) 0
        [0x6A09E667F3BCC908, 0xBB67AE8584CAA73B, 0x3C6EF372FE94F82B, 0xA54FF53A5F1D36F1,
        0x510E527FADE682D1, 0x9B05688C2B3E6C1F, 0x1F83D9ABFB41BD6B, 0x5BE0CD19137E2179], hash_count := 0\<rparr>)
         else (AVERROR EINVAL, ctx))"

definition av_sha512_update :: "AVSHA512 \<Rightarrow> u8 list \<Rightarrow> AVSHA512" where
  "av_sha512_update ctx data = hash_update 128 sha512_transform ctx data"

text \<open>The length is written as 128 bits, the upper half as zero. A digest of 224 bits ends in half a word.\<close>

definition av_sha512_final :: "AVSHA512 \<Rightarrow> (AVSHA512 \<times> u8 list) option" where
  "av_sha512_final ctx = do {
     let finalcount = AV_WB64 (push_bit 3 (hash_count ctx));
     ctx \<leftarrow> hash_pad 128 112 hash_count av_sha512_update (av_sha512_update ctx [0x80]);
     let ctx = av_sha512_update ctx (AV_WB64 0);
     let ctx = av_sha512_update ctx finalcount;
     Some (ctx, concat (map (\<lambda>i. AV_WB64 (hash_state ctx ! i)) [0..<digest_len ctx]) @
       (if odd (digest_len ctx) then AV_WB32 (ucast (drop_bit 32 (hash_state ctx ! digest_len ctx))) else []))
   }"

section \<open>The two configurations agree\<close>

lemma sha512_small_step:
  "i < 16 \<Longrightarrow> sha512_small_round buffer v i = moving_round (ROUND512_0_TO_15 buffer) i v"
  "16 \<le> i \<Longrightarrow> sha512_small_round buffer v i = moving_round ROUND512_16_TO_80 i v"
proof -
  obtain a b c d e f g h block where v: "v = (a, b, c, d, e, f, g, h, block)" by (cases v) auto
  show "i < 16 \<Longrightarrow> sha512_small_round buffer v i = moving_round (ROUND512_0_TO_15 buffer) i v"
    by (simp only: v sha512_small_round_def moving_round_def ROUND512_0_TO_15_def ROUND512_def Let_def prod.case if_True add.assoc)
  assume "16 \<le> i"
  then have "\<not> i < 16" by simp
  then show "sha512_small_round buffer v i = moving_round ROUND512_16_TO_80 i v"
    by (simp only: v sha512_small_round_def moving_round_def ROUND512_16_TO_80_def ROUND512_def Let_def prod.case if_False add.assoc)
qed

lemma sha512_rounds_small: "sha512_rounds buffer v = sha512_small_rounds buffer v"
proof -
  define L where "L i = foldl (sha512_small_round buffer) v [0..<i]" for i
  have p: "i + 8 \<le> 16 \<Longrightarrow> eight_rounds (ROUND512_0_TO_15 buffer) i (L i) = L (i + 8)" "16 \<le> i \<Longrightarrow> eight_rounds ROUND512_16_TO_80 i (L i) = L (i + 8)" for i
    unfolding L_def by (intro eight_rounds_piece sha512_small_step; simp)+
  have "v = L 0" by (simp add: L_def)
  then have "sha512_rounds buffer v = L 80" unfolding sha512_rounds_def Let_def
    using p(1) [of 0] p(1) [of 8] p(2) [of 16] p(2) [of 24] p(2) [of 32] p(2) [of 40] p(2) [of 48] p(2) [of 56] p(2) [of 64] p(2) [of 72] by simp
  then show ?thesis by (simp only: L_def sha512_small_rounds_def)
qed

text \<open>
  Also: the unrolled compression function of SHA-512, which renames the variables from call to call, is the loop of the small
  configuration, which moves the values.
\<close>

theorem sha512_unrolled_is_loop: "sha512_transform = sha512_transform_with sha512_small_rounds"
  by (simp add: sha512_transform_def sha512_rounds_small [abs_def])

section \<open>Digests of messages\<close>

interpretation sha512: block_hash 128 112 sha512_transform av_sha512_update hash_count hash_buffer hash_state "\<lambda>c. digest_len c = n" for n
proof unfold_locales
  fix c :: AVSHA512 and s m d
  show "digest_len c = n \<Longrightarrow> digest_len (av_sha512_update c d) = n" by (simp add: av_sha512_update_def hash_update_def Let_def)
  assume "absorbed 128 sha512_transform s m (hash_count c, hash_buffer c, hash_state c)"
  then show "absorbed 128 sha512_transform s (m @ d) (hash_count (av_sha512_update c d), hash_buffer (av_sha512_update c d), hash_state (av_sha512_update c d))"
    unfolding av_sha512_update_def by (intro hash_update_absorbs(1)) simp_all
qed simp_all

definition sha512_iv :: "int \<Rightarrow> u64 list" where
  "sha512_iv bits =
     (if bits = 224 then
        [0x8C3D37C819544DA2, 0x73E1996689DCD4D6, 0x1DFAB7AE32FF9C82, 0x679DD514582F9FCF,
        0x0F6D2B697BD44DA8, 0x77E36F7304C48942, 0x3F9D85A86A1D36C8, 0x1112E6AD91D692A1]
      else if bits = 256 then
        [0x22312194FC2BF72C, 0x9F555FA3C84C64C2, 0x2393B86B6F53B151, 0x963877195940EABD,
        0x96283EE2A88EFFE3, 0xBE5E1E2553863992, 0x2B0199FC2C85B8AA, 0x0EB72DDC81C52CA2]
      else if bits = 384 then
        [0xCBBB9D5DC1059ED8, 0x629A292A367CD507, 0x9159015A3070DD17, 0x152FECD8F70E5939,
        0x67332667FFC00B31, 0x8EB44A8768581511, 0xDB0C2E0D64F98FA7, 0x47B5481DBEFA4FA4]
      else
        [0x6A09E667F3BCC908, 0xBB67AE8584CAA73B, 0x3C6EF372FE94F82B, 0xA54FF53A5F1D36F1,
        0x510E527FADE682D1, 0x9B05688C2B3E6C1F, 0x1F83D9ABFB41BD6B, 0x5BE0CD19137E2179])"

text \<open>The digest of a message: the first \<open>bits div 8\<close> bytes of the state after the padded message.\<close>

definition sha512_digest :: "int \<Rightarrow> u8 list \<Rightarrow> u8 list" where
  "sha512_digest bits m =
     take (nat (bits div 8)) (concat (map AV_WB64 (absorb 128 sha512_transform (sha512_iv bits) (md_message 128 112 m (replicate 8 0 @ AV_WB64 (of_nat (8 * length m)))))))"

lemma sha512_length: "length (sha512_transform s b) = 8"
  by (simp add: sha512_transform_def sha512_transform_with_def split: prod.splits)

lemma sha512_state_length: "length s = 8 \<Longrightarrow> length (absorb 128 sha512_transform s m) = 8"
  using absorb_project [of "\<lambda>s. length s = 8" sha512_transform "\<lambda>s. s" sha512_transform s 128 m] sha512_length by simp

lemma av_sha512_init_ok:
  assumes "bits \<in> {224, 256, 384, 512}" "length (hash_buffer c) = 128" "length (hash_state c) = 8"
  obtains c0 where "av_sha512_init c bits = (0, c0)" "digest_len c0 = nat (bits div 64)" "hash_state c0 = sha512_iv bits" "length (sha512_iv bits) = 8"
    "absorbed 128 sha512_transform (hash_state c0) [] (hash_count c0, hash_buffer c0, hash_state c0)"
  using assms by (auto simp: av_sha512_init_def Let_def sha512_iv_def absorbed_def put_at_def)

text \<open>The bytes of the state words that \<^verbatim>\<open>av_sha512_final\<close> writes.\<close>

lemma word_bytes_take: "take (8 * n) (concat (map AV_WB64 s)) = concat (map AV_WB64 (take n s))" "drop (8 * n) (concat (map AV_WB64 s)) = concat (map AV_WB64 (drop n s))"
proof (induction s arbitrary: n)
  case (Cons w s)
  { case 1 show ?case using Cons.IH(1) by (cases n) simp_all }
  { case 2 show ?case using Cons.IH(2) by (cases n) simp_all }
qed simp_all

lemma half_word: "take 4 (AV_WB64 w) = AV_WB32 (ucast (drop_bit 32 w))"
proof -
  have "ucast (drop_bit (32 + n) w) = (ucast (drop_bit n (ucast (drop_bit 32 w) :: u32)) :: u8)" if "n \<le> 24" for n
    using that by (intro bit_word_eqI) (auto simp: bit_unsigned_iff bit_drop_bit_eq add.assoc)
  from this [of 24] this [of 16] this [of 8] this [of 0] show ?thesis by (simp add: AV_WB64_def AV_WB32_def)
qed

lemma sha512_output:
  assumes "length s = 8" "bits \<in> {224, 256, 384, 512 :: int}"
  shows "concat (map (\<lambda>i. AV_WB64 (s ! i)) [0..<nat (bits div 64)]) @ (if odd (nat (bits div 64)) then AV_WB32 (ucast (drop_bit 32 (s ! nat (bits div 64)))) else []) =
    take (nat (bits div 8)) (concat (map AV_WB64 s))"
proof -
  define n where "n = nat (bits div 64)"
  have n: "n \<le> length s" using assms by (auto simp: n_def)
  have w: "concat (map (\<lambda>i. AV_WB64 (s ! i)) [0..<n]) = take (8 * n) (concat (map AV_WB64 s))"
    unfolding word_bytes_take by (simp add: nths_take [OF n, symmetric] o_def)
  show ?thesis
  proof (cases "bits = 224")
    case True
    then have n3: "n = 3" "nat (bits div 8) = 8 * 3 + 4" by (simp_all add: n_def)
    have "drop 3 s = s ! 3 # drop 4 s" using assms(1) by (simp add: Cons_nth_drop_Suc [symmetric])
    then have "take 4 (drop (8 * 3) (concat (map AV_WB64 s))) = AV_WB32 (ucast (drop_bit 32 (s ! 3)))" unfolding word_bytes_take by (simp add: half_word)
    then show ?thesis unfolding n_def [symmetric] n3 take_add using w [unfolded n3(1)] by simp
  next
    case False
    then have "nat (bits div 8) = 8 * n" "even n" using assms(2) by (auto simp: n_def)
    then show ?thesis unfolding n_def [symmetric] w by simp
  qed
qed

lemma sha512_stream:
  assumes "bits \<in> {224, 256, 384, 512}" "length (hash_buffer c) = 128" "length (hash_state c) = 8"
  shows "\<exists>c0 c1. av_sha512_init c bits = (0, c0) \<and> av_sha512_final (foldl av_sha512_update c0 ds) = Some (c1, sha512_digest bits (concat ds))"
proof -
  obtain c0 where c0: "av_sha512_init c bits = (0, c0)" "digest_len c0 = nat (bits div 64)" "hash_state c0 = sha512_iv bits" "length (sha512_iv bits) = 8"
    "absorbed 128 sha512_transform (hash_state c0) [] (hash_count c0, hash_buffer c0, hash_state c0)" by (rule av_sha512_init_ok [OF assms])
  define m where "m = concat ds"
  define cm where "cm = foldl av_sha512_update c0 ds"
  define T where "T = AV_WB64 (of_nat (8 * length m))"
  define Y where "Y = absorb 128 sha512_transform (sha512_iv bits) (md_message 128 112 m (AV_WB64 0 @ T))"
  have z: "AV_WB64 0 = replicate 8 0" by (simp add: AV_WB64_def numeral_eq_Suc)
  note st = sha512.stream [OF c0(2,5), of "[AV_WB64 0, T]" ds, folded cm_def m_def]
  have tl: "AV_WB64 (push_bit 3 (hash_count cm)) = T" using st(1) bit_count by (simp add: T_def)
  obtain c1 where c1: "hash_pad 128 112 hash_count av_sha512_update (av_sha512_update cm [0x80]) = Some c1"
    "digest_len (av_sha512_update (av_sha512_update c1 (AV_WB64 0)) T) = nat (bits div 64)" "hash_state (av_sha512_update (av_sha512_update c1 (AV_WB64 0)) T) = Y"
    using st(2) c0(3) by (auto simp: Y_def T_def)
  have "length Y = 8" unfolding Y_def by (rule sha512_state_length [OF c0(4)])
  note out = sha512_output [OF this assms(1)]
  have "sha512_digest bits m = take (nat (bits div 8)) (concat (map AV_WB64 Y))" by (simp only: sha512_digest_def Y_def T_def z)
  then have "av_sha512_final cm = Some (av_sha512_update (av_sha512_update c1 (AV_WB64 0)) T, sha512_digest bits m)"
    by (simp only: av_sha512_final_def tl Let_def c1 Option.bind.simps out)
  then show ?thesis using c0(1) by (auto simp: cm_def m_def)
qed

text \<open>
  C15: on any context, whatever it held before, \<^verbatim>\<open>av_sha512_init\<close> for 224, 256, 384 or 512 bits, any number of calls of
  \<^verbatim>\<open>av_sha512_update\<close> and \<^verbatim>\<open>av_sha512_final\<close>, whose padding loop ends, give the digest of the concatenated input, 28 bytes long for 224
  bits; any other size is refused.
\<close>

theorem av_sha512_digest:
  assumes "length (hash_buffer c) = 128" "length (hash_state c) = 8"
  shows "if bits \<in> {224, 256, 384, 512}
    then \<exists>c0 c1. av_sha512_init c bits = (0, c0) \<and> av_sha512_final (foldl av_sha512_update c0 ds) = Some (c1, sha512_digest bits (concat ds))
    else fst (av_sha512_init c bits) = AVERROR EINVAL"
  using sha512_stream [OF _ assms] by (auto simp: av_sha512_init_def)

definition demo_sha512 :: AVSHA512 where
  "demo_sha512 = \<lparr>digest_len = 9, hash_count = 77, hash_buffer = replicate 128 1, hash_state = replicate 8 2\<rparr>"

theorem av_sha512_digest_witness:
  "if 224 \<in> {224, 256, 384, 512 :: int}
    then \<exists>c0 c1. av_sha512_init demo_sha512 224 = (0, c0) \<and>
      av_sha512_final (foldl av_sha512_update c0 [[97], [98, 99]]) = Some (c1, sha512_digest 224 (concat [[97], [98, 99]]))
    else fst (av_sha512_init demo_sha512 224) = AVERROR EINVAL"
  by (rule av_sha512_digest) (simp_all add: demo_sha512_def)

end
