(* ===== verification/AV_Md5.thy ===== *)
theory AV_Md5
  imports AV_Digest
begin

text \<open>\<^verbatim>\<open>libavutil/md5.c\<close>: MD5, in both configurations, with an update function of its own.\<close>

unbundle bit_operations_syntax

section \<open>The compression function\<close>

definition md5_S :: "nat list list" where
  "md5_S = [[7, 12, 17, 22], [5, 9, 14, 20], [4, 11, 16, 23], [6, 10, 15, 21]]"

definition md5_T :: "u32 list" where
  "md5_T =
    [0xD76AA478, 0xE8C7B756, 0x242070DB, 0xC1BDCEEE, 0xF57C0FAF, 0x4787C62A, 0xA8304613, 0xFD469501,
     0x698098D8, 0x8B44F7AF, 0xFFFF5BB1, 0x895CD7BE, 0x6B901122, 0xFD987193, 0xA679438E, 0x49B40821,
     0xF61E2562, 0xC040B340, 0x265E5A51, 0xE9B6C7AA, 0xD62F105D, 0x02441453, 0xD8A1E681, 0xE7D3FBC8,
     0x21E1CDE6, 0xC33707D6, 0xF4D50D87, 0x455A14ED, 0xA9E3E905, 0xFCEFA3F8, 0x676F02D9, 0x8D2A4C8A,
     0xFFFA3942, 0x8771F681, 0x6D9D6122, 0xFDE5380C, 0xA4BEEA44, 0x4BDECFA9, 0xF6BB4B60, 0xBEBFBC70,
     0x289B7EC6, 0xEAA127FA, 0xD4EF3085, 0x04881D05, 0xD9D4D039, 0xE6DB99E5, 0x1FA27CF8, 0xC4AC5665,
     0xF4292244, 0x432AFF97, 0xAB9423A7, 0xFC93A039, 0x655B59C3, 0x8F0CCC92, 0xFFEFF47D, 0x85845DD1,
     0x6FA87E4F, 0xFE2CE6E0, 0xA3014314, 0x4E0811A1, 0xF7537E82, 0xBD3AF235, 0x2AD7D2BB, 0xEB86D391]"

text \<open>The new value of the first variable; \<open>X\<close> is the block.\<close>

definition md5_CORE :: "u8 list \<Rightarrow> nat \<Rightarrow> u32 \<Rightarrow> u32 \<Rightarrow> u32 \<Rightarrow> u32 \<Rightarrow> u32" where
  "md5_CORE X i a b c d =
     (let t = md5_S ! (i div 16) ! (i mod 4);
          a = a + md5_T ! i;
          a = (if i < 32 then
                 if i < 16 then a + ((d XOR (b AND (c XOR d))) + AV_RL32 (drop (4 * (i mod 16)) X))
                 else a + (((d AND b) OR (NOT d AND c)) + AV_RL32 (drop (4 * ((1 + 5 * i) mod 16)) X))
               else
                 if i < 48 then a + ((b XOR c XOR d) + AV_RL32 (drop (4 * ((5 + 3 * i) mod 16)) X))
                 else a + ((c XOR (b OR NOT d)) + AV_RL32 (drop (4 * ((7 * i) mod 16)) X)))
      in b + (push_bit t a OR drop_bit (32 - t) a))"

type_synonym md5_vars = "u32 \<times> u32 \<times> u32 \<times> u32"

definition md5_CORE2 :: "u8 list \<Rightarrow> nat \<Rightarrow> md5_vars \<Rightarrow> md5_vars" where
  "md5_CORE2 X i = (\<lambda>(a, b, c, d).
     let a = md5_CORE X i a b c d; d = md5_CORE X (i + 1) d a b c; c = md5_CORE X (i + 2) c d a b; b = md5_CORE X (i + 3) b c d a
     in (a, b, c, d))"

definition md5_CORE4 :: "u8 list \<Rightarrow> nat \<Rightarrow> md5_vars \<Rightarrow> md5_vars" where
  "md5_CORE4 X i v = md5_CORE2 X (i + 12) (md5_CORE2 X (i + 8) (md5_CORE2 X (i + 4) (md5_CORE2 X i v)))"

definition md5_rounds :: "u8 list \<Rightarrow> md5_vars \<Rightarrow> md5_vars" where
  "md5_rounds X v = md5_CORE4 X 48 (md5_CORE4 X 32 (md5_CORE4 X 16 (md5_CORE4 X 0 v)))"

text \<open>The loop of the small configuration.\<close>

definition md5_small_round :: "u8 list \<Rightarrow> md5_vars \<Rightarrow> nat \<Rightarrow> md5_vars" where
  "md5_small_round X = (\<lambda>(a, b, c, d) i.
     let a = md5_CORE X i a b c d; t = d; d = c; c = b; b = a; a = t in (a, b, c, d))"

definition md5_small_rounds :: "u8 list \<Rightarrow> md5_vars \<Rightarrow> md5_vars" where
  "md5_small_rounds X v = foldl (md5_small_round X) v [0..<64]"

text \<open>One block of \<^verbatim>\<open>body\<close>, in either configuration, and \<^verbatim>\<open>body\<close>.\<close>

definition md5_block_with :: "(u8 list \<Rightarrow> md5_vars \<Rightarrow> md5_vars) \<Rightarrow> u32 list \<Rightarrow> u8 list \<Rightarrow> u32 list" where
  "md5_block_with rounds ABCD X =
     (let (a, b, c, d) = rounds X (ABCD ! 3, ABCD ! 2, ABCD ! 1, ABCD ! 0) in [ABCD ! 0 + d, ABCD ! 1 + c, ABCD ! 2 + b, ABCD ! 3 + a])"

definition md5_body :: "u32 list \<Rightarrow> u8 list \<Rightarrow> nat \<Rightarrow> u32 list" where
  "md5_body ABCD src nblocks = hash_blocks 64 (md5_block_with md5_rounds) ABCD src nblocks"

section \<open>The context\<close>

record AVMD5 =
  md5_len :: u64
  md5_block :: "u8 list"
  md5_ABCD :: "u32 list"

definition av_md5_init :: "AVMD5 \<Rightarrow> AVMD5" where
  "av_md5_init ctx = ctx\<lparr>md5_len := 0, md5_ABCD := [0x10325476, 0x98BADCFE, 0xEFCDAB89, 0x67452301]\<rparr>"

text \<open>The part of \<^verbatim>\<open>av_md5_update\<close> after the buffered block, with \<^verbatim>\<open>HAVE_FAST_UNALIGNED\<close>.\<close>

definition md5_update_blocks :: "AVMD5 \<Rightarrow> u8 list \<Rightarrow> AVMD5" where
  "md5_update_blocks ctx src =
     (let nblocks = length src div 64;
          ctx = ctx\<lparr>md5_ABCD := md5_body (md5_ABCD ctx) src nblocks\<rparr>;
          src = drop (64 * nblocks) src
      in if length src > 0 then ctx\<lparr>md5_block := put_at (md5_block ctx) 0 src\<rparr> else ctx)"

definition av_md5_update :: "AVMD5 \<Rightarrow> u8 list \<Rightarrow> AVMD5" where
  "av_md5_update ctx src =
     (let j = unat (md5_len ctx) mod 64;
          ctx = ctx\<lparr>md5_len := md5_len ctx + of_nat (length src)\<rparr>
      in if j \<noteq> 0 then
           let cnt = min (length src) (64 - j);
               ctx = ctx\<lparr>md5_block := put_at (md5_block ctx) j (take cnt src)\<rparr>;
               src = drop cnt src
           in if j + cnt < 64 then ctx
              else md5_update_blocks (ctx\<lparr>md5_ABCD := md5_body (md5_ABCD ctx) (md5_block ctx) 1\<rparr>) src
         else md5_update_blocks ctx src)"

definition av_md5_final :: "AVMD5 \<Rightarrow> (AVMD5 \<times> u8 list) option" where
  "av_md5_final ctx = do {
     let finalcount = AV_WL64 (push_bit 3 (md5_len ctx));
     ctx \<leftarrow> hash_pad 64 56 md5_len av_md5_update (av_md5_update ctx [0x80]);
     let ctx = av_md5_update ctx finalcount;
     Some (ctx, concat (map (\<lambda>i. AV_WL32 (md5_ABCD ctx ! (3 - i))) [0..<4]))
   }"

text \<open>The context of \<^verbatim>\<open>av_md5_sum\<close> is on the stack, with any contents.\<close>

definition av_md5_sum :: "AVMD5 \<Rightarrow> u8 list \<Rightarrow> u8 list option" where
  "av_md5_sum stack src = do {
     let ctx = av_md5_init stack;
     let ctx = av_md5_update ctx src;
     (_, dst) \<leftarrow> av_md5_final ctx;
     Some dst
   }"

section \<open>The two configurations agree\<close>

lemma md5_CORE2_steps: "md5_CORE2 X i v = foldl (md5_small_round X) v [i..<i + 4]"
proof -
  have "[i..<i + 4] = [i, i + 1, i + 2, i + 3]" by (simp add: upt_conv_Cons numeral_eq_Suc)
  then show ?thesis by (cases v) (simp add: md5_CORE2_def md5_small_round_def Let_def)
qed

lemma md5_CORE4_steps: "md5_CORE4 X i v = foldl (md5_small_round X) v [i..<i + 16]"
proof -
  have "[i..<i + 16] = [i..<i + 4] @ [i + 4..<i + 4 + 4] @ [i + 8..<i + 8 + 4] @ [i + 12..<i + 12 + 4]" by (simp add: upt_conv_Cons numeral_eq_Suc)
  then show ?thesis by (simp only: md5_CORE4_def md5_CORE2_steps foldl_append)
qed

lemma md5_rounds_small: "md5_rounds X v = md5_small_rounds X v"
proof -
  have "[0..<64] = [0..<0 + 16] @ [16..<16 + 16] @ [32..<32 + 16] @ [48..<48 + 16]" by (simp add: upt_conv_Cons numeral_eq_Suc)
  then show ?thesis by (simp only: md5_rounds_def md5_small_rounds_def md5_CORE4_steps foldl_append)
qed

section \<open>Digests of messages\<close>

abbreviation md5_compress :: "u32 list \<Rightarrow> u8 list \<Rightarrow> u32 list" where
  "md5_compress \<equiv> md5_block_with md5_rounds"

lemma md5_update_blocks_absorbs:
  assumes "64 dvd length x" "length (md5_block c) = 64" "md5_len c = of_nat (length (x @ y))" "md5_ABCD c = absorb 64 md5_compress s x"
  shows "absorbed 64 md5_compress s (x @ y) (md5_len (md5_update_blocks c y), md5_block (md5_update_blocks c y), md5_ABCD (md5_update_blocks c y))"
proof -
  have b: "md5_body (absorb 64 md5_compress s x) y (length y div 64) = absorb 64 md5_compress (absorb 64 md5_compress s x) y"
    unfolding md5_body_def by (rule hash_blocks_absorb) simp
  have e: "md5_block (md5_update_blocks c y) = put_at (md5_block c) 0 (drop (length y div 64 * 64) y)"
    by (auto simp: md5_update_blocks_def Let_def put_at_def mult.commute)
  have "md5_len (md5_update_blocks c y) = md5_len c" "md5_ABCD (md5_update_blocks c y) = absorb 64 md5_compress (absorb 64 md5_compress s x) y"
    by (simp_all add: md5_update_blocks_def Let_def assms(4) b)
  then show ?thesis unfolding e using assms by (intro absorbed_rest) simp_all
qed

lemma av_md5_update_absorbs:
  assumes "absorbed 64 md5_compress s m (md5_len c, md5_block c, md5_ABCD c)"
  shows "absorbed 64 md5_compress s (m @ d) (md5_len (av_md5_update c d), md5_block (av_md5_update c d), md5_ABCD (av_md5_update c d))"
proof -
  define j where "j = length m mod 64"
  have a: "md5_len c = of_nat (length m)" "length (md5_block c) = 64" "md5_ABCD c = absorb 64 md5_compress s m" using assms by (simp_all add: absorbed_def)
  have j: "unat (md5_len c) mod 64 = j" unfolding a(1) j_def by (rule count_mod) simp
  show ?thesis
  proof (cases "j = 0")
    case True
    have "64 dvd length m" using True by (simp add: j_def mod_eq_0_iff_dvd)
    then have "absorbed 64 md5_compress s (m @ d) (let c = md5_update_blocks (c\<lparr>md5_len := md5_len c + of_nat (length d)\<rparr>) d in (md5_len c, md5_block c, md5_ABCD c))"
      unfolding Let_def by (rule md5_update_blocks_absorbs) (simp_all add: a)
    then show ?thesis by (simp add: av_md5_update_def Let_def j True)
  next
    case False
    show ?thesis
    proof (cases "64 - j \<le> length d")
      case True
      have j64: "j < 64" by (simp add: j_def)
      define x where "x = m @ take (64 - j) d"
      define y where "y = drop (64 - j) d"
      note k = absorbed_complete [OF assms zero_less_numeral j_def True, folded x_def]
      have md: "m @ d = x @ y" by (simp add: x_def y_def)
      have b: "md5_body (md5_ABCD c) (put_at (md5_block c) j (take (64 - j) d)) 1 = absorb 64 md5_compress s x"
        using k by (simp add: md5_body_def hash_blocks_def)
      have "length x + length y = length m + length d" using arg_cong [OF md, of length] by simp
      then have "absorbed 64 md5_compress s (x @ y) (let c = md5_update_blocks (c\<lparr>md5_len := md5_len c + of_nat (length d), md5_block := put_at (md5_block c) j (take (64 - j) d),
          md5_ABCD := md5_body (md5_ABCD c) (put_at (md5_block c) j (take (64 - j) d)) 1\<rparr>) y in (md5_len c, md5_block c, md5_ABCD c))"
        unfolding Let_def by (intro md5_update_blocks_absorbs k(2)) (simp_all add: a(1) b [simplified] k(3) flip: of_nat_add)
      then show ?thesis unfolding md using False True j64 by (simp add: av_md5_update_def Let_def j min_absorb2 y_def)
    next
      case short: False
      then have "j + length d < 64" by simp
      with short show ?thesis using absorbed_partial [OF assms _ j_def, of d] False by (simp add: av_md5_update_def Let_def j min_absorb1)
    qed
  qed
qed

interpretation md5: block_hash 64 56 md5_compress av_md5_update md5_len md5_block md5_ABCD "\<lambda>_. True"
  by unfold_locales (auto intro: av_md5_update_absorbs)

text \<open>The digest of a message, as RFC 1321 defines it.\<close>

definition md5_digest :: "u8 list \<Rightarrow> u8 list" where
  "md5_digest m =
     concat (map AV_WL32 (rev (absorb 64 md5_compress [0x10325476, 0x98BADCFE, 0xEFCDAB89, 0x67452301]
       (md_message 64 56 m (AV_WL64 (of_nat (8 * length m)))))))"

lemma md5_stream:
  assumes "length (md5_block c) = 64"
  shows "\<exists>c1. av_md5_final (foldl av_md5_update (av_md5_init c) ds) = Some (c1, md5_digest (concat ds))"
proof -
  define c0 where "c0 = av_md5_init c"
  have c0: "absorbed 64 md5_compress (md5_ABCD c0) [] (md5_len c0, md5_block c0, md5_ABCD c0)" using assms by (simp add: c0_def av_md5_init_def absorbed_def)
  have iv: "md5_ABCD c0 = [0x10325476, 0x98BADCFE, 0xEFCDAB89, 0x67452301]" by (simp add: c0_def av_md5_init_def)
  define m where "m = concat ds"
  define cm where "cm = foldl av_md5_update c0 ds"
  define T where "T = AV_WL64 (of_nat (8 * length m))"
  define Y where "Y = absorb 64 md5_compress (md5_ABCD c0) (md_message 64 56 m T)"
  note st = md5.stream [OF TrueI c0, of "[T]" ds, folded cm_def m_def]
  have tl: "AV_WL64 (push_bit 3 (md5_len cm)) = T" using st(1) bit_count by (simp add: T_def)
  obtain c1 where c1: "hash_pad 64 56 md5_len av_md5_update (av_md5_update cm [0x80]) = Some c1" "md5_ABCD (av_md5_update c1 T) = Y"
    using st(2) by (auto simp: Y_def T_def)
  have "length Y = 4 \<and> Y = absorb 64 md5_compress (md5_ABCD c0) (md_message 64 56 m T)" unfolding Y_def
    using absorb_project [of "\<lambda>s. length s = 4" md5_compress "\<lambda>s. s" md5_compress "md5_ABCD c0"] by (simp add: iv md5_block_with_def split: prod.splits)
  then obtain p q r w where Y: "Y = [p, q, r, w]" by (auto simp: numeral_eq_Suc length_Suc_conv)
  have "[0..<4] = [0, 1, 2, 3 :: nat]" by (simp add: upt_conv_Cons)
  then have out: "concat (map (\<lambda>i. AV_WL32 (Y ! (3 - i))) [0..<4]) = concat (map AV_WL32 (rev Y))" by (simp add: Y)
  have "md5_digest m = concat (map AV_WL32 (rev Y))" by (simp only: md5_digest_def Y_def T_def iv)
  then have "av_md5_final cm = Some (av_md5_update c1 T, md5_digest m)" by (simp only: av_md5_final_def tl Let_def c1 Option.bind.simps out)
  then show ?thesis by (auto simp: cm_def m_def c0_def)
qed

text \<open>
  C16: the unrolled rounds of MD5 are the loop of the small configuration, and on any context, whatever it held before,
  \<^verbatim>\<open>av_md5_init\<close>, any number of calls of \<^verbatim>\<open>av_md5_update\<close> and \<^verbatim>\<open>av_md5_final\<close>, whose padding loop ends, give the digest of the
  concatenated input; \<^verbatim>\<open>av_md5_sum\<close> is the same for one piece.
\<close>

theorem av_md5_digest:
  assumes "length (md5_block c) = 64"
  shows "md5_compress = md5_block_with md5_small_rounds \<and>
    (\<exists>c1. av_md5_final (foldl av_md5_update (av_md5_init c) ds) = Some (c1, md5_digest (concat ds))) \<and> av_md5_sum c m = Some (md5_digest m)"
proof -
  from md5_stream [OF assms, of "[m]"] have "av_md5_sum c m = Some (md5_digest m)" by (auto simp: av_md5_sum_def)
  then show ?thesis using md5_stream [OF assms] by (simp add: md5_rounds_small [abs_def])
qed

definition demo_md5 :: AVMD5 where
  "demo_md5 = \<lparr>md5_len = 77, md5_block = replicate 64 1, md5_ABCD = [1, 2, 3, 4]\<rparr>"

theorem av_md5_digest_witness:
  "md5_compress = md5_block_with md5_small_rounds \<and>
    (\<exists>c1. av_md5_final (foldl av_md5_update (av_md5_init demo_md5) [[97], [98, 99]]) = Some (c1, md5_digest (concat [[97], [98, 99]]))) \<and>
    av_md5_sum demo_md5 [97, 98, 99] = Some (md5_digest [97, 98, 99])"
  by (rule av_md5_digest) (simp add: demo_md5_def)

end
