(* ===== verification/AV_Ripemd.thy ===== *)
theory AV_Ripemd
  imports AV_Digest
begin

text \<open>\<^verbatim>\<open>libavutil/ripemd.c\<close>: RIPEMD-128, -160, -256 and -320, in both configurations.\<close>

unbundle bit_operations_syntax

section \<open>Tables\<close>

definition rmd_KA :: "u32 list" where
  "rmd_KA =
    [0x5A827999, 0x6ED9EBA1, 0x8F1BBCDC, 0xA953FD4E]"

definition rmd_KB :: "u32 list" where
  "rmd_KB =
    [0x50A28BE6, 0x5C4DD124, 0x6D703EF3, 0x7A6D76E9]"

definition rmd_ROTA :: "nat list" where
  "rmd_ROTA =
    [11, 14, 15, 12, 5, 8, 7, 9, 11, 13, 14, 15, 6, 7, 9, 8, 7, 6, 8, 13,
     11, 9, 7, 15, 7, 12, 15, 9, 11, 7, 13, 12, 11, 13, 6, 7, 14, 9, 13, 15,
     14, 8, 13, 6, 5, 12, 7, 5, 11, 12, 14, 15, 14, 15, 9, 8, 9, 14, 5, 6,
     8, 6, 5, 12, 9, 15, 5, 11, 6, 8, 13, 12, 5, 12, 13, 14, 11, 8, 5, 6]"

definition rmd_ROTB :: "nat list" where
  "rmd_ROTB =
    [8, 9, 9, 11, 13, 15, 15, 5, 7, 7, 8, 11, 14, 14, 12, 6, 9, 13, 15, 7,
     12, 8, 9, 11, 7, 7, 12, 7, 6, 15, 13, 11, 9, 7, 15, 11, 8, 6, 6, 14,
     12, 13, 5, 14, 13, 13, 7, 5, 15, 5, 8, 11, 14, 14, 6, 14, 6, 9, 12, 9,
     12, 5, 15, 8, 8, 5, 12, 9, 12, 5, 14, 6, 8, 13, 6, 5, 15, 13, 11, 11]"

definition rmd_WA :: "nat list" where
  "rmd_WA =
    [0, 1, 2, 3, 4, 5, 6, 7, 8, 9, 10, 11, 12, 13, 14, 15, 7, 4, 13, 1,
     10, 6, 15, 3, 12, 0, 9, 5, 2, 14, 11, 8, 3, 10, 14, 4, 9, 15, 8, 1,
     2, 7, 0, 6, 13, 11, 5, 12, 1, 9, 11, 10, 0, 8, 12, 4, 13, 3, 7, 15,
     14, 5, 6, 2, 4, 0, 5, 9, 7, 12, 2, 10, 14, 1, 3, 8, 11, 6, 15, 13]"

definition rmd_WB :: "nat list" where
  "rmd_WB =
    [5, 14, 7, 0, 9, 2, 11, 4, 13, 6, 15, 8, 1, 10, 3, 12, 6, 11, 3, 7,
     0, 13, 5, 10, 14, 15, 8, 12, 4, 9, 1, 2, 15, 5, 1, 3, 7, 14, 6, 9,
     11, 8, 12, 2, 10, 0, 4, 13, 8, 6, 4, 1, 3, 11, 15, 0, 5, 12, 2, 13,
     9, 7, 10, 14, 12, 15, 10, 4, 1, 5, 8, 7, 6, 2, 13, 14, 0, 3, 9, 11]"

section \<open>Rounds of RIPEMD-128 and RIPEMD-256\<close>

text \<open>Each returns the new first and fifth of its arguments.\<close>

type_synonym rmd_vars128 = "u32 \<times> u32 \<times> u32 \<times> u32 \<times> u32 \<times> u32 \<times> u32 \<times> u32"
type_synonym rmd_round128 = "nat \<Rightarrow> u32 \<Rightarrow> u32 \<Rightarrow> u32 \<Rightarrow> u32 \<Rightarrow> u32 \<Rightarrow> u32 \<Rightarrow> u32 \<Rightarrow> u32 \<Rightarrow> u32 \<times> u32"

definition ROUND128_0_TO_15 :: "u32 list \<Rightarrow> nat \<Rightarrow> u32 \<Rightarrow> u32 \<Rightarrow> u32 \<Rightarrow> u32 \<Rightarrow> u32 \<Rightarrow> u32 \<Rightarrow> u32 \<Rightarrow> u32 \<Rightarrow> u32 \<times> u32" where
  "ROUND128_0_TO_15 block n a b c d e f g h =
     (rol (a + ((b XOR c XOR d) + block ! (rmd_WA ! n))) (rmd_ROTA ! n),
      rol (e + ((((f XOR g) AND h) XOR g) + block ! (rmd_WB ! n) + rmd_KB ! 0)) (rmd_ROTB ! n))"

definition ROUND128_16_TO_31 :: "u32 list \<Rightarrow> nat \<Rightarrow> u32 \<Rightarrow> u32 \<Rightarrow> u32 \<Rightarrow> u32 \<Rightarrow> u32 \<Rightarrow> u32 \<Rightarrow> u32 \<Rightarrow> u32 \<Rightarrow> u32 \<times> u32" where
  "ROUND128_16_TO_31 block n a b c d e f g h =
     (rol (a + ((((c XOR d) AND b) XOR d) + block ! (rmd_WA ! n) + rmd_KA ! 0)) (rmd_ROTA ! n),
      rol (e + (((NOT g OR f) XOR h) + block ! (rmd_WB ! n) + rmd_KB ! 1)) (rmd_ROTB ! n))"

definition ROUND128_32_TO_47 :: "u32 list \<Rightarrow> nat \<Rightarrow> u32 \<Rightarrow> u32 \<Rightarrow> u32 \<Rightarrow> u32 \<Rightarrow> u32 \<Rightarrow> u32 \<Rightarrow> u32 \<Rightarrow> u32 \<Rightarrow> u32 \<times> u32" where
  "ROUND128_32_TO_47 block n a b c d e f g h =
     (rol (a + (((NOT c OR b) XOR d) + block ! (rmd_WA ! n) + rmd_KA ! 1)) (rmd_ROTA ! n),
      rol (e + ((((g XOR h) AND f) XOR h) + block ! (rmd_WB ! n) + rmd_KB ! 2)) (rmd_ROTB ! n))"

definition ROUND128_48_TO_63 :: "u32 list \<Rightarrow> nat \<Rightarrow> u32 \<Rightarrow> u32 \<Rightarrow> u32 \<Rightarrow> u32 \<Rightarrow> u32 \<Rightarrow> u32 \<Rightarrow> u32 \<Rightarrow> u32 \<Rightarrow> u32 \<times> u32" where
  "ROUND128_48_TO_63 block n a b c d e f g h =
     (rol (a + ((((b XOR c) AND d) XOR c) + block ! (rmd_WA ! n) + rmd_KA ! 2)) (rmd_ROTA ! n),
      rol (e + ((f XOR g XOR h) + block ! (rmd_WB ! n))) (rmd_ROTB ! n))"

text \<open>The four calls that \<^verbatim>\<open>R128_0\<close> to \<^verbatim>\<open>R128_48\<close> make of their macro, and four of these.\<close>

definition R128_four :: "rmd_round128 \<Rightarrow> nat \<Rightarrow> rmd_vars128 \<Rightarrow> rmd_vars128" where
  "R128_four R n = (\<lambda>(a, b, c, d, e, f, g, h).
     let (a, e) = R n a b c d e f g h;
         (d, h) = R (n + 1) d a b c h e f g;
         (c, g) = R (n + 2) c d a b g h e f;
         (b, f) = R (n + 3) b c d a f g h e
     in (a, b, c, d, e, f, g, h))"

definition R128_sixteen :: "rmd_round128 \<Rightarrow> nat \<Rightarrow> rmd_vars128 \<Rightarrow> rmd_vars128" where
  "R128_sixteen R n v = R128_four R (n + 12) (R128_four R (n + 8) (R128_four R (n + 4) (R128_four R n v)))"

text \<open>The loop of the small configuration.\<close>

definition R128_small_round :: "rmd_round128 \<Rightarrow> rmd_vars128 \<Rightarrow> nat \<Rightarrow> rmd_vars128" where
  "R128_small_round R = (\<lambda>(a, b, c, d, e, f, g, h) n.
     let (a, e) = R n a b c d e f g h;
         t = d; d = c; c = b; b = a; a = t;
         t = h; h = g; g = f; f = e; e = t
     in (a, b, c, d, e, f, g, h))"

definition R128_small :: "rmd_round128 \<Rightarrow> nat \<Rightarrow> rmd_vars128 \<Rightarrow> rmd_vars128" where
  "R128_small R n v = foldl (R128_small_round R) v [n..<n + 16]"

definition rmd_block :: "u8 list \<Rightarrow> u32 list" where
  "rmd_block buffer = map (\<lambda>n. AV_RL32 (drop (4 * n) buffer)) [0..<16]"

definition ripemd128_transform_with :: "(rmd_round128 \<Rightarrow> nat \<Rightarrow> rmd_vars128 \<Rightarrow> rmd_vars128) \<Rightarrow> u32 list \<Rightarrow> u8 list \<Rightarrow> u32 list" where
  "ripemd128_transform_with sixteen state buffer =
     (let block = rmd_block buffer;
          v = (state ! 0, state ! 1, state ! 2, state ! 3, state ! 0, state ! 1, state ! 2, state ! 3);
          v = sixteen (ROUND128_0_TO_15 block) 0 v;
          v = sixteen (ROUND128_16_TO_31 block) 16 v;
          v = sixteen (ROUND128_32_TO_47 block) 32 v;
          (a, b, c, d, e, f, g, h) = sixteen (ROUND128_48_TO_63 block) 48 v;
          h = h + (c + state ! 1);
          state = state[1 := state ! 2 + d + e];
          state = state[2 := state ! 3 + a + f];
          state = state[3 := state ! 0 + b + g]
      in state[0 := h])"

definition ripemd256_rounds :: "(rmd_round128 \<Rightarrow> nat \<Rightarrow> rmd_vars128 \<Rightarrow> rmd_vars128) \<Rightarrow> u32 list \<Rightarrow> rmd_vars128 \<Rightarrow> rmd_vars128" where
  "ripemd256_rounds sixteen block v =
     (let (a, b, c, d, e, f, g, h) = sixteen (ROUND128_0_TO_15 block) 0 v;
          (a, e) = (e, a);
          (a, b, c, d, e, f, g, h) = sixteen (ROUND128_16_TO_31 block) 16 (a, b, c, d, e, f, g, h);
          (b, f) = (f, b);
          (a, b, c, d, e, f, g, h) = sixteen (ROUND128_32_TO_47 block) 32 (a, b, c, d, e, f, g, h);
          (c, g) = (g, c);
          (a, b, c, d, e, f, g, h) = sixteen (ROUND128_48_TO_63 block) 48 (a, b, c, d, e, f, g, h);
          (d, h) = (h, d)
      in (a, b, c, d, e, f, g, h))"

definition ripemd256_transform_with :: "(rmd_round128 \<Rightarrow> nat \<Rightarrow> rmd_vars128 \<Rightarrow> rmd_vars128) \<Rightarrow> u32 list \<Rightarrow> u8 list \<Rightarrow> u32 list" where
  "ripemd256_transform_with sixteen state buffer =
     (let (a, b, c, d, e, f, g, h) =
            ripemd256_rounds sixteen (rmd_block buffer)
              (state ! 0, state ! 1, state ! 2, state ! 3, state ! 4, state ! 5, state ! 6, state ! 7);
          state = state[0 := state ! 0 + a, 1 := state ! 1 + b, 2 := state ! 2 + c, 3 := state ! 3 + d]
      in state[4 := state ! 4 + e, 5 := state ! 5 + f, 6 := state ! 6 + g, 7 := state ! 7 + h])"

definition ripemd128_transform :: "u32 list \<Rightarrow> u8 list \<Rightarrow> u32 list" where
  "ripemd128_transform = ripemd128_transform_with R128_sixteen"

definition ripemd256_transform :: "u32 list \<Rightarrow> u8 list \<Rightarrow> u32 list" where
  "ripemd256_transform = ripemd256_transform_with R128_sixteen"

section \<open>Rounds of RIPEMD-160 and RIPEMD-320\<close>

text \<open>Each returns the new first, third, sixth and eighth of its arguments.\<close>

type_synonym rmd_vars160 = "u32 \<times> u32 \<times> u32 \<times> u32 \<times> u32 \<times> u32 \<times> u32 \<times> u32 \<times> u32 \<times> u32"
type_synonym rmd_round160 = "nat \<Rightarrow> u32 \<Rightarrow> u32 \<Rightarrow> u32 \<Rightarrow> u32 \<Rightarrow> u32 \<Rightarrow> u32 \<Rightarrow> u32 \<Rightarrow> u32 \<Rightarrow> u32 \<Rightarrow> u32 \<Rightarrow> u32 \<times> u32 \<times> u32 \<times> u32"

definition ROUND160_0_TO_15 :: "u32 list \<Rightarrow> nat \<Rightarrow> u32 \<Rightarrow> u32 \<Rightarrow> u32 \<Rightarrow> u32 \<Rightarrow> u32 \<Rightarrow> u32 \<Rightarrow> u32 \<Rightarrow> u32 \<Rightarrow> u32 \<Rightarrow> u32 \<Rightarrow> u32 \<times> u32 \<times> u32 \<times> u32" where
  "ROUND160_0_TO_15 block n a b c d e f g h i j =
     (rol (a + ((b XOR c XOR d) + block ! (rmd_WA ! n))) (rmd_ROTA ! n) + e, rol c 10,
      rol (f + (((NOT i OR h) XOR g) + block ! (rmd_WB ! n) + rmd_KB ! 0)) (rmd_ROTB ! n) + j, rol h 10)"

definition ROUND160_16_TO_31 :: "u32 list \<Rightarrow> nat \<Rightarrow> u32 \<Rightarrow> u32 \<Rightarrow> u32 \<Rightarrow> u32 \<Rightarrow> u32 \<Rightarrow> u32 \<Rightarrow> u32 \<Rightarrow> u32 \<Rightarrow> u32 \<Rightarrow> u32 \<Rightarrow> u32 \<times> u32 \<times> u32 \<times> u32" where
  "ROUND160_16_TO_31 block n a b c d e f g h i j =
     (rol (a + ((((c XOR d) AND b) XOR d) + block ! (rmd_WA ! n) + rmd_KA ! 0)) (rmd_ROTA ! n) + e, rol c 10,
      rol (f + ((((g XOR h) AND i) XOR h) + block ! (rmd_WB ! n) + rmd_KB ! 1)) (rmd_ROTB ! n) + j, rol h 10)"

definition ROUND160_32_TO_47 :: "u32 list \<Rightarrow> nat \<Rightarrow> u32 \<Rightarrow> u32 \<Rightarrow> u32 \<Rightarrow> u32 \<Rightarrow> u32 \<Rightarrow> u32 \<Rightarrow> u32 \<Rightarrow> u32 \<Rightarrow> u32 \<Rightarrow> u32 \<Rightarrow> u32 \<times> u32 \<times> u32 \<times> u32" where
  "ROUND160_32_TO_47 block n a b c d e f g h i j =
     (rol (a + (((NOT c OR b) XOR d) + block ! (rmd_WA ! n) + rmd_KA ! 1)) (rmd_ROTA ! n) + e, rol c 10,
      rol (f + (((NOT h OR g) XOR i) + block ! (rmd_WB ! n) + rmd_KB ! 2)) (rmd_ROTB ! n) + j, rol h 10)"

definition ROUND160_48_TO_63 :: "u32 list \<Rightarrow> nat \<Rightarrow> u32 \<Rightarrow> u32 \<Rightarrow> u32 \<Rightarrow> u32 \<Rightarrow> u32 \<Rightarrow> u32 \<Rightarrow> u32 \<Rightarrow> u32 \<Rightarrow> u32 \<Rightarrow> u32 \<Rightarrow> u32 \<times> u32 \<times> u32 \<times> u32" where
  "ROUND160_48_TO_63 block n a b c d e f g h i j =
     (rol (a + ((((b XOR c) AND d) XOR c) + block ! (rmd_WA ! n) + rmd_KA ! 2)) (rmd_ROTA ! n) + e, rol c 10,
      rol (f + ((((h XOR i) AND g) XOR i) + block ! (rmd_WB ! n) + rmd_KB ! 3)) (rmd_ROTB ! n) + j, rol h 10)"

definition ROUND160_64_TO_79 :: "u32 list \<Rightarrow> nat \<Rightarrow> u32 \<Rightarrow> u32 \<Rightarrow> u32 \<Rightarrow> u32 \<Rightarrow> u32 \<Rightarrow> u32 \<Rightarrow> u32 \<Rightarrow> u32 \<Rightarrow> u32 \<Rightarrow> u32 \<Rightarrow> u32 \<times> u32 \<times> u32 \<times> u32" where
  "ROUND160_64_TO_79 block n a b c d e f g h i j =
     (rol (a + (((NOT d OR c) XOR b) + block ! (rmd_WA ! n) + rmd_KA ! 3)) (rmd_ROTA ! n) + e, rol c 10,
      rol (f + ((g XOR h XOR i) + block ! (rmd_WB ! n))) (rmd_ROTB ! n) + j, rol h 10)"

text \<open>The five calls of each macro, and the single one after them.\<close>

definition R160_0 :: "rmd_round160 \<Rightarrow> nat \<Rightarrow> rmd_vars160 \<Rightarrow> rmd_vars160" where
  "R160_0 R n = (\<lambda>(a, b, c, d, e, f, g, h, i, j).
     let (a, c, f, h) = R n a b c d e f g h i j;
         (e, b, j, g) = R (n + 1) e a b c d j f g h i;
         (d, a, i, f) = R (n + 2) d e a b c i j f g h;
         (c, e, h, j) = R (n + 3) c d e a b h i j f g;
         (b, d, g, i) = R (n + 4) b c d e a g h i j f
     in (a, b, c, d, e, f, g, h, i, j))"

definition R160_0_single :: "rmd_round160 \<Rightarrow> nat \<Rightarrow> rmd_vars160 \<Rightarrow> rmd_vars160" where
  "R160_0_single R n = (\<lambda>(a, b, c, d, e, f, g, h, i, j).
     let (a, c, f, h) = R n a b c d e f g h i j in (a, b, c, d, e, f, g, h, i, j))"

definition R160_16 :: "rmd_round160 \<Rightarrow> nat \<Rightarrow> rmd_vars160 \<Rightarrow> rmd_vars160" where
  "R160_16 R n = (\<lambda>(a, b, c, d, e, f, g, h, i, j).
     let (e, b, j, g) = R n e a b c d j f g h i;
         (d, a, i, f) = R (n + 1) d e a b c i j f g h;
         (c, e, h, j) = R (n + 2) c d e a b h i j f g;
         (b, d, g, i) = R (n + 3) b c d e a g h i j f;
         (a, c, f, h) = R (n + 4) a b c d e f g h i j
     in (a, b, c, d, e, f, g, h, i, j))"

definition R160_16_single :: "rmd_round160 \<Rightarrow> nat \<Rightarrow> rmd_vars160 \<Rightarrow> rmd_vars160" where
  "R160_16_single R n = (\<lambda>(a, b, c, d, e, f, g, h, i, j).
     let (e, b, j, g) = R n e a b c d j f g h i in (a, b, c, d, e, f, g, h, i, j))"

definition R160_32 :: "rmd_round160 \<Rightarrow> nat \<Rightarrow> rmd_vars160 \<Rightarrow> rmd_vars160" where
  "R160_32 R n = (\<lambda>(a, b, c, d, e, f, g, h, i, j).
     let (d, a, i, f) = R n d e a b c i j f g h;
         (c, e, h, j) = R (n + 1) c d e a b h i j f g;
         (b, d, g, i) = R (n + 2) b c d e a g h i j f;
         (a, c, f, h) = R (n + 3) a b c d e f g h i j;
         (e, b, j, g) = R (n + 4) e a b c d j f g h i
     in (a, b, c, d, e, f, g, h, i, j))"

definition R160_32_single :: "rmd_round160 \<Rightarrow> nat \<Rightarrow> rmd_vars160 \<Rightarrow> rmd_vars160" where
  "R160_32_single R n = (\<lambda>(a, b, c, d, e, f, g, h, i, j).
     let (d, a, i, f) = R n d e a b c i j f g h in (a, b, c, d, e, f, g, h, i, j))"

definition R160_48 :: "rmd_round160 \<Rightarrow> nat \<Rightarrow> rmd_vars160 \<Rightarrow> rmd_vars160" where
  "R160_48 R n = (\<lambda>(a, b, c, d, e, f, g, h, i, j).
     let (c, e, h, j) = R n c d e a b h i j f g;
         (b, d, g, i) = R (n + 1) b c d e a g h i j f;
         (a, c, f, h) = R (n + 2) a b c d e f g h i j;
         (e, b, j, g) = R (n + 3) e a b c d j f g h i;
         (d, a, i, f) = R (n + 4) d e a b c i j f g h
     in (a, b, c, d, e, f, g, h, i, j))"

definition R160_48_single :: "rmd_round160 \<Rightarrow> nat \<Rightarrow> rmd_vars160 \<Rightarrow> rmd_vars160" where
  "R160_48_single R n = (\<lambda>(a, b, c, d, e, f, g, h, i, j).
     let (c, e, h, j) = R n c d e a b h i j f g in (a, b, c, d, e, f, g, h, i, j))"

definition R160_64 :: "rmd_round160 \<Rightarrow> nat \<Rightarrow> rmd_vars160 \<Rightarrow> rmd_vars160" where
  "R160_64 R n = (\<lambda>(a, b, c, d, e, f, g, h, i, j).
     let (b, d, g, i) = R n b c d e a g h i j f;
         (a, c, f, h) = R (n + 1) a b c d e f g h i j;
         (e, b, j, g) = R (n + 2) e a b c d j f g h i;
         (d, a, i, f) = R (n + 3) d e a b c i j f g h;
         (c, e, h, j) = R (n + 4) c d e a b h i j f g
     in (a, b, c, d, e, f, g, h, i, j))"

definition R160_64_single :: "rmd_round160 \<Rightarrow> nat \<Rightarrow> rmd_vars160 \<Rightarrow> rmd_vars160" where
  "R160_64_single R n = (\<lambda>(a, b, c, d, e, f, g, h, i, j).
     let (b, d, g, i) = R n b c d e a g h i j f in (a, b, c, d, e, f, g, h, i, j))"

text \<open>Sixteen rounds, unrolled and as the loop of the small configuration.\<close>

definition R160_phase :: "(nat \<Rightarrow> rmd_vars160 \<Rightarrow> rmd_vars160) \<Rightarrow> (nat \<Rightarrow> rmd_vars160 \<Rightarrow> rmd_vars160) \<Rightarrow> nat \<Rightarrow> rmd_vars160 \<Rightarrow> rmd_vars160" where
  "R160_phase five single n v = single (n + 15) (five (n + 10) (five (n + 5) (five n v)))"

definition R160_small_round :: "rmd_round160 \<Rightarrow> rmd_vars160 \<Rightarrow> nat \<Rightarrow> rmd_vars160" where
  "R160_small_round R = (\<lambda>(a, b, c, d, e, f, g, h, i, j) n.
     let (a, c, f, h) = R n a b c d e f g h i j;
         t = e; e = d; d = c; c = b; b = a; a = t;
         t = j; j = i; i = h; h = g; g = f; f = t
     in (a, b, c, d, e, f, g, h, i, j))"

definition R160_small :: "rmd_round160 \<Rightarrow> nat \<Rightarrow> rmd_vars160 \<Rightarrow> rmd_vars160" where
  "R160_small R n v = foldl (R160_small_round R) v [n..<n + 16]"

text \<open>The rounds of RIPEMD-160, and those of RIPEMD-320 with the exchanges between them, which name other variables in the small configuration.\<close>

definition ripemd160_rounds :: "u32 list \<Rightarrow> rmd_vars160 \<Rightarrow> rmd_vars160" where
  "ripemd160_rounds block v =
     (let v = R160_phase (R160_0 (ROUND160_0_TO_15 block)) (R160_0_single (ROUND160_0_TO_15 block)) 0 v;
          v = R160_phase (R160_16 (ROUND160_16_TO_31 block)) (R160_16_single (ROUND160_16_TO_31 block)) 16 v;
          v = R160_phase (R160_32 (ROUND160_32_TO_47 block)) (R160_32_single (ROUND160_32_TO_47 block)) 32 v;
          v = R160_phase (R160_48 (ROUND160_48_TO_63 block)) (R160_48_single (ROUND160_48_TO_63 block)) 48 v
      in R160_phase (R160_64 (ROUND160_64_TO_79 block)) (R160_64_single (ROUND160_64_TO_79 block)) 64 v)"

definition ripemd160_small_rounds :: "u32 list \<Rightarrow> rmd_vars160 \<Rightarrow> rmd_vars160" where
  "ripemd160_small_rounds block v =
     (let v = R160_small (ROUND160_0_TO_15 block) 0 v;
          v = R160_small (ROUND160_16_TO_31 block) 16 v;
          v = R160_small (ROUND160_32_TO_47 block) 32 v;
          v = R160_small (ROUND160_48_TO_63 block) 48 v
      in R160_small (ROUND160_64_TO_79 block) 64 v)"

fun swap_af :: "rmd_vars160 \<Rightarrow> rmd_vars160" where "swap_af (a, b, c, d, e, f, g, h, i, j) = (f, b, c, d, e, a, g, h, i, j)"
fun swap_bg :: "rmd_vars160 \<Rightarrow> rmd_vars160" where "swap_bg (a, b, c, d, e, f, g, h, i, j) = (a, g, c, d, e, f, b, h, i, j)"
fun swap_ch :: "rmd_vars160 \<Rightarrow> rmd_vars160" where "swap_ch (a, b, c, d, e, f, g, h, i, j) = (a, b, h, d, e, f, g, c, i, j)"
fun swap_di :: "rmd_vars160 \<Rightarrow> rmd_vars160" where "swap_di (a, b, c, d, e, f, g, h, i, j) = (a, b, c, i, e, f, g, h, d, j)"
fun swap_ej :: "rmd_vars160 \<Rightarrow> rmd_vars160" where "swap_ej (a, b, c, d, e, f, g, h, i, j) = (a, b, c, d, j, f, g, h, i, e)"

definition ripemd320_rounds :: "u32 list \<Rightarrow> rmd_vars160 \<Rightarrow> rmd_vars160" where
  "ripemd320_rounds block v =
     (let v = swap_af (R160_phase (R160_0 (ROUND160_0_TO_15 block)) (R160_0_single (ROUND160_0_TO_15 block)) 0 v);
          v = swap_bg (R160_phase (R160_16 (ROUND160_16_TO_31 block)) (R160_16_single (ROUND160_16_TO_31 block)) 16 v);
          v = swap_ch (R160_phase (R160_32 (ROUND160_32_TO_47 block)) (R160_32_single (ROUND160_32_TO_47 block)) 32 v);
          v = swap_di (R160_phase (R160_48 (ROUND160_48_TO_63 block)) (R160_48_single (ROUND160_48_TO_63 block)) 48 v)
      in swap_ej (R160_phase (R160_64 (ROUND160_64_TO_79 block)) (R160_64_single (ROUND160_64_TO_79 block)) 64 v))"

definition ripemd320_small_rounds :: "u32 list \<Rightarrow> rmd_vars160 \<Rightarrow> rmd_vars160" where
  "ripemd320_small_rounds block v =
     (let v = swap_bg (R160_small (ROUND160_0_TO_15 block) 0 v);
          v = swap_di (R160_small (ROUND160_16_TO_31 block) 16 v);
          v = swap_af (R160_small (ROUND160_32_TO_47 block) 32 v);
          v = swap_ch (R160_small (ROUND160_48_TO_63 block) 48 v)
      in swap_ej (R160_small (ROUND160_64_TO_79 block) 64 v))"

definition ripemd160_transform_with :: "(u32 list \<Rightarrow> rmd_vars160 \<Rightarrow> rmd_vars160) \<Rightarrow> u32 list \<Rightarrow> u8 list \<Rightarrow> u32 list" where
  "ripemd160_transform_with rounds state buffer =
     (let (a, b, c, d, e, f, g, h, i, j) =
            rounds (rmd_block buffer)
              (state ! 0, state ! 1, state ! 2, state ! 3, state ! 4, state ! 0, state ! 1, state ! 2, state ! 3, state ! 4);
          i = i + (c + state ! 1);
          state = state[1 := state ! 2 + d + j];
          state = state[2 := state ! 3 + e + f];
          state = state[3 := state ! 4 + a + g];
          state = state[4 := state ! 0 + b + h]
      in state[0 := i])"

definition ripemd320_transform_with :: "(u32 list \<Rightarrow> rmd_vars160 \<Rightarrow> rmd_vars160) \<Rightarrow> u32 list \<Rightarrow> u8 list \<Rightarrow> u32 list" where
  "ripemd320_transform_with rounds state buffer =
     (let (a, b, c, d, e, f, g, h, i, j) =
            rounds (rmd_block buffer)
              (state ! 0, state ! 1, state ! 2, state ! 3, state ! 4, state ! 5, state ! 6, state ! 7, state ! 8, state ! 9);
          state = state[0 := state ! 0 + a, 1 := state ! 1 + b, 2 := state ! 2 + c, 3 := state ! 3 + d, 4 := state ! 4 + e]
      in state[5 := state ! 5 + f, 6 := state ! 6 + g, 7 := state ! 7 + h, 8 := state ! 8 + i, 9 := state ! 9 + j])"

definition ripemd160_transform :: "u32 list \<Rightarrow> u8 list \<Rightarrow> u32 list" where
  "ripemd160_transform = ripemd160_transform_with ripemd160_rounds"

definition ripemd320_transform :: "u32 list \<Rightarrow> u8 list \<Rightarrow> u32 list" where
  "ripemd320_transform = ripemd320_transform_with ripemd320_rounds"

section \<open>The context\<close>

record AVRIPEMD = "u32 hash_context" +
  rmd_transform :: "u32 list \<Rightarrow> u8 list \<Rightarrow> u32 list"

definition av_ripemd_init :: "AVRIPEMD \<Rightarrow> int \<Rightarrow> int \<times> AVRIPEMD" where
  "av_ripemd_init ctx bits =
     (let ctx = ctx\<lparr>digest_len := nat (bits div 32 mod 256)\<rparr>
      in if bits = 128 then
           (0, ctx\<lparr>hash_state := put_at (hash_state ctx) 0 [0x67452301, 0xEFCDAB89, 0x98BADCFE, 0x10325476],
                   rmd_transform := ripemd128_transform, hash_count := 0\<rparr>)
         else if bits = 160 then
           (0, ctx\<lparr>hash_state := put_at (hash_state ctx) 0 [0x67452301, 0xEFCDAB89, 0x98BADCFE, 0x10325476, 0xC3D2E1F0],
                   rmd_transform := ripemd160_transform, hash_count := 0\<rparr>)
         else if bits = 256 then
           (0, ctx\<lparr>hash_state := put_at (hash_state ctx) 0
                     [0x67452301, 0xEFCDAB89, 0x98BADCFE, 0x10325476, 0x76543210, 0xFEDCBA98, 0x89ABCDEF, 0x01234567],
                   rmd_transform := ripemd256_transform, hash_count := 0\<rparr>)
         else if bits = 320 then
           (0, ctx\<lparr>hash_state := put_at (hash_state ctx) 0
                     [0x67452301, 0xEFCDAB89, 0x98BADCFE, 0x10325476, 0xC3D2E1F0, 0x76543210, 0xFEDCBA98, 0x89ABCDEF, 0x01234567, 0x3C2D1E0F],
                   rmd_transform := ripemd320_transform, hash_count := 0\<rparr>)
         else (AVERROR EINVAL, ctx))"

definition av_ripemd_update :: "AVRIPEMD \<Rightarrow> u8 list \<Rightarrow> AVRIPEMD" where
  "av_ripemd_update ctx data = hash_update 64 (rmd_transform ctx) ctx data"

definition av_ripemd_final :: "AVRIPEMD \<Rightarrow> (AVRIPEMD \<times> u8 list) option" where
  "av_ripemd_final ctx = do {
     let finalcount = AV_WL64 (push_bit 3 (hash_count ctx));
     ctx \<leftarrow> hash_pad 64 56 hash_count av_ripemd_update (av_ripemd_update ctx [0x80]);
     let ctx = av_ripemd_update ctx finalcount;
     Some (ctx, concat (map (\<lambda>i. AV_WL32 (hash_state ctx ! i)) [0..<digest_len ctx]))
   }"

section \<open>The two configurations agree\<close>

lemma R128_four_steps: "R128_four R n v = foldl (R128_small_round R) v [n..<n + 4]"
proof -
  have "[n..<n + 4] = [n, n + 1, n + 2, n + 3]" by (simp add: upt_conv_Cons numeral_eq_Suc)
  then show ?thesis by (cases v) (simp add: R128_four_def R128_small_round_def Let_def split: prod.splits)
qed

lemma R128_sixteen_small: "R128_sixteen R n v = R128_small R n v"
proof -
  have "[n..<n + 16] = [n..<n + 4] @ [n + 4..<n + 4 + 4] @ [n + 8..<n + 8 + 4] @ [n + 12..<n + 12 + 4]" by (simp add: upt_conv_Cons numeral_eq_Suc)
  then show ?thesis by (simp only: R128_sixteen_def R128_small_def R128_four_steps foldl_append)
qed

text \<open>
  The unrolled form renames the variables: after \<open>n\<close> rounds its variables are those of the loop, \<open>n\<close> places moved.
\<close>

fun moved :: "rmd_vars160 \<Rightarrow> rmd_vars160" where
  "moved (a, b, c, d, e, f, g, h, i, j) = (e, a, b, c, d, j, f, g, h, i)"

lemma moved_5 [simp]: "(moved ^^ 5) v = v"
  by (cases v rule: moved.cases) (simp add: numeral_eq_Suc)

lemma upt_5: "[n..<n + 5] = [n, n + 1, n + 2, n + 3, n + 4]"
  by (simp add: upt_conv_Cons numeral_eq_Suc)

lemma R160_five_steps:
  "R160_0 R n v = foldl (R160_small_round R) v [n..<n + 5]"
  "moved (R160_16 R n v) = foldl (R160_small_round R) (moved v) [n..<n + 5]"
  "(moved ^^ 2) (R160_32 R n v) = foldl (R160_small_round R) ((moved ^^ 2) v) [n..<n + 5]"
  "(moved ^^ 3) (R160_48 R n v) = foldl (R160_small_round R) ((moved ^^ 3) v) [n..<n + 5]"
  "(moved ^^ 4) (R160_64 R n v) = foldl (R160_small_round R) ((moved ^^ 4) v) [n..<n + 5]"
  by (cases v rule: moved.cases; simp add: upt_5 R160_0_def R160_16_def R160_32_def R160_48_def R160_64_def R160_small_round_def Let_def numeral_eq_Suc split: prod.splits)+

lemma R160_single_step:
  "moved (R160_0_single R n v) = R160_small_round R v n"
  "(moved ^^ 2) (R160_16_single R n v) = R160_small_round R (moved v) n"
  "(moved ^^ 3) (R160_32_single R n v) = R160_small_round R ((moved ^^ 2) v) n"
  "(moved ^^ 4) (R160_48_single R n v) = R160_small_round R ((moved ^^ 3) v) n"
  "R160_64_single R n v = R160_small_round R ((moved ^^ 4) v) n"
  by (cases v rule: moved.cases; simp add: R160_0_single_def R160_16_single_def R160_32_single_def R160_48_single_def R160_64_single_def R160_small_round_def Let_def
    numeral_eq_Suc split: prod.splits)+

lemma R160_phase_small:
  assumes "\<And>n v. p (five n v) = foldl (R160_small_round R) (p v) [n..<n + 5]" "\<And>n v. q (single n v) = R160_small_round R (p v) n"
  shows "q (R160_phase five single n v) = R160_small R n (p v)"
proof -
  have "[n..<n + 16] = [n..<n + 5] @ [n + 5..<n + 5 + 5] @ [n + 10..<n + 10 + 5] @ [n + 15]" by (simp add: upt_conv_Cons numeral_eq_Suc)
  then show ?thesis by (simp only: R160_phase_def R160_small_def assms foldl_append foldl.simps)
qed

lemma R160_phases:
  "moved (R160_phase (R160_0 R) (R160_0_single R) n v) = R160_small R n v"
  "(moved ^^ 2) (R160_phase (R160_16 R) (R160_16_single R) n v) = R160_small R n (moved v)"
  "(moved ^^ 3) (R160_phase (R160_32 R) (R160_32_single R) n v) = R160_small R n ((moved ^^ 2) v)"
  "(moved ^^ 4) (R160_phase (R160_48 R) (R160_48_single R) n v) = R160_small R n ((moved ^^ 3) v)"
  "R160_phase (R160_64 R) (R160_64_single R) n v = R160_small R n ((moved ^^ 4) v)"
  by (rule R160_phase_small [where p = "\<lambda>v. v"] R160_phase_small [where p = moved] R160_phase_small [where q = "\<lambda>v. v"] R160_phase_small,
    rule R160_five_steps, rule R160_single_step)+

lemma swaps_moved:
  "swap_bg (moved v) = moved (swap_af v)" "swap_di ((moved ^^ 2) v) = (moved ^^ 2) (swap_bg v)" "swap_af ((moved ^^ 3) v) = (moved ^^ 3) (swap_ch v)"
  "swap_ch ((moved ^^ 4) v) = (moved ^^ 4) (swap_di v)"
  by (cases v rule: moved.cases; simp add: numeral_eq_Suc)+

lemmas R160_unrolled =
  R160_phases(1) [of "ROUND160_0_TO_15 block" 0 for block, symmetric] R160_phases(2) [of "ROUND160_16_TO_31 block" 16 for block, symmetric]
  R160_phases(3) [of "ROUND160_32_TO_47 block" 32 for block, symmetric] R160_phases(4) [of "ROUND160_48_TO_63 block" 48 for block, symmetric]
  R160_phases(5) [of "ROUND160_64_TO_79 block" 64 for block, symmetric]

lemma ripemd160_rounds_small: "ripemd160_rounds block v = ripemd160_small_rounds block v"
  by (simp only: ripemd160_rounds_def ripemd160_small_rounds_def Let_def R160_unrolled)

lemma ripemd320_rounds_small: "ripemd320_rounds block v = ripemd320_small_rounds block v"
  by (simp only: ripemd320_rounds_def ripemd320_small_rounds_def Let_def R160_unrolled swaps_moved)

text \<open>
  C32: the unrolled compression functions of the four RIPEMD digests, which rename the variables from call to call, are the loops of the
  small configuration, which move the values and, in RIPEMD-320, exchange other variables.
\<close>

theorem ripemd_unrolled_is_loop:
  "ripemd128_transform = ripemd128_transform_with R128_small \<and> ripemd160_transform = ripemd160_transform_with ripemd160_small_rounds \<and>
   ripemd256_transform = ripemd256_transform_with R128_small \<and> ripemd320_transform = ripemd320_transform_with ripemd320_small_rounds"
  by (simp add: ripemd128_transform_def ripemd160_transform_def ripemd256_transform_def ripemd320_transform_def
    R128_sixteen_small [abs_def] ripemd160_rounds_small [abs_def] ripemd320_rounds_small [abs_def])

section \<open>Digests of messages\<close>

interpretation ripemd: block_hash 64 56 f av_ripemd_update hash_count hash_buffer hash_state "\<lambda>c. rmd_transform c = f \<and> digest_len c = n" for f n
proof unfold_locales
  fix c :: AVRIPEMD and s m d
  assume c: "rmd_transform c = f \<and> digest_len c = n"
  then show "rmd_transform (av_ripemd_update c d) = f \<and> digest_len (av_ripemd_update c d) = n" by (simp add: av_ripemd_update_def hash_update_def Let_def)
  assume "absorbed 64 f s m (hash_count c, hash_buffer c, hash_state c)"
  then show "absorbed 64 f s (m @ d) (hash_count (av_ripemd_update c d), hash_buffer (av_ripemd_update c d), hash_state (av_ripemd_update c d))"
    unfolding av_ripemd_update_def using c by (auto intro: hash_update_absorbs(1))
qed simp_all

definition ripemd_iv :: "int \<Rightarrow> u32 list" where
  "ripemd_iv bits =
     (if bits = 128 then [0x67452301, 0xEFCDAB89, 0x98BADCFE, 0x10325476]
      else if bits = 160 then [0x67452301, 0xEFCDAB89, 0x98BADCFE, 0x10325476, 0xC3D2E1F0]
      else if bits = 256 then [0x67452301, 0xEFCDAB89, 0x98BADCFE, 0x10325476, 0x76543210, 0xFEDCBA98, 0x89ABCDEF, 0x01234567]
      else [0x67452301, 0xEFCDAB89, 0x98BADCFE, 0x10325476, 0xC3D2E1F0, 0x76543210, 0xFEDCBA98, 0x89ABCDEF, 0x01234567, 0x3C2D1E0F])"

definition ripemd_compress :: "int \<Rightarrow> u32 list \<Rightarrow> u8 list \<Rightarrow> u32 list" where
  "ripemd_compress bits =
     (if bits = 128 then ripemd128_transform else if bits = 160 then ripemd160_transform
      else if bits = 256 then ripemd256_transform else ripemd320_transform)"

text \<open>The digest of a message: all words of the state after the padded message.\<close>

definition ripemd_digest :: "int \<Rightarrow> u8 list \<Rightarrow> u8 list" where
  "ripemd_digest bits m = concat (map AV_WL32 (absorb 64 (ripemd_compress bits) (ripemd_iv bits) (md_message 64 56 m (AV_WL64 (of_nat (8 * length m))))))"

lemma ripemd_take:
  "4 \<le> length s \<Longrightarrow> length (ripemd128_transform s b) = length s \<and> take 4 (ripemd128_transform s b) = ripemd128_transform (take 4 s) b"
  "5 \<le> length s \<Longrightarrow> length (ripemd160_transform s b) = length s \<and> take 5 (ripemd160_transform s b) = ripemd160_transform (take 5 s) b"
  "8 \<le> length s \<Longrightarrow> length (ripemd256_transform s b) = length s \<and> take 8 (ripemd256_transform s b) = ripemd256_transform (take 8 s) b"
  "10 \<le> length s \<Longrightarrow> length (ripemd320_transform s b) = length s \<and> take 10 (ripemd320_transform s b) = ripemd320_transform (take 10 s) b"
  by (simp_all add: ripemd128_transform_def ripemd160_transform_def ripemd256_transform_def ripemd320_transform_def ripemd128_transform_with_def
    ripemd160_transform_with_def ripemd256_transform_with_def ripemd320_transform_with_def Let_def case_prod_unfold take_update_swap)

lemma length_ripemd_iv: "length (ripemd_iv bits) = (if bits = 128 then 4 else if bits = 160 then 5 else if bits = 256 then 8 else 10)"
  by (simp add: ripemd_iv_def)

lemma ripemd_compress_take:
  assumes "length s = 10"
  shows "length (ripemd_compress bits s b) = 10 \<and> take (length (ripemd_iv bits)) (ripemd_compress bits s b) = ripemd_compress bits (take (length (ripemd_iv bits)) s) b"
  using assms ripemd_take [of s b] by (simp add: ripemd_compress_def length_ripemd_iv)

lemma av_ripemd_init_ok:
  assumes "bits \<in> {128, 160, 256, 320}" "length (hash_buffer c) = 64" "length (hash_state c) = 10"
  obtains c0 where "av_ripemd_init c bits = (0, c0)" "rmd_transform c0 = ripemd_compress bits \<and> digest_len c0 = length (ripemd_iv bits)"
    "absorbed 64 (ripemd_compress bits) (hash_state c0) [] (hash_count c0, hash_buffer c0, hash_state c0)"
    "length (hash_state c0) = 10" "take (length (ripemd_iv bits)) (hash_state c0) = ripemd_iv bits"
  using assms by (auto simp: av_ripemd_init_def Let_def ripemd_compress_def ripemd_iv_def absorbed_def put_at_def)

text \<open>
  C17: on any context, whatever it held before, \<^verbatim>\<open>av_ripemd_init\<close> for 128, 160, 256 or 320 bits, any number of calls of
  \<^verbatim>\<open>av_ripemd_update\<close> and \<^verbatim>\<open>av_ripemd_final\<close>, whose padding loop ends, give the digest of the concatenated input; any other size is
  refused.
\<close>

theorem av_ripemd_digest:
  assumes "length (hash_buffer c) = 64" "length (hash_state c) = 10"
  shows "if bits \<in> {128, 160, 256, 320}
    then \<exists>c0 c1. av_ripemd_init c bits = (0, c0) \<and> av_ripemd_final (foldl av_ripemd_update c0 ds) = Some (c1, ripemd_digest bits (concat ds))
    else fst (av_ripemd_init c bits) = AVERROR EINVAL"
proof (cases "bits \<in> {128, 160, 256, 320}")
  case True
  obtain c0 where c0: "av_ripemd_init c bits = (0, c0)" "rmd_transform c0 = ripemd_compress bits \<and> digest_len c0 = length (ripemd_iv bits)"
    "absorbed 64 (ripemd_compress bits) (hash_state c0) [] (hash_count c0, hash_buffer c0, hash_state c0)"
    "length (hash_state c0) = 10" "take (length (ripemd_iv bits)) (hash_state c0) = ripemd_iv bits" by (rule av_ripemd_init_ok [OF True assms])
  define m where "m = concat ds"
  define cm where "cm = foldl av_ripemd_update c0 ds"
  define T where "T = AV_WL64 (of_nat (8 * length m))"
  define Y where "Y = absorb 64 (ripemd_compress bits) (hash_state c0) (md_message 64 56 m T)"
  note st = ripemd.stream [OF c0(2,3), of "[T]" ds, folded cm_def m_def]
  have tl: "AV_WL64 (push_bit 3 (hash_count cm)) = T" using st(1) bit_count by (simp add: T_def)
  obtain c1 where c1: "hash_pad 64 56 hash_count av_ripemd_update (av_ripemd_update cm [0x80]) = Some c1"
    "digest_len (av_ripemd_update c1 T) = length (ripemd_iv bits)" "hash_state (av_ripemd_update c1 T) = Y"
    using st(2) by (auto simp: Y_def T_def)
  have Y: "length Y = 10 \<and> take (length (ripemd_iv bits)) Y = absorb 64 (ripemd_compress bits) (ripemd_iv bits) (md_message 64 56 m T)"
    using absorb_project [where P = "\<lambda>s. length s = 10" and g = "take (length (ripemd_iv bits))" and f = "ripemd_compress bits" and f' = "ripemd_compress bits",
      OF ripemd_compress_take c0(4)] by (simp only: Y_def c0(5))
  have n: "length (ripemd_iv bits) \<le> length Y" using Y by (simp add: length_ripemd_iv)
  have "ripemd_digest bits m = concat (map AV_WL32 (take (length (ripemd_iv bits)) Y))" unfolding ripemd_digest_def using Y by (simp only: T_def)
  also have "\<dots> = concat (map (\<lambda>i. AV_WL32 (Y ! i)) [0..<length (ripemd_iv bits)])" by (simp add: nths_take [OF n, symmetric] o_def)
  finally have "av_ripemd_final cm = Some (av_ripemd_update c1 T, ripemd_digest bits m)" by (simp only: av_ripemd_final_def tl Let_def c1 Option.bind.simps)
  then show ?thesis using True c0(1) by (auto simp: cm_def m_def)
qed (auto simp: av_ripemd_init_def)

definition demo_ripemd :: AVRIPEMD where
  "demo_ripemd = \<lparr>digest_len = 9, hash_count = 77, hash_buffer = replicate 64 1, hash_state = replicate 10 2, rmd_transform = ripemd128_transform\<rparr>"

theorem av_ripemd_digest_witness:
  "if 320 \<in> {128, 160, 256, 320 :: int}
    then \<exists>c0 c1. av_ripemd_init demo_ripemd 320 = (0, c0) \<and>
      av_ripemd_final (foldl av_ripemd_update c0 [[97], [98, 99]]) = Some (c1, ripemd_digest 320 (concat [[97], [98, 99]]))
    else fst (av_ripemd_init demo_ripemd 320) = AVERROR EINVAL"
  by (rule av_ripemd_digest) (simp_all add: demo_ripemd_def)

end
