(* ===== verification/AV_HashConstants.thy ===== *)
theory AV_HashConstants
  imports AV_Sha AV_Sha512 AV_Ripemd
begin

text \<open>
  Where the constants of \<^verbatim>\<open>sha.c\<close>, \<^verbatim>\<open>sha512.c\<close> and \<^verbatim>\<open>ripemd.c\<close> come from: the first bits of square and cube roots of primes, for
  SHA-2 of their fractional parts. So these tables of the code are checked against their definition and not only against themselves.
\<close>

definition is_prime :: "int \<Rightarrow> bool" where
  "is_prime p \<longleftrightarrow> 1 < p \<and> list_all (\<lambda>d. p mod d \<noteq> 0) [2..p - 1]"

text \<open>The first eighty primes.\<close>

definition first_primes :: "int list" where
  "first_primes = filter is_prime [2..409]"

text \<open>The \<open>k\<close>-th root with \<open>w\<close> bits after the point.\<close>

definition fixed_root :: "nat \<Rightarrow> nat \<Rightarrow> int \<Rightarrow> int" where
  "fixed_root k w p = \<lfloor>root k (of_int p) * 2 ^ w\<rfloor>"

lemma fixed_root_unique:
  assumes "0 < k" "0 \<le> n" "n ^ k \<le> p * 2 ^ (w * k)" "p * 2 ^ (w * k) < (n + 1) ^ k"
  shows "fixed_root k w p = n"
proof -
  have "root k (of_int p) * 2 ^ w = root k (of_int p) * root k ((2 ^ w) ^ k)" using assms(1) by (simp add: real_root_power_cancel)
  also have "\<dots> = root k (of_int (p * 2 ^ (w * k)))" by (simp add: real_root_mult power_mult)
  finally have e: "root k (of_int p) * 2 ^ w = root k (of_int (p * 2 ^ (w * k)))" .
  have "(of_int n :: real) = root k (of_int (n ^ k))" "(of_int n + 1 :: real) = root k (of_int ((n + 1) ^ k))"
    using assms(1,2) by (simp_all add: real_root_power_cancel)
  moreover have "root k (of_int (n ^ k)) \<le> root k (of_int (p * 2 ^ (w * k)))" "root k (of_int (p * 2 ^ (w * k))) < root k (of_int ((n + 1) ^ k))"
    using assms by (simp_all only: real_root_le_iff real_root_less_iff of_int_le_iff of_int_less_iff)
  ultimately show ?thesis unfolding fixed_root_def e by (intro floor_unique) simp_all
qed

definition root_check :: "nat \<Rightarrow> nat \<Rightarrow> int \<Rightarrow> int \<Rightarrow> bool" where
  "root_check k w p n \<longleftrightarrow> 0 \<le> n \<and> n ^ k \<le> p * 2 ^ (w * k) \<and> p * 2 ^ (w * k) < (n + 1) ^ k"

lemma root_check_map:
  assumes "0 < k" "list_all2 (root_check k w) ps ns"
  shows "map (fixed_root k w) ps = ns"
  using assms(2) by (induction rule: list_all2_induct) (simp_all add: root_check_def fixed_root_unique [OF assms(1)])

text \<open>Fewer bits after the point.\<close>

lemma fixed_root_less: "fixed_root k w p = fixed_root k (w + v) p div 2 ^ v"
proof -
  have "fixed_root k w p = \<lfloor>root k (of_int p) * 2 ^ (w + v) / of_int (2 ^ v)\<rfloor>" by (simp add: fixed_root_def power_add)
  also have "\<dots> = \<lfloor>root k (of_int p) * 2 ^ (w + v)\<rfloor> div 2 ^ v" by (rule floor_divide_real_eq_div) simp
  finally show ?thesis by (simp add: fixed_root_def)
qed

definition prime_list :: "int list" where
  "prime_list =
    [2, 3, 5, 7, 11, 13, 17, 19, 23, 29, 31, 37, 41, 43, 47, 53, 59, 61, 67, 71,
     73, 79, 83, 89, 97, 101, 103, 107, 109, 113, 127, 131, 137, 139, 149, 151, 157, 163, 167, 173,
     179, 181, 191, 193, 197, 199, 211, 223, 227, 229, 233, 239, 241, 251, 257, 263, 269, 271, 277, 281,
     283, 293, 307, 311, 313, 317, 331, 337, 347, 349, 353, 359, 367, 373, 379, 383, 389, 397, 401, 409]"

definition cube_roots :: "int list" where
  "cube_roots =
    [0x1428A2F98D728AE22, 0x17137449123EF65CD, 0x1B5C0FBCFEC4D3B2F, 0x1E9B5DBA58189DBBC,
     0x23956C25BF348B538, 0x259F111F1B605D019, 0x2923F82A4AF194F9B, 0x2AB1C5ED5DA6D8118,
     0x2D807AA98A3030242, 0x312835B0145706FBE, 0x3243185BE4EE4B28C, 0x3550C7DC3D5FFB4E2,
     0x372BE5D74F27B896F, 0x380DEB1FE3B1696B1, 0x39BDC06A725C71235, 0x3C19BF174CF692694,
     0x3E49B69C19EF14AD2, 0x3EFBE4786384F25E3, 0x40FC19DC68B8CD5B5, 0x4240CA1CC77AC9C65,
     0x42DE92C6F592B0275, 0x44A7484AA6EA6E483, 0x45CB0A9DCBD41FBD4, 0x476F988DA831153B5,
     0x4983E5152EE66DFAB, 0x4A831C66D2DB43210, 0x4B00327C898FB213F, 0x4BF597FC7BEEF0EE4,
     0x4C6E00BF33DA88FC2, 0x4D5A79147930AA725, 0x506CA6351E003826F, 0x5142929670A0E6E70,
     0x527B70A8546D22FFC, 0x52E1B21385C26C926, 0x54D2C6DFC5AC42AED, 0x553380D139D95B3DF,
     0x5650A73548BAF63DE, 0x5766A0ABB3C77B2A8, 0x581C2C92E47EDAEE6, 0x592722C851482353B,
     0x5A2BFE8A14CF10364, 0x5A81A664BBC423001, 0x5C24B8B70D0F89791, 0x5C76C51A30654BE30,
     0x5D192E819D6EF5218, 0x5D69906245565A910, 0x5F40E35855771202A, 0x6106AA07032BBD1B8,
     0x619A4C116B8D2D0C8, 0x61E376C085141AB53, 0x62748774CDF8EEB99, 0x634B0BCB5E19B48A8,
     0x6391C0CB3C5C95A63, 0x64ED8AA4AE3418ACB, 0x65B9CCA4F7763E373, 0x6682E6FF3D6B2B8A3,
     0x6748F82EE5DEFB2FC, 0x678A5636F43172F60, 0x684C87814A1F0AB72, 0x68CC702081A6439EC,
     0x690BEFFFA23631E28, 0x6A4506CEBDE82BDE9, 0x6BEF9A3F7B2C67915, 0x6C67178F2E372532B,
     0x6CA273ECEEA26619C, 0x6D186B8C721C0C207, 0x6EADA7DD6CDE0EB1E, 0x6F57D4F7FEE6ED178,
     0x706F067AA72176FBA, 0x70A637DC5A2C898A6, 0x7113F9804BEF90DAE, 0x71B710B35131C471B,
     0x728DB77F523047D84, 0x732CAAB7B40C72493, 0x73C9EBE0A15C9BEBC, 0x7431D67C49C100D4C,
     0x74CC5D4BECB3E42B6, 0x7597F299CFC657E2A, 0x75FCB6FAB3AD6FAEC, 0x76C44198C4A475817]"

definition square_roots :: "int list" where
  "square_roots =
    [0x16A09E667F3BCC908, 0x1BB67AE8584CAA73B, 0x23C6EF372FE94F82B, 0x2A54FF53A5F1D36F1,
     0x3510E527FADE682D1, 0x39B05688C2B3E6C1F, 0x41F83D9ABFB41BD6B, 0x45BE0CD19137E2179,
     0x4CBBB9D5DC1059ED8, 0x5629A292A367CD507, 0x59159015A3070DD17, 0x6152FECD8F70E5939,
     0x667332667FFC00B31, 0x68EB44A8768581511, 0x6DB0C2E0D64F98FA7, 0x747B5481DBEFA4FA4]"

text \<open>Below 441 a divisor up to 20 decides.\<close>

lemma is_prime_small:
  assumes "p < 441"
  shows "is_prime p \<longleftrightarrow> 1 < p \<and> list_all (\<lambda>d. p \<le> d \<or> p mod d \<noteq> 0) [2..20]"
  unfolding is_prime_def list_all_iff set_upto
proof (intro iffI conjI ballI)
  fix d :: int
  assume "1 < p \<and> (\<forall>d\<in>{2..p - 1}. p mod d \<noteq> 0)" "d \<in> {2..20}"
  then show "p \<le> d \<or> p mod d \<noteq> 0" by (cases "p \<le> d") simp_all
next
  fix d :: int
  assume s: "1 < p \<and> (\<forall>d\<in>{2..20}. p \<le> d \<or> p mod d \<noteq> 0)" and d': "d \<in> {2..p - 1}"
  have d: "2 \<le> d" "d \<le> p - 1" using d' by simp_all
  show "p mod d \<noteq> 0"
  proof
    assume "p mod d = 0"
    then obtain e where e: "p = d * e" by auto
    have "0 < e" using s d e by (auto intro: zero_less_mult_pos [of d])
    then have e2: "2 \<le> e" "e < p" using d e mult_strict_right_mono [of 1 d e] by (cases "e = 1"; simp)+
    have "d \<le> 20 \<or> e \<le> 20"
    proof (rule ccontr)
      assume "\<not> (d \<le> 20 \<or> e \<le> 20)"
      then have "21 * 21 \<le> d * e" by (intro mult_mono) simp_all
      then show False using e assms by simp
    qed
    moreover have "p mod d = 0" "p mod e = 0" using e by simp_all
    ultimately show False using s d e2 by (metis atLeastAtMost_iff linorder_not_less zle_diff1_eq)
  qed
qed simp_all

lemma first_primes: "first_primes = prime_list"
proof -
  have "first_primes = filter (\<lambda>p. 1 < p \<and> list_all (\<lambda>d. p \<le> d \<or> p mod d \<noteq> 0) [2..20]) [2..409]"
    unfolding first_primes_def by (rule filter_cong [OF refl], rule is_prime_small) (simp only: set_upto atLeastAtMost_iff, linarith)
  also have "\<dots> = prime_list" by code_simp
  finally show ?thesis .
qed

lemma cube_roots: "map (fixed_root 3 64) prime_list = cube_roots"
  by (rule root_check_map) code_simp+

lemma square_roots: "map (fixed_root 2 64) (take 16 prime_list) = square_roots"
  by (rule root_check_map) code_simp+

lemma K512_roots: "K512 = map of_int cube_roots"
  by code_simp

lemma K256_roots: "K256 = map (\<lambda>r. of_int (r div 2 ^ 32)) (take 64 cube_roots)"
  by code_simp

lemma iv_roots:
  "sha512_iv 512 = map of_int (take 8 square_roots)" "sha512_iv 384 = map of_int (drop 8 square_roots)"
  "sha_iv 256 = map (\<lambda>r. of_int (r div 2 ^ 32)) (take 8 square_roots)" "sha_iv 224 = map of_int (drop 8 square_roots)"
  by code_simp+

lemma ripemd_roots:
  "rmd_KA = map of_int (map (fixed_root 2 30) [2, 3, 5, 7])" "rmd_KB = map of_int (map (fixed_root 3 30) [2, 3, 5, 7])"
proof -
  have "map (fixed_root 2 30) [2, 3, 5, 7] = [0x5A827999, 0x6ED9EBA1, 0x8F1BBCDC, 0xA953FD4E]" by (rule root_check_map) code_simp+
  then show "rmd_KA = map of_int (map (fixed_root 2 30) [2, 3, 5, 7])" by (simp add: rmd_KA_def)
  have "map (fixed_root 3 30) [2, 3, 5, 7] = [0x50A28BE6, 0x5C4DD124, 0x6D703EF3, 0x7A6D76E9]" by (rule root_check_map) code_simp+
  then show "rmd_KB = map of_int (map (fixed_root 3 30) [2, 3, 5, 7])" by (simp add: rmd_KB_def)
qed

text \<open>The states the two initializations leave, whatever the context held before.\<close>

lemma sha_init_state:
  assumes "length (hash_state c) = 8"
  shows "hash_state (snd (av_sha_init c 256)) = sha_iv 256" "hash_state (snd (av_sha_init c 224)) = sha_iv 224"
  using assms by (simp_all add: av_sha_init_def sha_iv_def put_at_def)

lemma sha512_init_state:
  assumes "length (hash_state c) = 8"
  shows "hash_state (snd (av_sha512_init c 512)) = sha512_iv 512" "hash_state (snd (av_sha512_init c 384)) = sha512_iv 384"
  using assms by (simp_all add: av_sha512_init_def sha512_iv_def put_at_def)

text \<open>
  C31: the round constants of SHA-256 and SHA-512 are the first 32 and 64 bits of the fractional parts of the cube roots of the first 64
  and 80 primes. On any context, \<^verbatim>\<open>av_sha512_init\<close> for 512 bits and \<^verbatim>\<open>av_sha_init\<close> for 256 bits leave as the state the first
  64 and 32 bits of the fractional parts of the square roots of the first eight primes, and for 384 and 224 bits the first 64
  and the second 32 bits of those of the next eight. (The states of SHA-1, SHA-512/224 and SHA-512/256 are not made of roots.) The round
  constants of RIPEMD are the square and cube roots of the first four primes, with 30 bits after the point.
\<close>

theorem hash_constants:
  assumes "length (hash_state c) = 8" "length (hash_state c') = 8"
  shows "K512 = map (\<lambda>p. of_int (fixed_root 3 64 p)) first_primes \<and> K256 = map (\<lambda>p. of_int (fixed_root 3 32 p)) (take 64 first_primes) \<and>
   hash_state (snd (av_sha512_init c 512)) = map (\<lambda>p. of_int (fixed_root 2 64 p)) (take 8 first_primes) \<and>
   hash_state (snd (av_sha_init c' 256)) = map (\<lambda>p. of_int (fixed_root 2 32 p)) (take 8 first_primes) \<and>
   hash_state (snd (av_sha512_init c 384)) = map (\<lambda>p. of_int (fixed_root 2 64 p)) (take 8 (drop 8 first_primes)) \<and>
   hash_state (snd (av_sha_init c' 224)) = map (\<lambda>p. of_int (fixed_root 2 64 p)) (take 8 (drop 8 first_primes)) \<and>
   rmd_KA = map (\<lambda>p. of_int (fixed_root 2 30 p)) (take 4 first_primes) \<and> rmd_KB = map (\<lambda>p. of_int (fixed_root 3 30 p)) (take 4 first_primes)"
proof -
  have "take 4 first_primes = [2, 3, 5, 7]" by (simp add: first_primes prime_list_def)
  then show ?thesis
    unfolding sha_init_state [OF assms(2)] sha512_init_state [OF assms(1)]
      K512_roots K256_roots iv_roots ripemd_roots cube_roots [symmetric] square_roots [symmetric]
    by (simp add: first_primes take_map drop_map o_def take_drop min_def fixed_root_less [of _ 32 _ 32])
qed

theorem hash_constants_witness:
  "hash_state (snd (av_sha512_init demo_sha512 384)) = map (\<lambda>p. of_int (fixed_root 2 64 p)) (take 8 (drop 8 first_primes)) \<and>
   hash_state (snd (av_sha_init demo_sha 256)) = map (\<lambda>p. of_int (fixed_root 2 32 p)) (take 8 first_primes)"
  using hash_constants [of demo_sha512 demo_sha] by (simp add: demo_sha_def demo_sha512_def)

end
