(* ===== verification/AV_Hmac.thy ===== *)
theory AV_Hmac
  imports AV_Md5 AV_Sha AV_Sha512
begin

text \<open>
  \<^verbatim>\<open>libavutil/hmac.c\<close>: message authentication with a key, over six digests that a context reaches through function pointers. What it
  needs from a digest is a locale, with one interpretation for each entry of the table in \<^verbatim>\<open>av_hmac_alloc\<close>.
\<close>

unbundle bit_operations_syntax

section \<open>The digests behind the pointers\<close>

text \<open>What \<^verbatim>\<open>void *hash\<close> may point to.\<close>

datatype hash_object = MD5_hash AVMD5 | SHA_hash AVSHA | SHA512_hash AVSHA512

text \<open>
  The functions of the macros \<^verbatim>\<open>DEFINE_ALGO_BITS_INIT\<close>, \<^verbatim>\<open>DEFINE_ALGO_INIT\<close> and \<^verbatim>\<open>DEFINE_ALGO\<close>. A context of another digest is never
  passed to them; \<^verbatim>\<open>av_hmac_alloc\<close> chooses both together.
\<close>

fun md5_init :: "hash_object \<Rightarrow> hash_object" where
  "md5_init (MD5_hash c) = MD5_hash (av_md5_init c)"
| "md5_init h = h"

fun sha_bits_init :: "int \<Rightarrow> hash_object \<Rightarrow> hash_object" where
  "sha_bits_init bits (SHA_hash c) = SHA_hash (snd (av_sha_init c bits))"
| "sha_bits_init bits h = h"

fun sha512_bits_init :: "int \<Rightarrow> hash_object \<Rightarrow> hash_object" where
  "sha512_bits_init bits (SHA512_hash c) = SHA512_hash (snd (av_sha512_init c bits))"
| "sha512_bits_init bits h = h"

fun md5_update :: "hash_object \<Rightarrow> u8 list \<Rightarrow> hash_object" where
  "md5_update (MD5_hash c) src = MD5_hash (av_md5_update c src)"
| "md5_update h src = h"

fun sha_update :: "hash_object \<Rightarrow> u8 list \<Rightarrow> hash_object" where
  "sha_update (SHA_hash c) src = SHA_hash (av_sha_update c src)"
| "sha_update h src = h"

fun sha512_update :: "hash_object \<Rightarrow> u8 list \<Rightarrow> hash_object" where
  "sha512_update (SHA512_hash c) src = SHA512_hash (av_sha512_update c src)"
| "sha512_update h src = h"

fun md5_final :: "hash_object \<Rightarrow> (hash_object \<times> u8 list) option" where
  "md5_final (MD5_hash c) = map_option (apfst MD5_hash) (av_md5_final c)"
| "md5_final h = None"

fun sha_final :: "hash_object \<Rightarrow> (hash_object \<times> u8 list) option" where
  "sha_final (SHA_hash c) = map_option (apfst SHA_hash) (av_sha_final c)"
| "sha_final h = None"

fun sha512_final :: "hash_object \<Rightarrow> (hash_object \<times> u8 list) option" where
  "sha512_final (SHA512_hash c) = map_option (apfst SHA512_hash) (av_sha512_final c)"
| "sha512_final h = None"

section \<open>The context\<close>

record AVHMAC =
  hmac_hash :: hash_object
  hmac_blocklen :: nat
  hmac_hashlen :: nat
  hmac_final :: "hash_object \<Rightarrow> (hash_object \<times> u8 list) option"
  hmac_update :: "hash_object \<Rightarrow> u8 list \<Rightarrow> hash_object"
  hmac_init :: "hash_object \<Rightarrow> hash_object"
  hmac_key :: "u8 list"
  hmac_keylen :: nat

definition MAX_BLOCKLEN :: nat where
  "MAX_BLOCKLEN = 128"

text \<open>\<^verbatim>\<open>enum AVHMACType\<close>.\<close>

definition AV_HMAC_MD5 :: int where "AV_HMAC_MD5 = 0"
definition AV_HMAC_SHA1 :: int where "AV_HMAC_SHA1 = 1"
definition AV_HMAC_SHA224 :: int where "AV_HMAC_SHA224 = 2"
definition AV_HMAC_SHA256 :: int where "AV_HMAC_SHA256 = 3"
definition AV_HMAC_SHA384 :: int where "AV_HMAC_SHA384 = 4"
definition AV_HMAC_SHA512 :: int where "AV_HMAC_SHA512 = 5"

lemmas AV_HMAC_defs = AV_HMAC_MD5_def AV_HMAC_SHA1_def AV_HMAC_SHA224_def AV_HMAC_SHA256_def AV_HMAC_SHA384_def AV_HMAC_SHA512_def

text \<open>Contexts fresh from \<^verbatim>\<open>av_mallocz\<close>; the null function pointer is not called before it is set.\<close>

definition av_md5_alloc :: AVMD5 where
  "av_md5_alloc = \<lparr>md5_len = 0, md5_block = replicate 64 0, md5_ABCD = replicate 4 0\<rparr>"

definition av_sha_alloc :: AVSHA where
  "av_sha_alloc = \<lparr>digest_len = 0, hash_count = 0, hash_buffer = replicate 64 0, hash_state = replicate 8 0, transform = \<lambda>state buffer. state\<rparr>"

definition av_sha512_alloc :: AVSHA512 where
  "av_sha512_alloc = \<lparr>digest_len = 0, hash_count = 0, hash_buffer = replicate 128 0, hash_state = replicate 8 0\<rparr>"

text \<open>\<open>m1\<close> and \<open>m2\<close> tell whether the two allocations succeed.\<close>

definition av_hmac_alloc :: "bool \<Rightarrow> bool \<Rightarrow> int \<Rightarrow> AVHMAC option" where
  "av_hmac_alloc m1 m2 type =
     (if \<not> m1 then None
      else let ctx = (\<lambda>B n ini upd fin h. if m2 then Some \<lparr>hmac_hash = h, hmac_blocklen = B, hmac_hashlen = n, hmac_final = fin, hmac_update = upd,
               hmac_init = ini, hmac_key = replicate MAX_BLOCKLEN 0, hmac_keylen = 0\<rparr> else None)
      in if type = AV_HMAC_MD5 then ctx 64 16 md5_init md5_update md5_final (MD5_hash av_md5_alloc)
         else if type = AV_HMAC_SHA1 then ctx 64 20 (sha_bits_init 160) sha_update sha_final (SHA_hash av_sha_alloc)
         else if type = AV_HMAC_SHA224 then ctx 64 28 (sha_bits_init 224) sha_update sha_final (SHA_hash av_sha_alloc)
         else if type = AV_HMAC_SHA256 then ctx 64 32 (sha_bits_init 256) sha_update sha_final (SHA_hash av_sha_alloc)
         else if type = AV_HMAC_SHA384 then ctx 128 48 (sha512_bits_init 384) sha512_update sha512_final (SHA512_hash av_sha512_alloc)
         else if type = AV_HMAC_SHA512 then ctx 128 64 (sha512_bits_init 512) sha512_update sha512_final (SHA512_hash av_sha512_alloc)
         else None)"

text \<open>The array \<^verbatim>\<open>block\<close> of the initialization and of the end, with \<open>x\<close> for \<^verbatim>\<open>0x36\<close> and \<^verbatim>\<open>0x5C\<close>.\<close>

definition hmac_block :: "AVHMAC \<Rightarrow> u8 \<Rightarrow> u8 list" where
  "hmac_block c x = map (\<lambda>i. hmac_key c ! i XOR x) [0..<hmac_keylen c] @ map (\<lambda>i. x) [hmac_keylen c..<hmac_blocklen c]"

definition av_hmac_init :: "AVHMAC \<Rightarrow> u8 list \<Rightarrow> AVHMAC option" where
  "av_hmac_init c key = do {
     c \<leftarrow> (if length key > hmac_blocklen c then do {
         let h = hmac_init c (hmac_hash c);
         let h = hmac_update c h key;
         (h, d) \<leftarrow> hmac_final c h;
         Some (c\<lparr>hmac_hash := h, hmac_key := put_at (hmac_key c) 0 d, hmac_keylen := hmac_hashlen c\<rparr>)
       } else Some (c\<lparr>hmac_key := put_at (hmac_key c) 0 key, hmac_keylen := length key\<rparr>));
     let h = hmac_init c (hmac_hash c);
     let block = hmac_block c 0x36;
     Some (c\<lparr>hmac_hash := hmac_update c h (take (hmac_blocklen c) block)\<rparr>)
   }"

definition av_hmac_update :: "AVHMAC \<Rightarrow> u8 list \<Rightarrow> AVHMAC" where
  "av_hmac_update c data = c\<lparr>hmac_hash := hmac_update c (hmac_hash c) data\<rparr>"

definition av_hmac_final :: "AVHMAC \<Rightarrow> u8 list \<Rightarrow> (int \<times> AVHMAC \<times> u8 list) option" where
  "av_hmac_final c out =
     (if length out < hmac_hashlen c then Some (AVERROR EINVAL, c, out)
      else do {
        (h, d) \<leftarrow> hmac_final c (hmac_hash c);
        let out = put_at out 0 d;
        let h = hmac_init c h;
        let block = hmac_block c 0x5C;
        let h = hmac_update c h (take (hmac_blocklen c) block);
        let h = hmac_update c h (take (hmac_hashlen c) out);
        (h, d) \<leftarrow> hmac_final c h;
        Some (int (hmac_hashlen c), c\<lparr>hmac_hash := h\<rparr>, put_at out 0 d)
      })"

definition av_hmac_calc :: "AVHMAC \<Rightarrow> u8 list \<Rightarrow> u8 list \<Rightarrow> u8 list \<Rightarrow> (int \<times> AVHMAC \<times> u8 list) option" where
  "av_hmac_calc c data key out = do {
     c \<leftarrow> av_hmac_init c key;
     av_hmac_final (av_hmac_update c data) out
   }"

section \<open>The specification\<close>

text \<open>The code of a message under a key, over a digest \<open>H\<close> with blocks of \<open>B\<close> bytes.\<close>

definition hmac_pad :: "(u8 list \<Rightarrow> u8 list) \<Rightarrow> nat \<Rightarrow> u8 list \<Rightarrow> u8 list" where
  "hmac_pad H B key = (let k = (if length key > B then H key else key) in k @ replicate (B - length k) 0)"

definition hmac_code :: "(u8 list \<Rightarrow> u8 list) \<Rightarrow> nat \<Rightarrow> u8 list \<Rightarrow> u8 list \<Rightarrow> u8 list" where
  "hmac_code H B key m = H (map (\<lambda>x. x XOR 0x5C) (hmac_pad H B key) @ H (map (\<lambda>x. x XOR 0x36) (hmac_pad H B key) @ m))"

text \<open>Return value and buffer of the end, for a digest of \<open>n\<close> bytes.\<close>

definition hmac_result :: "(u8 list \<Rightarrow> u8 list) \<Rightarrow> nat \<Rightarrow> nat \<Rightarrow> u8 list \<Rightarrow> u8 list \<Rightarrow> u8 list \<Rightarrow> int \<times> u8 list" where
  "hmac_result H B n key m out = (if length out < n then (AVERROR EINVAL, out) else (int n, put_at out 0 (hmac_code H B key m)))"

text \<open>A context used for one message after the other: key, pieces of the message, buffer for the result.\<close>

fun hmac_session :: "AVHMAC \<Rightarrow> (u8 list \<times> u8 list list \<times> u8 list) list \<Rightarrow> (AVHMAC \<times> (int \<times> u8 list) list) option" where
  "hmac_session c [] = Some (c, [])"
| "hmac_session c ((key, ds, out) # calls) = do {
     c \<leftarrow> av_hmac_init c key;
     (r, c, out) \<leftarrow> av_hmac_final (foldl av_hmac_update c ds) out;
     (c, rs) \<leftarrow> hmac_session c calls;
     Some (c, (r, out) # rs)
   }"

section \<open>The interface of a digest\<close>

locale message_digest =
  fixes ini :: "'h \<Rightarrow> 'h" and upd :: "'h \<Rightarrow> u8 list \<Rightarrow> 'h" and fin :: "'h \<Rightarrow> ('h \<times> u8 list) option" and ok :: "'h \<Rightarrow> bool"
    and H :: "u8 list \<Rightarrow> u8 list" and n :: nat
  assumes keeps_ok: "ok h \<Longrightarrow> ok (ini h)" "ok h \<Longrightarrow> ok (upd h d)"
    and digest: "ok h \<Longrightarrow> \<exists>h'. ok h' \<and> fin (foldl upd (ini h) ds) = Some (h', H (concat ds))"
    and digest_size: "length (H m) = n"

definition hmac_over :: "(hash_object \<Rightarrow> hash_object) \<Rightarrow> (hash_object \<Rightarrow> u8 list \<Rightarrow> hash_object) \<Rightarrow> (hash_object \<Rightarrow> (hash_object \<times> u8 list) option) \<Rightarrow>
    (hash_object \<Rightarrow> bool) \<Rightarrow> nat \<Rightarrow> nat \<Rightarrow> AVHMAC \<Rightarrow> bool" where
  "hmac_over ini upd fin ok B n c \<longleftrightarrow> hmac_init c = ini \<and> hmac_update c = upd \<and> hmac_final c = fin \<and> ok (hmac_hash c) \<and>
     hmac_blocklen c = B \<and> hmac_hashlen c = n \<and> length (hmac_key c) = MAX_BLOCKLEN"

text \<open>The key that the context keeps, and the blocks made of it.\<close>

definition hmac_keeps :: "u8 list \<Rightarrow> AVHMAC \<Rightarrow> bool" where
  "hmac_keeps k c \<longleftrightarrow> hmac_keylen c = length k \<and> take (length k) (hmac_key c) = k \<and> length k \<le> hmac_blocklen c"

lemma hmac_block_pad:
  assumes "hmac_keeps k c"
  shows "take (hmac_blocklen c) (hmac_block c x) = map (\<lambda>y. y XOR x) (k @ replicate (hmac_blocklen c - length k) 0)"
proof -
  have "map (\<lambda>i. hmac_key c ! i XOR x) [0..<length k] = map (\<lambda>y. y XOR x) (map (\<lambda>i. take (length k) (hmac_key c) ! i) [0..<length k])" by simp
  also have "\<dots> = map (\<lambda>y. y XOR x) k" using assms by (simp only: hmac_keeps_def map_nth)
  finally show ?thesis using assms by (simp add: hmac_keeps_def hmac_block_def map_replicate_const)
qed

lemma hmac_updates: "foldl av_hmac_update c ds = c\<lparr>hmac_hash := foldl (hmac_update c) (hmac_hash c) ds\<rparr>"
  by (induction ds arbitrary: c) (simp_all add: av_hmac_update_def)

locale hmac_digest = message_digest ini upd fin ok H n
  for ini :: "hash_object \<Rightarrow> hash_object" and upd fin ok H n +
  fixes B :: nat
  assumes sizes: "n \<le> B" "B \<le> MAX_BLOCKLEN"
begin

lemma updates_ok: "ok h \<Longrightarrow> ok (foldl upd h ds)"
  by (induction ds arbitrary: h) (simp_all add: keeps_ok)

text \<open>A long key is replaced by its digest; then the hash has seen the first block.\<close>

lemma init_ready:
  assumes "hmac_over ini upd fin ok B n c"
  obtains c1 k h where "av_hmac_init c key = Some c1" "hmac_over ini upd fin ok B n c1" "hmac_keeps k c1" "hmac_pad H B key = k @ replicate (B - length k) 0"
    "ok h" "hmac_hash c1 = upd (ini h) (map (\<lambda>y. y XOR 0x36) (hmac_pad H B key))"
proof -
  define k where "k = (if length key > B then H key else key)"
  have k: "length k \<le> B" "hmac_pad H B key = k @ replicate (B - length k) 0" using sizes by (simp_all add: k_def digest_size hmac_pad_def)
  obtain h where h: "ok h" "fin (upd (ini (hmac_hash c)) key) = Some (h, H key)"
    using digest [of "hmac_hash c" "[key]"] assms by (auto simp: hmac_over_def)
  define g where "g = (if length key > B then h else hmac_hash c)"
  define c0 where "c0 = c\<lparr>hmac_hash := g, hmac_key := put_at (hmac_key c) 0 k, hmac_keylen := length k\<rparr>"
  have g: "ok g" using h assms by (simp add: g_def hmac_over_def)
  have c0: "hmac_keeps k c0" "hmac_over ini upd fin ok B n c0"
    using assms k(1) g sizes by (simp_all add: c0_def hmac_keeps_def hmac_over_def put_at_def)
  define c1 where "c1 = c0\<lparr>hmac_hash := upd (ini g) (take B (hmac_block c0 0x36))\<rparr>"
  have "av_hmac_init c key = Some c1"
    using assms h(2) by (auto simp: av_hmac_init_def hmac_over_def c1_def c0_def g_def k_def digest_size)
  moreover have "hmac_keeps k c1" "hmac_over ini upd fin ok B n c1" using c0 g keeps_ok by (simp_all add: c1_def hmac_keeps_def hmac_over_def)
  moreover have "hmac_hash c1 = upd (ini g) (map (\<lambda>y. y XOR 0x36) (hmac_pad H B key))"
    using hmac_block_pad [OF c0(1)] c0(2) k(2) by (simp add: c1_def hmac_over_def)
  ultimately show ?thesis using that k(2) g by blast
qed

text \<open>The end: the digest of what came so far, under the key once more, unless the buffer is too small.\<close>

lemma final_result:
  assumes "hmac_over ini upd fin ok B n c" "hmac_keeps k c" "ok h" "hmac_hash c = foldl upd (ini h) ds"
  obtains c' where "hmac_over ini upd fin ok B n c'"
    "av_hmac_final c out = (if length out < n then Some (AVERROR EINVAL, c', out)
      else Some (int n, c', put_at out 0 (H (map (\<lambda>y. y XOR 0x5C) (k @ replicate (B - length k) 0) @ H (concat ds)))))"
proof (cases "length out < n")
  case True
  then show ?thesis using assms(1) that [of c] by (simp add: av_hmac_final_def hmac_over_def)
next
  case False
  obtain h1 where h1: "ok h1" "fin (hmac_hash c) = Some (h1, H (concat ds))" using digest [OF assms(3), of ds] assms(4) by auto
  have o: "take n (put_at out 0 (H m)) = H m" "put_at (put_at out 0 (H m)) 0 (H m') = put_at out 0 (H m')" for m m'
    using digest_size [of m] digest_size [of m'] by (simp_all add: put_at_def)
  define p where "p = map (\<lambda>y. y XOR 0x5C) (k @ replicate (B - length k) 0)"
  have p: "take B (hmac_block c 0x5C) = p" using hmac_block_pad [OF assms(2), of "0x5C"] assms(1) by (simp add: p_def hmac_over_def)
  obtain h2 where h2: "ok h2" "fin (upd (upd (ini h1) p) (H (concat ds))) = Some (h2, H (p @ H (concat ds)))"
    using digest [OF h1(1), of "[p, H (concat ds)]"] by auto
  have "av_hmac_final c out = Some (int n, c\<lparr>hmac_hash := h2\<rparr>, put_at out 0 (H (p @ H (concat ds))))"
    using False assms(1) h1(2) h2(2) p o by (simp add: av_hmac_final_def hmac_over_def Let_def)
  moreover have "hmac_over ini upd fin ok B n (c\<lparr>hmac_hash := h2\<rparr>)" using assms(1) h2(1) by (simp add: hmac_over_def)
  ultimately show ?thesis using False that by (simp add: p_def)
qed

lemma one_message:
  assumes "hmac_over ini upd fin ok B n c"
  obtains c1 c' where "av_hmac_init c key = Some c1" "hmac_over ini upd fin ok B n c'"
    "av_hmac_final (foldl av_hmac_update c1 ds) out = Some (fst (hmac_result H B n key (concat ds) out), c', snd (hmac_result H B n key (concat ds) out))"
proof -
  obtain c1 k h where c1: "av_hmac_init c key = Some c1" "hmac_over ini upd fin ok B n c1" "hmac_keeps k c1" "hmac_pad H B key = k @ replicate (B - length k) 0"
    "ok h" "hmac_hash c1 = upd (ini h) (map (\<lambda>y. y XOR 0x36) (hmac_pad H B key))" by (rule init_ready [OF assms])
  have u: "foldl av_hmac_update c1 ds = c1\<lparr>hmac_hash := foldl upd (hmac_hash c1) ds\<rparr>" using c1(2) by (simp add: hmac_updates hmac_over_def)
  have o: "hmac_over ini upd fin ok B n (foldl av_hmac_update c1 ds)" "hmac_keeps k (foldl av_hmac_update c1 ds)"
    using c1(2,3) updates_ok unfolding u by (simp_all add: hmac_over_def hmac_keeps_def)
  have "hmac_hash (foldl av_hmac_update c1 ds) = foldl upd (ini h) (map (\<lambda>y. y XOR 0x36) (hmac_pad H B key) # ds)" unfolding u by (simp add: c1(6))
  note f = final_result [OF o c1(5) this, of out]
  show ?thesis
  proof (rule f)
    fix c'
    assume o': "hmac_over ini upd fin ok B n c'"
      and "av_hmac_final (foldl av_hmac_update c1 ds) out = (if length out < n then Some (AVERROR EINVAL, c', out)
        else Some (int n, c', put_at out 0 (H (map (\<lambda>y. y XOR 0x5C) (k @ replicate (B - length k) 0) @ H (concat (map (\<lambda>y. y XOR 0x36) (hmac_pad H B key) # ds))))))"
    then have "av_hmac_final (foldl av_hmac_update c1 ds) out = Some (fst (hmac_result H B n key (concat ds) out), c', snd (hmac_result H B n key (concat ds) out))"
      by (simp add: hmac_result_def hmac_code_def c1(4))
    then show ?thesis by (rule that [OF c1(1) o'])
  qed
qed

lemma messages:
  "hmac_over ini upd fin ok B n c \<Longrightarrow> \<exists>c'. hmac_session c calls = Some (c', map (\<lambda>(key, ds, out). hmac_result H B n key (concat ds) out) calls)"
proof (induction calls arbitrary: c)
  case (Cons call calls)
  obtain key ds out where call: "call = (key, ds, out)" by (cases call) auto
  obtain c1 c' where c': "av_hmac_init c key = Some c1" "hmac_over ini upd fin ok B n c'"
    "av_hmac_final (foldl av_hmac_update c1 ds) out = Some (fst (hmac_result H B n key (concat ds) out), c', snd (hmac_result H B n key (concat ds) out))"
    by (rule one_message [OF Cons.prems])
  then show ?case using Cons.IH [OF c'(2)] by (auto simp: call)
qed simp

end

section \<open>The six digests\<close>

lemma hash_pad_keeps:
  assumes "\<And>c. P c \<Longrightarrow> P (upd c [0])" "P c" "hash_pad B t cnt upd c = Some c'"
  shows "P c'"
  using while_option_rule [where P = P, OF _ assms(3) [unfolded hash_pad_def] assms(2)] assms(1) by blast

lemma hash_update_keeps:
  assumes "length (hash_buffer c) = B" "0 < B" "length (hash_state c) = N" "\<And>s b. length s = N \<Longrightarrow> length (f s b) = N"
  shows "length (hash_buffer (hash_update B f c d)) = B" "length (hash_state (hash_update B f c d)) = N"
proof -
  have "length s = N \<Longrightarrow> length (hash_blocks B f s src k) = N" for s src k by (induction k) (simp_all add: hash_blocks_def assms(4))
  then show "length (hash_state (hash_update B f c d)) = N" using assms by (simp add: hash_update_def Let_def)
  define j where "j = unat (hash_count c) mod B"
  define y where "y = drop (B - j) d"
  have j: "j < B" using assms(2) by (simp add: j_def)
  have y: "length (drop (B * (length y div B)) y) < B" using assms(2) by (simp add: minus_mult_div_eq_mod)
  show "length (hash_buffer (hash_update B f c d)) = B"
  proof (cases "B - j \<le> length d")
    case True
    have "hash_buffer (hash_update B f c d) = put_at (put_at (hash_buffer c) j (take (B - j) d)) 0 (drop (B * (length y div B)) y)"
      unfolding hash_update_def Let_def j_def [symmetric] using True by (simp add: y_def)
    moreover have "length (put_at (hash_buffer c) j (take (B - j) d)) = B" using assms(1) j by (simp add: length_put_at)
    ultimately show ?thesis using y by (simp only: length_put_at add_0 less_imp_le)
  next
    case False
    then show ?thesis unfolding hash_update_def Let_def j_def [symmetric] using assms(1) by (simp add: length_put_at)
  qed
qed

lemma word_bytes_length: "length (concat (map AV_WL32 ws)) = 4 * length ws" "length (concat (map AV_WB32 ws)) = 4 * length ws"
  "length (concat (map AV_WB64 vs)) = 8 * length vs"
  by (induction ws; simp add: AV_WL32_def AV_WB32_def)+ (induction vs; simp add: AV_WB64_def)

lemma length_md5_digest: "length (md5_digest m) = 16"
proof -
  have "length (absorb 64 md5_compress [0x10325476, 0x98BADCFE, 0xEFCDAB89, 0x67452301] x) = 4" for x
    using absorb_project [of "\<lambda>s. length s = 4" md5_compress "\<lambda>s. s" md5_compress] by (simp add: md5_block_with_def split: prod.splits)
  then show ?thesis by (simp add: md5_digest_def word_bytes_length)
qed

lemma length_sha_digest:
  assumes "bits \<in> {160, 224, 256}"
  shows "length (sha_digest bits m) = nat (bits div 8)"
proof -
  have "length (absorb 64 sha1_transform s x) = 5" if "length s = 5" for s x
    using absorb_project [of "\<lambda>s. length s = 5" sha1_transform "\<lambda>s. s" sha1_transform s] that sha1_take by simp
  moreover have "length (absorb 64 sha256_transform s x) = 8" if "length s = 8" for s x
    using absorb_project [of "\<lambda>s. length s = 8" sha256_transform "\<lambda>s. s" sha256_transform s] that sha256_length by simp
  ultimately show ?thesis using assms by (auto simp: sha_digest_def word_bytes_length sha_compress_def length_sha_iv)
qed

lemma length_sha512_digest:
  assumes "bits \<in> {224, 256, 384, 512}"
  shows "length (sha512_digest bits m) = nat (bits div 8)"
proof -
  have "length (sha512_iv bits) = 8" by (simp add: sha512_iv_def)
  then show ?thesis using assms by (auto simp: sha512_digest_def word_bytes_length sha512_state_length)
qed

lemma map_option_apfst: "map_option (apfst f) x = Some (h, d) \<longleftrightarrow> (\<exists>c. x = Some (c, d) \<and> h = f c)"
  by (cases x) (auto simp: apfst_def map_prod_def)

text \<open>MD5.\<close>

fun md5_ok :: "hash_object \<Rightarrow> bool" where
  "md5_ok (MD5_hash c) \<longleftrightarrow> length (md5_block c) = 64"
| "md5_ok h \<longleftrightarrow> False"

lemma md5_update_length: "length (md5_block c) = 64 \<Longrightarrow> length (md5_block (av_md5_update c d)) = 64"
proof -
  have b: "length (md5_block c) = 64 \<Longrightarrow> length (md5_block (md5_update_blocks c src)) = 64" for c src
  proof -
    have "length (drop (64 * (length src div 64)) src) < 64" by (simp add: minus_mult_div_eq_mod)
    then show "length (md5_block c) = 64 \<Longrightarrow> ?thesis" by (simp add: md5_update_blocks_def Let_def length_put_at)
  qed
  have "j < 64 \<Longrightarrow> j + length (take (min (length d) (64 - j)) d) \<le> 64" for j by simp
  moreover have "unat (md5_len c) mod 64 < 64" by simp
  ultimately show "length (md5_block c) = 64 \<Longrightarrow> ?thesis" unfolding av_md5_update_def Let_def by (auto intro!: b simp: length_put_at)
qed

lemma av_md5_final_length:
  assumes "av_md5_final c = Some (c1, d)" "length (md5_block c) = 64"
  shows "length (md5_block c1) = 64"
proof -
  obtain c2 where c2: "hash_pad 64 56 md5_len av_md5_update (av_md5_update c [0x80]) = Some c2"
    "c1 = av_md5_update c2 (AV_WL64 (push_bit 3 (md5_len c)))"
    using assms(1) unfolding av_md5_final_def Let_def bind_eq_Some_conv option.inject prod.inject by metis
  have "length (md5_block c2) = 64"
    by (rule hash_pad_keeps [where P = "\<lambda>c. length (md5_block c) = 64", OF md5_update_length _ c2(1)]) (simp_all add: md5_update_length assms(2))
  then show ?thesis unfolding c2(2) by (rule md5_update_length)
qed

interpretation digest_md5: message_digest md5_init md5_update md5_final md5_ok md5_digest 16
proof unfold_locales
  fix h d
  show "md5_ok h \<Longrightarrow> md5_ok (md5_init h)" by (cases h) (simp_all add: av_md5_init_def)
  show "md5_ok h \<Longrightarrow> md5_ok (md5_update h d)" by (cases h) (simp_all add: md5_update_length)
next
  fix h ds
  assume "md5_ok h"
  then obtain c where c: "h = MD5_hash c" "length (md5_block c) = 64" by (cases h) auto
  have f: "foldl md5_update (md5_init h) ds = MD5_hash (foldl av_md5_update (av_md5_init c) ds)"
    unfolding c(1) md5_init.simps by (induction ds rule: rev_induct) simp_all
  obtain c1 where c1: "av_md5_final (foldl av_md5_update (av_md5_init c) ds) = Some (c1, md5_digest (concat ds))" using md5_stream [OF c(2)] by blast
  have l: "length (md5_block (foldl av_md5_update (av_md5_init c) ds)) = 64"
    by (induction ds rule: rev_induct) (simp_all add: c(2) av_md5_init_def md5_update_length)
  have "length (md5_block c1) = 64" by (rule av_md5_final_length [OF c1 l])
  then show "\<exists>h'. md5_ok h' \<and> md5_final (foldl md5_update (md5_init h) ds) = Some (h', md5_digest (concat ds))"
    unfolding f by (intro exI [of _ "MD5_hash c1"]) (simp add: c1)
next
  show "length (md5_digest m) = 16" for m
    using length_md5_digest .
qed

interpretation hmac_md5: hmac_digest md5_init md5_update md5_final md5_ok md5_digest 16 64
  by unfold_locales (simp_all add: MAX_BLOCKLEN_def)

text \<open>SHA-1 and SHA-2 with words of 32 bits.\<close>

fun sha_ok :: "hash_object \<Rightarrow> bool" where
  "sha_ok (SHA_hash c) \<longleftrightarrow> length (hash_buffer c) = 64 \<and> length (hash_state c) = 8 \<and> (\<forall>s b. length s = 8 \<longrightarrow> length (transform c s b) = 8)"
| "sha_ok h \<longleftrightarrow> False"

lemma sha_ok_update: "sha_ok (SHA_hash c) \<Longrightarrow> sha_ok (SHA_hash (av_sha_update c d))"
  using hash_update_keeps [of c 64 8 "transform c" d] by (simp add: av_sha_update_def) (simp add: hash_update_def Let_def)

lemma sha_ok_init: "sha_ok (SHA_hash c) \<Longrightarrow> sha_ok (SHA_hash (snd (av_sha_init c bits)))"
  using sha1_take sha256_length by (simp add: av_sha_init_def Let_def length_put_at)

lemma sha_ok_final:
  assumes "av_sha_final c = Some (c1, d)" "sha_ok (SHA_hash c)"
  shows "sha_ok (SHA_hash c1)"
proof -
  obtain c2 where c2: "hash_pad 64 56 hash_count av_sha_update (av_sha_update c [0x80]) = Some c2"
    "c1 = av_sha_update c2 (AV_WB64 (push_bit 3 (hash_count c)))"
    using assms(1) unfolding av_sha_final_def Let_def bind_eq_Some_conv option.inject prod.inject by metis
  have "sha_ok (SHA_hash c2)"
    by (rule hash_pad_keeps [where P = "\<lambda>c. sha_ok (SHA_hash c)", OF sha_ok_update _ c2(1)]) (simp_all only: sha_ok_update assms(2))
  then show ?thesis unfolding c2(2) by (rule sha_ok_update)
qed

lemma hmac_sha:
  assumes "bits \<in> {160, 224, 256}"
  shows "hmac_digest (sha_bits_init bits) sha_update sha_final sha_ok (sha_digest bits) (nat (bits div 8)) 64"
proof unfold_locales
  fix h d
  show "sha_ok h \<Longrightarrow> sha_ok (sha_bits_init bits h)" by (cases h) (simp_all del: sha_ok.simps(1) add: sha_ok_init)
  show "sha_ok h \<Longrightarrow> sha_ok (sha_update h d)" by (cases h) (simp_all del: sha_ok.simps(1) add: sha_ok_update)
next
  fix h ds
  assume ok: "sha_ok h"
  then obtain c where c: "h = SHA_hash c" by (cases h) auto
  obtain c0 c1 where c1: "av_sha_init c bits = (0, c0)" "av_sha_final (foldl av_sha_update c0 ds) = Some (c1, sha_digest bits (concat ds))"
    using sha_stream [OF assms, of c ds] ok c by auto
  have f: "foldl sha_update (sha_bits_init bits h) ds = SHA_hash (foldl av_sha_update c0 ds)"
    by (induction ds rule: rev_induct) (simp_all add: c c1(1))
  have "sha_ok (SHA_hash (foldl av_sha_update c0 ds))"
    using sha_ok_init [OF ok [unfolded c], of bits] by (induction ds rule: rev_induct) (simp_all del: sha_ok.simps add: c1(1) sha_ok_update)
  then show "\<exists>h'. sha_ok h' \<and> sha_final (foldl sha_update (sha_bits_init bits h) ds) = Some (h', sha_digest bits (concat ds))"
    unfolding f using sha_ok_final [OF c1(2)] by (intro exI [of _ "SHA_hash c1"]) (simp add: c1)
next
  show "length (sha_digest bits m) = nat (bits div 8)" for m by (rule length_sha_digest [OF assms])
qed (use assms in \<open>auto simp: MAX_BLOCKLEN_def\<close>)

interpretation hmac_sha1: hmac_digest "sha_bits_init 160" sha_update sha_final sha_ok "sha_digest 160" 20 64
  using hmac_sha [of 160] by simp

interpretation hmac_sha224: hmac_digest "sha_bits_init 224" sha_update sha_final sha_ok "sha_digest 224" 28 64
  using hmac_sha [of 224] by simp

interpretation hmac_sha256: hmac_digest "sha_bits_init 256" sha_update sha_final sha_ok "sha_digest 256" 32 64
  using hmac_sha [of 256] by simp

text \<open>SHA-2 with words of 64 bits.\<close>

fun sha512_ok :: "hash_object \<Rightarrow> bool" where
  "sha512_ok (SHA512_hash c) \<longleftrightarrow> length (hash_buffer c) = 128 \<and> length (hash_state c) = 8"
| "sha512_ok h \<longleftrightarrow> False"

lemma sha512_ok_update: "sha512_ok (SHA512_hash c) \<Longrightarrow> sha512_ok (SHA512_hash (av_sha512_update c d))"
  using hash_update_keeps [of c 128 8 sha512_transform d] by (simp add: av_sha512_update_def sha512_length)

lemma sha512_ok_init: "sha512_ok (SHA512_hash c) \<Longrightarrow> sha512_ok (SHA512_hash (snd (av_sha512_init c bits)))"
  by (simp add: av_sha512_init_def Let_def length_put_at)

lemma sha512_ok_final:
  assumes "av_sha512_final c = Some (c1, d)" "sha512_ok (SHA512_hash c)"
  shows "sha512_ok (SHA512_hash c1)"
proof -
  obtain c2 where c2: "hash_pad 128 112 hash_count av_sha512_update (av_sha512_update c [0x80]) = Some c2"
    "c1 = av_sha512_update (av_sha512_update c2 (AV_WB64 0)) (AV_WB64 (push_bit 3 (hash_count c)))"
    using assms(1) unfolding av_sha512_final_def Let_def bind_eq_Some_conv option.inject prod.inject by metis
  have "sha512_ok (SHA512_hash c2)"
    by (rule hash_pad_keeps [where P = "\<lambda>c. sha512_ok (SHA512_hash c)", OF sha512_ok_update _ c2(1)]) (simp_all only: sha512_ok_update assms(2))
  then show ?thesis unfolding c2(2) by (intro sha512_ok_update)
qed

lemma hmac_sha512:
  assumes "bits \<in> {224, 256, 384, 512}"
  shows "hmac_digest (sha512_bits_init bits) sha512_update sha512_final sha512_ok (sha512_digest bits) (nat (bits div 8)) 128"
proof unfold_locales
  fix h d
  show "sha512_ok h \<Longrightarrow> sha512_ok (sha512_bits_init bits h)" by (cases h) (simp_all del: sha512_ok.simps(1) add: sha512_ok_init)
  show "sha512_ok h \<Longrightarrow> sha512_ok (sha512_update h d)" by (cases h) (simp_all del: sha512_ok.simps(1) add: sha512_ok_update)
next
  fix h ds
  assume ok: "sha512_ok h"
  then obtain c where c: "h = SHA512_hash c" by (cases h) auto
  obtain c0 c1 where c1: "av_sha512_init c bits = (0, c0)" "av_sha512_final (foldl av_sha512_update c0 ds) = Some (c1, sha512_digest bits (concat ds))"
    using sha512_stream [OF assms, of c ds] ok c by auto
  have f: "foldl sha512_update (sha512_bits_init bits h) ds = SHA512_hash (foldl av_sha512_update c0 ds)"
    by (induction ds rule: rev_induct) (simp_all add: c c1(1))
  have "sha512_ok (SHA512_hash (foldl av_sha512_update c0 ds))"
    using sha512_ok_init [OF ok [unfolded c], of bits] by (induction ds rule: rev_induct) (simp_all del: sha512_ok.simps add: c1(1) sha512_ok_update)
  then show "\<exists>h'. sha512_ok h' \<and> sha512_final (foldl sha512_update (sha512_bits_init bits h) ds) = Some (h', sha512_digest bits (concat ds))"
    unfolding f using sha512_ok_final [OF c1(2)] by (intro exI [of _ "SHA512_hash c1"]) (simp add: c1)
next
  show "length (sha512_digest bits m) = nat (bits div 8)" for m by (rule length_sha512_digest [OF assms])
qed (use assms in \<open>auto simp: MAX_BLOCKLEN_def\<close>)

interpretation hmac_sha384: hmac_digest "sha512_bits_init 384" sha512_update sha512_final sha512_ok "sha512_digest 384" 48 128
  using hmac_sha512 [of 384] by simp

interpretation hmac_sha512_full: hmac_digest "sha512_bits_init 512" sha512_update sha512_final sha512_ok "sha512_digest 512" 64 128
  using hmac_sha512 [of 512] by simp

section \<open>Authentication codes\<close>

text \<open>The digest, its block and its size, for each type.\<close>

definition hmac_of_type :: "int \<Rightarrow> (u8 list \<Rightarrow> u8 list) \<times> nat \<times> nat" where
  "hmac_of_type type =
     (if type = AV_HMAC_MD5 then (md5_digest, 64, 16) else if type = AV_HMAC_SHA1 then (sha_digest 160, 64, 20)
      else if type = AV_HMAC_SHA224 then (sha_digest 224, 64, 28) else if type = AV_HMAC_SHA256 then (sha_digest 256, 64, 32)
      else if type = AV_HMAC_SHA384 then (sha512_digest 384, 128, 48) else (sha512_digest 512, 128, 64))"

text \<open>What holds for a context of any type: one call of \<^verbatim>\<open>av_hmac_calc\<close>, and any number of messages.\<close>

definition hmac_works :: "(u8 list \<Rightarrow> u8 list) \<times> nat \<times> nat \<Rightarrow> AVHMAC \<Rightarrow> bool" where
  "hmac_works = (\<lambda>(H, B, n) c. \<forall>calls. \<exists>c'. hmac_session c calls = Some (c', map (\<lambda>(key, ds, out). hmac_result H B n key (concat ds) out) calls))"

lemma hmac_works_calc:
  assumes "hmac_works (H, B, n) c"
  shows "map_option (\<lambda>(r, c, out). (r, out)) (av_hmac_calc c data key out) = Some (hmac_result H B n key data out)"
proof -
  obtain c' where "hmac_session c [(key, [data], out)] = Some (c', [hmac_result H B n key data out])"
    using assms [unfolded hmac_works_def prod.case, rule_format, of "[(key, [data], out)]"] by auto
  then show ?thesis by (cases "av_hmac_init c key") (auto simp: av_hmac_calc_def bind_eq_Some_conv)
qed

lemma av_hmac_alloc_works:
  assumes "av_hmac_alloc m1 m2 type = Some c"
  shows "hmac_works (hmac_of_type type) c"
proof -
  have z: "md5_ok (MD5_hash av_md5_alloc)" "sha_ok (SHA_hash av_sha_alloc)" "sha512_ok (SHA512_hash av_sha512_alloc)"
    by (simp_all add: av_md5_alloc_def av_sha_alloc_def av_sha512_alloc_def)
  note w = hmac_md5.messages hmac_sha1.messages hmac_sha224.messages hmac_sha256.messages hmac_sha384.messages hmac_sha512_full.messages
  show ?thesis using assms unfolding av_hmac_alloc_def hmac_of_type_def hmac_works_def Let_def
    by (auto split: if_splits intro!: w simp: hmac_over_def z simp del: md5_ok.simps sha_ok.simps sha512_ok.simps)
qed

text \<open>
  C12: \<^verbatim>\<open>av_hmac_alloc\<close> gives a context exactly when both allocations succeed and the type is one of the six. From then on, however many
  messages a context is used for, and whether some of them failed, \<^verbatim>\<open>av_hmac_init\<close>, \<^verbatim>\<open>av_hmac_update\<close> with the message in any pieces
  and \<^verbatim>\<open>av_hmac_final\<close> write the authentication code of the message under the key, over the digest of the type, keys longer than a
  block included; a buffer that is too small is refused and left alone. \<^verbatim>\<open>av_hmac_calc\<close> is the same at once.
\<close>

theorem av_hmac_correct:
  assumes "hmac_of_type type = (H, B, n)"
  shows "if m1 \<and> m2 \<and> type \<in> {0..5}
    then \<exists>c. av_hmac_alloc m1 m2 type = Some c \<and>
      (\<exists>c'. hmac_session c calls = Some (c', map (\<lambda>(key, ds, out). hmac_result H B n key (concat ds) out) calls)) \<and>
      map_option (\<lambda>(r, c, out). (r, out)) (av_hmac_calc c data key out) = Some (hmac_result H B n key data out)
    else av_hmac_alloc m1 m2 type = None"
proof (cases "m1 \<and> m2 \<and> type \<in> {0..5}")
  case True
  then have "type = 0 \<or> type = 1 \<or> type = 2 \<or> type = 3 \<or> type = 4 \<or> type = 5" by auto
  then obtain c where c: "av_hmac_alloc m1 m2 type = Some c" using True by (auto simp: av_hmac_alloc_def AV_HMAC_defs Let_def)
  note w = av_hmac_alloc_works [OF this, unfolded assms]
  show ?thesis using True c hmac_works_calc [OF w] w by (auto simp: hmac_works_def)
qed (auto simp: av_hmac_alloc_def AV_HMAC_defs)

theorem av_hmac_correct_witness:
  "if True \<and> True \<and> 3 \<in> {0..5 :: int}
    then \<exists>c. av_hmac_alloc True True 3 = Some c \<and>
      (\<exists>c'. hmac_session c [([1, 2], [[97], [98]], replicate 32 0)] = Some (c',
        map (\<lambda>(key, ds, out). hmac_result (sha_digest 256) 64 32 key (concat ds) out) [([1, 2], [[97], [98]], replicate 32 0)])) \<and>
      map_option (\<lambda>(r, c, out). (r, out)) (av_hmac_calc c [97] [1] []) = Some (hmac_result (sha_digest 256) 64 32 [1] [97] [])
    else av_hmac_alloc True True 3 = None"
  by (rule av_hmac_correct) (simp add: hmac_of_type_def AV_HMAC_defs)

end
