(* ===== verification/Spec2Isabelle.thy ===== *)
theory Spec2Isabelle
  imports AV_Intmath AV_Mathematics AV_Rational AV_Timestamps AV_SampleFmt AV_Mem AV_Fifo AV_Refstruct AV_ContainerFifo AV_ThreadMessage AV_ThreadQueue AV_SyncQueueTrace AV_Bytes AV_Bits AV_PutBits AV_GetBits AV_BlockCipher AV_Tea AV_Blowfish AV_Cast5 AV_Des AV_Block128 AV_Camellia AV_Twofish AV_Rc4 AV_BitCode AV_Golomb AV_GolombCodes AV_Digest AV_Sha AV_Sha512 AV_Md5 AV_Ripemd AV_HashConstants AV_Hmac
begin

text \<open>
  A verification library for jellyfin-ffmpeg. The program reads, transforms and writes multimedia: \<^verbatim>\<open>libavformat\<close> splits
  containers into packets, \<^verbatim>\<open>libavcodec\<close> turns packets into frames and back, \<^verbatim>\<open>libavfilter\<close>, \<^verbatim>\<open>libswscale\<close> and \<^verbatim>\<open>libswresample\<close>
  transform frames, and the \<^verbatim>\<open>ffmpeg\<close> tool under \<^verbatim>\<open>fftools\<close> connects them into a pipeline of threads. All of them stand on
  \<^verbatim>\<open>libavutil\<close>: exact time arithmetic, FIFOs, reference-counted pools, message queues, sample buffers, ciphers and hashes.
  This development models that common ground bottom up, the queues of the transcoding pipeline built on it, and the bit
  stream input and output every codec uses.

  The conventions are in \<open>AV_Prelude\<close>: a signed C integer is an \<open>int\<close> in its range, and every operation that may leave it is
  wrapped by \<open>s32\<close> or \<open>s64\<close>; an unsigned integer on which the code relies on wrap-around or on bits is a word; an index or
  size that the code keeps in range is a \<open>nat\<close>, with the invariant that justifies it proved. A struct is a record with the
  names of its fields, an error code is the value of \<^verbatim>\<open>AVERROR\<close>, and \<open>None\<close> is a failed assertion (\<^verbatim>\<open>av_assert0\<close>, which
  every build has), an access outside of a buffer, or a loop that does not end. \<^verbatim>\<open>av_assert2\<close> is compiled only with
  \<^verbatim>\<open>--assert-level=2\<close> and is not part of the definitions; the conditions \<^verbatim>\<open>put_bits\<close> checks with it are \<open>put_bits_assert\<close> and
  \<open>put_bits63_assert\<close>, which \<open>AV_GolombCodes\<close> proves of the calls that write its codes. What the code does not control (the allocator, callbacks, the calls into
  \<^verbatim>\<open>frame.c\<close>) is an argument.
\<close>

section \<open>Arithmetic\<close>

text \<open>
  \<open>AV_Intmath\<close> models the portable versions of \<^verbatim>\<open>libavutil/intmath.h\<close>, \<^verbatim>\<open>log2_tab.c\<close> and the integer helpers of \<^verbatim>\<open>common.h\<close>:
  logarithms and trailing zeros by table, clipping, and saturating arithmetic, each against its arithmetic meaning.
  \<open>AV_Mathematics\<close> (\<^verbatim>\<open>libavutil/mathematics.c\<close>) has the binary gcd and \<^verbatim>\<open>av_rescale_rnd\<close>, whose last case is a long division of a
  128-bit product in 64 steps; the theorem says that every rounding mode gives the exact quotient so rounded.
  \<open>AV_Rational\<close> (\<^verbatim>\<open>rational.c\<close>) has the fractions; \<^verbatim>\<open>av_reduce\<close> is proved to give the best approximation within the bound by an
  invariant on its continued fraction, so a coarser result cannot be better. \<open>AV_Timestamps\<close> (the rest of \<^verbatim>\<open>mathematics.c\<close>) has the
  comparison of timestamps across time bases and the two accumulators: \<^verbatim>\<open>av_rescale_delta\<close>, whose result is given in every case
  and whose position stays within half an input tick and a sample, and \<^verbatim>\<open>av_add_stable\<close>, which does not drift for steps of at least
  one unit and never moves for smaller ones. \<open>AV_SampleFmt\<close> (\<^verbatim>\<open>samplefmt.c\<close>) has the formats of audio samples and the layout, copy and silencing of their buffers over a
  map from addresses to bytes.
\<close>

section \<open>Queues and pools\<close>

text \<open>
  \<open>AV_Mem\<close> (\<^verbatim>\<open>mem.c\<close>) has the overflow-checked size product. \<open>AV_Fifo\<close> (\<^verbatim>\<open>fifo.c\<close>) models the ring buffer with its growth; the
  invariant \<open>fifo_inv\<close> relates offsets and contents, the locale \<open>fifo_contract\<close> states what a client may rely on, and the ring buffer
  is its interpretation \<open>avf\<close>: every history of operations behaves as a list. \<open>AV_Refstruct\<close> (\<^verbatim>\<open>refstruct.c\<close>) is the pool of
  reference-counted entries: no entry is handed out twice, used after it was returned, or leaked, and each callback that
  disposes of an entry or of the pool is made once. \<open>AV_ContainerFifo\<close>
  (\<^verbatim>\<open>container_fifo.c\<close>) composes the two into the FIFO of frames and packets, the interpretation \<open>cfq\<close> of the locale
  \<open>container_queue\<close>.

  \<open>AV_ThreadMessage\<close> (\<^verbatim>\<open>threadmessage.c\<close>) and \<open>AV_ThreadQueue\<close> (\<^verbatim>\<open>fftools/thread_queue.c\<close>) are the queues between threads: an operation
  is one step under the mutex, and sleeping and waking on the condition variables are step relations (\<open>mq_step\<close>, \<open>tq_step\<close>).
  By induction over the steps: messages arrive in order, none is lost or duplicated, the end of a stream is reported once, and
  no thread sleeps that could run. \<^verbatim>\<open>tq_send\<close> writes the index of the stream before the object and does not take it back when the
  second write fails. The steps of \<open>tq_step\<close> include that failure, and the theorems say what is left of the promises after it: nothing
  stored is lost or reordered, but objects go out under the index \<open>attributed\<close> gives them, and each failure takes a place of the queue for good
  (\<open>tq_misattributed\<close> and \<open>tq_capacity_lost\<close> are such runs).

  \<open>AV_SyncQueue\<close> (\<^verbatim>\<open>fftools/sync_queue.c\<close>) is the queue that keeps the streams of an output file in step, over the model of the
  container FIFO. \<open>AV_SyncQueueInv\<close> has its invariant: the head is the limiting stream that lags furthest behind, the finished
  streams are those ahead of the first to end, and the counters of each stream agree with its FIFO; \<open>AV_SyncQueueOps\<close> has the
  specification of sending and receiving, with the splitting of audio into frames of a fixed size; \<open>AV_SyncQueueTrace\<close> follows the
  runs of a queue that has been set up (\<open>sq_step\<close>: sends of frames that meet \<open>frame_ok\<close>, ends of streams, receives) and shows that no frame with a
  timestamp is released before every limiting stream has reached its end, that streams are delivered complete and in order, what the
  limit on frames admits, and when the head stream makes progress: always without a fixed frame size, and with one when its samples are
  there and end by its timestamp. Positions are compared exactly for ticks
  of at most 2^28 seconds and times within 2^29 seconds (17 years) of the origin, the hypotheses \<open>tick_ok\<close> and \<open>frame_fine\<close>.
\<close>

section \<open>Bit streams\<close>

text \<open>
  \<open>AV_Bytes\<close> (\<^verbatim>\<open>intreadwrite.h\<close>) reads and writes integers in byte buffers; \<open>AV_Bits\<close> has the bit strings that specify the readers and
  writers. \<open>AV_PutBits\<close> (\<^verbatim>\<open>libavcodec/put_bits.h\<close>, \<^verbatim>\<open>bitstream.c\<close>) is the writer with its 64-bit cache: each function appends the bits
  of its field (\<open>appends\<close>) and touches nothing outside the buffer. \<open>AV_GetBits\<close> (\<^verbatim>\<open>get_bits.h\<close>) is the checked reader: under \<open>gb_inv\<close> (the
  padding the documentation asks for) no read leaves the buffer, and each function returns the next bits of the stream.
  \<open>AV_BitCode\<close> has the locale \<open>bit_code\<close>, the contract of a writer and a reader of one value, which gives the round trip of sequences of
  values through a whole buffer; plain bit fields are its first interpretation. \<open>AV_Golomb\<close> (\<^verbatim>\<open>golomb.h\<close>, \<^verbatim>\<open>golomb.c\<close>, \<^verbatim>\<open>put_golomb.h\<close>) has
  the Exp-Golomb and Rice codes with their tables, \<open>AV_GolombCodes\<close> shows that readers and writers agree on them: symbols of all kinds
  mixed in one stream are a second interpretation. The unsigned reader is moreover exact on every stream, errors included.
\<close>

section \<open>Ciphers\<close>

text \<open>
  \<open>AV_BlockCipher\<close> has the loop over blocks with its chaining mode and the locale \<open>block_cipher\<close>, the contract of a block function,
  which gives the round trip of whole messages; \<open>AV_Block128\<close> extends it to ciphers on four words. \<^verbatim>\<open>tea.c\<close> and \<^verbatim>\<open>xtea.c\<close> (\<open>AV_Tea\<close>),
  \<^verbatim>\<open>blowfish.c\<close>, \<^verbatim>\<open>cast5.c\<close>, \<^verbatim>\<open>des.c\<close>, \<^verbatim>\<open>camellia.c\<close> and \<^verbatim>\<open>twofish.c\<close> are interpretations of it, each with its tables and key schedule; where
  the code has an optimised form (the unrolled XTEA loops, the combined tables of DES and Twofish) it is proved equal to the plain
  one. \<open>AV_Rc4\<close> (\<^verbatim>\<open>rc4.c\<close>) is the stream cipher.
\<close>

section \<open>Digests and authentication codes\<close>

text \<open>
  \<open>AV_Digest\<close> has what \<^verbatim>\<open>sha.c\<close>, \<^verbatim>\<open>sha512.c\<close> and \<^verbatim>\<open>ripemd.c\<close> repeat word for word: the buffer that collects input into blocks, in both
  configurations of the build, and the padding loop. A message is specified as a whole (\<open>md_message\<close>, \<open>absorb\<close>); the locale \<open>block_hash\<close>
  states that an update function absorbs its input, and gives the digest of input in any pieces, with the padding loop shown to
  end. \<open>AV_Sha\<close>, \<open>AV_Sha512\<close>, \<open>AV_Md5\<close> and \<open>AV_Ripemd\<close> are its interpretations; their unrolled rounds, which rename the variables from call to
  call, are proved equal to the loops of the small configuration, which move the values. The specification of a digest pads and chains on its own,
  but uses the compression function of the code, whose constants \<open>AV_HashConstants\<close> checks: the tables of SHA-2 and RIPEMD, and the states
  \<^verbatim>\<open>av_sha_init\<close> and \<^verbatim>\<open>av_sha512_init\<close> leave for SHA-224, SHA-256, SHA-384 and SHA-512, against the roots of primes they are defined by. \<open>AV_Hmac\<close> (\<^verbatim>\<open>hmac.c\<close>) reaches a digest through function pointers: the locales
  \<open>message_digest\<close> and \<open>hmac_digest\<close> say what it needs of one, with an interpretation for each of the six it offers.
\<close>

section \<open>Bounds and fuel\<close>

text \<open>
  No definition has fuel. A loop whose end depends on its data is a \<^verbatim>\<open>partial_function\<close> of the option monad, and the theorem about it
  shows that it returns: the ring buffer loops end because each step moves at least one element, the loop of \<^verbatim>\<open>tq_receive\<close> because it
  either returns or removes an index, the padding of a digest (a \<^verbatim>\<open>while_option\<close>) because every byte brings the length nearer to its
  place in the block, the audio copy of the sync queue because each step takes a sample. Arithmetic bounds are
  hypotheses of the theorems and are what the C types and the documentation give.
\<close>

section \<open>Not modelled\<close>

text \<open>
  The codecs, parsers and bit stream filters of \<^verbatim>\<open>libavcodec\<close>, the demuxers and muxers of \<^verbatim>\<open>libavformat\<close>, the filters of \<^verbatim>\<open>libavfilter\<close>,
  the devices of \<^verbatim>\<open>libavdevice\<close>, and the conversions of \<^verbatim>\<open>libswscale\<close> and \<^verbatim>\<open>libswresample\<close> are more than a million lines of
  format-specific code, much of it floating-point or tables; the architecture directories (x86, arm, aarch64, riscv, ppc, mips,
  loongarch) hold hand-written assembly and intrinsics for functions that have C versions; the hardware acceleration code calls
  drivers that are not in the repository. The scheduler \<^verbatim>\<open>fftools/ffmpeg_sched.c\<close> and the rest of the tool connect the modelled queues
  with threads, options and files. In \<^verbatim>\<open>libavutil\<close> the floating-point code, options, logging, images, channel layouts and the
  frame itself are left out, and so are allocation wrappers that only call the C library. Within the modelled files, what is left
  out is listed with each component of the manifest: freeing functions that only release memory, variants for other
  configurations, and conversions from and to floating point.
\<close>

end
